(* ===== verification/Hsma_Base.thy ===== *)
theory Hsma_Base
  imports Main "HOL-Library.Word"
begin

text \<open>
  Prelude of the development. It fixes the names of the machine types of the
  sources (\<open>std::uint8_t\<close>, \<open>std::uint32_t\<close>, \<open>std::uint64_t\<close>, \<open>unsigned __int128\<close>),
  the little- and big-endian byte codecs every serializer of the code spells out as a
  shift loop, the value of a little-endian array of 64-bit limbs, and the generic
  lemmas on lists and words that the component theories share. The collections
  \<open>limb_simps\<close> and \<open>wire_simps\<close> carry the arithmetic and the codec proofs.
\<close>

unbundle bit_operations_syntax

named_theorems limb_simps "values of limb arrays and of single-limb steps"
named_theorems wire_simps "byte codecs: lengths, bits and round trips"

type_synonym u8 = "8 word"
type_synonym u16 = "16 word"
type_synonym u32 = "32 word"
type_synonym u64 = "64 word"
type_synonym u128 = "128 word"
type_synonym bytes = "u8 list"

subsection \<open>Byte codecs\<close>

text \<open>\<open>for (i = 0; i < n; ++i) out.push_back(uint8_t(v >> (8*i)))\<close>\<close>

definition le_bytes :: "nat \<Rightarrow> 'a::len word \<Rightarrow> bytes" where
  "le_bytes n v = map (\<lambda>i. ucast (drop_bit (8 * i) v)) [0..<n]"

text \<open>\<open>for (i = n-1; i >= 0; --i) out.push_back(uint8_t(v >> (8*i)))\<close>\<close>

definition be_bytes :: "nat \<Rightarrow> 'a::len word \<Rightarrow> bytes" where
  "be_bytes n v = map (\<lambda>i. ucast (drop_bit (8 * i) v)) (rev [0..<n])"

text \<open>\<open>for (i = 0; i < n; ++i) v |= T(p[i]) << (8*i)\<close>\<close>

definition le_word :: "bytes \<Rightarrow> 'a::len word" where
  "le_word p = fold (\<lambda>i v. v OR push_bit (8 * i) (ucast (p ! i))) [0..<length p] 0"

text \<open>\<open>for (i = 0; i < n; ++i) v = (v << 8) | p[i]\<close>\<close>

definition be_word :: "bytes \<Rightarrow> 'a::len word" where
  "be_word p = foldl (\<lambda>v b. push_bit 8 v OR ucast b) 0 p"

lemma length_le_bytes [simp, wire_simps]: "length (le_bytes n v) = n"
  by (simp add: le_bytes_def)

lemma length_be_bytes [simp, wire_simps]: "length (be_bytes n v) = n"
  by (simp add: be_bytes_def)

lemma nth_le_bytes: "i < n \<Longrightarrow> le_bytes n v ! i = ucast (drop_bit (8 * i) v)"
  by (simp add: le_bytes_def)

lemma be_bytes_rev: "be_bytes n v = rev (le_bytes n v)"
  by (simp add: be_bytes_def le_bytes_def rev_map)

lemma bit_le_bytes:
  fixes v :: "'a::len word"
  assumes "i < n"
  shows "bit (le_bytes n v ! i) j \<longleftrightarrow> j < 8 \<and> bit v (8 * i + j)"
  using assms by (auto simp: nth_le_bytes bit_simps add.commute)

lemma bit_fold_or:
  fixes f :: "nat \<Rightarrow> 'a::len word"
  shows "bit (fold (\<lambda>i v. v OR f i) xs z) k \<longleftrightarrow> bit z k \<or> (\<exists>i\<in>set xs. bit (f i) k)"
  by (induction xs arbitrary: z) (auto simp: bit_or_iff)

lemma bit_le_word:
  fixes p :: bytes
  shows "bit (le_word p :: 'a::len word) k \<longleftrightarrow>
    k < LENGTH('a) \<and> k div 8 < length p \<and> bit (p ! (k div 8)) (k mod 8)"
proof -
  have step: "bit (push_bit (8 * i) (ucast (p ! i)) :: 'a word) k \<longleftrightarrow>
      k < LENGTH('a) \<and> i = k div 8 \<and> bit (p ! i) (k mod 8)" for i
  proof (cases "8 * i \<le> k \<and> k < 8 * i + 8")
    case True
    then have i: "i = k div 8" by (intro div_nat_eqI [symmetric]) simp_all
    then have "k - 8 * i = k mod 8" by (simp add: minus_mult_div_eq_mod)
    with i show ?thesis
      using True by (auto simp: bit_push_bit_iff bit_simps)
  next
    case False
    then have "i \<noteq> k div 8" by auto
    moreover have "\<not> bit (push_bit (8 * i) (ucast (p ! i)) :: 'a word) k"
    proof (cases "8 * i \<le> k")
      case True
      then have "8 \<le> k - 8 * i" using False by simp
      then have "\<not> bit (p ! i) (k - 8 * i)"
        using bit_imp_le_length [of "p ! i" "k - 8 * i"] by auto
      then show ?thesis by (auto simp: bit_push_bit_iff bit_simps)
    next
      case False
      then show ?thesis by (auto simp: bit_push_bit_iff)
    qed
    ultimately show ?thesis by simp
  qed
  show ?thesis
    unfolding le_word_def bit_fold_or by (auto simp: step)
qed

lemma le_word_zeros: "le_word (replicate n 0) = 0"
  by (rule bit_word_eqI) (simp add: bit_le_word)

lemma le_word_le_bytes:
  fixes v :: "'a::len word"
  assumes "LENGTH('a) = 8 * n"
  shows "le_word (le_bytes n v) = v"
proof (rule bit_word_eqI)
  fix k assume k: "k < LENGTH('a)"
  then have "k div 8 < n" using assms by simp
  then show "bit (le_word (le_bytes n v) :: 'a word) k \<longleftrightarrow> bit v k"
    using k by (auto simp: bit_le_word bit_le_bytes)
qed

lemma le_bytes_le_word:
  fixes p :: bytes
  assumes "length p = n" and "8 * n \<le> LENGTH('a::len)"
  shows "le_bytes n (le_word p :: 'a word) = p"
proof (rule nth_equalityI)
  show "length (le_bytes n (le_word p :: 'a word)) = length p" using assms by simp
next
  fix i assume "i < length (le_bytes n (le_word p :: 'a word))"
  then have i: "i < n" by simp
  show "le_bytes n (le_word p :: 'a word) ! i = p ! i"
  proof (rule bit_word_eqI)
    fix j assume j: "j < LENGTH(8)"
    then have "8 * i + j < LENGTH('a)" using i assms by simp
    then show "bit (le_bytes n (le_word p :: 'a word) ! i) j \<longleftrightarrow> bit (p ! i) j"
      using i j assms by (simp add: bit_le_bytes bit_le_word)
  qed
qed

lemma be_word_append: "be_word (p @ [b]) = (push_bit 8 (be_word p) OR ucast b :: 'a::len word)"
  by (simp add: be_word_def)

lemma be_word_rev: "be_word (rev p) = (le_word p :: 'a::len word)"
proof (rule bit_word_eqI)
  fix k assume "k < LENGTH('a)"
  then show "bit (be_word (rev p) :: 'a word) k \<longleftrightarrow> bit (le_word p :: 'a word) k"
  proof (induction p arbitrary: k)
    case Nil
    then show ?case by (simp add: be_word_def le_word_def)
  next
    case (Cons b p)
    show ?case
    proof (cases "k < 8")
      case True
      then show ?thesis
        using Cons.prems by (simp add: be_word_append bit_or_iff bit_push_bit_iff bit_le_word bit_simps)
    next
      case False
      then have d: "k div 8 = Suc ((k - 8) div 8)" and m: "(k - 8) mod 8 = k mod 8"
        by (simp_all add: le_div_geq le_mod_geq)
      have nb: "\<not> bit b k"
        using False bit_imp_le_length [of b k] by auto
      have "bit (be_word (rev p) :: 'a word) (k - 8) \<longleftrightarrow> bit (le_word p :: 'a word) (k - 8)"
        using Cons by simp
      moreover have "k - 8 < LENGTH('a)" using Cons.prems by simp
      ultimately show ?thesis
        using Cons.prems False nb d m
        by (simp add: be_word_append bit_or_iff bit_push_bit_iff bit_le_word bit_simps)
    qed
  qed
qed

lemma be_word_be_bytes:
  fixes v :: "'a::len word"
  assumes "LENGTH('a) = 8 * n"
  shows "be_word (be_bytes n v) = v"
  using assms by (simp add: be_bytes_rev be_word_rev le_word_le_bytes)

lemma be_bytes_be_word:
  fixes p :: bytes
  assumes "length p = n" and "8 * n \<le> LENGTH('a::len)"
  shows "be_bytes n (be_word p :: 'a word) = p"
proof -
  have "be_word p = (le_word (rev p) :: 'a word)"
    using be_word_rev [of "rev p"] by simp
  then show ?thesis
    using assms le_bytes_le_word [where 'a = 'a, of "rev p" n] by (simp add: be_bytes_rev)
qed

lemmas codec_u16 = le_word_le_bytes [where 'a = 16 and n = 2, simplified]
  be_word_be_bytes [where 'a = 16 and n = 2, simplified]
lemmas codec_u32 [wire_simps] = le_word_le_bytes [where 'a = 32 and n = 4, simplified]
  be_word_be_bytes [where 'a = 32 and n = 4, simplified]
lemmas codec_u64 [wire_simps] = le_word_le_bytes [where 'a = 64 and n = 8, simplified]
  be_word_be_bytes [where 'a = 64 and n = 8, simplified]

lemma le_bytes_inject:
  fixes v w :: "'a::len word"
  assumes "LENGTH('a) = 8 * n"
  shows "le_bytes n v = le_bytes n w \<longleftrightarrow> v = w"
  using assms le_word_le_bytes by metis

end
