(* ===== verification/Limbs.thy ===== *)
theory Limbs
  imports Hsma_Base
begin

text \<open>
  Arrays of 64-bit limbs, least significant first, and the loops over them that the field
  kernels of the code share: comparison from the top limb, addition and subtraction with
  carry, the multiply-accumulate row of the Montgomery multiplications, and the carry
  ripple. Each loop is one recursive function over the array; the lemmas give the value
  the loop leaves in the array.
\<close>

subsection \<open>The value of a limb array\<close>

fun limbs_val :: "u64 list \<Rightarrow> nat" where
  "limbs_val [] = 0"
| "limbs_val (x # xs) = unat x + 2 ^ 64 * limbs_val xs"

lemma unat_u64_lt: "unat (x :: u64) < 2 ^ 64"
  using unsigned_less [of x, where ?'a = nat] by simp

lemma limbs_val_append: "limbs_val (xs @ ys) = limbs_val xs + 2 ^ (64 * length xs) * limbs_val ys"
  by (induction xs) (simp_all add: power_add algebra_simps)

lemma limbs_val_lt: "limbs_val xs < 2 ^ (64 * length xs)"
proof (induction xs)
  case (Cons x xs)
  have "unat x + 2 ^ 64 * limbs_val xs < 2 ^ 64 + 2 ^ 64 * limbs_val xs"
    using unat_u64_lt [of x] by simp
  also have "\<dots> = 2 ^ 64 * Suc (limbs_val xs)" by simp
  also have "\<dots> \<le> 2 ^ 64 * 2 ^ (64 * length xs)"
    using Cons.IH by (intro mult_le_mono2) simp
  also have "\<dots> = 2 ^ (64 * length (x # xs))" by (simp add: power_add)
  finally show ?case by simp
qed simp

lemma limbs_val_replicate_0 [simp]: "limbs_val (replicate n 0) = 0"
  by (induction n) simp_all

lemma limbs_val_update:
  "k < length xs \<Longrightarrow>
    limbs_val (xs[k := x]) + unat (xs ! k) * 2 ^ (64 * k) = limbs_val xs + unat x * 2 ^ (64 * k)"
proof (induction xs arbitrary: k)
  case (Cons y ys)
  show ?case
  proof (cases k)
    case (Suc i)
    then have "limbs_val (ys[i := x]) + unat (ys ! i) * 2 ^ (64 * i)
        = limbs_val ys + unat x * 2 ^ (64 * i)"
      using Cons by simp
    then have "2 ^ 64 * limbs_val (ys[i := x]) + 2 ^ 64 * (unat (ys ! i) * 2 ^ (64 * i))
        = 2 ^ 64 * limbs_val ys + 2 ^ 64 * (unat x * 2 ^ (64 * i))"
      by (metis add_mult_distrib2)
    then show ?thesis using Suc by (simp add: power_add algebra_simps)
  qed simp
qed simp

lemma limbs_val_inj:
  "length xs = length ys \<Longrightarrow> limbs_val xs = limbs_val ys \<Longrightarrow> xs = ys"
proof (induction xs ys rule: list_induct2)
  case (Cons x xs y ys)
  have "unat x = limbs_val (x # xs) mod 2 ^ 64" and "unat y = limbs_val (y # ys) mod 2 ^ 64"
    using unat_u64_lt [of x] unat_u64_lt [of y] by simp_all
  then have "unat x = unat y" using Cons.prems by metis
  then have xy: "x = y" by (simp add: word_unat_eq_iff)
  with Cons show ?case by simp
qed simp

lemma limbs_val_take_Suc:
  "i < length xs \<Longrightarrow>
    limbs_val (take (Suc i) xs) = limbs_val (take i xs) + unat (xs ! i) * 2 ^ (64 * i)"
  by (simp add: take_Suc_conv_app_nth limbs_val_append)

lemma limbs_val_drop:
  "limbs_val xs = limbs_val (take k xs) + 2 ^ (64 * k) * limbs_val (drop k xs)"
proof (cases "k \<le> length xs")
  case True
  then show ?thesis
    using limbs_val_append [of "take k xs" "drop k xs"] by simp
qed simp

subsection \<open>Comparison from the top limb\<close>

text \<open>\<open>for (i = n-1; i >= 0; --i) if (a[i] != b[i]) return a[i] > b[i]; return true\<close>\<close>

fun geq_loop :: "nat \<Rightarrow> u64 list \<Rightarrow> u64 list \<Rightarrow> bool" where
  "geq_loop 0 a b = True"
| "geq_loop (Suc i) a b = (if a ! i \<noteq> b ! i then a ! i > b ! i else geq_loop i a b)"

lemma top_limb_less:
  assumes "(x::nat) < y" and "l < m"
  shows "l + x * m < l' + y * m"
proof -
  have "l + x * m < m + x * m" using assms by simp
  also have "\<dots> = Suc x * m" by simp
  also have "\<dots> \<le> y * m" using assms by (intro mult_le_mono1) simp
  finally show ?thesis by simp
qed

lemma geq_loop_val:
  "n \<le> length a \<Longrightarrow> n \<le> length b \<Longrightarrow>
    geq_loop n a b \<longleftrightarrow> limbs_val (take n b) \<le> limbs_val (take n a)"
proof (induction n)
  case (Suc i)
  have bound: "limbs_val (take i xs) < 2 ^ (64 * i)" if "Suc i \<le> length xs" for xs
    using limbs_val_lt [of "take i xs"] that by (simp add: min_def split: if_splits)
  consider "a ! i = b ! i" | "a ! i < b ! i" | "b ! i < a ! i" by fastforce
  then show ?case
  proof cases
    case 1
    then show ?thesis using Suc by (simp add: limbs_val_take_Suc)
  next
    case 2
    then have "limbs_val (take (Suc i) a) < limbs_val (take (Suc i) b)"
      using Suc.prems bound [of a]
      by (simp add: limbs_val_take_Suc word_less_nat_alt top_limb_less)
    moreover have "\<not> geq_loop (Suc i) a b" using 2 by auto
    ultimately show ?thesis by auto
  next
    case 3
    then have "limbs_val (take (Suc i) b) < limbs_val (take (Suc i) a)"
      using Suc.prems bound [of b]
      by (simp add: limbs_val_take_Suc word_less_nat_alt top_limb_less)
    then show ?thesis using 3 by auto
  qed
qed simp

subsection \<open>Addition and subtraction with carry\<close>

text \<open>
  The body of the addition loop is two \<open>__builtin_add_overflow\<close> calls whose overflow flags
  are or-ed into the next carry; the subtraction loop mirrors it.
\<close>

definition add_overflow :: "'a::len word \<Rightarrow> 'a word \<Rightarrow> 'a word \<times> bool" where
  "add_overflow a b = (a + b, 2 ^ LENGTH('a) \<le> unat a + unat b)"

definition sub_overflow :: "'a::len word \<Rightarrow> 'a word \<Rightarrow> 'a word \<times> bool" where
  "sub_overflow a b = (a - b, unat a < unat b)"

fun add_loop :: "bool \<Rightarrow> u64 list \<Rightarrow> u64 list \<Rightarrow> u64 list \<times> bool" where
  "add_loop c (a # as) (b # bs) =
     (let (r, t) = add_overflow a b;
          (r', t') = add_overflow r (of_bool c);
          (rs, c') = add_loop (t \<or> t') as bs
      in (r' # rs, c'))"
| "add_loop c _ _ = ([], c)"

fun sub_loop :: "bool \<Rightarrow> u64 list \<Rightarrow> u64 list \<Rightarrow> u64 list \<times> bool" where
  "sub_loop c (a # as) (b # bs) =
     (let (r, t) = sub_overflow a b;
          (r', t') = sub_overflow r (of_bool c);
          (rs, c') = sub_loop (t \<or> t') as bs
      in (r' # rs, c'))"
| "sub_loop c _ _ = ([], c)"

lemma unat_add_overflow:
  fixes a b :: "'a::len word"
  assumes "add_overflow a b = (r, t)"
  shows "unat r + of_bool t * 2 ^ LENGTH('a) = unat a + unat b"
proof (cases "2 ^ LENGTH('a) \<le> unat a + unat b")
  case True
  have "unat a + unat b < 2 ^ LENGTH('a) + 2 ^ LENGTH('a)"
    using unsigned_less [of a, where ?'a = nat] unsigned_less [of b, where ?'a = nat] by (rule add_strict_mono)
  then have "(unat a + unat b) mod 2 ^ LENGTH('a) = unat a + unat b - 2 ^ LENGTH('a)"
    using True by (simp add: le_mod_geq)
  then show ?thesis using True assms by (auto simp: add_overflow_def unat_word_ariths)
next
  case False
  then show ?thesis using assms by (auto simp: add_overflow_def unat_word_ariths)
qed

lemma unat_sub_overflow:
  fixes a b :: "'a::len word"
  assumes "sub_overflow a b = (r, t)"
  shows "unat a + of_bool t * 2 ^ LENGTH('a) = unat r + unat b"
proof (cases "unat a < unat b")
  case True
  have "unat (a - b) = unat a + 2 ^ LENGTH('a) - unat b"
    using True by (simp add: unat_sub_if')
  moreover have "unat b \<le> unat a + 2 ^ LENGTH('a)"
    using unsigned_less [of b, where ?'a = nat] by (simp add: trans_le_add2 less_imp_le)
  ultimately show ?thesis
    using True assms by (auto simp: sub_overflow_def)
next
  case False
  then have "unat (a - b) = unat a - unat b" by (simp add: unat_sub_if')
  then show ?thesis using False assms by (auto simp: sub_overflow_def)
qed

lemma unat_of_bool_u64 [simp]: "unat (of_bool c :: u64) = of_bool c"
  by (cases c) simp_all

lemma add_loop_length: "length as = length bs \<Longrightarrow> length (fst (add_loop c as bs)) = length as"
  by (induction c as bs rule: add_loop.induct) (auto simp: Let_def split: prod.splits)

lemma sub_loop_length: "length as = length bs \<Longrightarrow> length (fst (sub_loop c as bs)) = length as"
  by (induction c as bs rule: sub_loop.induct) (auto simp: Let_def split: prod.splits)

lemma add_loop_val:
  "length as = length bs \<Longrightarrow> add_loop c as bs = (rs, c') \<Longrightarrow>
    limbs_val rs + of_bool c' * 2 ^ (64 * length as) = limbs_val as + limbs_val bs + of_bool c"
proof (induction c as bs arbitrary: rs c' rule: add_loop.induct)
  case (1 c a as b bs)
  obtain r t where r: "add_overflow a b = (r, t)" by fastforce
  obtain r' t' where r': "add_overflow r (of_bool c) = (r', t')" by fastforce
  obtain rs1 where rs1: "add_loop (t \<or> t') as bs = (rs1, c')" and rs: "rs = r' # rs1"
    using "1.prems" r r' by (auto simp: Let_def split: prod.splits)
  have IH: "limbs_val rs1 + of_bool c' * 2 ^ (64 * length as)
      = limbs_val as + limbs_val bs + of_bool (t \<or> t')"
    using "1.IH" [OF r [symmetric] refl r' [symmetric] refl] "1.prems" rs1 by simp
  have v: "unat r + of_bool t * 2 ^ 64 = unat a + unat b"
    "unat r' + of_bool t' * 2 ^ 64 = unat r + of_bool c"
    using unat_add_overflow [OF r] unat_add_overflow [OF r'] by simp_all
  have "\<not> (t \<and> t')"
    using v unat_u64_lt [of a] unat_u64_lt [of b] unat_u64_lt [of r]
    by (cases t; cases t'; cases c) simp_all
  then have s: "unat r' + of_bool (t \<or> t') * 2 ^ 64 = unat a + unat b + of_bool c"
    using v by (cases t; cases t') simp_all
  have "2 ^ 64 * (limbs_val rs1 + of_bool c' * 2 ^ (64 * length as))
      = 2 ^ 64 * (limbs_val as + limbs_val bs + of_bool (t \<or> t'))"
    using IH by simp
  then show ?case using s rs by (simp add: power_add algebra_simps)
qed auto

lemma sub_loop_val:
  "length as = length bs \<Longrightarrow> sub_loop c as bs = (rs, c') \<Longrightarrow>
    limbs_val as + of_bool c' * 2 ^ (64 * length as) = limbs_val rs + limbs_val bs + of_bool c"
proof (induction c as bs arbitrary: rs c' rule: sub_loop.induct)
  case (1 c a as b bs)
  obtain r t where r: "sub_overflow a b = (r, t)" by fastforce
  obtain r' t' where r': "sub_overflow r (of_bool c) = (r', t')" by fastforce
  obtain rs1 where rs1: "sub_loop (t \<or> t') as bs = (rs1, c')" and rs: "rs = r' # rs1"
    using "1.prems" r r' by (auto simp: Let_def split: prod.splits)
  have IH: "limbs_val as + of_bool c' * 2 ^ (64 * length as)
      = limbs_val rs1 + limbs_val bs + of_bool (t \<or> t')"
    using "1.IH" [OF r [symmetric] refl r' [symmetric] refl] "1.prems" rs1 by simp
  have v: "unat a + of_bool t * 2 ^ 64 = unat r + unat b"
    "unat r + of_bool t' * 2 ^ 64 = unat r' + of_bool c"
    using unat_sub_overflow [OF r] unat_sub_overflow [OF r'] by simp_all
  have "\<not> (t \<and> t')"
    using v unat_u64_lt [of a] unat_u64_lt [of b] unat_u64_lt [of r'] unat_u64_lt [of r]
    by (cases t; cases t'; cases c) simp_all
  then have s: "unat a + of_bool (t \<or> t') * 2 ^ 64 = unat r' + unat b + of_bool c"
    using v by (cases t; cases t') simp_all
  have "2 ^ 64 * (limbs_val as + of_bool c' * 2 ^ (64 * length as))
      = 2 ^ 64 * (limbs_val rs1 + limbs_val bs + of_bool (t \<or> t'))"
    using IH by simp
  then show ?case using s rs by (simp add: power_add algebra_simps)
qed auto

subsection \<open>Multiply-accumulate rows and the carry ripple\<close>

text \<open>
  One step of every Montgomery kernel: \<open>u128 cur = (u128)T + (u128)a * m + carry\<close>, of which
  the low limb is stored and the high limb is the next carry.
\<close>

definition mac :: "u64 \<Rightarrow> u64 \<Rightarrow> u64 \<Rightarrow> u64 \<Rightarrow> u64 \<times> u64" where
  "mac t a m c =
     (let cur = ucast t + ucast a * ucast m + ucast c :: u128
      in (ucast cur, ucast (drop_bit 64 cur)))"

lemma unat_ucast_u64_u128 [simp]: "unat (ucast (x :: u64) :: u128) = unat x"
  using unat_u64_lt [of x] by (simp add: unsigned_ucast_eq take_bit_eq_mod)

lemma u128_split:
  "unat (ucast (x :: u128) :: u64) + 2 ^ 64 * unat (ucast (drop_bit 64 x) :: u64) = unat x"
proof -
  have "unat x < 2 ^ 128" using unsigned_less [of x, where ?'a = nat] by simp
  then have "unat x div 2 ^ 64 < 2 ^ 64" by (simp add: less_mult_imp_div_less)
  then have hi: "unat (ucast (drop_bit 64 x) :: u64) = unat x div 2 ^ 64"
    by (simp add: unsigned_ucast_eq take_bit_eq_mod drop_bit_eq_div unat_div_distrib)
  have lo: "unat (ucast x :: u64) = unat x mod 2 ^ 64"
    by (simp add: unsigned_ucast_eq take_bit_eq_mod)
  show ?thesis unfolding hi lo by simp
qed

lemma mac_fits: "(t::nat) < 2 ^ 64 \<Longrightarrow> a < 2 ^ 64 \<Longrightarrow> m < 2 ^ 64 \<Longrightarrow> c < 2 ^ 64 \<Longrightarrow> t + a * m + c < 2 ^ 128"
proof -
  assume *: "t < 2 ^ 64" "a < 2 ^ 64" "m < 2 ^ 64" "c < (2::nat) ^ 64"
  have "a * m \<le> (2 ^ 64 - 1) * (2 ^ 64 - 1)" using * by (intro mult_le_mono) simp_all
  then show ?thesis using * by simp
qed

lemma mac_val: "mac t a m c = (lo, hi) \<Longrightarrow>
    unat lo + 2 ^ 64 * unat hi = unat t + unat a * unat m + unat c"
proof -
  assume eq: "mac t a m c = (lo, hi)"
  let ?cur = "ucast t + ucast a * ucast m + ucast c :: u128"
  have fits: "unat t + unat a * unat m + unat c < 2 ^ 128"
    by (intro mac_fits unat_u64_lt)
  have "unat ?cur = unat t + unat a * unat m + unat c"
    using fits by (simp add: unat_word_ariths)
  with u128_split [of ?cur] eq show ?thesis by (auto simp: mac_def Let_def)
qed

lemma mac_low: "mac t a m c = (lo, hi) \<Longrightarrow> lo = t + a * m + c"
proof -
  assume *: "mac t a m c = (lo, hi)"
  have "unat lo = (unat lo + 2 ^ 64 * unat hi) mod 2 ^ 64" using unat_u64_lt [of lo] by simp
  also have "\<dots> = unat (t + a * m + c)"
    unfolding mac_val [OF *] by (simp add: unat_word_ariths mod_simps)
  finally show ?thesis by (simp add: word_unat_eq_iff)
qed

text \<open>
  \<open>for (j = 0; j < n; ++j) { cur = T[k+j] + a[j]*m + carry; T[k+j] = lo; carry = hi; }\<close>
\<close>

fun mac_loop :: "u64 list \<Rightarrow> nat \<Rightarrow> u64 list \<Rightarrow> u64 \<Rightarrow> u64 \<Rightarrow> u64 list \<times> u64" where
  "mac_loop T k [] m c = (T, c)"
| "mac_loop T k (a # as) m c =
     (let (lo, hi) = mac (T ! k) a m c in mac_loop (T[k := lo]) (Suc k) as m hi)"

text \<open>
  \<open>while (carry) { cur = T[k] + carry; T[k] = lo; carry = hi; ++k; }\<close>. The loop of the code
  has no bound on \<open>k\<close>: writing at \<open>k = length T\<close> leaves the array, which is
  undefined behaviour and \<^const>\<open>None\<close> here.
\<close>

function ripple :: "u64 list \<Rightarrow> nat \<Rightarrow> u64 \<Rightarrow> u64 list option" where
  "ripple T k c =
     (if c = 0 then Some T
      else if length T \<le> k then None
      else let (lo, hi) = mac (T ! k) 0 0 c in ripple (T[k := lo]) (Suc k) hi)"
  by pat_completeness auto
termination
  by (relation "measure (\<lambda>(T, k, c). length T - k)") auto

declare ripple.simps [simp del]

lemma mac_loop_length: "length (fst (mac_loop T k as m c)) = length T"
  by (induction T k as m c rule: mac_loop.induct) (auto split: prod.splits)

lemma mac_loop_take: "j \<le> k \<Longrightarrow> take j (fst (mac_loop T k as m c)) = take j T"
  by (induction T k as m c rule: mac_loop.induct) (auto split: prod.splits)

lemma mac_loop_val:
  "k + length as \<le> length T \<Longrightarrow> mac_loop T k as m c = (T', c') \<Longrightarrow>
    limbs_val T' + unat c' * 2 ^ (64 * (k + length as))
      = limbs_val T + (limbs_val as * unat m + unat c) * 2 ^ (64 * k)"
proof (induction T k as m c arbitrary: T' c' rule: mac_loop.induct)
  case (2 T k a as m c)
  obtain lo hi where lh: "mac (T ! k) a m c = (lo, hi)" by fastforce
  have IH: "limbs_val T' + unat c' * 2 ^ (64 * (Suc k + length as))
      = limbs_val (T[k := lo]) + (limbs_val as * unat m + unat hi) * 2 ^ (64 * Suc k)"
    using "2.IH" [OF lh [symmetric] refl] "2.prems" lh by simp
  have up: "limbs_val (T[k := lo]) + unat (T ! k) * 2 ^ (64 * k)
      = limbs_val T + unat lo * 2 ^ (64 * k)"
    using "2.prems" by (intro limbs_val_update) simp
  have "(unat lo + 2 ^ 64 * unat hi) * 2 ^ (64 * k)
      = (unat (T ! k) + unat a * unat m + unat c) * 2 ^ (64 * k)"
    using mac_val [OF lh] by simp
  with IH up show ?case by (simp add: power_add algebra_simps)
qed simp

lemma ripple_length: "ripple T k c = Some T' \<Longrightarrow> length T' = length T"
proof (induction T k c rule: ripple.induct)
  case (1 T k c)
  then show ?case
    by (subst (asm) ripple.simps) (auto split: if_splits prod.splits)
qed

lemma ripple_take: "ripple T k c = Some T' \<Longrightarrow> j \<le> k \<Longrightarrow> take j T' = take j T"
proof (induction T k c rule: ripple.induct)
  case (1 T k c)
  obtain lo hi where lh: "mac (T ! k) 0 0 c = (lo, hi)" by fastforce
  show ?case
  proof (cases "c = 0")
    case True
    then show ?thesis using "1.prems" by (simp add: ripple.simps)
  next
    case False
    then have k: "k < length T" and r: "ripple (T[k := lo]) (Suc k) hi = Some T'"
      using "1.prems" lh by (auto simp: ripple.simps [of T k c] split: if_splits)
    then have "take j T' = take j (T[k := lo])"
      using "1.IH" [OF False _ lh [symmetric] refl] "1.prems" by simp
    then show ?thesis using "1.prems" by simp
  qed
qed

text \<open>The ripple adds \<open>c * 2 ^ (64 * k)\<close>, and leaves the array only if the sum does not fit.\<close>

lemma ripple_val:
  assumes "k \<le> length T" and "limbs_val T + unat c * 2 ^ (64 * k) < 2 ^ (64 * length T)"
  shows "\<exists>T'. ripple T k c = Some T' \<and> limbs_val T' = limbs_val T + unat c * 2 ^ (64 * k)"
  using assms
proof (induction T k c rule: ripple.induct)
  case (1 T k c)
  obtain lo hi where lh: "mac (T ! k) 0 0 c = (lo, hi)" by fastforce
  show ?case
  proof (cases "c = 0")
    case True
    then show ?thesis by (simp add: ripple.simps)
  next
    case False
    then have "1 \<le> unat c" by (simp add: Suc_le_eq unat_gt_0)
    then have "2 ^ (64 * k) \<le> unat c * 2 ^ (64 * k)" by simp
    then have "2 ^ (64 * k) < (2::nat) ^ (64 * length T)" using "1.prems" by linarith
    then have k: "k < length T" by simp
    have m: "unat lo + 2 ^ 64 * unat hi = unat (T ! k) + unat c"
      using mac_val [OF lh] by simp
    have up: "limbs_val (T[k := lo]) + unat (T ! k) * 2 ^ (64 * k)
        = limbs_val T + unat lo * 2 ^ (64 * k)"
      using k by (rule limbs_val_update)
    have "(unat lo + 2 ^ 64 * unat hi) * 2 ^ (64 * k) = (unat (T ! k) + unat c) * 2 ^ (64 * k)"
      using m by simp
    with up have v: "limbs_val (T[k := lo]) + unat hi * 2 ^ (64 * Suc k)
        = limbs_val T + unat c * 2 ^ (64 * k)"
      by (simp add: power_add algebra_simps)
    have "\<not> length T \<le> k" using k by simp
    then obtain T' where "ripple (T[k := lo]) (Suc k) hi = Some T'"
      "limbs_val T' = limbs_val (T[k := lo]) + unat hi * 2 ^ (64 * Suc k)"
      using "1.IH" [OF False _ lh [symmetric] refl] k v "1.prems" by auto
    then show ?thesis using v False k lh by (auto simp: ripple.simps [of T k c])
  qed
qed

end
