(* ===== verification/Field_Spec.thy ===== *)
theory Field_Spec
  imports Hsma_Base "HOL-Library.Numeral_Type"
begin

text \<open>
  The interface between the field kernels and their clients. A kernel provides a set of
  canonical representations, a decoding into a residue ring, and operations that commute
  with the decoding; a client proves its algebra in the ring. The residue rings are the
  numeral types of the library (a type of \<open>n\<close> elements with arithmetic modulo \<open>n\<close>).
\<close>

named_theorems dec_simps "decoding of field expressions into the residue ring"

subsection \<open>Residues\<close>

lemma of_int_eq_iff_mod:
  "(of_int a :: 'a::finite bit1) = of_int b \<longleftrightarrow>
    a mod int CARD('a bit1) = b mod int CARD('a bit1)"
  by (simp only: bit1.of_int_eq) (subst Abs_bit1_inject, auto)

lemma of_nat_eq_iff_mod:
  "(of_nat a :: 'a::finite bit1) = of_nat b \<longleftrightarrow> a mod CARD('a bit1) = b mod CARD('a bit1)"
  using of_int_eq_iff_mod [of "int a" "int b", where 'a = 'a]
  by (simp only: of_int_of_nat_eq flip: of_nat_mod) simp

subsection \<open>The kernel interface\<close>

locale field_kernel =
  fixes canon :: "'f \<Rightarrow> bool"
    and dec :: "'f \<Rightarrow> 'r::comm_ring_1"
    and add sub mul :: "'f \<Rightarrow> 'f \<Rightarrow> 'f"
    and zero one :: 'f
  assumes canon_zero: "canon zero" and canon_one: "canon one"
    and canon_add: "canon a \<Longrightarrow> canon b \<Longrightarrow> canon (add a b)"
    and canon_sub: "canon a \<Longrightarrow> canon b \<Longrightarrow> canon (sub a b)"
    and canon_mul: "canon a \<Longrightarrow> canon b \<Longrightarrow> canon (mul a b)"
    and dec_zero: "dec zero = 0" and dec_one: "dec one = 1"
    and dec_add: "canon a \<Longrightarrow> canon b \<Longrightarrow> dec (add a b) = dec a + dec b"
    and dec_sub: "canon a \<Longrightarrow> canon b \<Longrightarrow> dec (sub a b) = dec a - dec b"
    and dec_mul: "canon a \<Longrightarrow> canon b \<Longrightarrow> dec (mul a b) = dec a * dec b"
    and dec_inj: "canon a \<Longrightarrow> canon b \<Longrightarrow> dec a = dec b \<Longrightarrow> a = b"
begin

lemma dec_eq_iff: "canon a \<Longrightarrow> canon b \<Longrightarrow> dec a = dec b \<longleftrightarrow> a = b"
  using dec_inj by blast

lemma canon_foldl_add:
  "canon z \<Longrightarrow> list_all canon xs \<Longrightarrow> canon (foldl add z xs)"
  by (induction xs arbitrary: z) (simp_all add: canon_add)

lemma dec_foldl_add:
  "canon z \<Longrightarrow> list_all canon xs \<Longrightarrow> dec (foldl add z xs) = dec z + sum_list (map dec xs)"
  by (induction xs arbitrary: z) (simp_all add: canon_add dec_add add.assoc)

lemma mul_comm: "canon a \<Longrightarrow> canon b \<Longrightarrow> mul a b = mul b a"
  by (intro dec_inj) (simp_all add: canon_mul dec_mul mult.commute)

lemma mul_assoc: "canon a \<Longrightarrow> canon b \<Longrightarrow> canon c \<Longrightarrow> mul (mul a b) c = mul a (mul b c)"
  by (intro dec_inj) (simp_all add: canon_mul dec_mul mult.assoc)

lemma mul_one: "canon a \<Longrightarrow> mul a one = a"
  by (intro dec_inj) (simp_all add: canon_mul canon_one dec_mul dec_one)

lemma add_comm: "canon a \<Longrightarrow> canon b \<Longrightarrow> add a b = add b a"
  by (intro dec_inj) (simp_all add: canon_add dec_add add.commute)

lemma add_zero: "canon a \<Longrightarrow> add a zero = a"
  by (intro dec_inj) (simp_all add: canon_add canon_zero dec_add dec_zero)

lemma sub_add: "canon a \<Longrightarrow> canon b \<Longrightarrow> add (sub a b) b = a"
  by (intro dec_inj) (simp_all add: canon_add canon_sub dec_add dec_sub)

lemma sub_self: "canon a \<Longrightarrow> sub a a = zero"
  by (intro dec_inj) (simp_all add: canon_sub canon_zero dec_sub dec_zero)

lemma mul_add_distrib:
  "canon a \<Longrightarrow> canon b \<Longrightarrow> canon c \<Longrightarrow> mul a (add b c) = add (mul a b) (mul a c)"
  by (intro dec_inj) (simp_all add: canon_mul canon_add dec_mul dec_add distrib_left)

end

end
