(* ===== verification/Field.thy ===== *)
theory Field
  imports Limbs Field_Spec
begin

text \<open>
  The Pallas base field of \<open>src/include/hsma/fe.hpp\<close>: 4 x 64-bit limbs in the Montgomery
  domain, over the modulus of \<open>src/generated/pallas_params_gen.hpp\<close>. The struct is the
  datatype \<open>fe\<close>; every function of the header is one definition. The theorems show that on
  canonical operands the SOS multiplication never writes outside its 8-limb buffer and
  computes \<open>a * b * R^-1 mod p\<close>, that addition, subtraction and the domain conversions are
  the ring operations, and that the byte codec is a canonical bijection that rejects every
  other encoding.
\<close>

subsection \<open>Generated parameters\<close>

definition MOD :: "u64 list" where
  "MOD = [0x8c46eb2100000001, 0x224698fc0994a8dd, 0x0000000000000000, 0x4000000000000000]"

definition INV :: u64 where
  "INV = 0x8c46eb20ffffffff"

definition RR :: "u64 list" where
  "RR = [0xfc9678ff0000000f, 0x67bb433d891a16e3, 0x7fae231004ccf590, 0x096d41af7ccfdaa9]"

definition R_ONE :: "u64 list" where
  "R_ONE = [0x5b2b3e9cfffffffd, 0x992c350be3420567, 0xffffffffffffffff, 0x3fffffffffffffff]"

text \<open>The modulus as a number, the prime the header calls \<open>p\<close>.\<close>

definition pallas_p :: nat where
  "pallas_p = limbs_val MOD"

subsection \<open>The element type\<close>

datatype fe = Fe u64 u64 u64 u64

fun limbs :: "fe \<Rightarrow> u64 list" where
  "limbs (Fe a b c d) = [a, b, c, d]"

definition fe_of_limbs :: "u64 list \<Rightarrow> fe" where
  "fe_of_limbs xs = Fe (xs ! 0) (xs ! 1) (xs ! 2) (xs ! 3)"

definition fe_val :: "fe \<Rightarrow> nat" where
  "fe_val x = limbs_val (limbs x)"

subsection \<open>Limb primitives\<close>

definition geq :: "u64 list \<Rightarrow> u64 list \<Rightarrow> bool" where
  "geq a b = geq_loop 4 a b"

definition is_canonical :: "fe \<Rightarrow> bool" where
  "is_canonical x = (\<not> geq (limbs x) MOD)"

definition sub_assumed :: "u64 list \<Rightarrow> u64 list \<Rightarrow> u64 list" where
  "sub_assumed a b = fst (sub_loop False a b)"

definition add_into :: "u64 list \<Rightarrow> u64 list \<Rightarrow> u64 list" where
  "add_into r b = fst (add_loop False r b)"

subsection \<open>SOS Montgomery multiplication\<close>

text \<open>Phase (1): the schoolbook rows, each followed by a ripple from \<open>T[i+4]\<close>.\<close>

fun sos_product :: "u64 list \<Rightarrow> nat \<Rightarrow> u64 list \<Rightarrow> u64 list \<Rightarrow> u64 list option" where
  "sos_product T i A [] = Some T"
| "sos_product T i A (b # bs) =
     (let (T1, carry) = mac_loop T i A b 0
      in case ripple T1 (i + 4) carry of
           None \<Rightarrow> None
         | Some T2 \<Rightarrow> sos_product T2 (Suc i) A bs)"

text \<open>
  Phase (2): round \<open>i\<close> takes \<open>m = T[i] * INV\<close>, folds \<open>m * MOD\<close> in from \<open>T[i+1]\<close> on (the
  low limb only yields a carry and is not written back) and ripples from \<open>T[i+4]\<close>.
\<close>

definition sos_round :: "u64 list \<Rightarrow> nat \<Rightarrow> u64 list option" where
  "sos_round T i =
     (let m = T ! i * INV;
          carry = snd (mac (T ! i) (MOD ! 0) m 0);
          (T1, carry1) = mac_loop T (Suc i) (tl MOD) m carry
      in ripple T1 (i + 4) carry1)"

fun sos_reduce :: "nat \<Rightarrow> nat \<Rightarrow> u64 list \<Rightarrow> u64 list option" where
  "sos_reduce 0 i T = Some T"
| "sos_reduce (Suc n) i T =
     (case sos_round T i of None \<Rightarrow> None | Some T' \<Rightarrow> sos_reduce n (Suc i) T')"

text \<open>
  \<open>fe_mul_checked\<close> is the body of \<open>fe_mul\<close>; \<^const>\<open>None\<close> is a carry that leaves \<open>T[7]\<close>,
  undefined behaviour of the code. \<open>fe_mul\<close> itself returns an unspecified element there.
\<close>

definition fe_mul_checked :: "fe \<Rightarrow> fe \<Rightarrow> fe option" where
  "fe_mul_checked A B =
     (case sos_product (replicate 8 0) 0 (limbs A) (limbs B) of
        None \<Rightarrow> None
      | Some T \<Rightarrow>
          (case sos_reduce 4 0 T of
             None \<Rightarrow> None
           | Some T' \<Rightarrow>
               (let r = fe_of_limbs (drop 4 T')
                in Some (if \<not> is_canonical r then fe_of_limbs (sub_assumed (limbs r) MOD) else r))))"

definition fe_mul :: "fe \<Rightarrow> fe \<Rightarrow> fe" where
  "fe_mul A B = the (fe_mul_checked A B)"

definition fe_sqr :: "fe \<Rightarrow> fe" where
  "fe_sqr a = fe_mul a a"

subsection \<open>Additive group\<close>

definition fe_add :: "fe \<Rightarrow> fe \<Rightarrow> fe" where
  "fe_add a b =
     (let (r, c) = add_loop False (limbs a) (limbs b)
      in if c \<or> \<not> is_canonical (fe_of_limbs r) then fe_of_limbs (sub_assumed r MOD)
         else fe_of_limbs r)"

definition fe_sub :: "fe \<Rightarrow> fe \<Rightarrow> fe" where
  "fe_sub a b =
     (let (r, borrow) = sub_loop False (limbs a) (limbs b)
      in if borrow then fe_of_limbs (add_into r MOD) else fe_of_limbs r)"

subsection \<open>Domain conversions\<close>

definition fe_from_u64 :: "u64 \<Rightarrow> fe" where
  "fe_from_u64 x = fe_mul (Fe x 0 0 0) (fe_of_limbs RR)"

definition fe_to_canonical :: "fe \<Rightarrow> fe" where
  "fe_to_canonical x = fe_mul x (Fe 1 0 0 0)"

definition fe_one :: fe where
  "fe_one = fe_of_limbs R_ONE"

definition fe_zero :: fe where
  "fe_zero = Fe 0 0 0 0"

definition fe_is_zero :: "fe \<Rightarrow> bool" where
  "fe_is_zero x = (limbs x = [0, 0, 0, 0])"

definition fe_from_canonical_limbs :: "u64 list \<Rightarrow> fe" where
  "fe_from_canonical_limbs c = fe_mul (fe_of_limbs c) (fe_of_limbs RR)"

subsection \<open>Canonical serialization\<close>

text \<open>\<open>memcpy\<close> of the four limbs to or from 32 bytes on a little-endian host.\<close>

definition limbs_to_bytes :: "u64 list \<Rightarrow> bytes" where
  "limbs_to_bytes xs = concat (map (le_bytes 8) xs)"

definition bytes_to_limbs :: "bytes \<Rightarrow> u64 list" where
  "bytes_to_limbs bs = map (\<lambda>i. le_word (take 8 (drop (8 * i) bs))) [0..<4]"

definition fe_to_le_bytes :: "fe \<Rightarrow> bytes" where
  "fe_to_le_bytes x = limbs_to_bytes (limbs (fe_to_canonical x))"

text \<open>\<open>FeFromBytes\<close> is the pair of its two fields \<open>ok\<close> and \<open>value\<close>.\<close>

record FeFromBytes =
  ffb_ok :: bool
  ffb_value :: fe

definition fe_from_le_bytes :: "bytes \<Rightarrow> FeFromBytes" where
  "fe_from_le_bytes bs =
     (let x = fe_of_limbs (bytes_to_limbs bs)
      in if \<not> is_canonical x then \<lparr>ffb_ok = False, ffb_value = fe_zero\<rparr>
         else \<lparr>ffb_ok = True, ffb_value = fe_mul x (fe_of_limbs RR)\<rparr>)"

subsection \<open>Constants\<close>

lemma pallas_p_eq:
  "pallas_p = 0x40000000000000000000000000000000224698fc0994a8dd8c46eb2100000001"
  by (simp add: pallas_p_def MOD_def)

lemma pallas_p_pos: "0 < pallas_p"
  by (simp add: pallas_p_eq)

lemma length_MOD [simp]: "length MOD = 4"
  by (simp add: MOD_def)

lemma limbs_val_MOD [simp]: "limbs_val MOD = pallas_p"
  by (simp add: pallas_p_def)

lemma length_limbs [simp]: "length (limbs x) = 4"
  by (cases x) simp

lemma limbs_of_limbs [simp]: "length xs = 4 \<Longrightarrow> limbs (fe_of_limbs xs) = xs"
  by (auto simp: fe_of_limbs_def numeral_eq_Suc length_Suc_conv)

lemma fe_of_limbs_limbs [simp]: "fe_of_limbs (limbs x) = x"
  by (cases x) (simp add: fe_of_limbs_def)

lemma fe_val_of_limbs [simp]: "length xs = 4 \<Longrightarrow> fe_val (fe_of_limbs xs) = limbs_val xs"
  by (simp add: fe_val_def)

lemma limbs_inject [simp]: "limbs x = limbs y \<longleftrightarrow> x = y"
  by (metis fe_of_limbs_limbs)

lemma fe_val_inj: "fe_val x = fe_val y \<Longrightarrow> x = y"
  using limbs_val_inj [of "limbs x" "limbs y"] by (simp add: fe_val_def)

lemma fe_val_lt: "fe_val x < 2 ^ 256"
  using limbs_val_lt [of "limbs x"] by (simp add: fe_val_def)

lemma is_canonical_iff: "is_canonical x \<longleftrightarrow> fe_val x < pallas_p"
  using geq_loop_val [of 4 "limbs x" MOD]
  by (simp add: is_canonical_def geq_def fe_val_def not_le)

subsection \<open>The multiplication kernel\<close>

lemma sos_product_val:
  assumes "length T = 8" and "length A = 4" and "i + length bs \<le> 4"
    and "limbs_val T + limbs_val A * limbs_val bs * 2 ^ (64 * i) < 2 ^ 512"
  shows "\<exists>T'. sos_product T i A bs = Some T' \<and> length T' = 8
    \<and> limbs_val T' = limbs_val T + limbs_val A * limbs_val bs * 2 ^ (64 * i)"
  using assms
proof (induction T i A bs rule: sos_product.induct)
  case (2 T i A b bs)
  obtain T1 c where m: "mac_loop T i A b 0 = (T1, c)" by fastforce
  then have l1: "length T1 = 8" using mac_loop_length [of T i A b 0] "2.prems" by simp
  have v1: "limbs_val T1 + unat c * 2 ^ (64 * (i + 4))
      = limbs_val T + limbs_val A * unat b * 2 ^ (64 * i)"
    using mac_loop_val [OF _ m] "2.prems" by simp
  have tot: "limbs_val T + limbs_val A * limbs_val (b # bs) * 2 ^ (64 * i)
      = limbs_val T1 + unat c * 2 ^ (64 * (i + 4))
        + limbs_val A * limbs_val bs * 2 ^ (64 * Suc i)"
    unfolding v1 by (simp add: power_add algebra_simps)
  have lim: "limbs_val T1 + unat c * 2 ^ (64 * (i + 4)) < 2 ^ (64 * length T1)"
    using tot "2.prems" l1 by simp
  have "i + 4 \<le> length T1" using l1 "2.prems" by simp
  with lim obtain T2 where r: "ripple T1 (i + 4) c = Some T2"
    and v2: "limbs_val T2 = limbs_val T1 + unat c * 2 ^ (64 * (i + 4))"
    using ripple_val by blast
  have l2: "length T2 = 8" using ripple_length [OF r] l1 by simp
  have "\<exists>T'. sos_product T2 (Suc i) A bs = Some T' \<and> length T' = 8
      \<and> limbs_val T' = limbs_val T2 + limbs_val A * limbs_val bs * 2 ^ (64 * Suc i)"
    using "2.prems" tot v2 l2 by (intro "2.IH" [OF m [symmetric] refl r]) simp_all
  then show ?case using m r tot v2 by auto
qed simp

lemma INV_MOD0: "(x * INV) * (MOD ! 0) = - x"
proof -
  have "INV * (MOD ! 0) = - 1" by (simp add: INV_def MOD_def)
  then show ?thesis by (simp add: mult.assoc)
qed

lemma sos_low_limb:
  assumes "mac t (MOD ! 0) (t * INV) 0 = (lo, hi)"
  shows "unat t + unat (MOD ! 0) * unat (t * INV) = 2 ^ 64 * unat hi"
proof -
  have "lo = t + (MOD ! 0) * (t * INV)" using mac_low [OF assms] by simp
  then have "lo = 0" using INV_MOD0 [of t] by (simp add: mult.commute)
  then show ?thesis using mac_val [OF assms] by simp
qed

lemma sos_round_val:
  assumes len: "length T = 8" and i: "i < 4"
    and m: "m = T ! i * INV"
    and fits: "limbs_val (drop i T) + unat m * pallas_p < 2 ^ (64 * (8 - i))"
  shows "\<exists>T'. sos_round T i = Some T' \<and> length T' = 8
    \<and> 2 ^ 64 * limbs_val (drop (Suc i) T') = limbs_val (drop i T) + unat m * pallas_p"
proof -
  obtain lo c0 where lo: "mac (T ! i) (MOD ! 0) m 0 = (lo, c0)" by fastforce
  obtain T1 c1 where T1: "mac_loop T (Suc i) (tl MOD) m c0 = (T1, c1)" by fastforce
  let ?X = "limbs_val (tl MOD) * unat m + unat c0"
  have l1: "length T1 = 8" using mac_loop_length [of T "Suc i" "tl MOD" m c0] T1 len by simp
  have v1: "limbs_val T1 + unat c1 * 2 ^ (64 * (i + 4)) = limbs_val T + ?X * 2 ^ (64 * Suc i)"
    using mac_loop_val [OF _ T1] len i by (simp add: MOD_def add.commute)
  have cons: "drop i T = T ! i # drop (Suc i) T" using len i by (simp add: Cons_nth_drop_Suc)
  have p: "pallas_p = unat (MOD ! 0) + 2 ^ 64 * limbs_val (tl MOD)"
    by (simp add: pallas_p_def MOD_def)
  have low: "unat (T ! i) + unat (MOD ! 0) * unat m = 2 ^ 64 * unat c0"
    using sos_low_limb lo m by simp
  have key: "limbs_val (drop i T) + unat m * pallas_p
      = 2 ^ 64 * (limbs_val (drop (Suc i) T) + ?X)"
    using low unfolding cons p by (simp add: algebra_simps)
  have vT: "limbs_val T = limbs_val (take (Suc i) T) + 2 ^ (64 * Suc i) * limbs_val (drop (Suc i) T)"
    by (rule limbs_val_drop)
  have tk: "limbs_val (take (Suc i) T) < 2 ^ (64 * Suc i)"
    using limbs_val_lt [of "take (Suc i) T"] len i by (simp add: min_def)
  have "2 ^ 64 * (limbs_val (drop (Suc i) T) + ?X) < 2 ^ 64 * 2 ^ (64 * (7 - i))"
  proof -
    have "8 - i = Suc (7 - i)" using i by simp
    then have "(2::nat) ^ (64 * (8 - i)) = 2 ^ 64 * 2 ^ (64 * (7 - i))" by (simp add: power_add)
    then show ?thesis using fits unfolding key by (simp only:)
  qed
  then have "Suc (limbs_val (drop (Suc i) T) + ?X) \<le> 2 ^ (64 * (7 - i))" by simp
  then have "2 ^ (64 * Suc i) * Suc (limbs_val (drop (Suc i) T) + ?X)
      \<le> 2 ^ (64 * Suc i) * 2 ^ (64 * (7 - i))"
    by (rule mult_le_mono2)
  also have "\<dots> = 2 ^ 512" using i by (simp flip: power_add add: algebra_simps)
  finally have "2 ^ (64 * Suc i) + 2 ^ (64 * Suc i) * (limbs_val (drop (Suc i) T) + ?X) \<le> 2 ^ 512"
    by (simp add: algebra_simps)
  then have lim: "limbs_val T1 + unat c1 * 2 ^ (64 * (i + 4)) < 2 ^ (64 * length T1)"
    using tk l1 unfolding v1 vT by (simp add: algebra_simps)
  have "i + 4 \<le> length T1" using l1 i by simp
  with lim obtain T2 where T2: "ripple T1 (i + 4) c1 = Some T2"
    and v2: "limbs_val T2 = limbs_val T1 + unat c1 * 2 ^ (64 * (i + 4))"
    using ripple_val by blast
  have l2: "length T2 = 8" using ripple_length [OF T2] l1 by simp
  have "take (Suc i) T2 = take (Suc i) T1" using ripple_take [OF T2, of "Suc i"] by simp
  also have "\<dots> = take (Suc i) T" using mac_loop_take [of "Suc i" "Suc i" T "tl MOD" m c0] T1 by simp
  finally have "limbs_val T2
      = limbs_val (take (Suc i) T) + 2 ^ (64 * Suc i) * limbs_val (drop (Suc i) T2)"
    using limbs_val_drop [of T2 "Suc i"] by simp
  then have "2 ^ (64 * Suc i) * limbs_val (drop (Suc i) T2)
      = 2 ^ (64 * Suc i) * (limbs_val (drop (Suc i) T) + ?X)"
    using v1 v2 vT by (simp add: algebra_simps)
  then have "limbs_val (drop (Suc i) T2) = limbs_val (drop (Suc i) T) + ?X" by simp
  moreover have "sos_round T i = Some T2"
    using lo T1 T2 m by (simp add: sos_round_def Let_def)
  ultimately show ?thesis using l2 key by auto
qed

lemma sos_reduce_val:
  assumes "length T = 8" and "i + n = 4"
    and "limbs_val (drop i T) + (2 ^ (64 * n) - 1) * pallas_p < 2 ^ (64 * (8 - i))"
  shows "\<exists>T' M. sos_reduce n i T = Some T' \<and> length T' = 8 \<and> M < 2 ^ (64 * n)
    \<and> 2 ^ (64 * n) * limbs_val (drop 4 T') = limbs_val (drop i T) + M * pallas_p"
  using assms
proof (induction n i T rule: sos_reduce.induct)
  case (1 i T)
  then show ?case by simp
next
  case (2 n i T)
  let ?m = "T ! i * INV"
  have pow: "(2::nat) ^ (64 * Suc n) = 2 ^ 64 * 2 ^ (64 * n)" by (simp add: power_add)
  have mlt: "unat ?m < 2 ^ 64" by (rule unat_u64_lt)
  have one: "(1::nat) \<le> 2 ^ (64 * n)" by simp
  have split: "unat ?m + 2 ^ 64 * (2 ^ (64 * n) - 1) \<le> 2 ^ (64 * Suc n) - (1::nat)"
    unfolding pow using mlt one by (simp add: diff_mult_distrib2)
  then have le: "unat ?m * pallas_p + 2 ^ 64 * ((2 ^ (64 * n) - 1) * pallas_p)
      \<le> (2 ^ (64 * Suc n) - 1) * pallas_p"
    using mult_le_mono1 [OF split, of pallas_p] by (simp only: add_mult_distrib mult.assoc)
  then have fits: "limbs_val (drop i T) + unat ?m * pallas_p < 2 ^ (64 * (8 - i))"
    using "2.prems" by linarith
  obtain T1 where T1: "sos_round T i = Some T1" "length T1 = 8"
    and v1: "2 ^ 64 * limbs_val (drop (Suc i) T1) = limbs_val (drop i T) + unat ?m * pallas_p"
    using sos_round_val [OF _ _ refl fits] "2.prems" by auto
  have "2 ^ 64 * (limbs_val (drop (Suc i) T1) + (2 ^ (64 * n) - 1) * pallas_p) < 2 ^ (64 * (8 - i))"
    using v1 le "2.prems"(3) by (simp only: add_mult_distrib2)
  also have "(2::nat) ^ (64 * (8 - i)) = 2 ^ 64 * 2 ^ (64 * (8 - Suc i))"
  proof -
    have "8 - i = Suc (8 - Suc i)" using "2.prems" by simp
    then show ?thesis by (simp add: power_add)
  qed
  finally have "limbs_val (drop (Suc i) T1) + (2 ^ (64 * n) - 1) * pallas_p < 2 ^ (64 * (8 - Suc i))"
    by simp
  then obtain T' M where T': "sos_reduce n (Suc i) T1 = Some T'" "length T' = 8" "M < 2 ^ (64 * n)"
    and v': "2 ^ (64 * n) * limbs_val (drop 4 T') = limbs_val (drop (Suc i) T1) + M * pallas_p"
    using "2.IH" [OF T1(1)] T1 "2.prems" by auto
  have "unat ?m + 2 ^ 64 * M \<le> unat ?m + 2 ^ 64 * (2 ^ (64 * n) - 1)" using T'(3) by simp
  also have "\<dots> < 2 ^ (64 * Suc n)" using split by (rule le_less_trans) simp
  finally have "unat ?m + 2 ^ 64 * M < 2 ^ (64 * Suc n)" .
  moreover have "2 ^ (64 * Suc n) * limbs_val (drop 4 T')
      = limbs_val (drop i T) + (unat ?m + 2 ^ 64 * M) * pallas_p"
    using v' v1 unfolding pow mult.assoc by (simp add: algebra_simps)
  ultimately show ?case using T1 T' by auto
qed

lemma fe_mul_checked_correct:
  assumes ab_red: "fe_val a < pallas_p \<or> fe_val b < pallas_p"
  shows "\<exists>r. fe_mul_checked a b = Some r \<and> fe_val r < pallas_p
    \<and> (2 ^ 256 * fe_val r) mod pallas_p = (fe_val a * fe_val b) mod pallas_p"
proof -
  have ab: "fe_val a * fe_val b < pallas_p * 2 ^ 256"
    using ab_red
  proof
    assume "fe_val a < pallas_p"
    then show ?thesis using fe_val_lt [of b] by (intro mult_strict_mono) simp_all
  next
    assume "fe_val b < pallas_p"
    then have "fe_val b * fe_val a < pallas_p * 2 ^ 256"
      using fe_val_lt [of a] by (intro mult_strict_mono) simp_all
    then show ?thesis by (simp only: mult.commute)
  qed
  have pp: "pallas_p * 2 ^ 256 + (2 ^ 256 - 1) * pallas_p < 2 ^ 512" by (simp add: pallas_p_eq)
  have "fe_val a * fe_val b < 2 ^ 512" using ab pp by linarith
  then obtain T where T: "sos_product (replicate 8 0) 0 (limbs a) (limbs b) = Some T"
    "length T = 8" "limbs_val T = fe_val a * fe_val b"
    using sos_product_val [of "replicate 8 0" "limbs a" 0 "limbs b"] by (auto simp: fe_val_def)
  have "limbs_val T + (2 ^ 256 - 1) * pallas_p < 2 ^ 512" using ab pp T by linarith
  then obtain T' M where T': "sos_reduce 4 0 T = Some T'" "length T' = 8" "M < 2 ^ 256"
    and v: "2 ^ 256 * limbs_val (drop 4 T') = fe_val a * fe_val b + M * pallas_p"
    using sos_reduce_val [of T 0 4] T by auto
  let ?r = "fe_of_limbs (drop 4 T')"
  have rv: "fe_val ?r = limbs_val (drop 4 T')" using T' by simp
  have "M * pallas_p \<le> (2 ^ 256 - 1) * pallas_p" using T'(3) by (intro mult_le_mono1) simp
  then have "2 ^ 256 * fe_val ?r < pallas_p * 2 ^ 256 + 2 ^ 256 * pallas_p"
    using v ab rv by (simp add: pallas_p_eq)
  also have "\<dots> \<le> 2 ^ 256 * (2 * pallas_p)" by (simp add: pallas_p_eq)
  finally have lt: "fe_val ?r < 2 * pallas_p" by simp
  have cong: "(2 ^ 256 * fe_val ?r) mod pallas_p = (fe_val a * fe_val b) mod pallas_p"
    unfolding rv v by simp
  show ?thesis
  proof (cases "is_canonical ?r")
    case True
    then have "fe_mul_checked a b = Some ?r"
      using T T' by (simp add: fe_mul_checked_def Let_def)
    then show ?thesis using True cong by (simp add: is_canonical_iff)
  next
    case False
    let ?s = "fe_of_limbs (sub_assumed (limbs ?r) MOD)"
    obtain rs c where sl: "sub_loop False (limbs ?r) MOD = (rs, c)" by fastforce
    then have lrs: "length rs = 4" using sub_loop_length [of "limbs ?r" MOD False] by simp
    have "fe_val ?r + of_bool c * 2 ^ 256 = limbs_val rs + pallas_p"
      using sub_loop_val [OF _ sl] by (simp add: fe_val_def)
    moreover have "limbs_val rs < 2 ^ 256" using limbs_val_lt [of rs] lrs by simp
    moreover have "pallas_p \<le> fe_val ?r" using False by (simp add: is_canonical_iff)
    ultimately have "fe_val ?s = fe_val ?r - pallas_p"
      using sl lrs by (cases c) (simp_all add: sub_assumed_def)
    then have s: "fe_val ?s < pallas_p" and rs: "fe_val ?r = fe_val ?s + pallas_p"
      using lt False by (simp_all add: is_canonical_iff)
    have "(2 ^ 256 * fe_val ?s) mod pallas_p = (2 ^ 256 * fe_val ?r) mod pallas_p"
      unfolding rs by (simp add: add_mult_distrib2)
    moreover have "fe_mul_checked a b = Some ?s"
      using T T' False by (simp add: fe_mul_checked_def Let_def)
    ultimately show ?thesis using s cong by auto
  qed
qed

lemma fe_add_val:
  assumes "fe_val a < pallas_p" and "fe_val b < pallas_p"
  shows "fe_val (fe_add a b) = (fe_val a + fe_val b) mod pallas_p"
proof -
  obtain rs c where al: "add_loop False (limbs a) (limbs b) = (rs, c)" by fastforce
  then have lrs: "length rs = 4" using add_loop_length [of "limbs a" "limbs b" False] by simp
  have v: "limbs_val rs + of_bool c * 2 ^ 256 = fe_val a + fe_val b"
    using add_loop_val [OF _ al] by (simp add: fe_val_def)
  have nc: "\<not> c" using v assms by (cases c) (simp_all add: pallas_p_eq)
  then have rv: "limbs_val rs = fe_val a + fe_val b" using v by simp
  obtain ss d where sl: "sub_loop False rs MOD = (ss, d)" by fastforce
  then have lss: "length ss = 4" using sub_loop_length [of rs MOD False] lrs by simp
  have sv: "limbs_val rs + of_bool d * 2 ^ 256 = limbs_val ss + pallas_p"
    using sub_loop_val [OF _ sl] lrs by simp
  have "limbs_val ss < 2 ^ 256" using limbs_val_lt [of ss] lss by simp
  then have "limbs_val ss = limbs_val rs - pallas_p" if "pallas_p \<le> limbs_val rs"
    using sv that by (cases d) simp_all
  then show ?thesis
    using al nc lrs lss sl rv assms
    by (auto simp: fe_add_def is_canonical_iff sub_assumed_def le_mod_geq)
qed

lemma fe_sub_val:
  assumes "fe_val a < pallas_p" and "fe_val b < pallas_p"
  shows "fe_val (fe_sub a b) = (fe_val a + pallas_p - fe_val b) mod pallas_p"
proof -
  obtain rs c where sl: "sub_loop False (limbs a) (limbs b) = (rs, c)" by fastforce
  then have lrs: "length rs = 4" using sub_loop_length [of "limbs a" "limbs b" False] by simp
  have v: "fe_val a + of_bool c * 2 ^ 256 = limbs_val rs + fe_val b"
    using sub_loop_val [OF _ sl] by (simp add: fe_val_def)
  have rl: "limbs_val rs < 2 ^ 256" using limbs_val_lt [of rs] lrs by simp
  obtain ss d where al: "add_loop False rs MOD = (ss, d)" by fastforce
  then have lss: "length ss = 4" using add_loop_length [of rs MOD False] lrs by simp
  have sv: "limbs_val ss + of_bool d * 2 ^ 256 = limbs_val rs + pallas_p"
    using add_loop_val [OF _ al] lrs by simp
  show ?thesis
  proof (cases c)
    case True
    then have ab: "fe_val a < fe_val b" using v rl by simp
    then have "limbs_val rs + pallas_p = 2 ^ 256 + (fe_val a + pallas_p - fe_val b)"
      using v True assms by simp
    moreover have "limbs_val ss < 2 ^ 256" using limbs_val_lt [of ss] lss by simp
    ultimately have "limbs_val ss = fe_val a + pallas_p - fe_val b"
      using sv assms ab by (cases d) (simp_all add: pallas_p_eq)
    then show ?thesis using True sl al lss ab assms by (simp add: fe_sub_def add_into_def)
  next
    case False
    then have "fe_val a = limbs_val rs + fe_val b" using v by simp
    then show ?thesis using False sl lrs assms by (simp add: fe_sub_def)
  qed
qed

subsection \<open>The residue ring\<close>

text \<open>
  The ring of integers modulo \<open>p\<close>, and the element a Montgomery representation stands for:
  \<open>fe_val x * R^-1\<close>, with \<open>R = 2 ^ 256\<close>.
\<close>

type_synonym pallas =
  "28948022309329048855892746252171976963363056481941647379679742748393362948097"

definition R_INV :: nat where
  "R_INV = 14238205147845459960272226733876560297615832660064601289232577236146637664127"

definition fe_dec :: "fe \<Rightarrow> pallas" where
  "fe_dec x = of_nat (fe_val x) * of_nat R_INV"

lemma of_nat_pallas: "(of_nat a :: pallas) = of_nat b \<longleftrightarrow> a mod pallas_p = b mod pallas_p"
proof -
  have "(of_nat a :: pallas) = of_nat b \<longleftrightarrow> a mod CARD(pallas) = b mod CARD(pallas)"
    by (rule of_nat_eq_iff_mod)
  then show ?thesis by (simp add: pallas_p_eq)
qed

lemma R_INV_R: "(of_nat R_INV * of_nat (2 ^ 256) :: pallas) = 1"
proof -
  have "(of_nat (R_INV * 2 ^ 256) :: pallas) = of_nat 1"
    unfolding of_nat_pallas by (simp add: R_INV_def pallas_p_eq)
  then show ?thesis by simp
qed

lemma fe_dec_R: "fe_dec x * of_nat (2 ^ 256) = of_nat (fe_val x)"
  using R_INV_R by (simp only: fe_dec_def mult.assoc mult_1_right)

lemma fe_dec_eqI: "of_nat (fe_val x) = y * of_nat (2 ^ 256) \<Longrightarrow> fe_dec x = y"
  using R_INV_R by (simp only: fe_dec_def mult.assoc mult.commute [of _ "of_nat R_INV"]) (simp add: ac_simps)

lemma fe_mul_Some: "is_canonical a \<Longrightarrow> is_canonical b \<Longrightarrow> fe_mul_checked a b = Some (fe_mul a b)"
  using fe_mul_checked_correct [of a b] by (auto simp: fe_mul_def is_canonical_iff)

text \<open>One reduced factor is enough for a defined and reduced product.\<close>

lemma canonical_mul_left: "is_canonical a \<Longrightarrow> is_canonical (fe_mul a b)"
  using fe_mul_checked_correct [of a b] by (auto simp: fe_mul_def is_canonical_iff)

lemma canonical_mul: "is_canonical a \<Longrightarrow> is_canonical b \<Longrightarrow> is_canonical (fe_mul a b)"
  using fe_mul_checked_correct [of a b] by (auto simp: fe_mul_def is_canonical_iff)

lemma fe_mul_mod:
  "is_canonical a \<Longrightarrow> is_canonical b \<Longrightarrow>
    (2 ^ 256 * fe_val (fe_mul a b)) mod pallas_p = (fe_val a * fe_val b) mod pallas_p"
  using fe_mul_checked_correct [of a b] by (auto simp: fe_mul_def is_canonical_iff)

lemma fe_dec_mul:
  assumes "is_canonical a" and "is_canonical b"
  shows "fe_dec (fe_mul a b) = fe_dec a * fe_dec b"
proof -
  have "(of_nat (2 ^ 256 * fe_val (fe_mul a b)) :: pallas) = of_nat (fe_val a * fe_val b)"
    unfolding of_nat_pallas using fe_mul_mod [OF assms] .
  then have "of_nat (2 ^ 256) * (of_nat (fe_val (fe_mul a b)) :: pallas)
      = of_nat (fe_val a) * of_nat (fe_val b)"
    by (simp only: of_nat_mult)
  also have "\<dots> = of_nat (2 ^ 256) * (fe_dec a * fe_dec b * of_nat (2 ^ 256))"
    by (simp only: ac_simps flip: fe_dec_R)
  finally have "of_nat R_INV * (of_nat (2 ^ 256) * (of_nat (fe_val (fe_mul a b)) :: pallas))
      = of_nat R_INV * (of_nat (2 ^ 256) * (fe_dec a * fe_dec b * of_nat (2 ^ 256)))"
    by (simp only:)
  then have "(of_nat (fe_val (fe_mul a b)) :: pallas) = fe_dec a * fe_dec b * of_nat (2 ^ 256)"
    unfolding mult.assoc [symmetric] R_INV_R by (simp only: mult_1_left)
  then show ?thesis by (rule fe_dec_eqI)
qed

lemma canonical_add: "is_canonical a \<Longrightarrow> is_canonical b \<Longrightarrow> is_canonical (fe_add a b)"
  by (simp add: is_canonical_iff fe_add_val pallas_p_pos)

lemma canonical_sub: "is_canonical a \<Longrightarrow> is_canonical b \<Longrightarrow> is_canonical (fe_sub a b)"
  by (simp add: is_canonical_iff fe_sub_val pallas_p_pos)

lemma of_nat_pallas_p: "(of_nat pallas_p :: pallas) = 0"
  using of_nat_pallas [of pallas_p 0] by simp

lemma fe_dec_add:
  assumes "is_canonical a" and "is_canonical b"
  shows "fe_dec (fe_add a b) = fe_dec a + fe_dec b"
proof -
  have "(of_nat (fe_val (fe_add a b)) :: pallas) = of_nat (fe_val a + fe_val b)"
    unfolding of_nat_pallas using assms by (simp add: is_canonical_iff fe_add_val)
  then show ?thesis by (simp add: fe_dec_def algebra_simps)
qed

lemma fe_dec_sub:
  assumes "is_canonical a" and "is_canonical b"
  shows "fe_dec (fe_sub a b) = fe_dec a - fe_dec b"
proof -
  have le: "fe_val b \<le> fe_val a + pallas_p" using assms by (simp add: is_canonical_iff)
  have "(of_nat (fe_val (fe_sub a b)) :: pallas) = of_nat (fe_val a + pallas_p - fe_val b)"
    unfolding of_nat_pallas using assms by (simp add: is_canonical_iff fe_sub_val)
  also have "\<dots> = of_nat (fe_val a) - of_nat (fe_val b)"
    using le by (simp add: of_nat_diff of_nat_pallas_p)
  finally show ?thesis by (simp only: fe_dec_def left_diff_distrib)
qed

lemma fe_dec_inj: "is_canonical a \<Longrightarrow> is_canonical b \<Longrightarrow> fe_dec a = fe_dec b \<Longrightarrow> a = b"
proof (rule fe_val_inj)
  assume c: "is_canonical a" "is_canonical b" and "fe_dec a = fe_dec b"
  then have "(of_nat (fe_val a) :: pallas) = of_nat (fe_val b)" by (simp only: flip: fe_dec_R)
  then show "fe_val a = fe_val b" using c by (simp add: of_nat_pallas is_canonical_iff)
qed

lemma fe_dec_zero: "fe_dec fe_zero = 0"
  by (simp add: fe_dec_def fe_zero_def fe_val_def)

lemma canonical_zero: "is_canonical fe_zero"
  by (simp add: is_canonical_iff fe_zero_def fe_val_def pallas_p_eq)

lemma canonical_one: "is_canonical fe_one"
  by (simp add: is_canonical_iff fe_one_def R_ONE_def pallas_p_eq)

lemma fe_dec_one: "fe_dec fe_one = 1"
proof (rule fe_dec_eqI)
  have "(of_nat (fe_val fe_one) :: pallas) = of_nat (2 ^ 256)"
    unfolding of_nat_pallas by (simp add: fe_one_def R_ONE_def pallas_p_eq)
  then show "(of_nat (fe_val fe_one) :: pallas) = 1 * of_nat (2 ^ 256)" by (simp only: mult_1_left)
qed

interpretation pallas: field_kernel is_canonical fe_dec fe_add fe_sub fe_mul fe_zero fe_one
  by unfold_locales
    (auto intro: canonical_zero canonical_one canonical_add canonical_sub canonical_mul
      fe_dec_inj simp: fe_dec_zero fe_dec_one fe_dec_add fe_dec_sub fe_dec_mul)

lemmas canonical_ops [simp, intro] = canonical_zero canonical_one canonical_add canonical_sub canonical_mul
lemmas fe_dec_ops [dec_simps] = fe_dec_zero fe_dec_one fe_dec_add fe_dec_sub fe_dec_mul

subsection \<open>Leaving and entering the Montgomery domain\<close>

lemma canonical_small: "is_canonical (Fe x 0 0 0)"
  using unat_u64_lt [of x] by (simp add: is_canonical_iff fe_val_def pallas_p_eq)

lemma canonical_RR: "is_canonical (fe_of_limbs RR)"
  by (simp add: is_canonical_iff RR_def pallas_p_eq)

lemma fe_dec_raw: "fe_dec (fe_mul x (fe_of_limbs RR)) = of_nat (fe_val x)"
  if "is_canonical x"
proof -
  have "(of_nat (fe_val (fe_of_limbs RR)) :: pallas) = of_nat (2 ^ 256 * 2 ^ 256)"
    unfolding of_nat_pallas by (simp add: RR_def pallas_p_eq)
  then have "fe_dec (fe_of_limbs RR) = of_nat (2 ^ 256)"
    by (intro fe_dec_eqI) (simp only: of_nat_mult)
  then have "fe_dec (fe_mul x (fe_of_limbs RR)) = fe_dec x * of_nat (2 ^ 256)"
    using that by (simp only: fe_dec_mul canonical_RR)
  then show ?thesis by (simp only: fe_dec_R)
qed

lemma canonical_from_raw: "is_canonical x \<Longrightarrow> is_canonical (fe_mul x (fe_of_limbs RR))"
  by (simp add: canonical_RR)

lemma canonical_from_u64 [simp]: "is_canonical (fe_from_u64 x)"
  by (simp add: fe_from_u64_def canonical_small canonical_RR)

lemma fe_dec_from_u64 [dec_simps]: "fe_dec (fe_from_u64 x) = of_nat (unat x)"
  by (simp add: fe_from_u64_def fe_dec_raw canonical_small fe_val_def)

lemma canonical_to_canonical [simp]: "is_canonical x \<Longrightarrow> is_canonical (fe_to_canonical x)"
  by (simp add: fe_to_canonical_def canonical_small)

lemma of_nat_to_canonical: "is_canonical x \<Longrightarrow> of_nat (fe_val (fe_to_canonical x)) = fe_dec x"
proof -
  assume x: "is_canonical x"
  have "fe_dec (fe_to_canonical x) = fe_dec x * fe_dec (Fe 1 0 0 0)"
    using x by (simp add: fe_to_canonical_def fe_dec_mul canonical_small)
  then have "of_nat (fe_val (fe_to_canonical x)) = fe_dec x * of_nat (fe_val (Fe 1 0 0 0))"
    by (simp only: mult.assoc flip: fe_dec_R)
  then show ?thesis by (simp add: fe_val_def)
qed

lemma fe_to_canonical_inj:
  "is_canonical x \<Longrightarrow> is_canonical y \<Longrightarrow> fe_to_canonical x = fe_to_canonical y \<longleftrightarrow> x = y"
  using of_nat_to_canonical [of x] of_nat_to_canonical [of y] by (auto intro: fe_dec_inj)

lemma fe_enter_leave:
  assumes "is_canonical x"
  shows "fe_mul (fe_to_canonical x) (fe_of_limbs RR) = x"
  using assms by (intro fe_dec_inj)
    (simp_all add: fe_dec_raw of_nat_to_canonical canonical_from_raw)

lemma fe_leave_enter:
  assumes "is_canonical c"
  shows "fe_to_canonical (fe_mul c (fe_of_limbs RR)) = c"
proof (rule fe_val_inj)
  let ?y = "fe_to_canonical (fe_mul c (fe_of_limbs RR))"
  have c: "is_canonical ?y" using assms by (simp add: canonical_from_raw)
  have "(of_nat (fe_val ?y) :: pallas) = of_nat (fe_val c)"
    using assms by (simp add: of_nat_to_canonical canonical_from_raw fe_dec_raw)
  then show "fe_val ?y = fe_val c" using c assms by (simp add: of_nat_pallas is_canonical_iff)
qed

subsection \<open>The byte codec\<close>

lemma length_limbs_to_bytes [wire_simps]: "length (limbs_to_bytes xs) = 8 * length xs"
  by (induction xs) (simp_all add: limbs_to_bytes_def)

lemma length_4_cases: "length xs = 4 \<Longrightarrow> \<exists>a b c d. xs = [a, b, c, d]"
  by (auto simp: numeral_eq_Suc length_Suc_conv)

lemma bytes_to_limbs_to_bytes: "length xs = 4 \<Longrightarrow> bytes_to_limbs (limbs_to_bytes xs) = xs"
  using length_4_cases [of xs]
  by (auto simp: bytes_to_limbs_def limbs_to_bytes_def codec_u64 upt_rec)

lemma limbs_to_bytes_to_limbs:
  assumes "length bs = 32"
  shows "limbs_to_bytes (bytes_to_limbs bs) = bs"
proof -
  have piece: "le_bytes 8 (le_word (take 8 (drop k bs)) :: u64) = take 8 (drop k bs)" if "k \<le> 24" for k
    using that assms by (intro le_bytes_le_word) simp_all
  have "limbs_to_bytes (bytes_to_limbs bs)
      = take 8 bs @ take 8 (drop 8 bs) @ take 8 (drop 16 bs) @ take 8 (drop 24 bs)"
    using piece [of 0] piece [of 8] piece [of 16] piece [of 24]
    by (simp add: limbs_to_bytes_def bytes_to_limbs_def upt_rec)
  also have "\<dots> = bs"
    using assms append_take_drop_id [of 8 bs] append_take_drop_id [of 8 "drop 8 bs"]
      append_take_drop_id [of 8 "drop 16 bs"]
    by simp
  finally show ?thesis .
qed

lemma fe_from_to_bytes:
  assumes "is_canonical x"
  shows "fe_from_le_bytes (fe_to_le_bytes x) = \<lparr>ffb_ok = True, ffb_value = x\<rparr>"
  using assms
  by (simp add: fe_from_le_bytes_def fe_to_le_bytes_def bytes_to_limbs_to_bytes fe_enter_leave)

lemma fe_from_bytes_ok:
  "ffb_ok (fe_from_le_bytes bs) \<longleftrightarrow> limbs_val (bytes_to_limbs bs) < pallas_p"
  by (simp add: fe_from_le_bytes_def is_canonical_iff bytes_to_limbs_def)

lemma fe_to_from_bytes:
  assumes "length bs = 32" and "ffb_ok (fe_from_le_bytes bs)"
  shows "is_canonical (ffb_value (fe_from_le_bytes bs))"
    and "fe_to_le_bytes (ffb_value (fe_from_le_bytes bs)) = bs"
proof -
  let ?x = "fe_of_limbs (bytes_to_limbs bs)"
  have c: "is_canonical ?x" and v: "ffb_value (fe_from_le_bytes bs) = fe_mul ?x (fe_of_limbs RR)"
    using assms by (auto simp: fe_from_le_bytes_def Let_def split: if_splits)
  show "is_canonical (ffb_value (fe_from_le_bytes bs))" using c v by (simp add: canonical_RR)
  have "length (bytes_to_limbs bs) = 4" by (simp add: bytes_to_limbs_def)
  then show "fe_to_le_bytes (ffb_value (fe_from_le_bytes bs)) = bs"
    using c v assms by (simp add: fe_to_le_bytes_def fe_leave_enter limbs_to_bytes_to_limbs)
qed

end
