(* ===== verification/Sha256.thy ===== *)
theory Sha256
  imports Hsma_Base
begin

text \<open>
  The SHA-256 of \<open>src/include/hsma/sha256.hpp\<close>: the streaming class \<open>Sha256\<close> (state record
  \<open>sha\<close>, operations \<open>reset\<close>, \<open>update\<close>, \<open>finish\<close>, the compression function) and the one-shot
  \<open>sha256\<close>. The reference is the block-wise definition of FIPS 180-4 over the padded message;
  the lemmas show that the streaming state represents exactly the bytes fed so far and that
  \<open>finish\<close> is the reference digest of them, whatever the split into \<open>update\<close> calls was.
\<close>

subsection \<open>The compression function\<close>

text \<open>The 64 constants \<open>K\<close>, which the code writes in hexadecimal.\<close>

definition sha_K :: "u32 list" where
  "sha_K = [
    1116352408, 1899447441, 3049323471, 3921009573, 961987163, 1508970993,
    2453635748, 2870763221, 3624381080, 310598401, 607225278, 1426881987,
    1925078388, 2162078206, 2614888103, 3248222580, 3835390401, 4022224774,
    264347078, 604807628, 770255983, 1249150122, 1555081692, 1996064986,
    2554220882, 2821834349, 2952996808, 3210313671, 3336571891, 3584528711,
    113926993, 338241895, 666307205, 773529912, 1294757372, 1396182291,
    1695183700, 1986661051, 2177026350, 2456956037, 2730485921, 2820302411,
    3259730800, 3345764771, 3516065817, 3600352804, 4094571909, 275423344,
    430227734, 506948616, 659060556, 883997877, 958139571, 1322822218,
    1537002063, 1747873779, 1955562222, 2024104815, 2227730452, 2361852424,
    2428436474, 2756734187, 3204031479, 3329325298]"

definition rotr :: "u32 \<Rightarrow> nat \<Rightarrow> u32" where
  "rotr x n = drop_bit n x OR push_bit (32 - n) x"

text \<open>\<open>w[0..15]\<close>: the block as big-endian words; \<open>w[16..63]\<close>: the message schedule.\<close>

definition sha_words :: "bytes \<Rightarrow> u32 list" where
  "sha_words p = map (\<lambda>i. be_word (take 4 (drop (4 * i) p))) [0..<16]"

definition sched_next :: "u32 list \<Rightarrow> nat \<Rightarrow> u32" where
  "sched_next w i =
     (let s0 = rotr (w ! (i - 15)) 7 XOR rotr (w ! (i - 15)) 18 XOR drop_bit 3 (w ! (i - 15));
          s1 = rotr (w ! (i - 2)) 17 XOR rotr (w ! (i - 2)) 19 XOR drop_bit 10 (w ! (i - 2))
      in w ! (i - 16) + s0 + w ! (i - 7) + s1)"

definition sha_sched :: "u32 list \<Rightarrow> u32 list" where
  "sha_sched w = foldl (\<lambda>w i. w @ [sched_next w i]) w [16..<64]"

type_synonym sha_regs = "u32 \<times> u32 \<times> u32 \<times> u32 \<times> u32 \<times> u32 \<times> u32 \<times> u32"

fun sha_round :: "sha_regs \<Rightarrow> u32 \<times> u32 \<Rightarrow> sha_regs" where
  "sha_round (a, b, c, dd, e, f, g, hh) (k, w) =
     (let S1 = rotr e 6 XOR rotr e 11 XOR rotr e 25;
          ch = (e AND f) XOR (NOT e AND g);
          t1 = hh + S1 + ch + k + w;
          S0 = rotr a 2 XOR rotr a 13 XOR rotr a 22;
          mj = (a AND b) XOR (a AND c) XOR (b AND c);
          t2 = S0 + mj
      in (t1 + t2, a, b, c, dd + t1, e, f, g))"

definition compress :: "u32 list \<Rightarrow> bytes \<Rightarrow> u32 list" where
  "compress h p =
     (case foldl sha_round (h ! 0, h ! 1, h ! 2, h ! 3, h ! 4, h ! 5, h ! 6, h ! 7)
             (zip sha_K (sha_sched (sha_words p))) of
        (a, b, c, dd, e, f, g, hh) \<Rightarrow>
          [h ! 0 + a, h ! 1 + b, h ! 2 + c, h ! 3 + dd,
           h ! 4 + e, h ! 5 + f, h ! 6 + g, h ! 7 + hh])"

subsection \<open>The streaming class\<close>

record sha =
  sha_h :: "u32 list"
  sha_buf :: bytes
  sha_len :: u64
  sha_blen :: nat

definition sha_H0 :: "u32 list" where
  "sha_H0 = [0x6a09e667,0xbb67ae85,0x3c6ef372,0xa54ff53a,
             0x510e527f,0x9b05688c,0x1f83d9ab,0x5be0cd19]"

text \<open>The default-constructed buffer is zero; \<open>reset\<close> does not touch it.\<close>

definition sha_reset :: "sha \<Rightarrow> sha" where
  "sha_reset s = s\<lparr>sha_h := sha_H0, sha_len := 0, sha_blen := 0\<rparr>"

definition sha_new :: sha where
  "sha_new = sha_reset \<lparr>sha_h = replicate 8 0, sha_buf = replicate 64 0, sha_len = 0, sha_blen = 0\<rparr>"

text \<open>
  The loop of \<open>update\<close>. With a full buffer (\<open>sha_blen = 64\<close>) the code would take no byte and
  spin; no operation leaves the buffer full (\<open>sha_rep\<close> below), and the model stops there.
\<close>

function update_loop :: "sha \<Rightarrow> bytes \<Rightarrow> sha" where
  "update_loop s d =
     (if d = [] \<or> 64 \<le> sha_blen s then s
      else let tk = (if 64 - sha_blen s < length d then 64 - sha_blen s else length d);
               s1 = s\<lparr>sha_buf := take (sha_blen s) (sha_buf s) @ take tk d @ drop (sha_blen s + tk) (sha_buf s),
                      sha_blen := sha_blen s + tk\<rparr>;
               s2 = (if sha_blen s1 = 64 then s1\<lparr>sha_h := compress (sha_h s1) (sha_buf s1), sha_blen := 0\<rparr>
                     else s1)
           in update_loop s2 (drop tk d))"
  by pat_completeness auto
termination
  by (relation "measure (\<lambda>(s, d). length d)") auto

declare update_loop.simps [simp del]

definition sha_update :: "sha \<Rightarrow> bytes \<Rightarrow> sha" where
  "sha_update s d = update_loop (s\<lparr>sha_len := sha_len s + of_nat (length d)\<rparr>) d"

text \<open>\<open>while (sha_blen != 56) update(&zero, 1)\<close>\<close>

fun pad_loop :: "nat \<Rightarrow> sha \<Rightarrow> sha option" where
  "pad_loop 0 s = None"
| "pad_loop (Suc n) s = (if sha_blen s = 56 then Some s else pad_loop n (sha_update s [0]))"

text \<open>\<open>finish\<close> returns the digest and the object it leaves behind.\<close>

definition sha_finish :: "sha \<Rightarrow> (bytes \<times> sha) option" where
  "sha_finish s =
     (let bits = sha_len s * 8
      in case pad_loop 65 (sha_update s [0x80]) of
           None \<Rightarrow> None
         | Some s1 \<Rightarrow>
             (let blk = take 56 (sha_buf s1) @ be_bytes 8 bits;
                  h = compress (sha_h s1) blk
              in Some (concat (map (\<lambda>i. be_bytes 4 (h ! i)) [0..<8]),
                       s1\<lparr>sha_h := h, sha_buf := blk, sha_len := sha_len s1 - 9, sha_blen := 0\<rparr>)))"

definition sha256 :: "bytes \<Rightarrow> bytes" where
  "sha256 d = fst (the (sha_finish (sha_update sha_new d)))"

subsection \<open>The reference: FIPS 180-4 over the padded message\<close>

function fold_blocks :: "u32 list \<Rightarrow> bytes \<Rightarrow> u32 list" where
  "fold_blocks h m = (if length m < 64 then h else fold_blocks (compress h (take 64 m)) (drop 64 m))"
  by pat_completeness auto
termination
  by (relation "measure (\<lambda>(h, m). length m)") auto

declare fold_blocks.simps [simp del]

definition sha_padding :: "nat \<Rightarrow> bytes" where
  "sha_padding n = 0x80 # replicate ((119 - n mod 64) mod 64) 0 @ be_bytes 8 (of_nat (8 * n) :: u64)"

definition sha256_spec :: "bytes \<Rightarrow> bytes" where
  "sha256_spec m = concat (map (be_bytes 4) (fold_blocks sha_H0 (m @ sha_padding (length m))))"

text \<open>The bytes of \<open>m\<close> not yet compressed.\<close>

definition block_tail :: "bytes \<Rightarrow> bytes" where
  "block_tail m = drop (64 * (length m div 64)) m"

text \<open>\<open>sha_rep s m\<close>: the object \<open>s\<close> has been fed exactly the bytes \<open>m\<close>.\<close>

definition sha_rep :: "sha \<Rightarrow> bytes \<Rightarrow> bool" where
  "sha_rep s m \<longleftrightarrow> sha_h s = fold_blocks sha_H0 m \<and> sha_blen s = length m mod 64
     \<and> length (sha_buf s) = 64 \<and> take (length m mod 64) (sha_buf s) = block_tail m \<and> sha_len s = of_nat (length m)"

lemma fold_blocks_short: "length m < 64 \<Longrightarrow> fold_blocks h m = h"
  by (simp add: fold_blocks.simps)

lemma fold_blocks_append:
  "64 dvd length a \<Longrightarrow> fold_blocks h (a @ b) = fold_blocks (fold_blocks h a) b"
proof (induction h a rule: fold_blocks.induct)
  case (1 h a)
  show ?case
  proof (cases "length a < 64")
    case True
    then have "a = []" using "1.prems" by (auto elim!: dvdE)
    then show ?thesis by (simp add: fold_blocks_short)
  next
    case False
    then have "64 dvd length (drop 64 a)" using "1.prems" by (simp add: dvd_diff_nat)
    then show ?thesis
      using "1.IH" [OF False] False
      by (simp add: fold_blocks.simps [of h "a @ b"] fold_blocks.simps [of h a])
  qed
qed

lemma length_block_tail: "length (block_tail m) = length m mod 64"
  by (simp add: block_tail_def minus_mult_div_eq_mod)

lemma block_split:
  obtains a t where "m = a @ t" and "block_tail m = t" and "64 dvd length a" and "length t < 64"
proof
  show "m = take (64 * (length m div 64)) m @ block_tail m" by (simp add: block_tail_def)
qed (simp_all add: length_block_tail)

lemma block_tail_append: "64 dvd length a \<Longrightarrow> block_tail (a @ b) = block_tail b"
  by (auto simp: block_tail_def elim!: dvdE)

lemma fold_blocks_prefix:
  "64 dvd length a \<Longrightarrow> length t < 64 \<Longrightarrow> fold_blocks h (a @ t) = fold_blocks h a"
  by (simp add: fold_blocks_append fold_blocks_short)

lemma fold_blocks_tail: "fold_blocks h m = fold_blocks h (m @ d)" if "length (block_tail m @ d) < 64"
proof -
  obtain a t where "m = a @ t" "block_tail m = t" "64 dvd length a" "length t < 64"
    by (rule block_split)
  with that show ?thesis by (simp add: fold_blocks_prefix)
qed

lemma fold_blocks_full:
  assumes "length (block_tail m @ d) = 64"
  shows "fold_blocks h (m @ d) = compress (fold_blocks h m) (block_tail m @ d)"
proof -
  obtain a t where a: "m = a @ t" "block_tail m = t" "64 dvd length a" "length t < 64"
    by (rule block_split)
  have "fold_blocks h (a @ t @ d) = compress (fold_blocks h a) (t @ d)"
    using a assms by (simp add: fold_blocks_append fold_blocks.simps [of _ "t @ d"] fold_blocks_short)
  then show ?thesis using a by (simp add: fold_blocks_prefix)
qed

lemma tail_append_short:
  assumes "length (block_tail m @ d) < 64"
  shows "block_tail (m @ d) = block_tail m @ d" and "length (m @ d) mod 64 = length (block_tail m @ d)"
proof -
  obtain a t where a: "m = a @ t" "block_tail m = t" "64 dvd length a" "length t < 64"
    by (rule block_split)
  have "length (t @ d) < 64" using assms a by simp
  then have "block_tail (t @ d) = t @ d" by (simp add: block_tail_def)
  then show *: "block_tail (m @ d) = block_tail m @ d" using a by (simp add: block_tail_append)
  show "length (m @ d) mod 64 = length (block_tail m @ d)"
    using length_block_tail [of "m @ d"] * by simp
qed

lemma tail_append_full:
  assumes "length (block_tail m @ d) = 64"
  shows "block_tail (m @ d) = []" and "length (m @ d) mod 64 = 0"
proof -
  obtain a t where a: "m = a @ t" "block_tail m = t" "64 dvd length a" "length t < 64"
    by (rule block_split)
  have "length (t @ d) = 64" using assms a by simp
  then have "block_tail (t @ d) = []" by (simp add: block_tail_def)
  then show *: "block_tail (m @ d) = []" using a by (simp add: block_tail_append)
  show "length (m @ d) mod 64 = 0" using length_block_tail [of "m @ d"] * by simp
qed

subsection \<open>The streaming state represents the bytes fed\<close>

lemma sha_rep_new: "sha_rep sha_new []"
  by (simp add: sha_rep_def sha_new_def sha_reset_def fold_blocks_short block_tail_def)

text \<open>One turn of the loop, for the bytes it takes.\<close>

lemma update_chunk_short:
  assumes "sha_rep (s\<lparr>sha_len := l\<rparr>) m" and "sha_blen s + length d < 64"
  shows "sha_rep (s\<lparr>sha_buf := take (sha_blen s) (sha_buf s) @ d @ drop (sha_blen s + length d) (sha_buf s),
    sha_blen := sha_blen s + length d, sha_len := of_nat (length (m @ d))\<rparr>) (m @ d)"
proof -
  have sh: "length (block_tail m @ d) < 64"
    using assms by (simp add: sha_rep_def length_block_tail)
  show ?thesis
    using assms tail_append_short [OF sh] fold_blocks_tail [OF sh, of sha_H0]
    by (simp add: sha_rep_def length_block_tail)
qed

lemma update_chunk_full:
  assumes "sha_rep (s\<lparr>sha_len := l\<rparr>) m" and "sha_blen s + length d = 64"
  shows "sha_rep (s\<lparr>sha_buf := take (sha_blen s) (sha_buf s) @ d,
    sha_h := compress (sha_h s) (take (sha_blen s) (sha_buf s) @ d),
    sha_blen := 0, sha_len := of_nat (length (m @ d))\<rparr>) (m @ d)"
proof -
  have fl: "length (block_tail m @ d) = 64"
    using assms by (simp add: sha_rep_def length_block_tail)
  show ?thesis
    using assms fl tail_append_full [OF fl] fold_blocks_full [OF fl, of sha_H0]
    by (simp add: sha_rep_def length_block_tail)
qed

lemma sha_rep_len: "sha_rep (s\<lparr>sha_len := l\<rparr>) m \<Longrightarrow> sha_rep (s\<lparr>sha_len := of_nat (length m)\<rparr>) m"
  by (simp add: sha_rep_def)

lemma update_loop_rep:
  "sha_rep (s\<lparr>sha_len := of_nat (length m)\<rparr>) m \<Longrightarrow> sha_len s = of_nat (length (m @ d)) \<Longrightarrow>
    sha_rep (update_loop s d) (m @ d)"
proof (induction s d arbitrary: m rule: update_loop.induct)
  case (1 s d)
  have bl: "sha_blen s < 64" using "1.prems" by (simp add: sha_rep_def)
  show ?case
  proof (cases "d = []")
    case True
    then show ?thesis using "1.prems" by (simp add: update_loop.simps sha_rep_def)
  next
    case False
    define tk where "tk = (if 64 - sha_blen s < length d then 64 - sha_blen s else length d)"
    define s1 where "s1 = s\<lparr>sha_buf := take (sha_blen s) (sha_buf s) @ take tk d
        @ drop (sha_blen s + tk) (sha_buf s), sha_blen := sha_blen s + tk\<rparr>"
    define s2 where "s2 = (if sha_blen s1 = 64
        then s1\<lparr>sha_h := compress (sha_h s1) (sha_buf s1), sha_blen := 0\<rparr> else s1)"
    have tk: "length (take tk d) = tk" "sha_blen s + tk \<le> 64" using bl by (auto simp: tk_def)
    have "sha_rep (s2\<lparr>sha_len := of_nat (length (m @ take tk d))\<rparr>) (m @ take tk d)"
    proof (cases "sha_blen s + tk = 64")
      case True
      have "length (sha_buf s) = 64" using "1.prems" by (simp add: sha_rep_def)
      then show ?thesis
        using update_chunk_full [OF "1.prems"(1), of "take tk d"] True tk
        by (simp add: s2_def s1_def)
    next
      case False
      then show ?thesis
        using update_chunk_short [OF "1.prems"(1), of "take tk d"] tk
        by (simp add: s2_def s1_def)
    qed
    moreover have "sha_len s2 = of_nat (length ((m @ take tk d) @ drop tk d))"
      using "1.prems" by (simp add: s2_def s1_def)
    ultimately have "sha_rep (update_loop s2 (drop tk d)) ((m @ take tk d) @ drop tk d)"
      using "1.IH" [of tk s1 s2 "m @ take tk d"] False bl
      by (simp only: tk_def s1_def s2_def) auto
    moreover have "update_loop s d = update_loop s2 (drop tk d)"
      using False bl by (subst update_loop.simps) (simp add: tk_def s1_def s2_def Let_def)
    ultimately show ?thesis by simp
  qed
qed

lemma sha_update_rep: "sha_rep s m \<Longrightarrow> sha_rep (sha_update s d) (m @ d)"
  unfolding sha_update_def
  by (rule update_loop_rep) (simp_all add: sha_rep_def)

lemma sha_rep_blen: "sha_rep s m \<Longrightarrow> sha_blen s = length m mod 64"
  by (simp add: sha_rep_def)

lemma pad_loop_rep:
  "sha_rep s m \<Longrightarrow> (length m + k) mod 64 = 56 \<Longrightarrow> k < 64 \<Longrightarrow> k < n \<Longrightarrow>
    \<exists>s'. pad_loop n s = Some s' \<and> sha_rep s' (m @ replicate k 0)"
proof (induction n s arbitrary: m k rule: pad_loop.induct)
  case (2 n s)
  show ?case
  proof (cases k)
    case 0
    then show ?thesis using 2 by (auto simp: sha_rep_blen)
  next
    case (Suc j)
    have "sha_blen s \<noteq> 56"
    proof
      assume "sha_blen s = 56"
      then have "length m mod 64 = 56" using 2 by (simp add: sha_rep_blen)
      then have "(56 + k) mod 64 = 56" using "2.prems" by (metis mod_add_left_eq)
      then show False using Suc "2.prems" by (auto simp: mod_if split: if_splits)
    qed
    moreover have "sha_rep (sha_update s [0]) (m @ [0])" using "2.prems" by (simp add: sha_update_rep)
    ultimately have "\<exists>s'. pad_loop n (sha_update s [0]) = Some s' \<and> sha_rep s' ((m @ [0]) @ replicate j 0)"
      using "2.prems" Suc by (intro "2.IH") simp_all
    then show ?thesis using \<open>sha_blen s \<noteq> 56\<close> Suc by simp
  qed
qed simp

lemma length_compress: "length (compress h p) = 8"
  by (simp add: compress_def split: prod.splits)

lemma map_be_bytes_nth: "length h = 8 \<Longrightarrow> map (\<lambda>i. be_bytes 4 (h ! i)) [0..<8] = map (be_bytes 4) h"
  for h :: "u32 list"
  by (rule nth_equalityI) simp_all

lemma pad_count: "(Suc n + (119 - n mod 64) mod 64) mod 64 = (56 :: nat)"
proof -
  define r where "r = n mod 64"
  have r: "r < 64" by (simp add: r_def)
  have "(Suc r + (119 - r) mod 64) mod 64 = (56 :: nat)"
  proof (cases "r \<le> 55")
    case True
    then have "(119 - r) mod 64 = 55 - r" by (simp add: mod_if)
    then show ?thesis using True by simp
  next
    case False
    then have "(119 - r) mod 64 = 119 - r" by simp
    then have "Suc r + (119 - r) mod 64 = 120" using r by simp
    then show ?thesis by simp
  qed
  then show ?thesis unfolding r_def by (metis mod_Suc_eq mod_add_left_eq)
qed

text \<open>\<open>finish\<close> always returns, and returns the reference digest of the bytes fed.\<close>

lemma sha_finish_correct:
  assumes "sha_rep s m"
  shows "\<exists>s'. sha_finish s = Some (sha256_spec m, s')"
proof -
  let ?k = "(119 - length m mod 64) mod 64"
  let ?p = "m @ 0x80 # replicate ?k 0"
  have k: "?k < 65" by (rule less_trans [of _ 64]) simp_all
  have r1: "sha_rep (sha_update s [0x80]) (m @ [0x80])" using assms by (rule sha_update_rep)
  obtain s1 where s1: "pad_loop 65 (sha_update s [0x80]) = Some s1"
    and r2: "sha_rep s1 ((m @ [0x80]) @ replicate ?k 0)"
    using pad_loop_rep [OF r1, of ?k 65] pad_count [of "length m"] k by auto
  then have rp: "sha_rep s1 ?p" by simp
  have l56: "length ?p mod 64 = 56" using pad_count [of "length m"] by simp
  then have tail: "take 56 (sha_buf s1) = block_tail ?p" "sha_h s1 = fold_blocks sha_H0 ?p"
    using rp by (simp_all add: sha_rep_def)
  have bits: "sha_len s * 8 = (of_nat (8 * length m) :: u64)"
    using assms by (simp add: sha_rep_def mult.commute)
  have full: "length (block_tail ?p @ be_bytes 8 (of_nat (8 * length m) :: u64)) = 64"
    using l56 by (simp add: length_block_tail)
  have "compress (sha_h s1) (take 56 (sha_buf s1) @ be_bytes 8 (sha_len s * 8))
      = fold_blocks sha_H0 (m @ sha_padding (length m))"
    using fold_blocks_full [OF full, of sha_H0] unfolding bits tail
    by (simp add: sha_padding_def)
  then have "map (\<lambda>i. be_bytes 4 (compress (sha_h s1) (take 56 (sha_buf s1) @ be_bytes 8 (sha_len s * 8)) ! i))
      [0..<8] = map (be_bytes 4) (fold_blocks sha_H0 (m @ sha_padding (length m)))"
    using map_be_bytes_nth [OF length_compress] by metis
  then show ?thesis
    using s1 by (simp add: sha_finish_def Let_def sha256_spec_def)
qed

lemma sha256_correct: "sha256 d = sha256_spec d"
proof -
  have "sha_rep (sha_update sha_new d) ([] @ d)" using sha_rep_new by (rule sha_update_rep)
  then show ?thesis using sha_finish_correct by (fastforce simp: sha256_def)
qed

lemma length_sha256 [simp]: "length (sha256 d) = 32"
proof -
  have "length (concat (map (be_bytes 4) xs)) = 4 * length xs" for xs :: "u32 list"
    by (induction xs) simp_all
  moreover have "length (fold_blocks h m) = 8" if "length h = 8" for h m
    using that
  proof (induction h m rule: fold_blocks.induct)
    case (1 h m)
    then show ?case by (simp add: fold_blocks.simps [of h m] length_compress)
  qed
  ultimately show ?thesis by (simp add: sha256_correct sha256_spec_def sha_H0_def)
qed

end
