(* ===== verification/Poseidon.thy ===== *)
theory Poseidon
  imports Field Sha256
begin

text \<open>
  The Poseidon permutation of \<open>src/include/hsma/poseidon.hpp\<close> over the Pallas field, with the
  tables of \<open>src/generated/poseidon_params_gen.hpp\<close> and the domain registry of
  \<open>src/generated/domain_registry_gen.hpp\<close>: \<open>p3_permute\<close>, the initial values derived from
  SHA-256 by rejection (\<open>iv_of\<close>), the two-to-one hash \<open>poseidon3\<close> and the sponge. The lemmas
  show that the Montgomery code computes the textbook permutation over the residue ring, and
  that hashes of canonical elements are canonical.
\<close>

subsection \<open>The domain registry\<close>

datatype Dom =
  HSM_MSSC_VOTE_v1
| HSM_ORDER_v1
| HSM_DEC_SHARE_v2
| HSM_TX_AUTH_v1
| HSM_BEACON_MSG_v1
| HSM_BEACON_OUT_v1
| HSM_CERT_v1
| HSM_BIND_v1
| HSM_SORTITION_v1
| HSM_PEERSEED_v1
| HSM_FOLD_v1
| HSM_CYCLEFOLD_v1
| HSM_DIGEST_v1
| HSM_PT_v1
| HSM_MODEL_v1
| HSM_DEM_v1
| HSM_TXID_v1
| HSM_AEAD_AES
| HSM_AEAD_CHACHA
| IV_STATE_NODE
| IV_STATE_LEAF
| IV_ORDER
| IV_DECREE
| IV_WEIGHT
| IV_CONTACT
| IV_REVOCATION
| IV_TABLE_REG
| IV_SEED
| IV_IDENT
| IV_CONFLICT
| IV_TXID
| IV_BREAKER
| IV_FIDELITY
| HSM_SUMCHECK_v1
| HSM_POUW_v1
| HSM_SHARD_v1
| HSM_ATTN_v1

fun TAG_NAMES :: "Dom \<Rightarrow> string" where
  "TAG_NAMES HSM_MSSC_VOTE_v1 = ''HSM_MSSC_VOTE_v1''"
| "TAG_NAMES HSM_ORDER_v1 = ''HSM_ORDER_v1''"
| "TAG_NAMES HSM_DEC_SHARE_v2 = ''HSM_DEC_SHARE_v2''"
| "TAG_NAMES HSM_TX_AUTH_v1 = ''HSM_TX_AUTH_v1''"
| "TAG_NAMES HSM_BEACON_MSG_v1 = ''HSM_BEACON_MSG_v1''"
| "TAG_NAMES HSM_BEACON_OUT_v1 = ''HSM_BEACON_OUT_v1''"
| "TAG_NAMES HSM_CERT_v1 = ''HSM_CERT_v1''"
| "TAG_NAMES HSM_BIND_v1 = ''HSM_BIND_v1''"
| "TAG_NAMES HSM_SORTITION_v1 = ''HSM_SORTITION_v1''"
| "TAG_NAMES HSM_PEERSEED_v1 = ''HSM_PEERSEED_v1''"
| "TAG_NAMES HSM_FOLD_v1 = ''HSM_FOLD_v1''"
| "TAG_NAMES HSM_CYCLEFOLD_v1 = ''HSM_CYCLEFOLD_v1''"
| "TAG_NAMES HSM_DIGEST_v1 = ''HSM_DIGEST_v1''"
| "TAG_NAMES HSM_PT_v1 = ''HSM_PT_v1''"
| "TAG_NAMES HSM_MODEL_v1 = ''HSM_MODEL_v1''"
| "TAG_NAMES HSM_DEM_v1 = ''HSM_DEM_v1''"
| "TAG_NAMES HSM_TXID_v1 = ''HSM_TXID_v1''"
| "TAG_NAMES HSM_AEAD_AES = ''HSM_AEAD_AES''"
| "TAG_NAMES HSM_AEAD_CHACHA = ''HSM_AEAD_CHACHA''"
| "TAG_NAMES IV_STATE_NODE = ''IV_STATE_NODE''"
| "TAG_NAMES IV_STATE_LEAF = ''IV_STATE_LEAF''"
| "TAG_NAMES IV_ORDER = ''IV_ORDER''"
| "TAG_NAMES IV_DECREE = ''IV_DECREE''"
| "TAG_NAMES IV_WEIGHT = ''IV_WEIGHT''"
| "TAG_NAMES IV_CONTACT = ''IV_CONTACT''"
| "TAG_NAMES IV_REVOCATION = ''IV_REVOCATION''"
| "TAG_NAMES IV_TABLE_REG = ''IV_TABLE_REG''"
| "TAG_NAMES IV_SEED = ''IV_SEED''"
| "TAG_NAMES IV_IDENT = ''IV_IDENT''"
| "TAG_NAMES IV_CONFLICT = ''IV_CONFLICT''"
| "TAG_NAMES IV_TXID = ''IV_TXID''"
| "TAG_NAMES IV_BREAKER = ''IV_BREAKER''"
| "TAG_NAMES IV_FIDELITY = ''IV_FIDELITY''"
| "TAG_NAMES HSM_SUMCHECK_v1 = ''HSM_SUMCHECK_v1''"
| "TAG_NAMES HSM_POUW_v1 = ''HSM_POUW_v1''"
| "TAG_NAMES HSM_SHARD_v1 = ''HSM_SHARD_v1''"
| "TAG_NAMES HSM_ATTN_v1 = ''HSM_ATTN_v1''"

subsection \<open>Generated tables\<close>

definition MDS_CANON :: "u64 list list list" where
  "MDS_CANON = [
    [[0x6b4f914066666667, 0xa74f7064d0a1dd25, 0x9999999999999999, 0x1999999999999999],
     [0x9f906e9b80000001, 0x71e57f7cb2a68cb8, 0x5555555555555555, 0x3555555555555555],
     [0x74bacf8092492493, 0xa5df32d92a0bce35, 0x4924924924924924, 0x2492492492492492]],
    [[0x9f906e9b80000001, 0x71e57f7cb2a68cb8, 0x5555555555555555, 0x3555555555555555],
     [0x74bacf8092492493, 0xa5df32d92a0bce35, 0x4924924924924924, 0x2492492492492492],
     [0xdabe0dbce0000001, 0x1dfdc5dc886213c1, 0x0, 0x3800000000000000]],
    [[0x74bacf8092492493, 0xa5df32d92a0bce35, 0x4924924924924924, 0x2492492492492492],
     [0xdabe0dbce0000001, 0x1dfdc5dc886213c1, 0x0, 0x3800000000000000],
     [0x43cd42c800000001, 0x205dd51cfa0961a, 0x8e38e38e38e38e39, 0x38e38e38e38e38e3]]]"

definition RC_CANON :: "u64 list list" where
  "RC_CANON = [
    [0xf97f2f77f84c6a4a, 0x4d88a93ce65d0518, 0xf1d79a554217fadf, 0x0],
    [0x0, 0x0, 0x0, 0x0],
    [0x0, 0x0, 0x0, 0x0],
    [0x0, 0x0, 0x0, 0x0],
    [0x0, 0x0, 0x0, 0x0],
    [0x0, 0x0, 0x0, 0x0],
    [0x0, 0x0, 0x0, 0x0],
    [0x0, 0x0, 0x0, 0x0],
    [0x0, 0x0, 0x0, 0x0],
    [0x0, 0x0, 0x0, 0x0],
    [0x0, 0x0, 0x0, 0x0],
    [0x0, 0x0, 0x0, 0x0],
    [0x0, 0x0, 0x0, 0x0],
    [0x0, 0x0, 0x0, 0x0],
    [0x0, 0x0, 0x0, 0x0],
    [0x0, 0x0, 0x0, 0x0],
    [0x0, 0x0, 0x0, 0x0],
    [0x0, 0x0, 0x0, 0x0],
    [0x0, 0x0, 0x0, 0x0],
    [0x0, 0x0, 0x0, 0x0],
    [0x0, 0x0, 0x0, 0x0],
    [0x0, 0x0, 0x0, 0x0],
    [0x0, 0x0, 0x0, 0x0],
    [0x0, 0x0, 0x0, 0x0],
    [0x0, 0x0, 0x0, 0x0],
    [0x0, 0x0, 0x0, 0x0],
    [0x0, 0x0, 0x0, 0x0],
    [0x0, 0x0, 0x0, 0x0],
    [0x0, 0x0, 0x0, 0x0],
    [0x0, 0x0, 0x0, 0x0],
    [0x0, 0x0, 0x0, 0x0],
    [0x0, 0x0, 0x0, 0x0],
    [0x0, 0x0, 0x0, 0x0],
    [0x0, 0x0, 0x0, 0x0],
    [0x0, 0x0, 0x0, 0x0],
    [0x0, 0x0, 0x0, 0x0],
    [0x0, 0x0, 0x0, 0x0],
    [0x0, 0x0, 0x0, 0x0],
    [0x0, 0x0, 0x0, 0x0],
    [0x0, 0x0, 0x0, 0x0],
    [0x0, 0x0, 0x0, 0x0],
    [0x0, 0x0, 0x0, 0x0],
    [0x0, 0x0, 0x0, 0x0],
    [0x0, 0x0, 0x0, 0x0],
    [0x0, 0x0, 0x0, 0x0],
    [0x0, 0x0, 0x0, 0x0],
    [0x0, 0x0, 0x0, 0x0],
    [0x0, 0x0, 0x0, 0x0],
    [0x0, 0x0, 0x0, 0x0],
    [0x0, 0x0, 0x0, 0x0],
    [0x0, 0x0, 0x0, 0x0],
    [0x0, 0x0, 0x0, 0x0],
    [0x0, 0x0, 0x0, 0x0],
    [0x0, 0x0, 0x0, 0x0],
    [0x0, 0x0, 0x0, 0x0],
    [0x0, 0x0, 0x0, 0x0],
    [0x0, 0x0, 0x0, 0x0],
    [0x0, 0x0, 0x0, 0x0],
    [0x0, 0x0, 0x0, 0x0],
    [0x0, 0x0, 0x0, 0x0],
    [0x0, 0x0, 0x0, 0x0],
    [0x0, 0x0, 0x0, 0x0],
    [0x0, 0x0, 0x0, 0x0],
    [0x0, 0x0, 0x0, 0x0],
    [0x0, 0x0, 0x0, 0x0],
    [0x0, 0x0, 0x0, 0x0],
    [0x0, 0x0, 0x0, 0x0],
    [0x0, 0x0, 0x0, 0x0],
    [0x0, 0x0, 0x0, 0x0],
    [0x0, 0x0, 0x0, 0x0],
    [0x0, 0x0, 0x0, 0x0],
    [0x0, 0x0, 0x0, 0x0],
    [0x0, 0x0, 0x0, 0x0],
    [0x0, 0x0, 0x0, 0x0],
    [0x0, 0x0, 0x0, 0x0],
    [0x0, 0x0, 0x0, 0x0],
    [0x0, 0x0, 0x0, 0x0],
    [0x0, 0x0, 0x0, 0x0],
    [0x0, 0x0, 0x0, 0x0],
    [0x0, 0x0, 0x0, 0x0]]"

definition RF :: nat where "RF = 8"
definition RP :: nat where "RP = 56"

subsection \<open>Tables in the Montgomery domain\<close>

definition p3_mds :: "nat \<Rightarrow> nat \<Rightarrow> fe" where
  "p3_mds i j = fe_from_canonical_limbs (MDS_CANON ! i ! j)"

definition p3_rc :: "nat \<Rightarrow> fe" where
  "p3_rc k = fe_from_canonical_limbs (RC_CANON ! k)"

subsection \<open>The permutation\<close>

record P3State =
  ps0 :: fe
  ps1 :: fe
  ps2 :: fe

definition p3_sbox :: "fe \<Rightarrow> fe" where
  "p3_sbox x = (let x2 = fe_sqr x; x4 = fe_sqr x2 in fe_mul x4 x)"

definition mix_row :: "nat \<Rightarrow> P3State \<Rightarrow> fe" where
  "mix_row i s = fe_add (fe_add (fe_mul (p3_mds i 0) (ps0 s)) (fe_mul (p3_mds i 1) (ps1 s)))
     (fe_mul (p3_mds i 2) (ps2 s))"

definition p3_mix :: "P3State \<Rightarrow> P3State" where
  "p3_mix s = \<lparr>ps0 = mix_row 0 s, ps1 = mix_row 1 s, ps2 = mix_row 2 s\<rparr>"

text \<open>One turn of the first and third loop (three constants), and of the middle loop (one).\<close>

definition full_round :: "nat \<Rightarrow> P3State \<Rightarrow> P3State" where
  "full_round k s = p3_mix
     \<lparr>ps0 = p3_sbox (fe_add (ps0 s) (p3_rc k)),
      ps1 = p3_sbox (fe_add (ps1 s) (p3_rc (k + 1))),
      ps2 = p3_sbox (fe_add (ps2 s) (p3_rc (k + 2)))\<rparr>"

definition partial_round :: "nat \<Rightarrow> P3State \<Rightarrow> P3State" where
  "partial_round k s = p3_mix (s\<lparr>ps0 := p3_sbox (fe_add (ps0 s) (p3_rc k))\<rparr>)"

fun full_rounds :: "nat \<Rightarrow> nat \<Rightarrow> P3State \<Rightarrow> P3State" where
  "full_rounds 0 k s = s"
| "full_rounds (Suc r) k s = full_rounds r (k + 3) (full_round k s)"

fun partial_rounds :: "nat \<Rightarrow> nat \<Rightarrow> P3State \<Rightarrow> P3State" where
  "partial_rounds 0 k s = s"
| "partial_rounds (Suc r) k s = partial_rounds r (k + 1) (partial_round k s)"

definition p3_permute :: "P3State \<Rightarrow> P3State" where
  "p3_permute s =
     full_rounds (RF div 2) (3 * (RF div 2) + RP)
       (partial_rounds RP (3 * (RF div 2)) (full_rounds (RF div 2) 0 s))"

subsection \<open>Initial values\<close>

definition ascii :: "string \<Rightarrow> bytes" where
  "ascii s = map of_char s"

text \<open>
  The search \<open>for (nonce = 0;; ++nonce)\<close> for a canonical digest has no bound in the code:
  \<^const>\<open>None\<close> stands for a search that never ends.
\<close>

partial_function (option) iv_search :: "bytes \<Rightarrow> u64 \<Rightarrow> fe option" where
  "iv_search tag nonce =
     (let cand = fe_of_limbs (bytes_to_limbs
            (sha256 (ascii ''HSM_IV_v1|'' @ tag @ le_bytes 8 nonce)))
      in if is_canonical cand then Some (fe_mul cand (fe_of_limbs RR))
         else iv_search tag (nonce + 1))"

definition iv_of :: "Dom \<Rightarrow> fe" where
  "iv_of d = the (iv_search (ascii (TAG_NAMES d)) 0)"

text \<open>The table entry of domain \<open>d\<close> is computed, i.e. its search ends.\<close>

definition iv_found :: "Dom \<Rightarrow> bool" where
  "iv_found d \<longleftrightarrow> iv_search (ascii (TAG_NAMES d)) 0 \<noteq> None"

definition poseidon3 :: "Dom \<Rightarrow> fe \<Rightarrow> fe \<Rightarrow> fe" where
  "poseidon3 d l r = ps0 (p3_permute \<lparr>ps0 = l, ps1 = r, ps2 = iv_of d\<rparr>)"

subsection \<open>The sponge\<close>

record Sponge =
  sp_st :: P3State
  sp_idx :: nat
  sp_count :: u64

definition sponge_new :: "Dom \<Rightarrow> Sponge" where
  "sponge_new d = \<lparr>sp_st = \<lparr>ps0 = fe_zero, ps1 = fe_zero, ps2 = iv_of d\<rparr>, sp_idx = 0, sp_count = 0\<rparr>"

definition sponge_absorb :: "Sponge \<Rightarrow> fe \<Rightarrow> Sponge" where
  "sponge_absorb sp x =
     (let st1 = (if sp_idx sp = 0 then (sp_st sp)\<lparr>ps0 := fe_add (ps0 (sp_st sp)) x\<rparr>
                 else if sp_idx sp = 1 then (sp_st sp)\<lparr>ps1 := fe_add (ps1 (sp_st sp)) x\<rparr>
                 else sp_st sp);
          i = sp_idx sp + 1
      in if i = 2 then \<lparr>sp_st = p3_permute st1, sp_idx = 0, sp_count = sp_count sp + 1\<rparr>
         else \<lparr>sp_st = st1, sp_idx = i, sp_count = sp_count sp + 1\<rparr>)"

definition sponge_squeeze :: "Sponge \<Rightarrow> fe \<times> Sponge" where
  "sponge_squeeze sp =
     (let a = sponge_absorb sp (fe_from_u64 (sp_count sp));
          b = sponge_absorb a fe_one;
          c = (if sp_idx b \<noteq> 0 then b\<lparr>sp_st := p3_permute (sp_st b), sp_idx := 0\<rparr> else b)
      in (ps0 (sp_st c), c\<lparr>sp_count := 0\<rparr>))"

subsection \<open>Canonical states\<close>

definition canon_state :: "P3State \<Rightarrow> bool" where
  "canon_state s \<longleftrightarrow> is_canonical (ps0 s) \<and> is_canonical (ps1 s) \<and> is_canonical (ps2 s)"

lemma canonical_from_limbs:
  "length c = 4 \<Longrightarrow> limbs_val c < pallas_p \<Longrightarrow> is_canonical (fe_from_canonical_limbs c)"
  unfolding fe_from_canonical_limbs_def by (rule canonical_from_raw) (simp add: is_canonical_iff)

lemma fe_dec_from_limbs:
  "length c = 4 \<Longrightarrow> limbs_val c < pallas_p \<Longrightarrow> fe_dec (fe_from_canonical_limbs c) = of_nat (limbs_val c)"
  by (simp add: fe_from_canonical_limbs_def fe_dec_raw is_canonical_iff)

lemma RC_CANON_tail: "0 < k \<Longrightarrow> k < 80 \<Longrightarrow> RC_CANON ! k = [0, 0, 0, 0]"
proof -
  have "list_all (\<lambda>r. r = [0, 0, 0, 0]) (tl RC_CANON)" and "length RC_CANON = 80"
    by (simp_all add: RC_CANON_def)
  moreover assume "0 < k" "k < 80"
  ultimately show ?thesis by (cases k) (simp_all add: list_all_length nth_tl)
qed

lemma RC_CANON_ok: "k < 80 \<Longrightarrow> length (RC_CANON ! k) = 4 \<and> limbs_val (RC_CANON ! k) < pallas_p"
proof (cases "k = 0")
  case True
  then show ?thesis by (simp add: RC_CANON_def pallas_p_eq)
next
  case False
  moreover assume "k < 80"
  ultimately show ?thesis by (simp add: RC_CANON_tail pallas_p_pos)
qed

lemma canonical_rc [simp]: "k < 80 \<Longrightarrow> is_canonical (p3_rc k)"
  using RC_CANON_ok [of k] by (simp add: p3_rc_def canonical_from_limbs)

lemma less_3_cases: "i < 3 \<Longrightarrow> i = 0 \<or> i = 1 \<or> i = (2::nat)"
  by auto

lemma MDS_CANON_ok:
  assumes "i < 3" and "j < 3"
  shows "length (MDS_CANON ! i ! j) = 4 \<and> limbs_val (MDS_CANON ! i ! j) < pallas_p
    \<and> (limbs_val (MDS_CANON ! i ! j) * (i + j + 5)) mod pallas_p = 1"
  using less_3_cases [OF assms(1)] less_3_cases [OF assms(2)]
  by (elim disjE) (simp_all add: MDS_CANON_def pallas_p_eq)

lemma canonical_mds [simp]: "i < 3 \<Longrightarrow> j < 3 \<Longrightarrow> is_canonical (p3_mds i j)"
  using MDS_CANON_ok [of i j] by (simp add: p3_mds_def canonical_from_limbs)

text \<open>The matrix is the Cauchy matrix \<open>1 / (x_i + y_j)\<close> for \<open>x = 1, 2, 3\<close> and \<open>y = 4, 5, 6\<close>.\<close>

lemma mds_cauchy: "i < 3 \<Longrightarrow> j < 3 \<Longrightarrow> fe_dec (p3_mds i j) * of_nat (i + j + 5) = 1"
proof -
  assume ij: "i < 3" "j < 3"
  note ok = MDS_CANON_ok [OF ij]
  have "(of_nat (limbs_val (MDS_CANON ! i ! j) * (i + j + 5)) :: pallas) = of_nat 1"
    unfolding of_nat_pallas using ok by (simp add: pallas_p_eq)
  then show ?thesis using ok by (simp add: p3_mds_def fe_dec_from_limbs)
qed

lemma canonical_sqr [simp]: "is_canonical x \<Longrightarrow> is_canonical (fe_sqr x)"
  by (simp add: fe_sqr_def)

lemma canonical_sbox [simp]: "is_canonical x \<Longrightarrow> is_canonical (p3_sbox x)"
  by (simp add: p3_sbox_def Let_def)

text \<open>Every mixed state is reduced, whatever went in, because the matrix entries are.\<close>

lemma canonical_mix_row [simp]: "i < 3 \<Longrightarrow> is_canonical (mix_row i s)"
  by (simp add: mix_row_def canonical_add canonical_mul_left)

lemma canon_mix [simp]: "canon_state (p3_mix s)"
  by (simp add: p3_mix_def canon_state_def)

lemma canon_full_round [simp]: "canon_state (full_round k s)"
  unfolding full_round_def by (rule canon_mix)

lemma canon_partial_round [simp]: "canon_state (partial_round k s)"
  unfolding partial_round_def by (rule canon_mix)

lemma canon_full_rounds: "canon_state s \<Longrightarrow> k + 3 * r \<le> 80 \<Longrightarrow> canon_state (full_rounds r k s)"
  by (induction r k s rule: full_rounds.induct) simp_all

lemma canon_partial_rounds: "canon_state s \<Longrightarrow> k + r \<le> 80 \<Longrightarrow> canon_state (partial_rounds r k s)"
  by (induction r k s rule: partial_rounds.induct) simp_all

lemma canon_full_rounds_pos: "0 < r \<Longrightarrow> canon_state (full_rounds r k s)"
proof (induction r k s rule: full_rounds.induct)
  case (2 r k s)
  then show ?case by (cases r) simp_all
qed simp

lemma canon_permute [simp]: "canon_state (p3_permute s)"
  by (simp add: p3_permute_def RF_def canon_full_rounds_pos)

lemma iv_search_canonical:
  assumes "iv_search tag n = Some x"
  shows "is_canonical x"
proof (rule iv_search.raw_induct [where P = "\<lambda>_ _ x. is_canonical x", OF _ assms])
  fix f and tag :: bytes and n :: u64 and x
  assume IH: "\<And>tag n x. f tag n = Some x \<Longrightarrow> is_canonical x"
    and eq: "(let cand = fe_of_limbs (bytes_to_limbs
            (sha256 (ascii ''HSM_IV_v1|'' @ tag @ le_bytes 8 n)))
      in if is_canonical cand then Some (fe_mul cand (fe_of_limbs RR)) else f tag (n + 1)) = Some x"
  show "is_canonical x"
    using eq IH by (auto simp: Let_def canonical_RR split: if_splits)
qed

lemma canonical_iv: "iv_found d \<Longrightarrow> is_canonical (iv_of d)"
  by (auto simp: iv_found_def iv_of_def dest: iv_search_canonical)

lemma canonical_poseidon3 [simp]: "is_canonical (poseidon3 d l r)"
  using canon_permute [of "\<lparr>ps0 = l, ps1 = r, ps2 = iv_of d\<rparr>"]
  by (simp add: poseidon3_def canon_state_def)

subsection \<open>The textbook permutation\<close>

text \<open>The reference over the residue ring: constants, fifth powers, the Cauchy matrix.\<close>

type_synonym p3_ring = "pallas \<times> pallas \<times> pallas"

definition dec_state :: "P3State \<Rightarrow> p3_ring" where
  "dec_state s = (fe_dec (ps0 s), fe_dec (ps1 s), fe_dec (ps2 s))"

definition ring_rc :: "nat \<Rightarrow> pallas" where
  "ring_rc k = of_nat (limbs_val (RC_CANON ! k))"

definition ring_mds :: "nat \<Rightarrow> nat \<Rightarrow> pallas" where
  "ring_mds i j = of_nat (limbs_val (MDS_CANON ! i ! j))"

fun ring_row :: "nat \<Rightarrow> p3_ring \<Rightarrow> pallas" where
  "ring_row i (a, b, c) = ring_mds i 0 * a + ring_mds i 1 * b + ring_mds i 2 * c"

definition ring_mix :: "p3_ring \<Rightarrow> p3_ring" where
  "ring_mix x = (ring_row 0 x, ring_row 1 x, ring_row 2 x)"

fun ring_full :: "nat \<Rightarrow> p3_ring \<Rightarrow> p3_ring" where
  "ring_full k (a, b, c) =
     ring_mix ((a + ring_rc k) ^ 5, (b + ring_rc (k + 1)) ^ 5, (c + ring_rc (k + 2)) ^ 5)"

fun ring_partial :: "nat \<Rightarrow> p3_ring \<Rightarrow> p3_ring" where
  "ring_partial k (a, b, c) = ring_mix ((a + ring_rc k) ^ 5, b, c)"

definition ring_permute :: "p3_ring \<Rightarrow> p3_ring" where
  "ring_permute x = fold ring_full (map (\<lambda>i. 68 + 3 * i) [0..<4])
     (fold ring_partial [12..<68] (fold ring_full (map (\<lambda>i. 0 + 3 * i) [0..<4]) x))"

lemma fe_dec_sbox: "is_canonical x \<Longrightarrow> fe_dec (p3_sbox x) = fe_dec x ^ 5"
  by (simp add: p3_sbox_def fe_sqr_def Let_def dec_simps power_numeral_reduce mult.assoc)

lemma fe_dec_rc: "k < 80 \<Longrightarrow> fe_dec (p3_rc k) = ring_rc k"
  using RC_CANON_ok [of k] by (simp add: p3_rc_def ring_rc_def fe_dec_from_limbs)

lemma fe_dec_mds: "i < 3 \<Longrightarrow> j < 3 \<Longrightarrow> fe_dec (p3_mds i j) = ring_mds i j"
  using MDS_CANON_ok [of i j] by (simp add: p3_mds_def ring_mds_def fe_dec_from_limbs)

lemma fe_dec_mix_row:
  "i < 3 \<Longrightarrow> canon_state s \<Longrightarrow> fe_dec (mix_row i s) = ring_row i (dec_state s)"
  by (simp add: mix_row_def dec_state_def canon_state_def dec_simps fe_dec_mds)

lemma dec_mix: "canon_state s \<Longrightarrow> dec_state (p3_mix s) = ring_mix (dec_state s)"
  by (simp add: p3_mix_def ring_mix_def fe_dec_mix_row dec_state_def [of "\<lparr>ps0 = _, ps1 = _, ps2 = _\<rparr>"])

lemma dec_full_round:
  assumes "canon_state s" and "k < 78"
  shows "dec_state (full_round k s) = ring_full k (dec_state s)"
proof -
  let ?t = "\<lparr>ps0 = p3_sbox (fe_add (ps0 s) (p3_rc k)), ps1 = p3_sbox (fe_add (ps1 s) (p3_rc (k + 1))),
    ps2 = p3_sbox (fe_add (ps2 s) (p3_rc (k + 2)))\<rparr>"
  have "canon_state ?t" using assms by (simp add: canon_state_def)
  then show ?thesis
    using assms by (simp add: full_round_def dec_mix)
      (simp add: dec_state_def canon_state_def fe_dec_sbox dec_simps fe_dec_rc)
qed

lemma dec_partial_round:
  assumes "canon_state s" and "k < 80"
  shows "dec_state (partial_round k s) = ring_partial k (dec_state s)"
proof -
  let ?t = "s\<lparr>ps0 := p3_sbox (fe_add (ps0 s) (p3_rc k))\<rparr>"
  have "canon_state ?t" using assms by (simp add: canon_state_def)
  then show ?thesis
    using assms by (simp add: partial_round_def dec_mix)
      (simp add: dec_state_def canon_state_def fe_dec_sbox dec_simps fe_dec_rc)
qed

lemma dec_full_rounds:
  "canon_state s \<Longrightarrow> k + 3 * r \<le> 80 \<Longrightarrow>
    dec_state (full_rounds r k s) = fold ring_full (map (\<lambda>i. k + 3 * i) [0..<r]) (dec_state s)"
proof (induction r k s rule: full_rounds.induct)
  case (2 r k s)
  have "map (\<lambda>i. k + 3 * i) [0..<Suc r] = k # map (\<lambda>i. (k + 3) + 3 * i) [0..<r]"
    by (rule nth_equalityI) (auto simp: nth_Cons' nth_append)
  then show ?case using 2 by (simp add: dec_full_round)
qed simp

lemma dec_partial_rounds:
  "canon_state s \<Longrightarrow> k + r \<le> 80 \<Longrightarrow>
    dec_state (partial_rounds r k s) = fold ring_partial [k..<k + r] (dec_state s)"
proof (induction r k s rule: partial_rounds.induct)
  case (2 r k s)
  have "[k..<k + Suc r] = k # [k + 1..<(k + 1) + r]" by (simp add: upt_conv_Cons del: upt_Suc)
  then show ?case using 2 by (simp add: dec_partial_round del: upt_Suc)
qed simp

lemma dec_permute: "canon_state s \<Longrightarrow> dec_state (p3_permute s) = ring_permute (dec_state s)"
proof -
  assume s: "canon_state s"
  let ?a = "full_rounds 4 0 s"
  let ?b = "partial_rounds 56 12 ?a"
  have a: "canon_state ?a" using s by (simp add: canon_full_rounds)
  then have b: "canon_state ?b" by (simp add: canon_partial_rounds)
  have "p3_permute s = full_rounds 4 68 ?b" by (simp add: p3_permute_def RF_def RP_def)
  then show ?thesis
    using dec_full_rounds [OF s, of 0 4] dec_partial_rounds [OF a, of 12 56] dec_full_rounds [OF b, of 68 4]
    by (simp only: ring_permute_def) simp
qed

subsection \<open>The round constants\<close>

text \<open>
  All constants but the first are zero, so every round after the first addition is one of two
  fixed maps. \<open>full_const\<close> and \<open>partial_const\<close> are the rounds without a constant.
\<close>

definition full_const :: "P3State \<Rightarrow> P3State" where
  "full_const s = p3_mix \<lparr>ps0 = p3_sbox (ps0 s), ps1 = p3_sbox (ps1 s), ps2 = p3_sbox (ps2 s)\<rparr>"

definition partial_const :: "P3State \<Rightarrow> P3State" where
  "partial_const s = p3_mix (s\<lparr>ps0 := p3_sbox (ps0 s)\<rparr>)"

lemma p3_rc_zero: "0 < k \<Longrightarrow> k < 80 \<Longrightarrow> p3_rc k = fe_zero"
proof (rule fe_dec_inj)
  assume k: "0 < k" "k < 80"
  then show "is_canonical (p3_rc k)" by simp
  show "fe_dec (p3_rc k) = fe_dec fe_zero"
    using k by (simp add: fe_dec_rc ring_rc_def RC_CANON_tail fe_dec_zero)
qed simp

lemma full_round_const:
  "canon_state s \<Longrightarrow> 0 < k \<Longrightarrow> k < 78 \<Longrightarrow> full_round k s = full_const s"
  by (simp add: full_round_def full_const_def p3_rc_zero canon_state_def pallas.add_zero)

lemma full_round_first:
  "canon_state s \<Longrightarrow> full_round 0 s = full_const (s\<lparr>ps0 := fe_add (ps0 s) (p3_rc 0)\<rparr>)"
  by (simp add: full_round_def full_const_def p3_rc_zero canon_state_def pallas.add_zero)

lemma partial_round_const:
  "canon_state s \<Longrightarrow> 0 < k \<Longrightarrow> k < 80 \<Longrightarrow> partial_round k s = partial_const s"
  by (simp add: partial_round_def partial_const_def p3_rc_zero canon_state_def pallas.add_zero)

lemma full_rounds_const:
  "canon_state s \<Longrightarrow> 0 < k \<Longrightarrow> k + 3 * r \<le> 80 \<Longrightarrow> full_rounds r k s = (full_const ^^ r) s"
proof (induction r k s rule: full_rounds.induct)
  case (2 r k s)
  then have "full_rounds r (k + 3) (full_round k s) = (full_const ^^ r) (full_round k s)" by simp
  moreover have "full_round k s = full_const s" using 2 by (intro full_round_const) simp_all
  ultimately show ?case by (simp add: funpow_Suc_right del: funpow.simps)
qed simp

lemma partial_rounds_const:
  "canon_state s \<Longrightarrow> 0 < k \<Longrightarrow> k + r \<le> 80 \<Longrightarrow> partial_rounds r k s = (partial_const ^^ r) s"
proof (induction r k s rule: partial_rounds.induct)
  case (2 r k s)
  then have "partial_rounds r (k + 1) (partial_round k s) = (partial_const ^^ r) (partial_round k s)"
    by simp
  moreover have "partial_round k s = partial_const s" using 2 by (intro partial_round_const) simp_all
  ultimately show ?case by (simp add: funpow_Suc_right del: funpow.simps)
qed simp

lemma p3_permute_const:
  assumes s: "canon_state s"
  shows "p3_permute s =
    (full_const ^^ 4) ((partial_const ^^ 56) ((full_const ^^ 4) (s\<lparr>ps0 := fe_add (ps0 s) (p3_rc 0)\<rparr>)))"
proof -
  let ?t = "s\<lparr>ps0 := fe_add (ps0 s) (p3_rc 0)\<rparr>"
  have r1: "canon_state (full_round 0 s)" using s by simp
  have f: "full_rounds 4 0 s = (full_const ^^ 4) ?t"
  proof -
    have "full_rounds 4 0 s = full_rounds 3 3 (full_round 0 s)" by (simp add: numeral_eq_Suc)
    also have "\<dots> = (full_const ^^ 3) (full_const ?t)"
      using r1 s by (simp add: full_rounds_const full_round_first)
    finally show ?thesis by (simp add: numeral_eq_Suc)
  qed
  have c1: "canon_state (full_rounds 4 0 s)" using s by (simp add: canon_full_rounds)
  then have m: "partial_rounds 56 12 (full_rounds 4 0 s) = (partial_const ^^ 56) (full_rounds 4 0 s)"
    by (intro partial_rounds_const) simp_all
  have "canon_state (partial_rounds 56 12 (full_rounds 4 0 s))"
    using c1 by (simp add: canon_partial_rounds)
  then show ?thesis
    using f m by (simp add: p3_permute_def RF_def RP_def full_rounds_const)
qed

end
