(* ===== verification/Vault.thy ===== *)
theory Vault
  imports Poseidon
begin

text \<open>
  The append-only node store of \<open>src/include/hsma/vault.hpp\<close>. A \<open>Vault\<close> is a sequence of
  memory-mapped segments of \<open>SEG_SLOTS\<close> 64-byte entries, a tail slot and a control sector; a
  handle packs a tag, a segment number and a slot into 64 bits. The operating system is the
  field \<open>os\<close> of the state: the content a newly mapped segment file has, or no content when
  the mapping fails. The lemmas cover the handle codec, allocation within a segment, and the
  ring of the last 48 committed roots.
\<close>

subsection \<open>Handles and entries\<close>

type_synonym Handle = u64

definition HEMPTY :: Handle where
  "HEMPTY = 0"

definition SEG_SLOTS :: nat where
  "SEG_SLOTS = 2 ^ 18"

datatype Tag = MID | TLEAF | REC

fun tag_val :: "Tag \<Rightarrow> u8" where
  "tag_val MID = 1"
| "tag_val TLEAF = 2"
| "tag_val REC = 3"

text \<open>\<open>Tag(e.tag)\<close> casts any byte, so the codec works on the byte.\<close>

definition mk_handle :: "u64 \<Rightarrow> u64 \<Rightarrow> u8 \<Rightarrow> Handle" where
  "mk_handle seg slot t = push_bit 58 (ucast t) OR push_bit 42 seg OR slot"

definition h_tag :: "Handle \<Rightarrow> u8" where
  "h_tag h = ucast (drop_bit 58 h)"

definition h_seg :: "Handle \<Rightarrow> u64" where
  "h_seg h = drop_bit 42 h AND 0xFFFF"

definition h_slot :: "Handle \<Rightarrow> u64" where
  "h_slot h = h AND (push_bit 42 1 - 1)"

text \<open>\<open>struct Entry\<close>; the seven pad bytes are zero in every entry and never read.\<close>

record Entry =
  etag :: u8
  ew :: "u64 list"

definition zero_entry :: Entry where
  "zero_entry = \<lparr>etag = 0, ew = replicate 7 0\<rparr>"

subsection \<open>The vault\<close>

text \<open>The fields of the control sector the operations change.\<close>

record ControlSector =
  n_segments :: nat
  ctl_tail :: u64
  ctl_roots :: "Handle list"

record Vault =
  os :: "nat \<Rightarrow> (nat \<Rightarrow> Entry) option"
  segs :: "(nat \<Rightarrow> Entry) list"
  tail_slot :: u64
  ctls :: ControlSector

text \<open>
  Reading through a handle: \<^const>\<open>None\<close> is the null pointer. Outside the mapped segments the
  pointer is invalid and the entry unspecified.
\<close>

definition entry_at :: "Vault \<Rightarrow> Handle \<Rightarrow> Entry" where
  "entry_at v h = (segs v ! unat (h_seg h)) (unat (h_slot h))"

definition deref :: "Vault \<Rightarrow> Handle \<Rightarrow> Entry option" where
  "deref v h = (if h = HEMPTY then None else Some (entry_at v h))"

definition entry_hash :: "Entry \<Rightarrow> fe" where
  "entry_hash e = fe_of_limbs (take 4
     (drop (if etag e = tag_val MID then 2 else if etag e = tag_val TLEAF then 1 else 0) (ew e)))"

definition store_fe :: "Entry \<Rightarrow> nat \<Rightarrow> fe \<Rightarrow> Entry" where
  "store_fe e at f = e\<lparr>ew := take at (ew e) @ limbs f @ drop (at + 4) (ew e)\<rparr>"

fun empty_table :: "nat \<Rightarrow> fe" where
  "empty_table 0 = poseidon3 IV_STATE_LEAF fe_zero fe_zero"
| "empty_table (Suc h) = poseidon3 IV_STATE_NODE (empty_table h) (empty_table h)"

definition latest_root :: "Vault \<Rightarrow> Handle" where
  "latest_root v = (if ctl_roots (ctls v) = [] then HEMPTY else last (ctl_roots (ctls v)))"

text \<open>
  \<open>commit_control\<close>: append below 48 roots, else shift the ring by one; the control sector is
  then written out, whose success is the argument.
\<close>

definition commit_control :: "bool \<Rightarrow> Vault \<Rightarrow> Handle \<Rightarrow> bool \<times> Vault" where
  "commit_control wrote v new_root =
     (let rs = ctl_roots (ctls v);
          rs' = (if length rs < 48 then rs @ [new_root] else tl rs @ [new_root])
      in (wrote, v\<lparr>ctls := (ctls v)\<lparr>ctl_roots := rs', ctl_tail := tail_slot v\<rparr>\<rparr>))"

definition fork_epoch :: "bool \<Rightarrow> Vault \<Rightarrow> Handle \<Rightarrow> bool \<times> Vault" where
  "fork_epoch = commit_control"

text \<open>\<open>map_segment(idx)\<close> for the next segment; \<^const>\<open>None\<close> is a failed mapping.\<close>

definition map_segment :: "Vault \<Rightarrow> nat \<Rightarrow> Vault option" where
  "map_segment v i =
     (case os v i of
        None \<Rightarrow> None
      | Some base \<Rightarrow>
          Some (v\<lparr>segs := (if length (segs v) \<le> i
             then segs v @ replicate (i - length (segs v)) (\<lambda>_. zero_entry) @ [base]
             else (segs v)[i := base])\<rparr>))"

text \<open>
  \<open>alloc\<close>: the entry is copied to the tail slot of the last segment. The tail slot is not
  reset when a new segment is mapped; a copy beyond the segment's \<open>SEG_SLOTS\<close> entries leaves
  the mapping, which is undefined behaviour and \<^const>\<open>None\<close>.
\<close>

definition put_entry :: "Vault \<Rightarrow> Entry \<Rightarrow> (Handle \<times> Vault) option" where
  "put_entry v e =
     (if SEG_SLOTS \<le> unat (tail_slot v) then None
      else let n = length (segs v) - 1
           in Some (mk_handle (of_nat n) (tail_slot v) (etag e),
                    v\<lparr>segs := (segs v)[n := (segs v ! n)(unat (tail_slot v) := e)],
                      tail_slot := tail_slot v + 1\<rparr>))"

definition alloc :: "Vault \<Rightarrow> Entry \<Rightarrow> (Handle \<times> Vault) option" where
  "alloc v e =
     (if segs v = [] \<or> SEG_SLOTS \<le> unat (tail_slot v) then
        let i = length (segs v)
        in case map_segment v i of
             None \<Rightarrow> Some (HEMPTY, v)
           | Some v1 \<Rightarrow> put_entry (v1\<lparr>ctls := (ctls v1)\<lparr>n_segments := i + 1\<rparr>\<rparr>) e
      else put_entry v e)"

subsection \<open>The handle codec\<close>

lemma word_bit_bound: "unat x < 2 ^ n \<Longrightarrow> bit x k \<Longrightarrow> k < n" for x :: "'a::len word"
proof (rule ccontr)
  assume x: "unat x < 2 ^ n" and b: "bit x k" and "\<not> k < n"
  then have "unat x < 2 ^ k" by (meson less_le_trans one_le_numeral power_increasing not_less)
  then have "\<not> bit (unat x) k" by (simp add: bit_iff_odd div_less)
  then show False using b by (simp add: bit_unsigned_iff)
qed

lemma seg_mask: "(0xFFFF :: u64) = mask 16"
  by (simp add: mask_eq_exp_minus_1)

lemma slot_mask: "h_slot h = h AND mask 42"
  by (simp add: h_slot_def mask_eq_exp_minus_1)

lemma bit_mk_handle:
  "k < 64 \<Longrightarrow> bit (mk_handle seg slot t) k \<longleftrightarrow>
    (58 \<le> k \<and> bit t (k - 58)) \<or> (42 \<le> k \<and> bit seg (k - 42)) \<or> bit slot k"
  by (auto simp: mk_handle_def bit_or_iff bit_push_bit_iff bit_simps)

lemma h_seg_mk_handle:
  assumes "unat seg < 2 ^ 16" and "unat slot < 2 ^ 42"
  shows "h_seg (mk_handle seg slot t) = seg"
proof (rule bit_word_eqI)
  fix k assume k: "k < LENGTH(64)"
  show "bit (h_seg (mk_handle seg slot t)) k \<longleftrightarrow> bit seg k"
  proof (cases "k < 16")
    case True
    have "\<not> bit slot (42 + k)" using word_bit_bound [OF assms(2), of "42 + k"] by auto
    then show ?thesis
      using True by (simp add: h_seg_def seg_mask bit_and_iff bit_mask_iff bit_drop_bit_eq bit_mk_handle)
  next
    case False
    then have "\<not> bit seg k" using word_bit_bound [OF assms(1), of k] by auto
    then show ?thesis using False by (simp add: h_seg_def seg_mask bit_and_iff bit_mask_iff)
  qed
qed

lemma h_slot_mk_handle:
  assumes "unat slot < 2 ^ 42"
  shows "h_slot (mk_handle seg slot t) = slot"
proof (rule bit_word_eqI)
  fix k assume k: "k < LENGTH(64)"
  show "bit (h_slot (mk_handle seg slot t)) k \<longleftrightarrow> bit slot k"
  proof (cases "k < 42")
    case True
    then show ?thesis
      by (simp add: slot_mask bit_and_iff bit_mask_iff bit_mk_handle)
  next
    case False
    then have "\<not> bit slot k" using word_bit_bound [OF assms, of k] by auto
    then show ?thesis using False by (simp add: slot_mask bit_and_iff bit_mask_iff)
  qed
qed

lemma h_tag_mk_handle:
  assumes "unat seg < 2 ^ 16" and "unat slot < 2 ^ 42" and "unat t < 2 ^ 6"
  shows "h_tag (mk_handle seg slot t) = t"
proof (rule bit_word_eqI)
  fix k assume k: "k < LENGTH(8)"
  show "bit (h_tag (mk_handle seg slot t)) k \<longleftrightarrow> bit t k"
  proof (cases "k < 6")
    case True
    have "\<not> bit slot (58 + k)" using word_bit_bound [OF assms(2), of "58 + k"] by auto
    moreover have "\<not> bit seg (16 + k)" using word_bit_bound [OF assms(1), of "16 + k"] by auto
    ultimately show ?thesis
      using True by (simp add: h_tag_def bit_simps bit_mk_handle)
  next
    case False
    then have "\<not> bit t k" using word_bit_bound [OF assms(3), of k] by auto
    moreover have "\<not> bit (mk_handle seg slot t) (58 + k)"
      using False bit_imp_le_length [of "mk_handle seg slot t" "58 + k"] by auto
    ultimately show ?thesis by (simp add: h_tag_def bit_simps)
  qed
qed

text \<open>A handle with a non-zero tag is never the empty handle.\<close>

lemma mk_handle_not_empty: "unat t < 2 ^ 6 \<Longrightarrow> t \<noteq> 0 \<Longrightarrow> mk_handle seg slot t \<noteq> HEMPTY"
proof
  assume t: "unat t < 2 ^ 6" "t \<noteq> 0" and "mk_handle seg slot t = HEMPTY"
  then have z: "bit (mk_handle seg slot t) k = False" for k by (simp add: HEMPTY_def)
  obtain k where k: "bit t k" using t(2) by (metis bit_word_eqI bit_0_eq bot_apply bot_bool_def)
  then have "k < 6" using word_bit_bound [OF t(1) k] by simp
  then have "bit (mk_handle seg slot t) (58 + k)" using k by (simp add: bit_mk_handle)
  then show False using z by simp
qed

subsection \<open>Allocation\<close>

text \<open>
  The states of a vault that has room: at least one segment, at most \<open>2 ^ 16\<close>, a tail below the
  segment size. \<open>live v h\<close>: \<open>h\<close> is the empty handle's complement, a slot below the tail.
\<close>

definition vault_ok :: "Vault \<Rightarrow> bool" where
  "vault_ok v \<longleftrightarrow> segs v \<noteq> [] \<and> length (segs v) \<le> 2 ^ 16 \<and> unat (tail_slot v) \<le> SEG_SLOTS"

definition live :: "Vault \<Rightarrow> Handle \<Rightarrow> bool" where
  "live v h \<longleftrightarrow> h \<noteq> HEMPTY \<and> unat (h_seg h) < length (segs v) \<and> unat (h_slot h) < SEG_SLOTS
     \<and> (unat (h_seg h) = length (segs v) - 1 \<longrightarrow> unat (h_slot h) < unat (tail_slot v))"

definition room :: "Vault \<Rightarrow> nat \<Rightarrow> bool" where
  "room v n \<longleftrightarrow> vault_ok v \<and> unat (tail_slot v) + n \<le> SEG_SLOTS"

lemma tag_val_range [simp]: "unat (tag_val t) < 2 ^ 6" "tag_val t \<noteq> 0" "unat (tag_val t) < 64"
  by (cases t; simp)+

lemma tag_val_inject [simp]: "tag_val s = tag_val t \<longleftrightarrow> s = t"
  by (cases s; cases t) simp_all

text \<open>
  Within a segment, allocation succeeds, the new handle reads back the entry, and every live
  handle still reads the entry it read before.
\<close>

lemma alloc_room:
  assumes r: "room v (Suc n)" and t: "etag e = tag_val t"
  obtains h v' where "alloc v e = Some (h, v')" and "room v' n" and "live v' h" and "h \<noteq> HEMPTY"
    and "entry_at v' h = e"
    and "\<And>g. live v g \<Longrightarrow> live v' g \<and> entry_at v' g = entry_at v g \<and> g \<noteq> h"
    and "ctls v' = ctls v" and "os v' = os v" and "length (segs v') = length (segs v)"
proof -
  define n1 where "n1 = length (segs v) - 1"
  let ?h = "mk_handle (of_nat n1) (tail_slot v) (etag e)"
  let ?v = "v\<lparr>segs := (segs v)[n1 := (segs v ! n1)(unat (tail_slot v) := e)],
    tail_slot := tail_slot v + 1\<rparr>"
  have ok: "segs v \<noteq> []" "length (segs v) \<le> 2 ^ 16" "unat (tail_slot v) + Suc n \<le> 2 ^ 18"
    using r by (auto simp: room_def vault_ok_def SEG_SLOTS_def)
  have n: "n1 < length (segs v)" "length (segs v) - 1 = n1" "length (segs v) - Suc 0 = n1" using ok by (simp_all add: n1_def)
  have un: "unat (of_nat n1 :: u64) = n1" using ok n by (simp add: unat_of_nat)
  have sl: "unat (tail_slot v) < 2 ^ 42" using ok by simp
  have sg: "unat (of_nat n1 :: u64) < 2 ^ 16" using un ok n by simp
  have hs: "h_seg ?h = of_nat n1" "h_slot ?h = tail_slot v"
    using h_seg_mk_handle [OF sg sl] h_slot_mk_handle [OF sl] by simp_all
  have "unat (tail_slot v) + 1 < 2 ^ 64" using ok by simp
  then have ts: "unat (tail_slot v + 1) = unat (tail_slot v) + 1" by (simp add: unat_word_ariths)
  have a: "alloc v e = Some (?h, ?v)"
    using ok n by (simp add: alloc_def put_entry_def SEG_SLOTS_def Let_def)
  have ne: "?h \<noteq> HEMPTY" using t by (simp add: mk_handle_not_empty)
  have rd: "entry_at ?v ?h = e" using n un by (simp add: entry_at_def hs)
  have lv: "live ?v ?h" using ok n un ne ts by (simp add: live_def hs SEG_SLOTS_def)
  have rm: "room ?v n" using ok ts by (simp add: room_def vault_ok_def SEG_SLOTS_def)
  have old: "live ?v g \<and> entry_at ?v g = entry_at v g \<and> g \<noteq> ?h" if g: "live v g" for g
  proof (cases "unat (h_seg g) = n1")
    case True
    then have "unat (h_slot g) < unat (tail_slot v)" using g n by (simp add: live_def)
    moreover from this have "g \<noteq> ?h" using hs by auto
    ultimately show ?thesis using g True n ts by (auto simp: live_def entry_at_def)
  next
    case False
    then have "g \<noteq> ?h" using hs un by auto
    then show ?thesis using g False n by (auto simp: live_def entry_at_def)
  qed
  show thesis using that [OF a rm lv ne rd old] by simp
qed

text \<open>The tail is not reset: allocating in a full last segment maps a fresh one and writes past it.\<close>

lemma alloc_full_segment:
  assumes "SEG_SLOTS \<le> unat (tail_slot v)" and "os v (length (segs v)) \<noteq> None"
  shows "alloc v e = None"
  using assms by (auto simp: alloc_def put_entry_def map_segment_def Let_def)

subsection \<open>The ring of committed roots\<close>

lemma commit_control_latest: "latest_root (snd (commit_control wrote v r)) = r"
  by (simp add: latest_root_def commit_control_def Let_def)

lemma commit_control_bound:
  "length (ctl_roots (ctls v)) \<le> 48 \<Longrightarrow>
    length (ctl_roots (ctls (snd (commit_control wrote v r)))) \<le> 48"
  by (auto simp: commit_control_def Let_def)

text \<open>After any sequence of commits the ring holds the last 48 roots, oldest first.\<close>

lemma commit_control_ring:
  assumes "ctl_roots (ctls v) = drop (length rs - 48) rs"
  shows "ctl_roots (ctls (snd (commit_control wrote v r))) = drop (length (rs @ [r]) - 48) (rs @ [r])"
proof (cases "length rs < 48")
  case True
  then show ?thesis using assms by (simp add: commit_control_def Let_def)
next
  case False
  then have "length (rs @ [r]) - 48 = Suc (length rs - 48)" by simp
  then show ?thesis using assms False by (simp add: commit_control_def Let_def drop_Suc tl_drop)
qed

end
