(* ===== verification/Account.thy ===== *)
theory Account
  imports Vault
begin

text \<open>
  The account payload codec of \<open>src/include/hsma/update.hpp\<close>: an account packs into exactly
  192 bits (126 magnitude, 1 sign, 64 nonce, 1 flag), the 24-byte window of a record entry.
  The lemmas show that packing and unpacking are inverse on the accepted accounts and that a
  packed payload is always a canonical field element.
\<close>

record AccountState =
  bal_mag :: u128
  bal_sign :: bool
  nonce :: u64
  flags :: u8

text \<open>The lambda \<open>put\<close>: or the low \<open>bits\<close> bits of \<open>v\<close> into the buffer from bit \<open>lo\<close> on.\<close>

definition put_bits :: "bytes \<Rightarrow> u128 \<Rightarrow> nat \<Rightarrow> nat \<Rightarrow> bytes" where
  "put_bits b v lo bits = fold
     (\<lambda>i b. if bit v i
            then b[(lo + i) div 8 := b ! ((lo + i) div 8) OR push_bit ((lo + i) mod 8) 1]
            else b) [0..<bits] b"

text \<open>The lambda \<open>get\<close>: read \<open>bits\<close> bits from bit \<open>lo\<close> on, top bit first.\<close>

definition get_bits :: "bytes \<Rightarrow> nat \<Rightarrow> nat \<Rightarrow> u128" where
  "get_bits p lo bits = foldl
     (\<lambda>acc i. push_bit 1 acc OR (ucast (drop_bit ((lo + i) mod 8) (p ! ((lo + i) div 8))) AND 1))
     0 (rev [0..<bits])"

definition encode_payload_bytes :: "AccountState \<Rightarrow> bytes option" where
  "encode_payload_bytes s =
     (if bal_sign s \<and> bal_mag s = 0 then None
      else if push_bit 126 1 \<le> bal_mag s then None
      else if 1 < flags s then None
      else Some (put_bits (put_bits (put_bits (put_bits (replicate 32 0)
             (bal_mag s) 0 126)
             (if bal_sign s then 1 else 0) 126 1)
             (ucast (nonce s)) 127 64)
             (ucast (flags s)) 191 1))"

definition pack_payload :: "AccountState \<Rightarrow> fe \<times> bool" where
  "pack_payload s =
     (case encode_payload_bytes s of
        None \<Rightarrow> (fe_zero, False)
      | Some b \<Rightarrow> (ffb_value (fe_from_le_bytes b), True))"

definition unpack_payload :: "fe \<Rightarrow> AccountState" where
  "unpack_payload packed =
     (let p = limbs_to_bytes (limbs (fe_to_canonical packed))
      in \<lparr>bal_mag = get_bits p 0 126, bal_sign = (get_bits p 126 1 \<noteq> 0),
          nonce = ucast (get_bits p 127 64), flags = ucast (get_bits p 191 1)\<rparr>)"

definition key_from_pk :: "fe \<Rightarrow> fe \<Rightarrow> fe" where
  "key_from_pk lo hi = poseidon3 IV_IDENT lo hi"

definition index_of :: "fe \<Rightarrow> u64" where
  "index_of key = limbs (fe_to_canonical key) ! 0"

text \<open>The accounts the encoder accepts.\<close>

definition account_ok :: "AccountState \<Rightarrow> bool" where
  "account_ok s \<longleftrightarrow> \<not> (bal_sign s \<and> bal_mag s = 0) \<and> bal_mag s < 2 ^ 126 \<and> flags s \<le> 1"

subsection \<open>Bit-level lemmas\<close>

definition byte_bit :: "bytes \<Rightarrow> nat \<Rightarrow> bool" where
  "byte_bit b k = bit (b ! (k div 8)) (k mod 8)"

lemma byte_bit_update:
  "k < 8 * length b \<Longrightarrow> m < 8 * length b \<Longrightarrow>
    byte_bit (b[m div 8 := b ! (m div 8) OR push_bit (m mod 8) 1]) k \<longleftrightarrow> byte_bit b k \<or> k = m"
proof (cases "m div 8 = k div 8")
  case True
  assume k: "k < 8 * length b" and m: "m < 8 * length b"
  have "k = m \<longleftrightarrow> k mod 8 = m mod 8"
    using True by (metis div_mult_mod_eq)
  moreover have "k div 8 < length b" using k by (simp add: less_mult_imp_div_less)
  moreover have "bit (push_bit (m mod 8) (1 :: u8)) (k mod 8) \<longleftrightarrow> k mod 8 = m mod 8"
    by (auto simp: bit_exp_iff)
  ultimately show ?thesis using True by (simp add: byte_bit_def bit_or_iff)
next
  case False
  then show ?thesis by (auto simp: byte_bit_def)
qed

lemma put_bits_Suc:
  "put_bits b v lo (Suc n) =
     (let b' = put_bits b v lo n
      in if bit v n then b'[(lo + n) div 8 := b' ! ((lo + n) div 8) OR push_bit ((lo + n) mod 8) 1]
         else b')"
  by (simp add: put_bits_def Let_def)

lemma length_put_bits [simp]: "length (put_bits b v lo n) = length b"
  by (induction n) (simp_all add: put_bits_Suc Let_def, simp add: put_bits_def)

lemma byte_bit_put:
  "k < 8 * length b \<Longrightarrow> lo + n \<le> 8 * length b \<Longrightarrow>
    byte_bit (put_bits b v lo n) k \<longleftrightarrow> byte_bit b k \<or> (lo \<le> k \<and> k < lo + n \<and> bit v (k - lo))"
proof (induction n)
  case 0
  then show ?case by (auto simp: put_bits_def)
next
  case (Suc n)
  have IH: "byte_bit (put_bits b v lo n) k \<longleftrightarrow>
      byte_bit b k \<or> (lo \<le> k \<and> k < lo + n \<and> bit v (k - lo))"
    using Suc by simp
  have up: "byte_bit ((put_bits b v lo n)[(lo + n) div 8 :=
        put_bits b v lo n ! ((lo + n) div 8) OR push_bit ((lo + n) mod 8) 1]) k
      \<longleftrightarrow> byte_bit (put_bits b v lo n) k \<or> k = lo + n"
    using Suc.prems by (intro byte_bit_update) simp_all
  have "lo \<le> k \<and> k < lo + Suc n \<longleftrightarrow> (lo \<le> k \<and> k < lo + n) \<or> k = lo + n" by auto
  then show ?case using IH up by (auto simp: put_bits_Suc Let_def)
qed

lemma get_bits_Suc_top:
  "foldl (\<lambda>acc i. push_bit 1 acc OR (ucast (drop_bit ((lo + i) mod 8) (p ! ((lo + i) div 8))) AND 1))
     a (rev [0..<n]) = push_bit n a OR (get_bits p lo n)" for a :: u128
proof (induction n arbitrary: a)
  case 0
  then show ?case by (simp add: get_bits_def)
next
  case (Suc n)
  let ?b = "\<lambda>i. ucast (drop_bit ((lo + i) mod 8) (p ! ((lo + i) div 8))) AND 1 :: u128"
  have "get_bits p lo (Suc n) = push_bit n (?b n) OR get_bits p lo n"
    using Suc [of "push_bit 1 0 OR ?b n"] by (simp add: get_bits_def)
  then show ?case
    using Suc [of "push_bit 1 a OR ?b n"] by (simp add: push_bit_or or.assoc add.commute)
qed

lemma bit_get_bits:
  "n \<le> 128 \<Longrightarrow> bit (get_bits p lo n) i \<longleftrightarrow> i < n \<and> byte_bit p (lo + i)"
proof (induction n)
  case 0
  then show ?case by (simp add: get_bits_def)
next
  case (Suc n)
  define B where "B = (ucast (drop_bit ((lo + n) mod 8) (p ! ((lo + n) div 8))) AND 1 :: u128)"
  have s: "get_bits p lo (Suc n) = push_bit n B OR get_bits p lo n"
    using get_bits_Suc_top [of lo p "push_bit 1 0 OR B" n] by (simp add: get_bits_def B_def)
  have b: "bit B j \<longleftrightarrow> j = 0 \<and> byte_bit p (lo + n)" for j
    by (auto simp: B_def bit_and_iff bit_1_iff bit_simps byte_bit_def bit_drop_bit_eq)
  have "bit (push_bit n B) i \<longleftrightarrow> i = n \<and> byte_bit p (lo + n)"
    using Suc.prems by (auto simp: bit_push_bit_iff b)
  then show ?case using Suc by (auto simp: s bit_or_iff less_Suc_eq)
qed

subsection \<open>Packing and unpacking\<close>

lemma account_ok_iff: "account_ok s \<longleftrightarrow> encode_payload_bytes s \<noteq> None"
proof -
  have "push_bit 126 (1 :: u128) = 2 ^ 126" by simp
  then show ?thesis by (auto simp: account_ok_def encode_payload_bytes_def not_le not_less)
qed

lemma encode_payload_bit:
  assumes "encode_payload_bytes s = Some b" and "k < 256"
  shows "byte_bit b k \<longleftrightarrow> (k < 126 \<and> bit (bal_mag s) k) \<or> (k = 126 \<and> bal_sign s)
    \<or> (127 \<le> k \<and> k < 191 \<and> bit (nonce s) (k - 127)) \<or> (k = 191 \<and> bit (flags s) 0)"
proof -
  have z: "\<not> byte_bit (replicate 32 0) k" using assms by (simp add: byte_bit_def)
  have bd: "b = put_bits (put_bits (put_bits (put_bits (replicate 32 0)
      (bal_mag s) 0 126) (if bal_sign s then 1 else 0) 126 1) (ucast (nonce s)) 127 64)
      (ucast (flags s)) 191 1"
    using assms(1) by (auto simp: encode_payload_bytes_def split: if_splits)
  have put32: "byte_bit (put_bits c v lo n) k \<longleftrightarrow>
      byte_bit c k \<or> (lo \<le> k \<and> k < lo + n \<and> bit v (k - lo))"
    if "length c = 32" and "(lo, n) \<in> {(0, 126), (126, 1), (127, 64), (191, 1)}" for c v lo n
    using that assms(2) by (intro byte_bit_put) auto
  have one: "bit (if c then 1 else 0 :: u128) i \<longleftrightarrow> c \<and> i = 0" for c i
    by (auto simp: bit_1_iff)
  have "byte_bit b k \<longleftrightarrow> (0 \<le> k \<and> k < 0 + 126 \<and> bit (bal_mag s) (k - 0))
      \<or> (126 \<le> k \<and> k < 126 + 1 \<and> bit (if bal_sign s then 1 else 0 :: u128) (k - 126))
      \<or> (127 \<le> k \<and> k < 127 + 64 \<and> bit (ucast (nonce s) :: u128) (k - 127))
      \<or> (191 \<le> k \<and> k < 191 + 1 \<and> bit (ucast (flags s) :: u128) (k - 191))"
    using assms(2) z unfolding bd by (simp only: put32 length_put_bits length_replicate insert_iff simp_thms disj_assoc)
  moreover have "126 \<le> k \<and> k < 126 + 1 \<and> bal_sign s \<and> k - 126 = 0 \<longleftrightarrow> k = 126 \<and> bal_sign s"
    by auto
  moreover have "127 \<le> k \<and> k < 127 + 64 \<and> bit (ucast (nonce s) :: u128) (k - 127)
      \<longleftrightarrow> 127 \<le> k \<and> k < 191 \<and> bit (nonce s) (k - 127)"
    by (auto simp: bit_ucast_iff)
  moreover have "191 \<le> k \<and> k < 191 + 1 \<and> bit (ucast (flags s) :: u128) (k - 191)
      \<longleftrightarrow> k = 191 \<and> bit (flags s) 0"
  proof (cases "k = 191")
    case True
    then show ?thesis by (simp add: bit_ucast_iff)
  qed auto
  ultimately show ?thesis unfolding one by simp
qed

lemma length_encode_payload: "encode_payload_bytes s = Some b \<Longrightarrow> length b = 32"
  by (auto simp: encode_payload_bytes_def split: if_splits)

text \<open>Bytes 24 to 31 of an encoded payload are zero: the 24-byte window loses nothing.\<close>

lemma encode_payload_window:
  assumes "encode_payload_bytes s = Some b"
  shows "b = take 24 b @ replicate 8 0"
proof -
  have len: "length b = 32" using assms by (rule length_encode_payload)
  have "b ! i = 0" if i: "24 \<le> i" "i < 32" for i
  proof (rule bit_word_eqI)
    fix j assume j: "j < LENGTH(8)"
    have "\<not> byte_bit b (8 * i + j)"
      using encode_payload_bit [OF assms, of "8 * i + j"] i j by auto
    then show "bit (b ! i) j \<longleftrightarrow> bit (0 :: u8) j" using j by (simp add: byte_bit_def)
  qed
  then have "drop 24 b = replicate 8 0"
    using len by (intro nth_equalityI) simp_all
  then show ?thesis by (metis append_take_drop_id)
qed

lemma byte_window_canonical:
  assumes "length b = 24"
  shows "ffb_ok (fe_from_le_bytes (b @ replicate 8 0))"
proof -
  let ?xs = "bytes_to_limbs (b @ replicate 8 0)"
  have "?xs ! 3 = le_word (replicate 8 0)" using assms by (simp add: bytes_to_limbs_def)
  also have "\<dots> = 0"
    by (rule bit_word_eqI) (simp add: bit_le_word)
  finally have "?xs ! 3 = 0" .
  moreover obtain w x y z where xs: "?xs = [w, x, y, z]"
    using length_4_cases [of ?xs] by (auto simp: bytes_to_limbs_def)
  ultimately have "limbs_val ?xs = limbs_val [w, x, y]" by simp
  also have "\<dots> < 2 ^ 192" using limbs_val_lt [of "[w, x, y]"] by simp
  also have "\<dots> < pallas_p" by (simp add: pallas_p_eq)
  finally show ?thesis by (simp add: fe_from_bytes_ok)
qed

lemma encode_payload_canonical:
  assumes "encode_payload_bytes s = Some b"
  shows "ffb_ok (fe_from_le_bytes b)"
proof -
  have "length (take 24 b) = 24" using length_encode_payload [OF assms] by simp
  then show ?thesis using byte_window_canonical encode_payload_window [OF assms] by metis
qed

lemma canonical_payload:
  "encode_payload_bytes s = Some b \<Longrightarrow> is_canonical (ffb_value (fe_from_le_bytes b))"
  using fe_to_from_bytes(1) [OF length_encode_payload encode_payload_canonical] .

lemma unpack_payload_bytes:
  assumes "encode_payload_bytes s = Some b"
  shows "unpack_payload (ffb_value (fe_from_le_bytes b)) = s"
proof -
  have len: "length b = 32" using assms by (rule length_encode_payload)
  have p: "limbs_to_bytes (limbs (fe_to_canonical (ffb_value (fe_from_le_bytes b)))) = b"
    using fe_to_from_bytes(2) [OF len encode_payload_canonical [OF assms]]
    by (simp add: fe_to_le_bytes_def)
  have ok: "bal_mag s < 2 ^ 126" "flags s \<le> 1"
    using assms account_ok_iff [of s] by (simp_all add: account_ok_def)
  note bb = encode_payload_bit [OF assms]
  have "unat (bal_mag s) < 2 ^ 126" using ok(1) by (simp add: word_less_nat_alt)
  then have mb: "k < 126" if "bit (bal_mag s) k" for k using word_bit_bound that by blast
  have mag: "get_bits b 0 126 = bal_mag s"
    by (rule bit_word_eqI) (auto simp: bit_get_bits bb dest: mb)
  have sg: "get_bits b 126 1 \<noteq> 0 \<longleftrightarrow> bal_sign s"
  proof -
    have "get_bits b 126 1 = of_bool (bal_sign s)"
      by (rule bit_word_eqI) (auto simp: bit_get_bits bb bit_1_iff)
    then show ?thesis by simp
  qed
  have non: "ucast (get_bits b 127 64) = nonce s"
    by (rule bit_word_eqI) (auto simp: bit_simps bit_get_bits bb)
  have "unat (flags s) < 2 ^ 1" using ok(2) by (simp add: word_le_nat_alt)
  then have fb: "k = 0" if "bit (flags s) k" for k using word_bit_bound [of "flags s" 1] that by auto
  have flg: "ucast (get_bits b 191 1) = flags s"
    by (rule bit_word_eqI) (auto simp: bit_simps bit_get_bits bb dest: fb)
  show ?thesis by (simp add: unpack_payload_def p mag sg non flg del: One_nat_def)
qed

lemma encode_payload_inject:
  "encode_payload_bytes s = Some b \<Longrightarrow> encode_payload_bytes t = Some b \<Longrightarrow> s = t"
  using unpack_payload_bytes by metis

end
