(* ===== verification/Smt.thy ===== *)
theory Smt
  imports Account
begin

text \<open>
  The copy-on-write sparse Merkle tree of \<open>src/include/hsma/update.hpp\<close> (\<open>Updater\<close>,
  \<open>Prover\<close>, \<open>verify_opening\<close>) and the account read of \<open>src/include/hsma/tx.hpp\<close>
  (\<open>lookup_account\<close>). The tree has 64 levels; level 0 holds the leaves, whose index is the low
  limb of the canonical key. The lemmas show that, with room in the segment, an update
  refines the update of a finite map from keys to accounts, leaves every earlier root
  readable and unchanged, and keeps the hash invariant that makes opening proofs verify.
\<close>

definition SMT_DEPTH :: nat where
  "SMT_DEPTH = 64"

subsection \<open>Updating\<close>

record UpdateStats =
  st_rec :: nat
  st_tleaf :: nat
  st_mid :: nat
  wedges_elided :: nat
  short_circuits :: nat
  noop :: bool
  fault :: bool

definition no_stats :: UpdateStats where
  "no_stats = \<lparr>st_rec = 0, st_tleaf = 0, st_mid = 0, wedges_elided = 0, short_circuits = 0,
     noop = False, fault = False\<rparr>"

record UpdateResult =
  new_root :: Handle
  root_unchanged :: bool
  stats :: UpdateStats

record Row =
  r_mid :: Handle
  r_sib :: Handle
  r_sib_hash :: fe

text \<open>The descent, from level 63 down; the rows are consed, so level 0 ends up first.\<close>

fun descend :: "Vault \<Rightarrow> nat \<Rightarrow> u64 \<Rightarrow> Handle \<Rightarrow> Row list \<Rightarrow> Handle \<times> Row list" where
  "descend v 0 ix cur rows = (cur, rows)"
| "descend v (Suc lvl) ix cur rows =
     (if cur = HEMPTY then
        descend v lvl ix cur (\<lparr>r_mid = 0, r_sib = 0, r_sib_hash = empty_table lvl\<rparr> # rows)
      else
        let e = entry_at v cur;
            lc = ew e ! 0;
            rc = ew e ! 1;
            sib = (if bit ix lvl then lc else rc);
            row = \<lparr>r_mid = cur, r_sib = sib,
                   r_sib_hash = (if sib \<noteq> HEMPTY then entry_hash (entry_at v sib)
                                 else empty_table lvl)\<rparr>
        in descend v lvl ix (if bit ix lvl then rc else lc) (row # rows))"

definition mk_mid :: "Handle \<Rightarrow> Handle \<Rightarrow> fe \<Rightarrow> Entry" where
  "mk_mid l r h = store_fe \<lparr>etag = tag_val MID, ew = [l, r, 0, 0, 0, 0, 0]\<rparr> 2 h"

definition mk_tleaf :: "Handle \<Rightarrow> fe \<Rightarrow> Entry" where
  "mk_tleaf r h = store_fe \<lparr>etag = tag_val TLEAF, ew = [r, 0, 0, 0, 0, 0, 0]\<rparr> 1 h"

definition mk_rec :: "fe \<Rightarrow> bytes \<Rightarrow> Entry" where
  "mk_rec ck buf = \<lparr>etag = tag_val REC, ew = limbs ck @ take 3 (bytes_to_limbs buf)\<rparr>"

text \<open>The ascent, one row per level; \<^const>\<open>None\<close> is an allocation outside the segment.\<close>

fun ascend :: "Handle \<Rightarrow> u64 \<Rightarrow> nat \<Rightarrow> Row list \<Rightarrow> Handle \<Rightarrow> fe \<Rightarrow> UpdateStats \<Rightarrow> Vault
    \<Rightarrow> (UpdateResult \<times> Vault) option" where
  "ascend orig_root ix lvl [] child child_hash s v =
     Some (\<lparr>new_root = child, root_unchanged = False, stats = s\<rparr>, v)"
| "ascend orig_root ix lvl (sr # rows) child child_hash s v =
     (if child = HEMPTY \<and> r_sib sr = HEMPTY then
        ascend orig_root ix (Suc lvl) rows child (empty_table lvl)
          (s\<lparr>wedges_elided := wedges_elided s + 1\<rparr>) v
      else
        let cand = (if bit ix lvl then poseidon3 IV_STATE_NODE (r_sib_hash sr) child_hash
                    else poseidon3 IV_STATE_NODE child_hash (r_sib_hash sr))
        in if r_mid sr \<noteq> HEMPTY \<and> entry_hash (entry_at v (r_mid sr)) = cand then
             Some (\<lparr>new_root = orig_root, root_unchanged = True,
                    stats = s\<lparr>short_circuits := short_circuits s + 1\<rparr>\<rparr>, v)
           else
             case alloc v (mk_mid (if bit ix lvl then r_sib sr else child)
                                  (if bit ix lvl then child else r_sib sr) cand) of
               None \<Rightarrow> None
             | Some (child', v') \<Rightarrow>
                 ascend orig_root ix (Suc lvl) rows child' cand (s\<lparr>st_mid := st_mid s + 1\<rparr>) v')"

text \<open>The first 24 bytes of the payload words of a record entry.\<close>

definition rec_window :: "Entry \<Rightarrow> bytes" where
  "rec_window e = limbs_to_bytes (take 3 (drop 4 (ew e)))"

definition set_account :: "Vault \<Rightarrow> Handle \<Rightarrow> fe \<Rightarrow> AccountState \<Rightarrow> (UpdateResult \<times> Vault) option" where
  "set_account v root key s =
     (let res = \<lparr>new_root = root, root_unchanged = False, stats = no_stats\<rparr>
      in case encode_payload_bytes s of
           None \<Rightarrow> Some (res\<lparr>stats := no_stats\<lparr>noop := True\<rparr>\<rparr>, v)
         | Some buf \<Rightarrow>
             (let packed = ffb_value (fe_from_le_bytes buf);
                  ix = index_of key;
                  new_leaf = poseidon3 IV_STATE_LEAF key packed;
                  (cur, spine) = descend v SMT_DEPTH ix root [];
                  tlf = entry_at v cur;
                  rc = entry_at v (ew tlf ! 0)
              in if cur \<noteq> HEMPTY \<and> fe_of_limbs (take 4 (ew rc)) \<noteq> fe_to_canonical key then
                   Some (res\<lparr>stats := no_stats\<lparr>fault := True\<rparr>\<rparr>, v)
                 else if cur \<noteq> HEMPTY \<and> rec_window rc = take 24 buf \<and> entry_hash tlf = new_leaf then
                   Some (res\<lparr>stats := no_stats\<lparr>noop := True\<rparr>\<rparr>, v)
                 else
                   case alloc v (mk_rec (fe_to_canonical key) buf) of
                     None \<Rightarrow> None
                   | Some (rh, v1) \<Rightarrow>
                       (case alloc v1 (mk_tleaf rh new_leaf) of
                          None \<Rightarrow> None
                        | Some (th, v2) \<Rightarrow>
                            ascend root ix 0 spine th new_leaf
                              (no_stats\<lparr>st_rec := 1, st_tleaf := 1\<rparr>) v2)))"

subsection \<open>Reading an account\<close>

fun lookup_walk :: "Vault \<Rightarrow> nat \<Rightarrow> u64 \<Rightarrow> Handle \<Rightarrow> Handle option" where
  "lookup_walk v 0 ix cur = Some cur"
| "lookup_walk v (Suc lvl) ix cur =
     (case deref v cur of
        None \<Rightarrow> None
      | Some e \<Rightarrow> if etag e \<noteq> tag_val MID then None
                  else lookup_walk v lvl ix (if bit ix lvl then ew e ! 1 else ew e ! 0))"

definition read_rec :: "Entry \<Rightarrow> fe \<Rightarrow> AccountState option" where
  "read_rec rec key =
     (if fe_of_limbs (take 4 (ew rec)) \<noteq> fe_to_canonical key then None
      else let d = fe_from_le_bytes (rec_window rec @ replicate 8 0)
           in if \<not> ffb_ok d then None else Some (unpack_payload (ffb_value d)))"

definition lookup_account :: "Vault \<Rightarrow> Handle \<Rightarrow> fe \<Rightarrow> AccountState option" where
  "lookup_account v root key =
     (case lookup_walk v SMT_DEPTH (index_of key) root of
        None \<Rightarrow> None
      | Some cur \<Rightarrow>
          (case deref v cur of
             None \<Rightarrow> None
           | Some tlf \<Rightarrow>
               if etag tlf \<noteq> tag_val TLEAF then None
               else (case deref v (ew tlf ! 0) of
                       None \<Rightarrow> None
                     | Some rec \<Rightarrow> if etag rec \<noteq> tag_val REC then None else read_rec rec key)))"

subsection \<open>Opening proofs\<close>

record OpeningProof =
  occupied :: bool
  leaf_hash :: fe
  sib :: "fe list"

text \<open>The path from level 63 down; siblings are consed, so index \<open>q\<close> is the sibling at level \<open>q\<close>.\<close>

fun open_path :: "Vault \<Rightarrow> nat \<Rightarrow> u64 \<Rightarrow> Handle \<Rightarrow> fe list \<Rightarrow> OpeningProof" where
  "open_path v 0 ix cur sibs =
     \<lparr>occupied = (cur \<noteq> HEMPTY),
      leaf_hash = (if cur \<noteq> HEMPTY then fe_of_limbs (take 4 (drop 1 (ew (entry_at v cur)))) else fe_zero),
      sib = sibs\<rparr>"
| "open_path v (Suc lvl) ix cur sibs =
     (if cur = HEMPTY then
        \<lparr>occupied = False, leaf_hash = fe_zero, sib = map empty_table [0..<Suc lvl] @ sibs\<rparr>
      else
        let e = entry_at v cur;
            sb = (if bit ix lvl then ew e ! 0 else ew e ! 1)
        in open_path v lvl ix (if bit ix lvl then ew e ! 1 else ew e ! 0)
             ((if sb \<noteq> HEMPTY then entry_hash (entry_at v sb) else empty_table lvl) # sibs))"

definition prover_open :: "Vault \<Rightarrow> Handle \<Rightarrow> fe \<Rightarrow> OpeningProof" where
  "prover_open v root key = open_path v SMT_DEPTH (index_of key) root []"

fun fold_path :: "u64 \<Rightarrow> nat \<Rightarrow> fe list \<Rightarrow> fe \<Rightarrow> fe" where
  "fold_path ix lvl [] acc = acc"
| "fold_path ix lvl (s # ss) acc =
     fold_path ix (Suc lvl) ss
       (if bit ix lvl then poseidon3 IV_STATE_NODE s acc else poseidon3 IV_STATE_NODE acc s)"

definition verify_opening :: "u64 list \<Rightarrow> fe \<Rightarrow> AccountState option \<Rightarrow> OpeningProof \<Rightarrow> bool" where
  "verify_opening expected_root key st pr =
     (if occupied pr \<noteq> (st \<noteq> None) then False
      else
        let go = (\<lambda>acc. limbs (fe_to_canonical (fold_path (index_of key) 0 (sib pr) acc)) = expected_root)
        in case st of
             Some s \<Rightarrow>
               (case encode_payload_bytes s of
                  None \<Rightarrow> False
                | Some buf \<Rightarrow>
                    (let acc = poseidon3 IV_STATE_LEAF key (ffb_value (fe_from_le_bytes buf))
                     in if acc \<noteq> leaf_hash pr then False else go acc))
           | None \<Rightarrow> go (leaf_hash pr))"

subsection \<open>Well-formed trees\<close>

definition node_hash :: "Vault \<Rightarrow> nat \<Rightarrow> Handle \<Rightarrow> fe" where
  "node_hash v n h = (if h = HEMPTY then empty_table n else entry_hash (entry_at v h))"

text \<open>The key and the packed payload a record entry stores.\<close>

definition rec_key :: "Entry \<Rightarrow> fe" where
  "rec_key e = fe_of_limbs (take 4 (ew e))"

definition leaf_wf :: "Vault \<Rightarrow> Handle \<Rightarrow> bool" where
  "leaf_wf v h \<longleftrightarrow> live v h \<and> etag (entry_at v h) = tag_val TLEAF \<and> length (ew (entry_at v h)) = 7
     \<and> (let r = ew (entry_at v h) ! 0
        in live v r \<and> etag (entry_at v r) = tag_val REC \<and> length (ew (entry_at v r)) = 7
           \<and> (\<exists>key s buf. is_canonical key \<and> encode_payload_bytes s = Some buf
                \<and> entry_at v r = mk_rec (fe_to_canonical key) buf
                \<and> entry_hash (entry_at v h)
                    = poseidon3 IV_STATE_LEAF key (ffb_value (fe_from_le_bytes buf))))"

fun tree :: "Vault \<Rightarrow> nat \<Rightarrow> Handle \<Rightarrow> bool" where
  "tree v 0 h = (h = HEMPTY \<or> leaf_wf v h)"
| "tree v (Suc n) h =
     (h = HEMPTY \<or>
       (live v h \<and> etag (entry_at v h) = tag_val MID \<and> length (ew (entry_at v h)) = 7
        \<and> tree v n (ew (entry_at v h) ! 0) \<and> tree v n (ew (entry_at v h) ! 1)
        \<and> entry_hash (entry_at v h) = poseidon3 IV_STATE_NODE
             (node_hash v n (ew (entry_at v h) ! 0)) (node_hash v n (ew (entry_at v h) ! 1))))"

text \<open>The leaf handle below \<open>h\<close> at index \<open>j\<close>.\<close>

fun leaf_at :: "Vault \<Rightarrow> nat \<Rightarrow> u64 \<Rightarrow> Handle \<Rightarrow> Handle" where
  "leaf_at v 0 j h = h"
| "leaf_at v (Suc n) j h =
     (if h = HEMPTY then HEMPTY
      else leaf_at v n j (if bit j n then ew (entry_at v h) ! 1 else ew (entry_at v h) ! 0))"

subsection \<open>Growing vaults\<close>

definition extends :: "Vault \<Rightarrow> Vault \<Rightarrow> bool" where
  "extends v v' \<longleftrightarrow> (\<forall>g. live v g \<longrightarrow> live v' g \<and> entry_at v' g = entry_at v g)"

lemma extends_refl [simp]: "extends v v"
  by (simp add: extends_def)

lemma extends_trans: "extends u v \<Longrightarrow> extends v w \<Longrightarrow> extends u w"
  by (simp add: extends_def)

lemma extends_live: "extends v v' \<Longrightarrow> live v h \<Longrightarrow> live v' h"
  by (simp add: extends_def)

lemma extends_entry: "extends v v' \<Longrightarrow> live v h \<Longrightarrow> entry_at v' h = entry_at v h"
  by (simp add: extends_def)

lemma room_Suc: "room v (Suc n) \<Longrightarrow> room v n"
  by (simp add: room_def)

lemma room_less: "room v (m + n) \<Longrightarrow> room v n"
  by (simp add: room_def)

lemma leaf_wf_liveD: "leaf_wf v h \<Longrightarrow> live v h" "leaf_wf v h \<Longrightarrow> live v (ew (entry_at v h) ! 0)"
  by (simp_all add: leaf_wf_def Let_def)

lemma leaf_wf_entries:
  assumes "leaf_wf v h" and "extends v v'"
  shows "entry_at v' h = entry_at v h"
    and "entry_at v' (ew (entry_at v h) ! 0) = entry_at v (ew (entry_at v h) ! 0)"
    and "live v' h" and "live v' (ew (entry_at v h) ! 0)"
  using leaf_wf_liveD [OF assms(1)] assms(2) by (simp_all add: extends_entry extends_live)

lemma leaf_wf_extends: "leaf_wf v h \<Longrightarrow> extends v v' \<Longrightarrow> leaf_wf v' h"
  using leaf_wf_entries [of v h v'] by (simp add: leaf_wf_def Let_def)

lemma tree_empty [simp]: "tree v n HEMPTY"
  by (cases n) simp_all

lemma tree_live: "tree v n h \<Longrightarrow> h = HEMPTY \<or> live v h"
  by (cases n) (auto dest: leaf_wf_liveD)

lemma node_hash_extends: "tree v n h \<Longrightarrow> extends v v' \<Longrightarrow> node_hash v' n h = node_hash v n h"
  using tree_live [of v n h] by (auto simp: node_hash_def extends_def)

lemma tree_extends: "tree v n h \<Longrightarrow> extends v v' \<Longrightarrow> tree v' n h"
proof (induction n arbitrary: h)
  case 0
  then show ?case by (auto intro: leaf_wf_extends)
next
  case (Suc n)
  show ?case
  proof (cases "h = HEMPTY")
    case False
    then have "live v h" using Suc.prems(1) by simp
    then have "live v' h" "entry_at v' h = entry_at v h"
      using Suc.prems(2) by (simp_all add: extends_live extends_entry)
    then show ?thesis using Suc False by (simp add: node_hash_extends [OF _ Suc.prems(2)])
  qed simp
qed

lemma leaf_at_empty [simp]: "leaf_at v n j HEMPTY = HEMPTY"
  by (induction n) simp_all

lemma leaf_at_extends: "tree v n h \<Longrightarrow> extends v v' \<Longrightarrow> leaf_at v' n j h = leaf_at v n j h"
proof (induction n arbitrary: h)
  case (Suc n)
  show ?case
  proof (cases "h = HEMPTY")
    case False
    then have "live v h" using Suc.prems(1) by simp
    then have "entry_at v' h = entry_at v h" using Suc.prems(2) by (simp add: extends_entry)
    then show ?thesis using Suc False by simp
  qed simp
qed simp

lemma leaf_at_wf: "tree v n h \<Longrightarrow> leaf_at v n j h \<noteq> HEMPTY \<Longrightarrow> leaf_wf v (leaf_at v n j h)"
  by (induction n arbitrary: h) (auto split: if_splits)

subsection \<open>The shape of an entry\<close>

lemma entry_hash_mid: "entry_hash (mk_mid l r h) = h"
  by (simp add: mk_mid_def store_fe_def entry_hash_def)

lemma entry_hash_tleaf: "entry_hash (mk_tleaf r h) = h"
  by (simp add: mk_tleaf_def store_fe_def entry_hash_def)

lemma mk_mid_fields:
  "etag (mk_mid l r h) = tag_val MID" "ew (mk_mid l r h) ! 0 = l" "ew (mk_mid l r h) ! 1 = r"
  "ew (mk_mid l r h) ! Suc 0 = r" "length (ew (mk_mid l r h)) = 7"
  by (simp_all add: mk_mid_def store_fe_def)

lemma mk_tleaf_fields:
  "etag (mk_tleaf r h) = tag_val TLEAF" "ew (mk_tleaf r h) ! 0 = r" "length (ew (mk_tleaf r h)) = 7"
  by (simp_all add: mk_tleaf_def store_fe_def)

lemma mk_rec_fields:
  "etag (mk_rec k b) = tag_val REC" "take 4 (ew (mk_rec k b)) = limbs k" "length (ew (mk_rec k b)) = 7"
  by (simp_all add: mk_rec_def bytes_to_limbs_def)

lemma take_limbs_to_bytes: "take (8 * k) (limbs_to_bytes xs) = limbs_to_bytes (take k xs)"
proof (induction xs arbitrary: k)
  case (Cons x xs)
  then show ?case by (cases k) (simp_all add: limbs_to_bytes_def)
qed (simp add: limbs_to_bytes_def)

lemma rec_window_mk_rec: "length b = 32 \<Longrightarrow> rec_window (mk_rec k b) = take 24 b"
  using take_limbs_to_bytes [of 3 "bytes_to_limbs b"] limbs_to_bytes_to_limbs [of b]
  by (simp add: rec_window_def mk_rec_def)

lemma read_rec_mk_rec:
  assumes "encode_payload_bytes s = Some b" and "is_canonical key" and "is_canonical k"
  shows "read_rec (mk_rec (fe_to_canonical key) b) k = (if k = key then Some s else None)"
proof -
  have "rec_window (mk_rec (fe_to_canonical key) b) @ replicate 8 0 = b"
    using encode_payload_window [OF assms(1)] rec_window_mk_rec [OF length_encode_payload [OF assms(1)]]
    by simp
  then show ?thesis
    using assms by (auto simp: read_rec_def mk_rec_fields fe_to_canonical_inj Let_def
        encode_payload_canonical unpack_payload_bytes)
qed

subsection \<open>Lookup is the record at the leaf\<close>

lemma lookup_walk_tree:
  "tree v n h \<Longrightarrow> leaf_at v n ix h \<noteq> HEMPTY \<Longrightarrow> lookup_walk v n ix h = Some (leaf_at v n ix h)"
  by (induction n arbitrary: h) (auto simp: deref_def split: if_splits)

lemma lookup_walk_empty:
  "tree v n h \<Longrightarrow> leaf_at v n ix h = HEMPTY \<Longrightarrow>
    lookup_walk v n ix h = None \<or> lookup_walk v n ix h = Some HEMPTY"
  by (induction n arbitrary: h) (auto simp: deref_def split: if_splits)

lemma lookup_account_leaf:
  assumes "tree v 64 root"
  shows "lookup_account v root k =
    (let l = leaf_at v 64 (index_of k) root
     in if l = HEMPTY then None else read_rec (entry_at v (ew (entry_at v l) ! 0)) k)"
proof (cases "leaf_at v 64 (index_of k) root = HEMPTY")
  case True
  then show ?thesis
    using lookup_walk_empty [OF assms True]
    by (auto simp: lookup_account_def SMT_DEPTH_def deref_def)
next
  case False
  let ?l = "leaf_at v 64 (index_of k) root"
  have "leaf_wf v ?l" using leaf_at_wf [OF assms False] .
  then have "etag (entry_at v ?l) = tag_val TLEAF" "ew (entry_at v ?l) ! 0 \<noteq> HEMPTY"
    "etag (entry_at v (ew (entry_at v ?l) ! 0)) = tag_val REC"
    by (auto simp: leaf_wf_def live_def Let_def)
  then show ?thesis
    using lookup_walk_tree [OF assms False] False
    by (simp add: lookup_account_def SMT_DEPTH_def deref_def Let_def)
qed

lemma lookup_account_extends:
  assumes "tree v 64 root" and "extends v v'"
  shows "lookup_account v' root k = lookup_account v root k"
proof -
  let ?l = "leaf_at v 64 (index_of k) root"
  have "?l = HEMPTY \<or> leaf_wf v ?l" using leaf_at_wf [OF assms(1)] by blast
  then have "?l = HEMPTY \<or> (entry_at v' ?l = entry_at v ?l
      \<and> entry_at v' (ew (entry_at v ?l) ! 0) = entry_at v (ew (entry_at v ?l) ! 0))"
    using leaf_wf_entries [OF _ assms(2)] by blast
  then show ?thesis
    by (elim disjE) (simp_all add: lookup_account_leaf [OF assms(1)] leaf_at_extends [OF assms]
        lookup_account_leaf [OF tree_extends [OF assms]] Let_def)
qed

subsection \<open>Descent and ascent\<close>

fun spine :: "Vault \<Rightarrow> nat \<Rightarrow> u64 \<Rightarrow> Handle \<Rightarrow> Row list" where
  "spine v 0 ix cur = []"
| "spine v (Suc n) ix cur =
     (if cur = HEMPTY then
        spine v n ix HEMPTY @ [\<lparr>r_mid = 0, r_sib = 0, r_sib_hash = empty_table n\<rparr>]
      else
        let e = entry_at v cur; sb = (if bit ix n then ew e ! 0 else ew e ! 1)
        in spine v n ix (if bit ix n then ew e ! 1 else ew e ! 0) @
             [\<lparr>r_mid = cur, r_sib = sb, r_sib_hash = node_hash v n sb\<rparr>])"

lemma descend_spine: "descend v n ix cur rows = (leaf_at v n ix cur, spine v n ix cur @ rows)"
  by (induction n arbitrary: cur rows) (simp_all add: Let_def node_hash_def)

definition agree :: "nat \<Rightarrow> u64 \<Rightarrow> u64 \<Rightarrow> bool" where
  "agree n i j \<longleftrightarrow> (\<forall>b<n. bit i b = bit j b)"

lemma agree_Suc: "agree (Suc n) i j \<longleftrightarrow> agree n i j \<and> bit i n = bit j n"
  by (auto simp: agree_def less_Suc_eq)

lemma agree_64: "agree 64 i j \<longleftrightarrow> i = j"
  by (auto simp: agree_def intro!: bit_word_eqI)

lemma alloc_extends:
  assumes "room v (Suc n)" and "etag e = tag_val t"
  obtains h v' where "alloc v e = Some (h, v')" and "room v' n" and "live v' h" and "h \<noteq> HEMPTY"
    and "entry_at v' h = e" and "extends v v'"
  using alloc_room [OF assms] by (metis extends_def)

lemma length_spine [simp]: "length (spine v n ix h) = n"
  by (induction n arbitrary: h) (simp_all add: Let_def)

lemma fold_path_append:
  "fold_path ix l (a @ b) acc = fold_path ix (l + length a) b (fold_path ix l a acc)"
  by (induction a arbitrary: l acc) simp_all

text \<open>The siblings on the path, from level 0 up, and the hash they lead to from a leaf hash.\<close>

definition path_hash :: "Vault \<Rightarrow> nat \<Rightarrow> u64 \<Rightarrow> Handle \<Rightarrow> fe \<Rightarrow> fe" where
  "path_hash v n ix h acc = fold_path ix 0 (map r_sib_hash (spine v n ix h)) acc"

lemma path_hash_0 [simp]: "path_hash v 0 ix h acc = acc"
  by (simp add: path_hash_def)

text \<open>The child on the path of \<open>ix\<close> below a node of height \<open>Suc n\<close>, and its sibling.\<close>

definition next_of :: "Vault \<Rightarrow> nat \<Rightarrow> u64 \<Rightarrow> Handle \<Rightarrow> Handle" where
  "next_of v n ix h = (if h = HEMPTY then HEMPTY else
     if bit ix n then ew (entry_at v h) ! 1 else ew (entry_at v h) ! 0)"

definition sib_of :: "Vault \<Rightarrow> nat \<Rightarrow> u64 \<Rightarrow> Handle \<Rightarrow> Handle" where
  "sib_of v n ix h = (if h = HEMPTY then HEMPTY else
     if bit ix n then ew (entry_at v h) ! 0 else ew (entry_at v h) ! 1)"

definition join :: "nat \<Rightarrow> u64 \<Rightarrow> fe \<Rightarrow> fe \<Rightarrow> fe" where
  "join n ix sb acc = (if bit ix n then poseidon3 IV_STATE_NODE sb acc else poseidon3 IV_STATE_NODE acc sb)"

lemma spine_step:
  "spine v (Suc n) ix h = spine v n ix (next_of v n ix h) @
     [\<lparr>r_mid = h, r_sib = sib_of v n ix h, r_sib_hash = node_hash v n (sib_of v n ix h)\<rparr>]"
  by (simp add: next_of_def sib_of_def Let_def node_hash_def HEMPTY_def)

lemma leaf_at_step: "leaf_at v (Suc n) ix h = leaf_at v n ix (next_of v n ix h)"
  by (simp add: next_of_def)

lemma tree_step:
  assumes "tree v (Suc n) h"
  shows "tree v n (next_of v n ix h)" and "tree v n (sib_of v n ix h)"
  using assms by (cases "h = HEMPTY"; simp add: next_of_def sib_of_def)+

lemma path_hash_step:
  "path_hash v (Suc n) ix h acc = join n ix (node_hash v n (sib_of v n ix h))
     (path_hash v n ix (next_of v n ix h) acc)"
  unfolding path_hash_def spine_step by (simp add: fold_path_append join_def)

lemma node_hash_step:
  assumes "tree v (Suc n) h"
  shows "node_hash v (Suc n) h = join n ix (node_hash v n (sib_of v n ix h)) (node_hash v n (next_of v n ix h))"
  using assms
  by (cases "h = HEMPTY") (auto simp: node_hash_def [of v "Suc n"] join_def sib_of_def next_of_def
      node_hash_def [of v n HEMPTY])

lemma node_hash_path:
  "tree v n h \<Longrightarrow> node_hash v n h = path_hash v n ix h (node_hash v 0 (leaf_at v n ix h))"
proof (induction n arbitrary: h)
  case (Suc n)
  then show ?case
    using node_hash_step [OF Suc.prems, of ix] tree_step(1) [OF Suc.prems, of ix]
    by (simp add: path_hash_step leaf_at_step del: leaf_at.simps)
qed simp

text \<open>
  The ascent over the rows of a subtree of height \<open>n\<close> either stops at a node whose stored hash
  equals the recomputed one, or rebuilds the path: the new subtree differs from the old one
  exactly at the leaves that agree with \<open>ix\<close>. Either way the hash of the subtree it leaves is
  the one the siblings give from the new leaf.
\<close>

definition ascend_stop :: "Vault \<Rightarrow> nat \<Rightarrow> u64 \<Rightarrow> Handle \<Rightarrow> fe \<Rightarrow> Handle \<Rightarrow> UpdateStats \<Rightarrow> Vault \<Rightarrow> nat
    \<Rightarrow> (UpdateResult \<times> Vault) option \<Rightarrow> bool" where
  "ascend_stop v n ix h lh orig s w m out \<longleftrightarrow> (\<exists>r w'. out = Some (r, w') \<and> root_unchanged r
     \<and> new_root r = orig \<and> extends w w' \<and> room w' m
     \<and> noop (stats r) = noop s \<and> fault (stats r) = fault s \<and> h \<noteq> HEMPTY \<and> node_hash v n h = path_hash v n ix h lh)"

definition ascend_to :: "Vault \<Rightarrow> nat \<Rightarrow> u64 \<Rightarrow> Handle \<Rightarrow> Handle \<Rightarrow> fe \<Rightarrow> UpdateStats \<Rightarrow> Vault \<Rightarrow> nat
    \<Rightarrow> Handle \<Rightarrow> UpdateStats \<Rightarrow> Vault \<Rightarrow> bool" where
  "ascend_to v n ix h l lh s w m h' s' w' \<longleftrightarrow> extends w w' \<and> room w' m \<and> h' \<noteq> HEMPTY \<and> tree w' n h'
     \<and> noop s' = noop s \<and> fault s' = fault s \<and> entry_hash (entry_at w' h') = path_hash v n ix h lh
     \<and> (\<forall>j. leaf_at w' n j h' = (if agree n ix j then l else leaf_at v n j h))"

lemma ascend_row:
  fixes v n ix h
  defines "row \<equiv> \<lparr>r_mid = h, r_sib = sib_of v n ix h, r_sib_hash = node_hash v n (sib_of v n ix h)\<rparr>"
  assumes t: "tree v (Suc n) h" and vw: "extends v w"
    and to: "ascend_to v n ix (next_of v n ix h) l lh s w (Suc m) c s' w'"
  shows "ascend_stop v (Suc n) ix h lh orig s w m (ascend orig ix n (row # ys) c (entry_hash (entry_at w' c)) s' w')
    \<or> (\<exists>h2 s2 w2. ascend orig ix n (row # ys) c (entry_hash (entry_at w' c)) s' w'
          = ascend orig ix (Suc n) ys h2 (entry_hash (entry_at w2 h2)) s2 w2
        \<and> ascend_to v (Suc n) ix h l lh s w m h2 s2 w2)"
proof -
  let ?sb = "sib_of v n ix h" and ?nx = "next_of v n ix h"
  have ex: "extends w w'" and rm: "room w' (Suc m)" and c: "c \<noteq> HEMPTY" and tc: "tree w' n c"
    and fl: "noop s' = noop s" "fault s' = fault s"
    and hc: "entry_hash (entry_at w' c) = path_hash v n ix ?nx lh"
    and lf: "leaf_at w' n j c = (if agree n ix j then l else leaf_at v n j ?nx)" for j
    using to by (simp_all add: ascend_to_def)
  define cand where "cand = join n ix (node_hash v n ?sb) (entry_hash (entry_at w' c))"
  let ?mid = "mk_mid (if bit ix n then ?sb else c) (if bit ix n then c else ?sb) cand"
  have vw': "extends v w'" using vw ex by (rule extends_trans)
  have tsb: "tree v n ?sb" using tree_step(2) [OF t] .
  have cp: "cand = path_hash v (Suc n) ix h lh" by (simp add: cand_def path_hash_step hc)
  show ?thesis
  proof (cases "h \<noteq> HEMPTY \<and> entry_hash (entry_at w' h) = cand")
    case True
    have "live v h" using True tree_live [OF t] by simp
    then have "node_hash v (Suc n) h = cand"
      using True vw' by (simp add: node_hash_def extends_entry)
    moreover have "ascend orig ix n (row # ys) c (entry_hash (entry_at w' c)) s' w' =
        Some (\<lparr>new_root = orig, root_unchanged = True,
               stats = s'\<lparr>short_circuits := short_circuits s' + 1\<rparr>\<rparr>, w')"
      using True c by (auto simp: Let_def row_def cand_def join_def)
    ultimately show ?thesis using True ex fl cp room_Suc [OF rm] by (intro disjI1) (simp add: ascend_stop_def)
  next
    case False
    obtain h2 w2 where al: "alloc w' ?mid = Some (h2, w2)" and rm2: "room w2 m"
      and lv: "live w2 h2" and ne: "h2 \<noteq> HEMPTY" and rd: "entry_at w2 h2 = ?mid"
      and ex2: "extends w' w2"
      using alloc_extends [OF rm mk_mid_fields(1)] .
    have vw2: "extends v w2" using vw' ex2 by (rule extends_trans)
    let ?s2 = "s'\<lparr>st_mid := st_mid s' + 1\<rparr>"
    have stp: "ascend orig ix n (row # ys) c (entry_hash (entry_at w' c)) s' w'
        = ascend orig ix (Suc n) ys h2 cand ?s2 w2"
      using False c al by (auto simp: Let_def cand_def row_def join_def)
    have eh: "entry_hash (entry_at w2 h2) = cand" using rd by (simp add: entry_hash_mid)
    have nh: "node_hash w2 n c = entry_hash (entry_at w' c)"
      using node_hash_extends [OF tc ex2] c by (simp add: node_hash_def)
    have ns: "node_hash w2 n ?sb = node_hash v n ?sb" using node_hash_extends [OF tsb vw2] .
    have tr: "tree w2 (Suc n) h2"
      using lv rd tree_extends [OF tc ex2] tree_extends [OF tsb vw2] nh ns
      by (simp add: mk_mid_fields entry_hash_mid cand_def join_def)
    have "leaf_at w2 (Suc n) j h2 = (if agree (Suc n) ix j then l else leaf_at v (Suc n) j h)" for j
    proof -
      have "leaf_at w2 n j c = (if agree n ix j then l else leaf_at v n j ?nx)"
        using leaf_at_extends [OF tc ex2] lf by simp
      moreover have "leaf_at w2 n j ?sb = leaf_at v n j ?sb" using leaf_at_extends [OF tsb vw2] .
      ultimately show ?thesis
        using ne rd by (auto simp: mk_mid_fields agree_Suc next_of_def sib_of_def)
    qed
    then have "ascend_to v (Suc n) ix h l lh s w m h2 ?s2 w2"
      using extends_trans [OF ex ex2] rm2 ne tr fl eh cp by (simp add: ascend_to_def)
    then show ?thesis using stp eh by blast
  qed
qed

lemma ascend_stop_up:
  assumes "tree v (Suc n) h" and "ascend_stop v n ix (next_of v n ix h) lh orig s w (Suc m) out"
  shows "ascend_stop v (Suc n) ix h lh orig s w m out"
proof -
  have "next_of v n ix h \<noteq> HEMPTY" "node_hash v n (next_of v n ix h) = path_hash v n ix (next_of v n ix h) lh"
    using assms(2) by (auto simp: ascend_stop_def)
  then have "h \<noteq> HEMPTY" "node_hash v (Suc n) h = path_hash v (Suc n) ix h lh"
    using node_hash_step [OF assms(1), of ix] by (auto simp: path_hash_step next_of_def)
  then show ?thesis using assms(2) room_Suc by (auto simp: ascend_stop_def)
qed

lemma ascend_spine:
  assumes "tree v n h" and "extends v w" and "room w (n + m)" and "l \<noteq> HEMPTY" and "leaf_wf w l"
    and "lh = entry_hash (entry_at w l)"
  shows "ascend_stop v n ix h lh orig s w m (ascend orig ix 0 (spine v n ix h @ ys) l lh s w)
    \<or> (\<exists>h' s' w'. ascend orig ix 0 (spine v n ix h @ ys) l lh s w
          = ascend orig ix n ys h' (entry_hash (entry_at w' h')) s' w'
        \<and> ascend_to v n ix h l lh s w m h' s' w')"
  using assms
proof (induction n arbitrary: h ys m)
  case 0
  then have "ascend_to v 0 ix h l lh s w m l s w" by (simp add: ascend_to_def agree_def)
  then show ?case using 0 by (intro disjI2 exI [of _ l] exI [of _ s] exI [of _ w]) simp
next
  case (Suc n)
  let ?row = "\<lparr>r_mid = h, r_sib = sib_of v n ix h, r_sib_hash = node_hash v n (sib_of v n ix h)\<rparr>"
  have room': "room w (n + Suc m)" using Suc.prems(3) by simp
  have sp: "spine v (Suc n) ix h @ ys = spine v n ix (next_of v n ix h) @ ?row # ys"
    unfolding spine_step by simp
  from Suc.IH [OF tree_step(1) [OF Suc.prems(1)] Suc.prems(2) room' Suc.prems(4,5,6), of ix "?row # ys"]
  show ?case
    unfolding sp using ascend_stop_up [OF Suc.prems(1)] ascend_row [OF Suc.prems(1,2)] by metis
qed

subsection \<open>Updating refines a map update\<close>

text \<open>What the leaf of \<open>key\<close> holds: nothing, the account of \<open>key\<close>, or another key's account.\<close>

definition leaf_conflict :: "Vault \<Rightarrow> Handle \<Rightarrow> fe \<Rightarrow> bool" where
  "leaf_conflict v root key =
     (let l = leaf_at v 64 (index_of key) root
      in l \<noteq> HEMPTY \<and> rec_key (entry_at v (ew (entry_at v l) ! 0)) \<noteq> fe_to_canonical key)"

lemma leaf_wf_obtain:
  assumes "leaf_wf v l"
  obtains key s buf where "is_canonical key" and "encode_payload_bytes s = Some buf"
    and "entry_at v (ew (entry_at v l) ! 0) = mk_rec (fe_to_canonical key) buf"
    and "entry_hash (entry_at v l) = poseidon3 IV_STATE_LEAF key (ffb_value (fe_from_le_bytes buf))"
  using assms by (auto simp: leaf_wf_def Let_def)

lemma rec_key_mk_rec [simp]: "rec_key (mk_rec k b) = k"
  by (simp add: rec_key_def mk_rec_fields)

text \<open>Reading a tree without a conflict at the leaf of \<open>key\<close>: only \<open>key\<close> can be stored there.\<close>

lemma lookup_no_conflict:
  assumes "tree v 64 root" and "\<not> leaf_conflict v root key" and "is_canonical key" and "is_canonical k"
    and "index_of k = index_of key" and "k \<noteq> key"
  shows "lookup_account v root k = None"
proof (cases "leaf_at v 64 (index_of key) root = HEMPTY")
  case True
  then show ?thesis using assms by (simp add: lookup_account_leaf)
next
  case False
  from leaf_wf_obtain [OF leaf_at_wf [OF assms(1) False]]
  obtain key' s b where r: "is_canonical key'" "encode_payload_bytes s = Some b"
    "entry_at v (ew (entry_at v (leaf_at v 64 (index_of key) root)) ! 0) = mk_rec (fe_to_canonical key') b"
    by blast
  then have "key' = key" using assms(2,3) False by (simp add: leaf_conflict_def fe_to_canonical_inj)
  then show ?thesis using assms r False by (simp add: lookup_account_leaf read_rec_mk_rec Let_def)
qed

definition set_tleaf_hash :: "fe \<Rightarrow> bytes \<Rightarrow> fe" where
  "set_tleaf_hash key buf = poseidon3 IV_STATE_LEAF key (ffb_value (fe_from_le_bytes buf))"

text \<open>The two allocations below the ascent make a well-formed leaf that reads back the account.\<close>

lemma new_leaf_wf:
  assumes "room v (Suc (Suc n))" and "is_canonical key" and "encode_payload_bytes s = Some buf"
  obtains rh v1 th v2 where "alloc v (mk_rec (fe_to_canonical key) buf) = Some (rh, v1)"
    and "alloc v1 (mk_tleaf rh (set_tleaf_hash key buf)) = Some (th, v2)" and "room v2 n" and "extends v v2"
    and "th \<noteq> HEMPTY" and "leaf_wf v2 th" and "entry_hash (entry_at v2 th) = set_tleaf_hash key buf"
    and "entry_at v2 (ew (entry_at v2 th) ! 0) = mk_rec (fe_to_canonical key) buf"
proof -
  obtain rh v1 where a1: "alloc v (mk_rec (fe_to_canonical key) buf) = Some (rh, v1)"
    and rm1: "room v1 (Suc n)" and l1: "live v1 rh" and e1: "entry_at v1 rh = mk_rec (fe_to_canonical key) buf"
    and x1: "extends v v1"
    using alloc_extends [OF assms(1) mk_rec_fields(1)] by metis
  obtain th v2 where a2: "alloc v1 (mk_tleaf rh (set_tleaf_hash key buf)) = Some (th, v2)"
    and rm2: "room v2 n" and l2: "live v2 th" and ne: "th \<noteq> HEMPTY"
    and e2: "entry_at v2 th = mk_tleaf rh (set_tleaf_hash key buf)" and x2: "extends v1 v2"
    using alloc_extends [OF rm1 mk_tleaf_fields(1)] by metis
  have rr: "live v2 rh" "entry_at v2 rh = mk_rec (fe_to_canonical key) buf"
    using l1 e1 x2 by (simp_all add: extends_live extends_entry)
  have "leaf_wf v2 th"
    using l2 e2 rr assms(2,3)
    by (auto simp: leaf_wf_def mk_tleaf_fields mk_rec_fields entry_hash_tleaf set_tleaf_hash_def Let_def)
  then show thesis
    using that [OF a1 a2 rm2 extends_trans [OF x1 x2] ne] e2 rr
    by (simp add: mk_tleaf_fields entry_hash_tleaf)
qed

lemma set_account_unfold:
  assumes "encode_payload_bytes s = Some buf"
  shows "set_account v root key s =
    (let l = leaf_at v 64 (index_of key) root;
         res = \<lparr>new_root = root, root_unchanged = False, stats = no_stats\<rparr>
     in if leaf_conflict v root key then Some (res\<lparr>stats := no_stats\<lparr>fault := True\<rparr>\<rparr>, v)
        else if l \<noteq> HEMPTY \<and> rec_window (entry_at v (ew (entry_at v l) ! 0)) = take 24 buf
               \<and> entry_hash (entry_at v l) = set_tleaf_hash key buf
        then Some (res\<lparr>stats := no_stats\<lparr>noop := True\<rparr>\<rparr>, v)
        else case alloc v (mk_rec (fe_to_canonical key) buf) of
               None \<Rightarrow> None
             | Some (rh, v1) \<Rightarrow>
                 (case alloc v1 (mk_tleaf rh (set_tleaf_hash key buf)) of
                    None \<Rightarrow> None
                  | Some (th, v2) \<Rightarrow> ascend root (index_of key) 0 (spine v 64 (index_of key) root) th
                      (set_tleaf_hash key buf) (no_stats\<lparr>st_rec := 1, st_tleaf := 1\<rparr>) v2))"
  unfolding set_account_def assms descend_spine SMT_DEPTH_def leaf_conflict_def rec_key_def
    set_tleaf_hash_def Let_def
  by simp

text \<open>A refused update: the leaf holds another key, and nothing changes.\<close>

lemma set_account_conflict:
  assumes "account_ok s" and "leaf_conflict v root key"
  shows "set_account v root key s =
    Some (\<lparr>new_root = root, root_unchanged = False, stats = no_stats\<lparr>fault := True\<rparr>\<rparr>, v)"
proof -
  obtain buf where "encode_payload_bytes s = Some buf" using assms(1) by (auto simp: account_ok_iff)
  from set_account_unfold [OF this] show ?thesis using assms(2) by (simp add: Let_def)
qed

lemma set_account_bad_payload:
  assumes "\<not> account_ok s"
  shows "set_account v root key s =
    Some (\<lparr>new_root = root, root_unchanged = False, stats = no_stats\<lparr>noop := True\<rparr>\<rparr>, v)"
  using assms by (auto simp: set_account_def account_ok_iff split: option.split)

text \<open>
  What a successful update leaves: the old nodes untouched and, unless the update stopped at a
  node whose hash did not change, a well-formed tree that reads as the updated map. In every
  case the root hash is the one the path's siblings give from the new leaf.
\<close>

definition updated :: "Vault \<Rightarrow> Handle \<Rightarrow> fe \<Rightarrow> AccountState \<Rightarrow> UpdateResult \<Rightarrow> Vault \<Rightarrow> bool" where
  "updated v root key s r v' \<longleftrightarrow> extends v v' \<and> \<not> fault (stats r) \<and> tree v' 64 (new_root r)
     \<and> node_hash v' 64 (new_root r) = path_hash v 64 (index_of key) root
          (set_tleaf_hash key (the (encode_payload_bytes s)))
     \<and> (root_unchanged r \<longrightarrow> new_root r = root)
     \<and> (\<forall>j. j \<noteq> index_of key \<longrightarrow> leaf_at v' 64 j (new_root r) = leaf_at v 64 j root)
     \<and> (\<not> root_unchanged r \<longrightarrow> (\<forall>k. is_canonical k \<longrightarrow>
          lookup_account v' (new_root r) k = (if k = key then Some s else lookup_account v root k)))"

lemma set_account_updated:
  assumes tr: "tree v 64 root" and rm: "room v (66 + m)" and key: "is_canonical key" and s: "account_ok s"
    and nc: "\<not> leaf_conflict v root key"
  obtains r v' where "set_account v root key s = Some (r, v')" and "updated v root key s r v'"
    and "room v' m"
proof -
  obtain buf where buf: "encode_payload_bytes s = Some buf" using s by (auto simp: account_ok_iff)
  let ?ix = "index_of key"
  let ?l = "leaf_at v 64 ?ix root"
  let ?s1 = "no_stats\<lparr>st_rec := 1, st_tleaf := 1\<rparr>"
  let ?R = "entry_at v (ew (entry_at v ?l) ! 0)"
  note unf = set_account_unfold [OF buf, of v root key]
  show thesis
  proof (cases "?l \<noteq> HEMPTY \<and> rec_window ?R = take 24 buf \<and> entry_hash (entry_at v ?l) = set_tleaf_hash key buf")
    case True
    then have ne: "?l \<noteq> HEMPTY" by simp
    from leaf_wf_obtain [OF leaf_at_wf [OF tr ne]]
    obtain key' s' b where r: "is_canonical key'" "encode_payload_bytes s' = Some b"
      "?R = mk_rec (fe_to_canonical key') b" by blast
    have "key' = key" using nc r ne key by (simp add: leaf_conflict_def fe_to_canonical_inj)
    moreover have "b = buf"
      using True r encode_payload_window [OF r(2)] encode_payload_window [OF buf]
        rec_window_mk_rec [OF length_encode_payload [OF r(2)]] by metis
    ultimately have lk: "lookup_account v root key = Some s"
      using tr ne r key buf encode_payload_inject by (simp add: lookup_account_leaf read_rec_mk_rec Let_def)
    have "node_hash v 64 root = path_hash v 64 ?ix root (set_tleaf_hash key buf)"
      using node_hash_path [OF tr, of ?ix] True by (simp add: node_hash_def)
    then show thesis
      using that [of "\<lparr>new_root = root, root_unchanged = False, stats = no_stats\<lparr>noop := True\<rparr>\<rparr>" v]
        unf nc True tr lk buf room_less [OF rm]
      by (simp add: updated_def no_stats_def Let_def)
  next
    case False
    have "room v (Suc (Suc (64 + m)))" using rm by simp
    from new_leaf_wf [OF this key buf]
    obtain rh v1 th v2 where a: "alloc v (mk_rec (fe_to_canonical key) buf) = Some (rh, v1)"
      "alloc v1 (mk_tleaf rh (set_tleaf_hash key buf)) = Some (th, v2)"
      and rm2: "room v2 (64 + m)" and x2: "extends v v2" and ne: "th \<noteq> HEMPTY" and wf: "leaf_wf v2 th"
      and lh: "entry_hash (entry_at v2 th) = set_tleaf_hash key buf"
      and rr: "entry_at v2 (ew (entry_at v2 th) ! 0) = mk_rec (fe_to_canonical key) buf"
      by metis
    have run: "set_account v root key s = ascend root ?ix 0 (spine v 64 ?ix root @ []) th
        (set_tleaf_hash key buf) ?s1 v2"
      unfolding unf Let_def if_not_P [OF nc] if_not_P [OF False] using a by simp
    from ascend_spine [OF tr x2 rm2 ne wf lh [symmetric], of ?ix root ?s1 "[]"]
    show thesis
    proof (elim disjE exE conjE)
      assume "ascend_stop v 64 ?ix root (set_tleaf_hash key buf) root ?s1 v2 m
        (ascend root ?ix 0 (spine v 64 ?ix root @ []) th (set_tleaf_hash key buf) ?s1 v2)"
      then obtain r v' where r: "set_account v root key s = Some (r, v')" "root_unchanged r" "new_root r = root"
        "extends v2 v'" "room v' m" "\<not> fault (stats r)" "node_hash v 64 root = path_hash v 64 ?ix root (set_tleaf_hash key buf)"
        by (auto simp: ascend_stop_def run no_stats_def)
      have x: "extends v v'" using extends_trans [OF x2 r(4)] .
      then show thesis
        using that [OF r(1)] r tree_extends [OF tr x] node_hash_extends [OF tr x] leaf_at_extends [OF tr x] buf
        by (simp add: updated_def)
    next
      fix h' s' w'
      assume eq: "ascend root ?ix 0 (spine v 64 ?ix root @ []) th (set_tleaf_hash key buf) ?s1 v2 =
          ascend root ?ix 64 [] h' (entry_hash (entry_at w' h')) s' w'"
        and "ascend_to v 64 ?ix root th (set_tleaf_hash key buf) ?s1 v2 m h' s' w'"
      then have to: "extends v2 w'" "h' \<noteq> HEMPTY" "tree w' 64 h'" "\<not> fault s'"
        "entry_hash (entry_at w' h') = path_hash v 64 ?ix root (set_tleaf_hash key buf)"
        "\<And>j. leaf_at w' 64 j h' = (if agree 64 ?ix j then th else leaf_at v 64 j root)" "room w' m"
        by (simp_all add: ascend_to_def no_stats_def)
      have xv: "extends v w'" using extends_trans [OF x2 to(1)] .
      have "lookup_account w' h' k = (if k = key then Some s else lookup_account v root k)"
        if k: "is_canonical k" for k
      proof (cases "index_of k = ?ix")
        case True
        then have "lookup_account w' h' k = (if k = key then Some s else None)"
          using to ne leaf_wf_entries [OF wf to(1)] rr k key buf
          by (simp add: lookup_account_leaf agree_64 read_rec_mk_rec Let_def)
        then show ?thesis using lookup_no_conflict [OF tr nc key k True] by simp
      next
        case False
        then have "leaf_at w' 64 (index_of k) h' = leaf_at v 64 (index_of k) root"
          using to(6) by (simp add: agree_64)
        moreover have "leaf_at w' 64 (index_of k) root = leaf_at v 64 (index_of k) root"
          using leaf_at_extends [OF tr xv] .
        ultimately have "lookup_account w' h' k = lookup_account w' root k"
          using to tree_extends [OF tr xv] by (simp add: lookup_account_leaf)
        then show ?thesis using False lookup_account_extends [OF tr xv] by auto
      qed
      then show thesis
        using that [of "\<lparr>new_root = h', root_unchanged = False, stats = s'\<rparr>" w'] run eq to xv buf
        by (simp add: updated_def node_hash_def agree_64)
    qed
  qed
qed

subsection \<open>Opening proofs of a tree\<close>

lemma spine_empty: "map r_sib_hash (spine v n ix HEMPTY) = map empty_table [0..<n]"
  by (induction n) simp_all

lemma open_path_tree:
  "tree v n h \<Longrightarrow> open_path v n ix h sibs =
    \<lparr>occupied = (leaf_at v n ix h \<noteq> HEMPTY),
     leaf_hash = (if leaf_at v n ix h \<noteq> HEMPTY then entry_hash (entry_at v (leaf_at v n ix h)) else fe_zero),
     sib = map r_sib_hash (spine v n ix h) @ sibs\<rparr>"
proof (induction n arbitrary: h sibs)
  case 0
  then show ?case by (auto simp: leaf_wf_def entry_hash_def)
next
  case (Suc n)
  show ?case
  proof (cases "h = HEMPTY")
    case True
    then show ?thesis using spine_empty [of v "Suc n" ix] by (simp del: spine.simps upt_Suc)
  next
    case False
    then show ?thesis
      using Suc.IH [OF tree_step(1) [OF Suc.prems, of ix]]
      by (simp add: next_of_def Let_def node_hash_def)
  qed
qed

lemma lookup_leaf_hash:
  assumes "tree v 64 root" and "is_canonical key" and "lookup_account v root key = Some s"
  obtains l buf where "leaf_at v 64 (index_of key) root = l" and "l \<noteq> HEMPTY"
    and "encode_payload_bytes s = Some buf" and "entry_hash (entry_at v l) = set_tleaf_hash key buf"
proof -
  let ?l = "leaf_at v 64 (index_of key) root"
  have ne: "?l \<noteq> HEMPTY" using assms(1,3) by (auto simp: lookup_account_leaf)
  from leaf_wf_obtain [OF leaf_at_wf [OF assms(1) ne]]
  obtain key' s' b where r: "is_canonical key'" "encode_payload_bytes s' = Some b"
    "entry_at v (ew (entry_at v ?l) ! 0) = mk_rec (fe_to_canonical key') b"
    "entry_hash (entry_at v ?l) = poseidon3 IV_STATE_LEAF key' (ffb_value (fe_from_le_bytes b))" by blast
  then have "key = key' \<and> s = s'"
    using assms ne by (auto simp: lookup_account_leaf read_rec_mk_rec Let_def split: if_splits)
  then show thesis using that [OF refl ne] r by (simp add: set_tleaf_hash_def)
qed

text \<open>An honest opening of a stored account is accepted against the root hash.\<close>

lemma open_complete:
  assumes "tree v 64 root" and "is_canonical key" and "lookup_account v root key = Some s"
  shows "verify_opening (limbs (fe_to_canonical (node_hash v 64 root))) key (Some s) (prover_open v root key)"
proof -
  obtain l buf where l: "leaf_at v 64 (index_of key) root = l" "l \<noteq> HEMPTY"
    "encode_payload_bytes s = Some buf" "entry_hash (entry_at v l) = set_tleaf_hash key buf"
    using lookup_leaf_hash [OF assms] .
  have "node_hash v 64 root = path_hash v 64 (index_of key) root (set_tleaf_hash key buf)"
    using node_hash_path [OF assms(1), of "index_of key"] l by (simp add: node_hash_def)
  then show ?thesis
    using l by (simp add: verify_opening_def prover_open_def SMT_DEPTH_def open_path_tree [OF assms(1)]
        set_tleaf_hash_def path_hash_def Let_def)
qed

text \<open>
  The branch for absent keys takes the leaf hash from the proof: flipping the flag of an accepted
  proof of presence gives an accepted proof of absence.
\<close>

lemma absence_forgery:
  "verify_opening r key (Some s) pr \<Longrightarrow> verify_opening r key None (pr\<lparr>occupied := False\<rparr>)"
  by (auto simp: verify_opening_def Let_def split: option.splits if_splits)

text \<open>
  Two accepted openings of one key against one root agree on the account, or they exhibit two
  different inputs of the hash, among those the two verifications compute, with the same output.
\<close>

fun path_pairs :: "u64 \<Rightarrow> nat \<Rightarrow> fe list \<Rightarrow> fe \<Rightarrow> (fe \<times> fe) list" where
  "path_pairs ix lvl [] acc = []"
| "path_pairs ix lvl (s # ss) acc =
     (if bit ix lvl then (s, acc) else (acc, s)) # path_pairs ix (Suc lvl) ss (join lvl ix s acc)"

lemma fold_path_join: "fold_path ix lvl (s # ss) acc = fold_path ix (Suc lvl) ss (join lvl ix s acc)"
  by (simp add: join_def)

definition node_collision :: "(fe \<times> fe) list \<Rightarrow> (fe \<times> fe) list \<Rightarrow> bool" where
  "node_collision ps qs \<longleftrightarrow> (\<exists>p\<in>set ps. \<exists>q\<in>set qs. p \<noteq> q
     \<and> poseidon3 IV_STATE_NODE (fst p) (snd p) = poseidon3 IV_STATE_NODE (fst q) (snd q))"

lemma node_collision_Cons: "node_collision ps qs \<Longrightarrow> node_collision (p # ps) (q # qs)"
  unfolding node_collision_def by (meson list.set_intros(2))

lemma fold_path_binding:
  "length ss = length ts \<Longrightarrow> fold_path ix l ss a = fold_path ix l ts b \<Longrightarrow>
    a = b \<or> node_collision (path_pairs ix l ss a) (path_pairs ix l ts b)"
proof (induction ss ts arbitrary: l a b rule: list_induct2)
  case (Cons s ss t ts)
  from Cons.IH [of "Suc l" "join l ix s a" "join l ix t b"] Cons.prems
  consider "join l ix s a = join l ix t b"
    | "node_collision (path_pairs ix (Suc l) ss (join l ix s a)) (path_pairs ix (Suc l) ts (join l ix t b))"
    by (auto simp only: fold_path_join)
  then show ?case
  proof cases
    case 1
    then show ?thesis by (auto simp: node_collision_def join_def split: if_splits)
  next
    case 2
    then show ?thesis by (simp add: node_collision_Cons)
  qed
qed simp

definition payload_of :: "AccountState \<Rightarrow> fe" where
  "payload_of s = ffb_value (fe_from_le_bytes (the (encode_payload_bytes s)))"

lemma payload_of_inject: "account_ok s \<Longrightarrow> account_ok t \<Longrightarrow> payload_of s = payload_of t \<Longrightarrow> s = t"
  unfolding account_ok_iff payload_of_def using unpack_payload_bytes by (metis option.exhaust_sel)

lemma canonical_fold_path: "is_canonical acc \<Longrightarrow> is_canonical (fold_path ix l ss acc)"
  by (induction ix l ss acc rule: fold_path.induct) simp_all

lemma verify_opening_SomeD:
  assumes "verify_opening r key (Some s) pr"
  shows "account_ok s" and "r = limbs (fe_to_canonical (fold_path (index_of key) 0 (sib pr)
      (poseidon3 IV_STATE_LEAF key (payload_of s))))"
  using assms
  by (auto simp: verify_opening_def payload_of_def account_ok_iff Let_def split: option.splits if_splits)

lemma opening_binding:
  assumes "verify_opening r key (Some s) pr" and "verify_opening r key (Some t) qr"
    and "length (sib pr) = 64" and "length (sib qr) = 64"
  shows "s = t \<or> (payload_of s \<noteq> payload_of t \<and>
      poseidon3 IV_STATE_LEAF key (payload_of s) = poseidon3 IV_STATE_LEAF key (payload_of t))
    \<or> node_collision (path_pairs (index_of key) 0 (sib pr) (poseidon3 IV_STATE_LEAF key (payload_of s)))
        (path_pairs (index_of key) 0 (sib qr) (poseidon3 IV_STATE_LEAF key (payload_of t)))"
proof -
  note s = verify_opening_SomeD [OF assms(1)] and t = verify_opening_SomeD [OF assms(2)]
  have "fold_path (index_of key) 0 (sib pr) (poseidon3 IV_STATE_LEAF key (payload_of s))
      = fold_path (index_of key) 0 (sib qr) (poseidon3 IV_STATE_LEAF key (payload_of t))"
    using s(2) t(2) fe_to_canonical_inj by (simp add: canonical_fold_path)
  from fold_path_binding [OF _ this] show ?thesis
    using assms(3,4) payload_of_inject [OF s(1) t(1)] by auto
qed

text \<open>A lookup only ever returns an account the payload encoding represents.\<close>

lemma lookup_account_ok:
  "tree v 64 root \<Longrightarrow> is_canonical key \<Longrightarrow> lookup_account v root key = Some s \<Longrightarrow> account_ok s"
  by (rule lookup_leaf_hash) (auto simp: account_ok_iff)

text \<open>
  An update that stops early exhibits a collision of the hash among the inputs it computes, or
  it writes the all-zero account of the key zero, whose leaf hash is that of the empty leaf.
\<close>

lemma set_account_repeat:
  assumes "tree v 64 root" and "is_canonical key" and "lookup_account v root key = Some s"
  shows "set_account v root key s =
    Some (\<lparr>new_root = root, root_unchanged = False, stats = no_stats\<lparr>noop := True\<rparr>\<rparr>, v)"
proof -
  let ?l = "leaf_at v 64 (index_of key) root"
  have ne: "?l \<noteq> HEMPTY" using assms(1,3) by (auto simp: lookup_account_leaf)
  from leaf_wf_obtain [OF leaf_at_wf [OF assms(1) ne]]
  obtain key' s' b where r: "is_canonical key'" "encode_payload_bytes s' = Some b"
    "entry_at v (ew (entry_at v ?l) ! 0) = mk_rec (fe_to_canonical key') b"
    "entry_hash (entry_at v ?l) = poseidon3 IV_STATE_LEAF key' (ffb_value (fe_from_le_bytes b))" by blast
  then have eq: "key' = key" "s' = s"
    using assms ne by (auto simp: lookup_account_leaf read_rec_mk_rec Let_def split: if_splits)
  have b: "encode_payload_bytes s = Some b" using r(2) eq by simp
  have "\<not> leaf_conflict v root key" using r eq by (simp add: leaf_conflict_def Let_def)
  moreover have "rec_window (entry_at v (ew (entry_at v ?l) ! 0)) = take 24 b"
    using r(3) rec_window_mk_rec [OF length_encode_payload [OF b]] by simp
  moreover have "entry_hash (entry_at v ?l) = set_tleaf_hash key b"
    using r(4) eq by (simp add: set_tleaf_hash_def)
  ultimately show ?thesis using set_account_unfold [OF b] ne by (simp add: Let_def)
qed

lemma set_account_shorted:
  assumes tr: "tree v 64 root" and rm: "room v 66" and key: "is_canonical key" and s: "account_ok s"
    and run: "set_account v root key s = Some (r, v')" and ru: "root_unchanged r"
  shows "(key = fe_zero \<and> payload_of s = fe_zero)
    \<or> (\<exists>k p. (k, p) \<noteq> (key, payload_of s) \<and> (lookup_account v root key = None \<longrightarrow> (k, p) = (fe_zero, fe_zero))
        \<and> (\<forall>t. lookup_account v root key = Some t \<longrightarrow> (k, p) = (key, payload_of t))
        \<and> poseidon3 IV_STATE_LEAF k p = poseidon3 IV_STATE_LEAF key (payload_of s))
    \<or> node_collision
          (path_pairs (index_of key) 0 (sib (prover_open v root key)) (poseidon3 IV_STATE_LEAF key (payload_of s)))
          (path_pairs (index_of key) 0 (sib (prover_open v root key))
             (node_hash v 0 (leaf_at v 64 (index_of key) root)))"
proof -
  let ?ix = "index_of key" and ?l = "leaf_at v 64 (index_of key) root"
  let ?new = "poseidon3 IV_STATE_LEAF key (payload_of s)"
  have nc: "\<not> leaf_conflict v root key"
    using set_account_conflict [OF s, of v root key] run ru by auto
  have sb: "sib (prover_open v root key) = map r_sib_hash (spine v 64 ?ix root)"
    by (simp add: prover_open_def SMT_DEPTH_def open_path_tree [OF tr])
  have rm': "room v (66 + 0)" using rm by simp
  obtain r2 v2 where "set_account v root key s = Some (r2, v2)" "updated v root key s r2 v2"
    using set_account_updated [OF tr rm' key s nc] by metis
  then have up: "updated v root key s r v'" using run by simp
  have hash: "set_tleaf_hash key (the (encode_payload_bytes s)) = ?new"
    by (simp add: set_tleaf_hash_def payload_of_def)
  have "node_hash v' 64 root = path_hash v 64 ?ix root ?new"
    using up ru unfolding updated_def hash by metis
  moreover have "node_hash v' 64 root = node_hash v 64 root"
    using up node_hash_extends [OF tr] unfolding updated_def by blast
  ultimately have "path_hash v 64 ?ix root ?new = path_hash v 64 ?ix root (node_hash v 0 ?l)"
    using node_hash_path [OF tr, of ?ix] by simp
  from fold_path_binding [OF refl this [unfolded path_hash_def]]
  consider "?new = node_hash v 0 ?l"
    | "node_collision (path_pairs ?ix 0 (sib (prover_open v root key)) ?new)
         (path_pairs ?ix 0 (sib (prover_open v root key)) (node_hash v 0 ?l))"
    unfolding sb by blast
  then show ?thesis
  proof cases
    case 1
    show ?thesis
    proof (cases "?l = HEMPTY")
      case True
      then have lk: "lookup_account v root key = None" by (simp add: lookup_account_leaf [OF tr])
      have h: "poseidon3 IV_STATE_LEAF fe_zero fe_zero = ?new" using 1 True by (simp add: node_hash_def)
      show ?thesis
      proof (cases "key = fe_zero \<and> payload_of s = fe_zero")
        case False
        then show ?thesis using lk h by (intro disjI2 disjI1 exI [of _ fe_zero]) auto
      qed simp
    next
      case False
      from leaf_wf_obtain [OF leaf_at_wf [OF tr False]]
      obtain k' t b where t: "is_canonical k'" "encode_payload_bytes t = Some b"
        "entry_at v (ew (entry_at v ?l) ! 0) = mk_rec (fe_to_canonical k') b"
        "entry_hash (entry_at v ?l) = poseidon3 IV_STATE_LEAF k' (ffb_value (fe_from_le_bytes b))" by blast
      have "k' = key" using nc t False key by (simp add: leaf_conflict_def fe_to_canonical_inj)
      then have lk: "lookup_account v root key = Some t" and h: "poseidon3 IV_STATE_LEAF key (payload_of t) = ?new"
        using t False key 1 by (simp_all add: lookup_account_leaf [OF tr] read_rec_mk_rec Let_def payload_of_def node_hash_def)
      have "t \<noteq> s" using set_account_repeat [OF tr key] lk run ru by auto
      moreover have "account_ok t" using lookup_account_ok [OF tr key lk] .
      ultimately have "payload_of t \<noteq> payload_of s" using payload_of_inject s by blast
      then show ?thesis using lk h
        by (intro disjI2 disjI1 exI [of _ key] exI [of _ "payload_of t"]) simp
    qed
  qed (intro disjI2)
qed

text \<open>The first account of an empty tree is always stored.\<close>

lemma ascend_no_mids:
  assumes "\<forall>x\<in>set rows. r_mid x = HEMPTY" and "ascend orig ix lvl rows c h s v = Some (r, v')"
  shows "\<not> root_unchanged r"
  using assms
proof (induction rows arbitrary: lvl c h s v)
  case (Cons sr rows)
  then have m: "r_mid sr = HEMPTY" and ih: "\<And>lvl c h s v. ascend orig ix lvl rows c h s v = Some (r, v') \<Longrightarrow>
      \<not> root_unchanged r" by simp_all
  show ?case using Cons.prems(2) by (auto simp: m Let_def dest: ih split: if_splits option.splits)
qed auto

lemma spine_empty_mids: "x \<in> set (spine v n ix HEMPTY) \<Longrightarrow> r_mid x = HEMPTY"
  by (induction n) (auto simp: HEMPTY_def)

lemma set_account_first:
  assumes rm: "room v (66 + m)" and key: "is_canonical key" and s: "account_ok s"
  obtains r v' where "set_account v HEMPTY key s = Some (r, v')" and "\<not> root_unchanged r"
    and "\<not> fault (stats r)" and "tree v' 64 (new_root r)" and "room v' m" and "extends v v'"
    and "\<And>k. is_canonical k \<Longrightarrow> lookup_account v' (new_root r) k = (if k = key then Some s else None)"
    and "\<And>j. j \<noteq> index_of key \<Longrightarrow> leaf_at v' 64 j (new_root r) = HEMPTY"
proof -
  have nc: "\<not> leaf_conflict v HEMPTY key" by (simp add: leaf_conflict_def)
  obtain r v' where r: "set_account v HEMPTY key s = Some (r, v')" "updated v HEMPTY key s r v'" "room v' m"
    using set_account_updated [OF tree_empty rm key s nc] .
  obtain buf where buf: "encode_payload_bytes s = Some buf" using s by (auto simp: account_ok_iff)
  have nr: "\<not> root_unchanged r"
  proof -
    obtain th v2 c s1 where "ascend HEMPTY (index_of key) 0 (spine v 64 (index_of key) HEMPTY) th c s1 v2 = Some (r, v')"
      using r(1) nc by (auto simp: set_account_unfold [OF buf] Let_def split: option.splits)
    then show ?thesis by (rule ascend_no_mids [rotated]) (auto dest: spine_empty_mids)
  qed
  have "lookup_account v HEMPTY k = None" for k by (simp add: lookup_account_leaf)
  moreover have "leaf_at v 64 j HEMPTY = HEMPTY" for j by simp
  ultimately show thesis using that r nr unfolding updated_def by metis
qed

end
