(* ===== verification/Ledger.thy ===== *)
theory Ledger
  imports Smt "HOL-Library.Product_Lexorder" "HOL-Library.Multiset"
begin

text \<open>
  Transactions: \<open>src/include/hsma/tx.hpp\<close> (the money rules and the validation gate) and the class
  \<open>Mempool\<close> of \<open>src/include/hsma/mempool.hpp\<close> (deterministic order, batch execution). The
  rules are stated over an interface, the locale \<open>account_store\<close>, which the sparse Merkle tree
  of theory \<open>Smt\<close> interprets. The lemmas show what every verdict means, that the order does not
  depend on arrival, and that a batch never creates money.
\<close>

subsection \<open>Transactions and the rules\<close>

definition BAL_MAX :: u128 where
  "BAL_MAX = push_bit 126 1 - 1"

record Transaction =
  sender_key :: fe
  recipient_key :: fe
  amount :: u128
  fee :: u128
  tx_nonce :: u64

datatype TxError =
  OK | SENDER_NOT_FOUND | INSUFFICIENT_BALANCE | INVALID_NONCE | COST_OVERFLOW | CREDIT_OVERFLOW
| MALFORMED

definition same_key :: "fe \<Rightarrow> fe \<Rightarrow> bool" where
  "same_key a b \<longleftrightarrow> fe_to_canonical a = fe_to_canonical b"

definition zero_account :: AccountState where
  "zero_account = \<lparr>bal_mag = 0, bal_sign = False, nonce = 0, flags = 0\<rparr>"

record RuleInput =
  in_sender :: AccountState
  sender_found :: bool
  recipient_found :: bool
  in_recipient :: AccountState
  self_transfer :: bool

text \<open>\<open>__builtin_add_overflow\<close> on 128 bits: \<^const>\<open>None\<close> is an overflow.\<close>

definition add_u128 :: "u128 \<Rightarrow> u128 \<Rightarrow> u128 option" where
  "add_u128 a b = (if a + b < a then None else Some (a + b))"

text \<open>The verdict and the two accounts written through the out-parameters, \<open>so\<close> and \<open>ro\<close> before.\<close>

definition apply_rules :: "Transaction \<Rightarrow> RuleInput \<Rightarrow> AccountState \<Rightarrow> AccountState
    \<Rightarrow> TxError \<times> AccountState \<times> AccountState" where
  "apply_rules tx inp so ro =
     (if \<not> sender_found inp then (SENDER_NOT_FOUND, so, ro)
      else if tx_nonce tx \<noteq> nonce (in_sender inp) + 1 then (INVALID_NONCE, so, ro)
      else case add_u128 (amount tx) (fee tx) of
        None \<Rightarrow> (COST_OVERFLOW, so, ro)
      | Some cost \<Rightarrow>
          if bal_sign (in_sender inp) \<or> bal_mag (in_sender inp) < cost
          then (INSUFFICIENT_BALANCE, so, ro)
          else
            let net_return = (if self_transfer inp then amount tx else 0);
                sender_new = bal_mag (in_sender inp) - cost + net_return;
                so' = \<lparr>bal_mag = sender_new, bal_sign = False, nonce = nonce (in_sender inp) + 1,
                       flags = flags (in_sender inp)\<rparr>
            in if \<not> self_transfer inp \<and> recipient_found inp then
                 (case add_u128 (bal_mag (in_recipient inp)) (amount tx) of
                    None \<Rightarrow> (CREDIT_OVERFLOW, so, ro)
                  | Some credit \<Rightarrow>
                      if credit > BAL_MAX then (CREDIT_OVERFLOW, so, ro)
                      else (OK, so', \<lparr>bal_mag = credit, bal_sign = False,
                                      nonce = nonce (in_recipient inp), flags = flags (in_recipient inp)\<rparr>))
               else if \<not> self_transfer inp \<and> \<not> recipient_found inp then
                 (if amount tx > BAL_MAX then (CREDIT_OVERFLOW, so, ro)
                  else (OK, so', \<lparr>bal_mag = amount tx, bal_sign = False, nonce = 0, flags = 0\<rparr>))
               else (OK, so', ro))"

definition rule_input :: "AccountState option \<Rightarrow> AccountState option \<Rightarrow> bool \<Rightarrow> RuleInput" where
  "rule_input s r self =
     \<lparr>in_sender = (case s of Some a \<Rightarrow> a | None \<Rightarrow> zero_account), sender_found = (s \<noteq> None),
      recipient_found = (r \<noteq> None), in_recipient = (case r of Some a \<Rightarrow> a | None \<Rightarrow> zero_account),
      self_transfer = self\<rparr>"

definition validate_transaction :: "Transaction \<Rightarrow> Vault \<Rightarrow> Handle \<Rightarrow> TxError" where
  "validate_transaction tx v root =
     fst (apply_rules tx
       (rule_input (lookup_account v root (sender_key tx)) (lookup_account v root (recipient_key tx))
          (same_key (sender_key tx) (recipient_key tx))) zero_account zero_account)"

subsection \<open>The deterministic order\<close>

text \<open>The first of the limbs, top limb first, in which two values differ decides.\<close>

fun limbs_diff :: "nat \<Rightarrow> u64 list \<Rightarrow> u64 list \<Rightarrow> bool option" where
  "limbs_diff 0 a b = None"
| "limbs_diff (Suc i) a b = (if a ! i \<noteq> b ! i then Some (a ! i < b ! i) else limbs_diff i a b)"

definition tx_less :: "Transaction \<Rightarrow> Transaction \<Rightarrow> bool" where
  "tx_less a b =
     (case limbs_diff 4 (limbs (fe_to_canonical (sender_key a))) (limbs (fe_to_canonical (sender_key b))) of
        Some r \<Rightarrow> r
      | None \<Rightarrow>
          if tx_nonce a \<noteq> tx_nonce b then tx_nonce a < tx_nonce b
          else case limbs_diff 4 (limbs (fe_to_canonical (recipient_key a)))
                      (limbs (fe_to_canonical (recipient_key b))) of
            Some r \<Rightarrow> r
          | None \<Rightarrow> if amount a \<noteq> amount b then amount a < amount b else fee a < fee b)"

text \<open>
  \<open>std::sort\<close> with \<open>tx_less\<close>, as an insertion sort; any other sorting algorithm gives the same
  queue (lemma \<open>sort_deterministic_unique\<close>).
\<close>

fun insert_tx :: "Transaction \<Rightarrow> Transaction list \<Rightarrow> Transaction list" where
  "insert_tx x [] = [x]"
| "insert_tx x (y # ys) = (if tx_less y x then y # insert_tx x ys else x # y # ys)"

definition sort_deterministic :: "Transaction list \<Rightarrow> Transaction list" where
  "sort_deterministic q = foldr insert_tx q []"

subsection \<open>Executing a batch\<close>

text \<open>
  The loop body of \<open>execute_batch\<close> over a store with a read and an update operation. An update
  is refused (\<open>stats.fault\<close>), stored, or stopped early because the root hash does not change.
\<close>

datatype put_outcome = Stored | Shorted | Refused

definition store_tx :: "('s \<Rightarrow> fe \<Rightarrow> AccountState option)
    \<Rightarrow> ('s \<Rightarrow> fe \<Rightarrow> AccountState \<Rightarrow> (put_outcome \<times> 's) option)
    \<Rightarrow> 's \<Rightarrow> Transaction \<Rightarrow> (TxError \<times> 's) option" where
  "store_tx get put s tx =
     (let sf = get s (sender_key tx);
          rf = get s (recipient_key tx);
          self = same_key (sender_key tx) (recipient_key tx)
      in case apply_rules tx (rule_input sf rf self) zero_account zero_account of
           (verdict, s_new, r_new) \<Rightarrow>
             if verdict \<noteq> OK then Some (verdict, s)
             else case put s (sender_key tx) s_new of
                    None \<Rightarrow> None
                  | Some (o1, s1) \<Rightarrow>
                      if o1 = Refused then Some (MALFORMED, s)
                      else if self then Some (OK, s1)
                      else (case put s1 (recipient_key tx) r_new of
                              None \<Rightarrow> None
                            | Some (o2, s2) \<Rightarrow> if o2 = Refused then Some (MALFORMED, s1) else Some (OK, s2)))"

text \<open>The loop: the transactions executed and the statuses, in queue order.\<close>

fun store_batch :: "('s \<Rightarrow> fe \<Rightarrow> AccountState option)
    \<Rightarrow> ('s \<Rightarrow> fe \<Rightarrow> AccountState \<Rightarrow> (put_outcome \<times> 's) option)
    \<Rightarrow> 's \<Rightarrow> Transaction list \<Rightarrow> ('s \<times> Transaction list \<times> TxError list) option" where
  "store_batch get put s [] = Some (s, [], [])"
| "store_batch get put s (tx # q) =
     (case store_tx get put s tx of
        None \<Rightarrow> None
      | Some (st, s') \<Rightarrow>
          (case store_batch get put s' q of
             None \<Rightarrow> None
           | Some (s'', ex, sts) \<Rightarrow> Some (s'', if st = OK then tx # ex else ex, st # sts)))"

text \<open>The tree as a store: the state is the vault and the current root.\<close>

definition smt_get :: "Vault \<times> Handle \<Rightarrow> fe \<Rightarrow> AccountState option" where
  "smt_get s k = lookup_account (fst s) (snd s) k"

definition smt_put :: "Vault \<times> Handle \<Rightarrow> fe \<Rightarrow> AccountState \<Rightarrow> (put_outcome \<times> (Vault \<times> Handle)) option" where
  "smt_put s k a =
     (case set_account (fst s) (snd s) k a of
        None \<Rightarrow> None
      | Some (r, v') \<Rightarrow>
          Some (if fault (stats r) then Refused else if root_unchanged r then Shorted else Stored,
                (v', new_root r)))"

definition execute_batch :: "Vault \<Rightarrow> Handle \<Rightarrow> Transaction list
    \<Rightarrow> ((Vault \<times> Handle) \<times> Transaction list \<times> TxError list) option" where
  "execute_batch v root queue = store_batch smt_get smt_put (v, root) (sort_deterministic queue)"

text \<open>\<open>class Mempool\<close>: the queue; \<open>execute_batch\<close> clears it.\<close>

record Mempool =
  queue :: "Transaction list"

definition mempool_push :: "Mempool \<Rightarrow> Transaction \<Rightarrow> Mempool" where
  "mempool_push m tx = m\<lparr>queue := queue m @ [tx]\<rparr>"

definition mempool_execute :: "Mempool \<Rightarrow> Vault \<Rightarrow> Handle
    \<Rightarrow> (Mempool \<times> (Vault \<times> Handle) \<times> Transaction list \<times> TxError list) option" where
  "mempool_execute m v root =
     (case execute_batch v root (queue m) of
        None \<Rightarrow> None
      | Some r \<Rightarrow> Some (m\<lparr>queue := []\<rparr>, r))"

subsection \<open>The order\<close>

lemma limbs_diff_geq: "limbs_diff n a b = Some True \<longleftrightarrow> \<not> geq_loop n a b"
  by (induction n) auto

lemma limbs_diff_sym: "limbs_diff n a b = Some False \<longleftrightarrow> \<not> geq_loop n b a"
  by (induction n) auto

lemma limbs_diff_val:
  assumes "length a = n" and "length b = n"
  shows "limbs_diff n a b =
    (if limbs_val a = limbs_val b then None else Some (limbs_val a < limbs_val b))"
  using limbs_diff_geq [of n a b] limbs_diff_sym [of n a b] geq_loop_val [of n a b]
    geq_loop_val [of n b a] assms
  by (cases "limbs_diff n a b") auto

definition tx_key :: "Transaction \<Rightarrow> nat \<times> u64 \<times> nat \<times> u128 \<times> u128" where
  "tx_key t = (fe_val (fe_to_canonical (sender_key t)), tx_nonce t,
     fe_val (fe_to_canonical (recipient_key t)), amount t, fee t)"

lemma tx_less_key: "tx_less a b \<longleftrightarrow> tx_key a < tx_key b"
  by (auto simp: tx_less_def tx_key_def limbs_diff_val fe_val_def)

lemma insert_tx_key: "insert_tx x ys = insort_key tx_key x ys"
  by (induction ys) (auto simp: tx_less_key not_less)

lemma sort_deterministic_key: "sort_deterministic q = sort_key tx_key q"
  by (simp add: sort_deterministic_def sort_key_def insert_tx_key [abs_def])

definition keys_canonical :: "Transaction \<Rightarrow> bool" where
  "keys_canonical t \<longleftrightarrow> is_canonical (sender_key t) \<and> is_canonical (recipient_key t)"

lemma tx_key_inject:
  assumes "keys_canonical a" and "keys_canonical b" and "tx_key a = tx_key b"
  shows "a = b"
proof (rule Transaction.equality)
  have "fe_to_canonical (sender_key a) = fe_to_canonical (sender_key b)"
    "fe_to_canonical (recipient_key a) = fe_to_canonical (recipient_key b)"
    using assms(3) fe_val_inj unfolding tx_key_def by blast+
  then show "sender_key a = sender_key b" "recipient_key a = recipient_key b"
    using assms(1,2) fe_to_canonical_inj unfolding keys_canonical_def by blast+
  show "amount a = amount b" "fee a = fee b" "tx_nonce a = tx_nonce b"
    using assms(3) unfolding tx_key_def by blast+
qed simp

text \<open>Any permutation of the queue that \<open>tx_less\<close> accepts as sorted is the queue the model sorts to.\<close>

lemma sort_deterministic_unique:
  assumes "mset q' = mset q" and "\<forall>t\<in>set q. keys_canonical t"
    and "sorted_wrt (\<lambda>a b. \<not> tx_less b a) q'"
  shows "q' = sort_deterministic q"
proof -
  have "sorted (map tx_key q')"
    using assms(3) by (simp add: tx_less_key not_less sorted_map)
  moreover have "inj_on tx_key (set q)"
    using assms(2) tx_key_inject by (auto intro!: inj_onI)
  ultimately show ?thesis
    using sort_key_inj_key_eq [of q q' tx_key] assms(1) by (simp add: sort_deterministic_key)
qed

lemma sort_deterministic_props:
  "mset (sort_deterministic q) = mset q" "sorted_wrt (\<lambda>a b. \<not> tx_less b a) (sort_deterministic q)"
  using sorted_sort_key [of tx_key q] by (simp_all add: sort_deterministic_key tx_less_key not_less sorted_map)

lemma sort_deterministic_perm:
  "mset q = mset q' \<Longrightarrow> \<forall>t\<in>set q. keys_canonical t \<Longrightarrow> sort_deterministic q = sort_deterministic q'"
  using sort_deterministic_unique [of "sort_deterministic q'" q] sort_deterministic_props by simp

subsection \<open>What the rules do\<close>

text \<open>The signed balance of an account.\<close>

definition balance :: "AccountState \<Rightarrow> int" where
  "balance a = (if bal_sign a then - int (unat (bal_mag a)) else int (unat (bal_mag a)))"

lemma u128_lt: "unat (x :: u128) < 2 ^ 128"
  using unsigned_less [of x, where ?'a = nat] by simp

lemma add_u128_Some: "add_u128 a b = Some c \<longleftrightarrow> unat a + unat b < 2 ^ 128 \<and> c = a + b"
proof -
  have "a + b < a \<longleftrightarrow> 2 ^ 128 \<le> unat a + unat b"
    using u128_lt [of a] u128_lt [of b] by (auto simp: word_less_nat_alt unat_word_ariths mod_if)
  then show ?thesis by (auto simp: add_u128_def)
qed

lemma add_u128_val: "add_u128 a b = Some c \<Longrightarrow> unat c = unat a + unat b"
  by (auto simp: add_u128_Some unat_word_ariths)

lemma unat_BAL_MAX: "unat BAL_MAX = 2 ^ 126 - 1"
  by (simp add: BAL_MAX_def)

lemma account_ok_bal: "account_ok a \<longleftrightarrow> \<not> (bal_sign a \<and> bal_mag a = 0) \<and> bal_mag a \<le> BAL_MAX \<and> flags a \<le> 1"
  by (auto simp: account_ok_def BAL_MAX_def word_less_nat_alt word_le_nat_alt)

text \<open>An accepted transaction: the gates it passed and the two accounts it leaves.\<close>

lemma apply_rules_OK:
  assumes "apply_rules tx inp so ro = (OK, s', r')"
  shows "sender_found inp" and "tx_nonce tx = nonce (in_sender inp) + 1"
    and "unat (amount tx) + unat (fee tx) \<le> unat (bal_mag (in_sender inp))" and "\<not> bal_sign (in_sender inp)"
    and "\<not> bal_sign s'" and "nonce s' = nonce (in_sender inp) + 1" and "flags s' = flags (in_sender inp)"
    and "unat (bal_mag s') = unat (bal_mag (in_sender inp)) - unat (amount tx) - unat (fee tx)
           + (if self_transfer inp then unat (amount tx) else 0)"
proof -
  obtain cost where c: "add_u128 (amount tx) (fee tx) = Some cost" and "sender_found inp"
    "tx_nonce tx = nonce (in_sender inp) + 1" "\<not> bal_sign (in_sender inp)" "\<not> bal_mag (in_sender inp) < cost"
    and s': "s' = \<lparr>bal_mag = bal_mag (in_sender inp) - cost + (if self_transfer inp then amount tx else 0),
      bal_sign = False, nonce = nonce (in_sender inp) + 1, flags = flags (in_sender inp)\<rparr>"
    using assms by (auto simp: apply_rules_def Let_def split: if_splits option.splits)
  moreover from this have le: "unat cost \<le> unat (bal_mag (in_sender inp))" by (simp add: word_le_nat_alt not_less)
  moreover have uc: "unat cost = unat (amount tx) + unat (fee tx)" using add_u128_val [OF c] .
  moreover have sub: "unat (bal_mag (in_sender inp) - cost) = unat (bal_mag (in_sender inp)) - unat cost"
    using le by (simp add: unat_sub_if_size word_le_nat_alt)
  moreover have "unat (bal_mag (in_sender inp) - cost + amount tx) =
      unat (bal_mag (in_sender inp)) - unat cost + unat (amount tx)"
    using le uc u128_lt [of "bal_mag (in_sender inp)"]
    by (simp add: unat_word_ariths sub)
  ultimately show "sender_found inp" and "tx_nonce tx = nonce (in_sender inp) + 1"
    and "unat (amount tx) + unat (fee tx) \<le> unat (bal_mag (in_sender inp))" and "\<not> bal_sign (in_sender inp)"
    and "\<not> bal_sign s'" and "nonce s' = nonce (in_sender inp) + 1" and "flags s' = flags (in_sender inp)"
    and "unat (bal_mag s') = unat (bal_mag (in_sender inp)) - unat (amount tx) - unat (fee tx)
           + (if self_transfer inp then unat (amount tx) else 0)"
    by simp_all
qed

lemma apply_rules_OK_recipient:
  assumes "apply_rules tx inp so ro = (OK, s', r')" and "\<not> self_transfer inp"
  shows "\<not> bal_sign r'" and "bal_mag r' \<le> BAL_MAX"
    and "unat (bal_mag r') = (if recipient_found inp then unat (bal_mag (in_recipient inp)) else 0) + unat (amount tx)"
    and "flags r' = (if recipient_found inp then flags (in_recipient inp) else 0)"
    and "nonce r' = (if recipient_found inp then nonce (in_recipient inp) else 0)"
  using assms
  by (auto simp: apply_rules_def Let_def not_less dest: add_u128_val split: if_splits option.splits)

text \<open>
  The rules drop the sign of a recipient in debt: crediting \<open>x\<close> to an account that owes \<open>d\<close>
  leaves it with \<open>d + x\<close>, so \<open>2 d\<close> is created.
\<close>

lemma credit_to_debtor:
  assumes "apply_rules tx (rule_input (Some a) (Some b) False) so ro = (OK, s', r')" and "bal_sign b"
  shows "balance s' + balance r' = balance a + balance b - int (unat (fee tx)) + 2 * int (unat (bal_mag b))"
  using apply_rules_OK [OF assms(1)] apply_rules_OK_recipient [OF assms(1)] assms(2)
  by (simp add: balance_def rule_input_def)

subsection \<open>The interface of an account store\<close>

text \<open>
  What the batch relies on. \<open>wf n s\<close>: the state is well formed and takes \<open>n\<close> more updates. A
  stored update is a map update; an update that was refused or stopped early changes no account.
\<close>

locale account_store =
  fixes wf :: "nat \<Rightarrow> 's \<Rightarrow> bool"
    and get :: "'s \<Rightarrow> fe \<Rightarrow> AccountState option"
    and put :: "'s \<Rightarrow> fe \<Rightarrow> AccountState \<Rightarrow> (put_outcome \<times> 's) option"
  assumes wf_Suc: "wf (Suc n) s \<Longrightarrow> wf n s"
    and get_ok: "wf n s \<Longrightarrow> is_canonical k \<Longrightarrow> get s k = Some a \<Longrightarrow> account_ok a"
    and put_total: "wf (Suc n) s \<Longrightarrow> is_canonical k \<Longrightarrow> account_ok a \<Longrightarrow>
      \<exists>out s'. put s k a = Some (out, s') \<and> wf n s'"
    and put_stored: "wf (Suc n) s \<Longrightarrow> is_canonical k \<Longrightarrow> account_ok a \<Longrightarrow>
      put s k a = Some (Stored, s') \<Longrightarrow> is_canonical k' \<Longrightarrow>
      get s' k' = (if k' = k then Some a else get s k')"
    and put_kept: "wf (Suc n) s \<Longrightarrow> is_canonical k \<Longrightarrow> account_ok a \<Longrightarrow>
      put s k a = Some (out, s') \<Longrightarrow> out \<noteq> Stored \<Longrightarrow> is_canonical k' \<Longrightarrow> get s' k' = get s k'"

text \<open>The sum of all balances, and the states in which no account is in debt.\<close>

definition acct_bal :: "AccountState option \<Rightarrow> int" where
  "acct_bal a = (case a of None \<Rightarrow> 0 | Some x \<Rightarrow> balance x)"

definition money :: "('s \<Rightarrow> fe \<Rightarrow> AccountState option) \<Rightarrow> 's \<Rightarrow> int" where
  "money get s = (\<Sum>k | is_canonical k. acct_bal (get s k))"

definition solvent :: "('s \<Rightarrow> fe \<Rightarrow> AccountState option) \<Rightarrow> 's \<Rightarrow> bool" where
  "solvent get s \<longleftrightarrow> (\<forall>k a. is_canonical k \<longrightarrow> get s k = Some a \<longrightarrow> \<not> bal_sign a)"

text \<open>Whether one of the updates of a transaction, or of a batch, stops early.\<close>

definition put_shorts :: "('s \<Rightarrow> fe \<Rightarrow> AccountState \<Rightarrow> (put_outcome \<times> 's) option)
    \<Rightarrow> 's \<Rightarrow> fe \<Rightarrow> AccountState \<Rightarrow> bool" where
  "put_shorts put s k a = (case put s k a of Some (out, _) \<Rightarrow> out = Shorted | None \<Rightarrow> False)"

definition store_shorts :: "('s \<Rightarrow> fe \<Rightarrow> AccountState option)
    \<Rightarrow> ('s \<Rightarrow> fe \<Rightarrow> AccountState \<Rightarrow> (put_outcome \<times> 's) option) \<Rightarrow> 's \<Rightarrow> Transaction \<Rightarrow> bool" where
  "store_shorts get put s tx =
     (let self = same_key (sender_key tx) (recipient_key tx)
      in case apply_rules tx (rule_input (get s (sender_key tx)) (get s (recipient_key tx)) self)
                zero_account zero_account of
           (verdict, s_new, r_new) \<Rightarrow> verdict = OK \<and>
             (put_shorts put s (sender_key tx) s_new \<or>
              (\<not> self \<and> (case put s (sender_key tx) s_new of
                  None \<Rightarrow> False
                | Some (_, s1) \<Rightarrow> put_shorts put s1 (recipient_key tx) r_new))))"

fun batch_shorts :: "('s \<Rightarrow> fe \<Rightarrow> AccountState option)
    \<Rightarrow> ('s \<Rightarrow> fe \<Rightarrow> AccountState \<Rightarrow> (put_outcome \<times> 's) option) \<Rightarrow> 's \<Rightarrow> Transaction list \<Rightarrow> bool" where
  "batch_shorts get put s [] = False"
| "batch_shorts get put s (tx # q) =
     (store_shorts get put s tx \<or>
      (case store_tx get put s tx of None \<Rightarrow> False | Some (_, s') \<Rightarrow> batch_shorts get put s' q))"

lemma finite_canonical: "finite {k. is_canonical k}"
proof (rule finite_imageD)
  show "finite (fe_val ` {k. is_canonical k})"
    by (rule finite_subset [of _ "{..<pallas_p}"]) (auto simp: is_canonical_iff)
  show "inj_on fe_val {k. is_canonical k}" using fe_val_inj by (auto intro: inj_onI)
qed

lemma money_cong: "(\<And>k. is_canonical k \<Longrightarrow> get s' k = get s k) \<Longrightarrow> money get s' = money get s"
  unfolding money_def by (rule sum.cong) simp_all

lemma money_update:
  assumes "is_canonical k0" and "\<And>k. is_canonical k \<Longrightarrow> get s' k = (if k = k0 then Some a else get s k)"
  shows "money get s' = money get s - acct_bal (get s k0) + balance a"
proof -
  have k0: "k0 \<in> {k. is_canonical k}" using assms(1) by simp
  have "money get s' = acct_bal (get s' k0) + (\<Sum>k\<in>{k. is_canonical k} - {k0}. acct_bal (get s' k))"
    unfolding money_def by (rule sum.remove [OF finite_canonical k0])
  also have "(\<Sum>k\<in>{k. is_canonical k} - {k0}. acct_bal (get s' k))
      = (\<Sum>k\<in>{k. is_canonical k} - {k0}. acct_bal (get s k))"
    by (rule sum.cong) (simp_all add: assms(2))
  also have "\<dots> = money get s - acct_bal (get s k0)"
    unfolding money_def using sum.remove [OF finite_canonical k0, of "\<lambda>k. acct_bal (get s k)"] by simp
  finally show ?thesis using assms(2) [OF assms(1)] by (simp add: acct_bal_def)
qed

lemma solvent_update:
  assumes "solvent get s" and "\<not> bal_sign a"
    and "\<And>k. is_canonical k \<Longrightarrow> get s' k = (if k = k0 then Some a else get s k)"
  shows "solvent get s'"
  using assms by (auto simp: solvent_def split: if_splits)

lemma same_key_iff: "is_canonical a \<Longrightarrow> is_canonical b \<Longrightarrow> same_key a b \<longleftrightarrow> a = b"
  by (simp add: same_key_def fe_to_canonical_inj)

lemma account_ok_leq:
  "\<not> bal_sign a \<Longrightarrow> unat (bal_mag a) \<le> unat (bal_mag b) \<Longrightarrow> account_ok b \<Longrightarrow> flags a = flags b \<Longrightarrow> account_ok a"
  by (auto simp: account_ok_bal word_le_nat_alt)

text \<open>The accounts an accepted transaction writes can always be encoded.\<close>

lemma apply_rules_account_ok:
  assumes "apply_rules tx (rule_input (Some a) r self) so ro = (OK, s', r')" and "account_ok a"
    and "\<And>b. r = Some b \<Longrightarrow> account_ok b"
  shows "account_ok s'" and "\<not> self \<Longrightarrow> account_ok r'"
proof -
  note s = apply_rules_OK [OF assms(1)]
  show "account_ok s'"
    by (rule account_ok_leq [OF s(5) _ assms(2)]) (use s in \<open>simp_all add: rule_input_def\<close>)
  assume "\<not> self"
  then have "\<not> self_transfer (rule_input (Some a) r self)" by (simp add: rule_input_def)
  from apply_rules_OK_recipient [OF assms(1) this]
  show "account_ok r'" using assms(3) by (cases r) (auto simp: account_ok_bal rule_input_def)
qed

text \<open>The two balances an accepted transaction writes differ from the old ones by the fee.\<close>

lemma apply_rules_money:
  assumes "apply_rules tx (rule_input (Some a) r self) so ro = (OK, s', r')"
    and "\<And>b. r = Some b \<Longrightarrow> \<not> bal_sign b"
  shows "balance s' = balance a - int (unat (fee tx)) - (if self then 0 else int (unat (amount tx)))"
    and "\<not> self \<Longrightarrow> balance r' = acct_bal r + int (unat (amount tx))"
proof -
  note s = apply_rules_OK [OF assms(1)]
  show "balance s' = balance a - int (unat (fee tx)) - (if self then 0 else int (unat (amount tx)))"
    using s by (auto simp: balance_def rule_input_def)
  assume "\<not> self"
  then have "\<not> self_transfer (rule_input (Some a) r self)" by (simp add: rule_input_def)
  from apply_rules_OK_recipient [OF assms(1) this]
  show "balance r' = acct_bal r + int (unat (amount tx))"
    using assms(2) by (cases r) (simp_all add: balance_def acct_bal_def rule_input_def)
qed

context account_store
begin

text \<open>One transaction: it always returns, and the state stays well formed.\<close>

lemma put_obtain:
  assumes "wf (Suc n) s" and "is_canonical k" and "account_ok a"
  obtains out s' where "put s k a = Some (out, s')" and "wf n s'"
  using put_total [OF assms] by blast

lemma get_put:
  assumes "wf (Suc n) s" and "is_canonical k" and "account_ok a" and "put s k a = Some (out, s')"
    and "is_canonical k'"
  shows "get s' k' = (if out = Stored \<and> k' = k then Some a else get s k')"
  using assms put_stored put_kept by (cases "out = Stored") auto

text \<open>The run of an accepted transaction, update by update.\<close>

lemma store_tx_run:
  assumes w: "wf (Suc (Suc n)) s" and c: "keys_canonical tx"
    and r: "apply_rules tx (rule_input (get s (sender_key tx)) (get s (recipient_key tx)) self)
      zero_account zero_account = (OK, sn, rn)"
    and self: "self = same_key (sender_key tx) (recipient_key tx)"
  obtains a o1 s1 where "get s (sender_key tx) = Some a" and "account_ok sn"
    and "put s (sender_key tx) sn = Some (o1, s1)" and "wf (Suc n) s1"
    and "store_tx get put s tx =
      (if o1 = Refused then Some (MALFORMED, s)
       else if self then Some (OK, s1)
       else (case put s1 (recipient_key tx) rn of
               None \<Rightarrow> None
             | Some (o2, s2) \<Rightarrow> if o2 = Refused then Some (MALFORMED, s1) else Some (OK, s2)))"
    and "\<not> self \<longrightarrow> account_ok rn"
proof -
  have can: "is_canonical (sender_key tx)" "is_canonical (recipient_key tx)"
    using c by (auto simp: keys_canonical_def)
  have "sender_found (rule_input (get s (sender_key tx)) (get s (recipient_key tx)) self)"
    using apply_rules_OK(1) [OF r] .
  then obtain a where a: "get s (sender_key tx) = Some a" by (auto simp: rule_input_def)
  note r' = r [unfolded a]
  have "account_ok a" using get_ok [OF w can(1) a] .
  moreover have "account_ok b" if "get s (recipient_key tx) = Some b" for b
    using get_ok [OF w can(2) that] .
  ultimately have ok: "account_ok sn" "\<not> self \<Longrightarrow> account_ok rn"
    using apply_rules_account_ok [OF r'] by auto
  obtain o1 s1 where p: "put s (sender_key tx) sn = Some (o1, s1)" "wf (Suc n) s1"
    using put_obtain [OF w can(1) ok(1)] .
  have "store_tx get put s tx =
      (if o1 = Refused then Some (MALFORMED, s)
       else if self then Some (OK, s1)
       else (case put s1 (recipient_key tx) rn of
               None \<Rightarrow> None
             | Some (o2, s2) \<Rightarrow> if o2 = Refused then Some (MALFORMED, s1) else Some (OK, s2)))"
    unfolding store_tx_def Let_def r [unfolded self] self by (simp add: p(1))
  then show thesis using that [OF a ok(1) p] ok(2) by blast
qed

lemma store_tx_total:
  assumes w: "wf (Suc (Suc n)) s" and c: "keys_canonical tx"
  obtains st s' where "store_tx get put s tx = Some (st, s')" and "wf n s'"
proof -
  have can: "is_canonical (recipient_key tx)" using c by (simp add: keys_canonical_def)
  let ?self = "same_key (sender_key tx) (recipient_key tx)"
  obtain vd sn rn where r: "apply_rules tx (rule_input (get s (sender_key tx)) (get s (recipient_key tx)) ?self)
      zero_account zero_account = (vd, sn, rn)" by (metis prod_cases3)
  show thesis
  proof (cases "vd = OK")
    case False
    then have "store_tx get put s tx = Some (vd, s)" using r by (simp add: store_tx_def Let_def)
    then show thesis using that wf_Suc [OF wf_Suc [OF w]] by blast
  next
    case True
    from store_tx_run [OF w c r [unfolded True] refl]
    obtain o1 s1 where run: "wf (Suc n) s1"
      and run2: "store_tx get put s tx =
      (if o1 = Refused then Some (MALFORMED, s)
       else if ?self then Some (OK, s1)
       else (case put s1 (recipient_key tx) rn of
               None \<Rightarrow> None
             | Some (o2, s2) \<Rightarrow> if o2 = Refused then Some (MALFORMED, s1) else Some (OK, s2)))"
      and okr: "\<not> ?self \<longrightarrow> account_ok rn"
      by blast
    note w0 = wf_Suc [OF wf_Suc [OF w]] and w1 = wf_Suc [OF run(1)]
    show thesis
    proof (cases "o1 = Refused \<or> ?self")
      case True
      then show thesis using that run2 w0 w1 by (cases "o1 = Refused") auto
    next
      case False
      then obtain o2 s2 where "put s1 (recipient_key tx) rn = Some (o2, s2)" "wf n s2"
        using put_obtain [OF run(1) can] okr by blast
      then show thesis
        using that run2 False w1 by (cases "o2 = Refused") auto
    qed
  qed
qed

text \<open>
  Money: without an early stop a transaction removes its fee, and a transaction that fails after
  its debit removes fee and amount; nothing is created and no account falls into debt.
\<close>

lemma store_tx_money:
  assumes w: "wf (Suc (Suc n)) s" and c: "keys_canonical tx" and sol: "solvent get s"
    and run: "store_tx get put s tx = Some (st, s')" and ns: "\<not> store_shorts get put s tx"
  shows "solvent get s'"
    and "money get s' = money get s - (if st = OK then int (unat (fee tx)) else 0)
      \<or> (st = MALFORMED \<and> money get s' = money get s - int (unat (amount tx)) - int (unat (fee tx)))"
proof -
  have can: "is_canonical (sender_key tx)" "is_canonical (recipient_key tx)"
    using c by (simp_all add: keys_canonical_def)
  let ?self = "same_key (sender_key tx) (recipient_key tx)"
  have se: "?self \<longleftrightarrow> sender_key tx = recipient_key tx" using can by (rule same_key_iff)
  obtain vd sn rn where r: "apply_rules tx (rule_input (get s (sender_key tx)) (get s (recipient_key tx)) ?self)
      zero_account zero_account = (vd, sn, rn)" by (metis prod_cases3)
  have "solvent get s' \<and> (money get s' = money get s - (if st = OK then int (unat (fee tx)) else 0)
      \<or> (st = MALFORMED \<and> money get s' = money get s - int (unat (amount tx)) - int (unat (fee tx))))"
  proof (cases "vd = OK")
    case False
    then have "st \<noteq> OK" "s' = s" using r run by (auto simp: store_tx_def Let_def)
    then show ?thesis using sol by simp
  next
    case True
    note r = r [unfolded True]
    from store_tx_run [OF w c r refl]
    obtain a o1 s1 where a: "get s (sender_key tx) = Some a" and okn: "account_ok sn"
      and p1: "put s (sender_key tx) sn = Some (o1, s1)" and w1: "wf (Suc n) s1"
      and e: "store_tx get put s tx =
      (if o1 = Refused then Some (MALFORMED, s)
       else if ?self then Some (OK, s1)
       else (case put s1 (recipient_key tx) rn of
               None \<Rightarrow> None
             | Some (o2, s2) \<Rightarrow> if o2 = Refused then Some (MALFORMED, s1) else Some (OK, s2)))"
      and okr: "\<not> ?self \<longrightarrow> account_ok rn" by blast
    have ns1: "o1 \<noteq> Shorted" using ns r p1 by (auto simp: store_shorts_def put_shorts_def Let_def)
    have rsol: "\<not> bal_sign b" if "get s (recipient_key tx) = Some b" for b
      using sol can(2) that by (auto simp: solvent_def)
    note mon = apply_rules_money [OF r [unfolded a] rsol]
    note sgn = apply_rules_OK(5) [OF r]
    have g1: "get s1 k = (if o1 = Stored \<and> k = sender_key tx then Some sn else get s k)"
      if "is_canonical k" for k
      using get_put [OF w can(1) okn p1 that] .
    show ?thesis
    proof (cases "o1 = Refused")
      case True
      then show ?thesis using e run sol by simp
    next
      case False
      then have st1: "o1 = Stored" using ns1 by (cases o1) simp_all
      have g1': "\<And>k. is_canonical k \<Longrightarrow> get s1 k = (if k = sender_key tx then Some sn else get s k)"
        using g1 st1 by simp
      have m1: "money get s1 = money get s - balance a + balance sn"
        using money_update [OF can(1) g1'] a by (simp add: acct_bal_def)
      have sol1: "solvent get s1" using solvent_update [OF sol sgn g1'] .
      show ?thesis
      proof (cases ?self)
        case True
        then have "st = OK" "s' = s1" using e False run by auto
        then show ?thesis using True m1 mon(1) sol1 by simp
      next
        case nself: False
        obtain o2 s2 where p2: "put s1 (recipient_key tx) rn = Some (o2, s2)" "wf n s2"
          using put_obtain [OF w1 can(2)] okr nself by blast
        have run2: "Some (st, s') = Some (if o2 = Refused then (MALFORMED, s1) else (OK, s2))"
          using e False nself p2(1) run by simp
        show ?thesis
        proof (cases "o2 = Refused")
          case True
          then show ?thesis using run2 m1 mon(1) nself sol1 by simp
        next
          case nref: False
          have "o2 \<noteq> Shorted" using ns r p1 p2 nself by (auto simp: store_shorts_def put_shorts_def Let_def)
          then have st2: "o2 = Stored" using nref by (cases o2) simp_all
          have g2: "\<And>k. is_canonical k \<Longrightarrow> get s2 k = (if k = recipient_key tx then Some rn else get s1 k)"
            using get_put [OF w1 can(2) _ p2(1)] okr nself st2 by simp
          have "get s1 (recipient_key tx) = get s (recipient_key tx)" using g1' can nself se by auto
          then have m2: "money get s2 = money get s1 - acct_bal (get s (recipient_key tx)) + balance rn"
            using money_update [OF can(2) g2] by simp
          have "\<not> self_transfer (rule_input (get s (sender_key tx)) (get s (recipient_key tx)) ?self)"
            using nself by (simp add: rule_input_def)
          then have "\<not> bal_sign rn" using apply_rules_OK_recipient(1) [OF r] by simp
          then have "solvent get s2" using solvent_update [OF sol1 _ g2] by simp
          then show ?thesis using run2 nref m1 m2 mon nself by simp
        qed
      qed
    qed
  qed
  then show "solvent get s'"
    and "money get s' = money get s - (if st = OK then int (unat (fee tx)) else 0)
      \<or> (st = MALFORMED \<and> money get s' = money get s - int (unat (amount tx)) - int (unat (fee tx)))"
    by auto
qed

text \<open>Replay: an executed transaction is refused in the state it leaves.\<close>

lemma store_tx_replay:
  assumes w: "wf (Suc (Suc n)) s" and c: "keys_canonical tx"
    and run: "store_tx get put s tx = Some (OK, s')" and ns: "\<not> store_shorts get put s tx"
  shows "store_tx get put s' tx = Some (INVALID_NONCE, s')"
proof -
  have can: "is_canonical (sender_key tx)" "is_canonical (recipient_key tx)"
    using c by (simp_all add: keys_canonical_def)
  let ?self = "same_key (sender_key tx) (recipient_key tx)"
  have se: "?self \<longleftrightarrow> sender_key tx = recipient_key tx" using can by (rule same_key_iff)
  obtain vd sn rn where r: "apply_rules tx (rule_input (get s (sender_key tx)) (get s (recipient_key tx)) ?self)
      zero_account zero_account = (vd, sn, rn)" by (metis prod_cases3)
  then have "vd = OK" using run by (auto simp: store_tx_def Let_def split: if_splits)
  note r = r [unfolded this]
  from store_tx_run [OF w c r refl]
  obtain a o1 s1 where okn: "account_ok sn"
    and p1: "put s (sender_key tx) sn = Some (o1, s1)" and w1: "wf (Suc n) s1"
    and e: "store_tx get put s tx =
      (if o1 = Refused then Some (MALFORMED, s)
       else if ?self then Some (OK, s1)
       else (case put s1 (recipient_key tx) rn of
               None \<Rightarrow> None
             | Some (o2, s2) \<Rightarrow> if o2 = Refused then Some (MALFORMED, s1) else Some (OK, s2)))"
    and okr: "\<not> ?self \<longrightarrow> account_ok rn" by blast
  have "o1 \<noteq> Shorted" using ns r p1 by (auto simp: store_shorts_def put_shorts_def Let_def)
  moreover have "o1 \<noteq> Refused" using e run by auto
  ultimately have "o1 = Stored" by (cases o1) simp_all
  then have g1: "get s1 (sender_key tx) = Some sn" using get_put [OF w can(1) okn p1 can(1)] by simp
  have "get s' (sender_key tx) = Some sn"
  proof (cases ?self)
    case True
    then show ?thesis using e run \<open>o1 \<noteq> Refused\<close> g1 by simp
  next
    case False
    then obtain o2 where "put s1 (recipient_key tx) rn = Some (o2, s')"
      using e run \<open>o1 \<noteq> Refused\<close> by (auto split: option.splits if_splits)
    then show ?thesis using get_put [OF w1 can(2) _ _ can(1)] okr False se g1 by simp
  qed
  moreover have "nonce sn = tx_nonce tx" using apply_rules_OK(2,6) [OF r] by simp
  ultimately show ?thesis
    by (simp add: store_tx_def rule_input_def apply_rules_def Let_def)
qed

text \<open>A batch of \<open>k\<close> transactions in a state with room for \<open>2 k\<close> updates.\<close>

lemma store_batch_money:
  assumes "wf (2 * length q + n) s" and "\<forall>t\<in>set q. keys_canonical t" and "solvent get s"
    and "\<not> batch_shorts get put s q"
  shows "\<exists>s' ex sts. store_batch get put s q = Some (s', ex, sts) \<and> wf n s' \<and> solvent get s'
    \<and> length sts = length q
    \<and> money get s' \<le> money get s - (\<Sum>t\<leftarrow>ex. int (unat (fee t)))
    \<and> (MALFORMED \<notin> set sts \<longrightarrow> money get s' = money get s - (\<Sum>t\<leftarrow>ex. int (unat (fee t))))"
  using assms
proof (induction q arbitrary: s)
  case (Cons tx q)
  have w: "wf (Suc (Suc (2 * length q + n))) s" and c: "keys_canonical tx" using Cons.prems by simp_all
  obtain st s1 where one: "store_tx get put s tx = Some (st, s1)" and w1: "wf (2 * length q + n) s1"
    using store_tx_total [OF w c] .
  have ns: "\<not> store_shorts get put s tx" "\<not> batch_shorts get put s1 q" using Cons.prems(4) one by simp_all
  note m = store_tx_money [OF w c Cons.prems(3) one ns(1)]
  obtain s' ex sts where rest: "store_batch get put s1 q = Some (s', ex, sts)" "wf n s'" "solvent get s'"
    "length sts = length q" "money get s' \<le> money get s1 - (\<Sum>t\<leftarrow>ex. int (unat (fee t)))"
    "MALFORMED \<notin> set sts \<longrightarrow> money get s' = money get s1 - (\<Sum>t\<leftarrow>ex. int (unat (fee t)))"
    using Cons.IH [OF w1 _ m(1) ns(2)] Cons.prems(2) by auto
  have "store_batch get put s (tx # q) = Some (s', if st = OK then tx # ex else ex, st # sts)"
    using one rest by simp
  moreover have fees: "0 \<le> int (unat (amount tx))" "0 \<le> int (unat (fee tx))" by simp_all
  moreover have "money get s1 \<le> money get s - (if st = OK then int (unat (fee tx)) else 0)"
    using m(2)
  proof (elim disjE conjE)
    assume "st = MALFORMED" and "money get s1 = money get s - int (unat (amount tx)) - int (unat (fee tx))"
    moreover from this(1) have "(if st = OK then int (unat (fee tx)) else 0) = 0" by simp
    ultimately show ?thesis using fees by linarith
  qed linarith
  moreover have "st \<noteq> MALFORMED \<Longrightarrow> money get s1 = money get s - (if st = OK then int (unat (fee tx)) else 0)"
    using m(2) by auto
  ultimately show ?case using rest by (intro exI [of _ s']) auto
qed simp

end

subsection \<open>The sparse Merkle tree is an account store\<close>

definition smt_wf :: "nat \<Rightarrow> Vault \<times> Handle \<Rightarrow> bool" where
  "smt_wf n s \<longleftrightarrow> tree (fst s) 64 (snd s) \<and> room (fst s) (66 * n)"

lemma smt_put_cases:
  assumes "smt_wf (Suc n) s" and "is_canonical k" and "account_ok a"
  obtains (refused) "leaf_conflict (fst s) (snd s) k" "smt_put s k a = Some (Refused, s)"
  | (updated) out s' r v' where "\<not> leaf_conflict (fst s) (snd s) k" "smt_put s k a = Some (out, s')"
      "s' = (v', new_root r)" "out = (if root_unchanged r then Shorted else Stored)"
      "updated (fst s) (snd s) k a r v'" "smt_wf n s'"
proof (cases "leaf_conflict (fst s) (snd s) k")
  case True
  then show thesis using refused set_account_conflict [OF assms(3) True] by (simp add: smt_put_def)
next
  case False
  have "room (fst s) (66 + 66 * n)" using assms(1) by (simp add: smt_wf_def)
  then obtain r v' where r: "set_account (fst s) (snd s) k a = Some (r, v')"
    "updated (fst s) (snd s) k a r v'" "room v' (66 * n)"
    using set_account_updated [OF _ _ assms(2,3) False] assms(1) by (metis smt_wf_def)
  then have "\<not> fault (stats r)" "tree v' 64 (new_root r)" by (simp_all add: updated_def)
  then have "smt_put s k a = Some (if root_unchanged r then Shorted else Stored, (v', new_root r))"
    "smt_wf n (v', new_root r)"
    using r(1,3) by (simp_all add: smt_put_def smt_wf_def)
  then show thesis by (intro updated [OF False _ refl refl r(2)])
qed

lemma smt_put_get:
  assumes "smt_wf (Suc n) s" and "is_canonical k" and "account_ok a" and "smt_put s k a = Some (out, s')"
    and "is_canonical k'"
  shows "smt_get s' k' = (if out = Stored \<and> k' = k then Some a else smt_get s k')"
  using assms(1-3)
proof (cases rule: smt_put_cases)
  case refused
  then show ?thesis using assms(4) by auto
next
  case (updated out1 s1 r v1)
  have "tree (fst s) 64 (snd s)" using assms(1) by (simp add: smt_wf_def)
  moreover have "extends (fst s) v1" using updated(5) unfolding updated_def by blast
  ultimately have "lookup_account v1 (snd s) k' = lookup_account (fst s) (snd s) k'"
    by (rule lookup_account_extends)
  moreover have "root_unchanged r \<Longrightarrow> new_root r = snd s"
    "\<not> root_unchanged r \<Longrightarrow> lookup_account v1 (new_root r) k' =
       (if k' = k then Some a else lookup_account (fst s) (snd s) k')"
    using updated(5) assms(5) unfolding updated_def by blast+
  moreover have "s' = (v1, new_root r)" "out = (if root_unchanged r then Shorted else Stored)"
    using updated(2-4) assms(4) by simp_all
  ultimately show ?thesis by (cases "root_unchanged r") (simp_all add: smt_get_def)
qed

interpretation smt: account_store smt_wf smt_get smt_put
proof
  show "smt_wf n s" if "smt_wf (Suc n) s" for n s
    using that by (auto simp: smt_wf_def room_def)
  show "account_ok a" if "smt_wf n s" "is_canonical k" "smt_get s k = Some a" for n s k a
    using that by (auto simp: smt_wf_def smt_get_def intro: lookup_account_ok)
  show "\<exists>out s'. smt_put s k a = Some (out, s') \<and> smt_wf n s'"
    if "smt_wf (Suc n) s" "is_canonical k" "account_ok a" for n s k a
    using that
  proof (cases rule: smt_put_cases)
    case refused
    then show ?thesis using that(1) by (auto simp: smt_wf_def room_def)
  qed blast
qed (simp_all add: smt_put_get)

subsection \<open>The zero key\<close>

text \<open>The row of a spine that holds the parent of the leaf.\<close>

lemma spine_first_row:
  obtains m rest where "spine v (Suc n) ix h =
      \<lparr>r_mid = m, r_sib = sib_of v 0 ix m, r_sib_hash = node_hash v 0 (sib_of v 0 ix m)\<rparr> # rest"
    and "tree v (Suc n) h \<Longrightarrow> tree v (Suc 0) m"
    and "\<And>j. (\<And>b. 0 < b \<Longrightarrow> b \<le> n \<Longrightarrow> bit j b = bit ix b) \<Longrightarrow> leaf_at v (Suc n) j h = leaf_at v (Suc 0) j m"
proof -
  have "\<exists>m rest. spine v (Suc n) ix h =
      \<lparr>r_mid = m, r_sib = sib_of v 0 ix m, r_sib_hash = node_hash v 0 (sib_of v 0 ix m)\<rparr> # rest
    \<and> (tree v (Suc n) h \<longrightarrow> tree v (Suc 0) m)
    \<and> (\<forall>j. (\<forall>b. 0 < b \<and> b \<le> n \<longrightarrow> bit j b = bit ix b) \<longrightarrow> leaf_at v (Suc n) j h = leaf_at v (Suc 0) j m)"
  proof (induction n arbitrary: h)
    case 0
    have "spine v (Suc 0) ix h =
        [\<lparr>r_mid = h, r_sib = sib_of v 0 ix h, r_sib_hash = node_hash v 0 (sib_of v 0 ix h)\<rparr>]"
      unfolding spine_step by simp
    then show ?case by blast
  next
    case (Suc n)
    let ?nx = "next_of v (Suc n) ix h"
    obtain m rest where ih: "spine v (Suc n) ix ?nx =
        \<lparr>r_mid = m, r_sib = sib_of v 0 ix m, r_sib_hash = node_hash v 0 (sib_of v 0 ix m)\<rparr> # rest"
      "tree v (Suc n) ?nx \<longrightarrow> tree v (Suc 0) m"
      "\<forall>j. (\<forall>b. 0 < b \<and> b \<le> n \<longrightarrow> bit j b = bit ix b) \<longrightarrow> leaf_at v (Suc n) j ?nx = leaf_at v (Suc 0) j m"
      using Suc.IH [of ?nx] by blast
    have c: "leaf_at v (Suc (Suc n)) j h = leaf_at v (Suc 0) j m"
      if "\<forall>b. 0 < b \<and> b \<le> Suc n \<longrightarrow> bit j b = bit ix b" for j
    proof -
      have "bit j (Suc n) = bit ix (Suc n)" using that by blast
      then have "next_of v (Suc n) j h = ?nx" unfolding next_of_def by simp
      moreover have "leaf_at v (Suc n) j ?nx = leaf_at v (Suc 0) j m" using ih(3) that by (metis le_Suc_eq)
      ultimately show ?thesis unfolding leaf_at_step [of v "Suc n" j h] by metis
    qed
    have b: "tree v (Suc (Suc n)) h \<longrightarrow> tree v (Suc 0) m"
      using ih(2) tree_step(1) [of v "Suc n" h ix] by blast
    obtain rest' where a: "spine v (Suc (Suc n)) ix h =
        \<lparr>r_mid = m, r_sib = sib_of v 0 ix m, r_sib_hash = node_hash v 0 (sib_of v 0 ix m)\<rparr> # rest'"
      unfolding spine_step [of v "Suc n" ix h] ih(1) by simp
    have c': "\<forall>j. (\<forall>b. 0 < b \<and> b \<le> Suc n \<longrightarrow> bit j b = bit ix b) \<longrightarrow>
        leaf_at v (Suc (Suc n)) j h = leaf_at v (Suc 0) j m"
      using c by (intro allI impI)
    show ?case by (intro exI [of _ m] exI [of _ rest'] conjI a b c')
  qed
  then obtain m rest where r: "spine v (Suc n) ix h =
      \<lparr>r_mid = m, r_sib = sib_of v 0 ix m, r_sib_hash = node_hash v 0 (sib_of v 0 ix m)\<rparr> # rest"
    and t: "tree v (Suc n) h \<longrightarrow> tree v (Suc 0) m"
    and l: "\<forall>j. (\<forall>b. 0 < b \<and> b \<le> n \<longrightarrow> bit j b = bit ix b) \<longrightarrow> leaf_at v (Suc n) j h = leaf_at v (Suc 0) j m"
    by (elim exE conjE)
  show thesis
    by (rule that [OF r]) (use t l in \<open>simp_all del: tree.simps leaf_at.simps\<close>)
qed

lemma fe_zero_raw: "fe_zero = fe_mul (Fe 0 0 0 0) (fe_of_limbs RR)"
  by (rule fe_dec_inj) (simp_all add: canonical_from_raw canonical_small canonical_zero fe_dec_zero fe_dec_raw fe_val_def)

lemma index_of_raw: "is_canonical (Fe a b c d) \<Longrightarrow> index_of (fe_mul (Fe a b c d) (fe_of_limbs RR)) = a"
  by (simp add: index_of_def fe_leave_enter)

lemma index_of_zero: "index_of fe_zero = 0"
  unfolding fe_zero_raw by (rule index_of_raw) (rule canonical_small)

lemma zero_account_ok: "account_ok zero_account"
  by (simp add: account_ok_def zero_account_def)

text \<open>
  The all-zero account of the key zero hashes to the empty leaf: next to a sibling at index one
  it is not stored.
\<close>

lemma encode_zero_account: "encode_payload_bytes zero_account = Some (replicate 32 0)"
proof -
  have "put_bits b 0 lo n = b" for b lo n
    unfolding put_bits_def by (induction n) simp_all
  then show ?thesis by (simp add: encode_payload_bytes_def zero_account_def)
qed

lemma payload_of_zero_account: "payload_of zero_account = fe_zero"
proof -
  have "bytes_to_limbs (replicate 32 0) = [0, 0, 0, 0]"
    by (simp add: bytes_to_limbs_def upt_conv_Cons le_word_zeros)
  moreover have "fe_of_limbs [0, 0, 0, 0] = Fe 0 0 0 0" by (simp add: fe_of_limbs_def)
  ultimately show ?thesis
    by (simp add: payload_of_def encode_zero_account fe_from_le_bytes_def canonical_small fe_zero_raw)
qed

lemma zero_key_not_stored:
  assumes tr: "tree v 64 root" and rm: "room v 66" and nc: "\<not> leaf_conflict v root fe_zero"
    and empty: "leaf_at v 64 0 root = HEMPTY" and sibling: "leaf_at v 64 1 root \<noteq> HEMPTY"
  obtains r v' where "set_account v root fe_zero zero_account = Some (r, v')" and "root_unchanged r"
proof -
  obtain m rest where sp: "spine v (Suc 63) 0 root =
      \<lparr>r_mid = m, r_sib = sib_of v 0 0 m, r_sib_hash = node_hash v 0 (sib_of v 0 0 m)\<rparr> # rest"
    and tm: "tree v (Suc 63) root \<Longrightarrow> tree v (Suc 0) m"
    and lf: "\<And>j. (\<And>b. 0 < b \<Longrightarrow> b \<le> 63 \<Longrightarrow> bit j b = bit (0 :: u64) b) \<Longrightarrow>
      leaf_at v (Suc 63) j root = leaf_at v (Suc 0) j m"
    using spine_first_row [of v 63 0 root] by blast
  have t1: "tree v (Suc 0) m" using tm tr by (simp del: tree.simps)
  have "leaf_at v (Suc 0) 1 m \<noteq> HEMPTY" using sibling lf [of 1] by (simp add: bit_1_iff del: leaf_at.simps)
  then have mne: "m \<noteq> HEMPTY" by auto
  have l0: "next_of v 0 0 m = HEMPTY" using empty lf [of 0] by (simp add: next_of_def del: leaf_at.simps(2)) (simp split: if_splits)
  let ?buf = "replicate 32 0 :: bytes"
  have h: "set_tleaf_hash fe_zero ?buf = empty_table 0"
    using payload_of_zero_account by (simp add: set_tleaf_hash_def payload_of_def encode_zero_account)
  have mh: "entry_hash (entry_at v m) = join 0 0 (node_hash v 0 (sib_of v 0 0 m)) (empty_table 0)"
    using node_hash_step [OF t1, of 0] mne l0 by (simp add: node_hash_def)
  have "room v (Suc (Suc 64))" using rm by simp
  from new_leaf_wf [OF this canonical_zero encode_zero_account]
  obtain rh v1 th v2 where a: "alloc v (mk_rec (fe_to_canonical fe_zero) ?buf) = Some (rh, v1)"
      "alloc v1 (mk_tleaf rh (set_tleaf_hash fe_zero ?buf)) = Some (th, v2)" and x: "extends v v2"
      and ne: "th \<noteq> HEMPTY" by metis
  have "entry_at v2 m = entry_at v m" using x mne tree_live [OF t1] by (auto simp: extends_entry)
  then show thesis
    using that set_account_unfold [OF encode_zero_account, of v root fe_zero] nc empty a ne sp mne mh h
    by (simp add: index_of_zero Let_def join_def)
qed

end
