(* ===== verification/Fold.thy ===== *)
theory Fold
  imports Ledger
begin

text \<open>
  The fold: \<open>src/include/hsma/fold.hpp\<close> (head, execution and close steps over decree entries),
  \<open>nivc.hpp\<close> (the constant-size accumulator) and \<open>ccs.hpp\<close> (the per-entry constraints and the
  program-counter matrix). The lemmas relate an executed entry to the mempool's transaction
  step and to the constraints, and describe the digest and the counter an epoch ends with.
\<close>

subsection \<open>fold.hpp\<close>

datatype Status = EXEC | SKIP_USER | PAD

datatype Verdict =
  OK_EXEC | OK_SKIP | PAD_NEUTRAL | REJECT_BINDING | REJECT_NONCE | REJECT_INSOLVENT | REJECT_PC

record DecreeEntry =
  e_sender :: fe
  e_recipient :: fe
  pt_hash :: fe
  e_amount :: u128
  e_fee :: u128
  e_nonce :: u64
  status :: Status

record FoldState =
  state_root :: Handle
  digest :: fe

definition u128_to_fe :: "u128 \<Rightarrow> fe" where
  "u128_to_fe v = fe_from_canonical_limbs [ucast v, ucast (drop_bit 64 v), 0, 0]"

definition pt_hash_of :: "u128 \<Rightarrow> u128 \<Rightarrow> u64 \<Rightarrow> fe" where
  "pt_hash_of amt f n =
     (let e1 = u128_to_fe amt;
          e2 = u128_to_fe (push_bit 64 f OR ucast n)
      in poseidon3 HSM_PT_v1 e1 e2)"

definition f_head :: "fe \<Rightarrow> fe \<Rightarrow> fe" where
  "f_head prev_digest decree_root = poseidon3 HSM_FOLD_v1 prev_digest decree_root"

definition f_close :: "fe \<Rightarrow> u64 \<Rightarrow> fe" where
  "f_close d cnt = poseidon3 HSM_FOLD_v1 d (fe_from_u64 cnt)"

definition entry_tx :: "DecreeEntry \<Rightarrow> Transaction" where
  "entry_tx e = \<lparr>sender_key = e_sender e, recipient_key = e_recipient e, amount = e_amount e,
     fee = e_fee e, tx_nonce = e_nonce e\<rparr>"

text \<open>The burn of a skipped entry: a quarter of the fee, at most the balance.\<close>

definition skip_burn :: "DecreeEntry \<Rightarrow> AccountState \<Rightarrow> AccountState" where
  "skip_burn e s =
     (let burn = (e_fee e * 25) div 100
      in s\<lparr>bal_mag := bal_mag s - (if burn < bal_mag s then burn else bal_mag s), bal_sign := False\<rparr>)"

text \<open>The tail of \<open>f_exec\<close> behind the gates: the rules, the two updates, the digest.\<close>

definition exec_tail :: "Vault \<Rightarrow> FoldState \<Rightarrow> DecreeEntry \<Rightarrow> AccountState
    \<Rightarrow> (Verdict \<times> Vault \<times> FoldState) option" where
  "exec_tail v fs e s =
     (let rf = lookup_account v (state_root fs) (e_recipient e);
          self = same_key (e_sender e) (e_recipient e)
      in case apply_rules (entry_tx e) (rule_input (Some s) rf self) zero_account zero_account of
           (vd, s_new, r_new) \<Rightarrow>
             if vd \<noteq> OK then Some (REJECT_INSOLVENT, v, fs)
             else case set_account v (state_root fs) (e_sender e) s_new of
               None \<Rightarrow> None
             | Some (rs, v1) \<Rightarrow>
                 if fault (stats rs) then Some (REJECT_INSOLVENT, v1, fs)
                 else
                   let fs1 = fs\<lparr>state_root := new_root rs\<rparr>
                   in if self then
                        Some (OK_EXEC, v1, fs1\<lparr>digest := poseidon3 HSM_FOLD_v1 (digest fs1) (pt_hash e)\<rparr>)
                      else case set_account v1 (state_root fs1) (e_recipient e) r_new of
                        None \<Rightarrow> None
                      | Some (rr, v2) \<Rightarrow>
                          if fault (stats rr) then Some (REJECT_INSOLVENT, v2, fs1)
                          else Some (OK_EXEC, v2,
                                 fs1\<lparr>state_root := new_root rr,
                                     digest := poseidon3 HSM_FOLD_v1 (digest fs1) (pt_hash e)\<rparr>))"

definition f_exec :: "Vault \<Rightarrow> FoldState \<Rightarrow> DecreeEntry \<Rightarrow> (Verdict \<times> Vault \<times> FoldState) option" where
  "f_exec v fs e =
     (if status e = PAD then Some (PAD_NEUTRAL, v, fs)
      else if fe_to_canonical (pt_hash_of (e_amount e) (e_fee e) (e_nonce e)) \<noteq> fe_to_canonical (pt_hash e)
      then Some (REJECT_BINDING, v, fs)
      else case lookup_account v (state_root fs) (e_sender e) of
        None \<Rightarrow> Some (REJECT_NONCE, v, fs)
      | Some s \<Rightarrow>
          if e_nonce e \<noteq> nonce s + 1 then Some (REJECT_NONCE, v, fs)
          else case add_u128 (e_amount e) (e_fee e) of
            None \<Rightarrow> Some (REJECT_INSOLVENT, v, fs)
          | Some cost \<Rightarrow>
              if bal_sign s \<or> bal_mag s < cost then
                if status e = SKIP_USER then
                  (case set_account v (state_root fs) (e_sender e) (skip_burn e s) of
                     None \<Rightarrow> None
                   | Some (rs, v1) \<Rightarrow>
                       if fault (stats rs) then Some (REJECT_INSOLVENT, v1, fs)
                       else Some (OK_SKIP, v1,
                              fs\<lparr>state_root := new_root rs,
                                 digest := poseidon3 HSM_FOLD_v1 (digest fs) (pt_hash e)\<rparr>))
                else Some (REJECT_INSOLVENT, v, fs)
              else exec_tail v fs e s)"

subsection \<open>nivc.hpp\<close>

record Accumulator =
  acc_digest :: fe
  acc_count :: u64
  acc_pc :: u8

definition ACC_SIZE :: nat where
  "ACC_SIZE = 41"

definition fold_step :: "Vault \<Rightarrow> Accumulator \<Rightarrow> Handle \<Rightarrow> DecreeEntry
    \<Rightarrow> (Verdict \<times> Vault \<times> Accumulator \<times> Handle) option" where
  "fold_step v acc root e =
     (case f_exec v \<lparr>state_root = root, digest = acc_digest acc\<rparr> e of
        None \<Rightarrow> None
      | Some (vd, v', fs) \<Rightarrow>
          Some (vd, v',
                acc\<lparr>acc_digest := digest fs,
                    acc_count := (if vd = OK_EXEC \<or> vd = OK_SKIP then acc_count acc + 1 else acc_count acc)\<rparr>,
                state_root fs))"

definition fold_head :: "Accumulator \<Rightarrow> fe \<Rightarrow> fe \<Rightarrow> Accumulator" where
  "fold_head acc prev droot = acc\<lparr>acc_digest := f_head prev droot, acc_count := 0, acc_pc := 1\<rparr>"

definition fold_close :: "Accumulator \<Rightarrow> Accumulator" where
  "fold_close acc = acc\<lparr>acc_digest := f_close (acc_digest acc) (acc_count acc), acc_pc := 2\<rparr>"

text \<open>The loop of the epoch driver over the entries, with the verdicts.\<close>

fun fold_entries :: "Vault \<Rightarrow> Accumulator \<Rightarrow> Handle \<Rightarrow> DecreeEntry list
    \<Rightarrow> (Verdict list \<times> Vault \<times> Accumulator \<times> Handle) option" where
  "fold_entries v acc root [] = Some ([], v, acc, root)"
| "fold_entries v acc root (e # es) =
     (case fold_step v acc root e of
        None \<Rightarrow> None
      | Some (vd, v', acc', root') \<Rightarrow>
          (case fold_entries v' acc' root' es of
             None \<Rightarrow> None
           | Some (vds, r) \<Rightarrow> Some (vd # vds, r)))"

subsection \<open>ccs.hpp\<close>

definition check_binding :: "DecreeEntry \<Rightarrow> bool" where
  "check_binding e \<longleftrightarrow>
     (let a = limbs (fe_to_canonical (pt_hash_of (e_amount e) (e_fee e) (e_nonce e)));
          b = limbs (fe_to_canonical (pt_hash e))
      in a ! 0 = b ! 0 \<and> a ! 1 = b ! 1 \<and> a ! 2 = b ! 2 \<and> a ! 3 = b ! 3)"

definition check_nonce :: "DecreeEntry \<Rightarrow> AccountState \<Rightarrow> bool" where
  "check_nonce e s \<longleftrightarrow> e_nonce e = nonce s + 1"

definition check_lt :: "DecreeEntry \<Rightarrow> AccountState \<Rightarrow> bool" where
  "check_lt e s \<longleftrightarrow>
     (case add_u128 (e_amount e) (e_fee e) of
        None \<Rightarrow> False
      | Some cost \<Rightarrow> \<not> bal_sign s \<and> cost \<le> bal_mag s)"

datatype Step = HEAD | STEP_EXEC | CLOSE

fun step_val :: "Step \<Rightarrow> nat" where
  "step_val HEAD = 0"
| "step_val STEP_EXEC = 1"
| "step_val CLOSE = 2"

definition PC_MATRIX :: "nat list list" where
  "PC_MATRIX = [[0, 1, 1], [0, 1, 1], [0, 0, 0]]"

definition PC_VALID_COUNT :: nat where
  "PC_VALID_COUNT = 4"

definition PC_INVALID_COUNT :: nat where
  "PC_INVALID_COUNT = 5"

definition pc_valid :: "Step \<Rightarrow> Step \<Rightarrow> bool" where
  "pc_valid a b \<longleftrightarrow> PC_MATRIX ! step_val a ! step_val b \<noteq> 0"

record EntryConstraints =
  entry_index :: nat
  ec_count :: nat
  all_satisfied :: bool

definition evaluate :: "DecreeEntry \<Rightarrow> AccountState \<Rightarrow> EntryConstraints" where
  "evaluate e s =
     (let r = \<lparr>entry_index = 0, ec_count = 0, all_satisfied = True\<rparr>
      in if status e = PAD then r\<lparr>ec_count := 1\<rparr>
         else if \<not> check_binding e then r\<lparr>all_satisfied := False, ec_count := 1\<rparr>
         else if \<not> check_nonce e s then r\<lparr>all_satisfied := False, ec_count := 2\<rparr>
         else if status e = EXEC then
           (if \<not> check_lt e s then r\<lparr>ec_count := 3, all_satisfied := False\<rparr> else r\<lparr>ec_count := 5\<rparr>)
         else if status e = SKIP_USER then r\<lparr>ec_count := 3\<rparr>
         else r\<lparr>ec_count := 2\<rparr>)"

subsection \<open>The gates\<close>

lemma check_binding_iff:
  "check_binding e \<longleftrightarrow>
    fe_to_canonical (pt_hash_of (e_amount e) (e_fee e) (e_nonce e)) = fe_to_canonical (pt_hash e)"
proof -
  have eq: "x ! 0 = y ! 0 \<and> x ! 1 = y ! 1 \<and> x ! 2 = y ! 2 \<and> x ! 3 = y ! 3 \<longleftrightarrow> x = y"
    if "length x = 4" "length y = 4" for x y :: "u64 list"
    using length_4_cases [OF that(1)] length_4_cases [OF that(2)] by auto
  show ?thesis by (simp only: check_binding_def Let_def eq [OF length_limbs length_limbs] limbs_inject)
qed

text \<open>The high half of the fee is lost in the binding: the shift drops it.\<close>

lemma pt_hash_fee_truncated: "pt_hash_of amt (f + push_bit 64 k) n = pt_hash_of amt f n"
proof -
  have "push_bit 64 (push_bit 64 k) = 0" by (simp add: push_bit_push_bit)
  then have "push_bit 64 (f + push_bit 64 k) = push_bit 64 f" by (simp only: push_bit_add add_0_right)
  then show ?thesis by (simp only: pt_hash_of_def)
qed

text \<open>Every entry that changes the digest passed binding and nonce; an executed one was solvent.\<close>

lemma exec_tail_verdict:
  "exec_tail v fs e s = Some (vd, v', fs') \<Longrightarrow> vd = OK_EXEC \<or> (vd = REJECT_INSOLVENT \<and> digest fs' = digest fs)"
  by (auto simp: exec_tail_def Let_def split: prod.splits option.splits if_splits)

lemma exec_tail_digest:
  "exec_tail v fs e s = Some (OK_EXEC, v', fs') \<Longrightarrow> digest fs' = poseidon3 HSM_FOLD_v1 (digest fs) (pt_hash e)"
  by (auto simp: exec_tail_def Let_def split: prod.splits option.splits if_splits)

lemma f_exec_digest:
  assumes "f_exec v fs e = Some (vd, v', fs')"
  shows "digest fs' = (if vd = OK_EXEC \<or> vd = OK_SKIP then poseidon3 HSM_FOLD_v1 (digest fs) (pt_hash e)
    else digest fs)"
  using assms
  by (auto simp: f_exec_def dest: exec_tail_verdict exec_tail_digest split: if_splits option.splits)

lemma check_lt_iff:
  "check_lt e s \<longleftrightarrow> (case add_u128 (e_amount e) (e_fee e) of
     None \<Rightarrow> False | Some cost \<Rightarrow> \<not> (bal_sign s \<or> bal_mag s < cost))"
  by (auto simp: check_lt_def not_less split: option.split)

lemma f_exec_gates:
  assumes run: "f_exec v fs e = Some (vd, v', fs')" and vd: "vd = OK_EXEC \<or> vd = OK_SKIP"
  obtains s where "lookup_account v (state_root fs) (e_sender e) = Some s" and "check_binding e"
    and "check_nonce e s" and "status e \<noteq> PAD" and "vd = OK_EXEC \<longleftrightarrow> check_lt e s"
    and "vd = OK_EXEC \<Longrightarrow> exec_tail v fs e s = Some (vd, v', fs')"
proof -
  obtain s cost where s: "lookup_account v (state_root fs) (e_sender e) = Some s"
    and gates: "status e \<noteq> PAD" "check_binding e" "check_nonce e s"
    and c: "add_u128 (e_amount e) (e_fee e) = Some cost"
    using run vd
    by (auto simp: f_exec_def check_binding_iff check_nonce_def split: if_splits option.splits)
  have b: "fe_to_canonical (pt_hash_of (e_amount e) (e_fee e) (e_nonce e)) = fe_to_canonical (pt_hash e)"
    using gates(2) by (simp only: check_binding_iff)
  show thesis
  proof (cases "check_lt e s")
    case True
    then have "f_exec v fs e = exec_tail v fs e s"
      using s gates b c by (simp add: f_exec_def check_nonce_def check_lt_iff)
    moreover from this have "vd = OK_EXEC" using run vd exec_tail_verdict [of v fs e s vd v' fs'] by auto
    ultimately show thesis using that [OF s gates(2,3,1)] True run by simp
  next
    case False
    then have "vd = OK_SKIP"
      using s gates b c run vd
      by (auto simp: f_exec_def check_nonce_def check_lt_iff split: if_splits option.splits)
    then show thesis using that [OF s gates(2,3,1)] False by simp
  qed
qed

text \<open>Accepted entries satisfy their constraints, and executed entries are mempool transactions.\<close>

lemma f_exec_constraints:
  assumes "f_exec v fs e = Some (vd, v', fs')" and "vd = OK_EXEC \<or> vd = OK_SKIP"
  obtains s where "lookup_account v (state_root fs) (e_sender e) = Some s"
    and "all_satisfied (evaluate e s)"
proof -
  from f_exec_gates [OF assms] obtain s where
    s: "lookup_account v (state_root fs) (e_sender e) = Some s" "check_binding e" "check_nonce e s"
      "vd = OK_EXEC \<longleftrightarrow> check_lt e s" by metis
  have "vd = OK_SKIP \<Longrightarrow> status e = SKIP_USER"
    using assms(1) by (auto simp: f_exec_def dest: exec_tail_verdict split: if_splits option.splits)
  then show thesis using that [OF s(1)] s assms(2) by (auto simp: evaluate_def Let_def)
qed

lemma exec_tail_store_tx:
  assumes "lookup_account v (state_root fs) (e_sender e) = Some s"
    and "exec_tail v fs e s = Some (OK_EXEC, v', fs')"
  shows "store_tx smt_get smt_put (v, state_root fs) (entry_tx e) = Some (OK, (v', state_root fs'))"
  using assms
  by (auto simp: exec_tail_def store_tx_def smt_get_def smt_put_def entry_tx_def Let_def
      split: prod.splits option.splits if_splits)

lemma f_exec_store_tx:
  assumes "f_exec v fs e = Some (OK_EXEC, v', fs')"
  shows "store_tx smt_get smt_put (v, state_root fs) (entry_tx e) = Some (OK, (v', state_root fs'))"
  using f_exec_gates [OF assms] exec_tail_store_tx by (metis)

text \<open>Conversely a bound entry whose transaction the mempool would execute is executed.\<close>

lemma store_tx_exec_tail:
  assumes "lookup_account v (state_root fs) (e_sender e) = Some s"
    and "store_tx smt_get smt_put (v, state_root fs) (entry_tx e) = Some (OK, (v', root'))"
  shows "exec_tail v fs e s = Some (OK_EXEC, v',
    \<lparr>state_root = root', digest = poseidon3 HSM_FOLD_v1 (digest fs) (pt_hash e)\<rparr>)"
  using assms
  by (auto simp: exec_tail_def store_tx_def smt_get_def smt_put_def entry_tx_def Let_def
      split: prod.splits option.splits if_splits)

lemma store_tx_f_exec:
  assumes "check_binding e" and "status e \<noteq> PAD"
    and "store_tx smt_get smt_put (v, state_root fs) (entry_tx e) = Some (OK, (v', root'))"
  shows "f_exec v fs e = Some (OK_EXEC, v',
    \<lparr>state_root = root', digest = poseidon3 HSM_FOLD_v1 (digest fs) (pt_hash e)\<rparr>)"
proof -
  let ?in = "rule_input (smt_get (v, state_root fs) (e_sender e)) (smt_get (v, state_root fs) (e_recipient e))
      (same_key (e_sender e) (e_recipient e))"
  obtain sn rn where r: "apply_rules (entry_tx e) ?in zero_account zero_account = (OK, sn, rn)"
    using assms(3) by (auto simp: store_tx_def entry_tx_def Let_def split: prod.splits if_splits)
  then obtain s where s: "lookup_account v (state_root fs) (e_sender e) = Some s"
    using apply_rules_OK(1) by (fastforce simp: rule_input_def smt_get_def)
  have "check_nonce e s"
    using apply_rules_OK(2) [OF r] s by (simp add: check_nonce_def rule_input_def smt_get_def entry_tx_def)
  moreover obtain cost where c: "add_u128 (e_amount e) (e_fee e) = Some cost" and "check_lt e s"
    using r s by (auto simp: apply_rules_def rule_input_def smt_get_def entry_tx_def check_lt_iff
        split: if_splits option.splits)
  ultimately have "f_exec v fs e = exec_tail v fs e s"
    using s assms(1,2) by (auto simp: f_exec_def check_nonce_def check_lt_iff check_binding_iff)
  then show ?thesis using store_tx_exec_tail [OF s assms(3)] by simp
qed

subsection \<open>The accumulator of an epoch\<close>

definition accepted :: "Verdict \<Rightarrow> bool" where
  "accepted vd \<longleftrightarrow> vd = OK_EXEC \<or> vd = OK_SKIP"

definition absorb :: "fe \<Rightarrow> fe list \<Rightarrow> fe" where
  "absorb = foldl (poseidon3 HSM_FOLD_v1)"

text \<open>
  The digest of the accumulator absorbs the binding hashes of the accepted entries, in order, and
  the counter counts them (modulo \<open>2 ^ 64\<close>).
\<close>

lemma fold_entries_acc:
  "fold_entries v acc root es = Some (vds, v', acc', root') \<Longrightarrow>
    length vds = length es
    \<and> acc_digest acc' = absorb (acc_digest acc) (map (pt_hash \<circ> fst) (filter (accepted \<circ> snd) (zip es vds)))
    \<and> acc_count acc' = acc_count acc + of_nat (length (filter accepted vds))
    \<and> acc_pc acc' = acc_pc acc"
proof (induction es arbitrary: v acc root vds)
  case (Cons e es)
  from Cons.prems obtain vd v1 fs vds' where
    1: "f_exec v \<lparr>state_root = root, digest = acc_digest acc\<rparr> e = Some (vd, v1, fs)"
    and 2: "fold_entries v1 (acc\<lparr>acc_digest := digest fs,
        acc_count := (if vd = OK_EXEC \<or> vd = OK_SKIP then acc_count acc + 1 else acc_count acc)\<rparr>)
        (state_root fs) es = Some (vds', v', acc', root')" and "vds = vd # vds'"
    by (auto simp: fold_step_def split: option.splits prod.splits)
  then show ?case
    using Cons.IH [OF 2] f_exec_digest [OF 1] by (auto simp: absorb_def accepted_def)
qed (simp add: absorb_def)

text \<open>The matrix admits exactly the runs head, entries, close.\<close>

fun pc_run :: "Step \<Rightarrow> Step list \<Rightarrow> bool" where
  "pc_run s [] = True"
| "pc_run s (t # ts) = (pc_valid s t \<and> pc_run t ts)"

lemma pc_valid_cases: "pc_valid a b \<longleftrightarrow> a \<noteq> CLOSE \<and> b \<noteq> HEAD"
  by (cases a; cases b) (simp_all add: pc_valid_def PC_MATRIX_def)

lemma pc_run_shape:
  "a \<noteq> CLOSE \<Longrightarrow> pc_run a ts \<longleftrightarrow> (\<exists>n. ts = replicate n STEP_EXEC \<or> ts = replicate n STEP_EXEC @ [CLOSE])"
proof (induction ts arbitrary: a)
  case Nil
  then show ?case by (auto intro: exI [of _ 0])
next
  case (Cons t ts)
  show ?case
  proof (cases t)
    case STEP_EXEC
    have "(\<exists>n. STEP_EXEC # ts = replicate n STEP_EXEC \<or> STEP_EXEC # ts = replicate n STEP_EXEC @ [CLOSE])
        \<longleftrightarrow> (\<exists>n. ts = replicate n STEP_EXEC \<or> ts = replicate n STEP_EXEC @ [CLOSE])" (is "?l \<longleftrightarrow> ?r")
    proof
      assume ?l
      then obtain n where "STEP_EXEC # ts = replicate n STEP_EXEC \<or> STEP_EXEC # ts = replicate n STEP_EXEC @ [CLOSE]" ..
      then show ?r by (cases n) auto
    next
      assume ?r
      then obtain n where "ts = replicate n STEP_EXEC \<or> ts = replicate n STEP_EXEC @ [CLOSE]" ..
      then show ?l by (intro exI [of _ "Suc n"]) auto
    qed
    then show ?thesis using Cons STEP_EXEC by (simp add: pc_valid_cases)
  next
    case CLOSE
    have "pc_run CLOSE ts \<longleftrightarrow> ts = []" by (cases ts) (simp_all add: pc_valid_cases)
    moreover have "(\<exists>n. CLOSE # ts = replicate n STEP_EXEC \<or> CLOSE # ts = replicate n STEP_EXEC @ [CLOSE])
        \<longleftrightarrow> ts = []" (is "?l \<longleftrightarrow> _")
    proof
      assume ?l
      then obtain n where "CLOSE # ts = replicate n STEP_EXEC \<or> CLOSE # ts = replicate n STEP_EXEC @ [CLOSE]" ..
      then show "ts = []" by (cases n) auto
    qed (auto intro: exI [of _ 0])
    ultimately show ?thesis using Cons.prems CLOSE by (simp add: pc_valid_cases)
  next
    case HEAD
    have "\<not> (\<exists>n. HEAD # ts = replicate n STEP_EXEC \<or> HEAD # ts = replicate n STEP_EXEC @ [CLOSE])"
    proof
      assume "\<exists>n. HEAD # ts = replicate n STEP_EXEC \<or> HEAD # ts = replicate n STEP_EXEC @ [CLOSE]"
      then obtain n where "HEAD # ts = replicate n STEP_EXEC \<or> HEAD # ts = replicate n STEP_EXEC @ [CLOSE]" ..
      then show False by (cases n) auto
    qed
    then show ?thesis using HEAD by (simp add: pc_valid_cases)
  qed
qed

end
