(* ===== verification/Params.thy ===== *)
theory Params
  imports Smt
begin

text \<open>
  The protocol constants of \<open>src/include/hsma/params.hpp\<close> and its build fingerprint. The header
  checks its safety inequalities on the constants alone; the lemmas here prove what the
  inequalities are for, over every weight distribution: no forged quorum, no two quorums, no
  adversarial takeover or halt of the committee. Basis-point quantities are signed 64-bit in the
  source; they are integers here, and nothing the header computes with them leaves that range.
\<close>

subsection \<open>The constants\<close>

definition CACHE_LINE_BYTES :: nat where
  "CACHE_LINE_BYTES = 128"

definition ABI_VERSION :: u16 where
  "ABI_VERSION = 1"

definition BP_ONE :: int where
  "BP_ONE = 10000"

definition FIELD_SAFE_BITS :: int where
  "FIELD_SAFE_BITS = 254"

definition STATE_WIDTH_BITS :: int where
  "STATE_WIDTH_BITS = 126"

definition SCRATCH_WIDTH_BITS :: int where
  "SCRATCH_WIDTH_BITS = 127"

definition WEIGHT_REG_BITS :: int where
  "WEIGHT_REG_BITS = 64"

definition ACT_REG_BITS :: int where
  "ACT_REG_BITS = 32"

definition BAL_MAG_BITS :: int where
  "BAL_MAG_BITS = 126"

definition BAL_SIGN_BITS :: int where
  "BAL_SIGN_BITS = 1"

definition NONCE_BITS :: int where
  "NONCE_BITS = 64"

definition FLAGS_BITS :: int where
  "FLAGS_BITS = 8"

definition LEAF_PACKED_BITS :: int where
  "LEAF_PACKED_BITS = BAL_MAG_BITS + BAL_SIGN_BITS + NONCE_BITS + FLAGS_BITS"

definition POSEIDON_T :: int where
  "POSEIDON_T = 3"

definition POSEIDON_RF :: int where
  "POSEIDON_RF = 8"

definition POSEIDON_RP_MIN :: int where
  "POSEIDON_RP_MIN = 56"

definition POSEIDON_SBOX_EXP :: int where
  "POSEIDON_SBOX_EXP = 5"

definition F_BP :: int where
  "F_BP = 2000"

definition ALPHA_BP :: int where
  "ALPHA_BP = 7500"

definition PHI_FLOOR_BP :: int where
  "PHI_FLOOR_BP = 5000"

definition K_BASE :: u32 where
  "K_BASE = 20"

definition K_ESCALATED :: u32 where
  "K_ESCALATED = 40"

definition K_ESC_AT_ROUND :: u64 where
  "K_ESC_AT_ROUND = 1000"

definition BETA_CONFIRMATIONS :: u32 where
  "BETA_CONFIRMATIONS = 150"

definition STALL_LIMIT :: u32 where
  "STALL_LIMIT = 50"

definition N_SHAREHOLDERS :: u32 where
  "N_SHAREHOLDERS = 224"

definition N_ACTIVE :: u32 where
  "N_ACTIVE = 192"

definition N_STANDBY :: u32 where
  "N_STANDBY = 32"

definition T_THRESHOLD :: u32 where
  "T_THRESHOLD = 112"

definition HALT_LINE :: u32 where
  "HALT_LINE = T_THRESHOLD + 1"

definition W_FLOOR_BP :: int where
  "W_FLOOR_BP = 20"

definition CLUSTER_SEAT_CAP :: u32 where
  "CLUSTER_SEAT_CAP = 16"

definition M_MAX_ADVERSARY_IDENTITIES :: u32 where
  "M_MAX_ADVERSARY_IDENTITIES = word_of_int (F_BP div W_FLOOR_BP)"

definition CONFIDENTIALITY_MARGIN :: u32 where
  "CONFIDENTIALITY_MARGIN = T_THRESHOLD - M_MAX_ADVERSARY_IDENTITIES"

definition HALT_MARGIN :: u32 where
  "HALT_MARGIN = HALT_LINE - M_MAX_ADVERSARY_IDENTITIES"

definition W_EXP_PHI_NUM :: int where
  "W_EXP_PHI_NUM = 6"

definition W_EXP_S_NUM :: int where
  "W_EXP_S_NUM = 4"

definition W_EXP_DEN :: int where
  "W_EXP_DEN = 10"

definition CAP_BP :: int where
  "CAP_BP = 1500"

definition ALPHA_HALF_FALLBACK_MODE :: bool where
  "ALPHA_HALF_FALLBACK_MODE = False"

definition UNIT_PHI_BITS :: int where
  "UNIT_PHI_BITS = 12"

definition UNIT_S_BITS :: int where
  "UNIT_S_BITS = 12"

definition UNIT_GUARD_BITS :: int where
  "UNIT_GUARD_BITS = 6"

definition MIN_BOND_UNITS :: int where
  "MIN_BOND_UNITS = 50000"

definition UNBOND_DAYS :: int where
  "UNBOND_DAYS = 21"

definition EVIDENCE_HORIZON_DAYS :: int where
  "EVIDENCE_HORIZON_DAYS = 14"

definition EPOCH_SECONDS :: int where
  "EPOCH_SECONDS = 600"

definition CHECKPOINT_K_EPOCHS :: int where
  "CHECKPOINT_K_EPOCHS = 6"

definition SECONDS_PER_DAY :: int where
  "SECONDS_PER_DAY = 86400"

definition EPOCHS_PER_DAY :: int where
  "EPOCHS_PER_DAY = SECONDS_PER_DAY div EPOCH_SECONDS"

definition UNBOND_EPOCHS :: int where
  "UNBOND_EPOCHS = UNBOND_DAYS * EPOCHS_PER_DAY"

definition EV_HORIZON_EPOCHS :: int where
  "EV_HORIZON_EPOCHS = EVIDENCE_HORIZON_DAYS * EPOCHS_PER_DAY"

definition MAX_BATCH_ENTRIES :: int where
  "MAX_BATCH_ENTRIES = 256"

definition EXEC_STEPS_NOMINAL :: int where
  "EXEC_STEPS_NOMINAL = 8192"

definition ENTRIES_PER_EPOCH :: int where
  "ENTRIES_PER_EPOCH = MAX_BATCH_ENTRIES * EXEC_STEPS_NOMINAL"

definition THETA_PER_SEC_NOMINAL :: int where
  "THETA_PER_SEC_NOMINAL = ENTRIES_PER_EPOCH div EPOCH_SECONDS"

definition MAX_PROOF_BYTES :: nat where
  "MAX_PROOF_BYTES = 128 * 1024"

definition WRAP_PROOF_BUDGET :: nat where
  "WRAP_PROOF_BUDGET = 75 * 1024"

definition SUCCESS_BURN_BP :: int where
  "SUCCESS_BURN_BP = 8000"

definition SUCCESS_POOL_BP :: int where
  "SUCCESS_POOL_BP = 2000"

definition USERFAULT_BURN_BP :: int where
  "USERFAULT_BURN_BP = 2500"

definition USERFAULT_REFUND_BP :: int where
  "USERFAULT_REFUND_BP = 7500"

definition COMMITTEEFAULT_BURN_BP :: int where
  "COMMITTEEFAULT_BURN_BP = 0"

definition COMMITTEEFAULT_REFUND_BP :: int where
  "COMMITTEEFAULT_REFUND_BP = 10000"

definition DELTA_FOLD_BP_OF_POOL :: int where
  "DELTA_FOLD_BP_OF_POOL = 1000"

definition INFORMER_REWARD_BP :: int where
  "INFORMER_REWARD_BP = 50"

definition INFORMER_REWARD_CAP_UNITS :: int where
  "INFORMER_REWARD_CAP_UNITS = 1000"

definition BOOTSTRAP_SUBSIDY_CAP_BP :: int where
  "BOOTSTRAP_SUBSIDY_CAP_BP = 5000"

definition GOLDEN_PARAMS_PINNED :: bool where
  "GOLDEN_PARAMS_PINNED = False"

definition GOLDEN_TAU_Q_MS :: int where
  "GOLDEN_TAU_Q_MS = 250"

definition GOLDEN_MAX_GRACE_MS :: int where
  "GOLDEN_MAX_GRACE_MS = 400"

text \<open>The capacity of the accumulator class, in exact 128-bit arithmetic.\<close>

definition MAX_ACCUM_PRODUCTS :: u128 where
  "MAX_ACCUM_PRODUCTS = (push_bit 127 1 - 1) div ((push_bit 64 1 - 1) * (push_bit 32 1 - 1))"

subsection \<open>The fingerprint\<close>

definition fnv1a_byte :: "u64 \<Rightarrow> u64 \<Rightarrow> nat \<Rightarrow> u64" where
  "fnv1a_byte v h i = (h XOR (drop_bit (8 * i) v AND 0xFF)) * 0x100000001b3"

definition fnv1a_mix :: "u64 \<Rightarrow> u64 \<Rightarrow> u64" where
  "fnv1a_mix h v = foldl (fnv1a_byte v) h [0..<8]"

definition fingerprint_from :: "u64 list \<Rightarrow> u64" where
  "fingerprint_from vals = foldl fnv1a_mix 0xcbf29ce484222325 vals"

definition fingerprint_fields :: "u64 list" where
  "fingerprint_fields =
    [word_of_int F_BP,
     word_of_int ALPHA_BP,
     word_of_int PHI_FLOOR_BP,
     ucast K_BASE,
     ucast K_ESCALATED,
     K_ESC_AT_ROUND,
     ucast BETA_CONFIRMATIONS,
     ucast STALL_LIMIT,
     ucast N_SHAREHOLDERS,
     ucast N_ACTIVE,
     ucast N_STANDBY,
     ucast T_THRESHOLD,
     ucast HALT_LINE,
     word_of_int W_FLOOR_BP,
     ucast CLUSTER_SEAT_CAP,
     word_of_int W_EXP_PHI_NUM,
     word_of_int W_EXP_S_NUM,
     word_of_int W_EXP_DEN,
     word_of_int CAP_BP,
     word_of_int UNIT_PHI_BITS,
     word_of_int UNIT_S_BITS,
     word_of_int UNIT_GUARD_BITS,
     of_bool ALPHA_HALF_FALLBACK_MODE,
     word_of_int EPOCH_SECONDS,
     word_of_int CHECKPOINT_K_EPOCHS,
     word_of_int MAX_BATCH_ENTRIES,
     word_of_int EXEC_STEPS_NOMINAL,
     word_of_nat MAX_PROOF_BYTES,
     word_of_nat WRAP_PROOF_BUDGET,
     word_of_int STATE_WIDTH_BITS,
     word_of_int SCRATCH_WIDTH_BITS,
     word_of_nat SMT_DEPTH,
     word_of_int POSEIDON_RF,
     word_of_int POSEIDON_RP_MIN,
     word_of_int UNBOND_DAYS,
     word_of_int EVIDENCE_HORIZON_DAYS,
     of_bool GOLDEN_PARAMS_PINNED]"

definition PARAMS_FINGERPRINT :: u64 where
  "PARAMS_FINGERPRINT = fingerprint_from fingerprint_fields"

definition fingerprint_hex :: "u64 \<Rightarrow> string" where
  "fingerprint_hex f =
     (let d = ''0123456789abcdef''
      in concat (map (\<lambda>i. [d ! unat (drop_bit (60 - 8 * i) f AND 0xF),
                            d ! unat (drop_bit (56 - 8 * i) f AND 0xF)]) [0..<8]))"

lemmas param_defs =
  CACHE_LINE_BYTES_def ABI_VERSION_def BP_ONE_def FIELD_SAFE_BITS_def STATE_WIDTH_BITS_def
  SCRATCH_WIDTH_BITS_def WEIGHT_REG_BITS_def ACT_REG_BITS_def BAL_MAG_BITS_def BAL_SIGN_BITS_def
  NONCE_BITS_def FLAGS_BITS_def LEAF_PACKED_BITS_def POSEIDON_T_def POSEIDON_RF_def
  POSEIDON_RP_MIN_def POSEIDON_SBOX_EXP_def F_BP_def ALPHA_BP_def PHI_FLOOR_BP_def K_BASE_def
  K_ESCALATED_def K_ESC_AT_ROUND_def BETA_CONFIRMATIONS_def STALL_LIMIT_def N_SHAREHOLDERS_def
  N_ACTIVE_def N_STANDBY_def T_THRESHOLD_def HALT_LINE_def W_FLOOR_BP_def CLUSTER_SEAT_CAP_def
  M_MAX_ADVERSARY_IDENTITIES_def CONFIDENTIALITY_MARGIN_def HALT_MARGIN_def W_EXP_PHI_NUM_def
  W_EXP_S_NUM_def W_EXP_DEN_def CAP_BP_def ALPHA_HALF_FALLBACK_MODE_def UNIT_PHI_BITS_def
  UNIT_S_BITS_def UNIT_GUARD_BITS_def MIN_BOND_UNITS_def UNBOND_DAYS_def
  EVIDENCE_HORIZON_DAYS_def EPOCH_SECONDS_def CHECKPOINT_K_EPOCHS_def SECONDS_PER_DAY_def
  EPOCHS_PER_DAY_def UNBOND_EPOCHS_def EV_HORIZON_EPOCHS_def MAX_BATCH_ENTRIES_def
  EXEC_STEPS_NOMINAL_def ENTRIES_PER_EPOCH_def THETA_PER_SEC_NOMINAL_def MAX_PROOF_BYTES_def
  WRAP_PROOF_BUDGET_def SUCCESS_BURN_BP_def SUCCESS_POOL_BP_def USERFAULT_BURN_BP_def
  USERFAULT_REFUND_BP_def COMMITTEEFAULT_BURN_BP_def COMMITTEEFAULT_REFUND_BP_def
  DELTA_FOLD_BP_OF_POOL_def INFORMER_REWARD_BP_def INFORMER_REWARD_CAP_UNITS_def
  BOOTSTRAP_SUBSIDY_CAP_BP_def GOLDEN_PARAMS_PINNED_def GOLDEN_TAU_Q_MS_def
  GOLDEN_MAX_GRACE_MS_def

text \<open>The checks of the header on the constants.\<close>

lemma load_bearing_inequalities:
  "F_BP * BP_ONE < ALPHA_BP * PHI_FLOOR_BP" "BP_ONE div 2 < ALPHA_BP"
  "M_MAX_ADVERSARY_IDENTITIES < T_THRESHOLD"
  "T_THRESHOLD \<le> N_SHAREHOLDERS - M_MAX_ADVERSARY_IDENTITIES" "K_ESCALATED \<le> 64"
  by (simp_all add: param_defs)

lemma max_accum_products: "2 ^ 30 \<le> MAX_ACCUM_PRODUCTS"
  by (simp add: MAX_ACCUM_PRODUCTS_def)

text \<open>Adding up to \<open>MAX_ACCUM_PRODUCTS\<close> full-width products stays below the scratch width.\<close>

lemma accumulator_capacity:
  assumes "length ws \<le> unat MAX_ACCUM_PRODUCTS" and "\<forall>(a, b)\<in>set ws. a < 2 ^ 64 \<and> b < (2::nat) ^ 32"
  shows "(\<Sum>(a, b)\<leftarrow>ws. a * b) < 2 ^ 127"
proof -
  have "(\<Sum>(a, b)\<leftarrow>ws. a * b) \<le> length ws * ((2 ^ 64 - 1) * (2 ^ 32 - 1))"
    using assms(2)
  proof (induction ws)
    case (Cons x ws)
    obtain a b where x: "x = (a, b)" by fastforce
    have "a * b \<le> (2 ^ 64 - 1) * (2 ^ 32 - 1)"
      using Cons.prems x by (intro mult_le_mono) auto
    then show ?case using Cons x by auto
  qed simp
  also have "\<dots> \<le> unat MAX_ACCUM_PRODUCTS * ((2 ^ 64 - 1) * (2 ^ 32 - 1))"
    using assms(1) by (rule mult_le_mono1)
  also have "\<dots> < 2 ^ 127" by (simp add: MAX_ACCUM_PRODUCTS_def unat_div_distrib)
  finally show ?thesis .
qed

subsection \<open>What the inequalities give\<close>

text \<open>
  Weights in basis points: an adversary of at most \<open>F_BP\<close> of the total never reaches the quorum
  share \<open>ALPHA_BP\<close> of a sample that carries at least \<open>PHI_FLOOR_BP\<close> of the total.
\<close>

lemma quorum_impossible:
  fixes adv sampled tw :: int
  assumes "adv * BP_ONE \<le> F_BP * tw" and "PHI_FLOOR_BP * tw \<le> sampled * BP_ONE" and "0 < tw"
  shows "adv * BP_ONE < ALPHA_BP * sampled"
proof -
  have "4 * (adv * BP_ONE) \<le> 4 * (F_BP * tw)" using assms(1) by simp
  also have "\<dots> < 3 * (PHI_FLOOR_BP * tw)" using assms(3) by (simp add: param_defs)
  also have "\<dots> \<le> 3 * (sampled * BP_ONE)" using assms(2) by simp
  also have "\<dots> = 4 * (ALPHA_BP * sampled)" by (simp add: param_defs)
  finally show ?thesis by simp
qed

lemma dual_quorum_impossible:
  fixes w1 w2 sampled :: int
  assumes "ALPHA_BP * sampled \<le> w1 * BP_ONE" and "ALPHA_BP * sampled \<le> w2 * BP_ONE" and "0 < sampled"
  shows "sampled < w1 + w2"
  using assms by (simp add: param_defs)

text \<open>
  A committee over a weight total: each eligible identity carries at least the floor, the
  adversary's identities together at most \<open>F_BP\<close>.
\<close>

lemma adversary_identities:
  fixes ws :: "int list" and tw :: int
  assumes floor: "\<forall>w\<in>set ws. W_FLOOR_BP * tw \<le> w * BP_ONE" and "0 < tw"
    and adv: "sum_list ws * BP_ONE \<le> F_BP * tw"
  shows "int (length ws) \<le> uint M_MAX_ADVERSARY_IDENTITIES"
proof -
  have "int (length ws) * (W_FLOOR_BP * tw) \<le> sum_list ws * BP_ONE"
    using floor
  proof (induction ws)
    case (Cons w ws)
    then show ?case by (simp add: algebra_simps)
  qed simp
  also note adv
  finally have "(20 * int (length ws)) * tw \<le> 2000 * tw" by (simp add: param_defs algebra_simps)
  then have "20 * int (length ws) \<le> 2000" using assms(2) by (simp only: mult_le_cancel_right)
  then show ?thesis by (simp add: param_defs)
qed

lemma committee_safe:
  assumes "\<forall>w\<in>set ws. W_FLOOR_BP * tw \<le> w * BP_ONE" and "0 < tw"
    and "sum_list ws * BP_ONE \<le> F_BP * tw"
  shows "int (length ws) < uint T_THRESHOLD"
    and "uint T_THRESHOLD \<le> uint N_SHAREHOLDERS - int (length ws)"
  using adversary_identities [OF assms] by (simp_all add: param_defs)

subsection \<open>The fingerprint is injective in every prefix\<close>

lemma fnv_prime_odd: "(x :: u64) * 0x100000001b3 = y * 0x100000001b3 \<Longrightarrow> x = y"
proof -
  assume "x * 0x100000001b3 = y * 0x100000001b3"
  then have "x * 0x100000001b3 * 0xCE965057AFF6957B = y * 0x100000001b3 * 0xCE965057AFF6957B" by simp
  then have "x * (0x100000001b3 * 0xCE965057AFF6957B) = y * (0x100000001b3 * 0xCE965057AFF6957B)"
    by (simp only: mult.assoc)
  moreover have "(0x100000001b3 * 0xCE965057AFF6957B :: u64) = 1" by simp
  ultimately show "x = y" by (simp only: mult_1_right)
qed

lemma xor_cancel: "(x :: u64) XOR k = y XOR k \<Longrightarrow> x = y"
  by (drule arg_cong [of _ _ "\<lambda>z. z XOR k"]) (simp add: xor.assoc)

lemma fnv1a_byte_inject: "fnv1a_byte v h i = fnv1a_byte v h' i \<Longrightarrow> h = h'"
  unfolding fnv1a_byte_def by (drule fnv_prime_odd) (rule xor_cancel)

lemma fnv1a_mix_inject: "fnv1a_mix h v = fnv1a_mix h' v \<Longrightarrow> h = h'"
proof -
  have "foldl (fnv1a_byte v) h is = foldl (fnv1a_byte v) h' is \<Longrightarrow> h = h'" for "is"
    by (induction "is" arbitrary: h h') (auto dest: fnv1a_byte_inject)
  then show "fnv1a_mix h v = fnv1a_mix h' v \<Longrightarrow> h = h'" by (simp only: fnv1a_mix_def)
qed

lemma fingerprint_suffix_inject:
  "foldl fnv1a_mix h vs = foldl fnv1a_mix h' vs \<Longrightarrow> h = h'"
  by (induction vs arbitrary: h h') (auto dest: fnv1a_mix_inject)

end
