(* ===== verification/Stake.thy ===== *)
theory Stake
  imports Params "HOL-Library.AList"
begin

text \<open>
  The stake registry of \<open>src/include/hsma/econ/stake.hpp\<close>: bonds per member, their lifecycle,
  slashing, cluster-capped weights and the adversarial bound. The \<open>std::map\<close>s are association
  lists with distinct keys. The lemmas give the lifecycle as a transition relation every
  operation respects, what slashing burns, and the bounds the cap and the check enforce.
\<close>

record StakeParams =
  min_bond :: u64
  activation_lag :: u64
  unbonding_epochs :: u64
  evidence_horizon :: u64
  max_adversarial_bp :: u64
  cluster_cap :: u64
  max_total_weight :: u64

definition default_params :: StakeParams where
  "default_params = \<lparr>min_bond = 50000, activation_lag = 2, unbonding_epochs = 21,
     evidence_horizon = 14, max_adversarial_bp = 2000, cluster_cap = 100000,
     max_total_weight = 1000000\<rparr>"

datatype BondState = BONDING | ACTIVE | UNBONDING | SLASHED | WITHDRAWN

record Bond =
  member_id :: u64
  bond_amount :: u64
  deposit_epoch :: u64
  unbond_epoch :: u64
  bond_state :: BondState
  cluster :: u64

record StakeRegistry =
  sp_params :: StakeParams
  bonds :: "(u64 \<times> Bond list) list"
  clusters :: "(u64 \<times> u64) list"

definition stake_new :: "StakeParams \<Rightarrow> StakeRegistry" where
  "stake_new p = \<lparr>sp_params = p, bonds = [], clusters = []\<rparr>"

text \<open>\<open>bonds_[member]\<close> creates an empty entry for a member it does not find.\<close>

definition bonds_of :: "StakeRegistry \<Rightarrow> u64 \<Rightarrow> Bond list" where
  "bonds_of r m = (case map_of (bonds r) m of None \<Rightarrow> [] | Some bs \<Rightarrow> bs)"

definition put_bonds :: "StakeRegistry \<Rightarrow> u64 \<Rightarrow> Bond list \<Rightarrow> StakeRegistry" where
  "put_bonds r m bs = r\<lparr>bonds := AList.update m bs (bonds r)\<rparr>"

definition deposit :: "StakeRegistry \<Rightarrow> u64 \<Rightarrow> u64 \<Rightarrow> u64 \<Rightarrow> u64 \<Rightarrow> bool \<times> StakeRegistry" where
  "deposit r member amt epoch cl =
     (if amt < min_bond (sp_params r) then (False, r)
      else (True, put_bonds r member (bonds_of r member @
              [\<lparr>member_id = member, bond_amount = amt, deposit_epoch = epoch, unbond_epoch = 0,
                bond_state = BONDING, cluster = cl\<rparr>])))"

definition tick_bond :: "StakeParams \<Rightarrow> u64 \<Rightarrow> Bond \<Rightarrow> Bond" where
  "tick_bond p epoch b =
     (let b1 = (if bond_state b = BONDING \<and> deposit_epoch b + activation_lag p \<le> epoch
                then b\<lparr>bond_state := ACTIVE\<rparr> else b)
      in if bond_state b1 = UNBONDING \<and> unbond_epoch b1 + unbonding_epochs p \<le> epoch
         then b1\<lparr>bond_state := WITHDRAWN\<rparr> else b1)"

definition tick_epoch :: "StakeRegistry \<Rightarrow> u64 \<Rightarrow> StakeRegistry" where
  "tick_epoch r epoch =
     r\<lparr>bonds := map (\<lambda>(m, bs). (m, map (tick_bond (sp_params r) epoch) bs)) (bonds r)\<rparr>"

definition unbond :: "u64 \<Rightarrow> Bond \<Rightarrow> Bond" where
  "unbond epoch b = (if bond_state b = ACTIVE then b\<lparr>bond_state := UNBONDING, unbond_epoch := epoch\<rparr> else b)"

definition request_unbond :: "StakeRegistry \<Rightarrow> u64 \<Rightarrow> u64 \<Rightarrow> bool \<times> StakeRegistry" where
  "request_unbond r member epoch =
     (let bs = bonds_of r member
      in ((\<exists>b\<in>set bs. bond_state b = ACTIVE), put_bonds r member (map (unbond epoch) bs)))"

definition slashable :: "Bond \<Rightarrow> bool" where
  "slashable b \<longleftrightarrow> bond_state b = ACTIVE \<or> bond_state b = UNBONDING \<or> bond_state b = BONDING"

definition slash :: "Bond \<Rightarrow> Bond" where
  "slash b = (if slashable b then b\<lparr>bond_amount := 0, bond_state := SLASHED\<rparr> else b)"

definition slash_equivocation :: "StakeRegistry \<Rightarrow> u64 \<Rightarrow> u64 \<times> StakeRegistry" where
  "slash_equivocation r member =
     (let bs = bonds_of r member
      in (fold (\<lambda>b burned. if slashable b then burned + bond_amount b else burned) bs 0,
          put_bonds r member (map slash bs)))"

definition active_sum :: "Bond list \<Rightarrow> u64 \<Rightarrow> u64" where
  "active_sum bs w = fold (\<lambda>b w. if bond_state b = ACTIVE then w + bond_amount b else w) bs w"

definition active_weight :: "StakeRegistry \<Rightarrow> u64 \<Rightarrow> u64" where
  "active_weight r member = active_sum (bonds_of r member) 0"

definition cluster_of :: "StakeRegistry \<Rightarrow> u64 \<Rightarrow> u64" where
  "cluster_of r member = (case bonds_of r member of [] \<Rightarrow> 0 | b # _ \<Rightarrow> cluster b)"

definition cluster_capped_weight :: "StakeRegistry \<Rightarrow> u64 \<Rightarrow> u64" where
  "cluster_capped_weight r member =
     (let raw = active_weight r member;
          cluster_total = (case map_of (clusters r) (cluster_of r member) of None \<Rightarrow> raw | Some t \<Rightarrow> t)
      in if cluster_total \<le> cluster_cap (sp_params r) then raw
         else if cluster_total = 0 then 0
         else (raw * cluster_cap (sp_params r)) div cluster_total)"

definition set_cluster_total :: "StakeRegistry \<Rightarrow> u64 \<Rightarrow> u64 \<Rightarrow> StakeRegistry" where
  "set_cluster_total r cl t = r\<lparr>clusters := AList.update cl t (clusters r)\<rparr>"

datatype AdversarialVerdict = SAFE | HALT

definition adversarial_check :: "StakeRegistry \<Rightarrow> u64 \<Rightarrow> u64 \<Rightarrow> AdversarialVerdict" where
  "adversarial_check r total_active_weight adversarial_active_weight =
     (if total_active_weight = 0 then SAFE
      else let f_bp = (adversarial_active_weight * 10000) div total_active_weight
           in if max_adversarial_bp (sp_params r) \<le> f_bp then HALT else SAFE)"

definition total_active :: "StakeRegistry \<Rightarrow> u64" where
  "total_active r = fold (\<lambda>(m, bs) t. active_sum bs t) (bonds r) 0"

definition primary_state :: "StakeRegistry \<Rightarrow> u64 \<Rightarrow> BondState" where
  "primary_state r member = (case bonds_of r member of [] \<Rightarrow> BONDING | b # _ \<Rightarrow> bond_state b)"

subsection \<open>The lifecycle of a bond\<close>

text \<open>The transitions of one bond; deposit creates it, everything else moves it along.\<close>

inductive bond_step :: "StakeParams \<Rightarrow> Bond \<Rightarrow> Bond \<Rightarrow> bool" for p where
  stay: "bond_step p b b"
| activate: "bond_state b = BONDING \<Longrightarrow> deposit_epoch b + activation_lag p \<le> epoch \<Longrightarrow>
    bond_step p b (b\<lparr>bond_state := ACTIVE\<rparr>)"
| unbond: "bond_state b = ACTIVE \<Longrightarrow> bond_step p b (b\<lparr>bond_state := UNBONDING, unbond_epoch := epoch\<rparr>)"
| withdraw: "bond_state b = UNBONDING \<Longrightarrow> unbond_epoch b + unbonding_epochs p \<le> epoch \<Longrightarrow>
    bond_step p b (b\<lparr>bond_state := WITHDRAWN\<rparr>)"
| slash: "bond_state b \<in> {BONDING, ACTIVE, UNBONDING} \<Longrightarrow>
    bond_step p b (b\<lparr>bond_amount := 0, bond_state := SLASHED\<rparr>)"

inductive_cases bond_stepE [elim]: "bond_step p b b'"

lemma tick_bond_step: "bond_step p b (tick_bond p epoch b)"
  by (cases "bond_state b") (auto simp: tick_bond_def Let_def intro: bond_step.intros)

lemma unbond_step: "bond_step p b (unbond epoch b)"
  by (auto simp: unbond_def intro: bond_step.intros)

lemma slash_step: "bond_step p b (slash b)"
  by (auto simp: slash_def slashable_def intro: bond_step.intros)

text \<open>Registry operations act on each member's bonds position by position, deposits at the end.\<close>

lemma bonds_of_put: "bonds_of (put_bonds r m bs) m' = (if m' = m then bs else bonds_of r m')"
  by (simp add: bonds_of_def put_bonds_def AList.update_conv')

lemma bonds_of_tick: "bonds_of (tick_epoch r e) m = map (tick_bond (sp_params r) e) (bonds_of r m)"
proof -
  have "map_of (map (\<lambda>(m, bs). (m, map g bs)) xs) m = map_option (map g) (map_of xs m)"
    for xs :: "(u64 \<times> Bond list) list" and g :: "Bond \<Rightarrow> Bond"
    by (induction xs) auto
  then show ?thesis by (simp add: bonds_of_def tick_epoch_def split: option.split)
qed

datatype StakeOp =
  Deposit u64 u64 u64 u64 | TickEpoch u64 | RequestUnbond u64 u64 | SlashEquivocation u64
| SetClusterTotal u64 u64

fun stake_op :: "StakeOp \<Rightarrow> StakeRegistry \<Rightarrow> StakeRegistry" where
  "stake_op (Deposit m a e c) r = snd (deposit r m a e c)"
| "stake_op (TickEpoch e) r = tick_epoch r e"
| "stake_op (RequestUnbond m e) r = snd (request_unbond r m e)"
| "stake_op (SlashEquivocation m) r = snd (slash_equivocation r m)"
| "stake_op (SetClusterTotal c t) r = set_cluster_total r c t"

lemma stake_op_keeps_params [simp]: "sp_params (stake_op x r) = sp_params r"
  by (cases x) (simp_all add: deposit_def tick_epoch_def request_unbond_def slash_equivocation_def
      set_cluster_total_def put_bonds_def Let_def)

text \<open>Every operation moves each existing bond by one step of the lifecycle.\<close>

lemma stake_op_lifecycle:
  assumes "i < length (bonds_of r m)"
  shows "i < length (bonds_of (stake_op x r) m)"
    and "bond_step (sp_params r) (bonds_of r m ! i) (bonds_of (stake_op x r) m ! i)"
proof -
  have "i < length (bonds_of (stake_op x r) m)
    \<and> bond_step (sp_params r) (bonds_of r m ! i) (bonds_of (stake_op x r) m ! i)"
  proof (cases x)
    case (SetClusterTotal c t)
    have "bonds_of (r\<lparr>clusters := cs\<rparr>) m = bonds_of r m" for cs by (simp add: bonds_of_def)
    then show ?thesis using assms SetClusterTotal by (simp add: set_cluster_total_def stay)
  qed (use assms in \<open>auto simp: deposit_def request_unbond_def slash_equivocation_def bonds_of_put
        bonds_of_tick Let_def nth_append intro: tick_bond_step unbond_step slash_step stay\<close>)
  then show "i < length (bonds_of (stake_op x r) m)"
    and "bond_step (sp_params r) (bonds_of r m ! i) (bonds_of (stake_op x r) m ! i)" by simp_all
qed

fun stake_run :: "StakeOp list \<Rightarrow> StakeRegistry \<Rightarrow> StakeRegistry" where
  "stake_run [] r = r"
| "stake_run (x # xs) r = stake_run xs (stake_op x r)"

text \<open>Slashed and withdrawn bonds are terminal over every run.\<close>

lemma terminal_step:
  "bond_step p b b' \<Longrightarrow> bond_state b \<in> {SLASHED, WITHDRAWN} \<Longrightarrow> b' = b"
  by (erule bond_stepE) auto

lemma terminal_run:
  assumes "i < length (bonds_of r m)" and "bond_state (bonds_of r m ! i) \<in> {SLASHED, WITHDRAWN}"
  shows "i < length (bonds_of (stake_run xs r) m) \<and> bonds_of (stake_run xs r) m ! i = bonds_of r m ! i"
  using assms
proof (induction xs arbitrary: r)
  case (Cons x xs)
  note st = stake_op_lifecycle [OF Cons.prems(1), of x]
  have eq: "bonds_of (stake_op x r) m ! i = bonds_of r m ! i"
    using terminal_step [OF st(2) Cons.prems(2)] .
  then show ?case using Cons.IH [OF st(1)] Cons.prems(2) by simp
qed simp

text \<open>A bond is never active before its activation epoch has been ticked.\<close>

lemma activation_lag_run:
  assumes "i < length (bonds_of r m)" and "bond_state (bonds_of r m ! i) = BONDING"
    and "\<forall>e. TickEpoch e \<in> set xs \<longrightarrow> e < deposit_epoch (bonds_of r m ! i) + activation_lag (sp_params r)"
  shows "i < length (bonds_of (stake_run xs r) m)
    \<and> bond_state (bonds_of (stake_run xs r) m ! i) \<in> {BONDING, SLASHED}"
  using assms
proof (induction xs arbitrary: r)
  case (Cons x xs)
  note st = stake_op_lifecycle [OF Cons.prems(1), of x]
  let ?b = "bonds_of r m ! i" and ?b' = "bonds_of (stake_op x r) m ! i"
  have "?b' = ?b \<or> bond_state ?b' = SLASHED"
  proof (cases x)
    case (TickEpoch e)
    then have "e < deposit_epoch ?b + activation_lag (sp_params r)" using Cons.prems(3) by simp
    then show ?thesis
      using TickEpoch Cons.prems(1,2) by (simp add: bonds_of_tick tick_bond_def not_le [symmetric])
  next
    case (SetClusterTotal c t)
    then show ?thesis by (simp add: set_cluster_total_def bonds_of_def)
  qed (use Cons.prems in \<open>auto simp: deposit_def request_unbond_def slash_equivocation_def bonds_of_put
        nth_append unbond_def slash_def Let_def\<close>)
  then show ?case
  proof
    assume "?b' = ?b"
    then show ?thesis using Cons.IH [OF st(1)] Cons.prems by simp
  next
    assume "bond_state ?b' = SLASHED"
    then show ?thesis using terminal_run [OF st(1), of xs] by simp
  qed
qed simp

subsection \<open>Slashing\<close>

lemma fold_add_if:
  "fold (\<lambda>b (w :: u64). if P b then w + f b else w) bs w = w + (\<Sum>b\<leftarrow>filter P bs. f b)"
  by (induction bs arbitrary: w) (simp_all add: ac_simps)

lemma slash_burns:
  "fst (slash_equivocation r m) = (\<Sum>b\<leftarrow>filter slashable (bonds_of r m). bond_amount b)"
  by (simp add: slash_equivocation_def fold_add_if Let_def)

lemma slash_leaves_nothing:
  "b \<in> set (bonds_of (snd (slash_equivocation r m)) m) \<Longrightarrow> bond_state b \<in> {SLASHED, WITHDRAWN}"
  by (auto simp: slash_equivocation_def bonds_of_put slash_def slashable_def Let_def split: if_splits)
    (metis BondState.exhaust)

lemma slash_active_weight: "active_weight (snd (slash_equivocation r m)) m = 0"
proof -
  have "filter (\<lambda>b. bond_state b = ACTIVE) (bonds_of (snd (slash_equivocation r m)) m) = []"
    using slash_leaves_nothing [of _ r m] by (fastforce simp: filter_empty_conv)
  then show ?thesis by (simp add: active_weight_def active_sum_def fold_add_if)
qed

text \<open>Stake is conserved: what a member loses is what is reported burned; others keep theirs.\<close>

lemma slash_conserves:
  "(\<Sum>b\<leftarrow>bonds_of r m. bond_amount b) =
    fst (slash_equivocation r m) + (\<Sum>b\<leftarrow>bonds_of (snd (slash_equivocation r m)) m. bond_amount b)"
proof -
  have sp: "(\<Sum>b\<leftarrow>bs. bond_amount b) = (\<Sum>b\<leftarrow>filter slashable bs. bond_amount b)
      + (\<Sum>b\<leftarrow>map slash bs. bond_amount b)" for bs
    by (induction bs) (simp_all add: slash_def ac_simps)
  have eq: "bonds_of (snd (slash_equivocation r m)) m = map slash (bonds_of r m)"
    by (simp add: slash_equivocation_def bonds_of_put Let_def)
  show ?thesis unfolding slash_burns eq by (rule sp)
qed

lemma slash_others: "m' \<noteq> m \<Longrightarrow> bonds_of (snd (slash_equivocation r m)) m' = bonds_of r m'"
  by (simp add: slash_equivocation_def bonds_of_put Let_def)

subsection \<open>The cluster cap and the adversarial bound\<close>

text \<open>
  Sybil members: the capped weights of a cluster add up to at most the cap when the recorded
  cluster total covers their active weights and no product overflows.
\<close>

lemma capped_weight_le:
  assumes "map_of (clusters r) (cluster_of r m) = Some t"
    and "unat (active_weight r m) * unat (cluster_cap (sp_params r)) < 2 ^ 64"
    and "unat (cluster_cap (sp_params r)) < unat t"
  shows "unat (cluster_capped_weight r m) = unat (active_weight r m) * unat (cluster_cap (sp_params r)) div unat t"
proof -
  have "\<not> t \<le> cluster_cap (sp_params r)" "t \<noteq> 0" using assms(3) by (auto simp: word_le_nat_alt)
  then show ?thesis
    using assms(1,2) by (simp add: cluster_capped_weight_def unat_div_distrib unat_word_ariths)
qed

lemma sum_div_le: "(\<Sum>x\<leftarrow>xs. f x div (t::nat)) \<le> (\<Sum>x\<leftarrow>xs. f x) div t"
proof (induction xs)
  case (Cons x xs)
  have "f x div t + (\<Sum>x\<leftarrow>xs. f x) div t \<le> (f x + (\<Sum>x\<leftarrow>xs. f x)) div t"
    by (simp add: div_add1_eq [of "f x"])
  then show ?case using Cons by simp
qed simp

lemma cluster_cap_bound:
  assumes "\<forall>m\<in>set ms. map_of (clusters r) (cluster_of r m) = Some t
      \<and> unat (active_weight r m) * unat (cluster_cap (sp_params r)) < 2 ^ 64"
    and "(\<Sum>m\<leftarrow>ms. unat (active_weight r m)) \<le> unat t"
  shows "(\<Sum>m\<leftarrow>ms. unat (cluster_capped_weight r m)) \<le> unat (cluster_cap (sp_params r))"
proof (cases "unat (cluster_cap (sp_params r)) < unat t")
  case True
  let ?c = "unat (cluster_cap (sp_params r))"
  have "(\<Sum>m\<leftarrow>ms. unat (cluster_capped_weight r m)) = (\<Sum>m\<leftarrow>ms. unat (active_weight r m) * ?c div unat t)"
    using assms(1) True by (intro arg_cong [of _ _ sum_list] map_cong) (auto simp: capped_weight_le)
  also have "\<dots> \<le> (\<Sum>m\<leftarrow>ms. unat (active_weight r m) * ?c) div unat t" by (rule sum_div_le)
  also have "(\<Sum>m\<leftarrow>ms. unat (active_weight r m) * ?c) = (\<Sum>m\<leftarrow>ms. unat (active_weight r m)) * ?c"
    by (simp add: sum_list_mult_const)
  also have "\<dots> div unat t \<le> unat t * ?c div unat t"
    using assms(2) by (intro div_le_mono mult_le_mono1)
  also have "\<dots> = ?c" using True by simp
  finally show ?thesis .
next
  case False
  have "unat (cluster_capped_weight r m) = unat (active_weight r m)" if "m \<in> set ms" for m
    using assms(1) that False by (simp add: cluster_capped_weight_def word_le_nat_alt)
  then have "(\<Sum>m\<leftarrow>ms. unat (cluster_capped_weight r m)) = (\<Sum>m\<leftarrow>ms. unat (active_weight r m))"
    by (intro arg_cong [of _ _ sum_list] map_cong) auto
  then show ?thesis using assms(2) False by simp
qed

lemma adversarial_check_exact:
  assumes "unat adv * 10000 < 2 ^ 64" and "0 < tw"
  shows "adversarial_check r tw adv = SAFE \<longleftrightarrow> unat adv * 10000 < unat (max_adversarial_bp (sp_params r)) * unat tw"
proof -
  have "unat (adv * 10000 div tw) = unat adv * 10000 div unat tw"
    using assms(1) by (simp add: unat_div_distrib unat_word_ariths)
  moreover have "0 < unat tw" using assms(2) by (simp add: word_less_nat_alt)
  ultimately have "max_adversarial_bp (sp_params r) \<le> adv * 10000 div tw \<longleftrightarrow>
      unat (max_adversarial_bp (sp_params r)) * unat tw \<le> unat adv * 10000"
    by (simp add: word_le_nat_alt less_eq_div_iff_mult_less_eq)
  then show ?thesis using assms(2) by (auto simp: adversarial_check_def Let_def not_le [symmetric])
qed

text \<open>Beyond that bound the product wraps, and an adversary with all the weight passes.\<close>

lemma adversarial_check_wraps:
  "adversarial_check (stake_new default_params) 0x68DB8BAC710CC 0x68DB8BAC710CC = SAFE"
  by (simp add: adversarial_check_def stake_new_def default_params_def)

end
