(* ===== verification/Digest.thy ===== *)
theory Digest
  imports Sha256 "HOL-Library.List_Lexorder"
begin

text \<open>
  Byte strings compared with \<open>memcmp\<close>, and the 32-byte \<open>struct Digest\<close> of
  \<open>src/include/hsma/consensus.hpp\<close>: four limbs copied to and from bytes on a little-endian
  host. Digests are a linear order under \<open>byte_less\<close>.
\<close>

text \<open>\<open>memcmp(a, b, n) < 0\<close> on two byte strings of the same length.\<close>

fun memcmp_less :: "bytes \<Rightarrow> bytes \<Rightarrow> bool" where
  "memcmp_less (x # xs) (y # ys) = (if x \<noteq> y then x < y else memcmp_less xs ys)"
| "memcmp_less _ _ = False"

lemma memcmp_less_iff: "length xs = length ys \<Longrightarrow> memcmp_less xs ys \<longleftrightarrow> xs < ys"
  by (induction xs ys rule: list_induct2) auto

datatype Digest = Dg u64 u64 u64 u64

fun dg_limbs :: "Digest \<Rightarrow> u64 list" where
  "dg_limbs (Dg a b c d) = [a, b, c, d]"

definition to_bytes :: "Digest \<Rightarrow> bytes" where
  "to_bytes d = concat (map (le_bytes 8) (dg_limbs d))"

definition from_bytes :: "bytes \<Rightarrow> Digest" where
  "from_bytes i = Dg (le_word (take 8 i)) (le_word (take 8 (drop 8 i)))
     (le_word (take 8 (drop 16 i))) (le_word (take 8 (drop 24 i)))"

definition byte_less :: "Digest \<Rightarrow> Digest \<Rightarrow> bool" where
  "byte_less a b = memcmp_less (to_bytes a) (to_bytes b)"

definition sha256d :: "bytes \<Rightarrow> Digest" where
  "sha256d p = from_bytes (sha256 p)"

definition zero_digest :: Digest where
  "zero_digest = Dg 0 0 0 0"

lemma length_to_bytes [simp]: "length (to_bytes d) = 32"
  by (cases d) (simp add: to_bytes_def)

lemma from_to_bytes [simp]: "from_bytes (to_bytes d) = d"
  by (cases d) (simp add: to_bytes_def from_bytes_def codec_u64)

lemma to_from_bytes:
  assumes "length i = 32"
  shows "to_bytes (from_bytes i) = i"
proof -
  have "to_bytes (from_bytes i) = take 8 i @ take 8 (drop 8 i) @ take 8 (drop 16 i) @ take 8 (drop 24 i)"
    using assms by (simp add: to_bytes_def from_bytes_def le_bytes_le_word)
  also have "\<dots> = i"
    using assms append_take_drop_id [of 8 i] append_take_drop_id [of 8 "drop 8 i"]
      append_take_drop_id [of 8 "drop 16 i"] by simp
  finally show ?thesis .
qed

lemma to_bytes_inject [simp]: "to_bytes a = to_bytes b \<longleftrightarrow> a = b"
  by (metis from_to_bytes)

instantiation Digest :: linorder
begin

definition less_Digest :: "Digest \<Rightarrow> Digest \<Rightarrow> bool" where
  "less_Digest a b = byte_less a b"

definition less_eq_Digest :: "Digest \<Rightarrow> Digest \<Rightarrow> bool" where
  "less_eq_Digest a b = (byte_less a b \<or> a = b)"

instance
  by standard
    (auto simp: less_Digest_def less_eq_Digest_def byte_less_def memcmp_less_iff not_less_iff_gr_or_eq
      dest: less_trans)

end

lemma byte_less_iff: "byte_less a b \<longleftrightarrow> a < b"
  by (simp add: less_Digest_def)

end
