(* ===== verification/Consensus.thy ===== *)
theory Consensus
  imports Params Digest
begin

text \<open>
  The sampling automaton of \<open>src/include/hsma/consensus.hpp\<close>: one \<open>tick\<close> draws a committee sample
  from a hash stream, tallies the fresh votes of the sample by preference, checks the sampling
  floor and the quorum, and updates the view; \<open>resolve_breaker\<close> picks a winner among frozen
  candidates. The lemmas give the invariant of the view, the meaning of every outcome, the
  bounds on the tally, and that the breaker's winner does not depend on the candidates' order.
\<close>

subsection \<open>The data\<close>

record Snapshot =
  ids :: "Digest list"
  wts :: "u64 list"
  wtotal :: u64
  wroot :: Digest
  self_row :: nat

datatype Kind = FloorAbort | NoQuorum | Switched | Confirmed

fun kind_val :: "Kind \<Rightarrow> u8" where
  "kind_val FloorAbort = 0"
| "kind_val NoQuorum = 1"
| "kind_val Switched = 2"
| "kind_val Confirmed = 3"

definition F_FINAL :: u8 where
  "F_FINAL = 4"

definition F_SUSP :: u8 where
  "F_SUSP = 8"

datatype State = Active | Suspended | Finalized

record View =
  conflict :: Digest
  preference :: Digest
  confidence :: u32
  stall_counter :: u32
  rounds_evaluated :: u64
  vstate :: State
  frozen_members :: "Digest list"

record Vote =
  voter :: nat
  v_epoch :: u64
  v_weight_root :: Digest
  v_conflict :: Digest
  v_round :: u64
  v_preference :: Digest

record TickLog =
  tl_kind :: u8
  tl_confidence :: u32
  tl_stall :: u32
  tl_S :: u64
  tl_k_used :: u64

definition empty_log :: TickLog where
  "empty_log = \<lparr>tl_kind = 0, tl_confidence = 0, tl_stall = 0, tl_S = 0, tl_k_used = 0\<rparr>"

definition drbg_word :: "bytes \<Rightarrow> u64 \<Rightarrow> u64" where
  "drbg_word seed ctr = le_word (take 8 (sha256 (seed @ le_bytes 8 ctr)))"

text \<open>\<open>class Automaton\<close>: the snapshot, its cumulative weights, the epoch, the revoked rows.\<close>

record Automaton =
  sn :: Snapshot
  cum :: "u64 list"
  epoch :: u64
  revoked :: "nat list"

fun cum_sums :: "u64 \<Rightarrow> u64 list \<Rightarrow> u64 list" where
  "cum_sums t [] = []"
| "cum_sums t (w # ws) = (t + w) # cum_sums (t + w) ws"

definition automaton_new :: "Snapshot \<Rightarrow> u64 \<Rightarrow> nat list \<Rightarrow> Automaton" where
  "automaton_new s ep rv = \<lparr>sn = s, cum = cum_sums 0 (wts s), epoch = ep, revoked = rv\<rparr>"

subsection \<open>The sample\<close>

definition sample_size :: "u64 \<Rightarrow> u64" where
  "sample_size round = (if K_ESC_AT_ROUND \<le> round then ucast K_ESCALATED else ucast K_BASE)"

definition tick_seed :: "Automaton \<Rightarrow> View \<Rightarrow> Digest \<Rightarrow> u64 \<Rightarrow> bytes" where
  "tick_seed a cv beacon round =
     ascii ''HSM_PEERSEED_v1'' @ le_bytes 8 (epoch a) @ to_bytes (wroot (sn a)) @ to_bytes beacon
     @ to_bytes (conflict cv) @ le_bytes 8 round @ to_bytes (ids (sn a) ! self_row (sn a))"

definition DRAW_ATTEMPT_CAP :: nat where
  "DRAW_ATTEMPT_CAP = 4096"

text \<open>\<open>std::upper_bound\<close> on the cumulative weights: the first row whose sum exceeds the pick.\<close>

definition upper_bound :: "u64 list \<Rightarrow> u64 \<Rightarrow> nat" where
  "upper_bound c pick = length (takeWhile (\<lambda>x. x \<le> pick) c)"

text \<open>The bounded rejection loop; \<open>fuel\<close> counts the attempts left.\<close>

fun draw :: "Automaton \<Rightarrow> bytes \<Rightarrow> u64 \<Rightarrow> nat \<Rightarrow> u64 \<Rightarrow> nat list \<Rightarrow> nat list" where
  "draw a seed k 0 ctr sel = sel"
| "draw a seed k (Suc fuel) ctr sel =
     (if unat k \<le> length sel then sel
      else
        let pick = drbg_word seed ctr mod wtotal (sn a);
            idx = upper_bound (cum a) pick
        in if idx = self_row (sn a) then draw a seed k fuel (ctr + 1) sel
           else if idx \<in> set sel then draw a seed k fuel (ctr + 1) sel
           else draw a seed k fuel (ctr + 1) (sel @ [idx]))"

subsection \<open>The tally\<close>

text \<open>Whether the first vote of a sampled row counts in this round.\<close>

definition admissible :: "Automaton \<Rightarrow> View \<Rightarrow> u64 \<Rightarrow> Vote \<Rightarrow> bool" where
  "admissible a cv round v \<longleftrightarrow> v_epoch v = epoch a \<and> v_weight_root v = wroot (sn a)
     \<and> v_conflict v = conflict cv \<and> v_round v = round \<and> voter v \<notin> set (revoked a)"

fun add_weight :: "Digest \<Rightarrow> u64 \<Rightarrow> (Digest \<times> u64) list \<Rightarrow> (Digest \<times> u64) list" where
  "add_weight p w [] = [(p, w)]"
| "add_weight p w ((q, x) # ts) = (if q = p then (q, x + w) # ts else (q, x) # add_weight p w ts)"

fun tally :: "Automaton \<Rightarrow> View \<Rightarrow> u64 \<Rightarrow> Vote list \<Rightarrow> nat list \<Rightarrow> u64 \<Rightarrow> (Digest \<times> u64) list
    \<Rightarrow> u64 \<times> (Digest \<times> u64) list" where
  "tally a cv round pool [] S ts = (S, ts)"
| "tally a cv round pool (q # sel) S ts =
     (case find (\<lambda>c. voter c = q) pool of
        None \<Rightarrow> tally a cv round pool sel S ts
      | Some v \<Rightarrow>
          if admissible a cv round v then
            tally a cv round pool sel (S + wts (sn a) ! voter v)
              (add_weight (v_preference v) (wts (sn a) ! voter v) ts)
          else tally a cv round pool sel S ts)"

text \<open>The leading preference: more weight, or the same weight and a smaller digest.\<close>

definition beats :: "Digest \<times> u64 \<Rightarrow> Digest \<times> u64 \<Rightarrow> bool" where
  "beats x y \<longleftrightarrow> snd x > snd y \<or> (snd x = snd y \<and> byte_less (fst x) (fst y))"

definition leader :: "(Digest \<times> u64) list \<Rightarrow> Digest \<times> u64" where
  "leader ts = foldl (\<lambda>lead x. if beats x lead then x else lead) (ts ! 0) (tl ts)"

definition floor_missed :: "u64 \<Rightarrow> nat \<Rightarrow> u64 \<Rightarrow> u64 \<Rightarrow> bool" where
  "floor_missed S n k tw \<longleftrightarrow>
     (ucast S * 10000 * of_nat n :: u128) < word_of_int PHI_FLOOR_BP * ucast k * ucast tw"

definition quorum_reached :: "u64 \<Rightarrow> u64 \<Rightarrow> bool" where
  "quorum_reached w S \<longleftrightarrow> word_of_int ALPHA_BP * ucast S \<le> (ucast w * 10000 :: u128)"

subsection \<open>The tick\<close>

text \<open>The floor and quorum checks on a tally: the view and the log kind.\<close>

definition judge :: "Automaton \<Rightarrow> View \<Rightarrow> u64 \<Rightarrow> u64 \<Rightarrow> (Digest \<times> u64) list \<Rightarrow> View \<times> u8" where
  "judge a cv k S ts =
     (if floor_missed S (length (wts (sn a))) k (wtotal (sn a)) then
        (cv\<lparr>confidence := 0, stall_counter := stall_counter cv + 1\<rparr>, kind_val FloorAbort)
      else
        let lead = leader ts
        in if quorum_reached (snd lead) S then
             (if fst lead = preference cv then
                (cv\<lparr>stall_counter := 0, confidence := confidence cv + 1\<rparr>, kind_val Confirmed)
              else (cv\<lparr>stall_counter := 0, preference := fst lead, confidence := 1\<rparr>, kind_val Switched))
           else (cv\<lparr>confidence := 0, stall_counter := stall_counter cv + 1\<rparr>, kind_val NoQuorum))"

definition tick :: "Automaton \<Rightarrow> View \<Rightarrow> Digest \<Rightarrow> Vote list \<Rightarrow> TickLog \<times> View" where
  "tick a cv beacon pool =
     (if vstate cv \<noteq> Active then (empty_log, cv)
      else
        let cv = cv\<lparr>rounds_evaluated := rounds_evaluated cv + 1\<rparr>;
            round = rounds_evaluated cv;
            k = sample_size round;
            lg = empty_log\<lparr>tl_k_used := k\<rparr>;
            seed = tick_seed a cv beacon round
        in if wtotal (sn a) = 0 then
             let cv = cv\<lparr>confidence := 0, stall_counter := stall_counter cv + 1\<rparr>;
                 lg = lg\<lparr>tl_kind := kind_val FloorAbort, tl_confidence := confidence cv,
                         tl_stall := stall_counter cv\<rparr>
             in if STALL_LIMIT \<le> stall_counter cv
                then (lg\<lparr>tl_kind := tl_kind lg OR F_SUSP\<rparr>, cv\<lparr>vstate := Suspended\<rparr>)
                else (lg, cv)
           else
             let sel = draw a seed k DRAW_ATTEMPT_CAP 0 [];
                 (S, ts) = tally a cv round pool sel 0 [];
                 (cv, kd) = judge a cv k S ts;
                 lg = lg\<lparr>tl_S := S, tl_kind := kd, tl_confidence := confidence cv,
                         tl_stall := stall_counter cv\<rparr>
             in if BETA_CONFIRMATIONS \<le> confidence cv
                then (lg\<lparr>tl_kind := tl_kind lg OR F_FINAL\<rparr>, cv\<lparr>vstate := Finalized\<rparr>)
                else if STALL_LIMIT \<le> stall_counter cv
                then (lg\<lparr>tl_kind := tl_kind lg OR F_SUSP\<rparr>, cv\<lparr>vstate := Suspended\<rparr>)
                else (lg, cv))"

subsection \<open>The stall breaker\<close>

definition hash_pair :: "bytes \<Rightarrow> Digest \<Rightarrow> bytes" where
  "hash_pair b d = sha256 (b @ to_bytes d)"

definition breaks :: "bytes \<Rightarrow> Digest \<Rightarrow> Digest \<Rightarrow> bool" where
  "breaks bb d best \<longleftrightarrow> memcmp_less (hash_pair bb best) (hash_pair bb d)
     \<or> (hash_pair bb d = hash_pair bb best \<and> byte_less d best)"

text \<open>The stagger and the winner; no candidates is an access out of range, \<^const>\<open>None\<close>.\<close>

definition resolve_breaker :: "Digest list \<Rightarrow> Digest \<Rightarrow> Digest \<Rightarrow> (u64 \<times> Digest) option" where
  "resolve_breaker frozen beacon confl =
     (case frozen of
        [] \<Rightarrow> None
      | d # ds \<Rightarrow>
          let bb = to_bytes beacon;
              winner = foldl (\<lambda>best x. if breaks bb x best then x else best) d ds;
              w = le_word (take 8 (sha256 (to_bytes beacon @ to_bytes confl)))
          in Some (w mod word_of_int GOLDEN_MAX_GRACE_MS, winner))"

subsection \<open>The view\<close>

text \<open>What holds of the view between ticks.\<close>

definition view_ok :: "View \<Rightarrow> bool" where
  "view_ok cv \<longleftrightarrow> (vstate cv = Active \<longrightarrow> confidence cv < BETA_CONFIRMATIONS \<and> stall_counter cv < STALL_LIMIT)
     \<and> (vstate cv = Finalized \<longrightarrow> confidence cv = BETA_CONFIRMATIONS)"

lemma judge_counters:
  assumes "judge a cv k S ts = (cv', kd)" and "confidence cv < BETA_CONFIRMATIONS"
    and "stall_counter cv < STALL_LIMIT"
  shows "confidence cv' \<le> BETA_CONFIRMATIONS" and "stall_counter cv' \<le> STALL_LIMIT"
    and "vstate cv' = vstate cv"
  using assms
  by (auto simp: judge_def Let_def param_defs word_less_nat_alt word_le_nat_alt unat_word_ariths
      split: if_splits)

lemma tick_view_ok: "view_ok cv \<Longrightarrow> view_ok (snd (tick a cv beacon pool))"
proof (cases "vstate cv = Active")
  case True
  assume ok: "view_ok cv"
  let ?cv = "cv\<lparr>rounds_evaluated := rounds_evaluated cv + 1\<rparr>"
  let ?k = "sample_size (rounds_evaluated ?cv)"
  obtain S ts where t: "tally a ?cv (rounds_evaluated ?cv) pool
      (draw a (tick_seed a ?cv beacon (rounds_evaluated ?cv)) ?k DRAW_ATTEMPT_CAP 0 []) 0 [] = (S, ts)"
    by fastforce
  obtain cv' kd where j: "judge a ?cv ?k S ts = (cv', kd)" by fastforce
  have b: "confidence ?cv < BETA_CONFIRMATIONS" "stall_counter ?cv < STALL_LIMIT"
    using ok True by (simp_all add: view_ok_def)
  note jc = judge_counters [OF j b]
  show ?thesis
  proof (cases "wtotal (sn a) = 0")
    case True
    then show ?thesis
      using \<open>vstate cv = Active\<close> ok by (simp add: tick_def view_ok_def Let_def not_le param_defs)
  next
    case False
    then show ?thesis
      using True jc t j by (auto simp: tick_def view_ok_def Let_def)
  qed
qed (simp add: tick_def)

text \<open>A view that is not active is left alone.\<close>

lemma tick_terminal: "vstate cv \<noteq> Active \<Longrightarrow> tick a cv beacon pool = (empty_log, cv)"
  by (simp add: tick_def)

subsection \<open>The sample is a set of other rows\<close>

lemma draw_props:
  assumes "distinct sel" and "self_row (sn a) \<notin> set sel" and "length sel \<le> unat k"
  shows "distinct (draw a seed k fuel ctr sel) \<and> self_row (sn a) \<notin> set (draw a seed k fuel ctr sel)
    \<and> length (draw a seed k fuel ctr sel) \<le> unat k"
  using assms by (induction fuel arbitrary: ctr sel) (simp_all add: Let_def)

lemma cum_sums_last:
  "unat t + (\<Sum>w\<leftarrow>ws. unat w) < 2 ^ 64 \<Longrightarrow> ws \<noteq> [] \<Longrightarrow>
    unat (last (cum_sums t ws)) = unat t + (\<Sum>w\<leftarrow>ws. unat w)"
proof (induction ws arbitrary: t)
  case (Cons w ws)
  have t: "unat (t + w) = unat t + unat w" using Cons.prems by (simp add: unat_word_ariths)
  show ?case
  proof (cases ws)
    case Nil
    then show ?thesis using t by simp
  next
    case (Cons w' ws')
    then show ?thesis using Cons.IH [of "t + w"] Cons.prems t by simp
  qed
qed simp

lemma length_cum_sums [simp]: "length (cum_sums t ws) = length ws"
  by (induction ws arbitrary: t) simp_all

lemma takeWhile_shorter: "x \<in> set xs \<Longrightarrow> \<not> P x \<Longrightarrow> length (takeWhile P xs) < length xs"
  by (induction xs) auto

text \<open>With an honest total every sampled row is a row of the snapshot.\<close>

lemma draw_in_range:
  assumes tw: "unat (wtotal (sn a)) = (\<Sum>w\<leftarrow>wts (sn a). unat w)" and c: "cum a = cum_sums 0 (wts (sn a))"
    and pos: "0 < wtotal (sn a)" and sel: "\<forall>i\<in>set sel. i < length (wts (sn a))"
  shows "\<forall>i\<in>set (draw a seed k fuel ctr sel). i < length (wts (sn a))"
  using sel
proof (induction fuel arbitrary: ctr sel)
  case (Suc fuel)
  let ?p = "drbg_word seed ctr mod wtotal (sn a)"
  have ne: "wts (sn a) \<noteq> []" using tw pos by (auto simp: word_less_nat_alt)
  have "unat ?p < unat (wtotal (sn a))" using pos by (simp add: unat_mod word_less_nat_alt)
  moreover have "unat (last (cum a)) = unat (wtotal (sn a))"
    using cum_sums_last [of 0 "wts (sn a)"] tw ne unsigned_less [of "wtotal (sn a)", where ?'a = nat]
    by (simp add: c)
  ultimately have big: "\<not> last (cum a) \<le> ?p" by (simp add: word_le_nat_alt)
  have cne: "cum a \<noteq> []" using ne c by (cases "wts (sn a)") auto
  have "upper_bound (cum a) ?p < length (cum a)"
    unfolding upper_bound_def by (rule takeWhile_shorter [OF last_in_set [OF cne]]) (rule big)
  then have "upper_bound (cum a) ?p < length (wts (sn a))" by (simp add: c)
  then have "\<forall>i\<in>set (sel @ [upper_bound (cum a) ?p]). i < length (wts (sn a))"
    using Suc.prems by simp
  then show ?case using Suc.IH [OF Suc.prems] Suc.IH Suc.prems by (simp add: Let_def del: set_append)
qed simp

subsection \<open>What the tally counts\<close>

text \<open>The votes that count: the first vote of each sampled row, when admissible.\<close>

definition counted :: "Automaton \<Rightarrow> View \<Rightarrow> u64 \<Rightarrow> Vote list \<Rightarrow> nat list \<Rightarrow> Vote list" where
  "counted a cv round pool sel = List.map_filter
     (\<lambda>q. case find (\<lambda>c. voter c = q) pool of
            None \<Rightarrow> None
          | Some v \<Rightarrow> if admissible a cv round v then Some v else None) sel"

definition vote_weight :: "Automaton \<Rightarrow> Vote \<Rightarrow> u64" where
  "vote_weight a v = wts (sn a) ! voter v"

definition support :: "Automaton \<Rightarrow> Digest \<Rightarrow> Vote list \<Rightarrow> u64" where
  "support a p vs = (\<Sum>v\<leftarrow>filter (\<lambda>v. v_preference v = p) vs. vote_weight a v)"

lemma map_of_add_weight:
  "map_of (add_weight p w ts) q =
    (if q = p then Some ((case map_of ts p of None \<Rightarrow> 0 | Some x \<Rightarrow> x) + w) else map_of ts q)"
  by (induction ts) (auto split: option.split)

lemma fst_add_weight: "fst ` set (add_weight p w ts) = insert p (fst ` set ts)"
proof (induction ts)
  case (Cons x ts)
  then show ?case by (cases x) auto
qed simp

lemma distinct_add_weight: "distinct (map fst ts) \<Longrightarrow> distinct (map fst (add_weight p w ts))"
proof (induction ts)
  case (Cons x ts)
  obtain q y where x: "x = (q, y)" by fastforce
  have "set (map fst (add_weight p w ts)) = insert p (set (map fst ts))"
    using fst_add_weight by (simp add: image_image)
  then show ?case using Cons x by auto
qed simp

lemma counted_Cons:
  "counted a cv r pool (q # sel) =
    (case find (\<lambda>c. voter c = q) pool of
       None \<Rightarrow> counted a cv r pool sel
     | Some v \<Rightarrow> if admissible a cv r v then v # counted a cv r pool sel else counted a cv r pool sel)"
  by (simp add: counted_def List.map_filter_def split: option.split)

lemma tally_counted:
  assumes "tally a cv r pool sel S ts = (S', ts')" and "distinct (map fst ts)"
  shows "S' = S + (\<Sum>v\<leftarrow>counted a cv r pool sel. vote_weight a v)"
    and "distinct (map fst ts')"
    and "fst ` set ts' = fst ` set ts \<union> v_preference ` set (counted a cv r pool sel)"
    and "\<And>p. p \<in> fst ` set ts' \<Longrightarrow> map_of ts' p =
      Some ((case map_of ts p of None \<Rightarrow> 0 | Some x \<Rightarrow> x) + support a p (counted a cv r pool sel))"
proof -
  have "S' = S + (\<Sum>v\<leftarrow>counted a cv r pool sel. vote_weight a v) \<and> distinct (map fst ts')
    \<and> fst ` set ts' = fst ` set ts \<union> v_preference ` set (counted a cv r pool sel)
    \<and> (\<forall>p\<in>fst ` set ts'. map_of ts' p =
        Some ((case map_of ts p of None \<Rightarrow> 0 | Some x \<Rightarrow> x) + support a p (counted a cv r pool sel)))"
    using assms
  proof (induction sel arbitrary: S ts)
    case Nil
    then show ?case
      by (auto simp: counted_def List.map_filter_def support_def)
  next
    case (Cons q sel)
    show ?case
    proof (cases "find (\<lambda>c. voter c = q) pool")
      case None
      then have "tally a cv r pool sel S ts = (S', ts')" using Cons.prems(1) by simp
      from Cons.IH [OF this Cons.prems(2)] show ?thesis unfolding counted_Cons None option.case .
    next
      case (Some v)
      show ?thesis
      proof (cases "admissible a cv r v")
        case False
        then have "tally a cv r pool sel S ts = (S', ts')" using Cons.prems(1) Some by simp
        from Cons.IH [OF this Cons.prems(2)] show ?thesis
          unfolding counted_Cons Some option.case if_not_P [OF False] .
      next
        case True
        let ?ts = "add_weight (v_preference v) (vote_weight a v) ts"
        have t: "tally a cv r pool sel (S + vote_weight a v) ?ts = (S', ts')"
          using Cons.prems(1) Some True by (simp add: vote_weight_def)
        note ih = Cons.IH [OF t distinct_add_weight [OF Cons.prems(2)]]
        have c: "counted a cv r pool (q # sel) = v # counted a cv r pool sel"
          using Some True by (simp add: counted_Cons)
        have "map_of ts' p = Some ((case map_of ts p of None \<Rightarrow> 0 | Some x \<Rightarrow> x)
            + support a p (v # counted a cv r pool sel))" if "p \<in> fst ` set ts'" for p
        proof -
          have "map_of ts' p = Some ((case map_of ?ts p of None \<Rightarrow> 0 | Some x \<Rightarrow> x)
              + support a p (counted a cv r pool sel))" using ih that by blast
          then show ?thesis by (simp add: map_of_add_weight support_def add.assoc)
        qed
        then have w: "\<forall>p\<in>fst ` set ts'. map_of ts' p = Some ((case map_of ts p of None \<Rightarrow> 0 | Some x \<Rightarrow> x)
            + support a p (v # counted a cv r pool sel))" by blast
        have "S' = S + (\<Sum>v\<leftarrow>v # counted a cv r pool sel. vote_weight a v)"
          "distinct (map fst ts')"
          "fst ` set ts' = fst ` set ts \<union> v_preference ` set (v # counted a cv r pool sel)"
          using ih by (simp_all add: fst_add_weight add.assoc)
        then show ?thesis unfolding c using w by (intro conjI)
      qed
    qed
  qed
  then show "S' = S + (\<Sum>v\<leftarrow>counted a cv r pool sel. vote_weight a v)"
    and "distinct (map fst ts')"
    and "fst ` set ts' = fst ` set ts \<union> v_preference ` set (counted a cv r pool sel)"
    and "\<And>p. p \<in> fst ` set ts' \<Longrightarrow> map_of ts' p =
      Some ((case map_of ts p of None \<Rightarrow> 0 | Some x \<Rightarrow> x) + support a p (counted a cv r pool sel))"
    by blast+
qed

subsection \<open>The leader\<close>

lemma foldl_best:
  fixes before :: "'a \<Rightarrow> 'a \<Rightarrow> bool"
  assumes irr: "\<And>x. \<not> before x x" and tr: "\<And>x y z. before x y \<Longrightarrow> before y z \<Longrightarrow> before x z"
    and tot: "\<And>x y. before x y \<or> x = y \<or> before y x"
  shows "foldl (\<lambda>b x. if before x b then x else b) d ds \<in> insert d (set ds)
    \<and> (\<forall>y\<in>insert d (set ds). \<not> before y (foldl (\<lambda>b x. if before x b then x else b) d ds))"
proof (induction ds arbitrary: d)
  case (Cons x ds)
  let ?d = "if before x d then x else d"
  let ?r = "foldl (\<lambda>b x. if before x b then x else b) ?d ds"
  have ih: "?r \<in> insert ?d (set ds)" "\<And>y. y \<in> insert ?d (set ds) \<Longrightarrow> \<not> before y ?r"
    using Cons.IH [of ?d] by blast+
  have "\<not> before y ?r" if "y \<in> {d, x}" for y
  proof -
    have "?d = y \<or> before ?d y" using that tot [of x d] by auto
    then show ?thesis using ih(2) [of ?d] tr [of ?d y ?r] by auto
  qed
  then show ?case using ih by (auto split: if_splits)
qed (simp add: irr)

lemma beats_order:
  "\<not> beats x x" "beats x y \<Longrightarrow> beats y z \<Longrightarrow> beats x z" "beats x y \<or> x = y \<or> beats y x"
  by (auto simp: beats_def byte_less_iff prod_eq_iff)

lemma leader_max:
  assumes "ts \<noteq> []"
  shows "leader ts \<in> set ts" and "y \<in> set ts \<Longrightarrow> \<not> beats y (leader ts)"
proof -
  obtain t us where ts: "ts = t # us" using assms by (cases ts) auto
  note b = foldl_best [of beats t us, OF beats_order]
  show "leader ts \<in> set ts" and "y \<in> set ts \<Longrightarrow> \<not> beats y (leader ts)"
    using b by (auto simp: leader_def ts)
qed

subsection \<open>What moves the confidence\<close>

text \<open>An empty tally never passes the floor, so the leader is only read when there is one.\<close>

lemma unat_ucast_128: "unat (ucast (x :: u64) :: u128) = unat x"
  using unsigned_less [of x, where ?'a = nat] by (simp add: unsigned_ucast_eq take_bit_eq_mod)

lemma floor_missed_empty:
  assumes "0 < tw"
  shows "floor_missed 0 n (sample_size r) tw"
proof -
  have u: "unat (ucast (sample_size r) * ucast tw :: u128) = unat (sample_size r) * unat tw"
  proof -
    have "unat (sample_size r) * unat tw < 2 ^ 64 * 2 ^ 64"
      using unsigned_less [of "sample_size r", where ?'a = nat] unsigned_less [of tw, where ?'a = nat]
      by (intro mult_strict_mono) simp_all
    then show ?thesis by (simp add: unat_word_ariths unat_ucast_128)
  qed
  have "unat (sample_size r) \<le> 40" "0 < unat (sample_size r)"
    by (simp_all add: sample_size_def param_defs)
  moreover have "unat tw < 2 ^ 64" "0 < unat tw"
    using unsigned_less [of tw, where ?'a = nat] assms by (simp_all add: word_less_nat_alt)
  ultimately have "0 < 5000 * (unat (sample_size r) * unat tw)"
    "5000 * (unat (sample_size r) * unat tw) < 2 ^ 128"
  proof -
    have "unat (sample_size r) * unat tw \<le> 40 * 2 ^ 64"
      using \<open>unat (sample_size r) \<le> 40\<close> \<open>unat tw < 2 ^ 64\<close> by (intro mult_le_mono) simp_all
    then show "5000 * (unat (sample_size r) * unat tw) < 2 ^ 128" by (simp add: mult.commute)
  qed simp
  moreover have "unat ((5000 :: u128) * x) = 5000 * unat x" if "5000 * unat x < 2 ^ 128" for x :: u128
    using that by (simp add: unat_word_ariths)
  ultimately have "0 < unat (5000 * (ucast (sample_size r) * ucast tw) :: u128)" using u by metis
  then show ?thesis
    by (simp add: floor_missed_def param_defs word_less_nat_alt mult.assoc)
qed

text \<open>
  A tick leaves a non-zero confidence only when the votes it counted pass the floor and the
  votes for the preference it leaves reach the quorum of the counted weight.
\<close>

definition tick_votes :: "Automaton \<Rightarrow> View \<Rightarrow> Digest \<Rightarrow> Vote list \<Rightarrow> Vote list" where
  "tick_votes a cv beacon pool =
     (let cv = cv\<lparr>rounds_evaluated := rounds_evaluated cv + 1\<rparr>; r = rounds_evaluated cv
      in counted a cv r pool (draw a (tick_seed a cv beacon r) (sample_size r) DRAW_ATTEMPT_CAP 0 []))"

lemma tick_quorum:
  assumes act: "vstate cv = Active" and run: "tick a cv beacon pool = (lg, cv')"
    and conf: "confidence cv' \<noteq> 0"
  defines "vs \<equiv> tick_votes a cv beacon pool"
  defines "S \<equiv> \<Sum>v\<leftarrow>vs. vote_weight a v"
  shows "\<not> floor_missed S (length (wts (sn a))) (sample_size (rounds_evaluated cv + 1)) (wtotal (sn a))"
    and "quorum_reached (support a (preference cv') vs) S"
    and "preference cv' \<in> v_preference ` set vs" and "tl_S lg = S"
proof -
  let ?cv = "cv\<lparr>rounds_evaluated := rounds_evaluated cv + 1\<rparr>"
  let ?r = "rounds_evaluated cv + 1"
  let ?sel = "draw a (tick_seed a ?cv beacon ?r) (sample_size ?r) DRAW_ATTEMPT_CAP 0 []"
  obtain S0 ts where t: "tally a ?cv ?r pool ?sel 0 [] = (S0, ts)" by fastforce
  obtain cv1 kd where j: "judge a ?cv (sample_size ?r) S0 ts = (cv1, kd)" by fastforce
  have nz: "wtotal (sn a) \<noteq> 0" using run act conf by (auto simp: tick_def Let_def split: if_splits)
  have vs: "counted a ?cv ?r pool ?sel = vs" by (simp add: vs_def tick_votes_def Let_def)
  note tc = tally_counted [OF t, unfolded vs]
  have S0: "S0 = S" using tc(1) by (simp add: S_def)
  have cv': "confidence cv' = confidence cv1" "preference cv' = preference cv1" "tl_S lg = S0"
    using run act nz t j by (auto simp: tick_def Let_def split: if_splits)
  have fl: "\<not> floor_missed S0 (length (wts (sn a))) (sample_size ?r) (wtotal (sn a))"
    and q: "quorum_reached (snd (leader ts)) S0" and pr: "preference cv1 = fst (leader ts)"
    using j conf cv' by (auto simp: judge_def Let_def split: if_splits)
  have "ts \<noteq> []"
  proof
    assume "ts = []"
    then have "S0 = 0" using tc(3) S0 by (simp add: S_def)
    then show False using fl floor_missed_empty [of "wtotal (sn a)"] nz by (simp add: word_gt_0)
  qed
  then have "leader ts \<in> set ts" by (rule leader_max)
  then have lm: "map_of ts (fst (leader ts)) = Some (snd (leader ts))" and "fst (leader ts) \<in> fst ` set ts"
    using tc(2) by (simp_all add: map_of_is_SomeI)
  then have "snd (leader ts) = support a (fst (leader ts)) vs" and "fst (leader ts) \<in> v_preference ` set vs"
    using tc(3,4) by simp_all
  then show "\<not> floor_missed S (length (wts (sn a))) (sample_size ?r) (wtotal (sn a))"
    and "quorum_reached (support a (preference cv') vs) S"
    and "preference cv' \<in> v_preference ` set vs" and "tl_S lg = S"
    using fl q pr cv' S0 by simp_all
qed

text \<open>
  The floor scales with the sample: in the committee of 224 a base sample passes with less than a
  twentieth of the total weight, well below the adversary's share.
\<close>

lemma floor_below_adversary:
  "\<not> floor_missed 44643 224 (sample_size 1) 1000000 \<and> (44643 :: int) * BP_ONE < F_BP * 1000000"
  by (simp add: floor_missed_def sample_size_def param_defs word_le_nat_alt)

subsection \<open>The breaker\<close>

lemma breaks_order:
  "\<not> breaks bb x x" "breaks bb x y \<Longrightarrow> breaks bb y z \<Longrightarrow> breaks bb x z"
  "breaks bb x y \<or> x = y \<or> breaks bb y x"
  by (auto simp: breaks_def hash_pair_def memcmp_less_iff length_sha256 byte_less_iff)

text \<open>The winner is a candidate that no candidate breaks; it depends on the set of candidates only.\<close>

lemma resolve_breaker_winner:
  assumes "resolve_breaker frozen beacon confl = Some (stagger, w)"
  shows "w \<in> set frozen" and "\<forall>d\<in>set frozen. \<not> breaks (to_bytes beacon) d w" and "unat stagger < 400"
proof -
  obtain d ds where f: "frozen = d # ds" using assms by (cases frozen) (auto simp: resolve_breaker_def)
  note b = foldl_best [of "breaks (to_bytes beacon)" d ds, OF breaks_order]
  show "w \<in> set frozen" and "\<forall>d\<in>set frozen. \<not> breaks (to_bytes beacon) d w"
    using assms b by (auto simp: resolve_breaker_def f Let_def)
  show "unat stagger < 400"
    using assms by (auto simp: resolve_breaker_def f Let_def param_defs unat_mod)
qed

lemma resolve_breaker_set:
  assumes "set frozen = set frozen'"
  shows "resolve_breaker frozen beacon confl = resolve_breaker frozen' beacon confl"
proof (cases frozen)
  case Nil
  then show ?thesis using assms by (simp add: resolve_breaker_def)
next
  case (Cons d ds)
  then obtain e es where f': "frozen' = e # es" using assms by (cases frozen') auto
  obtain s w where r: "resolve_breaker frozen beacon confl = Some (s, w)" by (simp add: resolve_breaker_def Cons Let_def)
  obtain s' w' where r': "resolve_breaker frozen' beacon confl = Some (s', w')"
    by (simp add: resolve_breaker_def f' Let_def)
  have "\<not> breaks (to_bytes beacon) w' w" "\<not> breaks (to_bytes beacon) w w'"
    using resolve_breaker_winner [OF r] resolve_breaker_winner [OF r'] assms by blast+
  then have "w = w'" using breaks_order(3) by blast
  moreover have "s = s'" using r r' by (simp add: resolve_breaker_def Cons f' Let_def)
  ultimately show ?thesis using r r' by simp
qed

end
