(* ===== verification/Mssc_Loop.thy ===== *)
theory Mssc_Loop
  imports Consensus
begin

text \<open>
  The live sampling loop of \<open>src/include/hsma/msscloop.hpp\<close>: weights attributed by member
  identity, the freshness gate of a vote, one round over the reported preferences, and the
  stall breaker. The lemmas show that a round only raises the confidence on agreeing weight
  above the adversary's share of the total, and what happens where the total is zero.
\<close>

record LoopConfig =
  alpha_bp :: u64
  phi_floor_bp :: u64
  beta :: u32
  cfg_k :: u32
  stall_limit :: u32
  max_rounds :: u32

definition default_config :: LoopConfig where
  "default_config = \<lparr>alpha_bp = 7500, phi_floor_bp = 5000, beta = 5, cfg_k = 2, stall_limit = 50,
     max_rounds = 30\<rparr>"

record LoopPeer =
  peer_ip :: u32
  peer_port :: u16
  peer_weight :: u64
  peer_member :: u64

record NodeState =
  n_conflict :: Digest
  n_preference :: Digest
  n_confidence :: u32
  n_stall :: u32
  n_rounds :: u32
  n_state :: State
  self_weight :: u64
  total_weight :: u64
  peers :: "LoopPeer list"

definition weight_of :: "NodeState \<Rightarrow> u64 \<Rightarrow> u64" where
  "weight_of ns m = (case find (\<lambda>p. peer_member p = m) (peers ns) of Some p \<Rightarrow> peer_weight p | None \<Rightarrow> 0)"

definition vote_fresh :: "u32 \<Rightarrow> u64 \<Rightarrow> Digest \<Rightarrow> Digest \<Rightarrow> Digest \<Rightarrow> Digest \<Rightarrow> u64 \<Rightarrow> u64 \<Rightarrow> bool" where
  "vote_fresh vepoch vround vwr cur_wr vconflict cur_conflict cur_epoch cur_round \<longleftrightarrow>
     (if vepoch \<noteq> ucast cur_epoch then False
      else if vwr \<noteq> cur_wr then False
      else if vconflict \<noteq> cur_conflict then False
      else (if cur_round \<le> vround then vround - cur_round else cur_round - vround) \<le> 1)"

record RoundResult =
  rr_kind :: Kind
  sampled_weight :: u64
  agreeing_weight :: u64
  flipped :: bool

definition have_pref :: "NodeState \<Rightarrow> bool" where
  "have_pref ns \<longleftrightarrow> n_preference ns \<noteq> zero_digest"

definition sampled_sum :: "NodeState \<Rightarrow> (u64 \<times> Digest) list \<Rightarrow> u64" where
  "sampled_sum ns prefs =
     fold (\<lambda>(m, p) s. s + weight_of ns m) prefs (if have_pref ns then self_weight ns else 0)"

definition agreeing_sum :: "NodeState \<Rightarrow> (u64 \<times> Digest) list \<Rightarrow> u64" where
  "agreeing_sum ns prefs =
     (if have_pref ns then
        fold (\<lambda>(m, p) s. if p = n_preference ns then s + weight_of ns m else s) prefs (self_weight ns)
      else 0)"

text \<open>The switch rule: the heaviest reported voter's preference, ties to the smaller digest.\<close>

definition majority_step :: "NodeState \<Rightarrow> u64 \<times> Digest \<Rightarrow> Digest \<times> u64 \<times> bool \<Rightarrow> Digest \<times> u64 \<times> bool" where
  "majority_step ns mp acc =
     (case mp of (m, pref) \<Rightarrow> case acc of (maj, maj_w, any) \<Rightarrow>
        let w = weight_of ns m
        in if w = 0 then acc
           else if \<not> any \<or> w > maj_w \<or> (w = maj_w \<and> byte_less pref maj) then (pref, w, True)
           else acc)"

definition majority :: "NodeState \<Rightarrow> (u64 \<times> Digest) list \<Rightarrow> Digest \<times> u64 \<times> bool" where
  "majority ns prefs = fold (majority_step ns) prefs
     (if have_pref ns then n_preference ns else zero_digest, if have_pref ns then self_weight ns else 0,
      have_pref ns)"

definition under_floor :: "NodeState \<Rightarrow> LoopConfig \<Rightarrow> u64 \<Rightarrow> bool" where
  "under_floor ns cfg sampled \<longleftrightarrow> 0 < total_weight ns
     \<and> (ucast sampled * 10000 :: u128) < ucast (phi_floor_bp cfg) * ucast (total_weight ns)"

definition alpha_reached :: "LoopConfig \<Rightarrow> u64 \<Rightarrow> u64 \<Rightarrow> bool" where
  "alpha_reached cfg agreeing sampled \<longleftrightarrow>
     ucast (alpha_bp cfg) * ucast sampled \<le> (ucast agreeing * 10000 :: u128)"

definition loop_tick :: "NodeState \<Rightarrow> LoopConfig \<Rightarrow> (u64 \<times> Digest) list \<Rightarrow> RoundResult \<times> NodeState" where
  "loop_tick ns0 cfg prefs =
     (let ns = ns0\<lparr>n_rounds := n_rounds ns0 + 1\<rparr>;
          sampled = sampled_sum ns prefs
      in if under_floor ns cfg sampled then
           (\<lparr>rr_kind = FloorAbort, sampled_weight = 0, agreeing_weight = 0, flipped = False\<rparr>,
            ns\<lparr>n_stall := n_stall ns + 1\<rparr>)
         else
           let agreeing = agreeing_sum ns prefs;
               (rr, ns) =
                 (if alpha_reached cfg agreeing sampled then
                    let conf = n_confidence ns + 1;
                        ns = ns\<lparr>n_confidence := conf, n_stall := 0\<rparr>
                    in (\<lparr>rr_kind = (if beta cfg \<le> conf then Confirmed else NoQuorum),
                          sampled_weight = sampled, agreeing_weight = agreeing, flipped = False\<rparr>,
                        if beta cfg \<le> conf then ns\<lparr>n_state := Finalized\<rparr> else ns)
                  else
                    let flip1 = (have_pref ns \<and> 0 < n_confidence ns);
                        (maj, maj_w, any) = majority ns prefs;
                        flip2 = (any \<and> maj \<noteq> n_preference ns);
                        ns = ns\<lparr>n_confidence := 0,
                                n_preference := (if flip2 then maj else n_preference ns),
                                n_stall := n_stall ns + 1\<rparr>
                    in (\<lparr>rr_kind = Switched, sampled_weight = sampled, agreeing_weight = agreeing,
                          flipped = (flip1 \<or> flip2)\<rparr>, ns))
           in (rr, if stall_limit cfg \<le> n_stall ns then ns\<lparr>n_state := Suspended\<rparr> else ns))"

record BreakerResult =
  suspended :: bool
  resolved :: bool
  winner :: Digest
  stagger_ms :: u64

definition no_result :: BreakerResult where
  "no_result = \<lparr>suspended = False, resolved = False, winner = zero_digest, stagger_ms = 0\<rparr>"

text \<open>\<open>beacon\<close> is the value of \<open>epoch_beacon(committee, next_epoch, prev_beacon)\<close>.\<close>

definition breaker_tick :: "NodeState \<Rightarrow> LoopConfig \<Rightarrow> Digest \<Rightarrow> Digest list \<Rightarrow> BreakerResult \<times> NodeState" where
  "breaker_tick ns cfg beacon frozen =
     (let fires = (n_state ns \<noteq> Suspended \<and> stall_limit cfg \<le> n_stall ns \<and> n_state ns = Active);
          ns1 = (if fires then ns\<lparr>n_state := Suspended\<rparr> else ns);
          br = no_result\<lparr>suspended := fires\<rparr>
      in if n_state ns \<noteq> Suspended \<and> \<not> fires then (br, ns)
         else if length frozen < 2 then (br\<lparr>suspended := True\<rparr>, ns1)
         else case resolve_breaker frozen beacon (n_conflict ns1) of
           None \<Rightarrow> (br, ns1)
         | Some (stagger, w) \<Rightarrow>
             (br\<lparr>stagger_ms := stagger, resolved := True, winner := w\<rparr>,
              ns1\<lparr>n_preference := w, n_confidence := 0, n_stall := 0, n_state := Active\<rparr>))"

subsection \<open>The freshness gate\<close>

lemma near: "b \<le> a \<Longrightarrow> a - b \<le> Suc 0 \<longleftrightarrow> \<bar>int a - int b\<bar> \<le> 1"
  by linarith

lemma vote_fresh_iff:
  "vote_fresh ve vr vwr wr vc c ep r \<longleftrightarrow>
    ve = ucast ep \<and> vwr = wr \<and> vc = c \<and> \<bar>int (unat vr) - int (unat r)\<bar> \<le> 1"
proof -
  have sub: "unat (x - y) = unat x - unat y" if "y \<le> x" for x y :: u64
    using that by (simp add: unat_sub_if_size word_le_nat_alt)
  have "(if r \<le> vr then vr - r else r - vr) \<le> 1 \<longleftrightarrow> \<bar>int (unat vr) - int (unat r)\<bar> \<le> 1"
  proof (cases "r \<le> vr")
    case True
    then show ?thesis using near [of "unat r" "unat vr"] by (simp add: word_le_nat_alt sub del: of_nat_unat)
  next
    case False
    then have "vr \<le> r" by simp
    then show ?thesis using False near [of "unat vr" "unat r"] abs_minus_commute
      by (simp add: word_le_nat_alt sub del: of_nat_unat)
  qed
  then show ?thesis by (auto simp: vote_fresh_def)
qed

subsection \<open>A round\<close>

text \<open>
  The sums, as sums over the reports: a report of a member that is not a peer weighs nothing.
\<close>

lemma fold_plus_list: "fold (\<lambda>x (s :: u64). s + f x) xs s = s + (\<Sum>x\<leftarrow>xs. f x)"
  by (induction xs arbitrary: s) (simp_all add: ac_simps)

lemma sampled_sum_eq:
  "sampled_sum ns prefs = (if have_pref ns then self_weight ns else 0) + (\<Sum>(m, p)\<leftarrow>prefs. weight_of ns m)"
  using fold_plus_list [of "\<lambda>(m, p). weight_of ns m" prefs "if have_pref ns then self_weight ns else 0"]
  by (simp add: sampled_sum_def case_prod_unfold)

lemma weight_of_stranger: "\<forall>p\<in>set (peers ns). peer_member p \<noteq> m \<Longrightarrow> weight_of ns m = 0"
  by (auto simp: weight_of_def find_Some_iff split: option.split)

lemma loop_tick_confidence:
  assumes run: "loop_tick ns cfg prefs = (rr, ns')" and up: "n_confidence ns' \<noteq> 0"
    and k: "rr_kind rr \<noteq> FloorAbort"
  shows "\<not> under_floor ns cfg (sampled_weight rr)"
    and "alpha_reached cfg (agreeing_weight rr) (sampled_weight rr)"
    and "n_confidence ns' = n_confidence ns + 1" and "n_preference ns' = n_preference ns"
    and "agreeing_weight rr = agreeing_sum ns prefs" and "sampled_weight rr = sampled_sum ns prefs"
proof -
  have w: "weight_of (ns\<lparr>n_rounds := r\<rparr>) m = weight_of ns m" for r m
    by (simp add: weight_of_def)
  have c: "sampled_sum (ns\<lparr>n_rounds := r\<rparr>) prefs = sampled_sum ns prefs"
    "agreeing_sum (ns\<lparr>n_rounds := r\<rparr>) prefs = agreeing_sum ns prefs"
    "under_floor (ns\<lparr>n_rounds := r\<rparr>) cfg s = under_floor ns cfg s" for r s
    by (simp_all add: sampled_sum_def agreeing_sum_def under_floor_def have_pref_def w cong: if_cong)
  show "\<not> under_floor ns cfg (sampled_weight rr)"
    and "alpha_reached cfg (agreeing_weight rr) (sampled_weight rr)"
    and "n_confidence ns' = n_confidence ns + 1" and "n_preference ns' = n_preference ns"
    and "agreeing_weight rr = agreeing_sum ns prefs" and "sampled_weight rr = sampled_sum ns prefs"
    using assms by (auto simp: loop_tick_def c Let_def split: if_splits prod.splits)
qed

text \<open>
  Safety of a round over a positive total: the agreeing weight behind a raised confidence exceeds
  the adversary's share \<open>F_BP\<close> of the whole weight, for the default configuration.
\<close>

lemma alpha_floor_arith:
  assumes "\<not> under_floor ns default_config s" and "alpha_reached default_config a s" and "0 < total_weight ns"
  shows "F_BP * int (unat (total_weight ns)) < int (unat a) * BP_ONE"
proof -
  have mul: "unat ((n :: u128) * ucast x) = unat n * unat x" "unat ((ucast x :: u128) * n) = unat x * unat n"
    if "unat n \<le> 10000" for n and x :: u64
  proof -
    have "unat n * unat x \<le> 10000 * 2 ^ 64"
      using that unsigned_less [of x, where ?'a = nat] by (intro mult_le_mono) simp_all
    then show "unat ((n :: u128) * ucast x) = unat n * unat x" "unat ((ucast x :: u128) * n) = unat x * unat n"
      by (simp_all add: unat_word_ariths unat_ucast_128 mult.commute)
  qed
  have u: "unat (ucast (7500 :: u64) :: u128) = 7500" "unat (ucast (5000 :: u64) :: u128) = 5000"
    by simp_all
  have "5000 * unat (total_weight ns) \<le> unat s * 10000"
    using assms(1,3) mul(1) [of 5000 "total_weight ns"] mul(2) [of 10000 s]
    by (simp add: under_floor_def default_config_def word_less_nat_alt not_less)
  moreover have "7500 * unat s \<le> unat a * 10000"
    using assms(2) mul(1) [of 7500 s] mul(2) [of 10000 a]
    by (simp add: alpha_reached_def default_config_def word_le_nat_alt)
  moreover have "0 < unat (total_weight ns)" using assms(3) by (simp add: word_less_nat_alt)
  ultimately have "2000 * unat (total_weight ns) < unat a * 10000" by linarith
  then have "int (2000 * unat (total_weight ns)) < int (unat a * 10000)" by (simp only: of_nat_less_iff)
  then show ?thesis by (simp add: param_defs)
qed

lemma loop_tick_safe:
  assumes "loop_tick ns default_config prefs = (rr, ns')" and "n_confidence ns' \<noteq> 0"
    and "rr_kind rr \<noteq> FloorAbort" and "0 < total_weight ns"
  shows "F_BP * int (unat (total_weight ns)) < int (unat (agreeing_sum ns prefs)) * BP_ONE"
  using alpha_floor_arith [OF _ _ assms(4)] loop_tick_confidence [OF assms(1-3)] by metis

text \<open>
  Liveness: rounds whose reports all carry the node's own preference, with enough reported weight to
  pass the floor, raise the confidence by one each, and \<open>beta\<close> of them finalise the node.
\<close>

definition live_rounds :: "LoopConfig \<Rightarrow> (u64 \<times> Digest) list list \<Rightarrow> NodeState \<Rightarrow> NodeState" where
  "live_rounds cfg rs ns = fold (\<lambda>prefs ns. snd (loop_tick ns cfg prefs)) rs ns"

definition agreeing_reports :: "LoopConfig \<Rightarrow> NodeState \<Rightarrow> (u64 \<times> Digest) list \<Rightarrow> bool" where
  "agreeing_reports cfg ns prefs \<longleftrightarrow>
     (\<forall>(m, p) \<in> set prefs. p = n_preference ns) \<and> \<not> under_floor ns cfg (sampled_sum ns prefs)"

lemma agreeing_is_sampled:
  assumes "have_pref ns" and "\<forall>(m, p) \<in> set prefs. p = n_preference ns"
  shows "agreeing_sum ns prefs = sampled_sum ns prefs"
proof -
  have "fold (\<lambda>(m, p) s. if p = n_preference ns then s + weight_of ns m else s) prefs s
      = fold (\<lambda>(m, p) s. s + weight_of ns m) prefs s" for s
    using assms(2) by (induction prefs arbitrary: s) auto
  then show ?thesis using assms(1) by (simp add: agreeing_sum_def sampled_sum_def)
qed

lemma alpha_reached_all: "alpha_bp cfg \<le> 10000 \<Longrightarrow> alpha_reached cfg s s"
proof -
  assume a: "alpha_bp cfg \<le> 10000"
  then have a: "unat (alpha_bp cfg) \<le> 10000" by (simp add: word_le_nat_alt)
  have b: "n * unat s < 2 ^ 128" if "n \<le> 10000" for n
    using that mult_le_mono [of n 10000 "unat s" "2 ^ 64"] unsigned_less [of s, where ?'a = nat] by simp
  show ?thesis
    using b [OF a] b [of 10000] mult_le_mono1 [OF a, of "unat s"]
    by (simp add: alpha_reached_def word_le_nat_alt unat_word_ariths unat_ucast_128 mult.commute)
qed

lemma agreeing_round:
  assumes "have_pref ns" "agreeing_reports cfg ns prefs" "alpha_bp cfg \<le> 10000" "0 < stall_limit cfg"
  shows "snd (loop_tick ns cfg prefs) = ns\<lparr>n_rounds := n_rounds ns + 1, n_confidence := n_confidence ns + 1, n_stall := 0,
    n_state := if beta cfg \<le> n_confidence ns + 1 then Finalized else n_state ns\<rparr>"
proof -
  let ?ns = "ns\<lparr>n_rounds := n_rounds ns + 1\<rparr>"
  have h: "have_pref ?ns" "\<forall>(m, p) \<in> set prefs. p = n_preference ?ns"
    using assms(1,2) by (simp_all add: have_pref_def agreeing_reports_def)
  have "sampled_sum ?ns prefs = sampled_sum ns prefs" by (simp add: sampled_sum_def have_pref_def weight_of_def cong: if_cong)
  then have f: "\<not> under_floor ?ns cfg (sampled_sum ?ns prefs)"
    using assms(2) by (simp add: agreeing_reports_def under_floor_def)
  show ?thesis
    using f alpha_reached_all [OF assms(3)] assms(4) agreeing_is_sampled [OF h]
    by (simp add: loop_tick_def Let_def not_le)
qed

lemma live_rounds_finalise:
  assumes "have_pref ns" "\<forall>prefs \<in> set rs. agreeing_reports cfg ns prefs" "alpha_bp cfg \<le> 10000" "0 < stall_limit cfg"
    and "rs \<noteq> []" "unat (beta cfg) \<le> unat (n_confidence ns) + length rs" "unat (n_confidence ns) + length rs < 2 ^ 32"
  shows "n_state (live_rounds cfg rs ns) = Finalized \<and> n_preference (live_rounds cfg rs ns) = n_preference ns"
  using assms
proof (induction rs arbitrary: ns)
  case (Cons prefs rs)
  let ?ns = "snd (loop_tick ns cfg prefs)"
  have e: "?ns = ns\<lparr>n_rounds := n_rounds ns + 1, n_confidence := n_confidence ns + 1, n_stall := 0,
      n_state := if beta cfg \<le> n_confidence ns + 1 then Finalized else n_state ns\<rparr>"
    using Cons.prems by (intro agreeing_round) simp_all
  have c: "unat (n_confidence ?ns) = unat (n_confidence ns) + 1"
    using Cons.prems(7) unfolding e by (simp add: unat_word_ariths)
  have p: "n_preference ?ns = n_preference ns" "have_pref ?ns" using Cons.prems(1) unfolding e by (simp_all add: have_pref_def)
  have a: "agreeing_reports cfg ?ns q = agreeing_reports cfg ns q" for q
    unfolding e by (simp add: agreeing_reports_def under_floor_def sampled_sum_def have_pref_def weight_of_def cong: if_cong)
  show ?case
  proof (cases "rs = []")
    case True
    have "beta cfg \<le> n_confidence ?ns" using Cons.prems(6) c True by (simp add: word_le_nat_alt)
    then show ?thesis using True p unfolding live_rounds_def by (simp add: e)
  next
    case False
    have "n_state (live_rounds cfg rs ?ns) = Finalized \<and> n_preference (live_rounds cfg rs ?ns) = n_preference ?ns"
      using Cons.prems False c p(2) a by (intro Cons.IH) simp_all
    then show ?thesis using p(1) by (simp add: live_rounds_def)
  qed
qed simp

text \<open>With a zero total nothing is needed: an isolated node without a preference finalises.\<close>

definition isolated_node :: NodeState where
  "isolated_node = \<lparr>n_conflict = zero_digest, n_preference = zero_digest, n_confidence = 0,
     n_stall = 0, n_rounds = 0, n_state = Active, self_weight = 0, total_weight = 0, peers = []\<rparr>"

definition tick_alone :: "NodeState \<Rightarrow> NodeState" where
  "tick_alone ns = snd (loop_tick ns default_config [])"

lemma tick_alone_step:
  assumes "n_preference ns = zero_digest" and "total_weight ns = 0" and "n_stall ns = 0"
  shows "tick_alone ns = ns\<lparr>n_rounds := n_rounds ns + 1, n_confidence := n_confidence ns + 1,
    n_state := if 5 \<le> n_confidence ns + 1 then Finalized else n_state ns\<rparr>"
  using assms
  by (simp add: tick_alone_def loop_tick_def default_config_def sampled_sum_def agreeing_sum_def
      under_floor_def alpha_reached_def have_pref_def Let_def)

lemma zero_total_finalises: "n_state ((tick_alone ^^ 5) isolated_node) = Finalized"
  by (simp add: eval_nat_numeral tick_alone_step isolated_node_def)

text \<open>
  Finalisation is not terminal here: a round runs in any state and still switches the preference.
\<close>

definition final_node :: NodeState where
  "final_node = \<lparr>n_conflict = zero_digest, n_preference = Dg 1 0 0 0, n_confidence = 5,
     n_stall = 0, n_rounds = 5, n_state = Finalized, self_weight = 40, total_weight = 100,
     peers = [\<lparr>peer_ip = 0, peer_port = 0, peer_weight = 60, peer_member = 2\<rparr>]\<rparr>"

lemma finalised_node_switches:
  "n_state (snd (loop_tick final_node default_config [(2, Dg 2 0 0 0)])) = Finalized"
  "n_preference final_node = Dg 1 0 0 0"
  "n_preference (snd (loop_tick final_node default_config [(2, Dg 2 0 0 0)])) = Dg 2 0 0 0"
  by (simp_all add: loop_tick_def final_node_def default_config_def sampled_sum_def agreeing_sum_def
      under_floor_def alpha_reached_def have_pref_def weight_of_def majority_def majority_step_def
      zero_digest_def word_le_nat_alt Let_def)

text \<open>
  The switch follows the single heaviest voter: three voters of weight 10 on one digest lose to
  one voter of weight 11 on another.
\<close>

definition split_node :: NodeState where
  "split_node = \<lparr>n_conflict = zero_digest, n_preference = zero_digest, n_confidence = 0,
     n_stall = 0, n_rounds = 0, n_state = Active, self_weight = 0, total_weight = 41,
     peers = map (\<lambda>(m, w). \<lparr>peer_ip = 0, peer_port = 0, peer_weight = w, peer_member = m\<rparr>)
       [(1, 10), (2, 10), (3, 10), (4, 11)]\<rparr>"

lemma switch_ignores_plurality:
  "n_preference (snd (loop_tick split_node default_config
     [(1, Dg 1 0 0 0), (2, Dg 1 0 0 0), (3, Dg 1 0 0 0), (4, Dg 2 0 0 0)])) = Dg 2 0 0 0"
  by (simp add: loop_tick_def split_node_def default_config_def sampled_sum_def agreeing_sum_def
      under_floor_def alpha_reached_def have_pref_def weight_of_def majority_def majority_step_def
      zero_digest_def Let_def)

text \<open>A member reported twice weighs twice.\<close>

lemma duplicate_report:
  "sampled_sum ns ((m, p) # (m, p) # prefs) = sampled_sum ns ((m, p) # prefs) + weight_of ns m"
  by (simp add: sampled_sum_eq ac_simps)

subsection \<open>The breaker\<close>

text \<open>A breaker tick never leaves a suspended node with a resolution, and resolves to a candidate.\<close>

lemma breaker_tick_resolved:
  assumes "breaker_tick ns cfg beacon frozen = (br, ns')" and "resolved br"
  shows "winner br \<in> set frozen" and "n_state ns' = Active" and "n_preference ns' = winner br"
    and "n_stall ns' = 0" and "2 \<le> length frozen" and "unat (stagger_ms br) < 400"
proof -
  obtain st w c where r: "resolve_breaker frozen beacon c = Some (st, w)" and "2 \<le> length frozen"
    and eq: "winner br = w" "stagger_ms br = st" "n_state ns' = Active" "n_preference ns' = w" "n_stall ns' = 0"
    using assms by (auto simp: breaker_tick_def no_result_def Let_def split: if_splits option.splits)
  then show "winner br \<in> set frozen" and "n_state ns' = Active" and "n_preference ns' = winner br"
    and "n_stall ns' = 0" and "2 \<le> length frozen" and "unat (stagger_ms br) < 400"
    using resolve_breaker_winner [OF r] by simp_all
qed

lemma breaker_tick_set:
  assumes "set frozen = set frozen'" and "2 \<le> length frozen" and "2 \<le> length frozen'"
  shows "breaker_tick ns cfg beacon frozen = breaker_tick ns cfg beacon frozen'"
  using assms resolve_breaker_set [OF assms(1)] by (simp add: breaker_tick_def Let_def not_less)

end
