(* ===== verification/P2p.thy ===== *)
theory P2p
  imports Poseidon
begin

text \<open>
  Message framing of \<open>src/include/hsma/p2p.hpp\<close>: the big-endian codec, the length-prefixed frame
  and the peer list. The receive loop is over the bytes the socket delivers, given as a list of
  chunks; sockets, options and timers are not modelled.
\<close>

subsection \<open>Frames\<close>

definition MAX_PAYLOAD :: u32 where
  "MAX_PAYLOAD = 1024 * 1024"

definition HEADER_LEN :: nat where
  "HEADER_LEN = 9"

definition MAX_PEERS :: nat where
  "MAX_PEERS = 32"

definition MAGIC :: bytes where
  "MAGIC = ascii ''HSMA''"

record PeerInfo =
  peer_ip :: u32
  peer_port :: u16

record Message =
  m_type :: u8
  m_payload :: bytes

definition put_u32 :: "u32 \<Rightarrow> bytes" where
  "put_u32 v = [ucast (drop_bit 24 v), ucast (drop_bit 16 v), ucast (drop_bit 8 v), ucast v]"

definition get_u32 :: "bytes \<Rightarrow> u32" where
  "get_u32 b = push_bit 24 (ucast (b ! 0)) OR push_bit 16 (ucast (b ! 1)) OR push_bit 8 (ucast (b ! 2)) OR ucast (b ! 3)"

definition put_u64 :: "u64 \<Rightarrow> bytes" where
  "put_u64 v = be_bytes 8 v"

definition get_u64 :: "bytes \<Rightarrow> u64" where
  "get_u64 b = be_word (take 8 b)"

definition serialize :: "Message \<Rightarrow> bytes" where
  "serialize m = MAGIC @ [m_type m] @ put_u32 (of_nat (length (m_payload m))) @ m_payload m"

definition deserialize :: "bytes \<Rightarrow> Message option" where
  "deserialize buf =
     (if length buf < HEADER_LEN then None
      else if take 4 buf \<noteq> MAGIC then None
      else let n = get_u32 (drop 5 buf)
           in if MAX_PAYLOAD < n then None
              else if length buf < HEADER_LEN + unat n then None
              else Some \<lparr>m_type = buf ! 4, m_payload = take (unat n) (drop HEADER_LEN buf)\<rparr>)"

subsection \<open>Peer lists\<close>

definition peer_bytes :: "PeerInfo \<Rightarrow> bytes" where
  "peer_bytes p = put_u32 (peer_ip p) @ [ucast (drop_bit 8 (peer_port p)), ucast (peer_port p AND 0xFF)]"

definition build_peer_list :: "PeerInfo list \<Rightarrow> bytes" where
  "build_peer_list ps = put_u32 (of_nat (length ps)) @ concat (map peer_bytes ps)"

definition read_peer :: "bytes \<Rightarrow> PeerInfo" where
  "read_peer b = \<lparr>peer_ip = get_u32 b, peer_port = push_bit 8 (ucast (b ! 4)) OR ucast (b ! 5)\<rparr>"

function parse_peers :: "bytes \<Rightarrow> PeerInfo list \<Rightarrow> PeerInfo list" where
  "parse_peers b acc =
     (if 6 \<le> length b \<and> length acc < MAX_PEERS then parse_peers (drop 6 b) (acc @ [read_peer b]) else acc)"
  by pat_completeness auto
termination
  by (relation "measure (\<lambda>(b, acc). length b)") auto

declare parse_peers.simps [simp del]

definition parse_peer_list :: "bytes \<Rightarrow> PeerInfo list" where
  "parse_peer_list b = parse_peers b []"

subsection \<open>Reading from a socket\<close>

text \<open>
  \<open>recv_exact\<close> is the loop \<open>while (got < n) recv(...)\<close>: each chunk is what one call delivers, cut to
  what was asked for; the rest stays for the next call. A call that delivers nothing, or no further
  call, is the failure.
\<close>

fun recv_exact :: "nat \<Rightarrow> bytes list \<Rightarrow> (bytes \<times> bytes list) option" where
  "recv_exact 0 cs = Some ([], cs)"
| "recv_exact n [] = None"
| "recv_exact n (c # cs) =
     (if c = [] then None
      else if length c \<le> n then
        (case recv_exact (n - length c) cs of None \<Rightarrow> None | Some (r, rest) \<Rightarrow> Some (c @ r, rest))
      else Some (take n c, drop n c # cs))"

definition recv_message :: "bytes list \<Rightarrow> (Message \<times> bytes list) option" where
  "recv_message cs =
     (case recv_exact HEADER_LEN cs of None \<Rightarrow> None
      | Some (header, cs1) \<Rightarrow>
        if take 4 header \<noteq> MAGIC then None
        else let n = get_u32 (drop 5 header)
             in if MAX_PAYLOAD < n then None
                else case recv_exact (unat n) cs1 of None \<Rightarrow> None
                     | Some (p, rest) \<Rightarrow> Some (\<lparr>m_type = header ! 4, m_payload = p\<rparr>, rest))"

text \<open>The send loop: each call accepts a number of bytes; a call that accepts none is the failure.\<close>

fun send_loop :: "bytes \<Rightarrow> nat list \<Rightarrow> bytes option" where
  "send_loop [] ns = Some []"
| "send_loop b [] = None"
| "send_loop b (n # ns) =
     (if n = 0 then None else map_option ((@) (take n b)) (send_loop (drop n b) ns))"

definition send_message :: "Message \<Rightarrow> nat list \<Rightarrow> bytes option" where
  "send_message m ns = send_loop (serialize m) ns"

subsection \<open>Round trips\<close>

lemma put_u32_be: "put_u32 v = be_bytes 4 v"
  by (simp add: put_u32_def be_bytes_def upt_rec)

lemma length_put_u32 [simp]: "length (put_u32 v) = 4"
  by (simp add: put_u32_def)

lemma get_u32_be: "get_u32 ([a, b, c, d] @ r) = be_word [a, b, c, d]"
  by (simp add: get_u32_def be_word_def push_bit_or push_bit_push_bit or.assoc)

lemma get_put_u32 [simp]: "get_u32 (put_u32 v @ r) = v"
proof -
  have "get_u32 (put_u32 v @ r) = be_word (put_u32 v)" unfolding put_u32_def by (rule get_u32_be)
  then show ?thesis by (simp add: put_u32_be codec_u32)
qed

lemma get_put_u32_end [simp]: "get_u32 (put_u32 v) = v"
  using get_put_u32 [of v "[]"] by simp

lemma MAGIC_length [simp]: "length MAGIC = 4"
  by (simp add: MAGIC_def ascii_def)

lemma small_length: "length p \<le> unat MAX_PAYLOAD \<Longrightarrow> unat (of_nat (length p) :: u32) = length p"
  by (simp add: MAX_PAYLOAD_def unat_of_nat)

lemma serialize_parts:
  assumes "length (m_payload m) \<le> unat MAX_PAYLOAD"
  shows "take 4 (serialize m @ r) = MAGIC" "(serialize m @ r) ! 4 = m_type m"
    "get_u32 (drop 5 (serialize m @ r)) = of_nat (length (m_payload m))"
    "drop 9 (serialize m @ r) = m_payload m @ r"
  by (simp_all add: serialize_def nth_append)

lemma length_serialize: "length (serialize m) = 9 + length (m_payload m)"
  by (simp add: serialize_def)

lemma deserialize_serialize:
  assumes "length (m_payload m) \<le> unat MAX_PAYLOAD"
  shows "deserialize (serialize m @ r) = Some m"
proof -
  have "\<not> MAX_PAYLOAD < of_nat (length (m_payload m))"
    using assms small_length [OF assms] by (simp add: word_less_nat_alt)
  then show ?thesis
    using serialize_parts [OF assms, of r] small_length [OF assms] length_serialize [of m]
    by (simp add: deserialize_def HEADER_LEN_def Let_def)
qed

lemma recv_exact_concat:
  "recv_exact n cs = Some (r, rest) \<Longrightarrow> r @ concat rest = concat cs \<and> length r = n"
proof (induction n cs arbitrary: r rest rule: recv_exact.induct)
  case (3 v c cs)
  show ?case
  proof (cases "c \<noteq> [] \<and> length c \<le> Suc v")
    case True
    then obtain r1 where "recv_exact (Suc v - length c) cs = Some (r1, rest)" "r = c @ r1"
      using "3.prems" by (auto split: option.splits)
    then show ?thesis using "3.IH" [of r1 rest] True by auto
  next
    case False
    then show ?thesis using "3.prems" by (auto split: if_splits)
  qed
qed auto

lemma recv_exact_enough:
  "n \<le> length (concat cs) \<Longrightarrow> [] \<notin> set cs \<Longrightarrow> \<exists>rest. recv_exact n cs = Some (take n (concat cs), rest) \<and> [] \<notin> set rest"
proof (induction n cs rule: recv_exact.induct)
  case (3 v c cs)
  show ?case
  proof (cases "length c \<le> Suc v")
    case True
    have "Suc v - length c \<le> length (concat cs)" "[] \<notin> set cs" "c \<noteq> []" using "3.prems" True by auto
    with "3.IH" [OF \<open>c \<noteq> []\<close> True this(1,2)] show ?thesis using True by auto
  next
    case False
    then show ?thesis using "3.prems" by auto
  qed
qed auto

text \<open>However the stream is cut, the receiver gets the message that was sent and keeps the rest.\<close>

lemma recv_serialize:
  assumes "length (m_payload m) \<le> unat MAX_PAYLOAD" and "concat cs = serialize m @ r" and "[] \<notin> set cs"
  shows "\<exists>rest. recv_message cs = Some (m, rest) \<and> concat rest = r"
proof -
  note p = serialize_parts [OF assms(1), of r] length_serialize [of m] small_length [OF assms(1)]
  have "9 \<le> length (concat cs)" using p(5) by (simp add: assms(2))
  from recv_exact_enough [OF this assms(3)] obtain cs1 where
    h: "recv_exact 9 cs = Some (take 9 (serialize m @ r), cs1)" "[] \<notin> set cs1" by (auto simp: assms(2))
  have c1: "concat cs1 = m_payload m @ r"
  proof -
    have "take 9 (serialize m @ r) @ concat cs1 = serialize m @ r"
      using recv_exact_concat [OF h(1)] by (simp add: assms(2))
    then have "drop 9 (serialize m @ r) = concat cs1" using p(5) by (simp add: append_eq_conv_conj)
    then show ?thesis using p(4) by simp
  qed
  then have "length (m_payload m) \<le> length (concat cs1)" by simp
  from recv_exact_enough [OF this h(2)] obtain rest where
    b: "recv_exact (length (m_payload m)) cs1 = Some (m_payload m, rest)" by (auto simp: c1)
  have "concat rest = r" using recv_exact_concat [OF b] by (simp add: c1)
  moreover have "\<not> MAX_PAYLOAD < of_nat (length (m_payload m))"
    using assms p(6) by (simp add: word_less_nat_alt)
  ultimately show ?thesis
    using h b p by (simp add: recv_message_def HEADER_LEN_def Let_def drop_take serialize_def nth_append)
qed

text \<open>The parser starts at the count the builder writes, so it reads the first two addresses from it.\<close>

lemma parse_build_first:
  assumes "ps \<noteq> []"
  shows "parse_peer_list (build_peer_list ps) \<noteq> [] \<and> peer_ip (parse_peer_list (build_peer_list ps) ! 0) = of_nat (length ps)"
proof -
  have acc: "\<exists>qs. parse_peers b acc = acc @ qs" for b acc
  proof (induction b acc rule: parse_peers.induct)
    case (1 b acc)
    then show ?case by (cases "6 \<le> length b \<and> length acc < MAX_PEERS") (auto simp: parse_peers.simps [of b acc])
  qed
  let ?b = "build_peer_list ps"
  have l: "6 \<le> length ?b" using assms by (cases ps) (simp_all add: build_peer_list_def peer_bytes_def)
  then have "parse_peers ?b [] = parse_peers (drop 6 ?b) [read_peer ?b]"
    by (simp add: parse_peers.simps [of ?b "[]"] MAX_PEERS_def)
  then obtain qs where "parse_peer_list ?b = read_peer ?b # qs"
    using acc [of "drop 6 ?b" "[read_peer ?b]"] by (auto simp: parse_peer_list_def)
  then show ?thesis by (simp add: read_peer_def build_peer_list_def)
qed

text \<open>The parser of frames accepts nothing else than frames.\<close>

lemma list_split_9:
  assumes "9 \<le> length b"
  shows "b = take 4 b @ [b ! 4] @ take 4 (drop 5 b) @ drop 9 b"
proof -
  have "drop 4 b = b ! 4 # drop 5 b" using assms Cons_nth_drop_Suc [of 4 b] by simp
  moreover have "drop 5 b = take 4 (drop 5 b) @ drop 9 b" using append_take_drop_id [of 4 "drop 5 b"] by simp
  ultimately show ?thesis by (metis append_Cons append_Nil append_take_drop_id)
qed

lemma put_get_u32: "4 \<le> length b \<Longrightarrow> put_u32 (get_u32 b) = take 4 b"
proof -
  assume "4 \<le> length b"
  then obtain a c d e r where "b = [a, c, d, e] @ r"
    by (cases b; cases "tl b"; cases "tl (tl b)"; cases "tl (tl (tl b))") auto
  then show ?thesis by (simp only: get_u32_be put_u32_be) (simp add: be_bytes_be_word)
qed

lemma deserialize_exact:
  "deserialize b = Some m \<longleftrightarrow> length (m_payload m) \<le> unat MAX_PAYLOAD \<and> (\<exists>r. b = serialize m @ r)"
proof
  assume d: "deserialize b = Some m"
  let ?n = "get_u32 (drop 5 b)"
  have c: "9 \<le> length b" "take 4 b = MAGIC" "\<not> MAX_PAYLOAD < ?n" "9 + unat ?n \<le> length b"
    and m: "m = \<lparr>m_type = b ! 4, m_payload = take (unat ?n) (drop 9 b)\<rparr>"
    using d by (simp_all add: deserialize_def Let_def HEADER_LEN_def not_less split: if_splits)
  have len: "length (m_payload m) = unat ?n" using c(4) by (simp add: m)
  have "serialize m @ drop (9 + unat ?n) b = take 4 b @ [b ! 4] @ put_u32 ?n @ drop 9 b"
    unfolding serialize_def len using append_take_drop_id [of "unat ?n" "drop 9 b"] c(2)
    by (simp add: m add.commute)
  also have "\<dots> = b" using list_split_9 [OF c(1)] c(1) by (simp add: put_get_u32)
  finally show "length (m_payload m) \<le> unat MAX_PAYLOAD \<and> (\<exists>r. b = serialize m @ r)"
    using len c(3) by (auto simp: not_less word_le_nat_alt intro: sym)
next
  assume "length (m_payload m) \<le> unat MAX_PAYLOAD \<and> (\<exists>r. b = serialize m @ r)"
  then show "deserialize b = Some m" using deserialize_serialize by blast
qed

end
