(* ===== verification/Mont384.thy ===== *)
theory Mont384
  imports Limbs
begin

text \<open>
  The 384-bit engine of \<open>src/include/hsma/threshold/mont384.hpp\<close>: arrays of limbs with carry and
  borrow, the shift-subtract reduction, and the Montgomery operations over a context with an odd
  modulus of six limbs. A number of the code (\<open>fe6\<close>) is a list of six limbs. The lemmas give the
  value every operation leaves; products and powers are those of the residue ring.
\<close>

type_synonym fe6 = "u64 list"

subsection \<open>Limb arrays\<close>

definition bn_clr :: "nat \<Rightarrow> u64 list" where
  "bn_clr n = replicate n 0"

definition bn_isz :: "u64 list \<Rightarrow> bool" where
  "bn_isz a \<longleftrightarrow> list_all (\<lambda>x. x = 0) a"

fun bn_cmp :: "u64 list \<Rightarrow> u64 list \<Rightarrow> nat \<Rightarrow> int" where
  "bn_cmp a b 0 = 0"
| "bn_cmp a b (Suc i) = (if a ! i \<noteq> b ! i then (if a ! i < b ! i then - 1 else 1) else bn_cmp a b i)"

text \<open>\<open>u128 t = (u128)d + s + c\<close> and \<open>u128 t = (u128)d - s - br\<close>: the low limb and the next carry or borrow.\<close>

definition addc :: "u64 \<Rightarrow> u64 \<Rightarrow> u64 \<Rightarrow> u64 \<times> u64" where
  "addc d s c = (let t = ucast d + ucast s + ucast c :: u128 in (ucast t, ucast (drop_bit 64 t)))"

definition subb :: "u64 \<Rightarrow> u64 \<Rightarrow> u64 \<Rightarrow> u64 \<times> u64" where
  "subb d s br = (let t = ucast d - ucast s - ucast br :: u128 in (ucast t, ucast (drop_bit 64 t AND 1)))"

fun bn_add :: "u64 \<Rightarrow> u64 list \<Rightarrow> u64 list \<Rightarrow> u64 list \<times> u64" where
  "bn_add c (d # ds) (s # ss) =
     (let (r, c1) = addc d s c; (rs, c2) = bn_add c1 ds ss in (r # rs, c2))"
| "bn_add c _ _ = ([], c)"

fun bn_sub :: "u64 \<Rightarrow> u64 list \<Rightarrow> u64 list \<Rightarrow> u64 list \<times> u64" where
  "bn_sub br (d # ds) (s # ss) =
     (let (r, b1) = subb d s br; (rs, b2) = bn_sub b1 ds ss in (r # rs, b2))"
| "bn_sub br _ _ = ([], br)"

fun bn_shr1 :: "u64 list \<Rightarrow> u64 list" where
  "bn_shr1 [] = []"
| "bn_shr1 [d] = [drop_bit 1 d]"
| "bn_shr1 (d # e # ds) = (drop_bit 1 d OR push_bit 63 e) # bn_shr1 (e # ds)"

fun bn_inc :: "u64 list \<Rightarrow> u64 list" where
  "bn_inc [] = []"
| "bn_inc (d # ds) = (if d + 1 \<noteq> 0 then (d + 1) # ds else 0 # bn_inc ds)"

text \<open>Doubling with a bit shifted in: the inner loop of \<open>bn_mod\<close> and of \<open>pow2_mod\<close>.\<close>

fun bn_shl1 :: "u64 \<Rightarrow> u64 list \<Rightarrow> u64 list \<times> u64" where
  "bn_shl1 c [] = ([], c)"
| "bn_shl1 c (d # ds) =
     (let t = push_bit 1 (ucast d) OR ucast c :: u128;
          (rs, c2) = bn_shl1 (ucast (drop_bit 64 t)) ds
      in (ucast t # rs, c2))"

text \<open>\<open>if (c || bn_cmp(v, m, 6) >= 0) bn_sub(v, m, 6)\<close>, after a doubling or an addition.\<close>

definition cond_sub :: "u64 list \<Rightarrow> u64 list \<Rightarrow> u64 \<Rightarrow> u64 list" where
  "cond_sub m v c = (if c \<noteq> 0 \<or> 0 \<le> bn_cmp v m 6 then fst (bn_sub 0 v m) else v)"

fun bn_mod_loop :: "u64 list \<Rightarrow> u64 list \<Rightarrow> nat \<Rightarrow> fe6 \<Rightarrow> fe6" where
  "bn_mod_loop x m 0 r = r"
| "bn_mod_loop x m (Suc i) r =
     (let (r1, c) = bn_shl1 (drop_bit (i mod 64) (x ! (i div 64)) AND 1) r
      in bn_mod_loop x m i (cond_sub m r1 c))"

definition bn_mod :: "u64 list \<Rightarrow> u64 list \<Rightarrow> fe6" where
  "bn_mod x m = bn_mod_loop x m (64 * length x) (bn_clr 6)"

fun bn_mul_rows :: "u64 list \<Rightarrow> nat \<Rightarrow> u64 list \<Rightarrow> u64 list \<Rightarrow> u64 list option" where
  "bn_mul_rows c i [] b = Some c"
| "bn_mul_rows c i (a # as) b =
     (let (c1, cy) = mac_loop c i b a 0
      in case ripple c1 (i + length b) cy of None \<Rightarrow> None | Some c2 \<Rightarrow> bn_mul_rows c2 (Suc i) as b)"

definition bn_mul :: "u64 list \<Rightarrow> u64 list \<Rightarrow> u64 list option" where
  "bn_mul a b = bn_mul_rows (bn_clr (length a + length b)) 0 a b"

fun bn_divsmall :: "u64 list \<Rightarrow> u64 \<Rightarrow> u64 list \<times> u64" where
  "bn_divsmall [] d = ([], 0)"
| "bn_divsmall (x # xs) d =
     (let (qs, r) = bn_divsmall xs d;
          t = push_bit 64 (ucast r) OR ucast x :: u128
      in (ucast (t div ucast d) # qs, ucast (t mod ucast d)))"

subsection \<open>The Montgomery context\<close>

record MCtx =
  cm :: fe6
  cn0 :: u64
  cr1 :: fe6
  crr :: fe6

text \<open>Newton's iteration for the inverse of an odd limb, five steps from the limb itself.\<close>

definition newton_step :: "u64 \<Rightarrow> u64 \<Rightarrow> u64" where
  "newton_step m0 x = x * (2 - m0 * x)"

definition newton_inv :: "u64 \<Rightarrow> u64" where
  "newton_inv m0 = NOT ((newton_step m0 ^^ 5) m0) + 1"

definition pow2_step :: "u64 list \<Rightarrow> fe6 \<Rightarrow> fe6" where
  "pow2_step m v = (let (v1, c) = bn_shl1 0 v in cond_sub m v1 c)"

definition pow2_mod :: "u64 list \<Rightarrow> nat \<Rightarrow> fe6" where
  "pow2_mod m e = (pow2_step m ^^ e) ((bn_clr 6)[0 := 1])"

text \<open>
  The product: six rows into \<open>T[12]\<close>, each carry added to the limb above the row. The reduction:
  round \<open>i\<close> folds \<open>T[i] * n0 * m\<close> in; the carry is rippled up to the end of the array and dropped there.
\<close>

fun mm_rows :: "u64 list \<Rightarrow> nat \<Rightarrow> fe6 \<Rightarrow> fe6 \<Rightarrow> u64 list" where
  "mm_rows T i a [] = T"
| "mm_rows T i a (b # bs) =
     (let (T1, cy) = mac_loop T i a b 0 in mm_rows (T1[i + 6 := T1 ! (i + 6) + cy]) (Suc i) a bs)"

function carry_up :: "u64 list \<Rightarrow> nat \<Rightarrow> u64 \<Rightarrow> u64 list" where
  "carry_up T k c =
     (if c = 0 \<or> length T \<le> k then T
      else let (lo, hi) = addc (T ! k) c 0 in carry_up (T[k := lo]) (Suc k) hi)"
  by pat_completeness auto
termination
  by (relation "measure (\<lambda>(T, k, c). length T - k)") auto

declare carry_up.simps [simp del]

definition mm_round :: "MCtx \<Rightarrow> u64 list \<Rightarrow> nat \<Rightarrow> u64 list" where
  "mm_round C T i =
     (let mi = T ! i * cn0 C;
          cr = snd (mac (T ! i) mi (cm C ! 0) 0);
          (T1, cr1) = mac_loop T (Suc i) (tl (cm C)) mi cr;
          (lo, hi) = addc (T1 ! (i + 6)) cr1 0
      in carry_up (T1[i + 6 := lo]) (i + 7) hi)"

definition mmul :: "MCtx \<Rightarrow> fe6 \<Rightarrow> fe6 \<Rightarrow> fe6" where
  "mmul C a b =
     (let T = fold (\<lambda>i T. mm_round C T i) [0..<6] (mm_rows (bn_clr 12) 0 a b)
      in cond_sub (cm C) (drop 6 T) 0)"

definition madd :: "MCtx \<Rightarrow> fe6 \<Rightarrow> fe6 \<Rightarrow> fe6" where
  "madd C a b = (let (r, cy) = bn_add 0 a b in cond_sub (cm C) r cy)"

definition msub :: "MCtx \<Rightarrow> fe6 \<Rightarrow> fe6 \<Rightarrow> fe6" where
  "msub C a b = (let (r, br) = bn_sub 0 a b in if br \<noteq> 0 then fst (bn_add 0 r (cm C)) else r)"

definition mfrom :: "MCtx \<Rightarrow> fe6 \<Rightarrow> fe6" where
  "mfrom C canon = mmul C canon (crr C)"

definition mto :: "MCtx \<Rightarrow> fe6 \<Rightarrow> fe6" where
  "mto C x = mmul C x ((bn_clr 6)[0 := 1])"

text \<open>The bits of an exponent, most significant first, and the square-and-multiply loop over them.\<close>

definition bits_down :: "u64 list \<Rightarrow> bool list" where
  "bits_down e = map (\<lambda>i. bit (e ! (i div 64)) (i mod 64)) (rev [0..<64 * length e])"

definition mpow :: "MCtx \<Rightarrow> fe6 \<Rightarrow> fe6 \<Rightarrow> fe6" where
  "mpow C a e = fold (\<lambda>b r. let r = mmul C r r in if b then mmul C r a else r) (bits_down e) (cr1 C)"

definition bitlen :: "fe6 \<Rightarrow> nat" where
  "bitlen k = length (dropWhile (\<lambda>b. \<not> b) (bits_down k))"

subsection \<open>Carries and borrows\<close>

lemma addc_mac: "addc d s c = mac d s 1 c"
  by (simp add: addc_def mac_def)

lemma addc_val: "addc d s c = (lo, hi) \<Longrightarrow> unat lo + 2 ^ 64 * unat hi = unat d + unat s + unat c"
  using mac_val [of d s 1 c lo hi] by (simp add: addc_mac)

lemma subb_val:
  assumes "subb d s br = (lo, b')" and "unat br \<le> 1"
  shows "unat d + 2 ^ 64 * unat b' = unat lo + unat s + unat br" and "unat b' \<le> 1"
proof -
  let ?t = "ucast d - ucast s - ucast br :: u128"
  have lo: "lo = ucast ?t" and b': "b' = ucast (drop_bit 64 ?t AND 1)"
    using assms(1) by (simp_all add: subb_def Let_def)
  have m: "n mod 2 ^ 64 < (2::nat) ^ 64" for n by simp
  have "unat d + 2 ^ 64 * unat b' = unat lo + unat s + unat br \<and> unat b' \<le> 1"
  proof (cases "unat s + unat br \<le> unat d")
    case True
    have sb: "unat (ucast s + ucast br :: u128) = unat s + unat br"
      using unat_u64_lt [of s] assms(2) by (simp add: unat_word_ariths)
    have "?t = ucast d - (ucast s + ucast br)" by simp
    also have "unat \<dots> = unat d - (unat s + unat br)"
      using True sb by (subst unat_sub) (simp_all add: word_le_nat_alt)
    finally have t: "unat ?t = unat d - (unat s + unat br)" .
    then have small: "unat ?t < 2 ^ 64" using unat_u64_lt [of d] by linarith
    have "unat (drop_bit 64 ?t) = 0"
      using small by (simp add: drop_bit_eq_div unat_div_distrib)
    then have "drop_bit 64 ?t = 0" by (simp only: unat_eq_0)
    then have "b' = 0" by (simp add: b')
    moreover have "unat lo = unat ?t" using small by (simp add: lo unsigned_ucast_eq take_bit_eq_mod)
    ultimately show ?thesis using t True by simp
  next
    case False
    define e where "e = unat s + unat br - unat d"
    have e: "0 < e" "e \<le> 2 ^ 64" "unat d + e = unat s + unat br"
      using False unat_u64_lt [of s] assms(2) by (simp_all add: e_def)
    have "?t = - (of_nat e)"
    proof -
      have "(of_nat (unat d + e) :: u128) = of_nat (unat s + unat br)" using e(3) by simp
      then have "(ucast d :: u128) + of_nat e = ucast s + ucast br"
        by (simp only: of_nat_add) simp
      then show ?thesis by (simp add: algebra_simps)
    qed
    also have "\<dots> = of_nat (2 ^ 128 - e)" using e by (simp add: of_nat_diff)
    finally have t: "unat ?t = 2 ^ 128 - e"
      using e by (simp only: unat_of_nat) simp
    have hi: "unat (drop_bit 64 ?t) = 2 ^ 64 - 1"
    proof -
      have "(2 ^ 128 - e) div 2 ^ 64 = 2 ^ 64 - 1"
        using e by (intro div_nat_eqI) simp_all
      then show ?thesis using t by (simp add: drop_bit_eq_div unat_div_distrib)
    qed
    have "unat (drop_bit 64 ?t AND 1) = 1"
      using hi by (simp add: and_one_eq unat_mod)
    then have b1: "unat b' = 1" by (simp add: b' unsigned_ucast_eq)
    have "unat lo = (2 ^ 128 - e) mod 2 ^ 64" using t by (simp add: lo unsigned_ucast_eq take_bit_eq_mod)
    also have "2 ^ 128 - e = (2 ^ 64 - e) + (2 ^ 64 - 1) * 2 ^ 64" using e by simp
    also have "\<dots> mod 2 ^ 64 = (2 ^ 64 - e) mod 2 ^ 64" by (rule mod_mult_self1)
    also have "\<dots> = 2 ^ 64 - e" using e by (intro mod_less) simp
    finally show ?thesis using b1 e by simp
  qed
  then show "unat d + 2 ^ 64 * unat b' = unat lo + unat s + unat br" and "unat b' \<le> 1" by simp_all
qed

lemma carry_arith:
  fixes r :: nat
  assumes "R + c' * P = X + c1" and "r + B * c1 = y"
  shows "r + B * R + c' * (B * P) = y + B * X"
proof -
  have "B * (R + c' * P) = B * (X + c1)" by (simp only: assms(1))
  then show ?thesis using assms(2) by (simp add: algebra_simps)
qed

lemma borrow_arith:
  fixes r :: nat
  assumes "X + b' * P = R + S + b1" and "d + B * b1 = r + s + b"
  shows "d + B * X + b' * (B * P) = r + B * R + (s + B * S) + b"
proof -
  have "B * (X + b' * P) = B * (R + S + b1)" by (simp only: assms(1))
  then show ?thesis using assms(2) by (simp add: algebra_simps)
qed

lemma pow64_Suc: "(2::nat) ^ (64 * Suc n) = 2 ^ 64 * 2 ^ (64 * n)"
  by (simp add: power_add)

lemma bn_add_val:
  "length ds = length ss \<Longrightarrow> bn_add c ds ss = (rs, c') \<Longrightarrow>
    limbs_val rs + unat c' * 2 ^ (64 * length ds) = limbs_val ds + limbs_val ss + unat c
    \<and> length rs = length ds"
proof (induction c ds ss arbitrary: rs c' rule: bn_add.induct)
  case (1 c d ds s ss)
  obtain r c1 where r: "addc d s c = (r, c1)" by fastforce
  obtain rs1 where rs1: "bn_add c1 ds ss = (rs1, c')" and rs: "rs = r # rs1"
    using "1.prems" r by (auto simp: Let_def split: prod.splits)
  have IH: "limbs_val rs1 + unat c' * 2 ^ (64 * length ds) = limbs_val ds + limbs_val ss + unat c1"
    "length rs1 = length ds"
    using "1.IH" [OF r [symmetric] refl _ rs1] "1.prems" by simp_all
  show ?case
    using carry_arith [OF IH(1) addc_val [OF r]] IH(2) rs
    by (simp only: limbs_val.simps list.size pow64_Suc add_Suc_right add_0_right) simp
qed auto

lemma bn_sub_val:
  "length ds = length ss \<Longrightarrow> unat br \<le> 1 \<Longrightarrow> bn_sub br ds ss = (rs, b') \<Longrightarrow>
    limbs_val ds + unat b' * 2 ^ (64 * length ds) = limbs_val rs + limbs_val ss + unat br
    \<and> unat b' \<le> 1 \<and> length rs = length ds"
proof (induction br ds ss arbitrary: rs b' rule: bn_sub.induct)
  case (1 br d ds s ss)
  obtain r b1 where r: "subb d s br = (r, b1)" by fastforce
  obtain rs1 where rs1: "bn_sub b1 ds ss = (rs1, b')" and rs: "rs = r # rs1"
    using "1.prems" r by (auto simp: Let_def split: prod.splits)
  note v = subb_val [OF r "1.prems"(2)]
  have IH: "limbs_val ds + unat b' * 2 ^ (64 * length ds) = limbs_val rs1 + limbs_val ss + unat b1"
    "unat b' \<le> 1" "length rs1 = length ds"
    using "1.IH" [OF r [symmetric] refl _ v(2) rs1] "1.prems" by simp_all
  show ?case
    using borrow_arith [OF IH(1) v(1)] IH(2,3) rs
    by (simp only: limbs_val.simps list.size pow64_Suc add_Suc_right add_0_right)
qed auto

lemma bn_cmp_geq: "0 \<le> bn_cmp a b n \<longleftrightarrow> geq_loop n a b"
  by (induction n) auto

lemma bn_cmp_eq: "bn_cmp a b n = 0 \<longleftrightarrow> (\<forall>i<n. a ! i = b ! i)"
  by (induction n) (auto simp: less_Suc_eq)

lemma bn_isz_val: "bn_isz a \<longleftrightarrow> limbs_val a = 0"
  by (induction a) (auto simp: bn_isz_def unat_eq_0)

lemma bn_shl1_val:
  "unat c \<le> 1 \<Longrightarrow> bn_shl1 c ds = (rs, c') \<Longrightarrow>
    limbs_val rs + unat c' * 2 ^ (64 * length ds) = 2 * limbs_val ds + unat c
    \<and> unat c' \<le> 1 \<and> length rs = length ds"
proof (induction c ds arbitrary: rs c' rule: bn_shl1.induct)
  case (2 c d ds)
  let ?t = "push_bit 1 (ucast d) OR ucast c :: u128"
  have c: "c = 0 \<or> c = 1"
  proof -
    have "unat c = 0 \<or> unat c = 1" using "2.prems"(1) by linarith
    then show ?thesis by (auto simp: word_unat_eq_iff)
  qed
  have sh: "unat (push_bit 1 (ucast d) :: u128) = 2 * unat d"
    using unat_u64_lt [of d] by (simp add: push_bit_eq_mult unat_word_ariths)
  have t: "unat ?t = 2 * unat d + unat c"
    using c
  proof
    assume c1: "c = 1"
    have "?t = push_bit 1 (ucast d) + 1"
      unfolding c1 by (simp add: or_one_eq push_bit_eq_mult)
    then show ?thesis
      using sh c1 unat_u64_lt [of d] by (simp add: unat_word_ariths)
  qed (use sh in simp)
  obtain rs1 where rs1: "bn_shl1 (ucast (drop_bit 64 ?t)) ds = (rs1, c')" and rs: "rs = ucast ?t # rs1"
    using "2.prems" by (auto simp: Let_def split: prod.splits)
  have v: "unat (ucast ?t :: u64) + 2 ^ 64 * unat (ucast (drop_bit 64 ?t) :: u64) = 2 * unat d + unat c"
    using u128_split [of ?t] t by simp
  have "2 ^ 64 * unat (ucast (drop_bit 64 ?t) :: u64) \<le> 2 * unat d + unat c" using v by linarith
  then have "unat (ucast (drop_bit 64 ?t) :: u64) \<le> 1" using unat_u64_lt [of d] "2.prems"(1) by (simp; linarith)
  then have IH: "limbs_val rs1 + unat c' * 2 ^ (64 * length ds)
      = 2 * limbs_val ds + unat (ucast (drop_bit 64 ?t) :: u64)" "unat c' \<le> 1" "length rs1 = length ds"
    using "2.IH" [OF refl _ rs1] by simp_all
  show ?case
    using carry_arith [OF IH(1) v] IH(2,3) rs
    by (simp only: limbs_val.simps list.size pow64_Suc add_Suc_right add_0_right) simp
qed simp

lemma bn_inc_val:
  "limbs_val d < 2 ^ (64 * length d) - 1 \<Longrightarrow> limbs_val (bn_inc d) = limbs_val d + 1 \<and> length (bn_inc d) = length d"
proof (induction d)
  case (Cons x d)
  show ?case
  proof (cases "x + 1 = 0")
    case True
    then have "x = - 1" by (simp add: add_eq_0_iff2)
    then have x: "unat x = 2 ^ 64 - 1" by (simp add: unsigned_minus_1_eq_mask mask_eq_exp_minus_1)
    have "limbs_val d < 2 ^ (64 * length d) - 1"
    proof (rule ccontr)
      assume "\<not> limbs_val d < 2 ^ (64 * length d) - 1"
      then have "2 ^ 64 * (2 ^ (64 * length d) - 1) \<le> 2 ^ 64 * limbs_val d" by simp
      moreover have "(2::nat) ^ 64 * (2 ^ (64 * length d) - 1) = 2 ^ (64 * length (x # d)) - 2 ^ 64"
        by (simp add: diff_mult_distrib2 power_add)
      ultimately show False using Cons.prems x by simp
    qed
    then show ?thesis using Cons.IH True x by simp
  next
    case False
    then have "unat (x + 1) = unat x + 1" using unatSuc [of x] by (simp only: add.commute Suc_eq_plus1 not_False_eq_True simp_thms)
    then show ?thesis using False by simp
  qed
qed simp

lemma length_bn_clr [simp]: "length (bn_clr n) = n"
  by (simp add: bn_clr_def)

lemma limbs_val_bn_clr [simp]: "limbs_val (bn_clr n) = 0"
  by (simp add: bn_clr_def)

text \<open>A conditional subtraction reduces any number below twice the modulus.\<close>

lemma cond_sub_val:
  assumes "length v = 6" and "length m = 6" and lt: "limbs_val v + unat c * 2 ^ 384 < 2 * limbs_val m"
  shows "limbs_val (cond_sub m v c) = (limbs_val v + unat c * 2 ^ 384) mod limbs_val m"
    and "length (cond_sub m v c) = 6"
proof -
  obtain rs b where s: "bn_sub 0 v m = (rs, b)" by fastforce
  have sv: "limbs_val v + unat b * 2 ^ 384 = limbs_val rs + limbs_val m" "unat b \<le> 1" "length rs = 6"
    using bn_sub_val [of v m 0, OF _ _ s] assms by simp_all
  have rl: "limbs_val rs < 2 ^ 384" using limbs_val_lt [of rs] sv(3) by simp
  have ml: "limbs_val m < 2 ^ 384" using limbs_val_lt [of m] assms(2) by simp
  have c1: "unat c \<le> 1"
  proof (rule ccontr)
    assume "\<not> unat c \<le> 1"
    then have "2 * 2 ^ 384 \<le> unat c * 2 ^ 384" by (intro mult_le_mono1) simp
    then show False using lt ml by linarith
  qed
  have cases: "c \<noteq> 0 \<or> 0 \<le> bn_cmp v m 6 \<longleftrightarrow> limbs_val m \<le> limbs_val v + unat c * 2 ^ 384"
  proof (cases "c = 0")
    case True
    then show ?thesis using assms by (simp add: bn_cmp_geq geq_loop_val)
  next
    case False
    then have "1 \<le> unat c" by (simp add: Suc_le_eq unat_gt_0)
    then have "2 ^ 384 \<le> unat c * 2 ^ 384" by simp
    then show ?thesis using ml False by linarith
  qed
  have "limbs_val (cond_sub m v c) = (limbs_val v + unat c * 2 ^ 384) mod limbs_val m
    \<and> length (cond_sub m v c) = 6"
  proof (cases "limbs_val m \<le> limbs_val v + unat c * 2 ^ 384")
    case True
    then have r: "cond_sub m v c = rs" using cases s by (simp add: cond_sub_def)
    have "limbs_val rs = limbs_val v + unat c * 2 ^ 384 - limbs_val m"
    proof -
      have "unat b = unat c \<or> unat b \<noteq> unat c" by simp
      then show ?thesis
      proof
        assume "unat b \<noteq> unat c"
        then consider "unat b = 0" "unat c = 1" | "unat b = 1" "unat c = 0" using sv(2) c1 by linarith
        then show ?thesis using sv(1) rl True lt ml by cases simp_all
      qed (use sv(1) in simp)
    qed
    then show ?thesis using r True lt sv(3) by (simp add: le_mod_geq)
  next
    case False
    then have "cond_sub m v c = v" using cases by (simp add: cond_sub_def)
    moreover have "unat c = 0"
    proof (rule ccontr)
      assume "unat c \<noteq> 0"
      then have "2 ^ 384 \<le> unat c * 2 ^ 384" by simp
      then show False using False ml by linarith
    qed
    ultimately show ?thesis using False assms(1) by simp
  qed
  then show "limbs_val (cond_sub m v c) = (limbs_val v + unat c * 2 ^ 384) mod limbs_val m"
    and "length (cond_sub m v c) = 6" by simp_all
qed

subsection \<open>Bits of a limb array, and the shift-subtract reduction\<close>

lemma limbs_val_bit:
  "j < 64 * length x \<Longrightarrow> odd (limbs_val x div 2 ^ j) \<longleftrightarrow> bit (x ! (j div 64)) (j mod 64)"
proof (induction x arbitrary: j)
  case (Cons a x)
  show ?case
  proof (cases "j < 64")
    case True
    then have "(2::nat) ^ 64 = 2 ^ j * (2 * 2 ^ (63 - j))" by (simp flip: power_add power_Suc)
    then have "limbs_val (a # x) = unat a + 2 ^ j * (2 * (2 ^ (63 - j) * limbs_val x))" by simp
    then have "limbs_val (a # x) div 2 ^ j = unat a div 2 ^ j + 2 * (2 ^ (63 - j) * limbs_val x)"
      by (simp only: div_mult_self2 power_not_zero zero_neq_numeral not_False_eq_True add.commute)
    moreover have "odd (unat a div 2 ^ j) \<longleftrightarrow> bit a j"
      by (simp add: bit_unsigned_iff flip: bit_iff_odd)
    ultimately show ?thesis using True by simp
  next
    case False
    then obtain k where k: "j = 64 + k" using le_Suc_ex [of 64 j] by auto
    have "limbs_val (a # x) div 2 ^ j = (unat a + 2 ^ 64 * limbs_val x) div 2 ^ 64 div 2 ^ k"
      by (simp add: k power_add div_mult2_eq)
    also have "\<dots> = limbs_val x div 2 ^ k" using unat_u64_lt [of a] by simp
    finally have "odd (limbs_val (a # x) div 2 ^ j) \<longleftrightarrow> bit (x ! (k div 64)) (k mod 64)"
      using Cons.IH [of k] Cons.prems k by simp
    moreover have "(64 + k) div 64 = Suc (k div 64)" by simp
    ultimately show ?thesis unfolding k by simp
  qed
qed simp

lemma limbs_bit_val:
  "j < 64 * length x \<Longrightarrow> unat (drop_bit (j mod 64) (x ! (j div 64)) AND 1) = limbs_val x div 2 ^ j mod 2"
  using limbs_val_bit [of j x] by (auto simp: and_one_eq bit_iff_odd_drop_bit mod_2_eq_odd)

lemma div_pow2_step: "(n::nat) div 2 ^ j = 2 * (n div 2 ^ Suc j) + n div 2 ^ j mod 2"
  by (simp add: div_mult2_eq mult.commute [of 2])

lemma bn_mod_loop_val:
  assumes "length m = 6" and "0 < limbs_val m"
  shows "i \<le> 64 * length x \<Longrightarrow> length r = 6 \<Longrightarrow> limbs_val r = limbs_val x div 2 ^ i mod limbs_val m \<Longrightarrow>
    limbs_val (bn_mod_loop x m i r) = limbs_val x mod limbs_val m \<and> length (bn_mod_loop x m i r) = 6"
proof (induction i arbitrary: r)
  case (Suc i)
  let ?b = "drop_bit (i mod 64) (x ! (i div 64)) AND 1" and ?M = "limbs_val m"
  obtain r1 c where s: "bn_shl1 ?b r = (r1, c)" by fastforce
  have b: "unat ?b = limbs_val x div 2 ^ i mod 2" using Suc.prems by (intro limbs_bit_val) simp
  then have b1: "unat ?b \<le> 1" by simp
  have v: "limbs_val r1 + unat c * 2 ^ 384 = 2 * limbs_val r + unat ?b" "length r1 = 6"
    using bn_shl1_val [OF b1 s] Suc.prems by simp_all
  have "limbs_val r < ?M" using Suc.prems assms by simp
  then have lt: "limbs_val r1 + unat c * 2 ^ 384 < 2 * ?M" using v(1) b1 by linarith
  have "limbs_val (cond_sub m r1 c) = (2 * limbs_val r + unat ?b) mod ?M"
    using cond_sub_val(1) [OF v(2) assms(1) lt] v(1) by simp
  also have "\<dots> = (2 * (limbs_val x div 2 ^ Suc i) + unat ?b) mod ?M"
    unfolding Suc.prems(3) by (metis mod_add_left_eq mod_mult_right_eq)
  also have "\<dots> = limbs_val x div 2 ^ i mod ?M" using div_pow2_step [of "limbs_val x" i] b by simp
  finally show ?case
    using Suc.IH [of "cond_sub m r1 c"] Suc.prems cond_sub_val(2) [OF v(2) assms(1) lt] s by simp
qed simp

lemma bn_mod_val:
  assumes "length m = 6" and "0 < limbs_val m"
  shows "limbs_val (bn_mod x m) = limbs_val x mod limbs_val m" and "length (bn_mod x m) = 6"
proof -
  have "limbs_val x div 2 ^ (64 * length x) = 0" using limbs_val_lt [of x] by simp
  then show "limbs_val (bn_mod x m) = limbs_val x mod limbs_val m" and "length (bn_mod x m) = 6"
    using bn_mod_loop_val [OF assms, of "64 * length x" x "bn_clr 6"] by (simp_all add: bn_mod_def)
qed

lemma pow2_step_val:
  assumes "length m = 6" and "length v = 6" and "limbs_val v < limbs_val m"
  shows "limbs_val (pow2_step m v) = 2 * limbs_val v mod limbs_val m" and "length (pow2_step m v) = 6"
proof -
  obtain v1 c where s: "bn_shl1 0 v = (v1, c)" by fastforce
  have v: "limbs_val v1 + unat c * 2 ^ 384 = 2 * limbs_val v" "length v1 = 6"
    using bn_shl1_val [OF _ s] assms by simp_all
  then have "limbs_val v1 + unat c * 2 ^ 384 < 2 * limbs_val m" using assms(3) by linarith
  from cond_sub_val [OF v(2) assms(1) this]
  show "limbs_val (pow2_step m v) = 2 * limbs_val v mod limbs_val m" and "length (pow2_step m v) = 6"
    using v(1) s by (simp_all add: pow2_step_def)
qed

definition fe6_one :: fe6 where
  "fe6_one = (bn_clr 6)[0 := 1]"

lemma fe6_one [simp]: "limbs_val fe6_one = 1" "length fe6_one = 6"
  using limbs_val_update [of 0 "bn_clr 6" 1] by (simp_all add: fe6_one_def bn_clr_def)

lemma pow2_mod_val:
  assumes "length m = 6" and "1 < limbs_val m"
  shows "limbs_val (pow2_mod m e) = 2 ^ e mod limbs_val m \<and> length (pow2_mod m e) = 6"
proof (induction e)
  case 0
  then show ?case using assms fe6_one by (simp add: pow2_mod_def fe6_one_def)
next
  case (Suc e)
  have eq: "pow2_mod m (Suc e) = pow2_step m (pow2_mod m e)" by (simp add: pow2_mod_def)
  have "limbs_val (pow2_mod m e) < limbs_val m" using Suc assms by simp
  then show ?case using pow2_step_val [OF assms(1), of "pow2_mod m e"] Suc eq by (simp add: mod_simps)
qed

subsection \<open>The Montgomery product\<close>

lemma mac_commute: "mac t a m c = mac t m a c"
  by (simp add: mac_def mult.commute)

lemma mac_loop_nth: "k + length as \<le> j \<Longrightarrow> fst (mac_loop T k as m c) ! j = T ! j"
  by (induction T k as m c rule: mac_loop.induct) (auto split: prod.splits)

lemma ripple_carry_up: "ripple T k c = Some T' \<Longrightarrow> carry_up T k c = T'"
proof (induction T k c rule: ripple.induct)
  case (1 T k c)
  obtain lo hi where lh: "mac (T ! k) 0 0 c = (lo, hi)" by fastforce
  then have ad: "addc (T ! k) c 0 = (lo, hi)" by (simp add: addc_def mac_def)
  show ?case
  proof (cases "c = 0")
    case True
    then show ?thesis using "1.prems" by (simp add: ripple.simps carry_up.simps)
  next
    case False
    then have k: "\<not> length T \<le> k" and r: "ripple (T[k := lo]) (Suc k) hi = Some T'"
      using "1.prems" lh by (auto simp: ripple.simps [of T k c] split: if_splits)
    from "1.IH" [OF False k lh [symmetric] refl r] show ?thesis
      using False k ad by (simp add: carry_up.simps [of T k c])
  qed
qed

lemma carry_up_step:
  assumes "addc (T ! k) c 0 = (lo, hi)" and "k < length T"
  shows "carry_up (T[k := lo]) (Suc k) hi = carry_up T k c"
proof (cases "c = 0")
  case True
  have v: "unat lo + 2 ^ 64 * unat hi = unat (T ! k)" using addc_val [OF assms(1)] True by simp
  have "unat hi = 0"
  proof (rule ccontr)
    assume "unat hi \<noteq> 0"
    then have "2 ^ 64 \<le> 2 ^ 64 * unat hi" by simp
    then show False using v unat_u64_lt [of "T ! k"] by linarith
  qed
  then have hi: "hi = 0" by (simp only: unat_eq_0)
  then have "unat lo = unat (T ! k)" using v by simp
  then have "lo = T ! k" by (simp only: word_unat_eq_iff)
  then show ?thesis using True hi by (simp add: carry_up.simps)
qed (use assms in \<open>simp add: carry_up.simps [of T k c]\<close>)

lemma mm_rows_val:
  assumes "length T = 12" and "length a = 6" and "i + length bs \<le> 6"
    and "\<And>j. i + 6 \<le> j \<Longrightarrow> j < 12 \<Longrightarrow> T ! j = 0"
  shows "limbs_val (mm_rows T i a bs) = limbs_val T + limbs_val a * limbs_val bs * 2 ^ (64 * i)
    \<and> length (mm_rows T i a bs) = 12"
  using assms
proof (induction T i a bs rule: mm_rows.induct)
  case (2 T i a b bs)
  obtain T1 cy where m: "mac_loop T i a b 0 = (T1, cy)" by fastforce
  let ?T2 = "T1[i + 6 := T1 ! (i + 6) + cy]"
  have l1: "length T1 = 12" using mac_loop_length [of T i a b 0] "2.prems" m by simp
  have "i + length a \<le> length T" using "2.prems"(1-3) by simp
  from mac_loop_val [OF this m]
  have v1: "limbs_val T1 + unat cy * 2 ^ (64 * (i + 6)) = limbs_val T + limbs_val a * unat b * 2 ^ (64 * i)"
    unfolding "2.prems"(2) by simp
  have z: "T1 ! j = 0" if "i + 6 \<le> j" "j < 12" for j
    using mac_loop_nth [of i a j T b 0] m that "2.prems"(2) "2.prems"(4) [of j] by simp
  have i6: "i + 6 < length T1" using l1 "2.prems"(3) by simp
  then have z0: "T1 ! (i + 6) = 0" using z [of "i + 6"] l1 by simp
  have "limbs_val ?T2 = limbs_val T1 + unat cy * 2 ^ (64 * (i + 6))"
    using limbs_val_update [OF i6, of "T1 ! (i + 6) + cy"] unfolding z0 by simp
  then have v2: "limbs_val ?T2 = limbs_val T + limbs_val a * unat b * 2 ^ (64 * i)" using v1 by simp
  have IH: "limbs_val (mm_rows ?T2 (Suc i) a bs) = limbs_val ?T2 + limbs_val a * limbs_val bs * 2 ^ (64 * Suc i)
      \<and> length (mm_rows ?T2 (Suc i) a bs) = 12"
    using "2.prems" l1 z by (intro "2.IH" [OF m [symmetric] refl]) (simp_all add: nth_list_update)
  have "limbs_val a * limbs_val (b # bs) * 2 ^ (64 * i)
      = limbs_val a * unat b * 2 ^ (64 * i) + limbs_val a * limbs_val bs * 2 ^ (64 * Suc i)"
    by (simp only: limbs_val.simps pow64_Suc add_mult_distrib2 add_mult_distrib) (simp only: ac_simps)
  then show ?case using IH v2 m by simp
qed simp

text \<open>
  One reduction round, for a modulus of \<open>n\<close> limbs and an array of \<open>2 * n\<close>: it adds a multiple of
  the modulus that clears the lowest limb still in use.
\<close>

lemma redc_round:
  assumes len: "length T = 2 * n" "length M = n" and i: "i < n" and inv: "n0 * M ! 0 = - 1"
    and m: "m = T ! i * n0" and lo: "mac (T ! i) (M ! 0) m 0 = (lo, c0)"
    and T1: "mac_loop T (Suc i) (tl M) m c0 = (T1, c1)"
    and fits: "limbs_val (drop i T) + unat m * limbs_val M < 2 ^ (64 * (2 * n - i))"
  shows "\<exists>T2. ripple T1 (i + n) c1 = Some T2 \<and> length T2 = 2 * n
    \<and> 2 ^ 64 * limbs_val (drop (Suc i) T2) = limbs_val (drop i T) + unat m * limbs_val M"
proof -
  let ?X = "limbs_val (tl M) * unat m + unat c0"
  have l1: "length T1 = 2 * n" using mac_loop_length [of T "Suc i" "tl M" m c0] T1 len by simp
  have tl: "Suc i + length (tl M) = i + n" using len i by simp
  have v1: "limbs_val T1 + unat c1 * 2 ^ (64 * (i + n)) = limbs_val T + ?X * 2 ^ (64 * Suc i)"
    using mac_loop_val [OF _ T1] len i unfolding tl by simp
  have cons: "drop i T = T ! i # drop (Suc i) T" using len i by (simp add: Cons_nth_drop_Suc)
  have p: "limbs_val M = unat (M ! 0) + 2 ^ 64 * limbs_val (tl M)"
    using len i by (cases M) simp_all
  have "lo = T ! i + (M ! 0) * (T ! i * n0)" using mac_low [OF lo] m by simp
  also have "\<dots> = T ! i + T ! i * (n0 * M ! 0)" by (simp add: ac_simps)
  finally have "lo = 0" using inv by simp
  then have low: "unat (T ! i) + unat (M ! 0) * unat m = 2 ^ 64 * unat c0" using mac_val [OF lo] by simp
  have key: "limbs_val (drop i T) + unat m * limbs_val M = 2 ^ 64 * (limbs_val (drop (Suc i) T) + ?X)"
    using low unfolding cons p by (simp add: algebra_simps)
  have vT: "limbs_val T = limbs_val (take (Suc i) T) + 2 ^ (64 * Suc i) * limbs_val (drop (Suc i) T)"
    by (rule limbs_val_drop)
  have tk: "limbs_val (take (Suc i) T) < 2 ^ (64 * Suc i)"
    using limbs_val_lt [of "take (Suc i) T"] len i by (simp add: min_def)
  have "2 * n - i = Suc (2 * n - Suc i)" using i by simp
  then have pw: "(2::nat) ^ (64 * (2 * n - i)) = 2 ^ 64 * 2 ^ (64 * (2 * n - Suc i))" by (simp only: pow64_Suc)
  have "limbs_val (drop (Suc i) T) + ?X < 2 ^ (64 * (2 * n - Suc i))"
    using fits unfolding key pw by simp
  then have "Suc (limbs_val (drop (Suc i) T) + ?X) \<le> 2 ^ (64 * (2 * n - Suc i))" by simp
  then have "2 ^ (64 * Suc i) * Suc (limbs_val (drop (Suc i) T) + ?X)
      \<le> 2 ^ (64 * Suc i) * 2 ^ (64 * (2 * n - Suc i))"
    by (rule mult_le_mono2)
  also have "\<dots> = 2 ^ (64 * (2 * n))" using i by (simp flip: power_add add: algebra_simps)
  finally have "2 ^ (64 * Suc i) + 2 ^ (64 * Suc i) * (limbs_val (drop (Suc i) T) + ?X) \<le> 2 ^ (64 * (2 * n))"
    by simp
  then have lim: "limbs_val T1 + unat c1 * 2 ^ (64 * (i + n)) < 2 ^ (64 * length T1)"
  proof -
    have "2 ^ (64 * Suc i) * (limbs_val (drop (Suc i) T) + ?X)
        = 2 ^ (64 * Suc i) * limbs_val (drop (Suc i) T) + ?X * 2 ^ (64 * Suc i)"
      by (simp only: add_mult_distrib2 mult.commute [of ?X])
    with \<open>_ \<le> 2 ^ (64 * (2 * n))\<close> tk show ?thesis unfolding l1 v1 vT by linarith
  qed
  have "i + n \<le> length T1" using l1 i by simp
  with lim obtain T2 where T2: "ripple T1 (i + n) c1 = Some T2"
    and v2: "limbs_val T2 = limbs_val T1 + unat c1 * 2 ^ (64 * (i + n))"
    using ripple_val by blast
  have l2: "length T2 = 2 * n" using ripple_length [OF T2] l1 by simp
  have "take (Suc i) T2 = take (Suc i) T1" using ripple_take [OF T2, of "Suc i"] i by simp
  also have "\<dots> = take (Suc i) T" using mac_loop_take [of "Suc i" "Suc i" T "tl M" m c0] T1 by simp
  finally have "limbs_val T2 = limbs_val (take (Suc i) T) + 2 ^ (64 * Suc i) * limbs_val (drop (Suc i) T2)"
    using limbs_val_drop [of T2 "Suc i"] by simp
  then have "2 ^ (64 * Suc i) * limbs_val (drop (Suc i) T2) = 2 ^ (64 * Suc i) * (limbs_val (drop (Suc i) T) + ?X)"
    using v1 v2 vT by (simp add: algebra_simps)
  then have "limbs_val (drop (Suc i) T2) = limbs_val (drop (Suc i) T) + ?X" by simp
  then show ?thesis using T2 l2 key by auto
qed

text \<open>
  What the code relies on in a context: an odd modulus above one with at most 383 bits, the
  constant of the reduction, and the two powers of the radix.
\<close>

definition ctx_ok :: "MCtx \<Rightarrow> bool" where
  "ctx_ok C \<longleftrightarrow> length (cm C) = 6 \<and> length (cr1 C) = 6 \<and> length (crr C) = 6 \<and> cn0 C * cm C ! 0 = - 1
     \<and> 2 * limbs_val (cm C) \<le> 2 ^ 384 \<and> 1 < limbs_val (cm C)
     \<and> limbs_val (cr1 C) = 2 ^ 384 mod limbs_val (cm C) \<and> limbs_val (crr C) = 2 ^ 768 mod limbs_val (cm C)"

lemma ctx_okD:
  assumes "ctx_ok C"
  shows "length (cm C) = 6" "length (cr1 C) = 6" "length (crr C) = 6" "cn0 C * cm C ! 0 = - 1"
    "2 * limbs_val (cm C) \<le> 2 ^ 384" "1 < limbs_val (cm C)"
    "limbs_val (cr1 C) = 2 ^ 384 mod limbs_val (cm C)" "limbs_val (crr C) = 2 ^ 768 mod limbs_val (cm C)"
  using assms unfolding ctx_ok_def by simp_all

lemma mm_round_val:
  assumes C: "ctx_ok C" and len: "length T = 12" and i: "i < 6"
    and fits: "limbs_val (drop i T) + unat (T ! i * cn0 C) * limbs_val (cm C) < 2 ^ (64 * (12 - i))"
  shows "length (mm_round C T i) = 12
    \<and> 2 ^ 64 * limbs_val (drop (Suc i) (mm_round C T i))
        = limbs_val (drop i T) + unat (T ! i * cn0 C) * limbs_val (cm C)"
proof -
  let ?m = "T ! i * cn0 C"
  obtain lo c0 where lo: "mac (T ! i) ?m (cm C ! 0) 0 = (lo, c0)" by fastforce
  obtain T1 c1 where T1: "mac_loop T (Suc i) (tl (cm C)) ?m c0 = (T1, c1)" by fastforce
  obtain l h where ad: "addc (T1 ! (i + 6)) c1 0 = (l, h)" by fastforce
  have l1: "length T1 = 12" using mac_loop_length [of T "Suc i" "tl (cm C)" ?m c0] T1 len by simp
  have six: "length T = 2 * 6" "length (cm C) = 6" using len ctx_okD(1) [OF C] by simp_all
  have "limbs_val (drop i T) + unat ?m * limbs_val (cm C) < 2 ^ (64 * (2 * 6 - i))" using fits by simp
  from redc_round [OF six i ctx_okD(4) [OF C] refl lo [unfolded mac_commute [of _ ?m]] T1 this]
  obtain T2 where T2: "ripple T1 (i + 6) c1 = Some T2" "length T2 = 12"
    "2 ^ 64 * limbs_val (drop (Suc i) T2) = limbs_val (drop i T) + unat ?m * limbs_val (cm C)" by auto
  have "mm_round C T i = carry_up (T1[i + 6 := l]) (i + 7) h"
    using lo T1 ad by (simp add: mm_round_def Let_def)
  also have "i + 7 = Suc (i + 6)" by simp
  also have "carry_up (T1[i + 6 := l]) (Suc (i + 6)) h = T2" using carry_up_step [OF ad] l1 i ripple_carry_up [OF T2(1)] by simp
  finally show ?thesis using T2 by simp
qed

lemma mm_reduce_val:
  assumes C: "ctx_ok C"
  shows "length T = 12 \<Longrightarrow> i + k = 6 \<Longrightarrow>
    limbs_val (drop i T) + (2 ^ (64 * k) - 1) * limbs_val (cm C) < 2 ^ (64 * (12 - i)) \<Longrightarrow>
    \<exists>Q. length (fold (\<lambda>i T. mm_round C T i) [i..<6] T) = 12 \<and> Q < 2 ^ (64 * k)
      \<and> 2 ^ (64 * k) * limbs_val (drop 6 (fold (\<lambda>i T. mm_round C T i) [i..<6] T))
          = limbs_val (drop i T) + Q * limbs_val (cm C)"
proof (induction k arbitrary: i T)
  case 0
  then show ?case by simp
next
  case (Suc k)
  let ?m = "T ! i * cn0 C" and ?M = "limbs_val (cm C)" and ?T1 = "mm_round C T i"
  have i: "i < 6" and up: "[i..<6] = i # [Suc i..<6]" using Suc.prems(2) by (simp_all add: upt_rec)
  have one: "(1::nat) \<le> 2 ^ (64 * k)" by simp
  have split: "unat ?m + 2 ^ 64 * (2 ^ (64 * k) - 1) \<le> 2 ^ (64 * Suc k) - (1::nat)"
    unfolding pow64_Suc using unat_u64_lt [of ?m] one by (simp add: diff_mult_distrib2)
  then have le: "unat ?m * ?M + 2 ^ 64 * ((2 ^ (64 * k) - 1) * ?M) \<le> (2 ^ (64 * Suc k) - 1) * ?M"
    using mult_le_mono1 [OF split, of ?M] by (simp only: add_mult_distrib mult.assoc)
  then have "limbs_val (drop i T) + unat ?m * ?M < 2 ^ (64 * (12 - i))" using Suc.prems(3) by linarith
  from mm_round_val [OF C Suc.prems(1) i this]
  have T1: "length ?T1 = 12" "2 ^ 64 * limbs_val (drop (Suc i) ?T1) = limbs_val (drop i T) + unat ?m * ?M"
    by simp_all
  have "2 ^ 64 * (limbs_val (drop (Suc i) ?T1) + (2 ^ (64 * k) - 1) * ?M) < 2 ^ (64 * (12 - i))"
    using T1(2) le Suc.prems(3) by (simp only: add_mult_distrib2)
  also have "(2::nat) ^ (64 * (12 - i)) = 2 ^ 64 * 2 ^ (64 * (12 - Suc i))"
  proof -
    have "12 - i = Suc (12 - Suc i)" using i by simp
    then show ?thesis by (simp only: pow64_Suc)
  qed
  finally have "limbs_val (drop (Suc i) ?T1) + (2 ^ (64 * k) - 1) * ?M < 2 ^ (64 * (12 - Suc i))" by simp
  from Suc.IH [OF T1(1) _ this] Suc.prems(2) obtain Q where
    Q: "length (fold (\<lambda>i T. mm_round C T i) [Suc i..<6] ?T1) = 12" "Q < 2 ^ (64 * k)"
    "2 ^ (64 * k) * limbs_val (drop 6 (fold (\<lambda>i T. mm_round C T i) [Suc i..<6] ?T1))
      = limbs_val (drop (Suc i) ?T1) + Q * ?M" by auto
  have "unat ?m + 2 ^ 64 * Q \<le> unat ?m + 2 ^ 64 * (2 ^ (64 * k) - 1)" using Q(2) by simp
  also have "\<dots> < 2 ^ (64 * Suc k)" using split by (rule le_less_trans) simp
  finally have "unat ?m + 2 ^ 64 * Q < 2 ^ (64 * Suc k)" .
  moreover have "2 ^ (64 * Suc k) * limbs_val (drop 6 (fold (\<lambda>i T. mm_round C T i) [Suc i..<6] ?T1))
      = limbs_val (drop i T) + (unat ?m + 2 ^ 64 * Q) * ?M"
    using Q(3) T1(2) unfolding pow64_Suc mult.assoc by (simp add: algebra_simps)
  ultimately show ?case using Q(1) up by auto
qed

lemma mmul_val:
  assumes C: "ctx_ok C" and len: "length a = 6" "length b = 6"
    and red: "limbs_val a < limbs_val (cm C) \<or> limbs_val b < limbs_val (cm C)"
  shows "limbs_val (mmul C a b) < limbs_val (cm C) \<and> length (mmul C a b) = 6
    \<and> (2 ^ 384 * limbs_val (mmul C a b)) mod limbs_val (cm C) = (limbs_val a * limbs_val b) mod limbs_val (cm C)"
proof -
  let ?M = "limbs_val (cm C)" and ?T = "mm_rows (bn_clr 12) 0 a b"
  have al: "limbs_val a < 2 ^ 384" "limbs_val b < 2 ^ 384"
    using limbs_val_lt [of a] limbs_val_lt [of b] len by simp_all
  have ab: "limbs_val a * limbs_val b < ?M * 2 ^ 384"
    using red
  proof
    assume "limbs_val b < ?M"
    then have "limbs_val b * limbs_val a < ?M * 2 ^ 384" using al by (intro mult_strict_mono) simp_all
    then show ?thesis by (simp only: mult.commute)
  qed (use al in \<open>intro mult_strict_mono; simp\<close>)
  have T: "limbs_val ?T = limbs_val a * limbs_val b" "length ?T = 12"
    using mm_rows_val [of "bn_clr 12" a 0 b] len by (simp_all add: bn_clr_def)
  have "2 * ?M * 2 ^ 384 \<le> 2 ^ 384 * 2 ^ 384" using ctx_okD(5) [OF C] by (rule mult_le_mono1)
  moreover have "(2 ^ 384 - 1) * ?M \<le> ?M * 2 ^ 384"
    unfolding mult.commute [of ?M] by (intro mult_le_mono1) simp
  moreover have "(2::nat) ^ 384 * 2 ^ 384 = 2 ^ 768" by (simp flip: power_add)
  ultimately have "limbs_val (drop 0 ?T) + (2 ^ (64 * 6) - 1) * ?M < 2 ^ (64 * (12 - 0))"
    using ab T(1) by (simp del: diff_mult_distrib)
  from mm_reduce_val [OF C T(2) _ this] obtain Q where
    Q: "length (fold (\<lambda>i T. mm_round C T i) [0..<6] ?T) = 12" "Q < 2 ^ 384"
    "2 ^ 384 * limbs_val (drop 6 (fold (\<lambda>i T. mm_round C T i) [0..<6] ?T)) = limbs_val a * limbs_val b + Q * ?M"
    using T(1) by auto
  let ?r = "drop 6 (fold (\<lambda>i T. mm_round C T i) [0..<6] ?T)"
  have "Q * ?M \<le> 2 ^ 384 * ?M" using Q(2) by (intro mult_le_mono1) simp
  then have "limbs_val a * limbs_val b + Q * ?M < ?M * 2 ^ 384 + 2 ^ 384 * ?M" using ab by (rule add_less_le_mono [rotated])
  also have "\<dots> = 2 ^ 384 * (2 * ?M)" by (simp only: mult_2 add_mult_distrib2 mult.commute)
  finally have "2 ^ 384 * limbs_val ?r < 2 ^ 384 * (2 * ?M)" unfolding Q(3) .
  then have lt: "limbs_val ?r + unat (0::u64) * 2 ^ 384 < 2 * ?M" by simp
  have lr: "length ?r = 6" using Q(1) by simp
  note cs = cond_sub_val [OF lr ctx_okD(1) [OF C] lt]
  have eq: "mmul C a b = cond_sub (cm C) ?r 0" by (simp add: mmul_def Let_def)
  have "(2 ^ 384 * (limbs_val ?r mod ?M)) mod ?M = (limbs_val a * limbs_val b + Q * ?M) mod ?M"
    unfolding Q(3) [symmetric] by (rule mod_mult_right_eq)
  then show ?thesis using cs ctx_okD(6) [OF C] unfolding eq by simp
qed


lemma bn_add_mod: "length a = 6 \<Longrightarrow> length b = 6 \<Longrightarrow> limbs_val (fst (bn_add 0 a b)) = (limbs_val a + limbs_val b) mod 2 ^ 384
    \<and> length (fst (bn_add 0 a b)) = 6"
proof -
  assume len: "length a = 6" "length b = 6"
  obtain r c where s: "bn_add 0 a b = (r, c)" by fastforce
  have v: "limbs_val r + unat c * 2 ^ 384 = limbs_val a + limbs_val b" "length r = 6"
    using bn_add_val [OF _ s] len by simp_all
  have "limbs_val r < 2 ^ 384" using limbs_val_lt [of r] v(2) by simp
  then have "limbs_val r = (limbs_val r + unat c * 2 ^ 384) mod 2 ^ 384" by simp
  also have "\<dots> = (limbs_val a + limbs_val b) mod 2 ^ 384" by (simp only: v(1))
  finally show ?thesis using v(2) s by (simp only: fst_conv simp_thms)
qed

lemma madd_val:
  assumes C: "ctx_ok C" and len: "length a = 6" "length b = 6"
    and red: "limbs_val a < limbs_val (cm C)" "limbs_val b < limbs_val (cm C)"
  shows "limbs_val (madd C a b) = (limbs_val a + limbs_val b) mod limbs_val (cm C)"
    and "length (madd C a b) = 6"
proof -
  obtain r c where s: "bn_add 0 a b = (r, c)" by fastforce
  have v: "limbs_val r + unat c * 2 ^ 384 = limbs_val a + limbs_val b" "length r = 6"
    using bn_add_val [OF _ s] len by simp_all
  then have "limbs_val r + unat c * 2 ^ 384 < 2 * limbs_val (cm C)" using red by linarith
  from cond_sub_val [OF v(2) ctx_okD(1) [OF C] this]
  show "limbs_val (madd C a b) = (limbs_val a + limbs_val b) mod limbs_val (cm C)" "length (madd C a b) = 6"
    using v(1) s by (simp_all add: madd_def)
qed

lemma msub_val:
  assumes C: "ctx_ok C" and len: "length a = 6" "length b = 6"
    and red: "limbs_val a < limbs_val (cm C)" "limbs_val b < limbs_val (cm C)"
  shows "limbs_val (msub C a b) = (limbs_val a + (limbs_val (cm C) - limbs_val b)) mod limbs_val (cm C)"
    and "length (msub C a b) = 6"
proof -
  let ?M = "limbs_val (cm C)"
  obtain r br where s: "bn_sub 0 a b = (r, br)" by fastforce
  have v: "limbs_val a + unat br * 2 ^ 384 = limbs_val r + limbs_val b" "unat br \<le> 1" "length r = 6"
    using bn_sub_val [OF _ _ s] len by simp_all
  have rl: "limbs_val r < 2 ^ 384" using limbs_val_lt [of r] v(3) by simp
  have ml: "?M < 2 ^ 384" using limbs_val_lt [of "cm C"] ctx_okD(1) [OF C] by simp
  have "limbs_val (msub C a b) = (limbs_val a + (?M - limbs_val b)) mod ?M \<and> length (msub C a b) = 6"
  proof (cases "br = 0")
    case True
    then have "limbs_val a = limbs_val r + limbs_val b" using v(1) by simp
    moreover from this have "limbs_val a + (?M - limbs_val b) = limbs_val r + ?M" "limbs_val r < ?M"
      using red by linarith+
    ultimately show ?thesis using True s v(3) by (simp add: msub_def)
  next
    case False
    then have "unat br \<noteq> 0" by (simp add: unat_eq_0)
    then have "unat br = 1" using v(2) by linarith
    then have e: "limbs_val a + 2 ^ 384 = limbs_val r + limbs_val b" using v(1) by simp
    then have ab: "limbs_val a < limbs_val b" using rl by linarith
    have "limbs_val r + ?M = limbs_val a + (?M - limbs_val b) + 2 ^ 384" using e red by linarith
    moreover have "limbs_val a + (?M - limbs_val b) < ?M" using ab red by linarith
    ultimately show ?thesis
      using bn_add_mod [OF v(3) ctx_okD(1) [OF C]] False s ml by (simp add: msub_def)
  qed
  then show "limbs_val (msub C a b) = (limbs_val a + (?M - limbs_val b)) mod ?M" "length (msub C a b) = 6"
    by simp_all
qed

subsection \<open>The bits of an exponent\<close>

lemma bits_down_value:
  "foldl (\<lambda>n b. 2 * n + of_bool b) 0 (bits_down e) = limbs_val e"
proof -
  have "foldl (\<lambda>n b. 2 * n + of_bool b) 0 (map (\<lambda>i. bit (e ! (i div 64)) (i mod 64)) (rev [k..<64 * length e]))
      = limbs_val e div 2 ^ k" if "k \<le> 64 * length e" for k
    using that
  proof (induction k rule: inc_induct)
    case base
    show ?case using limbs_val_lt [of e] by simp
  next
    case (step k)
    have up: "[k..<64 * length e] = k # [Suc k..<64 * length e]" using step.hyps by (simp add: upt_rec)
    have "of_bool (bit (e ! (k div 64)) (k mod 64)) = limbs_val e div 2 ^ k mod (2::nat)"
      using limbs_val_bit [of k e] step.hyps by (simp add: mod_2_eq_odd)
    then show ?case using step.IH div_pow2_step [of "limbs_val e" k] unfolding up by simp
  qed
  from this [of 0] show ?thesis by (simp add: bits_down_def)
qed

lemma bitlen_value: "limbs_val k < 2 ^ bitlen k"
proof -
  have drop: "foldl (\<lambda>n b. 2 * n + of_bool b) 0 (dropWhile (\<lambda>b. \<not> b) bs) = foldl (\<lambda>n b. 2 * n + of_bool b) (0::nat) bs" for bs
    by (induction bs) simp_all
  have "foldl (\<lambda>n b. 2 * n + of_bool b) m bs < (m + 1) * 2 ^ length bs" for m :: nat and bs
  proof (induction bs arbitrary: m)
    case (Cons b bs)
    have "2 * m + of_bool b + 1 \<le> (m + 1) * 2" by simp
    then have "(2 * m + of_bool b + 1) * 2 ^ length bs \<le> (m + 1) * 2 * 2 ^ length bs" by (rule mult_le_mono1)
    with Cons.IH [of "2 * m + of_bool b"] show ?case by (simp add: mult.assoc)
  qed simp
  from this [of 0 "dropWhile (\<lambda>b. \<not> b) (bits_down k)"] show ?thesis
    by (simp add: drop bits_down_value bitlen_def)
qed

end
