(* ===== verification/Mont_Kernel.thy ===== *)
theory Mont_Kernel
  imports Field_Spec
begin

text \<open>
  A kernel over machine words is described by the value of a representation: sums and differences
  are reduced, the product times the radix is congruent to the product of the values. Such a
  kernel is a field kernel, decoded by dividing the radix out.
\<close>

subsection \<open>Powers\<close>

text \<open>Square-and-multiply over the bits of an exponent, most significant first, in a ring.\<close>

lemma square_multiply:
  "foldl (\<lambda>r b. let r = r * r in if b then r * (a::'r::comm_ring_1) else r) (a ^ n) bs
    = a ^ foldl (\<lambda>n b. 2 * n + of_bool b) n bs"
proof (induction bs arbitrary: n)
  case (Cons b bs)
  have "(let r = a ^ n * a ^ n in if b then r * a else r) = a ^ (2 * n + of_bool b)"
    by (simp add: Let_def mult_2 power_add mult.assoc mult.commute [of a])
  then show ?case using Cons.IH [of "2 * n + of_bool b"] by simp
qed simp

subsection \<open>Remainders of literals\<close>

text \<open>A remainder is checked from its quotient: evaluating a product is cheaper than a division.\<close>

lemma mod_by_quotient: "n = q * k + r \<Longrightarrow> r < q \<Longrightarrow> n mod q = (r :: nat)"
  by simp

subsection \<open>The interface\<close>

locale mont_kernel =
  fixes canon :: "'f \<Rightarrow> bool"
    and val :: "'f \<Rightarrow> nat"
    and p R :: nat
    and rinv :: "'r::comm_ring_1"
    and add sub mul :: "'f \<Rightarrow> 'f \<Rightarrow> 'f"
    and zero one :: 'f
  assumes eq_mod: "(of_nat m :: 'r) = of_nat n \<longleftrightarrow> m mod p = n mod p"
    and rinv: "rinv * of_nat R = 1"
    and val_lt: "canon a \<Longrightarrow> val a < p"
    and val_inj: "canon a \<Longrightarrow> canon b \<Longrightarrow> val a = val b \<Longrightarrow> a = b"
    and c_zero: "canon zero" and c_one: "canon one"
    and c_add: "canon a \<Longrightarrow> canon b \<Longrightarrow> canon (add a b)"
    and c_sub: "canon a \<Longrightarrow> canon b \<Longrightarrow> canon (sub a b)"
    and c_mul: "canon a \<Longrightarrow> canon b \<Longrightarrow> canon (mul a b)"
    and v_zero: "val zero = 0" and v_one: "val one = R mod p"
    and v_add: "canon a \<Longrightarrow> canon b \<Longrightarrow> val (add a b) = (val a + val b) mod p"
    and v_sub: "canon a \<Longrightarrow> canon b \<Longrightarrow> val (sub a b) = (val a + (p - val b)) mod p"
    and v_mul: "canon a \<Longrightarrow> canon b \<Longrightarrow> (R * val (mul a b)) mod p = (val a * val b) mod p"
begin

definition dec :: "'f \<Rightarrow> 'r" where
  "dec x = rinv * of_nat (val x)"

lemma of_nat_modulus: "(of_nat p :: 'r) = 0"
  using eq_mod [of p 0] by simp

lemma of_nat_mod: "(of_nat (n mod p) :: 'r) = of_nat n"
  by (simp add: eq_mod)

lemma rinv_R: "rinv * (of_nat R * z) = z" "of_nat R * (rinv * z) = z"
proof -
  show "rinv * (of_nat R * z) = z" by (simp only: rinv mult_1_left flip: mult.assoc)
  then show "of_nat R * (rinv * z) = z" by (simp only: mult.left_commute)
qed

lemma dec_R: "of_nat R * dec x = of_nat (val x)"
  by (simp only: dec_def rinv_R)

lemma decode_zero: "dec zero = 0"
  by (simp add: dec_def v_zero)

lemma decode_add: "canon a \<Longrightarrow> canon b \<Longrightarrow> dec (add a b) = dec a + dec b"
  by (simp add: dec_def v_add of_nat_mod distrib_left)

lemma decode_sub:
  assumes "canon a" and "canon b"
  shows "dec (sub a b) = dec a - dec b"
proof -
  have "(of_nat (val a + (p - val b)) :: 'r) = of_nat (val a) - of_nat (val b)"
    using val_lt [OF assms(2)] by (simp add: of_nat_diff of_nat_modulus)
  then show ?thesis using assms by (simp add: dec_def v_sub of_nat_mod right_diff_distrib)
qed

lemma decode_mul:
  assumes "canon a" and "canon b"
  shows "dec (mul a b) = dec a * dec b"
proof -
  have "of_nat R * (of_nat (val (mul a b)) :: 'r) = of_nat (val a) * of_nat (val b)"
    using v_mul [OF assms] by (simp only: flip: of_nat_mult eq_mod)
  then have "rinv * (rinv * (of_nat R * of_nat (val (mul a b)))) = dec a * dec b"
    by (simp add: dec_def ac_simps)
  moreover have "rinv * (rinv * (of_nat R * of_nat (val (mul a b)))) = rinv * (rinv * of_nat R) * of_nat (val (mul a b))"
    by (simp only: mult.assoc)
  ultimately show ?thesis by (simp add: rinv dec_def)
qed

lemma decode_inj: "canon a \<Longrightarrow> canon b \<Longrightarrow> dec a = dec b \<Longrightarrow> a = b"
  using val_lt val_inj eq_mod [of "val a" "val b"] by (simp flip: dec_R)

lemma decode_one: "dec one = 1"
  using rinv by (simp add: dec_def v_one of_nat_mod)

end

sublocale mont_kernel \<subseteq> field_kernel canon dec add sub mul zero one
  by unfold_locales (auto simp: c_zero c_one c_add c_sub c_mul decode_add decode_sub decode_mul decode_one decode_zero decode_inj)

context mont_kernel begin

text \<open>Entering and leaving the domain: multiplying by the square of the radix, and by a raw one.\<close>

lemma dec_enter: "canon x \<Longrightarrow> canon rr \<Longrightarrow> val rr = R * R mod p \<Longrightarrow> dec (mul x rr) = of_nat (val x)"
  by (simp only: decode_mul) (simp add: dec_def of_nat_mod rinv_R mult.assoc mult.commute [of "of_nat (val x)"])

lemma val_leave:
  assumes "canon x" and "canon raw" and "val raw = 1"
  shows "of_nat (val (mul x raw)) = dec x"
proof -
  have "of_nat (val (mul x raw)) = of_nat R * dec (mul x raw)" by (simp only: dec_R)
  also have "\<dots> = of_nat R * (rinv * (dec x * of_nat (val raw)))"
    unfolding decode_mul [OF assms(1,2)] by (simp only: dec_def [of raw] ac_simps)
  finally show ?thesis by (simp add: rinv_R assms(3))
qed

lemma leave_enter:
  assumes "canon x" and "canon rr" and "val rr = R * R mod p" and "canon raw" and "val raw = 1"
  shows "mul (mul x rr) raw = x"
proof (rule val_inj)
  have "(of_nat (val (mul (mul x rr) raw)) :: 'r) = of_nat (val x)"
    using assms by (simp add: val_leave c_mul dec_enter)
  then show "val (mul (mul x rr) raw) = val x"
    using assms by (simp add: eq_mod c_mul val_lt)
qed (use assms in \<open>simp_all add: c_mul\<close>)

lemma square_multiply_dec:
  "canon r \<Longrightarrow> canon a \<Longrightarrow>
    canon (foldl (\<lambda>r b. let r = mul r r in if b then mul r a else r) r bs)
    \<and> dec (foldl (\<lambda>r b. let r = mul r r in if b then mul r a else r) r bs)
      = foldl (\<lambda>r b. let r = r * r in if b then r * dec a else r) (dec r) bs"
proof (induction bs arbitrary: r)
  case (Cons b bs)
  have "canon (let r = mul r r in if b then mul r a else r)"
    "dec (let r = mul r r in if b then mul r a else r) = (let r = dec r * dec r in if b then r * dec a else r)"
    using Cons.prems by (simp_all add: Let_def c_mul decode_mul)
  then show ?case using Cons.IH Cons.prems(2) by (simp only: foldl.simps)
qed simp

end

end
