(* ===== verification/Bls_Fr.thy ===== *)
theory Bls_Fr
  imports Mont384 Mont_Kernel
begin

text \<open>
  The scalar field of BLS12-377, \<open>src/include/hsma/threshold/scalar_r.hpp\<close> with the constants of
  \<open>src/generated/bls_params_gen.hpp\<close>: four limbs, a coarsely integrated product, and the
  conversions, each checked against the residue ring. Also the passage to six limbs of
  \<open>src/include/hsma/threshold/interop.hpp\<close>.
\<close>

type_synonym fr = "u64 list"

subsection \<open>Constants\<close>

definition R_MOD :: fr where
  "R_MOD = [725501752471715841, 6461107452199829505,
    6968279316240510977, 1345280370688173398]"

definition FR_ONE :: fr where
  "FR_ONE = [9015221291577245683, 8239323489949974514,
    1646089257421115374, 958099254763297437]"

definition R_R2 :: fr where
  "R_R2 = [2726216793283724667, 14712177743343147295,
    12091039717619697043, 81024008013859129]"

definition R_M2 :: fr where
  "R_M2 = [725501752471715839, 6461107452199829505,
    6968279316240510977, 1345280370688173398]"

definition R_INV0 :: u64 where
  "R_INV0 = 725501752471715839"

subsection \<open>Operations\<close>

definition fr_is_zero :: "fr \<Rightarrow> bool" where
  "fr_is_zero a \<longleftrightarrow> a ! 0 OR a ! 1 OR a ! 2 OR a ! 3 = 0"

text \<open>\<open>cmp4\<close> is the comparison of the engine at four limbs.\<close>

definition cmp4 :: "u64 list \<Rightarrow> u64 list \<Rightarrow> int" where
  "cmp4 a b = bn_cmp a b 4"

definition sub_r :: "fr \<Rightarrow> fr" where
  "sub_r a = fst (bn_sub 0 a R_MOD)"

text \<open>The second inner loop of the product: each low limb is stored one place down.\<close>

fun cios_shift :: "u64 list \<Rightarrow> nat \<Rightarrow> u64 list \<Rightarrow> u64 \<Rightarrow> u64 \<Rightarrow> u64 list \<times> u64" where
  "cios_shift t j [] m c = (t, c)"
| "cios_shift t j (r # rs) m c =
     (let (lo, hi) = mac (t ! j) r m c in cios_shift (t[j - 1 := lo]) (Suc j) rs m hi)"

definition cios_round :: "fr \<Rightarrow> u64 \<Rightarrow> u64 list \<Rightarrow> u64 list" where
  "cios_round a b t =
     (let (t1, c1) = mac_loop t 0 a b 0;
          (s, s5) = addc (t1 ! 4) c1 0;
          t2 = t1[4 := s, 5 := s5];
          m = t2 ! 0 * R_INV0;
          c2 = snd (mac (t2 ! 0) m (R_MOD ! 0) 0);
          (t3, c3) = cios_shift t2 1 (tl R_MOD) m c2;
          (v, vh) = addc (t3 ! 4) c3 0
      in t3[3 := v, 4 := t3 ! 5 + vh])"

definition mont_mul :: "fr \<Rightarrow> fr \<Rightarrow> fr" where
  "mont_mul a b =
     (let t = fold (\<lambda>i t. cios_round a (b ! i) t) [0..<4] (bn_clr 6);
          r = take 4 t
      in if t ! 4 \<noteq> 0 \<or> 0 \<le> cmp4 r R_MOD then sub_r r else r)"

definition fr_from_limbs :: "u64 list \<Rightarrow> fr option" where
  "fr_from_limbs v = (if 0 \<le> cmp4 v R_MOD then None else Some (mont_mul v R_R2))"

definition fr_from_u64 :: "u64 \<Rightarrow> fr option" where
  "fr_from_u64 v = fr_from_limbs [v, 0, 0, 0]"

definition fr_one :: fr where
  "fr_one = FR_ONE"

definition fr_zero :: fr where
  "fr_zero = [0, 0, 0, 0]"

definition fr_add :: "fr \<Rightarrow> fr \<Rightarrow> fr" where
  "fr_add a b = (let r = fst (bn_add 0 a b) in if 0 \<le> cmp4 r R_MOD then sub_r r else r)"

definition fr_neg :: "fr \<Rightarrow> fr" where
  "fr_neg a = (if fr_is_zero a then a else fst (bn_sub 0 R_MOD a))"

definition fr_sub :: "fr \<Rightarrow> fr \<Rightarrow> fr" where
  "fr_sub a b =
     (if 0 \<le> cmp4 a b then fst (bn_sub 0 a b) else fr_neg (fst (bn_sub 0 b a)))"

definition fr_mul :: "fr \<Rightarrow> fr \<Rightarrow> fr" where
  "fr_mul a b = mont_mul a b"

text \<open>Fermat inversion over the 256 bits of \<open>r - 2\<close>, from the top.\<close>

definition fr_inv :: "fr \<Rightarrow> fr option" where
  "fr_inv a =
     (if fr_is_zero a then None
      else Some (foldl (\<lambda>r b. let r = mont_mul r r in if b then mont_mul r a else r)
             fr_one (bits_down R_M2)))"

text \<open>\<open>fr_to_fe6\<close>: out of the Montgomery domain, by a product with a raw one, and two zero limbs.\<close>

definition fr_raw_one :: fr where
  "fr_raw_one = [1, 0, 0, 0]"

definition fr_to_fe6 :: "fr \<Rightarrow> fe6" where
  "fr_to_fe6 s = mont_mul s fr_raw_one @ [0, 0]"

subsection \<open>One round of the product\<close>

definition bls_r :: nat where
  "bls_r = 8444461749428370424248824938781546531375899335154063827935233455917409239041"

lemma R_MOD_val: "limbs_val R_MOD = bls_r" "length R_MOD = 4"
  by (simp_all add: R_MOD_def bls_r_def)

lemma cios_arith:
  fixes B :: nat
  assumes "x0 + B * h0 = t0 + a0 * b" and "x1 + B * h1 = t1 + a1 * b + h0"
    and "x2 + B * h2 = t2 + a2 * b + h1" and "x3 + B * h3 = t3 + a3 * b + h2" and "s + B * s5 = t4 + h3"
    and "B * c0 = x0 + m * r0" and "u1 + B * c1 = x1 + r1 * m + c0" and "u2 + B * c2 = x2 + r2 * m + c1"
    and "u3 + B * c3 = x3 + r3 * m + c2" and "v + B * w = s + c3"
  shows "B * (u1 + B * (u2 + B * (u3 + B * (v + B * (s5 + w)))))
    = t0 + B * (t1 + B * (t2 + B * (t3 + B * t4))) + (a0 + B * (a1 + B * (a2 + B * a3))) * b
      + m * (r0 + B * (r1 + B * (r2 + B * r3)))"
  using assms by algebra


lemma list6: "length t = 6 \<Longrightarrow> \<exists>a b c d e f. t = [a, b, c, d, e, f]"
  by (auto simp: numeral_eq_Suc length_Suc_conv)

lemma list4: "length t = 4 \<Longrightarrow> \<exists>a b c d. t = [a, b, c, d]"
  by (auto simp: numeral_eq_Suc length_Suc_conv)

lemma u64_add_unat: "unat x + unat y < 2 ^ 64 \<Longrightarrow> unat (x + y :: u64) = unat x + unat y"
  by (simp add: unat_word_ariths)

lemma cios_round_val:
  assumes a: "length a = 4" "limbs_val a < bls_r" and t: "length t = 6" "limbs_val (take 5 t) < 2 * bls_r"
  shows "length (cios_round a b t) = 6 \<and> limbs_val (take 5 (cios_round a b t)) < 2 * bls_r
    \<and> (\<exists>m. 2 ^ 64 * limbs_val (take 5 (cios_round a b t)) = limbs_val (take 5 t) + limbs_val a * unat b + m * bls_r)"
proof -
  obtain a0 a1 a2 a3 where as: "a = [a0, a1, a2, a3]" using list4 [OF a(1)] by auto
  obtain t0 t1 t2 t3 t4 t5 where ts: "t = [t0, t1, t2, t3, t4, t5]" using list6 [OF t(1)] by auto
  obtain r0 r1 r2 r3 where rs: "R_MOD = [r0, r1, r2, r3]" and r0: "r0 * R_INV0 = - 1"
    by (simp add: R_MOD_def R_INV0_def)
  obtain x0 h0 where e0: "mac t0 a0 b 0 = (x0, h0)" by fastforce
  obtain x1 h1 where e1: "mac t1 a1 b h0 = (x1, h1)" by fastforce
  obtain x2 h2 where e2: "mac t2 a2 b h1 = (x2, h2)" by fastforce
  obtain x3 h3 where e3: "mac t3 a3 b h2 = (x3, h3)" by fastforce
  obtain s s5 where e4: "addc t4 h3 0 = (s, s5)" by fastforce
  let ?m = "x0 * R_INV0"
  obtain z c0 where e5: "mac x0 ?m r0 0 = (z, c0)" by fastforce
  obtain u1 c1 where e6: "mac x1 r1 ?m c0 = (u1, c1)" by fastforce
  obtain u2 c2 where e7: "mac x2 r2 ?m c1 = (u2, c2)" by fastforce
  obtain u3 c3 where e8: "mac x3 r3 ?m c2 = (u3, c3)" by fastforce
  obtain v w where e9: "addc s c3 0 = (v, w)" by fastforce
  have res: "cios_round a b t = [u1, u2, u3, v, s5 + w, s5]"
    unfolding cios_round_def as ts rs using e0 e1 e2 e3 e4 e5 e6 e7 e8 e9 by simp
  have z: "z = 0"
  proof -
    have "z = x0 + ?m * r0" using mac_low [OF e5] by (simp add: ac_simps)
    also have "\<dots> = x0 + x0 * (r0 * R_INV0)" by (simp add: ac_simps)
    finally show ?thesis using r0 by simp
  qed
  have key: "2 ^ 64 * (unat u1 + 2 ^ 64 * (unat u2 + 2 ^ 64 * (unat u3 + 2 ^ 64 * (unat v + 2 ^ 64 * (unat s5 + unat w)))))
    = unat t0 + 2 ^ 64 * (unat t1 + 2 ^ 64 * (unat t2 + 2 ^ 64 * (unat t3 + 2 ^ 64 * unat t4)))
      + (unat a0 + 2 ^ 64 * (unat a1 + 2 ^ 64 * (unat a2 + 2 ^ 64 * unat a3))) * unat b
      + unat ?m * (unat r0 + 2 ^ 64 * (unat r1 + 2 ^ 64 * (unat r2 + 2 ^ 64 * unat r3)))"
    by (rule cios_arith [where ?x0.0 = "unat x0"])
      (use mac_val [OF e0] mac_val [OF e1] mac_val [OF e2] mac_val [OF e3] addc_val [OF e4]
        mac_val [OF e5] mac_val [OF e6] mac_val [OF e7] mac_val [OF e8] addc_val [OF e9] z in \<open>simp_all only: unat_0 add_0_right add_0_left\<close>)
  define X where "X = unat u1 + 2 ^ 64 * (unat u2 + 2 ^ 64 * (unat u3 + 2 ^ 64 * (unat v + 2 ^ 64 * (unat s5 + unat w))))"
  have vS: "limbs_val (take 5 t) = unat t0 + 2 ^ 64 * (unat t1 + 2 ^ 64 * (unat t2 + 2 ^ 64 * (unat t3 + 2 ^ 64 * unat t4)))"
    unfolding ts by simp
  have vA: "limbs_val a = unat a0 + 2 ^ 64 * (unat a1 + 2 ^ 64 * (unat a2 + 2 ^ 64 * unat a3))"
    unfolding as by simp
  have vR: "bls_r = unat r0 + 2 ^ 64 * (unat r1 + 2 ^ 64 * (unat r2 + 2 ^ 64 * unat r3))"
    using R_MOD_val(1) unfolding rs by simp
  have eq: "2 ^ 64 * X = limbs_val (take 5 t) + limbs_val a * unat b + unat ?m * bls_r"
    using key unfolding vS vA vR X_def .
  have "limbs_val a * unat b \<le> bls_r * (2 ^ 64 - 1)"
    using a(2) unat_u64_lt [of b] by (intro mult_le_mono) linarith+
  moreover have "unat ?m * bls_r \<le> bls_r * (2 ^ 64 - 1)"
    unfolding mult.commute [of bls_r] using unat_u64_lt [of ?m] by (intro mult_le_mono1) linarith
  moreover have "bls_r * (2 ^ 64 - 1) + bls_r = 2 ^ 64 * bls_r" by (simp add: algebra_simps)
  ultimately have "2 ^ 64 * X < 2 ^ 64 * (2 * bls_r)" using t(2) eq by linarith
  then have X: "X < 2 * bls_r" by simp
  have "2 ^ 256 * (unat s5 + unat w) \<le> X" unfolding X_def by simp
  moreover have "2 * bls_r < 2 ^ 256" by (simp add: bls_r_def)
  ultimately have "2 ^ 256 * (unat s5 + unat w) < 2 ^ 256 * 1" using X by linarith
  then have "unat s5 + unat w = 0" by (simp only: mult_less_cancel1) simp
  then have "unat (s5 + w) = unat s5 + unat w" by (intro u64_add_unat) simp
  then have "limbs_val (take 5 (cios_round a b t)) = X" by (simp add: res X_def)
  then show ?thesis using X eq by (auto simp: res)
qed

lemma cmp4_val: "length a = 4 \<Longrightarrow> length b = 4 \<Longrightarrow> 0 \<le> cmp4 a b \<longleftrightarrow> limbs_val b \<le> limbs_val a"
  by (simp add: cmp4_def bn_cmp_geq geq_loop_val)

lemma bn_sub_exact:
  assumes "length a = length b" and "limbs_val b \<le> limbs_val a"
  shows "limbs_val (fst (bn_sub 0 a b)) = limbs_val a - limbs_val b" and "length (fst (bn_sub 0 a b)) = length a"
proof -
  obtain r br where s: "bn_sub 0 a b = (r, br)" by fastforce
  have v: "limbs_val a + unat br * 2 ^ (64 * length a) = limbs_val r + limbs_val b" "unat br \<le> 1" "length r = length a"
    using bn_sub_val [OF assms(1) _ s] by simp_all
  have "limbs_val r < 2 ^ (64 * length a)" using limbs_val_lt [of r] v(3) by simp
  moreover have "unat br = 0 \<or> unat br = 1" using v(2) by linarith
  ultimately have "limbs_val r = limbs_val a - limbs_val b" using v(1) assms(2) by auto
  then show "limbs_val (fst (bn_sub 0 a b)) = limbs_val a - limbs_val b" "length (fst (bn_sub 0 a b)) = length a"
    using s v(3) by simp_all
qed

definition fr_canon :: "fr \<Rightarrow> bool" where
  "fr_canon x \<longleftrightarrow> length x = 4 \<and> limbs_val x < bls_r"

lemma fr_reduce:
  assumes "length x = 4" and "limbs_val x < 2 * bls_r"
  shows "fr_canon (if 0 \<le> cmp4 x R_MOD then sub_r x else x)
    \<and> limbs_val (if 0 \<le> cmp4 x R_MOD then sub_r x else x) = limbs_val x mod bls_r"
proof (cases "bls_r \<le> limbs_val x")
  case True
  then have "limbs_val x mod bls_r = limbs_val x - bls_r" "limbs_val x - bls_r < bls_r"
    using assms(2) by (simp_all add: le_mod_geq)
  then show ?thesis using True assms bn_sub_exact [of x R_MOD]
    by (simp add: cmp4_val R_MOD_val sub_r_def fr_canon_def)
qed (use assms in \<open>simp add: cmp4_val R_MOD_val fr_canon_def\<close>)

lemma four_rounds:
  fixes B :: nat
  assumes "B * x0 = A * c0 + m0 * r" and "B * x1 = x0 + A * c1 + m1 * r"
    and "B * x2 = x1 + A * c2 + m2 * r" and "B * x3 = x2 + A * c3 + m3 * r"
  shows "B * (B * (B * (B * x3))) = A * (c0 + B * (c1 + B * (c2 + B * c3))) + (m0 + B * (m1 + B * (m2 + B * m3))) * r"
  using assms by algebra

lemma mont_mul_val:
  assumes a: "fr_canon a" and b: "length b = 4"
  shows "fr_canon (mont_mul a b)
    \<and> (2 ^ 256 * limbs_val (mont_mul a b)) mod bls_r = (limbs_val a * limbs_val b) mod bls_r"
proof -
  note R = cios_round_val [of a, OF conjunct1 [OF a [unfolded fr_canon_def]] conjunct2 [OF a [unfolded fr_canon_def]]]
  obtain b0 b1 b2 b3 where bs: "b = [b0, b1, b2, b3]" using list4 [OF b] by auto
  let ?v = "\<lambda>t. limbs_val (take 5 t)" and ?z = "bn_clr 6 :: u64 list"
  have z: "length ?z = 6" "?v ?z < 2 * bls_r" "?v ?z = 0" by (simp_all add: bn_clr_def bls_r_def)
  define t1 where "t1 = cios_round a b0 ?z"
  define t2 where "t2 = cios_round a b1 t1"
  define t3 where "t3 = cios_round a b2 t2"
  define t4 where "t4 = cios_round a b3 t3"
  obtain m0 where s0: "length t1 = 6" "?v t1 < 2 * bls_r" "2 ^ 64 * ?v t1 = limbs_val a * unat b0 + m0 * bls_r"
    using R [OF z(1,2), of b0] unfolding z(3) t1_def by auto
  obtain m1 where s1: "length t2 = 6" "?v t2 < 2 * bls_r" "2 ^ 64 * ?v t2 = ?v t1 + limbs_val a * unat b1 + m1 * bls_r"
    using R [OF s0(1,2), of b1] unfolding t2_def by blast
  obtain m2 where s2: "length t3 = 6" "?v t3 < 2 * bls_r" "2 ^ 64 * ?v t3 = ?v t2 + limbs_val a * unat b2 + m2 * bls_r"
    using R [OF s1(1,2), of b2] unfolding t3_def by blast
  obtain m3 where s3: "length t4 = 6" "?v t4 < 2 * bls_r" "2 ^ 64 * ?v t4 = ?v t3 + limbs_val a * unat b3 + m3 * bls_r"
    using R [OF s2(1,2), of b3] unfolding t4_def by blast
  have fold: "fold (\<lambda>i t. cios_round a (b ! i) t) [0..<4] ?z = t4"
    unfolding t4_def t3_def t2_def t1_def by (simp add: bs upt_rec)
  have bv: "limbs_val b = unat b0 + 2 ^ 64 * (unat b1 + 2 ^ 64 * (unat b2 + 2 ^ 64 * unat b3))" by (simp add: bs)
  have "2 ^ 64 * (2 ^ 64 * (2 ^ 64 * (2 ^ 64 * ?v t4)))
      = limbs_val a * limbs_val b + (m0 + 2 ^ 64 * (m1 + 2 ^ 64 * (m2 + 2 ^ 64 * m3))) * bls_r"
    unfolding bv by (rule four_rounds [OF s0(3) s1(3) s2(3) s3(3)])
  then have "2 ^ 256 * ?v t4 = limbs_val a * limbs_val b
      + (m0 + 2 ^ 64 * (m1 + 2 ^ 64 * (m2 + 2 ^ 64 * m3))) * bls_r" by (simp flip: mult.assoc)
  then have cong: "(2 ^ 256 * ?v t4) mod bls_r = (limbs_val a * limbs_val b) mod bls_r" by simp
  obtain w0 w1 w2 w3 w4 w5 where ws: "t4 = [w0, w1, w2, w3, w4, w5]" using list6 [OF s3(1)] by blast
  have v5: "?v t4 = limbs_val (take 4 t4) + 2 ^ 256 * unat w4" unfolding ws by simp
  have "unat w4 = 0"
  proof (rule ccontr)
    assume "unat w4 \<noteq> 0"
    then have "2 ^ 256 \<le> 2 ^ 256 * unat w4" by simp
    moreover have "2 * bls_r < 2 ^ 256" by (simp add: bls_r_def)
    ultimately show False using v5 s3(2) by linarith
  qed
  then have w4: "t4 ! 4 = 0" and v4: "?v t4 = limbs_val (take 4 t4)"
    unfolding v5 unfolding ws by (simp_all add: unat_eq_0)
  have l4: "length (take 4 t4) = 4" using s3(1) by simp
  have mm: "mont_mul a b = (if 0 \<le> cmp4 (take 4 t4) R_MOD then sub_r (take 4 t4) else take 4 t4)"
    unfolding mont_mul_def fold Let_def w4 by simp
  show ?thesis
    using fr_reduce [OF l4] s3(2) cong unfolding v4 mm by (simp only: mod_mult_right_eq simp_thms)
qed

lemma fr_add_val:
  assumes "fr_canon a" and "fr_canon b"
  shows "fr_canon (fr_add a b) \<and> limbs_val (fr_add a b) = (limbs_val a + limbs_val b) mod bls_r"
proof -
  obtain r c where s: "bn_add 0 a b = (r, c)" by fastforce
  have v: "limbs_val r + unat c * 2 ^ 256 = limbs_val a + limbs_val b" "length r = 4"
    using bn_add_val [OF _ s] assms by (simp_all add: fr_canon_def)
  have lt: "limbs_val a + limbs_val b < 2 * bls_r" using assms by (simp add: fr_canon_def)
  have "2 * bls_r < 2 ^ 256" by (simp add: bls_r_def)
  then have "unat c = 0" using v(1) lt by (cases "unat c") simp_all
  then have "limbs_val r = limbs_val a + limbs_val b" using v(1) by simp
  then show ?thesis using fr_reduce [OF v(2)] lt s by (simp add: fr_add_def)
qed

lemma fr_is_zero_val: "length a = 4 \<Longrightarrow> fr_is_zero a \<longleftrightarrow> limbs_val a = 0"
  using list4 [of a] by (auto simp: fr_is_zero_def unat_eq_0 or_eq_0_iff)

lemma fr_neg_val:
  assumes "fr_canon a"
  shows "fr_canon (fr_neg a) \<and> limbs_val (fr_neg a) = (bls_r - limbs_val a) mod bls_r"
  using assms bn_sub_exact [of R_MOD a] unfolding fr_canon_def
  by (auto simp: fr_neg_def fr_is_zero_val R_MOD_val)

lemma fr_sub_val:
  assumes a: "fr_canon a" and b: "fr_canon b"
  shows "fr_canon (fr_sub a b) \<and> limbs_val (fr_sub a b) = (limbs_val a + (bls_r - limbs_val b)) mod bls_r"
proof (cases "limbs_val b \<le> limbs_val a")
  case True
  then have "limbs_val a + (bls_r - limbs_val b) = (limbs_val a - limbs_val b) + bls_r"
    using b by (simp add: fr_canon_def)
  then have "(limbs_val a + (bls_r - limbs_val b)) mod bls_r = limbs_val a - limbs_val b"
    using a by (simp add: fr_canon_def less_imp_diff_less)
  then show ?thesis using True a b bn_sub_exact [of a b]
    by (simp add: fr_canon_def fr_sub_def cmp4_val less_imp_diff_less)
next
  case False
  let ?d = "fst (bn_sub 0 b a)"
  have d: "fr_canon ?d" "limbs_val ?d = limbs_val b - limbs_val a"
    using False a b bn_sub_exact [of b a] by (simp_all add: fr_canon_def less_imp_diff_less)
  have "limbs_val a + (bls_r - limbs_val b) = bls_r - limbs_val ?d"
    using False b d(2) by (simp add: fr_canon_def)
  then show ?thesis using False a b fr_neg_val [OF d(1)] by (simp add: fr_canon_def fr_sub_def cmp4_val)
qed

subsection \<open>The residue ring\<close>

type_synonym frr = "8444461749428370424248824938781546531375899335154063827935233455917409239041"

definition FR_RINV :: nat where
  "FR_RINV = 3482466379256973933331601287759811764685972354380176549708408303012390300674"

lemma of_nat_frr: "(of_nat a :: frr) = of_nat b \<longleftrightarrow> a mod bls_r = b mod bls_r"
proof -
  have "(of_nat a :: frr) = of_nat b \<longleftrightarrow> a mod CARD(frr) = b mod CARD(frr)"
    by (rule of_nat_eq_iff_mod)
  then show ?thesis by (simp add: bls_r_def)
qed

lemma FR_RINV_R: "(of_nat FR_RINV * of_nat (2 ^ 256) :: frr) = 1"
proof -
  have "(of_nat (FR_RINV * 2 ^ 256) :: frr) = of_nat 1"
    unfolding of_nat_frr by (simp add: FR_RINV_def bls_r_def)
  then show ?thesis by (simp only: of_nat_mult of_nat_1)
qed

lemma FR_ONE_val: "limbs_val FR_ONE = 2 ^ 256 mod bls_r" "fr_canon FR_ONE"
  by (simp_all add: FR_ONE_def bls_r_def fr_canon_def)

lemma R_R2_val: "limbs_val R_R2 = 2 ^ 256 * 2 ^ 256 mod bls_r" "fr_canon R_R2"
  by (simp_all add: R_R2_def bls_r_def fr_canon_def)

lemma fr_raw_one_val: "limbs_val fr_raw_one = 1" "fr_canon fr_raw_one"
  by (simp_all add: fr_raw_one_def bls_r_def fr_canon_def)

interpretation frk: mont_kernel fr_canon limbs_val bls_r "2 ^ 256" "of_nat FR_RINV :: frr"
  fr_add fr_sub fr_mul fr_zero fr_one
proof unfold_locales
  show "of_nat FR_RINV * of_nat (2 ^ 256) = (1 :: frr)" by (rule FR_RINV_R)
  show "limbs_val fr_zero = 0" "fr_canon fr_zero" by (simp_all add: fr_zero_def fr_canon_def bls_r_def)
  show "limbs_val fr_one = 2 ^ 256 mod bls_r" "fr_canon fr_one" using FR_ONE_val by (simp_all add: fr_one_def)
  fix a b :: fr
  assume a: "fr_canon a" and b: "fr_canon b"
  show "fr_canon (fr_add a b)" "limbs_val (fr_add a b) = (limbs_val a + limbs_val b) mod bls_r"
    using fr_add_val [OF a b] by simp_all
  show "fr_canon (fr_sub a b)" "limbs_val (fr_sub a b) = (limbs_val a + (bls_r - limbs_val b)) mod bls_r"
    using fr_sub_val [OF a b] by simp_all
  show "fr_canon (fr_mul a b)" "(2 ^ 256 * limbs_val (fr_mul a b)) mod bls_r = (limbs_val a * limbs_val b) mod bls_r"
    using mont_mul_val [OF a] b unfolding fr_mul_def by (simp_all add: fr_canon_def)
  assume "limbs_val a = limbs_val b"
  with a b show "a = b" by (simp add: fr_canon_def limbs_val_inj)
qed (simp_all add: of_nat_frr fr_canon_def)

lemmas fr_dec_ops [dec_simps] = frk.dec_zero frk.dec_one frk.dec_add frk.dec_sub frk.dec_mul
lemmas fr_canon_ops [simp, intro] = frk.c_zero frk.c_one frk.c_add frk.c_sub frk.c_mul

lemma fr_canon_neg [simp, intro]: "fr_canon a \<Longrightarrow> fr_canon (fr_neg a)"
  using fr_neg_val by blast

lemma fr_dec_neg [dec_simps]: "fr_canon a \<Longrightarrow> frk.dec (fr_neg a) = - frk.dec a"
proof -
  assume a: "fr_canon a"
  have "(of_nat (bls_r - limbs_val a) :: frr) = - of_nat (limbs_val a)"
    using frk.val_lt [OF a] by (simp add: of_nat_diff frk.of_nat_modulus)
  then show ?thesis using fr_neg_val [OF a] by (simp add: frk.dec_def frk.of_nat_mod)
qed

lemma fr_from_limbs_None: "length v = 4 \<Longrightarrow> fr_from_limbs v = None \<longleftrightarrow> bls_r \<le> limbs_val v"
  by (simp add: fr_from_limbs_def cmp4_val R_MOD_val)

lemma fr_from_limbs_Some:
  assumes "length v = 4" and "fr_from_limbs v = Some x"
  shows "fr_canon x" and "frk.dec x = of_nat (limbs_val v)" and "fr_to_fe6 x = v @ [0, 0]"
proof -
  have v: "fr_canon v" and x: "x = fr_mul v R_R2"
    using assms by (auto simp: fr_from_limbs_def fr_mul_def cmp4_val R_MOD_val fr_canon_def split: if_splits)
  show "fr_canon x" using v R_R2_val by (simp add: x frk.c_mul)
  show "frk.dec x = of_nat (limbs_val v)"
    unfolding x by (rule frk.dec_enter [OF v R_R2_val(2,1)])
  have "fr_mul x fr_raw_one = v"
    unfolding x by (rule frk.leave_enter [OF v R_R2_val(2,1) fr_raw_one_val(2,1)])
  then show "fr_to_fe6 x = v @ [0, 0]" by (simp add: fr_to_fe6_def fr_mul_def)
qed

lemma fr_from_u64_Some: "\<exists>x. fr_from_u64 v = Some x \<and> fr_canon x \<and> frk.dec x = of_nat (unat v)"
proof -
  have "limbs_val [v, 0, 0, 0] < bls_r" using unat_u64_lt [of v] by (simp add: bls_r_def)
  then obtain x where x: "fr_from_limbs [v, 0, 0, 0] = Some x"
    using fr_from_limbs_None [of "[v, 0, 0, 0]"] by fastforce
  then show ?thesis using fr_from_limbs_Some [OF _ x] by (simp add: fr_from_u64_def)
qed

lemma fr_to_fe6_val:
  assumes "fr_canon x"
  shows "length (fr_to_fe6 x) = 6" and "limbs_val (fr_to_fe6 x) < bls_r" and "of_nat (limbs_val (fr_to_fe6 x)) = frk.dec x"
proof -
  have c: "fr_canon (mont_mul x fr_raw_one)"
    using frk.c_mul [OF assms fr_raw_one_val(2)] by (simp add: fr_mul_def)
  then have v: "limbs_val (fr_to_fe6 x) = limbs_val (mont_mul x fr_raw_one)"
    by (simp add: fr_to_fe6_def limbs_val_append)
  show "length (fr_to_fe6 x) = 6" using c by (simp add: fr_to_fe6_def fr_canon_def)
  show "limbs_val (fr_to_fe6 x) < bls_r" using c unfolding v by (simp add: fr_canon_def)
  show "of_nat (limbs_val (fr_to_fe6 x)) = frk.dec x"
    unfolding v using frk.val_leave [OF assms fr_raw_one_val(2,1)] by (simp add: fr_mul_def)
qed

lemma fr_is_zero_dec: "fr_canon a \<Longrightarrow> fr_is_zero a \<longleftrightarrow> frk.dec a = 0"
  using frk.dec_inj [of a fr_zero] frk.dec_zero
  by (auto simp: fr_is_zero_val fr_canon_def frk.dec_def fr_zero_def bls_r_def)

lemma fr_inv_Some:
  assumes "fr_canon a" and "\<not> fr_is_zero a"
  shows "\<exists>y. fr_inv a = Some y \<and> fr_canon y \<and> frk.dec y = frk.dec a ^ (bls_r - 2)"
proof -
  have "limbs_val R_M2 = bls_r - 2" by (simp add: R_M2_def bls_r_def)
  then show ?thesis
    using assms frk.square_multiply_dec [OF frk.c_one assms(1), of "bits_down R_M2"] square_multiply [of "frk.dec a" 0 "bits_down R_M2"]
    unfolding fr_mul_def by (simp add: fr_inv_def frk.dec_one bits_down_value)
qed

end
