(* ===== verification/Bls_Fq.thy ===== *)
theory Bls_Fq
  imports Mont384 Mont_Kernel
begin

text \<open>
  The base field of BLS12-377: the constants of \<open>src/generated/bls_q_params_gen.hpp\<close>, the
  context of \<open>src/include/hsma/threshold/g1.hpp\<close> with the checks made when it is built, and the
  interpretation of the Montgomery interface on the operations of the 384-bit engine.
\<close>

subsection \<open>Constants\<close>

definition Q_MOD :: fe6 where
  "Q_MOD = [9586122913090633729, 1660523435060625408, 2230234197602682880,
    1883307231910630287, 14284016967150029115, 121098312706494698]"

definition Q_R1 :: fe6 where
  "Q_R1 = [202099033278250856, 5854854902718660529, 11492539364873682930,
    8885205928937022213, 5545221690922665192, 39800542322357402]"

definition Q_R2 :: fe6 where
  "Q_R2 = [13224372171368877346, 227991066186625457, 2496666625421784173,
    13825906835078366124, 9475172226622360569, 30958721782860680]"

definition Q_M2 :: fe6 where
  "Q_M2 = [9586122913090633727, 1660523435060625408, 2230234197602682880,
    1883307231910630287, 14284016967150029115, 121098312706494698]"

definition Q_HALFQ :: fe6 where
  "Q_HALFQ = [4793061456545316864, 830261717530312704, 10338489135656117248,
    10165025652810090951, 7142008483575014557, 60549156353247349]"

definition Q_RMOD :: fe6 where
  "Q_RMOD = [725501752471715841, 6461107452199829505, 6968279316240510977,
    1345280370688173398, 0, 0]"

definition Q_H1 :: fe6 where
  "Q_H1 = [0, 1660523435060625408, 0,
    0, 0, 0]"

definition Q_SODD :: fe6 where
  "Q_SODD = [8435453208297608227, 9853568280881552429, 7479357291536088013,
    1657802422768920715, 16796279350917535980, 1720]"

definition Q_NE :: fe6 where
  "Q_NE = [0, 1660523435060625408, 2230234197602682880,
    1883307231910630287, 14284016967150029115, 121098312706494698]"

definition Q_GEN_X :: fe6 where
  "Q_GEN_X = [16913744964559301103, 15368556899747051854, 1766117802562276188,
    9625632955764130235, 14482558415983345492, 38360719421606503]"

definition Q_GEN_Y :: fe6 where
  "Q_GEN_Y = [9765459490142122331, 6056532318306608869, 12815898030378132730,
    6675221585197449397, 12021152367705676406, 8145028907327979]"

definition Q_N0 :: u64 where
  "Q_N0 = 9586122913090633727"

definition Q_E :: nat where
  "Q_E = 46"

subsection \<open>The context\<close>

record Ctx =
  cxm :: MCtx
  cxb :: fe6
  cxhalfq :: fe6
  cxm2 :: fe6
  cxrmod :: fe6
  cxh1 :: fe6
  cxsodd :: fe6
  cxne :: fe6
  cxe :: nat

text \<open>The context that \<open>ctx()\<close> builds on first use; None is its \<open>abort\<close>.\<close>

definition ctx_build :: "Ctx option" where
  "ctx_build =
     (let n0 = newton_inv (Q_MOD ! 0);
          M = \<lparr>cm = Q_MOD, cn0 = n0, cr1 = Q_R1, crr = Q_R2\<rparr>
      in if Q_MOD ! 0 * n0 \<noteq> NOT 0 then None
      else if n0 \<noteq> Q_N0 then None
      else if Q_R1 \<noteq> pow2_mod Q_MOD 384 \<or> Q_R2 \<noteq> pow2_mod Q_MOD 768 then None
      else Some \<lparr>cxm = M, cxb = mfrom M ((bn_clr 6)[0 := 1]), cxhalfq = Q_HALFQ, cxm2 = Q_M2,
        cxrmod = Q_RMOD, cxh1 = Q_H1, cxsodd = Q_SODD, cxne = Q_NE, cxe = Q_E\<rparr>)"

definition QC :: MCtx where
  "QC = \<lparr>cm = Q_MOD, cn0 = Q_N0, cr1 = Q_R1, crr = Q_R2\<rparr>"

definition CX :: Ctx where
  "CX = \<lparr>cxm = QC, cxb = mfrom QC ((bn_clr 6)[0 := 1]), cxhalfq = Q_HALFQ, cxm2 = Q_M2,
     cxrmod = Q_RMOD, cxh1 = Q_H1, cxsodd = Q_SODD, cxne = Q_NE, cxe = Q_E\<rparr>"

subsection \<open>The checks made when the context is built succeed\<close>

definition bls_q :: nat where
  "bls_q = 258664426012969094010652733694893533536393512754914660539884262666720468348340822774968888139573360124440321458177"

lemma Q_MOD_val: "limbs_val Q_MOD = bls_q" "length Q_MOD = 6"
  by (simp_all add: Q_MOD_def bls_q_def)

lemma funpow_5: "(f ^^ 5) x = f (f (f (f (f x))))"
  by (simp add: numeral_eq_Suc)

lemma newton_steps:
    "newton_step 9586122913090633729 9586122913090633729 = 8860621160618917889"
    "newton_step 9586122913090633729 8860621160618917889 = 8860621160618917889"
  by (simp_all add: newton_step_def word_eq_iff_unsigned)

lemma newton_Q: "newton_inv (Q_MOD ! 0) = Q_N0"
  by (simp add: newton_inv_def Q_MOD_def Q_N0_def funpow_5 newton_steps)

lemma Q_R1_val: "limbs_val Q_R1 = 2 ^ 384 mod bls_q" "length Q_R1 = 6"
proof -
  have "(2::nat) ^ 384 = bls_q * 152 + limbs_val Q_R1" "limbs_val Q_R1 < bls_q"
    unfolding bls_q_def Q_R1_def by simp_all
  then show "limbs_val Q_R1 = 2 ^ 384 mod bls_q" by (simp only: mod_by_quotient)
qed (simp add: Q_R1_def)

lemma Q_R2_val: "limbs_val Q_R2 = 2 ^ 768 mod bls_q" "length Q_R2 = 6"
proof -
  have "(2::nat) ^ 768 = bls_q * 6002054925878627471402496775677194582434771045796788024472324634224154205179101921840974419080939735542507750408794846 + limbs_val Q_R2" "limbs_val Q_R2 < bls_q"
    unfolding bls_q_def Q_R2_def by simp_all
  then show "limbs_val Q_R2 = 2 ^ 768 mod bls_q" by (simp only: mod_by_quotient)
qed (simp add: Q_R2_def)

lemma ctx_ok_QC: "ctx_ok QC"
  unfolding ctx_ok_def QC_def by (simp add: Q_MOD_val Q_R1_val Q_R2_val) (simp add: Q_MOD_def Q_N0_def bls_q_def)

lemma ctx_build_ok: "ctx_build = Some CX"
proof -
  have "pow2_mod Q_MOD e = x" if "limbs_val x = 2 ^ e mod bls_q" "length x = 6" for e x
  proof (rule limbs_val_inj)
    have "1 < limbs_val Q_MOD" by (simp add: Q_MOD_val bls_q_def)
    from pow2_mod_val [OF Q_MOD_val(2) this, of e]
    show "limbs_val (pow2_mod Q_MOD e) = limbs_val x" "length (pow2_mod Q_MOD e) = length x"
      using that by (simp_all add: Q_MOD_val)
  qed
  then have "pow2_mod Q_MOD 384 = Q_R1" "pow2_mod Q_MOD 768 = Q_R2"
    using Q_R1_val Q_R2_val by blast+
  moreover have "Q_MOD ! 0 * Q_N0 = NOT 0" by (simp add: Q_MOD_def Q_N0_def)
  ultimately show ?thesis by (simp add: ctx_build_def newton_Q Let_def CX_def QC_def)
qed

subsection \<open>The residue ring\<close>

type_synonym fq = "258664426012969094010652733694893533536393512754914660539884262666720468348340822774968888139573360124440321458177"

definition Q_RINV :: nat where
  "Q_RINV = 193639650212296069206809223070911922792886794295675586437897404907786751263178459621544185310416431420969770445288"

definition q_canon :: "fe6 \<Rightarrow> bool" where
  "q_canon x \<longleftrightarrow> length x = 6 \<and> limbs_val x < bls_q"

lemma of_nat_fq: "(of_nat a :: fq) = of_nat b \<longleftrightarrow> a mod bls_q = b mod bls_q"
proof -
  have "(of_nat a :: fq) = of_nat b \<longleftrightarrow> a mod CARD(fq) = b mod CARD(fq)"
    by (rule of_nat_eq_iff_mod)
  then show ?thesis by (simp add: bls_q_def)
qed

lemma Q_RINV_R: "(of_nat Q_RINV * of_nat (2 ^ 384) :: fq) = 1"
proof -
  have "Q_RINV * 2 ^ 384 = bls_q * 29496869032736653100683447689715864783909294504611102227839586092113932643754048458779746488862010077557953021345791 + 1" "1 < bls_q"
    unfolding bls_q_def Q_RINV_def by simp_all
  then have "Q_RINV * 2 ^ 384 mod bls_q = 1 mod bls_q" by (simp only: mod_by_quotient mod_less)
  then have "(of_nat (Q_RINV * 2 ^ 384) :: fq) = of_nat 1" by (simp only: of_nat_fq)
  then show ?thesis by (simp only: of_nat_mult of_nat_1)
qed

lemma cm_QC [simp]: "cm QC = Q_MOD" "crr QC = Q_R2" "cr1 QC = Q_R1"
  by (simp_all add: QC_def)

lemma bls_q_pos [simp]: "0 < bls_q"
  by (simp add: bls_q_def)

interpretation fqk: mont_kernel q_canon limbs_val bls_q "2 ^ 384" "of_nat Q_RINV :: fq"
  "madd QC" "msub QC" "mmul QC" "bn_clr 6" "cr1 QC"
proof unfold_locales
  show "of_nat Q_RINV * of_nat (2 ^ 384) = (1 :: fq)" by (rule Q_RINV_R)
  fix a b :: fe6
  assume a: "q_canon a" and b: "q_canon b"
  then have l: "length a = 6" "length b = 6" and lt: "limbs_val a < limbs_val (cm QC)" "limbs_val b < limbs_val (cm QC)"
    by (simp_all add: q_canon_def Q_MOD_val)
  note ad = madd_val [OF ctx_ok_QC l lt] and sb = msub_val [OF ctx_ok_QC l lt]
    and mu = mmul_val [OF ctx_ok_QC l disjI1 [OF lt(1)]]
  show "q_canon (madd QC a b)" "limbs_val (madd QC a b) = (limbs_val a + limbs_val b) mod bls_q"
    using ad by (simp_all add: q_canon_def Q_MOD_val)
  show "q_canon (msub QC a b)" "limbs_val (msub QC a b) = (limbs_val a + (bls_q - limbs_val b)) mod bls_q"
    using sb by (simp_all add: q_canon_def Q_MOD_val)
  show "q_canon (mmul QC a b)" "(2 ^ 384 * limbs_val (mmul QC a b)) mod bls_q = (limbs_val a * limbs_val b) mod bls_q"
    using mu by (simp_all add: q_canon_def Q_MOD_val)
  assume "limbs_val a = limbs_val b"
  with l show "a = b" by (simp add: limbs_val_inj)
qed (auto simp: of_nat_fq q_canon_def Q_R1_val)

end
