(* ===== verification/Tower_Ring.thy ===== *)
theory Tower_Ring
  imports Main
begin

text \<open>
  Commutative rings for the curve arithmetic: the extension tower \<open>F[u]/(u^2 - 5)\<close>,
  \<open>[v]/(v^3 - (5 + u))\<close>, \<open>[w]/(w^2 - v)\<close> over any commutative ring, and the identities that make
  the Jacobian chord and tangent formulas keep a curve equation.
\<close>

subsection \<open>The quadratic extension\<close>

datatype 'a q2 = Q2 (re: 'a) (im: 'a)

instantiation q2 :: (comm_ring_1) comm_ring_1
begin

definition zero_q2 :: "'a q2" where
  "zero_q2 = Q2 0 0"

definition one_q2 :: "'a q2" where
  "one_q2 = Q2 1 0"

definition plus_q2 :: "'a q2 \<Rightarrow> 'a q2 \<Rightarrow> 'a q2" where
  "plus_q2 a b = Q2 (re a + re b) (im a + im b)"

definition minus_q2 :: "'a q2 \<Rightarrow> 'a q2 \<Rightarrow> 'a q2" where
  "minus_q2 a b = Q2 (re a - re b) (im a - im b)"

definition uminus_q2 :: "'a q2 \<Rightarrow> 'a q2" where
  "uminus_q2 a = Q2 (- re a) (- im a)"

definition times_q2 :: "'a q2 \<Rightarrow> 'a q2 \<Rightarrow> 'a q2" where
  "times_q2 a b = Q2 (re a * re b + 5 * (im a * im b)) (re a * im b + im a * re b)"

instance
  by standard
    (simp_all add: zero_q2_def one_q2_def plus_q2_def minus_q2_def uminus_q2_def times_q2_def algebra_simps
      q2.expand)

end

lemmas q2_ops = zero_q2_def one_q2_def plus_q2_def minus_q2_def uminus_q2_def times_q2_def

subsection \<open>The cubic extension\<close>

datatype 'a q6 = Q6 (co0: "'a q2") (co1: "'a q2") (co2: "'a q2")

definition gam :: "'a::comm_ring_1 q2" where
  "gam = Q2 5 1"

instantiation q6 :: (comm_ring_1) comm_ring_1
begin

definition zero_q6 :: "'a q6" where
  "zero_q6 = Q6 0 0 0"

definition one_q6 :: "'a q6" where
  "one_q6 = Q6 1 0 0"

definition plus_q6 :: "'a q6 \<Rightarrow> 'a q6 \<Rightarrow> 'a q6" where
  "plus_q6 a b = Q6 (co0 a + co0 b) (co1 a + co1 b) (co2 a + co2 b)"

definition minus_q6 :: "'a q6 \<Rightarrow> 'a q6 \<Rightarrow> 'a q6" where
  "minus_q6 a b = Q6 (co0 a - co0 b) (co1 a - co1 b) (co2 a - co2 b)"

definition uminus_q6 :: "'a q6 \<Rightarrow> 'a q6" where
  "uminus_q6 a = Q6 (- co0 a) (- co1 a) (- co2 a)"

definition times_q6 :: "'a q6 \<Rightarrow> 'a q6 \<Rightarrow> 'a q6" where
  "times_q6 a b =
     Q6 (co0 a * co0 b + gam * (co1 a * co2 b + co2 a * co1 b))
        (co0 a * co1 b + co1 a * co0 b + gam * (co2 a * co2 b))
        (co0 a * co2 b + co1 a * co1 b + co2 a * co0 b)"

instance
  by standard
    (simp_all add: zero_q6_def one_q6_def plus_q6_def minus_q6_def uminus_q6_def times_q6_def algebra_simps
      q6.expand)

end

lemmas q6_ops = zero_q6_def one_q6_def plus_q6_def minus_q6_def uminus_q6_def times_q6_def

subsection \<open>The upper quadratic extension\<close>

datatype 'a q12 = Q12 (lo: "'a q6") (hi: "'a q6")

definition vee :: "'a::comm_ring_1 q6" where
  "vee = Q6 0 1 0"

instantiation q12 :: (comm_ring_1) comm_ring_1
begin

definition zero_q12 :: "'a q12" where
  "zero_q12 = Q12 0 0"

definition one_q12 :: "'a q12" where
  "one_q12 = Q12 1 0"

definition plus_q12 :: "'a q12 \<Rightarrow> 'a q12 \<Rightarrow> 'a q12" where
  "plus_q12 a b = Q12 (lo a + lo b) (hi a + hi b)"

definition minus_q12 :: "'a q12 \<Rightarrow> 'a q12 \<Rightarrow> 'a q12" where
  "minus_q12 a b = Q12 (lo a - lo b) (hi a - hi b)"

definition uminus_q12 :: "'a q12 \<Rightarrow> 'a q12" where
  "uminus_q12 a = Q12 (- lo a) (- hi a)"

definition times_q12 :: "'a q12 \<Rightarrow> 'a q12 \<Rightarrow> 'a q12" where
  "times_q12 a b = Q12 (lo a * lo b + vee * (hi a * hi b)) (lo a * hi b + hi a * lo b)"

instance
  by standard
    (simp_all add: zero_q12_def one_q12_def plus_q12_def minus_q12_def uminus_q12_def times_q12_def algebra_simps
      q12.expand)

end

lemmas q12_ops = zero_q12_def one_q12_def plus_q12_def minus_q12_def uminus_q12_def times_q12_def

lemma two_q2: "(2 :: 'a::comm_ring_1 q2) = Q2 2 0"
proof -
  have "(2 :: 'a q2) = 1 + 1" by simp
  then show ?thesis by (simp only: q2_ops q2.sel) simp
qed

subsection \<open>The curve equation\<close>

text \<open>The chord and tangent formulas keep \<open>Y^2 = X^3 + b * Z^6\<close>, as identities of a commutative ring.\<close>

lemmas ring_norm = algebra_simps power2_eq_square power3_eq_cube power_numeral_reduce

lemma chord:
  fixes u :: "'r::comm_ring_1"
  assumes "x = e ^ 2 - d ^ 2 * (2 * u + d)" and "y = e * (u * d ^ 2 - x) - s * d ^ 3"
  shows "y ^ 2 - x ^ 3 - (s ^ 2 - u ^ 3) * d ^ 6 = (x - u * d ^ 2) * ((s + e) ^ 2 - s ^ 2 - (u + d) ^ 3 + u ^ 3) * d ^ 3"
  unfolding assms by (simp add: ring_norm)

lemma add_ring:
  fixes u :: "'r::comm_ring_1"
  assumes c1: "s ^ 2 = u ^ 3 + w" and c2: "s' ^ 2 = u' ^ 3 + w"
    and h: "h = u' - u" and i: "i = h * h + h * h" "i' = i + i" and j: "j = h * i'"
    and r: "r = s' - s" "r' = r + r" and v: "v = u * i'"
    and X3: "X3 = r' * r' - j - (v + v)" and Y3: "Y3 = r' * (v - X3) - (s * j + s * j)"
    and z: "b * z ^ 6 = w" and Z3: "Z3 = z * h * 2"
  shows "Y3 ^ 2 = X3 ^ 3 + b * Z3 ^ 6"
proof -
  define x where "x = r ^ 2 - h ^ 2 * (2 * u + h)"
  define y where "y = r * (u * h ^ 2 - x) - s * h ^ 3"
  have w: "w = s ^ 2 - u ^ 3" using c1 by simp
  have "s + r = s'" "u + h = u'" by (simp_all add: h r)
  then have "(s + r) ^ 2 - s ^ 2 - (u + h) ^ 3 + u ^ 3 = 0" using c1 c2 by simp
  with chord [OF x_def y_def] have "y ^ 2 - x ^ 3 - w * h ^ 6 = 0" by (simp only: w mult_zero_left mult_zero_right)
  then have id: "y ^ 2 = x ^ 3 + w * h ^ 6" by (simp only: right_minus_eq diff_diff_eq)
  have i': "i' = 4 * h ^ 2" by (simp add: i power2_eq_square)
  have X: "X3 = 4 * x" unfolding X3 x_def r(2) v j i' by (simp add: ring_norm)
  have Y: "Y3 = 8 * y" unfolding Y3 X y_def r(2) v j i' by (simp add: ring_norm)
  have Z: "b * Z3 ^ 6 = 64 * (w * h ^ 6)" unfolding Z3 z [symmetric] by (simp add: power_mult_distrib ac_simps)
  show ?thesis unfolding X Y Z by (simp add: power_mult_distrib id distrib_left)
qed

lemma dbl_ring:
  fixes X :: "'r::comm_ring_1"
  assumes c: "Y ^ 2 = X ^ 3 + b * Z ^ 6" and B: "B = Y * Y"
    and D: "D = (X + B) * (X + B) - X * X - B * B" "D' = D + D" and E: "E = X * X + X * X + X * X"
    and C: "C2 = B * B + B * B" "C4 = C2 + C2" "C8 = C4 + C4"
    and X3: "X3 = E * E - (D' + D')" and Y3: "Y3 = E * (D' - X3) - C8" and Z3: "Z3 = (Y + Y) * Z"
  shows "Y3 ^ 2 = X3 ^ 3 + b * Z3 ^ 6"
proof -
  have D': "D' = 4 * (X * B)" unfolding D by (simp add: ring_norm)
  have E': "E = 3 * X ^ 2" by (simp add: E power2_eq_square)
  have C': "C8 = 8 * B ^ 2" unfolding C by (simp add: power2_eq_square)
  have "Y3 ^ 2 - X3 ^ 3 = 64 * (Y ^ 6 * (Y ^ 2 - X ^ 3))"
    unfolding Y3 X3 D' E' C' B by (simp add: ring_norm)
  also have "\<dots> = b * Z3 ^ 6" unfolding c Z3 by (simp add: power_mult_distrib ac_simps flip: mult_2)
  finally show ?thesis by (simp only: diff_eq_eq add.commute)
qed

end
