(* ===== verification/Bls_G1.thy ===== *)
theory Bls_G1
  imports Bls_Fq Tower_Ring
begin

text \<open>
  The group G1 of BLS12-377, \<open>src/include/hsma/threshold/g1.hpp\<close>: square roots, the Jacobian
  operations over the base field, scalar multiplication and the affine conversions. A branch that
  ends the process (\<open>std::exit\<close>) is the value None.
\<close>

subsection \<open>Negation and square roots\<close>

definition cneg :: "fe6 \<Rightarrow> fe6" where
  "cneg a = fst (bn_sub 0 (cm QC) a)"

definition fe6_small :: "u64 \<Rightarrow> fe6" where
  "fe6_small v = (bn_clr 6)[0 := v]"

text \<open>The search for a non-residue: 512 candidates, from two upwards.\<close>

fun find_nr :: "nat \<Rightarrow> fe6 \<Rightarrow> fe6 option" where
  "find_nr 0 zc = None"
| "find_nr (Suc g) zc =
     (if mto QC (mpow QC (mfrom QC zc) (cxhalfq CX)) \<noteq> fe6_small 1 then Some zc
      else find_nr g (bn_inc zc))"

text \<open>The number of squarings that take \<open>t2\<close> to one; the loop of the code has no bound.\<close>

partial_function (option) two_order :: "fe6 \<Rightarrow> nat \<Rightarrow> nat option" where
  "two_order t2 i = (if t2 = cr1 QC then Some i else two_order (mmul QC t2 t2) (Suc i))"

declare two_order.simps [code]

text \<open>The outer loop; its first argument counts the rounds left before the guard of \<open>2 * e + 8\<close>.\<close>

fun tonelli_loop :: "nat \<Rightarrow> nat \<Rightarrow> fe6 \<Rightarrow> fe6 \<Rightarrow> fe6 \<Rightarrow> fe6 option" where
  "tonelli_loop n M c t R =
     (if t = cr1 QC then Some R
      else case n of 0 \<Rightarrow> None
      | Suc n' \<Rightarrow>
        (case two_order t 0 of None \<Rightarrow> None
         | Some i \<Rightarrow>
           if M \<le> i then None
           else let b = ((\<lambda>b. mmul QC b b) ^^ (M - i - 1)) c;
                    b2 = mmul QC b b
                in tonelli_loop n' i b2 (mmul QC t b2) (mmul QC R b)))"

declare tonelli_loop.simps [simp del]

definition tonelli_q :: "fe6 \<Rightarrow> fe6 option" where
  "tonelli_q a =
     (if bn_isz a then Some a
      else case find_nr 512 (fe6_small 2) of
        None \<Rightarrow> None
      | Some z \<Rightarrow>
        let Ma = mfrom QC a;
            c = mpow QC (mfrom QC z) (cxsodd CX);
            t = mpow QC Ma (cxsodd CX);
            e2 = bn_shr1 (fst (bn_add 0 (cxsodd CX) (fe6_small 1)));
            R = mpow QC Ma e2
        in map_option (mto QC) (tonelli_loop (2 * cxe CX + 8) (cxe CX) c t R))"

subsection \<open>Jacobian points\<close>

record Pt =
  px :: fe6
  py :: fe6
  pz :: fe6

definition Pt0 :: Pt where
  "Pt0 = \<lparr>px = bn_clr 6, py = bn_clr 6, pz = bn_clr 6\<rparr>"

definition PisInf :: "Pt \<Rightarrow> bool" where
  "PisInf P = bn_isz (pz P)"

definition Pdbl :: "Pt \<Rightarrow> Pt" where
  "Pdbl P =
     (if PisInf P \<or> bn_isz (py P) then Pt0
      else let A = mmul QC (px P) (px P);
               B = mmul QC (py P) (py P);
               C = mmul QC B B;
               XB = madd QC (px P) B;
               D = mmul QC XB XB;
               D = msub QC D A;
               D = msub QC D C;
               D = madd QC D D;
               E = madd QC (madd QC A A) A;
               X3 = msub QC (mmul QC E E) (madd QC D D);
               C2 = madd QC C C;
               C4 = madd QC C2 C2;
               C8 = madd QC C4 C4;
               Y3 = msub QC (mmul QC E (msub QC D X3)) C8;
               Z3 = mmul QC (madd QC (py P) (py P)) (pz P)
           in \<lparr>px = X3, py = Y3, pz = Z3\<rparr>)"

definition Padd :: "Pt \<Rightarrow> Pt \<Rightarrow> Pt" where
  "Padd P Q =
     (if PisInf P then Q
      else if PisInf Q then P
      else let Z1 = mmul QC (pz P) (pz P);
               Z2 = mmul QC (pz Q) (pz Q);
               U1 = mmul QC (px P) Z2;
               U2 = mmul QC (px Q) Z1;
               S1 = mmul QC (mmul QC (py P) Z2) (pz Q);
               S2 = mmul QC (mmul QC (py Q) Z1) (pz P)
           in if U1 = U2 then (if S1 = S2 then Pdbl P else Pt0)
              else let H = msub QC U2 U1;
                       HH = mmul QC H H;
                       I = madd QC HH HH;
                       I = madd QC I I;
                       J = mmul QC H I;
                       rr = msub QC S2 S1;
                       rr = madd QC rr rr;
                       V = mmul QC U1 I;
                       X3 = msub QC (msub QC (mmul QC rr rr) J) (madd QC V V);
                       SJ = madd QC (mmul QC S1 J) (mmul QC S1 J);
                       Y3 = msub QC (mmul QC rr (msub QC V X3)) SJ;
                       Z3 = mmul QC (mmul QC (mmul QC (pz P) (pz Q)) H) (mfrom QC (fe6_small 2))
                   in \<lparr>px = X3, py = Y3, pz = Z3\<rparr>)"

text \<open>
  The bits that \<open>Pmul\<close> runs over: from limb \<open>bl / 64\<close>, at bit \<open>(bl - 1) & 63\<close>, down to bit zero. When
  \<open>bl\<close> is a multiple of 64 this starts one limb too high, which is a read outside the scalar at 384.
\<close>

definition pmul_bits :: "fe6 \<Rightarrow> nat \<Rightarrow> bool list" where
  "pmul_bits k bl =
     map (\<lambda>i. bit (k ! (i div 64)) (i mod 64)) (rev [0..<64 * (bl div 64) + (bl - 1) mod 64 + 1])"

definition Pstep :: "Pt \<Rightarrow> Pt \<Rightarrow> bool \<Rightarrow> Pt" where
  "Pstep P r b = (let r = Pdbl r in if b then Padd r P else r)"

definition Pmul :: "Pt \<Rightarrow> fe6 \<Rightarrow> Pt" where
  "Pmul P k = (let bl = bitlen k in if bl = 0 then Pt0 else foldl (Pstep P) Pt0 (pmul_bits k bl))"

subsection \<open>Affine points\<close>

definition from_affine :: "fe6 \<Rightarrow> fe6 \<Rightarrow> Pt" where
  "from_affine xa ya = \<lparr>px = mfrom QC xa, py = mfrom QC ya, pz = cr1 QC\<rparr>"

definition to_affine :: "Pt \<Rightarrow> (fe6 \<times> fe6) option" where
  "to_affine P =
     (if PisInf P then None
      else let zi = mpow QC (pz P) (cxm2 CX);
               z2 = mmul QC zi zi;
               x = mto QC (mmul QC (px P) z2);
               y = mto QC (mmul QC (py P) (mmul QC z2 zi))
           in Some (x, y))"

definition gen :: Pt where
  "gen = from_affine Q_GEN_X Q_GEN_Y"

definition on_curve_aff :: "fe6 \<Rightarrow> fe6 \<Rightarrow> bool" where
  "on_curve_aff xa ya =
     (let Mx = mfrom QC xa; My = mfrom QC ya
      in mmul QC My My = madd QC (mmul QC (mmul QC Mx Mx) Mx) (cxb CX))"

subsection \<open>Elements of the field\<close>

lemmas q_dec_ops [dec_simps] = fqk.dec_zero fqk.dec_one fqk.dec_add fqk.dec_sub fqk.dec_mul
lemmas q_canon_ops [simp, intro] = fqk.c_zero fqk.c_one fqk.c_add fqk.c_sub fqk.c_mul

lemma fe6_small_val: "limbs_val (fe6_small v) = unat v" "length (fe6_small v) = 6" "q_canon (fe6_small v)"
proof -
  show v: "limbs_val (fe6_small v) = unat v" and l: "length (fe6_small v) = 6"
    using limbs_val_update [of 0 "bn_clr 6" v] by (simp_all add: fe6_small_def bn_clr_def)
  show "q_canon (fe6_small v)" using unat_u64_lt [of v] l unfolding q_canon_def v by (simp add: bls_q_def)
qed

lemma q_canon_R2: "q_canon Q_R2" "limbs_val Q_R2 = 2 ^ 384 * 2 ^ 384 mod bls_q"
  using Q_R2_val by (simp_all add: q_canon_def)

lemma q_canon_from [simp, intro]: "q_canon x \<Longrightarrow> q_canon (mfrom QC x)"
  by (simp add: mfrom_def q_canon_R2 fqk.c_mul)

lemma q_dec_from [dec_simps]: "q_canon x \<Longrightarrow> fqk.dec (mfrom QC x) = of_nat (limbs_val x)"
  unfolding mfrom_def cm_QC by (rule fqk.dec_enter [OF _ q_canon_R2])

lemma mto_raw: "mto QC x = mmul QC x (fe6_small 1)"
  by (simp add: mto_def fe6_small_def)

lemma q_canon_to [simp, intro]: "q_canon x \<Longrightarrow> q_canon (mto QC x)"
  by (simp add: mto_raw fe6_small_val)

lemma q_val_to: "q_canon x \<Longrightarrow> of_nat (limbs_val (mto QC x)) = fqk.dec x"
  unfolding mto_raw by (rule fqk.val_leave) (simp_all add: fe6_small_val)

lemma mto_mfrom: "q_canon x \<Longrightarrow> mto QC (mfrom QC x) = x"
  unfolding mto_raw mfrom_def cm_QC by (rule fqk.leave_enter [OF _ q_canon_R2]) (simp_all add: fe6_small_val)

lemma mpow_canon_dec:
  assumes "q_canon a"
  shows "q_canon (mpow QC a e)" and "fqk.dec (mpow QC a e) = fqk.dec a ^ limbs_val e"
  using fqk.square_multiply_dec [OF fqk.c_one assms, of "bits_down e"]
    square_multiply [of "fqk.dec a" 0 "bits_down e"] bits_down_value [of e]
  unfolding fqk.dec_one by (simp_all add: mpow_def foldl_conv_fold)

subsection \<open>The curve equation\<close>

text \<open>A point is on the curve when the equation holds of its decoded coordinates.\<close>

definition g1_on :: "Pt \<Rightarrow> bool" where
  "g1_on P \<longleftrightarrow> q_canon (px P) \<and> q_canon (py P) \<and> q_canon (pz P)
     \<and> fqk.dec (py P) ^ 2 = fqk.dec (px P) ^ 3 + fqk.dec (pz P) ^ 6"

lemma g1_onD:
  assumes "g1_on P"
  shows "q_canon (px P)" "q_canon (py P)" "q_canon (pz P)"
    "fqk.dec (py P) ^ 2 = fqk.dec (px P) ^ 3 + fqk.dec (pz P) ^ 6"
  using assms by (simp_all add: g1_on_def)

lemma g1_on_Pt0 [simp]: "g1_on Pt0"
  by (simp add: g1_on_def Pt0_def q_dec_ops)

lemma Pdbl_on: "g1_on P \<Longrightarrow> g1_on (Pdbl P)"
proof (cases "PisInf P \<or> bn_isz (py P)")
  case False
  assume P: "g1_on P"
  note c = g1_onD(1-3) [OF P]
  show ?thesis
    unfolding g1_on_def Pdbl_def Let_def
    by (simp only: False if_False Pt.select_convs q_dec_ops q_canon_ops c simp_thms)
      (rule dbl_ring [where b = 1, unfolded mult_1_left, OF g1_onD(4) [OF P] refl refl refl refl refl refl refl refl refl refl])
qed (simp add: Pdbl_def)

lemma Padd_on: "g1_on P \<Longrightarrow> g1_on Q \<Longrightarrow> g1_on (Padd P Q)"
proof -
  assume P: "g1_on P" and Q: "g1_on Q"
  note c = g1_onD(1-3) [OF P] g1_onD(1-3) [OF Q]
  let ?x = "fqk.dec (px P)" and ?y = "fqk.dec (py P)" and ?z = "fqk.dec (pz P)"
  let ?x' = "fqk.dec (px Q)" and ?y' = "fqk.dec (py Q)" and ?z' = "fqk.dec (pz Q)"
  have two: "fqk.dec (mfrom QC (fe6_small 2)) = 2"
    by (simp add: q_dec_from fe6_small_val)
  have e1: "(?y * (?z' * ?z') * ?z') ^ 2 = (?x * (?z' * ?z')) ^ 3 + (?z * ?z') ^ 6"
  proof -
    have "(?y * (?z' * ?z') * ?z') ^ 2 = ?y ^ 2 * ?z' ^ 6" by (simp add: ring_norm)
    then show ?thesis unfolding g1_onD(4) [OF P] by (simp add: ring_norm)
  qed
  have e2: "(?y' * (?z * ?z) * ?z) ^ 2 = (?x' * (?z * ?z)) ^ 3 + (?z * ?z') ^ 6"
  proof -
    have "(?y' * (?z * ?z) * ?z) ^ 2 = ?y' ^ 2 * ?z ^ 6" by (simp add: ring_norm)
    then show ?thesis unfolding g1_onD(4) [OF Q] by (simp add: ring_norm)
  qed
  let ?U = "\<lambda>P Q. mmul QC (px P) (mmul QC (pz Q) (pz Q))"
  consider "PisInf P" | "PisInf Q" "\<not> PisInf P" | "\<not> PisInf P" "\<not> PisInf Q" "?U P Q = ?U Q P"
    | "\<not> PisInf P" "\<not> PisInf Q" "?U P Q \<noteq> ?U Q P" by blast
  then show ?thesis
  proof cases
    case 4
    show ?thesis
      unfolding g1_on_def Padd_def Let_def
      by (simp only: 4 if_False Pt.select_convs q_dec_ops q_canon_ops q_canon_from fe6_small_val c two simp_thms)
        (rule add_ring [where b = 1, unfolded mult_1_left, OF e1 e2 refl refl refl refl refl refl refl refl refl refl refl])
  qed (use P Q in \<open>simp_all add: Padd_def Let_def Pdbl_on\<close>)
qed

lemma Pstep_on: "g1_on P \<Longrightarrow> g1_on R \<Longrightarrow> g1_on (Pstep P R b)"
  by (simp add: Pstep_def Let_def Pdbl_on Padd_on)

lemma foldl_Pstep_on: "g1_on P \<Longrightarrow> g1_on R \<Longrightarrow> g1_on (foldl (Pstep P) R bs)"
  by (induction bs arbitrary: R) (simp_all add: Pstep_on)

lemma Pmul_on: "g1_on P \<Longrightarrow> g1_on (Pmul P k)"
  by (simp add: Pmul_def Let_def foldl_Pstep_on)

subsection \<open>The clamp of the scalar multiplication\<close>

lemma Pstep_Pt0: "Pstep P Pt0 False = Pt0"
  by (simp add: Pstep_def Pdbl_def PisInf_def Pt0_def bn_isz_val)

lemma foldl_Pstep_zeros: "list_all Not bs \<Longrightarrow> foldl (Pstep P) Pt0 bs = Pt0"
  by (induction bs) (simp_all add: Pstep_Pt0)

lemma Pmul_double_and_add:
  assumes "length k = 6" and "bitlen k < 384"
  shows "Pmul P k = foldl (Pstep P) Pt0 (bits_down k)"
proof -
  let ?f = "\<lambda>i. bit (k ! (i div 64)) (i mod 64)" and ?bl = "bitlen k"
  let ?n = "64 * (?bl div 64) + (?bl - 1) mod 64 + 1"
  have split: "bits_down k = map ?f (rev [n..<384]) @ map ?f (rev [0..<n])" if "n \<le> 384" for n
  proof -
    have "[0..<384] = [0..<n] @ [n..<384]" using that upt_add_eq_append [of 0 n "384 - n"] by simp
    then show ?thesis using assms(1) by (simp add: bits_down_def)
  qed
  have zeros: "list_all Not (map ?f (rev [n..<384]))" if "?bl \<le> n" "n \<le> 384" for n
  proof -
    have "length (takeWhile Not (bits_down k)) = 384 - ?bl"
    proof -
      have "length (takeWhile Not (bits_down k) @ dropWhile Not (bits_down k)) = 384"
        unfolding takeWhile_dropWhile_id using assms(1) by (simp add: bits_down_def)
      then show ?thesis unfolding bitlen_def length_append by linarith
    qed
    then have "takeWhile Not (bits_down k) = take (384 - ?bl) (bits_down k)"
      using takeWhile_eq_take [of Not "bits_down k"] by simp
    then have eq: "map ?f (rev [n..<384]) = take (384 - n) (takeWhile Not (bits_down k))"
      using that unfolding split [OF that(2)] by (simp add: min_def)
    have "list_all Not (take m (takeWhile Not xs))" for m and xs :: "bool list"
      unfolding list_all_iff using set_take_subset set_takeWhileD by fast
    then show ?thesis unfolding eq .
  qed
  show ?thesis
  proof (cases "?bl = 0")
    case True
    then show ?thesis using split [of 0] zeros [of 0] by (simp add: Pmul_def foldl_Pstep_zeros)
  next
    case False
    have "?bl - 1 = 64 * ((?bl - 1) div 64) + (?bl - 1) mod 64" "(?bl - 1) div 64 \<le> ?bl div 64"
      by (simp_all add: div_le_mono)
    moreover have "?bl div 64 \<le> 5" using assms(2) by simp
    moreover have "(?bl - 1) mod 64 < 64" by simp
    ultimately have n: "?bl \<le> ?n" "?n \<le> 384" using False by linarith+
    have "foldl (Pstep P) Pt0 (bits_down k) = foldl (Pstep P) Pt0 (map ?f (rev [0..<?n]))"
      unfolding split [OF n(2)] foldl_append foldl_Pstep_zeros [OF zeros [OF n]] ..
    then show ?thesis using False by (simp add: Pmul_def pmul_bits_def Let_def)
  qed
qed

subsection \<open>Affine conversions\<close>

lemma g1_on_from_affine:
  assumes "q_canon xa" and "q_canon ya"
  shows "g1_on (from_affine xa ya) \<longleftrightarrow> on_curve_aff xa ya"
proof -
  let ?x = "mfrom QC xa" and ?y = "mfrom QC ya"
  have b: "cxb CX = mfrom QC (fe6_small 1)" by (simp add: CX_def fe6_small_def)
  have db: "fqk.dec (cxb CX) = 1" "q_canon (cxb CX)" unfolding b by (simp_all add: q_dec_from fe6_small_val)
  have c: "q_canon ?x" "q_canon ?y" using assms by simp_all
  have "on_curve_aff xa ya \<longleftrightarrow> fqk.dec (mmul QC ?y ?y) = fqk.dec (madd QC (mmul QC (mmul QC ?x ?x) ?x) (cxb CX))"
    unfolding on_curve_aff_def Let_def
    by (rule fqk.dec_eq_iff [symmetric]) (simp_all add: c db)
  also have "\<dots> \<longleftrightarrow> fqk.dec ?y ^ 2 = fqk.dec ?x ^ 3 + 1"
    using c db by (simp add: q_dec_ops power2_eq_square power3_eq_cube)
  also have "\<dots> \<longleftrightarrow> g1_on (from_affine xa ya)"
    using c fqk.c_one fqk.dec_one by (simp add: g1_on_def from_affine_def)
  finally show ?thesis by simp
qed

text \<open>The generator is on the curve, checked on its two canonical coordinates.\<close>

lemma gen_coordinates:
  "limbs_val Q_GEN_X = 81937999373150964239938255573465948239988671502647976594219695644855304257327692006745978603320413799295628339695"
  "limbs_val Q_GEN_Y = 17397676153253620270863855454307851802466321586312764156125140564607560990561071773762088186709545111705113293147"
  by (simp_all add: Q_GEN_X_def Q_GEN_Y_def)

lemma gen_coords_canon: "q_canon Q_GEN_X" "q_canon Q_GEN_Y"
  by (simp_all add: q_canon_def Q_GEN_X_def Q_GEN_Y_def bls_q_def)

lemma gen_on: "g1_on gen"
proof -
  let ?a = "72346497150107698034043483539721782524789302051246403258396233134659523374608009027565277908511726151365835346997 :: nat"
  let ?b = "39081806117246932528750763274656556375294503460530675731051931570180859894873416733311272988159893167529563934452 :: nat"
  let ?x = "of_nat (limbs_val Q_GEN_X) :: fq" and ?y = "of_nat (limbs_val Q_GEN_Y) :: fq"
  note c = gen_coords_canon
  have "limbs_val Q_GEN_X * limbs_val Q_GEN_X = bls_q * 25955775383422322316779830794543764898025946178625419151251546640577804222559795335023760169353869478498967165164 + ?a"
    unfolding gen_coordinates bls_q_def by simp
  moreover have "?a * limbs_val Q_GEN_X = bls_q * 22917442995574405386757783244037245325676078187616101266171462828796412918698742301997663087103734717080684989319 + ?b"
    unfolding gen_coordinates bls_q_def by simp
  moreover have "limbs_val Q_GEN_Y * limbs_val Q_GEN_Y = bls_q * 1170161433479506580650867834013335487585858700378097956349522759764337419341748472809564115639684579479848822628 + (?b + 1)"
    unfolding gen_coordinates bls_q_def by simp
  ultimately have "(of_nat (limbs_val Q_GEN_X * limbs_val Q_GEN_X) :: fq) = of_nat ?a"
    "(of_nat (?a * limbs_val Q_GEN_X) :: fq) = of_nat ?b"
    "(of_nat (limbs_val Q_GEN_Y * limbs_val Q_GEN_Y) :: fq) = of_nat (?b + 1)"
    by (simp_all only: of_nat_add of_nat_mult [of bls_q] fqk.of_nat_modulus mult_zero_left add_0_left)
  then have "?y * ?y = ?x * ?x * ?x + 1"
    by (simp only: of_nat_mult of_nat_add of_nat_1)
  then have "?y ^ 2 = ?x ^ 3 + 1" by (simp only: power2_eq_square power3_eq_cube)
  then show ?thesis
    using c fqk.c_one fqk.dec_one
    by (simp only: gen_def g1_on_def from_affine_def Pt.select_convs q_dec_from q_canon_from power_one simp_thms)
qed

text \<open>
  The affine coordinates of a point whose \<open>Z\<close> satisfies Fermat's equation are its quotients by
  \<open>Z^2\<close> and \<open>Z^3\<close>, and they are on the affine curve.
\<close>

lemma to_affine_on:
  assumes P: "g1_on P" and inf: "\<not> PisInf P" and fermat: "fqk.dec (pz P) ^ (bls_q - 1) = 1"
  shows "\<exists>x y. to_affine P = Some (x, y) \<and> q_canon x \<and> q_canon y \<and> on_curve_aff x y
    \<and> of_nat (limbs_val x) * fqk.dec (pz P) ^ 2 = fqk.dec (px P)
    \<and> of_nat (limbs_val y) * fqk.dec (pz P) ^ 3 = fqk.dec (py P)"
proof -
  note c = g1_onD(1-3) [OF P]
  let ?X = "fqk.dec (px P)" and ?Y = "fqk.dec (py P)" and ?Z = "fqk.dec (pz P)"
  let ?zi = "mpow QC (pz P) (cxm2 CX)"
  have e: "limbs_val (cxm2 CX) = bls_q - 2" by (simp add: CX_def Q_M2_def bls_q_def)
  define w where "w = ?Z ^ (bls_q - 2)"
  have zi: "q_canon ?zi" "fqk.dec ?zi = w"
    using mpow_canon_dec [OF c(3), of "cxm2 CX"] by (simp_all add: e w_def)
  have "bls_q - 1 = Suc (bls_q - 2)" by (simp add: bls_q_def)
  then have w: "w * ?Z = 1" using fermat by (simp add: w_def mult.commute)
  let ?x = "mto QC (mmul QC (px P) (mmul QC ?zi ?zi))"
  let ?y = "mto QC (mmul QC (py P) (mmul QC (mmul QC ?zi ?zi) ?zi))"
  have x: "q_canon ?x" "of_nat (limbs_val ?x) = ?X * (w * w)"
    using c zi by (simp_all add: q_val_to q_dec_ops)
  have y: "q_canon ?y" "of_nat (limbs_val ?y) = ?Y * (w * w * w)"
    using c zi by (simp_all add: q_val_to q_dec_ops)
  have "?X * (w * w) * ?Z ^ 2 = ?X * (w * ?Z) ^ 2" "?Y * (w * w * w) * ?Z ^ 3 = ?Y * (w * ?Z) ^ 3"
    by (simp_all add: ring_norm)
  then have q: "?X * (w * w) * ?Z ^ 2 = ?X" "?Y * (w * w * w) * ?Z ^ 3 = ?Y" by (simp_all add: w)
  have "(?Y * (w * w * w)) ^ 2 = ?Y ^ 2 * w ^ 6" by (simp add: ring_norm)
  also have "\<dots> = (?X * (w * w)) ^ 3 + (w * ?Z) ^ 6" unfolding g1_onD(4) [OF P] by (simp add: ring_norm)
  finally have "g1_on (from_affine ?x ?y)"
    using x y fqk.c_one fqk.dec_one by (simp add: g1_on_def from_affine_def q_dec_from w)
  then have "on_curve_aff ?x ?y" using g1_on_from_affine [OF x(1) y(1)] by simp
  moreover have "to_affine P = Some (?x, ?y)" using inf by (simp add: to_affine_def Let_def)
  ultimately show ?thesis using x y q by auto
qed

subsection \<open>Square roots\<close>

lemma two_sq_canon: "q_canon c \<Longrightarrow> q_canon (((\<lambda>b. mmul QC b b) ^^ n) c)"
  by (induction n) simp_all

text \<open>The loop invariant \<open>R^2 = t * a\<close>: whatever the loop returns is a root.\<close>

lemma tonelli_loop_root:
  "tonelli_loop n M c t R = Some r \<Longrightarrow> q_canon c \<Longrightarrow> q_canon t \<Longrightarrow> q_canon R \<Longrightarrow>
    fqk.dec R ^ 2 = fqk.dec t * a \<Longrightarrow> q_canon r \<and> fqk.dec r ^ 2 = a"
proof (induction n M c t R rule: tonelli_loop.induct)
  case (1 n M c t R)
  show ?case
  proof (cases "t = cr1 QC")
    case True
    then have "R = r" "fqk.dec t = 1" using "1.prems"(1) fqk.dec_one by (simp_all add: tonelli_loop.simps)
    then show ?thesis using "1.prems" by simp
  next
    case False
    then obtain n' i where n: "n = Suc n'" and i: "two_order t 0 = Some i" "\<not> M \<le> i"
      using "1.prems"(1) by (auto simp: tonelli_loop.simps [of n] split: nat.splits option.splits if_splits)
    let ?b = "((\<lambda>b. mmul QC b b) ^^ (M - i - 1)) c"
    have b: "q_canon ?b" by (rule two_sq_canon [OF "1.prems"(2)])
    have r: "tonelli_loop n' i (mmul QC ?b ?b) (mmul QC t (mmul QC ?b ?b)) (mmul QC R ?b) = Some r"
      using "1.prems"(1) False i unfolding n by (simp add: tonelli_loop.simps [of "Suc n'"] Let_def)
    have "fqk.dec (mmul QC R ?b) ^ 2 = fqk.dec R ^ 2 * (fqk.dec ?b * fqk.dec ?b)"
      using b "1.prems"(4) by (simp add: q_dec_ops power2_eq_square ac_simps)
    then have "fqk.dec (mmul QC R ?b) ^ 2 = fqk.dec (mmul QC t (mmul QC ?b ?b)) * a"
      unfolding "1.prems"(5) using b "1.prems"(3) by (simp add: q_dec_ops ac_simps)
    then show ?thesis using "1.IH" [OF False n i refl refl r] b "1.prems" by simp
  qed
qed

lemma find_nr_canon:
  "find_nr g zc = Some z \<Longrightarrow> length zc = 6 \<Longrightarrow> limbs_val zc + g < bls_q \<Longrightarrow> q_canon z"
proof (induction g zc rule: find_nr.induct)
  case (2 g zc)
  have "limbs_val zc < 2 ^ (64 * length zc) - 1" using "2.prems" by (simp add: bls_q_def)
  from bn_inc_val [OF this] have inc: "limbs_val (bn_inc zc) = limbs_val zc + 1" "length (bn_inc zc) = length zc" by simp_all
  show ?case
  proof (cases "mto QC (mpow QC (mfrom QC zc) (cxhalfq CX)) \<noteq> fe6_small 1")
    case True
    then show ?thesis using "2.prems" by (simp add: q_canon_def)
  next
    case False
    then show ?thesis using "2.IH" "2.prems" inc by simp
  qed
qed simp

lemma sodd_exponents:
  "limbs_val (cxsodd CX) + 1 = 2 * limbs_val (bn_shr1 (fst (bn_add 0 (cxsodd CX) (fe6_small 1))))"
proof -
  have "fe6_small 1 = [1, 0, 0, 0, 0, 0]" by (simp add: fe6_small_def bn_clr_def eval_nat_numeral)
  then show ?thesis by (simp add: CX_def Q_SODD_def addc_def Let_def)
qed

theorem tonelli_q_root:
  assumes a: "q_canon a" and r: "tonelli_q a = Some r"
  shows "q_canon r \<and> (limbs_val r * limbs_val r) mod bls_q = limbs_val a"
proof (cases "bn_isz a")
  case True
  then show ?thesis using a r by (simp add: tonelli_q_def bn_isz_val)
next
  case False
  let ?Ma = "mfrom QC a" and ?s = "cxsodd CX"
  let ?e2 = "bn_shr1 (fst (bn_add 0 ?s (fe6_small 1)))"
  have Ma: "q_canon ?Ma" "fqk.dec ?Ma = of_nat (limbs_val a)" using a by (simp_all add: q_dec_from)
  obtain z R where z: "find_nr 512 (fe6_small 2) = Some z" and rR: "r = mto QC R"
    and R: "tonelli_loop (2 * cxe CX + 8) (cxe CX) (mpow QC (mfrom QC z) ?s) (mpow QC ?Ma ?s) (mpow QC ?Ma ?e2) = Some R"
    using r False by (auto simp: tonelli_q_def Let_def split: option.splits)
  have zc: "q_canon z" by (rule find_nr_canon [OF z]) (simp_all add: fe6_small_val bls_q_def)
  have "fqk.dec (mpow QC ?Ma ?e2) ^ 2 = fqk.dec ?Ma ^ (limbs_val ?s + 1)"
    using mpow_canon_dec(2) [OF Ma(1), of ?e2] sodd_exponents by (simp add: mult.commute flip: power_mult)
  also have "\<dots> = fqk.dec (mpow QC ?Ma ?s) * fqk.dec ?Ma"
    using mpow_canon_dec(2) [OF Ma(1), of ?s] by (simp add: mult.commute)
  finally have "q_canon R \<and> fqk.dec R ^ 2 = fqk.dec ?Ma"
    using mpow_canon_dec(1) Ma(1) zc by (intro tonelli_loop_root [OF R]) simp_all
  then have c: "q_canon r" and "(of_nat (limbs_val r * limbs_val r) :: fq) = of_nat (limbs_val a)"
    unfolding rR using Ma(2) by (simp_all add: q_val_to power2_eq_square)
  then have "(limbs_val r * limbs_val r) mod bls_q = limbs_val a mod bls_q" by (simp only: of_nat_fq)
  then show ?thesis using c a by (simp add: q_canon_def)
qed

end
