(* ===== verification/Interpolation.thy ===== *)
theory Interpolation
  imports Main
begin

text \<open>
  Lagrange interpolation at zero over a commutative ring, for points whose differences are units.
  The ring of residues that the scalar field decodes into is not known to be a field here, so the
  inverses of the differences are given by a function.
\<close>

definition separated :: "('i \<Rightarrow> 'a::comm_ring_1) \<Rightarrow> ('a \<Rightarrow> 'a) \<Rightarrow> 'i set \<Rightarrow> bool" where
  "separated x iv S \<longleftrightarrow> finite S \<and> (\<forall>i\<in>S. \<forall>j\<in>S. i \<noteq> j \<longrightarrow> iv (x i - x j) * (x i - x j) = 1)"

definition basis0 :: "('i \<Rightarrow> 'a::comm_ring_1) \<Rightarrow> ('a \<Rightarrow> 'a) \<Rightarrow> 'i set \<Rightarrow> 'i \<Rightarrow> 'a" where
  "basis0 x iv S i = (\<Prod>j\<in>S - {i}. - x j * iv (x i - x j))"

lemma separated_Diff: "separated x iv S \<Longrightarrow> separated x iv (S - {k})"
  by (auto simp: separated_def)

lemma basis0_step:
  assumes "separated x iv S" and "k \<in> S" and "i \<in> S" and "i \<noteq> k"
  shows "basis0 x iv S i * (x i - x k) = - x k * basis0 x iv (S - {k}) i"
proof -
  have "S - {i} = insert k (S - {k} - {i})" using assms by auto
  then have "basis0 x iv S i = - x k * iv (x i - x k) * basis0 x iv (S - {k}) i"
    using assms(1) by (simp add: basis0_def separated_def)
  then have "basis0 x iv S i * (x i - x k) = - x k * (iv (x i - x k) * (x i - x k)) * basis0 x iv (S - {k}) i"
    by (simp only: mult_ac)
  moreover have "iv (x i - x k) * (x i - x k) = 1" using assms by (auto simp: separated_def)
  ultimately show ?thesis by simp
qed

lemma sum_basis0_step:
  assumes "separated x iv S" and "k \<in> S"
  shows "(\<Sum>i\<in>S. basis0 x iv S i * ((x i - x k) * g i)) = - x k * (\<Sum>i\<in>S - {k}. basis0 x iv (S - {k}) i * g i)"
proof -
  have f: "finite S" using assms by (simp add: separated_def)
  have "(\<Sum>i\<in>S. basis0 x iv S i * ((x i - x k) * g i)) = (\<Sum>i\<in>S - {k}. basis0 x iv S i * ((x i - x k) * g i))"
    using f assms(2) by (subst sum.remove [of S k]) simp_all
  also have "\<dots> = (\<Sum>i\<in>S - {k}. - x k * basis0 x iv (S - {k}) i * g i)"
    using basis0_step [OF assms] by (intro sum.cong refl) (simp only: Diff_iff singleton_iff simp_thms flip: mult.assoc)
  finally show ?thesis by (simp add: sum_distrib_left mult.assoc)
qed

lemma sum_basis0:
  "separated x iv S \<Longrightarrow> S \<noteq> {} \<Longrightarrow> (\<Sum>i\<in>S. basis0 x iv S i) = 1"
proof (induction "card S" arbitrary: S)
  case 0
  then show ?case by (simp add: separated_def)
next
  case (Suc n)
  then obtain k where k: "k \<in> S" by auto
  have f: "finite S" using Suc by (simp add: separated_def)
  have IH: "(\<Sum>i\<in>S - {m}. basis0 x iv (S - {m}) i) = 1" if "m \<in> S" "S \<noteq> {m}" for m
    using that Suc f by (intro Suc.hyps(1)) (auto intro: separated_Diff)
  show ?case
  proof (cases "S = {k}")
    case True
    then show ?thesis by (simp add: basis0_def)
  next
    case False
    then obtain l where l: "l \<in> S" "l \<noteq> k" using k by auto
    then have "S \<noteq> {l}" using k by auto
    let ?B = "\<Sum>i\<in>S. basis0 x iv S i"
    have s: "(\<Sum>i\<in>S. basis0 x iv S i * x i) - ?B * x m = - x m" if "m \<in> S" "S \<noteq> {m}" for m
      using sum_basis0_step [OF Suc.prems(1) that(1), of "\<lambda>_. 1"] IH [OF that]
      by (simp add: right_diff_distrib sum_subtractf sum_distrib_right)
    have "?B * x m = (\<Sum>i\<in>S. basis0 x iv S i * x i) + x m" if "m \<in> S" "S \<noteq> {m}" for m
      using s [OF that] by (simp add: diff_eq_eq)
    then have "?B * (x l - x k) = x l - x k"
      using k False l \<open>S \<noteq> {l}\<close> by (simp add: right_diff_distrib)
    then have "?B * (iv (x l - x k) * (x l - x k)) = iv (x l - x k) * (x l - x k)"
      by (metis mult.left_commute)
    moreover have "iv (x l - x k) * (x l - x k) = 1" using Suc.prems l k by (auto simp: separated_def)
    ultimately show ?thesis by simp
  qed
qed

text \<open>Polynomials as coefficient lists; \<open>quot a cs\<close> is the quotient by \<open>x - a\<close>.\<close>

fun peval :: "'a::comm_ring_1 list \<Rightarrow> 'a \<Rightarrow> 'a" where
  "peval [] x = 0"
| "peval (c # cs) x = c + x * peval cs x"

fun quot :: "'a::comm_ring_1 \<Rightarrow> 'a list \<Rightarrow> 'a list" where
  "quot a [] = []"
| "quot a (c # cs) = (if cs = [] then [] else peval cs a # quot a cs)"

lemma length_quot: "length (quot a cs) = length cs - 1"
  by (induction cs) auto

lemma peval_quot: "peval cs x = peval cs a + (x - a) * peval (quot a cs) x"
proof (induction cs)
  case (Cons c cs)
  then have "x * peval cs x = x * peval cs a + x * ((x - a) * peval (quot a cs) x)"
    by (metis distrib_left)
  then show ?case by (simp add: algebra_simps)
qed simp

lemma peval_sum: "peval cs x = (\<Sum>k<length cs. cs ! k * x ^ k)"
  by (induction cs) (simp_all add: sum.lessThan_Suc_shift sum_distrib_left mult.left_commute del: sum.lessThan_Suc)

theorem interpolate_zero:
  "separated x iv S \<Longrightarrow> S \<noteq> {} \<Longrightarrow> length cs \<le> card S \<Longrightarrow>
    (\<Sum>i\<in>S. basis0 x iv S i * peval cs (x i)) = peval cs 0"
proof (induction "card S" arbitrary: S cs)
  case 0
  then show ?case by (simp add: separated_def)
next
  case (Suc n)
  then obtain k where k: "k \<in> S" by auto
  let ?h = "quot (x k) cs"
  have f: "finite S" using Suc by (simp add: separated_def)
  have n: "card (S - {k}) = n" "length ?h \<le> n" using Suc f k by (simp_all add: length_quot)
  have h: "(\<Sum>i\<in>S - {k}. basis0 x iv (S - {k}) i * peval ?h (x i)) = peval ?h 0"
  proof (cases "S - {k} = {}")
    case True
    then have "n = 0" using n(1) unfolding True by simp
    then have "?h = []" using n(2) by simp
    then show ?thesis by (simp only: peval.simps mult_zero_right sum.neutral_const)
  next
    case False
    then show ?thesis using Suc.hyps(1) [of "S - {k}" ?h] n separated_Diff [OF Suc.prems(1)] by simp
  qed
  have "(\<Sum>i\<in>S. basis0 x iv S i * peval cs (x i))
      = (\<Sum>i\<in>S. basis0 x iv S i * peval cs (x k) + basis0 x iv S i * ((x i - x k) * peval ?h (x i)))"
    by (intro sum.cong refl) (subst peval_quot [of cs _ "x k"], simp add: distrib_left)
  also have "\<dots> = (\<Sum>i\<in>S. basis0 x iv S i) * peval cs (x k) + - x k * peval ?h 0"
    by (simp only: sum.distrib sum_distrib_right sum_basis0_step [OF Suc.prems(1) k] h)
  also have "\<dots> = peval cs 0"
    using sum_basis0 [OF Suc.prems(1,2)] peval_quot [of cs 0 "x k"] by simp
  finally show ?case .
qed

end
