(* ===== verification/Threshold.thy ===== *)
theory Threshold
  imports Bls_Fr Bls_G1 Poseidon Digest Interpolation
begin

text \<open>
  The threshold layer over G1: polynomials and Lagrange coefficients over the scalar field
  (\<open>src/include/hsma/threshold/poly.hpp\<close>), Feldman commitments (\<open>dkg.hpp\<close>), partial signatures
  (\<open>sig.hpp\<close>), hashing to the curve (\<open>h2g1.hpp\<close>) and the epoch beacon (\<open>beacon.hpp\<close>). A branch
  that ends the process is None. The sums of the Lagrange kernel are stated in the residue ring.
\<close>

subsection \<open>Polynomials and Lagrange coefficients\<close>

definition poly_eval :: "fr list \<Rightarrow> fr \<Rightarrow> fr" where
  "poly_eval c x =
     (if c = [] then fr_zero
      else foldr (\<lambda>ck acc. fr_add (fr_mul acc x) ck) (butlast c) (last c))"

text \<open>The row of index \<open>i\<close>: one inversion for every other point.\<close>

fun lz_row :: "fr list \<Rightarrow> nat \<Rightarrow> nat list \<Rightarrow> fr \<Rightarrow> fr option" where
  "lz_row xs i [] lam = Some lam"
| "lz_row xs i (j # js) lam =
     (if i = j then lz_row xs i js lam
      else let den = fr_sub (xs ! i) (xs ! j)
           in if fr_is_zero den then None
              else case fr_inv den of None \<Rightarrow> None
              | Some dinv \<Rightarrow> lz_row xs i js (fr_mul lam (fr_mul (fr_neg (xs ! j)) dinv)))"

definition lagrange_zero :: "fr list \<Rightarrow> fr list option" where
  "lagrange_zero xs =
     those (map (\<lambda>i. lz_row xs i [0..<length xs] fr_one) [0..<length xs])"

text \<open>The batch: numerators, denominators, prefix products, one inversion, and the walk back.\<close>

definition lz_num :: "fr list \<Rightarrow> nat \<Rightarrow> fr" where
  "lz_num xs i =
     foldl (\<lambda>l j. if i = j then l else fr_mul l (fr_neg (xs ! j))) fr_one [0..<length xs]"

fun lz_den :: "fr list \<Rightarrow> nat \<Rightarrow> nat list \<Rightarrow> fr \<Rightarrow> fr option" where
  "lz_den xs i [] d = Some d"
| "lz_den xs i (j # js) d =
     (if i = j then lz_den xs i js d
      else let e = fr_sub (xs ! i) (xs ! j)
           in if fr_is_zero e then None else lz_den xs i js (fr_mul d e))"

fun lz_prefix :: "fr \<Rightarrow> fr list \<Rightarrow> fr list \<times> fr" where
  "lz_prefix run [] = ([], run)"
| "lz_prefix run (d # ds) = (let (ps, t) = lz_prefix (fr_mul run d) ds in (run # ps, t))"

text \<open>The walk from the last index: \<open>run\<close> carries the inverse of the product of what is left.\<close>

fun lz_walk :: "(fr \<times> fr \<times> fr) list \<Rightarrow> fr \<Rightarrow> fr list \<Rightarrow> fr list" where
  "lz_walk [] run acc = acc"
| "lz_walk ((num, pre, den) # rest) run acc =
     lz_walk rest (fr_mul run den) (fr_mul num (fr_mul pre run) # acc)"

definition lagrange_zero_batch :: "fr list \<Rightarrow> fr list option" where
  "lagrange_zero_batch xs =
     (if xs = [] then Some []
      else let num = map (lz_num xs) [0..<length xs]
           in case those (map (\<lambda>i. lz_den xs i [0..<length xs] fr_one) [0..<length xs]) of
                None \<Rightarrow> None
              | Some den \<Rightarrow>
                let (pre, run) = lz_prefix fr_one den
                in case fr_inv run of None \<Rightarrow> None
                   | Some itot \<Rightarrow> Some (lz_walk (rev (zip num (zip pre den))) itot []))"

subsection \<open>Commitments and shares\<close>

definition dkg_commit :: "fr list \<Rightarrow> Pt list" where
  "dkg_commit p = map (\<lambda>a. Pmul gen (fr_to_fe6 a)) p"

definition share_for :: "fr list \<Rightarrow> u64 \<Rightarrow> fr option" where
  "share_for p j = map_option (poly_eval p) (fr_from_u64 j)"

text \<open>The right-hand side: the powers of the index are taken modulo the group order.\<close>

fun share_rhs :: "fr \<Rightarrow> fr \<Rightarrow> Pt \<Rightarrow> Pt list \<Rightarrow> Pt" where
  "share_rhs jx jk rhs [] = rhs"
| "share_rhs jx jk rhs (C # Cs) =
     share_rhs jx (fr_mul jk jx) (Padd rhs (Pmul C (fr_to_fe6 jk))) Cs"

definition dkg_verify_share :: "u64 \<Rightarrow> fr \<Rightarrow> Pt list \<Rightarrow> bool" where
  "dkg_verify_share j s_j C =
     (case fr_from_u64 j of None \<Rightarrow> False
      | Some jx \<Rightarrow>
        let lhs = Pmul gen (fr_to_fe6 s_j);
            rhs = share_rhs jx (the (fr_from_u64 1)) Pt0 C
        in case to_affine lhs of None \<Rightarrow> False
           | Some (xa, ya) \<Rightarrow>
             (case to_affine rhs of None \<Rightarrow> False
              | Some (xb, yb) \<Rightarrow> bn_cmp xa xb 6 = 0 \<and> bn_cmp ya yb 6 = 0))"

definition aggregate_pk :: "Pt list list \<Rightarrow> Pt" where
  "aggregate_pk cs = foldl (\<lambda>y c. if c \<noteq> [] then Padd y (c ! 0) else y) Pt0 cs"

subsection \<open>Signatures\<close>

definition sig_partial :: "fr \<Rightarrow> Pt \<Rightarrow> Pt" where
  "sig_partial S H = Pmul H (fr_to_fe6 S)"

definition sig_aggregate :: "fr list \<Rightarrow> Pt list \<Rightarrow> Pt" where
  "sig_aggregate lam parts =
     foldl (\<lambda>s i. Padd s (Pmul (parts ! i) (fr_to_fe6 (lam ! i)))) Pt0 [0..<length parts]"

subsection \<open>Hashing to the curve\<close>

definition h2g1_digest :: "bytes \<Rightarrow> nat \<Rightarrow> bytes" where
  "h2g1_digest m c =
     sha256 (ascii ''HSM_H2G1_v1'' @ le_bytes 4 (of_nat (length m) :: u64) @ m @ le_bytes 4 (of_nat c :: u32))"

text \<open>The four low limbs are the digest, read little endian; the two upper ones are zero.\<close>

definition h2g1_x :: "bytes \<Rightarrow> fe6" where
  "h2g1_x d = map (\<lambda>k. le_word (take 8 (drop (8 * k) d))) [0..<4] @ [0, 0]"

fun h2g1_loop :: "bytes \<Rightarrow> nat \<Rightarrow> nat \<Rightarrow> Pt option" where
  "h2g1_loop m 0 c = None"
| "h2g1_loop m (Suc n) c =
     (let Mx = mfrom QC (h2g1_x (h2g1_digest m c));
          rhsM = madd QC (mmul QC (mmul QC Mx Mx) Mx) (cxb CX)
      in if mpow QC rhsM (cxhalfq CX) \<noteq> cr1 QC then h2g1_loop m n (Suc c)
         else case tonelli_q (mto QC rhsM) of None \<Rightarrow> None
         | Some y \<Rightarrow>
           let y = if (y ! 0) AND 1 \<noteq> 0 then cneg y else y;
               P = Pmul \<lparr>px = Mx, py = mfrom QC y, pz = cr1 QC\<rparr> (cxh1 CX)
           in if PisInf P then h2g1_loop m n (Suc c) else Some P)"

definition hash_to_g1 :: "bytes \<Rightarrow> Pt option" where
  "hash_to_g1 m = h2g1_loop m 1024 0"

subsection \<open>The epoch beacon\<close>

record Committee =
  com_ids :: "u64 list"
  com_shares :: "fr list"

definition g1_serialize :: "Pt \<Rightarrow> bytes option" where
  "g1_serialize P =
     map_option (\<lambda>(x, y). concat (map (le_bytes 8) x) @ concat (map (le_bytes 8) y)) (to_affine P)"

definition beacon_preimage :: "u64 \<Rightarrow> Digest \<Rightarrow> bytes" where
  "beacon_preimage ep prev = ascii ''HSM_BEACON_V1'' @ le_bytes 8 ep @ to_bytes prev"

definition epoch_beacon :: "Committee \<Rightarrow> u64 \<Rightarrow> Digest \<Rightarrow> Digest option" where
  "epoch_beacon c ep prev =
     (case hash_to_g1 (beacon_preimage ep prev) of None \<Rightarrow> None
      | Some H \<Rightarrow>
        case those (map fr_from_u64 (com_ids c)) of None \<Rightarrow> None
        | Some xs \<Rightarrow>
          case lagrange_zero xs of None \<Rightarrow> None
          | Some lam \<Rightarrow>
            let parts = map (\<lambda>i. sig_partial (com_shares c ! i) H) [0..<length (com_ids c)];
                s = sig_aggregate lam parts
            in map_option sha256d (g1_serialize s))"

definition beacon_genesis :: "u64 \<Rightarrow> Committee \<Rightarrow> Digest option" where
  "beacon_genesis ep c = epoch_beacon c ep (from_bytes (replicate 32 0))"

subsection \<open>Horner's rule\<close>

lemma foldr_horner:
  "list_all fr_canon cs \<Longrightarrow> fr_canon a \<Longrightarrow> fr_canon x \<Longrightarrow>
    fr_canon (foldr (\<lambda>ck acc. fr_add (fr_mul acc x) ck) cs a)
    \<and> frk.dec (foldr (\<lambda>ck acc. fr_add (fr_mul acc x) ck) cs a)
      = (\<Sum>k<length cs. frk.dec (cs ! k) * frk.dec x ^ k) + frk.dec a * frk.dec x ^ length cs"
proof (induction cs)
  case (Cons c cs)
  then show ?case
    by (simp add: fr_dec_ops sum.lessThan_Suc_shift sum_distrib_right sum_distrib_left algebra_simps
        del: sum.lessThan_Suc)
qed simp

lemma poly_eval_dec:
  assumes "list_all fr_canon c" and "fr_canon x"
  shows "fr_canon (poly_eval c x) \<and> frk.dec (poly_eval c x) = (\<Sum>k<length c. frk.dec (c ! k) * frk.dec x ^ k)"
proof (cases "c = []")
  case True
  then show ?thesis by (simp add: poly_eval_def fr_dec_ops)
next
  case False
  then obtain cs a where c: "c = cs @ [a]" by (metis append_butlast_last_id)
  have "(\<Sum>k<length cs. frk.dec ((cs @ [a]) ! k) * frk.dec x ^ k) = (\<Sum>k<length cs. frk.dec (cs ! k) * frk.dec x ^ k)"
    by (intro sum.cong) (simp_all add: nth_append)
  then show ?thesis using foldr_horner [of cs a x] assms by (simp add: c poly_eval_def)
qed

subsection \<open>Both Lagrange kernels compute the same coefficients\<close>

text \<open>
  An inversion is the power \<open>r - 2\<close>. Where every difference satisfies Fermat's equation the two
  kernels agree; where two points coincide both refuse.
\<close>

definition fr_fermat :: "frr \<Rightarrow> bool" where
  "fr_fermat a \<longleftrightarrow> a ^ (bls_r - 1) = 1"

lemma fr_fermat_nz: "fr_fermat a \<Longrightarrow> a \<noteq> 0"
  by (auto simp: fr_fermat_def bls_r_def zero_power)

lemma fr_fermat_inv: "fr_fermat a \<Longrightarrow> a ^ (bls_r - 2) * a = 1"
proof -
  have "bls_r - 1 = Suc (bls_r - 2)" by (simp add: bls_r_def)
  then show "fr_fermat a \<Longrightarrow> a ^ (bls_r - 2) * a = 1" by (simp add: fr_fermat_def mult.commute)
qed

lemma fr_fermat_mult: "fr_fermat a \<Longrightarrow> fr_fermat b \<Longrightarrow> fr_fermat (a * b)"
  by (simp add: fr_fermat_def power_mult_distrib)

lemma fr_fermat_prod: "(\<And>x. x \<in> set xs \<Longrightarrow> fr_fermat x) \<Longrightarrow> fr_fermat (prod_list xs)"
  by (induction xs) (simp_all add: fr_fermat_mult, simp add: fr_fermat_def)

definition lz_others :: "nat \<Rightarrow> nat list \<Rightarrow> nat list" where
  "lz_others i js = filter (\<lambda>j. j \<noteq> i) js"

lemma lz_others_simps [simp]: "lz_others i [] = []"
  "lz_others i (j # js) = (if j = i then lz_others i js else j # lz_others i js)"
  by (simp_all add: lz_others_def)

lemma lz_row_dec:
  assumes "list_all fr_canon xs" and "i < length xs"
  shows "\<forall>j\<in>set js. j < length xs \<Longrightarrow> fr_canon l \<Longrightarrow>
    \<forall>j\<in>set (lz_others i js). fr_fermat (frk.dec (xs ! i) - frk.dec (xs ! j)) \<Longrightarrow>
    \<exists>y. lz_row xs i js l = Some y \<and> fr_canon y
      \<and> frk.dec y = frk.dec l * prod_list (map (\<lambda>j. - frk.dec (xs ! j) * (frk.dec (xs ! i) - frk.dec (xs ! j)) ^ (bls_r - 2)) (lz_others i js))"
proof (induction js arbitrary: l)
  case (Cons j js)
  show ?case
  proof (cases "i = j")
    case True
    then show ?thesis using Cons by simp
  next
    case False
    let ?d = "fr_sub (xs ! i) (xs ! j)"
    have c: "fr_canon (xs ! i)" "fr_canon (xs ! j)" using assms Cons.prems(1) by (simp_all add: list_all_length)
    have f: "fr_fermat (frk.dec ?d)" using Cons.prems(3) False c by (simp add: fr_dec_ops)
    have nz: "\<not> fr_is_zero ?d" using fr_fermat_nz [OF f] c by (simp add: fr_is_zero_dec)
    obtain y where y: "fr_inv ?d = Some y" "fr_canon y" "frk.dec y = frk.dec ?d ^ (bls_r - 2)"
      using fr_inv_Some [OF _ nz] c by auto
    let ?l = "fr_mul l (fr_mul (fr_neg (xs ! j)) y)"
    have l: "fr_canon ?l" "frk.dec ?l = frk.dec l * (- frk.dec (xs ! j) * (frk.dec (xs ! i) - frk.dec (xs ! j)) ^ (bls_r - 2))"
      using c y Cons.prems(2) by (simp_all add: fr_dec_ops fr_dec_neg)
    have "\<forall>j\<in>set js. j < length xs" "\<forall>j\<in>set (lz_others i js). fr_fermat (frk.dec (xs ! i) - frk.dec (xs ! j))"
      using Cons.prems False by auto
    from Cons.IH [OF this(1) l(1) this(2)] obtain z where
      "lz_row xs i js ?l = Some z" "fr_canon z"
      "frk.dec z = frk.dec ?l * prod_list (map (\<lambda>j. - frk.dec (xs ! j) * (frk.dec (xs ! i) - frk.dec (xs ! j)) ^ (bls_r - 2)) (lz_others i js))"
      by blast
    then show ?thesis using False nz y l(2) by (simp add: Let_def mult.assoc)
  qed
qed simp

lemma lz_den_dec:
  assumes "list_all fr_canon xs" and "i < length xs"
  shows "\<forall>j\<in>set js. j < length xs \<Longrightarrow> fr_canon d \<Longrightarrow>
    \<forall>j\<in>set (lz_others i js). fr_fermat (frk.dec (xs ! i) - frk.dec (xs ! j)) \<Longrightarrow>
    \<exists>y. lz_den xs i js d = Some y \<and> fr_canon y
      \<and> frk.dec y = frk.dec d * prod_list (map (\<lambda>j. frk.dec (xs ! i) - frk.dec (xs ! j)) (lz_others i js))"
proof (induction js arbitrary: d)
  case (Cons j js)
  show ?case
  proof (cases "i = j")
    case True
    then show ?thesis using Cons by simp
  next
    case False
    let ?d = "fr_sub (xs ! i) (xs ! j)"
    have c: "fr_canon (xs ! i)" "fr_canon (xs ! j)" using assms Cons.prems(1) by (simp_all add: list_all_length)
    have f: "fr_fermat (frk.dec ?d)" using Cons.prems(3) False c by (simp add: fr_dec_ops)
    have nz: "\<not> fr_is_zero ?d" using fr_fermat_nz [OF f] c by (simp add: fr_is_zero_dec)
    have l: "fr_canon (fr_mul d ?d)" "frk.dec (fr_mul d ?d) = frk.dec d * (frk.dec (xs ! i) - frk.dec (xs ! j))"
      using c Cons.prems(2) by (simp_all add: fr_dec_ops)
    have "\<forall>j\<in>set js. j < length xs" "\<forall>j\<in>set (lz_others i js). fr_fermat (frk.dec (xs ! i) - frk.dec (xs ! j))"
      using Cons.prems False by auto
    from Cons.IH [OF this(1) l(1) this(2)] show ?thesis using False nz l(2) by (auto simp: Let_def mult.assoc)
  qed
qed simp

lemma lz_num_dec:
  assumes "list_all fr_canon xs"
  shows "fr_canon (lz_num xs i) \<and> frk.dec (lz_num xs i) = prod_list (map (\<lambda>j. - frk.dec (xs ! j)) (lz_others i [0..<length xs]))"
proof -
  have "\<forall>j\<in>set js. j < length xs \<Longrightarrow> fr_canon l \<Longrightarrow>
    fr_canon (foldl (\<lambda>l j. if i = j then l else fr_mul l (fr_neg (xs ! j))) l js)
    \<and> frk.dec (foldl (\<lambda>l j. if i = j then l else fr_mul l (fr_neg (xs ! j))) l js)
      = frk.dec l * prod_list (map (\<lambda>j. - frk.dec (xs ! j)) (lz_others i js))" for js l
  proof (induction js arbitrary: l)
    case (Cons j js)
    have "fr_canon (xs ! j)" using assms Cons.prems by (simp add: list_all_length)
    then show ?case using Cons by (simp add: fr_dec_ops fr_dec_neg mult.assoc)
  qed simp
  from this [of "[0..<length xs]" fr_one] show ?thesis by (simp add: lz_num_def fr_dec_ops)
qed

lemma lz_prefix_dec:
  "list_all fr_canon ds \<Longrightarrow> fr_canon run \<Longrightarrow> lz_prefix run ds = (ps, t) \<Longrightarrow>
    length ps = length ds \<and> list_all fr_canon ps \<and> fr_canon t \<and> frk.dec t = frk.dec run * prod_list (map frk.dec ds)
    \<and> (\<forall>i<length ds. frk.dec (ps ! i) = frk.dec run * prod_list (map frk.dec (take i ds)))"
proof (induction run ds arbitrary: ps t rule: lz_prefix.induct)
  case (2 run d ds)
  obtain qs u where q: "lz_prefix (fr_mul run d) ds = (qs, u)" by fastforce
  have "length qs = length ds \<and> list_all fr_canon qs \<and> fr_canon u \<and> frk.dec u = frk.dec (fr_mul run d) * prod_list (map frk.dec ds)
    \<and> (\<forall>i<length ds. frk.dec (qs ! i) = frk.dec (fr_mul run d) * prod_list (map frk.dec (take i ds)))"
    using "2.prems" q by (intro "2.IH") simp_all
  then show ?case
    using "2.prems" q by (auto simp: fr_dec_ops mult.assoc nth_Cons take_Cons split: nat.splits)
qed simp

lemma lz_walk_dec:
  "\<forall>x\<in>set L. fr_canon (fst x) \<and> fr_canon (fst (snd x)) \<and> fr_canon (snd (snd x)) \<Longrightarrow> fr_canon run \<Longrightarrow>
    \<exists>ys. lz_walk (rev L) run acc = ys @ acc \<and> length ys = length L \<and> list_all fr_canon ys
      \<and> (\<forall>i<length L. frk.dec (ys ! i) = frk.dec (fst (L ! i)) * (frk.dec (fst (snd (L ! i)))
            * (frk.dec run * prod_list (map (\<lambda>x. frk.dec (snd (snd x))) (drop (Suc i) L)))))"
proof (induction L arbitrary: run acc rule: rev_induct)
  case (snoc x L)
  obtain a b c where x: "x = (a, b, c)" by (cases x) auto
  have c: "fr_canon a" "fr_canon b" "fr_canon c" using snoc.prems by (simp_all add: x)
  have "\<exists>ys. lz_walk (rev L) (fr_mul run c) (fr_mul a (fr_mul b run) # acc) = ys @ fr_mul a (fr_mul b run) # acc
      \<and> length ys = length L \<and> list_all fr_canon ys
      \<and> (\<forall>i<length L. frk.dec (ys ! i) = frk.dec (fst (L ! i)) * (frk.dec (fst (snd (L ! i)))
            * (frk.dec (fr_mul run c) * prod_list (map (\<lambda>x. frk.dec (snd (snd x))) (drop (Suc i) L)))))"
    using snoc.prems c by (intro snoc.IH) simp_all
  then obtain ys where ys: "lz_walk (rev L) (fr_mul run c) (fr_mul a (fr_mul b run) # acc) = ys @ fr_mul a (fr_mul b run) # acc"
    "length ys = length L" "list_all fr_canon ys"
    "\<And>i. i < length L \<Longrightarrow> frk.dec (ys ! i) = frk.dec (fst (L ! i)) * (frk.dec (fst (snd (L ! i)))
            * (frk.dec (fr_mul run c) * prod_list (map (\<lambda>x. frk.dec (snd (snd x))) (drop (Suc i) L))))"
    by blast
  have "frk.dec ((ys @ [fr_mul a (fr_mul b run)]) ! i) = frk.dec (fst ((L @ [x]) ! i)) * (frk.dec (fst (snd ((L @ [x]) ! i)))
            * (frk.dec run * prod_list (map (\<lambda>x. frk.dec (snd (snd x))) (drop (Suc i) (L @ [x])))))"
    if "i < length (L @ [x])" for i
  proof (cases "i < length L")
    case True
    then show ?thesis using ys c snoc.prems(2) by (simp add: nth_append x fr_dec_ops ac_simps)
  next
    case False
    then have "i = length L" using that by simp
    then show ?thesis using ys c snoc.prems(2) by (simp add: nth_append x fr_dec_ops)
  qed
  then show ?case using ys(1-3) c snoc.prems(2) x
    by (intro exI [of _ "ys @ [fr_mul a (fr_mul b run)]"]) simp
qed simp

lemma those_map_Some: "(\<And>i. i \<in> set is \<Longrightarrow> f i = Some (g i)) \<Longrightarrow> those (map f is) = Some (map g is)"
  by (induction "is") simp_all

lemma those_map_None: "i \<in> set is \<Longrightarrow> f i = None \<Longrightarrow> those (map f is) = None"
  by (induction "is") (auto split: option.splits)

lemma prod_list_split_nth:
  "i < length ds \<Longrightarrow> prod_list (map f ds) = (prod_list (map f (take i ds)) * f (ds ! i)) * prod_list (map f (drop (Suc i) ds))"
  for f :: "'a \<Rightarrow> 'r::comm_monoid_mult"
  by (subst id_take_nth_drop [of i ds]) (simp_all add: mult.assoc)

lemma prod_list_mult_power:
  "prod_list (map f ys) * prod_list (map g ys) ^ k = prod_list (map (\<lambda>j. f j * g j ^ k) ys)"
  for f :: "'a \<Rightarrow> 'r::comm_monoid_mult"
  by (induction ys) (simp_all add: power_mult_distrib ac_simps)

definition lz_coeff :: "fr list \<Rightarrow> nat \<Rightarrow> frr" where
  "lz_coeff xs i =
     prod_list (map (\<lambda>j. - frk.dec (xs ! j) * (frk.dec (xs ! i) - frk.dec (xs ! j)) ^ (bls_r - 2)) (lz_others i [0..<length xs]))"

definition distinct_points :: "fr list \<Rightarrow> bool" where
  "distinct_points xs \<longleftrightarrow> list_all fr_canon xs
     \<and> (\<forall>i<length xs. \<forall>j<length xs. i \<noteq> j \<longrightarrow> fr_fermat (frk.dec (xs ! i) - frk.dec (xs ! j)))"

lemma distinct_pointsD:
  assumes "distinct_points xs"
  shows "list_all fr_canon xs"
    and "i < length xs \<Longrightarrow> \<forall>j\<in>set (lz_others i [0..<length xs]). fr_fermat (frk.dec (xs ! i) - frk.dec (xs ! j))"
  using assms by (auto simp: distinct_points_def lz_others_def)

lemma lagrange_zero_dec:
  assumes "distinct_points xs"
  shows "\<exists>lam. lagrange_zero xs = Some lam \<and> length lam = length xs \<and> list_all fr_canon lam
    \<and> (\<forall>i<length xs. frk.dec (lam ! i) = lz_coeff xs i)"
proof -
  note D = distinct_pointsD [OF assms]
  have "\<exists>y. lz_row xs i [0..<length xs] fr_one = Some y \<and> fr_canon y \<and> frk.dec y = lz_coeff xs i" if "i < length xs" for i
    using lz_row_dec [OF D(1) that _ frk.c_one D(2) [OF that]] by (simp add: fr_dec_ops lz_coeff_def)
  then obtain g where g: "\<And>i. i < length xs \<Longrightarrow> lz_row xs i [0..<length xs] fr_one = Some (g i) \<and> fr_canon (g i) \<and> frk.dec (g i) = lz_coeff xs i"
    by metis
  have "lagrange_zero xs = Some (map g [0..<length xs])"
    unfolding lagrange_zero_def using g by (intro those_map_Some) simp
  then show ?thesis using g by (auto simp: list_all_length)
qed

lemma lagrange_zero_batch_dec:
  assumes "distinct_points xs"
  shows "\<exists>lam. lagrange_zero_batch xs = Some lam \<and> length lam = length xs \<and> list_all fr_canon lam
    \<and> (\<forall>i<length xs. frk.dec (lam ! i) = lz_coeff xs i)"
proof (cases "xs = []")
  case False
  note D = distinct_pointsD [OF assms]
  let ?n = "length xs" and ?den = "\<lambda>i. prod_list (map (\<lambda>j. frk.dec (xs ! i) - frk.dec (xs ! j)) (lz_others i [0..<length xs]))"
  have "\<exists>y. lz_den xs i [0..<?n] fr_one = Some y \<and> fr_canon y \<and> frk.dec y = ?den i" if "i < ?n" for i
    using lz_den_dec [OF D(1) that _ frk.c_one D(2) [OF that]] by (simp add: fr_dec_ops)
  then obtain g where g: "\<And>i. i < ?n \<Longrightarrow> lz_den xs i [0..<?n] fr_one = Some (g i) \<and> fr_canon (g i) \<and> frk.dec (g i) = ?den i"
    by metis
  define den where "den = map g [0..<?n]"
  have those: "those (map (\<lambda>i. lz_den xs i [0..<?n] fr_one) [0..<?n]) = Some den"
    unfolding den_def using g by (intro those_map_Some) simp
  have den: "length den = ?n" "list_all fr_canon den" "\<And>i. i < ?n \<Longrightarrow> frk.dec (den ! i) = ?den i"
    using g by (auto simp: den_def list_all_length)
  have fden: "fr_fermat (frk.dec (den ! i))" if "i < ?n" for i
    unfolding den(3) [OF that] using D(2) [OF that] by (intro fr_fermat_prod) auto
  obtain pre run where pr: "lz_prefix fr_one den = (pre, run)" by fastforce
  from lz_prefix_dec [OF den(2) frk.c_one pr] have pre: "length pre = ?n" "list_all fr_canon pre" "fr_canon run"
    "frk.dec run = prod_list (map frk.dec den)" "\<And>i. i < ?n \<Longrightarrow> frk.dec (pre ! i) = prod_list (map frk.dec (take i den))"
    using den(1) by (simp_all add: fr_dec_ops)
  have frun: "fr_fermat (frk.dec run)" unfolding pre(4)
  proof (rule fr_fermat_prod)
    fix x assume "x \<in> set (map frk.dec den)"
    then obtain i where "i < ?n" "x = frk.dec (den ! i)" using den(1) by (auto simp: in_set_conv_nth)
    then show "fr_fermat x" using fden by simp
  qed
  have "\<not> fr_is_zero run" using fr_fermat_nz [OF frun] pre(3) by (simp add: fr_is_zero_dec)
  from fr_inv_Some [OF pre(3) this] obtain itot where itot: "fr_inv run = Some itot" "fr_canon itot"
    "frk.dec itot = frk.dec run ^ (bls_r - 2)" by blast
  let ?num = "map (lz_num xs) [0..<?n]" and ?L = "zip (map (lz_num xs) [0..<?n]) (zip pre den)"
  have L: "length ?L = ?n" "\<And>i. i < ?n \<Longrightarrow> ?L ! i = (lz_num xs i, pre ! i, den ! i)"
    using pre(1) den(1) by simp_all
  have "\<forall>x\<in>set ?L. fr_canon (fst x) \<and> fr_canon (fst (snd x)) \<and> fr_canon (snd (snd x))"
    using L lz_num_dec [OF D(1)] pre(1,2) den(1,2) by (auto simp: in_set_conv_nth list_all_length)
  from lz_walk_dec [OF this itot(2), of "[]"] obtain ys where ys: "lz_walk (rev ?L) itot [] = ys" "length ys = ?n" "list_all fr_canon ys"
    "\<And>i. i < ?n \<Longrightarrow> frk.dec (ys ! i) = frk.dec (fst (?L ! i)) * (frk.dec (fst (snd (?L ! i)))
            * (frk.dec itot * prod_list (map (\<lambda>x. frk.dec (snd (snd x))) (drop (Suc i) ?L))))"
    unfolding L(1) by auto
  have dens: "map (\<lambda>x. frk.dec (snd (snd x))) (drop k ?L) = map frk.dec (drop k den)" for k
    using pre(1) den(1) by (intro nth_equalityI) simp_all
  have "frk.dec (ys ! i) = lz_coeff xs i" if i: "i < ?n" for i
  proof -
    let ?a = "prod_list (map frk.dec (take i den))" and ?b = "prod_list (map frk.dec (drop (Suc i) den))" and ?d = "frk.dec (den ! i)"
    have P: "frk.dec run = (?a * ?d) * ?b" unfolding pre(4) using i den(1) by (intro prod_list_split_nth) simp
    have u: "frk.dec run ^ (bls_r - 2) * frk.dec run = 1" by (rule fr_fermat_inv [OF frun])
    have v: "?d ^ (bls_r - 2) * ?d = 1" by (rule fr_fermat_inv [OF fden [OF i]])
    have "?a * (frk.dec run ^ (bls_r - 2) * ?b) = (frk.dec run ^ (bls_r - 2) * (?a * ?b)) * (?d ^ (bls_r - 2) * ?d)"
      unfolding v by (simp only: ac_simps mult_1_right mult_1_left)
    also have "\<dots> = (frk.dec run ^ (bls_r - 2) * ((?a * ?d) * ?b)) * ?d ^ (bls_r - 2)" by (simp only: ac_simps)
    also have "\<dots> = ?d ^ (bls_r - 2)" unfolding P [symmetric] u by simp
    finally have key: "?a * (frk.dec run ^ (bls_r - 2) * ?b) = ?d ^ (bls_r - 2)" .
    have "frk.dec (ys ! i) = frk.dec (lz_num xs i) * ?d ^ (bls_r - 2)"
      using ys(4) [OF i] unfolding L(2) [OF i] dens fst_conv snd_conv itot(3) pre(5) [OF i] key .
    also have "\<dots> = lz_coeff xs i"
      unfolding den(3) [OF i] lz_coeff_def conjunct2 [OF lz_num_dec [OF D(1)]]
      by (rule prod_list_mult_power)
    finally show ?thesis .
  qed
  moreover have "lagrange_zero_batch xs = Some ys"
    using False those pr itot(1) ys(1) by (simp add: lagrange_zero_batch_def Let_def)
  ultimately show ?thesis using ys(2,3) by auto
qed (simp add: lagrange_zero_batch_def)

lemma lagrange_kernels_agree:
  assumes "distinct_points xs"
  shows "lagrange_zero xs = lagrange_zero_batch xs" and "lagrange_zero xs \<noteq> None"
proof -
  obtain l where l: "lagrange_zero xs = Some l" "length l = length xs" "list_all fr_canon l" "\<And>i. i < length xs \<Longrightarrow> frk.dec (l ! i) = lz_coeff xs i"
    using lagrange_zero_dec [OF assms] by blast
  obtain m where m: "lagrange_zero_batch xs = Some m" "length m = length xs" "list_all fr_canon m" "\<And>i. i < length xs \<Longrightarrow> frk.dec (m ! i) = lz_coeff xs i"
    using lagrange_zero_batch_dec [OF assms] by blast
  have "l ! i = m ! i" if "i < length xs" for i
    using that l(2-4) m(2-4) by (intro frk.dec_inj) (simp_all add: list_all_length)
  then have "l = m" using l(2) m(2) nth_equalityI [of l m] by simp
  then show "lagrange_zero xs = lagrange_zero_batch xs" "lagrange_zero xs \<noteq> None" using l m by simp_all
qed

text \<open>A repeated point stops both kernels.\<close>

lemma lz_row_dup:
  "list_all fr_canon xs \<Longrightarrow> i < length xs \<Longrightarrow> k \<in> set js \<Longrightarrow> k \<noteq> i \<Longrightarrow> k < length xs \<Longrightarrow> xs ! i = xs ! k \<Longrightarrow> lz_row xs i js l = None"
proof (induction js arbitrary: l)
  case (Cons j js)
  have "fr_is_zero (fr_sub (xs ! i) (xs ! k))"
    using Cons.prems by (simp add: list_all_length fr_is_zero_dec fr_dec_ops)
  then show ?case using Cons by (auto simp: Let_def split: option.splits)
qed simp

lemma lz_den_dup:
  "list_all fr_canon xs \<Longrightarrow> i < length xs \<Longrightarrow> k \<in> set js \<Longrightarrow> k \<noteq> i \<Longrightarrow> k < length xs \<Longrightarrow> xs ! i = xs ! k \<Longrightarrow> lz_den xs i js d = None"
proof (induction js arbitrary: d)
  case (Cons j js)
  have "fr_is_zero (fr_sub (xs ! i) (xs ! k))"
    using Cons.prems by (simp add: list_all_length fr_is_zero_dec fr_dec_ops)
  then show ?case using Cons by (auto simp: Let_def)
qed simp

lemma lagrange_duplicates:
  assumes "list_all fr_canon xs" and "\<not> distinct xs"
  shows "lagrange_zero xs = None" and "lagrange_zero_batch xs = None"
proof -
  obtain i k where ik: "i < length xs" "k < length xs" "k \<noteq> i" "xs ! i = xs ! k"
    using assms(2) by (auto simp: distinct_conv_nth)
  have "lz_row xs i [0..<length xs] fr_one = None" "lz_den xs i [0..<length xs] fr_one = None"
    using lz_row_dup [OF assms(1) ik(1) _ ik(3,2,4)] lz_den_dup [OF assms(1) ik(1) _ ik(3,2,4)] ik(2) by simp_all
  then have "lagrange_zero xs = None" "those (map (\<lambda>i. lz_den xs i [0..<length xs] fr_one) [0..<length xs]) = None"
    unfolding lagrange_zero_def using ik(1) by (auto intro!: those_map_None [of i])
  then show "lagrange_zero xs = None" "lagrange_zero_batch xs = None"
    using ik(1) by (auto simp: lagrange_zero_batch_def)
qed

subsection \<open>A hashed point is on the curve\<close>

lemma cxb_dec: "fqk.dec (cxb CX) = 1" "q_canon (cxb CX)"
proof -
  have b: "cxb CX = mfrom QC (fe6_small 1)" by (simp add: CX_def fe6_small_def)
  show "fqk.dec (cxb CX) = 1" "q_canon (cxb CX)" unfolding b by (simp_all add: q_dec_from fe6_small_val)
qed

lemma h2g1_x_canon:
  assumes "length d = 32"
  shows "q_canon (h2g1_x d)"
proof -
  have "limbs_val (h2g1_x d) < 2 ^ 256"
    using limbs_val_lt [of "map (\<lambda>k. le_word (take 8 (drop (8 * k) d))) [0..<4]"]
    by (simp add: h2g1_x_def limbs_val_append)
  then show ?thesis by (simp add: q_canon_def h2g1_x_def bls_q_def)
qed

lemma cneg_root:
  assumes y: "q_canon y" and odd: "y ! 0 AND 1 \<noteq> 0"
  shows "q_canon (cneg y)" and "fqk.dec (mfrom QC (cneg y)) ^ 2 = fqk.dec (mfrom QC y) ^ 2"
proof -
  obtain a as where ya: "y = a # as" using y by (cases y) (simp_all add: q_canon_def)
  then have pos: "0 < limbs_val y" using odd by (cases "a = 0") (auto simp: unat_gt_0)
  have len: "length y = 6" and lt: "limbs_val y < bls_q" using y by (simp_all add: q_canon_def)
  have v: "limbs_val (cneg y) = bls_q - limbs_val y" "length (cneg y) = 6"
    unfolding cneg_def using bn_sub_exact [of Q_MOD y] len lt by (simp_all add: Q_MOD_val)
  then show c: "q_canon (cneg y)" using pos lt by (simp add: q_canon_def)
  have "(of_nat (limbs_val (cneg y)) :: fq) + of_nat (limbs_val y) = of_nat bls_q"
    using v lt by (simp flip: of_nat_add)
  also have "\<dots> = 0" using of_nat_fq [of bls_q 0] by simp
  finally have "(of_nat (limbs_val (cneg y)) :: fq) = - of_nat (limbs_val y)" by (simp add: eq_neg_iff_add_eq_0)
  then show "fqk.dec (mfrom QC (cneg y)) ^ 2 = fqk.dec (mfrom QC y) ^ 2" using c y by (simp add: q_dec_from)
qed

lemma h2g1_loop_on:
  "h2g1_loop m n c = Some P \<Longrightarrow> g1_on P \<and> \<not> PisInf P"
proof (induction m n c rule: h2g1_loop.induct)
  case (2 m n c)
  define Mx where "Mx = mfrom QC (h2g1_x (h2g1_digest m c))"
  define rhs where "rhs = madd QC (mmul QC (mmul QC Mx Mx) Mx) (cxb CX)"
  have Mx: "q_canon Mx" unfolding Mx_def by (intro q_canon_from h2g1_x_canon) (simp add: h2g1_digest_def)
  have rhs: "q_canon rhs" "fqk.dec rhs = fqk.dec Mx ^ 3 + 1"
    using Mx cxb_dec by (simp_all add: rhs_def q_dec_ops power3_eq_cube)
  note eq = h2g1_loop.simps(2) [of m n c, unfolded Let_def, folded Mx_def, folded rhs_def]
  show ?case
  proof (cases "mpow QC rhs (cxhalfq CX) \<noteq> cr1 QC \<or> tonelli_q (mto QC rhs) = None")
    case True
    then show ?thesis using 2 by (auto simp: eq Mx_def rhs_def Let_def split: if_splits)
  next
    case False
    then obtain y where y: "tonelli_q (mto QC rhs) = Some y" and gate: "mpow QC rhs (cxhalfq CX) = cr1 QC" by auto
    define y' where "y' = (if y ! 0 AND 1 \<noteq> 0 then cneg y else y)"
    define T where "T = \<lparr>px = Mx, py = mfrom QC y', pz = cr1 QC\<rparr>"
    have root: "q_canon y" "(limbs_val y * limbs_val y) mod bls_q = limbs_val (mto QC rhs)"
      using tonelli_q_root [OF _ y] rhs by simp_all
    then have "(of_nat (limbs_val y * limbs_val y) :: fq) = of_nat (limbs_val (mto QC rhs))"
      unfolding of_nat_fq by (metis mod_mod_trivial)
    then have sq: "fqk.dec (mfrom QC y) ^ 2 = fqk.dec Mx ^ 3 + 1"
      using root(1) rhs by (simp add: q_dec_from q_val_to power2_eq_square)
    have "q_canon y'" "fqk.dec (mfrom QC y') ^ 2 = fqk.dec Mx ^ 3 + 1"
      using root(1) sq cneg_root [of y] by (simp_all add: y'_def)
    then have "g1_on T" using Mx fqk.c_one fqk.dec_one by (simp add: g1_on_def T_def)
    then have on: "g1_on (Pmul T (cxh1 CX))" by (rule Pmul_on)
    have step: "h2g1_loop m (Suc n) c
      = (if PisInf (Pmul T (cxh1 CX)) then h2g1_loop m n (Suc c) else Some (Pmul T (cxh1 CX)))"
      using y gate unfolding eq by (simp add: T_def y'_def del: h2g1_loop.simps)
    show ?thesis
    proof (cases "PisInf (Pmul T (cxh1 CX))")
      case True
      then show ?thesis using 2 step y gate unfolding Mx_def rhs_def T_def y'_def by (auto simp: Let_def)
    next
      case False
      then show ?thesis using 2(3) step on by auto
    qed
  qed
qed simp

lemma hash_to_g1_on: "hash_to_g1 m = Some P \<Longrightarrow> g1_on P \<and> \<not> PisInf P"
  unfolding hash_to_g1_def by (rule h2g1_loop_on)

subsection \<open>A threshold of shares gives the secret\<close>

lemma poly_eval_peval:
  assumes "list_all fr_canon c" and "fr_canon x"
  shows "frk.dec (poly_eval c x) = peval (map frk.dec c) (frk.dec x)"
  using poly_eval_dec [OF assms] by (simp add: peval_sum)

lemma lz_coeff_basis:
  assumes "i < length xs"
  shows "lz_coeff xs i = basis0 (\<lambda>i. frk.dec (xs ! i)) (\<lambda>d. d ^ (bls_r - 2)) {..<length xs} i"
proof -
  have "set (lz_others i [0..<length xs]) = {..<length xs} - {i}" "distinct (lz_others i [0..<length xs])"
    by (auto simp: lz_others_def)
  then show ?thesis
    by (simp add: lz_coeff_def basis0_def prod.distinct_set_conv_list flip: prod.distinct_set_conv_list)
qed

lemma distinct_points_separated:
  "distinct_points xs \<Longrightarrow> separated (\<lambda>i. frk.dec (xs ! i)) (\<lambda>d. d ^ (bls_r - 2)) {..<length xs}"
  by (auto simp: distinct_points_def separated_def fr_fermat_inv)

lemma fr_foldl_sum:
  "\<forall>i\<in>set is. fr_canon (f i) \<Longrightarrow> fr_canon a \<Longrightarrow>
    fr_canon (foldl (\<lambda>s i. fr_add s (f i)) a is)
    \<and> frk.dec (foldl (\<lambda>s i. fr_add s (f i)) a is) = frk.dec a + sum_list (map (\<lambda>i. frk.dec (f i)) is)"
  by (induction "is" arbitrary: a) (simp_all add: fr_dec_ops algebra_simps)

lemma lagrange_reconstructs:
  assumes xs: "distinct_points xs" and ne: "xs \<noteq> []" and c: "list_all fr_canon c" "c \<noteq> []" "length c \<le> length xs"
  shows "\<exists>lam. lagrange_zero_batch xs = Some lam \<and>
    foldl (\<lambda>s i. fr_add s (fr_mul (lam ! i) (poly_eval c (xs ! i)))) fr_zero [0..<length xs] = c ! 0"
proof -
  let ?x = "\<lambda>i. frk.dec (xs ! i)" and ?cs = "map frk.dec c"
  obtain lam where lam: "lagrange_zero_batch xs = Some lam" "list_all fr_canon lam" "length lam = length xs"
    "\<And>i. i < length xs \<Longrightarrow> frk.dec (lam ! i) = lz_coeff xs i"
    using lagrange_zero_batch_dec [OF xs] by blast
  let ?t = "\<lambda>i. fr_mul (lam ! i) (poly_eval c (xs ! i))"
  have t: "fr_canon (?t i) \<and> frk.dec (?t i) = basis0 ?x (\<lambda>d. d ^ (bls_r - 2)) {..<length xs} i * peval ?cs (?x i)"
    if "i < length xs" for i
    using that lam distinct_pointsD(1) [OF xs] c(1)
    by (simp add: list_all_length fr_dec_ops poly_eval_peval poly_eval_dec lz_coeff_basis)
  have f: "fr_canon (foldl (\<lambda>s i. fr_add s (?t i)) fr_zero [0..<length xs])
      \<and> frk.dec (foldl (\<lambda>s i. fr_add s (?t i)) fr_zero [0..<length xs]) = sum_list (map (\<lambda>i. frk.dec (?t i)) [0..<length xs])"
    using fr_foldl_sum [of "[0..<length xs]" ?t fr_zero] t by (simp add: fr_dec_ops)
  have "sum_list (map (\<lambda>i. frk.dec (?t i)) [0..<length xs])
      = (\<Sum>i<length xs. basis0 ?x (\<lambda>d. d ^ (bls_r - 2)) {..<length xs} i * peval ?cs (?x i))"
    using t by (simp add: sum_list_sum_nth lessThan_atLeast0)
  also have "\<dots> = peval ?cs 0"
    using ne c by (intro interpolate_zero distinct_points_separated [OF xs]) auto
  also have "\<dots> = frk.dec (c ! 0)" using c(2) by (cases c) simp_all
  finally have "foldl (\<lambda>s i. fr_add s (?t i)) fr_zero [0..<length xs] = c ! 0"
    using f c by (intro frk.dec_inj) (simp_all add: list_all_length)
  then show ?thesis using lam(1) by blast
qed

text \<open>The points one and two: their differences are units without any assumption.\<close>

lemma fr_u64_point: "fr_canon (the (fr_from_u64 v))" "frk.dec (the (fr_from_u64 v)) = of_nat (unat v)"
  using fr_from_u64_Some [of v] by auto

lemma two_points: "distinct_points [the (fr_from_u64 1), the (fr_from_u64 2)]"
proof -
  have e: "even (bls_r - 1)" by (simp add: bls_r_def)
  have "(1 - 2 :: frr) = - 1" "(2 - 1 :: frr) = 1" by simp_all
  then have "fr_fermat (1 - 2)" "fr_fermat (2 - 1)" using e by (simp_all only: fr_fermat_def power_one uminus_power_if if_True)
  then show ?thesis by (auto simp: distinct_points_def fr_u64_point less_Suc_eq nth_Cons' simp del: diff_numeral_simps)
qed

end
