(* ===== verification/Bls_G2.thy ===== *)
theory Bls_G2
  imports Bls_G1
begin

text \<open>
  The quadratic extension \<open>src/include/hsma/threshold/fq2.hpp\<close> and the twist G2 of
  \<open>src/include/hsma/threshold/g2.hpp\<close>, with the constants of \<open>src/generated/bls_g2_params_gen.hpp\<close>.
  The extension is interpreted in the ring \<open>fq q2\<close>, so the chord and tangent identities of the
  curve G1 serve here again.
\<close>

subsection \<open>The quadratic extension\<close>

record Fq2 =
  f2c0 :: fe6
  f2c1 :: fe6

definition Fq2_0 :: Fq2 where
  "Fq2_0 = \<lparr>f2c0 = bn_clr 6, f2c1 = bn_clr 6\<rparr>"

definition fq2_add :: "MCtx \<Rightarrow> Fq2 \<Rightarrow> Fq2 \<Rightarrow> Fq2" where
  "fq2_add Q a b = \<lparr>f2c0 = madd Q (f2c0 a) (f2c0 b), f2c1 = madd Q (f2c1 a) (f2c1 b)\<rparr>"

definition fq2_sub :: "MCtx \<Rightarrow> Fq2 \<Rightarrow> Fq2 \<Rightarrow> Fq2" where
  "fq2_sub Q a b = \<lparr>f2c0 = msub Q (f2c0 a) (f2c0 b), f2c1 = msub Q (f2c1 a) (f2c1 b)\<rparr>"

definition fq2_neg :: "MCtx \<Rightarrow> Fq2 \<Rightarrow> Fq2" where
  "fq2_neg Q a = (let z = bn_clr 6 in \<lparr>f2c0 = msub Q z (f2c0 a), f2c1 = msub Q z (f2c1 a)\<rparr>)"

definition fq2_mul :: "MCtx \<Rightarrow> Fq2 \<Rightarrow> Fq2 \<Rightarrow> fe6 \<Rightarrow> Fq2" where
  "fq2_mul Q a b beta_m =
     (let t0 = mmul Q (f2c0 a) (f2c0 b);
          t1 = mmul Q (f2c1 a) (f2c1 b);
          t2 = mmul Q (f2c0 a) (f2c1 b);
          t3 = mmul Q (f2c1 a) (f2c0 b);
          bt1 = mmul Q beta_m t1
      in \<lparr>f2c0 = madd Q t0 bt1, f2c1 = madd Q t2 t3\<rparr>)"

definition fq2_sqr :: "MCtx \<Rightarrow> Fq2 \<Rightarrow> fe6 \<Rightarrow> Fq2" where
  "fq2_sqr Q a beta_m = fq2_mul Q a a beta_m"

text \<open>The overload without a context subtracts in a context whose modulus is zero.\<close>

definition MCtx0 :: MCtx where
  "MCtx0 = \<lparr>cm = bn_clr 6, cn0 = 0, cr1 = bn_clr 6, crr = bn_clr 6\<rparr>"

definition fq2_conj_noctx :: "Fq2 \<Rightarrow> Fq2" where
  "fq2_conj_noctx a =
     a\<lparr>f2c1 := if bn_isz (f2c1 a) then f2c1 a else msub MCtx0 (bn_clr 6) (f2c1 a)\<rparr>"

definition fq2_conj :: "MCtx \<Rightarrow> Fq2 \<Rightarrow> Fq2" where
  "fq2_conj Q a = \<lparr>f2c0 = f2c0 a, f2c1 = msub Q (bn_clr 6) (f2c1 a)\<rparr>"

definition fq2_norm :: "MCtx \<Rightarrow> Fq2 \<Rightarrow> fe6 \<Rightarrow> fe6" where
  "fq2_norm Q a beta_m =
     (let c0s = mmul Q (f2c0 a) (f2c0 a);
          c1s = mmul Q (f2c1 a) (f2c1 a);
          bc1s = mmul Q beta_m c1s
      in msub Q c0s bc1s)"

definition fq2_inv :: "MCtx \<Rightarrow> Fq2 \<Rightarrow> fe6 \<Rightarrow> Fq2" where
  "fq2_inv Q a beta_m =
     (let n = fq2_norm Q a beta_m;
          ni = mpow Q n (cxm2 CX);
          c = fq2_conj Q a
      in \<lparr>f2c0 = mmul Q (f2c0 c) ni, f2c1 = mmul Q (f2c1 c) ni\<rparr>)"

definition fq2_eq :: "Fq2 \<Rightarrow> Fq2 \<Rightarrow> bool" where
  "fq2_eq a b \<longleftrightarrow> bn_cmp (f2c0 a) (f2c0 b) 6 = 0 \<and> bn_cmp (f2c1 a) (f2c1 b) 6 = 0"

definition fq2_is_zero :: "Fq2 \<Rightarrow> bool" where
  "fq2_is_zero a \<longleftrightarrow> bn_isz (f2c0 a) \<and> bn_isz (f2c1 a)"

definition fq2_from_canon :: "MCtx \<Rightarrow> fe6 \<Rightarrow> fe6 \<Rightarrow> Fq2" where
  "fq2_from_canon Q c0 c1 = \<lparr>f2c0 = mfrom Q c0, f2c1 = mfrom Q c1\<rparr>"

subsection \<open>Constants and context of the twist\<close>

definition G2_BETA :: fe6 where
  "G2_BETA = [5, 0, 0,
    0, 0, 0]"

definition G2_B2_C0 :: fe6 where
  "G2_B2_C0 = [5, 0, 0,
    0, 0, 0]"

definition G2_B2_C1 :: fe6 where
  "G2_B2_C1 = [1, 0, 0,
    0, 0, 0]"

definition G2_GEN_X_C0 :: fe6 where
  "G2_GEN_X_C0 = [4748076514743245047, 9598058816562512602, 8983127452620433325,
    14550712927029457701, 3948714256048817667, 88019738524067396]"

definition G2_GEN_X_C1 :: fe6 where
  "G2_GEN_X_C1 = [15385385559340619326, 6571359816262611964, 4254307724943270806,
    7286056882521165718, 3052932565929928545, 101530747580398646]"

definition G2_GEN_Y_C0 :: fe6 where
  "G2_GEN_Y_C0 = [8123566352333831307, 16526339052207203803, 8291598677056804196,
    2639327972931079293, 7270691077163603748, 32722365686039431]"

definition G2_GEN_Y_C1 :: fe6 where
  "G2_GEN_Y_C1 = [16864451060622449991, 189035235188341685, 14398694109953966703,
    7139793524645828103, 17258929826158774479, 113395363041565099]"

record G2Ctx =
  beta_m :: fe6
  b2 :: Fq2
  gen_x :: Fq2
  gen_y :: Fq2

definition g2_ctx :: G2Ctx where
  "g2_ctx = \<lparr>beta_m = mfrom QC G2_BETA,
     b2 = \<lparr>f2c0 = mfrom QC G2_B2_C0, f2c1 = mfrom QC G2_B2_C1\<rparr>,
     gen_x = \<lparr>f2c0 = mfrom QC G2_GEN_X_C0, f2c1 = mfrom QC G2_GEN_X_C1\<rparr>,
     gen_y = \<lparr>f2c0 = mfrom QC G2_GEN_Y_C0, f2c1 = mfrom QC G2_GEN_Y_C1\<rparr>\<rparr>"

definition fa :: "Fq2 \<Rightarrow> Fq2 \<Rightarrow> Fq2" where
  "fa a b = fq2_add QC a b"

definition fs :: "Fq2 \<Rightarrow> Fq2 \<Rightarrow> Fq2" where
  "fs a b = fq2_sub QC a b"

definition fm :: "Fq2 \<Rightarrow> Fq2 \<Rightarrow> Fq2" where
  "fm a b = fq2_mul QC a b (beta_m g2_ctx)"

definition fsq :: "Fq2 \<Rightarrow> Fq2" where
  "fsq a = fq2_sqr QC a (beta_m g2_ctx)"

definition finv :: "Fq2 \<Rightarrow> Fq2" where
  "finv a = fq2_inv QC a (beta_m g2_ctx)"

definition fneg :: "Fq2 \<Rightarrow> Fq2" where
  "fneg a = fq2_neg QC a"

subsection \<open>Jacobian points of the twist\<close>

record G2Pt =
  gx :: Fq2
  gy :: Fq2
  gz :: Fq2

definition G2Pt0 :: G2Pt where
  "G2Pt0 = \<lparr>gx = Fq2_0, gy = Fq2_0, gz = Fq2_0\<rparr>"

definition G2_PisInf :: "G2Pt \<Rightarrow> bool" where
  "G2_PisInf P = fq2_is_zero (gz P)"

definition G2_Pdbl :: "G2Pt \<Rightarrow> G2Pt" where
  "G2_Pdbl P =
     (if G2_PisInf P \<or> fq2_is_zero (gy P) then G2Pt0
      else let A = fsq (gx P);
               B = fsq (gy P);
               C = fsq B;
               XB = fa (gx P) B;
               D = fsq XB;
               D = fs D A;
               D = fs D C;
               D = fa D D;
               E = fa (fa A A) A;
               X3 = fs (fsq E) (fa D D);
               C2 = fa C C;
               C4 = fa C2 C2;
               C8 = fa C4 C4;
               Y3 = fs (fm E (fs D X3)) C8;
               Z3 = fm (fa (gy P) (gy P)) (gz P)
           in \<lparr>gx = X3, gy = Y3, gz = Z3\<rparr>)"

definition G2_Padd :: "G2Pt \<Rightarrow> G2Pt \<Rightarrow> G2Pt" where
  "G2_Padd P Q =
     (if G2_PisInf P then Q
      else if G2_PisInf Q then P
      else let Z1s = fsq (gz P);
               Z2s = fsq (gz Q);
               U1 = fm (gx P) Z2s;
               U2 = fm (gx Q) Z1s;
               S1 = fm (fm (gy P) Z2s) (gz Q);
               S2 = fm (fm (gy Q) Z1s) (gz P)
           in if fq2_eq U1 U2 then (if fq2_eq S1 S2 then G2_Pdbl P else G2Pt0)
              else let H = fs U2 U1;
                       HH = fsq H;
                       I = fa HH HH;
                       I = fa I I;
                       J = fm H I;
                       rr = fs S2 S1;
                       rr = fa rr rr;
                       V = fm U1 I;
                       X3 = fs (fs (fsq rr) J) (fa V V);
                       SJ = fa (fm S1 J) (fm S1 J);
                       Y3 = fs (fm rr (fs V X3)) SJ;
                       two = \<lparr>f2c0 = madd QC (cr1 QC) (cr1 QC), f2c1 = bn_clr 6\<rparr>;
                       Z3 = fm (fm (fm (gz P) (gz Q)) H) two
                   in \<lparr>gx = X3, gy = Y3, gz = Z3\<rparr>)"

definition G2_Pmul :: "G2Pt \<Rightarrow> fe6 \<Rightarrow> G2Pt" where
  "G2_Pmul P k =
     (let bl = bitlen k
      in if bl = 0 then G2Pt0
         else foldl (\<lambda>r b. let r = G2_Pdbl r in if b then G2_Padd r P else r) G2Pt0 (pmul_bits k bl))"

definition G2_from_affine :: "fe6 \<Rightarrow> fe6 \<Rightarrow> fe6 \<Rightarrow> fe6 \<Rightarrow> G2Pt" where
  "G2_from_affine xa xb ya yb =
     \<lparr>gx = fq2_from_canon QC xa xb, gy = fq2_from_canon QC ya yb,
      gz = \<lparr>f2c0 = cr1 QC, f2c1 = bn_clr 6\<rparr>\<rparr>"

definition G2_to_affine :: "G2Pt \<Rightarrow> (fe6 \<times> fe6 \<times> fe6 \<times> fe6) option" where
  "G2_to_affine P =
     (if G2_PisInf P then None
      else let zi = finv (gz P);
               z2 = fsq zi;
               z3 = fm z2 zi;
               x = fm (gx P) z2;
               y = fm (gy P) z3
           in Some (mto QC (f2c0 x), mto QC (f2c1 x), mto QC (f2c0 y), mto QC (f2c1 y)))"

definition G2_gen :: G2Pt where
  "G2_gen = G2_from_affine G2_GEN_X_C0 G2_GEN_X_C1 G2_GEN_Y_C0 G2_GEN_Y_C1"

definition G2_on_curve_aff :: "fe6 \<Rightarrow> fe6 \<Rightarrow> fe6 \<Rightarrow> fe6 \<Rightarrow> bool" where
  "G2_on_curve_aff xa xb ya yb =
     (let x = fq2_from_canon QC xa xb;
          y = fq2_from_canon QC ya yb;
          lhs = fsq y;
          x3 = fm (fsq x) x;
          rhs = fa x3 (b2 g2_ctx)
      in fq2_eq lhs rhs)"

subsection \<open>The extension as a kernel\<close>

definition q2_canon :: "Fq2 \<Rightarrow> bool" where
  "q2_canon a \<longleftrightarrow> q_canon (f2c0 a) \<and> q_canon (f2c1 a)"

definition q2_dec :: "Fq2 \<Rightarrow> fq q2" where
  "q2_dec a = Q2 (fqk.dec (f2c0 a)) (fqk.dec (f2c1 a))"

definition Fq2_1 :: Fq2 where
  "Fq2_1 = \<lparr>f2c0 = cr1 QC, f2c1 = bn_clr 6\<rparr>"

lemma beta_m: "q_canon (beta_m g2_ctx)" "fqk.dec (beta_m g2_ctx) = 5"
proof -
  have b: "G2_BETA = fe6_small 5" by (simp add: G2_BETA_def fe6_small_def bn_clr_def eval_nat_numeral)
  show "q_canon (beta_m g2_ctx)" "fqk.dec (beta_m g2_ctx) = 5"
    unfolding g2_ctx_def b by (simp_all add: fe6_small_val q_dec_from)
qed

lemmas f2_defs = fa_def fs_def fm_def fsq_def fq2_sqr_def fq2_add_def fq2_sub_def fq2_mul_def Let_def

interpretation f2k: field_kernel q2_canon q2_dec fa fs fm Fq2_0 Fq2_1
proof unfold_locales
  show "q2_canon Fq2_0" "q2_canon Fq2_1" by (simp_all add: q2_canon_def Fq2_0_def Fq2_1_def del: cm_QC)
  show "q2_dec Fq2_0 = 0" "q2_dec Fq2_1 = 1"
    by (simp_all add: q2_dec_def Fq2_0_def Fq2_1_def q2_ops q_dec_ops del: cm_QC)
  fix a b
  assume "q2_canon a" "q2_canon b"
  then have c: "q_canon (f2c0 a)" "q_canon (f2c1 a)" "q_canon (f2c0 b)" "q_canon (f2c1 b)"
    by (simp_all add: q2_canon_def)
  show "q2_canon (fa a b)" "q2_canon (fs a b)" "q2_canon (fm a b)"
    using c beta_m by (simp_all add: q2_canon_def f2_defs)
  show "q2_dec (fa a b) = q2_dec a + q2_dec b" "q2_dec (fs a b) = q2_dec a - q2_dec b"
    "q2_dec (fm a b) = q2_dec a * q2_dec b"
    using c beta_m by (simp_all add: q2_dec_def f2_defs q2_ops q_dec_ops)
  assume "q2_dec a = q2_dec b"
  then have "f2c0 a = f2c0 b" "f2c1 a = f2c1 b"
    using c by (simp_all add: q2_dec_def fqk.dec_eq_iff)
  then show "a = b" by simp
qed

lemmas f2_dec_ops [dec_simps] = f2k.dec_zero f2k.dec_one f2k.dec_add f2k.dec_sub f2k.dec_mul
lemmas f2_canon_ops [simp, intro] = f2k.canon_zero f2k.canon_one f2k.canon_add f2k.canon_sub f2k.canon_mul

lemma fsq_fm: "fsq a = fm a a"
  by (simp add: fsq_def fm_def fq2_sqr_def)

lemma fq2_eq_iff: "q2_canon a \<Longrightarrow> q2_canon b \<Longrightarrow> fq2_eq a b \<longleftrightarrow> a = b"
  by (auto simp: fq2_eq_def bn_cmp_eq q2_canon_def q_canon_def intro!: Fq2.equality nth_equalityI)

text \<open>The inverse is the conjugate over the norm, wherever the norm satisfies Fermat's equation.\<close>

lemma fq2_norm_dec:
  assumes "q2_canon a"
  shows "q_canon (fq2_norm QC a (beta_m g2_ctx))"
    and "fqk.dec (fq2_norm QC a (beta_m g2_ctx)) = re (q2_dec a) ^ 2 - 5 * im (q2_dec a) ^ 2"
  using assms beta_m by (simp_all add: fq2_norm_def Let_def q2_canon_def q2_dec_def q_dec_ops power2_eq_square)

lemma finv_dec:
  assumes a: "q2_canon a" and fermat: "fqk.dec (fq2_norm QC a (beta_m g2_ctx)) ^ (bls_q - 1) = 1"
  shows "q2_canon (finv a) \<and> q2_dec a * q2_dec (finv a) = 1"
proof -
  let ?n = "fq2_norm QC a (beta_m g2_ctx)"
  note n = fq2_norm_dec [OF a]
  have e: "limbs_val (cxm2 CX) = bls_q - 2" by (simp add: CX_def Q_M2_def bls_q_def)
  let ?ni = "mpow QC ?n (cxm2 CX)"
  define w where "w = fqk.dec ?n ^ (bls_q - 2)"
  have ni: "q_canon ?ni" "fqk.dec ?ni = w" using mpow_canon_dec [OF n(1), of "cxm2 CX"] by (simp_all add: e w_def)
  have "bls_q - 1 = Suc (bls_q - 2)" by (simp add: bls_q_def)
  then have w: "w * (re (q2_dec a) ^ 2 - 5 * im (q2_dec a) ^ 2) = 1"
    using fermat unfolding n(2) by (simp add: w_def n(2) mult.commute)
  have c: "q_canon (f2c0 a)" "q_canon (f2c1 a)" using a by (simp_all add: q2_canon_def)
  have f: "finv a = \<lparr>f2c0 = mmul QC (f2c0 a) ?ni, f2c1 = mmul QC (msub QC (bn_clr 6) (f2c1 a)) ?ni\<rparr>"
    by (simp add: finv_def fq2_inv_def fq2_conj_def Let_def)
  have "q2_canon (finv a)" unfolding f using c ni by (simp add: q2_canon_def)
  moreover have d: "q2_dec (finv a) = Q2 (re (q2_dec a) * w) (- im (q2_dec a) * w)"
    unfolding f using c ni by (simp add: q2_dec_def q_dec_ops)
  have "q2_dec a * q2_dec (finv a) = Q2 (w * (re (q2_dec a) ^ 2 - 5 * im (q2_dec a) ^ 2)) 0"
    unfolding d by (simp add: q2_ops ring_norm)
  ultimately show ?thesis by (simp add: w q2_ops)
qed

subsection \<open>The curve equation\<close>

definition g2_on :: "G2Pt \<Rightarrow> bool" where
  "g2_on P \<longleftrightarrow> q2_canon (gx P) \<and> q2_canon (gy P) \<and> q2_canon (gz P)
     \<and> q2_dec (gy P) ^ 2 = q2_dec (gx P) ^ 3 + gam * q2_dec (gz P) ^ 6"

lemma g2_onD:
  assumes "g2_on P"
  shows "q2_canon (gx P)" "q2_canon (gy P)" "q2_canon (gz P)"
    "q2_dec (gy P) ^ 2 = q2_dec (gx P) ^ 3 + gam * q2_dec (gz P) ^ 6"
  using assms by (simp_all add: g2_on_def)

lemma g2_on_G2Pt0 [simp]: "g2_on G2Pt0"
  by (simp add: g2_on_def G2Pt0_def f2_dec_ops)

lemma G2_Pdbl_on: "g2_on P \<Longrightarrow> g2_on (G2_Pdbl P)"
proof (cases "G2_PisInf P \<or> fq2_is_zero (gy P)")
  case False
  assume P: "g2_on P"
  note c = g2_onD(1-3) [OF P]
  show ?thesis
    unfolding g2_on_def G2_Pdbl_def Let_def
    by (simp only: False if_False G2Pt.select_convs fsq_fm f2_dec_ops f2_canon_ops c simp_thms)
      (rule dbl_ring [OF g2_onD(4) [OF P] refl refl refl refl refl refl refl refl refl refl])
qed (simp add: G2_Pdbl_def)

lemma G2_Padd_on: "g2_on P \<Longrightarrow> g2_on Q \<Longrightarrow> g2_on (G2_Padd P Q)"
proof -
  assume P: "g2_on P" and Q: "g2_on Q"
  note c = g2_onD(1-3) [OF P] g2_onD(1-3) [OF Q]
  let ?x = "q2_dec (gx P)" and ?y = "q2_dec (gy P)" and ?z = "q2_dec (gz P)"
  let ?x' = "q2_dec (gx Q)" and ?y' = "q2_dec (gy Q)" and ?z' = "q2_dec (gz Q)"
  let ?two = "\<lparr>f2c0 = madd QC (cr1 QC) (cr1 QC), f2c1 = bn_clr 6\<rparr>"
  have two: "q2_canon ?two" "q2_dec ?two = 2"
    by (simp_all add: q2_canon_def q2_dec_def two_q2 q_dec_ops del: cm_QC)
  have e: "(y * (u * u) * u) ^ 2 = (x * (u * u)) ^ 3 + gam * (z * u) ^ 6"
    if "y ^ 2 = x ^ 3 + gam * z ^ 6" for x y z u :: "fq q2"
  proof -
    have "(y * (u * u) * u) ^ 2 = y ^ 2 * u ^ 6" by (simp add: ring_norm)
    then show ?thesis unfolding that by (simp add: ring_norm)
  qed
  note e1 = e [OF g2_onD(4) [OF P], of ?z'] and e2 = e [OF g2_onD(4) [OF Q], of ?z, unfolded mult.commute [of ?z' ?z]]
  let ?U = "\<lambda>P Q. fm (gx P) (fm (gz Q) (gz Q))"
  have eq: "fq2_eq (?U P Q) (?U Q P) \<longleftrightarrow> ?U P Q = ?U Q P" using c by (simp add: fq2_eq_iff)
  consider "G2_PisInf P" | "G2_PisInf Q" "\<not> G2_PisInf P" | "\<not> G2_PisInf P" "\<not> G2_PisInf Q" "?U P Q = ?U Q P"
    | "\<not> G2_PisInf P" "\<not> G2_PisInf Q" "?U P Q \<noteq> ?U Q P" by blast
  then show ?thesis
  proof cases
    case 4
    show ?thesis
      unfolding g2_on_def G2_Padd_def Let_def
      by (simp only: 4 eq if_False G2Pt.select_convs fsq_fm f2_dec_ops f2_canon_ops c two simp_thms)
        (rule add_ring [OF e1 e2 refl refl refl refl refl refl refl refl refl refl refl])
  qed (use P Q eq in \<open>simp_all add: G2_Padd_def Let_def G2_Pdbl_on fsq_fm\<close>)
qed

lemma G2_Pmul_on: "g2_on P \<Longrightarrow> g2_on (G2_Pmul P k)"
proof -
  assume P: "g2_on P"
  have "g2_on (foldl (\<lambda>r b. let r = G2_Pdbl r in if b then G2_Padd r P else r) R bs)" if "g2_on R" for R bs
    using that P by (induction bs arbitrary: R) (simp_all add: Let_def G2_Pdbl_on G2_Padd_on)
  then show ?thesis by (simp add: G2_Pmul_def Let_def)
qed

lemma b2_gam: "q2_canon (b2 g2_ctx)" "q2_dec (b2 g2_ctx) = gam"
proof -
  have "G2_B2_C0 = fe6_small 5" "G2_B2_C1 = fe6_small 1"
    by (simp_all add: G2_B2_C0_def G2_B2_C1_def fe6_small_def bn_clr_def eval_nat_numeral)
  note b = this
  show "q2_canon (b2 g2_ctx)" "q2_dec (b2 g2_ctx) = gam"
    unfolding g2_ctx_def b
    by (simp_all add: g2_ctx_def q2_canon_def q2_dec_def gam_def fe6_small_val q_dec_from)
qed

lemma g2_on_from_affine:
  assumes "q_canon xa" "q_canon xb" "q_canon ya" "q_canon yb"
  shows "g2_on (G2_from_affine xa xb ya yb) \<longleftrightarrow> G2_on_curve_aff xa xb ya yb"
proof -
  let ?x = "fq2_from_canon QC xa xb" and ?y = "fq2_from_canon QC ya yb"
  have c: "q2_canon ?x" "q2_canon ?y" using assms by (simp_all add: q2_canon_def fq2_from_canon_def)
  have "G2_on_curve_aff xa xb ya yb \<longleftrightarrow> fm ?y ?y = fa (fm (fm ?x ?x) ?x) (b2 g2_ctx)"
    unfolding G2_on_curve_aff_def Let_def fsq_fm by (rule fq2_eq_iff) (simp_all add: c b2_gam)
  also have "\<dots> \<longleftrightarrow> q2_dec (fm ?y ?y) = q2_dec (fa (fm (fm ?x ?x) ?x) (b2 g2_ctx))"
    by (rule f2k.dec_eq_iff [symmetric]) (simp_all add: c b2_gam)
  also have "\<dots> \<longleftrightarrow> q2_dec ?y ^ 2 = q2_dec ?x ^ 3 + gam * q2_dec Fq2_1 ^ 6"
    using c b2_gam by (simp add: f2_dec_ops power2_eq_square power3_eq_cube)
  also have "\<dots> \<longleftrightarrow> g2_on (G2_from_affine xa xb ya yb)"
    using c f2k.canon_one by (simp add: g2_on_def G2_from_affine_def Fq2_1_def)
  finally show ?thesis by simp
qed

text \<open>The generator is on the curve, checked on its four canonical coordinates.\<close>

lemma G2_gen_coordinates:
  "limbs_val G2_GEN_X_C0 = 188009020392556258436027905421328757414124935634413708971717396775338925093154543640511479501959331455515259918583"
  "limbs_val G2_GEN_X_C1 = 216868360579089817460953117928095165575686850455722514011345699718593622775763294876427212888427728891559338055230"
  "limbs_val G2_GEN_Y_C0 = 69894548890043462436756198404533262012048767004896141718114942257831212853950572470615385003664025510082069167243"
  "limbs_val G2_GEN_Y_C1 = 242211025390328152692760122079977841981385197728634198555707015050692934856411790906549278402838482220343298383175"
  by (simp_all add: G2_GEN_X_C0_def G2_GEN_X_C1_def G2_GEN_Y_C0_def G2_GEN_Y_C1_def)

lemma G2_gen_coords_canon:
  "q_canon G2_GEN_X_C0" "q_canon G2_GEN_X_C1" "q_canon G2_GEN_Y_C0" "q_canon G2_GEN_Y_C1"
  by (simp_all add: q_canon_def G2_GEN_X_C0_def G2_GEN_X_C1_def G2_GEN_Y_C0_def G2_GEN_Y_C1_def bls_q_def)

lemma of_nat_fq_quotient: "n = bls_q * k + r \<Longrightarrow> (of_nat n :: fq) = of_nat r"
  by (simp only: of_nat_add of_nat_mult [of bls_q] fqk.of_nat_modulus mult_zero_left add_0_left)

lemma G2_gen_equation:
  fixes x0 x1 y0 y1 :: fq
  defines "x0 \<equiv> of_nat (limbs_val G2_GEN_X_C0)" and "x1 \<equiv> of_nat (limbs_val G2_GEN_X_C1)"
    and "y0 \<equiv> of_nat (limbs_val G2_GEN_Y_C0)" and "y1 \<equiv> of_nat (limbs_val G2_GEN_Y_C1)"
  shows "Q2 y0 y1 * Q2 y0 y1 = Q2 x0 x1 * Q2 x0 x1 * Q2 x0 x1 + gam"
proof -
  let ?a = "72894676810996232654779356357953077207828930087721530602193789280938256317796053949146430966624075317133001994845 :: nat"
  let ?b = "240319908804210338289030799081217398843495157724499328973529093647528202712358123386257670285608154595098153705488 :: nat"
  let ?c = "74679932576488581275970634016808391380754894059278428335904158984869970409779422331873677191571338874119836701019 :: nat"
  let ?d = "94661607098434282603812783855994313415302436995810126850649566082492334088679374357916687538120071865388989709285 :: nat"
  have s0: "(of_nat (limbs_val G2_GEN_X_C0 * limbs_val G2_GEN_X_C0 + 5 * (limbs_val G2_GEN_X_C1 * limbs_val G2_GEN_X_C1)) :: fq) = of_nat (?a)"
    by (rule of_nat_fq_quotient [where k = "1045782850853701740434870470904872084391152372713200327200615540283039930303461627693997935628848975238863300894472"])
      (unfold G2_gen_coordinates bls_q_def, simp only: arith_simps rel_simps)
  have s1: "(of_nat (limbs_val G2_GEN_X_C0 * limbs_val G2_GEN_X_C1 + limbs_val G2_GEN_X_C1 * limbs_val G2_GEN_X_C0) :: fq) = of_nat (?b)"
    by (rule of_nat_fq_quotient [where k = "315259493971312671092724373215592160567609161560391522650265013519429106676136672429981411975838948756749194210196"])
      (unfold G2_gen_coordinates bls_q_def, simp only: arith_simps rel_simps)
  have s2: "(of_nat (?a * limbs_val G2_GEN_X_C0 + 5 * (?b * limbs_val G2_GEN_X_C1)) :: fq) = of_nat (?c)"
    by (rule of_nat_fq_quotient [where k = "1060423283523889000747597041233902853546562665262423616953539399530724013801952559779024628128472977832048744182208"])
      (unfold G2_gen_coordinates bls_q_def, simp only: arith_simps rel_simps)
  have s3: "(of_nat (?a * limbs_val G2_GEN_X_C1 + ?b * limbs_val G2_GEN_X_C0) :: fq) = of_nat (?d)"
    by (rule of_nat_fq_quotient [where k = "235791448519455042384050281815534688346251411171521167997991491002439947599173499757795700699351660497249124705297"])
      (unfold G2_gen_coordinates bls_q_def, simp only: arith_simps rel_simps)
  have s4: "(of_nat (limbs_val G2_GEN_Y_C0 * limbs_val G2_GEN_Y_C0 + 5 * (limbs_val G2_GEN_Y_C1 * limbs_val G2_GEN_Y_C1)) :: fq) = of_nat (?c + 5)"
    by (rule of_nat_fq_quotient [where k = "1152907481961827466565709102850473098231892185219104629229633467268077617982167198261056265782246693931506825015950"])
      (unfold G2_gen_coordinates bls_q_def, simp only: arith_simps rel_simps)
  have s5: "(of_nat (limbs_val G2_GEN_Y_C0 * limbs_val G2_GEN_Y_C1 + limbs_val G2_GEN_Y_C1 * limbs_val G2_GEN_Y_C0) :: fq) = of_nat (?d + 1)"
    by (rule of_nat_fq_quotient [where k = "130897244872807056550209617765012539781197568846636786150810207341195155217078132639508398736890145696822447937332"])
      (unfold G2_gen_coordinates bls_q_def, simp only: arith_simps rel_simps)
  note eqs = s0 s1 s2 s3 s4 s5
  have a: "of_nat ?a = x0 * x0 + 5 * (x1 * x1)" and b: "of_nat ?b = x0 * x1 + x1 * x0"
    using s0 s1 by (simp_all only: of_nat_add of_nat_mult of_nat_numeral x0_def x1_def)
  have "of_nat ?c = of_nat ?a * x0 + 5 * (of_nat ?b * x1)" and "of_nat ?d = of_nat ?a * x1 + of_nat ?b * x0"
    using s2 s3 by (simp_all only: of_nat_add of_nat_mult of_nat_numeral x0_def x1_def)
  moreover have "y0 * y0 + 5 * (y1 * y1) = of_nat ?c + 5" and "y0 * y1 + y1 * y0 = of_nat ?d + 1"
    using s4 s5 by (simp_all only: of_nat_add of_nat_mult of_nat_numeral of_nat_1 y0_def y1_def)
  ultimately show ?thesis
    unfolding times_q2_def plus_q2_def gam_def q2.sel q2.inject a b by (simp only: simp_thms)
qed

lemma G2_gen_on: "g2_on G2_gen"
proof -
  have "q2_canon (fq2_from_canon QC G2_GEN_X_C0 G2_GEN_X_C1)" "q2_canon (fq2_from_canon QC G2_GEN_Y_C0 G2_GEN_Y_C1)"
    by (simp_all add: q2_canon_def fq2_from_canon_def G2_gen_coords_canon)
  moreover have "q2_dec (fq2_from_canon QC a b) = Q2 (of_nat (limbs_val a)) (of_nat (limbs_val b))"
    if "q_canon a" "q_canon b" for a b
    using that by (simp add: q2_dec_def fq2_from_canon_def q_dec_from)
  ultimately show ?thesis
    using G2_gen_equation f2k.canon_one f2k.dec_one
    by (simp add: g2_on_def G2_gen_def G2_from_affine_def G2_gen_coords_canon power2_eq_square power3_eq_cube Fq2_1_def)
qed

end
