(* ===== verification/Bls_Pairing.thy ===== *)
theory Bls_Pairing
  imports Bls_G2
begin

text \<open>
  The tower \<open>src/include/hsma/threshold/fq12.hpp\<close> over the quadratic extension and the pairing of
  \<open>src/include/hsma/threshold/pairing.hpp\<close>. Both upper fields are interpreted as kernels over the
  rings \<open>fq q6\<close> and \<open>fq q12\<close>. In the source \<open>fq12d::Q\<close>, \<open>B\<close> and \<open>G\<close> are the context of the
  base field, the non-residue and the twist coefficient: \<open>fa\<close>, \<open>fs\<close>, \<open>fm\<close> are the operations at
  that context.
\<close>

subsection \<open>The cubic extension\<close>

record Fq6 =
  f6c0 :: Fq2
  f6c1 :: Fq2
  f6c2 :: Fq2

definition fq12d_G :: Fq2 where
  "fq12d_G = b2 g2_ctx"

definition fq2_one :: Fq2 where
  "fq2_one = Fq2_0\<lparr>f2c0 := cr1 QC\<rparr>"

definition fq2_from_int :: "u64 \<Rightarrow> Fq2" where
  "fq2_from_int v = \<lparr>f2c0 = mfrom QC (fe6_small v), f2c1 = bn_clr 6\<rparr>"

definition Fq6_0 :: Fq6 where
  "Fq6_0 = \<lparr>f6c0 = Fq2_0, f6c1 = Fq2_0, f6c2 = Fq2_0\<rparr>"

definition fq6_add :: "Fq6 \<Rightarrow> Fq6 \<Rightarrow> Fq6" where
  "fq6_add a b = \<lparr>f6c0 = fa (f6c0 a) (f6c0 b), f6c1 = fa (f6c1 a) (f6c1 b), f6c2 = fa (f6c2 a) (f6c2 b)\<rparr>"

definition fq6_sub :: "Fq6 \<Rightarrow> Fq6 \<Rightarrow> Fq6" where
  "fq6_sub a b = \<lparr>f6c0 = fs (f6c0 a) (f6c0 b), f6c1 = fs (f6c1 a) (f6c1 b), f6c2 = fs (f6c2 a) (f6c2 b)\<rparr>"

definition fq6_neg :: "Fq6 \<Rightarrow> Fq6" where
  "fq6_neg a = \<lparr>f6c0 = fneg (f6c0 a), f6c1 = fneg (f6c1 a), f6c2 = fneg (f6c2 a)\<rparr>"

definition fq6_eq :: "Fq6 \<Rightarrow> Fq6 \<Rightarrow> bool" where
  "fq6_eq a b \<longleftrightarrow> fq2_eq (f6c0 a) (f6c0 b) \<and> fq2_eq (f6c1 a) (f6c1 b) \<and> fq2_eq (f6c2 a) (f6c2 b)"

definition fq6_is_zero :: "Fq6 \<Rightarrow> bool" where
  "fq6_is_zero a \<longleftrightarrow> fq2_is_zero (f6c0 a) \<and> fq2_is_zero (f6c1 a) \<and> fq2_is_zero (f6c2 a)"

definition fq6_one :: Fq6 where
  "fq6_one = \<lparr>f6c0 = fq2_one, f6c1 = Fq2_0, f6c2 = Fq2_0\<rparr>"

definition fq6_v :: Fq6 where
  "fq6_v = \<lparr>f6c0 = Fq2_0, f6c1 = fq2_one, f6c2 = Fq2_0\<rparr>"

definition fq6_mul :: "Fq6 \<Rightarrow> Fq6 \<Rightarrow> Fq6" where
  "fq6_mul a b =
     (let t00 = fm (f6c0 a) (f6c0 b); t01 = fm (f6c0 a) (f6c1 b); t02 = fm (f6c0 a) (f6c2 b);
          t10 = fm (f6c1 a) (f6c0 b); t11 = fm (f6c1 a) (f6c1 b); t12 = fm (f6c1 a) (f6c2 b);
          t20 = fm (f6c2 a) (f6c0 b); t21 = fm (f6c2 a) (f6c1 b); t22 = fm (f6c2 a) (f6c2 b)
      in \<lparr>f6c0 = fa t00 (fm fq12d_G (fa t12 t21)),
          f6c1 = fa (fa t01 t10) (fm fq12d_G t22),
          f6c2 = fa (fa t02 t11) t20\<rparr>)"

text \<open>The determinant that \<open>fq6_inv\<close> inverts, and the adjugate over it.\<close>

definition fq6_det :: "Fq6 \<Rightarrow> Fq2" where
  "fq6_det n =
     (let G = fq12d_G;
          n0sq = fm (f6c0 n) (f6c0 n); n1sq = fm (f6c1 n) (f6c1 n); n2sq = fm (f6c2 n) (f6c2 n);
          n1n2 = fm (f6c1 n) (f6c2 n);
          g2 = fm G G;
          det = fa (fa (fm (f6c0 n) n0sq) (fm G (fm (f6c1 n) n1sq))) (fm g2 (fm (f6c2 n) n2sq));
          trip = fm (fq2_from_int 3) (fm G (fm (f6c0 n) n1n2))
      in fs det trip)"

definition fq6_inv :: "Fq6 \<Rightarrow> Fq6" where
  "fq6_inv n =
     (let G = fq12d_G;
          n0sq = fm (f6c0 n) (f6c0 n); n1sq = fm (f6c1 n) (f6c1 n); n2sq = fm (f6c2 n) (f6c2 n);
          n1n2 = fm (f6c1 n) (f6c2 n); n0n1 = fm (f6c0 n) (f6c1 n); n0n2 = fm (f6c0 n) (f6c2 n);
          di = finv (fq6_det n);
          m0 = fs n0sq (fm G n1n2);
          m1 = fs (fm G n2sq) n0n1;
          m2 = fs n1sq n0n2
      in \<lparr>f6c0 = fm m0 di, f6c1 = fm m1 di, f6c2 = fm m2 di\<rparr>)"

subsection \<open>The upper quadratic extension\<close>

record Fq12 =
  te0 :: Fq6
  te1 :: Fq6

definition fq12_add :: "Fq12 \<Rightarrow> Fq12 \<Rightarrow> Fq12" where
  "fq12_add a b = \<lparr>te0 = fq6_add (te0 a) (te0 b), te1 = fq6_add (te1 a) (te1 b)\<rparr>"

definition fq12_sub :: "Fq12 \<Rightarrow> Fq12 \<Rightarrow> Fq12" where
  "fq12_sub a b = \<lparr>te0 = fq6_sub (te0 a) (te0 b), te1 = fq6_sub (te1 a) (te1 b)\<rparr>"

definition fq12_neg :: "Fq12 \<Rightarrow> Fq12" where
  "fq12_neg a = \<lparr>te0 = fq6_neg (te0 a), te1 = fq6_neg (te1 a)\<rparr>"

definition fq12_eq :: "Fq12 \<Rightarrow> Fq12 \<Rightarrow> bool" where
  "fq12_eq a b \<longleftrightarrow> fq6_eq (te0 a) (te0 b) \<and> fq6_eq (te1 a) (te1 b)"

definition fq12_is_zero :: "Fq12 \<Rightarrow> bool" where
  "fq12_is_zero a \<longleftrightarrow> fq6_is_zero (te0 a) \<and> fq6_is_zero (te1 a)"

definition fq12_one :: Fq12 where
  "fq12_one = \<lparr>te0 = fq6_one, te1 = Fq6_0\<rparr>"

definition fq12_mul :: "Fq12 \<Rightarrow> Fq12 \<Rightarrow> Fq12" where
  "fq12_mul a b =
     (let t0 = fq6_mul (te0 a) (te0 b);
          t1 = fq6_mul fq6_v (fq6_mul (te1 a) (te1 b));
          t2 = fq6_mul (te0 a) (te1 b);
          t3 = fq6_mul (te1 a) (te0 b)
      in \<lparr>te0 = fq6_add t0 t1, te1 = fq6_add t2 t3\<rparr>)"

definition fq12_sqr :: "Fq12 \<Rightarrow> Fq12" where
  "fq12_sqr a = fq12_mul a a"

definition fq12_norm :: "Fq12 \<Rightarrow> Fq6" where
  "fq12_norm a =
     (let e0sq = fq6_mul (te0 a) (te0 a) in fq6_sub e0sq (fq6_mul fq6_v (fq6_mul (te1 a) (te1 a))))"

definition fq12_inv :: "Fq12 \<Rightarrow> Fq12" where
  "fq12_inv a =
     (let ni = fq6_inv (fq12_norm a)
      in fq12_mul \<lparr>te0 = te0 a, te1 = fq6_neg (te1 a)\<rparr> \<lparr>te0 = ni, te1 = Fq6_0\<rparr>)"

text \<open>The flag \<open>started\<close> is part of the loop state: the first set bit loads the base.\<close>

definition pow_step :: "Fq12 \<Rightarrow> Fq12 \<times> bool \<Rightarrow> bool \<Rightarrow> Fq12 \<times> bool" where
  "pow_step a s b =
     (let (r, started) = s
      in if \<not> started then (if \<not> b then (r, False) else (a, True))
         else let r = fq12_sqr r in (if b then fq12_mul r a else r, True))"

definition fq12_pow_limbs :: "Fq12 \<Rightarrow> u64 list \<Rightarrow> Fq12" where
  "fq12_pow_limbs a e = fst (foldl (pow_step a) (fq12_one, False) (bits_down e))"

subsection \<open>The pairing\<close>

definition fq12_from_int :: "u64 \<Rightarrow> Fq12" where
  "fq12_from_int v = \<lparr>te0 = \<lparr>f6c0 = fq2_from_int v, f6c1 = Fq2_0, f6c2 = Fq2_0\<rparr>, te1 = Fq6_0\<rparr>"

definition embed_fq :: "fe6 \<Rightarrow> Fq12" where
  "embed_fq x =
     \<lparr>te0 = \<lparr>f6c0 = \<lparr>f2c0 = mfrom QC x, f2c1 = bn_clr 6\<rparr>, f6c1 = Fq2_0, f6c2 = Fq2_0\<rparr>, te1 = Fq6_0\<rparr>"

definition twist :: "Fq2 \<Rightarrow> Fq2 \<Rightarrow> Fq12 \<times> Fq12" where
  "twist xq yq =
     (let vinv = fq12_inv \<lparr>te0 = fq6_v, te1 = Fq6_0\<rparr>;
          winv = fq12_inv \<lparr>te0 = Fq6_0, te1 = fq6_one\<rparr>;
          x12 = \<lparr>te0 = \<lparr>f6c0 = xq, f6c1 = Fq2_0, f6c2 = Fq2_0\<rparr>, te1 = Fq6_0\<rparr>;
          y12 = \<lparr>te0 = \<lparr>f6c0 = yq, f6c1 = Fq2_0, f6c2 = Fq2_0\<rparr>, te1 = Fq6_0\<rparr>
      in (fq12_mul x12 vinv, fq12_mul (fq12_mul y12 vinv) winv))"

record Pt12 =
  t12x :: Fq12
  t12y :: Fq12

text \<open>The line through a point with a slope, at the second argument, and the third intersection.\<close>

definition miller_line :: "Fq12 \<Rightarrow> Fq12 \<Rightarrow> Pt12 \<Rightarrow> Fq12 \<Rightarrow> Fq12" where
  "miller_line Qx Qy T lam = fq12_sub (fq12_sub Qy (t12y T)) (fq12_mul lam (fq12_sub Qx (t12x T)))"

definition miller_next :: "Pt12 \<Rightarrow> Fq12 \<Rightarrow> Fq12 \<Rightarrow> Pt12" where
  "miller_next T lam x2 =
     (let x3 = fq12_sub (fq12_sub (fq12_sqr lam) (t12x T)) x2;
          y3 = fq12_sub (fq12_mul lam (fq12_sub (t12x T) x3)) (t12y T)
      in \<lparr>t12x = x3, t12y = y3\<rparr>)"

definition miller_step :: "Fq12 \<Rightarrow> Fq12 \<Rightarrow> Fq12 \<Rightarrow> Fq12 \<Rightarrow> nat \<Rightarrow> Fq12 \<times> Pt12 \<Rightarrow> Fq12 \<times> Pt12" where
  "miller_step Qx Qy Px Py i s =
     (let (f, T) = s;
          num = fq12_mul (fq12_from_int 3) (fq12_mul (t12x T) (t12x T));
          den = fq12_add (t12y T) (t12y T);
          lam = fq12_mul num (fq12_inv den);
          f = fq12_mul (fq12_sqr f) (miller_line Qx Qy T lam);
          T = miller_next T lam (t12x T)
      in if bit (cxrmod CX ! (i div 64)) (i mod 64) \<and> 0 < i then
           let cnum = fq12_sub Py (t12y T);
               cden = fq12_sub Px (t12x T);
               clam = fq12_mul cnum (fq12_inv cden)
           in (fq12_mul f (miller_line Qx Qy T clam), miller_next T clam Px)
         else (f, T))"

definition miller :: "fe6 \<Rightarrow> fe6 \<Rightarrow> Fq12 \<Rightarrow> Fq12 \<Rightarrow> Fq12" where
  "miller x y Qx Qy =
     (let bl = bitlen (cxrmod CX);
          Px = embed_fq x;
          Py = embed_fq y
      in fst (fold (miller_step Qx Qy Px Py) (rev [0..<bl - 1]) (fq12_one, \<lparr>t12x = Px, t12y = Py\<rparr>)))"

definition G12_FEXP :: "u64 list" where
  "G12_FEXP = [4353010514830295040, 7791305153851686918, 3035718132779360268, 8497857734921533380,
    15830329417913419661, 4042748733070043013, 2258936297022240032, 8495724789084239206,
    14153635969683866107, 17026728702674975094, 622871497253555959, 8461889487685178024,
    3662848816097184238, 12546556315975010864, 15505204471251736117, 18337761135539008088,
    705600547106875275, 16203838733850194386, 16101738903942070346, 7162869493610074354,
    858564716203439246, 15380955099971811708, 10517607561789207221, 7185863995805872425,
    17922915717107200696, 5276041706426067354, 18357180616082406987, 326709764185214387,
    3444493487344613570, 16281382527672644245, 17021028656951091173, 6404868424545959504,
    2105612411205454729, 11936184811015632555, 5793321030173556605, 9814164615102853131,
    7909838698977630862, 11800894143362969509, 17256343835163427341, 7820302250428362513,
    29717246849407083, 14122015165212817246, 15594631931739125103, 16916399970395691981,
    16134879463357843736, 14636736659186551423, 13141251573641072240, 14451911952663624318,
    12933584910949305822, 10762164986166017290, 9987569311139879719, 6095205915888102218,
    11135044577924315157, 5743002486846531937, 11299160779365919656, 13589817765912932056,
    7470983972878898314, 15392954662204383668, 6786022953894925154, 6944188541523498878,
    12904489045715592322, 1396764173090694350, 15966605097851767004, 9681502058376267121,
    17992708863234440888, 14162330922427428040, 29892813789885]"

definition pairing :: "fe6 \<Rightarrow> fe6 \<Rightarrow> G2Pt \<Rightarrow> Fq12" where
  "pairing x y Q =
     (case G2_to_affine Q of None \<Rightarrow> fq12_one
      | Some (qx0, qx1, qy0, qy1) \<Rightarrow>
        let (Qx, Qy) = twist (fq2_from_canon QC qx0 qx1) (fq2_from_canon QC qy0 qy1)
        in fq12_pow_limbs (miller x y Qx Qy) G12_FEXP)"

definition bls_verify_aff :: "fe6 \<Rightarrow> fe6 \<Rightarrow> fe6 \<Rightarrow> fe6 \<Rightarrow> G2Pt \<Rightarrow> bool" where
  "bls_verify_aff sx sy hx hy Y = fq12_eq (pairing sx sy G2_gen) (pairing hx hy Y)"

subsection \<open>The tower as kernels\<close>

definition q6_canon :: "Fq6 \<Rightarrow> bool" where
  "q6_canon a \<longleftrightarrow> q2_canon (f6c0 a) \<and> q2_canon (f6c1 a) \<and> q2_canon (f6c2 a)"

definition q6_dec :: "Fq6 \<Rightarrow> fq q6" where
  "q6_dec a = Q6 (q2_dec (f6c0 a)) (q2_dec (f6c1 a)) (q2_dec (f6c2 a))"

lemma fq2_one_1: "fq2_one = Fq2_1"
  by (simp add: fq2_one_def Fq2_1_def Fq2_0_def)

lemma fq12d_G: "q2_canon fq12d_G" "q2_dec fq12d_G = gam"
  using b2_gam by (simp_all add: fq12d_G_def)

interpretation f6k: field_kernel q6_canon q6_dec fq6_add fq6_sub fq6_mul Fq6_0 fq6_one
proof unfold_locales
  show "q6_canon Fq6_0" "q6_canon fq6_one" by (simp_all add: q6_canon_def Fq6_0_def fq6_one_def fq2_one_1)
  show "q6_dec Fq6_0 = 0" "q6_dec fq6_one = 1"
    by (simp_all add: q6_dec_def Fq6_0_def fq6_one_def fq2_one_1 q6_ops f2_dec_ops)
  fix a b
  assume "q6_canon a" "q6_canon b"
  then have c: "q2_canon (f6c0 a)" "q2_canon (f6c1 a)" "q2_canon (f6c2 a)"
    "q2_canon (f6c0 b)" "q2_canon (f6c1 b)" "q2_canon (f6c2 b)"
    by (simp_all add: q6_canon_def)
  show "q6_canon (fq6_add a b)" "q6_canon (fq6_sub a b)" "q6_canon (fq6_mul a b)"
    using c fq12d_G by (simp_all add: q6_canon_def fq6_add_def fq6_sub_def fq6_mul_def Let_def)
  show "q6_dec (fq6_add a b) = q6_dec a + q6_dec b" "q6_dec (fq6_sub a b) = q6_dec a - q6_dec b"
    using c by (simp_all add: q6_dec_def fq6_add_def fq6_sub_def q6_ops f2_dec_ops)
  show "q6_dec (fq6_mul a b) = q6_dec a * q6_dec b"
    using c fq12d_G by (simp add: q6_dec_def fq6_mul_def Let_def q6_ops f2_dec_ops)
  assume "q6_dec a = q6_dec b"
  then have "f6c0 a = f6c0 b" "f6c1 a = f6c1 b" "f6c2 a = f6c2 b"
    using c by (simp_all add: q6_dec_def f2k.dec_eq_iff)
  then show "a = b" by simp
qed

lemmas f6_dec_ops [dec_simps] = f6k.dec_zero f6k.dec_one f6k.dec_add f6k.dec_sub f6k.dec_mul
lemmas f6_canon_ops [simp, intro] = f6k.canon_zero f6k.canon_one f6k.canon_add f6k.canon_sub f6k.canon_mul

definition q12_canon :: "Fq12 \<Rightarrow> bool" where
  "q12_canon a \<longleftrightarrow> q6_canon (te0 a) \<and> q6_canon (te1 a)"

definition q12_dec :: "Fq12 \<Rightarrow> fq q12" where
  "q12_dec a = Q12 (q6_dec (te0 a)) (q6_dec (te1 a))"

lemma fq6_v: "q6_canon fq6_v" "q6_dec fq6_v = vee"
  by (simp_all add: q6_canon_def q6_dec_def fq6_v_def fq2_one_1 vee_def f2_dec_ops)

interpretation f12k: field_kernel q12_canon q12_dec fq12_add fq12_sub fq12_mul
  "\<lparr>te0 = Fq6_0, te1 = Fq6_0\<rparr>" fq12_one
proof unfold_locales
  show "q12_canon \<lparr>te0 = Fq6_0, te1 = Fq6_0\<rparr>" "q12_canon fq12_one" by (simp_all add: q12_canon_def fq12_one_def)
  show "q12_dec \<lparr>te0 = Fq6_0, te1 = Fq6_0\<rparr> = 0" "q12_dec fq12_one = 1"
    by (simp_all add: q12_dec_def fq12_one_def q12_ops f6_dec_ops)
  fix a b
  assume "q12_canon a" "q12_canon b"
  then have c: "q6_canon (te0 a)" "q6_canon (te1 a)" "q6_canon (te0 b)" "q6_canon (te1 b)"
    by (simp_all add: q12_canon_def)
  show "q12_canon (fq12_add a b)" "q12_canon (fq12_sub a b)" "q12_canon (fq12_mul a b)"
    using c fq6_v by (simp_all add: q12_canon_def fq12_add_def fq12_sub_def fq12_mul_def Let_def)
  show "q12_dec (fq12_add a b) = q12_dec a + q12_dec b" "q12_dec (fq12_sub a b) = q12_dec a - q12_dec b"
    "q12_dec (fq12_mul a b) = q12_dec a * q12_dec b"
    using c fq6_v by (simp_all add: q12_dec_def fq12_add_def fq12_sub_def fq12_mul_def Let_def q12_ops f6_dec_ops)
  assume "q12_dec a = q12_dec b"
  then have "te0 a = te0 b" "te1 a = te1 b" using c by (simp_all add: q12_dec_def f6k.dec_eq_iff)
  then show "a = b" by simp
qed

lemmas f12_dec_ops [dec_simps] = f12k.dec_zero f12k.dec_one f12k.dec_add f12k.dec_sub f12k.dec_mul
lemmas f12_canon_ops [simp, intro] = f12k.canon_zero f12k.canon_one f12k.canon_add f12k.canon_sub f12k.canon_mul

subsection \<open>Inverses\<close>

lemma finv_canon [simp, intro]: "q2_canon a \<Longrightarrow> q2_canon (finv a)"
proof -
  assume a: "q2_canon a"
  then have "q_canon (f2c0 a)" "q_canon (f2c1 a)" by (simp_all add: q2_canon_def)
  then show ?thesis
    using mpow_canon_dec(1) [OF fq2_norm_dec(1) [OF a], of "cxm2 CX"]
    by (simp add: finv_def fq2_inv_def fq2_conj_def Let_def q2_canon_def)
qed

lemma q2_of_nat: "(of_nat n :: 'a::comm_ring_1 q2) = Q2 (of_nat n) 0"
  by (induction n) (simp_all add: q2_ops)

lemma q2_from_int: "q2_canon (fq2_from_int v)" "q2_dec (fq2_from_int v) = of_nat (unat v)"
  unfolding q2_of_nat
  by (simp_all only: fq2_from_int_def q2_canon_def q2_dec_def Fq2.select_convs q_canon_ops q_canon_from
      q_dec_ops q_dec_from fe6_small_val simp_thms)

lemma fq6_det_dec:
  assumes "q6_canon n"
  shows "q2_canon (fq6_det n)"
    and "q2_dec (fq6_det n) = co0 (q6_dec n) ^ 3 + gam * co1 (q6_dec n) ^ 3 + gam ^ 2 * co2 (q6_dec n) ^ 3
      - 3 * (gam * (co0 (q6_dec n) * (co1 (q6_dec n) * co2 (q6_dec n))))"
  using assms fq12d_G q2_from_int [of 3]
  by (simp_all add: fq6_det_def Let_def q6_canon_def q6_dec_def f2_dec_ops power2_eq_square power3_eq_cube)

lemma fneg_dec: "q2_canon a \<Longrightarrow> q2_canon (fneg a) \<and> q2_dec (fneg a) = - q2_dec a"
  by (simp add: fneg_def fq2_neg_def Let_def q2_canon_def q2_dec_def q2_ops q_dec_ops)

lemma fq6_neg_dec: "q6_canon a \<Longrightarrow> q6_canon (fq6_neg a) \<and> q6_dec (fq6_neg a) = - q6_dec a"
  using fneg_dec by (simp add: fq6_neg_def q6_canon_def q6_dec_def q6_ops)

lemma fq6_inv_canon: "q6_canon n \<Longrightarrow> q6_canon (fq6_inv n)"
  using fq12d_G fq6_det_dec(1) [of n] by (simp add: fq6_inv_def Let_def q6_canon_def)

lemma fq6_inv_dec:
  assumes n: "q6_canon n" and d: "q2_dec (fq6_det n) * q2_dec (finv (fq6_det n)) = 1"
  shows "q6_dec n * q6_dec (fq6_inv n) = 1"
proof -
  let ?w = "q2_dec (finv (fq6_det n))"
  obtain n0 n1 n2 where ns: "q6_dec n = Q6 n0 n1 n2" by (cases "q6_dec n")
  have inv: "q6_dec (fq6_inv n) = Q6 ((n0 * n0 - gam * (n1 * n2)) * ?w) ((gam * (n2 * n2) - n0 * n1) * ?w) ((n1 * n1 - n0 * n2) * ?w)"
    using n ns fq12d_G fq6_det_dec(1) [OF n]
    by (auto simp: fq6_inv_def Let_def q6_canon_def q6_dec_def f2_dec_ops)
  have det: "q2_dec (fq6_det n) = n0 ^ 3 + gam * n1 ^ 3 + gam ^ 2 * n2 ^ 3 - 3 * (gam * (n0 * (n1 * n2)))"
    using fq6_det_dec(2) [OF n] by (simp add: ns)
  have "q6_dec n * q6_dec (fq6_inv n) = Q6 (q2_dec (fq6_det n) * ?w) 0 0"
    unfolding det inv ns times_q6_def q6.sel by (simp add: ring_norm)
  then show ?thesis by (simp add: d q6_ops)
qed

lemma fq12_norm_dec:
  assumes "q12_canon a"
  shows "q6_canon (fq12_norm a)"
    and "q6_dec (fq12_norm a) = lo (q12_dec a) * lo (q12_dec a) - vee * (hi (q12_dec a) * hi (q12_dec a))"
  using assms fq6_v by (simp_all add: fq12_norm_def Let_def q12_canon_def q12_dec_def f6_dec_ops)

lemma fq12_inv_canon [simp, intro]: "q12_canon a \<Longrightarrow> q12_canon (fq12_inv a)"
  unfolding fq12_inv_def Let_def
  by (intro f12_canon_ops) (auto simp: q12_canon_def fq6_neg_dec fq6_inv_canon fq12_norm_dec)

text \<open>The inverse of the top field rests on one Fermat equation in the base field.\<close>

lemma fq12_inv_dec:
  assumes a: "q12_canon a"
    and fermat: "fqk.dec (fq2_norm QC (fq6_det (fq12_norm a)) (beta_m g2_ctx)) ^ (bls_q - 1) = 1"
  shows "q12_dec a * q12_dec (fq12_inv a) = 1"
proof -
  note n = fq12_norm_dec [OF a] and i = fq6_inv_canon [OF fq12_norm_dec(1) [OF a]]
  have d: "q2_dec (fq6_det (fq12_norm a)) * q2_dec (finv (fq6_det (fq12_norm a))) = 1"
    using finv_dec [OF fq6_det_dec(1) [OF n(1)] fermat] by simp
  have m: "q6_dec (fq12_norm a) * q6_dec (fq6_inv (fq12_norm a)) = 1" by (rule fq6_inv_dec [OF n(1) d])
  let ?w = "q6_dec (fq6_inv (fq12_norm a))"
  let ?l = "lo (q12_dec a)" and ?h = "hi (q12_dec a)"
  have c: "q12_canon \<lparr>te0 = te0 a, te1 = fq6_neg (te1 a)\<rparr>" "q12_canon \<lparr>te0 = fq6_inv (fq12_norm a), te1 = Fq6_0\<rparr>"
    using a i by (simp_all add: q12_canon_def fq6_neg_dec)
  have "q12_dec (fq12_inv a) = Q12 ?l (- ?h) * Q12 ?w 0"
    unfolding fq12_inv_def Let_def f12k.dec_mul [OF c]
    using a by (simp add: q12_dec_def q12_canon_def fq6_neg_dec f6_dec_ops)
  then have "q12_dec a * q12_dec (fq12_inv a) = Q12 ?l ?h * (Q12 ?l (- ?h) * Q12 ?w 0)" by simp
  also have "\<dots> = Q12 ((?l * ?l - vee * (?h * ?h)) * ?w) 0"
    by (simp add: q12_ops algebra_simps)
  also have "\<dots> = 1" using m unfolding n(2) by (simp add: q12_ops)
  finally show ?thesis .
qed

subsection \<open>Powers and the pairing\<close>

lemma fq12_pow_dec:
  assumes a: "q12_canon a"
  shows "q12_canon (fq12_pow_limbs a e) \<and> q12_dec (fq12_pow_limbs a e) = q12_dec a ^ limbs_val e"
proof -
  let ?v = "foldl (\<lambda>n b. 2 * n + of_bool b)"
  have started: "q12_canon r \<Longrightarrow> q12_dec r = q12_dec a ^ n \<Longrightarrow>
    q12_canon (fst (foldl (pow_step a) (r, True) bs)) \<and> q12_dec (fst (foldl (pow_step a) (r, True) bs)) = q12_dec a ^ ?v n bs"
    for r n bs
  proof (induction bs arbitrary: r n)
    case (Cons b bs)
    let ?r = "if b then fq12_mul (fq12_sqr r) a else fq12_sqr r"
    have "pow_step a (r, True) b = (?r, True)" by (simp add: pow_step_def Let_def)
    moreover have "q12_canon ?r" "q12_dec ?r = q12_dec a ^ (2 * n + of_bool b)"
      using Cons.prems a by (simp_all add: fq12_sqr_def f12_dec_ops mult_2 power_add mult.commute [of _ "q12_dec a"])
    ultimately show ?case using Cons.IH by simp
  qed simp
  have waiting: "pow_step a (r, False) True = (a, True)" "pow_step a (r, False) False = (r, False)" for r
    by (simp_all add: pow_step_def)
  have "q12_canon (fst (foldl (pow_step a) (fq12_one, False) bs))
    \<and> q12_dec (fst (foldl (pow_step a) (fq12_one, False) bs)) = q12_dec a ^ ?v 0 bs" for bs
  proof (induction bs)
    case (Cons b bs)
    show ?case
    proof (cases b)
      case True
      then show ?thesis using started [OF a, of 1 bs] by (simp add: waiting)
    qed (use Cons in \<open>simp add: waiting\<close>)
  qed (simp add: f12_dec_ops)
  then show ?thesis by (simp add: fq12_pow_limbs_def bits_down_value)
qed

lemma fq12_eq_iff: "q12_canon a \<Longrightarrow> q12_canon b \<Longrightarrow> fq12_eq a b \<longleftrightarrow> a = b"
  by (auto simp: fq12_eq_def fq6_eq_def q12_canon_def q6_canon_def fq2_eq_iff intro!: Fq12.equality Fq6.equality)

definition pt12_canon :: "Pt12 \<Rightarrow> bool" where
  "pt12_canon T \<longleftrightarrow> q12_canon (t12x T) \<and> q12_canon (t12y T)"

lemma q12_canon_const: "q2_canon c \<Longrightarrow> q12_canon \<lparr>te0 = \<lparr>f6c0 = c, f6c1 = Fq2_0, f6c2 = Fq2_0\<rparr>, te1 = Fq6_0\<rparr>"
  by (simp add: q12_canon_def) (simp add: q6_canon_def)

lemma embed_canon: "q_canon x \<Longrightarrow> q12_canon (embed_fq x)"
  unfolding embed_fq_def by (intro q12_canon_const) (simp add: q2_canon_def)

lemma miller_step_canon:
  assumes "q12_canon Qx" "q12_canon Qy" "q12_canon Px" "q12_canon Py" "q12_canon (fst s)" "pt12_canon (snd s)"
  shows "q12_canon (fst (miller_step Qx Qy Px Py i s)) \<and> pt12_canon (snd (miller_step Qx Qy Px Py i s))"
proof -
  have three: "q12_canon (fq12_from_int 3)" unfolding fq12_from_int_def by (intro q12_canon_const q2_from_int)
  have line: "q12_canon (miller_line Qx Qy T lam)" if "pt12_canon T" "q12_canon lam" for T lam
    using that assms(1,2) by (simp add: miller_line_def pt12_canon_def)
  have nxt: "pt12_canon (miller_next T lam x)" if "pt12_canon T" "q12_canon lam" "q12_canon x" for T lam x
    using that by (simp add: miller_next_def Let_def pt12_canon_def fq12_sqr_def)
  have sel: "q12_canon (t12x T)" "q12_canon (t12y T)" if "pt12_canon T" for T using that by (simp_all add: pt12_canon_def)
  show ?thesis
    using assms three by (cases s) (simp add: miller_step_def Let_def fq12_sqr_def line nxt sel)
qed

lemma miller_canon:
  assumes "q12_canon Qx" "q12_canon Qy" "q_canon x" "q_canon y"
  shows "q12_canon (miller x y Qx Qy)"
proof -
  have "q12_canon (fst (fold (miller_step Qx Qy (embed_fq x) (embed_fq y)) is s))" 
    if "q12_canon (fst s)" "pt12_canon (snd s)" for s "is"
    using that
  proof (induction "is" arbitrary: s)
    case (Cons i "is")
    then show ?case using miller_step_canon [of Qx Qy "embed_fq x" "embed_fq y" s i] assms by (simp add: embed_canon)
  qed simp
  then show ?thesis using assms by (simp add: miller_def Let_def pt12_canon_def embed_canon)
qed

lemma twist_canon:
  assumes "q2_canon a" and "q2_canon b"
  shows "q12_canon (fst (twist a b))" and "q12_canon (snd (twist a b))"
proof -
  have vw: "q12_canon \<lparr>te0 = fq6_v, te1 = Fq6_0\<rparr>" "q12_canon \<lparr>te0 = Fq6_0, te1 = fq6_one\<rparr>"
    using fq6_v by (simp_all add: q12_canon_def)
  show "q12_canon (fst (twist a b))" "q12_canon (snd (twist a b))"
    unfolding twist_def Let_def fst_conv snd_conv
    by (intro f12_canon_ops fq12_inv_canon q12_canon_const vw assms)+
qed

lemma g2_affine_canon:
  assumes "q2_canon (gx P)" "q2_canon (gy P)" "q2_canon (gz P)" and "G2_to_affine P = Some (xa, xb, ya, yb)"
  shows "q_canon xa \<and> q_canon xb \<and> q_canon ya \<and> q_canon yb"
proof -
  let ?x = "fm (gx P) (fsq (finv (gz P)))" and ?y = "fm (gy P) (fm (fsq (finv (gz P))) (finv (gz P)))"
  have "q2_canon ?x" "q2_canon ?y" using assms(1-3) by (simp_all add: fsq_fm)
  moreover have "xa = mto QC (f2c0 ?x)" "xb = mto QC (f2c1 ?x)" "ya = mto QC (f2c0 ?y)" "yb = mto QC (f2c1 ?y)"
    using assms(4) by (auto simp: G2_to_affine_def Let_def split: if_splits)
  ultimately show ?thesis by (simp add: q2_canon_def)
qed

text \<open>Every pairing of reduced arguments is reduced, so the comparison of the check is equality.\<close>

lemma pairing_canon:
  assumes "q_canon x" "q_canon y" and "q2_canon (gx P)" "q2_canon (gy P)" "q2_canon (gz P)"
  shows "q12_canon (pairing x y P)"
proof (cases "G2_to_affine P")
  case None
  then show ?thesis by (simp add: pairing_def)
next
  case (Some t)
  obtain xa xb ya yb where t: "t = (xa, xb, ya, yb)" by (cases t)
  obtain Qx Qy where tw: "twist (fq2_from_canon QC xa xb) (fq2_from_canon QC ya yb) = (Qx, Qy)" by fastforce
  have "q_canon xa \<and> q_canon xb \<and> q_canon ya \<and> q_canon yb"
    by (rule g2_affine_canon [OF assms(3-5)]) (simp add: Some t)
  then have "q2_canon (fq2_from_canon QC xa xb)" "q2_canon (fq2_from_canon QC ya yb)"
    by (simp_all add: fq2_from_canon_def q2_canon_def)
  from twist_canon [OF this] have "q12_canon Qx" "q12_canon Qy" by (simp_all add: tw)
  then show ?thesis using fq12_pow_dec miller_canon assms(1,2) by (simp add: pairing_def Some t tw)
qed

lemma G2_gen_canon: "q2_canon (gx G2_gen)" "q2_canon (gy G2_gen)" "q2_canon (gz G2_gen)"
proof -
  have "q_canon G2_GEN_X_C0" "q_canon G2_GEN_X_C1" "q_canon G2_GEN_Y_C0" "q_canon G2_GEN_Y_C1"
    by (simp_all add: q_canon_def bls_q_def G2_GEN_X_C0_def G2_GEN_X_C1_def G2_GEN_Y_C0_def G2_GEN_Y_C1_def)
  then show "q2_canon (gx G2_gen)" "q2_canon (gy G2_gen)" "q2_canon (gz G2_gen)"
    using f2k.canon_one by (simp_all add: G2_gen_def G2_from_affine_def fq2_from_canon_def q2_canon_def Fq2_1_def)
qed

lemma bls_verify_iff:
  assumes "q_canon sx" "q_canon sy" "q_canon hx" "q_canon hy" "q2_canon (gx Y)" "q2_canon (gy Y)" "q2_canon (gz Y)"
  shows "bls_verify_aff sx sy hx hy Y \<longleftrightarrow> pairing sx sy G2_gen = pairing hx hy Y"
  unfolding bls_verify_aff_def using assms by (intro fq12_eq_iff pairing_canon G2_gen_canon)

lemma G2_to_affine_inf: "G2_to_affine G2Pt0 = None"
  by (simp add: G2_to_affine_def G2_PisInf_def G2Pt0_def fq2_is_zero_def Fq2_0_def bn_isz_val)

text \<open>One has norm one, so Fermat's equation holds for it.\<close>

lemma fq12_one_norm:
  "fqk.dec (fq2_norm QC (fq6_det (fq12_norm fq12_one)) (beta_m g2_ctx)) ^ (bls_q - 1) = 1"
proof -
  have n: "q6_dec (fq12_norm fq12_one) = 1" "q6_canon (fq12_norm fq12_one)"
    using fq12_norm_dec [OF f12k.canon_one] f12k.dec_one by (simp_all add: one_q12_def)
  have "q2_dec (fq6_det (fq12_norm fq12_one)) = 1" "q2_canon (fq6_det (fq12_norm fq12_one))"
    using fq6_det_dec [OF n(2)] n(1) by (simp_all add: one_q6_def)
  then show ?thesis using fq2_norm_dec(2) by (simp add: one_q2_def)
qed

end
