(* ===== verification/M2.thy ===== *)
theory M2
  imports Threshold Bls_Pairing
begin

text \<open>
  The order-bound decryption layer: \<open>src/include/hsma/threshold/m2.hpp\<close> (key derivation, the
  stream cipher with its tag, ordering keys, decryption shares with their attestation, the
  discrete-logarithm equality proofs and the forensics) and \<open>m2prod.hpp\<close> (user authorisation,
  per-member partial signatures). Fixed byte arrays are lists. A function that leaves its output
  unwritten is None, and so is one that reaches the \<open>abort\<close> of \<open>hash_to_g1\<close>.
\<close>

subsection \<open>Serialisation and key derivation\<close>

definition limbs_ser :: "u64 list \<Rightarrow> bytes" where
  "limbs_ser x = concat (map (le_bytes 8) x)"

definition ser_g2 :: "G2Pt \<Rightarrow> bytes option" where
  "ser_g2 P =
     map_option (\<lambda>(xa, xb, ya, yb). limbs_ser xa @ limbs_ser xb @ limbs_ser ya @ limbs_ser yb) (G2_to_affine P)"

definition ser_hdr :: "u64 \<Rightarrow> bytes \<Rightarrow> u64 \<Rightarrow> u64 \<Rightarrow> bytes" where
  "ser_hdr ep sender nonce fee = le_bytes 8 ep @ sender @ le_bytes 8 nonce @ le_bytes 8 fee"

definition kdf :: "bytes \<Rightarrow> bytes \<Rightarrow> bytes \<Rightarrow> bytes" where
  "kdf ss xe hdr = sha256 (ascii ''HSM_KDF_V1'' @ ss @ xe @ hdr)"

subsection \<open>The stream cipher\<close>

definition dem_ks :: "bytes \<Rightarrow> u64 \<Rightarrow> bytes" where
  "dem_ks k blk = sha256 (ascii ''HSM_DEM_V1'' @ k @ le_bytes 8 blk)"

definition dem_tag :: "bytes \<Rightarrow> bytes \<Rightarrow> bytes \<Rightarrow> bytes" where
  "dem_tag k hdr ct = sha256 (ascii ''HSM_DEM_TAG_V1'' @ k @ hdr @ ct)"

definition dem_xor :: "bytes \<Rightarrow> bytes \<Rightarrow> bytes" where
  "dem_xor k p = map (\<lambda>i. p ! i XOR dem_ks k (of_nat (i div 32)) ! (i mod 32)) [0..<length p]"

definition dem_encrypt :: "bytes \<Rightarrow> bytes \<Rightarrow> bytes \<Rightarrow> bytes \<times> bytes" where
  "dem_encrypt k hdr pl = (let ct = dem_xor k pl in (ct, dem_tag k hdr ct))"

text \<open>The plaintext is written before the tag is compared: the caller has it in both cases.\<close>

definition dem_decrypt :: "bytes \<Rightarrow> bytes \<Rightarrow> bytes \<Rightarrow> bytes \<Rightarrow> bytes \<times> bool" where
  "dem_decrypt k hdr ct tag = (dem_xor k ct, dem_tag k hdr ct = tag)"

definition ct_hash :: "bytes \<Rightarrow> bytes \<Rightarrow> bytes" where
  "ct_hash rs ct = sha256 (ascii ''HSM_CT_V1'' @ rs @ ct)"

definition m2_sort_key :: "bytes \<Rightarrow> bytes \<Rightarrow> bytes" where
  "m2_sort_key beacon cth = sha256 (ascii ''HSM_ORDER_V1'' @ beacon @ cth)"

definition order_root :: "bytes list \<Rightarrow> bytes" where
  "order_root keys = sha256 (ascii ''HSM_ORDROOT_V1'' @ concat keys)"

subsection \<open>Decryption shares and attestations\<close>

definition dec_share :: "fe6 \<Rightarrow> G2Pt \<Rightarrow> G2Pt" where
  "dec_share s R = G2_Pmul R s"

definition m2_verify_share :: "G2Pt \<Rightarrow> Pt \<Rightarrow> G2Pt \<Rightarrow> bool" where
  "m2_verify_share D Y1 R =
     (case to_affine gen of None \<Rightarrow> False
      | Some (g_x, g_y) \<Rightarrow>
        case to_affine Y1 of None \<Rightarrow> False
        | Some (j_x, j_y) \<Rightarrow> fq12_eq (pairing g_x g_y D) (pairing j_x j_y R))"

definition dec_preimage :: "u64 \<Rightarrow> bytes \<Rightarrow> bytes \<Rightarrow> G2Pt \<Rightarrow> bytes option" where
  "dec_preimage ep oroot cth D =
     map_option (\<lambda>d. ascii ''HSM_DEC_SHARE_V2'' @ le_bytes 8 ep @ oroot @ cth @ d) (ser_g2 D)"

definition attest :: "fr \<Rightarrow> u64 \<Rightarrow> bytes \<Rightarrow> bytes \<Rightarrow> G2Pt \<Rightarrow> Pt option" where
  "attest s ep oroot cth D =
     (case dec_preimage ep oroot cth D of None \<Rightarrow> Some Pt0
      | Some pre \<Rightarrow> map_option (sig_partial s) (hash_to_g1 pre))"

text \<open>The check shared by attestations and user signatures.\<close>

definition verify_on_hash :: "Pt \<Rightarrow> Pt \<Rightarrow> G2Pt \<Rightarrow> bool" where
  "verify_on_hash sig H Y =
     (case to_affine sig of None \<Rightarrow> False
      | Some (s_x, s_y) \<Rightarrow>
        case to_affine H of None \<Rightarrow> False
        | Some (h_x, h_y) \<Rightarrow> bls_verify_aff s_x s_y h_x h_y Y)"

definition verify_attest :: "Pt \<Rightarrow> u64 \<Rightarrow> bytes \<Rightarrow> bytes \<Rightarrow> G2Pt \<Rightarrow> G2Pt \<Rightarrow> bool option" where
  "verify_attest sig ep oroot cth D Y2 =
     (case dec_preimage ep oroot cth D of None \<Rightarrow> Some False
      | Some pre \<Rightarrow> map_option (\<lambda>H. verify_on_hash sig H Y2) (hash_to_g1 pre))"

definition aggregate_shares :: "fe6 list \<Rightarrow> G2Pt list \<Rightarrow> G2Pt" where
  "aggregate_shares lams Ds =
     foldl (\<lambda>D i. G2_Padd D (G2_Pmul (Ds ! i) (lams ! i))) G2Pt0 [0..<length Ds]"

subsection \<open>Equality of discrete logarithms\<close>

definition ser_g2_or_inf :: "G2Pt \<Rightarrow> bytes option" where
  "ser_g2_or_inf P =
     (if G2_PisInf P then Some (0 # replicate 192 0) else map_option (\<lambda>b. 1 # b) (ser_g2 P))"

text \<open>The comparison looks at the first component of each coordinate only.\<close>

definition m2_g2_eq :: "G2Pt \<Rightarrow> G2Pt \<Rightarrow> bool" where
  "m2_g2_eq A B =
     (case (G2_to_affine A, G2_to_affine B) of
        (None, None) \<Rightarrow> True
      | (Some (ax, axb, ay, ayb), Some (bx, bxb, by', byb)) \<Rightarrow> ax = bx \<and> ay = by'
      | _ \<Rightarrow> False)"

definition fr_ser :: "fr \<Rightarrow> bytes" where
  "fr_ser s = limbs_ser (take 4 (fr_to_fe6 s)) @ replicate 16 0"

definition mask253 :: "bytes \<Rightarrow> bytes" where
  "mask253 d = d[31 := d ! 31 AND 0x1F]"

definition digest_limbs :: "bytes \<Rightarrow> u64 list" where
  "digest_limbs d = map (\<lambda>i. le_word (take 8 (drop (8 * i) d))) [0..<4]"

text \<open>The last argument counts the draws left before the counter reaches 64.\<close>

fun fr_draws :: "bytes \<Rightarrow> bytes \<Rightarrow> nat \<Rightarrow> nat \<Rightarrow> nat \<Rightarrow> fr option" where
  "fr_draws d0 stmt ctr0 ctr 0 = None"
| "fr_draws d0 stmt ctr0 ctr (Suc n) =
     (let d = if ctr = ctr0 then d0 else sha256 (d0 @ stmt @ [of_nat ctr])
      in case fr_from_limbs (digest_limbs (mask253 d)) of
           Some x \<Rightarrow> Some x
         | None \<Rightarrow> fr_draws d0 stmt ctr0 (Suc ctr) n)"

definition fr_from_digest :: "bytes \<Rightarrow> bytes \<Rightarrow> u8 \<Rightarrow> fr option" where
  "fr_from_digest d0 stmt ctr0 = fr_draws d0 stmt (unat ctr0) (unat ctr0) (64 - unat ctr0)"

definition dleq_challenge :: "bytes \<Rightarrow> fr" where
  "dleq_challenge stmt =
     (case fr_from_digest (sha256 (ascii ''HSM_DLEQ_V1'' @ stmt)) stmt 0 of None \<Rightarrow> fr_one | Some c \<Rightarrow> c)"

record Dleq =
  dl_A1 :: G2Pt
  dl_A2 :: G2Pt
  dl_z :: fr

definition dleq_stmt :: "bytes \<Rightarrow> bytes \<Rightarrow> bytes \<Rightarrow> bytes \<Rightarrow> bytes \<Rightarrow> bytes" where
  "dleq_stmt rs ys ds a1s a2s = take 10 (ascii ''HSM_DLEQ_V1'') @ rs @ ys @ ds @ a1s @ a2s"

definition dleq_prove :: "fr \<Rightarrow> G2Pt \<Rightarrow> G2Pt \<Rightarrow> G2Pt \<Rightarrow> Dleq option" where
  "dleq_prove s R Y D =
     (case (ser_g2_or_inf R, ser_g2_or_inf Y, ser_g2_or_inf D) of
        (Some rs, Some ys, Some ds) \<Rightarrow>
        (case fr_from_digest (sha256 (ascii ''HSM_DLEQ_V1'' @ fr_ser s @ rs @ ys @ ds)) ds 0 of None \<Rightarrow> None
         | Some k \<Rightarrow>
           let kk = fr_to_fe6 k; A1 = G2_Pmul G2_gen kk; A2 = G2_Pmul R kk
           in case (ser_g2_or_inf A1, ser_g2_or_inf A2) of
                (Some a1s, Some a2s) \<Rightarrow>
                let c = dleq_challenge (dleq_stmt rs ys ds a1s a2s)
                in Some \<lparr>dl_A1 = A1, dl_A2 = A2, dl_z = fr_add k (fr_mul c s)\<rparr>
              | _ \<Rightarrow> None)
      | _ \<Rightarrow> None)"

definition dleq_verify :: "Dleq \<Rightarrow> G2Pt \<Rightarrow> G2Pt \<Rightarrow> G2Pt \<Rightarrow> bool" where
  "dleq_verify p R Y D =
     (case (ser_g2_or_inf R, ser_g2_or_inf Y, ser_g2_or_inf D, ser_g2_or_inf (dl_A1 p), ser_g2_or_inf (dl_A2 p)) of
        (Some rs, Some ys, Some ds, Some a1s, Some a2s) \<Rightarrow>
        let c = dleq_challenge (dleq_stmt rs ys ds a1s a2s);
            zk = fr_to_fe6 (dl_z p); ck = fr_to_fe6 c
        in m2_g2_eq (G2_Pmul G2_gen zk) (G2_Padd (dl_A1 p) (G2_Pmul Y ck))
           \<and> m2_g2_eq (G2_Pmul R zk) (G2_Padd (dl_A2 p) (G2_Pmul D ck))
      | _ \<Rightarrow> False)"

definition verify_aggregate :: "G2Pt \<Rightarrow> Pt \<Rightarrow> G2Pt \<Rightarrow> bool" where
  "verify_aggregate D_agg Y1_agg R =
     (case to_affine gen of None \<Rightarrow> False
      | Some (g_x, g_y) \<Rightarrow>
        case to_affine Y1_agg of None \<Rightarrow> False
        | Some (y_x, y_y) \<Rightarrow> fq12_eq (pairing g_x g_y D_agg) (pairing y_x y_y R))"

definition blame_scan :: "(u64 \<times> G2Pt) list \<Rightarrow> Dleq list \<Rightarrow> G2Pt list \<Rightarrow> G2Pt \<Rightarrow> u64 list" where
  "blame_scan shares proofs Ys R =
     (if length shares \<noteq> length proofs \<or> length shares \<noteq> length Ys then [0]
      else map (\<lambda>i. fst (shares ! i))
             (filter (\<lambda>i. \<not> dleq_verify (proofs ! i) R (Ys ! i) (snd (shares ! i))) [0..<length shares]))"

subsection \<open>User authorisation and partial signatures\<close>

definition user_preimage :: "u64 \<Rightarrow> bytes \<Rightarrow> u64 \<Rightarrow> u64 \<Rightarrow> G2Pt \<Rightarrow> bytes option" where
  "user_preimage ep sender nonce fee R =
     map_option (\<lambda>r. ascii ''HSM_SIG_USER_V1'' @ ser_hdr ep sender nonce fee @ r) (ser_g2 R)"

definition user_attest :: "fr \<Rightarrow> u64 \<Rightarrow> bytes \<Rightarrow> u64 \<Rightarrow> u64 \<Rightarrow> G2Pt \<Rightarrow> Pt option" where
  "user_attest sk ep sender nonce fee R =
     (case user_preimage ep sender nonce fee R of None \<Rightarrow> Some Pt0
      | Some pre \<Rightarrow> map_option (sig_partial sk) (hash_to_g1 pre))"

definition user_verify :: "Pt \<Rightarrow> G2Pt \<Rightarrow> u64 \<Rightarrow> bytes \<Rightarrow> u64 \<Rightarrow> u64 \<Rightarrow> G2Pt \<Rightarrow> bool option" where
  "user_verify sig PK ep sender nonce fee R =
     (case user_preimage ep sender nonce fee R of None \<Rightarrow> Some False
      | Some pre \<Rightarrow> map_option (\<lambda>H. verify_on_hash sig H PK) (hash_to_g1 pre))"

record PartialSig =
  ps_id :: u64
  ps_sig :: Pt

definition member_partial :: "fr \<Rightarrow> u64 \<Rightarrow> Pt \<Rightarrow> PartialSig" where
  "member_partial sk i H = \<lparr>ps_id = i, ps_sig = sig_partial sk H\<rparr>"

definition aggregate_partials :: "PartialSig list \<Rightarrow> Pt" where
  "aggregate_partials ps =
     (case those (map (\<lambda>p. fr_from_u64 (ps_id p)) ps) of None \<Rightarrow> Pt0
      | Some xs \<Rightarrow>
        case lagrange_zero xs of None \<Rightarrow> Pt0
        | Some lam \<Rightarrow> sig_aggregate lam (map ps_sig ps))"

definition beacon_from_partials :: "PartialSig list \<Rightarrow> u64 \<Rightarrow> Digest \<Rightarrow> Digest" where
  "beacon_from_partials ps ep prev =
     (case g1_serialize (aggregate_partials ps) of None \<Rightarrow> zero_digest
      | Some ser \<Rightarrow> sha256d ser)"

subsection \<open>Round trip and tampering of the cipher\<close>

lemma length_dem_xor [simp]: "length (dem_xor k p) = length p"
  by (simp add: dem_xor_def)

lemma dem_xor_involution: "dem_xor k (dem_xor k p) = p"
  by (rule nth_equalityI) (simp_all add: dem_xor_def xor.assoc)

lemma dem_round_trip: "dem_decrypt k hdr (fst (dem_encrypt k hdr p)) (snd (dem_encrypt k hdr p)) = (p, True)"
  by (simp add: dem_decrypt_def dem_encrypt_def Let_def dem_xor_involution)

text \<open>A ciphertext accepted in place of another under the same tag is a collision of the hash.\<close>

lemma dem_tamper:
  assumes "snd (dem_decrypt k hdr ct' (snd (dem_encrypt k hdr p)))" and "ct' \<noteq> fst (dem_encrypt k hdr p)"
  shows "\<exists>u v. u \<noteq> v \<and> sha256 u = sha256 v"
  using assms unfolding dem_decrypt_def dem_encrypt_def dem_tag_def Let_def
  by (intro exI [of _ "ascii ''HSM_DEM_TAG_V1'' @ k @ hdr @ ct'"] exI [of _ "ascii ''HSM_DEM_TAG_V1'' @ k @ hdr @ dem_xor k p"]) simp

end
