(* ===== verification/Vote.thy ===== *)
theory Vote
  imports P2p M2
begin

text \<open>
  The vote wire layer of \<open>src/include/hsma/msscvote.hpp\<close>: the canonical preimages, signing and
  verification, the two vote encodings with their decoder, batch verification, and the signed
  order lock.
\<close>

subsection \<open>Preimages and signatures\<close>

definition PREIMAGE_SIZE :: nat where
  "PREIMAGE_SIZE = 108"

definition SIG_SIZE :: nat where
  "SIG_SIZE = 96"

definition VOTE_PAYLOAD :: nat where
  "VOTE_PAYLOAD = PREIMAGE_SIZE + SIG_SIZE"

definition VOTE_PAYLOAD_V2 :: nat where
  "VOTE_PAYLOAD_V2 = PREIMAGE_SIZE + SIG_SIZE + 8"

definition vote_preimage :: "u32 \<Rightarrow> Digest \<Rightarrow> Digest \<Rightarrow> u64 \<Rightarrow> Digest \<Rightarrow> bytes" where
  "vote_preimage ep wr conf rnd pref =
     be_bytes 4 ep @ to_bytes wr @ to_bytes conf @ to_bytes pref @ be_bytes 8 rnd"

definition sign_vote :: "fr \<Rightarrow> bytes \<Rightarrow> Pt option" where
  "sign_vote S pre = map_option (sig_partial S) (hash_to_g1 pre)"

definition verify_vote :: "Pt \<Rightarrow> bytes \<Rightarrow> G2Pt \<Rightarrow> bool option" where
  "verify_vote sigma pre Y = map_option (\<lambda>H. verify_on_hash sigma H Y) (hash_to_g1 pre)"

definition verify_vote_member :: "Pt \<Rightarrow> bytes \<Rightarrow> G2Pt \<Rightarrow> bool option" where
  "verify_vote_member sigma pre Y_claimed = verify_vote sigma pre Y_claimed"

subsection \<open>The vote on the wire\<close>

definition sig_bytes :: "fe6 \<times> fe6 \<Rightarrow> bytes" where
  "sig_bytes xy = concat (map (be_bytes 8) (fst xy)) @ concat (map (be_bytes 8) (snd xy))"

definition encode_vote :: "u32 \<Rightarrow> Digest \<Rightarrow> Digest \<Rightarrow> u64 \<Rightarrow> Digest \<Rightarrow> Pt \<Rightarrow> Message" where
  "encode_vote ep wr conf rnd pref sigma =
     \<lparr>m_type = 0x06,
      m_payload = vote_preimage ep wr conf rnd pref
        @ (case to_affine sigma of None \<Rightarrow> [] | Some xy \<Rightarrow> sig_bytes xy)\<rparr>"

definition encode_vote_v2 :: "u32 \<Rightarrow> Digest \<Rightarrow> Digest \<Rightarrow> u64 \<Rightarrow> Digest \<Rightarrow> Pt \<Rightarrow> u64 \<Rightarrow> Message" where
  "encode_vote_v2 ep wr conf rnd pref sigma member =
     (let m = encode_vote ep wr conf rnd pref sigma
      in if length (m_payload m) \<noteq> VOTE_PAYLOAD then m
         else m\<lparr>m_payload := m_payload m @ be_bytes 8 member\<rparr>)"

record DecodedVote =
  dv_epoch :: u32
  dv_round :: u64
  dv_wroot :: Digest
  dv_conflict :: Digest
  dv_pref :: Digest
  dv_sigma :: Pt
  dv_member :: u64
  dv_has_member :: bool
  dv_ok :: bool

definition dv_none :: DecodedVote where
  "dv_none = \<lparr>dv_epoch = 0, dv_round = 0, dv_wroot = zero_digest, dv_conflict = zero_digest,
     dv_pref = zero_digest, dv_sigma = Pt0, dv_member = 0, dv_has_member = False, dv_ok = False\<rparr>"

definition slice :: "nat \<Rightarrow> nat \<Rightarrow> bytes \<Rightarrow> bytes" where
  "slice k n p = take n (drop k p)"

text \<open>Six limbs of eight bytes, most significant first, from an offset.\<close>

definition read_limbs :: "nat \<Rightarrow> bytes \<Rightarrow> fe6" where
  "read_limbs k p = map (\<lambda>i. be_word (slice (k + 8 * i) 8 p)) [0..<6]"

definition decode_vote :: "Message \<Rightarrow> DecodedVote" where
  "decode_vote m =
     (let p = m_payload m
      in if m_type m \<noteq> 0x06 then dv_none
         else if length p \<noteq> VOTE_PAYLOAD \<and> length p \<noteq> VOTE_PAYLOAD_V2 then dv_none
         else
           \<lparr>dv_epoch = be_word (slice 0 4 p), dv_round = be_word (slice 100 8 p),
            dv_wroot = from_bytes (slice 4 32 p), dv_conflict = from_bytes (slice 36 32 p),
            dv_pref = from_bytes (slice 68 32 p),
            dv_sigma = from_affine (read_limbs PREIMAGE_SIZE p) (read_limbs (PREIMAGE_SIZE + 48) p),
            dv_member = (if length p = VOTE_PAYLOAD_V2 then be_word (slice (PREIMAGE_SIZE + SIG_SIZE) 8 p) else 0),
            dv_has_member = (length p = VOTE_PAYLOAD_V2), dv_ok = True\<rparr>)"

subsection \<open>Batches\<close>

record AggregateVerify =
  sigma_agg :: Pt
  Y_agg :: G2Pt
  av_count :: u32
  initialized :: bool

definition av_new :: AggregateVerify where
  "av_new = \<lparr>sigma_agg = Pt0, Y_agg = G2Pt0, av_count = 0, initialized = False\<rparr>"

definition agg_accumulate :: "AggregateVerify \<Rightarrow> Pt \<Rightarrow> G2Pt \<Rightarrow> AggregateVerify" where
  "agg_accumulate av sigma Y =
     (let av1 = (if \<not> initialized av then av\<lparr>sigma_agg := sigma, Y_agg := Y, initialized := True\<rparr>
                 else av\<lparr>sigma_agg := Padd (sigma_agg av) sigma, Y_agg := G2_Padd (Y_agg av) Y\<rparr>)
      in av1\<lparr>av_count := av_count av1 + 1\<rparr>)"

definition agg_verify :: "AggregateVerify \<Rightarrow> bytes \<Rightarrow> bool option" where
  "agg_verify av pre =
     (if \<not> initialized av \<or> av_count av = 0 then Some False
      else map_option (\<lambda>H. verify_on_hash (sigma_agg av) H (Y_agg av)) (hash_to_g1 pre))"

subsection \<open>The signed order lock\<close>

definition ORDER_SIG_WIRE :: nat where
  "ORDER_SIG_WIRE = 4 + 32 + SIG_SIZE + 8"

definition order_sig_preimage :: "u32 \<Rightarrow> bytes \<Rightarrow> bytes" where
  "order_sig_preimage ep oroot = ascii ''HSM_ORDERLOCK_V1'' @ be_bytes 4 ep @ oroot"

definition sign_order :: "fr \<Rightarrow> bytes \<Rightarrow> Pt option" where
  "sign_order S pre = map_option (sig_partial S) (hash_to_g1 pre)"

definition encode_order_sig :: "u32 \<Rightarrow> bytes \<Rightarrow> Pt \<Rightarrow> u64 \<Rightarrow> Message" where
  "encode_order_sig ep oroot sigma member =
     \<lparr>m_type = 0x0D,
      m_payload = be_bytes 4 ep @ oroot
        @ (case to_affine sigma of None \<Rightarrow> [] | Some xy \<Rightarrow> sig_bytes xy @ be_bytes 8 member)\<rparr>"

record DecodedOrderSig =
  do_epoch :: u32
  do_oroot :: bytes
  do_member :: u64
  do_sigma :: Pt
  do_ok :: bool

definition decode_order_sig :: "Message \<Rightarrow> DecodedOrderSig" where
  "decode_order_sig m =
     (let p = m_payload m
      in if m_type m \<noteq> 0x0D \<or> length p \<noteq> ORDER_SIG_WIRE
         then \<lparr>do_epoch = 0, do_oroot = replicate 32 0, do_member = 0, do_sigma = Pt0, do_ok = False\<rparr>
         else
           \<lparr>do_epoch = be_word (slice 0 4 p), do_oroot = slice 4 32 p,
            do_member = be_word (slice (36 + SIG_SIZE) 8 p),
            do_sigma = from_affine (read_limbs 36 p) (read_limbs (36 + 48) p), do_ok = True\<rparr>)"

subsection \<open>Round trips\<close>

lemma slice_append: "length a = k \<Longrightarrow> length b = n \<Longrightarrow> slice k n (a @ b @ r) = b"
  by (simp add: slice_def)

lemma length_concat_be: "length (concat (map (be_bytes 8) x)) = 8 * length x"
  by (induction x) simp_all

lemma read_limbs_append:
  "length a = k \<Longrightarrow> length x = 6 \<Longrightarrow> read_limbs k (a @ concat (map (be_bytes 8) x) @ r) = x"
proof (rule nth_equalityI)
  assume a: "length a = k" and x: "length x = 6"
  then show "length (read_limbs k (a @ concat (map (be_bytes 8) x) @ r)) = length x" by (simp add: read_limbs_def)
  fix i assume "i < length (read_limbs k (a @ concat (map (be_bytes 8) x) @ r))"
  then have i: "i < 6" by (simp add: read_limbs_def)
  have s: "x = take i x @ x ! i # drop (Suc i) x" using i x by (simp add: id_take_nth_drop)
  have "slice (k + 8 * i) 8 ((a @ concat (map (be_bytes 8) (take i x))) @ be_bytes 8 (x ! i) @ concat (map (be_bytes 8) (drop (Suc i) x)) @ r)
      = be_bytes 8 (x ! i)"
    using a i x by (intro slice_append) (simp_all add: length_concat_be)
  then have "slice (k + 8 * i) 8 (a @ concat (map (be_bytes 8) x) @ r) = be_bytes 8 (x ! i)"
    by (subst s) simp
  then show "read_limbs k (a @ concat (map (be_bytes 8) x) @ r) ! i = x ! i"
    using i by (simp add: read_limbs_def codec_u64)
qed

definition pt_canon :: "Pt \<Rightarrow> bool" where
  "pt_canon P \<longleftrightarrow> q_canon (px P) \<and> q_canon (py P) \<and> q_canon (pz P)"

lemma to_affine_canon:
  assumes "pt_canon P" and "to_affine P = Some (x, y)"
  shows "q_canon x" and "q_canon y"
proof -
  let ?zi = "mpow QC (pz P) (cxm2 CX)"
  have zi: "q_canon ?zi" using assms(1) by (intro mpow_canon_dec) (simp add: pt_canon_def)
  have "x = mto QC (mmul QC (px P) (mmul QC ?zi ?zi))" "y = mto QC (mmul QC (py P) (mmul QC (mmul QC ?zi ?zi) ?zi))"
    using assms(2) by (auto simp: to_affine_def Let_def split: if_splits)
  then show "q_canon x" "q_canon y" using assms(1) zi by (simp_all add: pt_canon_def)
qed

lemma length_vote_preimage [simp]: "length (vote_preimage ep wr conf rnd pref) = 108"
  by (simp add: vote_preimage_def length_to_bytes)

lemma vote_preimage_slices:
  "slice 0 4 (vote_preimage ep wr conf rnd pref @ r) = be_bytes 4 ep"
  "slice 4 32 (vote_preimage ep wr conf rnd pref @ r) = to_bytes wr"
  "slice 36 32 (vote_preimage ep wr conf rnd pref @ r) = to_bytes conf"
  "slice 68 32 (vote_preimage ep wr conf rnd pref @ r) = to_bytes pref"
  "slice 100 8 (vote_preimage ep wr conf rnd pref @ r) = be_bytes 8 rnd"
  by (simp_all add: slice_def vote_preimage_def length_to_bytes)

lemma length_sig_bytes: "length (fst xy) = 6 \<Longrightarrow> length (snd xy) = 6 \<Longrightarrow> length (sig_bytes xy) = 96"
  by (simp add: sig_bytes_def length_concat_be)

lemma vote_preimage_inj:
  assumes "vote_preimage ep wr conf rnd pref = vote_preimage ep' wr' conf' rnd' pref'"
  shows "ep = ep' \<and> wr = wr' \<and> conf = conf' \<and> rnd = rnd' \<and> pref = pref'"
proof -
  let ?p = "vote_preimage ep wr conf rnd pref" and ?p' = "vote_preimage ep' wr' conf' rnd' pref'"
  have "slice k n (?p @ []) = slice k n (?p' @ [])" for k n using assms by simp
  from this [of 0 4] this [of 4 32] this [of 36 32] this [of 68 32] this [of 100 8]
  have eqs: "be_bytes 4 ep = be_bytes 4 ep'" "to_bytes wr = to_bytes wr'" "to_bytes conf = to_bytes conf'"
    "to_bytes pref = to_bytes pref'" "be_bytes 8 rnd = be_bytes 8 rnd'"
    unfolding vote_preimage_slices .
  from arg_cong [OF eqs(1), of "be_word :: bytes \<Rightarrow> u32"] arg_cong [OF eqs(2), of from_bytes] arg_cong [OF eqs(3), of from_bytes]
    arg_cong [OF eqs(4), of from_bytes] arg_cong [OF eqs(5), of "be_word :: bytes \<Rightarrow> u64"]
  show ?thesis by (simp add: codec_u32 codec_u64 from_to_bytes)
qed

lemma decode_vote_v1:
  assumes "pt_canon sigma" and "to_affine sigma = Some (x, y)"
  shows "decode_vote (encode_vote ep wr conf rnd pref sigma) =
    \<lparr>dv_epoch = ep, dv_round = rnd, dv_wroot = wr, dv_conflict = conf, dv_pref = pref,
     dv_sigma = from_affine x y, dv_member = 0, dv_has_member = False, dv_ok = True\<rparr>"
proof -
  note c = to_affine_canon [OF assms]
  have l: "length x = 6" "length y = 6" using c by (simp_all add: q_canon_def)
  let ?p = "vote_preimage ep wr conf rnd pref"
  have enc: "encode_vote ep wr conf rnd pref sigma
      = \<lparr>m_type = 6, m_payload = ?p @ concat (map (be_bytes 8) x) @ concat (map (be_bytes 8) y)\<rparr>"
    by (simp add: encode_vote_def assms(2) sig_bytes_def)
  have "read_limbs 108 (?p @ concat (map (be_bytes 8) x) @ concat (map (be_bytes 8) y)) = x"
    using l by (intro read_limbs_append) simp_all
  moreover have "read_limbs 156 ((?p @ concat (map (be_bytes 8) x)) @ concat (map (be_bytes 8) y) @ []) = y"
    using l by (intro read_limbs_append) (simp_all add: length_concat_be)
  ultimately show ?thesis
    using l by (simp add: decode_vote_def Let_def enc VOTE_PAYLOAD_def VOTE_PAYLOAD_V2_def
        PREIMAGE_SIZE_def SIG_SIZE_def length_concat_be vote_preimage_slices codec_u32 codec_u64 from_to_bytes)
qed

lemma decode_vote_v2:
  assumes "pt_canon sigma" and "to_affine sigma = Some (x, y)"
  shows "decode_vote (encode_vote_v2 ep wr conf rnd pref sigma member) =
    \<lparr>dv_epoch = ep, dv_round = rnd, dv_wroot = wr, dv_conflict = conf, dv_pref = pref,
     dv_sigma = from_affine x y, dv_member = member, dv_has_member = True, dv_ok = True\<rparr>"
proof -
  note c = to_affine_canon [OF assms]
  have l: "length x = 6" "length y = 6" using c by (simp_all add: q_canon_def)
  let ?p = "vote_preimage ep wr conf rnd pref" and ?b = "concat (map (be_bytes 8) x) @ concat (map (be_bytes 8) y)"
  have pay: "m_payload (encode_vote ep wr conf rnd pref sigma) = ?p @ ?b"
    by (simp add: encode_vote_def assms(2) sig_bytes_def)
  then have v2: "encode_vote_v2 ep wr conf rnd pref sigma member = \<lparr>m_type = 6, m_payload = ?p @ ?b @ be_bytes 8 member\<rparr>"
    using l by (simp add: encode_vote_v2_def Let_def VOTE_PAYLOAD_def PREIMAGE_SIZE_def SIG_SIZE_def length_concat_be)
      (simp add: encode_vote_def assms(2) sig_bytes_def)
  have "read_limbs 108 (?p @ concat (map (be_bytes 8) x) @ (concat (map (be_bytes 8) y) @ be_bytes 8 member)) = x"
    using l by (intro read_limbs_append) simp_all
  moreover have "read_limbs 156 ((?p @ concat (map (be_bytes 8) x)) @ concat (map (be_bytes 8) y) @ be_bytes 8 member) = y"
    using l by (intro read_limbs_append) (simp_all add: length_concat_be)
  moreover have "slice 204 8 ((?p @ ?b) @ be_bytes 8 member @ []) = be_bytes 8 member"
    using l by (intro slice_append) (simp_all add: length_concat_be)
  ultimately show ?thesis
    using l by (simp add: decode_vote_def Let_def v2 VOTE_PAYLOAD_def VOTE_PAYLOAD_V2_def
        PREIMAGE_SIZE_def SIG_SIZE_def length_concat_be vote_preimage_slices codec_u32 codec_u64 from_to_bytes)
qed

lemma decode_order_sig_encode:
  assumes "pt_canon sigma" and "to_affine sigma = Some (x, y)" and "length oroot = 32"
  shows "decode_order_sig (encode_order_sig ep oroot sigma member) =
    \<lparr>do_epoch = ep, do_oroot = oroot, do_member = member, do_sigma = from_affine x y, do_ok = True\<rparr>"
proof -
  note c = to_affine_canon [OF assms(1,2)]
  have l: "length x = 6" "length y = 6" using c by (simp_all add: q_canon_def)
  let ?p = "be_bytes 4 ep @ oroot" and ?x = "concat (map (be_bytes 8) x)" and ?y = "concat (map (be_bytes 8) y)"
  have pay: "m_payload (encode_order_sig ep oroot sigma member) = ?p @ ?x @ ?y @ be_bytes 8 member"
    by (simp add: encode_order_sig_def assms(2) sig_bytes_def)
  have "read_limbs 36 (?p @ ?x @ ?y @ be_bytes 8 member) = x"
    using l assms(3) by (intro read_limbs_append) simp_all
  moreover have "read_limbs 84 ((?p @ ?x) @ ?y @ be_bytes 8 member) = y"
    using l assms(3) by (intro read_limbs_append) (simp_all add: length_concat_be)
  moreover have "slice 132 8 ((?p @ ?x @ ?y) @ be_bytes 8 member @ []) = be_bytes 8 member"
    using l assms(3) by (intro slice_append) (simp_all add: length_concat_be)
  moreover have "slice 0 4 (?p @ r) = be_bytes 4 ep" "slice 4 32 (?p @ r) = oroot" for r
    using assms(3) by (simp_all add: slice_def)
  ultimately show ?thesis
    using l assms(3) by (simp add: decode_order_sig_def Let_def pay ORDER_SIG_WIRE_def SIG_SIZE_def length_concat_be codec_u32 codec_u64)
      (simp add: encode_order_sig_def)
qed

subsection \<open>Every finite signature travels\<close>

lemma to_affine_finite: "\<not> PisInf P \<Longrightarrow> \<exists>x y. to_affine P = Some (x, y)"
  by (simp add: to_affine_def Let_def)

lemma to_affine_None: "to_affine P = None \<longleftrightarrow> PisInf P"
  by (simp add: to_affine_def Let_def)

lemma gen_finite: "\<not> PisInf gen" "pt_canon gen"
proof -
  show "\<not> PisInf gen" by (simp add: PisInf_def gen_def from_affine_def bn_isz_def Q_R1_def)
  show "pt_canon gen" using g1_onD [OF gen_on] by (simp add: pt_canon_def)
qed

text \<open>A signature at infinity leaves the preimage alone, which the decoder refuses.\<close>

lemma decode_vote_infinity:
  assumes "PisInf sigma"
  shows "\<not> dv_ok (decode_vote (encode_vote_v2 ep wr conf rnd pref sigma member))"
proof -
  have "to_affine sigma = None" using assms by (simp add: to_affine_def)
  then show ?thesis
    by (simp add: decode_vote_def encode_vote_def encode_vote_v2_def
        dv_none_def VOTE_PAYLOAD_def VOTE_PAYLOAD_V2_def PREIMAGE_SIZE_def SIG_SIZE_def Let_def)
qed

end
