(* ===== verification/Envelope.thy ===== *)
theory Envelope
  imports P2p M2 "HOL-Library.Multiset"
begin

text \<open>
  The encrypted mempool: envelopes and their wire format (\<open>src/include/hsma/m2envelope.hpp\<close>) and
  the content-addressed store with its ordering ceremony and its batches for late joiners
  (\<open>EnvelopeStore\<close> in \<open>src/include/hsma/mempool.hpp\<close>). The words of the random device are an
  argument. A buffer the code reads without writing it is the argument \<open>junk\<close>; a read outside a
  buffer is the value None.
\<close>

subsection \<open>Sealing\<close>

record Envelope =
  env_R :: G2Pt
  env_ct :: bytes
  env_tag :: bytes
  env_cth :: bytes
  env_hdr :: bytes

definition pt_to_bytes :: "bytes \<Rightarrow> G2Pt \<Rightarrow> bytes" where
  "pt_to_bytes junk P = (case ser_g2 P of None \<Rightarrow> junk | Some b \<Rightarrow> b)"

definition os_bytes :: "(nat \<Rightarrow> u32) \<Rightarrow> nat \<Rightarrow> bytes" where
  "os_bytes rnd attempt = concat (map (\<lambda>w. le_bytes 4 (rnd (8 * attempt + w))) [0..<8])"

fun os_draws :: "(nat \<Rightarrow> u32) \<Rightarrow> nat \<Rightarrow> nat \<Rightarrow> fr option" where
  "os_draws rnd attempt 0 = None"
| "os_draws rnd attempt (Suc n) =
     (case fr_from_limbs (digest_limbs (mask253 (os_bytes rnd attempt))) of
        Some x \<Rightarrow> Some x
      | None \<Rightarrow> os_draws rnd (Suc attempt) n)"

definition fr_from_os :: "(nat \<Rightarrow> u32) \<Rightarrow> fr option" where
  "fr_from_os rnd = os_draws rnd 0 64"

text \<open>What both senders do with the ephemeral scalar.\<close>

definition seal_key :: "bytes \<Rightarrow> G2Pt \<Rightarrow> u64 \<Rightarrow> fe6 \<Rightarrow> bytes" where
  "seal_key junk X_E ep rk =
     kdf (pt_to_bytes junk (G2_Pmul X_E rk)) (pt_to_bytes junk X_E) (ser_hdr ep (replicate 32 0) 0 0)"

definition seal :: "bytes \<Rightarrow> bytes \<Rightarrow> G2Pt \<Rightarrow> u64 \<Rightarrow> fe6 \<Rightarrow> Envelope" where
  "seal junk payload X_E ep rk =
     (let R = G2_Pmul G2_gen rk;
          hdr = ser_hdr ep (replicate 32 0) 0 0;
          (ct, tag) = dem_encrypt (seal_key junk X_E ep rk) hdr payload
      in \<lparr>env_R = R, env_ct = ct, env_tag = tag, env_cth = ct_hash (pt_to_bytes junk R) ct, env_hdr = hdr\<rparr>)"

definition env_encrypt :: "(nat \<Rightarrow> u32) \<Rightarrow> bytes \<Rightarrow> bytes \<Rightarrow> G2Pt \<Rightarrow> u64 \<Rightarrow> Envelope option" where
  "env_encrypt rnd junk payload X_E ep =
     map_option (\<lambda>r. seal junk payload X_E ep (fr_to_fe6 r)) (fr_from_os rnd)"

definition encrypt_det :: "bytes \<Rightarrow> bytes \<Rightarrow> G2Pt \<Rightarrow> u64 \<Rightarrow> u64 \<Rightarrow> Envelope" where
  "encrypt_det junk payload X_E ep r_u64 =
     seal junk payload X_E ep (fr_to_fe6 (the (fr_from_u64 r_u64)))"

subsection \<open>The wire format\<close>

definition encode_envelope :: "bytes \<Rightarrow> Envelope \<Rightarrow> Message" where
  "encode_envelope junk env =
     \<lparr>m_type = 0x07,
      m_payload = pt_to_bytes junk (env_R env) @ env_hdr env @ put_u32 (of_nat (length (env_ct env)))
        @ env_ct env @ env_tag env @ env_cth env\<rparr>"

record DecodedEnvelope =
  de_R :: G2Pt
  de_hdr :: bytes
  de_ct :: bytes
  de_tag :: bytes
  de_cth :: bytes
  de_ok :: bool

definition de_none :: DecodedEnvelope where
  "de_none = \<lparr>de_R = G2Pt0, de_hdr = replicate 56 0, de_ct = [], de_tag = replicate 32 0,
     de_cth = replicate 32 0, de_ok = False\<rparr>"

definition read_le_limbs :: "nat \<Rightarrow> bytes \<Rightarrow> fe6" where
  "read_le_limbs k p = map (\<lambda>i. le_word (take 8 (drop (k + 8 * i) p))) [0..<6]"

text \<open>
  The size check adds in 32 bits. A length near \<open>2 ^ 32\<close> wraps it, and the copy that follows reads
  outside the payload.
\<close>

definition decode_envelope :: "Message \<Rightarrow> DecodedEnvelope option" where
  "decode_envelope m =
     (let p = m_payload m
      in if m_type m \<noteq> 0x07 \<or> length p < 192 + 56 + 4 + 32 + 32 then Some de_none
         else
           let R = G2_from_affine (read_le_limbs 0 p) (read_le_limbs 48 p) (read_le_limbs 96 p) (read_le_limbs 144 p);
               hdr = take 56 (drop 192 p);
               ctlen = get_u32 (drop 248 p)
           in if length p < unat (248 + 4 + ctlen + 32 + 32 :: u32)
              then Some (de_none\<lparr>de_R := R, de_hdr := hdr\<rparr>)
              else if length p < 252 + unat ctlen + 64 then None
              else Some \<lparr>de_R = R, de_hdr = hdr, de_ct = take (unat ctlen) (drop 252 p),
                     de_tag = take 32 (drop (252 + unat ctlen) p),
                     de_cth = take 32 (drop (252 + unat ctlen + 32) p), de_ok = True\<rparr>)"

subsection \<open>The store\<close>

record EnvelopeStore =
  es_pool :: "Envelope list"
  es_idx :: "bytes \<rightharpoonup> nat"

definition es_new :: EnvelopeStore where
  "es_new = \<lparr>es_pool = [], es_idx = (\<lambda>_. None)\<rparr>"

definition es_push :: "EnvelopeStore \<Rightarrow> Envelope \<Rightarrow> nat option \<times> EnvelopeStore" where
  "es_push s env =
     (if es_idx s (env_cth env) \<noteq> None then (None, s)
      else let pos = length (es_pool s)
           in (Some pos, s\<lparr>es_idx := (es_idx s)(env_cth env \<mapsto> pos), es_pool := es_pool s @ [env]\<rparr>))"

definition es_contains :: "EnvelopeStore \<Rightarrow> bytes \<Rightarrow> bool" where
  "es_contains s cth \<longleftrightarrow> es_idx s cth \<noteq> None"

definition es_size :: "EnvelopeStore \<Rightarrow> nat" where
  "es_size s = length (es_pool s)"

definition es_at :: "EnvelopeStore \<Rightarrow> nat \<Rightarrow> Envelope" where
  "es_at s i = es_pool s ! i"

text \<open>The indices in the order of their keys; equal keys keep their places, which the code leaves open.\<close>

definition key_order :: "bytes list \<Rightarrow> nat list" where
  "key_order ks = sort_key (\<lambda>i. ks ! i) [0..<length ks]"

definition ordered_root :: "EnvelopeStore \<Rightarrow> bytes \<Rightarrow> bytes option" where
  "ordered_root s beacon =
     (if es_pool s = [] then None
      else let sks = map (\<lambda>e. m2_sort_key beacon (env_cth e)) (es_pool s);
               order = key_order sks
           in Some (order_root (map (\<lambda>i. env_cth (es_pool s ! i)) order)))"

subsection \<open>Batches for late joiners\<close>

definition batch_record :: "u64 \<Rightarrow> u64 \<times> bytes \<Rightarrow> bytes" where
  "batch_record member sh =
     le_bytes 4 (fst sh) @ le_bytes 8 member @ take 192 (snd sh)"

definition sync_batch_encode :: "u64 \<Rightarrow> (u64 \<times> bytes) list \<Rightarrow> bytes" where
  "sync_batch_encode member shares =
     le_bytes 4 (of_nat (length shares) :: u32) @ concat (map (batch_record member) shares)"

text \<open>The flag says whether the caller wants the member; the outer None is a read outside the payload.\<close>

definition sync_batch_decode :: "bool \<Rightarrow> bytes \<Rightarrow> ((u32 \<times> bytes) list \<times> u64) option option" where
  "sync_batch_decode want p =
     (if length p < 4 \<or> (length p - 4) mod 204 \<noteq> 0 then Some None
      else let cnt = le_word (take 4 p) :: u32
           in if unat cnt \<noteq> (length p - 4) div 204 then Some None
              else if want \<and> length p < 16 then None
              else let member = (if want then le_word (take 8 (drop 8 p)) else 0);
                       recs = map (\<lambda>r. let q = drop (4 + r * 204) p in (le_word (take 4 q), take 192 (drop 12 q))) [0..<unat cnt]
                   in Some (Some (recs, member)))"

subsection \<open>Envelope round trips\<close>

lemma length_limbs_ser: "length (limbs_ser x) = 8 * length x"
  by (induction x) (simp_all add: limbs_ser_def)

lemma read_le_limbs_append:
  "length a = k \<Longrightarrow> length x = 6 \<Longrightarrow> read_le_limbs k (a @ limbs_ser x @ r) = x"
proof (rule nth_equalityI)
  assume a: "length a = k" and x: "length x = 6"
  then show "length (read_le_limbs k (a @ limbs_ser x @ r)) = length x" by (simp add: read_le_limbs_def)
  fix i assume "i < length (read_le_limbs k (a @ limbs_ser x @ r))"
  then have i: "i < 6" by (simp add: read_le_limbs_def)
  have s: "x = take i x @ x ! i # drop (Suc i) x" using i x by (simp add: id_take_nth_drop)
  have "take 8 (drop (k + 8 * i) ((a @ limbs_ser (take i x)) @ le_bytes 8 (x ! i) @ limbs_ser (drop (Suc i) x) @ r))
      = le_bytes 8 (x ! i)"
    using a i x by (simp add: length_limbs_ser)
  then have "take 8 (drop (k + 8 * i) (a @ limbs_ser x @ r)) = le_bytes 8 (x ! i)"
    by (subst s) (simp add: limbs_ser_def)
  then show "read_le_limbs k (a @ limbs_ser x @ r) ! i = x ! i"
    using i by (simp add: read_le_limbs_def codec_u64)
qed

lemma decode_encode_envelope:
  assumes R: "ser_g2 (env_R env) = Some rs" "G2_to_affine (env_R env) = Some (xa, xb, ya, yb)"
    and len: "length xa = 6" "length xb = 6" "length ya = 6" "length yb = 6"
    and arr: "length (env_hdr env) = 56" "length (env_tag env) = 32" "length (env_cth env) = 32"
    and small: "length (env_ct env) + 316 < 2 ^ 32"
  shows "decode_envelope (encode_envelope junk env) =
    Some \<lparr>de_R = G2_from_affine xa xb ya yb, de_hdr = env_hdr env, de_ct = env_ct env, de_tag = env_tag env,
      de_cth = env_cth env, de_ok = True\<rparr>"
proof -
  let ?n = "length (env_ct env)" and ?w = "of_nat (length (env_ct env)) :: u32"
  have rs: "rs = limbs_ser xa @ limbs_ser xb @ limbs_ser ya @ limbs_ser yb" using R by (simp add: ser_g2_def)
  have lrs: "length rs = 192" using len by (simp add: rs length_limbs_ser)
  have n: "unat ?w = ?n" using small by (simp add: unat_of_nat)
  have wrap: "unat (248 + 4 + ?w + 32 + 32) = 316 + ?n"
  proof -
    have "248 + 4 + ?w + 32 + 32 = of_nat (316 + ?n)" by simp
    then show ?thesis using small by (simp only: unat_of_nat) simp
  qed
  let ?t = "env_hdr env @ put_u32 ?w @ env_ct env @ env_tag env @ env_cth env"
  have pay: "encode_envelope junk env = \<lparr>m_type = 7, m_payload = rs @ ?t\<rparr>"
    by (simp add: encode_envelope_def pt_to_bytes_def R(1))
  have "read_le_limbs 0 ([] @ limbs_ser xa @ (limbs_ser xb @ limbs_ser ya @ limbs_ser yb @ ?t)) = xa"
    "read_le_limbs 48 (limbs_ser xa @ limbs_ser xb @ (limbs_ser ya @ limbs_ser yb @ ?t)) = xb"
    "read_le_limbs 96 ((limbs_ser xa @ limbs_ser xb) @ limbs_ser ya @ (limbs_ser yb @ ?t)) = ya"
    "read_le_limbs 144 ((limbs_ser xa @ limbs_ser xb @ limbs_ser ya) @ limbs_ser yb @ ?t) = yb"
    using len by (intro read_le_limbs_append; simp add: length_limbs_ser)+
  then have lims: "read_le_limbs 0 (rs @ ?t) = xa" "read_le_limbs 48 (rs @ ?t) = xb" "read_le_limbs 96 (rs @ ?t) = ya"
    "read_le_limbs 144 (rs @ ?t) = yb" by (simp_all add: rs)
  show ?thesis
    unfolding decode_envelope_def pay Let_def using lims lrs arr n wrap by simp
qed

text \<open>The wrapped check: 316 bytes with the length field all ones are read far outside the payload.\<close>

definition wrap_payload :: bytes where
  "wrap_payload = replicate 248 0 @ [255, 255, 255, 255] @ replicate 64 0"

lemma decode_envelope_wraps: "decode_envelope \<lparr>m_type = 7, m_payload = wrap_payload\<rparr> = None"
proof -
  have g: "get_u32 (drop 248 wrap_payload) = 0xFFFFFFFF"
    by (simp add: wrap_payload_def get_u32_def)
  have l: "length wrap_payload = 316" by (simp add: wrap_payload_def)
  show ?thesis by (simp add: decode_envelope_def Let_def g l)
qed

text \<open>Whoever recovers the shared point decrypts what was sealed.\<close>

lemma seal_opens:
  "dem_decrypt (seal_key junk X_E ep rk) (env_hdr (seal junk payload X_E ep rk))
     (env_ct (seal junk payload X_E ep rk)) (env_tag (seal junk payload X_E ep rk)) = (payload, True)"
  using dem_round_trip [of "seal_key junk X_E ep rk" "ser_hdr ep (replicate 32 0) 0 0" payload]
  by (simp add: seal_def Let_def case_prod_beta)

subsection \<open>The store is addressed by content\<close>

definition es_inv :: "EnvelopeStore \<Rightarrow> bool" where
  "es_inv s \<longleftrightarrow> distinct (map env_cth (es_pool s))
     \<and> (\<forall>c i. es_idx s c = Some i \<longleftrightarrow> i < length (es_pool s) \<and> env_cth (es_pool s ! i) = c)"

lemma es_inv_new: "es_inv es_new"
  by (simp add: es_inv_def es_new_def)

lemma es_inv_contains: "es_inv s \<Longrightarrow> es_contains s c \<longleftrightarrow> c \<in> set (map env_cth (es_pool s))"
  unfolding in_set_conv_nth by (auto simp: es_inv_def es_contains_def)

lemma es_push_inv:
  assumes "es_inv s"
  shows "es_inv (snd (es_push s e))"
proof (cases "es_idx s (env_cth e)")
  case None
  then have new: "env_cth e \<notin> set (map env_cth (es_pool s))"
    using es_inv_contains [OF assms, of "env_cth e"] by (simp add: es_contains_def)
  then have "env_cth (es_pool s ! i) \<noteq> env_cth e" if "i < length (es_pool s)" for i
    using that by (metis length_map nth_map nth_mem)
  with new show ?thesis using assms None
    by (auto simp: es_inv_def es_push_def Let_def nth_append less_Suc_eq split: if_splits)
qed (use assms in \<open>simp add: es_push_def\<close>)

lemma es_push_result:
  assumes "es_inv s"
  shows "fst (es_push s e) = None \<longleftrightarrow> es_contains s (env_cth e)"
    and "es_contains (snd (es_push s e)) c \<longleftrightarrow> es_contains s c \<or> c = env_cth e"
    and "fst (es_push s e) = Some i \<Longrightarrow> i = es_size s \<and> es_at (snd (es_push s e)) i = e
      \<and> (\<forall>j<i. es_at (snd (es_push s e)) j = es_at s j)"
  by (auto simp: es_push_def es_contains_def Let_def es_size_def es_at_def nth_append split: if_splits)

subsection \<open>The order root depends on the contents only\<close>

lemma map_insort_key: "map f (insort_key (\<lambda>i. g (f i)) x xs) = insort_key g (f x) (map f xs)"
  by (induction xs) simp_all

lemma map_sort_key: "map f (sort_key (\<lambda>i. g (f i)) xs) = sort_key g (map f xs)"
  by (induction xs) (simp_all add: map_insort_key)

lemma insort_key_agree:
  "f x = g x \<Longrightarrow> (\<And>y. y \<in> set ys \<Longrightarrow> f y = g y) \<Longrightarrow> insort_key f x ys = insort_key g x ys"
  by (induction ys) simp_all

lemma sort_key_agree: "(\<And>x. x \<in> set xs \<Longrightarrow> f x = g x) \<Longrightarrow> sort_key f xs = sort_key g xs"
proof (induction xs)
  case (Cons a xs)
  then have "insort_key f a (sort_key g xs) = insort_key g a (sort_key g xs)" by (intro insort_key_agree) simp_all
  then show ?case using Cons by simp
qed simp

lemma ordered_root_sorted:
  assumes "es_pool s \<noteq> []"
  shows "ordered_root s beacon = Some (order_root (sort_key (m2_sort_key beacon) (map env_cth (es_pool s))))"
proof -
  let ?f = "\<lambda>i. env_cth (es_pool s ! i)" and ?sks = "map (\<lambda>e. m2_sort_key beacon (env_cth e)) (es_pool s)"
  have "key_order ?sks = sort_key (\<lambda>i. m2_sort_key beacon (?f i)) [0..<length (es_pool s)]"
    unfolding key_order_def length_map by (intro sort_key_agree) simp
  then have "map ?f (key_order ?sks) = sort_key (m2_sort_key beacon) (map ?f [0..<length (es_pool s)])"
    by (simp only: map_sort_key [of ?f "m2_sort_key beacon"])
  also have "map ?f [0..<length (es_pool s)] = map env_cth (es_pool s)"
    by (intro nth_equalityI) simp_all
  finally show ?thesis using assms by (simp add: ordered_root_def Let_def)
qed

lemma ordered_root_content:
  assumes "mset (map env_cth (es_pool s)) = mset (map env_cth (es_pool s'))"
    and "inj_on (m2_sort_key beacon) (set (map env_cth (es_pool s)))"
  shows "ordered_root s beacon = ordered_root s' beacon"
proof (cases "es_pool s = []")
  case True
  then have "es_pool s' = []" using assms(1) by simp
  then show ?thesis using True by (simp add: ordered_root_def)
next
  case False
  then have "es_pool s' \<noteq> []" using assms(1) by auto
  then show ?thesis
    using False sort_key_eq_sort_key [OF assms] by (simp add: ordered_root_sorted)
qed

subsection \<open>Batches\<close>

lemma length_batch_record: "192 \<le> length (snd sh) \<Longrightarrow> length (batch_record m sh) = 204"
  by (simp add: batch_record_def)

lemma drop_records:
  "(\<forall>x\<in>set xs. length (f x) = 204) \<Longrightarrow> i < length xs \<Longrightarrow>
    drop (i * 204) (concat (map f xs)) = f (xs ! i) @ drop (Suc i * 204) (concat (map f xs))"
proof (induction xs arbitrary: i)
  case (Cons x xs)
  then show ?case by (cases i) (simp_all add: add.commute)
qed simp

lemma length_concat_records: "(\<forall>x\<in>set xs. length (f x) = 204) \<Longrightarrow> length (concat (map f xs)) = length xs * 204"
  by (induction xs) simp_all

lemma sync_batch_round_trip:
  assumes ser: "\<forall>sh\<in>set shares. length (snd sh) = 192" and n: "shares \<noteq> []" "length shares < 2 ^ 32"
  shows "sync_batch_decode True (sync_batch_encode member shares)
    = Some (Some (map (\<lambda>sh. (ucast (fst sh), snd sh)) shares, member))"
proof -
  let ?f = "batch_record member" and ?c = "le_bytes 4 (of_nat (length shares) :: u32)"
  let ?p = "sync_batch_encode member shares" and ?q = "concat (map (batch_record member) shares)"
  have f: "\<forall>x\<in>set shares. length (?f x) = 204" using ser by (simp add: length_batch_record)
  have l: "length ?p = 4 + length shares * 204" by (simp add: sync_batch_encode_def length_concat_records [OF f])
  have cnt: "unat (le_word (take 4 ?p) :: u32) = length shares"
    using n by (simp add: sync_batch_encode_def codec_u32 unat_of_nat)
  have nz: "0 < length shares" using n(1) by simp
  have rec: "drop (4 + i * 204) ?p = ?f (shares ! i) @ drop (Suc i * 204) ?q" if "i < length shares" for i
    using drop_records [OF f that] by (simp add: sync_batch_encode_def)
  have low: "take 4 (le_bytes 8 x) = le_bytes 4 x" for x :: u64
    by (intro nth_equalityI) (simp_all add: nth_le_bytes)
  have eix: "le_word (le_bytes 4 x) = (ucast x :: u32)" for x :: u64
  proof -
    have "le_bytes 4 x = le_bytes 4 (ucast x :: u32)"
      by (intro nth_equalityI) (auto simp: nth_le_bytes intro!: bit_word_eqI simp: bit_simps)
    then show ?thesis by (simp add: codec_u32)
  qed
  have recs: "(le_word (take 4 (drop (4 + i * 204) ?p)) :: u32) = ucast (fst (shares ! i))"
    "take 192 (drop 12 (drop (4 + i * 204) ?p)) = snd (shares ! i)"
    "take 8 (drop 4 (drop (4 + i * 204) ?p)) = le_bytes 8 member" if "i < length shares" for i
    unfolding rec [OF that] using that ser by (simp_all add: batch_record_def eix)
  have mem: "take 8 (drop 8 ?p) = le_bytes 8 member" using recs(3) [OF nz] by simp
  have all: "map (\<lambda>r. (le_word (take 4 (drop (4 + r * 204) ?p)) :: u32, take 192 (drop 12 (drop (4 + r * 204) ?p)))) [0..<length shares]
      = map (\<lambda>sh. (ucast (fst sh), snd sh)) shares"
    by (intro nth_equalityI) (simp_all add: recs del: drop_drop)
  show ?thesis
    unfolding sync_batch_decode_def Let_def cnt mem using l nz all by (simp add: codec_u64 del: drop_drop)
qed

text \<open>An empty batch asked for its member is read outside the payload.\<close>

lemma sync_batch_empty: "sync_batch_decode True (sync_batch_encode member []) = None"
  by (simp add: sync_batch_decode_def sync_batch_encode_def codec_u32 Let_def)

subsection \<open>From the sender to the committee\<close>

lemma G2_Pmul_affine:
  assumes "g2_on P" and "\<not> G2_PisInf P"
  shows "\<exists>xa xb ya yb. G2_to_affine P = Some (xa, xb, ya, yb)
    \<and> length xa = 6 \<and> length xb = 6 \<and> length ya = 6 \<and> length yb = 6"
proof -
  obtain xa xb ya yb where a: "G2_to_affine P = Some (xa, xb, ya, yb)"
    using assms(2) by (simp add: G2_to_affine_def Let_def)
  then show ?thesis using g2_affine_canon [OF g2_onD(1-3) [OF assms(1)] a] by (auto simp: q_canon_def)
qed

lemma seal_wire:
  assumes R: "\<not> G2_PisInf (G2_Pmul G2_gen rk)" and small: "length payload + 316 < 2 ^ 32"
  shows "\<exists>d. decode_envelope (encode_envelope junk (seal junk payload X_E ep rk)) = Some d \<and> de_ok d
    \<and> (\<exists>xa xb ya yb. G2_to_affine (G2_Pmul G2_gen rk) = Some (xa, xb, ya, yb) \<and> de_R d = G2_from_affine xa xb ya yb)
    \<and> de_cth d = env_cth (seal junk payload X_E ep rk)
    \<and> dem_decrypt (seal_key junk X_E ep rk) (de_hdr d) (de_ct d) (de_tag d) = (payload, True)"
proof -
  let ?e = "seal junk payload X_E ep rk"
  have f: "env_R ?e = G2_Pmul G2_gen rk" "length (env_hdr ?e) = 56" "length (env_tag ?e) = 32"
    "length (env_cth ?e) = 32" "length (env_ct ?e) = length payload"
    by (simp_all add: seal_def Let_def dem_encrypt_def dem_tag_def ct_hash_def ser_hdr_def)
  obtain xa xb ya yb where a: "G2_to_affine (G2_Pmul G2_gen rk) = Some (xa, xb, ya, yb)"
    "length xa = 6" "length xb = 6" "length ya = 6" "length yb = 6"
    using G2_Pmul_affine [OF G2_Pmul_on [OF G2_gen_on] R] by blast
  obtain rs where rs: "ser_g2 (env_R ?e) = Some rs" using a(1) f(1) by (simp add: ser_g2_def)
  have "decode_envelope (encode_envelope junk ?e) = Some \<lparr>de_R = G2_from_affine xa xb ya yb, de_hdr = env_hdr ?e,
      de_ct = env_ct ?e, de_tag = env_tag ?e, de_cth = env_cth ?e, de_ok = True\<rparr>"
    using a small f by (intro decode_encode_envelope [OF rs]) simp_all
  then show ?thesis using a(1) seal_opens [of junk X_E ep rk payload] by simp
qed

lemma bitlen_one: "bitlen (fe6_small 1) = 1"
  by code_simp

lemma G2_Pmul_one: "G2_Pmul P (fe6_small 1) = P"
  using bitlen_one
  by (simp add: G2_Pmul_def Let_def pmul_bits_def fe6_small_def G2_Padd_def G2_Pdbl_def G2_PisInf_def G2Pt0_def
      fq2_is_zero_def Fq2_0_def bn_isz_val)

subsection \<open>Arrival order does not matter\<close>

definition es_gossip :: "Envelope list \<Rightarrow> EnvelopeStore" where
  "es_gossip es = foldl (\<lambda>s e. snd (es_push s e)) es_new es"

lemma es_gossip_snoc: "es_gossip (es @ [e]) = snd (es_push (es_gossip es) e)"
  by (simp add: es_gossip_def)

lemma es_gossip_inv: "es_inv (es_gossip es)"
  by (induction es rule: rev_induct) (simp_all add: es_gossip_snoc es_push_inv, simp add: es_gossip_def es_inv_new)

lemma es_gossip_cths: "set (map env_cth (es_pool (es_gossip es))) = set (map env_cth es)"
proof (induction es rule: rev_induct)
  case (snoc e es)
  have "c \<in> set (map env_cth (es_pool (snd (es_push (es_gossip es) e)))) \<longleftrightarrow> c \<in> set (map env_cth es) \<or> c = env_cth e" for c
    using es_push_result(2) [OF es_gossip_inv, of es e c] es_inv_contains [OF es_gossip_inv, of es c]
      es_inv_contains [OF es_push_inv [OF es_gossip_inv], of es e c] snoc by simp
  then show ?case unfolding es_gossip_snoc by auto
qed (simp add: es_gossip_def es_new_def)

lemma es_gossip_root:
  assumes "set (map env_cth es) = set (map env_cth es')" and "inj_on (m2_sort_key beacon) (set (map env_cth es))"
  shows "ordered_root (es_gossip es) beacon = ordered_root (es_gossip es') beacon"
proof (rule ordered_root_content)
  have d: "distinct (map env_cth (es_pool (es_gossip xs)))" for xs
    using es_gossip_inv [of xs] by (simp add: es_inv_def)
  show "mset (map env_cth (es_pool (es_gossip es))) = mset (map env_cth (es_pool (es_gossip es')))"
    using assms(1) unfolding set_eq_iff_mset_eq_distinct [OF d d, symmetric] es_gossip_cths .
  show "inj_on (m2_sort_key beacon) (set (map env_cth (es_pool (es_gossip es))))"
    using assms(2) unfolding es_gossip_cths .
qed

end
