(* ===== verification/Vss.thy ===== *)
theory Vss
  imports M2
begin

text \<open>
  The verifiable secret sharing and the threshold aggregation of
  \<open>src/include/hsma/threshold/dkg_vss.hpp\<close>: the configuration law, the deterministic dealing, the
  share check by Horner's rule in the exponent, the reference Lagrange coefficient and the batch,
  and the checked aggregation. An output that a failing function leaves alone is the value None.
\<close>

subsection \<open>Dealing\<close>

record Transcript =
  tr_n :: u64
  tr_t :: u64
  tr_epoch :: u64
  tr_f :: "fr list"
  tr_C :: "G2Pt list"
  tr_Y :: "G2Pt list"
  tr_Y1 :: "Pt list"

definition config_ok :: "u64 \<Rightarrow> u64 \<Rightarrow> bool" where
  "config_ok n t \<longleftrightarrow> 2 \<le> t \<and> t \<le> n \<and> n \<le> 2 * t \<and> n \<le> 224"

text \<open>The digest is copied as it lies in memory, which on the targets is its little-endian form.\<close>

definition digest_to_bytes :: "Digest \<Rightarrow> bytes" where
  "digest_to_bytes d = to_bytes d"

definition epoch_seed :: "u64 \<Rightarrow> Digest option \<Rightarrow> bytes" where
  "epoch_seed ep prev =
     digest_to_bytes (sha256d (ascii ''HSM_DKG_V1'' @ le_bytes 8 ep
       @ (case prev of None \<Rightarrow> [] | Some d \<Rightarrow> digest_to_bytes d)))"

definition deal_coeff :: "bytes \<Rightarrow> nat \<Rightarrow> fr option" where
  "deal_coeff seed k =
     (let db = digest_to_bytes (sha256d (seed @ [of_nat k])) in fr_from_u64 (le_word (take 8 db)))"

definition deal :: "u64 \<Rightarrow> u64 \<Rightarrow> u64 \<Rightarrow> Digest option \<Rightarrow> Transcript option" where
  "deal ep n t prev =
     (if \<not> config_ok n t then None
      else case those (map (deal_coeff (epoch_seed ep prev)) [0..<unat t]) of None \<Rightarrow> None
      | Some f \<Rightarrow>
        case those (map (\<lambda>j. share_for f (of_nat j)) [1..<unat n + 1]) of None \<Rightarrow> None
        | Some ss \<Rightarrow>
          Some \<lparr>tr_n = n, tr_t = t, tr_epoch = ep, tr_f = f,
            tr_C = map (\<lambda>c. G2_Pmul G2_gen (fr_to_fe6 c)) f,
            tr_Y = G2_gen # map (\<lambda>s. G2_Pmul G2_gen (fr_to_fe6 s)) ss,
            tr_Y1 = Pmul gen (bn_clr 6) # map (\<lambda>s. Pmul gen (fr_to_fe6 s)) ss\<rparr>)"

subsection \<open>Checking a share\<close>

definition pt_eq :: "G2Pt \<Rightarrow> G2Pt \<Rightarrow> bool" where
  "pt_eq A B \<longleftrightarrow> G2_to_affine A = G2_to_affine B"

definition horner_exp :: "G2Pt list \<Rightarrow> nat \<Rightarrow> fe6 \<Rightarrow> G2Pt" where
  "horner_exp C t js =
     foldl (\<lambda>rhs k. G2_Padd (G2_Pmul rhs js) (C ! k)) (C ! (t - 1)) (rev [0..<t - 1])"

definition vss_verify_share :: "Transcript \<Rightarrow> u64 \<Rightarrow> G2Pt \<Rightarrow> bool" where
  "vss_verify_share T j Yj =
     (if j = 0 \<or> tr_n T < j then False
      else case fr_from_u64 j of None \<Rightarrow> False
      | Some jf \<Rightarrow> pt_eq (horner_exp (tr_C T) (unat (tr_t T)) (fr_to_fe6 jf)) Yj)"

definition verify_own :: "Transcript \<Rightarrow> u64 \<Rightarrow> fe6 \<Rightarrow> bool" where
  "verify_own T j s = vss_verify_share T j (G2_Pmul G2_gen s)"

subsection \<open>Lagrange coefficients\<close>

text \<open>The results of the conversions are used whatever they return; a failed inversion leaves zero.\<close>

definition fr_or_zero :: "fr option \<Rightarrow> fr" where
  "fr_or_zero x = (case x of None \<Rightarrow> fr_zero | Some y \<Rightarrow> y)"

fun lagrange_step :: "u64 \<Rightarrow> fr \<times> fr \<Rightarrow> u64 \<Rightarrow> fr \<times> fr" where
  "lagrange_step xj (num, den) xm =
     (if xm = xj then (num, den)
      else let fxm = fr_or_zero (fr_from_u64 xm); fxj = fr_or_zero (fr_from_u64 xj)
           in (fr_mul num fxm, fr_mul den (fr_sub fxm fxj)))"

definition lagrange_at_zero :: "u64 list \<Rightarrow> u64 \<Rightarrow> fr" where
  "lagrange_at_zero xs xj =
     (let one = fr_or_zero (fr_from_u64 1);
          (num, den) = foldl (lagrange_step xj) (one, one) xs
      in fr_mul num (fr_or_zero (fr_inv den)))"

definition lagrange_batch_at_zero :: "u64 list \<Rightarrow> fr list option" where
  "lagrange_batch_at_zero xs =
     (case those (map fr_from_u64 xs) of None \<Rightarrow> None | Some fx \<Rightarrow> lagrange_zero_batch fx)"

subsection \<open>Aggregation\<close>

text \<open>The loop over the terms: the first one is assigned, the others are added.\<close>

definition agg_terms :: "('p \<Rightarrow> 'p \<Rightarrow> 'p) \<Rightarrow> 'p \<Rightarrow> 'p list \<Rightarrow> 'p" where
  "agg_terms add out ts = (case ts of [] \<Rightarrow> out | t # ts' \<Rightarrow> foldl add t ts')"

definition agg_dec_share :: "G2Pt \<Rightarrow> (u64 \<times> G2Pt) list \<Rightarrow> G2Pt option" where
  "agg_dec_share out shares =
     (if shares = [] then None
      else case lagrange_batch_at_zero (map fst shares) of None \<Rightarrow> None
      | Some lam \<Rightarrow>
        Some (agg_terms G2_Padd out
          (map (\<lambda>i. G2_Pmul (snd (shares ! i)) (fr_to_fe6 (lam ! i))) [0..<length shares])))"

record CheckedShare =
  cs_j :: u64
  cs_D :: G2Pt
  cs_proof :: Dleq

text \<open>The scan of the members: each in range, and not among those before it.\<close>

fun collect_members :: "u64 \<Rightarrow> u64 list \<Rightarrow> CheckedShare list \<Rightarrow> u64 list option" where
  "collect_members n xs [] = Some xs"
| "collect_members n xs (s # ss) =
     (if cs_j s = 0 \<or> n < cs_j s then None
      else if cs_j s \<in> set xs then None
      else collect_members n (xs @ [cs_j s]) ss)"

definition agg_dec_share_checked :: "G2Pt \<Rightarrow> CheckedShare list \<Rightarrow> Transcript \<Rightarrow> G2Pt \<Rightarrow> G2Pt option" where
  "agg_dec_share_checked out shares T R =
     (if length shares < unat (tr_t T) then None
      else case collect_members (tr_n T) [] shares of None \<Rightarrow> None
      | Some xs \<Rightarrow>
        if \<not> list_all (\<lambda>s. dleq_verify (cs_proof s) R (tr_Y T ! unat (cs_j s)) (cs_D s)) shares then None
        else case lagrange_batch_at_zero xs of None \<Rightarrow> None
        | Some lam \<Rightarrow>
          Some (agg_terms G2_Padd out
            (map (\<lambda>i. G2_Pmul (cs_D (shares ! i)) (fr_to_fe6 (lam ! i))) [0..<length shares])))"

definition agg_public_g1 :: "Pt \<Rightarrow> u64 list \<Rightarrow> Transcript \<Rightarrow> Pt option" where
  "agg_public_g1 out xs T =
     (case lagrange_batch_at_zero xs of None \<Rightarrow> None
      | Some lam \<Rightarrow>
        if \<exists>x\<in>set xs. x = 0 \<or> tr_n T < x then None
        else Some (agg_terms Padd out
          (map (\<lambda>i. Pmul (tr_Y1 T ! unat (xs ! i)) (fr_to_fe6 (lam ! i))) [0..<length xs])))"

subsection \<open>What the checked aggregation guarantees\<close>

lemma collect_members_Some:
  "collect_members n xs ss = Some ys \<Longrightarrow> distinct xs \<Longrightarrow>
    ys = xs @ map cs_j ss \<and> distinct ys \<and> list_all (\<lambda>s. cs_j s \<noteq> 0 \<and> cs_j s \<le> n) ss"
proof (induction n xs ss rule: collect_members.induct)
  case (2 n xs s ss)
  then have "collect_members n (xs @ [cs_j s]) ss = Some ys" "cs_j s \<noteq> 0" "cs_j s \<le> n" "cs_j s \<notin> set xs"
    by (auto split: if_splits)
  note c = this
  have "ys = (xs @ [cs_j s]) @ map cs_j ss \<and> distinct ys \<and> list_all (\<lambda>s. cs_j s \<noteq> 0 \<and> cs_j s \<le> n) ss"
    using c "2.prems"(2) by (intro "2.IH") auto
  then have y0: "ys = (xs @ [cs_j s]) @ map cs_j ss" and y: "distinct ys" "list_all (\<lambda>s. cs_j s \<noteq> 0 \<and> cs_j s \<le> n) ss"
    by blast+
  have y1: "ys = xs @ map cs_j (s # ss)" unfolding y0 by simp
  show ?case by (intro conjI y1 y(1)) (use c(2,3) y(2) in simp)
qed simp

lemma agg_checked_sound:
  assumes "agg_dec_share_checked out shares T R = Some D"
  shows "unat (tr_t T) \<le> length shares \<and> distinct (map cs_j shares)
    \<and> (\<forall>s\<in>set shares. cs_j s \<noteq> 0 \<and> cs_j s \<le> tr_n T \<and> dleq_verify (cs_proof s) R (tr_Y T ! unat (cs_j s)) (cs_D s))
    \<and> (\<exists>lam. lagrange_batch_at_zero (map cs_j shares) = Some lam
        \<and> D = agg_terms G2_Padd out (map (\<lambda>i. G2_Pmul (cs_D (shares ! i)) (fr_to_fe6 (lam ! i))) [0..<length shares]))"
proof -
  obtain xs lam where x: "collect_members (tr_n T) [] shares = Some xs" "\<not> length shares < unat (tr_t T)"
    "list_all (\<lambda>s. dleq_verify (cs_proof s) R (tr_Y T ! unat (cs_j s)) (cs_D s)) shares"
    "lagrange_batch_at_zero xs = Some lam"
    "D = agg_terms G2_Padd out (map (\<lambda>i. G2_Pmul (cs_D (shares ! i)) (fr_to_fe6 (lam ! i))) [0..<length shares])"
    using assms unfolding agg_dec_share_checked_def by (simp split: if_splits option.splits)
  then show ?thesis using collect_members_Some [OF x(1)] by (auto simp: list_all_iff)
qed

text \<open>The configuration law admits a threshold of exactly half.\<close>

lemma config_half: "config_ok 224 112"
  by (simp add: config_ok_def)

subsection \<open>The reference coefficient agrees with the batch\<close>

lemma fr_point: "fr_canon (fr_or_zero (fr_from_u64 v))" "frk.dec (fr_or_zero (fr_from_u64 v)) = of_nat (unat v)"
  "fr_from_u64 v = Some (fr_or_zero (fr_from_u64 v))"
  using fr_from_u64_Some [of v] by (auto simp: fr_or_zero_def)

lemma lagrange_at_zero_dec:
  assumes "distinct xs" and i: "i < length xs" and d: "distinct_points (map (\<lambda>v. fr_or_zero (fr_from_u64 v)) xs)"
  shows "fr_canon (lagrange_at_zero xs (xs ! i)) \<and>
    frk.dec (lagrange_at_zero xs (xs ! i)) = lz_coeff (map (\<lambda>v. fr_or_zero (fr_from_u64 v)) xs) i"
proof -
  let ?v = "\<lambda>v. fr_or_zero (fr_from_u64 v)" and ?one = "fr_or_zero (fr_from_u64 1)"
  let ?x = "\<lambda>v. (of_nat (unat v) :: frr)" and ?xi = "of_nat (unat (xs ! i)) :: frr"
  let ?f = "lagrange_step (xs ! i)"
  have run: "fr_canon n \<Longrightarrow> fr_canon e \<Longrightarrow> \<exists>n' e'. foldl ?f (n, e) ys = (n', e') \<and> fr_canon n' \<and> fr_canon e'
      \<and> frk.dec n' = frk.dec n * prod_list (map ?x (filter (\<lambda>y. y \<noteq> xs ! i) ys))
      \<and> frk.dec e' = frk.dec e * prod_list (map (\<lambda>y. ?x y - ?xi) (filter (\<lambda>y. y \<noteq> xs ! i) ys))" for ys n e
  proof (induction ys arbitrary: n e)
    case (Cons y ys)
    show ?case
    proof (cases "y = xs ! i")
      case True
      then show ?thesis using Cons by simp
    next
      case False
      have c: "fr_canon (fr_mul n (?v y))" "fr_canon (fr_mul e (fr_sub (?v y) (?v (xs ! i))))"
        using Cons.prems fr_point(1) by simp_all
      from Cons.IH [OF this] show ?thesis
        using False Cons.prems fr_point(1,2) by (simp add: fr_dec_ops mult.assoc Let_def)
    qed
  qed simp
  have one: "fr_canon ?one" "frk.dec ?one = 1" using fr_point [of 1] by simp_all
  obtain num den where nd: "foldl ?f (?one, ?one) xs = (num, den)" "fr_canon num" "fr_canon den"
    "frk.dec num = prod_list (map ?x (filter (\<lambda>y. y \<noteq> xs ! i) xs))"
    "frk.dec den = prod_list (map (\<lambda>y. ?x y - ?xi) (filter (\<lambda>y. y \<noteq> xs ! i) xs))"
    using run [OF one(1) one(1), of xs] one(2) by auto
  let ?js = "lz_others i [0..<length xs]"
  have flt: "filter (\<lambda>y. y \<noteq> xs ! i) xs = map (\<lambda>j. xs ! j) ?js"
  proof -
    have "filter (\<lambda>y. y \<noteq> xs ! i) (map (\<lambda>j. xs ! j) [0..<length xs]) = map (\<lambda>j. xs ! j) ?js"
      using assms(1) i unfolding filter_map lz_others_def
      by (intro arg_cong [of _ _ "map _"] filter_cong) (auto simp: nth_eq_iff_index_eq)
    then show ?thesis by (simp add: map_nth)
  qed
  have fer: "fr_fermat (?xi - ?x (xs ! j))" if "j \<in> set ?js" for j
    using distinct_pointsD(2) [OF d] i that fr_point(2) by (auto simp: lz_others_def)
  have odd: "odd (bls_r - 2)" by (simp add: bls_r_def)
  have neg: "(a - b) ^ (bls_r - 2) = - ((b - a) ^ (bls_r - 2))" for a b :: frr
    using power_minus_odd [OF odd, of "b - a"] by simp
  have "fr_fermat (frk.dec den)"
    unfolding nd(5) flt map_map
  proof (rule fr_fermat_prod)
    fix z assume "z \<in> set (map ((\<lambda>y. ?x y - ?xi) \<circ> (\<lambda>j. xs ! j)) ?js)"
    then obtain j where j: "j \<in> set ?js" "z = - (?xi - ?x (xs ! j))" by auto
    have "even (bls_r - 1)" by (simp add: bls_r_def)
    then show "fr_fermat z" using fer [OF j(1)] by (simp add: j(2) fr_fermat_def del: minus_diff_eq)
  qed
  then have "\<not> fr_is_zero den" using fr_fermat_nz nd(3) by (simp add: fr_is_zero_dec)
  from fr_inv_Some [OF nd(3) this] obtain y where
    y: "fr_inv den = Some y" "fr_canon y" "frk.dec y = frk.dec den ^ (bls_r - 2)" by blast
  have "lagrange_at_zero xs (xs ! i) = fr_mul num y"
    using nd(1) y(1) by (simp add: lagrange_at_zero_def Let_def) (simp add: fr_or_zero_def)
  moreover have "frk.dec num * frk.dec y = lz_coeff (map ?v xs) i"
  proof -
    have "frk.dec num * frk.dec y = prod_list (map (\<lambda>j. ?x (xs ! j) * (?x (xs ! j) - ?xi) ^ (bls_r - 2)) ?js)"
      unfolding y(3) nd(4,5) flt map_map by (simp add: prod_list_mult_power comp_def)
    also have "\<dots> = lz_coeff (map ?v xs) i"
      unfolding lz_coeff_def length_map
      by (intro arg_cong [of _ _ prod_list] map_cong refl)
        (use i fr_point(2) in \<open>auto simp: lz_others_def neg [of _ "unsigned (xs ! i)"]\<close>)
    finally show ?thesis .
  qed
  ultimately show ?thesis using nd(2) y(2) by (simp add: fr_dec_ops)
qed

end
