(* ===== verification/Fe_Sums.thy ===== *)
theory Fe_Sums
  imports Poseidon Mont384 Mont_Kernel
begin

text \<open>
  Sums and products over loops of the Pallas field operations: what the accumulator loops of the
  proof-system headers decode to. Shared by the sum-check, the folding schemes and the circuits.
\<close>

lemma fe_foldl_sum:
  assumes "is_canonical z" and "\<And>j. j \<in> set js \<Longrightarrow> is_canonical (f j)"
  shows "is_canonical (foldl (\<lambda>p j. fe_add p (f j)) z js)"
    and "fe_dec (foldl (\<lambda>p j. fe_add p (f j)) z js) = fe_dec z + (\<Sum>j\<leftarrow>js. fe_dec (f j))"
  using assms
  by (induction js arbitrary: z) (simp_all add: fe_dec_ops add.assoc)

lemma fe_foldl_prod:
  assumes "is_canonical z" and "\<And>j. j \<in> set js \<Longrightarrow> is_canonical (f j)"
  shows "is_canonical (foldl (\<lambda>p j. fe_mul p (f j)) z js)"
    and "fe_dec (foldl (\<lambda>p j. fe_mul p (f j)) z js) = fe_dec z * (\<Prod>j\<leftarrow>js. fe_dec (f j))"
  using assms
  by (induction js arbitrary: z) (simp_all add: fe_dec_ops mult.assoc)

lemma fe_eqI: "is_canonical a \<Longrightarrow> is_canonical b \<Longrightarrow> fe_dec a = fe_dec b \<Longrightarrow> a = b"
  by (rule fe_dec_inj)

text \<open>Sums over index ranges, split into even and odd places.\<close>

lemma sum_list_upt: "(\<Sum>j\<leftarrow>[0..<n]. f j) = (\<Sum>j<n. f j)" for f :: "nat \<Rightarrow> 'a::comm_monoid_add"
  by (simp add: interv_sum_list_conv_sum_set_nat lessThan_atLeast0)

lemma prod_list_upt: "(\<Prod>j\<leftarrow>[0..<n]. f j) = (\<Prod>j<n. f j)" for f :: "nat \<Rightarrow> 'a::comm_monoid_mult"
  by (induction n) simp_all

lemma sum_even_odd: "(\<Sum>j<2 * m. f j) = (\<Sum>j<m. f (2 * j)) + (\<Sum>j<m. f (2 * j + 1))"
  for f :: "nat \<Rightarrow> 'a::comm_monoid_add"
  by (induction m) (simp_all add: ac_simps)

text \<open>Powers by a limb array, most significant bit first, as in every inversion of the field code.\<close>

definition fe_ladder :: "fe \<Rightarrow> fe \<Rightarrow> bool list \<Rightarrow> fe" where
  "fe_ladder x r bs = foldl (\<lambda>r b. let r = fe_mul r r in if b then fe_mul r x else r) r bs"

lemma fe_ladder_dec:
  "is_canonical r \<Longrightarrow> is_canonical x \<Longrightarrow> fe_dec r = fe_dec x ^ n \<Longrightarrow>
    is_canonical (fe_ladder x r bs)
    \<and> fe_dec (fe_ladder x r bs) = fe_dec x ^ foldl (\<lambda>n b. 2 * n + of_bool b) n bs"
proof (induction bs arbitrary: r n)
  case Nil
  then show ?case by (simp add: fe_ladder_def)
next
  case (Cons b bs)
  let ?r = "let r = fe_mul r r in if b then fe_mul r x else r"
  have "is_canonical ?r" "fe_dec ?r = fe_dec x ^ (2 * n + of_bool b)"
    using Cons.prems by (auto simp: Let_def fe_dec_ops mult_2 power_add)
  then show ?case using Cons.IH [of ?r "2 * n + of_bool b"] Cons.prems(2) by (simp add: fe_ladder_def)
qed

text \<open>Hashing a vector through a fresh sponge.\<close>

definition sponge_hash :: "Dom \<Rightarrow> fe list \<Rightarrow> fe" where
  "sponge_hash d vs = fst (sponge_squeeze (foldl sponge_absorb (sponge_new d) vs))"

lemma sponge_squeeze_canonical: "is_canonical (fst (sponge_squeeze sp))"
proof -
  have p: "is_canonical (ps0 (p3_permute s))" for s
    using canon_permute [of s] by (simp add: canon_state_def)
  show ?thesis
    unfolding sponge_squeeze_def Let_def
    by (cases "sp_idx (sponge_absorb (sponge_absorb sp (fe_from_u64 (sp_count sp))) fe_one) \<noteq> 0")
      (simp_all add: p sponge_absorb_def Let_def split: if_splits)
qed

lemma sponge_hash_canonical [simp]: "is_canonical (sponge_hash d vs)"
  by (simp add: sponge_hash_def sponge_squeeze_canonical)

text \<open>The first index of a failing check, or the number of checks.\<close>

definition first_failing :: "(nat \<Rightarrow> bool) \<Rightarrow> nat \<Rightarrow> nat" where
  "first_failing ok n = (case find (\<lambda>i. \<not> ok i) [0..<n] of None \<Rightarrow> n | Some i \<Rightarrow> i)"

lemma first_failing_all: "first_failing ok n = n \<longleftrightarrow> (\<forall>i<n. ok i)"
proof (cases "find (\<lambda>i. \<not> ok i) [0..<n]")
  case None
  then have "\<forall>i<n. ok i" by (auto simp: find_None_iff)
  then show ?thesis using None by (simp add: first_failing_def)
next
  case (Some i)
  then have "i < n" "\<not> ok i" by (auto simp: find_Some_iff)
  then show ?thesis using Some by (auto simp: first_failing_def)
qed

end
