(* ===== verification/Nifs.thy ===== *)
theory Nifs
  imports Fe_Sums
begin

text \<open>
  The folding of two instances with diagonal constraint vectors, \<open>src/include/hsma/nifs.hpp\<close>: the
  relaxed relation \<open>Az * Bz = u * Cz + E\<close> element by element, the cross-term, the challenge of the
  transcript, and the folded instance.
\<close>

record NifsInstance =
  ni_z :: "fe list"
  ni_u :: fe
  ni_E :: "fe list"

definition nifs_row :: "fe list \<Rightarrow> fe list \<Rightarrow> fe list \<Rightarrow> NifsInstance \<Rightarrow> nat \<Rightarrow> bool" where
  "nifs_row A B C inst i =
     (let az = fe_mul (A ! i) (ni_z inst ! i); bz = fe_mul (B ! i) (ni_z inst ! i); cz = fe_mul (C ! i) (ni_z inst ! i)
      in fe_mul az bz = fe_add (fe_mul (ni_u inst) cz) (ni_E inst ! i))"

definition nifs_sat :: "fe list \<Rightarrow> fe list \<Rightarrow> fe list \<Rightarrow> NifsInstance \<Rightarrow> nat" where
  "nifs_sat A B C inst = first_failing (nifs_row A B C inst) (length A)"

subsection \<open>The inverse\<close>

text \<open>Subtracting a small number from a limb array, the loop over the borrow.\<close>

fun borrow_small :: "u64 \<Rightarrow> u64 list \<Rightarrow> u64 list" where
  "borrow_small br [] = []"
| "borrow_small br (e # es) =
     (if br = 0 then e # es else (e - br) # borrow_small (if e < br then 1 else 0) es)"

definition inv_fe :: "fe \<Rightarrow> fe" where
  "inv_fe x = fe_ladder x fe_one (bits_down (borrow_small 2 MOD))"

definition strict_elem_inv :: "fe \<Rightarrow> fe \<Rightarrow> fe \<Rightarrow> bool \<Rightarrow> fe" where
  "strict_elem_inv A B C on = (if \<not> on then fe_zero else fe_mul C (inv_fe (fe_mul A B)))"

subsection \<open>The fold\<close>

definition nifs_cross :: "fe list \<Rightarrow> fe list \<Rightarrow> fe list \<Rightarrow> NifsInstance \<Rightarrow> NifsInstance \<Rightarrow> nat \<Rightarrow> fe" where
  "nifs_cross A B C a b i =
     (let azA = fe_mul (A ! i) (ni_z a ! i); bzA = fe_mul (B ! i) (ni_z a ! i); czA = fe_mul (C ! i) (ni_z a ! i);
          azB = fe_mul (A ! i) (ni_z b ! i); bzB = fe_mul (B ! i) (ni_z b ! i); czB = fe_mul (C ! i) (ni_z b ! i);
          t = fe_add (fe_mul azA bzB) (fe_mul azB bzA);
          t = fe_sub t (fe_mul (ni_u a) czB)
      in fe_sub t (fe_mul (ni_u b) czA))"

record NifsFold =
  nf_out :: NifsInstance
  nf_T :: "fe list"
  nf_r :: fe
  nf_czA :: fe
  nf_czB :: fe
  nf_cT :: fe
  nf_cEA :: fe

definition nifs_fold :: "fe list \<Rightarrow> fe list \<Rightarrow> fe list \<Rightarrow> NifsInstance \<Rightarrow> NifsInstance \<Rightarrow> NifsFold" where
  "nifs_fold A B C a b =
     (let N = length A;
          T = map (nifs_cross A B C a b) [0..<N];
          czA = sponge_hash HSM_SUMCHECK_v1 (ni_z a);
          czB = sponge_hash HSM_SUMCHECK_v1 (ni_z b);
          cT = sponge_hash HSM_SUMCHECK_v1 T;
          cEA = sponge_hash HSM_SUMCHECK_v1 (ni_E a);
          d1 = poseidon3 HSM_FOLD_v1 czA czB;
          d2 = poseidon3 HSM_FOLD_v1 d1 cT;
          r = poseidon3 HSM_FOLD_v1 d2 cEA
      in \<lparr>nf_out = \<lparr>ni_z = map (\<lambda>i. fe_add (ni_z a ! i) (fe_mul r (ni_z b ! i))) [0..<N],
                     ni_u = fe_add (ni_u a) (fe_mul r (ni_u b)),
                     ni_E = map (\<lambda>i. fe_add (ni_E a ! i) (fe_mul r (T ! i))) [0..<N]\<rparr>,
          nf_T = T, nf_r = r, nf_czA = czA, nf_czB = czB, nf_cT = cT, nf_cEA = cEA\<rparr>)"

subsection \<open>Folding keeps satisfaction\<close>

definition ni_canon :: "nat \<Rightarrow> NifsInstance \<Rightarrow> bool" where
  "ni_canon n a \<longleftrightarrow> length (ni_z a) = n \<and> length (ni_E a) = n \<and> list_all is_canonical (ni_z a)
     \<and> is_canonical (ni_u a) \<and> list_all is_canonical (ni_E a)"

lemma fold_identity:
  fixes u :: "'a::comm_ring_1"
  assumes "x * y = u * z + e" and "x' * y' = u' * z'"
  shows "(x + r * x') * (y + r * y')
    = (u + r * u') * (z + r * z') + (e + r * (x * y' + x' * y - u * z' - u' * z))"
proof -
  have "(x + r * x') * (y + r * y') = x * y + r * (x * y' + x' * y) + r * r * (x' * y')"
    by (simp add: algebra_simps)
  then show ?thesis unfolding assms by (simp add: algebra_simps)
qed

lemma nifs_fold_sat:
  assumes m: "list_all is_canonical A" "list_all is_canonical B" "list_all is_canonical C"
      "length B = length A" "length C = length A"
    and a: "ni_canon (length A) a" "nifs_sat A B C a = length A"
    and b: "ni_canon (length A) b" "nifs_sat A B C b = length A" "\<forall>i<length A. ni_E b ! i = fe_zero"
  shows "nifs_sat A B C (nf_out (nifs_fold A B C a b)) = length A"
    and "ni_canon (length A) (nf_out (nifs_fold A B C a b))"
proof -
  let ?F = "nifs_fold A B C a b"
  define r where "r = nf_r ?F"
  have out: "nf_out ?F = \<lparr>ni_z = map (\<lambda>i. fe_add (ni_z a ! i) (fe_mul r (ni_z b ! i))) [0..<length A],
      ni_u = fe_add (ni_u a) (fe_mul r (ni_u b)),
      ni_E = map (\<lambda>i. fe_add (ni_E a ! i) (fe_mul r (nifs_cross A B C a b i))) [0..<length A]\<rparr>"
    by (simp add: nifs_fold_def Let_def r_def)
  have r: "is_canonical r" by (simp add: r_def nifs_fold_def Let_def)
  have u: "is_canonical (ni_u a)" "is_canonical (ni_u b)" using a b by (simp_all add: ni_canon_def)
  have c: "is_canonical (A ! i)" "is_canonical (B ! i)" "is_canonical (C ! i)" "is_canonical (ni_z a ! i)"
    "is_canonical (ni_z b ! i)" "is_canonical (ni_E a ! i)" if "i < length A" for i
    using that m a b by (simp_all add: ni_canon_def list_all_length)
  have "nifs_row A B C (nf_out ?F) i" if i: "i < length A" for i
  proof -
    note ci = c [OF i] u r
    let ?d = fe_dec
    let ?x = "?d (A ! i) * ?d (ni_z a ! i)" and ?y = "?d (B ! i) * ?d (ni_z a ! i)" and ?z = "?d (C ! i) * ?d (ni_z a ! i)"
    let ?x' = "?d (A ! i) * ?d (ni_z b ! i)" and ?y' = "?d (B ! i) * ?d (ni_z b ! i)" and ?z' = "?d (C ! i) * ?d (ni_z b ! i)"
    have "nifs_row A B C a i" "nifs_row A B C b i"
      using a(2) b(2) i by (simp_all add: nifs_sat_def first_failing_all)
    then have "fe_dec (fe_mul (fe_mul (A ! i) (ni_z a ! i)) (fe_mul (B ! i) (ni_z a ! i)))
        = fe_dec (fe_add (fe_mul (ni_u a) (fe_mul (C ! i) (ni_z a ! i))) (ni_E a ! i))"
      "fe_dec (fe_mul (fe_mul (A ! i) (ni_z b ! i)) (fe_mul (B ! i) (ni_z b ! i)))
        = fe_dec (fe_add (fe_mul (ni_u b) (fe_mul (C ! i) (ni_z b ! i))) fe_zero)"
      using b(3) i by (simp_all add: nifs_row_def Let_def)
    then have "?x * ?y = ?d (ni_u a) * ?z + ?d (ni_E a ! i)" "?x' * ?y' = ?d (ni_u b) * ?z'"
      using ci by (simp_all add: fe_dec_ops)
    note F = fold_identity [OF this, of "?d r"]
    show ?thesis
      unfolding nifs_row_def Let_def out using i ci F
      by (intro fe_eqI) (simp_all add: nifs_cross_def Let_def fe_dec_ops distrib_left mult.left_commute)
  qed
  then show "nifs_sat A B C (nf_out ?F) = length A" by (simp add: nifs_sat_def first_failing_all)
  have "is_canonical (nifs_cross A B C a b i)" if "i < length A" for i
    using c [OF that] u by (simp add: nifs_cross_def Let_def)
  then show "ni_canon (length A) (nf_out ?F)"
    using c u r by (simp add: ni_canon_def out list_all_iff)
qed

subsection \<open>Strict witnesses\<close>

lemma inv_fe_dec:
  assumes "is_canonical x"
  shows "is_canonical (inv_fe x)" and "fe_dec (inv_fe x) = fe_dec x ^ (pallas_p - 2)"
proof -
  have "limbs_val (borrow_small 2 MOD) = pallas_p - 2"
    by (simp add: MOD_def pallas_p_eq)
  then show "is_canonical (inv_fe x)" "fe_dec (inv_fe x) = fe_dec x ^ (pallas_p - 2)"
    using fe_ladder_dec [OF canonical_one assms, of 0 "bits_down (borrow_small 2 MOD)"]
    by (simp_all add: inv_fe_def fe_dec_one bits_down_value)
qed

lemma strict_elem_sat:
  assumes "is_canonical A" "is_canonical B" "is_canonical C"
    and fermat: "(fe_dec A * fe_dec B) ^ (pallas_p - 1) = 1"
  shows "nifs_row [A] [B] [C] \<lparr>ni_z = [strict_elem_inv A B C on], ni_u = fe_one, ni_E = [fe_zero]\<rparr> 0"
proof -
  let ?v = "strict_elem_inv A B C on"
  have v: "is_canonical ?v" "on \<Longrightarrow> fe_dec ?v = fe_dec C * (fe_dec A * fe_dec B) ^ (pallas_p - 2)"
    "\<not> on \<Longrightarrow> fe_dec ?v = 0"
    using assms inv_fe_dec [of "fe_mul A B"] by (simp_all add: strict_elem_inv_def fe_dec_ops)
  have "Suc (pallas_p - 2) = pallas_p - 1" by (simp add: pallas_p_eq)
  then have unit: "fe_dec A * fe_dec B * (fe_dec A * fe_dec B) ^ (pallas_p - 2) = 1"
    using fermat by (simp flip: power_Suc)
  have "fe_dec A * fe_dec ?v * (fe_dec B * fe_dec ?v) = fe_dec C * fe_dec ?v"
  proof (cases "on")
    case True
    have "fe_dec A * fe_dec ?v * (fe_dec B * fe_dec ?v)
        = (fe_dec A * fe_dec B * (fe_dec A * fe_dec B) ^ (pallas_p - 2)) * fe_dec C * fe_dec ?v"
      using v(2) [OF True] by (simp only: mult_ac)
    then show ?thesis by (simp only: unit mult_1)
  next
    case False
    then have "?v = fe_zero" by (simp add: strict_elem_inv_def)
    then show ?thesis by (simp add: fe_dec_zero)
  qed
  then show ?thesis
    using assms v(1) unfolding nifs_row_def Let_def by (intro fe_eqI) (simp_all add: fe_dec_ops)
qed

end
