(* ===== verification/Digest_Scalar.thy ===== *)
theory Digest_Scalar
  imports Fe_Sums Sha256
begin

text \<open>
  From a 32-byte digest to a field element, the helpers \<open>can_geq_p\<close>, \<open>can_sub_p\<close> and
  \<open>digest_scalar\<close> of \<open>src/include/hsma/whir.hpp\<close>: little-endian limbs, at most eight subtractions of
  the modulus, and the entry into the Montgomery domain. The production folding challenges inline
  the same steps.
\<close>

definition can_geq_p :: "u64 list \<Rightarrow> bool" where
  "can_geq_p c = geq_loop 4 c MOD"

text \<open>The subtraction adds the borrow to the subtrahend first.\<close>

fun borrow_sub :: "u64 \<Rightarrow> u64 list \<Rightarrow> u64 list \<Rightarrow> u64 list" where
  "borrow_sub br (c # cs) (p # ps) =
     (let bi = p + br in (c - bi) # borrow_sub (if bi \<le> c then 0 else 1) cs ps)"
| "borrow_sub br cs ps = []"

definition can_sub_p :: "u64 list \<Rightarrow> u64 list" where
  "can_sub_p c = borrow_sub 0 c MOD"

fun reduce_p :: "nat \<Rightarrow> u64 list \<Rightarrow> u64 list" where
  "reduce_p 0 l = l"
| "reduce_p (Suc t) l = (if can_geq_p l then reduce_p t (can_sub_p l) else l)"

definition digest_scalar :: "bytes \<Rightarrow> fe" where
  "digest_scalar dg = fe_from_canonical_limbs (reduce_p 8 (bytes_to_limbs dg))"

subsection \<open>The reduction\<close>

lemma borrow_sub_loop:
  "length cs = length ps \<Longrightarrow> \<forall>p \<in> set ps. p \<noteq> - 1 \<Longrightarrow>
    borrow_sub (of_bool b) cs ps = fst (sub_loop b cs ps)"
proof (induction b cs ps rule: sub_loop.induct)
  case (1 b c cs p ps)
  have nw: "unat (p + of_bool b) = unat p + of_bool b"
    using "1.prems" unatSuc [of p] by (cases b) (auto simp: add.commute add_eq_0_iff)
  have flag: "\<not> p + of_bool b \<le> c \<longleftrightarrow> c < p \<or> c - p < of_bool b"
  proof (cases "c < p")
    case True
    then show ?thesis using nw by (simp add: word_le_nat_alt word_less_nat_alt)
  next
    case False
    then have "unat (c - p) = unat c - unat p" by (simp add: unat_sub not_less)
    then show ?thesis using False nw by (auto simp: word_le_nat_alt word_less_nat_alt)
  qed
  let ?q = "unat c < unat p \<or> unat (c - p) < of_bool b"
  have q: "?q \<longleftrightarrow> \<not> p + of_bool b \<le> c"
    unfolding flag by (cases b) (simp_all add: word_less_nat_alt)
  have "borrow_sub (of_bool ?q) cs ps = fst (sub_loop ?q cs ps)"
    using 1 by (simp add: sub_overflow_def)
  moreover have "(of_bool ?q :: u64) = (if p + of_bool b \<le> c then 0 else 1)"
    unfolding q by simp
  ultimately show ?case
    by (simp add: Let_def sub_overflow_def diff_diff_eq case_prod_beta)
qed simp_all

lemma can_sub_p_val:
  assumes "length l = 4" and "pallas_p \<le> limbs_val l"
  shows "length (can_sub_p l) = 4 \<and> limbs_val (can_sub_p l) = limbs_val l - pallas_p"
proof -
  have m: "length l = length MOD" using assms(1) by (simp add: MOD_def)
  have "\<forall>p \<in> set MOD. p \<noteq> - 1" by (simp add: MOD_def)
  then have e: "can_sub_p l = fst (sub_loop False l MOD)"
    using borrow_sub_loop [OF m, of False] by (simp only: can_sub_p_def of_bool_eq)
  obtain rs b where s: "sub_loop False l MOD = (rs, b)" by fastforce
  have len: "length rs = 4" using sub_loop_length [OF m, of False] s assms(1) by simp
  have v: "limbs_val l + of_bool b * 2 ^ 256 = limbs_val rs + pallas_p"
    using sub_loop_val [OF m s] unfolding assms(1) pallas_p_def by simp
  have "limbs_val rs < 2 ^ 256" using limbs_val_lt [of rs] len by simp
  then have "\<not> b" using v assms(2) by (cases b) simp_all
  then show ?thesis using v len e s by simp
qed

lemma reduce_p_val:
  "length l = 4 \<Longrightarrow> limbs_val l < Suc n * pallas_p \<Longrightarrow>
    length (reduce_p n l) = 4 \<and> limbs_val (reduce_p n l) = limbs_val l mod pallas_p"
proof (induction n arbitrary: l)
  case (Suc n)
  show ?case
  proof (cases "can_geq_p l")
    case True
    then have ge: "pallas_p \<le> limbs_val l"
      using geq_loop_val [of 4 l MOD] Suc.prems(1) by (simp add: can_geq_p_def MOD_def pallas_p_def)
    then have "limbs_val (can_sub_p l) mod pallas_p = limbs_val l mod pallas_p"
      using can_sub_p_val [OF Suc.prems(1)] by (simp flip: le_mod_geq)
    then show ?thesis
      using Suc.IH [of "can_sub_p l"] Suc.prems can_sub_p_val [OF Suc.prems(1) ge] True by simp
  next
    case False
    then have "limbs_val l < pallas_p"
      using geq_loop_val [of 4 l MOD] Suc.prems(1) by (simp add: can_geq_p_def MOD_def pallas_p_def)
    then show ?thesis using False Suc.prems by simp
  qed
qed simp

lemma reduce_p_8:
  assumes "length l = 4"
  shows "length (reduce_p 8 l) = 4" and "limbs_val (reduce_p 8 l) = limbs_val l mod pallas_p"
proof -
  have "limbs_val l < Suc 8 * pallas_p"
    using limbs_val_lt [of l] assms by (simp add: pallas_p_eq)
  then show "length (reduce_p 8 l) = 4" and "limbs_val (reduce_p 8 l) = limbs_val l mod pallas_p"
    using reduce_p_val [OF assms] by simp_all
qed

lemma canonical_digest_scalar [simp]: "is_canonical (digest_scalar dg)"
  unfolding digest_scalar_def
  by (rule canonical_from_limbs) (simp_all add: reduce_p_8 bytes_to_limbs_def pallas_p_pos)

lemma fe_dec_digest_scalar: "fe_dec (digest_scalar dg) = of_nat (limbs_val (bytes_to_limbs dg))"
proof -
  have l: "length (bytes_to_limbs dg) = 4" by (simp add: bytes_to_limbs_def)
  have "fe_dec (digest_scalar dg) = of_nat (limbs_val (bytes_to_limbs dg) mod pallas_p)"
    unfolding digest_scalar_def using reduce_p_8 [OF l] pallas_p_pos by (simp add: fe_dec_from_limbs)
  also have "\<dots> = of_nat (limbs_val (bytes_to_limbs dg))" by (simp add: of_nat_pallas)
  finally show ?thesis .
qed

subsection \<open>Decimal labels\<close>

text \<open>\<open>snprintf\<close> with \<open>%u\<close>: the digits of a number.\<close>

fun udec :: "nat \<Rightarrow> string" where
  "udec n = (if n < 10 then [char_of (48 + n)] else udec (n div 10) @ [char_of (48 + n mod 10)])"

declare udec.simps [simp del]

text \<open>\<open>sha_cat\<close>: a label followed by 32 bytes.\<close>

definition sha_cat :: "string \<Rightarrow> bytes \<Rightarrow> bytes" where
  "sha_cat a b32 = sha256 (ascii a @ b32)"

end
