(* ===== verification/Mfold.thy ===== *)
theory Mfold
  imports Nifs Digest_Scalar
begin

text \<open>
  The folding of many instances over sparse constraint matrices, \<open>src/include/hsma/mfold.hpp\<close>: the
  coordinate matrices and their product with a vector, relaxed instances and their satisfaction, the
  cross-terms, the golden-scale fold with its Poseidon transcript and the production fold with its
  SHA-256 transcript. The asserts on the incoming instances are compiled only without \<open>NDEBUG\<close>, the
  first argument of the folds; \<^const>\<open>None\<close> is the abort of a failing one.
\<close>

subsection \<open>Sparse matrices\<close>

record SparseMat =
  sm_rows :: nat
  sm_cols :: nat
  sm_row :: "nat list"
  sm_col :: "nat list"
  sm_val :: "fe list"

definition mat_acc :: "SparseMat \<Rightarrow> fe list \<Rightarrow> fe list \<Rightarrow> nat \<Rightarrow> fe list" where
  "mat_acc M z out t =
     out[sm_row M ! t := fe_add (out ! (sm_row M ! t)) (fe_mul (sm_val M ! t) (z ! (sm_col M ! t)))]"

definition mat_vec :: "SparseMat \<Rightarrow> fe list \<Rightarrow> fe list" where
  "mat_vec M z = foldl (mat_acc M z) (replicate (sm_rows M) fe_zero) [0..<length (sm_val M)]"

subsection \<open>Relaxed instances\<close>

record Relaxed =
  rx_u :: fe
  rx_z :: "fe list"
  rx_E :: "fe list"

definition fresh :: "fe list \<Rightarrow> nat \<Rightarrow> Relaxed" where
  "fresh z n_rows = \<lparr>rx_u = fe_one, rx_z = z, rx_E = replicate n_rows fe_zero\<rparr>"

definition relaxed_row :: "SparseMat \<Rightarrow> SparseMat \<Rightarrow> SparseMat \<Rightarrow> Relaxed \<Rightarrow> nat \<Rightarrow> bool" where
  "relaxed_row A B C R i =
     (fe_mul (mat_vec A (rx_z R) ! i) (mat_vec B (rx_z R) ! i)
      = fe_add (fe_mul (rx_u R) (mat_vec C (rx_z R) ! i)) (rx_E R ! i))"

definition sat_relaxed :: "SparseMat \<Rightarrow> SparseMat \<Rightarrow> SparseMat \<Rightarrow> Relaxed \<Rightarrow> nat" where
  "sat_relaxed A B C R = first_failing (relaxed_row A B C R) (length (mat_vec A (rx_z R)))"

definition cross_at :: "fe \<Rightarrow> fe \<Rightarrow> fe \<Rightarrow> fe \<Rightarrow> fe \<Rightarrow> fe \<Rightarrow> fe \<Rightarrow> fe \<Rightarrow> fe" where
  "cross_at uU uJ azU bzU czU azJ bzJ czJ =
     (let t = fe_add (fe_mul azU bzJ) (fe_mul azJ bzU);
          t = fe_sub t (fe_mul uU czJ)
      in fe_sub t (fe_mul uJ czU))"

definition cross_term :: "SparseMat \<Rightarrow> SparseMat \<Rightarrow> SparseMat \<Rightarrow> Relaxed \<Rightarrow> Relaxed \<Rightarrow> fe list" where
  "cross_term A B C U J =
     (let azU = mat_vec A (rx_z U); bzU = mat_vec B (rx_z U); czU = mat_vec C (rx_z U);
          azJ = mat_vec A (rx_z J); bzJ = mat_vec B (rx_z J); czJ = mat_vec C (rx_z J)
      in map (\<lambda>i. cross_at (rx_u U) (rx_u J) (azU ! i) (bzU ! i) (czU ! i) (azJ ! i) (bzJ ! i) (czJ ! i)) [0..<length azU])"

subsection \<open>The fold\<close>

definition incoming_fresh :: "Relaxed list \<Rightarrow> bool" where
  "incoming_fresh js \<longleftrightarrow> (\<forall>J \<in> set js. rx_u J = fe_one \<and> (\<forall>e \<in> set (rx_E J). fe_is_zero e))"

text \<open>One step: the instance \<open>J\<close> enters the accumulator with challenge \<open>r\<close> and cross-term \<open>T\<close>.\<close>

definition fold_in :: "fe \<Rightarrow> fe list \<Rightarrow> Relaxed \<Rightarrow> Relaxed \<Rightarrow> Relaxed" where
  "fold_in r T acc J =
     \<lparr>rx_u = fe_add (rx_u acc) r,
      rx_z = map (\<lambda>t. fe_add (rx_z acc ! t) (fe_mul r (rx_z J ! t))) [0..<length (rx_z acc)],
      rx_E = map (\<lambda>i. fe_add (rx_E acc ! i) (fe_mul r (T ! i))) [0..<length (rx_E acc)]\<rparr>"

text \<open>
  The sequential application; \<open>first\<close> is the cross-term of the transcript that a fold of a single
  instance reuses. The result is the accumulator and the cross-terms applied.
\<close>

fun fold_seq :: "SparseMat \<Rightarrow> SparseMat \<Rightarrow> SparseMat \<Rightarrow> fe list option \<Rightarrow> Relaxed \<Rightarrow> (Relaxed \<times> fe) list
    \<Rightarrow> Relaxed \<times> fe list list" where
  "fold_seq A B C first acc [] = (acc, [])"
| "fold_seq A B C first acc ((J, r) # jrs) =
     (let T = (case first of Some T0 \<Rightarrow> T0 | None \<Rightarrow> cross_term A B C acc J);
          (R, Ts) = fold_seq A B C None (fold_in r T acc J) jrs
      in (R, T # Ts))"

definition apply_fold :: "SparseMat \<Rightarrow> SparseMat \<Rightarrow> SparseMat \<Rightarrow> fe list list \<Rightarrow> Relaxed \<Rightarrow> Relaxed list \<Rightarrow> fe list
    \<Rightarrow> Relaxed \<times> fe list list" where
  "apply_fold A B C T U js r =
     fold_seq A B C (if length js = 1 then Some (T ! 0) else None) (U\<lparr>rx_u := fe_add (rx_u U) fe_zero\<rparr>) (zip js r)"

record MultifoldResult =
  mf_folded :: Relaxed
  mf_T :: "fe list list"
  mf_r :: "fe list"
  mf_seed :: fe

definition mf_absorbed :: "Relaxed \<Rightarrow> Relaxed list \<Rightarrow> fe list list \<Rightarrow> fe list" where
  "mf_absorbed U js T =
     rx_u U # rx_z U @ rx_E U
     @ concat (map (\<lambda>j. rx_u (js ! j) # rx_z (js ! j) @ rx_E (js ! j) @ T ! j) [0..<length js])"

definition multifold :: "bool \<Rightarrow> SparseMat \<Rightarrow> SparseMat \<Rightarrow> SparseMat \<Rightarrow> Relaxed \<Rightarrow> Relaxed list \<Rightarrow> MultifoldResult option" where
  "multifold ndebug A B C U js =
     (if \<not> ndebug \<and> \<not> incoming_fresh js then None
      else
        let T = map (cross_term A B C U) js;
            seed = sponge_hash HSM_SUMCHECK_v1 (mf_absorbed U js T);
            r = map (\<lambda>j. poseidon3 HSM_SUMCHECK_v1 seed (fe_from_u64 (of_nat j))) [0..<length js];
            (R, Ts) = apply_fold A B C T U js r
        in Some \<lparr>mf_folded = R, mf_T = Ts, mf_r = r, mf_seed = seed\<rparr>)"

subsection \<open>The production fold\<close>

record MultifoldResult2 =
  m2_folded :: Relaxed
  m2_T :: "fe list list"
  m2_r :: "fe list"
  m2_seed :: bytes

definition v2_bytes :: "fe list \<Rightarrow> bytes" where
  "v2_bytes v = concat (map fe_to_le_bytes v)"

text \<open>
  The index enters as eight bytes of a 32-bit number; the shifts for the upper four are by 32 or more
  and undefined, so what the compiler makes of them is the argument \<open>shr\<close>.
\<close>

definition v2_index :: "(u32 \<Rightarrow> nat \<Rightarrow> u8) \<Rightarrow> u32 \<Rightarrow> bytes" where
  "v2_index shr j = map (\<lambda>b. if 8 * b < 32 then ucast (drop_bit (8 * b) j) else shr j (8 * b)) [0..<8]"

definition v2_challenge :: "(u32 \<Rightarrow> nat \<Rightarrow> u8) \<Rightarrow> bytes \<Rightarrow> nat \<Rightarrow> fe" where
  "v2_challenge shr seed j =
     digest_scalar (sha256 (ascii ''HSMA_MFOLD_V2|R'' @ seed @ v2_index shr (of_nat j)))"

definition multifold_v2 :: "(u32 \<Rightarrow> nat \<Rightarrow> u8) \<Rightarrow> bool \<Rightarrow> SparseMat \<Rightarrow> SparseMat \<Rightarrow> SparseMat \<Rightarrow> Relaxed
    \<Rightarrow> Relaxed list \<Rightarrow> MultifoldResult2 option" where
  "multifold_v2 shr ndebug A B C U js =
     (if \<not> ndebug \<and> \<not> incoming_fresh js then None
      else
        let T = map (cross_term A B C U) js;
            seed = sha256 (v2_bytes (mf_absorbed U js T));
            r = map (v2_challenge shr seed) [0..<length js];
            (R, Ts) = apply_fold A B C T U js r
        in Some \<lparr>m2_folded = R, m2_T = Ts, m2_r = r, m2_seed = seed\<rparr>)"

subsection \<open>The product with a vector\<close>

definition mat_wf :: "nat \<Rightarrow> nat \<Rightarrow> SparseMat \<Rightarrow> bool" where
  "mat_wf n m M \<longleftrightarrow> sm_rows M = n \<and> length (sm_row M) = length (sm_val M) \<and> length (sm_col M) = length (sm_val M)
     \<and> (\<forall>i \<in> set (sm_row M). i < n) \<and> (\<forall>j \<in> set (sm_col M). j < m) \<and> list_all is_canonical (sm_val M)"

definition mat_ring :: "SparseMat \<Rightarrow> (nat \<Rightarrow> pallas) \<Rightarrow> nat \<Rightarrow> pallas" where
  "mat_ring M z i = (\<Sum>t<length (sm_val M). if sm_row M ! t = i then fe_dec (sm_val M ! t) * z (sm_col M ! t) else 0)"

lemma mat_ring_lin: "mat_ring M (\<lambda>i. x i + r * y i) i = mat_ring M x i + r * mat_ring M y i"
  unfolding mat_ring_def sum_distrib_left sum.distrib [symmetric]
  by (intro sum.cong refl) (simp add: algebra_simps)

lemma mat_vec_ring:
  assumes M: "mat_wf n m M" and z: "list_all is_canonical z" "length z = m"
  shows "length (mat_vec M z) = n" and "list_all is_canonical (mat_vec M z)"
    and "i < n \<Longrightarrow> fe_dec (mat_vec M z ! i) = mat_ring M (\<lambda>j. fe_dec (z ! j)) i"
proof -
  define G where "G k = foldl (mat_acc M z) (replicate n fe_zero) [0..<k]" for k
  have inv: "length (G k) = n \<and> (\<forall>i<n. is_canonical (G k ! i) \<and> fe_dec (G k ! i)
      = (\<Sum>t<k. if sm_row M ! t = i then fe_dec (sm_val M ! t) * fe_dec (z ! (sm_col M ! t)) else 0))"
    if "k \<le> length (sm_val M)" for k
    using that
  proof (induction k)
    case 0
    then show ?case by (simp add: G_def fe_dec_zero)
  next
    case (Suc k)
    then have k: "sm_row M ! k < n" "sm_col M ! k < m" "is_canonical (sm_val M ! k)"
      using M by (auto simp: mat_wf_def list_all_length)
    then have zk: "is_canonical (z ! (sm_col M ! k))" using z by (simp add: list_all_length)
    have "G (Suc k) = mat_acc M z (G k) k" by (simp add: G_def)
    then show ?case using Suc k zk by (auto simp: mat_acc_def nth_list_update fe_dec_ops)
  qed
  have "mat_vec M z = G (length (sm_val M))" using M by (simp add: mat_vec_def G_def mat_wf_def)
  then show "length (mat_vec M z) = n" and "list_all is_canonical (mat_vec M z)"
    and "i < n \<Longrightarrow> fe_dec (mat_vec M z ! i) = mat_ring M (\<lambda>j. fe_dec (z ! j)) i"
    using inv [OF order_refl] by (simp_all add: list_all_length mat_ring_def)
qed

subsection \<open>Folding keeps satisfaction\<close>

definition rx_wf :: "nat \<Rightarrow> nat \<Rightarrow> Relaxed \<Rightarrow> bool" where
  "rx_wf n m R \<longleftrightarrow> length (rx_z R) = m \<and> length (rx_E R) = n \<and> is_canonical (rx_u R)
     \<and> list_all is_canonical (rx_z R) \<and> list_all is_canonical (rx_E R)"

definition system_wf :: "nat \<Rightarrow> nat \<Rightarrow> SparseMat \<Rightarrow> SparseMat \<Rightarrow> SparseMat \<Rightarrow> bool" where
  "system_wf n m A B C \<longleftrightarrow> mat_wf n m A \<and> mat_wf n m B \<and> mat_wf n m C"

abbreviation rz :: "Relaxed \<Rightarrow> nat \<Rightarrow> pallas" where
  "rz R \<equiv> (\<lambda>j. fe_dec (rx_z R ! j))"

lemma relaxed_row_ring:
  assumes "system_wf n m A B C" and "rx_wf n m R" and "i < n"
  shows "relaxed_row A B C R i \<longleftrightarrow>
    mat_ring A (rz R) i * mat_ring B (rz R) i = fe_dec (rx_u R) * mat_ring C (rz R) i + fe_dec (rx_E R ! i)"
proof -
  have z: "list_all is_canonical (rx_z R)" "length (rx_z R) = m" and M: "mat_wf n m A" "mat_wf n m B" "mat_wf n m C"
    and c: "is_canonical (rx_u R)" "is_canonical (rx_E R ! i)"
    using assms by (simp_all add: system_wf_def rx_wf_def list_all_length)
  note v = mat_vec_ring [OF M(1) z] mat_vec_ring [OF M(2) z] mat_vec_ring [OF M(3) z]
  then have k: "is_canonical (mat_vec A (rx_z R) ! i)" "is_canonical (mat_vec B (rx_z R) ! i)" "is_canonical (mat_vec C (rx_z R) ! i)"
    using assms(3) by (simp_all add: list_all_length)
  have "relaxed_row A B C R i \<longleftrightarrow> fe_dec (fe_mul (mat_vec A (rx_z R) ! i) (mat_vec B (rx_z R) ! i))
      = fe_dec (fe_add (fe_mul (rx_u R) (mat_vec C (rx_z R) ! i)) (rx_E R ! i))"
    unfolding relaxed_row_def using k c by (auto intro: fe_eqI)
  then show ?thesis using k c v assms(3) by (simp add: fe_dec_ops)
qed

lemma sat_relaxed_iff:
  assumes "system_wf n m A B C" and "rx_wf n m R"
  shows "sat_relaxed A B C R = n \<longleftrightarrow> (\<forall>i<n. relaxed_row A B C R i)"
  using assms mat_vec_ring(1) [of n m A "rx_z R"]
  by (simp add: sat_relaxed_def first_failing_all system_wf_def rx_wf_def)

lemma cross_term_ring:
  assumes S: "system_wf n m A B C" and U: "rx_wf n m U" and J: "rx_wf n m J"
  shows "length (cross_term A B C U J) = n" and "list_all is_canonical (cross_term A B C U J)"
    and "i < n \<Longrightarrow> fe_dec (cross_term A B C U J ! i) =
      mat_ring A (rz U) i * mat_ring B (rz J) i + mat_ring A (rz J) i * mat_ring B (rz U) i
      - fe_dec (rx_u U) * mat_ring C (rz J) i - fe_dec (rx_u J) * mat_ring C (rz U) i"
proof -
  have z: "list_all is_canonical (rx_z R)" "length (rx_z R) = m" "is_canonical (rx_u R)" if "rx_wf n m R" for R
    using that by (simp_all add: rx_wf_def)
  have M: "mat_wf n m A" "mat_wf n m B" "mat_wf n m C" using S by (simp_all add: system_wf_def)
  note v = mat_vec_ring [OF M(1) z(1,2)] mat_vec_ring [OF M(2) z(1,2)] mat_vec_ring [OF M(3) z(1,2)]
  note vU = v [OF U U] and vJ = v [OF J J]
  have k: "is_canonical (mat_vec X (rx_z R) ! i)" if "i < n" "X \<in> {A, B, C}" "R \<in> {U, J}" for X R i
    using that vU vJ by (auto simp: list_all_length)
  show "length (cross_term A B C U J) = n" using vU(1) by (simp add: cross_term_def Let_def)
  show "list_all is_canonical (cross_term A B C U J)"
    using vU(1) k z(3) [OF U] z(3) [OF J]
    by (simp add: cross_term_def Let_def list_all_length cross_at_def)
  show "i < n \<Longrightarrow> fe_dec (cross_term A B C U J ! i) =
      mat_ring A (rz U) i * mat_ring B (rz J) i + mat_ring A (rz J) i * mat_ring B (rz U) i
      - fe_dec (rx_u U) * mat_ring C (rz J) i - fe_dec (rx_u J) * mat_ring C (rz U) i"
    using vU vJ k [of i] z(3) [OF U] z(3) [OF J]
    by (simp add: cross_term_def Let_def cross_at_def fe_dec_ops)
qed

text \<open>A fresh instance has \<open>u = 1\<close> and no error; the fold adds the challenge to \<open>u\<close> on that ground.\<close>

definition fresh_sat :: "nat \<Rightarrow> nat \<Rightarrow> SparseMat \<Rightarrow> SparseMat \<Rightarrow> SparseMat \<Rightarrow> Relaxed \<Rightarrow> bool" where
  "fresh_sat n m A B C J \<longleftrightarrow> rx_wf n m J \<and> incoming_fresh [J] \<and> sat_relaxed A B C J = n"

lemma fold_in_sat:
  assumes S: "system_wf n m A B C" and U: "rx_wf n m U" "sat_relaxed A B C U = n"
    and J: "fresh_sat n m A B C J" and r: "is_canonical r"
  defines "R \<equiv> fold_in r (cross_term A B C U J) U J"
  shows "rx_wf n m R" and "sat_relaxed A B C R = n"
proof -
  have J': "rx_wf n m J" "rx_u J = fe_one" "\<And>i. i < n \<Longrightarrow> fe_is_zero (rx_E J ! i)" "sat_relaxed A B C J = n"
    using J by (auto simp: fresh_sat_def incoming_fresh_def rx_wf_def)
  note T = cross_term_ring [OF S U(1) J'(1)]
  have cU: "is_canonical (rx_u U)" "length (rx_z U) = m" "length (rx_E U) = n"
    "\<And>t. t < m \<Longrightarrow> is_canonical (rx_z U ! t)" "\<And>i. i < n \<Longrightarrow> is_canonical (rx_E U ! i)"
    and cJ: "\<And>t. t < m \<Longrightarrow> is_canonical (rx_z J ! t)"
    using U(1) J'(1) by (simp_all add: rx_wf_def list_all_length)
  have cT: "\<And>i. i < n \<Longrightarrow> is_canonical (cross_term A B C U J ! i)" using T by (simp add: list_all_length)
  show wf: "rx_wf n m R"
    using cU cJ cT r by (simp add: rx_wf_def R_def fold_in_def list_all_length)
  have col: "mat_ring M (rz R) i = mat_ring M (rz U) i + fe_dec r * mat_ring M (rz J) i" if "mat_wf n m M" for M i
  proof -
    have "mat_ring M (rz R) i = mat_ring M (\<lambda>j. rz U j + fe_dec r * rz J j) i"
      unfolding mat_ring_def
      using that cU cJ r by (intro sum.cong refl) (auto simp: R_def fold_in_def mat_wf_def fe_dec_ops)
    then show ?thesis by (simp only: mat_ring_lin)
  qed
  have "relaxed_row A B C R i" if i: "i < n" for i
  proof -
    have rU: "mat_ring A (rz U) i * mat_ring B (rz U) i = fe_dec (rx_u U) * mat_ring C (rz U) i + fe_dec (rx_E U ! i)"
      using U(2) i unfolding sat_relaxed_iff [OF S U(1)] by (simp add: relaxed_row_ring [OF S U(1)])
    have "fe_dec (rx_E J ! i) = 0" using J'(3) [OF i] fe_dec_zero by (cases "rx_E J ! i") (simp add: fe_is_zero_def fe_zero_def)
    then have rJ: "mat_ring A (rz J) i * mat_ring B (rz J) i = fe_dec (rx_u J) * mat_ring C (rz J) i"
      using J'(4) i unfolding sat_relaxed_iff [OF S J'(1)] by (simp add: relaxed_row_ring [OF S J'(1)])
    have M: "mat_wf n m A" "mat_wf n m B" "mat_wf n m C" using S by (simp_all add: system_wf_def)
    show ?thesis
      unfolding relaxed_row_ring [OF S wf i] col [OF M(1)] col [OF M(2)] col [OF M(3)]
      using fold_identity [OF rU rJ, of "fe_dec r"] T(3) [OF i] cU cT i r J'(2)
      by (simp add: R_def fold_in_def fe_dec_ops fe_dec_one)
  qed
  then show "sat_relaxed A B C R = n" by (simp add: sat_relaxed_iff [OF S wf])
qed

lemma fold_seq_sat:
  assumes S: "system_wf n m A B C"
  shows "rx_wf n m U \<Longrightarrow> sat_relaxed A B C U = n \<Longrightarrow> \<forall>(J, r) \<in> set jrs. fresh_sat n m A B C J \<and> is_canonical r \<Longrightarrow>
    (\<forall>T. first = Some T \<longrightarrow> jrs \<noteq> [] \<longrightarrow> T = cross_term A B C U (fst (hd jrs))) \<Longrightarrow>
    fold_seq A B C first U jrs = (R, Ts) \<Longrightarrow> rx_wf n m R \<and> sat_relaxed A B C R = n"
proof (induction jrs arbitrary: U first Ts)
  case (Cons jr jrs)
  obtain J r where jr: "jr = (J, r)" by fastforce
  define T where "T = (case first of Some T0 \<Rightarrow> T0 | None \<Rightarrow> cross_term A B C U J)"
  have T: "T = cross_term A B C U J" using Cons.prems(4) by (auto simp: T_def jr split: option.splits)
  obtain Ts' where e: "fold_seq A B C None (fold_in r T U J) jrs = (R, Ts')"
    using Cons.prems(5) by (auto simp: jr T_def Let_def split: prod.splits)
  have "rx_wf n m (fold_in r T U J) \<and> sat_relaxed A B C (fold_in r T U J) = n"
    using fold_in_sat [OF S Cons.prems(1,2), of J r] Cons.prems(3) by (simp add: jr T)
  then show ?case using Cons.IH [OF _ _ _ _ e] Cons.prems(3) by simp
qed simp

lemma apply_fold_sat:
  assumes "system_wf n m A B C" and U: "rx_wf n m U" "sat_relaxed A B C U = n"
    and js: "\<forall>J \<in> set js. fresh_sat n m A B C J" and r: "\<forall>x \<in> set r. is_canonical x"
    and "apply_fold A B C (map (cross_term A B C U) js) U js r = (R, Ts)"
  shows "rx_wf n m R \<and> sat_relaxed A B C R = n"
proof -
  have c: "is_canonical (rx_u U)" using U by (simp add: rx_wf_def)
  then have "fe_add (rx_u U) fe_zero = rx_u U" by (intro fe_eqI) (simp_all add: fe_dec_ops fe_dec_zero)
  then have e: "fold_seq A B C (if length js = 1 then Some (map (cross_term A B C U) js ! 0) else None) U (zip js r) = (R, Ts)"
    using assms(6) by (simp add: apply_fold_def)
  show ?thesis
  proof (rule fold_seq_sat [OF assms(1) U _ _ e])
    show "\<forall>(J, r) \<in> set (zip js r). fresh_sat n m A B C J \<and> is_canonical r"
      using js r by (auto dest: set_zip_leftD set_zip_rightD)
    show "\<forall>T. (if length js = 1 then Some (map (cross_term A B C U) js ! 0) else None) = Some T \<longrightarrow>
        zip js r \<noteq> [] \<longrightarrow> T = cross_term A B C U (fst (hd (zip js r)))"
      by (cases js; cases r) auto
  qed
qed

lemma multifold_sat:
  assumes "system_wf n m A B C" and U: "rx_wf n m U" "sat_relaxed A B C U = n"
    and js: "\<forall>J \<in> set js. fresh_sat n m A B C J" and "multifold ndebug A B C U js = Some F"
  shows "rx_wf n m (mf_folded F)" and "sat_relaxed A B C (mf_folded F) = n"
  using assms(5)
  by (auto simp: multifold_def Let_def split: if_splits prod.splits
      dest!: apply_fold_sat [OF assms(1) U js, rotated])

lemma multifold_v2_sat:
  assumes "system_wf n m A B C" and U: "rx_wf n m U" "sat_relaxed A B C U = n"
    and js: "\<forall>J \<in> set js. fresh_sat n m A B C J" and "multifold_v2 shr ndebug A B C U js = Some F"
  shows "rx_wf n m (m2_folded F)" and "sat_relaxed A B C (m2_folded F) = n"
  using assms(5)
  by (auto simp: multifold_v2_def Let_def v2_challenge_def split: if_splits prod.splits
      dest!: apply_fold_sat [OF assms(1) U js, rotated])

lemma fresh_satisfied: "rx_wf n m (fresh z n) \<Longrightarrow> sat_relaxed A B C (fresh z n) = n \<Longrightarrow> fresh_sat n m A B C (fresh z n)"
  by (auto simp: fresh_sat_def incoming_fresh_def fresh_def fe_is_zero_def fe_zero_def)

text \<open>The asserts stop every fold of an instance that is not fresh, and none of one that is.\<close>

lemma multifold_aborts: "multifold ndebug A B C U js = None \<longleftrightarrow> \<not> ndebug \<and> \<not> incoming_fresh js"
  by (auto simp: multifold_def Let_def split: prod.splits)

lemma multifold_returns:
  assumes "\<forall>J\<in>set js. fresh_sat n m A B C J"
  shows "multifold ndebug A B C U js \<noteq> None \<and> multifold_v2 shr ndebug A B C U js \<noteq> None"
proof -
  have "incoming_fresh js" using assms by (auto simp: fresh_sat_def incoming_fresh_def)
  then show ?thesis by (auto simp: multifold_def multifold_v2_def Let_def split: prod.splits)
qed

end
