(* ===== verification/Poseidon_R1cs.thy ===== *)
theory Poseidon_R1cs
  imports Mfold "HOL-Library.Sublist"
begin

text \<open>
  The Poseidon permutation as constraint rows, \<open>src/include/hsma/poseidon_r1cs.hpp\<close>: the helpers that
  extend the witness and emit rows, the gadgets, and \<open>build\<close>. The three matrices and the witness the
  code extends in place are one state. The row counter of the code starts at the number of entries of
  \<open>A\<close> and grows with each of them, one per row, so it is that number throughout.
\<close>

record R1cs =
  cs_A :: SparseMat
  cs_B :: SparseMat
  cs_C :: SparseMat
  cs_w :: "fe list"

definition mk_fe :: "u64 list \<Rightarrow> fe" where
  "mk_fe c = fe_from_canonical_limbs c"

definition next_row :: "R1cs \<Rightarrow> nat" where
  "next_row s = length (sm_row (cs_A s))"

definition push :: "nat \<Rightarrow> SparseMat \<Rightarrow> nat \<times> fe \<Rightarrow> SparseMat" where
  "push r M cv = M\<lparr>sm_row := sm_row M @ [r], sm_col := sm_col M @ [fst cv], sm_val := sm_val M @ [snd cv]\<rparr>"

definition emit :: "R1cs \<Rightarrow> nat \<Rightarrow> nat \<Rightarrow> (nat \<times> fe) list \<Rightarrow> R1cs" where
  "emit s a b terms =
     s\<lparr>cs_A := push (next_row s) (cs_A s) (a, fe_one),
       cs_B := push (next_row s) (cs_B s) (b, fe_one),
       cs_C := foldl (push (next_row s)) (cs_C s) terms\<rparr>"

definition prod_constraint :: "R1cs \<Rightarrow> nat \<Rightarrow> nat \<Rightarrow> nat \<Rightarrow> R1cs" where
  "prod_constraint s a b c = emit s a b [(c, fe_one)]"

definition lin_constraint :: "R1cs \<Rightarrow> nat \<Rightarrow> (nat \<times> fe) list \<Rightarrow> R1cs" where
  "lin_constraint s out terms = emit s out 0 terms"

definition new_var :: "R1cs \<Rightarrow> fe \<Rightarrow> R1cs" where
  "new_var s v = s\<lparr>cs_w := cs_w s @ [v]\<rparr>"

subsection \<open>Gadgets\<close>

text \<open>\<open>wmul\<close> followed by its product constraint.\<close>

definition mul_gadget :: "R1cs \<Rightarrow> nat \<Rightarrow> nat \<Rightarrow> R1cs \<times> nat" where
  "mul_gadget s a b =
     (let v = length (cs_w s)
      in (prod_constraint (new_var s (fe_mul (cs_w s ! a) (cs_w s ! b))) a b v, v))"

definition sbox_gadget :: "R1cs \<Rightarrow> nat \<Rightarrow> R1cs \<times> nat" where
  "sbox_gadget s x =
     (let (s, x2) = mul_gadget s x x;
          (s, x4) = mul_gadget s x2 x2
      in mul_gadget s x x4)"

text \<open>The round constant becomes a witness variable, and the sum a linear constraint.\<close>

definition ark_gadget :: "R1cs \<Rightarrow> nat \<Rightarrow> fe \<Rightarrow> R1cs \<times> nat" where
  "ark_gadget s x c =
     (let rc_var = length (cs_w s);
          s = new_var s c;
          t = length (cs_w s);
          s = new_var s (fe_add (cs_w s ! x) (cs_w s ! rc_var))
      in (lin_constraint s t [(x, fe_one), (rc_var, fe_one)], t))"

definition scale_gadget :: "R1cs \<Rightarrow> fe \<Rightarrow> nat \<Rightarrow> R1cs \<times> nat" where
  "scale_gadget s m x =
     (let pv = length (cs_w s)
      in (lin_constraint (new_var s (fe_mul m (cs_w s ! x))) pv [(x, m)], pv))"

definition mds_out :: "R1cs \<Rightarrow> fe \<Rightarrow> fe \<Rightarrow> fe \<Rightarrow> nat \<times> nat \<times> nat \<Rightarrow> R1cs \<times> nat" where
  "mds_out s m0 m1 m2 xs =
     (case xs of (x0, x1, x2) \<Rightarrow>
      let (s, p0) = scale_gadget s m0 x0;
          (s, p1) = scale_gadget s m1 x1;
          (s, p2) = scale_gadget s m2 x2;
          ov = length (cs_w s);
          s = new_var s (fe_add (fe_add (cs_w s ! p0) (cs_w s ! p1)) (cs_w s ! p2))
      in (lin_constraint s ov [(p0, fe_one), (p1, fe_one), (p2, fe_one)], ov))"

definition mds_mul :: "u64 list list list \<Rightarrow> R1cs \<Rightarrow> nat \<times> nat \<times> nat \<Rightarrow> R1cs \<times> nat \<times> nat \<times> nat" where
  "mds_mul mds s sb =
     (let (s, o0) = mds_out s (mk_fe (mds ! 0 ! 0)) (mk_fe (mds ! 0 ! 1)) (mk_fe (mds ! 0 ! 2)) sb;
          (s, o1) = mds_out s (mk_fe (mds ! 1 ! 0)) (mk_fe (mds ! 1 ! 1)) (mk_fe (mds ! 1 ! 2)) sb;
          (s, o2) = mds_out s (mk_fe (mds ! 2 ! 0)) (mk_fe (mds ! 2 ! 1)) (mk_fe (mds ! 2 ! 2)) sb
      in (s, o0, o1, o2))"

definition lane_gadget :: "R1cs \<Rightarrow> nat \<Rightarrow> u64 list \<Rightarrow> R1cs \<times> nat" where
  "lane_gadget s x rc = (let (s, t) = ark_gadget s x (mk_fe rc) in sbox_gadget s t)"

definition full_gadget :: "u64 list list \<Rightarrow> u64 list list list \<Rightarrow> nat \<Rightarrow> R1cs \<Rightarrow> nat \<times> nat \<times> nat \<Rightarrow> R1cs \<times> nat \<times> nat \<times> nat" where
  "full_gadget rc mds k s st =
     (case st of (a, b, c) \<Rightarrow>
      let (s, sb0) = lane_gadget s a (rc ! k);
          (s, sb1) = lane_gadget s b (rc ! (k + 1));
          (s, sb2) = lane_gadget s c (rc ! (k + 2))
      in mds_mul mds s (sb0, sb1, sb2))"

definition partial_gadget :: "u64 list list \<Rightarrow> u64 list list list \<Rightarrow> nat \<Rightarrow> R1cs \<Rightarrow> nat \<times> nat \<times> nat \<Rightarrow> R1cs \<times> nat \<times> nat \<times> nat" where
  "partial_gadget rc mds k s st =
     (case st of (a, b, c) \<Rightarrow>
      let (s, sb0) = lane_gadget s a (rc ! k)
      in mds_mul mds s (sb0, b, c))"

fun full_gadgets :: "nat \<Rightarrow> u64 list list \<Rightarrow> u64 list list list \<Rightarrow> nat \<Rightarrow> R1cs \<Rightarrow> nat \<times> nat \<times> nat \<Rightarrow> R1cs \<times> nat \<times> nat \<times> nat" where
  "full_gadgets 0 rc mds k s st = (s, st)"
| "full_gadgets (Suc n) rc mds k s st =
     (let (s, st) = full_gadget rc mds k s st in full_gadgets n rc mds (k + 3) s st)"

fun partial_gadgets :: "nat \<Rightarrow> u64 list list \<Rightarrow> u64 list list list \<Rightarrow> nat \<Rightarrow> R1cs \<Rightarrow> nat \<times> nat \<times> nat \<Rightarrow> R1cs \<times> nat \<times> nat \<times> nat" where
  "partial_gadgets 0 rc mds k s st = (s, st)"
| "partial_gadgets (Suc n) rc mds k s st =
     (let (s, st) = partial_gadget rc mds k s st in partial_gadgets n rc mds (k + 1) s st)"

text \<open>The numbers of rows and variables of the result record are read off the state.\<close>

definition r1cs_build :: "R1cs \<Rightarrow> nat \<Rightarrow> nat \<Rightarrow> nat \<Rightarrow> u64 list list \<Rightarrow> u64 list list list \<Rightarrow> nat \<Rightarrow> nat \<Rightarrow> R1cs \<times> nat" where
  "r1cs_build s s0 s1 s2 rc mds rf_half rp =
     (let (s, st) = full_gadgets rf_half rc mds 0 s (s0, s1, s2);
          (s, st) = partial_gadgets rp rc mds (3 * rf_half) s st;
          (s, st) = full_gadgets rf_half rc mds (3 * rf_half + rp) s st
      in (s, fst st))"

subsection \<open>Satisfied systems\<close>

definition wz :: "fe list \<Rightarrow> nat \<Rightarrow> pallas" where
  "wz w j = fe_dec (w ! j)"

definition mat_ok :: "nat \<Rightarrow> nat \<Rightarrow> SparseMat \<Rightarrow> bool" where
  "mat_ok n m M \<longleftrightarrow> length (sm_row M) = length (sm_val M) \<and> length (sm_col M) = length (sm_val M)
     \<and> (\<forall>i \<in> set (sm_row M). i < n) \<and> (\<forall>j \<in> set (sm_col M). j < m) \<and> list_all is_canonical (sm_val M)"

definition cs_inv :: "R1cs \<Rightarrow> bool" where
  "cs_inv s \<longleftrightarrow> mat_ok (next_row s) (length (cs_w s)) (cs_A s) \<and> mat_ok (next_row s) (length (cs_w s)) (cs_B s)
     \<and> mat_ok (next_row s) (length (cs_w s)) (cs_C s) \<and> list_all is_canonical (cs_w s)
     \<and> cs_w s \<noteq> [] \<and> cs_w s ! 0 = fe_one
     \<and> (\<forall>i < next_row s. mat_ring (cs_A s) (wz (cs_w s)) i * mat_ring (cs_B s) (wz (cs_w s)) i = mat_ring (cs_C s) (wz (cs_w s)) i)"

lemma mat_ring_push:
  assumes "length (sm_row M) = length (sm_val M)" "length (sm_col M) = length (sm_val M)"
  shows "mat_ring (push r M cv) z i = mat_ring M z i + (if r = i then fe_dec (snd cv) * z (fst cv) else 0)"
  using assms by (simp add: mat_ring_def push_def nth_append cong: if_cong)

lemma push_lengths:
  "length (sm_row M) = length (sm_val M) \<Longrightarrow> length (sm_row (push r M cv)) = length (sm_val (push r M cv))"
  "length (sm_col M) = length (sm_val M) \<Longrightarrow> length (sm_col (push r M cv)) = length (sm_val (push r M cv))"
  by (simp_all add: push_def)

lemma mat_ring_push_all:
  "length (sm_row M) = length (sm_val M) \<Longrightarrow> length (sm_col M) = length (sm_val M) \<Longrightarrow>
    mat_ring (foldl (push r) M cvs) z i
      = mat_ring M z i + (if r = i then \<Sum>(c, v)\<leftarrow>cvs. fe_dec v * z c else 0)"
  by (induction cvs arbitrary: M) (simp_all add: mat_ring_push push_lengths add.assoc case_prod_beta)

lemma mat_ok_push: "mat_ok n m M \<Longrightarrow> r < n' \<Longrightarrow> n \<le> n' \<Longrightarrow> fst cv < m \<Longrightarrow> is_canonical (snd cv) \<Longrightarrow> mat_ok n' m (push r M cv)"
  by (auto simp: mat_ok_def push_def)

lemma mat_ok_push_all:
  "mat_ok n m M \<Longrightarrow> r < n' \<Longrightarrow> n \<le> n' \<Longrightarrow> \<forall>(c, v) \<in> set cvs. c < m \<and> is_canonical v \<Longrightarrow> cvs \<noteq> [] \<Longrightarrow>
    mat_ok n' m (foldl (push r) M cvs)"
proof (induction cvs arbitrary: M n)
  case (Cons cv cvs)
  have "mat_ok n' m (push r M cv)" using Cons.prems mat_ok_push [of n m M r n' cv] by auto
  then show ?case using Cons.IH [of n' "push r M cv"] Cons.prems(2,4) by (cases cvs) auto
qed simp

lemma mat_ring_fresh: "mat_ok n m M \<Longrightarrow> n \<le> i \<Longrightarrow> mat_ring M z i = 0"
  unfolding mat_ring_def mat_ok_def by (intro sum.neutral) (auto simp: all_set_conv_all_nth)

lemma mat_ring_extend:
  assumes "mat_ok n (length w) M"
  shows "mat_ring M (wz (w @ x)) i = mat_ring M (wz w) i"
  unfolding mat_ring_def using assms by (intro sum.cong refl) (auto simp: mat_ok_def wz_def nth_append)

lemma mat_ok_mono: "mat_ok n m M \<Longrightarrow> n \<le> n' \<Longrightarrow> m \<le> m' \<Longrightarrow> mat_ok n' m' M"
  by (auto simp: mat_ok_def)

lemma new_var_inv:
  assumes s: "cs_inv s" and v: "is_canonical v"
  shows "cs_inv (new_var s v)"
proof -
  have n: "next_row (new_var s v) = next_row s" by (simp add: new_var_def next_row_def)
  have M: "mat_ok (next_row s) (length (cs_w s)) (cs_A s)" "mat_ok (next_row s) (length (cs_w s)) (cs_B s)"
    "mat_ok (next_row s) (length (cs_w s)) (cs_C s)" using s by (simp_all add: cs_inv_def)
  have "\<forall>i < next_row s. mat_ring (cs_A s) (wz (cs_w s)) i * mat_ring (cs_B s) (wz (cs_w s)) i = mat_ring (cs_C s) (wz (cs_w s)) i"
    using s by (simp add: cs_inv_def)
  then have "\<forall>i < next_row s. mat_ring (cs_A s) (wz (cs_w s @ [v])) i * mat_ring (cs_B s) (wz (cs_w s @ [v])) i
      = mat_ring (cs_C s) (wz (cs_w s @ [v])) i"
    by (simp only: mat_ring_extend [OF M(1)] mat_ring_extend [OF M(2)] mat_ring_extend [OF M(3)])
  then show ?thesis
    using s v M by (auto simp: cs_inv_def n) (auto simp: new_var_def nth_append elim: mat_ok_mono)
qed

lemma emit_inv:
  assumes s: "cs_inv s" and ab: "a < length (cs_w s)" "b < length (cs_w s)"
    and t: "\<forall>(c, v) \<in> set terms. c < length (cs_w s) \<and> is_canonical v" "terms \<noteq> []"
    and eq: "fe_dec (cs_w s ! a) * fe_dec (cs_w s ! b) = (\<Sum>(c, v)\<leftarrow>terms. fe_dec v * fe_dec (cs_w s ! c))"
  shows "cs_inv (emit s a b terms)" and "cs_w (emit s a b terms) = cs_w s" and "next_row (emit s a b terms) = Suc (next_row s)"
proof -
  let ?s = "emit s a b terms" and ?n = "next_row s" and ?m = "length (cs_w s)"
  show w: "cs_w ?s = cs_w s" and n: "next_row ?s = Suc ?n" by (simp_all add: emit_def next_row_def push_def)
  have M: "mat_ok ?n ?m (cs_A s)" "mat_ok ?n ?m (cs_B s)" "mat_ok ?n ?m (cs_C s)" using s by (simp_all add: cs_inv_def)
  have M': "mat_ok (Suc ?n) ?m (cs_A ?s)" "mat_ok (Suc ?n) ?m (cs_B ?s)" "mat_ok (Suc ?n) ?m (cs_C ?s)"
    using M ab t by (auto simp: emit_def intro!: mat_ok_push mat_ok_push_all)
  have r: "mat_ring (cs_A ?s) z i = mat_ring (cs_A s) z i + (if ?n = i then z a else 0)"
    "mat_ring (cs_B ?s) z i = mat_ring (cs_B s) z i + (if ?n = i then z b else 0)"
    "mat_ring (cs_C ?s) z i = mat_ring (cs_C s) z i + (if ?n = i then \<Sum>(c, v)\<leftarrow>terms. fe_dec v * z c else 0)" for z i
    using M by (simp_all add: emit_def mat_ring_push mat_ring_push_all mat_ok_def fe_dec_one)
  have "mat_ring (cs_A ?s) (wz (cs_w s)) i * mat_ring (cs_B ?s) (wz (cs_w s)) i = mat_ring (cs_C ?s) (wz (cs_w s)) i"
    if i: "i < Suc ?n" for i
  proof (cases "i = ?n")
    case True
    then show ?thesis using eq mat_ring_fresh [OF M(1)] mat_ring_fresh [OF M(2)] mat_ring_fresh [OF M(3)] by (simp add: r wz_def)
  next
    case False
    then show ?thesis using s i by (simp add: r cs_inv_def)
  qed
  then show "cs_inv ?s" using s M' by (simp add: cs_inv_def w n)
qed

subsection \<open>What the gadgets compute\<close>

text \<open>From \<open>s\<close> to \<open>s'\<close> the witness grows, stays satisfying, \<open>k\<close> rows are added, and the variable \<open>v\<close> holds \<open>x\<close>.\<close>

definition holds :: "R1cs \<Rightarrow> nat \<Rightarrow> fe \<Rightarrow> bool" where
  "holds s v x \<longleftrightarrow> v < length (cs_w s) \<and> cs_w s ! v = x"

definition grows :: "R1cs \<Rightarrow> R1cs \<Rightarrow> nat \<Rightarrow> bool" where
  "grows s s' k \<longleftrightarrow> cs_inv s' \<and> prefix (cs_w s) (cs_w s') \<and> next_row s' = next_row s + k"

lemma grows_refl: "cs_inv s \<Longrightarrow> grows s s 0"
  by (simp add: grows_def)

lemma grows_trans: "grows s s' k \<Longrightarrow> grows s' s'' l \<Longrightarrow> grows s s'' (k + l)"
  by (auto simp: grows_def)

lemma grows_holds: "grows s s' k \<Longrightarrow> holds s v x \<Longrightarrow> holds s' v x"
  by (auto simp: grows_def holds_def prefix_def nth_append)

lemma holds_canonical: "cs_inv s \<Longrightarrow> holds s v x \<Longrightarrow> is_canonical x"
  by (auto simp: cs_inv_def holds_def list_all_length)

lemma grows_inv: "grows s s' k \<Longrightarrow> cs_inv s'"
  by (simp add: grows_def)

text \<open>A new variable with its row.\<close>

lemma define_var:
  assumes s: "cs_inv s" and y: "is_canonical y" and b: "b < length (cs_w s)"
    and t: "\<forall>(c, v) \<in> set terms. c < length (cs_w s) \<and> is_canonical v" "terms \<noteq> []"
    and eq: "fe_dec y * fe_dec (cs_w s ! b) = (\<Sum>(c, v)\<leftarrow>terms. fe_dec v * fe_dec (cs_w s ! c))"
  defines "s' \<equiv> emit (new_var s y) (length (cs_w s)) b terms"
  shows "grows s s' 1" and "holds s' (length (cs_w s)) y"
proof -
  let ?s = "new_var s y"
  have w: "cs_w ?s = cs_w s @ [y]" by (simp add: new_var_def)
  have n: "next_row ?s = next_row s" by (simp add: new_var_def next_row_def)
  have e: "(\<Sum>(c, v)\<leftarrow>terms. fe_dec v * fe_dec (cs_w ?s ! c)) = (\<Sum>(c, v)\<leftarrow>terms. fe_dec v * fe_dec (cs_w s ! c))"
    using t(1) by (intro arg_cong [of _ _ sum_list] map_cong refl) (auto simp: w nth_append)
  have t': "\<forall>(c, v) \<in> set terms. c < length (cs_w ?s) \<and> is_canonical v" using t(1) by (auto simp: w)
  have "fe_dec (cs_w ?s ! length (cs_w s)) * fe_dec (cs_w ?s ! b) = (\<Sum>(c, v)\<leftarrow>terms. fe_dec v * fe_dec (cs_w ?s ! c))"
    unfolding e using eq b by (simp add: w nth_append)
  note k = emit_inv [OF new_var_inv [OF s y] _ _ t' t(2) this]
  show "grows s s' 1" "holds s' (length (cs_w s)) y"
    using k b by (auto simp: grows_def holds_def s'_def w n)
qed

lemma mul_gadget_ok:
  assumes s: "cs_inv s" and a: "holds s a x" and b: "holds s b y" and e: "mul_gadget s a b = (s', v)"
  shows "grows s s' 1" and "holds s' v (fe_mul x y)"
proof -
  let ?s1 = "new_var s (fe_mul x y)"
  have c: "is_canonical x" "is_canonical y" using holds_canonical s a b by blast+
  have w: "cs_w ?s1 = cs_w s @ [fe_mul x y]" by (simp add: new_var_def)
  have s': "s' = emit ?s1 a b [(length (cs_w s), fe_one)]" and v: "v = length (cs_w s)"
    using e a b by (auto simp: mul_gadget_def Let_def prod_constraint_def holds_def)
  note k = emit_inv [OF new_var_inv [OF s, of "fe_mul x y"], of a b "[(length (cs_w s), fe_one)]"]
  show "grows s s' 1" "holds s' v (fe_mul x y)"
    using k a b c by (auto simp: grows_def holds_def s' v w nth_append fe_dec_ops fe_dec_one)
      (auto simp: new_var_def next_row_def)
qed

lemma sbox_gadget_ok:
  assumes s: "cs_inv s" and x: "holds s v x" and e: "sbox_gadget s v = (s', u)"
  shows "grows s s' 3" and "holds s' u (p3_sbox x)"
proof -
  obtain s1 x2 where e1: "mul_gadget s v v = (s1, x2)" by fastforce
  obtain s2 x4 where e2: "mul_gadget s1 x2 x2 = (s2, x4)" by fastforce
  have e3: "mul_gadget s2 v x4 = (s', u)" using e by (simp add: sbox_gadget_def e1 e2)
  note g1 = mul_gadget_ok [OF s x x e1]
  note g2 = mul_gadget_ok [OF grows_inv [OF g1(1)] g1(2) g1(2) e2]
  note x' = grows_holds [OF g2(1) grows_holds [OF g1(1) x]]
  note g3 = mul_gadget_ok [OF grows_inv [OF g2(1)] x' g2(2) e3]
  have c: "is_canonical x" using holds_canonical s x by blast
  have "fe_mul x (fe_mul (fe_mul x x) (fe_mul x x)) = p3_sbox x"
    using c by (intro fe_eqI) (simp_all add: p3_sbox_def fe_sqr_def Let_def fe_dec_ops mult.commute)
  then show "holds s' u (p3_sbox x)" using g3(2) by simp
  show "grows s s' 3" using grows_trans [OF g1(1) grows_trans [OF g2(1) g3(1)]] by (simp add: eval_nat_numeral)
qed

lemma ark_gadget_ok:
  assumes s: "cs_inv s" and x: "holds s v x" and c: "is_canonical c" and e: "ark_gadget s v c = (s', u)"
  shows "grows s s' 1" and "holds s' u (fe_add x c)"
proof -
  let ?s = "new_var s c"
  have w: "cs_w ?s = cs_w s @ [c]" by (simp add: new_var_def)
  have x': "v < length (cs_w s)" "cs_w s ! v = x" "is_canonical x" using x holds_canonical [OF s x] by (simp_all add: holds_def)
  have one: "cs_w s \<noteq> []" "cs_w s ! 0 = fe_one" using s by (simp_all add: cs_inv_def)
  have e': "s' = emit (new_var ?s (fe_add x c)) (length (cs_w ?s)) 0 [(v, fe_one), (length (cs_w s), fe_one)]" "u = length (cs_w ?s)"
    using e x' by (auto simp: ark_gadget_def Let_def lin_constraint_def w nth_append)
  have "fe_dec (fe_add x c) * fe_dec (cs_w ?s ! 0)
      = (\<Sum>(j, y)\<leftarrow>[(v, fe_one), (length (cs_w s), fe_one)]. fe_dec y * fe_dec (cs_w ?s ! j))"
    using x' c one by (simp add: w nth_append fe_dec_ops fe_dec_one)
  then have g: "grows ?s s' 1" "holds s' u (fe_add x c)"
    unfolding e' using x' c one new_var_inv [OF s c]
      define_var [of ?s "fe_add x c" 0 "[(v, fe_one), (length (cs_w s), fe_one)]"]
    by (simp_all add: w)
  then show "grows s s' 1" "holds s' u (fe_add x c)"
    using new_var_inv [OF s c] by (auto simp: grows_def w next_row_def new_var_def dest: append_prefixD)
qed

lemma scale_gadget_ok:
  assumes s: "cs_inv s" and x: "holds s v x" and m: "is_canonical m" and e: "scale_gadget s m v = (s', u)"
  shows "grows s s' 1" and "holds s' u (fe_mul m x)"
proof -
  have x': "v < length (cs_w s)" "cs_w s ! v = x" "is_canonical x" using x holds_canonical [OF s x] by (simp_all add: holds_def)
  have one: "cs_w s \<noteq> []" "cs_w s ! 0 = fe_one" using s by (simp_all add: cs_inv_def)
  have e': "s' = emit (new_var s (fe_mul m x)) (length (cs_w s)) 0 [(v, m)]" "u = length (cs_w s)"
    using e x' by (auto simp: scale_gadget_def Let_def lin_constraint_def)
  show "grows s s' 1" "holds s' u (fe_mul m x)"
    unfolding e' using x' m one by (intro define_var s, simp_all add: fe_dec_ops fe_dec_one)+
qed

lemma mds_out_ok:
  assumes s: "cs_inv s" and x: "holds s x0 y0" "holds s x1 y1" "holds s x2 y2"
    and m: "is_canonical m0" "is_canonical m1" "is_canonical m2" and e: "mds_out s m0 m1 m2 (x0, x1, x2) = (s', u)"
  shows "grows s s' 4" and "holds s' u (fe_add (fe_add (fe_mul m0 y0) (fe_mul m1 y1)) (fe_mul m2 y2))"
proof -
  obtain s1 p0 where e1: "scale_gadget s m0 x0 = (s1, p0)" by fastforce
  obtain s2 p1 where e2: "scale_gadget s1 m1 x1 = (s2, p1)" by fastforce
  obtain s3 p2 where e3: "scale_gadget s2 m2 x2 = (s3, p2)" by fastforce
  note g1 = scale_gadget_ok [OF s x(1) m(1) e1]
  note g2 = scale_gadget_ok [OF grows_inv [OF g1(1)] grows_holds [OF g1(1) x(2)] m(2) e2]
  note g3 = scale_gadget_ok [OF grows_inv [OF g2(1)] grows_holds [OF g2(1) grows_holds [OF g1(1) x(3)]] m(3) e3]
  let ?y = "fe_add (fe_add (fe_mul m0 y0) (fe_mul m1 y1)) (fe_mul m2 y2)"
  have i: "cs_inv s3" by (rule grows_inv [OF g3(1)])
  have p: "holds s3 p0 (fe_mul m0 y0)" "holds s3 p1 (fe_mul m1 y1)" "holds s3 p2 (fe_mul m2 y2)"
    using g1(2) g2 g3 by (auto intro: grows_holds)
  have c: "is_canonical (fe_mul m0 y0)" "is_canonical (fe_mul m1 y1)" "is_canonical (fe_mul m2 y2)"
    using p holds_canonical [OF i] by blast+
  have one: "cs_w s3 \<noteq> []" "cs_w s3 ! 0 = fe_one" using i by (simp_all add: cs_inv_def)
  have e': "s' = emit (new_var s3 ?y) (length (cs_w s3)) 0 [(p0, fe_one), (p1, fe_one), (p2, fe_one)]" "u = length (cs_w s3)"
    using e p by (auto simp: mds_out_def Let_def lin_constraint_def e1 e2 e3 holds_def)
  have g4: "grows s3 s' 1" "holds s' u ?y"
    unfolding e' using p c one define_var [OF i, of ?y 0 "[(p0, fe_one), (p1, fe_one), (p2, fe_one)]"]
    by (simp_all add: holds_def fe_dec_ops fe_dec_one add.assoc)
  then show "holds s' u ?y" by simp
  show "grows s s' 4"
    using grows_trans [OF g1(1) grows_trans [OF g2(1) grows_trans [OF g3(1) g4(1)]]] by (simp add: eval_nat_numeral)
qed

subsection \<open>The permutation with given tables\<close>

definition g_row :: "u64 list list list \<Rightarrow> nat \<Rightarrow> P3State \<Rightarrow> fe" where
  "g_row mds i x = fe_add (fe_add (fe_mul (mk_fe (mds ! i ! 0)) (ps0 x)) (fe_mul (mk_fe (mds ! i ! 1)) (ps1 x)))
     (fe_mul (mk_fe (mds ! i ! 2)) (ps2 x))"

definition g_mix :: "u64 list list list \<Rightarrow> P3State \<Rightarrow> P3State" where
  "g_mix mds x = \<lparr>ps0 = g_row mds 0 x, ps1 = g_row mds 1 x, ps2 = g_row mds 2 x\<rparr>"

definition g_full :: "u64 list list \<Rightarrow> u64 list list list \<Rightarrow> nat \<Rightarrow> P3State \<Rightarrow> P3State" where
  "g_full rc mds k x = g_mix mds
     \<lparr>ps0 = p3_sbox (fe_add (ps0 x) (mk_fe (rc ! k))),
      ps1 = p3_sbox (fe_add (ps1 x) (mk_fe (rc ! (k + 1)))),
      ps2 = p3_sbox (fe_add (ps2 x) (mk_fe (rc ! (k + 2))))\<rparr>"

definition g_partial :: "u64 list list \<Rightarrow> u64 list list list \<Rightarrow> nat \<Rightarrow> P3State \<Rightarrow> P3State" where
  "g_partial rc mds k x = g_mix mds (x\<lparr>ps0 := p3_sbox (fe_add (ps0 x) (mk_fe (rc ! k)))\<rparr>)"

fun g_fulls :: "nat \<Rightarrow> u64 list list \<Rightarrow> u64 list list list \<Rightarrow> nat \<Rightarrow> P3State \<Rightarrow> P3State" where
  "g_fulls 0 rc mds k x = x"
| "g_fulls (Suc n) rc mds k x = g_fulls n rc mds (k + 3) (g_full rc mds k x)"

fun g_partials :: "nat \<Rightarrow> u64 list list \<Rightarrow> u64 list list list \<Rightarrow> nat \<Rightarrow> P3State \<Rightarrow> P3State" where
  "g_partials 0 rc mds k x = x"
| "g_partials (Suc n) rc mds k x = g_partials n rc mds (k + 1) (g_partial rc mds k x)"

definition g_permute :: "u64 list list \<Rightarrow> u64 list list list \<Rightarrow> nat \<Rightarrow> nat \<Rightarrow> P3State \<Rightarrow> P3State" where
  "g_permute rc mds rf_half rp x =
     g_fulls rf_half rc mds (3 * rf_half + rp) (g_partials rp rc mds (3 * rf_half) (g_fulls rf_half rc mds 0 x))"

lemma g_mix_p3: "g_mix MDS_CANON x = p3_mix x"
  by (simp add: g_mix_def g_row_def p3_mix_def mix_row_def p3_mds_def mk_fe_def)

lemma g_fulls_p3: "g_fulls n RC_CANON MDS_CANON k x = full_rounds n k x"
  by (induction n arbitrary: k x) (simp_all add: g_full_def full_round_def g_mix_p3 p3_rc_def mk_fe_def)

lemma g_partials_p3: "g_partials n RC_CANON MDS_CANON k x = partial_rounds n k x"
  by (induction n arbitrary: k x) (simp_all add: g_partial_def partial_round_def g_mix_p3 p3_rc_def mk_fe_def)

lemma g_permute_p3: "g_permute RC_CANON MDS_CANON 4 56 x = p3_permute x"
  by (simp add: g_permute_def g_fulls_p3 g_partials_p3 p3_permute_def RF_def RP_def)

definition const_ok :: "u64 list \<Rightarrow> bool" where
  "const_ok c \<longleftrightarrow> length c = 4 \<and> limbs_val c < pallas_p"

definition params_ok :: "u64 list list \<Rightarrow> u64 list list list \<Rightarrow> nat \<Rightarrow> bool" where
  "params_ok rc mds n \<longleftrightarrow> (\<forall>k<n. const_ok (rc ! k)) \<and> (\<forall>i<3. \<forall>j<3. const_ok (mds ! i ! j))"

lemma canonical_mk_fe: "const_ok c \<Longrightarrow> is_canonical (mk_fe c)"
  by (simp add: const_ok_def mk_fe_def canonical_from_limbs)

lemma params_p3: "params_ok RC_CANON MDS_CANON 80"
  using RC_CANON_ok MDS_CANON_ok by (simp add: params_ok_def const_ok_def)

fun holds3 :: "R1cs \<Rightarrow> nat \<times> nat \<times> nat \<Rightarrow> P3State \<Rightarrow> bool" where
  "holds3 s (a, b, c) x \<longleftrightarrow> holds s a (ps0 x) \<and> holds s b (ps1 x) \<and> holds s c (ps2 x)"

lemma mds_mul_ok:
  assumes s: "cs_inv s" and x: "holds3 s sb x" and m: "params_ok rc mds n" and e: "mds_mul mds s sb = (s', out)"
  shows "grows s s' 12" and "holds3 s' out (g_mix mds x)"
proof -
  obtain x0 x1 x2 where sb: "sb = (x0, x1, x2)" by (metis prod.collapse)
  have c: "i < 3 \<Longrightarrow> j < 3 \<Longrightarrow> is_canonical (mk_fe (mds ! i ! j))" for i j
    using m by (simp add: params_ok_def canonical_mk_fe)
  have h: "holds s x0 (ps0 x)" "holds s x1 (ps1 x)" "holds s x2 (ps2 x)" using x by (simp_all add: sb)
  obtain s1 o0 where e1: "mds_out s (mk_fe (mds ! 0 ! 0)) (mk_fe (mds ! 0 ! 1)) (mk_fe (mds ! 0 ! 2)) (x0, x1, x2) = (s1, o0)" by fastforce
  obtain s2 o1 where e2: "mds_out s1 (mk_fe (mds ! 1 ! 0)) (mk_fe (mds ! 1 ! 1)) (mk_fe (mds ! 1 ! 2)) (x0, x1, x2) = (s2, o1)" by fastforce
  obtain s3 o2 where e3: "mds_out s2 (mk_fe (mds ! 2 ! 0)) (mk_fe (mds ! 2 ! 1)) (mk_fe (mds ! 2 ! 2)) (x0, x1, x2) = (s3, o2)" by fastforce
  have out: "s' = s3" "out = (o0, o1, o2)" using e [unfolded mds_mul_def sb e1 Let_def prod.case e2 e3] by simp_all
  note g1 = mds_out_ok [OF s h c c c e1, simplified]
  note h1 = grows_holds [OF g1(1) h(1)] grows_holds [OF g1(1) h(2)] grows_holds [OF g1(1) h(3)]
  note g2 = mds_out_ok [OF grows_inv [OF g1(1)] h1 c c c e2, simplified]
  note h2 = grows_holds [OF g2(1) h1(1)] grows_holds [OF g2(1) h1(2)] grows_holds [OF g2(1) h1(3)]
  note g3 = mds_out_ok [OF grows_inv [OF g2(1)] h2 c c c e3, simplified]
  show "grows s s' 12" using grows_trans [OF g1(1) grows_trans [OF g2(1) g3(1)]] by (simp add: out)
  show "holds3 s' out (g_mix mds x)"
    using g1(2) g2 g3 by (auto simp: out g_mix_def g_row_def intro: grows_holds)
qed

lemma lane_gadget_ok:
  assumes s: "cs_inv s" and x: "holds s v x" and c: "const_ok c" and e: "lane_gadget s v c = (s', u)"
  shows "grows s s' 4" and "holds s' u (p3_sbox (fe_add x (mk_fe c)))"
proof -
  obtain s1 t where e1: "ark_gadget s v (mk_fe c) = (s1, t)" by fastforce
  have e2: "sbox_gadget s1 t = (s', u)" using e by (simp add: lane_gadget_def e1)
  note g1 = ark_gadget_ok [OF s x canonical_mk_fe [OF c] e1]
  note g2 = sbox_gadget_ok [OF grows_inv [OF g1(1)] g1(2) e2]
  show "grows s s' 4" using grows_trans [OF g1(1) g2(1)] by (simp add: eval_nat_numeral)
  show "holds s' u (p3_sbox (fe_add x (mk_fe c)))" by (rule g2(2))
qed

lemma full_gadget_ok:
  assumes s: "cs_inv s" and x: "holds3 s st x" and m: "params_ok rc mds n" "k + 3 \<le> n" and e: "full_gadget rc mds k s st = (s', out)"
  shows "grows s s' 24" and "holds3 s' out (g_full rc mds k x)"
proof -
  obtain a b c where st: "st = (a, b, c)" by (metis prod.collapse)
  have h: "holds s a (ps0 x)" "holds s b (ps1 x)" "holds s c (ps2 x)" using x by (simp_all add: st)
  have ok: "const_ok (rc ! k)" "const_ok (rc ! (k + 1))" "const_ok (rc ! (k + 2))" using m by (simp_all add: params_ok_def)
  obtain s1 t0 where e1: "lane_gadget s a (rc ! k) = (s1, t0)" by fastforce
  obtain s2 t1 where e2: "lane_gadget s1 b (rc ! (k + 1)) = (s2, t1)" by fastforce
  obtain s3 t2 where e3: "lane_gadget s2 c (rc ! (k + 2)) = (s3, t2)" by fastforce
  have e4: "mds_mul mds s3 (t0, t1, t2) = (s', out)" using e e1 e2 e3 by (simp add: full_gadget_def st)
  note g1 = lane_gadget_ok [OF s h(1) ok(1) e1]
  note g2 = lane_gadget_ok [OF grows_inv [OF g1(1)] grows_holds [OF g1(1) h(2)] ok(2) e2]
  note g3 = lane_gadget_ok [OF grows_inv [OF g2(1)] grows_holds [OF g2(1) grows_holds [OF g1(1) h(3)]] ok(3) e3]
  let ?x = "\<lparr>ps0 = p3_sbox (fe_add (ps0 x) (mk_fe (rc ! k))), ps1 = p3_sbox (fe_add (ps1 x) (mk_fe (rc ! (k + 1)))),
      ps2 = p3_sbox (fe_add (ps2 x) (mk_fe (rc ! (k + 2))))\<rparr>"
  have h3: "holds3 s3 (t0, t1, t2) ?x"
    using grows_holds [OF g3(1) grows_holds [OF g2(1) g1(2)]] grows_holds [OF g3(1) g2(2)] g3(2) by simp
  note g4 = mds_mul_ok [OF grows_inv [OF g3(1)] h3 m(1) e4]
  show "grows s s' 24"
    using grows_trans [OF g1(1) grows_trans [OF g2(1) grows_trans [OF g3(1) g4(1)]]] by simp
  show "holds3 s' out (g_full rc mds k x)" using g4(2) by (simp add: g_full_def)
qed

lemma partial_gadget_ok:
  assumes s: "cs_inv s" and x: "holds3 s st x" and m: "params_ok rc mds n" "k < n" and e: "partial_gadget rc mds k s st = (s', out)"
  shows "grows s s' 16" and "holds3 s' out (g_partial rc mds k x)"
proof -
  obtain a b c where st: "st = (a, b, c)" by (metis prod.collapse)
  have h: "holds s a (ps0 x)" "holds s b (ps1 x)" "holds s c (ps2 x)" using x by (simp_all add: st)
  have ok: "const_ok (rc ! k)" using m by (simp add: params_ok_def)
  obtain s1 t0 where e1: "lane_gadget s a (rc ! k) = (s1, t0)" by fastforce
  have e4: "mds_mul mds s1 (t0, b, c) = (s', out)" using e e1 by (simp add: partial_gadget_def st)
  note g1 = lane_gadget_ok [OF s h(1) ok e1]
  have h3: "holds3 s1 (t0, b, c) (x\<lparr>ps0 := p3_sbox (fe_add (ps0 x) (mk_fe (rc ! k)))\<rparr>)"
    using g1(2) grows_holds [OF g1(1) h(2)] grows_holds [OF g1(1) h(3)] by simp
  note g4 = mds_mul_ok [OF grows_inv [OF g1(1)] h3 m(1) e4]
  show "grows s s' 16" using grows_trans [OF g1(1) g4(1)] by simp
  show "holds3 s' out (g_partial rc mds k x)" using g4(2) by (simp add: g_partial_def)
qed

lemma full_gadgets_ok:
  "cs_inv s \<Longrightarrow> holds3 s st x \<Longrightarrow> params_ok rc mds n \<Longrightarrow> k + 3 * r \<le> n \<Longrightarrow> full_gadgets r rc mds k s st = (s', out) \<Longrightarrow>
    grows s s' (24 * r) \<and> holds3 s' out (g_fulls r rc mds k x)"
proof (induction r arbitrary: k s st x)
  case (Suc r)
  obtain s1 st1 where e1: "full_gadget rc mds k s st = (s1, st1)" by (rule prod.exhaust)
  have e2: "full_gadgets r rc mds (k + 3) s1 st1 = (s', out)" using Suc.prems(5) by (simp add: e1)
  note g = full_gadget_ok [OF Suc.prems(1-3) _ e1]
  have "grows s s1 24" "holds3 s1 st1 (g_full rc mds k x)" using g Suc.prems(4) by simp_all
  moreover from this have "grows s1 s' (24 * r) \<and> holds3 s' out (g_fulls r rc mds (k + 3) (g_full rc mds k x))"
    using Suc.IH [OF grows_inv _ Suc.prems(3) _ e2] Suc.prems(4) by simp
  ultimately show ?case using grows_trans [of s s1 24 s' "24 * r"] by simp
qed (simp add: grows_refl)

lemma partial_gadgets_ok:
  "cs_inv s \<Longrightarrow> holds3 s st x \<Longrightarrow> params_ok rc mds n \<Longrightarrow> k + r \<le> n \<Longrightarrow> partial_gadgets r rc mds k s st = (s', out) \<Longrightarrow>
    grows s s' (16 * r) \<and> holds3 s' out (g_partials r rc mds k x)"
proof (induction r arbitrary: k s st x)
  case (Suc r)
  obtain s1 st1 where e1: "partial_gadget rc mds k s st = (s1, st1)" by (rule prod.exhaust)
  have e2: "partial_gadgets r rc mds (k + 1) s1 st1 = (s', out)" using Suc.prems(5) by (simp add: e1)
  note g = partial_gadget_ok [OF Suc.prems(1-3) _ e1]
  have "grows s s1 16" "holds3 s1 st1 (g_partial rc mds k x)" using g Suc.prems(4) by simp_all
  moreover from this have "grows s1 s' (16 * r) \<and> holds3 s' out (g_partials r rc mds (k + 1) (g_partial rc mds k x))"
    using Suc.IH [OF grows_inv _ Suc.prems(3) _ e2] Suc.prems(4) by simp
  ultimately show ?case using grows_trans [of s s1 16 s' "16 * r"] by simp
qed (simp add: grows_refl)

lemma r1cs_build_ok:
  assumes s: "cs_inv s" and x: "holds3 s (s0, s1, s2) x" and m: "params_ok rc mds (6 * rf_half + rp)"
    and e: "r1cs_build s s0 s1 s2 rc mds rf_half rp = (s', out)"
  shows "grows s s' (48 * rf_half + 16 * rp)" and "holds s' out (ps0 (g_permute rc mds rf_half rp x))"
proof -
  obtain sa sta where e1: "full_gadgets rf_half rc mds 0 s (s0, s1, s2) = (sa, sta)" by (rule prod.exhaust)
  obtain sb stb where e2: "partial_gadgets rp rc mds (3 * rf_half) sa sta = (sb, stb)" by (rule prod.exhaust)
  obtain sc stc where e3: "full_gadgets rf_half rc mds (3 * rf_half + rp) sb stb = (sc, stc)" by (rule prod.exhaust)
  have out: "s' = sc" "out = fst stc" using e by (simp_all add: r1cs_build_def e1 e2 e3)
  have g1: "grows s sa (24 * rf_half)" "holds3 sa sta (g_fulls rf_half rc mds 0 x)"
    using full_gadgets_ok [OF s x m _ e1] by simp_all
  have g2: "grows sa sb (16 * rp)" "holds3 sb stb (g_partials rp rc mds (3 * rf_half) (g_fulls rf_half rc mds 0 x))"
    using partial_gadgets_ok [OF grows_inv [OF g1(1)] g1(2) m _ e2] by simp_all
  have g3: "grows sb sc (24 * rf_half)" "holds3 sc stc (g_permute rc mds rf_half rp x)"
    using full_gadgets_ok [OF grows_inv [OF g2(1)] g2(2) m _ e3] by (simp_all add: g_permute_def)
  show "grows s s' (48 * rf_half + 16 * rp)"
    using grows_trans [OF g1(1) grows_trans [OF g2(1) g3(1)]] by (simp add: out)
  show "holds s' out (ps0 (g_permute rc mds rf_half rp x))" using g3(2) by (cases stc) (simp add: out)
qed

subsection \<open>The rows do not mention the round constants\<close>

text \<open>Two states with the same matrices and as many variables.\<close>

definition same_shape :: "R1cs \<Rightarrow> R1cs \<Rightarrow> bool" where
  "same_shape s t \<longleftrightarrow> cs_A s = cs_A t \<and> cs_B s = cs_B t \<and> cs_C s = cs_C t \<and> length (cs_w s) = length (cs_w t)"

lemma same_shape_refl: "same_shape s s"
  by (simp add: same_shape_def)

definition shape2 :: "R1cs \<times> 'v \<Rightarrow> R1cs \<times> 'v \<Rightarrow> bool" where
  "shape2 p q \<longleftrightarrow> same_shape (fst p) (fst q) \<and> snd p = snd q"

lemma shape_bind:
  assumes "shape2 p q" and "\<And>s t v. same_shape s t \<Longrightarrow> shape2 (f s v) (g t v)"
  shows "shape2 (case p of (s, v) \<Rightarrow> f s v) (case q of (s, v) \<Rightarrow> g s v)"
  using assms by (simp add: shape2_def case_prod_beta)

lemma shape_done: "same_shape s t \<Longrightarrow> shape2 (s, v) (t, v)"
  by (simp add: shape2_def)

lemma shape_base:
  assumes "same_shape s t"
  shows "shape2 (mul_gadget s a b) (mul_gadget t a b)" and "shape2 (ark_gadget s a c) (ark_gadget t a c')"
    and "shape2 (scale_gadget s m a) (scale_gadget t m a)"
  using assms
  by (simp_all add: shape2_def same_shape_def mul_gadget_def ark_gadget_def scale_gadget_def prod_constraint_def lin_constraint_def
      emit_def new_var_def next_row_def Let_def)

lemma shape_sbox: "same_shape s t \<Longrightarrow> shape2 (sbox_gadget s a) (sbox_gadget t a)"
  unfolding sbox_gadget_def Let_def by (intro shape_bind shape_base(1))

lemma shape_lane: "same_shape s t \<Longrightarrow> shape2 (lane_gadget s a c) (lane_gadget t a c')"
  unfolding lane_gadget_def Let_def by (intro shape_bind shape_base(2) shape_sbox)

lemma shape_mds_out: "same_shape s t \<Longrightarrow> shape2 (mds_out s m0 m1 m2 xs) (mds_out t m0 m1 m2 xs)"
  unfolding mds_out_def Let_def
  by (cases xs, simp only: prod.case, intro shape_bind shape_base(3))
    (simp_all add: shape2_def same_shape_def lin_constraint_def emit_def new_var_def next_row_def)

lemma shape_mds: "same_shape s t \<Longrightarrow> shape2 (mds_mul mds s xs) (mds_mul mds t xs)"
  unfolding mds_mul_def Let_def by (intro shape_bind shape_mds_out shape_done)

lemma shape_full: "same_shape s t \<Longrightarrow> shape2 (full_gadget rc mds k s st) (full_gadget rc' mds k t st)"
  unfolding full_gadget_def Let_def
  by (cases st, simp only: prod.case, intro shape_bind shape_lane shape_mds)

lemma shape_partial: "same_shape s t \<Longrightarrow> shape2 (partial_gadget rc mds k s st) (partial_gadget rc' mds k t st)"
  unfolding partial_gadget_def Let_def
  by (cases st, simp only: prod.case, intro shape_bind shape_lane shape_mds)

lemma shape_fulls: "same_shape s t \<Longrightarrow> shape2 (full_gadgets r rc mds k s st) (full_gadgets r rc' mds k t st)"
proof (induction r arbitrary: k s t st)
  case (Suc r)
  show ?case
    unfolding full_gadgets.simps Let_def by (intro shape_bind shape_full Suc)
qed (simp add: shape_done)

lemma shape_partials: "same_shape s t \<Longrightarrow> shape2 (partial_gadgets r rc mds k s st) (partial_gadgets r rc' mds k t st)"
proof (induction r arbitrary: k s t st)
  case (Suc r)
  show ?case
    unfolding partial_gadgets.simps Let_def by (intro shape_bind shape_partial Suc)
qed (simp add: shape_done)

lemma shape_build:
  "same_shape s t \<Longrightarrow> shape2 (r1cs_build s s0 s1 s2 rc mds rf_half rp) (r1cs_build t s0 s1 s2 rc' mds rf_half rp)"
  unfolding r1cs_build_def Let_def by (intro shape_bind shape_fulls shape_partials shape_done)

text \<open>
  Any table of constants satisfies the rows emitted for any other: they enter the witness as variables
  that no row fixes.
\<close>

lemma build_constants_free:
  assumes s: "cs_inv s" and x: "holds3 s (s0, s1, s2) x"
    and m: "params_ok rc mds (6 * rf_half + rp)" "params_ok rc' mds (6 * rf_half + rp)"
    and e: "r1cs_build s s0 s1 s2 rc mds rf_half rp = (a, out)" "r1cs_build s s0 s1 s2 rc' mds rf_half rp = (b, out')"
  shows "same_shape a b" and "out' = out" and "cs_inv a" and "cs_inv b"
    and "holds a out (ps0 (g_permute rc mds rf_half rp x))" and "holds b out (ps0 (g_permute rc' mds rf_half rp x))"
  using shape_build [OF same_shape_refl, of s s0 s1 s2 rc mds rf_half rp rc']
    r1cs_build_ok [OF s x m(1) e(1)] r1cs_build_ok [OF s x m(2) e(2)]
  by (auto simp: shape2_def e grows_def)

end
