(* ===== verification/Smt_R1cs.thy ===== *)
theory Smt_R1cs
  imports Poseidon_R1cs
begin

text \<open>
  Openings of the account tree as constraint rows, \<open>src/include/hsma/smt_r1cs.hpp\<close>: the first
  version, which hashes in a fixed order, and the second with the direction bits and the row that
  binds the expected root.
\<close>

subsection \<open>The first version\<close>

text \<open>The third input is variable 3 whatever the initial value is.\<close>

fun smt_chain1 :: "R1cs \<Rightarrow> nat \<Rightarrow> nat list \<Rightarrow> u64 list list \<Rightarrow> u64 list list list \<Rightarrow> nat \<Rightarrow> nat \<Rightarrow> R1cs \<times> nat" where
  "smt_chain1 s cur [] rc mds rf_half rp = (s, cur)"
| "smt_chain1 s cur (sib # sibs) rc mds rf_half rp =
     (let (s, cur) = r1cs_build s cur sib 3 rc mds rf_half rp in smt_chain1 s cur sibs rc mds rf_half rp)"

definition build_smt_opening :: "R1cs \<Rightarrow> nat \<Rightarrow> nat list \<Rightarrow> u64 list list \<Rightarrow> u64 list list list \<Rightarrow> nat \<Rightarrow> nat \<Rightarrow> nat \<Rightarrow> R1cs \<times> nat" where
  "build_smt_opening s leaf_var sibling_vars rc mds rf_half rp depth =
     smt_chain1 s leaf_var (take depth sibling_vars) rc mds rf_half rp"

subsection \<open>The second version\<close>

definition neg_one :: fe where
  "neg_one = fe_sub fe_zero fe_one"

text \<open>The two inputs of a level in the order the direction selects.\<close>

definition mux_gadget :: "R1cs \<Rightarrow> nat \<Rightarrow> nat \<Rightarrow> nat \<Rightarrow> R1cs \<times> nat \<times> nat" where
  "mux_gadget s dir sib cur =
     (let s = prod_constraint s dir dir dir;
          (s, t) = mul_gadget s dir sib;
          (s, u) = mul_gadget s dir cur;
          sel0 = length (cs_w s);
          s = new_var s (fe_add (fe_sub (cs_w s ! t) (cs_w s ! u)) (cs_w s ! cur));
          s = lin_constraint s sel0 [(t, fe_one), (u, neg_one), (cur, fe_one)];
          sel1 = length (cs_w s);
          s = new_var s (fe_add (fe_sub (cs_w s ! u) (cs_w s ! t)) (cs_w s ! sib));
          s = lin_constraint s sel1 [(u, fe_one), (t, neg_one), (sib, fe_one)]
      in (s, sel0, sel1))"

definition level_consts :: "u64 list list \<Rightarrow> nat \<Rightarrow> nat \<Rightarrow> nat \<Rightarrow> u64 list list" where
  "level_consts rc rf_half rp level =
     (let n = rf_half * 3 + rp + rf_half * 3 in take n (drop (level * n) rc))"

fun smt_chain2 :: "nat \<Rightarrow> R1cs \<Rightarrow> nat \<Rightarrow> (nat \<times> nat) list \<Rightarrow> nat \<Rightarrow> u64 list list \<Rightarrow> u64 list list list \<Rightarrow> nat \<Rightarrow> nat \<Rightarrow> R1cs \<times> nat" where
  "smt_chain2 level s cur [] iv_var rc mds rf_half rp = (s, cur)"
| "smt_chain2 level s cur ((sib, dir) # sds) iv_var rc mds rf_half rp =
     (let (s, sel0, sel1) = mux_gadget s dir sib cur;
          (s, cur) = r1cs_build s sel0 sel1 iv_var (level_consts rc rf_half rp level) mds rf_half rp
      in smt_chain2 (Suc level) s cur sds iv_var rc mds rf_half rp)"

definition build_smt_opening2 :: "R1cs \<Rightarrow> nat \<Rightarrow> nat list \<Rightarrow> nat list \<Rightarrow> nat \<Rightarrow> nat \<Rightarrow> u64 list list \<Rightarrow> u64 list list list \<Rightarrow> nat \<Rightarrow> nat \<Rightarrow> R1cs \<times> nat" where
  "build_smt_opening2 s leaf_var sibling_vars direction_vars iv_var expected_root_var rc mds rf_half rp =
     (let (s, cur) = smt_chain2 0 s leaf_var
            (map (\<lambda>l. (sibling_vars ! l, direction_vars ! l)) [0..<length sibling_vars]) iv_var rc mds rf_half rp
      in (lin_constraint s expected_root_var [(cur, fe_one)], cur))"

subsection \<open>The root they compute\<close>

definition level_hash :: "u64 list list \<Rightarrow> u64 list list list \<Rightarrow> nat \<Rightarrow> nat \<Rightarrow> fe \<Rightarrow> fe \<Rightarrow> fe \<Rightarrow> fe" where
  "level_hash rc mds rf_half rp iv l r = ps0 (g_permute rc mds rf_half rp \<lparr>ps0 = l, ps1 = r, ps2 = iv\<rparr>)"

text \<open>With direction 1 the sibling comes first.\<close>

fun smt_root2 :: "nat \<Rightarrow> fe \<Rightarrow> (fe \<times> bool) list \<Rightarrow> fe \<Rightarrow> u64 list list \<Rightarrow> u64 list list list \<Rightarrow> nat \<Rightarrow> nat \<Rightarrow> fe" where
  "smt_root2 level x [] iv rc mds rf_half rp = x"
| "smt_root2 level x ((y, d) # yds) iv rc mds rf_half rp =
     smt_root2 (Suc level)
       (level_hash (level_consts rc rf_half rp level) mds rf_half rp iv (if d then y else x) (if d then x else y))
       yds iv rc mds rf_half rp"

definition bit_fe :: "bool \<Rightarrow> fe" where
  "bit_fe d = (if d then fe_one else fe_zero)"

lemma fe_dec_bit: "is_canonical (bit_fe d)" "fe_dec (bit_fe d) = of_bool d"
  by (simp_all add: bit_fe_def fe_dec_zero fe_dec_one)

lemma fe_dec_neg_one: "is_canonical neg_one" "fe_dec neg_one = - 1"
  by (simp_all add: neg_one_def fe_dec_ops fe_dec_zero fe_dec_one)

lemma mux_gadget_ok:
  assumes s: "cs_inv s" and d: "holds s dir (bit_fe d)" and y: "holds s sib y" and x: "holds s cur x"
    and e: "mux_gadget s dir sib cur = (s', sel0, sel1)"
  shows "grows s s' 5" and "holds s' sel0 (if d then y else x)" and "holds s' sel1 (if d then x else y)"
proof -
  let ?s0 = "prod_constraint s dir dir dir"
  have "dir < length (cs_w s)" "cs_w s ! dir = bit_fe d" using d by (simp_all add: holds_def)
  then have g0: "grows s ?s0 1"
    using emit_inv [OF s, of dir dir "[(dir, fe_one)]"]
    by (simp add: prod_constraint_def grows_def fe_dec_bit fe_dec_one)
  obtain s1 t where e1: "mul_gadget ?s0 dir sib = (s1, t)" by fastforce
  obtain s2 u where e2: "mul_gadget s1 dir cur = (s2, u)" by fastforce
  note g1 = mul_gadget_ok [OF grows_inv [OF g0] grows_holds [OF g0 d] grows_holds [OF g0 y] e1]
  note g2 = mul_gadget_ok [OF grows_inv [OF g1(1)] grows_holds [OF g1(1) grows_holds [OF g0 d]]
      grows_holds [OF g1(1) grows_holds [OF g0 x]] e2]
  have i2: "cs_inv s2" by (rule grows_inv [OF g2(1)])
  let ?t = "fe_mul (bit_fe d) y" and ?u = "fe_mul (bit_fe d) x"
  have h2: "holds s2 t ?t" "holds s2 u ?u" "holds s2 cur x" "holds s2 sib y"
    using g1 g2 g0 x y by (blast intro: grows_holds)+
  have c: "is_canonical x" "is_canonical y" using holds_canonical [OF s] x y by blast+
  have one: "cs_w s2 \<noteq> []" "cs_w s2 ! 0 = fe_one" using i2 by (simp_all add: cs_inv_def)
  let ?a = "fe_add (fe_sub ?t ?u) x" and ?b = "fe_add (fe_sub ?u ?t) y"
  define s3 where "s3 = lin_constraint (new_var s2 ?a) (length (cs_w s2)) [(t, fe_one), (u, neg_one), (cur, fe_one)]"
  have g3: "grows s2 s3 1" "holds s3 (length (cs_w s2)) ?a"
    unfolding s3_def lin_constraint_def using h2 c one fe_dec_neg_one
      define_var [OF i2, of ?a 0 "[(t, fe_one), (u, neg_one), (cur, fe_one)]"]
    by (simp_all add: holds_def fe_dec_ops fe_dec_one fe_dec_bit(1))
  have i3: "cs_inv s3" by (rule grows_inv [OF g3(1)])
  have h3: "holds s3 t ?t" "holds s3 u ?u" "holds s3 sib y" using h2 g3 by (blast intro: grows_holds)+
  have one3: "cs_w s3 \<noteq> []" "cs_w s3 ! 0 = fe_one" using i3 by (simp_all add: cs_inv_def)
  define s4 where "s4 = lin_constraint (new_var s3 ?b) (length (cs_w s3)) [(u, fe_one), (t, neg_one), (sib, fe_one)]"
  have g4: "grows s3 s4 1" "holds s4 (length (cs_w s3)) ?b"
    unfolding s4_def lin_constraint_def using h3 c one3 fe_dec_neg_one
      define_var [OF i3, of ?b 0 "[(u, fe_one), (t, neg_one), (sib, fe_one)]"]
    by (simp_all add: holds_def fe_dec_ops fe_dec_one fe_dec_bit(1))
  have v: "cs_w s2 ! t = ?t" "cs_w s2 ! u = ?u" "cs_w s2 ! cur = x" "cs_w s3 ! t = ?t" "cs_w s3 ! u = ?u" "cs_w s3 ! sib = y"
    using h2 h3 by (simp_all add: holds_def)
  have "(s4, length (cs_w s2), length (cs_w s3)) = (s', sel0, sel1)"
    using e unfolding mux_gadget_def Let_def e1 prod.case e2 v(1-3) s3_def [symmetric] v(4-6) s4_def [symmetric] .
  then have "s' = s4" "sel0 = length (cs_w s2)" "sel1 = length (cs_w s3)" by simp_all
  moreover have "?a = (if d then y else x)" "?b = (if d then x else y)"
    using c by (auto intro!: fe_eqI simp: fe_dec_ops fe_dec_bit)
  ultimately show "grows s s' 5" "holds s' sel0 (if d then y else x)" "holds s' sel1 (if d then x else y)"
    using grows_trans [OF g0 grows_trans [OF g1(1) grows_trans [OF g2(1) grows_trans [OF g3(1) g4(1)]]]]
      grows_holds [OF g4(1) g3(2)] g4(2)
    by (simp_all add: eval_nat_numeral)
qed

definition levels_ok :: "u64 list list \<Rightarrow> u64 list list list \<Rightarrow> nat \<Rightarrow> nat \<Rightarrow> nat \<Rightarrow> bool" where
  "levels_ok rc mds rf_half rp depth \<longleftrightarrow> (\<forall>l<depth. params_ok (level_consts rc rf_half rp l) mds (6 * rf_half + rp))"

lemma smt_chain2_ok:
  "cs_inv s \<Longrightarrow> holds s cur x \<Longrightarrow> list_all2 (\<lambda>(sib, dir) (y, d). holds s sib y \<and> holds s dir (bit_fe d)) sds yds \<Longrightarrow>
    holds s iv_var iv \<Longrightarrow> levels_ok rc mds rf_half rp (level + length sds) \<Longrightarrow>
    smt_chain2 level s cur sds iv_var rc mds rf_half rp = (s', out) \<Longrightarrow>
    grows s s' ((5 + 48 * rf_half + 16 * rp) * length sds) \<and> holds s' out (smt_root2 level x yds iv rc mds rf_half rp)"
proof (induction sds arbitrary: level s cur x yds)
  case Nil
  then show ?case by (simp add: grows_refl)
next
  case (Cons sd sds)
  obtain sib dir where sd: "sd = (sib, dir)" by fastforce
  obtain y d yds' where yds: "yds = (y, d) # yds'" and h: "holds s sib y" "holds s dir (bit_fe d)"
    and rest: "list_all2 (\<lambda>(sib, dir) (y, d). holds s sib y \<and> holds s dir (bit_fe d)) sds yds'"
    using Cons.prems(3) by (auto simp: sd list_all2_Cons1)
  obtain s1 sel0 sel1 where e1: "mux_gadget s dir sib cur = (s1, sel0, sel1)" by (metis prod.collapse)
  obtain s2 cur2 where e2: "r1cs_build s1 sel0 sel1 iv_var (level_consts rc rf_half rp level) mds rf_half rp = (s2, cur2)" by fastforce
  have e3: "smt_chain2 (Suc level) s2 cur2 sds iv_var rc mds rf_half rp = (s', out)"
    using Cons.prems(6) by (simp add: sd e1 e2)
  note g1 = mux_gadget_ok [OF Cons.prems(1) h(2,1) Cons.prems(2) e1]
  let ?st = "\<lparr>ps0 = if d then y else x, ps1 = if d then x else y, ps2 = iv\<rparr>"
  have st: "holds3 s1 (sel0, sel1, iv_var) ?st" using g1 Cons.prems(4) grows_holds by simp
  have "params_ok (level_consts rc rf_half rp level) mds (6 * rf_half + rp)" using Cons.prems(5) by (simp add: levels_ok_def)
  note g2 = r1cs_build_ok [OF grows_inv [OF g1(1)] st this e2]
  note g = grows_trans [OF g1(1) g2(1)]
  have rest2: "list_all2 (\<lambda>(sib, dir) (y, d). holds s2 sib y \<and> holds s2 dir (bit_fe d)) sds yds'"
    using rest by (rule list_all2_mono) (auto intro: grows_holds [OF g])
  have "grows s2 s' ((5 + 48 * rf_half + 16 * rp) * length sds) \<and> holds s' out (smt_root2 level x yds iv rc mds rf_half rp)"
    using Cons.IH [OF grows_inv [OF g2(1)] g2(2) rest2 grows_holds [OF g Cons.prems(4)] _ e3] Cons.prems(5)
    by (simp add: yds level_hash_def)
  then show ?case using grows_trans [OF g] by (fastforce simp: add_mult_distrib2 algebra_simps)
qed

text \<open>The rows are satisfied exactly when the expected variable holds the computed root.\<close>

lemma smt_opening2_ok:
  assumes s: "cs_inv s" and x: "holds s leaf x" and l: "length dirs = length sibs"
    and sd: "list_all2 (\<lambda>(sib, dir) (y, d). holds s sib y \<and> holds s dir (bit_fe d)) (zip sibs dirs) yds"
    and iv: "holds s iv_var iv" and r: "holds s expected r" and m: "levels_ok rc mds rf_half rp (length sibs)"
    and e: "build_smt_opening2 s leaf sibs dirs iv_var expected rc mds rf_half rp = (s', out)"
  shows "holds s' out (smt_root2 0 x yds iv rc mds rf_half rp)"
    and "cs_inv s' \<longleftrightarrow> r = smt_root2 0 x yds iv rc mds rf_half rp"
    and "next_row s' = next_row s + (5 + 48 * rf_half + 16 * rp) * length sibs + 1"
proof -
  have z: "map (\<lambda>l. (sibs ! l, dirs ! l)) [0..<length sibs] = zip sibs dirs"
    using l by (intro nth_equalityI) simp_all
  obtain s1 cur where e1: "smt_chain2 0 s leaf (zip sibs dirs) iv_var rc mds rf_half rp = (s1, cur)" by fastforce
  have e': "s' = emit s1 expected 0 [(cur, fe_one)]" "out = cur"
    using e by (auto simp: build_smt_opening2_def z e1 lin_constraint_def)
  let ?R = "smt_root2 0 x yds iv rc mds rf_half rp"
  have g: "grows s s1 ((5 + 48 * rf_half + 16 * rp) * length sibs)" "holds s1 cur ?R"
    using smt_chain2_ok [OF s x sd iv _ e1] m l by simp_all
  have i1: "cs_inv s1" by (rule grows_inv [OF g(1)])
  have one: "cs_w s1 \<noteq> []" "cs_w s1 ! 0 = fe_one" using i1 by (simp_all add: cs_inv_def)
  have hr: "expected < length (cs_w s1)" "cs_w s1 ! expected = r" using grows_holds [OF g(1) r] by (simp_all add: holds_def)
  have hc: "cur < length (cs_w s1)" "cs_w s1 ! cur = ?R" using g(2) by (simp_all add: holds_def)
  have can: "is_canonical r" "is_canonical ?R" using holds_canonical [OF i1] grows_holds [OF g(1) r] g(2) by blast+
  have w: "cs_w s' = cs_w s1" and n: "next_row s' = Suc (next_row s1)" by (simp_all add: e' emit_def next_row_def push_def)
  show "holds s' out ?R" using g(2) by (simp add: holds_def w e'(2))
  show "next_row s' = next_row s + (5 + 48 * rf_half + 16 * rp) * length sibs + 1" using g(1) n by (simp add: grows_def)
  have M: "mat_ok (next_row s1) (length (cs_w s1)) (cs_A s1)" "mat_ok (next_row s1) (length (cs_w s1)) (cs_B s1)"
    "mat_ok (next_row s1) (length (cs_w s1)) (cs_C s1)" using i1 by (simp_all add: cs_inv_def)
  have last: "mat_ring (cs_A s') (wz (cs_w s')) (next_row s1) = fe_dec r" "mat_ring (cs_B s') (wz (cs_w s')) (next_row s1) = 1"
    "mat_ring (cs_C s') (wz (cs_w s')) (next_row s1) = fe_dec ?R"
    using M mat_ring_fresh [OF M(1)] mat_ring_fresh [OF M(2)] mat_ring_fresh [OF M(3)] hr hc one
    by (simp_all add: w e'(1)) (simp_all add: emit_def mat_ring_push mat_ok_def wz_def fe_dec_one)
  show "cs_inv s' \<longleftrightarrow> r = ?R"
  proof
    assume "cs_inv s'"
    then have "mat_ring (cs_A s') (wz (cs_w s')) (next_row s1) * mat_ring (cs_B s') (wz (cs_w s')) (next_row s1)
        = mat_ring (cs_C s') (wz (cs_w s')) (next_row s1)" by (simp add: cs_inv_def n)
    then show "r = ?R" using can by (simp add: last fe_eqI)
  next
    assume "r = ?R"
    then show "cs_inv s'"
      unfolding e'(1) using hr hc one by (intro emit_inv [OF i1]) (simp_all add: fe_dec_one)
  qed
qed

end
