(* ===== verification/Circuits.thy ===== *)
theory Circuits
  imports Poseidon_R1cs
begin

text \<open>
  Three fixed circuits over the sparse matrices: the transition rows of
  \<open>src/include/hsma/fexec_circuit.hpp\<close>, the activation rows with their digest of
  \<open>src/include/hsma/fexec_act.hpp\<close>, and the matrix product of \<open>src/include/hsma/gkr.hpp\<close>.
\<close>

definition no_rows :: SparseMat where
  "no_rows = \<lparr>sm_rows = 0, sm_cols = 0, sm_row = [], sm_col = [], sm_val = []\<rparr>"

subsection \<open>The transition circuit\<close>

definition fx_NZ :: nat where "fx_NZ = 16"
definition fx_NROWS :: nat where "fx_NROWS = 8"

definition Z_DPREV :: nat where "Z_DPREV = 1"
definition Z_DNEW :: nat where "Z_DNEW = 2"
definition Z_PTHASH :: nat where "Z_PTHASH = 3"
definition Z_COMPUTED :: nat where "Z_COMPUTED = 4"
definition Z_NONCES :: nat where "Z_NONCES = 5"
definition Z_NONCEPT :: nat where "Z_NONCEPT = 6"
definition Z_LT :: nat where "Z_LT = 7"
definition Z_SELF :: nat where "Z_SELF = 8"
definition Z_ISPAD :: nat where "Z_ISPAD = 9"
definition Z_PC :: nat where "Z_PC = 10"
definition Z_H :: nat where "Z_H = 13"
definition Z_NOTPAD :: nat where "Z_NOTPAD = 14"
definition Z_ONE :: nat where "Z_ONE = 15"

lemmas fx_wires = Z_DPREV_def Z_DNEW_def Z_PTHASH_def Z_COMPUTED_def Z_NONCES_def Z_NONCEPT_def Z_LT_def Z_SELF_def
  Z_ISPAD_def Z_PC_def Z_H_def Z_NOTPAD_def Z_ONE_def

definition fx_tri :: "nat \<Rightarrow> nat \<Rightarrow> u64 \<Rightarrow> SparseMat \<Rightarrow> SparseMat" where
  "fx_tri r c v M = push r M (c, fe_from_u64 v)"

definition fx_linc :: "nat \<Rightarrow> nat \<Rightarrow> int \<Rightarrow> SparseMat \<Rightarrow> SparseMat" where
  "fx_linc r c v M =
     push r M (c, if 0 \<le> v then fe_from_u64 (of_int v) else fe_sub fe_zero (fe_from_u64 (of_int (- v))))"

definition fx_dims :: "SparseMat \<Rightarrow> SparseMat" where
  "fx_dims M = M\<lparr>sm_rows := fx_NROWS, sm_cols := fx_NZ\<rparr>"

definition fx_A :: "SparseMat \<Rightarrow> SparseMat" where
  "fx_A M = (fx_tri 7 Z_ISPAD 1 \<circ> fx_tri 6 Z_H 1 \<circ> fx_tri 5 Z_PC 1 \<circ> fx_tri 4 Z_SELF 1 \<circ> fx_tri 3 Z_ISPAD 1
     \<circ> fx_tri 2 Z_LT 1 \<circ> fx_tri 1 Z_NOTPAD 1 \<circ> fx_tri 0 Z_NOTPAD 1) (fx_dims M)"

definition fx_B :: "SparseMat \<Rightarrow> SparseMat" where
  "fx_B M = (fx_linc 7 Z_DPREV (- 1) \<circ> fx_linc 7 Z_DNEW 1 \<circ> fx_linc 6 Z_PC 1 \<circ> fx_tri 5 Z_PC 1 \<circ> fx_tri 4 Z_SELF 1
     \<circ> fx_tri 3 Z_ISPAD 1 \<circ> fx_tri 2 Z_LT 1 \<circ> fx_tri 1 Z_ONE 1 \<circ> fx_linc 1 Z_NONCEPT (- 1) \<circ> fx_linc 1 Z_NONCES 1
     \<circ> fx_linc 0 Z_PTHASH (- 1) \<circ> fx_linc 0 Z_COMPUTED 1) (fx_dims M)"

definition fx_C :: "SparseMat \<Rightarrow> SparseMat" where
  "fx_C M = (fx_linc 6 Z_PC (- 2) \<circ> fx_linc 6 Z_H 3 \<circ> fx_tri 5 Z_H 1 \<circ> fx_tri 4 Z_SELF 1 \<circ> fx_tri 3 Z_ISPAD 1
     \<circ> fx_tri 2 Z_LT 1) (fx_dims M)"

lemma from_u64_dec: "is_canonical (fe_from_u64 v)" "fe_dec (fe_from_u64 v) = of_nat (unat v)"
  by (simp_all add: fe_dec_from_u64)

lemma fx_dims_push: "fx_dims no_rows = \<lparr>sm_rows = 8, sm_cols = 16, sm_row = [], sm_col = [], sm_val = []\<rparr>"
  by (simp add: fx_dims_def no_rows_def fx_NROWS_def fx_NZ_def)

lemma fx_system: "system_wf 8 16 (fx_A no_rows) (fx_B no_rows) (fx_C no_rows)"
  by (simp add: system_wf_def mat_wf_def fx_A_def fx_B_def fx_C_def fx_tri_def fx_linc_def push_def fx_dims_push fx_wires)

text \<open>The eight equations a satisfying assignment solves.\<close>

definition fx_equations :: "fe list \<Rightarrow> bool" where
  "fx_equations z \<longleftrightarrow> (let d = (\<lambda>i. fe_dec (z ! i)) in
     d Z_NOTPAD * (d Z_COMPUTED - d Z_PTHASH) = 0
     \<and> d Z_NOTPAD * (d Z_NONCES + d Z_ONE - d Z_NONCEPT) = 0
     \<and> d Z_LT * d Z_LT = d Z_LT \<and> d Z_ISPAD * d Z_ISPAD = d Z_ISPAD \<and> d Z_SELF * d Z_SELF = d Z_SELF
     \<and> d Z_PC * d Z_PC = d Z_H \<and> d Z_H * d Z_PC = 3 * d Z_H - 2 * d Z_PC
     \<and> d Z_ISPAD * (d Z_DNEW - d Z_DPREV) = 0)"

lemma fe_dec_small: "fe_dec (fe_from_u64 1) = 1" "fe_dec (fe_from_u64 2) = 2" "fe_dec (fe_from_u64 3) = 3"
  by (simp_all add: fe_dec_from_u64)

lemma less_8_cases: "i < 8 \<Longrightarrow> i = 0 \<or> i = 1 \<or> i = 2 \<or> i = 3 \<or> i = 4 \<or> i = 5 \<or> i = 6 \<or> i = (7::nat)"
  by linarith

lemma mat_ring_empty: "sm_val M = [] \<Longrightarrow> mat_ring M z i = 0"
  by (simp add: mat_ring_def)

lemma fx_rows:
  assumes "i < 8"
  shows "mat_ring (fx_A no_rows) d i = [d 14, d 14, d 7, d 9, d 8, d 10, d 13, d 9] ! i"
    and "mat_ring (fx_B no_rows) d i = [d 4 - d 3, d 5 + d 15 - d 6, d 7, d 9, d 8, d 10, d 10, d 2 - d 1] ! i"
    and "mat_ring (fx_C no_rows) d i = [0, 0, d 7, d 9, d 8, d 13, 3 * d 13 - 2 * d 10, 0] ! i"
  using less_8_cases [OF assms]
  by (elim disjE; simp add: fx_A_def fx_B_def fx_C_def fx_tri_def fx_linc_def fx_dims_push fx_wires mat_ring_push push_lengths
      mat_ring_empty from_u64_dec(1) fe_dec_small fe_dec_ops fe_dec_zero)+

text \<open>The satisfying assignments of the circuit are the solutions of its equations.\<close>

lemma fx_satisfied:
  assumes "length z = 16" and "list_all is_canonical z"
  shows "sat_relaxed (fx_A no_rows) (fx_B no_rows) (fx_C no_rows) (fresh z 8) = 8 \<longleftrightarrow> fx_equations z"
proof -
  have wf: "rx_wf 8 16 (fresh z 8)" using assms by (simp add: rx_wf_def fresh_def list_all_iff)
  have "relaxed_row (fx_A no_rows) (fx_B no_rows) (fx_C no_rows) (fresh z 8) i \<longleftrightarrow>
      mat_ring (fx_A no_rows) (rz (fresh z 8)) i * mat_ring (fx_B no_rows) (rz (fresh z 8)) i
        = mat_ring (fx_C no_rows) (rz (fresh z 8)) i" if "i < 8" for i
    using relaxed_row_ring [OF fx_system wf that] that by (simp add: fresh_def fe_dec_one fe_dec_zero)
  then have "sat_relaxed (fx_A no_rows) (fx_B no_rows) (fx_C no_rows) (fresh z 8) = 8 \<longleftrightarrow>
      (\<forall>i\<in>{0, 1, 2, 3, 4, 5, 6, 7}. mat_ring (fx_A no_rows) (rz (fresh z 8)) i * mat_ring (fx_B no_rows) (rz (fresh z 8)) i
        = mat_ring (fx_C no_rows) (rz (fresh z 8)) i)"
    unfolding sat_relaxed_iff [OF fx_system wf] using less_8_cases by auto
  then show ?thesis by (simp add: fx_rows fx_equations_def Let_def fx_wires fresh_def)
qed

text \<open>
  The wire meant to be one minus the padding bit occurs in no row that says so: with it at zero, a
  step that is not padding satisfies the rows whatever its hashes and nonces are.
\<close>

definition unbound_step :: "fe \<Rightarrow> fe \<Rightarrow> fe \<Rightarrow> fe \<Rightarrow> fe list" where
  "unbound_step pt_hash computed nonce_s nonce_pt =
     (replicate 16 fe_zero)[0 := fe_one, Z_PTHASH := pt_hash, Z_COMPUTED := computed, Z_NONCES := nonce_s,
        Z_NONCEPT := nonce_pt, Z_ONE := fe_one]"

lemma unbound_step_satisfied:
  assumes "is_canonical a" "is_canonical b" "is_canonical c" "is_canonical e"
  shows "sat_relaxed (fx_A no_rows) (fx_B no_rows) (fx_C no_rows) (fresh (unbound_step a b c e) 8) = 8"
proof -
  have l: "length (unbound_step a b c e) = 16" by (simp add: unbound_step_def)
  have "list_all is_canonical (unbound_step a b c e)"
    using assms by (auto simp: unbound_step_def list_all_iff dest!: set_update_subset_insert [THEN subsetD])
  moreover have "fx_equations (unbound_step a b c e)"
    by (simp add: fx_equations_def unbound_step_def fx_wires fe_dec_zero fe_dec_one)
  ultimately show ?thesis using fx_satisfied [OF l] by simp
qed

subsection \<open>The activation circuit\<close>

definition SLOTS :: nat where "SLOTS = 4"
definition NZ_ACT :: nat where "NZ_ACT = 3 + 2 * SLOTS + SLOTS"
definition NROWS_ACT :: nat where "NROWS_ACT = SLOTS"

definition W_U :: nat where "W_U = 0"
definition W_ONE :: nat where "W_ONE = 1"
definition W_ACC0 :: nat where "W_ACC0 = 2"
definition W_IDX :: "nat \<Rightarrow> nat" where "W_IDX i = 3 + 2 * i"
definition W_UV :: "nat \<Rightarrow> nat" where "W_UV i = 4 + 2 * i"
definition W_ACC :: "nat \<Rightarrow> nat" where "W_ACC i = 3 + 2 * SLOTS + i"

lemmas act_wires = SLOTS_def NZ_ACT_def NROWS_ACT_def W_U_def W_ONE_def W_ACC0_def W_IDX_def W_UV_def W_ACC_def

definition act_C1 :: u64 where "act_C1 = 11400714819323198485"
definition act_C2 :: u64 where "act_C2 = 14029467366897019727"

definition slot_coeffs :: "nat \<Rightarrow> fe \<times> fe" where
  "slot_coeffs i = foldl (\<lambda>(p1, p2) k. (fe_mul p1 (fe_from_u64 act_C1), fe_mul p2 (fe_from_u64 act_C2)))
     (fe_from_u64 act_C1, fe_from_u64 act_C2) [0..<i]"

record ActPair =
  ap_idx :: u32
  ap_uv :: u32

text \<open>One slot enters the accumulator.\<close>

definition slot_acc :: "fe \<Rightarrow> nat \<Rightarrow> fe \<Rightarrow> fe \<Rightarrow> fe" where
  "slot_acc acc i x y = (case slot_coeffs i of (p1, p2) \<Rightarrow> fe_add (fe_add acc (fe_mul p1 x)) (fe_mul p2 y))"

definition pairs_digest :: "ActPair list \<Rightarrow> fe" where
  "pairs_digest ps =
     foldl (\<lambda>acc i. slot_acc acc i (fe_from_u64 (ucast (ap_idx (ps ! i)))) (fe_from_u64 (ucast (ap_uv (ps ! i)))))
       fe_zero [0..<min (length ps) SLOTS]"

definition act_row_A :: "SparseMat \<Rightarrow> nat \<Rightarrow> SparseMat" where
  "act_row_A M i =
     (case slot_coeffs i of (p1, p2) \<Rightarrow>
        push i (push i (push i M (W_IDX i, p1)) (W_UV i, p2)) (if i = 0 then W_ACC0 else W_ACC (i - 1), fe_from_u64 1))"

definition act_row_B :: "SparseMat \<Rightarrow> nat \<Rightarrow> SparseMat" where
  "act_row_B M i = push i M (W_ONE, fe_from_u64 1)"

definition act_row_C :: "SparseMat \<Rightarrow> nat \<Rightarrow> SparseMat" where
  "act_row_C M i = push i M (W_ACC i, fe_from_u64 1)"

definition act_dims :: "SparseMat \<Rightarrow> SparseMat" where
  "act_dims M = M\<lparr>sm_rows := NROWS_ACT, sm_cols := NZ_ACT\<rparr>"

definition build_act_matrices :: "SparseMat \<Rightarrow> SparseMat \<Rightarrow> SparseMat \<Rightarrow> SparseMat \<times> SparseMat \<times> SparseMat" where
  "build_act_matrices A B C =
     (foldl act_row_A (act_dims A) [0..<SLOTS], foldl act_row_B (act_dims B) [0..<SLOTS], foldl act_row_C (act_dims C) [0..<SLOTS])"

definition honest_step :: "ActPair list \<Rightarrow> fe list \<times> fe \<Rightarrow> nat \<Rightarrow> fe list \<times> fe" where
  "honest_step ps za i =
     (case za of (z, acc) \<Rightarrow>
      let z = z[W_IDX i := fe_from_u64 (ucast (ap_idx (ps ! i)))];
          z = z[W_UV i := fe_from_u64 (ucast (ap_uv (ps ! i)))];
          acc = slot_acc acc i (z ! W_IDX i) (z ! W_UV i)
      in (z[W_ACC i := acc], acc))"

definition honest_z :: "ActPair list \<Rightarrow> fe list" where
  "honest_z ps =
     fst (foldl (honest_step ps) ((replicate NZ_ACT fe_zero)[W_U := fe_from_u64 1, W_ONE := fe_from_u64 1], fe_zero)
            [0..<min SLOTS (length ps)])"

definition circuit_digest :: "fe list \<Rightarrow> fe" where
  "circuit_digest z = z ! W_ACC (SLOTS - 1)"

definition act_satisfied :: "SparseMat \<Rightarrow> SparseMat \<Rightarrow> SparseMat \<Rightarrow> fe list \<Rightarrow> bool" where
  "act_satisfied A B C z =
     (\<forall>r < sm_rows A. fe_mul (mat_vec A z ! r) (mat_vec B z ! r) = mat_vec C z ! r)"

definition act_A :: SparseMat where "act_A = fst (build_act_matrices no_rows no_rows no_rows)"
definition act_B :: SparseMat where "act_B = fst (snd (build_act_matrices no_rows no_rows no_rows))"
definition act_C :: SparseMat where "act_C = snd (snd (build_act_matrices no_rows no_rows no_rows))"

lemma canonical_coeffs: "is_canonical (fst (slot_coeffs i))" "is_canonical (snd (slot_coeffs i))"
proof -
  have "is_canonical (fst (slot_coeffs i)) \<and> is_canonical (snd (slot_coeffs i))"
    unfolding slot_coeffs_def by (induction i) (simp_all add: case_prod_beta from_u64_dec(1))
  then show "is_canonical (fst (slot_coeffs i))" "is_canonical (snd (slot_coeffs i))" by simp_all
qed

lemma slot_acc_dec:
  assumes "is_canonical acc" "is_canonical x" "is_canonical y"
  shows "is_canonical (slot_acc acc i x y)"
    and "fe_dec (slot_acc acc i x y) = fe_dec acc + fe_dec (fst (slot_coeffs i)) * fe_dec x + fe_dec (snd (slot_coeffs i)) * fe_dec y"
  using assms canonical_coeffs [of i] by (simp_all add: slot_acc_def case_prod_beta fe_dec_ops)

lemma upt_SLOTS: "[0..<SLOTS] = [0, 1, 2, 3]"
  by (simp add: SLOTS_def upt_conv_Cons)

lemma act_mats:
  "act_A = act_row_A (act_row_A (act_row_A (act_row_A (act_dims no_rows) 0) 1) 2) 3"
  "act_B = act_row_B (act_row_B (act_row_B (act_row_B (act_dims no_rows) 0) 1) 2) 3"
  "act_C = act_row_C (act_row_C (act_row_C (act_row_C (act_dims no_rows) 0) 1) 2) 3"
  by (simp_all add: act_A_def act_B_def act_C_def build_act_matrices_def upt_SLOTS)

lemma act_dims_push: "act_dims no_rows = \<lparr>sm_rows = 4, sm_cols = 15, sm_row = [], sm_col = [], sm_val = []\<rparr>"
  by (simp add: act_dims_def no_rows_def act_wires)

lemma act_system: "system_wf 4 15 act_A act_B act_C"
  using canonical_coeffs
  by (simp add: system_wf_def mat_wf_def act_mats act_row_A_def act_row_B_def act_row_C_def act_dims_push push_def act_wires
      case_prod_beta from_u64_dec(1))

lemma less_4_cases: "i < 4 \<Longrightarrow> i = 0 \<or> i = 1 \<or> i = 2 \<or> i = (3::nat)"
  by linarith

lemma act_rows:
  assumes "i < 4"
  shows "mat_ring act_A d i = fe_dec (fst (slot_coeffs i)) * d (W_IDX i) + fe_dec (snd (slot_coeffs i)) * d (W_UV i)
      + d (if i = 0 then W_ACC0 else W_ACC (i - 1))"
    and "mat_ring act_B d i = d W_ONE" and "mat_ring act_C d i = d (W_ACC i)"
  using less_4_cases [OF assms]
  by (elim disjE; simp add: act_mats act_row_A_def act_row_B_def act_row_C_def act_dims_push act_wires mat_ring_push push_lengths
      mat_ring_empty fe_dec_small case_prod_beta)+

lemma act_satisfied_iff:
  assumes "list_all is_canonical z" "length z = 15"
  shows "act_satisfied act_A act_B act_C z \<longleftrightarrow>
    (\<forall>i<4. mat_ring act_A (wz z) i * mat_ring act_B (wz z) i = mat_ring act_C (wz z) i)"
proof -
  have M: "mat_wf 4 15 act_A" "mat_wf 4 15 act_B" "mat_wf 4 15 act_C" using act_system by (simp_all add: system_wf_def)
  note v = mat_vec_ring [OF M(1) assms] mat_vec_ring [OF M(2) assms] mat_vec_ring [OF M(3) assms]
  have wz: "wz z = (\<lambda>j. fe_dec (z ! j))" by (simp add: wz_def fun_eq_iff)
  have "fe_mul (mat_vec act_A z ! i) (mat_vec act_B z ! i) = mat_vec act_C z ! i \<longleftrightarrow>
      mat_ring act_A (wz z) i * mat_ring act_B (wz z) i = mat_ring act_C (wz z) i" if i: "i < 4" for i
  proof -
    have c: "is_canonical (mat_vec act_A z ! i)" "is_canonical (mat_vec act_B z ! i)" "is_canonical (mat_vec act_C z ! i)"
      using v i by (simp_all add: list_all_length)
    have "fe_mul (mat_vec act_A z ! i) (mat_vec act_B z ! i) = mat_vec act_C z ! i \<longleftrightarrow>
        fe_dec (fe_mul (mat_vec act_A z ! i) (mat_vec act_B z ! i)) = fe_dec (mat_vec act_C z ! i)"
      using c by (auto intro: fe_eqI)
    then show ?thesis using c v i by (simp add: fe_dec_ops wz)
  qed
  moreover have "sm_rows act_A = 4" using M(1) by (simp add: mat_wf_def)
  ultimately show ?thesis by (simp add: act_satisfied_def)
qed

text \<open>Four pairs give a satisfying assignment with the digest of the batch.\<close>

lemma honest_full:
  assumes "length ps = 4"
  shows "act_satisfied act_A act_B act_C (honest_z ps)" and "circuit_digest (honest_z ps) = pairs_digest ps"
proof -
  define x where "x i = fe_from_u64 (ucast (ap_idx (ps ! i)))" for i
  define y where "y i = fe_from_u64 (ucast (ap_uv (ps ! i)))" for i
  define a0 where "a0 = slot_acc fe_zero 0 (x 0) (y 0)"
  define a1 where "a1 = slot_acc a0 1 (x 1) (y 1)"
  define a2 where "a2 = slot_acc a1 2 (x 2) (y 2)"
  define a3 where "a3 = slot_acc a2 3 (x 3) (y 3)"
  have c: "is_canonical (x i)" "is_canonical (y i)" for i by (simp_all add: x_def y_def from_u64_dec(1))
  then have ca: "is_canonical a0" "is_canonical a1" "is_canonical a2" "is_canonical a3"
    by (simp_all add: a0_def a1_def a2_def a3_def slot_acc_dec)
  have r: "[0..<4] = [0, 1, 2, 3 :: nat]" by (simp add: upt_conv_Cons)
  have z: "honest_z ps = [fe_from_u64 1, fe_from_u64 1, fe_zero, x 0, y 0, x 1, y 1, x 2, y 2, x 3, y 3, a0, a1, a2, a3]"
    by (simp add: honest_z_def assms r honest_step_def Let_def act_wires x_def y_def a0_def a1_def a2_def a3_def eval_nat_numeral)
  show "circuit_digest (honest_z ps) = pairs_digest ps"
    by (simp add: z circuit_digest_def pairs_digest_def assms r act_wires a0_def a1_def a2_def a3_def x_def y_def)
  have k: "list_all is_canonical (honest_z ps)" "length (honest_z ps) = 15"
    using c ca by (simp_all add: z from_u64_dec(1))
  have "mat_ring act_A (wz (honest_z ps)) i * mat_ring act_B (wz (honest_z ps)) i = mat_ring act_C (wz (honest_z ps)) i" if "i < 4" for i
    using less_4_cases [OF that] c ca
    by (elim disjE; simp add: act_rows z wz_def act_wires fe_dec_small fe_dec_zero a0_def a1_def a2_def a3_def slot_acc_dec)
  then show "act_satisfied act_A act_B act_C (honest_z ps)" by (simp add: act_satisfied_iff [OF k])
qed

text \<open>
  With fewer pairs the accumulator is not carried to the unused slots: the digest wire stays zero and,
  unless the digest of the batch is zero, a row fails.
\<close>

lemma honest_short:
  assumes "length ps = 1" and "pairs_digest ps \<noteq> fe_zero"
  shows "circuit_digest (honest_z ps) = fe_zero" and "\<not> act_satisfied act_A act_B act_C (honest_z ps)"
proof -
  define x where "x = fe_from_u64 (ucast (ap_idx (ps ! 0)))"
  define y where "y = fe_from_u64 (ucast (ap_uv (ps ! 0)))"
  define a where "a = slot_acc fe_zero 0 x y"
  have c: "is_canonical x" "is_canonical y" "is_canonical a" by (simp_all add: x_def y_def a_def from_u64_dec(1) slot_acc_dec)
  have z: "honest_z ps = [fe_from_u64 1, fe_from_u64 1, fe_zero, x, y, fe_zero, fe_zero, fe_zero, fe_zero, fe_zero, fe_zero,
      a, fe_zero, fe_zero, fe_zero]"
    by (simp add: honest_z_def assms(1) honest_step_def Let_def act_wires x_def y_def a_def eval_nat_numeral)
  have d: "pairs_digest ps = a" by (simp add: pairs_digest_def assms(1) act_wires a_def x_def y_def)
  show "circuit_digest (honest_z ps) = fe_zero" by (simp add: z circuit_digest_def act_wires)
  have k: "list_all is_canonical (honest_z ps)" "length (honest_z ps) = 15" using c by (simp_all add: z from_u64_dec(1))
  have "fe_dec a \<noteq> fe_dec fe_zero" using assms(2) c(3) fe_eqI [of a fe_zero] by (auto simp: d)
  moreover have "mat_ring act_A (wz (honest_z ps)) 1 * mat_ring act_B (wz (honest_z ps)) 1 = fe_dec a"
    "mat_ring act_C (wz (honest_z ps)) 1 = fe_dec fe_zero"
    using act_rows [of 1 "wz (honest_z ps)"] by (simp_all add: z wz_def act_wires fe_dec_small fe_dec_zero)
  ultimately show "\<not> act_satisfied act_A act_B act_C (honest_z ps)"
    unfolding act_satisfied_iff [OF k] by (metis one_less_numeral_iff semiring_norm(76))
qed

subsection \<open>The matrix product\<close>

record GemmCircuit =
  gm_rows :: nat
  gm_cols :: nat
  gm_inner :: nat
  gm_a :: nat
  gm_b :: nat
  gm_c :: nat
  gm_p :: nat

text \<open>One product variable with its row; the witness value stays zero for the evaluation to fill.\<close>

definition gemm_product :: "GemmCircuit \<Rightarrow> nat \<Rightarrow> nat \<Rightarrow> R1cs \<times> nat list \<Rightarrow> nat \<Rightarrow> R1cs \<times> nat list" where
  "gemm_product G i j sp k =
     (case sp of (s, ps) \<Rightarrow>
      let p_var = length (cs_w s);
          s = new_var s fe_zero
      in (prod_constraint s (gm_a G + i * gm_inner G + k) (gm_b G + k * gm_cols G + j) p_var, ps @ [p_var]))"

definition gemm_cell :: "GemmCircuit \<Rightarrow> R1cs \<Rightarrow> nat \<times> nat \<Rightarrow> R1cs" where
  "gemm_cell G s ij =
     (case ij of (i, j) \<Rightarrow>
      let (s, ps) = foldl (gemm_product G i j) (s, []) [0..<gm_inner G]
      in lin_constraint s (gm_c G + i * gm_cols G + j) (map (\<lambda>p. (p, fe_one)) ps))"

definition gemm_layout :: "nat \<Rightarrow> nat \<Rightarrow> nat \<Rightarrow> nat \<Rightarrow> GemmCircuit" where
  "gemm_layout n rows cols inner =
     \<lparr>gm_rows = rows, gm_cols = cols, gm_inner = inner, gm_a = n, gm_b = n + rows * inner,
      gm_c = n + rows * inner + inner * cols, gm_p = n + rows * inner + inner * cols + rows * cols\<rparr>"

definition gemm_cells :: "nat \<Rightarrow> nat \<Rightarrow> (nat \<times> nat) list" where
  "gemm_cells rows cols = concat (map (\<lambda>i. map (\<lambda>j. (i, j)) [0..<cols]) [0..<rows])"

definition build_gemm :: "R1cs \<Rightarrow> nat \<Rightarrow> nat \<Rightarrow> nat \<Rightarrow> R1cs \<times> GemmCircuit" where
  "build_gemm s rows cols inner =
     (let G = gemm_layout (length (cs_w s)) rows cols inner;
          s = s\<lparr>cs_w := cs_w s @ replicate (gm_p G - length (cs_w s)) fe_zero\<rparr>
      in (foldl (gemm_cell G) s (gemm_cells rows cols), G))"

definition gemm_eval :: "fe list \<Rightarrow> fe list \<Rightarrow> nat \<Rightarrow> nat \<Rightarrow> nat \<Rightarrow> fe list" where
  "gemm_eval A_flat B_flat rows cols inner =
     concat (map (\<lambda>i. map (\<lambda>j. foldl (\<lambda>acc k. fe_add acc (fe_mul (A_flat ! (i * inner + k)) (B_flat ! (k * cols + j)))) fe_zero [0..<inner])
        [0..<cols]) [0..<rows])"

text \<open>An assignment \<open>z\<close> satisfies the rows emitted so far.\<close>

definition sat_rows :: "R1cs \<Rightarrow> (nat \<Rightarrow> pallas) \<Rightarrow> bool" where
  "sat_rows s z \<longleftrightarrow> (\<forall>i < next_row s. mat_ring (cs_A s) z i * mat_ring (cs_B s) z i = mat_ring (cs_C s) z i)"

definition rows_ok :: "R1cs \<Rightarrow> bool" where
  "rows_ok s \<longleftrightarrow> (\<forall>M \<in> {cs_A s, cs_B s, cs_C s}. length (sm_row M) = length (sm_val M) \<and> length (sm_col M) = length (sm_val M)
     \<and> (\<forall>i \<in> set (sm_row M). i < next_row s))"

lemma foldl_push_lists:
  "sm_row (foldl (push r) M cvs) = sm_row M @ replicate (length cvs) r"
  "sm_col (foldl (push r) M cvs) = sm_col M @ map fst cvs"
  "sm_val (foldl (push r) M cvs) = sm_val M @ map snd cvs"
  by (induction cvs arbitrary: M) (simp_all add: push_def)

lemma emit_rows_ok: "rows_ok s \<Longrightarrow> rows_ok (emit s a b terms) \<and> next_row (emit s a b terms) = Suc (next_row s)"
  by (auto simp: rows_ok_def emit_def next_row_def foldl_push_lists) (auto simp: push_def)

lemma mat_ring_above: "\<forall>i \<in> set (sm_row M). i < n \<Longrightarrow> length (sm_row M) = length (sm_val M) \<Longrightarrow> n \<le> i \<Longrightarrow> mat_ring M z i = 0"
  unfolding mat_ring_def by (intro sum.neutral) (auto simp: all_set_conv_all_nth)

lemma emit_sat_rows:
  assumes "rows_ok s"
  shows "sat_rows (emit s a b terms) z \<longleftrightarrow> sat_rows s z \<and> z a * z b = (\<Sum>(c, v)\<leftarrow>terms. fe_dec v * z c)"
proof -
  let ?s = "emit s a b terms" and ?n = "next_row s"
  have M: "length (sm_row M) = length (sm_val M)" "length (sm_col M) = length (sm_val M)" "mat_ring M z ?n = 0"
    if "M \<in> {cs_A s, cs_B s, cs_C s}" for M
    using assms that by (auto simp: rows_ok_def intro!: mat_ring_above [of _ ?n])
  have r: "mat_ring (cs_A ?s) z i = mat_ring (cs_A s) z i + (if ?n = i then z a else 0)"
    "mat_ring (cs_B ?s) z i = mat_ring (cs_B s) z i + (if ?n = i then z b else 0)"
    "mat_ring (cs_C ?s) z i = mat_ring (cs_C s) z i + (if ?n = i then \<Sum>(c, v)\<leftarrow>terms. fe_dec v * z c else 0)" for i
    using M by (simp_all add: emit_def mat_ring_push mat_ring_push_all fe_dec_one)
  show ?thesis
    using emit_rows_ok [OF assms] M(3) by (auto simp: sat_rows_def r less_Suc_eq)
qed

lemma new_var_rows: "rows_ok (new_var s v) = rows_ok s" "sat_rows (new_var s v) z = sat_rows s z"
  by (simp_all add: new_var_def rows_ok_def sat_rows_def next_row_def)

lemma gemm_products:
  assumes "rows_ok s" and "foldl (gemm_product G i j) (s, []) [0..<n] = (s', ps)"
  shows "rows_ok s' \<and> ps = [length (cs_w s)..<length (cs_w s) + n]
    \<and> (sat_rows s' z \<longleftrightarrow> sat_rows s z \<and> (\<forall>k<n. z (gm_a G + i * gm_inner G + k) * z (gm_b G + k * gm_cols G + j) = z (length (cs_w s) + k)))
    \<and> length (cs_w s') = length (cs_w s) + n"
  using assms(2)
proof (induction n arbitrary: s' ps)
  case (Suc n)
  obtain s1 ps1 where e: "foldl (gemm_product G i j) (s, []) [0..<n] = (s1, ps1)" by fastforce
  note IH = Suc.IH [OF e]
  have step: "gemm_product G i j (s1, ps1) n = (s', ps)" using Suc.prems by (simp add: e)
  have r1: "rows_ok (new_var s1 fe_zero)" using IH by (simp add: new_var_rows)
  have "s' = emit (new_var s1 fe_zero) (gm_a G + i * gm_inner G + n) (gm_b G + n * gm_cols G + j) [(length (cs_w s1), fe_one)]"
    "ps = ps1 @ [length (cs_w s1)]"
    using step by (simp_all add: gemm_product_def Let_def prod_constraint_def)
  moreover have "length (cs_w (emit (new_var s1 fe_zero) a b t)) = Suc (length (cs_w s1))" for a b t
    by (simp add: emit_def new_var_def)
  ultimately show ?case
    using IH emit_rows_ok [OF r1] emit_sat_rows [OF r1, of _ _ _ z] by (auto simp: new_var_rows less_Suc_eq fe_dec_one)
qed (use assms(1) in simp)

text \<open>Every satisfying assignment holds the product in the cell.\<close>

lemma gemm_cell_sound:
  assumes s: "rows_ok s"
  shows "rows_ok (gemm_cell G s (i, j))"
    and "sat_rows (gemm_cell G s (i, j)) z \<Longrightarrow> z 0 = 1 \<Longrightarrow> sat_rows s z \<and> z (gm_c G + i * gm_cols G + j)
      = (\<Sum>k<gm_inner G. z (gm_a G + i * gm_inner G + k) * z (gm_b G + k * gm_cols G + j))"
proof -
  obtain s1 ps where e: "foldl (gemm_product G i j) (s, []) [0..<gm_inner G] = (s1, ps)" by fastforce
  note k = gemm_products [OF s e, of z]
  have r1: "rows_ok s1" using k by simp
  have c: "gemm_cell G s (i, j) = emit s1 (gm_c G + i * gm_cols G + j) 0 (map (\<lambda>p. (p, fe_one)) ps)"
    by (simp add: gemm_cell_def e lin_constraint_def)
  show "rows_ok (gemm_cell G s (i, j))" unfolding c using emit_rows_ok [OF r1] by blast
  have "(\<Sum>(c, v)\<leftarrow>map (\<lambda>p. (p, fe_one)) ps. fe_dec v * z c) = (\<Sum>p\<leftarrow>ps. z p)"
    by (simp add: comp_def fe_dec_one)
  also have "\<dots> = (\<Sum>k<gm_inner G. z (length (cs_w s) + k))"
    using k sum.shift_bounds_nat_ivl [of z 0 "length (cs_w s)" "gm_inner G"]
    by (simp add: interv_sum_list_conv_sum_set_nat lessThan_atLeast0 add.commute)
  finally show "sat_rows (gemm_cell G s (i, j)) z \<Longrightarrow> z 0 = 1 \<Longrightarrow> sat_rows s z \<and> z (gm_c G + i * gm_cols G + j)
      = (\<Sum>k<gm_inner G. z (gm_a G + i * gm_inner G + k) * z (gm_b G + k * gm_cols G + j))"
    unfolding c emit_sat_rows [OF r1] using k by simp
qed

lemma gemm_cells_sound:
  "rows_ok s \<Longrightarrow> sat_rows (foldl (gemm_cell G) s ijs) z \<Longrightarrow> z 0 = 1 \<Longrightarrow>
    sat_rows s z \<and> (\<forall>(i, j) \<in> set ijs. z (gm_c G + i * gm_cols G + j)
      = (\<Sum>k<gm_inner G. z (gm_a G + i * gm_inner G + k) * z (gm_b G + k * gm_cols G + j)))"
proof (induction ijs arbitrary: s)
  case (Cons ij ijs)
  obtain i j where ij: "ij = (i, j)" by fastforce
  have "rows_ok (gemm_cell G s ij)" using gemm_cell_sound(1) [OF Cons.prems(1)] by (simp add: ij)
  then show ?case using Cons gemm_cell_sound(2) [OF Cons.prems(1), of G i j z] by (auto simp: ij)
qed simp

lemma concat_grid: "i < m \<Longrightarrow> j < n \<Longrightarrow> concat (map (\<lambda>i. map (f i) [0..<n]) [0..<m]) ! (i * n + j) = f i j"
proof (induction m)
  case (Suc m)
  have l: "length (concat (map (\<lambda>i. map (f i) [0..<n]) [0..<m])) = m * n"
    by (simp add: length_concat sum_list_triv comp_def)
  show ?case
  proof (cases "i = m")
    case True
    then show ?thesis using Suc.prems l by (simp add: nth_append)
  next
    case False
    then have "i < m" using Suc.prems by simp
    then have "i * n + j < m * n" using Suc.prems(2)
      by (metis (no_types, lifting) Suc_leI add.commute add_less_cancel_left less_le_trans mult_Suc mult_le_mono1 nat_mult_1 plus_1_eq_Suc)
    then show ?thesis using Suc \<open>i < m\<close> l by (simp add: nth_append)
  qed
qed simp

lemma grid_less: "i < m \<Longrightarrow> j < n \<Longrightarrow> i * n + j < m * n" for i :: nat
proof -
  assume "i < m" "j < n"
  then have "i * n + j < Suc i * n" by simp
  also have "\<dots> \<le> m * n" using \<open>i < m\<close> by (intro mult_le_mono1) simp
  finally show ?thesis .
qed

lemma build_gemm_sound:
  assumes s: "rows_ok s" and e: "build_gemm s rows cols inner = (s', G)"
    and z: "sat_rows s' (wz z)" "z ! 0 = fe_one" "list_all is_canonical z" "gm_p G \<le> length z"
    and ij: "i < rows" "j < cols"
  shows "z ! (gm_c G + i * cols + j)
    = gemm_eval (take (rows * inner) (drop (gm_a G) z)) (take (inner * cols) (drop (gm_b G) z)) rows cols inner ! (i * cols + j)"
proof -
  let ?n = "length (cs_w s)"
  have G: "G = gemm_layout ?n rows cols inner" using e by (simp add: build_gemm_def Let_def)
  let ?s = "s\<lparr>cs_w := cs_w s @ replicate (gm_p G - ?n) fe_zero\<rparr>"
  have s': "s' = foldl (gemm_cell G) ?s (gemm_cells rows cols)" using e by (auto simp: build_gemm_def Let_def)
  have "rows_ok ?s" using s by (auto simp: rows_ok_def next_row_def)
  moreover have "wz z 0 = 1" using z(2) by (simp add: wz_def fe_dec_one)
  moreover have "(i, j) \<in> set (gemm_cells rows cols)" using ij by (force simp: gemm_cells_def)
  ultimately have eq: "wz z (gm_c G + i * cols + j)
      = (\<Sum>k<inner. wz z (gm_a G + i * inner + k) * wz z (gm_b G + k * cols + j))"
    using gemm_cells_sound [of ?s G "gemm_cells rows cols" "wz z"] z(1) by (auto simp: s' G gemm_layout_def)
  have row: "i * inner + k < rows * inner" if "k < inner" for k
    by (rule grid_less [OF ij(1) that])
  have col: "k * cols + j < inner * cols" if "k < inner" for k
    by (rule grid_less [OF that ij(2)])
  have cell: "i * cols + j < rows * cols" by (rule grid_less [OF ij])
  have lenz: "?n + rows * inner + inner * cols + rows * cols \<le> length z" using z(4) by (simp add: G gemm_layout_def)
  let ?A = "take (rows * inner) (drop (gm_a G) z)" and ?B = "take (inner * cols) (drop (gm_b G) z)"
  have A: "?A ! (i * inner + k) = z ! (gm_a G + i * inner + k)" "?B ! (k * cols + j) = z ! (gm_b G + k * cols + j)"
    "is_canonical (z ! (gm_a G + i * inner + k))" "is_canonical (z ! (gm_b G + k * cols + j))" if "k < inner" for k
    using row [OF that] col [OF that] lenz z(3) by (simp_all add: G gemm_layout_def list_all_length add.assoc)
  have "is_canonical (z ! (gm_c G + i * cols + j))"
    using cell lenz z(3) by (simp add: G gemm_layout_def list_all_length)
  moreover have "gemm_eval ?A ?B rows cols inner ! (i * cols + j)
      = foldl (\<lambda>acc k. fe_add acc (fe_mul (?A ! (i * inner + k)) (?B ! (k * cols + j)))) fe_zero [0..<inner]"
    unfolding gemm_eval_def by (rule concat_grid [OF ij])
  moreover note fe_foldl_sum [of fe_zero "[0..<inner]" "\<lambda>k. fe_mul (?A ! (i * inner + k)) (?B ! (k * cols + j))"]
  ultimately show ?thesis
    using eq A by (intro fe_eqI) (simp_all add: wz_def sum_list_upt fe_dec_ops fe_dec_zero del: nth_take nth_drop)
qed

end
