(* ===== verification/Sumcheck.thy ===== *)
theory Sumcheck
  imports Fe_Sums
begin

text \<open>
  The sum-check engine, \<open>src/include/hsma/sumcheck.hpp\<close>: multilinear extensions over the Pallas
  field given by their values on the cube, of degree one (one table) or two (a product of two), the
  Poseidon transcript, both provers, the verifier and the direct evaluation. Variable \<open>v\<close> is bit \<open>v\<close>
  of the index; round \<open>i\<close> binds variable \<open>i\<close>.
\<close>

record ScTranscript =
  sc_nv :: nat
  sc_d :: nat
  sc_claims :: "fe list"
  sc_evals :: "(fe \<times> fe \<times> fe) list"
  sc_r :: "fe list"
  sc_fa :: fe
  sc_fb :: fe

subsection \<open>Challenges and interpolation\<close>

definition sc_p3 :: "fe \<Rightarrow> fe \<Rightarrow> fe" where
  "sc_p3 l r = poseidon3 HSM_SUMCHECK_v1 l r"

definition chal :: "fe \<Rightarrow> fe \<Rightarrow> fe \<Rightarrow> nat \<Rightarrow> fe \<Rightarrow> fe" where
  "chal p0 p1 p2 d claim =
     (let t = sc_p3 p0 p1;
          t = (if d = 2 then sc_p3 t p2 else t)
      in sc_p3 t claim)"

definition G19S_INV2 :: "u64 list" where
  "G19S_INV2 = [14277384507177828353, 1234914826959606894, 0, 2305843009213693952]"

definition inv2 :: fe where
  "inv2 = fe_from_canonical_limbs G19S_INV2"

definition lag2 :: "fe \<Rightarrow> fe \<Rightarrow> fe \<Rightarrow> fe \<Rightarrow> fe" where
  "lag2 r p0 p1 p2 =
     (let i2 = inv2;
          rm1 = fe_sub r fe_one;
          rm2 = fe_sub r (fe_from_u64 2);
          L0 = fe_mul (fe_mul rm1 rm2) i2;
          L1 = fe_mul r (fe_sub (fe_from_u64 2) r);
          L2 = fe_mul (fe_mul r rm1) i2
      in fe_add (fe_add (fe_mul p0 L0) (fe_mul p1 L1)) (fe_mul p2 L2))"

subsection \<open>The provers\<close>

text \<open>Binding the lowest variable; the update in place reads each pair before it is overwritten.\<close>

definition bind_low :: "fe list \<Rightarrow> fe \<Rightarrow> fe list" where
  "bind_low a r =
     (let omr = fe_sub fe_one r
      in map (\<lambda>j. fe_add (fe_mul (a ! (2 * j)) omr) (fe_mul (a ! (2 * j + 1)) r)) [0..<length a div 2])"

definition half_sum :: "fe list \<Rightarrow> nat \<Rightarrow> fe" where
  "half_sum a b = foldl (\<lambda>p j. fe_add p (a ! (2 * j + b))) fe_zero [0..<length a div 2]"

definition total :: "fe list \<Rightarrow> fe" where
  "total a = foldl (\<lambda>c v. fe_add c v) fe_zero a"

text \<open>The rounds from the table \<open>a\<close> and the last claim: the later claims, messages, challenges, and the table left.\<close>

fun rounds_1 :: "nat \<Rightarrow> fe list \<Rightarrow> fe \<Rightarrow> fe list \<times> (fe \<times> fe \<times> fe) list \<times> fe list \<times> fe list" where
  "rounds_1 0 a c = ([], [], [], a)"
| "rounds_1 (Suc n) a c =
     (let p0 = half_sum a 0; p1 = half_sum a 1;
          r = chal p0 p1 fe_zero 1 c;
          omr = fe_sub fe_one r;
          c' = fe_add (fe_mul p0 omr) (fe_mul p1 r);
          (cs, es, rs, af) = rounds_1 n (bind_low a r) c'
      in (c' # cs, (p0, p1, fe_zero) # es, r # rs, af))"

definition prove_1 :: "nat \<Rightarrow> fe list \<Rightarrow> ScTranscript" where
  "prove_1 nv a =
     (let (cs, es, rs, af) = rounds_1 nv a (total a)
      in \<lparr>sc_nv = nv, sc_d = 1, sc_claims = total a # cs, sc_evals = es, sc_r = rs, sc_fa = af ! 0, sc_fb = fe_zero\<rparr>)"

definition half_prod :: "fe list \<Rightarrow> fe list \<Rightarrow> nat \<Rightarrow> fe" where
  "half_prod a b k = foldl (\<lambda>p j. fe_add p (fe_mul (a ! (2 * j + k)) (b ! (2 * j + k)))) fe_zero [0..<length a div 2]"

definition at_two :: "fe list \<Rightarrow> nat \<Rightarrow> fe" where
  "at_two a j = fe_sub (fe_add (a ! (2 * j + 1)) (a ! (2 * j + 1))) (a ! (2 * j))"

definition prod_at_two :: "fe list \<Rightarrow> fe list \<Rightarrow> fe" where
  "prod_at_two a b = foldl (\<lambda>p j. fe_add p (fe_mul (at_two a j) (at_two b j))) fe_zero [0..<length a div 2]"

definition inner_total :: "fe list \<Rightarrow> fe list \<Rightarrow> fe" where
  "inner_total a b = foldl (\<lambda>c i. fe_add c (fe_mul (a ! i) (b ! i))) fe_zero [0..<length a]"

fun rounds_2 :: "nat \<Rightarrow> fe list \<Rightarrow> fe list \<Rightarrow> fe \<Rightarrow> fe list \<times> (fe \<times> fe \<times> fe) list \<times> fe list \<times> fe list \<times> fe list" where
  "rounds_2 0 a b c = ([], [], [], a, b)"
| "rounds_2 (Suc n) a b c =
     (let p0 = half_prod a b 0; p1 = half_prod a b 1; p2 = prod_at_two a b;
          r = chal p0 p1 p2 2 c;
          c' = lag2 r p0 p1 p2;
          (cs, es, rs, af, bf) = rounds_2 n (bind_low a r) (bind_low b r) c'
      in (c' # cs, (p0, p1, p2) # es, r # rs, af, bf))"

definition prove_2 :: "nat \<Rightarrow> fe list \<Rightarrow> fe list \<Rightarrow> ScTranscript" where
  "prove_2 nv a b =
     (let (cs, es, rs, af, bf) = rounds_2 nv a b (inner_total a b)
      in \<lparr>sc_nv = nv, sc_d = 2, sc_claims = inner_total a b # cs, sc_evals = es, sc_r = rs,
          sc_fa = af ! 0, sc_fb = bf ! 0\<rparr>)"

subsection \<open>The verifier\<close>

definition next_claim :: "nat \<Rightarrow> fe \<Rightarrow> fe \<times> fe \<times> fe \<Rightarrow> fe" where
  "next_claim d r e =
     (case e of (p0, p1, p2) \<Rightarrow>
        if d = 1 then fe_add (fe_mul p0 (fe_sub fe_one r)) (fe_mul p1 r) else lag2 r p0 p1 p2)"

definition round_ok :: "ScTranscript \<Rightarrow> nat \<Rightarrow> bool" where
  "round_ok T i =
     (case sc_evals T ! i of (p0, p1, p2) \<Rightarrow>
        fe_add p0 p1 = sc_claims T ! i
        \<and> chal p0 p1 p2 (sc_d T) (sc_claims T ! i) = sc_r T ! i
        \<and> next_claim (sc_d T) (sc_r T ! i) (p0, p1, p2) = sc_claims T ! (i + 1))"

fun failing_round :: "ScTranscript \<Rightarrow> nat \<Rightarrow> nat \<Rightarrow> nat option" where
  "failing_round T 0 i = None"
| "failing_round T (Suc n) i = (if round_ok T i then failing_round T n (Suc i) else Some i)"

definition sc_verify :: "ScTranscript \<Rightarrow> fe \<Rightarrow> nat" where
  "sc_verify T C =
     (if sc_claims T ! 0 \<noteq> C then 0
      else case failing_round T (sc_nv T) 0 of
        Some i \<Rightarrow> i
      | None \<Rightarrow>
        let fin = (if sc_d T = 1 then sc_fa T else fe_mul (sc_fa T) (sc_fb T))
        in if fin \<noteq> sc_claims T ! sc_nv T then sc_nv T + 1 else sc_nv T)"

definition direct_weight :: "fe list \<Rightarrow> nat \<Rightarrow> fe" where
  "direct_weight r idx = foldl (\<lambda>w v. fe_mul w (if bit idx v then r ! v else fe_sub fe_one (r ! v))) fe_one [0..<length r]"

definition direct_eval :: "fe list \<Rightarrow> fe list \<Rightarrow> fe" where
  "direct_eval arr r = foldl (\<lambda>tot idx. fe_add tot (fe_mul (arr ! idx) (direct_weight r idx))) fe_zero [0..<length arr]"

subsection \<open>What the verifier accepts\<close>

definition step_ok :: "nat \<Rightarrow> fe \<Rightarrow> fe \<times> fe \<times> fe \<Rightarrow> fe \<Rightarrow> fe \<Rightarrow> bool" where
  "step_ok d c e r c' =
     (case e of (p0, p1, p2) \<Rightarrow>
        fe_add p0 p1 = c \<and> chal p0 p1 p2 d c = r \<and> next_claim d r (p0, p1, p2) = c')"

lemma round_ok_step: "round_ok T i = step_ok (sc_d T) (sc_claims T ! i) (sc_evals T ! i) (sc_r T ! i) (sc_claims T ! (i + 1))"
  by (auto simp: round_ok_def step_ok_def split: prod.splits)

lemma failing_round_None: "failing_round T n i = None \<longleftrightarrow> (\<forall>k<n. round_ok T (i + k))"
  by (induction n arbitrary: i) (auto simp: less_Suc_eq_0_disj)

lemma failing_round_Some: "failing_round T n i = Some k \<Longrightarrow> i \<le> k \<and> k < i + n"
  by (induction n arbitrary: i) (fastforce split: if_splits)+

text \<open>With at least one variable the accepting value is returned for accepted transcripts only.\<close>

lemma sc_verify_accepts:
  assumes "0 < sc_nv T"
  shows "sc_verify T C = sc_nv T \<longleftrightarrow> sc_claims T ! 0 = C \<and> (\<forall>i < sc_nv T. round_ok T i)
    \<and> (if sc_d T = 1 then sc_fa T else fe_mul (sc_fa T) (sc_fb T)) = sc_claims T ! sc_nv T"
  using assms failing_round_None [of T "sc_nv T" 0] failing_round_Some [of T "sc_nv T" 0]
  by (auto simp: sc_verify_def Let_def split: option.splits)

text \<open>Without variables the code of a failed initial claim is the accepting one.\<close>

lemma sc_verify_no_variables: "sc_nv T = 0 \<Longrightarrow> sc_claims T ! 0 \<noteq> C \<Longrightarrow> sc_verify T C = sc_nv T"
  by (simp add: sc_verify_def)

subsection \<open>The arithmetic of a round\<close>

lemma canonical_inv2: "is_canonical inv2" and dec_inv2: "fe_dec inv2 * 2 = 1"
proof -
  have l: "length G19S_INV2 = 4" "limbs_val G19S_INV2 < pallas_p"
    by (simp_all add: G19S_INV2_def pallas_p_eq)
  show "is_canonical inv2" unfolding inv2_def by (rule canonical_from_limbs [OF l])
  have "(of_nat (limbs_val G19S_INV2 * 2) :: pallas) = of_nat 1"
    unfolding of_nat_pallas by (simp add: G19S_INV2_def pallas_p_eq)
  then show "fe_dec inv2 * 2 = 1"
    using fe_dec_from_limbs [OF l] by (simp add: inv2_def)
qed

lemma canonical_chal [simp]: "is_canonical (chal p0 p1 p2 d c)"
  by (simp add: chal_def Let_def sc_p3_def)

lemma lag2_identity:
  fixes a a' b b' r i2 :: "'a::comm_ring_1"
  assumes "i2 * 2 = 1"
  shows "a * b * ((r - 1) * (r - 2) * i2) + a' * b' * (r * (2 - r)) + (2 * a' - a) * (2 * b' - b) * (r * (r - 1) * i2)
    = (a * (1 - r) + a' * r) * (b * (1 - r) + b' * r)"
proof -
  have h: "2 * (i2 * x) = x" for x using assms by (metis mult.assoc mult.commute mult_1)
  have four: "4 * (i2 * x) = 2 * x" for x using h [of "2 * x"] by (simp add: mult.left_commute)
  let ?L = "(r - 1) * (r - 2) * i2" and ?M = "r * (r - 1) * i2"
  have s: "?L + ?M = (r - 1) * (r - 1)"
  proof -
    have "?L + ?M = 2 * (i2 * ((r - 1) * (r - 1)))" by (simp add: algebra_simps)
    then show ?thesis by (simp only: h)
  qed
  have m: "2 * ?M = r * (r - 1)" "4 * ?M = 2 * (r * (r - 1))"
    using h [of "r * (r - 1)"] four [of "r * (r - 1)"] by (simp_all only: mult.commute mult.left_commute)
  have "(2 * a' - a) * (2 * b' - b) * ?M = a' * b' * (4 * ?M) - (a' * b + a * b') * (2 * ?M) + a * b * ?M"
    by (simp add: algebra_simps)
  also have "\<dots> = a' * b' * (2 * (r * (r - 1))) - (a' * b + a * b') * (r * (r - 1)) + a * b * ?M"
    by (simp only: m)
  finally have "a * b * ?L + a' * b' * (r * (2 - r)) + (2 * a' - a) * (2 * b' - b) * ?M
      = a * b * (?L + ?M) + a' * b' * (r * (2 - r)) + a' * b' * (2 * (r * (r - 1))) - (a' * b + a * b') * (r * (r - 1))"
    by (simp add: algebra_simps)
  also have "\<dots> = (a * (1 - r) + a' * r) * (b * (1 - r) + b' * r)"
    unfolding s by (simp add: algebra_simps)
  finally show ?thesis .
qed

lemma lag2_dec:
  assumes "is_canonical r" "is_canonical p0" "is_canonical p1" "is_canonical p2"
  shows "is_canonical (lag2 r p0 p1 p2)"
    and "fe_dec (lag2 r p0 p1 p2) = fe_dec p0 * ((fe_dec r - 1) * (fe_dec r - 2) * fe_dec inv2)
      + fe_dec p1 * (fe_dec r * (2 - fe_dec r)) + fe_dec p2 * (fe_dec r * (fe_dec r - 1) * fe_dec inv2)"
  using assms canonical_inv2 by (simp_all add: lag2_def Let_def fe_dec_ops fe_dec_from_u64)

lemma bind_low_dec:
  assumes "list_all is_canonical a" and "is_canonical r"
  shows "length (bind_low a r) = length a div 2" and "list_all is_canonical (bind_low a r)"
    and "j < length a div 2 \<Longrightarrow>
      fe_dec (bind_low a r ! j) = fe_dec (a ! (2 * j)) * (1 - fe_dec r) + fe_dec (a ! (2 * j + 1)) * fe_dec r"
proof -
  have i: "is_canonical (a ! (2 * j))" "is_canonical (a ! (2 * j + 1))" "is_canonical (a ! Suc (2 * j))" if "j < length a div 2" for j
    using that assms(1) by (simp_all add: list_all_length)
  show "length (bind_low a r) = length a div 2" by (simp add: bind_low_def Let_def)
  show "list_all is_canonical (bind_low a r)" using i assms(2) by (simp add: bind_low_def Let_def list_all_iff)
  show "j < length a div 2 \<Longrightarrow>
      fe_dec (bind_low a r ! j) = fe_dec (a ! (2 * j)) * (1 - fe_dec r) + fe_dec (a ! (2 * j + 1)) * fe_dec r"
    using i assms(2) by (simp add: bind_low_def Let_def fe_dec_ops)
qed

lemma half_sum_dec:
  assumes "list_all is_canonical a" and "b \<le> 1"
  shows "is_canonical (half_sum a b)" and "fe_dec (half_sum a b) = (\<Sum>j<length a div 2. fe_dec (a ! (2 * j + b)))"
proof -
  have "is_canonical (a ! (2 * j + b))" if "j \<in> set [0..<length a div 2]" for j
    using that assms by (simp add: list_all_length)
  then show "is_canonical (half_sum a b)" "fe_dec (half_sum a b) = (\<Sum>j<length a div 2. fe_dec (a ! (2 * j + b)))"
    unfolding half_sum_def
    using fe_foldl_sum [of fe_zero "[0..<length a div 2]" "\<lambda>j. a ! (2 * j + b)"]
    by (simp_all add: fe_dec_zero sum_list_upt)
qed

lemma total_dec:
  assumes "list_all is_canonical a"
  shows "is_canonical (total a)" and "fe_dec (total a) = (\<Sum>j<length a. fe_dec (a ! j))"
  using fe_foldl_sum [of fe_zero a "\<lambda>v. v"] assms
  by (simp_all add: total_def list_all_iff fe_dec_zero sum_list_sum_nth lessThan_atLeast0)

lemma half_prod_dec:
  assumes "list_all is_canonical a" and "list_all is_canonical b" and "length b = length a" and "k \<le> 1"
  shows "is_canonical (half_prod a b k)"
    and "fe_dec (half_prod a b k) = (\<Sum>j<length a div 2. fe_dec (a ! (2 * j + k)) * fe_dec (b ! (2 * j + k)))"
proof -
  have i: "is_canonical (a ! (2 * j + k))" "is_canonical (b ! (2 * j + k))" if "j < length a div 2" for j
    using that assms by (simp_all add: list_all_length)
  then show "is_canonical (half_prod a b k)"
    "fe_dec (half_prod a b k) = (\<Sum>j<length a div 2. fe_dec (a ! (2 * j + k)) * fe_dec (b ! (2 * j + k)))"
    unfolding half_prod_def
    using fe_foldl_sum [of fe_zero "[0..<length a div 2]" "\<lambda>j. fe_mul (a ! (2 * j + k)) (b ! (2 * j + k))"]
    by (simp_all add: fe_dec_ops sum_list_upt)
qed

lemma at_two_dec:
  assumes "list_all is_canonical a" and "j < length a div 2"
  shows "is_canonical (at_two a j)" and "fe_dec (at_two a j) = 2 * fe_dec (a ! (2 * j + 1)) - fe_dec (a ! (2 * j))"
  using assms by (simp_all add: at_two_def list_all_length fe_dec_ops)

lemma prod_at_two_dec:
  assumes "list_all is_canonical a" and "list_all is_canonical b" and "length b = length a"
  shows "is_canonical (prod_at_two a b)"
    and "fe_dec (prod_at_two a b) = (\<Sum>j<length a div 2. (2 * fe_dec (a ! (2 * j + 1)) - fe_dec (a ! (2 * j)))
      * (2 * fe_dec (b ! (2 * j + 1)) - fe_dec (b ! (2 * j))))"
  unfolding prod_at_two_def
  using fe_foldl_sum [of fe_zero "[0..<length a div 2]" "\<lambda>j. fe_mul (at_two a j) (at_two b j)"] at_two_dec assms
  by (simp_all add: fe_dec_ops sum_list_upt)

lemma inner_total_dec:
  assumes "list_all is_canonical a" and "list_all is_canonical b" and "length b = length a"
  shows "is_canonical (inner_total a b)" and "fe_dec (inner_total a b) = (\<Sum>j<length a. fe_dec (a ! j) * fe_dec (b ! j))"
  unfolding inner_total_def
  using fe_foldl_sum [of fe_zero "[0..<length a]" "\<lambda>i. fe_mul (a ! i) (b ! i)"] assms
  by (simp_all add: list_all_length fe_dec_ops sum_list_upt)

subsection \<open>Honest transcripts are accepted\<close>

lemma sum_halves: "length a = 2 ^ Suc n \<Longrightarrow>
    (\<Sum>j<length a. f j) = (\<Sum>j<length a div 2. f (2 * j)) + (\<Sum>j<length a div 2. f (2 * j + 1))"
  for f :: "nat \<Rightarrow> 'a::comm_monoid_add"
  using sum_even_odd [of f "2 ^ n"] by simp

lemma round_1_claim:
  assumes a: "list_all is_canonical a" "length a = 2 ^ Suc n" and c: "is_canonical c" "fe_dec c = (\<Sum>j<length a. fe_dec (a ! j))"
    and r: "is_canonical r"
  shows "fe_add (half_sum a 0) (half_sum a 1) = c"
    and "fe_dec (next_claim 1 r (half_sum a 0, half_sum a 1, x)) = (\<Sum>j<length (bind_low a r). fe_dec (bind_low a r ! j))"
proof -
  note h = half_sum_dec [OF a(1)]
  show "fe_add (half_sum a 0) (half_sum a 1) = c"
    using h c a sum_halves [OF a(2), of "\<lambda>j. fe_dec (a ! j)"] by (intro fe_eqI) (simp_all add: fe_dec_ops)
  show "fe_dec (next_claim 1 r (half_sum a 0, half_sum a 1, x)) = (\<Sum>j<length (bind_low a r). fe_dec (bind_low a r ! j))"
    using h r bind_low_dec [OF a(1) r]
    by (simp add: next_claim_def fe_dec_ops sum.distrib sum_distrib_right)
qed

lemma rounds_1_complete:
  "list_all is_canonical a \<Longrightarrow> length a = 2 ^ n \<Longrightarrow> is_canonical c \<Longrightarrow> fe_dec c = (\<Sum>j<length a. fe_dec (a ! j)) \<Longrightarrow>
    rounds_1 n a c = (cs, es, rs, af) \<Longrightarrow>
    length cs = n \<and> length es = n \<and> length rs = n \<and> (c # cs) ! n = af ! 0
    \<and> (\<forall>i<n. step_ok 1 ((c # cs) ! i) (es ! i) (rs ! i) (cs ! i))"
proof (induction n a c arbitrary: cs es rs af rule: rounds_1.induct)
  case (1 a c)
  then have "is_canonical (a ! 0)" "fe_dec c = fe_dec (a ! 0)" by (simp_all add: list_all_length)
  then show ?case using 1 by (auto intro: fe_eqI)
next
  case (2 n a c)
  define r where "r = chal (half_sum a 0) (half_sum a 1) fe_zero 1 c"
  define c' where "c' = next_claim 1 r (half_sum a 0, half_sum a 1, fe_zero)"
  obtain cs' es' rs' where e: "rounds_1 n (bind_low a r) c' = (cs', es', rs', af)"
    and f: "cs = c' # cs'" "es = (half_sum a 0, half_sum a 1, fe_zero) # es'" "rs = r # rs'"
    using "2.prems"(5) by (auto simp: Let_def r_def c'_def next_claim_def split: prod.splits)
  have r: "is_canonical r" by (simp add: r_def)
  note k = round_1_claim [OF "2.prems"(1,2,3,4) r]
  have c': "is_canonical c'" using half_sum_dec [OF "2.prems"(1)] r by (simp add: c'_def next_claim_def)
  have "length cs' = n \<and> length es' = n \<and> length rs' = n \<and> (c' # cs') ! n = af ! 0
    \<and> (\<forall>i<n. step_ok 1 ((c' # cs') ! i) (es' ! i) (rs' ! i) (cs' ! i))"
    using "2.prems"(2) bind_low_dec [OF "2.prems"(1) r] c' k(2) e
    by (intro "2.IH" [OF refl refl refl refl]) (simp_all add: r_def c'_def next_claim_def)
  moreover have "step_ok 1 c (half_sum a 0, half_sum a 1, fe_zero) r c'"
    using k(1) by (simp add: step_ok_def r_def c'_def)
  ultimately show ?case unfolding f by (auto simp: less_Suc_eq_0_disj)
qed

lemma prove_1_accepted:
  assumes a: "list_all is_canonical a" "length a = 2 ^ n"
  shows "sc_verify (prove_1 n a) (total a) = n"
proof -
  obtain cs es rs af where e: "rounds_1 n a (total a) = (cs, es, rs, af)" by (cases "rounds_1 n a (total a)") auto
  note c = rounds_1_complete [OF a total_dec(1) [OF a(1)] total_dec(2) [OF a(1)] e]
  have T: "prove_1 n a = \<lparr>sc_nv = n, sc_d = 1, sc_claims = total a # cs, sc_evals = es, sc_r = rs, sc_fa = af ! 0, sc_fb = fe_zero\<rparr>"
    by (simp add: prove_1_def e)
  have "failing_round (prove_1 n a) n 0 = None"
    unfolding failing_round_None round_ok_step using c by (simp add: T)
  then show ?thesis using c by (simp add: sc_verify_def T Let_def)
qed

lemma round_2_claim:
  assumes a: "list_all is_canonical a" "length a = 2 ^ Suc n" and b: "list_all is_canonical b" "length b = length a"
    and c: "is_canonical c" "fe_dec c = (\<Sum>j<length a. fe_dec (a ! j) * fe_dec (b ! j))" and r: "is_canonical r"
  shows "fe_add (half_prod a b 0) (half_prod a b 1) = c"
    and "is_canonical (lag2 r (half_prod a b 0) (half_prod a b 1) (prod_at_two a b))"
    and "fe_dec (lag2 r (half_prod a b 0) (half_prod a b 1) (prod_at_two a b))
      = (\<Sum>j<length (bind_low a r). fe_dec (bind_low a r ! j) * fe_dec (bind_low b r ! j))"
proof -
  note h = half_prod_dec [OF a(1) b] and t = prod_at_two_dec [OF a(1) b]
  let ?D = "\<lambda>x j. fe_dec (x ! j)" and ?R = "fe_dec r"
  show "fe_add (half_prod a b 0) (half_prod a b 1) = c"
    using h c a sum_halves [OF a(2), of "\<lambda>j. ?D a j * ?D b j"] by (intro fe_eqI) (simp_all add: fe_dec_ops)
  show "is_canonical (lag2 r (half_prod a b 0) (half_prod a b 1) (prod_at_two a b))"
    using lag2_dec(1) h t r by simp
  have "fe_dec (lag2 r (half_prod a b 0) (half_prod a b 1) (prod_at_two a b))
      = (\<Sum>j<length a div 2. ?D a (2 * j) * ?D b (2 * j) * ((?R - 1) * (?R - 2) * fe_dec inv2)
          + ?D a (2 * j + 1) * ?D b (2 * j + 1) * (?R * (2 - ?R))
          + (2 * ?D a (2 * j + 1) - ?D a (2 * j)) * (2 * ?D b (2 * j + 1) - ?D b (2 * j)) * (?R * (?R - 1) * fe_dec inv2))"
    using h t r by (simp add: lag2_dec(2) sum.distrib sum_distrib_right)
  also have "\<dots> = (\<Sum>j<length (bind_low a r). ?D (bind_low a r) j * ?D (bind_low b r) j)"
    using bind_low_dec [OF a(1) r] bind_low_dec(3) [OF b(1) r] b(2)
    by (intro sum.cong) (simp_all only: lag2_identity [OF dec_inv2] lessThan_iff)
  finally show "fe_dec (lag2 r (half_prod a b 0) (half_prod a b 1) (prod_at_two a b))
      = (\<Sum>j<length (bind_low a r). ?D (bind_low a r) j * ?D (bind_low b r) j)" .
qed

lemma rounds_2_complete:
  "list_all is_canonical a \<Longrightarrow> length a = 2 ^ n \<Longrightarrow> list_all is_canonical b \<Longrightarrow> length b = length a \<Longrightarrow>
    is_canonical c \<Longrightarrow> fe_dec c = (\<Sum>j<length a. fe_dec (a ! j) * fe_dec (b ! j)) \<Longrightarrow>
    rounds_2 n a b c = (cs, es, rs, af, bf) \<Longrightarrow>
    length cs = n \<and> length es = n \<and> length rs = n \<and> (c # cs) ! n = fe_mul (af ! 0) (bf ! 0)
    \<and> (\<forall>i<n. step_ok 2 ((c # cs) ! i) (es ! i) (rs ! i) (cs ! i))"
proof (induction n a b c arbitrary: cs es rs af bf rule: rounds_2.induct)
  case (1 a b c)
  then have "is_canonical (a ! 0)" "is_canonical (b ! 0)" "fe_dec c = fe_dec (a ! 0) * fe_dec (b ! 0)"
    by (simp_all add: list_all_length)
  then show ?case using 1 by (auto intro!: fe_eqI simp: fe_dec_ops)
next
  case (2 n a b c)
  let ?p0 = "half_prod a b 0" and ?p1 = "half_prod a b 1" and ?p2 = "prod_at_two a b"
  define r where "r = chal ?p0 ?p1 ?p2 2 c"
  define c' where "c' = lag2 r ?p0 ?p1 ?p2"
  obtain cs' es' rs' where e: "rounds_2 n (bind_low a r) (bind_low b r) c' = (cs', es', rs', af, bf)"
    and f: "cs = c' # cs'" "es = (?p0, ?p1, ?p2) # es'" "rs = r # rs'"
    using "2.prems"(7) by (auto simp: Let_def r_def c'_def split: prod.splits)
  have r: "is_canonical r" by (simp add: r_def)
  note k = round_2_claim [OF "2.prems"(1-6) r]
  have "length cs' = n \<and> length es' = n \<and> length rs' = n \<and> (c' # cs') ! n = fe_mul (af ! 0) (bf ! 0)
    \<and> (\<forall>i<n. step_ok 2 ((c' # cs') ! i) (es' ! i) (rs' ! i) (cs' ! i))"
    using "2.prems"(2,4) bind_low_dec [OF "2.prems"(1) r] bind_low_dec [OF "2.prems"(3) r] k(2,3) e
    by (intro "2.IH" [OF refl refl refl refl]) (simp_all add: r_def c'_def)
  moreover have "step_ok 2 c (?p0, ?p1, ?p2) r c'"
    using k(1) by (simp add: step_ok_def r_def c'_def next_claim_def)
  ultimately show ?case unfolding f by (auto simp: less_Suc_eq_0_disj)
qed

lemma prove_2_accepted:
  assumes a: "list_all is_canonical a" "length a = 2 ^ n" and b: "list_all is_canonical b" "length b = 2 ^ n"
  shows "sc_verify (prove_2 n a b) (inner_total a b) = n"
proof -
  obtain cs es rs af bf where e: "rounds_2 n a b (inner_total a b) = (cs, es, rs, af, bf)"
    by (cases "rounds_2 n a b (inner_total a b)") auto
  have l: "length b = length a" using a b by simp
  note c = rounds_2_complete [OF a b(1) l inner_total_dec(1) [OF a(1) b(1) l] inner_total_dec(2) [OF a(1) b(1) l] e]
  have T: "prove_2 n a b = \<lparr>sc_nv = n, sc_d = 2, sc_claims = inner_total a b # cs, sc_evals = es, sc_r = rs,
      sc_fa = af ! 0, sc_fb = bf ! 0\<rparr>"
    by (simp add: prove_2_def e)
  have "failing_round (prove_2 n a b) n 0 = None"
    unfolding failing_round_None round_ok_step using c by (simp add: T)
  then show ?thesis using c by (simp add: sc_verify_def T Let_def)
qed

subsection \<open>The table that is left is the direct evaluation\<close>

definition bind_all :: "fe list \<Rightarrow> fe list \<Rightarrow> fe list" where
  "bind_all a rs = foldl bind_low a rs"

lemma rounds_1_bind: "rounds_1 n a c = (cs, es, rs, af) \<Longrightarrow> af = bind_all a rs \<and> list_all is_canonical rs"
  by (induction n a c arbitrary: cs es rs af rule: rounds_1.induct) (auto simp: bind_all_def Let_def split: prod.splits)

lemma rounds_2_bind:
  "rounds_2 n a b c = (cs, es, rs, af, bf) \<Longrightarrow> af = bind_all a rs \<and> bf = bind_all b rs \<and> list_all is_canonical rs"
  by (induction n a b c arbitrary: cs es rs af bf rule: rounds_2.induct) (auto simp: bind_all_def Let_def split: prod.splits)

lemma direct_weight_dec:
  assumes "list_all is_canonical r"
  shows "is_canonical (direct_weight r idx)"
    and "fe_dec (direct_weight r idx) = (\<Prod>v<length r. if bit idx v then fe_dec (r ! v) else 1 - fe_dec (r ! v))"
  unfolding direct_weight_def
  using fe_foldl_prod [of fe_one "[0..<length r]" "\<lambda>v. if bit idx v then r ! v else fe_sub fe_one (r ! v)"] assms
  by (auto simp: list_all_length fe_dec_ops prod_list_upt intro!: prod.cong)

lemma direct_eval_dec:
  assumes "list_all is_canonical a" and "list_all is_canonical r"
  shows "is_canonical (direct_eval a r)" and "fe_dec (direct_eval a r)
    = (\<Sum>idx<length a. fe_dec (a ! idx) * (\<Prod>v<length r. if bit idx v then fe_dec (r ! v) else 1 - fe_dec (r ! v)))"
  unfolding direct_eval_def
  using fe_foldl_sum [of fe_zero "[0..<length a]" "\<lambda>i. fe_mul (a ! i) (direct_weight r i)"] assms direct_weight_dec [OF assms(2)]
  by (simp_all add: list_all_length fe_dec_ops sum_list_upt)

lemma bit_double: "bit (2 * j) (Suc v) = bit j v" "bit (Suc (2 * j)) (Suc v) = bit j v" for j :: nat
  by (simp_all add: bit_Suc)

lemma bind_all_eval:
  "list_all is_canonical a \<Longrightarrow> list_all is_canonical rs \<Longrightarrow> length a = 2 ^ length rs \<Longrightarrow>
    length (bind_all a rs) = 1 \<and> bind_all a rs ! 0 = direct_eval a rs"
proof (induction rs arbitrary: a)
  case Nil
  then show ?case by (auto simp: bind_all_def direct_eval_dec list_all_length intro!: fe_eqI)
next
  case (Cons r rs)
  let ?b = "bind_low a r"
  let ?W = "\<lambda>rs idx. \<Prod>v<length rs. if bit idx v then fe_dec (rs ! v) else 1 - fe_dec (rs ! v)"
  have r: "is_canonical r" "list_all is_canonical rs" using Cons.prems by simp_all
  note b = bind_low_dec [OF Cons.prems(1) r(1)]
  have IH: "length (bind_all ?b rs) = 1" "bind_all ?b rs ! 0 = direct_eval ?b rs"
    using Cons.IH [of ?b] b Cons.prems by simp_all
  have W: "?W (r # rs) (2 * j) = (1 - fe_dec r) * ?W rs j" "?W (r # rs) (2 * j + 1) = fe_dec r * ?W rs j" for j :: nat
    by (simp_all add: prod.lessThan_Suc_shift bit_double bit_0 del: prod.lessThan_Suc cong: if_cong)
  have "fe_dec (direct_eval a (r # rs)) = (\<Sum>idx<length a. fe_dec (a ! idx) * ?W (r # rs) idx)"
    using direct_eval_dec(2) [OF Cons.prems(1,2)] .
  also have "\<dots> = (\<Sum>j<length a div 2. fe_dec (a ! (2 * j)) * ((1 - fe_dec r) * ?W rs j))
      + (\<Sum>j<length a div 2. fe_dec (a ! (2 * j + 1)) * (fe_dec r * ?W rs j))"
    unfolding W [symmetric] using Cons.prems(3) by (intro sum_halves [of a "length rs"]) simp
  also have "\<dots> = (\<Sum>j<length ?b. fe_dec (?b ! j) * ?W rs j)"
    unfolding sum.distrib [symmetric] b(1) by (intro sum.cong refl) (simp add: b(3) distrib_right mult.assoc)
  also have "\<dots> = fe_dec (direct_eval ?b rs)" using direct_eval_dec(2) [OF b(2) r(2)] by simp
  finally have "direct_eval a (r # rs) = direct_eval ?b rs"
    using direct_eval_dec(1) [OF Cons.prems(1,2)] direct_eval_dec(1) [OF b(2) r(2)] by (intro fe_eqI)
  then show ?case using IH by (simp add: bind_all_def)
qed

lemma prove_1_final:
  assumes "list_all is_canonical a" and "length a = 2 ^ n"
  shows "sc_fa (prove_1 n a) = direct_eval a (sc_r (prove_1 n a))"
proof -
  obtain cs es rs af where e: "rounds_1 n a (total a) = (cs, es, rs, af)" by (cases "rounds_1 n a (total a)") auto
  have "length rs = n" using rounds_1_complete [OF assms total_dec [OF assms(1)] e] by simp
  then show ?thesis using bind_all_eval [of a rs] rounds_1_bind [OF e] assms by (simp add: prove_1_def e)
qed

lemma prove_2_final:
  assumes "list_all is_canonical a" and "length a = 2 ^ n" and "list_all is_canonical b" and "length b = 2 ^ n"
  shows "sc_fa (prove_2 n a b) = direct_eval a (sc_r (prove_2 n a b))
    \<and> sc_fb (prove_2 n a b) = direct_eval b (sc_r (prove_2 n a b))"
proof -
  obtain cs es rs af bf where e: "rounds_2 n a b (inner_total a b) = (cs, es, rs, af, bf)"
    by (cases "rounds_2 n a b (inner_total a b)") auto
  have l: "length b = length a" using assms by simp
  have "length rs = n" using rounds_2_complete [OF assms(1-3) l inner_total_dec [OF assms(1,3) l] e] by simp
  then show ?thesis
    using bind_all_eval [of a rs] bind_all_eval [of b rs] rounds_2_bind [OF e] assms by (simp add: prove_2_def e)
qed

end
