(* ===== verification/Pcs.thy ===== *)
theory Pcs
  imports Sumcheck
begin

text \<open>
  The multilinear commitment with openings, \<open>src/include/hsma/pcs.hpp\<close>: the sponge commitment, the
  evaluation point derived from it, openings of one table and of a product of two at the derived
  point or at a given one, and the two verifiers with their return codes.
\<close>

definition pcs_commit :: "fe list \<Rightarrow> fe" where
  "pcs_commit evals = sponge_hash HSM_SUMCHECK_v1 evals"

definition derive_points :: "fe \<Rightarrow> nat \<Rightarrow> fe list" where
  "derive_points C nv = map (\<lambda>i. poseidon3 HSM_SUMCHECK_v1 C (fe_from_u64 (of_nat i))) [0..<nv]"

record Opening =
  po_nv :: nat
  po_d :: nat
  po_claims :: "fe list"
  po_evals :: "(fe \<times> fe \<times> fe) list"
  po_fa :: fe
  po_fb :: fe

text \<open>\<open>31 - __builtin_clz(n)\<close>: the position of the top bit of a number below \<open>2 ^ 32\<close>.\<close>

fun top_bit :: "nat \<Rightarrow> nat" where
  "top_bit n = (if n < 2 then 0 else Suc (top_bit (n div 2)))"

declare top_bit.simps [simp del]

definition table_vars :: "fe list \<Rightarrow> nat" where
  "table_vars a = (if a = [] then 0 else if length a = 1 then 0 else top_bit (length a))"

definition table_head :: "fe list \<Rightarrow> fe" where
  "table_head a = (if a = [] then fe_zero else a ! 0)"

subsection \<open>Openings\<close>

fun open_rounds_1 :: "fe list \<Rightarrow> fe list \<Rightarrow> fe list \<times> (fe \<times> fe \<times> fe) list \<times> fe list" where
  "open_rounds_1 [] a = ([], [], a)"
| "open_rounds_1 (r # rs) a =
     (let p0 = half_sum a 0; p1 = half_sum a 1;
          omr = fe_sub fe_one r;
          c' = fe_add (fe_mul p0 omr) (fe_mul p1 r);
          (cs, es, af) = open_rounds_1 rs (bind_low a r)
      in (c' # cs, (p0, p1, fe_zero) # es, af))"

definition open_1 :: "fe list \<Rightarrow> Opening" where
  "open_1 a =
     (let C = pcs_commit a;
          r = derive_points C (table_vars a);
          (cs, es, af) = open_rounds_1 r a
      in \<lparr>po_nv = length r, po_d = 1, po_claims = total a # cs, po_evals = es,
          po_fa = table_head af, po_fb = fe_zero\<rparr>)"

fun open_rounds_2 :: "fe list \<Rightarrow> fe list \<Rightarrow> fe list \<Rightarrow> fe list \<times> (fe \<times> fe \<times> fe) list \<times> fe list \<times> fe list" where
  "open_rounds_2 [] a b = ([], [], a, b)"
| "open_rounds_2 (r # rs) a b =
     (let p0 = half_prod a b 0; p1 = half_prod a b 1; p2 = prod_at_two a b;
          (cs, es, af, bf) = open_rounds_2 rs (bind_low a r) (bind_low b r)
      in (lag2 r p0 p1 p2 # cs, (p0, p1, p2) # es, af, bf))"

definition open_2_with :: "fe list \<Rightarrow> fe list \<Rightarrow> fe list \<Rightarrow> Opening" where
  "open_2_with a b r =
     (let (cs, es, af, bf) = open_rounds_2 r a b
      in \<lparr>po_nv = length r, po_d = 2, po_claims = inner_total a b # cs, po_evals = es,
          po_fa = table_head af, po_fb = table_head bf\<rparr>)"

definition open_2 :: "fe list \<Rightarrow> fe list \<Rightarrow> Opening" where
  "open_2 a b =
     (let C = pcs_commit (a @ b);
          nv = (if length a = 1 then 0 else top_bit (length a))
      in open_2_with a b (derive_points C nv))"

definition empty_opening :: Opening where
  "empty_opening = \<lparr>po_nv = 0, po_d = 0, po_claims = [], po_evals = [], po_fa = Fe 0 0 0 0, po_fb = Fe 0 0 0 0\<rparr>"

definition open_2_at :: "fe list \<Rightarrow> fe list \<Rightarrow> fe list \<Rightarrow> Opening" where
  "open_2_at a b r =
     (if length a \<noteq> length b \<or> length a \<noteq> 2 ^ length r then empty_opening else open_2_with a b r)"

subsection \<open>The verifiers\<close>

definition PCS_REJECT_FINAL :: nat where
  "PCS_REJECT_FINAL = 0xFFFFFFFF"

definition open_round_ok :: "Opening \<Rightarrow> fe list \<Rightarrow> nat \<Rightarrow> bool" where
  "open_round_ok O1 r i =
     (case po_evals O1 ! i of (p0, p1, p2) \<Rightarrow>
        fe_add p0 p1 = po_claims O1 ! i
        \<and> next_claim (po_d O1) (r ! i) (p0, p1, p2) = po_claims O1 ! (i + 1))"

text \<open>The rounds and the final check, the same code in both verifiers.\<close>

definition verify_rounds :: "Opening \<Rightarrow> fe list \<Rightarrow> nat" where
  "verify_rounds O1 r =
     (case find (\<lambda>i. \<not> open_round_ok O1 r i) [0..<po_nv O1] of
        Some i \<Rightarrow> i
      | None \<Rightarrow>
          let fin = (if po_d O1 = 1 then po_fa O1 else fe_mul (po_fa O1) (po_fb O1))
          in if fin \<noteq> po_claims O1 ! po_nv O1 then PCS_REJECT_FINAL else po_nv O1)"

definition pcs_verify :: "Opening \<Rightarrow> fe \<Rightarrow> nat" where
  "pcs_verify O1 C =
     (if po_claims O1 = [] then 0 else verify_rounds O1 (derive_points C (po_nv O1)))"

definition verify_at :: "Opening \<Rightarrow> fe \<Rightarrow> fe list \<Rightarrow> nat" where
  "verify_at O1 claim r =
     (if po_claims O1 = [] \<or> length (po_claims O1) \<noteq> po_nv O1 + 1 then 0
      else if length r \<noteq> po_nv O1 then 0
      else if po_claims O1 ! 0 \<noteq> claim then 0
      else verify_rounds O1 r)"

subsection \<open>What is accepted\<close>

definition final_ok :: "Opening \<Rightarrow> bool" where
  "final_ok O1 \<longleftrightarrow> (if po_d O1 = 1 then po_fa O1 else fe_mul (po_fa O1) (po_fb O1)) = po_claims O1 ! po_nv O1"

lemma verify_rounds_accepts:
  assumes "po_nv O1 < PCS_REJECT_FINAL"
  shows "verify_rounds O1 r = po_nv O1 \<longleftrightarrow> (\<forall>i < po_nv O1. open_round_ok O1 r i) \<and> final_ok O1"
proof (cases "find (\<lambda>i. \<not> open_round_ok O1 r i) [0..<po_nv O1]")
  case None
  then have "\<forall>i < po_nv O1. open_round_ok O1 r i" by (auto simp: find_None_iff)
  then show ?thesis using None assms by (auto simp: verify_rounds_def final_ok_def Let_def)
next
  case (Some i)
  then have "i < po_nv O1" "\<not> open_round_ok O1 r i" by (auto simp: find_Some_iff)
  then show ?thesis using Some by (auto simp: verify_rounds_def)
qed

lemma pcs_verify_accepts:
  "0 < po_nv O1 \<Longrightarrow> po_nv O1 < PCS_REJECT_FINAL \<Longrightarrow>
    pcs_verify O1 C = po_nv O1 \<longleftrightarrow> po_claims O1 \<noteq> [] \<and> final_ok O1
      \<and> (\<forall>i < po_nv O1. open_round_ok O1 (derive_points C (po_nv O1)) i)"
  by (auto simp: pcs_verify_def verify_rounds_accepts)

text \<open>The code of an opening without claims is 0, which is the accepting code where no variable is expected.\<close>

lemma pcs_verify_empty: "pcs_verify empty_opening C = 0" "verify_at empty_opening c r = 0"
  by (simp_all add: pcs_verify_def verify_at_def empty_opening_def)

lemma verify_at_no_variables: "po_nv O1 = 0 \<Longrightarrow> po_claims O1 \<noteq> [c] \<Longrightarrow> verify_at O1 c [] = 0"
  by (cases "po_claims O1") (auto simp: verify_at_def)

subsection \<open>Honest openings\<close>

lemma top_bit_pow: "top_bit (2 ^ n) = n"
  by (induction n) (simp_all add: top_bit.simps)

lemma table_vars_pow: "length a = 2 ^ n \<Longrightarrow> table_vars a = n"
  using top_bit_pow [of n] by (cases n) (auto simp: table_vars_def)

lemma canonical_points: "list_all is_canonical (derive_points C n)" "length (derive_points C n) = n"
  by (simp_all add: derive_points_def list_all_iff)

lemma open_rounds_1_complete:
  "list_all is_canonical a \<Longrightarrow> length a = 2 ^ length rs \<Longrightarrow> list_all is_canonical rs \<Longrightarrow>
    is_canonical c \<Longrightarrow> fe_dec c = (\<Sum>j<length a. fe_dec (a ! j)) \<Longrightarrow> open_rounds_1 rs a = (cs, es, af) \<Longrightarrow>
    length cs = length rs \<and> length es = length rs \<and> af = bind_all a rs \<and> (c # cs) ! length rs = af ! 0
    \<and> (\<forall>i<length rs. fe_add (fst (es ! i)) (fst (snd (es ! i))) = (c # cs) ! i
        \<and> next_claim 1 (rs ! i) (es ! i) = cs ! i)"
proof (induction rs a arbitrary: c cs es af rule: open_rounds_1.induct)
  case (1 a)
  then have "is_canonical (a ! 0)" "fe_dec c = fe_dec (a ! 0)" by (simp_all add: list_all_length)
  then show ?case using 1 by (auto simp: bind_all_def intro: fe_eqI)
next
  case (2 r rs a)
  define c' where "c' = next_claim 1 r (half_sum a 0, half_sum a 1, fe_zero)"
  obtain cs' es' where e: "open_rounds_1 rs (bind_low a r) = (cs', es', af)"
    and f: "cs = c' # cs'" "es = (half_sum a 0, half_sum a 1, fe_zero) # es'"
    using "2.prems"(6) by (auto simp: Let_def c'_def next_claim_def split: prod.splits)
  have r: "is_canonical r" using "2.prems"(3) by simp
  have a2: "length a = 2 ^ Suc (length rs)" using "2.prems"(2) by simp
  note k = round_1_claim [OF "2.prems"(1) a2 "2.prems"(4,5) r]
  have c': "is_canonical c'" using half_sum_dec [OF "2.prems"(1)] r by (simp add: c'_def next_claim_def)
  have "length cs' = length rs \<and> length es' = length rs \<and> af = bind_all (bind_low a r) rs \<and> (c' # cs') ! length rs = af ! 0
    \<and> (\<forall>i<length rs. fe_add (fst (es' ! i)) (fst (snd (es' ! i))) = (c' # cs') ! i
        \<and> next_claim 1 (rs ! i) (es' ! i) = cs' ! i)"
    using "2.prems"(2,3) bind_low_dec [OF "2.prems"(1) r] c' k(2) e
    by (intro "2.IH" [OF refl refl refl refl]) (simp_all add: c'_def)
  then show ?case
    unfolding f using k(1) by (auto simp: less_Suc_eq_0_disj bind_all_def c'_def)
qed

lemma open_rounds_2_complete:
  "list_all is_canonical a \<Longrightarrow> length a = 2 ^ length rs \<Longrightarrow> list_all is_canonical b \<Longrightarrow> length b = length a \<Longrightarrow>
    list_all is_canonical rs \<Longrightarrow> is_canonical c \<Longrightarrow> fe_dec c = (\<Sum>j<length a. fe_dec (a ! j) * fe_dec (b ! j)) \<Longrightarrow>
    open_rounds_2 rs a b = (cs, es, af, bf) \<Longrightarrow>
    length cs = length rs \<and> length es = length rs \<and> af = bind_all a rs \<and> bf = bind_all b rs
    \<and> (c # cs) ! length rs = fe_mul (af ! 0) (bf ! 0)
    \<and> (\<forall>i<length rs. fe_add (fst (es ! i)) (fst (snd (es ! i))) = (c # cs) ! i
        \<and> next_claim 2 (rs ! i) (es ! i) = cs ! i)"
proof (induction rs a b arbitrary: c cs es af bf rule: open_rounds_2.induct)
  case (1 a b)
  then have "is_canonical (a ! 0)" "is_canonical (b ! 0)" "fe_dec c = fe_dec (a ! 0) * fe_dec (b ! 0)"
    by (simp_all add: list_all_length)
  then show ?case using 1 by (auto simp: bind_all_def fe_dec_ops intro!: fe_eqI)
next
  case (2 r rs a b)
  let ?p0 = "half_prod a b 0" and ?p1 = "half_prod a b 1" and ?p2 = "prod_at_two a b"
  define c' where "c' = lag2 r ?p0 ?p1 ?p2"
  obtain cs' es' where e: "open_rounds_2 rs (bind_low a r) (bind_low b r) = (cs', es', af, bf)"
    and f: "cs = c' # cs'" "es = (?p0, ?p1, ?p2) # es'"
    using "2.prems"(8) by (auto simp: Let_def c'_def split: prod.splits)
  have r: "is_canonical r" using "2.prems"(5) by simp
  have a2: "length a = 2 ^ Suc (length rs)" using "2.prems"(2) by simp
  note k = round_2_claim [OF "2.prems"(1) a2 "2.prems"(3,4,6,7) r]
  have "length cs' = length rs \<and> length es' = length rs \<and> af = bind_all (bind_low a r) rs \<and> bf = bind_all (bind_low b r) rs
    \<and> (c' # cs') ! length rs = fe_mul (af ! 0) (bf ! 0)
    \<and> (\<forall>i<length rs. fe_add (fst (es' ! i)) (fst (snd (es' ! i))) = (c' # cs') ! i
        \<and> next_claim 2 (rs ! i) (es' ! i) = cs' ! i)"
    using "2.prems"(2,4,5) bind_low_dec [OF "2.prems"(1) r] bind_low_dec [OF "2.prems"(3) r] k(2,3) e
    by (intro "2.IH" [OF refl refl refl]) (simp_all add: c'_def)
  then show ?case
    unfolding f using k(1) by (auto simp: less_Suc_eq_0_disj bind_all_def c'_def next_claim_def)
qed

lemma table_head_bind:
  assumes "list_all is_canonical a" "list_all is_canonical rs" "length a = 2 ^ length rs"
  shows "table_head (bind_all a rs) = direct_eval a rs" and "bind_all a rs ! 0 = direct_eval a rs"
  using bind_all_eval [OF assms] by (auto simp: table_head_def)

text \<open>The opening of a table is accepted and carries the evaluation of its extension at the derived point.\<close>

lemma open_1_accepted:
  assumes a: "list_all is_canonical a" "length a = 2 ^ n" and n: "n < 32"
  shows "pcs_verify (open_1 a) (pcs_commit a) = n"
    and "po_nv (open_1 a) = n"
    and "po_fa (open_1 a) = direct_eval a (derive_points (pcs_commit a) n)"
proof -
  let ?r = "derive_points (pcs_commit a) n"
  obtain cs es af where e: "open_rounds_1 ?r a = (cs, es, af)" by (cases "open_rounds_1 ?r a") auto
  have a2: "length a = 2 ^ length ?r" using a by (simp add: canonical_points)
  note k = open_rounds_1_complete [OF a(1) a2 canonical_points(1) total_dec [OF a(1)] e]
  have O1: "open_1 a = \<lparr>po_nv = n, po_d = 1, po_claims = total a # cs, po_evals = es, po_fa = table_head af, po_fb = fe_zero\<rparr>"
    by (simp add: open_1_def Let_def e table_vars_pow [OF a(2)] canonical_points(2))
  have h: "table_head af = af ! 0" "table_head af = direct_eval a ?r"
    using k table_head_bind [OF a(1) canonical_points(1) a2] by simp_all
  show "po_nv (open_1 a) = n" "po_fa (open_1 a) = direct_eval a ?r" by (simp_all add: O1 h(2))
  have "n < 2 ^ 32" using n by (meson less_exp less_trans power_strict_increasing_iff one_less_numeral_iff semiring_norm(76))
  then have "verify_rounds (open_1 a) ?r = po_nv (open_1 a)"
    using k n canonical_points(2) [of "pcs_commit a" n] h(1)
    by (subst verify_rounds_accepts)
      (auto simp: O1 final_ok_def open_round_ok_def PCS_REJECT_FINAL_def case_prod_beta)
  then show "pcs_verify (open_1 a) (pcs_commit a) = n" by (simp add: pcs_verify_def O1)
qed

lemma open_2_with_accepted:
  assumes a: "list_all is_canonical a" "length a = 2 ^ n" and b: "list_all is_canonical b" "length b = 2 ^ n"
    and r: "list_all is_canonical r" "length r = n" and n: "n < 32"
  shows "verify_rounds (open_2_with a b r) r = n"
    and "po_nv (open_2_with a b r) = n" and "po_fa (open_2_with a b r) = direct_eval a r"
    and "po_fb (open_2_with a b r) = direct_eval b r"
    and "length (po_claims (open_2_with a b r)) = Suc n" and "po_claims (open_2_with a b r) ! 0 = inner_total a b"
    and "length (po_evals (open_2_with a b r)) = n" and "po_d (open_2_with a b r) = 2"
proof -
  obtain cs es af bf where e: "open_rounds_2 r a b = (cs, es, af, bf)" by (cases "open_rounds_2 r a b") auto
  have a2: "length a = 2 ^ length r" "length b = 2 ^ length r" "length b = length a" using a b r by simp_all
  note k = open_rounds_2_complete [OF a(1) a2(1) b(1) a2(3) r(1) inner_total_dec [OF a(1) b(1) a2(3)] e]
  have O1: "open_2_with a b r = \<lparr>po_nv = n, po_d = 2, po_claims = inner_total a b # cs, po_evals = es,
      po_fa = table_head af, po_fb = table_head bf\<rparr>"
    by (simp add: open_2_with_def e r(2))
  have h: "table_head af = af ! 0" "table_head af = direct_eval a r" "table_head bf = bf ! 0" "table_head bf = direct_eval b r"
    using k table_head_bind [OF a(1) r(1) a2(1)] table_head_bind [OF b(1) r(1) a2(2)] by simp_all
  show "po_nv (open_2_with a b r) = n" "po_fa (open_2_with a b r) = direct_eval a r"
    "po_fb (open_2_with a b r) = direct_eval b r" "length (po_claims (open_2_with a b r)) = Suc n"
    "po_claims (open_2_with a b r) ! 0 = inner_total a b" "length (po_evals (open_2_with a b r)) = n" "po_d (open_2_with a b r) = 2"
    using k r(2) h(2,4) by (simp_all add: O1)
  show "verify_rounds (open_2_with a b r) r = n"
    using k n r(2) h verify_rounds_accepts [of "open_2_with a b r" r]
    by (auto simp: O1 final_ok_def open_round_ok_def PCS_REJECT_FINAL_def case_prod_beta)
qed

lemma open_2_accepted:
  assumes a: "list_all is_canonical a" "length a = 2 ^ n" and b: "list_all is_canonical b" "length b = 2 ^ n" and n: "n < 32"
  shows "pcs_verify (open_2 a b) (pcs_commit (a @ b)) = n"
proof -
  have "open_2 a b = open_2_with a b (derive_points (pcs_commit (a @ b)) n)"
    using a(2) top_bit_pow [of n] by (cases n) (simp_all add: open_2_def Let_def)
  moreover note k = open_2_with_accepted [OF a b canonical_points n, of "pcs_commit (a @ b)"]
  ultimately show ?thesis by (auto simp: pcs_verify_def)
qed

lemma open_2_at_accepted:
  assumes a: "list_all is_canonical a" "length a = 2 ^ n" and b: "list_all is_canonical b" "length b = 2 ^ n"
    and r: "list_all is_canonical r" "length r = n" and n: "n < 32"
  shows "verify_at (open_2_at a b r) (inner_total a b) r = n"
proof -
  have "open_2_at a b r = open_2_with a b r" using a b r by (simp add: open_2_at_def)
  then show ?thesis
    using open_2_with_accepted [OF a b r n] r(2) by (auto simp: verify_at_def)
qed

subsection \<open>Well-formed openings\<close>

definition opening_wf :: "Opening \<Rightarrow> bool" where
  "opening_wf O1 \<longleftrightarrow> po_nv O1 < 2 ^ 32 - 1 \<and> po_d O1 < 2 ^ 32
     \<and> length (po_claims O1) = po_nv O1 + 1 \<and> length (po_evals O1) = po_nv O1
     \<and> list_all is_canonical (po_claims O1)
     \<and> list_all (\<lambda>(e0, e1, e2). is_canonical e0 \<and> is_canonical e1 \<and> is_canonical e2) (po_evals O1)
     \<and> is_canonical (po_fa O1) \<and> is_canonical (po_fb O1)"

lemma open_rounds_1_canon:
  "list_all is_canonical a \<Longrightarrow> list_all is_canonical rs \<Longrightarrow> open_rounds_1 rs a = (cs, es, af) \<Longrightarrow>
    length cs = length rs \<and> length es = length rs \<and> list_all is_canonical cs \<and> list_all is_canonical af
    \<and> list_all (\<lambda>(e0, e1, e2). is_canonical e0 \<and> is_canonical e1 \<and> is_canonical e2) es"
proof (induction rs a arbitrary: cs es af rule: open_rounds_1.induct)
  case (2 r rs a)
  obtain cs' es' where e: "open_rounds_1 rs (bind_low a r) = (cs', es', af)"
    "cs = fe_add (fe_mul (half_sum a 0) (fe_sub fe_one r)) (fe_mul (half_sum a 1) r) # cs'"
    "es = (half_sum a 0, half_sum a 1, fe_zero) # es'"
    using "2.prems"(3) by (auto simp: Let_def split: prod.splits)
  have r: "is_canonical r" "list_all is_canonical rs" using "2.prems"(2) by simp_all
  show ?case
    using "2.IH" [OF refl refl refl refl bind_low_dec(2) [OF "2.prems"(1) r(1)] r(2) e(1)] half_sum_dec(1) [OF "2.prems"(1)] r
    by (simp add: e)
qed simp

lemma open_rounds_2_canon:
  "list_all is_canonical a \<Longrightarrow> list_all is_canonical b \<Longrightarrow> length b = length a \<Longrightarrow> list_all is_canonical rs \<Longrightarrow>
    open_rounds_2 rs a b = (cs, es, af, bf) \<Longrightarrow>
    length cs = length rs \<and> length es = length rs \<and> list_all is_canonical cs
    \<and> list_all is_canonical af \<and> list_all is_canonical bf
    \<and> list_all (\<lambda>(e0, e1, e2). is_canonical e0 \<and> is_canonical e1 \<and> is_canonical e2) es"
proof (induction rs a b arbitrary: cs es af bf rule: open_rounds_2.induct)
  case (2 r rs a b)
  let ?p0 = "half_prod a b 0" and ?p1 = "half_prod a b 1" and ?p2 = "prod_at_two a b"
  obtain cs' es' where e: "open_rounds_2 rs (bind_low a r) (bind_low b r) = (cs', es', af, bf)"
    "cs = lag2 r ?p0 ?p1 ?p2 # cs'" "es = (?p0, ?p1, ?p2) # es'"
    using "2.prems"(5) by (auto simp: Let_def split: prod.splits)
  have r: "is_canonical r" "list_all is_canonical rs" using "2.prems"(4) by simp_all
  have h: "is_canonical ?p0" "is_canonical ?p1" "is_canonical ?p2"
    using half_prod_dec(1) [OF "2.prems"(1-3)] prod_at_two_dec(1) [OF "2.prems"(1-3)] by simp_all
  have l: "length (bind_low b r) = length (bind_low a r)"
    using bind_low_dec(1) [OF "2.prems"(1) r(1)] bind_low_dec(1) [OF "2.prems"(2) r(1)] "2.prems"(3) by simp
  show ?case
    using "2.IH" [OF refl refl refl bind_low_dec(2) [OF "2.prems"(1) r(1)] bind_low_dec(2) [OF "2.prems"(2) r(1)] l r(2) e(1)]
      h lag2_dec(1) [OF r(1) h]
    by (simp add: e)
qed simp

lemma canonical_head: "list_all is_canonical a \<Longrightarrow> is_canonical (table_head a)"
  by (cases a) (simp_all add: table_head_def)

lemma open_1_wf:
  assumes a: "list_all is_canonical a" "length a = 2 ^ n" and n: "n < 32"
  shows "opening_wf (open_1 a)"
proof -
  let ?r = "derive_points (pcs_commit a) n"
  obtain cs es af where e: "open_rounds_1 ?r a = (cs, es, af)" by (cases "open_rounds_1 ?r a") auto
  note k = open_rounds_1_canon [OF a(1) canonical_points(1) e]
  show ?thesis
    using k n total_dec(1) [OF a(1)] canonical_head [of af] canonical_points(2) [of "pcs_commit a" n]
    by (simp add: opening_wf_def open_1_def Let_def e table_vars_pow [OF a(2)])
qed

lemma open_2_wf:
  assumes a: "list_all is_canonical a" "length a = 2 ^ n" and b: "list_all is_canonical b" "length b = 2 ^ n" and n: "n < 32"
  shows "opening_wf (open_2 a b)"
proof -
  let ?r = "derive_points (pcs_commit (a @ b)) n"
  have l: "length b = length a" using a b by simp
  obtain cs es af bf where e: "open_rounds_2 ?r a b = (cs, es, af, bf)" by (cases "open_rounds_2 ?r a b") auto
  note k = open_rounds_2_canon [OF a(1) b(1) l canonical_points(1) e]
  have "open_2 a b = open_2_with a b ?r"
    using a(2) top_bit_pow [of n] by (cases n) (simp_all add: open_2_def Let_def)
  then show ?thesis
    using k n inner_total_dec(1) [OF a(1) b(1) l] canonical_head [of af] canonical_head [of bf]
      canonical_points(2) [of "pcs_commit (a @ b)" n]
    by (simp add: opening_wf_def open_2_with_def e)
qed

end
