(* ===== verification/Whir.thy ===== *)
theory Whir
  imports Pcs Digest_Scalar
begin

text \<open>
  The wrap of an opening, \<open>src/include/hsma/whir.hpp\<close>: eight out-of-domain points derived from the
  commitment by SHA-256, the table and the point form of the equality polynomial, the evaluation by
  folding, the prover, the verifier with its stages, and the wire form, which leaves the points out.
\<close>

definition K_OOD :: nat where
  "K_OOD = 8"

subsection \<open>The equality polynomial\<close>

definition eq_step :: "fe list \<Rightarrow> fe \<Rightarrow> fe list" where
  "eq_step e t = (let omr = fe_sub fe_one t in concat (map (\<lambda>x. [fe_mul x omr, fe_mul x t]) e))"

definition eq_table :: "fe list \<Rightarrow> fe list" where
  "eq_table tau = foldl eq_step [fe_one] (rev tau)"

definition ood_eval :: "fe list \<Rightarrow> fe list \<Rightarrow> fe" where
  "ood_eval f tau = table_head (foldl bind_low f tau)"

definition eq_factor :: "fe \<Rightarrow> fe \<Rightarrow> fe" where
  "eq_factor t r =
     (let omr = fe_sub fe_one r; omt = fe_sub fe_one t
      in fe_add (fe_mul omr omt) (fe_mul r t))"

definition eq_point :: "fe list \<Rightarrow> fe list \<Rightarrow> fe" where
  "eq_point tau r = foldl (\<lambda>acc i. fe_mul acc (eq_factor (tau ! i) (r ! i))) fe_one [0..<length r]"

subsection \<open>The proof\<close>

record WhirProof =
  wp_C :: fe
  wp_ood_commit :: fe
  wp_C2 :: fe
  wp_v :: fe
  wp_fb_true :: fe
  wp_T1 :: Opening
  wp_T2 :: Opening
  wp_tau :: "fe list list"
  wp_ood :: "fe list"

definition whir_tau :: "fe \<Rightarrow> nat \<Rightarrow> nat \<Rightarrow> fe list" where
  "whir_tau C nv j =
     map (\<lambda>w. digest_scalar (sha_cat (''HSMA_WHIR_TAU|'' @ udec j @ ''|'' @ udec w) (fe_to_le_bytes C))) [0..<nv]"

definition whir_w :: "fe \<Rightarrow> nat \<Rightarrow> fe" where
  "whir_w oc j = digest_scalar (sha_cat (''HSMA_WHIR_W|'' @ udec j) (fe_to_le_bytes oc))"

definition wbar_step :: "fe list list \<Rightarrow> fe list \<Rightarrow> fe list \<Rightarrow> nat \<Rightarrow> fe list" where
  "wbar_step tau w Wbar j =
     (let e = eq_table (tau ! j)
      in map (\<lambda>i. fe_add (Wbar ! i) (fe_mul (w ! j) (e ! i))) [0..<length Wbar])"

definition wrap_open :: "fe list \<Rightarrow> WhirProof" where
  "wrap_open evals =
     (let nv = table_vars evals;
          C = pcs_commit evals;
          T1 = open_1 evals;
          tau = map (whir_tau C nv) [0..<K_OOD];
          ood = map (ood_eval evals) tau;
          oc = sponge_hash HSM_SUMCHECK_v1 ood;
          w = map (whir_w oc) [0..<K_OOD];
          Wbar = foldl (wbar_step tau w) (replicate (length evals) fe_zero) [0..<K_OOD];
          C2 = pcs_commit (evals @ Wbar);
          T2 = open_2 evals Wbar;
          ch = derive_points C2 nv
      in \<lparr>wp_C = C, wp_ood_commit = oc, wp_C2 = C2, wp_v = po_fa T1,
          wp_fb_true = table_head (foldl bind_low Wbar ch),
          wp_T1 = T1, wp_T2 = T2, wp_tau = tau, wp_ood = ood\<rparr>)"

text \<open>The verdict and the stage that failed, 0 when none did.\<close>

definition whir_fb :: "fe \<Rightarrow> fe \<Rightarrow> nat \<Rightarrow> fe list \<Rightarrow> fe" where
  "whir_fb C oc nv r2 = foldl (\<lambda>fbv j. fe_add fbv (fe_mul (whir_w oc j) (eq_point (whir_tau C nv j) r2))) fe_zero [0..<K_OOD]"

definition wrap_verify :: "WhirProof \<Rightarrow> nat \<Rightarrow> bool \<times> nat" where
  "wrap_verify P nv =
     (if pcs_verify (wp_T1 P) (wp_C P) \<noteq> nv then (False, 1)
      else if wp_v P \<noteq> po_fa (wp_T1 P) then (False, 2)
      else if sponge_hash HSM_SUMCHECK_v1 (map (\<lambda>j. wp_ood P ! j) [0..<K_OOD]) \<noteq> wp_ood_commit P then (False, 3)
      else if pcs_verify (wp_T2 P) (wp_C2 P) \<noteq> nv then (False, 4)
      else if po_fb (wp_T2 P) \<noteq> whir_fb (wp_C P) (wp_ood_commit P) nv (derive_points (wp_C2 P) nv) then (False, 5)
      else (True, 0))"

subsection \<open>The wire form\<close>

definition opening_wire_size :: "Opening \<Rightarrow> nat" where
  "opening_wire_size O1 = 4 + 4 + (po_nv O1 + 1) * 32 + po_nv O1 * 3 * 32 + (32 + 32)"

definition wire_size :: "WhirProof \<Rightarrow> nat" where
  "wire_size P = 5 * 32 + opening_wire_size (wp_T1 P) + opening_wire_size (wp_T2 P) + K_OOD * 32"

definition put_opening :: "Opening \<Rightarrow> bytes" where
  "put_opening O1 =
     le_bytes 4 (of_nat (po_nv O1) :: u32) @ le_bytes 4 (of_nat (po_d O1) :: u32)
     @ concat (map fe_to_le_bytes (po_claims O1))
     @ concat (map (\<lambda>(e0, e1, e2). fe_to_le_bytes e0 @ fe_to_le_bytes e1 @ fe_to_le_bytes e2) (po_evals O1))
     @ fe_to_le_bytes (po_fa O1) @ fe_to_le_bytes (po_fb O1)"

definition wire_encode :: "WhirProof \<Rightarrow> bytes" where
  "wire_encode P =
     fe_to_le_bytes (wp_C P) @ fe_to_le_bytes (wp_ood_commit P) @ fe_to_le_bytes (wp_C2 P)
     @ fe_to_le_bytes (wp_v P) @ fe_to_le_bytes (wp_fb_true P)
     @ put_opening (wp_T1 P) @ put_opening (wp_T2 P)
     @ concat (map (\<lambda>j. fe_to_le_bytes (wp_ood P ! j)) [0..<K_OOD])"

text \<open>The readers take the bytes from the offset on and give back those after what they read.\<close>

definition get_fe :: "bytes \<Rightarrow> (fe \<times> bytes) option" where
  "get_fe d =
     (if length d < 32 then None
      else let r = fe_from_le_bytes (take 32 d)
           in if \<not> ffb_ok r then None else Some (ffb_value r, drop 32 d))"

fun get_fes :: "nat \<Rightarrow> bytes \<Rightarrow> (fe list \<times> bytes) option" where
  "get_fes 0 d = Some ([], d)"
| "get_fes (Suc n) d =
     (case get_fe d of None \<Rightarrow> None
      | Some (x, d1) \<Rightarrow> (case get_fes n d1 of None \<Rightarrow> None | Some (xs, d2) \<Rightarrow> Some (x # xs, d2)))"

fun get_rounds :: "nat \<Rightarrow> bytes \<Rightarrow> ((fe \<times> fe \<times> fe) list \<times> bytes) option" where
  "get_rounds 0 d = Some ([], d)"
| "get_rounds (Suc n) d =
     (case get_fes 3 d of None \<Rightarrow> None
      | Some (x, d1) \<Rightarrow>
          (case get_rounds n d1 of None \<Rightarrow> None | Some (es, d2) \<Rightarrow> Some ((x ! 0, x ! 1, x ! 2) # es, d2)))"

definition get4 :: "bytes \<Rightarrow> (u32 \<times> bytes) option" where
  "get4 d = (if length d < 4 then None else Some (le_word (take 4 d), drop 4 d))"

text \<open>The number of claims is \<open>nv + 1\<close> in 32 bits.\<close>

definition get_opening :: "bytes \<Rightarrow> (Opening \<times> bytes) option" where
  "get_opening d0 =
     (case get4 d0 of None \<Rightarrow> None | Some (nv, d1) \<Rightarrow>
      (case get4 d1 of None \<Rightarrow> None | Some (dd, d2) \<Rightarrow>
       (case get_fes (unat (nv + 1)) d2 of None \<Rightarrow> None | Some (cs, d3) \<Rightarrow>
        (case get_rounds (unat nv) d3 of None \<Rightarrow> None | Some (es, d4) \<Rightarrow>
         (case get_fes 2 d4 of None \<Rightarrow> None | Some (f, d5) \<Rightarrow>
            Some (\<lparr>po_nv = unat nv, po_d = unat dd, po_claims = cs, po_evals = es, po_fa = f ! 0, po_fb = f ! 1\<rparr>, d5))))))"

definition wire_decode :: "bytes \<Rightarrow> WhirProof option" where
  "wire_decode d0 =
     (case get_fes 5 d0 of None \<Rightarrow> None | Some (h, d1) \<Rightarrow>
      (case get_opening d1 of None \<Rightarrow> None | Some (T1, d2) \<Rightarrow>
       (case get_opening d2 of None \<Rightarrow> None | Some (T2, d3) \<Rightarrow>
        (case get_fes K_OOD d3 of None \<Rightarrow> None | Some (ood, d4) \<Rightarrow>
           if d4 \<noteq> [] then None
           else Some \<lparr>wp_C = h ! 0, wp_ood_commit = h ! 1, wp_C2 = h ! 2, wp_v = h ! 3, wp_fb_true = h ! 4,
                      wp_T1 = T1, wp_T2 = T2, wp_tau = map (whir_tau (h ! 0) (po_nv T1)) [0..<K_OOD], wp_ood = ood\<rparr>))))"

subsection \<open>The weights of the cube\<close>

definition cube_weight :: "fe list \<Rightarrow> nat \<Rightarrow> pallas" where
  "cube_weight r idx = (\<Prod>v<length r. if bit idx v then fe_dec (r ! v) else 1 - fe_dec (r ! v))"

lemma cube_weight_Nil [simp]: "cube_weight [] idx = 1"
  by (simp add: cube_weight_def)

lemma cube_weight_Cons:
  "cube_weight (t # r) (2 * j) = (1 - fe_dec t) * cube_weight r j"
  "cube_weight (t # r) (2 * j + 1) = fe_dec t * cube_weight r j"
  by (simp_all add: cube_weight_def prod.lessThan_Suc_shift bit_double bit_0 del: prod.lessThan_Suc cong: if_cong)

lemma direct_eval_weight:
  "list_all is_canonical a \<Longrightarrow> list_all is_canonical r \<Longrightarrow>
    fe_dec (direct_eval a r) = (\<Sum>idx<length a. fe_dec (a ! idx) * cube_weight r idx)"
  by (simp add: direct_eval_dec(2) cube_weight_def)

lemma concat_pairs:
  "length (concat (map (\<lambda>x. [f x, g x]) e)) = 2 * length e"
  "j < length e \<Longrightarrow> concat (map (\<lambda>x. [f x, g x]) e) ! (2 * j) = f (e ! j)"
  "j < length e \<Longrightarrow> concat (map (\<lambda>x. [f x, g x]) e) ! (2 * j + 1) = g (e ! j)"
proof -
  show "length (concat (map (\<lambda>x. [f x, g x]) e)) = 2 * length e" by (induction e) simp_all
  show "j < length e \<Longrightarrow> concat (map (\<lambda>x. [f x, g x]) e) ! (2 * j) = f (e ! j)"
    by (induction e arbitrary: j) (auto simp: less_Suc_eq_0_disj)
  show "j < length e \<Longrightarrow> concat (map (\<lambda>x. [f x, g x]) e) ! (2 * j + 1) = g (e ! j)"
    by (induction e arbitrary: j) (auto simp: less_Suc_eq_0_disj)
qed

lemma eq_table_dec:
  "list_all is_canonical tau \<Longrightarrow>
    length (eq_table tau) = 2 ^ length tau \<and> list_all is_canonical (eq_table tau)
    \<and> (\<forall>idx < 2 ^ length tau. fe_dec (eq_table tau ! idx) = cube_weight tau idx)"
proof (induction tau)
  case Nil
  then show ?case by (simp add: eq_table_def fe_dec_one)
next
  case (Cons t tau)
  let ?e = "eq_table tau"
  have e: "eq_table (t # tau) = concat (map (\<lambda>x. [fe_mul x (fe_sub fe_one t), fe_mul x t]) ?e)"
    by (simp add: eq_table_def eq_step_def Let_def)
  have t: "is_canonical t" and IH: "length ?e = 2 ^ length tau" "\<forall>x \<in> set ?e. is_canonical x"
    "\<forall>idx < 2 ^ length tau. fe_dec (?e ! idx) = cube_weight tau idx"
    using Cons by (simp_all add: list_all_iff)
  have "fe_dec (eq_table (t # tau) ! idx) = cube_weight (t # tau) idx" if i: "idx < 2 ^ Suc (length tau)" for idx
  proof -
    have j: "idx div 2 < length ?e" using i IH(1) by simp
    then have c: "is_canonical (?e ! (idx div 2))" using IH(2) by simp
    consider "idx = 2 * (idx div 2)" | "idx = 2 * (idx div 2) + 1" by linarith
    then show ?thesis
    proof cases
      case 1
      have "fe_dec (eq_table (t # tau) ! (2 * (idx div 2))) = cube_weight (t # tau) (2 * (idx div 2))"
        unfolding e concat_pairs(2) [OF j] cube_weight_Cons(1)
        using j IH c t by (simp add: fe_dec_ops mult.commute)
      then show ?thesis using 1 by simp
    next
      case 2
      have "fe_dec (eq_table (t # tau) ! (2 * (idx div 2) + 1)) = cube_weight (t # tau) (2 * (idx div 2) + 1)"
        unfolding e concat_pairs(3) [OF j] cube_weight_Cons(2)
        using j IH c t by (simp add: fe_dec_ops mult.commute)
      then show ?thesis using 2 by simp
    qed
  qed
  then show ?case
    using IH t by (simp add: e concat_pairs(1) list_all_iff)
qed

lemma eq_point_dec:
  assumes "list_all is_canonical tau" "list_all is_canonical r" "length r = length tau"
  shows "is_canonical (eq_point tau r)"
    and "fe_dec (eq_point tau r) = (\<Prod>i<length r. (1 - fe_dec (r ! i)) * (1 - fe_dec (tau ! i)) + fe_dec (r ! i) * fe_dec (tau ! i))"
  unfolding eq_point_def
  using fe_foldl_prod [of fe_one "[0..<length r]" "\<lambda>i. eq_factor (tau ! i) (r ! i)"] assms
  by (simp_all add: list_all_length eq_factor_def fe_dec_ops prod_list_upt)

lemma cube_product:
  "length r = length tau \<Longrightarrow> (\<Sum>idx<2 ^ length tau. cube_weight tau idx * cube_weight r idx)
    = (\<Prod>i<length r. (1 - fe_dec (r ! i)) * (1 - fe_dec (tau ! i)) + fe_dec (r ! i) * fe_dec (tau ! i))"
proof (induction tau arbitrary: r)
  case (Cons t tau)
  then obtain x xs where r: "r = x # xs" "length xs = length tau" by (cases r) auto
  let ?S = "\<Sum>j<2 ^ length tau. cube_weight tau j * cube_weight xs j"
  have "(\<Sum>idx<2 ^ length (t # tau). cube_weight (t # tau) idx * cube_weight (x # xs) idx)
      = (\<Sum>j<2 ^ length tau. ((1 - fe_dec t) * cube_weight tau j) * ((1 - fe_dec x) * cube_weight xs j))
      + (\<Sum>j<2 ^ length tau. (fe_dec t * cube_weight tau j) * (fe_dec x * cube_weight xs j))"
    unfolding cube_weight_Cons [symmetric]
    using sum_even_odd [of "\<lambda>idx. cube_weight (t # tau) idx * cube_weight (x # xs) idx" "2 ^ length tau"] by simp
  also have "\<dots> = ((1 - fe_dec x) * (1 - fe_dec t) + fe_dec x * fe_dec t) * ?S"
    unfolding distrib_right sum_distrib_left by (simp add: mult_ac sum.distrib)
  finally show ?case
    using Cons.IH [of xs] r by (simp add: prod.lessThan_Suc_shift del: prod.lessThan_Suc)
qed simp

text \<open>The folding evaluation is the inner product with the table.\<close>

lemma ood_eval_direct:
  assumes "list_all is_canonical f" "list_all is_canonical tau" "length f = 2 ^ length tau"
  shows "ood_eval f tau = direct_eval f tau"
  using table_head_bind [OF assms] by (simp add: ood_eval_def bind_all_def)

lemma ood_eval_table:
  assumes "list_all is_canonical f" "list_all is_canonical tau" "length f = 2 ^ length tau"
  shows "ood_eval f tau = inner_total f (eq_table tau)"
proof (rule fe_eqI)
  note e = eq_table_dec [OF assms(2)]
  have l: "length (eq_table tau) = length f" using e assms(3) by simp
  show "is_canonical (ood_eval f tau)" using ood_eval_direct [OF assms] direct_eval_dec(1) assms by simp
  show "is_canonical (inner_total f (eq_table tau))" using inner_total_dec(1) [OF assms(1) _ l] e by simp
  show "fe_dec (ood_eval f tau) = fe_dec (inner_total f (eq_table tau))"
    using inner_total_dec(2) [OF assms(1) _ l] e ood_eval_direct [OF assms] direct_eval_weight [OF assms(1,2)] assms(3)
    by simp
qed

subsection \<open>The honest proof is accepted\<close>

lemma canonical_tau [simp]: "list_all is_canonical (whir_tau C nv j)" "length (whir_tau C nv j) = nv"
  by (simp_all add: whir_tau_def list_all_iff)

lemma canonical_w [simp]: "is_canonical (whir_w oc j)"
  by (simp add: whir_w_def)

lemma wbar_dec:
  assumes "\<And>j. j < k \<Longrightarrow> list_all is_canonical (tau ! j) \<and> length (tau ! j) = n" and "\<And>j. j < k \<Longrightarrow> is_canonical (w ! j)"
  defines "G \<equiv> foldl (wbar_step tau w) (replicate (2 ^ n) fe_zero) [0..<k]"
  shows "length G = 2 ^ n \<and> (\<forall>i < 2 ^ n. is_canonical (G ! i)
    \<and> fe_dec (G ! i) = (\<Sum>j<k. fe_dec (w ! j) * cube_weight (tau ! j) i))"
  unfolding G_def using assms(1,2)
proof (induction k)
  case 0
  then show ?case by (simp add: fe_dec_zero)
next
  case (Suc k)
  have e: "length (eq_table (tau ! k)) = 2 ^ n" "list_all is_canonical (eq_table (tau ! k))"
    "\<forall>i < 2 ^ n. fe_dec (eq_table (tau ! k) ! i) = cube_weight (tau ! k) i"
    using eq_table_dec [of "tau ! k"] Suc.prems(1) [of k] by auto
  have "is_canonical (w ! k)" using Suc.prems(2) by simp
  then show ?case
    using Suc.IH Suc.prems e by (simp add: wbar_step_def Let_def fe_dec_ops list_all_length)
qed

lemma wbar_fold:
  assumes "\<And>j. j < K_OOD \<Longrightarrow> tau ! j = whir_tau C n j" and "\<And>j. j < K_OOD \<Longrightarrow> w ! j = whir_w oc j"
    and r: "list_all is_canonical r" "length r = n"
  defines "G \<equiv> foldl (wbar_step tau w) (replicate (2 ^ n) fe_zero) [0..<K_OOD]"
  shows "list_all is_canonical G" and "length G = 2 ^ n" and "direct_eval G r = whir_fb C oc n r"
proof -
  have G: "length G = 2 ^ n \<and> (\<forall>i < 2 ^ n. is_canonical (G ! i)
      \<and> fe_dec (G ! i) = (\<Sum>j<K_OOD. fe_dec (w ! j) * cube_weight (tau ! j) i))"
    unfolding G_def by (rule wbar_dec) (simp_all add: assms)
  then show c: "list_all is_canonical G" and l: "length G = 2 ^ n" by (simp_all add: list_all_length)
  have fb: "is_canonical (whir_fb C oc n r)" "fe_dec (whir_fb C oc n r)
      = (\<Sum>j<K_OOD. fe_dec (whir_w oc j) * fe_dec (eq_point (whir_tau C n j) r))"
    unfolding whir_fb_def
    using fe_foldl_sum [of fe_zero "[0..<K_OOD]" "\<lambda>j. fe_mul (whir_w oc j) (eq_point (whir_tau C n j) r)"]
      eq_point_dec(1) r
    by (simp_all add: fe_dec_ops sum_list_upt)
  have "fe_dec (direct_eval G r) = (\<Sum>i<2 ^ n. (\<Sum>j<K_OOD. fe_dec (w ! j) * cube_weight (tau ! j) i) * cube_weight r i)"
    using direct_eval_weight [OF c r(1)] G by simp
  also have "\<dots> = (\<Sum>j<K_OOD. fe_dec (w ! j) * (\<Sum>i<2 ^ n. cube_weight (tau ! j) i * cube_weight r i))"
    unfolding sum_distrib_right sum_distrib_left mult.assoc by (rule sum.swap)
  also have "\<dots> = fe_dec (whir_fb C oc n r)"
    unfolding fb(2)
  proof (intro sum.cong refl)
    fix j assume "j \<in> {..<K_OOD}"
    then show "fe_dec (w ! j) * (\<Sum>i<2 ^ n. cube_weight (tau ! j) i * cube_weight r i)
        = fe_dec (whir_w oc j) * fe_dec (eq_point (whir_tau C n j) r)"
      using assms(1,2) [of j] cube_product [of r "whir_tau C n j"] eq_point_dec(2) [of "whir_tau C n j" r] r by simp
  qed
  finally show "direct_eval G r = whir_fb C oc n r" using fb(1) direct_eval_dec(1) [OF c r(1)] by (intro fe_eqI)
qed

lemma wrap_accepted:
  assumes a: "list_all is_canonical a" "length a = 2 ^ n" and n: "n < 32"
  shows "wrap_verify (wrap_open a) n = (True, 0)"
proof -
  define C where "C = pcs_commit a"
  define tau where "tau = map (whir_tau C n) [0..<K_OOD]"
  define oc where "oc = sponge_hash HSM_SUMCHECK_v1 (map (ood_eval a) tau)"
  define w where "w = map (whir_w oc) [0..<K_OOD]"
  define G where "G = foldl (wbar_step tau w) (replicate (2 ^ n) fe_zero) [0..<K_OOD]"
  define C2 where "C2 = pcs_commit (a @ G)"
  let ?P = "wrap_open a"
  have P: "wp_C ?P = C" "wp_ood_commit ?P = oc" "wp_C2 ?P = C2" "wp_v ?P = po_fa (wp_T1 ?P)"
    "wp_T1 ?P = open_1 a" "wp_T2 ?P = open_2 a G" "wp_ood ?P = map (ood_eval a) tau"
    by (simp_all add: wrap_open_def Let_def table_vars_pow [OF a(2)] a(2) C_def tau_def oc_def w_def G_def C2_def)
  have r: "list_all is_canonical (derive_points C2 n)" "length (derive_points C2 n) = n" by (rule canonical_points)+
  have g: "list_all is_canonical G" "length G = 2 ^ n" "direct_eval G (derive_points C2 n) = whir_fb C oc n (derive_points C2 n)"
    unfolding G_def by (rule wbar_fold [OF _ _ r], simp_all add: tau_def w_def)+
  have "open_2 a G = open_2_with a G (derive_points C2 n)"
    using a(2) top_bit_pow [of n] by (cases n) (simp_all add: open_2_def Let_def C2_def)
  then have "po_fb (open_2 a G) = whir_fb C oc n (derive_points C2 n)"
    using open_2_with_accepted(4) [OF a g(1,2) r n] g(3) by simp
  moreover have "map (\<lambda>j. map (ood_eval a) tau ! j) [0..<K_OOD] = map (ood_eval a) tau"
    by (rule nth_equalityI) (simp_all add: tau_def)
  ultimately show ?thesis
    using open_1_accepted(1) [OF a n] open_2_accepted [OF a g(1,2) n]
    by (simp add: wrap_verify_def P oc_def [symmetric] C_def [symmetric] C2_def [symmetric])
qed

subsection \<open>The wire form is read back\<close>

lemma length_fe_bytes [simp]: "length (fe_to_le_bytes x) = 32"
  by (cases "fe_to_canonical x") (simp add: fe_to_le_bytes_def limbs_to_bytes_def)

lemma get_fe_put: "is_canonical x \<Longrightarrow> get_fe (fe_to_le_bytes x @ d) = Some (x, d)"
  by (simp add: get_fe_def fe_from_to_bytes)

lemma get_fes_put:
  "list_all is_canonical xs \<Longrightarrow> get_fes (length xs) (concat (map fe_to_le_bytes xs) @ d) = Some (xs, d)"
  by (induction xs) (simp_all add: get_fe_put)

lemma get_rounds_put:
  "list_all (\<lambda>(e0, e1, e2). is_canonical e0 \<and> is_canonical e1 \<and> is_canonical e2) es \<Longrightarrow>
    get_rounds (length es)
      (concat (map (\<lambda>(e0, e1, e2). fe_to_le_bytes e0 @ fe_to_le_bytes e1 @ fe_to_le_bytes e2) es) @ d) = Some (es, d)"
proof (induction es)
  case (Cons e es)
  obtain e0 e1 e2 where e: "e = (e0, e1, e2)" by (metis prod.collapse)
  have "get_fes 3 (fe_to_le_bytes e0 @ fe_to_le_bytes e1 @ fe_to_le_bytes e2 @ y) = Some ([e0, e1, e2], y)" for y
    using get_fes_put [of "[e0, e1, e2]" y] Cons.prems by (simp add: e eval_nat_numeral)
  then show ?case using Cons by (simp add: e)
qed simp

lemma get_opening_put:
  assumes "opening_wf O1"
  shows "get_opening (put_opening O1 @ d) = Some (O1, d)"
proof -
  have n: "unat (of_nat (po_nv O1) :: u32) = po_nv O1" "unat (of_nat (po_d O1) :: u32) = po_d O1"
    "unat (of_nat (Suc (po_nv O1)) :: u32) = length (po_claims O1)"
    using assms by (simp_all add: opening_wf_def unat_of_nat take_bit_nat_eq_self del: of_nat_Suc)
  have n3: "unat (of_nat (po_nv O1) + 1 :: u32) = length (po_claims O1)"
    using n(3) unfolding of_nat_Suc add.commute [of "1 :: u32"] .
  have g4: "get4 (le_bytes 4 (v :: u32) @ y) = Some (v, y)" for v y by (simp add: get4_def codec_u32)
  have cs: "get_fes (length (po_claims O1)) (concat (map fe_to_le_bytes (po_claims O1)) @ y) = Some (po_claims O1, y)" for y
    using assms by (intro get_fes_put) (simp add: opening_wf_def)
  have es: "get_rounds (po_nv O1) (concat (map (\<lambda>(e0, e1, e2). fe_to_le_bytes e0 @ fe_to_le_bytes e1 @ fe_to_le_bytes e2) (po_evals O1)) @ y)
      = Some (po_evals O1, y)" for y
    using assms get_rounds_put [of "po_evals O1" y] by (simp add: opening_wf_def)
  have c: "is_canonical (po_fa O1)" "is_canonical (po_fb O1)" using assms by (simp_all add: opening_wf_def)
  have f: "get_fes 2 (fe_to_le_bytes (po_fa O1) @ fe_to_le_bytes (po_fb O1) @ y) = Some ([po_fa O1, po_fb O1], y)" for y
    using c get_fes_put [of "[po_fa O1, po_fb O1]" y] by (simp add: eval_nat_numeral)
  show ?thesis
    unfolding get_opening_def put_opening_def append_assoc
    by (simp only: g4 n(1,2) n3 cs es f option.case prod.case) simp
qed

definition whir_wf :: "WhirProof \<Rightarrow> bool" where
  "whir_wf P \<longleftrightarrow> opening_wf (wp_T1 P) \<and> opening_wf (wp_T2 P) \<and> is_canonical (wp_C P) \<and> is_canonical (wp_ood_commit P)
     \<and> is_canonical (wp_C2 P) \<and> is_canonical (wp_v P) \<and> is_canonical (wp_fb_true P)
     \<and> length (wp_ood P) = K_OOD \<and> list_all is_canonical (wp_ood P)"

lemma wire_decode_encode:
  assumes "whir_wf P"
  shows "wire_decode (wire_encode P) = Some (P\<lparr>wp_tau := map (whir_tau (wp_C P) (po_nv (wp_T1 P))) [0..<K_OOD]\<rparr>)"
proof -
  have h: "get_fes 5 (fe_to_le_bytes (wp_C P) @ fe_to_le_bytes (wp_ood_commit P) @ fe_to_le_bytes (wp_C2 P)
      @ fe_to_le_bytes (wp_v P) @ fe_to_le_bytes (wp_fb_true P) @ y)
      = Some ([wp_C P, wp_ood_commit P, wp_C2 P, wp_v P, wp_fb_true P], y)" for y
    using assms get_fes_put [of "[wp_C P, wp_ood_commit P, wp_C2 P, wp_v P, wp_fb_true P]" y]
    by (simp add: whir_wf_def eval_nat_numeral)
  have "map (\<lambda>j. fe_to_le_bytes (wp_ood P ! j)) [0..<K_OOD] = map fe_to_le_bytes (wp_ood P)"
    using assms by (intro nth_equalityI) (simp_all add: whir_wf_def)
  then have o: "get_fes K_OOD (concat (map (\<lambda>j. fe_to_le_bytes (wp_ood P ! j)) [0..<K_OOD])) = Some (wp_ood P, [])"
    using assms get_fes_put [of "wp_ood P" "[]"] by (simp add: whir_wf_def)
  have T: "get_opening (put_opening (wp_T1 P) @ y) = Some (wp_T1 P, y)" "get_opening (put_opening (wp_T2 P) @ y) = Some (wp_T2 P, y)" for y
    using assms by (simp_all add: whir_wf_def get_opening_put)
  show ?thesis by (simp add: wire_decode_def wire_encode_def h o T nth_Cons')
qed

lemma wire_size_encode: "whir_wf P \<Longrightarrow> length (wire_encode P) = wire_size P"
  by (simp add: wire_encode_def wire_size_def whir_wf_def opening_wf_def put_opening_def opening_wire_size_def
      length_concat sum_list_triv comp_def case_prod_beta)

lemma wrap_verify_tau: "wrap_verify (P\<lparr>wp_tau := t\<rparr>) n = wrap_verify P n"
  by (simp add: wrap_verify_def)

lemma wrap_open_wf:
  assumes a: "list_all is_canonical a" "length a = 2 ^ n" and n: "n < 32"
  shows "whir_wf (wrap_open a)"
    and "wp_tau (wrap_open a) = map (whir_tau (wp_C (wrap_open a)) (po_nv (wp_T1 (wrap_open a)))) [0..<K_OOD]"
proof -
  define tau where "tau = map (whir_tau (pcs_commit a) n) [0..<K_OOD]"
  define w where "w = map (whir_w (sponge_hash HSM_SUMCHECK_v1 (map (ood_eval a) tau))) [0..<K_OOD]"
  define G where "G = foldl (wbar_step tau w) (replicate (2 ^ n) fe_zero) [0..<K_OOD]"
  have g: "list_all is_canonical G" "length G = 2 ^ n"
    unfolding G_def by (rule wbar_fold [OF _ _ canonical_points], simp_all add: tau_def w_def)+
  have bind: "is_canonical (table_head (foldl bind_low t rs))" if "list_all is_canonical t" "list_all is_canonical rs" for t rs
    using that by (induction rs arbitrary: t) (simp_all add: canonical_head bind_low_dec(2))
  have t: "length tau = K_OOD" "\<And>j. j < K_OOD \<Longrightarrow> list_all is_canonical (tau ! j)" by (simp_all add: tau_def)
  let ?P = "wrap_open a"
  have P: "wp_C ?P = pcs_commit a" "wp_ood_commit ?P = sponge_hash HSM_SUMCHECK_v1 (map (ood_eval a) tau)"
    "wp_C2 ?P = pcs_commit (a @ G)" "wp_v ?P = po_fa (wp_T1 ?P)" "wp_T1 ?P = open_1 a" "wp_T2 ?P = open_2 a G"
    "wp_ood ?P = map (ood_eval a) tau" "wp_fb_true ?P = table_head (foldl bind_low G (derive_points (pcs_commit (a @ G)) n))"
    by (simp_all add: wrap_open_def Let_def table_vars_pow [OF a(2)] a(2) tau_def w_def G_def)
  have "list_all is_canonical (map (ood_eval a) tau)"
    using bind [OF a(1) canonical_tau(1)] by (simp add: tau_def list_all_length ood_eval_def)
  moreover have "is_canonical (po_fa (open_1 a))" using open_1_wf [OF a n] by (simp add: opening_wf_def)
  ultimately show "whir_wf (wrap_open a)"
    using open_1_wf [OF a n] open_2_wf [OF a g n] bind [OF g(1) canonical_points(1)] t(1)
    by (simp add: whir_wf_def P pcs_commit_def)
  show "wp_tau (wrap_open a) = map (whir_tau (wp_C (wrap_open a)) (po_nv (wp_T1 (wrap_open a)))) [0..<K_OOD]"
    using open_1_accepted(2) [OF a n] by (simp add: wrap_open_def Let_def table_vars_pow [OF a(2)])
qed

lemma wrap_wire:
  assumes "list_all is_canonical a" "length a = 2 ^ n" and "n < 32"
  shows "wire_decode (wire_encode (wrap_open a)) = Some (wrap_open a)"
  using wire_decode_encode [OF wrap_open_wf(1) [OF assms]] wrap_open_wf(2) [OF assms] by simp

end
