(* ===== verification/Pouw.thy ===== *)
theory Pouw
  imports Pcs
begin

text \<open>
  Proofs of a matrix product, \<open>src/include/hsma/pouw.hpp\<close>: the reduction of the product to one
  sum-check of degree two with two challenges, the first proof with its probe verifier, and the second
  with commitments, derived challenges and the opening at the transcript's point.
\<close>

subsection \<open>The reduction\<close>

definition fold_rows :: "fe list \<Rightarrow> nat \<Rightarrow> nat \<Rightarrow> fe \<Rightarrow> fe list" where
  "fold_rows A rows inner gamma =
     fst (foldl (\<lambda>(a, gp) i. (map (\<lambda>k. fe_add (a ! k) (fe_mul gp (A ! (i * inner + k)))) [0..<inner], fe_mul gp gamma))
            (replicate inner fe_zero, fe_one) [0..<rows])"

definition fold_cols :: "fe list \<Rightarrow> nat \<Rightarrow> nat \<Rightarrow> fe \<Rightarrow> fe list" where
  "fold_cols B cols inner delta =
     fst (foldl (\<lambda>(b, dp) j. (map (\<lambda>k. fe_add (b ! k) (fe_mul dp (B ! (k * cols + j)))) [0..<inner], fe_mul dp delta))
            (replicate inner fe_zero, fe_one) [0..<cols])"

definition fold_witness :: "fe list \<Rightarrow> fe list \<Rightarrow> nat \<Rightarrow> nat \<Rightarrow> nat \<Rightarrow> fe \<Rightarrow> fe \<Rightarrow> fe list \<times> fe list" where
  "fold_witness A B rows cols inner gamma delta = (fold_rows A rows inner gamma, fold_cols B cols inner delta)"

definition claim_row :: "fe list \<Rightarrow> nat \<Rightarrow> fe \<Rightarrow> nat \<Rightarrow> fe \<Rightarrow> fe \<Rightarrow> fe" where
  "claim_row C cols delta i gp acc =
     fst (foldl (\<lambda>(acc, dp) j. (fe_add acc (fe_mul gp (fe_mul dp (C ! (i * cols + j)))), fe_mul dp delta))
            (acc, fe_one) [0..<cols])"

definition claim_from_C :: "fe list \<Rightarrow> nat \<Rightarrow> nat \<Rightarrow> fe \<Rightarrow> fe \<Rightarrow> fe" where
  "claim_from_C C rows cols gamma delta =
     fst (foldl (\<lambda>(acc, gp) i. (claim_row C cols delta i gp acc, fe_mul gp gamma)) (fe_zero, fe_one) [0..<rows])"

definition pad_to :: "fe list \<Rightarrow> nat \<Rightarrow> fe list" where
  "pad_to v nv = map (\<lambda>t. if t < length v then v ! t else fe_zero) [0..<2 ^ nv]"

text \<open>The loop of \<open>kdim\<close>; the shift is in range for dimensions up to \<open>2 ^ 31\<close>.\<close>

function kdim_loop :: "nat \<Rightarrow> nat \<Rightarrow> nat" where
  "kdim_loop nv inner = (if 2 ^ nv < inner then kdim_loop (Suc nv) inner else nv)"
  by pat_completeness auto
termination
  by (relation "measure (\<lambda>(nv, inner). inner - 2 ^ nv)") (auto intro: diff_less_mono2)

declare kdim_loop.simps [simp del]

definition kdim :: "nat \<Rightarrow> nat" where
  "kdim inner = kdim_loop 0 inner"

text \<open>
  The same loop on 32-bit words: a shift by the word's width has no defined result, \<^const>\<open>None\<close>.
\<close>

function kdim_words :: "nat \<Rightarrow> u32 \<Rightarrow> nat option" where
  "kdim_words nv inner =
     (if nv \<ge> 32 then None else if push_bit nv 1 < inner then kdim_words (Suc nv) inner else Some nv)"
  by pat_completeness auto
termination
  by (relation "measure (\<lambda>(nv, inner). 32 - nv)") auto

declare kdim_words.simps [simp del]

subsection \<open>The first proof\<close>

record GemmProof =
  gp_claim :: fe
  gp_T :: ScTranscript
  gp_inner :: nat

definition prove_gemm :: "fe list \<Rightarrow> fe list \<Rightarrow> fe list \<Rightarrow> nat \<Rightarrow> nat \<Rightarrow> nat \<Rightarrow> fe \<Rightarrow> fe \<Rightarrow> GemmProof" where
  "prove_gemm A B C rows cols inner gamma delta =
     (let (a, b) = fold_witness A B rows cols inner gamma delta;
          nv = kdim inner
      in \<lparr>gp_claim = claim_from_C C rows cols gamma delta, gp_T = prove_2 nv (pad_to a nv) (pad_to b nv), gp_inner = inner\<rparr>)"

definition verify_gemm :: "GemmProof \<Rightarrow> fe list \<Rightarrow> fe list \<Rightarrow> bool" where
  "verify_gemm P a_ref b_ref =
     (let nv = kdim (gp_inner P); aref = pad_to a_ref nv; bref = pad_to b_ref nv
      in sc_verify (gp_T P) (gp_claim P) = sc_nv (gp_T P)
         \<and> sc_fa (gp_T P) = direct_eval aref (sc_r (gp_T P))
         \<and> sc_fb (gp_T P) = direct_eval bref (sc_r (gp_T P)))"

definition pouw_weight :: "u32 \<Rightarrow> u64 \<Rightarrow> u64" where
  "pouw_weight inner proofs = ucast inner * ucast inner * ucast inner * proofs"

subsection \<open>The second proof\<close>

record GemmProofV2 =
  g2_comA :: fe
  g2_comB :: fe
  g2_comC :: fe
  g2_gamma :: fe
  g2_delta :: fe
  g2_claim :: fe
  g2_T :: ScTranscript
  g2_O :: Opening
  g2_rows :: nat
  g2_cols :: nat
  g2_inner :: nat

definition fs_challenges :: "fe \<Rightarrow> fe \<Rightarrow> fe \<Rightarrow> fe \<times> fe" where
  "fs_challenges comA comB comC =
     (let gamma = poseidon3 HSM_POUW_v1 comA comB in (gamma, poseidon3 HSM_POUW_v1 gamma comC))"

definition prove_gemm_v2 :: "fe list \<Rightarrow> fe list \<Rightarrow> fe list \<Rightarrow> nat \<Rightarrow> nat \<Rightarrow> nat \<Rightarrow> GemmProofV2" where
  "prove_gemm_v2 A B C rows cols inner =
     (let (gamma, delta) = fs_challenges (pcs_commit A) (pcs_commit B) (pcs_commit C);
          (a, b) = fold_witness A B rows cols inner gamma delta;
          nv = kdim inner; ap = pad_to a nv; bp = pad_to b nv;
          T = prove_2 nv ap bp
      in \<lparr>g2_comA = pcs_commit A, g2_comB = pcs_commit B, g2_comC = pcs_commit C, g2_gamma = gamma, g2_delta = delta,
          g2_claim = claim_from_C C rows cols gamma delta, g2_T = T, g2_O = open_2_at ap bp (sc_r T),
          g2_rows = rows, g2_cols = cols, g2_inner = inner\<rparr>)"

definition verify_gemm_v2 :: "GemmProofV2 \<Rightarrow> fe list \<Rightarrow> fe list \<Rightarrow> fe list \<Rightarrow> bool" where
  "verify_gemm_v2 P A_ref B_ref C_delivered =
     (if g2_comA P \<noteq> pcs_commit A_ref then False
      else if g2_comB P \<noteq> pcs_commit B_ref then False
      else if g2_comC P \<noteq> pcs_commit C_delivered then False
      else let (g, d) = fs_challenges (g2_comA P) (g2_comB P) (g2_comC P)
        in if g \<noteq> g2_gamma P \<or> d \<noteq> g2_delta P then False
           else if g2_claim P \<noteq> claim_from_C C_delivered (g2_rows P) (g2_cols P) g d then False
           else if sc_verify (g2_T P) (g2_claim P) \<noteq> sc_nv (g2_T P) then False
           else if verify_at (g2_O P) (sc_claims (g2_T P) ! 0) (sc_r (g2_T P)) \<noteq> po_nv (g2_O P) then False
           else if po_fa (g2_O P) \<noteq> sc_fa (g2_T P) \<or> po_fb (g2_O P) \<noteq> sc_fb (g2_T P) then False
           else let nv = kdim (g2_inner P);
                    (a, b) = fold_witness A_ref B_ref (g2_rows P) (g2_cols P) (g2_inner P) g d;
                    aref = pad_to a nv; bref = pad_to b nv
                in sc_fa (g2_T P) = direct_eval aref (sc_r (g2_T P)) \<and> sc_fb (g2_T P) = direct_eval bref (sc_r (g2_T P)))"

subsection \<open>What the folds compute\<close>

definition canon :: "fe list \<Rightarrow> bool" where
  "canon v \<longleftrightarrow> list_all is_canonical v"

lemma fold_rows_dec:
  assumes A: "canon A" "length A = rows * inner" and g: "is_canonical gamma"
  shows "length (fold_rows A rows inner gamma) = inner" and "canon (fold_rows A rows inner gamma)"
    and "k < inner \<Longrightarrow> fe_dec (fold_rows A rows inner gamma ! k) = (\<Sum>i<rows. fe_dec gamma ^ i * fe_dec (A ! (i * inner + k)))"
proof -
  let ?F = "\<lambda>n. foldl (\<lambda>(a, gp) i. (map (\<lambda>k. fe_add (a ! k) (fe_mul gp (A ! (i * inner + k)))) [0..<inner], fe_mul gp gamma))
            (replicate inner fe_zero, fe_one) [0..<n]"
  have "length (fst (?F n)) = inner \<and> is_canonical (snd (?F n)) \<and> fe_dec (snd (?F n)) = fe_dec gamma ^ n
    \<and> (\<forall>k<inner. is_canonical (fst (?F n) ! k) \<and> fe_dec (fst (?F n) ! k) = (\<Sum>i<n. fe_dec gamma ^ i * fe_dec (A ! (i * inner + k))))"
    if "n \<le> rows" for n
    using that
  proof (induction n)
    case 0
    then show ?case by (simp add: fe_dec_zero fe_dec_one)
  next
    case (Suc n)
    have "n * inner + k < rows * inner" if "k < inner" for k
    proof -
      have "n * inner + k < Suc n * inner" using that by simp
      also have "\<dots> \<le> rows * inner" using Suc.prems by (intro mult_le_mono1)
      finally show ?thesis .
    qed
    then have "is_canonical (A ! (n * inner + k))" if "k < inner" for k
      using that A by (simp add: canon_def list_all_length)
    then show ?case using Suc g by (simp add: case_prod_beta fe_dec_ops mult.commute)
  qed
  from this [OF order_refl] show "length (fold_rows A rows inner gamma) = inner" "canon (fold_rows A rows inner gamma)"
    "k < inner \<Longrightarrow> fe_dec (fold_rows A rows inner gamma ! k) = (\<Sum>i<rows. fe_dec gamma ^ i * fe_dec (A ! (i * inner + k)))"
    by (simp_all add: fold_rows_def canon_def list_all_length)
qed

lemma fold_cols_dec:
  assumes B: "canon B" "length B = inner * cols" and d: "is_canonical delta"
  shows "length (fold_cols B cols inner delta) = inner" and "canon (fold_cols B cols inner delta)"
    and "k < inner \<Longrightarrow> fe_dec (fold_cols B cols inner delta ! k) = (\<Sum>j<cols. fe_dec delta ^ j * fe_dec (B ! (k * cols + j)))"
proof -
  let ?F = "\<lambda>n. foldl (\<lambda>(b, dp) j. (map (\<lambda>k. fe_add (b ! k) (fe_mul dp (B ! (k * cols + j)))) [0..<inner], fe_mul dp delta))
            (replicate inner fe_zero, fe_one) [0..<n]"
  have "length (fst (?F n)) = inner \<and> is_canonical (snd (?F n)) \<and> fe_dec (snd (?F n)) = fe_dec delta ^ n
    \<and> (\<forall>k<inner. is_canonical (fst (?F n) ! k) \<and> fe_dec (fst (?F n) ! k) = (\<Sum>j<n. fe_dec delta ^ j * fe_dec (B ! (k * cols + j))))"
    if "n \<le> cols" for n
    using that
  proof (induction n)
    case 0
    then show ?case by (simp add: fe_dec_zero fe_dec_one)
  next
    case (Suc n)
    have "k * cols + n < inner * cols" if "k < inner" for k
    proof -
      have "k * cols + n < Suc k * cols" using Suc.prems by simp
      also have "\<dots> \<le> inner * cols" using that by (intro mult_le_mono1) simp
      finally show ?thesis .
    qed
    then have "is_canonical (B ! (k * cols + n))" if "k < inner" for k
      using that B by (simp add: canon_def list_all_length)
    then show ?case using Suc d by (simp add: case_prod_beta fe_dec_ops mult.commute)
  qed
  from this [OF order_refl] show "length (fold_cols B cols inner delta) = inner" "canon (fold_cols B cols inner delta)"
    "k < inner \<Longrightarrow> fe_dec (fold_cols B cols inner delta ! k) = (\<Sum>j<cols. fe_dec delta ^ j * fe_dec (B ! (k * cols + j)))"
    by (simp_all add: fold_cols_def canon_def list_all_length)
qed

lemma claim_row_dec:
  assumes C: "\<And>j. j < cols \<Longrightarrow> is_canonical (C ! (i * cols + j))" and c: "is_canonical delta" "is_canonical gp" "is_canonical acc"
  shows "is_canonical (claim_row C cols delta i gp acc)"
    and "fe_dec (claim_row C cols delta i gp acc) = fe_dec acc + (\<Sum>j<cols. fe_dec gp * (fe_dec delta ^ j * fe_dec (C ! (i * cols + j))))"
proof -
  let ?F = "\<lambda>n. foldl (\<lambda>(acc, dp) j. (fe_add acc (fe_mul gp (fe_mul dp (C ! (i * cols + j)))), fe_mul dp delta))
            (acc, fe_one) [0..<n]"
  have "is_canonical (fst (?F n)) \<and> is_canonical (snd (?F n)) \<and> fe_dec (snd (?F n)) = fe_dec delta ^ n
    \<and> fe_dec (fst (?F n)) = fe_dec acc + (\<Sum>j<n. fe_dec gp * (fe_dec delta ^ j * fe_dec (C ! (i * cols + j))))" if "n \<le> cols" for n
    using that by (induction n) (simp_all add: c C case_prod_beta fe_dec_ops fe_dec_one add.assoc power_Suc2 del: power_Suc)
  from this [OF order_refl] show "is_canonical (claim_row C cols delta i gp acc)"
    "fe_dec (claim_row C cols delta i gp acc) = fe_dec acc + (\<Sum>j<cols. fe_dec gp * (fe_dec delta ^ j * fe_dec (C ! (i * cols + j))))"
    by (simp_all add: claim_row_def)
qed

lemma claim_dec:
  assumes C: "canon C" "length C = rows * cols" and c: "is_canonical gamma" "is_canonical delta"
  shows "is_canonical (claim_from_C C rows cols gamma delta)"
    and "fe_dec (claim_from_C C rows cols gamma delta)
      = (\<Sum>i<rows. \<Sum>j<cols. fe_dec gamma ^ i * (fe_dec delta ^ j * fe_dec (C ! (i * cols + j))))"
proof -
  let ?F = "\<lambda>n. foldl (\<lambda>(acc, gp) i. (claim_row C cols delta i gp acc, fe_mul gp gamma)) (fe_zero, fe_one) [0..<n]"
  have "is_canonical (fst (?F n)) \<and> is_canonical (snd (?F n)) \<and> fe_dec (snd (?F n)) = fe_dec gamma ^ n
    \<and> fe_dec (fst (?F n)) = (\<Sum>i<n. \<Sum>j<cols. fe_dec gamma ^ i * (fe_dec delta ^ j * fe_dec (C ! (i * cols + j))))"
    if "n \<le> rows" for n
    using that
  proof (induction n)
    case 0
    then show ?case by (simp add: fe_dec_zero fe_dec_one)
  next
    case (Suc n)
    have "is_canonical (C ! (n * cols + j))" if "j < cols" for j
    proof -
      have "n * cols + j < Suc n * cols" using that by simp
      also have "\<dots> \<le> rows * cols" using Suc.prems by (intro mult_le_mono1)
      finally show ?thesis using C by (simp add: canon_def list_all_length)
    qed
    then show ?case using Suc c by (simp add: case_prod_beta claim_row_dec fe_dec_ops mult.commute)
  qed
  from this [OF order_refl] show "is_canonical (claim_from_C C rows cols gamma delta)"
    "fe_dec (claim_from_C C rows cols gamma delta)
      = (\<Sum>i<rows. \<Sum>j<cols. fe_dec gamma ^ i * (fe_dec delta ^ j * fe_dec (C ! (i * cols + j))))"
    by (simp_all add: claim_from_C_def)
qed

lemma kdim_loop_bound: "inner \<le> 2 ^ kdim_loop nv inner"
proof (induction nv inner rule: kdim_loop.induct)
  case (1 nv inner)
  then show ?case by (subst kdim_loop.simps) auto
qed

lemma kdim_loop_least: "\<forall>m<nv. 2 ^ m < inner \<Longrightarrow> m < kdim_loop nv inner \<Longrightarrow> 2 ^ m < inner"
proof (induction nv inner rule: kdim_loop.induct)
  case (1 nv inner)
  show ?case
  proof (cases "2 ^ nv < inner")
    case True
    then have "m < kdim_loop (Suc nv) inner" using "1.prems"(2) by (simp add: kdim_loop.simps [of nv])
    then show ?thesis using "1.IH" [OF True] "1.prems"(1) True by (simp add: less_Suc_eq)
  next
    case False
    then have "m < nv" using "1.prems"(2) by (simp add: kdim_loop.simps [of nv])
    then show ?thesis using "1.prems"(1) by simp
  qed
qed

text \<open>The number of variables is the least that holds the dimension.\<close>

lemma kdim_words_loop:
  "nv \<le> 32 \<Longrightarrow> kdim_words nv inner = (if kdim_loop nv (unat inner) < 32 then Some (kdim_loop nv (unat inner)) else None)"
proof (induction nv inner rule: kdim_words.induct)
  case (1 nv inner)
  have u: "unat (push_bit nv 1 :: u32) = 2 ^ nv" if "nv < 32"
    using that by (subst unsigned_push_bit_eq) (simp add: take_bit_nat_eq_self)
  have up: "nv \<le> kdim_loop nv n" for n
  proof (induction nv n rule: kdim_loop.induct)
    case (1 nv n)
    then show ?case by (cases "2 ^ nv < n") (simp_all add: kdim_loop.simps [of nv n])
  qed
  show ?case
  proof (cases "nv < 32")
    case True
    then have b: "push_bit nv 1 < inner \<longleftrightarrow> 2 ^ nv < unat inner" by (simp only: word_less_nat_alt u)
    show ?thesis
    proof (cases "2 ^ nv < unat inner")
      case less: True
      have "kdim_words (Suc nv) inner = (if kdim_loop (Suc nv) (unat inner) < 32 then Some (kdim_loop (Suc nv) (unat inner)) else None)"
        using "1.IH" True less b by simp
      then show ?thesis using True less b by (simp add: kdim_words.simps [of nv] kdim_loop.simps [of nv "unat inner"])
    next
      case False
      then show ?thesis using True b by (simp add: kdim_words.simps [of nv] kdim_loop.simps [of nv "unat inner"])
    qed
  next
    case False
    then show ?thesis using up [of "unat inner"] by (simp add: kdim_words.simps [of nv])
  qed
qed

lemma kdim_bound: "inner \<le> 2 ^ kdim inner"
  by (simp add: kdim_def kdim_loop_bound)

lemma kdim_least: "m < kdim inner \<Longrightarrow> 2 ^ m < inner"
  using kdim_loop_least [of 0 inner m] by (simp add: kdim_def)

lemma kdim_small: "inner \<le> 2 ^ 31 \<Longrightarrow> kdim inner < 32"
  using kdim_least [of 31 inner] by (cases "31 < kdim inner") simp_all

text \<open>The loop ends with a result exactly for dimensions up to \<open>2 ^ 31\<close>.\<close>

lemma kdim_words_result: "kdim_words 0 inner = (if unat inner \<le> 2 ^ 31 then Some (kdim (unat inner)) else None)"
proof -
  have "kdim_loop 0 (unat inner) < 32 \<longleftrightarrow> unat inner \<le> 2 ^ 31"
  proof
    assume "kdim_loop 0 (unat inner) < 32"
    then have "(2::nat) ^ kdim_loop 0 (unat inner) \<le> 2 ^ 31" by (intro power_increasing) simp_all
    then show "unat inner \<le> 2 ^ 31" using kdim_loop_bound [of "unat inner" 0] by linarith
  next
    assume "unat inner \<le> 2 ^ 31"
    then show "kdim_loop 0 (unat inner) < 32" using kdim_small by (simp add: kdim_def)
  qed
  then show ?thesis using kdim_words_loop [of 0 inner] by (simp add: kdim_def)
qed

lemma pad_to_dec:
  assumes "canon v"
  shows "length (pad_to v nv) = 2 ^ nv" and "list_all is_canonical (pad_to v nv)"
  using assms by (auto simp: pad_to_def canon_def list_all_length)

lemma pad_to_sum:
  assumes "length a \<le> 2 ^ nv" "length b = length a"
  shows "(\<Sum>t<2 ^ nv. fe_dec (pad_to a nv ! t) * fe_dec (pad_to b nv ! t)) = (\<Sum>k<length a. fe_dec (a ! k) * fe_dec (b ! k))"
proof -
  have "(\<Sum>t<2 ^ nv. fe_dec (pad_to a nv ! t) * fe_dec (pad_to b nv ! t)) = (\<Sum>t<length a. fe_dec (pad_to a nv ! t) * fe_dec (pad_to b nv ! t))"
    using assms by (intro sum.mono_neutral_right) (auto simp: pad_to_def fe_dec_zero)
  also have "\<dots> = (\<Sum>k<length a. fe_dec (a ! k) * fe_dec (b ! k))"
    using assms by (intro sum.cong refl) (auto simp: pad_to_def)
  finally show ?thesis .
qed

text \<open>The identity of the reduction: the folded witnesses of a product sum to its claim.\<close>

definition is_product :: "fe list \<Rightarrow> fe list \<Rightarrow> fe list \<Rightarrow> nat \<Rightarrow> nat \<Rightarrow> nat \<Rightarrow> bool" where
  "is_product A B C rows cols inner \<longleftrightarrow> canon A \<and> canon B \<and> canon C \<and> length A = rows * inner \<and> length B = inner * cols
     \<and> length C = rows * cols
     \<and> (\<forall>i<rows. \<forall>j<cols. fe_dec (C ! (i * cols + j)) = (\<Sum>k<inner. fe_dec (A ! (i * inner + k)) * fe_dec (B ! (k * cols + j))))"

lemma reduction_identity:
  assumes p: "is_product A B C rows cols inner" and c: "is_canonical gamma" "is_canonical delta"
  defines "a \<equiv> fold_rows A rows inner gamma" and "b \<equiv> fold_cols B cols inner delta"
  shows "claim_from_C C rows cols gamma delta = inner_total (pad_to a (kdim inner)) (pad_to b (kdim inner))"
proof (rule fe_eqI)
  have A: "canon A" "length A = rows * inner" and B: "canon B" "length B = inner * cols" and C: "canon C" "length C = rows * cols"
    using p by (simp_all add: is_product_def)
  note fa = fold_rows_dec [OF A c(1)] and fb = fold_cols_dec [OF B c(2)] and cl = claim_dec [OF C c]
  have pa: "length (pad_to a nv) = 2 ^ nv" "list_all is_canonical (pad_to a nv)"
    and pb: "length (pad_to b nv) = 2 ^ nv" "list_all is_canonical (pad_to b nv)" for nv
    using fa(2) fb(2) pad_to_dec by (simp_all add: a_def b_def)
  note it = inner_total_dec [OF pa(2) pb(2)]
  show "is_canonical (claim_from_C C rows cols gamma delta)" by (rule cl(1))
  show "is_canonical (inner_total (pad_to a (kdim inner)) (pad_to b (kdim inner)))" by (rule it(1)) (simp add: pa pb)
  let ?g = "fe_dec gamma" and ?d = "fe_dec delta"
  let ?A = "\<lambda>i k. fe_dec (A ! (i * inner + k))" and ?B = "\<lambda>k j. fe_dec (B ! (k * cols + j))"
  have "fe_dec (inner_total (pad_to a (kdim inner)) (pad_to b (kdim inner))) = (\<Sum>k<inner. fe_dec (a ! k) * fe_dec (b ! k))"
    using it(2) [of "kdim inner" "kdim inner"] pad_to_sum [of a "kdim inner" b] fa(1) [folded a_def] fb(1) [folded b_def]
      kdim_bound [of inner] pa(1) pb(1)
    by simp
  also have "\<dots> = (\<Sum>k<inner. (\<Sum>i<rows. ?g ^ i * ?A i k) * (\<Sum>j<cols. ?d ^ j * ?B k j))"
    using fa(3) fb(3) by (simp add: a_def b_def)
  also have "\<dots> = (\<Sum>k<inner. \<Sum>i<rows. \<Sum>j<cols. ?g ^ i * (?d ^ j * (?A i k * ?B k j)))"
    unfolding sum_product by (intro sum.cong refl) (simp add: mult_ac)
  also have "\<dots> = (\<Sum>i<rows. \<Sum>j<cols. \<Sum>k<inner. ?g ^ i * (?d ^ j * (?A i k * ?B k j)))"
    by (subst sum.swap) (intro sum.cong refl sum.swap)
  also have "\<dots> = (\<Sum>i<rows. \<Sum>j<cols. ?g ^ i * (?d ^ j * fe_dec (C ! (i * cols + j))))"
    using p by (intro sum.cong refl) (simp add: is_product_def sum_distrib_left)
  finally show "fe_dec (claim_from_C C rows cols gamma delta)
      = fe_dec (inner_total (pad_to a (kdim inner)) (pad_to b (kdim inner)))"
    using cl(2) by simp
qed

subsection \<open>Honest proofs are accepted\<close>

lemma prove_2_shape:
  assumes "list_all is_canonical a" "length a = 2 ^ n" "list_all is_canonical b" "length b = 2 ^ n"
  shows "sc_nv (prove_2 n a b) = n" and "sc_claims (prove_2 n a b) ! 0 = inner_total a b"
    and "list_all is_canonical (sc_r (prove_2 n a b))" and "length (sc_r (prove_2 n a b)) = n"
proof -
  obtain cs es rs af bf where e: "rounds_2 n a b (inner_total a b) = (cs, es, rs, af, bf)"
    by (cases "rounds_2 n a b (inner_total a b)") auto
  have l: "length b = length a" using assms by simp
  have "length rs = n" using rounds_2_complete [OF assms(1-3) l inner_total_dec [OF assms(1,3) l] e] by simp
  then show "sc_nv (prove_2 n a b) = n" "sc_claims (prove_2 n a b) ! 0 = inner_total a b"
    "list_all is_canonical (sc_r (prove_2 n a b))" "length (sc_r (prove_2 n a b)) = n"
    using rounds_2_bind [OF e] by (simp_all add: prove_2_def e)
qed

lemma honest_gemm_v2:
  assumes p: "is_product A B C rows cols inner" and i: "inner \<le> 2 ^ 31"
  shows "verify_gemm_v2 (prove_gemm_v2 A B C rows cols inner) A B C"
proof -
  define g where "g = poseidon3 HSM_POUW_v1 (pcs_commit A) (pcs_commit B)"
  define d where "d = poseidon3 HSM_POUW_v1 g (pcs_commit C)"
  define nv where "nv = kdim inner"
  define a where "a = pad_to (fold_rows A rows inner g) nv"
  define b where "b = pad_to (fold_cols B cols inner d) nv"
  have c: "is_canonical g" "is_canonical d" by (simp_all add: g_def d_def)
  have fs: "fs_challenges (pcs_commit A) (pcs_commit B) (pcs_commit C) = (g, d)" by (simp add: fs_challenges_def Let_def g_def d_def)
  have A: "canon A" "length A = rows * inner" and B: "canon B" "length B = inner * cols" using p by (simp_all add: is_product_def)
  have a: "list_all is_canonical a" "length a = 2 ^ nv" and b: "list_all is_canonical b" "length b = 2 ^ nv"
    using pad_to_dec fold_rows_dec(2) [OF A c(1)] fold_cols_dec(2) [OF B c(2)] by (simp_all add: a_def b_def)
  have n: "nv < 32" using kdim_small [OF i] by (simp add: nv_def)
  let ?T = "prove_2 nv a b"
  let ?O = "open_2_at a b (sc_r ?T)"
  note T = prove_2_shape [OF a b] and fin = prove_2_final [OF a b]
  note O1 = open_2_with_accepted [OF a b T(3,4) n]
  have O2: "?O = open_2_with a b (sc_r ?T)" using a b T(4) by (simp add: open_2_at_def)
  have cl: "claim_from_C C rows cols g d = inner_total a b"
    using reduction_identity [OF p c] by (simp add: a_def b_def nv_def)
  have P: "prove_gemm_v2 A B C rows cols inner = \<lparr>g2_comA = pcs_commit A, g2_comB = pcs_commit B, g2_comC = pcs_commit C,
      g2_gamma = g, g2_delta = d, g2_claim = claim_from_C C rows cols g d, g2_T = ?T, g2_O = ?O,
      g2_rows = rows, g2_cols = cols, g2_inner = inner\<rparr>"
    by (simp add: prove_gemm_v2_def fs fold_witness_def Let_def a_def b_def nv_def)
  show ?thesis
    using prove_2_accepted [OF a b] open_2_at_accepted [OF a b T(3,4) n] T fin O1
    by (simp add: verify_gemm_v2_def P fs Let_def fold_witness_def cl O2 a_def [symmetric] b_def [symmetric] nv_def [symmetric])
qed

lemma honest_gemm:
  assumes p: "is_product A B C rows cols inner" and c: "is_canonical gamma" "is_canonical delta"
  shows "verify_gemm (prove_gemm A B C rows cols inner gamma delta)
    (fold_rows A rows inner gamma) (fold_cols B cols inner delta)"
proof -
  define nv where "nv = kdim inner"
  define a where "a = pad_to (fold_rows A rows inner gamma) nv"
  define b where "b = pad_to (fold_cols B cols inner delta) nv"
  have A: "canon A" "length A = rows * inner" and B: "canon B" "length B = inner * cols" using p by (simp_all add: is_product_def)
  have a: "list_all is_canonical a" "length a = 2 ^ nv" and b: "list_all is_canonical b" "length b = 2 ^ nv"
    using pad_to_dec fold_rows_dec(2) [OF A c(1)] fold_cols_dec(2) [OF B c(2)] by (simp_all add: a_def b_def)
  have cl: "claim_from_C C rows cols gamma delta = inner_total a b"
    using reduction_identity [OF p c] by (simp add: a_def b_def nv_def)
  show ?thesis
    using prove_2_accepted [OF a b] prove_2_shape(1) [OF a b] prove_2_final [OF a b]
    by (simp add: verify_gemm_def prove_gemm_def Let_def fold_witness_def cl a_def [symmetric] b_def [symmetric] nv_def [symmetric])
qed

subsection \<open>Every claimed product has an accepted proof\<close>

text \<open>
  A transcript of no rounds with a wrong first claim: the code of that failure is 0, which the verifier
  takes for acceptance, as it takes the code of an opening without claims.
\<close>

definition forged_gemm :: "fe list \<Rightarrow> fe list \<Rightarrow> fe list \<Rightarrow> nat \<Rightarrow> nat \<Rightarrow> nat \<Rightarrow> GemmProofV2" where
  "forged_gemm A B C rows cols inner =
     (let (g, d) = fs_challenges (pcs_commit A) (pcs_commit B) (pcs_commit C);
          (a, b) = fold_witness A B rows cols inner g d;
          claim = claim_from_C C rows cols g d;
          fa = direct_eval (pad_to a (kdim inner)) [];
          fb = direct_eval (pad_to b (kdim inner)) []
      in \<lparr>g2_comA = pcs_commit A, g2_comB = pcs_commit B, g2_comC = pcs_commit C, g2_gamma = g, g2_delta = d, g2_claim = claim,
          g2_T = \<lparr>sc_nv = 0, sc_d = 2, sc_claims = [fe_add claim fe_one], sc_evals = [], sc_r = [], sc_fa = fa, sc_fb = fb\<rparr>,
          g2_O = empty_opening\<lparr>po_fa := fa, po_fb := fb\<rparr>, g2_rows = rows, g2_cols = cols, g2_inner = inner\<rparr>)"

lemma forged_accepted:
  assumes "canon C" "length C = rows * cols"
  shows "verify_gemm_v2 (forged_gemm A B C rows cols inner) A B C"
proof -
  obtain g d where fs: "fs_challenges (pcs_commit A) (pcs_commit B) (pcs_commit C) = (g, d)" by fastforce
  have c: "is_canonical g" "is_canonical d" using fs by (auto simp: fs_challenges_def Let_def)
  let ?c = "claim_from_C C rows cols g d"
  have "is_canonical ?c" by (rule claim_dec(1) [OF assms c])
  then have "fe_dec (fe_add ?c fe_one) = fe_dec ?c + 1" by (simp add: fe_dec_ops fe_dec_one)
  moreover have "(1 :: pallas) \<noteq> 0" by simp
  ultimately have "fe_add ?c fe_one \<noteq> ?c" by auto
  then show ?thesis
    by (simp add: verify_gemm_v2_def forged_gemm_def fs Let_def fold_witness_def sc_verify_def verify_at_def empty_opening_def)
qed

end
