(* ===== verification/Logup.thy ===== *)
theory Logup
  imports Consensus Fe_Sums
begin

text \<open>
  The multiset argument of the table lookups, \<open>src/include/hsma/pouw/logup.hpp\<close> (arithmetic modulo
  the Mersenne prime \<open>2 ^ 61 - 1\<close>, the batch, the two sides and the reciprocal table), and the
  commitment to a model, \<open>src/include/hsma/pouw/model_commit.hpp\<close>. Table values are C++ \<open>int\<close>s,
  integers here; the functions that read a table take it as a list or as a function, as in the code.
\<close>

subsection \<open>Tables\<close>

definition FRAC_OUT :: nat where "FRAC_OUT = 7"
definition OUT_ONE :: int where "OUT_ONE = 2 ^ FRAC_OUT"

definition lookup_by_index :: "int list \<Rightarrow> nat \<Rightarrow> int" where
  "lookup_by_index t idx = (if idx < length t then t ! idx else 0)"

definition RCP_MAX :: nat where "RCP_MAX = 1024"

definition build_rcp_table :: "int list" where
  "build_rcp_table = 0 # map (\<lambda>y. (2 ^ 14 + int y div 2) div int y) [1..<RCP_MAX + 1]"

definition rcp_lookup :: "int list \<Rightarrow> nat \<Rightarrow> int" where
  "rcp_lookup t y = (if y = 0 \<or> y > RCP_MAX then 0 else t ! y)"

subsection \<open>Arithmetic modulo the Mersenne prime\<close>

definition LP :: u64 where
  "LP = 2 ^ 61 - 1"

definition lp_add :: "u64 \<Rightarrow> u64 \<Rightarrow> u64" where
  "lp_add a b = (let r = a + b in if r \<ge> LP then r - LP else r)"

definition lp_sub :: "u64 \<Rightarrow> u64 \<Rightarrow> u64" where
  "lp_sub a b = lp_add a (LP - b)"

definition lp_mul :: "u64 \<Rightarrow> u64 \<Rightarrow> u64" where
  "lp_mul a b = (let r = (ucast a * ucast b :: u128) in ucast (r mod ucast LP))"

function lp_inv_loop :: "u64 \<Rightarrow> u64 \<Rightarrow> u64 \<Rightarrow> u64" where
  "lp_inv_loop r base e =
     (if e = 0 then r
      else lp_inv_loop (if bit e 0 then lp_mul r base else r) (lp_mul base base) (drop_bit 1 e))"
  by pat_completeness auto
termination
  by (relation "measure (\<lambda>(r, base, e). unat e)")
    (auto simp: drop_bit_Suc unat_div intro!: div_less_dividend simp: unat_gt_0)

declare lp_inv_loop.simps [simp del]

lemma lp_inv_loop_0 [simp]: "lp_inv_loop r base 0 = r"
  by (subst lp_inv_loop.simps) simp

definition lp_inv :: "u64 \<Rightarrow> u64" where
  "lp_inv a = lp_inv_loop 1 (a mod LP) (LP - 2)"

definition lp_denom :: "u64 \<Rightarrow> u64 \<Rightarrow> u64 \<Rightarrow> u64" where
  "lp_denom alpha idx v =
     (let t = lp_add (alpha mod LP) (LP - lp_mul (alpha mod LP) (v mod LP)) in lp_add t (idx mod LP))"

subsection \<open>The batch\<close>

text \<open>The multiplicities are an ordered map; its iteration is by key.\<close>

record LogUpBatch =
  lb_alpha :: u64
  lb_sum :: u64
  lb_mult :: "(u64 \<times> u64) list"
  lb_n :: u32

fun bump :: "u64 \<Rightarrow> (u64 \<times> u64) list \<Rightarrow> (u64 \<times> u64) list" where
  "bump k [] = [(k, 1)]"
| "bump k ((j, m) # ms) =
     (if k = j then (j, m + 1) # ms else if k < j then (k, 1) # (j, m) # ms else (j, m) # bump k ms)"

definition new_batch :: "u64 \<Rightarrow> LogUpBatch" where
  "new_batch alpha = \<lparr>lb_alpha = (if alpha \<noteq> 0 then alpha else 7), lb_sum = 0, lb_mult = [], lb_n = 0\<rparr>"

definition abs_u64 :: "int \<Rightarrow> u64" where
  "abs_u64 v = of_int (if v < 0 then - v else v)"

definition add_lookup :: "LogUpBatch \<Rightarrow> u32 \<Rightarrow> int \<Rightarrow> LogUpBatch" where
  "add_lookup b idx v =
     b\<lparr>lb_sum := lp_add (lb_sum b) (lp_inv (lp_denom (lb_alpha b) (ucast idx) (abs_u64 v))),
       lb_mult := bump (ucast idx) (lb_mult b), lb_n := lb_n b + 1\<rparr>"

definition table_side_sum :: "LogUpBatch \<Rightarrow> (u32 \<Rightarrow> int) \<Rightarrow> u64" where
  "table_side_sum b val_at =
     foldl (\<lambda>s (idx, m). lp_add s (lp_mul (m mod LP) (lp_inv (lp_denom (lb_alpha b) idx (abs_u64 (val_at (ucast idx)))))))
       0 (lb_mult b)"

definition lb_balanced :: "LogUpBatch \<Rightarrow> u64 \<Rightarrow> bool" where
  "lb_balanced b table_sum = (lb_sum b = table_sum)"

subsection \<open>The arithmetic\<close>

lemma unat_LP: "unat LP = 2 ^ 61 - 1"
  by (simp add: LP_def)

lemma lp_add_val:
  assumes "unat a < unat LP" "unat b < unat LP"
  shows "unat (lp_add a b) = (unat a + unat b) mod unat LP" and "unat (lp_add a b) < unat LP"
proof -
  have s: "unat (a + b) = unat a + unat b"
    using assms by (intro unat_add_lem [THEN iffD1]) (simp add: unat_LP)
  have "unat (lp_add a b) = (if unat a + unat b \<ge> unat LP then unat a + unat b - unat LP else unat a + unat b)"
    by (simp add: lp_add_def Let_def word_le_nat_alt s unat_sub)
  moreover have "unat a + unat b < 2 * unat LP" using assms by simp
  ultimately show "unat (lp_add a b) = (unat a + unat b) mod unat LP" "unat (lp_add a b) < unat LP"
    using assms by (auto simp: le_mod_geq not_le)
qed

lemma lp_mul_val: "unat (lp_mul a b) = unat a * unat b mod unat LP" and lp_mul_less: "unat (lp_mul a b) < unat LP"
proof -
  have p: "unat a * unat b < 2 ^ 128"
    using mult_strict_mono' [of "unat a" "2 ^ 64" "unat b" "2 ^ 64"] unat_u64_lt [of a] unat_u64_lt [of b] by simp
  have l: "unat (ucast LP :: u128) = unat LP" by (simp add: LP_def)
  have "unat ((ucast a * ucast b :: u128) mod ucast LP) = unat a * unat b mod unat LP"
    using p by (simp add: unat_mod_distrib unat_word_ariths l unsigned_ucast_eq take_bit_nat_eq_self unat_LP)
  moreover have "unat a * unat b mod unat LP < unat LP" by (simp add: unat_LP)
  moreover from this have "unat a * unat b mod unat LP < 2 ^ 64" by (simp add: unat_LP)
  ultimately show "unat (lp_mul a b) = unat a * unat b mod unat LP" "unat (lp_mul a b) < unat LP"
    by (simp_all add: lp_mul_def Let_def unsigned_ucast_eq take_bit_nat_eq_self)
qed

lemma lp_inv_loop_less: "unat r < unat LP \<Longrightarrow> unat (lp_inv_loop r base e) < unat LP"
proof (induction r base e rule: lp_inv_loop.induct)
  case (1 r base e)
  show ?case
    using 1 lp_mul_less by (cases "e = 0") (simp_all add: lp_inv_loop.simps [of r base e])
qed

lemma lp_inv_less: "unat (lp_inv a) < unat LP"
  unfolding lp_inv_def by (rule lp_inv_loop_less) (simp add: unat_LP)

lemma lp_inv_loop_val:
  "unat (lp_inv_loop r base e) mod unat LP = unat r * unat base ^ unat e mod unat LP"
proof (induction r base e rule: lp_inv_loop.induct)
  case (1 r base e)
  let ?L = "unat LP"
  show ?case
  proof (cases "e = 0")
    case False
    let ?r = "if bit e 0 then lp_mul r base else r"
    have "bit (unat e) 0 = bit e 0" by (simp add: bit_unsigned_iff)
    then have e: "unat e = 2 * unat (drop_bit 1 e) + of_bool (bit e 0)"
      by (simp add: drop_bit_Suc unat_div bit_0 flip: mod_2_eq_odd)
    have r: "unat ?r mod ?L = unat r * unat base ^ of_bool (bit e 0) mod ?L" by (simp add: lp_mul_val)
    have "unat (lp_inv_loop r base e) mod ?L = unat ?r * unat (lp_mul base base) ^ unat (drop_bit 1 e) mod ?L"
      using "1.IH" [OF False] False by (simp add: lp_inv_loop.simps [of r base e])
    also have "\<dots> = (unat ?r mod ?L) * ((unat base * unat base) ^ unat (drop_bit 1 e) mod ?L) mod ?L"
      unfolding lp_mul_val mod_mult_eq by (metis mod_mult_right_eq power_mod)
    also have "\<dots> = unat r * unat base ^ of_bool (bit e 0) * (unat base * unat base) ^ unat (drop_bit 1 e) mod ?L"
      unfolding r by (simp add: mod_mult_eq)
    also have "\<dots> = unat r * unat base ^ unat e mod ?L"
      unfolding e by (simp add: power_add power_mult power2_eq_square mult_ac)
    finally show ?thesis .
  qed (simp add: lp_inv_loop.simps [of r base e])
qed

text \<open>The inverse is the Fermat power.\<close>

lemma lp_inv_val: "unat (lp_inv a) = unat a ^ (unat LP - 2) mod unat LP"
proof -
  have "unat (LP - 2) = unat LP - 2" by (simp add: LP_def)
  moreover have "unat (a mod LP) = unat a mod unat LP" by (simp add: unat_mod_distrib)
  ultimately show ?thesis
    using lp_inv_loop_val [of 1 "a mod LP" "LP - 2"] lp_inv_less [of a] by (simp add: lp_inv_def power_mod)
qed

subsection \<open>The two sides\<close>

definition side_term :: "u64 \<Rightarrow> (u32 \<Rightarrow> int) \<Rightarrow> u64 \<Rightarrow> nat" where
  "side_term alpha val_at k = unat (lp_inv (lp_denom alpha k (abs_u64 (val_at (ucast k)))))"

lemma table_side_val:
  "unat (table_side_sum b val_at) = (\<Sum>(k, m)\<leftarrow>lb_mult b. unat m * side_term (lb_alpha b) val_at k) mod unat LP"
proof -
  let ?f = "\<lambda>s (idx, m). lp_add s (lp_mul (m mod LP) (lp_inv (lp_denom (lb_alpha b) idx (abs_u64 (val_at (ucast idx))))))"
  have "unat s < unat LP \<Longrightarrow> unat (foldl ?f s ms)
      = (unat s + (\<Sum>(k, m)\<leftarrow>ms. unat m * side_term (lb_alpha b) val_at k)) mod unat LP" for s ms
  proof (induction ms arbitrary: s)
    case (Cons km ms)
    obtain k m where km: "km = (k, m)" by fastforce
    let ?x = "lp_mul (m mod LP) (lp_inv (lp_denom (lb_alpha b) k (abs_u64 (val_at (ucast k)))))"
    note a = lp_add_val [OF Cons.prems lp_mul_less [of "m mod LP" "lp_inv (lp_denom (lb_alpha b) k (abs_u64 (val_at (ucast k))))"]]
    have "unat ?x = unat m * side_term (lb_alpha b) val_at k mod unat LP"
      by (simp add: lp_mul_val side_term_def unat_mod_distrib mod_mult_left_eq)
    then show ?case
      using Cons.IH [OF a(2)] a(1) by (simp add: km mod_add_left_eq mod_add_right_eq add.assoc [symmetric])
  qed simp
  then show ?thesis using unat_LP by (simp add: table_side_sum_def)
qed

lemma bump_sum:
  "\<forall>(j, m) \<in> set ms. unat m + 1 < 2 ^ 64 \<Longrightarrow>
    (\<Sum>(j, m)\<leftarrow>bump k ms. unat m * f j) = (\<Sum>(j, m)\<leftarrow>ms. unat m * f j) + f k"
proof (induction k ms rule: bump.induct)
  case (2 k j m ms)
  have "unat (m + 1) = unat m + 1" using "2.prems" by (simp add: unat_word_ariths)
  then show ?case using 2 by (auto simp: algebra_simps)
qed simp

lemma bump_bound: "\<forall>(j, m) \<in> set ms. unat m \<le> n \<Longrightarrow> n + 1 < 2 ^ 64 \<Longrightarrow> \<forall>(j, m) \<in> set (bump k ms). unat m \<le> n + 1"
proof (induction k ms rule: bump.induct)
  case (2 k j m ms)
  have "unat (m + 1) = unat m + 1" using "2.prems" by (simp add: unat_word_ariths)
  then show ?case using 2 by (auto split: if_splits)
qed simp

lemma abs_u64_abs: "abs_u64 v = of_int \<bar>v\<bar>"
  by (simp add: abs_u64_def abs_if)

definition batch_of :: "u64 \<Rightarrow> (u32 \<times> int) list \<Rightarrow> LogUpBatch" where
  "batch_of alpha ls = foldl (\<lambda>b (idx, v). add_lookup b idx v) (new_batch alpha) ls"

definition batch_inv :: "(u32 \<Rightarrow> int) \<Rightarrow> nat \<Rightarrow> LogUpBatch \<Rightarrow> bool" where
  "batch_inv val_at n b \<longleftrightarrow> (\<forall>(j, m) \<in> set (lb_mult b). unat m \<le> n) \<and> unat (lb_sum b) < unat LP
     \<and> unat (lb_sum b) = (\<Sum>(k, m)\<leftarrow>lb_mult b. unat m * side_term (lb_alpha b) val_at k) mod unat LP"

lemma batch_inv_step:
  assumes b: "batch_inv val_at n b" and v: "\<bar>v\<bar> = \<bar>val_at idx\<bar>" and n: "n + 1 < 2 ^ 64"
  shows "batch_inv val_at (n + 1) (add_lookup b idx v)"
proof -
  have m: "\<forall>(j, m) \<in> set (lb_mult b). unat m \<le> n" and s: "unat (lb_sum b) < unat LP"
    and e: "unat (lb_sum b) = (\<Sum>(k, m)\<leftarrow>lb_mult b. unat m * side_term (lb_alpha b) val_at k) mod unat LP"
    using b by (simp_all add: batch_inv_def)
  have m1: "\<forall>(j, m) \<in> set (lb_mult b). unat m + 1 < 2 ^ 64" using m n by fastforce
  have t: "unat (lp_inv (lp_denom (lb_alpha b) (ucast idx) (abs_u64 v))) = side_term (lb_alpha b) val_at (ucast idx)"
    using v by (simp add: side_term_def abs_u64_abs ucast_up_ucast_id is_up)
  have proj: "lb_sum (add_lookup b idx v) = lp_add (lb_sum b) (lp_inv (lp_denom (lb_alpha b) (ucast idx) (abs_u64 v)))"
    "lb_mult (add_lookup b idx v) = bump (ucast idx) (lb_mult b)" "lb_alpha (add_lookup b idx v) = lb_alpha b"
    by (simp_all add: add_lookup_def)
  note a = lp_add_val [OF s lp_inv_less [of "lp_denom (lb_alpha b) (ucast idx) (abs_u64 v)"]]
  have "unat (lb_sum (add_lookup b idx v))
      = (\<Sum>(k, m)\<leftarrow>lb_mult (add_lookup b idx v). unat m * side_term (lb_alpha (add_lookup b idx v)) val_at k) mod unat LP"
    unfolding proj a(1) bump_sum [OF m1] t e by (simp only: mod_add_left_eq)
  moreover have "unat (lb_sum (add_lookup b idx v)) < unat LP"
    unfolding proj by (rule a(2))
  moreover have "\<forall>(j, m) \<in> set (lb_mult (add_lookup b idx v)). unat m \<le> n + 1"
    unfolding proj by (rule bump_bound [OF m n])
  ultimately show ?thesis by (simp only: batch_inv_def)
qed

lemma batch_inv_of:
  "\<forall>(idx, v) \<in> set ls. \<bar>v\<bar> = \<bar>val_at idx\<bar> \<Longrightarrow> length ls < 2 ^ 64 - 1 \<Longrightarrow> batch_inv val_at (length ls) (batch_of alpha ls)"
proof (induction ls rule: rev_induct)
  case Nil
  then show ?case by (simp add: batch_of_def batch_inv_def new_batch_def unat_LP)
next
  case (snoc l ls)
  obtain idx v where l: "l = (idx, v)" by fastforce
  have "batch_inv val_at (length ls) (batch_of alpha ls)" using snoc by simp
  moreover have "\<bar>v\<bar> = \<bar>val_at idx\<bar>" using snoc.prems(1) by (simp add: l)
  moreover have "length ls + 1 < 2 ^ 64" using snoc.prems(2) by simp
  ultimately show ?case using batch_inv_step [of val_at "length ls" "batch_of alpha ls" v idx] by (simp add: batch_of_def l)
qed

lemma batch_val:
  assumes "\<forall>(idx, v) \<in> set ls. \<bar>v\<bar> = \<bar>val_at idx\<bar>" and "length ls < 2 ^ 64 - 1"
  shows "unat (lb_sum (batch_of alpha ls)) = unat (table_side_sum (batch_of alpha ls) val_at)"
  using batch_inv_of [OF assms, of alpha] by (simp add: batch_inv_def table_side_val)

text \<open>
  A batch of lookups balances as soon as the absolute values are the table's: honest lookups do, and
  so does every batch with signs changed.
\<close>

lemma batch_balances:
  assumes "\<forall>(idx, v) \<in> set ls. \<bar>v\<bar> = \<bar>val_at idx\<bar>" and "length ls < 2 ^ 64 - 1"
  shows "lb_balanced (batch_of alpha ls) (table_side_sum (batch_of alpha ls) val_at)"
  unfolding lb_balanced_def using batch_val [OF assms] by (simp add: word_unat_eq_iff)

subsection \<open>The reciprocal table\<close>

lemma rcp_value: "0 < y \<Longrightarrow> y \<le> RCP_MAX \<Longrightarrow> rcp_lookup build_rcp_table y = (2 ^ 14 + int y div 2) div int y"
  by (cases y) (simp_all add: rcp_lookup_def build_rcp_table_def RCP_MAX_def nth_append del: upt_Suc)

text \<open>Within half a unit of the quotient.\<close>

lemma rcp_rounding:
  assumes "0 < y" "y \<le> RCP_MAX"
  shows "\<bar>rcp_lookup build_rcp_table y * int y - 2 ^ 14\<bar> \<le> int y div 2"
proof -
  let ?q = "(2 ^ 14 + int y div 2) div int y" and ?r = "(2 ^ 14 + int y div 2) mod int y"
  have "?q * int y + ?r = 2 ^ 14 + int y div 2" by (simp only: div_mult_mod_eq)
  moreover have "0 \<le> ?r" "?r < int y" using assms(1) by simp_all
  ultimately show ?thesis unfolding rcp_value [OF assms] by linarith
qed

subsection \<open>The model commitment\<close>

definition MP :: u64 where
  "MP = 2 ^ 61 - 1"

definition m_add :: "u64 \<Rightarrow> u64 \<Rightarrow> u64" where
  "m_add a b = (let r = a + b in if r \<ge> MP then r - MP else r)"

definition m_mul :: "u64 \<Rightarrow> u64 \<Rightarrow> u64" where
  "m_mul a b = (let r = (ucast a * ucast b :: u128) in ucast (r mod ucast MP))"

definition hash_word :: "bytes \<Rightarrow> u64" where
  "hash_word buf = le_word (take 8 (to_bytes (sha256d buf)))"

definition weight_digest :: "bytes \<Rightarrow> u64" where
  "weight_digest weights =
     foldl (\<lambda>h blk. m_add h (hash_word (ascii ''HSM_MDL_v1'' @ le_bytes 8 (of_nat blk :: u64) @ take 32 (drop (32 * blk) weights))))
       0 [0..<(length weights + 31) div 32] mod MP"

definition g_sense :: u64 where
  "g_sense = hash_word (ascii ''HSM_MDL_G2'') mod MP"

definition mc_commit :: "u64 \<Rightarrow> u64 \<Rightarrow> u64" where
  "mc_commit digest r = m_add (digest mod MP) (m_mul (r mod MP) g_sense)"

definition mc_opens :: "u64 \<Rightarrow> u64 \<Rightarrow> u64 \<Rightarrow> bool" where
  "mc_opens C digest r = (mc_commit digest r = C)"

type_synonym registry = "u64 \<rightharpoonup> u64"

definition register_model :: "registry \<Rightarrow> u64 \<Rightarrow> u64 \<Rightarrow> bool \<times> registry" where
  "register_model reg model_id C = (if reg model_id \<noteq> None then (False, reg) else (True, reg(model_id \<mapsto> C)))"

definition workload_admitted :: "registry \<Rightarrow> u64 \<Rightarrow> u64 \<Rightarrow> u64 \<Rightarrow> bool" where
  "workload_admitted reg model_id digest r = (case reg model_id of None \<Rightarrow> False | Some C \<Rightarrow> mc_opens C digest r)"

lemma MP_LP: "MP = LP" "m_add = lp_add" "m_mul = lp_mul"
proof -
  show e: "MP = LP" by (simp add: MP_def LP_def)
  show "m_add = lp_add" "m_mul = lp_mul" unfolding m_add_def lp_add_def m_mul_def lp_mul_def e fun_eq_iff by simp_all
qed

lemma mc_commit_val: "unat (mc_commit digest r) = (unat digest + unat r * unat g_sense) mod unat LP"
proof -
  have "unat (digest mod LP) < unat LP" by (simp add: unat_mod_distrib unat_LP)
  note a = lp_add_val(1) [OF this lp_mul_less [of "r mod LP" g_sense]]
  show ?thesis
    unfolding mc_commit_def MP_LP a
    by (simp add: lp_mul_val unat_mod_distrib mod_mult_left_eq mod_add_eq)
qed

lemma mod_linear: "(d + x * h mod l * g) mod l = (d + x * (g * h)) mod l" for d :: int
proof -
  have "x * h mod l * g mod l = x * (g * h) mod l" by (metis mod_mult_left_eq mult.assoc mult.commute)
  then show ?thesis by (metis mod_add_right_eq)
qed

text \<open>
  Every commitment opens to every digest: the opening is one linear equation, solvable as soon as the
  second base is invertible.
\<close>

lemma commitment_opens_to_any:
  assumes g: "coprime (unat g_sense) (unat LP)" and C: "unat C < unat LP"
  shows "\<exists>r. mc_opens C digest r"
proof -
  let ?L = "int (unat LP)"
  obtain h k where "h * int (unat g_sense) + k * ?L = gcd (int (unat g_sense)) ?L" using bezout_int by blast
  moreover have "gcd (int (unat g_sense)) ?L = 1" using g by (simp only: gcd_int_int_eq coprime_iff_gcd_eq_1 of_nat_1)
  ultimately have hk: "int (unat g_sense) * h = 1 - k * ?L" by (simp add: algebra_simps)
  define r where "r = (int (unat C) - int (unat digest)) * h mod ?L"
  have L: "0 < ?L" by (simp add: unat_LP)
  have r: "0 \<le> r" "r < ?L" using L by (simp_all add: r_def)
  define n where "n = nat r"
  have n: "int n = r" "n < unat LP" using r by (simp_all add: n_def nat_less_iff)
  have ur: "unat (of_nat n :: u64) = n" using n(2) by (simp add: unat_of_nat take_bit_nat_eq_self unat_LP)
  let ?c = "int (unat C)" and ?d = "int (unat digest)"
  have "(?d + r * int (unat g_sense)) mod ?L = (?d + (?c - ?d) * (int (unat g_sense) * h)) mod ?L"
    unfolding r_def by (rule mod_linear)
  also have "?d + (?c - ?d) * (int (unat g_sense) * h) = ?c + (?d - ?c) * k * ?L"
    unfolding hk by (simp add: algebra_simps)
  also have "(?c + (?d - ?c) * k * ?L) mod ?L = ?c" unfolding mod_mult_self1 of_nat_mod [symmetric] using C by (simp only: mod_less)
  finally have "(?d + r * int (unat g_sense)) mod ?L = ?c" .
  then have "(unat digest + n * unat g_sense) mod unat LP = unat C"
    unfolding n(1) [symmetric] by (metis (no_types, lifting) nat_int of_nat_add of_nat_mod of_nat_mult)
  then have "mc_commit digest (of_nat n) = C" by (simp only: word_unat_eq_iff mc_commit_val ur)
  then show ?thesis by (auto simp: mc_opens_def)
qed

lemma registered_model_kept:
  "register_model reg m C = (False, reg') \<longleftrightarrow> reg m \<noteq> None \<and> reg' = reg"
  by (auto simp: register_model_def)

end
