(* ===== verification/Softmax_Norm.thy ===== *)
theory Softmax_Norm
  imports Logup
begin

text \<open>
  The integer softmax over the certified tables, \<open>src/include/hsma/pouw/softmax.hpp\<close>, and the integer
  layer normalisation, \<open>src/include/hsma/pouw/layernorm.hpp\<close>. The tables are an argument, as in the
  code; unsigned 64-bit values are words, the signed ones integers.
\<close>

record Tables =
  tb_gelu :: "int list"
  tb_sigmoid :: "int list"
  tb_tanh :: "int list"
  tb_exp :: "int list"
  tb_rcp :: "int list"
  tb_rsqrt :: "int list"
  tb_certified :: bool

subsection \<open>Field elements as integers\<close>

definition fe_u64 :: "fe \<Rightarrow> u64 option" where
  "fe_u64 x =
     (let c = limbs (fe_to_canonical x)
      in if c ! 1 \<noteq> 0 \<or> c ! 2 \<noteq> 0 \<or> c ! 3 \<noteq> 0 then None else Some (c ! 0))"

definition fe_from_s64 :: "int \<Rightarrow> fe" where
  "fe_from_s64 v =
     (if v \<ge> 0 then fe_from_u64 (of_int v) else fe_sub fe_zero (fe_from_u64 (of_int (- v))))"

definition fe_to_s64 :: "fe \<Rightarrow> int option" where
  "fe_to_s64 x =
     (case fe_u64 x of
        Some v \<Rightarrow> Some (sint v)
      | None \<Rightarrow>
          (case fe_u64 (fe_sub fe_zero x) of
             None \<Rightarrow> None
           | Some a \<Rightarrow> if a \<ge> 2 ^ 62 then None else Some (- sint a)))"

subsection \<open>Softmax\<close>

record SoftmaxBatch =
  sb_exp :: LogUpBatch
  sb_rcp :: LogUpBatch

definition new_softmax_batch :: "u64 \<Rightarrow> SoftmaxBatch" where
  "new_softmax_batch alpha = \<lparr>sb_exp = new_batch (alpha * 2 + 1), sb_rcp = new_batch (alpha * 2 + 2)\<rparr>"

definition exp_at :: "Tables \<Rightarrow> u32 \<Rightarrow> int" where
  "exp_at T idx = (if idx = 256 then OUT_ONE else lookup_by_index (tb_exp T) (unat idx))"

definition rcp_at :: "Tables \<Rightarrow> u32 \<Rightarrow> int" where
  "rcp_at T idx = rcp_lookup (tb_rcp T) (unat idx)"

definition sb_balanced :: "SoftmaxBatch \<Rightarrow> (u32 \<Rightarrow> int) \<Rightarrow> (u32 \<Rightarrow> int) \<Rightarrow> bool" where
  "sb_balanced b ea ra \<longleftrightarrow>
     lb_balanced (sb_exp b) (table_side_sum (sb_exp b) ea) \<and> lb_balanced (sb_rcp b) (table_side_sum (sb_rcp b) ra)"

record SoftmaxResult =
  sr_ok :: bool
  sr_P :: "int list"
  sr_bad :: nat

text \<open>The table index of a positive distance from the row maximum.\<close>

definition exp_index :: "u64 \<Rightarrow> u64" where
  "exp_index diff = (let i256 = 256 - drop_bit 9 diff in if i256 > 255 then 0 else i256)"

text \<open>Index and value of one entry in the trace.\<close>

definition exp_entry :: "Tables \<Rightarrow> u64 \<Rightarrow> u64 \<Rightarrow> u32 \<times> int" where
  "exp_entry T m s =
     (let diff = m - s
      in if diff = 0 then (256, OUT_ONE)
         else (ucast (exp_index diff), lookup_by_index (tb_exp T) (unat (exp_index diff))))"

definition row_max :: "u64 list \<Rightarrow> u64" where
  "row_max row = foldl (\<lambda>m s. if s > m then s else m) 0 row"

definition row_entries :: "Tables \<Rightarrow> u64 list \<Rightarrow> (u32 \<times> int) list" where
  "row_entries T row = map (exp_entry T (row_max row)) row"

definition row_denom :: "(u32 \<times> int) list \<Rightarrow> u64" where
  "row_denom es = foldl (\<lambda>D (idx, ev). D + of_int ev) 0 es"

text \<open>The quotient is computed in unsigned 64 bits and narrowed to \<open>int\<close>.\<close>

definition row_quotient :: "int \<Rightarrow> int \<Rightarrow> int" where
  "row_quotient ev rc = sint (ucast (drop_bit 7 (of_int ev * of_int rc :: u64)) :: u32)"

fun softmax_loop :: "Tables \<Rightarrow> u64 list list \<Rightarrow> SoftmaxBatch \<Rightarrow> bool \<times> int list list \<times> SoftmaxBatch" where
  "softmax_loop T [] audit = (True, [], audit)"
| "softmax_loop T (row # rows) audit =
     (let es = row_entries T row;
          audit = audit\<lparr>sb_exp := foldl (\<lambda>b (idx, v). add_lookup b idx v) (sb_exp audit) es\<rparr>;
          D = row_denom es
      in if D = 0 \<or> D > of_nat RCP_MAX then (False, [], audit)
         else let rc = rcp_lookup (tb_rcp T) (unat D)
           in if rc = 0 then (False, [], audit)
              else let audit = audit\<lparr>sb_rcp := add_lookup (sb_rcp audit) (ucast D) rc\<rparr>;
                       (ok, Ps, audit) = softmax_loop T rows audit
                   in (ok, map (\<lambda>e. row_quotient (snd e) rc) es # Ps, audit))"

definition rows_of :: "nat \<Rightarrow> 'a list \<Rightarrow> 'a list list" where
  "rows_of seq xs = map (\<lambda>r. take seq (drop (r * seq) xs)) [0..<seq]"

text \<open>Rows that were not reached stay zero. The trace is returned; a caller without one drops it.\<close>

definition softmax_rows :: "fe list \<Rightarrow> nat \<Rightarrow> Tables \<Rightarrow> SoftmaxBatch \<Rightarrow> SoftmaxResult \<times> SoftmaxBatch" where
  "softmax_rows S seq T audit =
     (if seq = 0 \<or> length S \<noteq> seq * seq then (\<lparr>sr_ok = False, sr_P = [], sr_bad = 0\<rparr>, audit)
      else case find (\<lambda>k. case fe_u64 (S ! k) of None \<Rightarrow> True | Some v \<Rightarrow> v \<ge> 2 ^ 52) [0..<seq * seq] of
        Some k \<Rightarrow> (\<lparr>sr_ok = False, sr_P = [], sr_bad = k\<rparr>, audit)
      | None \<Rightarrow>
          let sq = map (\<lambda>x. the (fe_u64 x)) S;
              (ok, Ps, audit) = softmax_loop T (rows_of seq sq) audit
          in (\<lparr>sr_ok = ok, sr_P = concat Ps @ replicate (seq * seq - length (concat Ps)) 0, sr_bad = 0\<rparr>, audit))"

subsection \<open>Layer normalisation\<close>

definition EPS_Q14 :: u64 where "EPS_Q14 = 2"
definition INV_SQRT2_Q21 :: u64 where "INV_SQRT2_Q21 = 1482910"
definition SQRT2_Q21 :: u64 where "SQRT2_Q21 = 2965821"
definition LN_INPUT_MAX :: u64 where "LN_INPUT_MAX = 2 ^ 15"
definition LN_V_MAX :: u64 where "LN_V_MAX = 2 ^ 40"

function bitlen_u64 :: "u64 \<Rightarrow> nat" where
  "bitlen_u64 v = (if v = 0 then 0 else bitlen_u64 (drop_bit 1 v) + 1)"
  by pat_completeness auto
termination
  by (relation "measure unat") (auto simp: drop_bit_Suc unat_div intro!: div_less_dividend simp: unat_gt_0)

declare bitlen_u64.simps [simp del]

definition rsqrt_window :: "u64 \<Rightarrow> u64" where
  "rsqrt_window v = (let b = bitlen_u64 v in if b \<ge> 21 then drop_bit (b - 21) v else push_bit (21 - b) v)"

text \<open>
  The reader: table slot and fraction of the window, with the clamps; the interpolation; the exponent
  with the constants of the odd case. The parity is that of the exponent taken to 32 unsigned bits.
\<close>

definition rsqrt_slot :: "u64 \<Rightarrow> nat \<times> nat" where
  "rsqrt_slot v =
     (let w = rsqrt_window v;
          m8 = unat (drop_bit 13 w);
          frac = unat (w AND 8191);
          (m8, frac) = (if m8 < 128 then (128, 0) else (m8, frac))
      in if m8 > 255 then (255, 8191) else (m8, frac))"

definition rsqrt_interp :: "Tables \<Rightarrow> u64 \<Rightarrow> u64" where
  "rsqrt_interp T v =
     (let (m8, frac) = rsqrt_slot v;
          t0 = tb_rsqrt T ! (m8 - 128);
          t1 = tb_rsqrt T ! (m8 - 128 + 1)
      in of_int t0 + of_int ((t1 - t0) * int frac div 2 ^ 13))"

definition rsqrt_q14 :: "Tables \<Rightarrow> u64 \<Rightarrow> u64" where
  "rsqrt_q14 T v =
     (let e32 = int (bitlen_u64 v) - 21;
          t = rsqrt_interp T v;
          ep = unat (of_int e32 :: u32);
          en = (if e32 < 0 then nat (- e32) else 0)
      in if even ep then (if e32 \<ge> 0 then drop_bit (ep div 2) t else push_bit (en div 2) t)
         else if e32 \<ge> 1 then drop_bit ((ep - 1) div 2) (drop_bit 21 (t * INV_SQRT2_Q21))
         else push_bit ((en - 1) div 2) (drop_bit 21 (t * SQRT2_Q21)))"

record LayerNormResult =
  lr_ok :: bool
  lr_y :: "int list"
  lr_bad :: nat

definition ln_mean :: "u64 list \<Rightarrow> u64 \<Rightarrow> u64" where
  "ln_mean xq rc = drop_bit 14 (foldl (+) 0 xq * rc)"

definition ln_var :: "int list \<Rightarrow> u64 \<Rightarrow> u64" where
  "ln_var c rc = drop_bit 14 (foldl (\<lambda>s x. s + of_int (x * x)) 0 c * rc) + EPS_Q14"

definition ln_out :: "int \<Rightarrow> int \<Rightarrow> u64 \<Rightarrow> int \<Rightarrow> int" where
  "ln_out gamma beta iv c = ((c * sint iv div 2 ^ 14) * gamma) div 2 ^ 7 + beta"

text \<open>
  A row gives the number of lookups it made in the trace and its outputs, or the index of the entry
  that broke the contract.
\<close>

definition ln_row :: "Tables \<Rightarrow> int \<Rightarrow> int \<Rightarrow> u64 \<Rightarrow> nat \<Rightarrow> fe list \<Rightarrow> nat \<times> (nat + int list)" where
  "ln_row T gamma beta rc base xs =
     (case find (\<lambda>j. case fe_u64 (xs ! j) of None \<Rightarrow> True | Some v \<Rightarrow> v \<ge> LN_INPUT_MAX) [0..<length xs] of
        Some j \<Rightarrow> (1, Inl (base + j))
      | None \<Rightarrow>
          let xq = map (\<lambda>x. the (fe_u64 x)) xs;
              mu = ln_mean xq rc;
              c = map (\<lambda>x. sint x - sint mu) xq;
              v = ln_var c rc
          in if v \<ge> LN_V_MAX then (2, Inl base)
             else (2, Inr (map (ln_out gamma beta (rsqrt_q14 T v)) c)))"

fun ln_loop :: "Tables \<Rightarrow> int \<Rightarrow> int \<Rightarrow> nat \<Rightarrow> int \<Rightarrow> nat \<Rightarrow> fe list list \<Rightarrow> LogUpBatch \<Rightarrow> nat option \<times> int list \<times> LogUpBatch" where
  "ln_loop T gamma beta n rc base [] audit = (None, [], audit)"
| "ln_loop T gamma beta n rc base (row # rows) audit =
     (let (k, r) = ln_row T gamma beta (of_int rc) base row;
          audit = ((\<lambda>b. add_lookup b (of_nat n) rc) ^^ k) audit
      in case r of
           Inl bad \<Rightarrow> (Some bad, [], audit)
         | Inr y \<Rightarrow> let (res, ys, audit) = ln_loop T gamma beta n rc (base + n) rows audit in (res, y @ ys, audit))"

definition layernorm_rows :: "fe list \<Rightarrow> nat \<Rightarrow> nat \<Rightarrow> Tables \<Rightarrow> int \<Rightarrow> int \<Rightarrow> LogUpBatch \<Rightarrow> LayerNormResult \<times> LogUpBatch" where
  "layernorm_rows X rows n T gamma beta audit =
     (if rows = 0 \<or> n = 0 \<or> n > RCP_MAX \<or> length X \<noteq> rows * n then (\<lparr>lr_ok = False, lr_y = [], lr_bad = 0\<rparr>, audit)
      else let rc = rcp_lookup (tb_rcp T) n
        in if rc \<le> 0 then (\<lparr>lr_ok = False, lr_y = [], lr_bad = 0\<rparr>, audit)
           else let (res, ys, audit) = ln_loop T gamma beta n rc 0 (map (\<lambda>r. take n (drop (r * n) X)) [0..<rows]) audit;
                    y = ys @ replicate (rows * n - length ys) 0
                in case res of
                     Some k \<Rightarrow> (\<lparr>lr_ok = False, lr_y = y, lr_bad = k\<rparr>, audit)
                   | None \<Rightarrow> (\<lparr>lr_ok = True, lr_y = y, lr_bad = 0\<rparr>, audit))"

subsection \<open>Facts\<close>

text \<open>The index of a distance: the distances below one step fall on the far end of the table.\<close>

lemma exp_index_val: "unat (exp_index diff) = (if unat diff < 512 then 0 else 256 - unat diff div 512)"
proof -
  have d: "unat (drop_bit 9 diff) = unat diff div 512" by (simp add: drop_bit_eq_div unat_div)
  have b: "unat diff div 512 < 2 ^ 55" using unat_u64_lt [of diff] by (simp add: div_less_iff_less_mult)
  consider "unat diff div 512 = 0" | "0 < unat diff div 512" "unat diff div 512 \<le> 256" | "256 < unat diff div 512" by linarith
  then show ?thesis
  proof cases
    case 1
    then have "drop_bit 9 diff = 0" using d by (simp add: word_unat_eq_iff)
    then show ?thesis using 1 by (simp add: exp_index_def div_eq_0_iff)
  next
    case 2
    then have "drop_bit 9 diff \<le> 256" using d by (simp add: word_le_nat_alt)
    then have "unat (256 - drop_bit 9 diff) = 256 - unat diff div 512" by (simp add: unat_sub d)
    moreover have "\<not> 256 - drop_bit 9 diff > 255" using 2 calculation by (simp add: word_less_nat_alt)
    moreover have "\<not> unat diff < 512" using 2 by (auto simp: div_eq_0_iff)
    ultimately show ?thesis by (simp add: exp_index_def)
  next
    case 3
    have "unat (256 - drop_bit 9 diff) = 2 ^ 64 + 256 - unat diff div 512"
      using 3 b by (simp add: unat_sub_if_size word_size d)
    then have "256 - drop_bit 9 diff > 255" using b by (simp add: word_less_nat_alt)
    moreover have "\<not> unat diff < 512" using 3 by auto
    ultimately show ?thesis using 3 by (simp add: exp_index_def)
  qed
qed

lemma exp_entry_at: "exp_entry T m s = (idx, v) \<Longrightarrow> v = exp_at T idx"
proof -
  assume e: "exp_entry T m s = (idx, v)"
  have i: "unat (exp_index (m - s)) \<le> 255" by (auto simp: exp_index_val)
  then have u: "unat (ucast (exp_index (m - s)) :: u32) = unat (exp_index (m - s))"
    by (simp add: unsigned_ucast_eq take_bit_nat_eq_self)
  then have "(ucast (exp_index (m - s)) :: u32) \<noteq> 256" using i by auto
  then show ?thesis using e u by (auto simp: exp_entry_def exp_at_def Let_def split: if_splits)
qed

subsection \<open>The trace of a softmax balances\<close>

lemma add_exp_entries:
  "batch_inv (exp_at T) n b \<Longrightarrow> n + length es < 2 ^ 64 \<Longrightarrow> set es \<subseteq> range (exp_entry T m)
    \<Longrightarrow> batch_inv (exp_at T) (n + length es) (foldl (\<lambda>b (idx, v). add_lookup b idx v) b es)"
proof (induction es arbitrary: n b)
  case (Cons e es)
  obtain idx v where e: "e = (idx, v)" by fastforce
  have "v = exp_at T idx" using Cons.prems(3) exp_entry_at [of T m _ idx v] by (auto simp: e)
  then have "batch_inv (exp_at T) (n + 1) (add_lookup b idx v)" using Cons.prems by (intro batch_inv_step) simp_all
  then show ?case using Cons.IH [of "n + 1" "add_lookup b idx v"] Cons.prems by (simp add: e)
qed simp

lemma softmax_loop_batches:
  assumes "batch_inv (exp_at T) n (sb_exp a)" "batch_inv (rcp_at T) k (sb_rcp a)"
    "n + length (concat rows) < 2 ^ 64" "k + length rows < 2 ^ 64" "softmax_loop T rows a = (ok, Ps, a')"
  shows "\<exists>n' k'. batch_inv (exp_at T) n' (sb_exp a') \<and> batch_inv (rcp_at T) k' (sb_rcp a')"
  using assms
proof (induction rows arbitrary: a n k ok Ps)
  case (Cons row rows)
  let ?es = "row_entries T row" and ?D = "row_denom (row_entries T row)"
  let ?a = "a\<lparr>sb_exp := foldl (\<lambda>b (idx, v). add_lookup b idx v) (sb_exp a) ?es\<rparr>"
  let ?rc = "rcp_lookup (tb_rcp T) (unat ?D)"
  have l: "length ?es = length row" by (simp add: row_entries_def)
  have e: "batch_inv (exp_at T) (n + length row) (sb_exp ?a)"
    using add_exp_entries [of T n "sb_exp a" ?es "row_max row"] Cons.prems(1,3) l by (auto simp: row_entries_def)
  show ?case
  proof (cases "?D = 0 \<or> ?D > of_nat RCP_MAX \<or> ?rc = 0")
    case True
    then have "sb_exp a' = sb_exp ?a" "sb_rcp a' = sb_rcp a" using Cons.prems(5) by (auto simp: Let_def split: if_splits)
    then show ?thesis using e Cons.prems(2) by metis
  next
    case False
    let ?a2 = "?a\<lparr>sb_rcp := add_lookup (sb_rcp a) (ucast ?D) ?rc\<rparr>"
    obtain ok2 Ps2 a2 where r: "softmax_loop T rows ?a2 = (ok2, Ps2, a2)" by (rule prod_cases3)
    then have a2: "a2 = a'" using Cons.prems(5) False by (simp add: Let_def)
    have "?D \<le> of_nat RCP_MAX" using False by (simp add: not_less)
    then have "unat ?D \<le> 1024" by (simp add: RCP_MAX_def word_le_nat_alt)
    then have "unat (ucast ?D :: u32) = unat ?D" by (simp add: unsigned_ucast_eq take_bit_nat_eq_self)
    then have "\<bar>?rc\<bar> = \<bar>rcp_at T (ucast ?D)\<bar>" by (simp add: rcp_at_def)
    from batch_inv_step [OF Cons.prems(2) this] have "batch_inv (rcp_at T) (k + 1) (sb_rcp ?a2)"
      using Cons.prems(4) by simp
    then show ?thesis using Cons.IH [of "n + length row" ?a2 "k + 1", OF _ _ _ _ r [unfolded a2]] e Cons.prems(3,4) by auto
  qed
qed auto

lemma batch_inv_balanced: "batch_inv f n b \<Longrightarrow> lb_balanced b (table_side_sum b f)"
  by (simp add: batch_inv_def lb_balanced_def table_side_val word_unat_eq_iff)

lemma batch_inv_new: "batch_inv f 0 (new_batch alpha)"
  by (simp add: batch_inv_def new_batch_def unat_LP)

text \<open>Whatever the scores and the outcome, the trace the producer leaves balances against its own tables.\<close>

lemma softmax_trace_balances:
  assumes "seq * seq < 2 ^ 64"
  shows "sb_balanced (snd (softmax_rows S seq T (new_softmax_batch alpha))) (exp_at T) (rcp_at T)"
proof -
  let ?a = "new_softmax_batch alpha"
  have n: "batch_inv (exp_at T) 0 (sb_exp ?a)" "batch_inv (rcp_at T) 0 (sb_rcp ?a)"
    by (simp_all add: new_softmax_batch_def batch_inv_new)
  have b: "batch_inv (exp_at T) n' (sb_exp a') \<Longrightarrow> batch_inv (rcp_at T) k' (sb_rcp a')
      \<Longrightarrow> sb_balanced a' (exp_at T) (rcp_at T)" for n' k' a'
    by (simp add: sb_balanced_def batch_inv_balanced)
  have len: "length (concat (rows_of seq xs)) \<le> seq * seq" for xs :: "u64 list"
  proof -
    have "length (concat (rows_of seq xs)) = (\<Sum>r\<leftarrow>[0..<seq]. min seq (length xs - r * seq))"
      by (simp add: rows_of_def length_concat comp_def min.commute)
    also have "\<dots> \<le> (\<Sum>r\<leftarrow>[0..<seq]. seq)" by (rule sum_list_mono) simp
    finally show ?thesis by (simp add: sum_list_triv)
  qed
  have "seq \<le> seq * seq" by simp
  then have s: "seq < 2 ^ 64" using assms by linarith
  obtain ok Ps a' where r: "softmax_loop T (rows_of seq (map (\<lambda>x. the (fe_u64 x)) S)) ?a = (ok, Ps, a')" by (rule prod_cases3)
  have "0 + length (concat (rows_of seq (map (\<lambda>x. the (fe_u64 x)) S))) < 2 ^ 64"
    using len [of "map (\<lambda>x. the (fe_u64 x)) S"] assms by linarith
  moreover have "0 + length (rows_of seq (map (\<lambda>x. the (fe_u64 x)) S)) < 2 ^ 64" using s by (simp add: rows_of_def)
  ultimately obtain n' k' where "batch_inv (exp_at T) n' (sb_exp a')" "batch_inv (rcp_at T) k' (sb_rcp a')"
    using softmax_loop_batches [OF n _ _ r] by blast
  then show ?thesis using b [OF n] b [of n' a' k'] r
    by (auto simp: softmax_rows_def Let_def split: option.splits)
qed

subsection \<open>Weights\<close>

lemma rcp_bounds:
  assumes y: "0 < y" "y \<le> 1024"
  shows "0 \<le> rcp_lookup build_rcp_table y" "rcp_lookup build_rcp_table y \<le> 2 ^ 15"
    "rcp_lookup build_rcp_table y * int y \<le> 2 ^ 14 + 512"
proof -
  let ?rc = "rcp_lookup build_rcp_table y"
  have v: "?rc = int ((2 ^ 14 + y div 2) div y)" using rcp_value [of y] y by (simp add: RCP_MAX_def zdiv_int)
  show "0 \<le> ?rc" unfolding v by (rule of_nat_0_le_iff)
  have "(2 ^ 14 + y div 2) div y * y \<le> 2 ^ 14 + 512" using y by (intro order_trans [OF div_times_less_eq_dividend]) simp
  then have "int ((2 ^ 14 + y div 2) div y * y) \<le> int (2 ^ 14 + 512)" by (simp only: of_nat_le_iff)
  then show p: "?rc * int y \<le> 2 ^ 14 + 512" unfolding v by simp
  have "?rc * 1 \<le> ?rc * int y" using \<open>0 \<le> ?rc\<close> y(1) by (intro mult_left_mono) simp_all
  then show "?rc \<le> 2 ^ 15" using p by simp
qed

text \<open>
  The weights of a row sum to at most the scaled reciprocal of the denominator times the denominator,
  within four units of one.
\<close>

lemma row_sum_bound:
  assumes es: "\<forall>(idx, ev) \<in> set es. 0 \<le> ev \<and> ev \<le> 128" and l: "length es < 2 ^ 32"
    and D: "0 < row_denom es" "row_denom es \<le> of_nat RCP_MAX"
  shows "(\<Sum>e\<leftarrow>es. row_quotient (snd e) (rcp_lookup build_rcp_table (unat (row_denom es)))) \<le> 132"
proof -
  let ?D = "unat (row_denom es)"
  let ?rc = "rcp_lookup build_rcp_table ?D"
  have den: "unat (foldl (\<lambda>D (idx, ev). D + of_int ev) d es) = unat d + nat (\<Sum>e\<leftarrow>es. snd e) \<and> 0 \<le> (\<Sum>e\<leftarrow>es. snd e)"
    if "\<forall>(idx, ev) \<in> set es. 0 \<le> ev \<and> ev \<le> 128" "unat d + 128 * length es < 2 ^ 64" for d :: u64 and es :: "(u32 \<times> int) list"
    using that
  proof (induction es arbitrary: d)
    case (Cons e es)
    obtain i v where e: "e = (i, v)" by fastforce
    have v: "0 \<le> v" "v \<le> 128" using Cons.prems by (auto simp: e)
    have "uint (of_int v :: u64) = v" using v by (simp add: uint_word_of_int)
    then have "unat (of_int v :: u64) = nat v" by (simp only: unat_eq_nat_uint)
    then have u: "unat (d + of_int v) = unat d + nat v" using Cons.prems(2) v by (simp add: unat_word_ariths)
    have "unat (d + of_int v) + 128 * length es < 2 ^ 64" using Cons.prems(2) v u by simp
    then show ?case using Cons.IH [of "d + of_int v"] Cons.prems(1) u v by (auto simp: e nat_add_distrib)
  qed simp
  have sum: "(\<Sum>e\<leftarrow>es. snd e) = int ?D" using den [of es 0] es l by (simp add: row_denom_def)
  have d: "0 < ?D" "?D \<le> 1024" using D by (simp_all add: word_less_nat_alt word_le_nat_alt RCP_MAX_def)
  note rc = rcp_bounds [OF d]
  have q: "row_quotient ev ?rc = ev * ?rc div 128" if "0 \<le> ev" "ev \<le> 128" for ev
  proof -
    have p: "0 \<le> ev * ?rc" "ev * ?rc \<le> 128 * 2 ^ 15" using that rc mult_mono [of ev 128 ?rc "2 ^ 15"] by simp_all
    have "uint (of_int ev * of_int ?rc :: u64) = ev * ?rc"
      using p by (simp add: uint_word_of_int flip: of_int_mult)
    then have u: "uint (drop_bit 7 (of_int ev * of_int ?rc :: u64)) = ev * ?rc div 128"
      by (simp add: drop_bit_eq_div uint_div)
    have "ev * ?rc div 128 \<le> 2 ^ 15" "0 \<le> ev * ?rc div 128" using p zdiv_mono1 [of "ev * ?rc" "128 * 2 ^ 15" 128] by (simp_all add: pos_imp_zdiv_nonneg_iff)
    then show ?thesis
      unfolding row_quotient_def
      unfolding ucast_eq u by (simp add: int_word_sint)
  qed
  have "128 * (\<Sum>e\<leftarrow>es. row_quotient (snd e) ?rc) \<le> (\<Sum>e\<leftarrow>es. snd e * ?rc)"
    unfolding sum_list_const_mult [symmetric]
  proof (rule sum_list_mono)
    fix e assume "e \<in> set es"
    then show "128 * row_quotient (snd e) ?rc \<le> snd e * ?rc" using es q [of "snd e"] by (auto simp: case_prod_beta)
  qed
  also have "\<dots> = int ?D * ?rc" by (simp add: sum_list_mult_const sum)
  also have "\<dots> \<le> 2 ^ 14 + 512" unfolding mult.commute [of "int ?D"] by (rule rc(3))
  finally show ?thesis by simp
qed

subsection \<open>Signed integers and field elements\<close>

lemma fe_u64_eq:
  "fe_u64 x = (if fe_val (fe_to_canonical x) < 2 ^ 64 then Some (of_nat (fe_val (fe_to_canonical x))) else None)"
proof -
  obtain a b c d where x: "fe_to_canonical x = Fe a b c d" by (cases "fe_to_canonical x")
  have v: "fe_val (Fe a b c d) = unat a + 2 ^ 64 * (unat b + 2 ^ 64 * (unat c + 2 ^ 64 * unat d))" for a b c d
    by (simp add: fe_val_def algebra_simps)
  have "fe_val (Fe a b c d) < 2 ^ 64 \<longleftrightarrow> unat b + 2 ^ 64 * (unat c + 2 ^ 64 * unat d) = 0"
    unfolding v using unat_u64_lt [of a] by auto
  then have "fe_val (Fe a b c d) < 2 ^ 64 \<longleftrightarrow> b = 0 \<and> c = 0 \<and> d = 0" by (simp add: unat_eq_0)
  then show ?thesis by (auto simp: fe_u64_def x v Let_def)
qed

lemma fe_to_s64_from:
  assumes "\<bar>v\<bar> < 2 ^ 62"
  shows "fe_to_s64 (fe_from_s64 v) = Some v"
proof -
  have enter: "fe_val (fe_to_canonical (fe_from_u64 w)) = unat w" for w
    unfolding fe_from_u64_def by (subst fe_leave_enter) (simp_all add: canonical_small fe_val_def)
  have s: "sint (of_int n :: u64) = n" "unat (of_int n :: u64) = nat n" if "0 \<le> n" "n < 2 ^ 62" for n :: int
  proof -
    have "uint (of_int n :: u64) = n" using that by (simp add: uint_word_of_int)
    then show "unat (of_int n :: u64) = nat n" by (simp only: unat_eq_nat_uint)
    show "sint (of_int n :: u64) = n" using that by (simp add: int_word_sint)
  qed
  show ?thesis
  proof (cases "0 \<le> v")
    case True
    then have "fe_u64 (fe_from_s64 v) = Some (of_int v)"
      using s [of v] assms by (simp add: fe_from_s64_def fe_u64_eq enter)
    then show ?thesis using True s [of v] assms by (simp add: fe_to_s64_def)
  next
    case False
    let ?w = "of_int (- v) :: u64" and ?x = "fe_sub fe_zero (fe_from_u64 (of_int (- v)))"
    have w: "unat ?w = nat (- v)" "sint ?w = - v" using s [of "- v"] False assms by simp_all
    have c: "is_canonical ?x" by (simp add: canonical_zero pallas.canon_sub)
    have d: "fe_dec ?x = - of_nat (nat (- v))" using w by (simp add: fe_dec_sub canonical_zero fe_dec_zero fe_dec_from_u64)
    let ?n = "fe_val (fe_to_canonical ?x)"
    have "(of_nat ?n :: pallas) = - of_nat (nat (- v))" using of_nat_to_canonical [OF c] d by simp
    then have "(of_nat (?n + nat (- v)) :: pallas) = of_nat 0" by simp
    then have m: "(?n + nat (- v)) mod pallas_p = 0" by (simp only: of_nat_pallas) simp
    have n: "\<not> ?n < 2 ^ 64"
    proof
      assume "?n < 2 ^ 64"
      then have "?n + nat (- v) < pallas_p" using assms by (simp add: pallas_p_eq)
      then show False using m False by simp
    qed
    have bk: "fe_sub fe_zero ?x = fe_from_u64 ?w"
      using c by (intro fe_dec_inj) (simp_all add: fe_dec_sub canonical_zero fe_dec_zero pallas.canon_sub)
    have u1: "fe_u64 ?x = None" unfolding fe_u64_eq using n by simp
    have u2: "fe_u64 (fe_from_u64 ?w) = Some ?w" unfolding fe_u64_eq enter using unat_u64_lt [of ?w] by simp
    have "\<not> ?w \<ge> 2 ^ 62" using w(1) assms by (simp add: word_le_nat_alt)
    then show ?thesis using False u1 u2 w(2) bk by (simp add: fe_to_s64_def fe_from_s64_def)
  qed
qed

subsection \<open>The window of the square root\<close>

lemma bitlen_bounds: "v \<noteq> 0 \<Longrightarrow> 0 < bitlen_u64 v \<and> 2 ^ (bitlen_u64 v - 1) \<le> unat v \<and> unat v < 2 ^ bitlen_u64 v"
proof (induction v rule: bitlen_u64.induct)
  case (1 v)
  let ?h = "drop_bit 1 v"
  have h: "unat ?h = unat v div 2" by (simp add: drop_bit_Suc unat_div)
  have b: "bitlen_u64 v = bitlen_u64 ?h + 1" using "1.prems" by (simp add: bitlen_u64.simps [of v])
  show ?case
  proof (cases "?h = 0")
    case True
    then have "unat v div 2 = 0" using h by simp
    moreover have "0 < unat v" using "1.prems" by (simp add: unat_gt_0)
    moreover have "bitlen_u64 0 = 0" by (simp add: bitlen_u64.simps)
    ultimately show ?thesis using b True by simp
  next
    case False
    then have i: "0 < bitlen_u64 ?h" "2 ^ (bitlen_u64 ?h - 1) \<le> unat v div 2" "unat v div 2 < 2 ^ bitlen_u64 ?h"
      using "1.IH" "1.prems" h by simp_all
    then have "2 * 2 ^ (bitlen_u64 ?h - 1) \<le> unat v" by simp
    moreover have "(2::nat) * 2 ^ (bitlen_u64 ?h - 1) = 2 ^ bitlen_u64 ?h" using i(1) by (simp flip: power_Suc)
    ultimately show ?thesis using i(3) b by simp
  qed
qed

lemma rsqrt_window_range:
  assumes v: "v \<noteq> 0"
  shows "2 ^ 20 \<le> unat (rsqrt_window v) \<and> unat (rsqrt_window v) < 2 ^ 21"
proof -
  let ?b = "bitlen_u64 v"
  note b = bitlen_bounds [OF v]
  show ?thesis
  proof (cases "?b \<ge> 21")
    case True
    have w: "unat (rsqrt_window v) = unat v div 2 ^ (?b - 21)"
      using True by (simp add: rsqrt_window_def Let_def unat_drop_bit_eq drop_bit_eq_div [where 'a = nat])
    have "(2::nat) ^ (?b - 1) = 2 ^ 20 * 2 ^ (?b - 21)" "(2::nat) ^ ?b = 2 ^ 21 * 2 ^ (?b - 21)"
      using True by (simp_all only: power_add [symmetric]) simp_all
    then have "2 ^ 20 * 2 ^ (?b - 21) \<le> unat v" "unat v < 2 ^ 21 * 2 ^ (?b - 21)" using b by simp_all
    then show ?thesis unfolding w by (simp add: less_eq_div_iff_mult_less_eq div_less_iff_less_mult)
  next
    case False
    have e: "(2::nat) ^ (?b - 1) * 2 ^ (21 - ?b) = 2 ^ 20" "(2::nat) ^ ?b * 2 ^ (21 - ?b) = 2 ^ 21"
      using False b by (simp_all only: power_add [symmetric]) simp_all
    have le: "2 ^ 20 \<le> unat v * 2 ^ (21 - ?b)" "unat v * 2 ^ (21 - ?b) < 2 ^ 21"
      unfolding e [symmetric] using b by (auto intro: mult_le_mono1)
    have "unat (push_bit (21 - ?b) v) = unat v * 2 ^ (21 - ?b)"
      using le(2) by (simp add: unsigned_push_bit_eq push_bit_eq_mult [where 'a = nat] take_bit_nat_eq_self)
    then show ?thesis using False le by (simp add: rsqrt_window_def Let_def)
  qed
qed

text \<open>The window keeps the slot inside the table: neither clamp ever fires.\<close>

lemma rsqrt_slot_exact:
  assumes v: "v \<noteq> 0"
  shows "rsqrt_slot v = (unat (rsqrt_window v) div 2 ^ 13, unat (rsqrt_window v) mod 2 ^ 13)
    \<and> 128 \<le> fst (rsqrt_slot v) \<and> fst (rsqrt_slot v) \<le> 255 \<and> snd (rsqrt_slot v) < 2 ^ 13"
proof -
  let ?w = "rsqrt_window v"
  note w = rsqrt_window_range [OF v]
  have m: "unat (drop_bit 13 ?w) = unat ?w div 2 ^ 13" by (simp add: drop_bit_eq_div unat_div)
  have "?w AND 8191 = take_bit 13 ?w" by (simp add: take_bit_eq_mask mask_eq_exp_minus_1)
  then have f: "unat (?w AND 8191) = unat ?w mod 2 ^ 13" by (simp add: take_bit_eq_mod unat_mod)
  have "128 \<le> unat ?w div 2 ^ 13" "unat ?w div 2 ^ 13 < 256"
    using w by (simp_all add: less_eq_div_iff_mult_less_eq div_less_iff_less_mult)
  then show ?thesis by (simp add: rsqrt_slot_def Let_def m f)
qed

end
