(* ===== verification/Epoch.thy ===== *)
theory Epoch
  imports Fold Envelope Digest_Scalar
begin

text \<open>
  The epoch pipeline of \<open>src/include/hsma/epoch.hpp\<close> (the order of the envelopes, its root as a field
  element, the fold of the entries) and the certificate check of \<open>src/include/hsma/lightclient.hpp\<close>.
  A read of memory that the code has not written, or beyond a vector, is \<^const>\<open>None\<close>, and so is the
  abort of the hash to the curve. The debugging output is left out, but not the read it does.
\<close>

subsection \<open>epoch.hpp\<close>

record EpochResult =
  er_acc :: Accumulator
  er_final_root :: Handle
  er_order_root :: fe
  er_count :: u32

definition empty_accumulator :: Accumulator where
  "empty_accumulator = \<lparr>acc_digest = fe_zero, acc_count = 0, acc_pc = 0\<rparr>"

text \<open>The ciphertext hashes; the serialisation of an infinite point leaves its buffer unwritten.\<close>

definition epoch_cths :: "G2Pt list \<Rightarrow> bytes list \<Rightarrow> bytes list option" where
  "epoch_cths Rs cts =
     (if length cts < length Rs then None
      else those (map (\<lambda>i. map_option (\<lambda>rs. ct_hash rs (cts ! i)) (ser_g2 (Rs ! i))) [0..<length Rs]))"

definition epoch_sorted :: "bytes \<Rightarrow> bytes list \<Rightarrow> bytes list" where
  "epoch_sorted beacon cths = map (\<lambda>i. cths ! i) (key_order (map (m2_sort_key beacon) cths))"

text \<open>At most eight subtractions of the modulus, then the lift.\<close>

fun reduce_raw :: "nat \<Rightarrow> fe \<Rightarrow> fe" where
  "reduce_raw 0 x = x"
| "reduce_raw (Suc n) x = (if is_canonical x then x else reduce_raw n (fe_of_limbs (sub_assumed (limbs x) MOD)))"

definition order_scalar :: "bytes \<Rightarrow> fe" where
  "order_scalar oroot = fe_from_canonical_limbs (limbs (reduce_raw 8 (fe_of_limbs (bytes_to_limbs oroot))))"

definition epoch_run :: "Vault \<Rightarrow> Handle \<Rightarrow> fe \<Rightarrow> bytes \<Rightarrow> DecreeEntry list \<Rightarrow> G2Pt list \<Rightarrow> bytes list
    \<Rightarrow> (Vault \<times> EpochResult) option" where
  "epoch_run v initial_root prev_digest beacon entries Rs cts =
     (case epoch_cths Rs cts of None \<Rightarrow> None | Some cths \<Rightarrow>
        let srt = epoch_sorted beacon cths
        in if srt = [] then None
           else let oroot = order_scalar (order_root srt);
                    acc0 = fold_head empty_accumulator prev_digest oroot
             in case fold_entries v acc0 initial_root entries of None \<Rightarrow> None
                | Some (vds, v', acc, root) \<Rightarrow>
                    Some (v', \<lparr>er_acc = fold_close acc, er_final_root = root, er_order_root = oroot,
                               er_count = ucast (acc_count acc)\<rparr>))"

subsection \<open>lightclient.hpp\<close>

definition TAG_CERT :: bytes where "TAG_CERT = ascii ''HSM_CERT_v1''"
definition PRE_LEN :: nat where "PRE_LEN = length TAG_CERT + 8 + 8 + 32 + 32 + 32"

record LcHeader =
  lh_height :: u64
  lh_epoch :: u64
  lh_state_root :: bytes
  lh_digest :: fe
  lh_beacon :: bytes

definition lc_preimage :: "LcHeader \<Rightarrow> bytes" where
  "lc_preimage h =
     TAG_CERT @ le_bytes 8 (lh_height h) @ le_bytes 8 (lh_epoch h) @ take 32 (lh_state_root h)
     @ fe_to_le_bytes (lh_digest h) @ take 32 (lh_beacon h)"

definition may_sync :: "u64 \<Rightarrow> bool \<Rightarrow> bool" where
  "may_sync height has_cert \<longleftrightarrow> \<not> (height = 0 \<and> \<not> has_cert)"

definition lc_verify :: "LcHeader \<Rightarrow> bool \<Rightarrow> fe6 \<Rightarrow> fe6 \<Rightarrow> G2Pt \<Rightarrow> fe \<Rightarrow> fe \<Rightarrow> bool option" where
  "lc_verify h has_cert sigx sigy Y prev_digest decree_root =
     (if \<not> may_sync (lh_height h) has_cert then Some False
      else if poseidon3 HSM_FOLD_v1 prev_digest decree_root \<noteq> lh_digest h then Some False
      else case hash_to_g1 (lc_preimage h) of None \<Rightarrow> None
        | Some H \<Rightarrow> (case to_affine H of None \<Rightarrow> Some False
            | Some (hx, hy) \<Rightarrow> Some (bls_verify_aff sigx sigy hx hy Y)))"

subsection \<open>The order root\<close>

lemma can_sub_p_sub: "length l = 4 \<Longrightarrow> can_sub_p l = sub_assumed l MOD"
proof -
  assume l: "length l = 4"
  have m: "length l = length MOD" "\<forall>p \<in> set MOD. p \<noteq> - 1" using l by (simp_all add: MOD_def)
  show ?thesis using borrow_sub_loop [OF m, of False] by (simp only: can_sub_p_def sub_assumed_def of_bool_eq)
qed

lemma length_sub_assumed: "length l = 4 \<Longrightarrow> length (sub_assumed l MOD) = 4"
  using sub_loop_length [of l MOD False] by (simp add: sub_assumed_def MOD_def)

lemma reduce_raw_limbs: "length l = 4 \<Longrightarrow> limbs (reduce_raw n (fe_of_limbs l)) = reduce_p n l"
proof (induction n l rule: reduce_p.induct)
  case (2 n l)
  then show ?case
    by (simp add: can_geq_p_def is_canonical_def geq_def can_sub_p_sub length_sub_assumed)
qed simp

text \<open>The order root is the digest modulo the field prime, the same element as \<open>digest_scalar\<close>.\<close>

lemma order_scalar_digest: "order_scalar d = digest_scalar d"
  unfolding order_scalar_def digest_scalar_def by (subst reduce_raw_limbs) (simp_all add: bytes_to_limbs_def)

lemma epoch_sorted_sort: "epoch_sorted beacon cths = sort_key (m2_sort_key beacon) cths"
proof -
  let ?f = "\<lambda>i. cths ! i"
  have "key_order (map (m2_sort_key beacon) cths) = sort_key (\<lambda>i. m2_sort_key beacon (?f i)) [0..<length cths]"
    unfolding key_order_def length_map by (intro sort_key_agree) simp
  then show ?thesis
    unfolding epoch_sorted_def by (simp only: map_sort_key [of ?f "m2_sort_key beacon"] map_nth)
qed

text \<open>One envelope: its hash, when the point serialises.\<close>

definition envelope_cth :: "G2Pt \<times> bytes \<Rightarrow> bytes option" where
  "envelope_cth e = map_option (\<lambda>rs. ct_hash rs (snd e)) (ser_g2 (fst e))"

lemma epoch_cths_zip: "length Rs = length cts \<Longrightarrow> epoch_cths Rs cts = those (map envelope_cth (zip Rs cts))"
  unfolding epoch_cths_def by (auto intro!: arg_cong [where f = those] nth_equalityI simp: envelope_cth_def)

lemma those_mset:
  "mset xs = mset ys \<Longrightarrow> those xs = Some a \<Longrightarrow> \<exists>b. those ys = Some b \<and> mset a = mset b"
proof -
  have s: "those xs = Some a \<longleftrightarrow> xs = map Some a" for xs :: "'a option list" and a
    by (induction xs arbitrary: a) (auto split: option.splits simp: map_eq_Cons_conv)
  assume m: "mset xs = mset ys" and x: "those xs = Some a"
  have "xs = map Some a" using x s by blast
  then have sy: "set ys = Some ` set a" using mset_eq_setD [OF m] by simp
  then have "map (Some \<circ> the) ys = ys" by (intro map_idI) auto
  then have y: "ys = map Some (map the ys)" by simp
  have "mset (map the ys) = mset a"
    using m \<open>xs = map Some a\<close> by (metis list.map_comp list.map_id0 id_apply map_idI mset_map comp_apply option.sel)
  then show ?thesis using y s by metis
qed

text \<open>
  The result of an epoch does not depend on the order in which the envelopes arrive, as long as the
  sorting keys of different ciphertexts differ.
\<close>

lemma epoch_run_order_free:
  assumes l: "length Rs = length cts" "length Rs' = length cts'" and m: "mset (zip Rs cts) = mset (zip Rs' cts')"
    and c: "epoch_cths Rs cts = Some cths" and inj: "inj_on (m2_sort_key beacon) (set cths)"
  shows "epoch_run v root prev beacon es Rs' cts' = epoch_run v root prev beacon es Rs cts"
proof -
  have "mset (map envelope_cth (zip Rs cts)) = mset (map envelope_cth (zip Rs' cts'))" using m by simp
  moreover have "those (map envelope_cth (zip Rs cts)) = Some cths" using c by (simp add: epoch_cths_zip l)
  ultimately obtain cths' where c': "those (map envelope_cth (zip Rs' cts')) = Some cths'" and mm: "mset cths = mset cths'"
    using those_mset by blast
  have "epoch_sorted beacon cths' = epoch_sorted beacon cths"
    unfolding epoch_sorted_sort using sort_key_eq_sort_key [OF mm inj] by simp
  then show ?thesis using c c' by (simp add: epoch_run_def epoch_cths_zip l)
qed

subsection \<open>The result\<close>

text \<open>Transactions one after the other, all executed.\<close>

fun store_run :: "Vault \<times> Handle \<Rightarrow> Transaction list \<Rightarrow> (Vault \<times> Handle) option" where
  "store_run st [] = Some st"
| "store_run st (t # ts) = (case store_tx smt_get smt_put st t of Some (OK, st') \<Rightarrow> store_run st' ts | _ \<Rightarrow> None)"

lemma fold_entries_ledger:
  "fold_entries v acc root es = Some (vds, v', acc', root') \<Longrightarrow> \<forall>vd \<in> set vds. vd = OK_EXEC
    \<Longrightarrow> store_run (v, root) (map entry_tx es) = Some (v', root')"
proof (induction es arbitrary: v acc root vds)
  case (Cons e es)
  from Cons.prems(1) obtain vd v1 fs vds' where
    1: "f_exec v \<lparr>state_root = root, digest = acc_digest acc\<rparr> e = Some (vd, v1, fs)"
    and 2: "fold_entries v1 (acc\<lparr>acc_digest := digest fs,
        acc_count := (if vd = OK_EXEC \<or> vd = OK_SKIP then acc_count acc + 1 else acc_count acc)\<rparr>)
        (state_root fs) es = Some (vds', v', acc', root')" and vds: "vds = vd # vds'"
    by (auto simp: fold_step_def split: option.splits prod.splits)
  have "store_tx smt_get smt_put (v, root) (entry_tx e) = Some (OK, (v1, state_root fs))"
    using f_exec_store_tx [of v "\<lparr>state_root = root, digest = acc_digest acc\<rparr>" e v1 fs] 1 vds Cons.prems(2) by simp
  then show ?case using Cons.IH [OF 2] vds Cons.prems(2) by simp
qed simp

lemma epoch_run_result:
  assumes "epoch_run v root prev beacon es Rs cts = Some (v', r)"
  obtains vds acc where "fold_entries v (fold_head empty_accumulator prev (er_order_root r)) root es = Some (vds, v', acc, er_final_root r)"
    and "er_acc r = fold_close acc" and "er_count r = ucast (acc_count acc)"
  using assms by (auto simp: epoch_run_def Let_def split: option.splits if_splits)

text \<open>The accumulator of an epoch, from its head to its close.\<close>

lemma epoch_run_digest:
  assumes run: "epoch_run v root prev beacon es Rs cts = Some (v', r)"
  obtains hs where "acc_digest (er_acc r) = f_close (absorb (f_head prev (er_order_root r)) hs) (of_nat (length hs))"
    and "er_count r = of_nat (length hs)" and "acc_pc (er_acc r) = 2" and "length hs \<le> length es"
    and "set hs \<subseteq> pt_hash ` set es"
proof -
  obtain vds acc where f: "fold_entries v (fold_head empty_accumulator prev (er_order_root r)) root es = Some (vds, v', acc, er_final_root r)"
    and a: "er_acc r = fold_close acc" and c: "er_count r = ucast (acc_count acc)"
    using epoch_run_result [OF run] .
  let ?hs = "map (pt_hash \<circ> fst) (filter (accepted \<circ> snd) (zip es vds))"
  note F = fold_entries_acc [OF f]
  have n: "length (filter accepted vds) = length ?hs"
  proof -
    have "filter accepted vds = map snd (filter (accepted \<circ> snd) (zip es vds))"
      using F by (simp add: filter_map [symmetric])
    then show ?thesis by simp
  qed
  have "acc_count acc = of_nat (length ?hs)" using F n by (simp add: fold_head_def)
  then have "er_count r = of_nat (length ?hs)"
    unfolding c by (simp add: unsigned_of_nat word_of_nat_eq_iff)
  moreover have "acc_digest (er_acc r) = f_close (absorb (f_head prev (er_order_root r)) ?hs) (of_nat (length ?hs))"
    using F n by (simp add: a fold_close_def fold_head_def)
  moreover have "length ?hs \<le> length es" using F by (simp add: le_trans [OF length_filter_le])
  moreover have "set ?hs \<subseteq> pt_hash ` set es" by (auto dest: set_zip_leftD)
  moreover have "acc_pc (er_acc r) = 2" by (simp add: a fold_close_def)
  ultimately show thesis by (intro that)
qed

subsection \<open>The light client\<close>

lemma length_lc_preimage:
  "length (lh_state_root h) = 32 \<Longrightarrow> length (lh_beacon h) = 32 \<Longrightarrow> length (lc_preimage h) = PRE_LEN"
  by (simp add: lc_preimage_def PRE_LEN_def fe_to_le_bytes_def length_limbs_to_bytes)

text \<open>The preimage determines every field of the header.\<close>

lemma lc_preimage_inj:
  assumes "lc_preimage h = lc_preimage h'" and "length (lh_state_root h) = 32" "length (lh_beacon h) = 32"
    and "length (lh_state_root h') = 32" "length (lh_beacon h') = 32"
    and "is_canonical (lh_digest h)" "is_canonical (lh_digest h')"
  shows "h = h'"
proof -
  have e: "le_bytes 8 (lh_height h) = le_bytes 8 (lh_height h')" "le_bytes 8 (lh_epoch h) = le_bytes 8 (lh_epoch h')"
    "lh_state_root h = lh_state_root h'" "fe_to_le_bytes (lh_digest h) = fe_to_le_bytes (lh_digest h')"
    "lh_beacon h = lh_beacon h'"
    using assms(1-5) by (simp_all add: lc_preimage_def fe_to_le_bytes_def length_limbs_to_bytes)
  have "lh_height h = lh_height h'" "lh_epoch h = lh_epoch h'" using e(1,2) by (simp_all add: le_bytes_inject)
  moreover have "\<lparr>ffb_ok = True, ffb_value = lh_digest h\<rparr> = \<lparr>ffb_ok = True, ffb_value = lh_digest h'\<rparr>"
    unfolding fe_from_to_bytes [OF assms(6), symmetric] fe_from_to_bytes [OF assms(7), symmetric] e(4) ..
  then have "lh_digest h = lh_digest h'" by simp
  ultimately show ?thesis using e by (simp add: LcHeader.equality)
qed

lemma lc_verify_accepts:
  "lc_verify h has_cert sx sy Y prev droot = Some True \<longleftrightarrow>
    (lh_height h \<noteq> 0 \<or> has_cert) \<and> lh_digest h = f_head prev droot
    \<and> (\<exists>H hx hy. hash_to_g1 (lc_preimage h) = Some H \<and> to_affine H = Some (hx, hy) \<and> bls_verify_aff sx sy hx hy Y)"
  by (auto simp: lc_verify_def may_sync_def f_head_def split: option.splits)

text \<open>
  The check recomputes the head of the fold only: a header that carries the closed digest of its epoch
  is accepted only where the closing hash collides with the head.
\<close>

lemma closed_header_collides:
  assumes "epoch_run v root prev beacon es Rs cts = Some (v', r)" and "lh_digest h = acc_digest (er_acc r)"
    and "lc_verify h has_cert sx sy Y prev (er_order_root r) = Some True"
  shows "\<exists>d n. poseidon3 HSM_FOLD_v1 d (fe_from_u64 n) = poseidon3 HSM_FOLD_v1 prev (er_order_root r)"
proof -
  obtain hs where "acc_digest (er_acc r) = f_close (absorb (f_head prev (er_order_root r)) hs) (of_nat (length hs))"
    using epoch_run_digest [OF assms(1)] by blast
  then show ?thesis using assms(2,3) by (auto simp: lc_verify_accepts f_head_def f_close_def)
qed

end
