(* ===== verification/Gemm.thy ===== *)
theory Gemm
  imports Pouw
begin

text \<open>
  Matrix products: the reference loop and the choice of the backend of
  \<open>src/include/hsma/pouw/gemm_backend.hpp\<close>, and the device kernel of \<open>src/gpu/gemm_pallas.cu\<close> with its
  own limb arithmetic. The threads of a launch run in any order; each is one step on the result buffer.
  A carry that leaves the buffer of a product is \<^const>\<open>None\<close>.
\<close>

subsection \<open>The reference\<close>

definition dot_entry :: "fe list \<Rightarrow> fe list \<Rightarrow> nat \<Rightarrow> nat \<Rightarrow> nat \<Rightarrow> nat \<Rightarrow> fe" where
  "dot_entry A B inner cols i j =
     foldl (\<lambda>acc k. fe_add acc (fe_mul (A ! (i * inner + k)) (B ! (k * cols + j)))) fe_zero [0..<inner]"

definition gemm_cpu :: "fe list \<Rightarrow> fe list \<Rightarrow> nat \<Rightarrow> fe list" where
  "gemm_cpu A B n = map (\<lambda>x. dot_entry A B n n (x div n) (x mod n)) [0..<n * n]"

subsection \<open>Device arithmetic\<close>

definition umul64hi :: "u64 \<Rightarrow> u64 \<Rightarrow> u64" where
  "umul64hi a b = ucast (drop_bit 64 (ucast a * ucast b :: u128))"

text \<open>The body of both inner loops, \<open>plo\<close> to \<open>carry\<close>.\<close>

definition d_mac :: "u64 \<Rightarrow> u64 \<Rightarrow> u64 \<Rightarrow> u64 \<Rightarrow> u64 \<times> u64" where
  "d_mac t a b carry =
     (let plo = a * b; phi = umul64hi a b;
          lo = t + plo; e1 = (if lo < t then 1 else 0);
          lo2 = lo + carry; e2 = (if lo2 < lo then 1 else 0)
      in (lo2, phi + e1 + e2))"

fun d_row :: "u64 list \<Rightarrow> nat \<Rightarrow> u64 list \<Rightarrow> u64 \<Rightarrow> u64 \<Rightarrow> u64 list \<times> u64" where
  "d_row T k [] m c = (T, c)"
| "d_row T k (a # as) m c = (let (lo, hi) = d_mac (T ! k) a m c in d_row (T[k := lo]) (Suc k) as m hi)"

function d_ripple :: "u64 list \<Rightarrow> nat \<Rightarrow> u64 \<Rightarrow> u64 list option" where
  "d_ripple T k carry =
     (if carry = 0 then Some T
      else if length T \<le> k then None
      else let cur = T ! k + carry; cc = (if cur < T ! k then 1 else 0) in d_ripple (T[k := cur]) (Suc k) cc)"
  by pat_completeness auto
termination
  by (relation "measure (\<lambda>(T, k, c). length T - k)") auto

declare d_ripple.simps [simp del]

fun d_product :: "u64 list \<Rightarrow> nat \<Rightarrow> u64 list \<Rightarrow> u64 list \<Rightarrow> u64 list option" where
  "d_product T i A [] = Some T"
| "d_product T i A (b # bs) =
     (let (T1, carry) = d_row T i A b 0
      in case d_ripple T1 (i + 4) carry of None \<Rightarrow> None | Some T2 \<Rightarrow> d_product T2 (Suc i) A bs)"

definition d_fold :: "u64 list \<Rightarrow> nat \<Rightarrow> u64 list option" where
  "d_fold T i =
     (let m = T ! i * INV;
          plo0 = m * (MOD ! 0); phi0 = umul64hi m (MOD ! 0);
          lo0 = T ! i + plo0; e0 = (if lo0 < T ! i then 1 else 0);
          (T1, carry) = d_row T (Suc i) (tl MOD) m (phi0 + e0)
      in d_ripple T1 (i + 4) carry)"

fun d_folds :: "nat \<Rightarrow> nat \<Rightarrow> u64 list \<Rightarrow> u64 list option" where
  "d_folds 0 i T = Some T"
| "d_folds (Suc n) i T = (case d_fold T i of None \<Rightarrow> None | Some T' \<Rightarrow> d_folds n (Suc i) T')"

fun d_geq :: "nat \<Rightarrow> u64 list \<Rightarrow> u64 list \<Rightarrow> bool" where
  "d_geq 0 a b = True"
| "d_geq (Suc i) a b = (if a ! i \<noteq> b ! i then a ! i > b ! i else d_geq i a b)"

fun d_sub_loop :: "u64 \<Rightarrow> u64 list \<Rightarrow> u64 list \<Rightarrow> u64 list" where
  "d_sub_loop borrow (a # as) (b # bs) =
     (let t1 = a - b; b1 = (if a < b then 1 else 0);
          t2 = t1 - borrow; b2 = (if t1 < borrow then 1 else 0)
      in t2 # d_sub_loop (b1 OR b2) as bs)"
| "d_sub_loop borrow _ _ = []"

definition d_sub_assumed :: "u64 list \<Rightarrow> u64 list \<Rightarrow> u64 list" where
  "d_sub_assumed a b = d_sub_loop 0 a b"

fun d_add_loop :: "u64 \<Rightarrow> u64 list \<Rightarrow> u64 list \<Rightarrow> u64 list \<times> u64" where
  "d_add_loop c (a # as) (b # bs) =
     (let lo = a + b; c1 = (if lo < a then 1 else 0);
          lo2 = lo + c; c2 = (if lo2 < c then 1 else 0);
          (rs, c') = d_add_loop (c1 OR c2) as bs
      in (lo2 # rs, c'))"
| "d_add_loop c _ _ = ([], c)"

definition d_fe_add :: "fe \<Rightarrow> fe \<Rightarrow> fe" where
  "d_fe_add a b =
     (let (r, c) = d_add_loop 0 (limbs a) (limbs b)
      in if c \<noteq> 0 \<or> d_geq 4 r MOD then fe_of_limbs (d_sub_assumed r MOD) else fe_of_limbs r)"

definition d_fe_mul :: "fe \<Rightarrow> fe \<Rightarrow> fe option" where
  "d_fe_mul A B =
     (case d_product (replicate 8 0) 0 (limbs A) (limbs B) of None \<Rightarrow> None
      | Some T \<Rightarrow> (case d_folds 4 0 T of None \<Rightarrow> None
          | Some T' \<Rightarrow>
              let r = drop 4 T'
              in Some (fe_of_limbs (if d_geq 4 r MOD then d_sub_assumed r MOD else r))))"

subsection \<open>The kernel\<close>

fun d_dot :: "fe list \<Rightarrow> fe list \<Rightarrow> nat \<Rightarrow> nat \<Rightarrow> nat \<Rightarrow> nat list \<Rightarrow> fe \<Rightarrow> fe option" where
  "d_dot A B n i j [] acc = Some acc"
| "d_dot A B n i j (k # ks) acc =
     (case d_fe_mul (A ! (i * n + k)) (B ! (k * n + j)) of None \<Rightarrow> None
      | Some p \<Rightarrow> d_dot A B n i j ks (d_fe_add acc p))"

fun gemm_pallas_kernel :: "fe list \<Rightarrow> fe list \<Rightarrow> nat \<Rightarrow> nat \<times> nat \<Rightarrow> fe list \<Rightarrow> fe list option" where
  "gemm_pallas_kernel A B n (i, j) C =
     (if i \<ge> n \<or> j \<ge> n then Some C
      else map_option (\<lambda>acc. C[i * n + j := acc]) (d_dot A B n i j [0..<n] fe_zero))"

text \<open>The threads of blocks of 16 by 16 that cover the matrix, and a launch in some order.\<close>

definition launch_grid :: "nat \<Rightarrow> (nat \<times> nat) set" where
  "launch_grid n = {0..<16 * ((n + 15) div 16)} \<times> {0..<16 * ((n + 15) div 16)}"

fun launch :: "fe list \<Rightarrow> fe list \<Rightarrow> nat \<Rightarrow> (nat \<times> nat) list \<Rightarrow> fe list \<Rightarrow> fe list option" where
  "launch A B n [] C = Some C"
| "launch A B n (t # ts) C = (case gemm_pallas_kernel A B n t C of None \<Rightarrow> None | Some C' \<Rightarrow> launch A B n ts C')"

text \<open>
  The device: how many there are, whether an allocation, a copy or the launch fails, the order in which
  its threads finish, and what its result buffer holds before.
\<close>

record Device =
  dv_count :: int
  dv_fails :: bool
  dv_order :: "(nat \<times> nat) list"
  dv_memory :: "fe list"

definition hsma_gemm_pallas :: "Device \<Rightarrow> fe list \<Rightarrow> fe list \<Rightarrow> nat \<Rightarrow> fe list option option" where
  "hsma_gemm_pallas d A B n =
     (if dv_count d = 0 \<or> dv_fails d then Some None
      else map_option Some (launch A B n (dv_order d) (dv_memory d)))"

text \<open>Without the build flag there is no device, \<^const>\<open>None\<close>.\<close>

definition gpu_available :: "Device option \<Rightarrow> bool" where
  "gpu_available dev = (case dev of None \<Rightarrow> False | Some d \<Rightarrow> dv_count d > 0)"

definition gemm_gpu :: "Device option \<Rightarrow> fe list \<Rightarrow> fe list \<Rightarrow> nat \<Rightarrow> fe list option option" where
  "gemm_gpu dev A B n = (case dev of None \<Rightarrow> Some None | Some d \<Rightarrow> hsma_gemm_pallas d A B n)"

text \<open>Whether the device computed the result, and the result.\<close>

definition gemm :: "Device option \<Rightarrow> fe list \<Rightarrow> fe list \<Rightarrow> nat \<Rightarrow> (bool \<times> fe list) option" where
  "gemm dev A B n =
     (if gpu_available dev \<and> n \<ge> 128 then
        (case gemm_gpu dev A B n of None \<Rightarrow> None
         | Some (Some C) \<Rightarrow> Some (True, C)
         | Some None \<Rightarrow> Some (False, gemm_cpu A B n))
      else Some (False, gemm_cpu A B n))"

subsection \<open>The device computes what the host does\<close>

lemma carry_iff: "(a + b < a) = (2 ^ 64 \<le> unat a + unat (b :: u64))"
proof (cases "2 ^ 64 \<le> unat a + unat b")
  case True
  have "unat a + unat b < 2 ^ 64 + 2 ^ 64" using unat_u64_lt [of a] unat_u64_lt [of b] by (rule add_strict_mono)
  then have "unat (a + b) = unat a + unat b - 2 ^ 64" using True by (simp add: unat_word_ariths le_mod_geq)
  then show ?thesis using True unat_u64_lt [of b] by (simp add: word_less_nat_alt)
next
  case False
  then show ?thesis by (simp add: word_less_nat_alt unat_word_ariths)
qed

lemma add_carry: "unat (a + b) + 2 ^ 64 * of_bool (a + b < a) = unat a + unat (b :: u64)"
  using unat_add_overflow [of a b "a + b" "2 ^ 64 \<le> unat a + unat b"]
  by (simp add: add_overflow_def carry_iff mult.commute)

lemma umul64hi_val: "unat (a * b) + 2 ^ 64 * unat (umul64hi a b) = unat a * unat b"
proof -
  have "mac 0 a b 0 = (a * b, umul64hi a b)"
    using mac_low [of 0 a b 0] by (simp add: mac_def umul64hi_def Let_def)
  from mac_val [OF this] show ?thesis by simp
qed

lemma pair_unique:
  fixes lo lo' hi hi' :: u64
  assumes "unat lo + 2 ^ 64 * unat hi = unat lo' + 2 ^ 64 * unat hi'"
  shows "lo = lo' \<and> hi = hi'"
proof -
  have "unat lo = (unat lo + 2 ^ 64 * unat hi) mod 2 ^ 64" "unat lo' = (unat lo' + 2 ^ 64 * unat hi') mod 2 ^ 64"
    using unat_u64_lt [of lo] unat_u64_lt [of lo'] by simp_all
  then have "unat lo = unat lo'" using assms by metis
  then show ?thesis using assms by (simp add: word_unat_eq_iff)
qed

lemma d_mac_mac: "d_mac t a b c = mac t a b c"
proof -
  obtain lo hi where m: "mac t a b c = (lo, hi)" by fastforce
  let ?l = "t + a * b" and ?e1 = "if t + a * b < t then 1 else 0 :: u64"
  let ?e2 = "if t + a * b + c < t + a * b then 1 else 0 :: u64"
  let ?h = "umul64hi a b + ?e1 + ?e2"
  have s: "unat (?l + c) + 2 ^ 64 * (unat (umul64hi a b) + unat ?e1 + unat ?e2) = unat t + unat a * unat b + unat c"
    using add_carry [of t "a * b"] add_carry [of ?l c] umul64hi_val [of a b] by (auto split: if_splits)
  have "unat t + unat a * unat b + unat c < 2 ^ 128" by (intro mac_fits unat_u64_lt)
  moreover have "h < 2 ^ 64" if "l + 2 ^ 64 * h = v" "v < 2 ^ 128" for l h v :: nat using that by simp
  ultimately have "unat (umul64hi a b) + unat ?e1 + unat ?e2 < 2 ^ 64" using s by blast
  then have h: "unat ?h = unat (umul64hi a b) + unat ?e1 + unat ?e2" by (simp add: unat_word_ariths)
  have "unat (?l + c) + 2 ^ 64 * unat ?h = unat lo + 2 ^ 64 * unat hi"
    unfolding h s mac_val [OF m] ..
  from pair_unique [OF this] have "lo = ?l + c" "hi = ?h" by (elim conjE, simp only:)+
  then show ?thesis unfolding m d_mac_def Let_def by (simp only:)
qed

lemma mac_swap: "mac t a b c = mac t b a c"
  by (simp add: mac_def mult.commute)

lemma d_row_mac: "d_row T k as m c = mac_loop T k as m c"
  by (induction T k as m c rule: d_row.induct) (auto simp: d_mac_mac split: prod.splits)

lemma d_ripple_ripple: "d_ripple T k c = ripple T k c"
proof (induction T k c rule: d_ripple.induct)
  case (1 T k c)
  have "mac (T ! k) 0 0 c = d_mac (T ! k) 0 0 c" by (simp add: d_mac_mac)
  also have "\<dots> = (T ! k + c, if T ! k + c < T ! k then 1 else 0)"
    by (simp add: d_mac_def Let_def umul64hi_def)
  finally have m: "mac (T ! k) 0 0 c = (T ! k + c, if T ! k + c < T ! k then 1 else 0)" .
  show ?case
    using 1 by (subst d_ripple.simps, subst ripple.simps) (simp add: m Let_def)
qed

lemma d_product_sos: "d_product T i A bs = sos_product T i A bs"
  by (induction T i A bs rule: d_product.induct)
    (auto simp: d_row_mac d_ripple_ripple Let_def split: prod.splits option.splits)

lemma d_fold_round: "d_fold T i = sos_round T i"
proof -
  let ?m = "T ! i * INV"
  have "mac (T ! i) (MOD ! 0) ?m 0 = d_mac (T ! i) ?m (MOD ! 0) 0" by (simp only: d_mac_mac mac_swap)
  then have "snd (mac (T ! i) (MOD ! 0) ?m 0)
      = umul64hi ?m (MOD ! 0) + (if T ! i + ?m * (MOD ! 0) < T ! i then 1 else 0)"
    by (simp add: d_mac_def Let_def)
  then show ?thesis by (simp add: d_fold_def sos_round_def Let_def d_row_mac d_ripple_ripple)
qed

lemma d_folds_reduce: "d_folds n i T = sos_reduce n i T"
  by (induction n i T rule: d_folds.induct) (simp_all add: d_fold_round split: option.splits)

lemma d_geq_loop: "d_geq n a b = geq_loop n a b"
  by (induction n a b rule: d_geq.induct) simp_all

lemma or_flags: "(if p then 1 else 0 :: u64) OR (if q then 1 else 0) = of_bool (p \<or> q)"
  by simp

lemma d_sub_loop_sub: "d_sub_loop (of_bool c) as bs = fst (sub_loop c as bs)"
proof (induction as arbitrary: c bs)
  case (Cons a as)
  show ?case
  proof (cases bs)
    case (Cons b bs')
    have f: "(a - b < of_bool c) = (unat (a - b) < of_bool c)" by (simp add: word_less_nat_alt)
    show ?thesis
      unfolding Cons d_sub_loop.simps sub_loop.simps sub_overflow_def Let_def or_flags Cons.IH prod.case f
      by (simp add: case_prod_beta word_less_nat_alt)
  qed simp
qed simp

lemma d_add_loop_add: "d_add_loop (of_bool c) as bs = (fst (add_loop c as bs), of_bool (snd (add_loop c as bs)))"
proof (induction as arbitrary: c bs)
  case (Cons a as)
  show ?case
  proof (cases bs)
    case (Cons b bs')
    have f: "(a + b + of_bool c < of_bool c) = (2 ^ 64 \<le> unat (a + b) + of_bool c)"
      using carry_iff [of "of_bool c" "a + b"] by (simp add: add.commute)
    show ?thesis
      unfolding Cons d_add_loop.simps add_loop.simps add_overflow_def Let_def or_flags Cons.IH prod.case f carry_iff
      by (simp add: case_prod_beta)
  qed simp
qed simp

lemma d_sub_assumed_eq: "d_sub_assumed a b = sub_assumed a b"
  using d_sub_loop_sub [of False a b] by (simp add: d_sub_assumed_def sub_assumed_def)

lemma d_fe_add_eq: "d_fe_add a b = fe_add a b"
  using d_add_loop_add [of False "limbs a" "limbs b"] add_loop_length [of "limbs a" "limbs b" False]
  by (simp add: d_fe_add_def fe_add_def Let_def case_prod_beta is_canonical_def geq_def d_geq_loop d_sub_assumed_eq)

lemma sos_lengths: "sos_product T i A bs = Some T' \<Longrightarrow> length T' = length T"
proof (induction T i A bs arbitrary: T' rule: sos_product.induct)
  case (2 T i A b bs)
  obtain T1 c where m: "mac_loop T i A b 0 = (T1, c)" by fastforce
  then have "length T1 = length T" using mac_loop_length [of T i A b 0] by simp
  then show ?case
    using 2 m by (auto split: option.splits dest!: ripple_length)
qed simp

lemma sos_reduce_length: "sos_reduce n i T = Some T' \<Longrightarrow> length T' = length T"
proof (induction n i T rule: sos_reduce.induct)
  case (2 n i T)
  then obtain T1 where r: "sos_round T i = Some T1" "sos_reduce n (Suc i) T1 = Some T'" by (auto split: option.splits)
  have "length T1 = length T"
    using r(1) mac_loop_length [of T "Suc i" "tl MOD"]
    by (auto simp: sos_round_def Let_def split: prod.splits dest!: ripple_length) (metis fst_conv)
  then show ?case using 2 r by simp
qed simp

text \<open>The device's product is the host's, also where that has no defined result.\<close>

lemma d_fe_mul_eq: "d_fe_mul A B = fe_mul_checked A B"
proof (cases "sos_product (replicate 8 0) 0 (limbs A) (limbs B)")
  case (Some T)
  show ?thesis
  proof (cases "sos_reduce 4 0 T")
    case (Some T')
    have "length T' = 8" using sos_lengths [OF \<open>sos_product _ _ _ _ = Some T\<close>] sos_reduce_length [OF Some] by simp
    then show ?thesis
      using Some \<open>sos_product _ _ _ _ = Some T\<close>
      by (simp add: d_fe_mul_def fe_mul_checked_def d_product_sos d_folds_reduce Let_def is_canonical_def geq_def
          d_geq_loop d_sub_assumed_eq)
  qed (use Some in \<open>simp add: d_fe_mul_def fe_mul_checked_def d_product_sos d_folds_reduce\<close>)
qed (simp add: d_fe_mul_def fe_mul_checked_def d_product_sos)

subsection \<open>A launch\<close>

lemma dot_foldl_canonical:
  assumes "canon A" "canon B" "length A = n * n" "length B = n * n" and "i < n" "j < n" and "set ks \<subseteq> {0..<n}"
    and "is_canonical acc"
  shows "d_dot A B n i j ks acc = Some (foldl (\<lambda>acc k. fe_add acc (fe_mul (A ! (i * n + k)) (B ! (k * n + j)))) acc ks)"
  using assms(7,8)
proof (induction ks arbitrary: acc)
  case (Cons k ks)
  have b: "p * n + q < n * n" if "p < n" "q < n" for p q
  proof -
    have "p * n + q < Suc p * n" using that by simp
    also have "\<dots> \<le> n * n" using that by (intro mult_le_mono1) simp
    finally show ?thesis .
  qed
  have c: "is_canonical (A ! (i * n + k))" "is_canonical (B ! (k * n + j))"
    using assms(1-6) Cons.prems(1) b by (simp_all add: canon_def list_all_length)
  have "d_fe_mul (A ! (i * n + k)) (B ! (k * n + j)) = Some (fe_mul (A ! (i * n + k)) (B ! (k * n + j)))"
    unfolding d_fe_mul_eq using c by (rule fe_mul_Some)
  then show ?case using Cons c by (simp add: d_fe_add_eq)
qed simp

lemma cell_eq: "(i::nat) * n + j = i' * n + j' \<Longrightarrow> j < n \<Longrightarrow> j' < n \<Longrightarrow> i = i' \<and> j = j'"
  by (metis add.commute div_mult_self3 div_less add_0_right mod_mult_self3 mod_less not_less_zero)

lemma cell_less: "i < m \<Longrightarrow> j < n \<Longrightarrow> i * n + j < m * (n::nat)"
proof -
  assume "i < m" "j < n"
  then have "i * n + j < Suc i * n" by simp
  also have "\<dots> \<le> m * n" using \<open>i < m\<close> by (intro mult_le_mono1) simp
  finally show ?thesis .
qed

lemma launch_cells:
  assumes "canon A" "canon B" "length A = n * n" "length B = n * n"
  shows "length C = n * n \<Longrightarrow> \<exists>C'. launch A B n ts C = Some C' \<and> length C' = n * n
    \<and> (\<forall>i<n. \<forall>j<n. C' ! (i * n + j) = (if (i, j) \<in> set ts then dot_entry A B n n i j else C ! (i * n + j)))"
proof (induction ts arbitrary: C)
  case (Cons t ts)
  obtain i j where t: "t = (i, j)" by (cases t)
  show ?case
  proof (cases "i < n \<and> j < n")
    case True
    let ?C = "C[i * n + j := dot_entry A B n n i j]"
    have k: "gemm_pallas_kernel A B n t C = Some ?C"
      using True dot_foldl_canonical [OF assms, of i j "[0..<n]" fe_zero] by (simp add: t dot_entry_def)
    obtain C' where C': "launch A B n ts ?C = Some C'" "length C' = n * n"
      "\<forall>p<n. \<forall>q<n. C' ! (p * n + q) = (if (p, q) \<in> set ts then dot_entry A B n n p q else ?C ! (p * n + q))"
      using Cons.IH [of ?C] Cons.prems by auto
    have "?C ! (p * n + q) = (if (p, q) = t then dot_entry A B n n p q else C ! (p * n + q))" if "p < n" "q < n" for p q
      proof (cases "(p, q) = t")
      case False
      then have "i * n + j \<noteq> p * n + q" using cell_eq [of i n j p q] that True by (auto simp: t)
      then show ?thesis using False by simp
    qed (use that True Cons.prems cell_less [of p n q n] in \<open>simp add: t\<close>)
    then show ?thesis using k C' by auto
  next
    case False
    then have "gemm_pallas_kernel A B n t C = Some C" by (auto simp: t)
    then show ?thesis using Cons.IH [OF Cons.prems] False t by auto
  qed
qed auto

text \<open>In whatever order its threads finish, a launch leaves the product of the reference loop.\<close>

lemma launch_gemm:
  assumes "canon A" "canon B" "length A = n * n" "length B = n * n" "length C = n * n" and "set ts = launch_grid n"
  shows "launch A B n ts C = Some (gemm_cpu A B n)"
proof -
  obtain C' where C': "launch A B n ts C = Some C'" "length C' = n * n"
    "\<forall>i<n. \<forall>j<n. C' ! (i * n + j) = (if (i, j) \<in> set ts then dot_entry A B n n i j else C ! (i * n + j))"
    using launch_cells [OF assms(1-4,5)] by blast
  have g: "n \<le> 16 * ((n + 15) div 16)" by linarith
  have "C' ! x = dot_entry A B n n (x div n) (x mod n)" if "x < n * n" for x
  proof -
    have "x div n < n" "x mod n < n" using that by (simp_all add: less_mult_imp_div_less) (use that in \<open>cases n; simp\<close>)
    then have "(x div n, x mod n) \<in> set ts" unfolding assms(6) launch_grid_def using g \<open>x mod n < n\<close> by (simp add: less_le_trans [OF _ g])
    then have "C' ! (x div n * n + x mod n) = dot_entry A B n n (x div n) (x mod n)"
      using C'(3) [rule_format, OF \<open>x div n < n\<close> \<open>x mod n < n\<close>] by simp
    then show ?thesis by simp
  qed
  then have "C' = gemm_cpu A B n" using C'(2) by (intro nth_equalityI) (simp_all add: gemm_cpu_def)
  then show ?thesis using C'(1) by simp
qed

lemma gemm_backends_agree:
  assumes "canon A" "canon B" "length A = n * n" "length B = n * n"
    and "case dev of None \<Rightarrow> True | Some d \<Rightarrow> length (dv_memory d) = n * n \<and> set (dv_order d) = launch_grid n"
  shows "map_option snd (gemm dev A B n) = Some (gemm_cpu A B n)"
proof (cases dev)
  case None
  then show ?thesis by (simp add: gemm_def gpu_available_def)
next
  case (Some d)
  then have "launch A B n (dv_order d) (dv_memory d) = Some (gemm_cpu A B n)"
    using assms by (intro launch_gemm) simp_all
  then have "gemm_gpu dev A B n = (if dv_count d = 0 \<or> dv_fails d then Some None else Some (Some (gemm_cpu A B n)))"
    by (simp add: gemm_gpu_def hsma_gemm_pallas_def Some)
  then show ?thesis by (cases "gpu_available dev \<and> n \<ge> 128"; cases "dv_count d = 0 \<or> dv_fails d") (simp_all only: gemm_def if_True if_False option.case option.map prod.sel simp_thms)
qed

subsection \<open>Products\<close>

lemma dot_entry_dec:
  assumes "canon A" "canon B" "length A = rows * inner" "length B = inner * cols" "i < rows" "j < cols"
  shows "is_canonical (dot_entry A B inner cols i j)"
    and "fe_dec (dot_entry A B inner cols i j) = (\<Sum>k<inner. fe_dec (A ! (i * inner + k)) * fe_dec (B ! (k * cols + j)))"
proof -
  have c: "is_canonical (A ! (i * inner + k))" "is_canonical (B ! (k * cols + j))" if "k < inner" for k
    using assms that cell_less [of i rows k inner] cell_less [of k inner j cols] by (simp_all add: canon_def list_all_length)
  have f: "is_canonical (fe_mul (A ! (i * inner + k)) (B ! (k * cols + j)))" if "k \<in> set [0..<inner]" for k
    using c that by simp
  note F = fe_foldl_sum [of fe_zero "[0..<inner]" "\<lambda>k. fe_mul (A ! (i * inner + k)) (B ! (k * cols + j))", OF canonical_zero f]
  show "is_canonical (dot_entry A B inner cols i j)" unfolding dot_entry_def by (rule F(1))
  have "fe_dec (dot_entry A B inner cols i j) = (\<Sum>k\<leftarrow>[0..<inner]. fe_dec (fe_mul (A ! (i * inner + k)) (B ! (k * cols + j))))"
    unfolding dot_entry_def using F(2) by (simp add: fe_dec_zero)
  also have "\<dots> = (\<Sum>k<inner. fe_dec (A ! (i * inner + k)) * fe_dec (B ! (k * cols + j)))"
    unfolding sum_list_upt using c by (intro sum.cong) (simp_all add: fe_dec_ops)
  finally show "fe_dec (dot_entry A B inner cols i j) = (\<Sum>k<inner. fe_dec (A ! (i * inner + k)) * fe_dec (B ! (k * cols + j)))" .
qed

text \<open>A table of such entries is the product.\<close>

lemma entries_product:
  assumes "canon A" "canon B" "length A = rows * inner" "length B = inner * cols"
  shows "is_product A B (map (\<lambda>x. dot_entry A B inner cols (x div cols) (x mod cols)) [0..<rows * cols]) rows cols inner"
proof -
  have b: "x div cols < rows" "x mod cols < cols" if "x < rows * cols" for x
    using that by (simp_all add: less_mult_imp_div_less) (use that in \<open>cases cols; simp\<close>)
  have "(i * cols + j) div cols = i" "(i * cols + j) mod cols = j" if "j < cols" for i j using that by simp_all
  then show ?thesis
    using dot_entry_dec [OF assms] assms b cell_less [of _ rows _ cols]
    by (auto simp: is_product_def canon_def list_all_length)
qed

lemma gemm_cpu_product: "canon A \<Longrightarrow> canon B \<Longrightarrow> length A = n * n \<Longrightarrow> length B = n * n \<Longrightarrow> is_product A B (gemm_cpu A B n) n n n"
  unfolding gemm_cpu_def by (rule entries_product)

end
