(* ===== verification/Shard.thy ===== *)
theory Shard
  imports Gemm
begin

text \<open>
  The sharded product of \<open>src/include/hsma/pouw/block_shard.hpp\<close>: one proof for every block of the
  result, a root over the blocks, and a verifier that checks a sample of them. The edges are 32-bit in
  the code; a block index stays below the edge, so the products of indices do not wrap. A division by
  zero and a read outside a matrix are \<^const>\<open>None\<close>.
\<close>

subsection \<open>Blocks\<close>

record BlockRef =
  br_i :: u32
  br_j :: u32

record ShardProof =
  sp_N :: nat
  sp_m :: nat
  sp_gb :: nat
  sp_root :: fe
  sp_blocks :: "BlockRef list"
  sp_proofs :: "GemmProofV2 list"

definition shard_spec_ok :: "nat \<Rightarrow> nat \<Rightarrow> bool" where
  "shard_spec_ok N m \<longleftrightarrow> N > 0 \<and> m > 0 \<and> m \<le> N \<and> N mod m = 0"

definition block_leaf :: "GemmProofV2 \<Rightarrow> u32 \<Rightarrow> u32 \<Rightarrow> fe" where
  "block_leaf p bi bj =
     (let bfe = fe_from_u64 (ucast bi); jfe = fe_from_u64 (ucast bj);
          h1 = poseidon3 HSM_SHARD_v1 bfe jfe;
          h2 = poseidon3 HSM_SHARD_v1 h1 (g2_comA p);
          h3 = poseidon3 HSM_SHARD_v1 h2 (g2_comB p)
      in poseidon3 HSM_SHARD_v1 h3 (g2_comC p))"

fun fold_roots :: "fe list \<Rightarrow> fe" where
  "fold_roots [] = fe_zero"
| "fold_roots (l # ls) = foldl (poseidon3 HSM_SHARD_v1) l ls"

text \<open>The rows of \<open>A\<close>, the columns of \<open>B\<close> and the cell of \<open>C\<close> that belong to a block.\<close>

definition rows_block :: "fe list \<Rightarrow> nat \<Rightarrow> nat \<Rightarrow> nat \<Rightarrow> fe list" where
  "rows_block A N m bi = map (\<lambda>x. A ! ((bi * m + x div N) * N + x mod N)) [0..<m * N]"

definition cols_block :: "fe list \<Rightarrow> nat \<Rightarrow> nat \<Rightarrow> nat \<Rightarrow> fe list" where
  "cols_block B N m bj = map (\<lambda>x. B ! (x div m * N + (bj * m + x mod m))) [0..<N * m]"

definition cell_block :: "fe list \<Rightarrow> nat \<Rightarrow> nat \<Rightarrow> nat \<Rightarrow> nat \<Rightarrow> fe list" where
  "cell_block C N m bi bj = map (\<lambda>x. C ! ((bi * m + x div m) * N + (bj * m + x mod m))) [0..<m * m]"

definition prove_block :: "fe list \<Rightarrow> fe list \<Rightarrow> fe list \<Rightarrow> nat \<Rightarrow> nat \<Rightarrow> nat \<Rightarrow> nat \<Rightarrow> GemmProofV2" where
  "prove_block A B C N m bi bj =
     prove_gemm_v2 (rows_block A N m bi) (cols_block B N m bj) (cell_block C N m bi bj) m m N"

definition leaves_of :: "BlockRef list \<Rightarrow> GemmProofV2 list \<Rightarrow> fe list" where
  "leaves_of brs ps = map (\<lambda>(br, p). block_leaf p (br_i br) (br_j br)) (zip brs ps)"

subsection \<open>Prover\<close>

definition prove_sharded :: "fe list \<Rightarrow> fe list \<Rightarrow> fe list \<Rightarrow> nat \<Rightarrow> nat \<Rightarrow> ShardProof option" where
  "prove_sharded A B C N m =
     (if m = 0 then None
      else let gb = N div m;
               grid = concat (map (\<lambda>bi. map (\<lambda>bj. (bi, bj)) [0..<gb]) [0..<gb])
        in if gb > 0 \<and> (length A < gb * m * N \<or> length B < (N - 1) * N + gb * m \<or> length C < (gb * m - 1) * N + gb * m) then None
           else let brs = map (\<lambda>(bi, bj). \<lparr>br_i = of_nat bi, br_j = of_nat bj\<rparr>) grid;
                    ps = map (\<lambda>(bi, bj). prove_block A B C N m bi bj) grid
                in Some \<lparr>sp_N = N, sp_m = m, sp_gb = gb, sp_root = fold_roots (leaves_of brs ps),
                         sp_blocks = brs, sp_proofs = ps\<rparr>)"

subsection \<open>Verifier\<close>

definition rederive_root :: "ShardProof \<Rightarrow> fe" where
  "rederive_root S = fold_roots (leaves_of (sp_blocks S) (sp_proofs S))"

definition xorshift_step :: "u64 \<Rightarrow> u64" where
  "xorshift_step st =
     (let st = xor st (push_bit 13 st); st = xor st (drop_bit 7 st) in xor st (push_bit 17 st))"

definition SAMPLE_MUL :: u64 where "SAMPLE_MUL = 11400714819323198485"
definition SAMPLE_ADD :: u64 where "SAMPLE_ADD = 2685821657736338717"
definition SHAR :: u64 where "SHAR = 1397244242"

fun sample_loop :: "nat \<Rightarrow> u64 \<Rightarrow> u64 \<Rightarrow> nat list" where
  "sample_loop 0 st pool = []"
| "sample_loop (Suc n) st pool =
     (let st = xorshift_step st in unat ((st * SAMPLE_MUL) mod pool) # sample_loop n st pool)"

definition sample_blocks :: "u64 \<Rightarrow> nat \<Rightarrow> nat \<Rightarrow> nat list" where
  "sample_blocks seed cnt pool =
     (if pool = 0 then []
      else sample_loop (min cnt pool) (seed * SAMPLE_MUL + SAMPLE_ADD) (of_nat pool))"

record ShardOutcome =
  so_structure :: bool
  so_root :: bool
  so_sample :: bool
  so_pass :: bool
  so_sampled :: nat

definition no_outcome :: ShardOutcome where
  "no_outcome = \<lparr>so_structure = False, so_root = False, so_sample = False, so_pass = False, so_sampled = 0\<rparr>"

definition shard_structure :: "ShardProof \<Rightarrow> fe list \<Rightarrow> fe list \<Rightarrow> fe list \<Rightarrow> bool" where
  "shard_structure S A B C \<longleftrightarrow>
     shard_spec_ok (sp_N S) (sp_m S) \<and> sp_gb S = sp_N S div sp_m S
     \<and> length (sp_blocks S) = sp_gb S * sp_gb S
     \<and> length (sp_proofs S) = length (sp_blocks S)
     \<and> length A = sp_N S * sp_N S \<and> length B = sp_N S * sp_N S \<and> length C = sp_N S * sp_N S
     \<and> list_all2 (\<lambda>br p. unat (br_i br) < sp_gb S \<and> unat (br_j br) < sp_gb S
           \<and> g2_rows p = sp_m S \<and> g2_cols p = sp_m S \<and> g2_inner p = sp_N S) (sp_blocks S) (sp_proofs S)"

definition block_verifies :: "ShardProof \<Rightarrow> fe list \<Rightarrow> fe list \<Rightarrow> fe list \<Rightarrow> nat \<Rightarrow> bool" where
  "block_verifies S A B C k =
     (let bi = unat (br_i (sp_blocks S ! k)); bj = unat (br_j (sp_blocks S ! k)); m = sp_m S; N = sp_N S
      in verify_gemm_v2 (sp_proofs S ! k) (rows_block A N m bi) (cols_block B N m bj) (cell_block C N m bi bj))"

definition verify_sharded :: "ShardProof \<Rightarrow> fe list \<Rightarrow> fe list \<Rightarrow> fe list \<Rightarrow> u64 \<Rightarrow> nat \<Rightarrow> ShardOutcome" where
  "verify_sharded S A B C seed sample_count =
     (if \<not> shard_structure S A B C then no_outcome
      else let root_ok = (rederive_root S = sp_root S);
               idx = sample_blocks (xor seed SHAR) sample_count (length (sp_proofs S));
               sok = (idx \<noteq> [] \<and> list_all (block_verifies S A B C) idx)
           in \<lparr>so_structure = True, so_root = root_ok, so_sample = sok, so_pass = (root_ok \<and> sok), so_sampled = length idx\<rparr>)"

subsection \<open>The sample\<close>

lemma sample_loop_bounds: "pool \<noteq> 0 \<Longrightarrow> length (sample_loop n st pool) = n \<and> (\<forall>k \<in> set (sample_loop n st pool). k < unat pool)"
  by (induction n arbitrary: st) (auto simp: Let_def unat_mod unat_gt_0)

lemma sample_blocks_bounds:
  assumes "pool < 2 ^ 64"
  shows "length (sample_blocks seed cnt pool) = min cnt pool \<and> (\<forall>k \<in> set (sample_blocks seed cnt pool). k < pool)"
proof (cases "pool = 0")
  case False
  have u: "unat (of_nat pool :: u64) = pool" using assms by (simp add: unsigned_of_nat take_bit_eq_mod)
  then have "(of_nat pool :: u64) \<noteq> 0" using False by auto
  then show ?thesis using sample_loop_bounds [of "of_nat pool"] u False by (simp add: sample_blocks_def)
qed (simp add: sample_blocks_def)

subsection \<open>Blocks of a product\<close>

lemma edge_bound: "shard_spec_ok N m \<Longrightarrow> bi < N div m \<Longrightarrow> r < m \<Longrightarrow> bi * m + r < N"
proof -
  assume s: "shard_spec_ok N m" and b: "bi < N div m" and r: "r < m"
  have "bi * m + r < Suc bi * m" using r by simp
  also have "\<dots> \<le> N div m * m" using b by (intro mult_le_mono1) simp
  also have "\<dots> = N" using s by (intro dvd_div_mult_self) (simp add: shard_spec_ok_def mod_0_imp_dvd)
  finally show ?thesis .
qed

lemma product_block:
  assumes p: "is_product A B C N N N" and s: "shard_spec_ok N m" and b: "bi < N div m" "bj < N div m"
  shows "is_product (rows_block A N m bi) (cols_block B N m bj) (cell_block C N m bi bj) m m N"
proof -
  have A: "canon A" "length A = N * N" and B: "canon B" "length B = N * N" and C: "canon C" "length C = N * N"
    using p by (simp_all add: is_product_def)
  have N: "N > 0" "m > 0" using s by (simp_all add: shard_spec_ok_def)
  have q: "x div c < r" "x mod c < c" if "x < r * c" for x r c :: nat
    using that by (simp_all add: less_mult_imp_div_less) (use that in \<open>cases c; simp\<close>)
  note e = edge_bound [OF s] and l = cell_less
  have a: "rows_block A N m bi ! (r * N + k) = A ! ((bi * m + r) * N + k)" if "r < m" "k < N" for r k
    using l [OF that] that by (simp add: rows_block_def)
  have bb: "cols_block B N m bj ! (k * m + c) = B ! (k * N + (bj * m + c))" if "k < N" "c < m" for k c
    using l [OF that] that by (simp add: cols_block_def)
  have cc: "cell_block C N m bi bj ! (r * m + c) = C ! ((bi * m + r) * N + (bj * m + c))" if "r < m" "c < m" for r c
    using l [OF that] that by (simp add: cell_block_def)
  have "canon (rows_block A N m bi)"
    using A q e [OF b(1)] l by (simp add: canon_def list_all_length rows_block_def)
  moreover have "canon (cols_block B N m bj)"
    using B q e [OF b(2)] l by (simp add: canon_def list_all_length cols_block_def)
  moreover have "canon (cell_block C N m bi bj)"
    using C q e [OF b(1)] e [OF b(2)] l by (simp add: canon_def list_all_length cell_block_def)
  moreover have "fe_dec (cell_block C N m bi bj ! (i * m + j))
      = (\<Sum>k<N. fe_dec (rows_block A N m bi ! (i * N + k)) * fe_dec (cols_block B N m bj ! (k * m + j)))"
    if ij: "i < m" "j < m" for i j
  proof -
    have "fe_dec (C ! ((bi * m + i) * N + (bj * m + j)))
        = (\<Sum>k<N. fe_dec (A ! ((bi * m + i) * N + k)) * fe_dec (B ! (k * N + (bj * m + j))))"
      using p e [OF b(1) ij(1)] e [OF b(2) ij(2)] by (simp add: is_product_def)
    then show ?thesis using ij by (simp add: a bb cc)
  qed
  ultimately show ?thesis
    by (simp add: is_product_def rows_block_def cols_block_def cell_block_def)
qed

subsection \<open>Honest proofs\<close>

lemma prove_block_shape:
  "g2_rows (prove_block A B C N m bi bj) = m" "g2_cols (prove_block A B C N m bi bj) = m"
  "g2_inner (prove_block A B C N m bi bj) = N"
  by (simp_all add: prove_block_def prove_gemm_v2_def Let_def case_prod_beta)

lemma length_grid: "length (concat (map (\<lambda>bi. map (\<lambda>bj. (bi, bj)) [0..<g]) [0..<h])) = h * g"
  by (induction h) simp_all

text \<open>The verifier's checks on a proof whose blocks are given by a list of grid positions.\<close>

definition shard_of :: "fe list \<Rightarrow> fe list \<Rightarrow> fe list \<Rightarrow> nat \<Rightarrow> nat \<Rightarrow> (nat \<times> nat) list \<Rightarrow> ShardProof" where
  "shard_of A B C N m cells =
     (let brs = map (\<lambda>(bi, bj). \<lparr>br_i = of_nat bi, br_j = of_nat bj\<rparr>) cells;
          ps = map (\<lambda>(bi, bj). prove_block A B C N m bi bj) cells
      in \<lparr>sp_N = N, sp_m = m, sp_gb = N div m, sp_root = fold_roots (leaves_of brs ps), sp_blocks = brs, sp_proofs = ps\<rparr>)"

lemma shard_of_accepted:
  assumes s: "shard_spec_ok N m" and N: "N \<le> 2 ^ 31" and l: "length A = N * N" "length B = N * N" "length C = N * N"
    and n: "length cells = N div m * (N div m)" and c: "\<forall>(bi, bj) \<in> set cells. bi < N div m \<and> bj < N div m
      \<and> is_product (rows_block A N m bi) (cols_block B N m bj) (cell_block C N m bi bj) m m N"
    and k: "0 < cnt"
  shows "so_pass (verify_sharded (shard_of A B C N m cells) A B C seed cnt)"
proof -
  let ?S = "shard_of A B C N m cells" and ?g = "N div m"
  have g: "0 < ?g" "?g \<le> 2 ^ 31" using s N by (simp_all add: shard_spec_ok_def div_greater_zero_iff le_trans [OF div_le_dividend])
  have u: "unat (of_nat b :: u32) = b" if "b < ?g" for b using that g(2) by (simp add: unsigned_of_nat take_bit_eq_mod)
  have at: "cells ! i = (bi, bj) \<Longrightarrow> i < length cells \<Longrightarrow> bi < ?g \<and> bj < ?g
      \<and> is_product (rows_block A N m bi) (cols_block B N m bj) (cell_block C N m bi bj) m m N" for i bi bj
    using c nth_mem [of i cells] by fastforce
  have st: "shard_structure ?S A B C"
    using s l n at u by (auto simp: shard_structure_def shard_of_def Let_def list_all2_conv_all_nth prove_block_shape split: prod.splits)
  have v: "block_verifies ?S A B C i" if "i < length cells" for i
  proof -
    obtain bi bj where e: "cells ! i = (bi, bj)" by fastforce
    show ?thesis
      using at [OF e that] that honest_gemm_v2 [of _ _ _ m m N] N
      by (simp add: block_verifies_def shard_of_def Let_def e u prove_block_def)
  qed
  have "length cells \<le> 2 ^ 31 * 2 ^ 31" unfolding n using g(2) by (intro mult_le_mono)
  then have "length cells < 2 ^ 64" by simp
  from sample_blocks_bounds [OF this, of "xor seed SHAR" cnt]
  have i: "length (sample_blocks (xor seed SHAR) cnt (length cells)) = min cnt (length cells)"
    "\<forall>i \<in> set (sample_blocks (xor seed SHAR) cnt (length cells)). i < length cells" by blast+
  have "0 < length cells" using g(1) by (simp add: n)
  then have "0 < length (sample_blocks (xor seed SHAR) cnt (length cells))" unfolding i(1) using k by simp
  then have "sample_blocks (xor seed SHAR) cnt (length cells) \<noteq> []" by blast
  moreover have "length (sp_proofs ?S) = length cells" "rederive_root ?S = sp_root ?S"
    by (simp_all add: shard_of_def Let_def rederive_root_def)
  ultimately show ?thesis using st v i(2) by (simp add: verify_sharded_def Let_def list_all_iff)
qed

lemma prove_sharded_of:
  assumes "shard_spec_ok N m" "length A = N * N" "length B = N * N" "length C = N * N"
  shows "prove_sharded A B C N m
    = Some (shard_of A B C N m (concat (map (\<lambda>bi. map (\<lambda>bj. (bi, bj)) [0..<N div m]) [0..<N div m])))"
proof -
  have "N div m * m = N" using assms(1) by (intro dvd_div_mult_self) (simp add: shard_spec_ok_def mod_0_imp_dvd)
  moreover have "0 < N" using assms(1) by (simp add: shard_spec_ok_def)
  then have "(N - 1) * N + N = N * N" by (cases N) simp_all
  ultimately show ?thesis using assms by (simp add: prove_sharded_def shard_of_def Let_def shard_spec_ok_def)
qed

text \<open>The proof of a product is accepted, whatever is sampled.\<close>

lemma honest_shards:
  assumes p: "is_product A B C N N N" and s: "shard_spec_ok N m" and N: "N \<le> 2 ^ 31" and k: "0 < cnt"
    and P: "prove_sharded A B C N m = Some S"
  shows "so_pass (verify_sharded S A B C seed cnt)"
proof -
  have l: "length A = N * N" "length B = N * N" "length C = N * N" using p by (simp_all add: is_product_def)
  have S: "S = shard_of A B C N m (concat (map (\<lambda>bi. map (\<lambda>bj. (bi, bj)) [0..<N div m]) [0..<N div m]))"
    using P prove_sharded_of [OF s l] by simp
  show ?thesis
    unfolding S using product_block [OF p s] by (intro shard_of_accepted [OF s N l _ _ k]) (auto simp: length_grid)
qed

text \<open>
  The blocks named by a proof need not cover the grid: naming one block over and over is accepted for
  every sample, although nothing is known of the other blocks of the result.
\<close>

lemma one_block_accepted:
  assumes "shard_spec_ok N m" "N \<le> 2 ^ 31" "length A = N * N" "length B = N * N" "length C = N * N" "0 < cnt"
    and "is_product (rows_block A N m 0) (cols_block B N m 0) (cell_block C N m 0 0) m m N"
  shows "so_pass (verify_sharded (shard_of A B C N m (replicate (N div m * (N div m)) (0, 0))) A B C seed cnt)"
  using assms by (intro shard_of_accepted) (auto simp: shard_spec_ok_def div_greater_zero_iff)

text \<open>Acceptance as a set of facts.\<close>

lemma verify_sharded_pass:
  "so_pass (verify_sharded S A B C seed cnt) \<longleftrightarrow>
    shard_structure S A B C \<and> rederive_root S = sp_root S \<and> 0 < cnt \<and> sp_gb S \<noteq> 0
    \<and> (\<forall>k \<in> set (sample_blocks (xor seed SHAR) cnt (length (sp_proofs S))). block_verifies S A B C k)"
  if "length (sp_proofs S) < 2 ^ 64"
proof -
  have "sample_blocks (xor seed SHAR) cnt (length (sp_proofs S)) \<noteq> [] \<longleftrightarrow> 0 < cnt \<and> sp_proofs S \<noteq> []"
    using sample_blocks_bounds [OF that, of "xor seed SHAR" cnt] by (metis length_greater_0_conv min_less_iff_conj)
  moreover have "shard_structure S A B C \<Longrightarrow> sp_proofs S \<noteq> [] \<longleftrightarrow> sp_gb S \<noteq> 0"
    unfolding shard_structure_def by (metis length_0_conv mult_is_0)
  ultimately show ?thesis by (auto simp: verify_sharded_def no_outcome_def Let_def list_all_iff)
qed

subsection \<open>What a leaf binds\<close>

text \<open>The inputs of the four hashes of a leaf, and two leaves that collide at one of them.\<close>

definition leaf_pairs :: "GemmProofV2 \<Rightarrow> u32 \<Rightarrow> u32 \<Rightarrow> (fe \<times> fe) list" where
  "leaf_pairs p bi bj =
     (let P = poseidon3 HSM_SHARD_v1; bfe = fe_from_u64 (ucast bi); jfe = fe_from_u64 (ucast bj);
          h1 = P bfe jfe; h2 = P h1 (g2_comA p); h3 = P h2 (g2_comB p)
      in [(bfe, jfe), (h1, g2_comA p), (h2, g2_comB p), (h3, g2_comC p)])"

definition pairs_collide :: "(fe \<times> fe) list \<Rightarrow> (fe \<times> fe) list \<Rightarrow> bool" where
  "pairs_collide ps qs \<longleftrightarrow>
     list_ex (\<lambda>((a, b), (c, d)). (a, b) \<noteq> (c, d) \<and> poseidon3 HSM_SHARD_v1 a b = poseidon3 HSM_SHARD_v1 c d) (zip ps qs)"

lemma leaf_binds:
  assumes "block_leaf p bi bj = block_leaf q ci cj"
  shows "(bi = ci \<and> bj = cj \<and> g2_comA p = g2_comA q \<and> g2_comB p = g2_comB q \<and> g2_comC p = g2_comC q)
    \<or> pairs_collide (leaf_pairs p bi bj) (leaf_pairs q ci cj)"
proof (rule disjCI)
  assume "\<not> pairs_collide (leaf_pairs p bi bj) (leaf_pairs q ci cj)"
  moreover have f: "fe_from_u64 (ucast b) = fe_from_u64 (ucast c) \<Longrightarrow> b = c" for b c :: u32
  proof -
    assume "fe_from_u64 (ucast b) = fe_from_u64 (ucast c)"
    then have o: "(of_nat (unat (ucast b :: u64)) :: pallas) = of_nat (unat (ucast c :: u64))" by (metis fe_dec_from_u64)
    have l: "unat b < 2 ^ 32" "unat c < 2 ^ 32"
      using unsigned_less [of b, where ?'a = nat] unsigned_less [of c, where ?'a = nat] by simp_all
    then have u: "unat (ucast b :: u64) = unat b" "unat (ucast c :: u64) = unat c"
      by (simp_all add: unsigned_ucast_eq take_bit_eq_mod)
    have "unat b < pallas_p" "unat c < pallas_p" using l by (simp_all add: pallas_p_eq)
    then have "unat b = unat c" using o unfolding u of_nat_pallas by (simp only: mod_less)
    then show "b = c" by (simp add: word_unat_eq_iff)
  qed
  ultimately show "bi = ci \<and> bj = cj \<and> g2_comA p = g2_comA q \<and> g2_comB p = g2_comB q \<and> g2_comC p = g2_comC q"
    using assms by (auto simp: block_leaf_def pairs_collide_def leaf_pairs_def Let_def dest: f)
qed

end
