(* ===== verification/Attention.thy ===== *)
theory Attention
  imports Shard Softmax_Norm
begin

text \<open>
  Multi-head attention as a composition of matrix products, \<open>src/include/hsma/pouw/attention.hpp\<close>: the
  path with given weights and the path that derives them from the proved scores. Dimensions are 32-bit
  in the code and natural numbers here. A division by zero, and a read beyond a matrix, are \<^const>\<open>None\<close>.
\<close>

subsection \<open>Matrices\<close>

definition attn_spec_ok :: "nat \<Rightarrow> nat \<Rightarrow> nat \<Rightarrow> bool" where
  "attn_spec_ok seq dm heads \<longleftrightarrow> seq > 0 \<and> dm > 0 \<and> heads > 0 \<and> dm mod heads = 0"

definition col_slice :: "fe list \<Rightarrow> nat \<Rightarrow> nat \<Rightarrow> nat \<Rightarrow> nat \<Rightarrow> fe list" where
  "col_slice M seq dm h dh = map (\<lambda>x. M ! (x div dh * dm + (h * dh + x mod dh))) [0..<seq * dh]"

definition transpose_mat :: "fe list \<Rightarrow> nat \<Rightarrow> nat \<Rightarrow> fe list" where
  "transpose_mat M r c = map (\<lambda>x. M ! (x mod r * c + x div r)) [0..<r * c]"

definition matmul :: "fe list \<Rightarrow> fe list \<Rightarrow> nat \<Rightarrow> nat \<Rightarrow> nat \<Rightarrow> fe list option" where
  "matmul A B rows inner cols =
     (if rows > 0 \<and> cols > 0 \<and> inner > 0 \<and> (length A < rows * inner \<or> length B < inner * cols) then None
      else Some (map (\<lambda>x. dot_entry A B inner cols (x div cols) (x mod cols)) [0..<rows * cols]))"

text \<open>The columns of one head in the output matrix.\<close>

definition place_head :: "fe list \<Rightarrow> fe list \<Rightarrow> nat \<Rightarrow> nat \<Rightarrow> nat \<Rightarrow> fe list" where
  "place_head M Ah dm h dh =
     map (\<lambda>x. if h * dh \<le> x mod dm \<and> x mod dm < h * dh + dh then Ah ! (x div dm * dh + (x mod dm - h * dh)) else M ! x)
       [0..<length M]"

subsection \<open>Given weights\<close>

record AttnProof =
  at_seq :: nat
  at_dm :: nat
  at_heads :: nat
  at_dh :: nat
  at_Q :: GemmProofV2
  at_K :: GemmProofV2
  at_V :: GemmProofV2
  at_OUT :: GemmProofV2
  at_S :: "GemmProofV2 list"
  at_A :: "GemmProofV2 list"

text \<open>The three projections, and the score leg of one head: both factors and the scores.\<close>

definition projections :: "fe list \<Rightarrow> fe list \<Rightarrow> fe list \<Rightarrow> fe list \<Rightarrow> nat \<Rightarrow> nat \<Rightarrow> (fe list \<times> fe list \<times> fe list) option" where
  "projections X Wq Wk Wv seq dm =
     (case (matmul X Wq seq dm dm, matmul X Wk seq dm dm, matmul X Wv seq dm dm) of
        (Some Q, Some K, Some V) \<Rightarrow> Some (Q, K, V)
      | _ \<Rightarrow> None)"

definition head_scores :: "fe list \<Rightarrow> fe list \<Rightarrow> nat \<Rightarrow> nat \<Rightarrow> nat \<Rightarrow> nat \<Rightarrow> (fe list \<times> fe list \<times> fe list) option" where
  "head_scores Qm Km seq dm dh h =
     (let Qh = col_slice Qm seq dm h dh; KhT = transpose_mat (col_slice Km seq dm h dh) seq dh
      in map_option (\<lambda>Sh. (Qh, KhT, Sh)) (matmul Qh KhT seq seq dh))"

fun prove_heads :: "fe list \<Rightarrow> fe list \<Rightarrow> fe list \<Rightarrow> fe list list \<Rightarrow> nat \<Rightarrow> nat \<Rightarrow> nat \<Rightarrow> nat list \<Rightarrow> fe list
    \<Rightarrow> (GemmProofV2 list \<times> GemmProofV2 list \<times> fe list) option" where
  "prove_heads Qm Km Vm Ps seq dm dh [] M = Some ([], [], M)"
| "prove_heads Qm Km Vm Ps seq dm dh (h # hs) M =
     (if length Ps \<le> h then None
      else let Vh = col_slice Vm seq dm h dh
        in case (head_scores Qm Km seq dm dh h, matmul (Ps ! h) Vh seq seq dh) of
             (Some (Qh, KhT, Sh), Some Ah) \<Rightarrow>
               (case prove_heads Qm Km Vm Ps seq dm dh hs (place_head M Ah dm h dh) of None \<Rightarrow> None
                | Some (Ss, As, M') \<Rightarrow>
                    Some (prove_gemm_v2 Qh KhT Sh seq seq dh # Ss, prove_gemm_v2 (Ps ! h) Vh Ah seq dh seq # As, M'))
           | _ \<Rightarrow> None)"

definition prove_attention :: "fe list \<Rightarrow> fe list \<Rightarrow> fe list \<Rightarrow> fe list \<Rightarrow> fe list \<Rightarrow> fe list list \<Rightarrow> nat \<Rightarrow> nat \<Rightarrow> nat
    \<Rightarrow> AttnProof option" where
  "prove_attention X Wq Wk Wv Wo Ps seq dm heads =
     (if heads = 0 then None
      else let dh = dm div heads
        in case projections X Wq Wk Wv seq dm of None \<Rightarrow> None | Some (Qm, Km, Vm) \<Rightarrow>
           (case prove_heads Qm Km Vm Ps seq dm dh [0..<heads] (replicate (seq * dm) fe_zero) of None \<Rightarrow> None
            | Some (Ss, As, Fin) \<Rightarrow>
                (case matmul Fin Wo seq dm dm of None \<Rightarrow> None
                 | Some OUTm \<Rightarrow>
                     Some \<lparr>at_seq = seq, at_dm = dm, at_heads = heads, at_dh = dh,
                       at_Q = prove_gemm_v2 X Wq Qm seq dm dm, at_K = prove_gemm_v2 X Wk Km seq dm dm,
                       at_V = prove_gemm_v2 X Wv Vm seq dm dm, at_OUT = prove_gemm_v2 Fin Wo OUTm seq dm dm,
                       at_S = Ss, at_A = As\<rparr>)))"

record AttnOutcome =
  ao_structure :: bool
  ao_legs :: bool
  ao_pass :: bool
  ao_checked :: nat

definition attn_rejected :: AttnOutcome where
  "attn_rejected = \<lparr>ao_structure = False, ao_legs = False, ao_pass = False, ao_checked = 0\<rparr>"

definition attn_structure :: "AttnProof \<Rightarrow> fe list list \<Rightarrow> bool" where
  "attn_structure P Ps \<longleftrightarrow>
     attn_spec_ok (at_seq P) (at_dm P) (at_heads P) \<and> at_dh P = at_dm P div at_heads P \<and> length Ps = at_heads P
     \<and> list_all (\<lambda>ph. length ph = at_seq P * at_seq P) Ps
     \<and> length (at_S P) = at_heads P \<and> length (at_A P) = at_heads P"

text \<open>The loop over the heads stops after the first head with a leg that fails.\<close>

fun verify_heads :: "AttnProof \<Rightarrow> fe list \<Rightarrow> fe list \<Rightarrow> fe list \<Rightarrow> fe list list \<Rightarrow> nat list \<Rightarrow> fe list \<Rightarrow> nat
    \<Rightarrow> (bool \<times> fe list \<times> nat) option" where
  "verify_heads P Qm Km Vm Ps [] M n = Some (True, M, n)"
| "verify_heads P Qm Km Vm Ps (h # hs) M n =
     (let seq = at_seq P; dm = at_dm P; dh = at_dh P; Vh = col_slice Vm seq dm h dh
      in case (head_scores Qm Km seq dm dh h, matmul (Ps ! h) Vh seq seq dh) of
           (Some (Qh, KhT, Sh), Some Ah) \<Rightarrow>
             (let ok = (verify_gemm_v2 (at_S P ! h) Qh KhT Sh \<and> verify_gemm_v2 (at_A P ! h) (Ps ! h) Vh Ah);
                  M' = place_head M Ah dm h dh
              in if ok then verify_heads P Qm Km Vm Ps hs M' (n + 2) else Some (False, M', n + 2))
         | _ \<Rightarrow> None)"

definition verify_attention :: "AttnProof \<Rightarrow> fe list \<Rightarrow> fe list \<Rightarrow> fe list \<Rightarrow> fe list \<Rightarrow> fe list \<Rightarrow> fe list list
    \<Rightarrow> AttnOutcome option" where
  "verify_attention P X Wq Wk Wv Wo Ps =
     (if \<not> attn_structure P Ps then Some attn_rejected
      else let seq = at_seq P; dm = at_dm P
        in case projections X Wq Wk Wv seq dm of None \<Rightarrow> None | Some (Qm, Km, Vm) \<Rightarrow>
           (let ok = (verify_gemm_v2 (at_Q P) X Wq Qm \<and> verify_gemm_v2 (at_K P) X Wk Km \<and> verify_gemm_v2 (at_V P) X Wv Vm)
            in case (if ok then verify_heads P Qm Km Vm Ps [0..<at_heads P] (replicate (seq * dm) fe_zero) 3
                     else Some (False, [], 3)) of None \<Rightarrow> None
               | Some (False, Fin, n) \<Rightarrow> Some \<lparr>ao_structure = True, ao_legs = False, ao_pass = False, ao_checked = n\<rparr>
               | Some (True, Fin, n) \<Rightarrow>
                   (case matmul Fin Wo seq dm dm of None \<Rightarrow> None
                    | Some OUTm \<Rightarrow>
                        (let ok = verify_gemm_v2 (at_OUT P) Fin Wo OUTm
                         in Some \<lparr>ao_structure = True, ao_legs = ok, ao_pass = ok, ao_checked = n + 1\<rparr>))))"

subsection \<open>Derived weights\<close>

record AttnFullProof = AttnProof +
  at_P_q7 :: "int list list"
  at_sm :: "SoftmaxBatch list"

definition fill_q7 :: "nat \<Rightarrow> u64 \<Rightarrow> fe list" where
  "fill_q7 n seed =
     map (\<lambda>k. fe_from_u64 (((xorshift_step ^^ Suc k) seed * SAMPLE_MUL) mod 16384 + 1)) [0..<n]"

definition descale7 :: "fe list \<Rightarrow> fe list" where
  "descale7 M = map (\<lambda>x. fe_from_u64 (case fe_u64 x of Some v \<Rightarrow> drop_bit 7 v | None \<Rightarrow> 0)) M"

text \<open>The weights of a head as field elements; what the softmax did not write stays zero.\<close>

definition weights_fe :: "nat \<Rightarrow> int list \<Rightarrow> fe list" where
  "weights_fe seq P = map (\<lambda>k. if k < length P then fe_from_u64 (of_int (P ! k)) else fe_zero) [0..<seq * seq]"

fun prove_heads_full :: "fe list \<Rightarrow> fe list \<Rightarrow> fe list \<Rightarrow> nat \<Rightarrow> nat \<Rightarrow> nat \<Rightarrow> Tables \<Rightarrow> u64 \<Rightarrow> nat list \<Rightarrow> fe list
    \<Rightarrow> ((GemmProofV2 \<times> GemmProofV2 \<times> int list \<times> SoftmaxBatch) list \<times> fe list) option" where
  "prove_heads_full Qm Km Vm seq dm dh T alpha [] M = Some ([], M)"
| "prove_heads_full Qm Km Vm seq dm dh T alpha (h # hs) M =
     (case head_scores Qm Km seq dm dh h of None \<Rightarrow> None | Some (Qh, KhT, Sh) \<Rightarrow>
        (let (R, sm) = softmax_rows Sh seq T (new_softmax_batch (alpha + of_nat h));
             Vh = col_slice Vm seq dm h dh; Pfe = weights_fe seq (sr_P R)
         in case matmul Pfe Vh seq seq dh of None \<Rightarrow> None | Some Ah \<Rightarrow>
            (case prove_heads_full Qm Km Vm seq dm dh T alpha hs (place_head M Ah dm h dh) of None \<Rightarrow> None
             | Some (ls, M') \<Rightarrow>
                 Some ((prove_gemm_v2 Qh KhT Sh seq seq dh, prove_gemm_v2 Pfe Vh Ah seq dh seq, sr_P R, sm) # ls, M'))))"

definition prove_attention_full :: "fe list \<Rightarrow> fe list \<Rightarrow> fe list \<Rightarrow> fe list \<Rightarrow> fe list \<Rightarrow> nat \<Rightarrow> nat \<Rightarrow> nat \<Rightarrow> Tables \<Rightarrow> u64
    \<Rightarrow> AttnFullProof option" where
  "prove_attention_full X Wq Wk Wv Wo seq dm heads T alpha =
     (if heads = 0 then None
      else let dh = dm div heads
        in case projections X Wq Wk Wv seq dm of None \<Rightarrow> None | Some (Qraw, Kraw, Vraw) \<Rightarrow>
           (case prove_heads_full (descale7 Qraw) (descale7 Kraw) (descale7 Vraw) seq dm dh T alpha [0..<heads]
                   (replicate (seq * dm) fe_zero) of None \<Rightarrow> None
            | Some (ls, Fin) \<Rightarrow>
                (case matmul Fin Wo seq dm dm of None \<Rightarrow> None
                 | Some OUTm \<Rightarrow>
                     Some \<lparr>at_seq = seq, at_dm = dm, at_heads = heads, at_dh = dh,
                       at_Q = prove_gemm_v2 X Wq Qraw seq dm dm, at_K = prove_gemm_v2 X Wk Kraw seq dm dm,
                       at_V = prove_gemm_v2 X Wv Vraw seq dm dm, at_OUT = prove_gemm_v2 Fin Wo OUTm seq dm dm,
                       at_S = map fst ls, at_A = map (fst \<circ> snd) ls,
                       at_P_q7 = map (fst \<circ> snd \<circ> snd) ls, at_sm = map (snd \<circ> snd \<circ> snd) ls\<rparr>)))"

record AttnFullOutcome =
  af_structure :: bool
  af_legs :: bool
  af_softmax :: bool
  af_pass :: bool
  af_checked :: nat

definition full_rejected :: AttnFullOutcome where
  "full_rejected = \<lparr>af_structure = False, af_legs = False, af_softmax = False, af_pass = False, af_checked = 0\<rparr>"

definition full_structure :: "AttnFullProof \<Rightarrow> bool" where
  "full_structure P \<longleftrightarrow>
     attn_spec_ok (at_seq P) (at_dm P) (at_heads P) \<and> at_dh P = at_dm P div at_heads P
     \<and> length (at_S P) = at_heads P \<and> length (at_A P) = at_heads P
     \<and> length (at_P_q7 P) = at_heads P \<and> length (at_sm P) = at_heads P
     \<and> list_all (\<lambda>p. length p = at_seq P * at_seq P) (at_P_q7 P)"

text \<open>The flags are \<open>ok\<close> and \<open>smok\<close>; the softmax runs without a trace, whose start does not matter then.\<close>

fun verify_heads_full :: "AttnFullProof \<Rightarrow> fe list \<Rightarrow> fe list \<Rightarrow> fe list \<Rightarrow> Tables \<Rightarrow> nat list \<Rightarrow> fe list \<Rightarrow> nat
    \<Rightarrow> (bool \<times> bool \<times> fe list \<times> nat) option" where
  "verify_heads_full P Qm Km Vm T [] M n = Some (True, True, M, n)"
| "verify_heads_full P Qm Km Vm T (h # hs) M n =
     (let seq = at_seq P; dm = at_dm P; dh = at_dh P
      in case head_scores Qm Km seq dm dh h of None \<Rightarrow> None | Some (Qh, KhT, Sh) \<Rightarrow>
         (let ok = verify_gemm_v2 (at_S P ! h) Qh KhT Sh;
              R = fst (softmax_rows Sh seq T (new_softmax_batch 0))
          in if \<not> sr_ok R then Some (False, False, M, n + 1)
             else if sr_P R \<noteq> at_P_q7 P ! h then Some (False, True, M, n + 1)
             else let Pfe = weights_fe seq (sr_P R); Vh = col_slice Vm seq dm h dh
               in case matmul Pfe Vh seq seq dh of None \<Rightarrow> None | Some Ah \<Rightarrow>
                  (let ok = (ok \<and> verify_gemm_v2 (at_A P ! h) Pfe Vh Ah)
                   in if \<not> ok then Some (False, True, M, n + 2)
                      else verify_heads_full P Qm Km Vm T hs (place_head M Ah dm h dh) (n + 2))))"

definition verify_attention_full :: "AttnFullProof \<Rightarrow> fe list \<Rightarrow> fe list \<Rightarrow> fe list \<Rightarrow> fe list \<Rightarrow> fe list \<Rightarrow> Tables
    \<Rightarrow> AttnFullOutcome option" where
  "verify_attention_full P X Wq Wk Wv Wo T =
     (if \<not> full_structure P then Some full_rejected
      else let seq = at_seq P; dm = at_dm P
        in case projections X Wq Wk Wv seq dm of None \<Rightarrow> None | Some (Qraw, Kraw, Vraw) \<Rightarrow>
           (let ok = (verify_gemm_v2 (at_Q P) X Wq Qraw \<and> verify_gemm_v2 (at_K P) X Wk Kraw \<and> verify_gemm_v2 (at_V P) X Wv Vraw)
            in case (if ok then verify_heads_full P (descale7 Qraw) (descale7 Kraw) (descale7 Vraw) T [0..<at_heads P]
                              (replicate (seq * dm) fe_zero) 3
                     else Some (False, True, [], 3)) of None \<Rightarrow> None
               | Some (False, smok, Fin, n) \<Rightarrow>
                   Some \<lparr>af_structure = True, af_legs = False, af_softmax = smok, af_pass = False, af_checked = n\<rparr>
               | Some (True, smok, Fin, n) \<Rightarrow>
                   (case matmul Fin Wo seq dm dm of None \<Rightarrow> None
                    | Some OUTm \<Rightarrow>
                        (let smok = (smok \<and> list_all (\<lambda>b. sb_balanced b (exp_at T) (rcp_at T)) (at_sm P));
                             ok = verify_gemm_v2 (at_OUT P) Fin Wo OUTm
                         in Some \<lparr>af_structure = True, af_legs = ok, af_softmax = smok, af_pass = (ok \<and> smok), af_checked = n + 1\<rparr>))))"

subsection \<open>Shapes\<close>

lemma matmul_product:
  assumes "canon A" "canon B" "length A = rows * inner" "length B = inner * cols"
  shows "\<exists>C. matmul A B rows inner cols = Some C \<and> is_product A B C rows cols inner"
  using entries_product [OF assms] assms by (simp add: matmul_def)

lemma canon_map: "(\<And>x. x < n \<Longrightarrow> is_canonical (f x)) \<Longrightarrow> canon (map f [0..<n])"
  by (simp add: canon_def list_all_length)

lemma canon_at: "canon M \<Longrightarrow> x < length M \<Longrightarrow> is_canonical (M ! x)"
  by (simp add: canon_def list_all_length)

lemma divmod_less: "x < r * c \<Longrightarrow> x div c < r \<and> x mod c < (c :: nat)"
  by (cases c) (simp_all add: less_mult_imp_div_less)

lemma col_slice_shape:
  assumes "canon M" "length M = seq * dm" "h * dh + dh \<le> dm"
  shows "canon (col_slice M seq dm h dh)" "length (col_slice M seq dm h dh) = seq * dh"
proof -
  have "x div dh * dm + (h * dh + x mod dh) < length M" if "x < seq * dh" for x
    unfolding assms(2) using divmod_less [OF that] assms(3) by (intro cell_less) simp_all
  then show "canon (col_slice M seq dm h dh)"
    unfolding col_slice_def using canon_at [OF assms(1)] by (intro canon_map) simp
qed (simp add: col_slice_def)

lemma transpose_shape:
  assumes "canon M" "length M = r * c"
  shows "canon (transpose_mat M r c)" "length (transpose_mat M r c) = r * c"
proof -
  have "x mod r * c + x div r < length M" if "x < r * c" for x
    unfolding assms(2) using divmod_less [of x c r] that by (intro cell_less) (simp_all add: mult.commute)
  then show "canon (transpose_mat M r c)"
    unfolding transpose_mat_def using canon_at [OF assms(1)] by (intro canon_map) simp
qed (simp add: transpose_mat_def)

lemma transpose_entry: "j < c \<Longrightarrow> i < r \<Longrightarrow> transpose_mat M r c ! (j * r + i) = M ! (i * c + j)"
  using cell_less [of j c i r] by (simp add: transpose_mat_def mult.commute [of r c])

lemma place_head_shape:
  assumes "canon M" "length M = seq * dm" "canon Ah" "length Ah = seq * dh"
  shows "canon (place_head M Ah dm h dh)" "length (place_head M Ah dm h dh) = seq * dm"
proof -
  have "x div dm * dh + (x mod dm - h * dh) < length Ah" if "x < length M" "h * dh \<le> x mod dm" "x mod dm < h * dh + dh" for x
    unfolding assms(4) using divmod_less [of x seq dm] that assms(2) by (intro cell_less) simp_all
  then show "canon (place_head M Ah dm h dh)"
    unfolding place_head_def using canon_at [OF assms(1)] canon_at [OF assms(3)] by (intro canon_map) simp
qed (simp add: place_head_def assms(2))

text \<open>Placed columns are read back by the slice of the same head.\<close>

lemma slice_place:
  assumes "length M = seq * dm" "length Ah = seq * dh" "h * dh + dh \<le> dm"
  shows "col_slice (place_head M Ah dm h dh) seq dm h dh = Ah"
proof (rule nth_equalityI)
  fix x assume "x < length (col_slice (place_head M Ah dm h dh) seq dm h dh)"
  then have x: "x < seq * dh" by (simp add: col_slice_def)
  let ?y = "x div dh * dm + (h * dh + x mod dh)"
  note d = divmod_less [OF x]
  have c: "h * dh + x mod dh < dm" using d assms(3) by linarith
  then have y: "?y < length M" "?y div dm = x div dh" "?y mod dm = h * dh + x mod dh"
    unfolding assms(1) using d by (simp_all add: cell_less)
  then show "col_slice (place_head M Ah dm h dh) seq dm h dh ! x = Ah ! x"
    using d x by (simp add: col_slice_def place_head_def)
qed (simp add: col_slice_def assms)

subsection \<open>The scores\<close>

text \<open>
  The score leg asks for a product of inner dimension \<open>seq\<close> and \<open>dh\<close> columns. A head narrower than the
  sequence is read beyond its end, and a wider one does not give a square of scores.
\<close>

lemma narrow_head: "0 < dh \<Longrightarrow> dh < seq \<Longrightarrow> head_scores Qm Km seq dm dh h = None"
  by (simp add: head_scores_def matmul_def col_slice_def Let_def)

lemma head_scores_square:
  assumes "head_scores Qm Km seq dm dh h = Some (Qh, KhT, Sh)"
  shows "length Sh = seq * dh"
  using assms by (auto simp: head_scores_def matmul_def Let_def split: if_splits)

lemma narrow_undefined:
  assumes "attn_spec_ok seq dm heads" "dm div heads < seq"
  shows "prove_attention X Wq Wk Wv Wo Ps seq dm heads = None"
    and "prove_attention_full X Wq Wk Wv Wo seq dm heads T alpha = None"
proof -
  have d: "0 < dm div heads" using assms(1) by (auto simp: attn_spec_ok_def div_greater_zero_iff dvd_imp_le mod_0_imp_dvd)
  have h: "[0..<heads] = 0 # [1..<heads]" using assms(1) by (simp add: attn_spec_ok_def upt_conv_Cons)
  note n = narrow_head [OF d assms(2)]
  show "prove_attention X Wq Wk Wv Wo Ps seq dm heads = None"
    by (simp add: prove_attention_def Let_def h n split: option.split prod.split)
  show "prove_attention_full X Wq Wk Wv Wo seq dm heads T alpha = None"
    by (simp add: prove_attention_full_def Let_def h n split: option.split prod.split)
qed

text \<open>No proof of the full path is accepted unless a head is as wide as the sequence is long.\<close>

lemma full_pass_square:
  assumes v: "verify_attention_full P X Wq Wk Wv Wo T = Some r" and r: "af_pass r"
  shows "at_dh P = at_seq P"
proof (rule ccontr)
  assume ne: "at_dh P \<noteq> at_seq P"
  have st: "full_structure P" using v r by (auto simp: verify_attention_full_def full_rejected_def split: if_splits)
  then have h: "[0..<at_heads P] = 0 # [1..<at_heads P]" and s: "0 < at_seq P"
    by (simp_all add: full_structure_def attn_spec_ok_def upt_conv_Cons)
  have no: "\<not> sr_ok (fst (softmax_rows Sh (at_seq P) T a))" if "head_scores Qm Km (at_seq P) (at_dm P) (at_dh P) 0 = Some (Qh, KhT, Sh)" for Qm Km Qh KhT Sh a
    using head_scores_square [OF that] ne s by (simp add: softmax_rows_def)
  have f: "verify_heads_full P Qm Km Vm T [0..<at_heads P] M n = None
      \<or> verify_heads_full P Qm Km Vm T [0..<at_heads P] M n = Some (False, False, M, n + 1)" for Qm Km Vm M n
  proof (cases "head_scores Qm Km (at_seq P) (at_dm P) (at_dh P) 0")
    case (Some q)
    then show ?thesis using no unfolding h by (cases q) (simp add: Let_def)
  qed (simp add: h Let_def)
  obtain Qr Kr Vr where p: "projections X Wq Wk Wv (at_seq P) (at_dm P) = Some (Qr, Kr, Vr)"
    using v st by (auto simp: verify_attention_full_def Let_def split: option.splits)
  show False
    using v r st p f [of "descale7 Qr" "descale7 Kr" "descale7 Vr" "replicate (at_seq P * at_dm P) fe_zero" 3]
    by (auto simp: verify_attention_full_def Let_def split: if_splits)
qed

subsection \<open>Honest proofs with given weights\<close>

lemma head_legs:
  assumes Q: "canon Qm" "length Qm = seq * dm" and K: "canon Km" "length Km = seq * dm" and V: "canon Vm" "length Vm = seq * dm"
    and h: "h * seq + seq \<le> dm" and p: "canon p" "length p = seq * seq" and s: "seq \<le> 2 ^ 31"
  obtains Qh KhT Sh Ah where "head_scores Qm Km seq dm seq h = Some (Qh, KhT, Sh)"
    and "matmul p (col_slice Vm seq dm h seq) seq seq seq = Some Ah"
    and "verify_gemm_v2 (prove_gemm_v2 Qh KhT Sh seq seq seq) Qh KhT Sh"
    and "verify_gemm_v2 (prove_gemm_v2 p (col_slice Vm seq dm h seq) Ah seq seq seq) p (col_slice Vm seq dm h seq) Ah"
    and "canon Sh" "length Sh = seq * seq" "canon Ah" "length Ah = seq * seq"
proof -
  let ?Qh = "col_slice Qm seq dm h seq" and ?Kh = "transpose_mat (col_slice Km seq dm h seq) seq seq"
  let ?Vh = "col_slice Vm seq dm h seq"
  note q = col_slice_shape [OF Q h] and k = transpose_shape [OF col_slice_shape [OF K h]] and v = col_slice_shape [OF V h]
  obtain Sh where Sh: "matmul ?Qh ?Kh seq seq seq = Some Sh" "is_product ?Qh ?Kh Sh seq seq seq"
    using matmul_product [OF q(1) k(1) q(2) k(2)] by blast
  obtain Ah where Ah: "matmul p ?Vh seq seq seq = Some Ah" "is_product p ?Vh Ah seq seq seq"
    using matmul_product [OF p(1) v(1) p(2) v(2)] by blast
  show thesis
    using Sh Ah honest_gemm_v2 [OF Sh(2) s] honest_gemm_v2 [OF Ah(2) s]
    by (intro that [of ?Qh ?Kh Sh Ah]) (simp_all add: head_scores_def Let_def is_product_def)
qed

lemma honest_heads:
  assumes Q: "canon Qm" "length Qm = seq * dm" and K: "canon Km" "length Km = seq * dm" and V: "canon Vm" "length Vm = seq * dm"
    and s: "seq \<le> 2 ^ 31" and P: "at_seq P = seq" "at_dm P = dm" "at_dh P = seq"
    and Ps: "\<forall>p \<in> set Ps. canon p \<and> length p = seq * seq" and hs: "\<forall>h \<in> set hs. h < length Ps \<and> h * seq + seq \<le> dm"
    and M: "canon M" "length M = seq * dm"
  shows "\<exists>Ss As M'. prove_heads Qm Km Vm Ps seq dm seq hs M = Some (Ss, As, M') \<and> length Ss = length hs \<and> length As = length hs
    \<and> canon M' \<and> length M' = seq * dm
    \<and> ((\<forall>i<length hs. at_S P ! (hs ! i) = Ss ! i \<and> at_A P ! (hs ! i) = As ! i)
        \<longrightarrow> verify_heads P Qm Km Vm Ps hs M n = Some (True, M', n + 2 * length hs))"
  using hs M
proof (induction hs arbitrary: M n)
  case (Cons h hs)
  have p: "canon (Ps ! h)" "length (Ps ! h) = seq * seq" and h: "h < length Ps" "h * seq + seq \<le> dm" using Cons.prems(1) Ps by auto
  obtain Qh KhT Sh Ah where H: "head_scores Qm Km seq dm seq h = Some (Qh, KhT, Sh)"
    "matmul (Ps ! h) (col_slice Vm seq dm h seq) seq seq seq = Some Ah"
    "verify_gemm_v2 (prove_gemm_v2 Qh KhT Sh seq seq seq) Qh KhT Sh"
    "verify_gemm_v2 (prove_gemm_v2 (Ps ! h) (col_slice Vm seq dm h seq) Ah seq seq seq) (Ps ! h) (col_slice Vm seq dm h seq) Ah"
    "canon Ah" "length Ah = seq * seq"
    using head_legs [OF Q K V h(2) p s] by metis
  note m = place_head_shape [OF Cons.prems(2,3) H(5,6), of h]
  obtain Ss As M' where IH: "prove_heads Qm Km Vm Ps seq dm seq hs (place_head M Ah dm h seq) = Some (Ss, As, M')"
    "length Ss = length hs" "length As = length hs" "canon M'" "length M' = seq * dm"
    "(\<forall>i<length hs. at_S P ! (hs ! i) = Ss ! i \<and> at_A P ! (hs ! i) = As ! i)
        \<longrightarrow> verify_heads P Qm Km Vm Ps hs (place_head M Ah dm h seq) (n + 2) = Some (True, M', n + 2 + 2 * length hs)"
    using Cons.IH [of "place_head M Ah dm h seq" "n + 2"] Cons.prems(1) m by auto
  show ?case
    using IH H h(1) by (auto simp: Let_def P nth_Cons less_Suc_eq_0_disj)
qed simp

text \<open>The inputs of a layer: the sequence and four square weights.\<close>

definition attn_inputs :: "fe list \<Rightarrow> fe list list \<Rightarrow> nat \<Rightarrow> nat \<Rightarrow> bool" where
  "attn_inputs X Ws seq dm \<longleftrightarrow> canon X \<and> length X = seq * dm \<and> (\<forall>W \<in> set Ws. canon W \<and> length W = dm * dm)"

lemma projections_legs:
  assumes "attn_inputs X [Wq, Wk, Wv, Wo] seq dm" "dm \<le> 2 ^ 31"
  obtains Q K V where "projections X Wq Wk Wv seq dm = Some (Q, K, V)"
    and "canon Q" "length Q = seq * dm" "canon K" "length K = seq * dm" "canon V" "length V = seq * dm"
    and "verify_gemm_v2 (prove_gemm_v2 X Wq Q seq dm dm) X Wq Q"
    and "verify_gemm_v2 (prove_gemm_v2 X Wk K seq dm dm) X Wk K"
    and "verify_gemm_v2 (prove_gemm_v2 X Wv V seq dm dm) X Wv V"
proof -
  have m: "\<exists>C. matmul X W seq dm dm = Some C \<and> is_product X W C seq dm dm" if "W \<in> set [Wq, Wk, Wv]" for W
    using assms(1) that by (intro matmul_product) (auto simp: attn_inputs_def)
  obtain Q K V where "matmul X Wq seq dm dm = Some Q" "is_product X Wq Q seq dm dm"
    "matmul X Wk seq dm dm = Some K" "is_product X Wk K seq dm dm"
    "matmul X Wv seq dm dm = Some V" "is_product X Wv V seq dm dm"
    using m [of Wq] m [of Wk] m [of Wv] by auto
  then show thesis
    using assms(2) by (intro that [of Q K V]) (simp_all add: projections_def honest_gemm_v2, simp_all add: is_product_def)
qed

lemma output_leg:
  assumes "attn_inputs X [Wq, Wk, Wv, Wo] seq dm" "dm \<le> 2 ^ 31" "canon Fin" "length Fin = seq * dm"
  obtains OUTm where "matmul Fin Wo seq dm dm = Some OUTm" "verify_gemm_v2 (prove_gemm_v2 Fin Wo OUTm seq dm dm) Fin Wo OUTm"
proof -
  obtain OUTm where "matmul Fin Wo seq dm dm = Some OUTm" "is_product Fin Wo OUTm seq dm dm"
    using matmul_product [of Fin Wo seq dm dm] assms by (auto simp: attn_inputs_def)
  then show thesis using that honest_gemm_v2 assms(2) by blast
qed

lemma head_columns: "dm = heads * seq \<Longrightarrow> h < heads \<Longrightarrow> h * seq + seq \<le> (dm :: nat)"
  using mult_le_mono1 [of "Suc h" heads seq] by simp

lemma zeros_shape: "canon (replicate n fe_zero)"
  by (simp add: canon_def list_all_iff)

text \<open>With heads as wide as the sequence is long, the honest proof is accepted and every leg is checked.\<close>

lemma honest_attention:
  assumes spec: "attn_spec_ok seq dm heads" and sq: "dm = heads * seq" and b: "dm \<le> 2 ^ 31" and i: "attn_inputs X [Wq, Wk, Wv, Wo] seq dm"
    and Ps: "length Ps = heads" "\<forall>p \<in> set Ps. canon p \<and> length p = seq * seq"
  shows "\<exists>P. prove_attention X Wq Wk Wv Wo Ps seq dm heads = Some P
    \<and> verify_attention P X Wq Wk Wv Wo Ps = Some \<lparr>ao_structure = True, ao_legs = True, ao_pass = True, ao_checked = 2 * heads + 4\<rparr>"
proof -
  have h: "0 < heads" "0 < seq" using spec by (simp_all add: attn_spec_ok_def)
  have dh: "dm div heads = seq" using h sq by simp
  have s: "seq \<le> 2 ^ 31" using b h sq by (metis dvd_imp_le dvd_triv_right le_trans mult_pos_pos)
  obtain Q K V where pr: "projections X Wq Wk Wv seq dm = Some (Q, K, V)"
    and c: "canon Q" "length Q = seq * dm" "canon K" "length K = seq * dm" "canon V" "length V = seq * dm"
    and v: "verify_gemm_v2 (prove_gemm_v2 X Wq Q seq dm dm) X Wq Q" "verify_gemm_v2 (prove_gemm_v2 X Wk K seq dm dm) X Wk K"
      "verify_gemm_v2 (prove_gemm_v2 X Wv V seq dm dm) X Wv V"
    using projections_legs [OF i b] .
  have hs: "\<forall>k \<in> set [0..<heads]. k < length Ps \<and> k * seq + seq \<le> dm" using head_columns [OF sq] Ps(1) by simp
  let ?M = "replicate (seq * dm) fe_zero"
  have H: "\<exists>Ss As M'. prove_heads Q K V Ps seq dm seq [0..<heads] ?M = Some (Ss, As, M') \<and> length Ss = heads \<and> length As = heads
    \<and> canon M' \<and> length M' = seq * dm
    \<and> ((\<forall>i<heads. at_S P ! ([0..<heads] ! i) = Ss ! i \<and> at_A P ! ([0..<heads] ! i) = As ! i)
        \<longrightarrow> verify_heads P Q K V Ps [0..<heads] ?M 3 = Some (True, M', 3 + 2 * heads))"
    if "at_seq P = seq" "at_dm P = dm" "at_dh P = seq" for P
    using honest_heads [OF c s that Ps(2) hs zeros_shape, where n = 3] by simp
  obtain Ss As Fin where ph: "prove_heads Q K V Ps seq dm seq [0..<heads] ?M = Some (Ss, As, Fin)" "length Ss = heads" "length As = heads"
    "canon Fin" "length Fin = seq * dm"
    using H [of "undefined\<lparr>at_seq := seq, at_dm := dm, at_dh := seq\<rparr>"] by auto
  obtain OUTm where o: "matmul Fin Wo seq dm dm = Some OUTm" "verify_gemm_v2 (prove_gemm_v2 Fin Wo OUTm seq dm dm) Fin Wo OUTm"
    using output_leg [OF i b ph(4,5)] .
  define P where "P = \<lparr>at_seq = seq, at_dm = dm, at_heads = heads, at_dh = seq,
     at_Q = prove_gemm_v2 X Wq Q seq dm dm, at_K = prove_gemm_v2 X Wk K seq dm dm,
     at_V = prove_gemm_v2 X Wv V seq dm dm, at_OUT = prove_gemm_v2 Fin Wo OUTm seq dm dm, at_S = Ss, at_A = As\<rparr>"
  have p: "prove_attention X Wq Wk Wv Wo Ps seq dm heads = Some P"
    using h pr ph o by (simp add: prove_attention_def dh Let_def P_def)
  have "verify_heads P Q K V Ps [0..<heads] ?M 3 = Some (True, Fin, 3 + 2 * heads)"
    using H [of P] ph by (simp add: P_def)
  moreover have "attn_structure P Ps" using spec Ps ph dh by (simp add: attn_structure_def P_def list_all_iff)
  ultimately have "verify_attention P X Wq Wk Wv Wo Ps
      = Some \<lparr>ao_structure = True, ao_legs = True, ao_pass = True, ao_checked = 2 * heads + 4\<rparr>"
    using pr v o by (simp add: verify_attention_def Let_def P_def)
  with p show ?thesis by blast
qed

subsection \<open>Honest proofs with derived weights\<close>

lemma softmax_loop_result: "fst (softmax_loop T rows a) = fst (softmax_loop T rows b)
    \<and> fst (snd (softmax_loop T rows a)) = fst (snd (softmax_loop T rows b))"
proof (induction rows arbitrary: a b)
  case (Cons row rows)
  show ?case using Cons.IH by (simp add: Let_def case_prod_beta)
qed simp

text \<open>The result of the softmax does not depend on the trace.\<close>

lemma softmax_result: "fst (softmax_rows S seq T a) = fst (softmax_rows S seq T b)"
  using softmax_loop_result [of T _ a b]
  by (simp add: softmax_rows_def Let_def case_prod_beta split: option.split)

lemma softmax_length: "sr_ok (fst (softmax_rows S seq T a)) \<Longrightarrow> length (sr_P (fst (softmax_rows S seq T a))) = seq * seq"
proof -
  have l: "length (concat (fst (snd (softmax_loop T rows a)))) \<le> length (concat rows)" for rows a
    by (induction rows arbitrary: a)
      (auto simp: Let_def case_prod_beta row_entries_def intro!: add_mono)
  assume "sr_ok (fst (softmax_rows S seq T a))"
  moreover have "length (concat (rows_of seq xs)) \<le> seq * seq" for xs :: "u64 list"
  proof -
    have "length (concat (rows_of seq xs)) = (\<Sum>r\<leftarrow>[0..<seq]. min seq (length xs - r * seq))"
      by (simp add: rows_of_def length_concat comp_def min.commute)
    also have "\<dots> \<le> (\<Sum>r\<leftarrow>[0..<seq]. seq)" by (rule sum_list_mono) simp
    finally show ?thesis by (simp add: sum_list_triv)
  qed
  ultimately show ?thesis
    using le_trans [OF l] by (auto simp: softmax_rows_def Let_def case_prod_beta split: if_splits option.splits)
qed

lemma weights_shape: "canon (weights_fe seq P)" "length (weights_fe seq P) = seq * seq"
  by (simp_all add: weights_fe_def canon_map)

lemma descale_shape: "canon (descale7 M)" "length (descale7 M) = length M"
  by (simp_all add: descale7_def canon_def list_all_length)

text \<open>The producer accepts the scores of every head.\<close>

definition producer_ok :: "fe list \<Rightarrow> fe list \<Rightarrow> nat \<Rightarrow> nat \<Rightarrow> nat \<Rightarrow> Tables \<Rightarrow> nat list \<Rightarrow> bool" where
  "producer_ok Qm Km seq dm dh T hs \<longleftrightarrow>
     list_all (\<lambda>h. case head_scores Qm Km seq dm dh h of None \<Rightarrow> False
        | Some (Qh, KhT, Sh) \<Rightarrow> sr_ok (fst (softmax_rows Sh seq T (new_softmax_batch 0)))) hs"

lemma honest_heads_full:
  assumes Q: "canon Qm" "length Qm = seq * dm" and K: "canon Km" "length Km = seq * dm" and V: "canon Vm" "length Vm = seq * dm"
    and s: "seq \<le> 2 ^ 31" and P: "at_seq P = seq" "at_dm P = dm" "at_dh P = seq"
    and hs: "\<forall>h \<in> set hs. h * seq + seq \<le> dm" and ok: "producer_ok Qm Km seq dm seq T hs"
    and M: "canon M" "length M = seq * dm"
  shows "\<exists>ls M'. prove_heads_full Qm Km Vm seq dm seq T alpha hs M = Some (ls, M') \<and> length ls = length hs
    \<and> canon M' \<and> length M' = seq * dm
    \<and> (\<forall>l \<in> set ls. length (fst (snd (snd l))) = seq * seq \<and> sb_balanced (snd (snd (snd l))) (exp_at T) (rcp_at T))
    \<and> ((\<forall>i<length hs. at_S P ! (hs ! i) = fst (ls ! i) \<and> at_A P ! (hs ! i) = fst (snd (ls ! i))
          \<and> at_P_q7 P ! (hs ! i) = fst (snd (snd (ls ! i))))
        \<longrightarrow> verify_heads_full P Qm Km Vm T hs M n = Some (True, True, M', n + 2 * length hs))"
  using hs ok M
proof (induction hs arbitrary: M n)
  case (Cons h hs)
  have h: "h * seq + seq \<le> dm" using Cons.prems(1) by simp
  have "\<exists>Qh KhT Sh. head_scores Qm Km seq dm seq h = Some (Qh, KhT, Sh)" using Cons.prems(2) by (auto simp: producer_ok_def split: option.splits)
  then obtain Qh KhT Sh where H0: "head_scores Qm Km seq dm seq h = Some (Qh, KhT, Sh)" by blast
  obtain R sm where R: "softmax_rows Sh seq T (new_softmax_batch (alpha + of_nat h)) = (R, sm)" by fastforce
  have R': "fst (softmax_rows Sh seq T (new_softmax_batch 0)) = R" using R softmax_result [of Sh seq T] by (metis fst_conv)
  then have rok: "sr_ok R" using Cons.prems(2) H0 by (simp add: producer_ok_def)
  have len: "length (sr_P R) = seq * seq" using softmax_length rok R' by metis
  have "seq * seq \<le> 2 ^ 31 * 2 ^ 31" using s by (intro mult_le_mono)
  then have "seq * seq < 2 ^ 64" by simp
  from softmax_trace_balances [OF this, of Sh T "alpha + of_nat h"] have bal: "sb_balanced sm (exp_at T) (rcp_at T)" by (simp add: R)
  obtain Ah where H: "matmul (weights_fe seq (sr_P R)) (col_slice Vm seq dm h seq) seq seq seq = Some Ah"
    "verify_gemm_v2 (prove_gemm_v2 Qh KhT Sh seq seq seq) Qh KhT Sh"
    "verify_gemm_v2 (prove_gemm_v2 (weights_fe seq (sr_P R)) (col_slice Vm seq dm h seq) Ah seq seq seq)
       (weights_fe seq (sr_P R)) (col_slice Vm seq dm h seq) Ah"
    "canon Ah" "length Ah = seq * seq"
    using head_legs [OF Q K V h weights_shape s, of "sr_P R"] H0 by (metis option.inject prod.inject)
  note m = place_head_shape [OF Cons.prems(3,4) H(4,5), of h]
  obtain ls M' where IH: "prove_heads_full Qm Km Vm seq dm seq T alpha hs (place_head M Ah dm h seq) = Some (ls, M')"
    "length ls = length hs" "canon M'" "length M' = seq * dm"
    "\<forall>l \<in> set ls. length (fst (snd (snd l))) = seq * seq \<and> sb_balanced (snd (snd (snd l))) (exp_at T) (rcp_at T)"
    "(\<forall>i<length hs. at_S P ! (hs ! i) = fst (ls ! i) \<and> at_A P ! (hs ! i) = fst (snd (ls ! i))
          \<and> at_P_q7 P ! (hs ! i) = fst (snd (snd (ls ! i))))
        \<longrightarrow> verify_heads_full P Qm Km Vm T hs (place_head M Ah dm h seq) (n + 2) = Some (True, True, M', n + 2 + 2 * length hs)"
    using Cons.IH [of "place_head M Ah dm h seq" "n + 2"] Cons.prems(1,2) m by (auto simp: producer_ok_def)
  show ?case
    using IH H H0 R R' rok len bal by (auto simp: Let_def P nth_Cons less_Suc_eq_0_disj)
qed simp

text \<open>
  With heads as wide as the sequence is long and scores that the producer accepts, the honest proof is
  accepted: the weights the verifier derives are the ones the legs were proved for.
\<close>

lemma honest_attention_full:
  assumes spec: "attn_spec_ok seq dm heads" and sq: "dm = heads * seq" and b: "dm \<le> 2 ^ 31" and i: "attn_inputs X [Wq, Wk, Wv, Wo] seq dm"
    and pr: "projections X Wq Wk Wv seq dm = Some (Q, K, V)" and ok: "producer_ok (descale7 Q) (descale7 K) seq dm seq T [0..<heads]"
  shows "\<exists>P. prove_attention_full X Wq Wk Wv Wo seq dm heads T alpha = Some P
    \<and> verify_attention_full P X Wq Wk Wv Wo T
      = Some \<lparr>af_structure = True, af_legs = True, af_softmax = True, af_pass = True, af_checked = 2 * heads + 4\<rparr>"
proof -
  have h: "0 < heads" "0 < seq" using spec by (simp_all add: attn_spec_ok_def)
  have dh: "dm div heads = seq" using h sq by simp
  have s: "seq \<le> 2 ^ 31" using b h sq by (metis dvd_imp_le dvd_triv_right le_trans mult_pos_pos)
  have l: "length Q = seq * dm" "length K = seq * dm" "length V = seq * dm"
    and v: "verify_gemm_v2 (prove_gemm_v2 X Wq Q seq dm dm) X Wq Q" "verify_gemm_v2 (prove_gemm_v2 X Wk K seq dm dm) X Wk K"
      "verify_gemm_v2 (prove_gemm_v2 X Wv V seq dm dm) X Wv V"
    using projections_legs [OF i b] pr by (metis option.inject prod.inject)+
  have c: "canon (descale7 Q)" "length (descale7 Q) = seq * dm" "canon (descale7 K)" "length (descale7 K) = seq * dm"
    "canon (descale7 V)" "length (descale7 V) = seq * dm" by (simp_all add: descale_shape l)
  have hs: "\<forall>k \<in> set [0..<heads]. k * seq + seq \<le> dm" using head_columns [OF sq] by simp
  let ?M = "replicate (seq * dm) fe_zero"
  note H = honest_heads_full [OF c s _ _ _ hs ok zeros_shape, where alpha = alpha and n = 3]
  obtain ls Fin where ph: "prove_heads_full (descale7 Q) (descale7 K) (descale7 V) seq dm seq T alpha [0..<heads] ?M = Some (ls, Fin)"
    "length ls = heads" "canon Fin" "length Fin = seq * dm"
    "\<forall>l \<in> set ls. length (fst (snd (snd l))) = seq * seq \<and> sb_balanced (snd (snd (snd l))) (exp_at T) (rcp_at T)"
    using H [of "undefined\<lparr>at_seq := seq, at_dm := dm, at_dh := seq\<rparr>"] by auto
  obtain OUTm where o: "matmul Fin Wo seq dm dm = Some OUTm" "verify_gemm_v2 (prove_gemm_v2 Fin Wo OUTm seq dm dm) Fin Wo OUTm"
    using output_leg [OF i b ph(3,4)] .
  define P where "P = \<lparr>at_seq = seq, at_dm = dm, at_heads = heads, at_dh = seq,
     at_Q = prove_gemm_v2 X Wq Q seq dm dm, at_K = prove_gemm_v2 X Wk K seq dm dm,
     at_V = prove_gemm_v2 X Wv V seq dm dm, at_OUT = prove_gemm_v2 Fin Wo OUTm seq dm dm,
     at_S = map fst ls, at_A = map (fst \<circ> snd) ls, at_P_q7 = map (fst \<circ> snd \<circ> snd) ls, at_sm = map (snd \<circ> snd \<circ> snd) ls\<rparr>"
  have p: "prove_attention_full X Wq Wk Wv Wo seq dm heads T alpha = Some P"
    using h pr ph o by (simp add: prove_attention_full_def dh Let_def P_def)
  have "verify_heads_full P (descale7 Q) (descale7 K) (descale7 V) T [0..<heads] ?M 3 = Some (True, True, Fin, 3 + 2 * heads)"
    using H [of P] ph by (simp add: P_def)
  moreover have "full_structure P" using spec ph dh by (simp add: full_structure_def P_def list_all_iff)
  moreover have "list_all (\<lambda>b. sb_balanced b (exp_at T) (rcp_at T)) (at_sm P)" using ph(5) by (simp add: P_def list_all_iff)
  ultimately have "verify_attention_full P X Wq Wk Wv Wo T
      = Some \<lparr>af_structure = True, af_legs = True, af_softmax = True, af_pass = True, af_checked = 2 * heads + 4\<rparr>"
    using pr v o by (simp add: verify_attention_full_def Let_def P_def)
  with p show ?thesis by blast
qed

text \<open>What the verifier accepts uses the weights it derived itself, not the ones the proof carries.\<close>

lemma accepted_weights_derived:
  "verify_heads_full P Qm Km Vm T hs M n = Some (True, sm, M', n') \<Longrightarrow> h \<in> set hs \<Longrightarrow>
    \<exists>Qh KhT Sh. head_scores Qm Km (at_seq P) (at_dm P) (at_dh P) h = Some (Qh, KhT, Sh)
      \<and> sr_ok (fst (softmax_rows Sh (at_seq P) T (new_softmax_batch 0)))
      \<and> at_P_q7 P ! h = sr_P (fst (softmax_rows Sh (at_seq P) T (new_softmax_batch 0)))"
proof (induction hs arbitrary: M n)
  case (Cons k hs)
  obtain Qh KhT Sh where q: "head_scores Qm Km (at_seq P) (at_dm P) (at_dh P) k = Some (Qh, KhT, Sh)"
    using Cons.prems(1) by (auto simp: Let_def split: option.splits)
  then have r: "sr_ok (fst (softmax_rows Sh (at_seq P) T (new_softmax_batch 0)))"
    "sr_P (fst (softmax_rows Sh (at_seq P) T (new_softmax_batch 0))) = at_P_q7 P ! k"
    and n: "\<exists>M1 n1. verify_heads_full P Qm Km Vm T hs M1 n1 = Some (True, sm, M', n')"
    using Cons.prems(1) by (auto simp: Let_def split: option.splits if_splits)
  show ?case using q r n Cons.IH Cons.prems(2) by auto
qed simp

end
