(* ===== verification/Vesta_Field.thy ===== *)
theory Vesta_Field
  imports Digest_Scalar Mont384 Mont_Kernel
begin

text \<open>
  The Vesta base field of \<open>src/include/hsma/fev.hpp\<close>: four limbs in the Montgomery domain over the
  modulus of \<open>src/generated/vesta_params_gen.hpp\<close>. The multiplication is the interleaved (CIOS)
  form, whose sixth word is overwritten twice in every round; on a reduced factor nothing is ever
  lost there. The operations are one more instance of the Montgomery interface.
\<close>

subsection \<open>Generated parameters\<close>

definition V_MOD :: "u64 list" where
  "V_MOD = [0x992d30ed00000001, 0x224698fc094cf91b, 0x0000000000000000, 0x4000000000000000]"

definition V_INV :: u64 where
  "V_INV = 0x992d30ecffffffff"

definition V_RR :: "u64 list" where
  "V_RR = [0x8c78ecb30000000f, 0xd7d30dbd8b0de0e7, 0x7797a99bc3c95d18, 0x096d41af7b9cb714]"

definition V_R_ONE :: "u64 list" where
  "V_R_ONE = [0x34786d38fffffffd, 0x992c350be41914ad, 0xffffffffffffffff, 0x3fffffffffffffff]"

definition vesta_q :: nat where
  "vesta_q = limbs_val V_MOD"

subsection \<open>The operations\<close>

text \<open>The array of four limbs that the struct \<open>fev\<close> holds.\<close>

type_synonym fev = "u64 list"

definition geqv :: "u64 list \<Rightarrow> u64 list \<Rightarrow> bool" where
  "geqv a b = geq_loop 4 a b"

definition fev_is_canonical :: "fev \<Rightarrow> bool" where
  "fev_is_canonical x = (\<not> geqv x V_MOD)"

definition fev_eq :: "fev \<Rightarrow> fev \<Rightarrow> bool" where
  "fev_eq a b = (a = b)"

text \<open>
  One turn of the outer loop over the six words: the row of the product, the word above it, the
  multiple of the modulus that clears the lowest word, the word above it, and the shift down.
\<close>

definition vesta_round :: "fev \<Rightarrow> u64 \<Rightarrow> u64 list \<Rightarrow> u64 list" where
  "vesta_round B a T =
     (let (T1, c) = mac_loop T 0 B a 0;
          (lo, hi) = addc (T1 ! 4) c 0;
          T2 = T1[4 := lo, 5 := hi];
          m = T2 ! 0 * V_INV;
          (T3, c2) = mac_loop T2 0 V_MOD m 0;
          (lo2, hi2) = addc (T3 ! 4) c2 0;
          T4 = T3[4 := lo2, 5 := hi2]
      in tl T4 @ [0])"

definition fev_mul :: "fev \<Rightarrow> fev \<Rightarrow> fev" where
  "fev_mul A B =
     (let T = fold (vesta_round B) A (replicate 6 0)
      in if T ! 4 \<noteq> 0 \<or> geqv T V_MOD then borrow_sub 0 (take 4 T) V_MOD else take 4 T)"

definition fev_sqr :: "fev \<Rightarrow> fev" where
  "fev_sqr a = fev_mul a a"

definition fev_add :: "fev \<Rightarrow> fev \<Rightarrow> fev" where
  "fev_add a b =
     (let (r, carry) = bn_add 0 a b
      in if carry \<noteq> 0 then borrow_sub 0 r V_MOD
         else if geqv r V_MOD then borrow_sub 0 r V_MOD else r)"

definition fev_sub :: "fev \<Rightarrow> fev \<Rightarrow> fev" where
  "fev_sub a b =
     (let (r, borrow) = bn_sub 0 a b in if borrow \<noteq> 0 then fst (bn_add 0 r V_MOD) else r)"

definition fev_one :: fev where
  "fev_one = V_R_ONE"

definition fev_zero :: fev where
  "fev_zero = [0, 0, 0, 0]"

definition fev_is_zero :: "fev \<Rightarrow> bool" where
  "fev_is_zero x = (x = [0, 0, 0, 0])"

definition fev_from_u64 :: "u64 \<Rightarrow> fev" where
  "fev_from_u64 x = fev_mul [x, 0, 0, 0] V_RR"

definition fev_to_canonical :: "fev \<Rightarrow> fev" where
  "fev_to_canonical x = fev_mul x [1, 0, 0, 0]"

definition fev_to_le_bytes :: "fev \<Rightarrow> bytes" where
  "fev_to_le_bytes x = limbs_to_bytes (fev_to_canonical x)"

text \<open>\<open>FevFromBytes\<close> with \<open>ok\<close> unset is the value None; its element is zero and no caller reads it.\<close>

definition fev_from_limbs_canonical :: "u64 list \<Rightarrow> fev option" where
  "fev_from_limbs_canonical g = (if \<not> fev_is_canonical g then None else Some (fev_mul g V_RR))"

definition fev_from_le_bytes :: "bytes \<Rightarrow> fev option" where
  "fev_from_le_bytes bs =
     (let x = bytes_to_limbs bs
      in if \<not> fev_is_canonical x then None else Some (fev_mul x V_RR))"

text \<open>The exponent \<open>MOD - 2\<close>, by the loop that stops at the first limb without a borrow.\<close>

fun minus_limb :: "u64 \<Rightarrow> u64 list \<Rightarrow> u64 list" where
  "minus_limb bw [] = []"
| "minus_limb bw (e # es) =
     (if bw = 0 then e # es else (e - bw) # minus_limb (if bw \<le> e then 0 else 1) es)"

definition fev_inv :: "fev \<Rightarrow> fev" where
  "fev_inv a =
     foldl (\<lambda>r b. let r = fev_mul r r in if b then fev_mul r a else r) fev_one
       (bits_down (minus_limb 2 V_MOD))"

subsection \<open>Constants\<close>

lemma vesta_q_eq: "vesta_q = 28948022309329048855892746252171976963363056481941560715954676764349967630337"
  by (simp add: vesta_q_def V_MOD_def)

lemma V_MOD_val: "limbs_val V_MOD = vesta_q" "length V_MOD = 4"
  by (simp_all add: vesta_q_def V_MOD_def)

definition fev_canon :: "fev \<Rightarrow> bool" where
  "fev_canon x \<longleftrightarrow> length x = 4 \<and> limbs_val x < vesta_q"

lemma geqv_val: "4 \<le> length a \<Longrightarrow> 4 \<le> length b \<Longrightarrow> geqv a b \<longleftrightarrow> limbs_val (take 4 b) \<le> limbs_val (take 4 a)"
  unfolding geqv_def by (rule geq_loop_val)

lemma fev_is_canonical_iff: "length x = 4 \<Longrightarrow> fev_is_canonical x \<longleftrightarrow> fev_canon x"
  by (auto simp: fev_is_canonical_def geqv_val V_MOD_val fev_canon_def)

subsection \<open>Subtraction of the modulus\<close>

lemma borrow_sub_val:
  assumes l: "length x = 4" "length M = 4" "\<forall>p \<in> set M. p \<noteq> - 1" and le: "limbs_val M \<le> limbs_val x"
  shows "length (borrow_sub 0 x M) = 4" and "limbs_val (borrow_sub 0 x M) = limbs_val x - limbs_val M"
proof -
  have m: "length x = length M" using l by simp
  obtain rs b where s: "sub_loop False x M = (rs, b)" by fastforce
  then have e: "borrow_sub 0 x M = rs" using borrow_sub_loop [OF m l(3), of False] by (simp only: of_bool_eq fst_conv)
  have len: "length rs = 4" using sub_loop_length [OF m, of False] s l(1) by simp
  have v: "limbs_val x + of_bool b * 2 ^ 256 = limbs_val rs + limbs_val M"
    using sub_loop_val [OF m s] unfolding l(1) by simp
  have "limbs_val rs < 2 ^ 256" using limbs_val_lt [of rs] len by simp
  then have "\<not> b" using v le by (cases b) simp_all
  then show "length (borrow_sub 0 x M) = 4" and "limbs_val (borrow_sub 0 x M) = limbs_val x - limbs_val M"
    using v len e by simp_all
qed

lemma V_MOD_limbs: "\<forall>p \<in> set V_MOD. p \<noteq> - 1"
  by (simp add: V_MOD_def)

text \<open>One conditional subtraction brings a value below twice the modulus into range.\<close>

lemma fev_reduce:
  assumes "length x = 4" and "limbs_val x < 2 * vesta_q"
  shows "fev_canon (if geqv x V_MOD then borrow_sub 0 x V_MOD else x)
    \<and> limbs_val (if geqv x V_MOD then borrow_sub 0 x V_MOD else x) = limbs_val x mod vesta_q"
proof (cases "vesta_q \<le> limbs_val x")
  case True
  then have "limbs_val x mod vesta_q = limbs_val x - vesta_q" "limbs_val x - vesta_q < vesta_q"
    using assms(2) by (simp_all add: le_mod_geq)
  then show ?thesis using True assms borrow_sub_val [OF assms(1) V_MOD_val(2) V_MOD_limbs]
    by (simp add: geqv_val V_MOD_val fev_canon_def)
qed (use assms in \<open>simp add: geqv_val V_MOD_val fev_canon_def\<close>)

subsection \<open>The multiplication kernel\<close>

lemma V_INV_MOD0: "(x * V_INV) * (V_MOD ! 0) = - x"
proof -
  have "V_INV * (V_MOD ! 0) = - 1" by (simp add: V_INV_def V_MOD_def)
  then show ?thesis by (simp add: mult.assoc)
qed

text \<open>A row and the word above it, as long as the sum stays within five words.\<close>

lemma row_five:
  assumes "length T = 6" and "length B = 4" and T5: "T ! 5 = 0"
    and fits: "limbs_val T + limbs_val B * unat a < 2 ^ 320"
    and m: "mac_loop T 0 B a 0 = (T1, c)" and ac: "addc (T1 ! 4) c 0 = (lo, hi)"
  shows "limbs_val (T1[4 := lo, 5 := hi]) = limbs_val T + limbs_val B * unat a" and "hi = 0" and "length T1 = 6"
    and "T1 ! 5 = 0"
proof -
  have l: "length T1 = 6" using mac_loop_length [of T 0 B a 0] m assms(1) by simp
  have v: "limbs_val T1 + unat c * 2 ^ 256 = limbs_val T + limbs_val B * unat a"
    using mac_loop_val [OF _ m] assms by simp
  have s: "limbs_val T1 = limbs_val (take 4 T1) + unat (T1 ! 4) * 2 ^ 256 + unat (T1 ! 5) * 2 ^ 320"
  proof -
    have "limbs_val T1 = limbs_val (take (Suc (Suc 4)) T1)" using l by simp
    also have "\<dots> = limbs_val (take 4 T1) + unat (T1 ! 4) * 2 ^ (64 * 4) + unat (T1 ! Suc 4) * 2 ^ (64 * Suc 4)"
      using l by (simp only: limbs_val_take_Suc)
    finally show ?thesis by simp
  qed
  have t4: "limbs_val (take 4 T1) < 2 ^ 256" using limbs_val_lt [of "take 4 T1"] l by simp
  have "unat (T1 ! 5) = 0"
  proof (rule ccontr)
    assume "unat (T1 ! 5) \<noteq> 0"
    then have "2 ^ 320 \<le> unat (T1 ! 5) * 2 ^ 320" by simp
    then show False using v s fits by linarith
  qed
  then show z: "T1 ! 5 = 0" by (simp add: unat_eq_0)
  note av = addc_val [OF ac]
  have tot: "limbs_val (take 4 T1) + (unat lo + 2 ^ 64 * unat hi) * 2 ^ 256 = limbs_val T + limbs_val B * unat a"
    using v s z unfolding av by (simp add: algebra_simps)
  have h0: "unat hi = 0"
  proof (rule ccontr)
    assume "unat hi \<noteq> 0"
    then have "2 ^ 64 * 2 ^ 256 \<le> (unat lo + 2 ^ 64 * unat hi) * (2::nat) ^ 256" by (intro mult_le_mono1) simp
    then show False using tot fits by simp
  qed
  then show "hi = 0" by (simp add: unat_eq_0)
  show "length T1 = 6" by (rule l)
  let ?U = "T1[4 := lo, 5 := hi]"
  have "limbs_val ?U = limbs_val (take (Suc (Suc 4)) ?U)" using l by simp
  also have "\<dots> = limbs_val (take 4 ?U) + unat (?U ! 4) * 2 ^ (64 * 4) + unat (?U ! Suc 4) * 2 ^ (64 * Suc 4)"
    using l by (simp only: limbs_val_take_Suc length_list_update)
  also have "\<dots> = limbs_val (take 4 T1) + unat lo * 2 ^ 256" using l h0 by (simp add: take_update_cancel)
  finally show "limbs_val ?U = limbs_val T + limbs_val B * unat a" using tot h0 by simp
qed

lemma limbs_val_low: "xs \<noteq> [] \<Longrightarrow> limbs_val xs mod 2 ^ 64 = unat (xs ! 0)"
  using unat_u64_lt [of "xs ! 0"] by (cases xs) simp_all

lemma mod_sum_product: "(x + q * m) mod k = (x mod k + (q mod k) * m) mod (k::nat)"
  using mod_add_eq [of x k "q * m"] mod_add_eq [of x k "(q mod k) * m"] by (simp add: mod_simps)

lemma vesta_round_val:
  assumes T: "length T = 6" "T ! 5 = 0" "limbs_val T < limbs_val B + vesta_q" and B: "fev_canon B"
  shows "\<exists>m<2 ^ 64. 2 ^ 64 * limbs_val (vesta_round B a T) = limbs_val T + limbs_val B * unat a + vesta_q * m"
    and "length (vesta_round B a T) = 6" and "vesta_round B a T ! 5 = 0"
    and "limbs_val (vesta_round B a T) < limbs_val B + vesta_q"
proof -
  obtain T1 c where m1: "mac_loop T 0 B a 0 = (T1, c)" by fastforce
  obtain lo hi where a1: "addc (T1 ! 4) c 0 = (lo, hi)" by fastforce
  define T2 where "T2 = T1[4 := lo, 5 := hi]"
  define m where "m = T2 ! 0 * V_INV"
  obtain T3 c2 where m2: "mac_loop T2 0 V_MOD m 0 = (T3, c2)" by fastforce
  obtain lo2 hi2 where a2: "addc (T3 ! 4) c2 0 = (lo2, hi2)" by fastforce
  define T4 where "T4 = T3[4 := lo2, 5 := hi2]"
  have def: "vesta_round B a T = tl T4 @ [0]"
    unfolding vesta_round_def m1 a1 Let_def case_prod_conv T2_def [symmetric] m_def [symmetric] m2 a2
    unfolding case_prod_conv a2 T4_def [symmetric] ..
  have Bq: "limbs_val B < vesta_q" "length B = 4" using B by (simp_all add: fev_canon_def)
  have ba: "limbs_val B * unat a \<le> vesta_q * (2 ^ 64 - 1)"
    using Bq unat_u64_lt [of a] by (intro mult_le_mono) simp_all
  have qm: "vesta_q * unat m \<le> vesta_q * (2 ^ 64 - 1)" using unat_u64_lt [of m] by (intro mult_le_mono2) simp
  have big: "vesta_q + vesta_q + vesta_q * (2 ^ 64 - 1) + vesta_q * (2 ^ 64 - 1) < 2 ^ 320" by (simp add: vesta_q_eq)
  have "limbs_val T + limbs_val B * unat a < 2 ^ 320" using T(3) Bq(1) ba big by linarith
  note r1 = row_five [OF T(1) Bq(2) T(2) this m1 a1, folded T2_def]
  have T2: "length T2 = 6" "T2 ! 5 = 0" using r1(2,3) by (simp_all add: T2_def)
  have "limbs_val T2 + limbs_val V_MOD * unat m < 2 ^ 320"
    using T(3) Bq(1) ba qm big unfolding r1(1) V_MOD_val by linarith
  note r2 = row_five [OF T2(1) V_MOD_val(2) T2(2) this m2 a2, folded T4_def]
  have T4: "length T4 = 6" "T4 ! 5 = 0" using r2(2,3) by (simp_all add: T4_def)
  have v4: "limbs_val T4 = limbs_val T + limbs_val B * unat a + vesta_q * unat m"
    using r1(1) r2(1) by (simp add: V_MOD_val)
  have "T4 \<noteq> []" using T4(1) by auto
  from limbs_val_low [OF this, symmetric] have "unat (T4 ! 0) = (limbs_val T2 + vesta_q * unat m) mod 2 ^ 64"
    by (simp only: r2(1) V_MOD_val)
  also have "\<dots> = (limbs_val T2 mod 2 ^ 64 + (vesta_q mod 2 ^ 64) * unat m) mod 2 ^ 64" by (rule mod_sum_product)
  also have "\<dots> = (unat (T2 ! 0) + unat (V_MOD ! 0) * unat m) mod 2 ^ 64"
  proof -
    have "T2 \<noteq> []" "V_MOD \<noteq> []" using T2(1) by (auto simp: V_MOD_def)
    from this [THEN limbs_val_low] show ?thesis by (simp only: V_MOD_val)
  qed
  also have "\<dots> = unat (T2 ! 0 + V_MOD ! 0 * m)" by (simp add: unat_word_ariths mod_simps)
  also have "T2 ! 0 + V_MOD ! 0 * m = 0" using V_INV_MOD0 [of "T2 ! 0"] by (simp add: m_def mult.commute)
  finally have "T4 ! 0 = 0" by (simp add: unat_eq_0)
  then obtain ts where ts: "T4 = 0 # ts" "length ts = 5" using T4(1) by (cases T4) auto
  have val: "2 ^ 64 * limbs_val (vesta_round B a T) = limbs_val T4"
    using ts by (simp add: def limbs_val_append)
  show "\<exists>m<2 ^ 64. 2 ^ 64 * limbs_val (vesta_round B a T) = limbs_val T + limbs_val B * unat a + vesta_q * m"
    using val v4 unat_u64_lt [of m] by (intro exI [of _ "unat m"]) simp
  show "length (vesta_round B a T) = 6" "vesta_round B a T ! 5 = 0" using ts by (simp_all add: def nth_append)
  have "limbs_val B * unat a + limbs_val B \<le> limbs_val B * 2 ^ 64"
    using mult_le_mono2 [of "unat a + 1" "2 ^ 64" "limbs_val B"] unat_u64_lt [of a] by simp
  moreover have "vesta_q * unat m + vesta_q \<le> vesta_q * 2 ^ 64"
    using mult_le_mono2 [of "unat m + 1" "2 ^ 64" vesta_q] unat_u64_lt [of m] by simp
  ultimately have "(limbs_val B + vesta_q) + (limbs_val B * unat a + vesta_q * unat m) \<le> limbs_val B * 2 ^ 64 + vesta_q * 2 ^ 64"
    by linarith
  moreover have "2 ^ 64 * limbs_val (vesta_round B a T) < (limbs_val B + vesta_q) + (limbs_val B * unat a + vesta_q * unat m)"
    using T(3) unfolding val v4 by linarith
  ultimately have "2 ^ 64 * limbs_val (vesta_round B a T) < 2 ^ 64 * (limbs_val B + vesta_q)"
    by (simp only: add_mult_distrib2 mult.commute [of _ "2 ^ 64"])
  then show "limbs_val (vesta_round B a T) < limbs_val B + vesta_q" by simp
qed

lemma fold_cios:
  assumes "fev_canon B"
  shows "length T = 6 \<Longrightarrow> T ! 5 = 0 \<Longrightarrow> limbs_val T < limbs_val B + vesta_q \<Longrightarrow>
    \<exists>M. 2 ^ (64 * length as) * limbs_val (fold (vesta_round B) as T)
        = limbs_val T + limbs_val as * limbs_val B + vesta_q * M
      \<and> length (fold (vesta_round B) as T) = 6 \<and> fold (vesta_round B) as T ! 5 = 0
      \<and> limbs_val (fold (vesta_round B) as T) < limbs_val B + vesta_q"
proof (induction as arbitrary: T)
  case (Cons a as)
  let ?T = "vesta_round B a T"
  note r = vesta_round_val [OF Cons.prems assms, of a]
  obtain m where m: "2 ^ 64 * limbs_val ?T = limbs_val T + limbs_val B * unat a + vesta_q * m" using r(1) by blast
  obtain M where M: "2 ^ (64 * length as) * limbs_val (fold (vesta_round B) as ?T)
      = limbs_val ?T + limbs_val as * limbs_val B + vesta_q * M"
    and rest: "length (fold (vesta_round B) as ?T) = 6" "fold (vesta_round B) as ?T ! 5 = 0"
      "limbs_val (fold (vesta_round B) as ?T) < limbs_val B + vesta_q"
    using Cons.IH [OF r(2-4)] by blast
  have "2 ^ (64 * length (a # as)) * limbs_val (fold (vesta_round B) (a # as) T)
      = 2 ^ 64 * (2 ^ (64 * length as) * limbs_val (fold (vesta_round B) as ?T))"
    by (simp add: power_add)
  also have "\<dots> = 2 ^ 64 * limbs_val ?T + 2 ^ 64 * limbs_val as * limbs_val B + vesta_q * (2 ^ 64 * M)"
    unfolding M by (simp add: algebra_simps)
  also have "\<dots> = limbs_val T + limbs_val (a # as) * limbs_val B + vesta_q * (m + 2 ^ 64 * M)"
    unfolding m by (simp add: algebra_simps)
  finally show ?case using rest by (intro exI [of _ "m + 2 ^ 64 * M"]) simp
qed (simp add: exI [of _ 0])

lemma fev_mul_val:
  assumes A: "length A = 4" and B: "fev_canon B"
  shows "fev_canon (fev_mul A B)"
    and "(2 ^ 256 * limbs_val (fev_mul A B)) mod vesta_q = (limbs_val A * limbs_val B) mod vesta_q"
proof -
  define T where "T = fold (vesta_round B) A (replicate 6 0)"
  have "limbs_val (replicate 6 0) < limbs_val B + vesta_q" "replicate 6 (0::u64) ! 5 = 0" "length (replicate 6 (0::u64)) = 6"
    by (simp_all add: vesta_q_eq)
  then obtain M where M: "2 ^ 256 * limbs_val T = limbs_val A * limbs_val B + vesta_q * M"
    and T: "length T = 6" "T ! 5 = 0" "limbs_val T < limbs_val B + vesta_q"
    using fold_cios [OF B, of "replicate 6 0" A] A by (auto simp: T_def)
  have s: "limbs_val T = limbs_val (take 4 T) + unat (T ! 4) * 2 ^ 256"
  proof -
    have "limbs_val T = limbs_val (take (Suc (Suc 4)) T)" using T by simp
    also have "\<dots> = limbs_val (take 4 T) + unat (T ! 4) * 2 ^ (64 * 4) + unat (T ! Suc 4) * 2 ^ (64 * Suc 4)"
      using T by (simp only: limbs_val_take_Suc)
    finally show ?thesis using T by simp
  qed
  have lt: "limbs_val T < 2 * vesta_q" using T(3) B by (simp add: fev_canon_def)
  have "unat (T ! 4) = 0"
  proof (rule ccontr)
    assume "unat (T ! 4) \<noteq> 0"
    then have "2 ^ 256 \<le> unat (T ! 4) * 2 ^ 256" by simp
    then show False using s lt by (simp add: vesta_q_eq)
  qed
  then have t4: "T ! 4 = 0" and tv: "limbs_val (take 4 T) = limbs_val T" using s by (simp_all add: unat_eq_0)
  have "geqv T V_MOD = geqv (take 4 T) V_MOD" using T V_MOD_val by (simp add: geqv_val)
  then have eq: "fev_mul A B = (if geqv (take 4 T) V_MOD then borrow_sub 0 (take 4 T) V_MOD else take 4 T)"
    using t4 by (simp add: fev_mul_def T_def [symmetric])
  note red = fev_reduce [of "take 4 T", unfolded tv, folded eq]
  show "fev_canon (fev_mul A B)" using red T(1) lt by simp
  have "limbs_val (fev_mul A B) = limbs_val T mod vesta_q" using red T(1) lt by simp
  then have "(2 ^ 256 * limbs_val (fev_mul A B)) mod vesta_q = (2 ^ 256 * limbs_val T) mod vesta_q"
    by (simp add: mod_simps)
  then show "(2 ^ 256 * limbs_val (fev_mul A B)) mod vesta_q = (limbs_val A * limbs_val B) mod vesta_q"
    unfolding M by simp
qed

lemma fev_add_val:
  assumes a: "fev_canon a" and b: "fev_canon b"
  shows "fev_canon (fev_add a b)" and "limbs_val (fev_add a b) = (limbs_val a + limbs_val b) mod vesta_q"
proof -
  obtain r c where s: "bn_add 0 a b = (r, c)" by fastforce
  have l: "length a = 4" "length b = 4" and lt: "limbs_val a < vesta_q" "limbs_val b < vesta_q"
    using a b by (simp_all add: fev_canon_def)
  have v: "limbs_val r + unat c * 2 ^ 256 = limbs_val a + limbs_val b" "length r = 4"
    using bn_add_val [OF _ s] l by simp_all
  have "unat c = 0"
  proof (rule ccontr)
    assume "unat c \<noteq> 0"
    then have "2 ^ 256 \<le> unat c * 2 ^ 256" by simp
    then show False using v lt by (simp add: vesta_q_eq)
  qed
  then have c: "c = 0" by (simp add: unat_eq_0)
  then have eq: "fev_add a b = (if geqv r V_MOD then borrow_sub 0 r V_MOD else r)" and rv: "limbs_val r = limbs_val a + limbs_val b"
    using s v by (simp_all add: fev_add_def)
  show "fev_canon (fev_add a b)" and "limbs_val (fev_add a b) = (limbs_val a + limbs_val b) mod vesta_q"
    using fev_reduce [OF v(2), folded eq] rv lt by simp_all
qed

lemma fev_sub_val:
  assumes a: "fev_canon a" and b: "fev_canon b"
  shows "fev_canon (fev_sub a b)" and "limbs_val (fev_sub a b) = (limbs_val a + (vesta_q - limbs_val b)) mod vesta_q"
proof -
  obtain r w where s: "bn_sub 0 a b = (r, w)" by fastforce
  have l: "length a = 4" "length b = 4" and lt: "limbs_val a < vesta_q" "limbs_val b < vesta_q"
    using a b by (simp_all add: fev_canon_def)
  have v: "limbs_val a + unat w * 2 ^ 256 = limbs_val r + limbs_val b" "unat w \<le> 1" "length r = 4"
    using bn_sub_val [OF _ _ s] l by simp_all
  have rl: "limbs_val r < 2 ^ 256" using limbs_val_lt [of r] v(3) by simp
  have "fev_canon (fev_sub a b) \<and> limbs_val (fev_sub a b) = (limbs_val a + (vesta_q - limbs_val b)) mod vesta_q"
  proof (cases "w = 0")
    case True
    then have r: "limbs_val a = limbs_val r + limbs_val b" using v(1) by simp
    then have "limbs_val a + (vesta_q - limbs_val b) = limbs_val r + vesta_q" using lt by simp
    then have "(limbs_val a + (vesta_q - limbs_val b)) mod vesta_q = limbs_val r" using r lt by simp
    then show ?thesis using True s v(3) r lt by (simp add: fev_sub_def fev_canon_def)
  next
    case False
    then have w: "unat w = 1" using v(2) by (simp add: le_Suc_eq unat_eq_0)
    obtain t c where t: "bn_add 0 r V_MOD = (t, c)" by fastforce
    have tv: "limbs_val t + unat c * 2 ^ 256 = limbs_val r + vesta_q" "length t = 4"
      using bn_add_val [OF _ t] v(3) V_MOD_val by simp_all
    have rv: "limbs_val r = limbs_val a + 2 ^ 256 - limbs_val b" and ab: "limbs_val a < limbs_val b"
      using v(1) w rl by simp_all
    have "limbs_val t < 2 ^ 256" using limbs_val_lt [of t] tv(2) by simp
    moreover have "limbs_val t + unat c * 2 ^ 256 = 2 ^ 256 + (limbs_val a + (vesta_q - limbs_val b))"
      using tv(1) rv lt by (simp add: vesta_q_eq)
    moreover have "limbs_val a + (vesta_q - limbs_val b) < vesta_q" using ab lt by simp
    moreover have "unat c \<le> 1"
    proof (rule ccontr)
      assume "\<not> unat c \<le> 1"
      then have "2 * 2 ^ 256 \<le> unat c * 2 ^ 256" by (intro mult_le_mono1) simp
      then show False using tv(1) rl by (simp add: vesta_q_eq)
    qed
    ultimately have "limbs_val t = limbs_val a + (vesta_q - limbs_val b)"
      by (cases "unat c = 0"; simp; cases "unat c = 1"; simp)
    then show ?thesis using False s t tv(2) ab lt by (simp add: fev_sub_def fev_canon_def)
  qed
  then show "fev_canon (fev_sub a b)" and "limbs_val (fev_sub a b) = (limbs_val a + (vesta_q - limbs_val b)) mod vesta_q"
    by simp_all
qed

subsection \<open>The residue ring\<close>

type_synonym vesta = "28948022309329048855892746252171976963363056481941560715954676764349967630337"

definition V_RINV :: nat where
  "V_RINV = 15353493766103302224812374511606760489073247795810767472367693728416386214313"

lemma of_nat_vesta: "(of_nat a :: vesta) = of_nat b \<longleftrightarrow> a mod vesta_q = b mod vesta_q"
proof -
  have "(of_nat a :: vesta) = of_nat b \<longleftrightarrow> a mod CARD(vesta) = b mod CARD(vesta)"
    by (rule of_nat_eq_iff_mod)
  then show ?thesis by (simp add: vesta_q_eq)
qed

lemma V_RINV_R: "(of_nat V_RINV * of_nat (2 ^ 256) :: vesta) = 1"
proof -
  have "(of_nat (V_RINV * 2 ^ 256) :: vesta) = of_nat 1"
    unfolding of_nat_vesta by (simp add: V_RINV_def vesta_q_eq)
  then show ?thesis by (simp only: of_nat_mult of_nat_1)
qed

lemma V_R_ONE_val: "limbs_val V_R_ONE = 2 ^ 256 mod vesta_q" "fev_canon V_R_ONE"
  by (simp_all add: V_R_ONE_def vesta_q_eq fev_canon_def)

lemma V_RR_val: "limbs_val V_RR = 2 ^ 256 * 2 ^ 256 mod vesta_q" "fev_canon V_RR"
  by (simp_all add: V_RR_def vesta_q_eq fev_canon_def)

lemma fev_small: "fev_canon [x, 0, 0, 0]" "limbs_val [x, 0, 0, 0] = unat x"
  using unat_u64_lt [of x] by (simp_all add: fev_canon_def vesta_q_eq)

interpretation vk: mont_kernel fev_canon limbs_val vesta_q "2 ^ 256" "of_nat V_RINV :: vesta"
  fev_add fev_sub fev_mul fev_zero fev_one
proof unfold_locales
  show "of_nat V_RINV * of_nat (2 ^ 256) = (1 :: vesta)" by (rule V_RINV_R)
  show "limbs_val fev_zero = 0" "fev_canon fev_zero" by (simp_all add: fev_zero_def fev_canon_def vesta_q_eq)
  show "limbs_val fev_one = 2 ^ 256 mod vesta_q" "fev_canon fev_one" using V_R_ONE_val by (simp_all add: fev_one_def)
  fix a b :: fev
  assume a: "fev_canon a" and b: "fev_canon b"
  show "fev_canon (fev_add a b)" "limbs_val (fev_add a b) = (limbs_val a + limbs_val b) mod vesta_q"
    using fev_add_val [OF a b] by simp_all
  show "fev_canon (fev_sub a b)" "limbs_val (fev_sub a b) = (limbs_val a + (vesta_q - limbs_val b)) mod vesta_q"
    using fev_sub_val [OF a b] by simp_all
  show "fev_canon (fev_mul a b)" "(2 ^ 256 * limbs_val (fev_mul a b)) mod vesta_q = (limbs_val a * limbs_val b) mod vesta_q"
    using fev_mul_val [OF _ b] a by (simp_all add: fev_canon_def)
  assume "limbs_val a = limbs_val b"
  with a b show "a = b" by (simp add: fev_canon_def limbs_val_inj)
qed (simp_all add: of_nat_vesta fev_canon_def)

lemmas fev_dec_ops [dec_simps] = vk.dec_zero vk.dec_one vk.dec_add vk.dec_sub vk.dec_mul
lemmas fev_canon_ops [simp, intro] = vk.c_zero vk.c_one vk.c_add vk.c_sub vk.c_mul

lemma length_fev: "fev_canon x \<Longrightarrow> length x = 4"
  by (simp add: fev_canon_def)

lemma fev_is_zero_dec: "fev_canon x \<Longrightarrow> fev_is_zero x \<longleftrightarrow> vk.dec x = 0"
  using vk.dec_eq_iff [of x fev_zero] by (simp add: fev_is_zero_def fev_zero_def vk.dec_zero flip: fev_zero_def)

lemma fev_canon_from_u64 [simp]: "fev_canon (fev_from_u64 x)"
  by (simp add: fev_from_u64_def vk.c_mul fev_small V_RR_val)

lemma fev_dec_from_u64 [dec_simps]: "vk.dec (fev_from_u64 x) = of_nat (unat x)"
  unfolding fev_from_u64_def using vk.dec_enter [OF fev_small(1) V_RR_val(2,1)] fev_small(2) by simp

lemma fev_canon_to_canonical [simp]: "fev_canon x \<Longrightarrow> fev_canon (fev_to_canonical x)"
  by (simp add: fev_to_canonical_def vk.c_mul fev_small)

lemma fev_val_to_canonical: "fev_canon x \<Longrightarrow> of_nat (limbs_val (fev_to_canonical x)) = vk.dec x"
  unfolding fev_to_canonical_def by (rule vk.val_leave) (simp_all add: fev_small)

lemma fev_leave_enter: "fev_canon x \<Longrightarrow> fev_to_canonical (fev_mul x V_RR) = x"
  unfolding fev_to_canonical_def by (rule vk.leave_enter [OF _ V_RR_val(2,1)]) (simp_all add: fev_small)

lemma fev_enter_leave: "fev_canon x \<Longrightarrow> fev_mul (fev_to_canonical x) V_RR = x"
  using vk.dec_enter [OF fev_canon_to_canonical V_RR_val(2,1), of x]
  by (intro vk.dec_inj) (simp_all add: fev_val_to_canonical V_RR_val)

lemma fev_to_canonical_inj: "fev_canon x \<Longrightarrow> fev_canon y \<Longrightarrow> fev_to_canonical x = fev_to_canonical y \<longleftrightarrow> x = y"
  by (metis fev_enter_leave)

lemma minus_two: "limbs_val (minus_limb 2 V_MOD) = vesta_q - 2"
  by (simp add: V_MOD_def vesta_q_eq)

text \<open>Fermat's power of the inversion.\<close>

lemma fev_inv_dec:
  assumes "fev_canon a"
  shows "fev_canon (fev_inv a)" and "vk.dec (fev_inv a) = vk.dec a ^ (vesta_q - 2)"
  using vk.square_multiply_dec [OF vk.c_one assms, of "bits_down (minus_limb 2 V_MOD)"]
    square_multiply [of "vk.dec a" 0 "bits_down (minus_limb 2 V_MOD)"] bits_down_value [of "minus_limb 2 V_MOD"]
  unfolding fev_inv_def by (simp_all add: vk.dec_one minus_two)

subsection \<open>The byte codec\<close>

lemma length_bytes_to_limbs [simp]: "length (bytes_to_limbs bs) = 4"
  by (simp add: bytes_to_limbs_def)

lemma fev_from_bytes_Some:
  "fev_from_le_bytes bs = Some x \<longleftrightarrow> limbs_val (bytes_to_limbs bs) < vesta_q \<and> x = fev_mul (bytes_to_limbs bs) V_RR"
  by (auto simp: fev_from_le_bytes_def Let_def fev_is_canonical_iff fev_canon_def)

lemma fev_bytes_round_trip: "fev_canon x \<Longrightarrow> fev_from_le_bytes (fev_to_le_bytes x) = Some x"
  using vk.val_lt [OF fev_canon_to_canonical, of x]
  by (simp add: fev_from_bytes_Some fev_to_le_bytes_def bytes_to_limbs_to_bytes length_fev fev_enter_leave)

lemma fev_to_from_bytes:
  assumes "length bs = 32" and "fev_from_le_bytes bs = Some x"
  shows "fev_canon x" and "fev_to_le_bytes x = bs" and "vk.dec x = of_nat (limbs_val (bytes_to_limbs bs))"
proof -
  have c: "fev_canon (bytes_to_limbs bs)" and x: "x = fev_mul (bytes_to_limbs bs) V_RR"
    using assms(2) by (simp_all add: fev_from_bytes_Some fev_canon_def)
  show "fev_canon x" using c by (simp add: x V_RR_val)
  show "fev_to_le_bytes x = bs" using c assms(1) by (simp add: x fev_to_le_bytes_def fev_leave_enter limbs_to_bytes_to_limbs)
  show "vk.dec x = of_nat (limbs_val (bytes_to_limbs bs))" unfolding x by (rule vk.dec_enter [OF c V_RR_val(2,1)])
qed

end
