(* ===== verification/Pasta_Curve.thy ===== *)
theory Pasta_Curve
  imports Vesta_Field Tower_Ring
begin

text \<open>
  The two Pasta curves \<open>y^2 = x^3 + 5\<close>: Pallas over its own field (\<open>src/include/hsma/g1p.hpp\<close>) and
  Vesta over the field of \<open>Vesta_Field\<close> (\<open>src/include/hsma/g2v.hpp\<close>). Both headers hold the same Jacobian
  formulas; the lemmas show that every operation keeps the curve equation, that scalar
  multiplication is double-and-add over the bits of the scalar, and what the affine conversions do.
\<close>

subsection \<open>The loop of square-and-multiply with a flag\<close>

text \<open>
  \<open>if (started) r = d(r); if (bit) { r = started ? m(r, a) : a; started = true; }\<close>, the body of the two
  scalar multiplications and of the inversion.
\<close>

definition started_step :: "('a \<Rightarrow> 'a) \<Rightarrow> ('a \<Rightarrow> 'a \<Rightarrow> 'a) \<Rightarrow> 'a \<Rightarrow> 'a \<times> bool \<Rightarrow> bool \<Rightarrow> 'a \<times> bool" where
  "started_step d m a s b =
     (let r = if snd s then d (fst s) else fst s
      in if b then (if snd s then m r a else a, True) else (r, snd s))"

lemma started_zeros: "list_all Not bs \<Longrightarrow> foldl (started_step d m a) (r, False) bs = (r, False)"
  by (induction bs) (simp_all add: started_step_def)

lemma started_step_inv:
  assumes "P a" and "\<And>r. P r \<Longrightarrow> P (d r)" and "\<And>r. P r \<Longrightarrow> P (m r a)" and "P (fst s)"
  shows "P (fst (started_step d m a s b))"
  using assms by (simp add: started_step_def Let_def)

lemma started_inv:
  assumes "P a" and "\<And>r. P r \<Longrightarrow> P (d r)" and "\<And>r. P r \<Longrightarrow> P (m r a)"
  shows "P (fst s) \<Longrightarrow> P (fst (foldl (started_step d m a) s bs))"
proof (induction bs arbitrary: s)
  case (Cons b bs)
  have "P (fst (started_step d m a s b))" using assms Cons.prems by (rule started_step_inv)
  then show ?case using Cons.IH by simp
qed simp

text \<open>When the neutral element absorbs the first turns, the flag changes nothing.\<close>

lemma started_neutral:
  assumes "d e = e" and "m e a = a"
  shows "snd s \<or> fst s = e \<Longrightarrow>
    fst (foldl (started_step d m a) s bs) = foldl (\<lambda>r b. let r = d r in if b then m r a else r) (fst s) bs"
proof (induction bs arbitrary: s)
  case (Cons b bs)
  have "snd (started_step d m a s b) \<or> fst (started_step d m a s b) = e"
    and "fst (started_step d m a s b) = (let r = d (fst s) in if b then m r a else r)"
    using Cons.prems assms by (auto simp: started_step_def Let_def)
  then show ?case using Cons.IH by simp
qed simp

lemma bits_of_one: "\<exists>bs. bits_down [1, 0, 0, 0] = bs @ [True] \<and> list_all Not bs"
proof -
  have up: "[0..<256] = 0 # [1..<256]" using upt_conv_Cons [of 0 256] by simp
  have "64 * length [1, 0, 0, 0 :: u64] = 256" by simp
  then have "bits_down [1, 0, 0, 0] = map (\<lambda>i. bit (([1, 0, 0, 0] :: u64 list) ! (i div 64)) (i mod 64)) (rev (0 # [1..<256]))"
    by (simp only: bits_down_def up)
  moreover have "list_all Not (map (\<lambda>i. bit (([1, 0, 0, 0] :: u64 list) ! (i div 64)) (i mod 64)) (rev [1..<256]))"
  proof -
    have "\<not> bit (([1, 0, 0, 0] :: u64 list) ! (i div 64)) (i mod 64)" if "1 \<le> i" "i < 256" for i
    proof (cases "i < 64")
      case True
      then show ?thesis using that(1) by (simp add: bit_1_iff)
    next
      case False
      then have "i div 64 = 1 \<or> i div 64 = 2 \<or> i div 64 = 3" using that(2) by auto
      then show ?thesis by auto
    qed
    then show ?thesis by (simp add: list_all_iff)
  qed
  ultimately show ?thesis by (simp del: upt.simps)
qed

lemma bits_of_zero: "list_all Not (bits_down [0, 0, 0, 0])"
proof -
  have "([0, 0, 0, 0] :: u64 list) ! (i div 64) = 0" if "i < 256" for i
  proof -
    have "i div 64 = 0 \<or> i div 64 = 1 \<or> i div 64 = 2 \<or> i div 64 = 3" using that by auto
    then show ?thesis by auto
  qed
  then show ?thesis by (auto simp: bits_down_def list_all_iff)
qed

lemma started_one: "foldl (started_step d m a) (r, False) (bits_down [1, 0, 0, 0]) = (a, True)"
proof -
  obtain bs where bs: "bits_down [1, 0, 0, 0] = bs @ [True]" "list_all Not bs" using bits_of_one by blast
  have "foldl (started_step d m a) (r, False) bs = (r, False)" by (rule started_zeros [OF bs(2)])
  then show ?thesis unfolding bs(1) by (simp add: started_step_def)
qed

subsection \<open>The chord formula\<close>

text \<open>The addition of these headers scales the chord by one, where the one of BLS12-377 doubles it.\<close>

lemma chord_ring:
  fixes u :: "'r::comm_ring_1"
  assumes c1: "s ^ 2 = u ^ 3 + w" and c2: "s' ^ 2 = u' ^ 3 + w"
    and h: "h = u' - u" and r: "r = s' - s" and hh: "hh = h * h" "hhh = h * hh" and v: "v = u * hh"
    and X3: "X3 = r * r - (hhh + (v + v))" and Y3: "Y3 = r * (v - X3) - s * hhh"
    and z: "b * z ^ 6 = w" and Z3: "Z3 = z * h"
  shows "Y3 ^ 2 = X3 ^ 3 + b * Z3 ^ 6"
proof -
  have X: "X3 = r ^ 2 - h ^ 2 * (2 * u + h)" unfolding X3 v hh by (simp add: ring_norm)
  have Y: "Y3 = r * (u * h ^ 2 - X3) - s * h ^ 3" unfolding Y3 v hh by (simp add: ring_norm)
  have w: "w = s ^ 2 - u ^ 3" using c1 by simp
  have "s + r = s'" "u + h = u'" by (simp_all add: h r)
  then have "(s + r) ^ 2 - s ^ 2 - (u + h) ^ 3 + u ^ 3 = 0" using c1 c2 by simp
  with chord [OF X Y] have "Y3 ^ 2 - X3 ^ 3 - w * h ^ 6 = 0" by (simp only: w mult_zero_left mult_zero_right)
  then have "Y3 ^ 2 = X3 ^ 3 + w * h ^ 6" by (simp only: right_minus_eq diff_diff_eq)
  then show ?thesis unfolding Z3 z [symmetric] by (simp add: power_mult_distrib ac_simps)
qed

lemma tangent_ring:
  fixes X :: "'r::comm_ring_1"
  assumes c: "Y ^ 2 = X ^ 3 + b * Z ^ 6" and B: "B = Y * Y"
    and D: "D = (X + B) * (X + B) - (X * X + B * B)" "D' = D + D" and E: "E = X * X + (X * X + X * X)"
    and X3: "X3 = E * E - (D' + D')" and Y3: "Y3 = E * (D' - X3) - B * B * 8" and Z3: "Z3 = (Y + Y) * Z"
  shows "Y3 ^ 2 = X3 ^ 3 + b * Z3 ^ 6"
  by (rule dbl_ring [OF c B _ D(2) _ refl refl refl X3 _ Z3])
    (simp_all add: D(1) E Y3 ring_norm)

text \<open>The two points of an addition, brought to the common denominator.\<close>

lemma common_denominator:
  fixes x :: "'r::comm_ring_1"
  assumes "y ^ 2 = x ^ 3 + b * z ^ 6"
  shows "(y * z' * (z' * z')) ^ 2 = (x * (z' * z')) ^ 3 + b * (z * z') ^ 6"
proof -
  have "(y * z' * (z' * z')) ^ 2 = y ^ 2 * z' ^ 6" by (simp add: ring_norm)
  then show ?thesis unfolding assms by (simp add: ring_norm)
qed

subsection \<open>Vesta: the operations\<close>

record PtV =
  vx :: fev
  vy :: fev
  vz :: fev

definition PtV0 :: PtV where
  "PtV0 = \<lparr>vx = fev_zero, vy = fev_zero, vz = fev_zero\<rparr>"

definition v_curve_b :: fev where
  "v_curve_b = fev_from_u64 5"

definition v_gen_x :: fev where
  "v_gen_x = fev_sub fev_zero fev_one"

definition v_is_inf :: "PtV \<Rightarrow> bool" where
  "v_is_inf P = fev_is_zero (vz P)"

definition v_jac_dbl :: "PtV \<Rightarrow> PtV" where
  "v_jac_dbl P =
     (if fev_is_zero (vz P) then P
      else let A = fev_mul (vx P) (vx P);
               B = fev_mul (vy P) (vy P);
               C = fev_mul B B;
               XB = fev_add (vx P) B;
               D = fev_sub (fev_mul XB XB) (fev_add A C);
               D = fev_add D D;
               E = fev_add A (fev_add A A);
               F = fev_mul E E;
               X3 = fev_sub F (fev_add D D)
           in \<lparr>vx = X3,
               vy = fev_sub (fev_mul E (fev_sub D X3)) (fev_mul C (fev_from_u64 8)),
               vz = fev_mul (fev_add (vy P) (vy P)) (vz P)\<rparr>)"

definition v_jac_add :: "PtV \<Rightarrow> PtV \<Rightarrow> PtV" where
  "v_jac_add P Q =
     (if fev_is_zero (vz P) then Q
      else if fev_is_zero (vz Q) then P
      else let Z1Z1 = fev_mul (vz P) (vz P);
               Z2Z2 = fev_mul (vz Q) (vz Q);
               U1 = fev_mul (vx P) Z2Z2;
               U2 = fev_mul (vx Q) Z1Z1;
               S1 = fev_mul (fev_mul (vy P) (vz Q)) Z2Z2;
               S2 = fev_mul (fev_mul (vy Q) (vz P)) Z1Z1;
               H = fev_sub U2 U1;
               r = fev_sub S2 S1
           in if fev_is_zero H then (if fev_is_zero r then v_jac_dbl P else PtV0)
              else let HH = fev_mul H H;
                       HHH = fev_mul H HH;
                       V = fev_mul U1 HH;
                       X3 = fev_sub (fev_mul r r) (fev_add HHH (fev_add V V))
                   in \<lparr>vx = X3,
                       vy = fev_sub (fev_mul r (fev_sub V X3)) (fev_mul S1 HHH),
                       vz = fev_mul (fev_mul (vz P) (vz Q)) H\<rparr>)"

definition v_from_affine :: "fev \<Rightarrow> fev \<Rightarrow> PtV" where
  "v_from_affine x y = \<lparr>vx = x, vy = y, vz = fev_one\<rparr>"

definition v_to_affine :: "PtV \<Rightarrow> (fev \<times> fev) option" where
  "v_to_affine P =
     (if fev_is_zero (vz P) then None
      else let zinv = fev_inv (vz P);
               zinv2 = fev_mul zinv zinv;
               zinv3 = fev_mul zinv2 zinv
           in Some (fev_mul (vx P) zinv2, fev_mul (vy P) zinv3))"

definition v_on_curve :: "PtV \<Rightarrow> bool" where
  "v_on_curve P =
     (if fev_is_zero (vz P) then True
      else let z2 = fev_mul (vz P) (vz P);
               z6 = fev_mul (fev_mul z2 z2) z2;
               lhs = fev_mul (vy P) (vy P);
               x3 = fev_mul (fev_mul (vx P) (vx P)) (vx P);
               rhs = fev_add x3 (fev_mul v_curve_b z6)
           in fev_is_zero (fev_sub lhs rhs))"

definition v_Vmul :: "PtV \<Rightarrow> u64 list \<Rightarrow> PtV" where
  "v_Vmul P k = fst (foldl (started_step v_jac_dbl v_jac_add P) (PtV0, False) (bits_down k))"

definition v_generator :: PtV where
  "v_generator = v_from_affine (fev_sub fev_zero fev_one) (fev_from_u64 2)"

subsection \<open>Vesta: the curve equation\<close>

definition v_on :: "PtV \<Rightarrow> bool" where
  "v_on P \<longleftrightarrow> fev_canon (vx P) \<and> fev_canon (vy P) \<and> fev_canon (vz P)
     \<and> vk.dec (vy P) ^ 2 = vk.dec (vx P) ^ 3 + 5 * vk.dec (vz P) ^ 6"

lemma v_onD:
  assumes "v_on P"
  shows "fev_canon (vx P)" "fev_canon (vy P)" "fev_canon (vz P)"
    "vk.dec (vy P) ^ 2 = vk.dec (vx P) ^ 3 + 5 * vk.dec (vz P) ^ 6"
  using assms by (simp_all add: v_on_def)

lemma v_small [dec_simps]: "vk.dec (fev_from_u64 8) = 8" "vk.dec (fev_from_u64 5) = 5" "vk.dec (fev_from_u64 2) = 2"
  by (simp_all add: fev_dec_from_u64)

lemma v_on_PtV0 [simp]: "v_on PtV0"
  by (simp add: v_on_def PtV0_def fev_dec_ops)

lemma v_jac_dbl_on: "v_on P \<Longrightarrow> v_on (v_jac_dbl P)"
proof (cases "fev_is_zero (vz P)")
  case False
  assume P: "v_on P"
  note c = v_onD(1-3) [OF P]
  show ?thesis
    unfolding v_on_def v_jac_dbl_def Let_def
    by (simp only: False if_False PtV.select_convs fev_dec_ops fev_canon_ops fev_canon_from_u64 v_small c simp_thms)
      (rule tangent_ring [OF v_onD(4) [OF P] refl refl refl refl refl refl refl])
qed (simp add: v_jac_dbl_def)

lemma v_jac_add_on: "v_on P \<Longrightarrow> v_on Q \<Longrightarrow> v_on (v_jac_add P Q)"
proof -
  assume P: "v_on P" and Q: "v_on Q"
  note c = v_onD(1-3) [OF P] v_onD(1-3) [OF Q]
  let ?x = "vk.dec (vx P)" and ?y = "vk.dec (vy P)" and ?z = "vk.dec (vz P)"
  let ?x' = "vk.dec (vx Q)" and ?y' = "vk.dec (vy Q)" and ?z' = "vk.dec (vz Q)"
  note e1 = common_denominator [OF v_onD(4) [OF P], of ?z']
  have e2: "(?y' * ?z * (?z * ?z)) ^ 2 = (?x' * (?z * ?z)) ^ 3 + 5 * (?z * ?z') ^ 6"
    using common_denominator [OF v_onD(4) [OF Q], of ?z] by (simp only: mult.commute [of ?z'])
  let ?H = "fev_sub (fev_mul (vx Q) (fev_mul (vz P) (vz P))) (fev_mul (vx P) (fev_mul (vz Q) (vz Q)))"
  consider "fev_is_zero (vz P)" | "fev_is_zero (vz Q)" "\<not> fev_is_zero (vz P)"
    | "\<not> fev_is_zero (vz P)" "\<not> fev_is_zero (vz Q)" "fev_is_zero ?H"
    | "\<not> fev_is_zero (vz P)" "\<not> fev_is_zero (vz Q)" "\<not> fev_is_zero ?H" by blast
  then show ?thesis
  proof cases
    case 4
    show ?thesis
      unfolding v_on_def v_jac_add_def Let_def
      by (simp only: 4 if_False PtV.select_convs fev_dec_ops fev_canon_ops c simp_thms)
        (rule chord_ring [OF e1 e2 refl refl refl refl refl refl refl refl refl])
  qed (use P Q in \<open>simp_all add: v_jac_add_def Let_def v_jac_dbl_on\<close>)
qed

lemma v_Vmul_on: "v_on P \<Longrightarrow> v_on (v_Vmul P k)"
  unfolding v_Vmul_def by (rule started_inv [where P = v_on]) (simp_all add: v_jac_dbl_on v_jac_add_on)

text \<open>The flag is redundant: infinity is doubled to itself and added as a neutral element.\<close>

lemma v_Vmul_double_and_add:
  "v_Vmul P k = foldl (\<lambda>r b. let r = v_jac_dbl r in if b then v_jac_add r P else r) PtV0 (bits_down k)"
  unfolding v_Vmul_def
  by (subst started_neutral [where e = PtV0]) (simp_all add: v_jac_dbl_def v_jac_add_def PtV0_def fev_is_zero_def fev_zero_def)

lemma v_Vmul_one: "v_Vmul P [1, 0, 0, 0] = P"
  by (simp add: v_Vmul_def started_one)

lemma v_Vmul_zero: "v_Vmul P [0, 0, 0, 0] = PtV0"
  by (simp add: v_Vmul_def started_zeros [OF bits_of_zero])

lemma v_on_from_affine:
  "fev_canon x \<Longrightarrow> fev_canon y \<Longrightarrow> v_on (v_from_affine x y) \<longleftrightarrow> vk.dec y ^ 2 = vk.dec x ^ 3 + 5"
  by (simp add: v_on_def v_from_affine_def vk.dec_one vk.c_one)

lemma v_generator_on: "v_on v_generator"
  unfolding v_generator_def
  by (subst v_on_from_affine) (simp_all add: fev_dec_ops v_small power3_eq_cube)

text \<open>On reduced coordinates the test is the curve equation; a point at infinity always passes.\<close>

lemma v_on_curve_iff:
  assumes "fev_canon (vx P)" "fev_canon (vy P)" "fev_canon (vz P)" and "\<not> v_is_inf P"
  shows "v_on_curve P \<longleftrightarrow> v_on P"
  using assms unfolding v_on_curve_def v_is_inf_def v_on_def v_curve_b_def Let_def
  by (simp add: fev_is_zero_dec fev_dec_ops v_small power2_eq_square power3_eq_cube eval_nat_numeral mult.assoc)

lemma v_to_affine_from: 
  assumes "fev_canon x" and "fev_canon y"
  shows "v_to_affine (v_from_affine x y) = Some (x, y)"
proof -
  have "fev_inv fev_one = fev_one"
    using fev_inv_dec [OF vk.c_one] by (intro vk.dec_inj) (simp_all add: vk.dec_one)
  moreover have "\<not> fev_is_zero fev_one" by (simp add: fev_is_zero_def fev_one_def V_R_ONE_def)
  ultimately show ?thesis using assms by (simp add: v_to_affine_def v_from_affine_def Let_def vk.mul_one vk.c_one)
qed

lemma v_to_affine_on:
  assumes P: "v_on P" and inf: "\<not> v_is_inf P" and fermat: "vk.dec (vz P) ^ (vesta_q - 1) = 1"
  shows "\<exists>x y. v_to_affine P = Some (x, y) \<and> v_on (v_from_affine x y)
    \<and> vk.dec x * vk.dec (vz P) ^ 2 = vk.dec (vx P) \<and> vk.dec y * vk.dec (vz P) ^ 3 = vk.dec (vy P)"
proof -
  note c = v_onD(1-3) [OF P]
  let ?X = "vk.dec (vx P)" and ?Y = "vk.dec (vy P)" and ?Z = "vk.dec (vz P)"
  define w where "w = ?Z ^ (vesta_q - 2)"
  have zi: "fev_canon (fev_inv (vz P))" "vk.dec (fev_inv (vz P)) = w" using fev_inv_dec [OF c(3)] by (simp_all add: w_def)
  have "vesta_q - 1 = Suc (vesta_q - 2)" by (simp add: vesta_q_eq)
  then have w: "w * ?Z = 1" using fermat by (simp add: w_def mult.commute)
  let ?x = "fev_mul (vx P) (fev_mul (fev_inv (vz P)) (fev_inv (vz P)))"
  let ?y = "fev_mul (vy P) (fev_mul (fev_mul (fev_inv (vz P)) (fev_inv (vz P))) (fev_inv (vz P)))"
  have x: "fev_canon ?x" "vk.dec ?x = ?X * (w * w)" and y: "fev_canon ?y" "vk.dec ?y = ?Y * (w * w * w)"
    using c zi by (simp_all add: fev_dec_ops)
  have "?X * (w * w) * ?Z ^ 2 = ?X * (w * ?Z) ^ 2" "?Y * (w * w * w) * ?Z ^ 3 = ?Y * (w * ?Z) ^ 3"
    by (simp_all add: ring_norm)
  then have q: "vk.dec ?x * ?Z ^ 2 = ?X" "vk.dec ?y * ?Z ^ 3 = ?Y" by (simp_all add: w x y)
  have "(?Y * (w * w * w)) ^ 2 = ?Y ^ 2 * w ^ 6" by (simp add: ring_norm)
  also have "\<dots> = (?X * (w * w)) ^ 3 + 5 * (w * ?Z) ^ 6" unfolding v_onD(4) [OF P] by (simp add: ring_norm)
  finally have "v_on (v_from_affine ?x ?y)" using x y by (simp add: v_on_from_affine w)
  moreover have "v_to_affine P = Some (?x, ?y)" using inf by (simp add: v_to_affine_def v_is_inf_def Let_def)
  ultimately show ?thesis using q by auto
qed

subsection \<open>Pallas: inversion\<close>

text \<open>Fermat's power with its own exponent, \<open>MOD\<close> with two taken from the lowest limb.\<close>

definition fe_inv :: "fe \<Rightarrow> fe" where
  "fe_inv a =
     fst (foldl (started_step fe_sqr fe_mul a) (fe_zero, False)
       (bits_down [MOD ! 0 - 2, MOD ! 1, MOD ! 2, MOD ! 3]))"

context field_kernel begin

lemma power_fold_dec:
  "canon r \<Longrightarrow> canon a \<Longrightarrow>
    canon (foldl (\<lambda>r b. let r = mul r r in if b then mul r a else r) r bs)
    \<and> dec (foldl (\<lambda>r b. let r = mul r r in if b then mul r a else r) r bs)
      = foldl (\<lambda>r b. let r = r * r in if b then r * dec a else r) (dec r) bs"
proof (induction bs arbitrary: r)
  case (Cons b bs)
  have "canon (let r = mul r r in if b then mul r a else r)"
    "dec (let r = mul r r in if b then mul r a else r) = (let r = dec r * dec r in if b then r * dec a else r)"
    using Cons.prems by (simp_all add: Let_def canon_mul dec_mul)
  then show ?case using Cons.IH Cons.prems(2) by (simp only: foldl.simps)
qed simp

end

lemma started_from:
  "\<not> list_all Not bs \<Longrightarrow> foldl (started_step d m a) (r, False) bs = foldl (started_step d m a) (e, False) bs"
proof (induction bs)
  case (Cons b bs)
  then show ?case by (cases b) (simp_all add: started_step_def)
qed simp

lemma fe_inv_dec:
  assumes "is_canonical a"
  shows "is_canonical (fe_inv a)" and "fe_dec (fe_inv a) = fe_dec a ^ (pallas_p - 2)"
proof -
  define bs where "bs = bits_down [MOD ! 0 - 2, MOD ! 1, MOD ! 2, MOD ! 3]"
  have v: "foldl (\<lambda>n b. 2 * n + of_bool b) 0 bs = pallas_p - 2"
    unfolding bs_def bits_down_value by (simp add: MOD_def pallas_p_eq)
  have "\<not> list_all Not bs"
  proof
    assume z: "list_all Not bs"
    have "list_all Not xs \<Longrightarrow> foldl (\<lambda>n b. 2 * n + of_bool b) 0 xs = (0 :: nat)" for xs
      by (induction xs) simp_all
    then show False using z v by (simp add: pallas_p_eq)
  qed
  then have "fe_inv a = fst (foldl (started_step fe_sqr fe_mul a) (fe_one, False) bs)"
    unfolding fe_inv_def bs_def [symmetric] by (subst started_from [where e = fe_one]) simp_all
  also have "\<dots> = foldl (\<lambda>r b. let r = fe_sqr r in if b then fe_mul r a else r) fe_one bs"
    using assms pallas.mul_comm [of fe_one a]
    by (subst started_neutral [where e = fe_one]) (simp_all add: fe_sqr_def pallas.mul_one)
  finally have e: "fe_inv a = foldl (\<lambda>r b. let r = fe_mul r r in if b then fe_mul r a else r) fe_one bs"
    by (simp only: fe_sqr_def)
  show "is_canonical (fe_inv a)" and "fe_dec (fe_inv a) = fe_dec a ^ (pallas_p - 2)"
    using pallas.power_fold_dec [OF canonical_one assms, of bs] square_multiply [of "fe_dec a" 0 bs]
    unfolding e v by (simp_all add: fe_dec_one)
qed

lemma fe_is_zero_dec: "is_canonical x \<Longrightarrow> fe_is_zero x \<longleftrightarrow> fe_dec x = 0"
proof -
  have "fe_is_zero x \<longleftrightarrow> x = fe_zero" by (cases x) (simp add: fe_is_zero_def fe_zero_def)
  then show "is_canonical x \<Longrightarrow> fe_is_zero x \<longleftrightarrow> fe_dec x = 0"
    using pallas.dec_eq_iff [of x fe_zero] by (simp add: fe_dec_zero canonical_zero)
qed

subsection \<open>Pallas: the operations\<close>

record PtP =
  pax :: fe
  pay :: fe
  paz :: fe

definition PtP0 :: PtP where
  "PtP0 = \<lparr>pax = fe_zero, pay = fe_zero, paz = fe_zero\<rparr>"

definition pp_curve_b :: fe where
  "pp_curve_b = fe_from_u64 5"

definition pp_gen_x :: fe where
  "pp_gen_x = fe_sub fe_zero fe_one"

definition pp_is_inf :: "PtP \<Rightarrow> bool" where
  "pp_is_inf P = fe_is_zero (paz P)"

definition pp_jac_dbl :: "PtP \<Rightarrow> PtP" where
  "pp_jac_dbl P =
     (if fe_is_zero (paz P) then P
      else let A = fe_mul (pax P) (pax P);
               B = fe_mul (pay P) (pay P);
               C = fe_mul B B;
               XB = fe_add (pax P) B;
               D = fe_sub (fe_mul XB XB) (fe_add A C);
               D = fe_add D D;
               E = fe_add A (fe_add A A);
               F = fe_mul E E;
               X3 = fe_sub F (fe_add D D)
           in \<lparr>pax = X3,
               pay = fe_sub (fe_mul E (fe_sub D X3)) (fe_mul C (fe_from_u64 8)),
               paz = fe_mul (fe_add (pay P) (pay P)) (paz P)\<rparr>)"

definition pp_jac_add :: "PtP \<Rightarrow> PtP \<Rightarrow> PtP" where
  "pp_jac_add P Q =
     (if fe_is_zero (paz P) then Q
      else if fe_is_zero (paz Q) then P
      else let Z1Z1 = fe_mul (paz P) (paz P);
               Z2Z2 = fe_mul (paz Q) (paz Q);
               U1 = fe_mul (pax P) Z2Z2;
               U2 = fe_mul (pax Q) Z1Z1;
               S1 = fe_mul (fe_mul (pay P) (paz Q)) Z2Z2;
               S2 = fe_mul (fe_mul (pay Q) (paz P)) Z1Z1;
               H = fe_sub U2 U1;
               r = fe_sub S2 S1
           in if fe_is_zero H then (if fe_is_zero r then pp_jac_dbl P else PtP0)
              else let HH = fe_mul H H;
                       HHH = fe_mul H HH;
                       V = fe_mul U1 HH;
                       X3 = fe_sub (fe_mul r r) (fe_add HHH (fe_add V V))
                   in \<lparr>pax = X3,
                       pay = fe_sub (fe_mul r (fe_sub V X3)) (fe_mul S1 HHH),
                       paz = fe_mul (fe_mul (paz P) (paz Q)) H\<rparr>)"

definition pp_from_affine :: "fe \<Rightarrow> fe \<Rightarrow> PtP" where
  "pp_from_affine x y = \<lparr>pax = x, pay = y, paz = fe_one\<rparr>"

definition pp_to_affine :: "PtP \<Rightarrow> (fe \<times> fe) option" where
  "pp_to_affine P =
     (if fe_is_zero (paz P) then None
      else let zinv = fe_inv (paz P);
               zinv2 = fe_mul zinv zinv;
               zinv3 = fe_mul zinv2 zinv
           in Some (fe_mul (pax P) zinv2, fe_mul (pay P) zinv3))"

definition pp_on_curve :: "PtP \<Rightarrow> bool" where
  "pp_on_curve P =
     (if fe_is_zero (paz P) then True
      else let z2 = fe_mul (paz P) (paz P);
               z6 = fe_mul (fe_mul z2 z2) z2;
               lhs = fe_mul (pay P) (pay P);
               x3 = fe_mul (fe_mul (pax P) (pax P)) (pax P);
               rhs = fe_add x3 (fe_mul pp_curve_b z6)
           in fe_is_zero (fe_sub lhs rhs))"

definition pp_Vmul :: "PtP \<Rightarrow> u64 list \<Rightarrow> PtP" where
  "pp_Vmul P k = fst (foldl (started_step pp_jac_dbl pp_jac_add P) (PtP0, False) (bits_down k))"

definition pp_generator :: PtP where
  "pp_generator = pp_from_affine (fe_sub fe_zero fe_one) (fe_from_u64 2)"

subsection \<open>Pallas: the curve equation\<close>

definition pp_on :: "PtP \<Rightarrow> bool" where
  "pp_on P \<longleftrightarrow> is_canonical (pax P) \<and> is_canonical (pay P) \<and> is_canonical (paz P)
     \<and> fe_dec (pay P) ^ 2 = fe_dec (pax P) ^ 3 + 5 * fe_dec (paz P) ^ 6"

lemma pp_onD:
  assumes "pp_on P"
  shows "is_canonical (pax P)" "is_canonical (pay P)" "is_canonical (paz P)"
    "fe_dec (pay P) ^ 2 = fe_dec (pax P) ^ 3 + 5 * fe_dec (paz P) ^ 6"
  using assms by (simp_all add: pp_on_def)

lemma pp_small [dec_simps]: "fe_dec (fe_from_u64 8) = 8" "fe_dec (fe_from_u64 5) = 5" "fe_dec (fe_from_u64 2) = 2"
  by (simp_all add: fe_dec_from_u64)

lemma pp_on_PtP0 [simp]: "pp_on PtP0"
  by (simp add: pp_on_def PtP0_def fe_dec_ops)

lemma pp_jac_dbl_on: "pp_on P \<Longrightarrow> pp_on (pp_jac_dbl P)"
proof (cases "fe_is_zero (paz P)")
  case False
  assume P: "pp_on P"
  note c = pp_onD(1-3) [OF P]
  show ?thesis
    unfolding pp_on_def pp_jac_dbl_def Let_def
    by (simp only: False if_False PtP.select_convs fe_dec_ops canonical_ops canonical_from_u64 pp_small c simp_thms)
      (rule tangent_ring [OF pp_onD(4) [OF P] refl refl refl refl refl refl refl])
qed (simp add: pp_jac_dbl_def)

lemma pp_jac_add_on: "pp_on P \<Longrightarrow> pp_on Q \<Longrightarrow> pp_on (pp_jac_add P Q)"
proof -
  assume P: "pp_on P" and Q: "pp_on Q"
  note c = pp_onD(1-3) [OF P] pp_onD(1-3) [OF Q]
  let ?x = "fe_dec (pax P)" and ?y = "fe_dec (pay P)" and ?z = "fe_dec (paz P)"
  let ?x' = "fe_dec (pax Q)" and ?y' = "fe_dec (pay Q)" and ?z' = "fe_dec (paz Q)"
  note e1 = common_denominator [OF pp_onD(4) [OF P], of ?z']
  have e2: "(?y' * ?z * (?z * ?z)) ^ 2 = (?x' * (?z * ?z)) ^ 3 + 5 * (?z * ?z') ^ 6"
    using common_denominator [OF pp_onD(4) [OF Q], of ?z] by (simp only: mult.commute [of ?z'])
  let ?H = "fe_sub (fe_mul (pax Q) (fe_mul (paz P) (paz P))) (fe_mul (pax P) (fe_mul (paz Q) (paz Q)))"
  consider "fe_is_zero (paz P)" | "fe_is_zero (paz Q)" "\<not> fe_is_zero (paz P)"
    | "\<not> fe_is_zero (paz P)" "\<not> fe_is_zero (paz Q)" "fe_is_zero ?H"
    | "\<not> fe_is_zero (paz P)" "\<not> fe_is_zero (paz Q)" "\<not> fe_is_zero ?H" by blast
  then show ?thesis
  proof cases
    case 4
    show ?thesis
      unfolding pp_on_def pp_jac_add_def Let_def
      by (simp only: 4 if_False PtP.select_convs fe_dec_ops canonical_ops c simp_thms)
        (rule chord_ring [OF e1 e2 refl refl refl refl refl refl refl refl refl])
  qed (use P Q in \<open>simp_all add: pp_jac_add_def Let_def pp_jac_dbl_on\<close>)
qed

lemma pp_Vmul_on: "pp_on P \<Longrightarrow> pp_on (pp_Vmul P k)"
  unfolding pp_Vmul_def by (rule started_inv [where P = pp_on]) (simp_all add: pp_jac_dbl_on pp_jac_add_on)

text \<open>The flag is redundant: infinity is doubled to itself and added as a neutral element.\<close>

lemma pp_Vmul_double_and_add:
  "pp_Vmul P k = foldl (\<lambda>r b. let r = pp_jac_dbl r in if b then pp_jac_add r P else r) PtP0 (bits_down k)"
  unfolding pp_Vmul_def
  by (subst started_neutral [where e = PtP0]) (simp_all add: pp_jac_dbl_def pp_jac_add_def PtP0_def fe_is_zero_def fe_zero_def)

lemma pp_Vmul_one: "pp_Vmul P [1, 0, 0, 0] = P"
  by (simp add: pp_Vmul_def started_one)

lemma pp_Vmul_zero: "pp_Vmul P [0, 0, 0, 0] = PtP0"
  by (simp add: pp_Vmul_def started_zeros [OF bits_of_zero])

lemma pp_on_from_affine:
  "is_canonical x \<Longrightarrow> is_canonical y \<Longrightarrow> pp_on (pp_from_affine x y) \<longleftrightarrow> fe_dec y ^ 2 = fe_dec x ^ 3 + 5"
  by (simp add: pp_on_def pp_from_affine_def fe_dec_one canonical_one)

lemma pp_generator_on: "pp_on pp_generator"
  unfolding pp_generator_def
  by (subst pp_on_from_affine) (simp_all add: fe_dec_ops pp_small power3_eq_cube)

text \<open>On reduced coordinates the test is the curve equation; a point at infinity always passes.\<close>

lemma pp_on_curve_iff:
  assumes "is_canonical (pax P)" "is_canonical (pay P)" "is_canonical (paz P)" and "\<not> pp_is_inf P"
  shows "pp_on_curve P \<longleftrightarrow> pp_on P"
  using assms unfolding pp_on_curve_def pp_is_inf_def pp_on_def pp_curve_b_def Let_def
  by (simp add: fe_is_zero_dec fe_dec_ops pp_small power2_eq_square power3_eq_cube eval_nat_numeral mult.assoc)

lemma pp_to_affine_from: 
  assumes "is_canonical x" and "is_canonical y"
  shows "pp_to_affine (pp_from_affine x y) = Some (x, y)"
proof -
  have "fe_inv fe_one = fe_one"
    using fe_inv_dec [OF canonical_one] by (intro fe_dec_inj) (simp_all add: fe_dec_one)
  moreover have "\<not> fe_is_zero fe_one" by (simp add: fe_is_zero_def fe_one_def R_ONE_def fe_of_limbs_def)
  ultimately show ?thesis using assms by (simp add: pp_to_affine_def pp_from_affine_def Let_def pallas.mul_one canonical_one)
qed

lemma pp_to_affine_on:
  assumes P: "pp_on P" and inf: "\<not> pp_is_inf P" and fermat: "fe_dec (paz P) ^ (pallas_p - 1) = 1"
  shows "\<exists>x y. pp_to_affine P = Some (x, y) \<and> pp_on (pp_from_affine x y)
    \<and> fe_dec x * fe_dec (paz P) ^ 2 = fe_dec (pax P) \<and> fe_dec y * fe_dec (paz P) ^ 3 = fe_dec (pay P)"
proof -
  note c = pp_onD(1-3) [OF P]
  let ?X = "fe_dec (pax P)" and ?Y = "fe_dec (pay P)" and ?Z = "fe_dec (paz P)"
  define w where "w = ?Z ^ (pallas_p - 2)"
  have zi: "is_canonical (fe_inv (paz P))" "fe_dec (fe_inv (paz P)) = w" using fe_inv_dec [OF c(3)] by (simp_all add: w_def)
  have "pallas_p - 1 = Suc (pallas_p - 2)" by (simp add: pallas_p_eq)
  then have w: "w * ?Z = 1" using fermat by (simp add: w_def mult.commute)
  let ?x = "fe_mul (pax P) (fe_mul (fe_inv (paz P)) (fe_inv (paz P)))"
  let ?y = "fe_mul (pay P) (fe_mul (fe_mul (fe_inv (paz P)) (fe_inv (paz P))) (fe_inv (paz P)))"
  have x: "is_canonical ?x" "fe_dec ?x = ?X * (w * w)" and y: "is_canonical ?y" "fe_dec ?y = ?Y * (w * w * w)"
    using c zi by (simp_all add: fe_dec_ops)
  have "?X * (w * w) * ?Z ^ 2 = ?X * (w * ?Z) ^ 2" "?Y * (w * w * w) * ?Z ^ 3 = ?Y * (w * ?Z) ^ 3"
    by (simp_all add: ring_norm)
  then have q: "fe_dec ?x * ?Z ^ 2 = ?X" "fe_dec ?y * ?Z ^ 3 = ?Y" by (simp_all add: w x y)
  have "(?Y * (w * w * w)) ^ 2 = ?Y ^ 2 * w ^ 6" by (simp add: ring_norm)
  also have "\<dots> = (?X * (w * w)) ^ 3 + 5 * (w * ?Z) ^ 6" unfolding pp_onD(4) [OF P] by (simp add: ring_norm)
  finally have "pp_on (pp_from_affine ?x ?y)" using x y by (simp add: pp_on_from_affine w)
  moreover have "pp_to_affine P = Some (?x, ?y)" using inf by (simp add: pp_to_affine_def pp_is_inf_def Let_def)
  ultimately show ?thesis using q by auto
qed

end
