(* ===== verification/Pedersen.thy ===== *)
theory Pedersen
  imports Pasta_Curve Mfold
begin

text \<open>
  Commitments over the Pasta curves, \<open>src/include/hsma/pedersen.hpp\<close>, and the two layers that fold
  them beside the instances: \<open>src/include/hsma/cfold.hpp\<close> and the one the node runs,
  \<open>src/include/hsma/cfold_live.hpp\<close> (its wire form is in \<open>Pcompress\<close>). The bases of a commitment are
  multiples of the generator by scalars that anyone computes, so a commitment has other openings;
  the lemmas give two of them explicitly.
\<close>

subsection \<open>Scalars from digests\<close>

text \<open>\<open>n\<close> passes are left of the four; the last one that still subtracts reports a failure.\<close>

fun sfd_loop :: "nat \<Rightarrow> u64 list \<Rightarrow> u64 list \<Rightarrow> bool \<times> u64 list" where
  "sfd_loop 0 ORDER out = (True, out)"
| "sfd_loop (Suc n) ORDER out =
     (if \<not> geq_loop 4 out ORDER then (True, out)
      else let out' = borrow_sub 0 out ORDER
           in if n = 0 then (False, out') else sfd_loop n ORDER out')"

definition scalar_from_digest :: "bytes \<Rightarrow> u64 list \<Rightarrow> bool \<times> u64 list" where
  "scalar_from_digest dg ORDER = sfd_loop 4 ORDER (bytes_to_limbs dg)"

subsection \<open>The commitments\<close>

text \<open>A pair of the struct's fields, with the result of the reduction ignored as in the code.\<close>

definition pedp_base :: "nat \<Rightarrow> u64 list \<Rightarrow> PtP" where
  "pedp_base i ORDER =
     pp_Vmul pp_generator (snd (scalar_from_digest (sha256 (ascii (''HSMA_PEDERSEN_PALLAS_H'' @ udec i))) ORDER))"

definition pedp_commit :: "u64 list list \<Rightarrow> u64 list \<Rightarrow> u64 list \<Rightarrow> PtP" where
  "pedp_commit m r ORDER =
     foldl (\<lambda>C i. pp_jac_add C (pp_Vmul (pedp_base i ORDER) (m ! i))) (pp_Vmul pp_generator r) [0..<8]"

definition pedv_scalar :: "nat \<Rightarrow> u64 list \<Rightarrow> u64 list" where
  "pedv_scalar i ORDER = snd (scalar_from_digest (sha256 (ascii (''HSMA_PEDERSEN_VESTA_H'' @ udec i))) ORDER)"

definition pedv_base :: "nat \<Rightarrow> u64 list \<Rightarrow> PtV" where
  "pedv_base i ORDER = v_Vmul v_generator (pedv_scalar i ORDER)"

definition pedv_commit :: "u64 list list \<Rightarrow> u64 list \<Rightarrow> u64 list \<Rightarrow> PtV" where
  "pedv_commit m r ORDER =
     foldl (\<lambda>C i. v_jac_add C (v_Vmul (pedv_base i ORDER) (m ! i))) (v_Vmul v_generator r) [0..<8]"

definition commit_vec :: "fe list \<Rightarrow> u64 list \<Rightarrow> u64 list \<Rightarrow> PtV" where
  "commit_vec v r ORDER =
     foldl (\<lambda>C k. v_jac_add C (v_Vmul (pedv_base k ORDER) (limbs (v ! k)))) (v_Vmul v_generator r) [0..<length v]"

subsection \<open>cfold.hpp\<close>

definition cf_mont :: "fe \<Rightarrow> fe" where
  "cf_mont c = fe_mul c (fe_of_limbs RR)"

definition NCOLS :: nat where "NCOLS = 8"

definition to_batches :: "fe list \<Rightarrow> u64 list list" where
  "to_batches z = map (\<lambda>i. if i < length z then limbs (fe_to_canonical (z ! i)) else [0, 0, 0, 0]) [0..<NCOLS]"

record CommittedInstance =
  ci_rel :: Relaxed
  ci_W :: PtV
  ci_rho :: "u64 list"

definition commit_instance :: "Relaxed \<Rightarrow> u64 list \<Rightarrow> u64 list \<Rightarrow> CommittedInstance" where
  "commit_instance R rho ORDER =
     \<lparr>ci_rel = R, ci_W = pedv_commit (to_batches (rx_z R)) rho ORDER, ci_rho = rho\<rparr>"

definition fold_commitments :: "CommittedInstance \<Rightarrow> CommittedInstance list \<Rightarrow> fe list \<Rightarrow> PtV" where
  "fold_commitments U js r =
     foldl (\<lambda>acc j. v_jac_add acc (v_Vmul (ci_W (js ! j)) (limbs (fe_to_canonical (r ! j))))) (ci_W U) [0..<length js]"

text \<open>Equality of two points by their canonical affine coordinates; infinity equals nothing.\<close>

definition same_affine :: "PtV \<Rightarrow> PtV \<Rightarrow> bool" where
  "same_affine P Q =
     (case (v_to_affine P, v_to_affine Q) of
        (Some (x1, y1), Some (x2, y2)) \<Rightarrow>
          fev_to_canonical x1 = fev_to_canonical x2 \<and> fev_to_canonical y1 = fev_to_canonical y2
      | _ \<Rightarrow> False)"

definition folded_rho :: "CommittedInstance \<Rightarrow> CommittedInstance list \<Rightarrow> fe list \<Rightarrow> fe" where
  "folded_rho U js r =
     foldl (\<lambda>rho_p j. fe_add rho_p (fe_mul (r ! j) (cf_mont (fe_of_limbs (ci_rho (js ! j))))))
       (cf_mont (fe_of_limbs (ci_rho U))) [0..<length js]"

definition commitment_consistent :: "CommittedInstance \<Rightarrow> CommittedInstance list \<Rightarrow> MultifoldResult \<Rightarrow> u64 list \<Rightarrow> bool" where
  "commitment_consistent U js MF ORDER =
     same_affine
       (pedv_commit (to_batches (rx_z (mf_folded MF))) (limbs (fe_to_canonical (folded_rho U js (mf_r MF)))) ORDER)
       (fold_commitments U js (mf_r MF))"

subsection \<open>cfold_live.hpp\<close>

definition rho_label :: "u32 \<Rightarrow> u64 \<Rightarrow> fe \<Rightarrow> bool \<times> u64 list" where
  "rho_label epoch idx d =
     scalar_from_digest (sha256 (ascii ''HSMA_CFOLD_RHO|'' @ le_bytes 4 epoch @ le_bytes 8 idx @ fe_to_le_bytes d)) MOD"

definition rho_label_init :: "u32 \<Rightarrow> bool \<times> u64 list" where
  "rho_label_init epoch = scalar_from_digest (sha256 (ascii ''HSMA_CFOLD_RHO|init'' @ le_bytes 4 epoch)) MOD"

definition commit_z :: "fe list \<Rightarrow> u64 list \<Rightarrow> PtV" where
  "commit_z z rho4 = commit_vec (map fe_to_canonical z) rho4 MOD"

definition rho_to_limbs :: "fe \<Rightarrow> u64 list" where
  "rho_to_limbs rho_m = limbs (fe_to_canonical rho_m)"

record LiveW =
  lw_W :: PtV
  lw_rho :: fe

definition init_live :: "fe list \<Rightarrow> u32 \<Rightarrow> LiveW" where
  "init_live z epoch =
     (let r4 = snd (rho_label_init epoch)
      in \<lparr>lw_W = commit_z z r4, lw_rho = fe_from_canonical_limbs r4\<rparr>)"

definition live_advance :: "LiveW \<Rightarrow> PtV \<Rightarrow> fe \<Rightarrow> fe \<Rightarrow> LiveW" where
  "live_advance acc W_j rho_j_m r_m =
     \<lparr>lw_W = v_jac_add (lw_W acc) (v_Vmul W_j (limbs (fe_to_canonical r_m))),
      lw_rho = fe_add (lw_rho acc) (fe_mul r_m rho_j_m)\<rparr>"

definition live_self_check :: "fe list \<Rightarrow> fe \<Rightarrow> PtV \<Rightarrow> bool" where
  "live_self_check z rho_m W = same_affine (commit_z z (rho_to_limbs rho_m)) W"

definition verify_recommit :: "fe list \<Rightarrow> u64 list \<Rightarrow> PtV \<Rightarrow> bool" where
  "verify_recommit z rho4 W = live_self_check z (fe_from_canonical_limbs rho4) W"

text \<open>The vector \<open>z || E || u\<close>, padded with zeros to a power of two.\<close>

function npad_loop :: "nat \<Rightarrow> nat \<Rightarrow> nat" where
  "npad_loop npad n = (if n \<le> npad \<or> npad = 0 then npad else npad_loop (2 * npad) n)"
  by pat_completeness auto
termination
  by (relation "measure (\<lambda>(npad, n). n - npad)") auto

declare npad_loop.simps [simp del]

definition live_evals :: "fe list \<Rightarrow> fe list \<Rightarrow> fe \<Rightarrow> fe list" where
  "live_evals z E u = (let v = z @ E @ [u] in v @ replicate (npad_loop 1 (length v) - length v) fe_zero)"

definition verify_C_link :: "fe list \<Rightarrow> fe list \<Rightarrow> fe \<Rightarrow> fe \<Rightarrow> bool" where
  "verify_C_link z E u C_piE =
     (fe_to_canonical (sponge_hash HSM_SUMCHECK_v1 (live_evals z E u)) = fe_to_canonical C_piE)"

subsection \<open>The reduction\<close>

text \<open>
  Both orders exceed a quarter of \<open>2 ^ 256\<close>, so three subtractions are enough (the code's comment counts
  two) and the failure is never reported.
\<close>

lemma sfd_loop_val:
  assumes O: "length M = 4" "\<forall>p \<in> set M. p \<noteq> - 1" "0 < limbs_val M"
  shows "length x = 4 \<Longrightarrow> limbs_val x < Suc n * limbs_val M \<Longrightarrow>
    fst (sfd_loop (Suc n) M x) \<and> length (snd (sfd_loop (Suc n) M x)) = 4
    \<and> limbs_val (snd (sfd_loop (Suc n) M x)) = limbs_val x mod limbs_val M"
proof (induction n arbitrary: x)
  case 0
  then have "\<not> geq_loop 4 x M" using geq_loop_val [of 4 x M] O(1) by simp
  then show ?case using 0 by simp
next
  case (Suc n)
  show ?case
  proof (cases "geq_loop 4 x M")
    case True
    then have le: "limbs_val M \<le> limbs_val x" using geq_loop_val [of 4 x M] O(1) Suc.prems(1) by simp
    note b = borrow_sub_val [OF Suc.prems(1) O(1,2) le]
    have "limbs_val (borrow_sub 0 x M) < Suc n * limbs_val M" using Suc.prems(2) le b(2) by simp
    then show ?thesis using Suc.IH [OF b(1)] True le b(2) by (simp add: Let_def le_mod_geq)
  next
    case False
    then have "limbs_val x < limbs_val M" using geq_loop_val [of 4 x M] O(1) Suc.prems(1) by simp
    then show ?thesis using False Suc.prems by simp
  qed
qed

lemma scalar_from_digest_val:
  assumes "length M = 4" and "\<forall>p \<in> set M. p \<noteq> - 1" and "2 ^ 256 \<le> 4 * limbs_val M"
  shows "fst (scalar_from_digest dg M)" and "length (snd (scalar_from_digest dg M)) = 4"
    and "limbs_val (snd (scalar_from_digest dg M)) = limbs_val (bytes_to_limbs dg) mod limbs_val M"
proof -
  have "limbs_val (bytes_to_limbs dg) < 2 ^ 256" using limbs_val_lt [of "bytes_to_limbs dg"] by simp
  then have "limbs_val (bytes_to_limbs dg) < Suc 3 * limbs_val M" using assms(3) by simp
  moreover have "0 < limbs_val M" using assms(3) by (cases "limbs_val M") simp_all
  ultimately have "fst (sfd_loop (Suc 3) M (bytes_to_limbs dg)) \<and> length (snd (sfd_loop (Suc 3) M (bytes_to_limbs dg))) = 4
      \<and> limbs_val (snd (sfd_loop (Suc 3) M (bytes_to_limbs dg))) = limbs_val (bytes_to_limbs dg) mod limbs_val M"
    by (intro sfd_loop_val [OF assms(1,2)]) simp_all
  moreover have "Suc 3 = 4" by simp
  ultimately show "fst (scalar_from_digest dg M)" and "length (snd (scalar_from_digest dg M)) = 4"
    and "limbs_val (snd (scalar_from_digest dg M)) = limbs_val (bytes_to_limbs dg) mod limbs_val M"
    unfolding scalar_from_digest_def by metis+
qed

lemma MOD_order: "length MOD = 4" "\<forall>p \<in> set MOD. p \<noteq> - 1" "2 ^ 256 \<le> 4 * limbs_val MOD"
  by (simp_all add: MOD_def)

lemma V_MOD_order: "length V_MOD = 4" "\<forall>p \<in> set V_MOD. p \<noteq> - 1" "2 ^ 256 \<le> 4 * limbs_val V_MOD"
  by (simp_all add: V_MOD_def)

lemmas pedv_scalar_val = scalar_from_digest_val [OF MOD_order]

lemma pedv_scalar_canonical: "is_canonical (fe_of_limbs (pedv_scalar i MOD))" "length (pedv_scalar i MOD) = 4"
  using pedv_scalar_val(2,3) pallas_p_pos by (simp_all add: pedv_scalar_def is_canonical_iff)

subsection \<open>Types\<close>

lemma fold_points_on: "v_on C \<Longrightarrow> (\<And>k. k \<in> set ks \<Longrightarrow> v_on (f k)) \<Longrightarrow> v_on (foldl (\<lambda>C k. v_jac_add C (f k)) C ks)"
  by (induction ks arbitrary: C) (simp_all add: v_jac_add_on)

lemma pedv_base_on: "v_on (pedv_base i ORDER)"
  by (simp add: pedv_base_def v_Vmul_on v_generator_on)

lemma commit_vec_on: "v_on (commit_vec v r ORDER)"
  unfolding commit_vec_def by (rule fold_points_on) (simp_all add: v_Vmul_on v_generator_on pedv_base_on)

lemma pedv_commit_on: "v_on (pedv_commit m r ORDER)"
  unfolding pedv_commit_def by (rule fold_points_on) (simp_all add: v_Vmul_on v_generator_on pedv_base_on)

lemma fold_commitments_on:
  assumes "v_on (ci_W U)" and "\<forall>J \<in> set js. v_on (ci_W J)"
  shows "v_on (fold_commitments U js r)"
  unfolding fold_commitments_def by (rule fold_points_on) (use assms in \<open>simp_all add: v_Vmul_on\<close>)

text \<open>An accumulator of the live layer: a point of the curve and a reduced blinding.\<close>

definition live_ok :: "LiveW \<Rightarrow> bool" where
  "live_ok L \<longleftrightarrow> v_on (lw_W L) \<and> is_canonical (lw_rho L)"

lemma canonical_limbs_Fe: "length c = 4 \<Longrightarrow> limbs_val c < pallas_p \<Longrightarrow> is_canonical (fe_from_canonical_limbs c)"
  unfolding fe_from_canonical_limbs_def by (rule canonical_mul_left) (simp add: is_canonical_iff)

lemma rho_label_canonical:
  "fst (rho_label epoch idx d)" "length (snd (rho_label epoch idx d)) = 4" "limbs_val (snd (rho_label epoch idx d)) < pallas_p"
  "length (snd (rho_label_init epoch)) = 4" "limbs_val (snd (rho_label_init epoch)) < pallas_p"
  using pedv_scalar_val pallas_p_pos by (simp_all add: rho_label_def rho_label_init_def)

lemma init_live_ok: "live_ok (init_live z epoch)"
  using rho_label_canonical by (simp add: live_ok_def init_live_def Let_def commit_z_def commit_vec_on canonical_limbs_Fe)

lemma live_advance_ok:
  assumes "live_ok L" and "v_on W" and "is_canonical rho" and "is_canonical r"
  shows "live_ok (live_advance L W rho r)"
    and "fe_dec (lw_rho (live_advance L W rho r)) = fe_dec (lw_rho L) + fe_dec r * fe_dec rho"
  using assms by (simp_all add: live_ok_def live_advance_def v_jac_add_on v_Vmul_on fe_dec_ops)

text \<open>The folded blinding of \<open>cfold.hpp\<close> is the linear combination, reduced.\<close>

lemma folded_rho_dec:
  assumes U: "length (ci_rho U) = 4" "limbs_val (ci_rho U) < pallas_p"
    and js: "\<forall>j<length js. length (ci_rho (js ! j)) = 4 \<and> limbs_val (ci_rho (js ! j)) < pallas_p \<and> is_canonical (r ! j)"
  shows "is_canonical (folded_rho U js r)"
    and "fe_dec (folded_rho U js r) = of_nat (limbs_val (ci_rho U)) + (\<Sum>j<length js. fe_dec (r ! j) * of_nat (limbs_val (ci_rho (js ! j))))"
proof -
  have m: "is_canonical (cf_mont (fe_of_limbs c)) \<and> fe_dec (cf_mont (fe_of_limbs c)) = of_nat (limbs_val c)"
    if "length c = 4" "limbs_val c < pallas_p" for c
  proof -
    have c: "is_canonical (fe_of_limbs c)" using that by (simp add: is_canonical_iff)
    then show ?thesis unfolding cf_mont_def using that by (simp add: canonical_from_raw fe_dec_raw)
  qed
  define G where "G n = foldl (\<lambda>rho_p j. fe_add rho_p (fe_mul (r ! j) (cf_mont (fe_of_limbs (ci_rho (js ! j))))))
      (cf_mont (fe_of_limbs (ci_rho U))) [0..<n]" for n
  have "is_canonical (G n) \<and> fe_dec (G n) = of_nat (limbs_val (ci_rho U))
      + (\<Sum>j<n. fe_dec (r ! j) * of_nat (limbs_val (ci_rho (js ! j))))" if "n \<le> length js" for n
    using that
  proof (induction n)
    case 0
    then show ?case using m [OF U] by (simp add: G_def)
  next
    case (Suc n)
    then have "G (Suc n) = fe_add (G n) (fe_mul (r ! n) (cf_mont (fe_of_limbs (ci_rho (js ! n)))))" by (simp add: G_def)
    then show ?case using Suc js m [of "ci_rho (js ! n)"] by (simp add: fe_dec_ops)
  qed
  from this [OF order_refl] show "is_canonical (folded_rho U js r)"
    and "fe_dec (folded_rho U js r) = of_nat (limbs_val (ci_rho U)) + (\<Sum>j<length js. fe_dec (r ! j) * of_nat (limbs_val (ci_rho (js ! j))))"
    by (simp_all add: folded_rho_def G_def)
qed

subsection \<open>Two openings of one commitment\<close>

text \<open>Points that \<open>to_affine\<close> refuses compare as different from everything.\<close>

lemma same_affine_inf: "v_is_inf P \<Longrightarrow> \<not> same_affine P Q"
  by (simp add: same_affine_def v_to_affine_def v_is_inf_def)

lemma v_inf_PtV0 [simp]: "v_is_inf PtV0"
  by (simp add: v_is_inf_def PtV0_def fev_is_zero_def fev_zero_def)

lemma v_add_inf: "v_jac_add PtV0 Q = Q" "v_jac_add P PtV0 = (if v_is_inf P then PtV0 else P)"
  by (simp_all add: v_jac_add_def v_is_inf_def PtV0_def fev_is_zero_def fev_zero_def)

lemma add_zeros:
  "(\<And>k. k \<in> set ks \<Longrightarrow> f k = PtV0) \<Longrightarrow>
    foldl (\<lambda>C k. v_jac_add C (f k)) P ks = (if ks = [] \<or> \<not> v_is_inf P then P else PtV0)"
  by (induction ks arbitrary: P) (simp_all add: v_add_inf)

lemma canonical_limbs_small: "limbs (fe_to_canonical fe_zero) = [0, 0, 0, 0]" "limbs (fe_to_canonical fe_one) = [1, 0, 0, 0]"
proof -
  have z: "fe_to_canonical fe_zero = Fe 0 0 0 0"
  proof (rule fe_val_inj)
    have "(of_nat (fe_val (fe_to_canonical fe_zero)) :: pallas) = of_nat 0"
      by (simp add: of_nat_to_canonical canonical_zero fe_dec_zero)
    then show "fe_val (fe_to_canonical fe_zero) = fe_val (Fe 0 0 0 0)"
      using canonical_to_canonical [OF canonical_zero] unfolding of_nat_pallas by (simp add: is_canonical_iff fe_val_def)
  qed
  have o: "fe_to_canonical fe_one = Fe 1 0 0 0"
  proof (rule fe_val_inj)
    have "(of_nat (fe_val (fe_to_canonical fe_one)) :: pallas) = of_nat 1"
      by (simp add: of_nat_to_canonical canonical_one fe_dec_one)
    then show "fe_val (fe_to_canonical fe_one) = fe_val (Fe 1 0 0 0)"
      using canonical_to_canonical [OF canonical_one] unfolding of_nat_pallas by (simp add: is_canonical_iff fe_val_def pallas_p_eq)
  qed
  show "limbs (fe_to_canonical fe_zero) = [0, 0, 0, 0]" "limbs (fe_to_canonical fe_one) = [1, 0, 0, 0]"
    using z o by simp_all
qed

text \<open>
  The vector with a single one at position \<open>i\<close> and no blinding commits to the base \<open>i\<close>, which is the
  generator times a public scalar: that scalar as the blinding of the zero vector gives the same point.
\<close>

lemma commit_unit:
  "commit_z (replicate i fe_zero @ fe_one # replicate j fe_zero) [0, 0, 0, 0]
    = (if j = 0 \<or> \<not> v_is_inf (pedv_base i MOD) then pedv_base i MOD else PtV0)"
proof -
  let ?z = "map fe_to_canonical (replicate i fe_zero @ fe_one # replicate j fe_zero)"
  define f where "f k = v_Vmul (pedv_base k MOD) (limbs (?z ! k))" for k
  have zero: "f k = PtV0" if "k < i \<or> i < k \<and> k < i + 1 + j" for k
    using that by (auto simp: f_def nth_append nth_Cons' canonical_limbs_small v_Vmul_zero)
  have one: "f i = pedv_base i MOD" by (simp add: f_def nth_append canonical_limbs_small v_Vmul_one)
  have up: "[0..<length ?z] = [0..<i] @ i # [Suc i..<i + 1 + j]"
    using upt_add_eq_append [of 0 i "1 + j"] upt_conv_Cons [of i "i + 1 + j"] by (simp add: add.assoc del: upt.simps)
  have "commit_z (replicate i fe_zero @ fe_one # replicate j fe_zero) [0, 0, 0, 0]
      = foldl (\<lambda>C k. v_jac_add C (f k)) (v_jac_add (foldl (\<lambda>C k. v_jac_add C (f k)) PtV0 [0..<i]) (f i)) [Suc i..<i + 1 + j]"
    unfolding commit_z_def commit_vec_def v_Vmul_zero up by (simp only: foldl_append foldl.simps flip: f_def)
  also have "foldl (\<lambda>C k. v_jac_add C (f k)) PtV0 [0..<i] = PtV0"
    using add_zeros [of "[0..<i]" f PtV0] zero by simp
  also have "v_jac_add PtV0 (f i) = pedv_base i MOD" unfolding one by (rule v_add_inf)
  also have "foldl (\<lambda>C k. v_jac_add C (f k)) (pedv_base i MOD) [Suc i..<i + 1 + j]
      = (if [Suc i..<i + 1 + j] = [] \<or> \<not> v_is_inf (pedv_base i MOD) then pedv_base i MOD else PtV0)"
    by (rule add_zeros) (simp add: zero del: upt.simps)
  finally show ?thesis by (simp del: upt.simps)
qed

lemma commit_blinding:
  "commit_z (replicate n fe_zero) (pedv_scalar i MOD)
    = (if n = 0 \<or> \<not> v_is_inf (pedv_base i MOD) then pedv_base i MOD else PtV0)"
proof -
  have "commit_z (replicate n fe_zero) (pedv_scalar i MOD)
      = foldl (\<lambda>C k. v_jac_add C (v_Vmul (pedv_base k MOD) (limbs (map fe_to_canonical (replicate n fe_zero) ! k))))
          (pedv_base i MOD) [0..<n]"
    by (simp add: commit_z_def commit_vec_def pedv_base_def)
  also have "\<dots> = (if [0..<n] = [] \<or> \<not> v_is_inf (pedv_base i MOD) then pedv_base i MOD else PtV0)"
    by (rule add_zeros) (simp add: canonical_limbs_small v_Vmul_zero)
  finally show ?thesis by simp
qed

text \<open>The self-check therefore cannot tell the two openings apart, whatever the point is.\<close>

lemma rho_limbs_back:
  assumes "length c = 4" and "limbs_val c < pallas_p"
  shows "rho_to_limbs (fe_from_canonical_limbs c) = c"
  using assms fe_leave_enter [of "fe_of_limbs c"]
  by (simp add: rho_to_limbs_def fe_from_canonical_limbs_def is_canonical_iff)

lemma unit_openings:
  "verify_recommit (replicate i fe_zero @ fe_one # replicate j fe_zero) [0, 0, 0, 0] W
    = verify_recommit (replicate n fe_zero) (pedv_scalar i MOD) W"
proof -
  have "rho_to_limbs (fe_from_canonical_limbs [0, 0, 0, 0]) = [0, 0, 0, 0]"
    "rho_to_limbs (fe_from_canonical_limbs (pedv_scalar i MOD)) = pedv_scalar i MOD"
    using pedv_scalar_canonical [of i] by (simp_all add: rho_limbs_back pallas_p_pos is_canonical_iff)
  then show ?thesis
    by (cases "v_is_inf (pedv_base i MOD)")
      (simp_all add: verify_recommit_def live_self_check_def commit_unit commit_blinding same_affine_inf)
qed

text \<open>On reduced points the comparison is equality of the affine coordinates.\<close>

lemma same_affine_iff:
  assumes "v_on P" and "v_on Q"
  shows "same_affine P Q \<longleftrightarrow> v_to_affine P = v_to_affine Q \<and> \<not> v_is_inf P"
proof -
  have c: "fev_canon x \<and> fev_canon y" if "v_on R" "v_to_affine R = Some (x, y)" for R x y
    using that v_onD(1-3) [OF that(1)] fev_inv_dec(1)
    by (auto simp: v_to_affine_def Let_def split: if_splits)
  have n: "v_to_affine R = None \<longleftrightarrow> v_is_inf R" for R by (simp add: v_to_affine_def v_is_inf_def Let_def)
  show ?thesis
    using c [OF assms(1)] c [OF assms(2)] n [of P] n [of Q]
    by (auto simp: same_affine_def fev_to_canonical_inj split: option.splits)
qed

text \<open>A live accumulator that the check accepts is the commitment to its instance.\<close>

lemma self_check_means:
  assumes "live_self_check z rho W" and "v_on W"
  shows "v_to_affine W = v_to_affine (commit_z z (rho_to_limbs rho))"
  using assms same_affine_iff [of "commit_z z (rho_to_limbs rho)" W]
  by (simp add: live_self_check_def commit_z_def commit_vec_on)

end
