(* ===== verification/Pcompress.thy ===== *)
theory Pcompress
  imports Pedersen Bls_Fr Bls_G1
begin

text \<open>
  The compressed wire form of points, \<open>src/include/hsma/pcompress.hpp\<close>: 32 bytes for the two Pasta
  curves, 48 for G1 of BLS12-377; the abscissa in little-endian order with the parity of the ordinate
  in the top bit. The lemmas show that the square roots returned are square roots, and that what
  decompresses is on its curve and compresses back to the bytes it came from.
\<close>

subsection \<open>Limb helpers\<close>

fun dec1 :: "u64 list \<Rightarrow> u64 list" where
  "dec1 [] = []"
| "dec1 (v # vs) = (v - 1) # (if v \<noteq> 0 then vs else dec1 vs)"

definition shr_limbs :: "u64 list \<Rightarrow> nat \<Rightarrow> u64 list" where
  "shr_limbs v n =
     map (\<lambda>i. let lo = drop_bit n (v ! i); hi = if i + 1 < 4 then push_bit (64 - n) (v ! (i + 1)) else 0
       in if n \<noteq> 0 then lo OR hi else v ! i) [0..<4]"

fun add1 :: "u64 list \<Rightarrow> u64 list" where
  "add1 [] = []"
| "add1 (v # vs) = (v + 1) # (if v + 1 \<noteq> 0 then vs else add1 vs)"

definition P_P1 :: "u64 list" where "P_P1 = dec1 MOD"
definition P_HALF :: "u64 list" where "P_HALF = shr_limbs P_P1 1"
definition P_T :: "u64 list" where "P_T = shr_limbs P_P1 32"
definition P_TH :: "u64 list" where "P_TH = shr_limbs (add1 P_T) 1"
definition Q_P1 :: "u64 list" where "Q_P1 = dec1 V_MOD"
definition Q_HALF :: "u64 list" where "Q_HALF = shr_limbs Q_P1 1"
definition Q_T :: "u64 list" where "Q_T = shr_limbs Q_P1 32"
definition Q_TH :: "u64 list" where "Q_TH = shr_limbs (add1 Q_T) 1"

subsection \<open>Square roots over the Vesta field\<close>

definition pow_fev :: "fev \<Rightarrow> u64 list \<Rightarrow> fev" where
  "pow_fev a e = foldl (\<lambda>r b. let r = fev_mul r r in if b then fev_mul r a else r) (fev_from_u64 1) (bits_down e)"

definition neg_one_fev :: fev where
  "neg_one_fev = fev_sub fev_zero (fev_from_u64 1)"

text \<open>\<open>n\<close> candidates are left of the 64 from two upwards.\<close>

fun fev_find_nr :: "nat \<Rightarrow> u64 \<Rightarrow> fev option" where
  "fev_find_nr 0 c = None"
| "fev_find_nr (Suc n) c =
     (if fev_eq (pow_fev (fev_from_u64 c) Q_HALF) neg_one_fev then Some (fev_from_u64 c) else fev_find_nr n (c + 1))"

text \<open>The inner loop: squarings until one, fewer than \<open>m\<close> of them.\<close>

function fev_order :: "nat \<Rightarrow> nat \<Rightarrow> fev \<Rightarrow> nat option" where
  "fev_order m i t2 =
     (if fev_eq t2 (fev_from_u64 1) then Some i
      else if m \<le> i + 1 then None else fev_order m (i + 1) (fev_mul t2 t2))"
  by pat_completeness auto
termination
  by (relation "measure (\<lambda>(m, i, t2). m - i)") auto

declare fev_order.simps [simp del]

text \<open>The outer loop; \<open>n\<close> rounds are left of the guard's 64.\<close>

fun fev_ts_loop :: "nat \<Rightarrow> nat \<Rightarrow> fev \<Rightarrow> fev \<Rightarrow> fev \<Rightarrow> fev option" where
  "fev_ts_loop n m c t R =
     (if fev_eq t (fev_from_u64 1) then Some R
      else case n of 0 \<Rightarrow> None
      | Suc n' \<Rightarrow>
        (case fev_order m 0 t of None \<Rightarrow> None
         | Some i \<Rightarrow>
           let b = ((\<lambda>b. fev_mul b b) ^^ (m - i - 1)) c;
               c2 = fev_mul b b
           in fev_ts_loop n' i c2 (fev_mul t c2) (fev_mul R b)))"

declare fev_ts_loop.simps [simp del]

definition fev_sqrt :: "fev \<Rightarrow> fev option" where
  "fev_sqrt a =
     (if fev_is_zero a then Some fev_zero
      else if \<not> fev_eq (pow_fev a Q_HALF) (fev_from_u64 1) then None
      else case fev_find_nr 64 2 of None \<Rightarrow> None
        | Some z \<Rightarrow> fev_ts_loop 64 32 (pow_fev z Q_T) (pow_fev a Q_T) (pow_fev a Q_TH))"

subsection \<open>The 32-byte form of a Vesta point\<close>

text \<open>The lowest bit of a canonical element, moved to the top bit of a byte.\<close>

definition parity_bit :: "u64 \<Rightarrow> u8" where
  "parity_bit l0 = push_bit 7 (ucast (l0 AND 1))"

definition put_parity :: "bytes \<Rightarrow> u64 \<Rightarrow> bytes" where
  "put_parity out l0 = out[31 := (out ! 31 AND 0x7F) OR parity_bit l0]"

definition compress_v :: "PtV \<Rightarrow> bytes option" where
  "compress_v P =
     (if \<not> v_on_curve P then None
      else if v_is_inf P then Some (replicate 32 0)
      else case v_to_affine P of None \<Rightarrow> None
        | Some (x, y) \<Rightarrow> Some (put_parity (fev_to_le_bytes x) (fev_to_canonical y ! 0)))"

definition decompress_v :: "bytes \<Rightarrow> PtV option" where
  "decompress_v inp =
     (if \<forall>i<32. inp ! i = 0 then Some PtV0
      else let want_odd = bit (inp ! 31) 7; xb = (take 32 inp)[31 := inp ! 31 AND 0x7F]
        in case fev_from_le_bytes xb of None \<Rightarrow> None
           | Some x \<Rightarrow>
             let x3 = fev_mul (fev_mul x x) x; rhs = fev_add x3 v_curve_b
             in case fev_sqrt rhs of None \<Rightarrow> None
                | Some y \<Rightarrow>
                  Some (v_from_affine x
                    (if fev_to_canonical y ! 0 AND 1 \<noteq> (if want_odd then 1 else 0) then fev_sub fev_zero y else y)))"

subsection \<open>Vesta: roots\<close>

lemma pow_fev_dec:
  assumes "fev_canon a"
  shows "fev_canon (pow_fev a e)" and "vk.dec (pow_fev a e) = vk.dec a ^ limbs_val e"
  using vk.square_multiply_dec [OF fev_canon_from_u64 [of 1] assms, of "bits_down e"]
    square_multiply [of "vk.dec a" 0 "bits_down e"] bits_down_value [of e]
  unfolding pow_fev_def by (simp_all add: fev_dec_from_u64)

lemma fev_sq_canon: "fev_canon c \<Longrightarrow> fev_canon (((\<lambda>b. fev_mul b b) ^^ n) c)"
  by (induction n) simp_all

lemma fev_find_nr_canon: "fev_find_nr n c = Some z \<Longrightarrow> fev_canon z"
  by (induction n c rule: fev_find_nr.induct) (auto split: if_splits)

lemma Q_exponents: "2 * limbs_val Q_TH = limbs_val Q_T + 1"
  by (simp add: Q_TH_def Q_T_def Q_P1_def V_MOD_def shr_limbs_def upt_rec Let_def)

text \<open>The loop keeps \<open>R^2 = t * a\<close>.\<close>

lemma fev_ts_loop_root:
  "fev_ts_loop n m c t R = Some r \<Longrightarrow> fev_canon c \<Longrightarrow> fev_canon t \<Longrightarrow> fev_canon R \<Longrightarrow>
    vk.dec R ^ 2 = vk.dec t * a \<Longrightarrow> fev_canon r \<and> vk.dec r ^ 2 = a"
proof (induction n m c t R rule: fev_ts_loop.induct)
  case (1 n m c t R)
  show ?case
  proof (cases "fev_eq t (fev_from_u64 1)")
    case True
    then have "R = r" "vk.dec t = 1" using "1.prems"(1) by (simp_all add: fev_ts_loop.simps fev_eq_def fev_dec_from_u64)
    then show ?thesis using "1.prems" by simp
  next
    case False
    then obtain n' i where n: "n = Suc n'" and i: "fev_order m 0 t = Some i"
      using "1.prems"(1) by (auto simp: fev_ts_loop.simps [of n] split: nat.splits option.splits)
    let ?b = "((\<lambda>b. fev_mul b b) ^^ (m - i - 1)) c"
    have b: "fev_canon ?b" by (rule fev_sq_canon [OF "1.prems"(2)])
    have r: "fev_ts_loop n' i (fev_mul ?b ?b) (fev_mul t (fev_mul ?b ?b)) (fev_mul R ?b) = Some r"
      using "1.prems"(1) False i unfolding n by (simp add: fev_ts_loop.simps [of "Suc n'"] Let_def)
    have "vk.dec (fev_mul R ?b) ^ 2 = vk.dec R ^ 2 * (vk.dec ?b * vk.dec ?b)"
      using b "1.prems"(4) by (simp add: fev_dec_ops power2_eq_square ac_simps)
    then have "vk.dec (fev_mul R ?b) ^ 2 = vk.dec (fev_mul t (fev_mul ?b ?b)) * a"
      unfolding "1.prems"(5) using b "1.prems"(3) by (simp add: fev_dec_ops ac_simps)
    then show ?thesis using "1.IH" [OF False n i refl refl r] b "1.prems" by simp
  qed
qed

lemma fev_sqrt_root:
  assumes a: "fev_canon a" and r: "fev_sqrt a = Some r"
  shows "fev_canon r" and "vk.dec r ^ 2 = vk.dec a"
proof -
  have "fev_canon r \<and> vk.dec r ^ 2 = vk.dec a"
  proof (cases "fev_is_zero a")
    case True
    then show ?thesis using r a by (simp add: fev_sqrt_def fev_is_zero_dec fev_dec_ops vk.c_zero)
  next
    case False
    then obtain z where z: "fev_find_nr 64 2 = Some z"
      and l: "fev_ts_loop 64 32 (pow_fev z Q_T) (pow_fev a Q_T) (pow_fev a Q_TH) = Some r"
      using r by (auto simp: fev_sqrt_def split: option.splits if_splits)
    have "vk.dec (pow_fev a Q_TH) ^ 2 = vk.dec a ^ (2 * limbs_val Q_TH)"
      using pow_fev_dec(2) [OF a, of Q_TH] by (simp only: mult.commute flip: power_mult)
    also have "\<dots> = vk.dec (pow_fev a Q_T) * vk.dec a"
      unfolding Q_exponents using pow_fev_dec(2) [OF a, of Q_T] by simp
    finally show ?thesis
      using pow_fev_dec(1) a fev_find_nr_canon [OF z] by (intro fev_ts_loop_root [OF l]) simp_all
  qed
  then show "fev_canon r" and "vk.dec r ^ 2 = vk.dec a" by simp_all
qed

subsection \<open>Vesta: the wire form\<close>

lemma low_bit: "xs \<noteq> [] \<Longrightarrow> xs ! 0 AND 1 = (if odd (limbs_val xs) then 1 else 0)"
proof -
  assume "xs \<noteq> []"
  then obtain x ys where xs: "xs = x # ys" by (cases xs) auto
  have "odd (limbs_val xs) \<longleftrightarrow> odd (unat x)" unfolding xs by simp
  moreover have "odd (unat x) \<longleftrightarrow> odd x"
    using bit_unsigned_iff [of x 0, where ?'a = nat] by (simp add: bit_0)
  ultimately show ?thesis unfolding xs by (simp add: and_one_eq mod_2_eq_odd)
qed

lemma mod_sum_zero: "a < q \<Longrightarrow> b < q \<Longrightarrow> (a + b) mod q = 0 \<Longrightarrow> b \<noteq> 0 \<Longrightarrow> a + b = (q :: nat)"
  by (cases "a + b < q") (simp_all add: le_mod_geq)

lemma byte_split:
  assumes "l AND 1 = (if bit b 7 then 1 else 0)"
  shows "(b AND 0x7F AND 0x7F) OR parity_bit l = (b :: u8)"
proof -
  have m: "(0x7F :: u8) = mask 7" by (simp add: mask_eq_exp_minus_1)
  have p: "parity_bit l = (if bit b 7 then push_bit 7 1 else 0)"
    unfolding parity_bit_def assms by simp
  have top: "bit (push_bit 7 1 :: u8) i \<longleftrightarrow> i = 7" if "i < 8" for i
    using that by (simp only: bit_push_bit_iff bit_1_iff) auto
  show ?thesis
  proof (rule bit_word_eqI)
    fix i assume "i < LENGTH(8)"
    then have "i < 7 \<or> i = 7" by auto
    then show "bit ((b AND 0x7F AND 0x7F) OR parity_bit l) i = bit b i"
      unfolding m p bit_or_iff bit_and_iff if_distrib [of "\<lambda>w. bit w i"] by (auto simp: top bit_mask_iff simp del: push_bit_of_1)
  qed
qed

text \<open>Bytes whose top bit is split off and put back.\<close>

lemma put_parity_back:
  assumes "length bs = 32" and "l AND 1 = (if bit (bs ! 31) 7 then 1 else 0)"
  shows "put_parity ((take 32 bs)[31 := bs ! 31 AND 0x7F]) l = bs"
proof -
  have "put_parity ((take 32 bs)[31 := bs ! 31 AND 0x7F]) l = bs[31 := (bs ! 31 AND 0x7F AND 0x7F) OR parity_bit l]"
    using assms(1) by (simp add: put_parity_def)
  then show ?thesis unfolding byte_split [OF assms(2)] by simp
qed

lemma fev_neg_parity:
  assumes y: "fev_canon y" and nz: "\<not> fev_is_zero y"
  shows "fev_to_canonical (fev_sub fev_zero y) ! 0 AND 1 = (if fev_to_canonical y ! 0 AND 1 = 1 then 0 else 1)"
proof -
  let ?Y = "fev_to_canonical y" and ?N = "fev_to_canonical (fev_sub fev_zero y)"
  have c: "fev_canon ?Y" "fev_canon ?N" using y by simp_all
  then have lt: "limbs_val ?Y < vesta_q" "limbs_val ?N < vesta_q" and ne: "?Y \<noteq> []" "?N \<noteq> []"
    by (auto simp: fev_canon_def)
  have "(of_nat (limbs_val ?N + limbs_val ?Y) :: vesta) = of_nat 0"
    using y by (simp add: fev_val_to_canonical fev_dec_ops)
  then have z: "(limbs_val ?N + limbs_val ?Y) mod vesta_q = 0" unfolding of_nat_vesta by simp
  have "limbs_val ?Y \<noteq> 0"
  proof
    assume "limbs_val ?Y = 0"
    then have "vk.dec y = 0" using fev_val_to_canonical [OF y] by simp
    then show False using nz y by (simp add: fev_is_zero_dec)
  qed
  then have "limbs_val ?N + limbs_val ?Y = vesta_q" by (rule mod_sum_zero [OF lt(2,1) z])
  moreover have "odd vesta_q" by (simp add: vesta_q_eq)
  ultimately have "odd (limbs_val ?N) \<longleftrightarrow> even (limbs_val ?Y)" by (metis even_add)
  then show ?thesis by (simp add: low_bit ne)
qed

theorem decompress_compress_v:
  assumes bs: "length bs = 32" and P: "decompress_v bs = Some P" and nz: "v_is_inf P \<or> \<not> fev_is_zero (vy P)"
  shows "compress_v P = Some bs" and "v_on P"
proof -
  have "compress_v P = Some bs \<and> v_on P"
  proof (cases "\<forall>i<32. bs ! i = 0")
    case True
    then have "bs = replicate 32 0" using bs by (simp add: list_eq_iff_nth_eq)
    moreover have P0: "P = PtV0" using P True by (simp add: decompress_v_def)
    moreover have "v_on_curve PtV0" by (simp add: v_on_curve_def PtV0_def fev_is_zero_def fev_zero_def)
    ultimately show ?thesis by (simp add: compress_v_def)
  next
    case False
    let ?xb = "(take 32 bs)[31 := bs ! 31 AND 0x7F]"
    obtain x y0 where x: "fev_from_le_bytes ?xb = Some x"
      and y0: "fev_sqrt (fev_add (fev_mul (fev_mul x x) x) v_curve_b) = Some y0"
      and Pd: "P = v_from_affine x (if fev_to_canonical y0 ! 0 AND 1 \<noteq> (if bit (bs ! 31) 7 then 1 else 0) then fev_sub fev_zero y0 else y0)"
      using P False unfolding decompress_v_def by (auto simp: Let_def split: option.splits if_splits)
    have xc: "fev_canon x" "fev_to_le_bytes x = ?xb" using fev_to_from_bytes [OF _ x] bs by simp_all
    have bc: "fev_canon v_curve_b" "vk.dec v_curve_b = 5" by (simp_all add: v_curve_b_def v_small)
    note r = fev_sqrt_root [OF _ y0]
    have yc: "fev_canon y0" "vk.dec y0 ^ 2 = vk.dec x ^ 3 + 5"
      using r xc bc by (simp_all add: fev_dec_ops power3_eq_cube)
    define y where "y = (if fev_to_canonical y0 ! 0 AND 1 \<noteq> (if bit (bs ! 31) 7 then 1 else 0) then fev_sub fev_zero y0 else y0)"
    have Py: "P = v_from_affine x y" by (simp add: Pd y_def)
    have y: "fev_canon y" "vk.dec y ^ 2 = vk.dec x ^ 3 + 5" using yc by (auto simp: y_def fev_dec_ops)
    then have on: "v_on P" using xc by (simp add: Py v_on_from_affine)
    have ni: "\<not> v_is_inf P" by (simp add: Py v_is_inf_def v_from_affine_def fev_is_zero_def fev_one_def V_R_ONE_def)
    then have "\<not> fev_is_zero y" using nz by (simp add: Py v_from_affine_def)
    then have nz0: "\<not> fev_is_zero y0" using yc(1) y(1) by (auto simp: y_def fev_is_zero_dec fev_dec_ops split: if_splits)
    have "fev_to_canonical y0 \<noteq> []" using yc(1) fev_canon_to_canonical [of y0] by (auto simp: fev_canon_def)
    then have b0: "fev_to_canonical y0 ! 0 AND 1 = 0 \<or> fev_to_canonical y0 ! 0 AND 1 = 1" by (simp add: low_bit)
    then have par: "fev_to_canonical y ! 0 AND 1 = (if bit (bs ! 31) 7 then 1 else 0)"
      using fev_neg_parity [OF yc(1) nz0] by (auto simp: y_def)
    have "compress_v P = Some (put_parity ?xb (fev_to_canonical y ! 0))"
      using on ni v_onD(1-3) [OF on] v_to_affine_from [OF xc(1) y(1)] xc(2)
      by (simp add: compress_v_def v_on_curve_iff Py)
    then show ?thesis using put_parity_back [OF bs par] on by simp
  qed
  then show "compress_v P = Some bs" and "v_on P" by simp_all
qed

subsection \<open>Square roots over the Pallas field\<close>

definition pow_fp :: "fe \<Rightarrow> u64 list \<Rightarrow> fe" where
  "pow_fp a e = foldl (\<lambda>r b. let r = fe_mul r r in if b then fe_mul r a else r) fe_one (bits_down e)"

definition eq_fp :: "fe \<Rightarrow> u64 list \<Rightarrow> bool" where
  "eq_fp a canon = (limbs (fe_to_canonical a) = canon)"

definition neg_one_fp :: fe where
  "neg_one_fp = fe_sub fe_zero fe_one"

text \<open>\<open>n\<close> candidates are left of the 64 from two upwards.\<close>

fun fp_find_nr :: "nat \<Rightarrow> u64 \<Rightarrow> fe option" where
  "fp_find_nr 0 c = None"
| "fp_find_nr (Suc n) c =
     (if eq_fp (pow_fp (fe_from_u64 c) P_HALF) P_P1 then Some (fe_from_u64 c) else fp_find_nr n (c + 1))"

text \<open>The inner loop: squarings until one, fewer than \<open>m\<close> of them.\<close>

function fp_order :: "nat \<Rightarrow> nat \<Rightarrow> fe \<Rightarrow> nat option" where
  "fp_order m i t2 =
     (if eq_fp t2 [1, 0, 0, 0] then Some i
      else if m \<le> i + 1 then None else fp_order m (i + 1) (fe_mul t2 t2))"
  by pat_completeness auto
termination
  by (relation "measure (\<lambda>(m, i, t2). m - i)") auto

declare fp_order.simps [simp del]

text \<open>The outer loop; \<open>n\<close> rounds are left of the guard's 64.\<close>

fun fp_ts_loop :: "nat \<Rightarrow> nat \<Rightarrow> fe \<Rightarrow> fe \<Rightarrow> fe \<Rightarrow> fe option" where
  "fp_ts_loop n m c t R =
     (if eq_fp t [1, 0, 0, 0] then Some R
      else case n of 0 \<Rightarrow> None
      | Suc n' \<Rightarrow>
        (case fp_order m 0 t of None \<Rightarrow> None
         | Some i \<Rightarrow>
           let b = ((\<lambda>b. fe_mul b b) ^^ (m - i - 1)) c;
               c2 = fe_mul b b
           in fp_ts_loop n' i c2 (fe_mul t c2) (fe_mul R b)))"

declare fp_ts_loop.simps [simp del]

definition fp_sqrt :: "fe \<Rightarrow> fe option" where
  "fp_sqrt a =
     (if fe_is_zero a then Some fe_zero
      else if \<not> eq_fp (pow_fp a P_HALF) [1, 0, 0, 0] then None
      else case fp_find_nr 64 2 of None \<Rightarrow> None
        | Some z \<Rightarrow> fp_ts_loop 64 32 (pow_fp z P_T) (pow_fp a P_T) (pow_fp a P_TH))"

subsection \<open>The 32-byte form of a Pallas point\<close>

definition compress_p :: "PtP \<Rightarrow> bytes option" where
  "compress_p P =
     (if \<not> pp_on_curve P then None
      else if pp_is_inf P then Some (replicate 32 0)
      else case pp_to_affine P of None \<Rightarrow> None
        | Some (x, y) \<Rightarrow> Some (put_parity (fe_to_le_bytes x) (limbs (fe_to_canonical y) ! 0)))"

definition decompress_p :: "bytes \<Rightarrow> PtP option" where
  "decompress_p inp =
     (if \<forall>i<32. inp ! i = 0 then Some PtP0
      else let want_odd = bit (inp ! 31) 7; xb = (take 32 inp)[31 := inp ! 31 AND 0x7F];
            r = fe_from_le_bytes xb
        in if \<not> ffb_ok r then None
           else let x = ffb_value r; x3 = fe_mul (fe_mul x x) x; rhs = fe_add x3 pp_curve_b
             in case fp_sqrt rhs of None \<Rightarrow> None
                | Some y \<Rightarrow>
                  Some (pp_from_affine x
                    (if limbs (fe_to_canonical y) ! 0 AND 1 \<noteq> (if want_odd then 1 else 0) then fe_sub fe_zero y else y)))"

subsection \<open>Pallas: roots\<close>

lemma pow_fp_dec:
  assumes "is_canonical a"
  shows "is_canonical (pow_fp a e)" and "fe_dec (pow_fp a e) = fe_dec a ^ limbs_val e"
  using pallas.power_fold_dec [OF canonical_one assms, of "bits_down e"]
    square_multiply [of "fe_dec a" 0 "bits_down e"] bits_down_value [of e]
  unfolding pow_fp_def by (simp_all add: fe_dec_one)

lemma fp_sq_canon: "is_canonical c \<Longrightarrow> is_canonical (((\<lambda>b. fe_mul b b) ^^ n) c)"
  by (induction n) simp_all

lemma fp_find_nr_canon: "fp_find_nr n c = Some z \<Longrightarrow> is_canonical z"
  by (induction n c rule: fp_find_nr.induct) (auto split: if_splits)

lemma eq_fp_one:
  assumes "is_canonical t" and "eq_fp t [1, 0, 0, 0]"
  shows "fe_dec t = 1"
proof -
  have "fe_val (fe_to_canonical t) = 1" using assms(2) by (simp add: eq_fp_def fe_val_def)
  then show ?thesis using of_nat_to_canonical [OF assms(1)] by simp
qed

lemma P_exponents: "2 * limbs_val P_TH = limbs_val P_T + 1"
  by (simp add: P_TH_def P_T_def P_P1_def MOD_def shr_limbs_def upt_rec Let_def)

text \<open>The loop keeps \<open>R^2 = t * a\<close>.\<close>

lemma fp_ts_loop_root:
  "fp_ts_loop n m c t R = Some r \<Longrightarrow> is_canonical c \<Longrightarrow> is_canonical t \<Longrightarrow> is_canonical R \<Longrightarrow>
    fe_dec R ^ 2 = fe_dec t * a \<Longrightarrow> is_canonical r \<and> fe_dec r ^ 2 = a"
proof (induction n m c t R rule: fp_ts_loop.induct)
  case (1 n m c t R)
  show ?case
  proof (cases "eq_fp t [1, 0, 0, 0]")
    case True
    then have "R = r" "fe_dec t = 1" using "1.prems"(1,3) by (simp_all add: fp_ts_loop.simps eq_fp_one)
    then show ?thesis using "1.prems" by simp
  next
    case False
    then obtain n' i where n: "n = Suc n'" and i: "fp_order m 0 t = Some i"
      using "1.prems"(1) by (auto simp: fp_ts_loop.simps [of n] split: nat.splits option.splits)
    let ?b = "((\<lambda>b. fe_mul b b) ^^ (m - i - 1)) c"
    have b: "is_canonical ?b" by (rule fp_sq_canon [OF "1.prems"(2)])
    have r: "fp_ts_loop n' i (fe_mul ?b ?b) (fe_mul t (fe_mul ?b ?b)) (fe_mul R ?b) = Some r"
      using "1.prems"(1) False i unfolding n by (simp add: fp_ts_loop.simps [of "Suc n'"] Let_def)
    have "fe_dec (fe_mul R ?b) ^ 2 = fe_dec R ^ 2 * (fe_dec ?b * fe_dec ?b)"
      using b "1.prems"(4) by (simp add: fe_dec_ops power2_eq_square ac_simps)
    then have "fe_dec (fe_mul R ?b) ^ 2 = fe_dec (fe_mul t (fe_mul ?b ?b)) * a"
      unfolding "1.prems"(5) using b "1.prems"(3) by (simp add: fe_dec_ops ac_simps)
    then show ?thesis using "1.IH" [OF False n i refl refl r] b "1.prems" by simp
  qed
qed

lemma fp_sqrt_root:
  assumes a: "is_canonical a" and r: "fp_sqrt a = Some r"
  shows "is_canonical r" and "fe_dec r ^ 2 = fe_dec a"
proof -
  have "is_canonical r \<and> fe_dec r ^ 2 = fe_dec a"
  proof (cases "fe_is_zero a")
    case True
    then show ?thesis using r a by (simp add: fp_sqrt_def fe_is_zero_dec fe_dec_ops canonical_zero)
  next
    case False
    then obtain z where z: "fp_find_nr 64 2 = Some z"
      and l: "fp_ts_loop 64 32 (pow_fp z P_T) (pow_fp a P_T) (pow_fp a P_TH) = Some r"
      using r by (auto simp: fp_sqrt_def split: option.splits if_splits)
    have "fe_dec (pow_fp a P_TH) ^ 2 = fe_dec a ^ (2 * limbs_val P_TH)"
      using pow_fp_dec(2) [OF a, of P_TH] by (simp only: mult.commute flip: power_mult)
    also have "\<dots> = fe_dec (pow_fp a P_T) * fe_dec a"
      unfolding P_exponents using pow_fp_dec(2) [OF a, of P_T] by simp
    finally show ?thesis
      using pow_fp_dec(1) a fp_find_nr_canon [OF z] by (intro fp_ts_loop_root [OF l]) simp_all
  qed
  then show "is_canonical r" and "fe_dec r ^ 2 = fe_dec a" by simp_all
qed

subsection \<open>Pallas: the wire form\<close>

lemma fp_neg_parity:
  assumes y: "is_canonical y" and nz: "\<not> fe_is_zero y"
  shows "limbs (fe_to_canonical (fe_sub fe_zero y)) ! 0 AND 1 = (if limbs (fe_to_canonical y) ! 0 AND 1 = 1 then 0 else 1)"
proof -
  let ?Y = "limbs (fe_to_canonical y)" and ?N = "limbs (fe_to_canonical (fe_sub fe_zero y))"
  have c: "is_canonical (fe_to_canonical y)" "is_canonical (fe_to_canonical (fe_sub fe_zero y))" using y by simp_all
  then have lt: "limbs_val ?Y < pallas_p" "limbs_val ?N < pallas_p" by (simp_all add: is_canonical_iff fe_val_def)
  have ne: "limbs e \<noteq> []" for e by (cases e) simp
  have "(of_nat (limbs_val ?N + limbs_val ?Y) :: pallas) = of_nat 0"
    using y of_nat_to_canonical [of y] of_nat_to_canonical [of "fe_sub fe_zero y"] by (simp add: fe_dec_ops flip: fe_val_def)
  then have z: "(limbs_val ?N + limbs_val ?Y) mod pallas_p = 0" unfolding of_nat_pallas by simp
  have "limbs_val ?Y \<noteq> 0"
  proof
    assume "limbs_val ?Y = 0"
    then have "fe_dec y = 0" using of_nat_to_canonical [OF y] by (simp add: fe_val_def)
    then show False using nz y by (simp add: fe_is_zero_dec)
  qed
  then have "limbs_val ?N + limbs_val ?Y = pallas_p" by (rule mod_sum_zero [OF lt(2,1) z])
  moreover have "odd pallas_p" by (simp add: pallas_p_eq)
  ultimately have "odd (limbs_val ?N) \<longleftrightarrow> even (limbs_val ?Y)" by (metis even_add)
  then show ?thesis by (simp add: low_bit ne)
qed

theorem decompress_compress_p:
  assumes bs: "length bs = 32" and P: "decompress_p bs = Some P" and nz: "pp_is_inf P \<or> \<not> fe_is_zero (pay P)"
  shows "compress_p P = Some bs" and "pp_on P"
proof -
  have "compress_p P = Some bs \<and> pp_on P"
  proof (cases "\<forall>i<32. bs ! i = 0")
    case True
    then have "bs = replicate 32 0" using bs by (simp add: list_eq_iff_nth_eq)
    moreover have P0: "P = PtP0" using P True by (simp add: decompress_p_def)
    moreover have "pp_on_curve PtP0" "pp_is_inf PtP0"
      by (simp_all add: pp_on_curve_def pp_is_inf_def PtP0_def fe_is_zero_def fe_zero_def)
    ultimately show ?thesis by (simp add: compress_p_def)
  next
    case False
    let ?xb = "(take 32 bs)[31 := bs ! 31 AND 0x7F]"
    define x where "x = ffb_value (fe_from_le_bytes ?xb)"
    obtain y0 where x: "ffb_ok (fe_from_le_bytes ?xb)"
      and y0: "fp_sqrt (fe_add (fe_mul (fe_mul x x) x) pp_curve_b) = Some y0"
      and Pd: "P = pp_from_affine x (if limbs (fe_to_canonical y0) ! 0 AND 1 \<noteq> (if bit (bs ! 31) 7 then 1 else 0) then fe_sub fe_zero y0 else y0)"
      using P False unfolding decompress_p_def x_def by (auto simp: Let_def split: option.splits if_splits)
    have xc: "is_canonical x" "fe_to_le_bytes x = ?xb" using fe_to_from_bytes [OF _ x] bs by (simp_all add: x_def)
    have bc: "is_canonical pp_curve_b" "fe_dec pp_curve_b = 5" by (simp_all add: pp_curve_b_def pp_small)
    note r = fp_sqrt_root [OF _ y0]
    have yc: "is_canonical y0" "fe_dec y0 ^ 2 = fe_dec x ^ 3 + 5"
      using r xc bc by (simp_all add: fe_dec_ops power3_eq_cube)
    define y where "y = (if limbs (fe_to_canonical y0) ! 0 AND 1 \<noteq> (if bit (bs ! 31) 7 then 1 else 0) then fe_sub fe_zero y0 else y0)"
    have Py: "P = pp_from_affine x y" by (simp add: Pd y_def)
    have y: "is_canonical y" "fe_dec y ^ 2 = fe_dec x ^ 3 + 5" using yc by (auto simp: y_def fe_dec_ops)
    then have on: "pp_on P" using xc by (simp add: Py pp_on_from_affine)
    have ni: "\<not> pp_is_inf P" by (simp add: Py pp_is_inf_def pp_from_affine_def fe_is_zero_def fe_one_def R_ONE_def fe_of_limbs_def)
    then have "\<not> fe_is_zero y" using nz by (simp add: Py pp_from_affine_def)
    then have nz0: "\<not> fe_is_zero y0" using yc(1) y(1) by (auto simp: y_def fe_is_zero_dec fe_dec_ops split: if_splits)
    have "limbs (fe_to_canonical y0) \<noteq> []" by (cases "fe_to_canonical y0") simp
    then have b0: "limbs (fe_to_canonical y0) ! 0 AND 1 = 0 \<or> limbs (fe_to_canonical y0) ! 0 AND 1 = 1" by (simp add: low_bit)
    then have par: "limbs (fe_to_canonical y) ! 0 AND 1 = (if bit (bs ! 31) 7 then 1 else 0)"
      using fp_neg_parity [OF yc(1) nz0] by (auto simp: y_def)
    have "compress_p P = Some (put_parity ?xb (limbs (fe_to_canonical y) ! 0))"
      using on ni pp_onD(1-3) [OF on] pp_to_affine_from [OF xc(1) y(1)] xc(2)
      by (simp add: compress_p_def pp_on_curve_iff Py)
    then show ?thesis using put_parity_back [OF bs par] on by simp
  qed
  then show "compress_p P = Some bs" and "pp_on P" by simp_all
qed

subsection \<open>The 48-byte form of G1\<close>

definition g1_compress48 :: "Pt \<Rightarrow> bytes option" where
  "g1_compress48 P =
     (if PisInf P then Some (replicate 48 0)
      else case to_affine P of None \<Rightarrow> None
        | Some (xa, ya) \<Rightarrow>
          let out = limbs_to_bytes xa in Some (out[47 := (out ! 47 AND 0x01) OR parity_bit (ya ! 0)]))"

text \<open>The outer option is the process that ends in the square root, the inner one the rejection.\<close>

definition g1_decompress48 :: "bytes \<Rightarrow> Pt option option" where
  "g1_decompress48 inp =
     (if \<forall>i<48. inp ! i = 0 then Some (Some Pt0)
      else let want_odd = bit (inp ! 47) 7; xb = (take 48 inp)[47 := inp ! 47 AND 0x7F];
               xa = map (\<lambda>l. le_word (take 8 (drop (8 * l) xb))) [0..<6]
        in if 0 \<le> bn_cmp xa (cm QC) 6 then Some None
           else let Mx = mfrom QC xa;
                    x3 = mmul QC (mmul QC Mx Mx) Mx;
                    rhs = madd QC x3 (cxb CX);
                    res = mpow QC rhs (cxhalfq CX)
             in if mto QC res \<noteq> fe6_small 1 then Some None
                else case tonelli_q (mto QC rhs) of None \<Rightarrow> None
                  | Some y \<Rightarrow>
                    Some (Some (from_affine xa
                      (if y ! 0 AND 1 \<noteq> (if want_odd then 1 else 0)
                       then mto QC (msub QC (bn_clr 6) (mfrom QC y)) else y))))"

lemma to_affine_from:
  assumes "q_canon x" and "q_canon y"
  shows "to_affine (from_affine x y) = Some (x, y)"
proof -
  have one: "mpow QC Q_R1 e = Q_R1" for e
    using mpow_canon_dec [OF fqk.c_one, of e] fqk.c_one fqk.dec_one by (intro fqk.dec_inj) simp_all
  have ni: "\<not> bn_isz Q_R1" by (simp add: bn_isz_val Q_R1_val bls_q_def)
  have m: "mmul QC a Q_R1 = a" if "q_canon a" for a using fqk.mul_one [OF that] by simp
  show ?thesis using assms ni fqk.c_one by (simp add: to_affine_def from_affine_def PisInf_def Let_def one m mto_mfrom)
qed

lemma limbs_six_bytes:
  assumes "length bs = 48"
  shows "limbs_to_bytes (map (\<lambda>l. le_word (take 8 (drop (8 * l) bs)) :: u64) [0..<6]) = bs"
proof -
  have piece: "le_bytes 8 (le_word (take 8 (drop k bs)) :: u64) = take 8 (drop k bs)" if "k \<le> 40" for k
    using that assms by (intro le_bytes_le_word) simp_all
  have "concat (map (\<lambda>l. take 8 (drop (8 * l) bs)) [0..<n]) = take (8 * n) bs" if "n \<le> 6" for n
    using that
  proof (induction n)
    case (Suc n)
    have "take (8 * Suc n) bs = take (8 * n) bs @ take 8 (drop (8 * n) bs)"
      using take_add [of "8 * n" 8 bs] by (simp add: add.commute)
    then show ?case using Suc by simp
  qed simp
  from this [of 6] have "concat (map (\<lambda>l. take 8 (drop (8 * l) bs)) [0..<6]) = bs" using assms by simp
  moreover have "map (\<lambda>l. le_bytes 8 (le_word (take 8 (drop (8 * l) bs)) :: u64)) [0..<6] = map (\<lambda>l. take 8 (drop (8 * l) bs)) [0..<6]"
    by (rule map_cong [OF refl]) (simp add: piece)
  ultimately show ?thesis by (simp only: limbs_to_bytes_def map_map comp_def)
qed

lemma q_neg_parity:
  assumes y: "q_canon y" and nz: "\<not> bn_isz y"
  shows "mto QC (msub QC (bn_clr 6) (mfrom QC y)) ! 0 AND 1 = (if y ! 0 AND 1 = 1 then 0 else 1)"
    and "q_canon (mto QC (msub QC (bn_clr 6) (mfrom QC y)))"
    and "(of_nat (limbs_val (mto QC (msub QC (bn_clr 6) (mfrom QC y)))) :: fq) = - of_nat (limbs_val y)"
proof -
  let ?N = "mto QC (msub QC (bn_clr 6) (mfrom QC y))"
  show c: "q_canon ?N" using y fqk.c_zero by simp
  show v: "(of_nat (limbs_val ?N) :: fq) = - of_nat (limbs_val y)"
    using y fqk.c_zero by (simp add: q_val_to q_dec_ops q_dec_from)
  have lt: "limbs_val ?N < bls_q" "limbs_val y < bls_q" and ne: "?N \<noteq> []" "y \<noteq> []"
    using c y by (auto simp: q_canon_def)
  have "(of_nat (limbs_val ?N + limbs_val y) :: fq) = of_nat 0" using v by simp
  then have "(limbs_val ?N + limbs_val y) mod bls_q = 0" unfolding of_nat_fq by simp
  moreover have "limbs_val y \<noteq> 0" using nz by (simp add: bn_isz_val)
  ultimately have "limbs_val ?N + limbs_val y = bls_q" by (intro mod_sum_zero [OF lt])
  moreover have "odd bls_q" by (simp add: bls_q_def)
  ultimately have "odd (limbs_val ?N) \<longleftrightarrow> even (limbs_val y)" by (metis even_add)
  then show "?N ! 0 AND 1 = (if y ! 0 AND 1 = 1 then 0 else 1)" by (simp add: low_bit ne)
qed

text \<open>A reduced abscissa leaves the bits 1 to 6 of the last byte clear.\<close>

lemma last_byte_clear:
  assumes bs: "length bs = 48" and lt: "limbs_val (map (\<lambda>l. le_word (take 8 (drop (8 * l) bs)) :: u64) [0..<6]) < bls_q"
  shows "bs ! 47 AND 0x01 = bs ! 47 \<or> bit (bs ! 47) 7"
proof -
  let ?xa = "map (\<lambda>l. le_word (take 8 (drop (8 * l) bs)) :: u64) [0..<6]"
  let ?w = "le_word (take 8 (drop 40 bs)) :: u64"
  have "limbs_val ?xa = limbs_val (take 5 ?xa) + 2 ^ 320 * unat ?w"
    using limbs_val_drop [of ?xa 5] by (simp add: upt_rec)
  then have "2 ^ 320 * unat ?w < 2 ^ 320 * 2 ^ 57" using lt by (simp add: bls_q_def)
  then have w: "unat ?w < 2 ^ 57" by simp
  have clear: "\<not> bit (bs ! 47) i" if "1 \<le> i" "i < 8" for i
  proof -
    have "unat ?w < 2 ^ (56 + i)" using w that(1) power_increasing [of 57 "56 + i" "2::nat"] by simp
    then have "\<not> bit (unat ?w) (56 + i)" by (simp add: bit_iff_odd)
    then have "\<not> bit ?w (56 + i)" using that(2) by (simp add: bit_unsigned_iff)
    moreover have "(56 + i) div 8 = 7" "(56 + i) mod 8 = i" using that(2) by presburger+
    ultimately show ?thesis using bs that(2) by (simp add: bit_le_word)
  qed
  have "bs ! 47 AND 0x01 = bs ! 47"
  proof (rule bit_word_eqI)
    fix i assume "i < LENGTH(8)"
    then show "bit (bs ! 47 AND 0x01) i = bit (bs ! 47) i"
      using clear [of i] by (cases "i = 0") (auto simp: bit_and_iff bit_1_iff)
  qed
  then show ?thesis ..
qed

theorem decompress_compress48:
  assumes bs: "length bs = 48" and P: "g1_decompress48 bs = Some (Some P)" and nz: "PisInf P \<or> \<not> bn_isz (py P)"
  shows "g1_compress48 P = Some bs" and "g1_on P"
proof -
  have "g1_compress48 P = Some bs \<and> g1_on P"
  proof (cases "\<forall>i<48. bs ! i = 0")
    case True
    then have "bs = replicate 48 0" using bs by (simp add: list_eq_iff_nth_eq)
    moreover have "P = Pt0" using P True by (simp add: g1_decompress48_def)
    moreover have "PisInf Pt0" by (simp add: PisInf_def Pt0_def bn_isz_val)
    ultimately show ?thesis by (simp add: g1_compress48_def)
  next
    case False
    define xb where "xb = (take 48 bs)[47 := bs ! 47 AND 0x7F]"
    define xa where "xa = map (\<lambda>l. le_word (take 8 (drop (8 * l) xb)) :: u64) [0..<6]"
    define rhs where "rhs = madd QC (mmul QC (mmul QC (mfrom QC xa) (mfrom QC xa)) (mfrom QC xa)) (cxb CX)"
    obtain y0 where cmp: "\<not> 0 \<le> bn_cmp xa (cm QC) 6" and y0: "tonelli_q (mto QC rhs) = Some y0"
      and Pd: "P = from_affine xa (if y0 ! 0 AND 1 \<noteq> (if bit (bs ! 47) 7 then 1 else 0) then mto QC (msub QC (bn_clr 6) (mfrom QC y0)) else y0)"
      using P False unfolding g1_decompress48_def Let_def xb_def [symmetric] xa_def [symmetric] rhs_def [symmetric]
      by (auto split: option.splits if_splits)
    have lb: "length xb = 48" using bs by (simp add: xb_def)
    have lx: "length xa = 6" by (simp add: xa_def)
    have lt: "limbs_val xa < bls_q"
      using cmp geq_loop_val [of 6 xa Q_MOD] lx by (simp add: bn_cmp_geq Q_MOD_val)
    then have xc: "q_canon xa" using lx by (simp add: q_canon_def)
    have bc: "q_canon (cxb CX)" "fqk.dec (cxb CX) = 1"
    proof -
      have b: "cxb CX = mfrom QC (fe6_small 1)" by (simp add: CX_def fe6_small_def)
      show "q_canon (cxb CX)" "fqk.dec (cxb CX) = 1" unfolding b by (simp_all add: q_dec_from fe6_small_val)
    qed
    have rc: "q_canon rhs" "fqk.dec rhs = of_nat (limbs_val xa) ^ 3 + 1"
      using xc bc by (simp_all add: rhs_def q_dec_ops q_dec_from power3_eq_cube)
    have yc: "q_canon y0" and sq: "(limbs_val y0 * limbs_val y0) mod bls_q = limbs_val (mto QC rhs)"
      using tonelli_q_root [OF _ y0] rc by simp_all
    have "limbs_val (mto QC rhs) < bls_q" using q_canon_to [OF rc(1)] by (simp add: q_canon_def)
    then have "(of_nat (limbs_val y0 * limbs_val y0) :: fq) = of_nat (limbs_val (mto QC rhs))"
      unfolding of_nat_fq sq by simp
    then have yd: "(of_nat (limbs_val y0) :: fq) ^ 2 = of_nat (limbs_val xa) ^ 3 + 1"
      using rc by (simp add: q_val_to power2_eq_square)
    define y where "y = (if y0 ! 0 AND 1 \<noteq> (if bit (bs ! 47) 7 then 1 else 0) then mto QC (msub QC (bn_clr 6) (mfrom QC y0)) else y0)"
    have Py: "P = from_affine xa y" by (simp add: Pd y_def)
    have zero: "bn_isz y0 \<Longrightarrow> bn_isz (py P)"
    proof -
      assume "bn_isz y0"
      then have "(of_nat (limbs_val y0) :: fq) = 0" by (simp add: bn_isz_val)
      then have "fqk.dec (py P) = 0" using yc fqk.c_zero
        by (auto simp: Pd from_affine_def q_dec_from q_val_to q_dec_ops)
      moreover have "q_canon (py P)" using yc fqk.c_zero by (simp add: Pd from_affine_def)
      ultimately have "py P = bn_clr 6" using fqk.dec_inj [OF _ fqk.c_zero] fqk.dec_zero by simp
      then show "bn_isz (py P)" by (simp add: bn_isz_val bn_clr_def)
    qed
    have ni: "\<not> PisInf P" by (simp add: Py from_affine_def PisInf_def bn_isz_val Q_R1_val bls_q_def)
    then have nz0: "\<not> bn_isz y0" using nz zero by blast
    note np = q_neg_parity [OF yc nz0]
    have y: "q_canon y" "(of_nat (limbs_val y) :: fq) ^ 2 = of_nat (limbs_val xa) ^ 3 + 1"
      using yc yd np(2,3) by (auto simp: y_def)
    then have on: "g1_on P"
      using xc fqk.c_one fqk.dec_one by (simp add: Py g1_on_def from_affine_def q_dec_from)
    have "y0 \<noteq> []" using yc by (auto simp: q_canon_def)
    then have par: "y ! 0 AND 1 = (if bit (bs ! 47) 7 then 1 else 0)"
      using np(1) by (auto simp: y_def low_bit)
    have xbytes: "limbs_to_bytes xa = xb" unfolding xa_def by (rule limbs_six_bytes [OF lb])
    have m: "(0x7F :: u8) = mask 7" by (simp add: mask_eq_exp_minus_1)
    have "xb ! 47 AND 0x01 = xb ! 47"
      using last_byte_clear [OF lb lt [unfolded xa_def]] bs by (auto simp: xb_def m bit_and_iff bit_mask_iff)
    then have "g1_compress48 P = Some (xb[47 := xb ! 47 OR parity_bit (y ! 0)])"
      using ni to_affine_from [OF xc y(1)] by (simp add: g1_compress48_def Py xbytes Let_def)
    also have "xb ! 47 OR parity_bit (y ! 0) = bs ! 47"
      using byte_split [OF par] bs by (simp add: xb_def m and.assoc)
    also have "xb[47 := bs ! 47] = bs" using bs by (simp add: xb_def)
    finally show ?thesis using on by simp
  qed
  then show "g1_compress48 P = Some bs" and "g1_on P" by simp_all
qed

text \<open>
  The point \<open>(0, -1)\<close> of the curve, outside the subgroup of prime order, has an even ordinate: its
  encoding is the one of infinity.
\<close>

definition three_torsion :: Pt where
  "three_torsion = from_affine (bn_clr 6) (fst (bn_sub 0 Q_MOD (fe6_small 1)))"

lemma compress48_collision:
  "g1_on three_torsion" "\<not> PisInf three_torsion" "g1_compress48 three_torsion = g1_compress48 Pt0"
proof -
  let ?y = "fst (bn_sub 0 Q_MOD (fe6_small 1))"
  have y: "limbs_val ?y = bls_q - 1" "length ?y = 6"
    using bn_sub_exact [of Q_MOD "fe6_small 1"] by (simp_all add: fe6_small_val Q_MOD_val bls_q_def)
  then have yc: "q_canon ?y" by (simp add: q_canon_def bls_q_def)
  have xc: "q_canon (bn_clr 6)" by (rule fqk.c_zero)
  have neg: "(of_nat (bls_q - 1) :: fq) = - 1" by (simp add: of_nat_diff fqk.of_nat_modulus bls_q_pos Suc_le_eq)
  show "g1_on three_torsion"
    using xc yc y(1) neg fqk.c_one fqk.dec_one
    by (simp add: three_torsion_def g1_on_def from_affine_def q_dec_from)
  show ni: "\<not> PisInf three_torsion"
    by (simp add: three_torsion_def from_affine_def PisInf_def bn_isz_val Q_R1_val bls_q_def)
  have "?y \<noteq> []" "even (bls_q - 1)" using y(2) by (auto simp: bls_q_def)
  then have "?y ! 0 AND 1 = 0" using y(1) by (simp add: low_bit)
  then have p: "parity_bit (?y ! 0) = 0" by (simp add: parity_bit_def)
  have "limbs_to_bytes (bn_clr 6) = replicate 48 0"
    by (simp add: limbs_to_bytes_def bn_clr_def le_bytes_def eval_nat_numeral)
  then have "g1_compress48 three_torsion = Some ((replicate 48 0)[47 := 0])"
    using ni to_affine_from [OF xc yc] p by (simp add: g1_compress48_def three_torsion_def)
  also have "(replicate 48 (0::u8))[47 := 0] = replicate 48 0" by (simp add: list_eq_iff_nth_eq nth_list_update)
  finally show "g1_compress48 three_torsion = g1_compress48 Pt0"
    by (simp add: g1_compress48_def PisInf_def Pt0_def bn_isz_val)
qed

end
