(* ===== verification/Claims.thy ===== *)
theory Claims
  imports Shard
begin

text \<open>
  The life of a workload: the work record and the binding of its inputs (\<open>WorkItem\<close> of
  \<open>src/include/hsma/explorer.hpp\<close>), the tick of the node that computes, proves and folds it
  (\<open>src/tools/epoch_node.cpp\<close>), and the two-tier verification of the claims it makes
  (\<open>src/include/hsma/verifier.hpp\<close>). A result without definition in the code is \<^const>\<open>None\<close>.
\<close>

subsection \<open>Work records\<close>

datatype WorkStatus = QUEUED | PROCESSING | DONE | FAILED

record WorkItem =
  wi_id :: u64
  wi_n :: u64
  wi_status :: WorkStatus
  wi_submitted_at :: u64
  wi_completed_at :: u64
  wi_verified :: bool
  wi_has_inputs :: bool
  wi_A_in :: "fe list"
  wi_B_in :: "fe list"
  wi_tag_a :: u64
  wi_tag_b :: u64
  wi_has_result :: bool
  wi_result_bytes :: bytes
  wi_ic :: bytes
  wi_model_id :: u64
  wi_commitment_checked :: bool

definition fes_bytes :: "fe list \<Rightarrow> bytes" where
  "fes_bytes v = concat (map fe_to_le_bytes v)"

definition bind_faucet_inputs :: "WorkItem \<Rightarrow> fe list \<Rightarrow> fe list \<Rightarrow> WorkItem" where
  "bind_faucet_inputs w A B =
     w\<lparr>wi_A_in := A, wi_B_in := B, wi_has_inputs := True, wi_ic := sha256 (fes_bytes A @ fes_bytes (take (length A) B))\<rparr>"

subsection \<open>The tick of the node\<close>

text \<open>The generator of self-made inputs: elements and the state it stops in.\<close>

fun grnd_fes :: "nat \<Rightarrow> u64 \<Rightarrow> fe list \<times> u64" where
  "grnd_fes 0 st = ([], st)"
| "grnd_fes (Suc n) st =
     (let st = xorshift_step st; (xs, st') = grnd_fes n st in (fe_from_u64 (st * SAMPLE_MUL) # xs, st'))"

definition swap_gate :: "WorkItem \<Rightarrow> bool" where
  "swap_gate w \<longleftrightarrow> sha256 (fes_bytes (wi_A_in w) @ fes_bytes (wi_B_in w)) = wi_ic w"

text \<open>The record with its inputs bound, and the matrices that are multiplied.\<close>

definition work_inputs :: "WorkItem \<Rightarrow> nat \<Rightarrow> WorkItem \<times> fe list \<times> fe list" where
  "work_inputs w gn =
     (if wi_has_inputs w \<and> length (wi_A_in w) = gn * gn \<and> length (wi_B_in w) = gn * gn then (w, wi_A_in w, wi_B_in w)
      else if \<not> wi_has_inputs w then
        let (gA, st) = grnd_fes (gn * gn) (wi_id w * 7919 + 13); (gB, st') = grnd_fes (gn * gn) st
        in (bind_faucet_inputs w gA gB, gA, gB)
      else (w, replicate (gn * gn) fe_zero, replicate (gn * gn) fe_zero))"

definition claim_material :: "WorkItem \<Rightarrow> bytes" where
  "claim_material w =
     le_bytes 8 (wi_id w) @ le_bytes 8 (wi_n w) @ wi_ic w
     @ (if wi_result_bytes w \<noteq> [] then take 32 (wi_result_bytes w) else [])"

definition claim_payload :: "WorkItem \<Rightarrow> bytes" where
  "claim_payload w =
     sha256 (claim_material w) @ le_bytes 8 (wi_id w) @ [ucast (drop_bit 8 (wi_n w)), ucast (wi_n w AND 0xFF), 0xC1]"

text \<open>
  One record through the tick: the record afterwards, and the claim that is folded. The buffers hold
  \<open>gn * gn\<close> elements, a 32-bit product, which is too small from \<open>2 ^ 16\<close> on.
\<close>

definition process_work :: "Device option \<Rightarrow> u64 \<Rightarrow> WorkItem \<Rightarrow> (WorkItem \<times> bytes option) option" where
  "process_work dev now w =
     (let gn = unat (ucast (wi_n w) :: u32)
      in if gn \<ge> 2 ^ 16 then None
         else let (w, gA, gB) = work_inputs (w\<lparr>wi_status := PROCESSING\<rparr>) gn;
                  w = w\<lparr>wi_commitment_checked := swap_gate w\<rparr>
           in case gemm dev gA gB gn of None \<Rightarrow> None | Some (gpu, gC) \<Rightarrow>
              (let gvok = (verify_gemm_v2 (prove_gemm_v2 gA gB gC gn gn gn) gA gB gC
                           \<and> (wi_has_inputs w \<longrightarrow> wi_commitment_checked w));
                   w = w\<lparr>wi_status := if gvok then DONE else FAILED, wi_verified := gvok, wi_completed_at := now\<rparr>;
                   w = if gvok then w\<lparr>wi_has_result := True, wi_result_bytes := wi_result_bytes w @ fes_bytes gC\<rparr> else w
               in Some (w, if gvok \<and> wi_n w > 64 then Some (claim_payload w) else None)))"

record WorkState =
  ws_queue :: "WorkItem list"
  ws_done :: "u64 \<rightharpoonup> WorkItem"
  ws_claims :: "bytes list"

text \<open>One queued record per tick, the first one.\<close>

definition work_tick :: "Device option \<Rightarrow> u64 \<Rightarrow> WorkState \<Rightarrow> WorkState option" where
  "work_tick dev now s =
     (case find (\<lambda>w. wi_status w = QUEUED) (ws_queue s) of None \<Rightarrow> Some s
      | Some w \<Rightarrow>
          (case process_work dev now w of None \<Rightarrow> None
           | Some (w', c) \<Rightarrow>
               Some \<lparr>ws_queue = filter (\<lambda>x. wi_id x \<noteq> wi_id w') (ws_queue s),
                     ws_done = (ws_done s)(wi_id w' \<mapsto> w'),
                     ws_claims = ws_claims s @ (case c of None \<Rightarrow> [] | Some pl \<Rightarrow> [pl])\<rparr>))"

subsection \<open>Verification of a claim\<close>

definition VERIFIER_DOMAIN :: u64 where "VERIFIER_DOMAIN = 6216465335320134994"
definition TIER2_RUNG :: u64 where "TIER2_RUNG = 256"
definition DEFAULT_TIER2_BUDGET_MACS :: u64 where "DEFAULT_TIER2_BUDGET_MACS = 64000000"

record Outcome =
  oc_structure :: bool
  oc_identity_ok :: bool
  oc_ran :: bool
  oc_recompute_ok :: bool
  oc_pass :: bool
  oc_work_id :: u64
  oc_n :: u32
  oc_identity :: bytes

definition rederive_identity :: "WorkItem \<Rightarrow> bytes option" where
  "rederive_identity w =
     (if \<not> wi_has_inputs w \<or> length (wi_result_bytes w) < 32 then None
      else Some (sha256 (le_bytes 8 (wi_id w) @ le_bytes 8 (wi_n w) @ wi_ic w @ take 32 (wi_result_bytes w))))"

definition recompute_matches :: "Device option \<Rightarrow> WorkItem \<Rightarrow> bool option" where
  "recompute_matches dev w =
     (let n = unat (ucast (wi_n w) :: u32)
      in if n = 0 \<or> length (wi_A_in w) \<noteq> n * n \<or> length (wi_B_in w) \<noteq> n * n \<or> length (wi_result_bytes w) \<noteq> n * n * 32
         then Some False
         else map_option (\<lambda>(gpu, C). list_all (\<lambda>k. fe_to_le_bytes (C ! k) = take 32 (drop (k * 32) (wi_result_bytes w)))
                [0..<length C]) (gemm dev (wi_A_in w) (wi_B_in w) n))"

definition claim_wid :: "bytes \<Rightarrow> u64" where
  "claim_wid pl = le_word (take 8 (drop 32 pl))"

definition claim_structure :: "bytes \<Rightarrow> WorkItem \<Rightarrow> bool" where
  "claim_structure pl w \<longleftrightarrow>
     length pl \<ge> 43 \<and> pl ! 42 = 0xC1 \<and> claim_wid pl = wi_id w
     \<and> (push_bit 8 (ucast (pl ! 40)) OR ucast (pl ! 41) :: u32) = ucast (wi_n w)"

definition tier2_affordable :: "WorkItem \<Rightarrow> bool" where
  "tier2_affordable w \<longleftrightarrow>
     wi_n w \<le> TIER2_RUNG \<and> length (wi_A_in w) = unat (wi_n w) * unat (wi_n w)
     \<and> length (wi_B_in w) = unat (wi_n w) * unat (wi_n w)
     \<and> length (wi_result_bytes w) = unat (wi_n w) * unat (wi_n w) * 32"

definition verify_claim :: "Device option \<Rightarrow> bytes \<Rightarrow> WorkItem \<Rightarrow> Outcome option" where
  "verify_claim dev pl w =
     (let st = claim_structure pl w;
          idn = (if st then rederive_identity w else None);
          iok = (case idn of None \<Rightarrow> False | Some i \<Rightarrow> i = take 32 pl);
          ran = (st \<and> tier2_affordable w)
      in case (if ran then recompute_matches dev w else Some False) of None \<Rightarrow> None
         | Some rok \<Rightarrow>
             Some \<lparr>oc_structure = st, oc_identity_ok = iok, oc_ran = ran, oc_recompute_ok = rok,
               oc_pass = (st \<and> iok \<and> (\<not> ran \<or> rok)), oc_work_id = wi_id w, oc_n = ucast (wi_n w),
               oc_identity = (case idn of None \<Rightarrow> replicate 32 0 | Some i \<Rightarrow> i)\<rparr>)"

definition select_index :: "u64 list \<Rightarrow> nat \<Rightarrow> nat" where
  "select_index epoch_tail pool_size =
     (if pool_size = 0 then 0
      else let st = foldl (\<lambda>st k. st * SAMPLE_MUL + epoch_tail ! k) VERIFIER_DOMAIN [0..<4];
               st = xorshift_step st
           in unat ((st * SAMPLE_MUL) mod of_nat pool_size))"

subsection \<open>Verification of a pool\<close>

record PoolOutcome =
  pl_pool :: nat
  pl_structure_bad :: nat
  pl_unknown_work :: nat
  pl_tier1_ok :: nat
  pl_tier1_bad :: nat
  pl_tier2_ran :: nat
  pl_tier2_ok :: nat
  pl_tier2_bad :: nat
  pl_tier2_skipped :: nat
  pl_macs_spent :: u64
  pl_pass :: bool

definition pool_start :: "nat \<Rightarrow> PoolOutcome" where
  "pool_start n =
     \<lparr>pl_pool = n, pl_structure_bad = 0, pl_unknown_work = 0, pl_tier1_ok = 0, pl_tier1_bad = 0, pl_tier2_ran = 0,
      pl_tier2_ok = 0, pl_tier2_bad = 0, pl_tier2_skipped = 0, pl_macs_spent = 0, pl_pass = False\<rparr>"

text \<open>The part of the loop after the claim was verified, then one claim of the loop.\<close>

definition pool_count :: "u64 \<Rightarrow> Outcome \<Rightarrow> PoolOutcome \<times> bool \<Rightarrow> PoolOutcome \<times> bool" where
  "pool_count budget out oc =
     (let (o1, clean) = oc;
          (o1, clean) = (if oc_identity_ok out then (o1\<lparr>pl_tier1_ok := pl_tier1_ok o1 + 1\<rparr>, clean)
                         else (o1\<lparr>pl_tier1_bad := pl_tier1_bad o1 + 1\<rparr>, False))
      in if \<not> oc_ran out then (o1, clean)
         else let macs = ucast (oc_n out) * ucast (oc_n out) * ucast (oc_n out)
           in if pl_macs_spent o1 + macs \<le> budget then
                let o1 = o1\<lparr>pl_tier2_ran := pl_tier2_ran o1 + 1, pl_macs_spent := pl_macs_spent o1 + macs\<rparr>
                in if oc_recompute_ok out then (o1\<lparr>pl_tier2_ok := pl_tier2_ok o1 + 1\<rparr>, clean)
                   else (o1\<lparr>pl_tier2_bad := pl_tier2_bad o1 + 1\<rparr>, False)
              else (o1\<lparr>pl_tier2_skipped := pl_tier2_skipped o1 + 1\<rparr>, clean))"

definition pool_claim :: "Device option \<Rightarrow> (u64 \<rightharpoonup> WorkItem) \<Rightarrow> u64 \<Rightarrow> PoolOutcome \<times> bool \<Rightarrow> bytes \<Rightarrow> (PoolOutcome \<times> bool) option" where
  "pool_claim dev wdone budget oc pl =
     (let (o1, clean) = oc
      in if length pl < 43 \<or> pl ! 42 \<noteq> 0xC1 then Some (o1\<lparr>pl_structure_bad := pl_structure_bad o1 + 1\<rparr>, False)
         else case wdone (claim_wid pl) of
           None \<Rightarrow> Some (o1\<lparr>pl_unknown_work := pl_unknown_work o1 + 1\<rparr>, False)
         | Some w \<Rightarrow>
             (case verify_claim dev pl w of None \<Rightarrow> None
              | Some out \<Rightarrow>
                  if \<not> oc_structure out then Some (o1\<lparr>pl_structure_bad := pl_structure_bad o1 + 1\<rparr>, False)
                  else Some (pool_count budget out oc)))"

fun pool_loop :: "Device option \<Rightarrow> (u64 \<rightharpoonup> WorkItem) \<Rightarrow> u64 \<Rightarrow> PoolOutcome \<times> bool \<Rightarrow> bytes list \<Rightarrow> (PoolOutcome \<times> bool) option" where
  "pool_loop dev wdone budget oc [] = Some oc"
| "pool_loop dev wdone budget oc (pl # pls) =
     (case pool_claim dev wdone budget oc pl of None \<Rightarrow> None | Some oc' \<Rightarrow> pool_loop dev wdone budget oc' pls)"

definition verify_pool :: "Device option \<Rightarrow> bytes list \<Rightarrow> (u64 \<rightharpoonup> WorkItem) \<Rightarrow> u64 \<Rightarrow> PoolOutcome option" where
  "verify_pool dev claims wdone budget =
     (if claims = [] then Some (pool_start 0)
      else map_option (\<lambda>(o1, clean). o1\<lparr>pl_pass := clean\<rparr>)
        (pool_loop dev wdone budget (pool_start (length claims), True) claims))"

subsection \<open>Serialised elements\<close>

lemma length_fe_blob [simp]: "length (fe_to_le_bytes x) = 32"
  by (simp add: fe_to_le_bytes_def length_limbs_to_bytes)

lemma length_fes_bytes [simp]: "length (fes_bytes v) = 32 * length v"
  by (induction v) (simp_all add: fes_bytes_def)

lemma fes_bytes_at: "k < length v \<Longrightarrow> take 32 (drop (k * 32) (fes_bytes v)) = fe_to_le_bytes (v ! k)"
proof (induction v arbitrary: k)
  case (Cons x v)
  then show ?case by (cases k) (simp_all add: fes_bytes_def)
qed simp

lemma fes_bytes_cover: "length bs = 32 * length v \<Longrightarrow> (\<forall>k < length v. fe_to_le_bytes (v ! k) = take 32 (drop (k * 32) bs)) \<Longrightarrow> bs = fes_bytes v"
proof (induction v arbitrary: bs)
  case (Cons x v)
  have "fe_to_le_bytes x = take 32 bs" using Cons.prems(2) by force
  moreover have "drop 32 bs = fes_bytes v"
  proof (rule Cons.IH)
    show "\<forall>k < length v. fe_to_le_bytes (v ! k) = take 32 (drop (k * 32) (drop 32 bs))"
    proof (intro allI impI)
      fix k assume "k < length v"
      then show "fe_to_le_bytes (v ! k) = take 32 (drop (k * 32) (drop 32 bs))"
        using Cons.prems(2) [rule_format, of "Suc k"] by (simp add: add.commute)
    qed
  qed (use Cons.prems(1) in simp)
  ultimately show ?case by (simp add: fes_bytes_def) (metis append_take_drop_id)
qed (simp add: fes_bytes_def)

subsection \<open>The device\<close>

text \<open>A device whose launches cover the matrices that are sent to it.\<close>

definition device_fits :: "Device option \<Rightarrow> nat \<Rightarrow> bool" where
  "device_fits dev n \<longleftrightarrow> (case dev of None \<Rightarrow> True | Some d \<Rightarrow> length (dv_memory d) = n * n \<and> set (dv_order d) = launch_grid n)"

lemma gemm_fits:
  assumes "canon A" "canon B" "length A = n * n" "length B = n * n" "device_fits dev n"
  obtains g where "gemm dev A B n = Some (g, gemm_cpu A B n)"
  using gemm_backends_agree [OF assms(1-4), of dev] assms(5) by (fastforce simp: device_fits_def)

lemma grnd_canon: "canon (fst (grnd_fes n st)) \<and> length (fst (grnd_fes n st)) = n"
  by (induction n arbitrary: st) (auto simp: canon_def Let_def split: prod.splits, metis fst_conv, metis fst_conv)

subsection \<open>What the tick makes\<close>

text \<open>A record as the submission interface creates it.\<close>

definition item_wf :: "WorkItem \<Rightarrow> bool" where
  "item_wf w \<longleftrightarrow>
     wi_n w < 2 ^ 16 \<and> wi_result_bytes w = []
     \<and> (wi_has_inputs w \<longrightarrow> canon (wi_A_in w) \<and> canon (wi_B_in w)
          \<and> length (wi_A_in w) = unat (wi_n w) * unat (wi_n w) \<and> length (wi_B_in w) = unat (wi_n w) * unat (wi_n w))"

lemma item_n:
  assumes "item_wf w"
  shows "unat (ucast (wi_n w) :: u32) = unat (wi_n w)" "unat (wi_n w) < 2 ^ 16"
proof -
  show "unat (wi_n w) < 2 ^ 16" using assms by (simp add: item_wf_def word_less_nat_alt)
  then show "unat (ucast (wi_n w) :: u32) = unat (wi_n w)" by (simp add: unsigned_ucast_eq take_bit_eq_mod)
qed

lemma work_inputs_wf:
  assumes "item_wf w" "work_inputs w (unat (wi_n w)) = (w', A, B)"
  shows "canon A" "canon B" "length A = unat (wi_n w) * unat (wi_n w)" "length B = unat (wi_n w) * unat (wi_n w)"
    and "wi_A_in w' = A" "wi_B_in w' = B" "wi_has_inputs w'" "wi_id w' = wi_id w" "wi_n w' = wi_n w" "wi_result_bytes w' = []"
    and "wi_has_inputs w \<Longrightarrow> w' = w" and "\<not> wi_has_inputs w \<Longrightarrow> swap_gate w'"
proof -
  let ?n = "unat (wi_n w) * unat (wi_n w)"
  obtain gA st where a: "grnd_fes ?n (wi_id w * 7919 + 13) = (gA, st)" by fastforce
  obtain gB st' where b: "grnd_fes ?n st = (gB, st')" by fastforce
  have "canon gA" "length gA = ?n" "canon gB" "length gB = ?n"
    using grnd_canon [of ?n "wi_id w * 7919 + 13"] grnd_canon [of ?n st] by (simp_all add: a b)
  then show "canon A" "canon B" "length A = ?n" "length B = ?n"
    "wi_A_in w' = A" "wi_B_in w' = B" "wi_has_inputs w'" "wi_id w' = wi_id w" "wi_n w' = wi_n w" "wi_result_bytes w' = []"
    "wi_has_inputs w \<Longrightarrow> w' = w" "\<not> wi_has_inputs w \<Longrightarrow> swap_gate w'"
    using assms a b by (auto simp: work_inputs_def item_wf_def bind_faucet_inputs_def swap_gate_def Let_def split: if_splits)
qed

text \<open>
  The record that leaves the tick: both kinds of work pass through one gate, and verified work carries
  the product of its inputs.
\<close>

lemma process_work_wf:
  assumes w: "item_wf w" and d: "device_fits dev (unat (wi_n w))"
  obtains w' c A B where "process_work dev now w = Some (w', c)"
    and "canon A" "canon B" "length A = unat (wi_n w) * unat (wi_n w)" "length B = unat (wi_n w) * unat (wi_n w)"
    and "wi_A_in w' = A" "wi_B_in w' = B" "wi_has_inputs w'" "wi_id w' = wi_id w" "wi_n w' = wi_n w"
    and "wi_verified w' \<longleftrightarrow> swap_gate w'" and "\<not> wi_has_inputs w \<Longrightarrow> wi_verified w'"
    and "wi_verified w' \<Longrightarrow> wi_result_bytes w' = fes_bytes (gemm_cpu A B (unat (wi_n w)))"
    and "c = (if wi_verified w' \<and> wi_n w > 64 then Some (claim_payload w') else None)"
    and "wi_has_inputs w \<Longrightarrow> wi_verified w' \<longleftrightarrow> swap_gate w" and "wi_status w' = (if wi_verified w' then DONE else FAILED)"
proof -
  let ?n = "unat (wi_n w)" and ?w = "w\<lparr>wi_status := PROCESSING\<rparr>"
  note n = item_n [OF w]
  have w1: "item_wf ?w" "unat (wi_n ?w) = ?n" using w by (simp_all add: item_wf_def)
  obtain w2 A B where i: "work_inputs ?w ?n = (w2, A, B)" by (rule prod_cases3)
  note I = work_inputs_wf [OF w1(1) i [folded w1(2)], unfolded w1(2)]
  let ?w3 = "w2\<lparr>wi_commitment_checked := swap_gate w2\<rparr>"
  obtain g where g: "gemm dev A B ?n = Some (g, gemm_cpu A B ?n)" using gemm_fits [OF I(1-4) d] .
  have "is_product A B (gemm_cpu A B ?n) ?n ?n ?n" using gemm_cpu_product I(1-4) by blast
  then have v: "verify_gemm_v2 (prove_gemm_v2 A B (gemm_cpu A B ?n) ?n ?n ?n) A B (gemm_cpu A B ?n)"
    using n(2) by (intro honest_gemm_v2) simp_all
  let ?ok = "swap_gate w2"
  define w4 where "w4 = ?w3\<lparr>wi_status := if ?ok then DONE else FAILED, wi_verified := ?ok, wi_completed_at := now\<rparr>"
  define w5 where "w5 = (if ?ok then w4\<lparr>wi_has_result := True, wi_result_bytes := wi_result_bytes w4 @ fes_bytes (gemm_cpu A B ?n)\<rparr> else w4)"
  have p: "process_work dev now w = Some (w5, if ?ok \<and> wi_n w5 > 64 then Some (claim_payload w5) else None)"
    using n(2) i g v I(7) by (simp add: process_work_def Let_def n(1) w4_def w5_def)
  have gate: "swap_gate w5 = ?ok" "wi_verified w5 = ?ok" "wi_n w5 = wi_n w" by (simp_all add: w5_def w4_def swap_gate_def I)
  have sw: "wi_has_inputs w \<Longrightarrow> swap_gate w2 = swap_gate w" using I(11) by (simp add: swap_gate_def)
  show thesis
    using p I gate sw by (intro that [of w5 _ A B]) (auto simp: w5_def w4_def)
qed

subsection \<open>Claims\<close>

lemma claim_payload_parts:
  "length (claim_payload w) = 43" "claim_payload w ! 42 = 0xC1" "take 32 (claim_payload w) = sha256 (claim_material w)"
  "claim_wid (claim_payload w) = wi_id w" "claim_payload w ! 40 = ucast (drop_bit 8 (wi_n w))" "claim_payload w ! 41 = ucast (wi_n w AND 0xFF)"
  by (simp_all add: claim_payload_def claim_wid_def nth_append le_word_le_bytes)

lemma two_bytes:
  assumes "(n :: u64) < 2 ^ 16"
  shows "(push_bit 8 (ucast (ucast (drop_bit 8 n) :: u8)) OR ucast (ucast (n AND 0xFF) :: u8) :: u32) = ucast n"
proof (rule bit_word_eqI)
  fix k assume k: "k < LENGTH(32)"
  have "unat (take_bit 16 n) = unat n" using assms by (simp add: unsigned_take_bit_eq word_less_nat_alt take_bit_nat_eq_self)
  then have t: "take_bit 16 n = n" by (simp add: word_unat_eq_iff)
  have hi: "\<not> bit n j" if "16 \<le> j" for j
    using that by (subst t [symmetric]) (simp add: bit_take_bit_iff)
  have m: "bit (255 :: int) j \<longleftrightarrow> j < 8" for j
    using bit_mask_iff [of 8 j, where ?'a = int] by (simp add: mask_eq_exp_minus_1)
  consider "k < 8" | "8 \<le> k" "k - 8 < 8" | "16 \<le> k" by linarith
  then show "bit (push_bit 8 (ucast (ucast (drop_bit 8 n) :: u8)) OR ucast (ucast (n AND 0xFF) :: u8) :: u32) k \<longleftrightarrow> bit (ucast n :: u32) k"
    using k hi [of k] by cases (auto simp: bit_simps m)
qed

text \<open>A claim that the tick folds is verified against the record it left, whatever the devices.\<close>

lemma folded_claim_verifies:
  assumes w: "item_wf w" and d: "device_fits dev (unat (wi_n w))" "device_fits dev' (unat (wi_n w))"
    and p: "process_work dev now w = Some (w', Some pl)"
  obtains r where "verify_claim dev' pl w' = Some r" and "oc_pass r" and "oc_ran r \<longleftrightarrow> wi_n w \<le> 256"
proof -
  let ?n = "unat (wi_n w)"
  obtain w1 c A B where P: "process_work dev now w = Some (w1, c)"
    "canon A" "canon B" "length A = ?n * ?n" "length B = ?n * ?n"
    "wi_A_in w1 = A" "wi_B_in w1 = B" "wi_has_inputs w1" "wi_n w1 = wi_n w"
    "wi_verified w1 \<Longrightarrow> wi_result_bytes w1 = fes_bytes (gemm_cpu A B ?n)"
    "c = (if wi_verified w1 \<and> wi_n w > 64 then Some (claim_payload w1) else None)"
    using process_work_wf [OF w d(1), of now] by metis
  then have e: "w1 = w'" "wi_verified w'" "wi_n w > 64" "pl = claim_payload w'" using p by (auto split: if_splits)
  note n = item_n [OF w]
  have big: "64 < ?n" using e(3) by (simp add: word_less_nat_alt)
  have r: "wi_result_bytes w' = fes_bytes (gemm_cpu A B ?n)" using P e by simp
  have lr: "length (wi_result_bytes w') = ?n * ?n * 32" unfolding r by (simp add: gemm_cpu_def)
  have "64 * 64 \<le> ?n * ?n" using big by (intro mult_le_mono) simp_all
  then have l32: "32 \<le> length (wi_result_bytes w')" "wi_result_bytes w' \<noteq> []" using lr big by auto
  have st: "claim_structure pl w'"
    using w unfolding claim_structure_def e(4) claim_payload_parts by (simp add: two_bytes item_wf_def P(9) e(1) [symmetric])
  have idn: "rederive_identity w' = Some (sha256 (claim_material w'))"
    using l32 P(8) e(1) by (simp add: rederive_identity_def claim_material_def)
  obtain g where g: "gemm dev' A B ?n = Some (g, gemm_cpu A B ?n)" using gemm_fits [OF P(2-5) d(2)] .
  have rec: "recompute_matches dev' w' = Some True"
    using g P e(1) lr big n(1) by (simp add: recompute_matches_def Let_def r fes_bytes_at list_all_iff)
  have af: "tier2_affordable w' \<longleftrightarrow> wi_n w \<le> 256"
    using P e(1) lr by (auto simp: tier2_affordable_def TIER2_RUNG_def)
  have "verify_claim dev' pl w' = Some \<lparr>oc_structure = True, oc_identity_ok = True, oc_ran = (wi_n w \<le> 256),
      oc_recompute_ok = (wi_n w \<le> 256), oc_pass = True, oc_work_id = wi_id w', oc_n = ucast (wi_n w'),
      oc_identity = sha256 (claim_material w')\<rparr>"
    using st idn rec by (simp add: verify_claim_def Let_def af e(4) claim_payload_parts)
  then show thesis by (rule that) simp_all
qed

text \<open>What acceptance says: the identity, and inside the rung the result itself.\<close>

lemma verified_claim_means:
  assumes v: "verify_claim dev pl w = Some r" and r: "oc_pass r"
  shows "claim_structure pl w \<and> wi_has_inputs w
    \<and> take 32 pl = sha256 (le_bytes 8 (wi_id w) @ le_bytes 8 (wi_n w) @ wi_ic w @ take 32 (wi_result_bytes w))"
    and "tier2_affordable w \<Longrightarrow> canon (wi_A_in w) \<Longrightarrow> canon (wi_B_in w) \<Longrightarrow> device_fits dev (unat (wi_n w))
      \<Longrightarrow> wi_result_bytes w = fes_bytes (gemm_cpu (wi_A_in w) (wi_B_in w) (unat (wi_n w)))"
proof -
  show "claim_structure pl w \<and> wi_has_inputs w
    \<and> take 32 pl = sha256 (le_bytes 8 (wi_id w) @ le_bytes 8 (wi_n w) @ wi_ic w @ take 32 (wi_result_bytes w))"
    using v r by (auto simp: verify_claim_def Let_def rederive_identity_def split: option.splits if_splits)
next
  assume t: "tier2_affordable w" and c: "canon (wi_A_in w)" "canon (wi_B_in w)" and d: "device_fits dev (unat (wi_n w))"
  let ?n = "unat (wi_n w)"
  have n: "unat (ucast (wi_n w) :: u32) = ?n"
  proof -
    have "?n \<le> 256" using t by (simp add: tier2_affordable_def TIER2_RUNG_def word_le_nat_alt)
    then show ?thesis by (simp add: unsigned_ucast_eq take_bit_eq_mod)
  qed
  have l: "length (wi_A_in w) = ?n * ?n" "length (wi_B_in w) = ?n * ?n" "length (wi_result_bytes w) = ?n * ?n * 32"
    using t by (simp_all add: tier2_affordable_def)
  obtain g where g: "gemm dev (wi_A_in w) (wi_B_in w) ?n = Some (g, gemm_cpu (wi_A_in w) (wi_B_in w) ?n)"
    using gemm_fits [OF c l(1,2) d] .
  have "recompute_matches dev w = Some True"
    using v r t by (auto simp: verify_claim_def Let_def split: option.splits if_splits)
  then have "\<forall>k < length (gemm_cpu (wi_A_in w) (wi_B_in w) ?n).
      fe_to_le_bytes (gemm_cpu (wi_A_in w) (wi_B_in w) ?n ! k) = take 32 (drop (k * 32) (wi_result_bytes w))"
    using g by (auto simp: recompute_matches_def Let_def n list_all_iff split: if_splits)
  then show "wi_result_bytes w = fes_bytes (gemm_cpu (wi_A_in w) (wi_B_in w) ?n)"
    using l(3) by (intro fes_bytes_cover) (simp_all add: gemm_cpu_def)
qed

lemma select_index_less: "0 < pool \<Longrightarrow> pool < 2 ^ 64 \<Longrightarrow> select_index tail pool < pool"
proof -
  assume p: "0 < pool" "pool < 2 ^ 64"
  have u: "unat (of_nat pool :: u64) = pool" using p(2) by (simp add: unsigned_of_nat take_bit_eq_mod)
  then show ?thesis using p(1) by (simp add: select_index_def Let_def unat_mod)
qed

subsection \<open>Pools\<close>

lemma verify_claim_n: "verify_claim dev pl w = Some r \<Longrightarrow> oc_ran r \<Longrightarrow> unat (oc_n r) \<le> 256"
proof -
  assume v: "verify_claim dev pl w = Some r" and n: "oc_ran r"
  then have "tier2_affordable w" and e: "oc_n r = ucast (wi_n w)"
    by (auto simp: verify_claim_def Let_def split: option.splits if_splits)
  then have "unat (wi_n w) \<le> 256" by (simp add: tier2_affordable_def TIER2_RUNG_def word_le_nat_alt)
  then show "unat (oc_n r) \<le> 256" unfolding e by (simp add: unsigned_ucast_eq take_bit_eq_mod)
qed

text \<open>The books of a pool: every claim is counted once, and the budget holds.\<close>

definition pool_books :: "u64 \<Rightarrow> nat \<Rightarrow> PoolOutcome \<times> bool \<Rightarrow> bool" where
  "pool_books budget n oc \<longleftrightarrow>
     (let (p, clean) = oc
      in pl_structure_bad p + pl_unknown_work p + pl_tier1_ok p + pl_tier1_bad p = n
         \<and> pl_tier2_ran p = pl_tier2_ok p + pl_tier2_bad p
         \<and> pl_tier2_ran p + pl_tier2_skipped p \<le> pl_tier1_ok p + pl_tier1_bad p
         \<and> pl_macs_spent p \<le> budget
         \<and> (clean \<longleftrightarrow> pl_structure_bad p = 0 \<and> pl_unknown_work p = 0 \<and> pl_tier1_bad p = 0 \<and> pl_tier2_bad p = 0))"

lemma pool_claim_books:
  assumes "pool_claim dev wdone budget oc pl = Some oc'" "pool_books budget n oc"
  shows "pool_books budget (Suc n) oc'"
  using assms
  by (auto simp: pool_claim_def pool_count_def pool_books_def Let_def split: prod.splits if_splits option.splits)

lemma pool_loop_books: "pool_loop dev wdone budget oc pls = Some oc' \<Longrightarrow> pool_books budget n oc \<Longrightarrow> pool_books budget (n + length pls) oc'"
proof (induction pls arbitrary: oc n)
  case (Cons pl pls)
  obtain o1 where o1: "pool_claim dev wdone budget oc pl = Some o1" "pool_loop dev wdone budget o1 pls = Some oc'"
    using Cons.prems(1) by (auto split: option.splits)
  show ?case using Cons.IH [OF o1(2) pool_claim_books [OF o1(1) Cons.prems(2)]] by simp
qed simp

lemma verify_pool_books:
  assumes "verify_pool dev claims wdone budget = Some r"
  shows "pl_structure_bad r + pl_unknown_work r + pl_tier1_ok r + pl_tier1_bad r = length claims"
    and "pl_tier2_ran r = pl_tier2_ok r + pl_tier2_bad r" "pl_macs_spent r \<le> budget"
    and "pl_pass r \<longleftrightarrow> claims \<noteq> [] \<and> pl_structure_bad r = 0 \<and> pl_unknown_work r = 0 \<and> pl_tier1_bad r = 0 \<and> pl_tier2_bad r = 0"
proof -
  have s: "pool_books budget 0 (pool_start (length claims), True)" by (simp add: pool_books_def pool_start_def)
  have all: "pl_structure_bad r + pl_unknown_work r + pl_tier1_ok r + pl_tier1_bad r = length claims
    \<and> pl_tier2_ran r = pl_tier2_ok r + pl_tier2_bad r \<and> pl_macs_spent r \<le> budget
    \<and> (pl_pass r \<longleftrightarrow> claims \<noteq> [] \<and> pl_structure_bad r = 0 \<and> pl_unknown_work r = 0 \<and> pl_tier1_bad r = 0 \<and> pl_tier2_bad r = 0)"
  proof (cases "claims = []")
    case True
    then show ?thesis using assms by (auto simp: verify_pool_def pool_start_def)
  next
    case False
    obtain p clean where l: "pool_loop dev wdone budget (pool_start (length claims), True) claims = Some (p, clean)"
      and r: "r = p\<lparr>pl_pass := clean\<rparr>"
      using assms False by (auto simp: verify_pool_def)
    from pool_loop_books [OF l s] show ?thesis using False by (simp add: r pool_books_def)
  qed
  then show "pl_structure_bad r + pl_unknown_work r + pl_tier1_ok r + pl_tier1_bad r = length claims"
    "pl_tier2_ran r = pl_tier2_ok r + pl_tier2_bad r" "pl_macs_spent r \<le> budget"
    "pl_pass r \<longleftrightarrow> claims \<noteq> [] \<and> pl_structure_bad r = 0 \<and> pl_unknown_work r = 0 \<and> pl_tier1_bad r = 0 \<and> pl_tier2_bad r = 0"
    by blast+
qed

text \<open>A claim whose recomputation failed does not fail the pool when the budget is used up.\<close>

lemma over_budget_passes:
  assumes c: "length pl \<ge> 43" "pl ! 42 = 0xC1" and w: "wdone (claim_wid pl) = Some w"
    and v: "verify_claim dev pl w = Some r" and r: "oc_structure r" "oc_identity_ok r" "oc_ran r" "\<not> oc_recompute_ok r"
    and b: "unat budget < unat (oc_n r) ^ 3"
  shows "\<exists>p. verify_pool dev [pl] wdone budget = Some p \<and> pl_pass p \<and> pl_tier2_skipped p = 1"
proof -
  have n: "unat (oc_n r) \<le> 256" using verify_claim_n [OF v r(3)] .
  define m :: u64 where "m = ucast (oc_n r)"
  have um: "unat m = unat (oc_n r)" unfolding m_def using n by (simp add: unsigned_ucast_eq take_bit_eq_mod)
  have sq: "unat m * unat m \<le> 256 * 256" using n um by (intro mult_le_mono) simp_all
  then have "unat (m * m) = unat m * unat m" by (simp add: unat_word_ariths)
  moreover have "unat m * unat m * unat m \<le> 256 * 256 * 256" using sq n um by (intro mult_le_mono) simp_all
  ultimately have "unat (m * m * m) = unat m ^ 3" by (simp add: unat_word_ariths power3_eq_cube)
  then have "\<not> m * m * m \<le> budget" using b um by (simp add: word_le_nat_alt not_le)
  then show ?thesis
    using c w v r by (simp add: verify_pool_def pool_claim_def pool_count_def pool_start_def Let_def m_def [symmetric])
qed

end
