(* ===== verification/Explorer.thy ===== *)
theory Explorer
  imports Claims Logup
begin

text \<open>
  The submission interface, \<open>src/include/hsma/explorer.hpp\<close>: reading and splitting a request, keys and
  their rate limit, the queueing of workloads with their inputs, the model registry and the delivery of
  inputs and results. Texts are strings; the answers are values that say what a response carries, their
  formatting is left out. Clock, entropy, environment and the received chunks are arguments.
\<close>

subsection \<open>Texts\<close>

definition find_sub :: "string \<Rightarrow> string \<Rightarrow> nat option" where
  "find_sub pat s = find (\<lambda>i. take (length pat) (drop i s) = pat) [0..<length s + 1 - length pat]"

definition is_space :: "char \<Rightarrow> bool" where
  "is_space c \<longleftrightarrow> of_char c = (32 :: nat) \<or> (9 \<le> (of_char c :: nat) \<and> of_char c \<le> (13 :: nat))"

definition is_digit :: "char \<Rightarrow> bool" where
  "is_digit c \<longleftrightarrow> 48 \<le> (of_char c :: nat) \<and> of_char c \<le> (57 :: nat)"

definition digits_val :: "string \<Rightarrow> nat" where
  "digits_val ds = foldl (\<lambda>v c. 10 * v + (of_char c - 48)) 0 ds"

text \<open>The sign and the digits that \<open>strtoull\<close> and \<open>atoi\<close> read, after blanks.\<close>

definition read_number :: "string \<Rightarrow> bool \<times> nat" where
  "read_number s =
     (let s = dropWhile is_space s;
          neg = (s \<noteq> [] \<and> hd s = CHR ''-'');
          s = (if s \<noteq> [] \<and> (hd s = CHR ''-'' \<or> hd s = CHR ''+'') then tl s else s)
      in (neg, digits_val (takeWhile is_digit s)))"

definition strtoull :: "string \<Rightarrow> u64" where
  "strtoull s = (let (neg, v) = read_number s in if v \<ge> 2 ^ 64 then - 1 else if neg then - of_nat v else of_nat v)"

text \<open>A value outside \<open>int\<close> has no defined result.\<close>

definition atoi :: "string \<Rightarrow> int option" where
  "atoi s =
     (let (neg, v) = read_number s; i = (if neg then - int v else int v)
      in if i < - (2 ^ 31) \<or> i \<ge> 2 ^ 31 then None else Some i)"

definition hex_digit :: "char \<Rightarrow> nat option" where
  "hex_digit c =
     (let n = of_char c
      in if 48 \<le> n \<and> n \<le> 57 then Some (n - 48) else if 97 \<le> n \<and> n \<le> 102 then Some (n - 97 + 10)
         else if 65 \<le> n \<and> n \<le> 70 then Some (n - 65 + 10) else None)"

text \<open>The pairs up to a quote; a character that is no digit empties the result.\<close>

fun hex_pairs :: "string \<Rightarrow> bytes option" where
  "hex_pairs (a # b # s) =
     (if a = CHR 0x22 then Some []
      else case (hex_digit a, hex_digit b) of
        (Some hi, Some lo) \<Rightarrow> map_option ((#) (of_nat (16 * hi + lo))) (hex_pairs s)
      | _ \<Rightarrow> None)"
| "hex_pairs _ = Some []"

definition hexbytes :: "string \<Rightarrow> bytes" where
  "hexbytes s = (case hex_pairs s of None \<Rightarrow> [] | Some bs \<Rightarrow> bs)"

definition hex_char :: "nat \<Rightarrow> char" where
  "hex_char d = ''0123456789abcdef'' ! d"

definition bytes_hex :: "bytes \<Rightarrow> string" where
  "bytes_hex v = concat (map (\<lambda>b. [hex_char (unat (drop_bit 4 b)), hex_char (unat (b AND 15))]) v)"

subsection \<open>Requests\<close>

definition INGEST_CAP :: nat where "INGEST_CAP = 16 * 1024 * 1024"

definition crlf :: string where "crlf = [CHR 0x0D, CHR 0x0A]"

definition content_end :: "string \<Rightarrow> nat \<Rightarrow> nat" where
  "content_end req hdr_end =
     (let a = find_sub ''Content-Length:'' req;
          clp = (case a of Some p \<Rightarrow> (if p > hdr_end then find_sub ''content-length:'' req else a) | None \<Rightarrow> find_sub ''content-length:'' req)
      in case clp of Some p \<Rightarrow> (if p < hdr_end then unat (of_nat (hdr_end + 4) + strtoull (drop (p + 15) req)) else hdr_end + 4)
         | None \<Rightarrow> hdr_end + 4)"

text \<open>The receiving loop: its state is the text so far and, once the head is complete, the length wanted.\<close>

fun read_request :: "string \<Rightarrow> nat option \<Rightarrow> string list \<Rightarrow> string" where
  "read_request req want [] = req"
| "read_request req want (c # cs) =
     (if length req \<ge> INGEST_CAP \<or> c = [] then req
      else let req = req @ c;
               want = (case want of Some w \<Rightarrow> Some w | None \<Rightarrow> map_option (content_end req) (find_sub (crlf @ crlf) req))
           in case want of Some w \<Rightarrow> (if length req \<ge> w then req else read_request req want cs)
              | None \<Rightarrow> read_request req want cs)"

record Request =
  rq_method :: string
  rq_path :: string
  rq_body :: string
  rq_auth :: string

definition parse_request :: "string \<Rightarrow> Request" where
  "parse_request req =
     (let rq = takeWhile (\<lambda>c. c \<noteq> CHR 0x00) req;
          sp1 = find_sub '' '' rq;
          rest = (case sp1 of None \<Rightarrow> [] | Some i \<Rightarrow> drop (i + 1) rq);
          auth = find_sub ''Authorization: Bearer '' rq;
          after = (case auth of None \<Rightarrow> [] | Some i \<Rightarrow> drop (i + 22) rq)
      in \<lparr>rq_method = (case sp1 of None \<Rightarrow> [] | Some i \<Rightarrow> take i rq),
          rq_path = (case sp1 of None \<Rightarrow> [] | Some _ \<Rightarrow> (case find_sub '' '' rest of None \<Rightarrow> [] | Some j \<Rightarrow> take j rest)),
          rq_body = (case find_sub (crlf @ crlf) rq of None \<Rightarrow> [] | Some i \<Rightarrow> drop (i + 4) rq),
          rq_auth = (case auth of None \<Rightarrow> [] | Some _ \<Rightarrow> (case find_sub crlf after of None \<Rightarrow> [] | Some j \<Rightarrow> take j after))\<rparr>)"

subsection \<open>State\<close>

record ApiState =
  ap_keys :: "string \<rightharpoonup> bool"
  ap_rate :: "string \<rightharpoonup> u64"
  ap_window :: int
  ap_next :: u64
  ap_work :: WorkState
  ap_registry :: registry
  ap_openings :: "u64 \<rightharpoonup> u64 \<times> u64"

text \<open>What the process reads from outside: both clocks, entropy, one variable of the environment.\<close>

record ApiEnv =
  ae_now :: int
  ae_time :: u64
  ae_random :: bytes
  ae_fold :: "string option"
  ae_device :: "Device option"

definition RATE_LIMIT_PER_MIN :: u64 where "RATE_LIMIT_PER_MIN = 10"

definition validate_api_key :: "(string \<rightharpoonup> bool) \<Rightarrow> string \<Rightarrow> bool" where
  "validate_api_key keys key = (keys key = Some True)"

text \<open>The clock counts nanoseconds; the cast to seconds drops the rest.\<close>

definition check_rate_limit :: "int \<Rightarrow> string \<Rightarrow> ApiState \<Rightarrow> bool \<times> ApiState" where
  "check_rate_limit now key s =
     (case ap_rate s key of
        None \<Rightarrow> (True, s\<lparr>ap_rate := (ap_rate s)(key \<mapsto> 1), ap_window := now\<rparr>)
      | Some c \<Rightarrow>
          if (now - ap_window s) div 10 ^ 9 \<ge> 60 then (True, s\<lparr>ap_rate := (ap_rate s)(key \<mapsto> 1), ap_window := now\<rparr>)
          else if c \<ge> RATE_LIMIT_PER_MIN then (False, s)
          else (True, s\<lparr>ap_rate := (ap_rate s)(key \<mapsto> c + 1)\<rparr>))"

definition cpu_fold_band_allowed :: "string option \<Rightarrow> nat \<Rightarrow> bool" where
  "cpu_fold_band_allowed var n =
     (if n \<le> 64 \<or> n > 256 then False
      else case var of None \<Rightarrow> False | Some e \<Rightarrow> e \<noteq> [] \<and> hd e \<noteq> CHR 0x00 \<and> hd e \<noteq> CHR ''0'')"

fun load_keys :: "(string \<rightharpoonup> bool) \<Rightarrow> string list \<Rightarrow> (string \<rightharpoonup> bool)" where
  "load_keys keys [] = keys"
| "load_keys keys (line # ls) =
     (let l = rev (dropWhile (\<lambda>c. c = CHR 0x0D \<or> c = CHR '' '') (rev line))
      in load_keys (if l \<noteq> [] then keys(l \<mapsto> True) else keys) ls)"

definition FOUNDER_KEY :: string where "FOUNDER_KEY = ''hsma_founder_testnet_key''"

subsection \<open>Workloads\<close>

datatype Response =
    Unauthorized
  | Too_Many
  | Bad_Request
  | Forbidden
  | Not_Found
  | New_Key string
  | Queued u64 nat "(u64 \<times> u64 \<times> bytes) option"
  | Registered u64 u64
  | Not_Registered "u64 option"
  | Models registry
  | Claim_Inputs u64 u64 string string string
  | Result u64 WorkStatus "string option"
  | Status_Page

definition fnv :: "bytes \<Rightarrow> u64" where
  "fnv raw = foldl (\<lambda>h b. (h XOR ucast b) * 1099511628211) 14695981039346656037 raw"

text \<open>The elements of a matrix of edge \<open>n\<close>, if every encoding is canonical.\<close>

definition to_fes :: "nat \<Rightarrow> bytes \<Rightarrow> fe list option" where
  "to_fes n raw =
     (if length raw \<noteq> n * n * 32 then None
      else let rs = map (\<lambda>k. fe_from_le_bytes (take 32 (drop (k * 32) raw))) [0..<n * n]
           in if list_all ffb_ok rs then Some (map ffb_value rs) else None)"

text \<open>The edge of a submission; the cap sends every other value to 64.\<close>

definition submit_n :: "string \<Rightarrow> nat option" where
  \<open>submit_n body =
     (case find_sub ''"n":'' body of None \<Rightarrow> Some 64
      | Some np \<Rightarrow> (case atoi (drop (np + 4) body) of None \<Rightarrow> None
           | Some i \<Rightarrow> let n = unat (of_int i :: u32) in Some (if n = 0 \<or> n > 256 then 64 else n)))\<close>

record Ingest =
  in_A :: "fe list"
  in_B :: "fe list"
  in_tags :: "u64 \<times> u64"
  in_ic :: bytes
  in_digest :: u64

datatype Ingestion = No_Input | Bad_Input | Good_Input Ingest

definition ingest :: "nat \<Rightarrow> string \<Rightarrow> Ingestion" where
  \<open>ingest n body =
     (let ap = find_sub ''"a":"'' body; bp = find_sub ''"b":"'' body
      in if ap = None \<and> bp = None then No_Input
         else let rawA = (case ap of None \<Rightarrow> [] | Some p \<Rightarrow> hexbytes (drop (p + 5) body));
                  rawB = (case bp of None \<Rightarrow> [] | Some p \<Rightarrow> hexbytes (drop (p + 5) body))
           in case (to_fes n rawA, to_fes n rawB) of
                (Some A, Some B) \<Rightarrow> Good_Input \<lparr>in_A = A, in_B = B, in_tags = (fnv rawA, fnv rawB),
                    in_ic = sha256 (rawA @ rawB), in_digest = weight_digest (rawA @ rawB)\<rparr>
              | _ \<Rightarrow> Bad_Input)\<close>

text \<open>The model a workload declares: refused, none, or admitted under its number.\<close>

definition model_gate :: "registry \<Rightarrow> string \<Rightarrow> Ingestion \<Rightarrow> Response + u64" where
  \<open>model_gate reg body inp =
     (case find_sub ''"model_id":'' body of None \<Rightarrow> Inr 0
      | Some mp \<Rightarrow>
          let m = strtoull (drop (mp + 11) body)
          in case inp of
               Good_Input i \<Rightarrow>
                 let r = (case find_sub ''"model_r":'' body of None \<Rightarrow> 0 | Some rp \<Rightarrow> strtoull (drop (rp + 10) body))
                 in if workload_admitted reg m (in_digest i) r then Inr m else Inl Forbidden
             | _ \<Rightarrow> Inl Bad_Request)\<close>

definition new_item :: "u64 \<Rightarrow> nat \<Rightarrow> u64 \<Rightarrow> Ingestion \<Rightarrow> u64 \<Rightarrow> WorkItem" where
  "new_item wid n now inp m =
     (let w = \<lparr>wi_id = wid, wi_n = of_nat n, wi_status = QUEUED, wi_submitted_at = now, wi_completed_at = 0, wi_verified = False,
        wi_has_inputs = False, wi_A_in = [], wi_B_in = [], wi_tag_a = 0, wi_tag_b = 0, wi_has_result = False,
        wi_result_bytes = [], wi_ic = replicate 32 0, wi_model_id = m, wi_commitment_checked = False\<rparr>
      in case inp of
           Good_Input i \<Rightarrow> w\<lparr>wi_has_inputs := True, wi_A_in := in_A i, wi_B_in := in_B i, wi_tag_a := fst (in_tags i),
             wi_tag_b := snd (in_tags i), wi_ic := in_ic i\<rparr>
         | _ \<Rightarrow> w)"

definition submit_gemm :: "ApiEnv \<Rightarrow> string \<Rightarrow> ApiState \<Rightarrow> (Response \<times> ApiState) option" where
  "submit_gemm e body s =
     (case submit_n body of None \<Rightarrow> None
      | Some n \<Rightarrow>
          if n > 64 \<and> \<not> gpu_available (ae_device e) \<and> \<not> cpu_fold_band_allowed (ae_fold e) n then Some (Bad_Request, s)
          else let inp = ingest n body
               in if inp = Bad_Input then Some (Bad_Request, s)
                  else case model_gate (ap_registry s) body inp of
                    Inl r \<Rightarrow> Some (r, s)
                  | Inr m \<Rightarrow>
                      let wid = ap_next s; w = new_item wid n (ae_time e) inp m
                      in Some (Queued wid n (case inp of Good_Input i \<Rightarrow> Some (fst (in_tags i), snd (in_tags i), in_ic i) | _ \<Rightarrow> None),
                           s\<lparr>ap_next := wid + 1, ap_work := (ap_work s)\<lparr>ws_queue := ws_queue (ap_work s) @ [w]\<rparr>\<rparr>))"

definition api_register :: "string \<Rightarrow> ApiState \<Rightarrow> Response \<times> ApiState" where
  \<open>api_register body s =
     (case find_sub ''"model_id":'' body of None \<Rightarrow> (Not_Registered None, s)
      | Some p \<Rightarrow>
          let mid = strtoull (drop (p + 11) body);
              w = map (\<lambda>i. ucast (mid + of_nat i)) [0..<64];
              D = weight_digest w; rr = mid * 31 + 7; Cm = mc_commit D rr;
              (ok, reg) = register_model (ap_registry s) mid Cm
          in if ok then (Registered mid Cm, s\<lparr>ap_registry := reg, ap_openings := (ap_openings s)(mid \<mapsto> (D, rr))\<rparr>)
             else (Not_Registered (Some mid), s\<lparr>ap_registry := reg\<rparr>))\<close>

definition claim_inputs :: "string \<Rightarrow> Request \<Rightarrow> ApiState \<Rightarrow> Response" where
  "claim_inputs auth rq s =
     (if auth = [] \<or> \<not> validate_api_key (ap_keys s) auth then Unauthorized
      else case ws_done (ap_work s) (strtoull (drop 14 (rq_path rq))) of
             None \<Rightarrow> Not_Found
           | Some w \<Rightarrow>
               if wi_has_inputs w \<and> wi_verified w
               then Claim_Inputs (wi_id w) (wi_n w) (bytes_hex (fes_bytes (wi_A_in w))) (bytes_hex (fes_bytes (wi_B_in w)))
                      (bytes_hex (wi_result_bytes w))
               else Not_Found)"

definition result_of :: "Request \<Rightarrow> ApiState \<Rightarrow> Response" where
  "result_of rq s =
     (let wid = strtoull (drop 8 (rq_path rq))
      in case ws_done (ap_work s) wid of
           Some w \<Rightarrow> Result wid (if wi_verified w then DONE else FAILED)
             (if wi_has_result w \<and> wi_result_bytes w \<noteq> [] then Some (bytes_hex (wi_result_bytes w)) else None)
         | None \<Rightarrow> (if \<exists>w \<in> set (ws_queue (ap_work s)). wi_id w = wid then Result wid QUEUED None else Not_Found))"

subsection \<open>Dispatch\<close>

definition new_key :: "ApiEnv \<Rightarrow> string" where
  "new_key e = ''hsma_'' @ bytes_hex (ae_random e)"

definition route :: "ApiEnv \<Rightarrow> Request \<Rightarrow> ApiState \<Rightarrow> (Response \<times> ApiState) option" where
  "route e rq s =
     (if rq_method rq = ''GET'' \<and> rq_path rq = ''/api_key'' then
        Some (New_Key (new_key e), s\<lparr>ap_keys := (ap_keys s)(new_key e \<mapsto> True)\<rparr>)
      else if rq_method rq = ''POST'' \<and> rq_path rq = ''/submit_gemm'' then submit_gemm e (rq_body rq) s
      else if rq_method rq = ''POST'' \<and> rq_path rq = ''/register_model'' then Some (api_register (rq_body rq) s)
      else if rq_method rq = ''GET'' \<and> rq_path rq = ''/models'' then Some (Models (ap_registry s), s)
      else if rq_method rq = ''GET'' \<and> take 14 (rq_path rq) = ''/claim_inputs/'' then Some (claim_inputs (rq_auth rq) rq s, s)
      else if rq_method rq = ''GET'' \<and> take 8 (rq_path rq) = ''/result/'' then Some (result_of rq s, s)
      else Some (Status_Page, s))"

text \<open>An empty request closes the connection without an answer, the inner \<^const>\<open>None\<close>.\<close>

definition serve_request :: "ApiEnv \<Rightarrow> string list \<Rightarrow> ApiState \<Rightarrow> (Response option \<times> ApiState) option" where
  "serve_request e chunks s =
     (let s = s\<lparr>ap_keys := (ap_keys s)(FOUNDER_KEY \<mapsto> True)\<rparr>;
          req = read_request [] None chunks
      in if req = [] then Some (None, s)
         else let rq = parse_request req
           in if rq_method rq = ''POST'' \<and> (rq_auth rq = [] \<or> \<not> validate_api_key (ap_keys s) (rq_auth rq)) then Some (Some Unauthorized, s)
              else let (ok, s) = (if rq_method rq = ''POST'' then check_rate_limit (ae_now e) (rq_auth rq) s else (True, s))
                in if \<not> ok then Some (Some Too_Many, s)
                   else map_option (\<lambda>(r, s). (Some r, s)) (route e rq s))"

subsection \<open>Reading\<close>

lemma read_request_prefix: "\<exists>k. read_request req want cs = req @ concat (take k cs)"
proof (induction cs arbitrary: req want)
  case (Cons c cs)
  have stop: "\<exists>k. req = req @ concat (take k (c # cs))" by (intro exI [of _ 0]) simp
  have go: "\<exists>k. read_request (req @ c) w cs = req @ concat (take k (c # cs))" for w
  proof -
    obtain k where "read_request (req @ c) w cs = (req @ c) @ concat (take k cs)" using Cons.IH by blast
    then show ?thesis by (intro exI [of _ "Suc k"]) simp
  qed
  have one: "\<exists>k. req @ c = req @ concat (take k (c # cs))" by (intro exI [of _ 1]) simp
  show ?case using stop go one by (auto simp: Let_def split: option.split)
qed simp

text \<open>A request never holds more than the cap and one received chunk.\<close>

lemma read_request_bound:
  "\<forall>c \<in> set cs. length c \<le> 16384 \<Longrightarrow> length req < INGEST_CAP + 16384 \<Longrightarrow> length (read_request req want cs) < INGEST_CAP + 16384"
  by (induction cs arbitrary: req want) (auto simp: Let_def split: option.split)

subsection \<open>Hexadecimal\<close>

lemma hex_chars: "list_all (\<lambda>d. hex_digit (hex_char d) = Some d \<and> hex_char d \<noteq> CHR 0x22) [0..<16]"
  by code_simp

lemma hex_char_digit: "d < 16 \<Longrightarrow> hex_digit (hex_char d) = Some d \<and> hex_char d \<noteq> CHR 0x22"
  using hex_chars by (simp only: list_all_iff set_upt atLeastLessThan_iff) simp

lemma nibbles:
  fixes b :: u8
  shows "unat (drop_bit 4 b) < 16" "unat (b AND 15) < 16" "of_nat (16 * unat (drop_bit 4 b) + unat (b AND 15)) = b"
proof -
  have b: "unat b < 256" using unsigned_less [of b, where ?'a = nat] by simp
  have h: "unat (drop_bit 4 b) = unat b div 16" by (simp add: drop_bit_eq_div unat_div)
  have l: "unat (b AND 15) = unat b mod 16"
  proof -
    have "b AND 15 = take_bit 4 b" by (simp add: take_bit_eq_mask mask_eq_exp_minus_1)
    then show ?thesis by (simp add: take_bit_eq_mod unat_mod)
  qed
  show "unat (drop_bit 4 b) < 16" "unat (b AND 15) < 16" unfolding h l using b by auto
  show "of_nat (16 * unat (drop_bit 4 b) + unat (b AND 15)) = b"
    unfolding h l by (simp add: mult.commute [of 16])
qed

text \<open>What is served in hexadecimal is read back the same.\<close>

lemma hex_roundtrip: "hexbytes (bytes_hex v @ CHR 0x22 # t) = v"
proof -
  have "hex_pairs (bytes_hex v @ CHR 0x22 # t) = Some v"
  proof (induction v)
    case Nil
    then show ?case by (cases t) (simp_all add: bytes_hex_def)
  next
    case (Cons b v)
    note h = hex_char_digit [OF nibbles(1) [of b]] hex_char_digit [OF nibbles(2) [of b]]
    show ?case
      using Cons h nibbles(3) [of b] by (simp add: bytes_hex_def)
  qed
  then show ?thesis by (simp add: hexbytes_def)
qed

subsection \<open>Ingestion\<close>

lemma to_fes_shape:
  assumes "to_fes n raw = Some A"
  shows "canon A" "length A = n * n" "fes_bytes A = raw"
proof -
  let ?s = "\<lambda>k. take 32 (drop (k * 32) raw)"
  have l: "length raw = n * n * 32" and ok: "\<And>k. k < n * n \<Longrightarrow> ffb_ok (fe_from_le_bytes (?s k))"
    and A: "A = map (\<lambda>k. ffb_value (fe_from_le_bytes (?s k))) [0..<n * n]"
    using assms by (auto simp: to_fes_def Let_def list_all_iff split: if_splits)
  have r: "is_canonical (ffb_value (fe_from_le_bytes (?s k)))" "fe_to_le_bytes (ffb_value (fe_from_le_bytes (?s k))) = ?s k" if "k < n * n" for k
  proof -
    have "k * 32 + 32 \<le> length raw" using that l by simp
    then have "length (?s k) = 32" by simp
    from fe_to_from_bytes [OF this ok [OF that]] show "is_canonical (ffb_value (fe_from_le_bytes (?s k)))"
      "fe_to_le_bytes (ffb_value (fe_from_le_bytes (?s k))) = ?s k" by blast+
  qed
  show "canon A" "length A = n * n" unfolding A using r(1) by (simp_all add: canon_def list_all_length)
  show "fes_bytes A = raw" by (rule fes_bytes_cover [symmetric]) (simp_all add: A l r(2))
qed

lemma ingest_good:
  assumes "ingest n body = Good_Input i"
  shows "canon (in_A i)" "canon (in_B i)" "length (in_A i) = n * n" "length (in_B i) = n * n"
    and "in_ic i = sha256 (fes_bytes (in_A i) @ fes_bytes (in_B i))"
    and "in_digest i = weight_digest (fes_bytes (in_A i) @ fes_bytes (in_B i))"
  using assms to_fes_shape by (auto simp: ingest_def Let_def split: if_splits option.splits)

lemma submit_n_range: "submit_n body = Some n \<Longrightarrow> 0 < n \<and> n \<le> 256"
  by (auto simp: submit_n_def Let_def split: option.splits if_splits)

text \<open>What a submission queues: a record the tick accepts, its commitment bound to its inputs.\<close>

lemma submit_queues:
  assumes "submit_gemm e body s = Some (r, s')"
  shows "(s' = s \<and> \<not> (\<exists>wid n t. r = Queued wid n t))
    \<or> (\<exists>w n t. r = Queued (ap_next s) n t \<and> s' = s\<lparr>ap_next := ap_next s + 1, ap_work := (ap_work s)\<lparr>ws_queue := ws_queue (ap_work s) @ [w]\<rparr>\<rparr>
        \<and> item_wf w \<and> wi_status w = QUEUED \<and> wi_id w = ap_next s \<and> unat (wi_n w) = n \<and> 0 < n \<and> n \<le> 256
        \<and> (wi_has_inputs w \<longrightarrow> swap_gate w))"
proof -
  obtain n where n: "submit_n body = Some n" using assms by (auto simp: submit_gemm_def split: option.splits)
  note nr = submit_n_range [OF n]
  have u: "unat (of_nat n :: u64) = n" using nr by (simp add: unsigned_of_nat take_bit_eq_mod)
  have w: "item_wf (new_item wid n t inp m) \<and> wi_status (new_item wid n t inp m) = QUEUED \<and> wi_id (new_item wid n t inp m) = wid
      \<and> unat (wi_n (new_item wid n t inp m)) = n \<and> (wi_has_inputs (new_item wid n t inp m) \<longrightarrow> swap_gate (new_item wid n t inp m))"
    if "inp = ingest n body" for wid t inp m
  proof (cases inp)
    case (Good_Input i)
    note g = ingest_good [OF that [symmetric, unfolded Good_Input]]
    show ?thesis using g u nr by (simp add: Good_Input new_item_def item_wf_def swap_gate_def Let_def word_less_nat_alt)
  qed (use u nr in \<open>simp_all add: new_item_def item_wf_def Let_def word_less_nat_alt\<close>)
  have none: "model_gate reg b inp = Inl r \<Longrightarrow> \<not> (\<exists>wid n t. r = Queued wid n t)" for reg b inp
    by (auto simp: model_gate_def Let_def split: option.splits Ingestion.splits if_splits)
  show ?thesis
  proof (cases "n > 64 \<and> \<not> gpu_available (ae_device e) \<and> \<not> cpu_fold_band_allowed (ae_fold e) n \<or> ingest n body = Bad_Input")
    case True
    then show ?thesis using assms n by (auto simp: submit_gemm_def Let_def split: if_splits)
  next
    case False
    show ?thesis
    proof (cases "model_gate (ap_registry s) body (ingest n body)")
      case (Inl q)
      then show ?thesis using assms n False none by (auto simp: submit_gemm_def Let_def)
    next
      case (Inr m)
      then show ?thesis using assms n False w [OF refl, of "ap_next s" "ae_time e" m] nr by (auto simp: submit_gemm_def Let_def)
    qed
  qed
qed

subsection \<open>Keys and the rate limit\<close>

lemma check_rate_limit_frame:
  "check_rate_limit now key s = (ok, s') \<Longrightarrow>
    ap_keys s' = ap_keys s \<and> ap_next s' = ap_next s \<and> ap_work s' = ap_work s \<and> ap_registry s' = ap_registry s \<and> ap_openings s' = ap_openings s"
  by (auto simp: check_rate_limit_def split: option.splits if_splits)

lemma api_register_frame: "snd (api_register body s) = s' \<Longrightarrow> ap_work s' = ap_work s \<and> ap_next s' = ap_next s"
  by (auto simp: api_register_def Let_def split: option.splits prod.splits if_splits)

text \<open>Only a post with an active key queues work or registers a model.\<close>

lemma keyless_request_harmless:
  assumes r: "serve_request e chunks s = Some (a, s')"
    and k: "\<not> validate_api_key ((ap_keys s)(FOUNDER_KEY \<mapsto> True)) (rq_auth (parse_request (read_request [] None chunks)))"
  shows "ap_work s' = ap_work s \<and> ap_next s' = ap_next s \<and> ap_registry s' = ap_registry s \<and> ap_rate s' = ap_rate s"
proof (cases "read_request [] None chunks = []")
  case False
  let ?rq = "parse_request (read_request [] None chunks)" and ?s = "s\<lparr>ap_keys := (ap_keys s)(FOUNDER_KEY \<mapsto> True)\<rparr>"
  show ?thesis
  proof (cases "rq_method ?rq = ''POST''")
    case True
    then show ?thesis using r k False by (auto simp: serve_request_def Let_def)
  next
    case np: False
    then have "map_option (\<lambda>(r, s). (Some r, s)) (route e ?rq ?s) = Some (a, s')"
      using r False by (simp add: serve_request_def Let_def)
    then obtain q where "route e ?rq ?s = Some (q, s')" by auto
    then show ?thesis using np by (auto simp: route_def split: if_splits)
  qed
qed (use r in \<open>auto simp: serve_request_def Let_def\<close>)

text \<open>A count stays within the limit.\<close>

lemma rate_counts_bounded:
  assumes "\<forall>k c. ap_rate s k = Some c \<longrightarrow> c \<le> RATE_LIMIT_PER_MIN" and "check_rate_limit now key s = (ok, s')"
  shows "\<forall>k c. ap_rate s' k = Some c \<longrightarrow> c \<le> RATE_LIMIT_PER_MIN"
  using assms inc_le [of _ RATE_LIMIT_PER_MIN]
  by (auto simp: check_rate_limit_def RATE_LIMIT_PER_MIN_def not_le split: option.splits if_splits)

text \<open>
  The window is shared: the first request under a key that was not seen before starts it anew for
  every other key, so a key at its limit stays refused as long as new keys turn up within a minute.
\<close>

lemma new_keys_extend_refusal:
  assumes "ap_rate s key = Some c" "c \<ge> RATE_LIMIT_PER_MIN" and "ap_rate s other = None"
    and "now \<le> later" "later < now + 60 * 10 ^ 9"
  shows "fst (check_rate_limit later key (snd (check_rate_limit now other s))) = False
    \<and> ap_rate (snd (check_rate_limit now other s)) key = Some c"
proof -
  have "key \<noteq> other" using assms(1,3) by auto
  moreover have "(later - now) div 10 ^ 9 < 60" using assms(4,5) by simp
  ultimately show ?thesis using assms(1-3) by (auto simp: check_rate_limit_def)
qed

subsection \<open>The node around the interface\<close>

text \<open>
  Requests and ticks in any order. Identifiers are 64-bit; a run ends before they are used up. The device
  of a tick fits the matrices that the tick sends to it.
\<close>

inductive api_step :: "ApiState \<Rightarrow> ApiState \<Rightarrow> bool" where
  served: "serve_request e chunks s = Some (a, s') \<Longrightarrow> ap_next s \<noteq> - 1 \<Longrightarrow> api_step s s'"
| ticked: "work_tick dev now (ap_work s) = Some ws \<Longrightarrow>
    (case find (\<lambda>w. wi_status w = QUEUED) (ws_queue (ap_work s)) of None \<Rightarrow> True | Some w \<Rightarrow> device_fits dev (unat (wi_n w)))
    \<Longrightarrow> api_step s (s\<lparr>ap_work := ws\<rparr>)"

inductive api_reaches :: "ApiState \<Rightarrow> ApiState \<Rightarrow> bool" where
  api_start: "api_reaches s s"
| api_more: "api_reaches s t \<Longrightarrow> api_step t u \<Longrightarrow> api_reaches s u"

inductive_cases api_stepE: "api_step s s'"

text \<open>A record that waits, a record that is done, and a claim that stands.\<close>

definition item_waits :: "WorkItem \<Rightarrow> bool" where
  "item_waits w \<longleftrightarrow> item_wf w \<and> wi_status w = QUEUED \<and> 0 < wi_n w \<and> wi_n w \<le> 256 \<and> (wi_has_inputs w \<longrightarrow> swap_gate w)"

definition item_done :: "WorkItem \<Rightarrow> bool" where
  "item_done w \<longleftrightarrow> wi_verified w \<and> wi_has_inputs w \<and> swap_gate w
     \<and> wi_result_bytes w = fes_bytes (gemm_cpu (wi_A_in w) (wi_B_in w) (unat (wi_n w)))"

definition claim_stands :: "(u64 \<rightharpoonup> WorkItem) \<Rightarrow> bytes \<Rightarrow> bool" where
  "claim_stands wdone pl \<longleftrightarrow>
     length pl = 43 \<and> pl ! 42 = 0xC1
     \<and> (case wdone (claim_wid pl) of None \<Rightarrow> False
        | Some w \<Rightarrow> (case verify_claim None pl w of None \<Rightarrow> False | Some r \<Rightarrow> oc_pass r))"

definition work_ok :: "u64 \<Rightarrow> WorkState \<Rightarrow> bool" where
  "work_ok nxt s \<longleftrightarrow>
     (\<forall>w \<in> set (ws_queue s). item_waits w \<and> wi_id w < nxt \<and> ws_done s (wi_id w) = None)
     \<and> distinct (map wi_id (ws_queue s))
     \<and> (\<forall>i w. ws_done s i = Some w \<longrightarrow> i < nxt \<and> wi_id w = i \<and> item_done w)
     \<and> list_all (claim_stands (ws_done s)) (ws_claims s)"

lemma tick_keeps:
  assumes ok: "work_ok nxt s" and t: "work_tick dev now s = Some s'"
    and d: "case find (\<lambda>w. wi_status w = QUEUED) (ws_queue s) of None \<Rightarrow> True | Some w \<Rightarrow> device_fits dev (unat (wi_n w))"
  shows "work_ok nxt s'"
proof (cases "find (\<lambda>w. wi_status w = QUEUED) (ws_queue s)")
  case None
  then show ?thesis using ok t by (simp add: work_tick_def)
next
  case (Some w)
  then have w: "w \<in> set (ws_queue s)" by (auto simp: find_Some_iff)
  then have wq: "item_waits w" "wi_id w < nxt" "ws_done s (wi_id w) = None" using ok by (auto simp: work_ok_def)
  then have wf: "item_wf w" by (simp add: item_waits_def)
  have d: "device_fits dev (unat (wi_n w))" using d Some by simp
  obtain w' c A B where P: "process_work dev now w = Some (w', c)" "wi_A_in w' = A" "wi_B_in w' = B" "wi_has_inputs w'"
    "wi_id w' = wi_id w" "wi_n w' = wi_n w" "wi_verified w' \<longleftrightarrow> swap_gate w'" "\<not> wi_has_inputs w \<Longrightarrow> wi_verified w'"
    "wi_verified w' \<Longrightarrow> wi_result_bytes w' = fes_bytes (gemm_cpu A B (unat (wi_n w)))"
    "wi_has_inputs w \<Longrightarrow> wi_verified w' \<longleftrightarrow> swap_gate w"
    using process_work_wf [OF wf d, of now] by metis
  have v: "wi_verified w'" using P(8,10) wq(1) by (auto simp: item_waits_def)
  then have done': "item_done w'" using P by (simp add: item_done_def)
  have s': "s' = \<lparr>ws_queue = filter (\<lambda>x. wi_id x \<noteq> wi_id w) (ws_queue s), ws_done = (ws_done s)(wi_id w \<mapsto> w'),
      ws_claims = ws_claims s @ (case c of None \<Rightarrow> [] | Some pl \<Rightarrow> [pl])\<rparr>"
    using t Some P(1,5) by (simp add: work_tick_def)
  have keep: "claim_stands ((ws_done s)(wi_id w \<mapsto> w')) pl" if "claim_stands (ws_done s) pl" for pl
    using that wq(3) by (auto simp: claim_stands_def split: option.splits)
  have new: "claim_stands ((ws_done s)(wi_id w \<mapsto> w')) pl" if c: "c = Some pl" for pl
  proof -
    have f: "device_fits None (unat (wi_n w))" by (simp add: device_fits_def)
    obtain r where r: "verify_claim None pl w' = Some r" "oc_pass r"
      using folded_claim_verifies [OF wf d f P(1) [unfolded c]] by metis
    have "claim_structure pl w'" using verified_claim_means(1) [OF r] by blast
    moreover have "length pl = 43"
    proof -
      obtain w'' where "pl = claim_payload w''"
        using P(1) c by (auto simp: process_work_def Let_def split: option.splits if_splits prod.splits)
      then show ?thesis by (simp add: claim_payload_parts)
    qed
    ultimately show ?thesis using r P(5) by (simp add: claim_stands_def claim_structure_def)
  qed
  show ?thesis
    using ok wq done' P(5) keep new unfolding s'
    by (auto simp: work_ok_def distinct_map_filter list_all_iff split: option.splits)
qed

lemma unat_next: "(n :: u64) \<noteq> - 1 \<Longrightarrow> unat (n + 1) = unat n + 1"
  by (metis Suc_eq_plus1 add.commute add_eq_0_iff unatSuc)

lemma route_keeps:
  assumes ok: "work_ok (ap_next s) (ap_work s)" and n: "ap_next s \<noteq> - 1" and r: "route e rq s = Some (a, s')"
  shows "work_ok (ap_next s') (ap_work s')"
proof (cases "rq_method rq = ''POST'' \<and> rq_path rq = ''/submit_gemm''")
  case False
  then have "ap_work s' = ap_work s \<and> ap_next s' = ap_next s"
    using r api_register_frame [of "rq_body rq" s] by (auto simp: route_def split: if_splits)
  then show ?thesis using ok by simp
next
  case True
  then have "submit_gemm e (rq_body rq) s = Some (a, s')" using r by (simp add: route_def)
  from submit_queues [OF this] show ?thesis
  proof (elim disjE exE conjE)
    fix w k t
    assume s': "s' = s\<lparr>ap_next := ap_next s + 1, ap_work := (ap_work s)\<lparr>ws_queue := ws_queue (ap_work s) @ [w]\<rparr>\<rparr>"
      and w: "item_wf w" "wi_status w = QUEUED" "wi_id w = ap_next s" "unat (wi_n w) = k" "0 < k" "k \<le> 256" "wi_has_inputs w \<longrightarrow> swap_gate w"
    have iw: "item_waits w"
      using w by (auto simp: item_waits_def word_le_nat_alt word_less_nat_alt)
    have l: "ap_next s < ap_next s + 1" "\<And>i. i < ap_next s \<Longrightarrow> i < ap_next s + 1"
      using unat_next [OF n] by (simp_all add: word_less_nat_alt)
    have "ws_done (ap_work s) (ap_next s) = None" using ok by (cases "ws_done (ap_work s) (ap_next s)") (auto simp: work_ok_def)
    then show ?thesis using ok iw w(3) l unfolding s' by (auto simp: work_ok_def)
  qed (use ok in simp)
qed

lemma serve_keeps:
  assumes ok: "work_ok (ap_next s) (ap_work s)" and n: "ap_next s \<noteq> - 1" and r: "serve_request e chunks s = Some (a, s')"
  shows "work_ok (ap_next s') (ap_work s')"
proof -
  let ?s = "s\<lparr>ap_keys := (ap_keys s)(FOUNDER_KEY \<mapsto> True)\<rparr>" and ?rq = "parse_request (read_request [] None chunks)"
  obtain ok' s1 where c: "(if rq_method ?rq = ''POST'' then check_rate_limit (ae_now e) (rq_auth ?rq) ?s else (True, ?s)) = (ok', s1)"
    by fastforce
  then have f: "ap_next s1 = ap_next s" "ap_work s1 = ap_work s"
    using check_rate_limit_frame [of "ae_now e" "rq_auth ?rq" ?s ok' s1] by (auto split: if_splits)
  have "s' = ?s \<or> s' = s1 \<or> (\<exists>q. route e ?rq s1 = Some (q, s'))"
    using r c by (auto simp: serve_request_def Let_def split: if_splits)
  then show ?thesis using ok f n route_keeps [of s1 e ?rq _ s'] by auto
qed

lemma step_keeps: "api_step s s' \<Longrightarrow> work_ok (ap_next s) (ap_work s) \<Longrightarrow> work_ok (ap_next s') (ap_work s')"
  by (erule api_stepE) (auto intro: serve_keeps tick_keeps)

lemma reach_keeps: "api_reaches s s' \<Longrightarrow> work_ok (ap_next s) (ap_work s) \<Longrightarrow> work_ok (ap_next s') (ap_work s')"
  by (induction rule: api_reaches.induct) (auto intro: step_keeps)

text \<open>The audit of claims that stand passes, whatever the budget.\<close>

lemma standing_pool_passes:
  assumes "list_all (claim_stands wdone) pls" and "snd oc"
  shows "\<exists>oc'. pool_loop None wdone budget oc pls = Some oc' \<and> snd oc'"
  using assms
proof (induction pls arbitrary: oc)
  case (Cons pl pls)
  have c: "claim_stands wdone pl" using Cons.prems(1) by simp
  obtain w where w: "wdone (claim_wid pl) = Some w" using c by (auto simp: claim_stands_def split: option.splits)
  then obtain r where r: "verify_claim None pl w = Some r" "oc_pass r" using c by (auto simp: claim_stands_def split: option.splits)
  have p: "oc_structure r" "oc_identity_ok r" "oc_ran r \<Longrightarrow> oc_recompute_ok r"
    using r by (auto simp: verify_claim_def Let_def split: option.splits)
  have "\<exists>o1. pool_claim None wdone budget oc pl = Some o1 \<and> snd o1"
    using c w r p Cons.prems(2) by (cases oc) (auto simp: pool_claim_def pool_count_def claim_stands_def Let_def)
  then show ?case using Cons.IH Cons.prems(1) by fastforce
qed simp

end
