(* ===== verification/Node_Fold.thy ===== *)
theory Node_Fold
  imports Pcompress Whir Circuits Vss Envelope Vote Mssc_Loop Stake Explorer Fold
begin

text \<open>
  The fold path of the node (\<open>src/tools/epoch_node.cpp\<close>): the entries it derives from the epoch and
  the index, the witness of the transition circuit, the folding of a decree, the completion of an
  epoch with its proof, its header and the new committee, the synthetic pulse and the audit of the
  claims. The file-scope variables are the record \<open>Node\<close>; what is sent to a socket is appended to
  its outbox. \<^const>\<open>None\<close> is an abort or a read outside a buffer.
\<close>

subsection \<open>The state\<close>

text \<open>
  What the code leaves to the compiler: the shifts of a 32-bit number by 32 and more, whether
  assertions are compiled, the bytes of a buffer and the
  work item that are read without having been written. The device is the accelerator, if there is one.
\<close>

record NodeEnv =
  ne_shr :: "u32 \<Rightarrow> nat \<Rightarrow> u8"
  ne_ndebug :: bool
  ne_junk :: bytes
  ne_dev :: "Device option"
  ne_item :: WorkItem

record MempoolEntry =
  me_env :: Envelope
  me_decrypted :: bool
  me_payload :: bytes

record OrderLock =
  ol_av :: AggregateVerify
  ol_root :: bytes
  ol_attested :: bool

definition no_lock :: OrderLock where
  "no_lock = \<lparr>ol_av = av_new, ol_root = replicate 32 0, ol_attested = False\<rparr>"

text \<open>The encrypted mempool with its ceremony; absent keys of the maps hold the default, as \<open>operator[]\<close> has it.\<close>

record Ceremony =
  ce_pool :: "MempoolEntry list"
  ce_index :: "bytes \<rightharpoonup> nat"
  ce_dec :: "bytes list"
  ce_thr :: "nat \<Rightarrow> (u64 \<times> G2Pt) list"
  ce_root :: bytes
  ce_committed :: bool
  ce_locks :: "u32 \<Rightarrow> OrderLock"
  ce_pool_epoch :: u32
  ce_beacon :: Digest

record AggBatch =
  ab_av :: AggregateVerify
  ab_pre :: bytes
  ab_count :: u32

text \<open>Two of the maps are walked through or counted: they are association lists.\<close>

record Voting =
  vo_prefs :: "(u64 \<times> Digest) list"
  vo_batches :: "(bytes \<times> AggBatch) list"
  vo_receipts :: u64
  vo_signed :: "u64 \<times> u64 \<rightharpoonup> string"
  vo_adversarial :: "u64 \<Rightarrow> bool"
  vo_seeded :: "u64 \<Rightarrow> bool"
  vo_stake :: StakeRegistry
  vo_loop :: NodeState
  vo_fd_member :: "int \<rightharpoonup> u64"
  vo_fd_weight :: "int \<rightharpoonup> u64"

text \<open>The committee that is fixed at the start.\<close>

record NodeCommittee =
  nc_members :: "(u64 \<times> G2Pt) list"
  nc_poly :: "fr list"
  nc_dealt :: u64
  nc_t :: u64
  nc_self :: u32
  nc_own :: fr
  nc_xe :: G2Pt
  nc_wroot :: Digest

record VerifierReceipt =
  rc_epoch :: u32
  rc_pool :: nat
  rc_work :: u64
  rc_outcome :: Outcome
  rc_aggregate :: PoolOutcome

record NodeDkg =
  dk_T :: Transcript
  dk_ok :: nat
  dk_pk :: string

record Node =
  nd_epoch :: u32
  nd_count :: u32
  nd_k :: u32
  nd_acc :: Accumulator
  nd_cw :: LiveW
  nd_seq :: u32
  nd_rx :: Relaxed
  nd_chain :: "fe list"
  nd_limbs :: "u64 list list"
  nd_seen :: "u64 list"
  nd_weight :: u64
  nd_hash :: "u32 list"
  nd_pi_size :: u32
  nd_work :: WorkState
  nd_audited :: bool
  nd_receipt :: "VerifierReceipt option"
  nd_rotations :: u64
  nd_dkg :: "NodeDkg option"
  nd_pulse :: u32
  nd_cer :: Ceremony
  nd_vot :: Voting
  nd_com :: NodeCommittee
  nd_fds :: "int list"
  nd_out :: "(int \<times> Message) list"

definition send_all :: "Message \<Rightarrow> int list \<Rightarrow> Node \<Rightarrow> Node" where
  "send_all m fds s = s\<lparr>nd_out := nd_out s @ map (\<lambda>fd. (fd, m)) fds\<rparr>"

subsection \<open>Entries and witnesses\<close>

record EntryTerms =
  et_amount :: u128
  et_fee :: u64
  et_nonce :: u64

definition entry_terms :: "u32 \<Rightarrow> u32 \<Rightarrow> EntryTerms" where
  "entry_terms ep idx =
     (let d = sha256d (le_bytes 4 ep @ le_bytes 4 idx);
          h = dg_limbs d ! 0 XOR push_bit 1 (dg_limbs d ! 1)
      in \<lparr>et_amount = push_bit 64 (ucast (h AND 0xFFFFFFFF)) OR ucast (drop_bit 32 h OR 1),
          et_fee = 5 + h mod 7, et_nonce = ucast idx + 1\<rparr>)"

definition entry_pt :: "EntryTerms \<Rightarrow> fe" where
  "entry_pt t = pt_hash_of (et_amount t) (ucast (et_fee t)) (et_nonce t)"

definition chain_step :: "fe \<Rightarrow> fe \<Rightarrow> fe" where
  "chain_step dprev pt = poseidon3 HSM_FOLD_v1 dprev pt"

text \<open>The flag of the parse is not looked at.\<close>

definition fe_from_payload :: "bytes \<Rightarrow> fe" where
  "fe_from_payload p = ffb_value (fe_from_le_bytes (take 32 p))"

definition Z_SELEXEC :: nat where "Z_SELEXEC = 11"

definition build_witness_fe :: "fe \<Rightarrow> fe \<Rightarrow> fe \<Rightarrow> fe list" where
  "build_witness_fe dprev dnew pt =
     (let z = (replicate fx_NZ fe_zero)[Z_DPREV := dprev, Z_DNEW := dnew, Z_PTHASH := pt, Z_COMPUTED := pt,
                Z_NONCES := fe_from_u64 7, Z_NONCEPT := fe_from_u64 8, Z_LT := fe_one, Z_SELF := fe_zero,
                Z_ISPAD := fe_zero, Z_PC := fe_from_u64 1, Z_SELEXEC := fe_one, Z_NOTPAD := fe_one];
          z = z[Z_H := fe_mul (z ! Z_PC) (z ! Z_PC)]
      in z[Z_ONE := fe_one])"

definition chain_push :: "fe \<Rightarrow> Node \<Rightarrow> Node" where
  "chain_push v s = s\<lparr>nd_chain := nd_chain s @ [v], nd_limbs := nd_limbs s @ [limbs (fe_to_canonical v)]\<rparr>"

definition fnv1a :: "bytes \<Rightarrow> u64" where
  "fnv1a p = foldl (\<lambda>h b. (h XOR ucast b) * 1099511628211) 1469598103934665603 p"

definition seen_or_add :: "bytes \<Rightarrow> u64 list \<Rightarrow> bool \<times> u64 list" where
  "seen_or_add p seen =
     (let h = fnv1a p
      in if h \<in> set seen then (True, seen)
         else let seen = seen @ [h] in (False, if length seen > 256 then tl seen else seen))"

subsection \<open>The work of an epoch\<close>

definition POUW_INNER :: u32 where "POUW_INNER = 64"

definition tail_seed :: "u64 list \<Rightarrow> u64" where
  "tail_seed db = foldl (\<lambda>st k. st * SAMPLE_MUL + db ! k) 0 [0..<4]"

text \<open>The product an epoch multiplies, drawn from the tail of the chain.\<close>

definition epoch_matrices :: "u64 list \<Rightarrow> fe list \<times> fe list" where
  "epoch_matrices db =
     (let N = unat POUW_INNER; (Am, st) = grnd_fes (N * N) (tail_seed db); (Bm, st') = grnd_fes (N * N) st in (Am, Bm))"

definition run_epoch_pouw :: "NodeEnv \<Rightarrow> Node \<Rightarrow> Node option" where
  "run_epoch_pouw env s =
     (let N = unat POUW_INNER; (Am, Bm) = epoch_matrices (last (nd_limbs s))
      in case gemm (ne_dev env) Am Bm N of None \<Rightarrow> None
         | Some (gpu, Cm) \<Rightarrow>
             let vok = verify_gemm_v2 (prove_gemm_v2 Am Bm Cm N N N) Am Bm Cm
             in Some (s\<lparr>nd_weight := if vok then pouw_weight POUW_INNER 1 else 0\<rparr>))"

text \<open>What a peer recomputes: the product by the plain loops.\<close>

definition plain_product :: "fe list \<Rightarrow> fe list \<Rightarrow> nat \<Rightarrow> fe list" where
  "plain_product Am Bm N =
     concat (map (\<lambda>i. map (\<lambda>j. foldl (\<lambda>acc k. fe_add acc (fe_mul (Am ! (i * N + k)) (Bm ! (k * N + j)))) fe_zero [0..<N])
       [0..<N]) [0..<N])"

definition verify_peer_epoch_pouw :: "u64 list \<Rightarrow> u64 \<Rightarrow> bool" where
  "verify_peer_epoch_pouw chain_tail claimed_w =
     (let N = unat POUW_INNER; (Am, Bm) = epoch_matrices chain_tail; Cm = plain_product Am Bm N;
          vok = verify_gemm_v2 (prove_gemm_v2 Am Bm Cm N N N) Am Bm Cm;
          w = (if vok then pouw_weight POUW_INNER 1 else 0)
      in vok \<and> w = claimed_w)"

subsection \<open>The header of an epoch\<close>

definition low_words :: "fe \<Rightarrow> bytes" where
  "low_words v = concat (map (\<lambda>l. put_u32 (ucast l)) (limbs (fe_to_canonical v)))"

definition header_head :: "WhirProof \<Rightarrow> Node \<Rightarrow> bytes" where
  "header_head P s =
     put_u32 (nd_epoch s) @ low_words (acc_digest (nd_acc s)) @ put_u32 (of_nat (length (wire_encode P)))
     @ put_u32 POUW_INNER @ put_u64 (nd_weight s) @ low_words (wp_v P)"

definition header_tail :: "bytes \<Rightarrow> Node \<Rightarrow> bytes" where
  "header_tail wb s =
     wb @ concat (map (le_bytes 8) (rho_to_limbs (lw_rho (nd_cw s)))) @ fes_bytes (rx_z (nd_rx s)) @ fes_bytes (rx_E (nd_rx s))
     @ fe_to_le_bytes (rx_u (nd_rx s))"

text \<open>The fingerprint is kept even when the point does not compress and nothing is sent.\<close>

definition gossip_epoch_header :: "WhirProof \<Rightarrow> Node \<Rightarrow> Node" where
  "gossip_epoch_header P s =
     (let head = header_head P s; s = s\<lparr>nd_hash := map ucast (limbs (fe_to_canonical (wp_v P)))\<rparr>
      in case compress_v (lw_W (nd_cw s)) of None \<Rightarrow> s
         | Some wb \<Rightarrow>
             send_all \<lparr>m_type = 0x02, m_payload = head @ header_tail wb s\<rparr> (nd_fds s)
               (s\<lparr>nd_pi_size := of_nat (length (wire_encode P))\<rparr>))"

subsection \<open>The committee of an epoch\<close>

definition g2_to_hex :: "G2Pt \<Rightarrow> string" where
  "g2_to_hex P =
     (case G2_to_affine P of None \<Rightarrow> replicate 384 CHR ''0''
      | Some (x0, x1, y0, y1) \<Rightarrow> bytes_hex (concat (map (le_bytes 8) (x0 @ x1 @ y0 @ y1))))"

text \<open>A rejected deal keeps the old committee.\<close>

definition rotate_dkg :: "Node \<Rightarrow> Node" where
  "rotate_dkg s =
     (let prev = (if nd_limbs s = [] then zero_digest else from_bytes (concat (map (le_bytes 8) (last (nd_limbs s)))))
      in case deal (ucast (nd_epoch s)) 5 3 (Some prev) of None \<Rightarrow> s
         | Some T \<Rightarrow>
             s\<lparr>nd_dkg := Some \<lparr>dk_T = T,
                 dk_ok = length (filter (\<lambda>j. vss_verify_share T (of_nat j) (tr_Y T ! j)) [1..<unat (tr_n T) + 1]),
                 dk_pk = g2_to_hex (tr_C T ! 0)\<rparr>\<rparr>)"

definition reset_epoch_ceremony :: "Node \<Rightarrow> Node" where
  "reset_epoch_ceremony s =
     s\<lparr>nd_cer := (nd_cer s)\<lparr>ce_committed := False, ce_pool := [], ce_index := (\<lambda>_. None), ce_dec := [],
                   ce_thr := (\<lambda>_. []), ce_locks := (\<lambda>_. no_lock)\<rparr>,
        nd_vot := (nd_vot s)\<lparr>vo_prefs := [], vo_batches := []\<rparr>\<rparr>"

subsection \<open>Folding a decree\<close>

abbreviation node_rows :: "fe list \<Rightarrow> nat" where
  "node_rows z \<equiv> sat_relaxed (fx_A no_rows) (fx_B no_rows) (fx_C no_rows) (fresh z fx_NROWS)"

text \<open>The instance enters the accumulator and its commitment the running commitment, with one challenge.\<close>

definition live_fold :: "NodeEnv \<Rightarrow> fe list \<Rightarrow> u64 list \<Rightarrow> Node \<Rightarrow> Node option" where
  "live_fold env z rho4 s =
     (let rho_m = fe_from_canonical_limbs rho4; W_j = commit_z z rho4
      in case multifold_v2 (ne_shr env) (ne_ndebug env) (fx_A no_rows) (fx_B no_rows) (fx_C no_rows) (nd_rx s)
            [fresh z fx_NROWS] of None \<Rightarrow> None
         | Some M \<Rightarrow> Some (s\<lparr>nd_rx := m2_folded M, nd_cw := live_advance (nd_cw s) W_j rho_m (m2_r M ! 0)\<rparr>))"

definition chain_consistent :: "Node \<Rightarrow> bool" where
  "chain_consistent s \<longleftrightarrow> live_self_check (rx_z (nd_rx s)) (lw_rho (nd_cw s)) (lw_W (nd_cw s))"

definition count_entry :: "fe \<Rightarrow> Node \<Rightarrow> Node" where
  "count_entry pt s =
     s\<lparr>nd_count := nd_count s + 1,
        nd_acc := (nd_acc s)\<lparr>acc_digest := poseidon3 HSM_FOLD_v1 (acc_digest (nd_acc s)) pt,
                              acc_count := acc_count (nd_acc s) + 1\<rparr>\<rparr>"

text \<open>The proof is made over the padded vector of the accumulator; its verdict is only printed.\<close>

definition epoch_proof :: "Node \<Rightarrow> WhirProof" where
  "epoch_proof s = wrap_open (live_evals (rx_z (nd_rx s)) (rx_E (nd_rx s)) (rx_u (nd_rx s)))"

definition open_epoch :: "Node \<Rightarrow> Node" where
  "open_epoch s = s\<lparr>nd_acc := fold_head (nd_acc s) (acc_digest (nd_acc s)) fe_zero, nd_seq := 0\<rparr>"

definition next_epoch :: "Node \<Rightarrow> Node" where
  "next_epoch s = rotate_dkg (reset_epoch_ceremony (s\<lparr>nd_epoch := nd_epoch s + 1, nd_count := 0\<rparr>))"

definition complete_epoch :: "NodeEnv \<Rightarrow> Node \<Rightarrow> Node option" where
  "complete_epoch env s =
     (let P = epoch_proof s; s = s\<lparr>nd_acc := fold_close (nd_acc s)\<rparr>
      in case run_epoch_pouw env s of None \<Rightarrow> None
         | Some s \<Rightarrow>
             let s = open_epoch (gossip_epoch_header P (s\<lparr>nd_count := 0\<rparr>))
             in Some (next_epoch (s\<lparr>nd_work := (nd_work s)\<lparr>ws_claims := []\<rparr>, nd_audited := False\<rparr>)))"

text \<open>
  A skipped instance leaves the chain and the index as they were: what was pushed is popped. After a
  failed check of the commitment the chain, the index and the accumulator stay advanced.
\<close>

definition handle_decree :: "NodeEnv \<Rightarrow> bytes \<Rightarrow> Node \<Rightarrow> Node option" where
  "handle_decree env p s =
     (let (dup, seen) = seen_or_add p (nd_seen s); s = s\<lparr>nd_seen := seen\<rparr>
      in if dup \<or> length p < 32 then Some s
         else
           let dnew = fe_from_payload p; dprev = last (nd_chain s); idx = nd_seq s;
               pt = entry_pt (entry_terms (nd_epoch s) idx); z = build_witness_fe dprev dnew pt
           in if node_rows z \<noteq> fx_NROWS then Some s
              else let (ok, rho4) = rho_label (nd_epoch s) (ucast idx) dnew
                in if \<not> ok then Some s
                   else case live_fold env z rho4 ((chain_push dnew s)\<lparr>nd_seq := idx + 1\<rparr>) of None \<Rightarrow> None
                     | Some s \<Rightarrow>
                         if \<not> chain_consistent s then Some s
                         else let s = count_entry pt s
                           in if nd_count s \<ge> nd_k s then complete_epoch env s else Some s)"

subsection \<open>The start\<close>

definition genesis_limbs :: "u64 list" where "genesis_limbs = [1000, 2000, 0, 0]"

text \<open>The state when the listening socket opens: one entry folded as the accumulator itself.\<close>

definition node_genesis :: "u32 \<Rightarrow> NodeCommittee \<Rightarrow> Voting \<Rightarrow> Node" where
  "node_genesis k com vot =
     (let pt0 = entry_pt (entry_terms 0 0); d0 = fe_from_canonical_limbs genesis_limbs; d1 = chain_step d0 pt0;
          z = build_witness_fe d0 d1 pt0
      in \<lparr>nd_epoch = 0, nd_count = 0, nd_k = k,
          nd_acc = fold_head \<lparr>acc_digest = fe_zero, acc_count = 0, acc_pc = 0\<rparr> d0 fe_zero,
          nd_cw = init_live z 0, nd_seq = 1, nd_rx = fresh z fx_NROWS, nd_chain = [d0, d1],
          nd_limbs = [genesis_limbs, limbs (fe_to_canonical d1)], nd_seen = [], nd_weight = 0, nd_hash = [0, 0, 0, 0],
          nd_pi_size = 0, nd_work = \<lparr>ws_queue = [], ws_done = (\<lambda>_. None), ws_claims = []\<rparr>, nd_audited = False,
          nd_receipt = None, nd_rotations = 0, nd_dkg = None, nd_pulse = 0,
          nd_cer = \<lparr>ce_pool = [], ce_index = (\<lambda>_. None), ce_dec = [], ce_thr = (\<lambda>_. []), ce_root = replicate 32 0,
            ce_committed = False, ce_locks = (\<lambda>_. no_lock), ce_pool_epoch = 0, ce_beacon = zero_digest\<rparr>,
          nd_vot = vot, nd_com = com, nd_fds = [], nd_out = []\<rparr>)"

text \<open>
  One local entry: unlike a decree it takes its digest from the step of the chain, and what it pushed
  stays when the instance is skipped. A failed check of the commitment ends the process.
\<close>

definition local_entry :: "NodeEnv \<Rightarrow> Node \<Rightarrow> Node option" where
  "local_entry env s =
     (let dprev = last (nd_chain s); idx = nd_seq s; pt = entry_pt (entry_terms (nd_epoch s) idx);
          dnew = chain_step dprev pt; s = chain_push dnew s; z = build_witness_fe dprev dnew pt
      in if node_rows z \<noteq> fx_NROWS then Some s
         else let (ok, rho4) = rho_label (nd_epoch s) (ucast idx) dnew
           in if \<not> ok then Some s
              else case live_fold env z rho4 (s\<lparr>nd_seq := idx + 1\<rparr>) of None \<Rightarrow> None
                | Some s \<Rightarrow> if \<not> chain_consistent s then None else Some (count_entry pt s))"

fun local_entries :: "NodeEnv \<Rightarrow> nat \<Rightarrow> Node \<Rightarrow> Node option" where
  "local_entries env 0 s = Some s"
| "local_entries env (Suc n) s = (case local_entry env s of None \<Rightarrow> None | Some s \<Rightarrow> local_entries env n s)"

text \<open>Every seed that answers is asked for the shares of its epoch.\<close>

definition connect_seeds :: "int list \<Rightarrow> Node \<Rightarrow> Node" where
  "connect_seeds fds s =
     foldl (\<lambda>s fd. send_all \<lparr>m_type = 0x0B, m_payload = []\<rparr> [fd] (s\<lparr>nd_fds := nd_fds s @ [fd]\<rparr>)) s fds"

text \<open>From the genesis to the gossip loop: the entries of the first epoch, its proof and its header.\<close>

definition boot_epoch :: "NodeEnv \<Rightarrow> Node \<Rightarrow> Node option" where
  "boot_epoch env s =
     (case local_entries env (unat (nd_k s)) s of None \<Rightarrow> None
      | Some s \<Rightarrow>
          let P = epoch_proof s
          in case run_epoch_pouw env s of None \<Rightarrow> None
             | Some s \<Rightarrow>
                 Some (next_epoch (open_epoch (gossip_epoch_header P (s\<lparr>nd_acc := fold_close (nd_acc s)\<rparr>)))))"

subsection \<open>The pulse and the audit\<close>

definition pulse_payload :: "Node \<Rightarrow> bytes" where
  "pulse_payload s =
     concat (map (le_bytes 8) (last (nd_limbs s))) @ [ucast (nd_count s + nd_epoch s * nd_k s)] @ replicate 31 0"

text \<open>One tick of the second clock: every sixtieth injects a synthetic decree.\<close>

definition epoch_pulse :: "NodeEnv \<Rightarrow> Node \<Rightarrow> Node option" where
  "epoch_pulse env s =
     (if nd_pulse s + 1 < 60 then Some (s\<lparr>nd_pulse := nd_pulse s + 1\<rparr>)
      else let s = s\<lparr>nd_pulse := 0\<rparr>
        in if nd_count s < nd_k s then handle_decree env (pulse_payload s) s else Some s)"

text \<open>The claims of the epoch, once per pool: one claim in depth, then all of them.\<close>

definition quorum_audit :: "NodeEnv \<Rightarrow> Node \<Rightarrow> Node option" where
  "quorum_audit env s =
     (let claims = ws_claims (nd_work s)
      in if claims = [] \<or> nd_audited s then Some s
         else let sel = select_index (last (nd_limbs s)) (length claims); pl = claims ! sel; wid = claim_wid pl;
                  snap = (case ws_done (nd_work s) wid of None \<Rightarrow> ne_item env | Some w \<Rightarrow> w)
           in case verify_claim (ne_dev env) pl snap of None \<Rightarrow> None
              | Some out \<Rightarrow>
                (case verify_pool (ne_dev env) claims (ws_done (nd_work s)) DEFAULT_TIER2_BUDGET_MACS of None \<Rightarrow> None
                 | Some pool \<Rightarrow>
                     Some (s\<lparr>nd_audited := True, nd_rotations := nd_rotations s + 1,
                       nd_receipt := Some \<lparr>rc_epoch = nd_epoch s, rc_pool = length claims, rc_work = wid,
                         rc_outcome = out, rc_aggregate = pool\<rparr>\<rparr>)))"

text \<open>The tick of the work queue: the claim it makes is folded before it joins the pool of the audit.\<close>

definition node_work_tick :: "NodeEnv \<Rightarrow> u64 \<Rightarrow> Node \<Rightarrow> Node option" where
  "node_work_tick env now s =
     (case work_tick (ne_dev env) now ((nd_work s)\<lparr>ws_claims := []\<rparr>) of None \<Rightarrow> None
      | Some w \<Rightarrow>
          (case (case ws_claims w of [] \<Rightarrow> Some s | pl # _ \<Rightarrow> handle_decree env pl s) of None \<Rightarrow> None
           | Some s \<Rightarrow> Some (s\<lparr>nd_work := w\<lparr>ws_claims := ws_claims (nd_work s) @ ws_claims w\<rparr>\<rparr>)))"

subsection \<open>What the parts of a completion leave alone\<close>

lemma rotate_dkg_frame [simp]:
  "nd_epoch (rotate_dkg s) = nd_epoch s" "nd_count (rotate_dkg s) = nd_count s" "nd_k (rotate_dkg s) = nd_k s"
  "nd_acc (rotate_dkg s) = nd_acc s" "nd_cw (rotate_dkg s) = nd_cw s" "nd_seq (rotate_dkg s) = nd_seq s"
  "nd_rx (rotate_dkg s) = nd_rx s" "nd_chain (rotate_dkg s) = nd_chain s" "nd_limbs (rotate_dkg s) = nd_limbs s"
  "nd_seen (rotate_dkg s) = nd_seen s" "nd_weight (rotate_dkg s) = nd_weight s" "nd_hash (rotate_dkg s) = nd_hash s"
  "nd_work (rotate_dkg s) = nd_work s" "nd_audited (rotate_dkg s) = nd_audited s" "nd_pulse (rotate_dkg s) = nd_pulse s"
  "nd_cer (rotate_dkg s) = nd_cer s" "nd_vot (rotate_dkg s) = nd_vot s" "nd_com (rotate_dkg s) = nd_com s"
  "nd_fds (rotate_dkg s) = nd_fds s" "nd_out (rotate_dkg s) = nd_out s"
  by (simp_all add: rotate_dkg_def Let_def split: option.split)

lemma gossip_frame [simp]:
  "nd_epoch (gossip_epoch_header P s) = nd_epoch s" "nd_count (gossip_epoch_header P s) = nd_count s"
  "nd_k (gossip_epoch_header P s) = nd_k s" "nd_acc (gossip_epoch_header P s) = nd_acc s"
  "nd_cw (gossip_epoch_header P s) = nd_cw s" "nd_seq (gossip_epoch_header P s) = nd_seq s"
  "nd_rx (gossip_epoch_header P s) = nd_rx s" "nd_chain (gossip_epoch_header P s) = nd_chain s"
  "nd_limbs (gossip_epoch_header P s) = nd_limbs s" "nd_seen (gossip_epoch_header P s) = nd_seen s"
  "nd_weight (gossip_epoch_header P s) = nd_weight s" "nd_work (gossip_epoch_header P s) = nd_work s"
  "nd_audited (gossip_epoch_header P s) = nd_audited s" "nd_pulse (gossip_epoch_header P s) = nd_pulse s"
  "nd_cer (gossip_epoch_header P s) = nd_cer s" "nd_vot (gossip_epoch_header P s) = nd_vot s"
  "nd_com (gossip_epoch_header P s) = nd_com s" "nd_fds (gossip_epoch_header P s) = nd_fds s"
  by (simp_all add: gossip_epoch_header_def Let_def send_all_def split: option.split)

text \<open>
  With 64 rows the device is never asked, and the node verifies its own product, so the weight of an
  epoch is the same number whatever the chain holds; a peer confirms that number and no other.
\<close>

lemma epoch_matrices_wf:
  assumes "epoch_matrices db = (Am, Bm)"
  shows "canon Am" "canon Bm" "length Am = 64 * 64" "length Bm = 64 * 64"
proof -
  obtain st where a: "grnd_fes (64 * 64) (tail_seed db) = (Am, st)" and b: "Bm = fst (grnd_fes (64 * 64) st)"
    using assms by (auto simp: epoch_matrices_def POUW_INNER_def Let_def split: prod.splits)
  show "canon Am" "length Am = 64 * 64" using grnd_canon [of "64 * 64" "tail_seed db"] a by simp_all
  show "canon Bm" "length Bm = 64 * 64" using grnd_canon [of "64 * 64" st] b by simp_all
qed

lemma epoch_product_verifies:
  assumes "epoch_matrices db = (Am, Bm)"
  shows "verify_gemm_v2 (prove_gemm_v2 Am Bm (gemm_cpu Am Bm 64) 64 64 64) Am Bm (gemm_cpu Am Bm 64)"
  by (rule honest_gemm_v2) (use gemm_cpu_product epoch_matrices_wf [OF assms] in auto)

lemma pouw_weight_epoch: "pouw_weight POUW_INNER 1 = 262144"
  by (simp add: pouw_weight_def POUW_INNER_def)

lemma run_epoch_pouw_weight: "run_epoch_pouw env s = Some (s\<lparr>nd_weight := 262144\<rparr>)"
proof -
  obtain Am Bm where m: "epoch_matrices (last (nd_limbs s)) = (Am, Bm)" by fastforce
  have N: "unat POUW_INNER = 64" by (simp add: POUW_INNER_def)
  have g: "gemm (ne_dev env) Am Bm 64 = Some (False, gemm_cpu Am Bm 64)" by (simp add: gemm_def)
  show ?thesis
    unfolding run_epoch_pouw_def Let_def N m prod.case g option.case
    using epoch_product_verifies [OF m] pouw_weight_epoch by simp
qed

lemma concat_square: "concat (map (\<lambda>i. map (f i) [0..<n]) [0..<m]) = map (\<lambda>x. f (x div n) (x mod n)) [0..<m * n]"
proof (induction m)
  case (Suc m)
  have "[0..<Suc m * n] = [0..<m * n] @ map (\<lambda>j. j + m * n) [0..<n]"
    using upt_add_eq_append [of 0 "m * n" n] by (simp add: map_add_upt add.commute)
  then show ?case using Suc by (cases "n = 0") simp_all
qed simp

lemma plain_product_cpu: "plain_product A B n = gemm_cpu A B n"
  unfolding plain_product_def gemm_cpu_def dot_entry_def by (rule concat_square)

lemma peer_weight: "verify_peer_epoch_pouw tail w \<longleftrightarrow> w = 262144"
proof -
  obtain Am Bm where m: "epoch_matrices tail = (Am, Bm)" by fastforce
  have N: "unat POUW_INNER = 64" by (simp add: POUW_INNER_def)
  show ?thesis
    unfolding verify_peer_epoch_pouw_def Let_def N m prod.case plain_product_cpu
    using epoch_product_verifies [OF m] pouw_weight_epoch by auto
qed

text \<open>A completion resets the ceremony and the counters and opens the next epoch on the closed digest.\<close>

lemma complete_epoch_fields:
  assumes "complete_epoch env s = Some s'"
  shows "nd_epoch s' = nd_epoch s + 1" "nd_count s' = 0" "nd_k s' = nd_k s" "nd_seq s' = 0"
    and "nd_chain s' = nd_chain s" "nd_limbs s' = nd_limbs s" "nd_rx s' = nd_rx s" "nd_cw s' = nd_cw s"
    and "nd_seen s' = nd_seen s" "nd_pulse s' = nd_pulse s" "nd_com s' = nd_com s" "nd_fds s' = nd_fds s"
    and "acc_count (nd_acc s') = 0"
    and "acc_digest (nd_acc s') = f_head (f_close (acc_digest (nd_acc s)) (acc_count (nd_acc s))) fe_zero"
    and "ce_pool (nd_cer s') = []" "\<not> ce_committed (nd_cer s')" "ce_locks (nd_cer s') = (\<lambda>_. no_lock)"
    and "ws_claims (nd_work s') = []" "\<not> nd_audited s'" "vo_loop (nd_vot s') = vo_loop (nd_vot s)"
proof -
  note d = complete_epoch_def next_epoch_def open_epoch_def reset_epoch_ceremony_def fold_close_def fold_head_def
  show "nd_epoch s' = nd_epoch s + 1" "nd_count s' = 0" "nd_k s' = nd_k s" "nd_seq s' = 0"
    "nd_chain s' = nd_chain s" "nd_limbs s' = nd_limbs s" "nd_rx s' = nd_rx s" "nd_cw s' = nd_cw s"
    "nd_seen s' = nd_seen s" "nd_pulse s' = nd_pulse s" "nd_com s' = nd_com s" "nd_fds s' = nd_fds s"
    "acc_count (nd_acc s') = 0"
    "acc_digest (nd_acc s') = f_head (f_close (acc_digest (nd_acc s)) (acc_count (nd_acc s))) fe_zero"
    "ce_pool (nd_cer s') = []" "\<not> ce_committed (nd_cer s')" "ce_locks (nd_cer s') = (\<lambda>_. no_lock)"
    "ws_claims (nd_work s') = []" "\<not> nd_audited s'" "vo_loop (nd_vot s') = vo_loop (nd_vot s)"
    using assms by (auto simp: d Let_def run_epoch_pouw_weight)
qed

lemma complete_epoch_some: "\<exists>s'. complete_epoch env s = Some s'"
  by (simp add: complete_epoch_def Let_def run_epoch_pouw_weight)

subsection \<open>The invariant of the fold\<close>

text \<open>
  The accumulator satisfies the relaxed transition circuit, its commitment is a point of the curve, both
  copies of the chain say the same and the memory of fingerprints is bounded.
\<close>

definition node_ok :: "Node \<Rightarrow> bool" where
  "node_ok s \<longleftrightarrow> nd_chain s \<noteq> [] \<and> list_all is_canonical (nd_chain s)
     \<and> nd_limbs s = map (\<lambda>v. limbs (fe_to_canonical v)) (nd_chain s)
     \<and> rx_wf 8 16 (nd_rx s) \<and> sat_relaxed (fx_A no_rows) (fx_B no_rows) (fx_C no_rows) (nd_rx s) = 8
     \<and> live_ok (nd_cw s) \<and> is_canonical (acc_digest (nd_acc s)) \<and> length (nd_seen s) \<le> 256"

lemma fe_from_payload_canonical: "is_canonical (fe_from_payload p)"
proof (cases "ffb_ok (fe_from_le_bytes (take 32 p))")
  case True
  then show ?thesis
    by (auto simp: fe_from_payload_def fe_from_le_bytes_def Let_def canonical_RR split: if_splits)
next
  case False
  then show ?thesis by (auto simp: fe_from_payload_def fe_from_le_bytes_def Let_def split: if_splits)
qed

lemma build_witness_list:
  "build_witness_fe a b c = [fe_zero, a, b, c, c, fe_from_u64 7, fe_from_u64 8, fe_one, fe_zero, fe_zero, fe_from_u64 1, fe_one,
     fe_zero, fe_mul (fe_from_u64 1) (fe_from_u64 1), fe_one, fe_one]"
  by (simp add: build_witness_fe_def fx_NZ_def fx_wires Z_SELEXEC_def Let_def numeral_eq_Suc)

lemma build_witness_wf:
  assumes "is_canonical a" "is_canonical b" "is_canonical c"
  shows "length (build_witness_fe a b c) = 16" and "list_all is_canonical (build_witness_fe a b c)"
  using assms by (simp_all add: build_witness_list from_u64_dec(1))

text \<open>Whatever digest a decree carries, its witness solves the equations of the circuit.\<close>

lemma build_witness_equations:
  "fx_equations (build_witness_fe a b c)"
  by (simp add: fx_equations_def build_witness_list fx_wires Let_def fe_dec_ops fe_dec_from_u64 from_u64_dec(1) fe_dec_zero
      fe_dec_one)

lemma build_witness_sat:
  assumes "is_canonical a" "is_canonical b" "is_canonical c"
  shows "node_rows (build_witness_fe a b c) = fx_NROWS"
    and "fresh_sat 8 16 (fx_A no_rows) (fx_B no_rows) (fx_C no_rows) (fresh (build_witness_fe a b c) fx_NROWS)"
proof -
  note wf = build_witness_wf [OF assms]
  show s: "node_rows (build_witness_fe a b c) = fx_NROWS"
    using fx_satisfied [OF wf] build_witness_equations by (simp add: fx_NROWS_def)
  have "rx_wf 8 16 (fresh (build_witness_fe a b c) 8)" using wf by (simp add: rx_wf_def fresh_def list_all_iff)
  then show "fresh_sat 8 16 (fx_A no_rows) (fx_B no_rows) (fx_C no_rows) (fresh (build_witness_fe a b c) fx_NROWS)"
    using fresh_satisfied s by (simp add: fx_NROWS_def)
qed

lemma seen_or_add_bound: "length seen \<le> 256 \<Longrightarrow> length (snd (seen_or_add p seen)) \<le> 256"
  by (simp add: seen_or_add_def Let_def)

lemma live_fold_ok:
  assumes s: "node_ok s" and c: "is_canonical a" "is_canonical b" "is_canonical pt"
    and r: "length rho4 = 4" "limbs_val rho4 < pallas_p"
  obtains rx cw where "live_fold env (build_witness_fe a b pt) rho4 s = Some (s\<lparr>nd_rx := rx, nd_cw := cw\<rparr>)"
    and "node_ok (s\<lparr>nd_rx := rx, nd_cw := cw\<rparr>)"
proof -
  let ?z = "build_witness_fe a b pt" and ?A = "fx_A no_rows" and ?B = "fx_B no_rows" and ?C = "fx_C no_rows"
  have J: "\<forall>J\<in>set [fresh ?z fx_NROWS]. fresh_sat 8 16 ?A ?B ?C J" using build_witness_sat [OF c] by simp
  obtain M where M: "multifold_v2 (ne_shr env) (ne_ndebug env) ?A ?B ?C (nd_rx s) [fresh ?z fx_NROWS] = Some M"
    using multifold_returns [OF J] by fastforce
  have U: "rx_wf 8 16 (nd_rx s)" "sat_relaxed ?A ?B ?C (nd_rx s) = 8" using s by (simp_all add: node_ok_def)
  note F = multifold_v2_sat [OF fx_system U J M]
  have rM: "is_canonical (m2_r M ! 0)"
    using M by (auto simp: multifold_v2_def Let_def v2_challenge_def split: if_splits prod.splits)
  have "live_ok (live_advance (nd_cw s) (commit_z ?z rho4) (fe_from_canonical_limbs rho4) (m2_r M ! 0))"
    using s rM r by (intro live_advance_ok) (simp_all add: node_ok_def commit_z_def commit_vec_on canonical_limbs_Fe)
  then have "node_ok (s\<lparr>nd_rx := m2_folded M,
           nd_cw := live_advance (nd_cw s) (commit_z ?z rho4) (fe_from_canonical_limbs rho4) (m2_r M ! 0)\<rparr>)"
    using F s by (simp add: node_ok_def)
  with M show ?thesis
    by (intro that [where rx = "m2_folded M" and cw = "live_advance (nd_cw s) (commit_z ?z rho4) (fe_from_canonical_limbs rho4) (m2_r M ! 0)"])
      (simp_all add: live_fold_def Let_def)
qed

lemma chain_push_ok: "node_ok s \<Longrightarrow> is_canonical v \<Longrightarrow> node_ok (chain_push v s)"
  by (simp add: node_ok_def chain_push_def)

lemma node_ok_cong:
  assumes "nd_chain s = nd_chain t" "nd_limbs s = nd_limbs t" "nd_rx s = nd_rx t" "nd_cw s = nd_cw t"
    "is_canonical (acc_digest (nd_acc s)) = is_canonical (acc_digest (nd_acc t))" "nd_seen s = nd_seen t"
  shows "node_ok s = node_ok t"
  using assms by (simp add: node_ok_def)

lemma count_entry_ok: "node_ok s \<Longrightarrow> node_ok (count_entry pt s)"
  by (simp add: node_ok_def count_entry_def)

lemma complete_epoch_ok: "node_ok s \<Longrightarrow> complete_epoch env s = Some s' \<Longrightarrow> node_ok s'"
  using complete_epoch_fields [of env s s'] by (simp add: node_ok_def f_head_def)

text \<open>
  What a decree does that is new and long enough: it is folded, whatever its digest. \<open>t\<close> is the state
  after the fold and before the check of the commitment.
\<close>

lemma handle_decree_cases:
  assumes s: "node_ok s"
  obtains (dup) "fnv1a p \<in> set (nd_seen s)" "handle_decree env p s = Some s"
  | (short) "fnv1a p \<notin> set (nd_seen s)" "length p < 32"
      "handle_decree env p s = Some (s\<lparr>nd_seen := snd (seen_or_add p (nd_seen s))\<rparr>)"
  | (folded) t where "fnv1a p \<notin> set (nd_seen s)" "length p \<ge> 32" "node_ok t"
      "nd_chain t = nd_chain s @ [fe_from_payload p]" "nd_seen t = snd (seen_or_add p (nd_seen s))"
      "nd_seq t = nd_seq s + 1" "nd_acc t = nd_acc s" "nd_count t = nd_count s" "nd_k t = nd_k s" "nd_epoch t = nd_epoch s"
      "nd_pulse t = nd_pulse s" "nd_com t = nd_com s" "nd_fds t = nd_fds s" "nd_cer t = nd_cer s" "nd_vot t = nd_vot s"
      "nd_work t = nd_work s" "nd_out t = nd_out s"
      "handle_decree env p s =
         (if \<not> chain_consistent t then Some t
          else let u = count_entry (entry_pt (entry_terms (nd_epoch s) (nd_seq s))) t
            in if nd_count u \<ge> nd_k u then complete_epoch env u else Some u)"
proof (cases "fnv1a p \<in> set (nd_seen s)")
  case True
  then show ?thesis using dup by (simp add: handle_decree_def seen_or_add_def Let_def)
next
  case new: False
  obtain seen where so: "seen_or_add p (nd_seen s) = (False, seen)" using new by (simp add: seen_or_add_def Let_def)
  let ?s = "s\<lparr>nd_seen := seen\<rparr>"
  show ?thesis
  proof (cases "length p < 32")
    case True
    then show ?thesis using short new so by (simp add: handle_decree_def)
  next
    case False
    let ?d = "fe_from_payload p" and ?pt = "entry_pt (entry_terms (nd_epoch s) (nd_seq s))"
    let ?z = "build_witness_fe (last (nd_chain s)) ?d ?pt"
    let ?u = "(chain_push ?d ?s)\<lparr>nd_seq := nd_seq s + 1\<rparr>"
    have c: "is_canonical (last (nd_chain s))" "is_canonical ?d" "is_canonical ?pt"
      using s fe_from_payload_canonical by (auto simp: node_ok_def list_all_iff entry_pt_def pt_hash_of_def Let_def)
    have "node_ok ?s" using s seen_or_add_bound [of "nd_seen s" p] so by (simp add: node_ok_def)
    then have u: "node_ok ?u" using chain_push_ok [OF _ c(2), of ?s] by (simp add: node_ok_def)
    obtain rho4 where rho: "rho_label (nd_epoch s) (ucast (nd_seq s)) ?d = (True, rho4)"
      using rho_label_canonical(1) by (metis prod.collapse)
    note r4 = rho_label_canonical(2,3) [of "nd_epoch s" "ucast (nd_seq s)" ?d, unfolded rho snd_conv]
    obtain rx cw where lf: "live_fold env ?z rho4 ?u = Some (?u\<lparr>nd_rx := rx, nd_cw := cw\<rparr>)"
      and t: "node_ok (?u\<lparr>nd_rx := rx, nd_cw := cw\<rparr>)"
      using live_fold_ok [OF u c r4] by blast
    let ?t = "?u\<lparr>nd_rx := rx, nd_cw := cw\<rparr>"
    have "handle_decree env p s =
         (if \<not> chain_consistent ?t then Some ?t
          else let u = count_entry ?pt ?t in if nd_count u \<ge> nd_k u then complete_epoch env u else Some u)"
      unfolding handle_decree_def so using False build_witness_sat(1) [OF c] rho lf by (simp add: Let_def)
    then show ?thesis using folded [of ?t] new False t so by (simp add: chain_push_def)
  qed
qed

lemma handle_decree_ok:
  assumes "node_ok s" and "handle_decree env p s = Some s'"
  shows "node_ok s'"
proof (rule handle_decree_cases [OF assms(1), where p = p and env = env])
  assume "length p < 32" "handle_decree env p s = Some (s\<lparr>nd_seen := snd (seen_or_add p (nd_seen s))\<rparr>)"
  then show ?thesis using assms seen_or_add_bound [of "nd_seen s" p] by (auto simp: node_ok_def)
next
  fix t
  assume t: "node_ok t" and h: "handle_decree env p s = (if \<not> chain_consistent t then Some t
      else let u = count_entry (entry_pt (entry_terms (nd_epoch s) (nd_seq s))) t
        in if nd_count u \<ge> nd_k u then complete_epoch env u else Some u)"
  show ?thesis using assms(2) t h count_entry_ok [OF t] by (auto simp: Let_def intro: complete_epoch_ok split: if_splits)
qed (use assms in auto)

lemma handle_decree_returns: "node_ok s \<Longrightarrow> \<exists>s'. handle_decree env p s = Some s'"
  using complete_epoch_some
  by (rule_tac handle_decree_cases [where s = s and p = p and env = env]) (auto simp: Let_def)

text \<open>Outside the boot: fewer entries than an epoch holds are counted, and the accumulator has the same count.\<close>

definition node_books :: "Node \<Rightarrow> bool" where
  "node_books s \<longleftrightarrow> nd_count s < nd_k s \<and> acc_count (nd_acc s) = ucast (nd_count s)"

lemma ucast_suc_u32: "(x :: u32) < y \<Longrightarrow> (ucast (x + 1) :: u64) = ucast x + 1"
proof -
  assume "x < y"
  moreover have "unat y < 2 ^ 32" using unsigned_less [of y] by simp
  ultimately have "unat x + 1 < 2 ^ 32" by (simp add: word_less_nat_alt)
  then have "unat (x + 1) = unat x + 1" by (simp add: unat_word_ariths)
  then show ?thesis
    using \<open>unat x + 1 < 2 ^ 32\<close>
    by (simp add: word_unat_eq_iff unsigned_ucast_eq unat_word_ariths take_bit_eq_mod)
qed

lemma count_entry_books:
  assumes "node_books t"
  shows "nd_k (count_entry pt t) \<le> nd_count (count_entry pt t) \<Longrightarrow> nd_count t + 1 = nd_k t"
    and "\<not> nd_k (count_entry pt t) \<le> nd_count (count_entry pt t) \<Longrightarrow> node_books (count_entry pt t)"
proof -
  have lt: "nd_count t < nd_k t" using assms by (simp add: node_books_def)
  show "nd_count t + 1 = nd_k t" if "nd_k (count_entry pt t) \<le> nd_count (count_entry pt t)"
    using that inc_le [OF lt] by (simp add: count_entry_def add.commute)
  show "node_books (count_entry pt t)" if "\<not> nd_k (count_entry pt t) \<le> nd_count (count_entry pt t)"
    using that assms ucast_suc_u32 [OF lt] by (simp add: node_books_def count_entry_def)
qed

lemma handle_decree_books:
  assumes "node_ok s" and b: "node_books s" and h: "handle_decree env p s = Some s'"
  shows "node_books s'" and "nd_k s' = nd_k s" and "nd_pulse s' = nd_pulse s"
proof -
  have "node_books s' \<and> nd_k s' = nd_k s \<and> nd_pulse s' = nd_pulse s"
  proof (rule handle_decree_cases [OF assms(1), where p = p and env = env], goal_cases)
    case folded: (3 t)
    have t: "node_books t" using b folded by (simp add: node_books_def)
    have k: "0 < nd_k t" using t by (auto simp: node_books_def word_neq_0_conv [symmetric])
    let ?u = "count_entry (entry_pt (entry_terms (nd_epoch s) (nd_seq s))) t"
    have u: "nd_k ?u = nd_k t" "nd_pulse ?u = nd_pulse t" by (simp_all add: count_entry_def)
    consider "s' = t" | "nd_k ?u \<le> nd_count ?u" "complete_epoch env ?u = Some s'" | "\<not> nd_k ?u \<le> nd_count ?u" "s' = ?u"
      using h unfolding folded(18) Let_def
      by (cases "chain_consistent t"; cases "nd_k ?u \<le> nd_count ?u") simp_all
    then show ?thesis
    proof cases
      case 1
      then show ?thesis using t folded by simp
    next
      case 2
      note c = complete_epoch_fields [OF 2(2)]
      show ?thesis using c(2,3,10,13) u k folded by (simp add: node_books_def)
    next
      case 3
      then show ?thesis using count_entry_books(2) [OF t] u folded by simp
    qed
  qed (use b h in \<open>auto simp: node_books_def\<close>)
  then show "node_books s'" "nd_k s' = nd_k s" "nd_pulse s' = nd_pulse s" by simp_all
qed

subsection \<open>The start keeps the invariant\<close>

lemma entry_pt_canonical: "is_canonical (entry_pt t)"
  by (simp add: entry_pt_def pt_hash_of_def Let_def)

lemma chain_step_canonical: "is_canonical (chain_step d pt)"
  by (simp add: chain_step_def)

lemma genesis_element: "is_canonical (fe_from_canonical_limbs genesis_limbs)"
  "limbs (fe_to_canonical (fe_from_canonical_limbs genesis_limbs)) = genesis_limbs"
proof -
  have c: "is_canonical (fe_of_limbs genesis_limbs)"
    by (simp add: is_canonical_iff genesis_limbs_def pallas_p_eq)
  show "is_canonical (fe_from_canonical_limbs genesis_limbs)"
    unfolding fe_from_canonical_limbs_def by (rule canonical_mul_left [OF c])
  show "limbs (fe_to_canonical (fe_from_canonical_limbs genesis_limbs)) = genesis_limbs"
    unfolding fe_from_canonical_limbs_def fe_leave_enter [OF c] by (simp add: genesis_limbs_def)
qed

lemma node_genesis_start [simp]:
  "nd_k (node_genesis k com vot) = k" "nd_epoch (node_genesis k com vot) = 0" "nd_count (node_genesis k com vot) = 0"
  "nd_pulse (node_genesis k com vot) = 0" "nd_fds (node_genesis k com vot) = []" "nd_com (node_genesis k com vot) = com"
  "nd_vot (node_genesis k com vot) = vot"
  by (simp_all add: node_genesis_def Let_def)

lemma node_genesis_ok: "node_ok (node_genesis k com vot)"
proof -
  let ?d0 = "fe_from_canonical_limbs genesis_limbs" and ?pt = "entry_pt (entry_terms 0 0)"
  let ?z = "build_witness_fe ?d0 (chain_step ?d0 ?pt) ?pt"
  note c = genesis_element(1) chain_step_canonical [of ?d0 ?pt] entry_pt_canonical [of "entry_terms 0 0"]
  show ?thesis
    using build_witness_sat [OF c] build_witness_wf [OF c] c genesis_element(2)
    by (simp add: node_ok_def node_genesis_def Let_def init_live_ok fresh_sat_def fx_NROWS_def fold_head_def f_head_def)
qed

lemma local_entry_ok:
  assumes s: "node_ok s" and l: "local_entry env s = Some s'"
  shows "node_ok s'" and "nd_k s' = nd_k s" and "nd_epoch s' = nd_epoch s" and "nd_pulse s' = nd_pulse s"
proof -
  let ?idx = "nd_seq s" and ?pt = "entry_pt (entry_terms (nd_epoch s) (nd_seq s))"
  let ?d = "chain_step (last (nd_chain s)) ?pt"
  let ?z = "build_witness_fe (last (nd_chain s)) ?d ?pt" and ?u = "(chain_push ?d s)\<lparr>nd_seq := ?idx + 1\<rparr>"
  have c: "is_canonical (last (nd_chain s))" "is_canonical ?d" "is_canonical ?pt"
    using s by (auto simp: node_ok_def list_all_iff entry_pt_canonical chain_step_canonical)
  have u: "node_ok ?u" using chain_push_ok [OF s c(2)] by (simp add: node_ok_def)
  obtain rho4 where rho: "rho_label (nd_epoch s) (ucast ?idx) ?d = (True, rho4)"
    using rho_label_canonical(1) by (metis prod.collapse)
  note r4 = rho_label_canonical(2,3) [of "nd_epoch s" "ucast ?idx" ?d, unfolded rho snd_conv]
  obtain rx cw where lf: "live_fold env ?z rho4 ?u = Some (?u\<lparr>nd_rx := rx, nd_cw := cw\<rparr>)"
    and t: "node_ok (?u\<lparr>nd_rx := rx, nd_cw := cw\<rparr>)"
    using live_fold_ok [OF u c r4] by blast
  have "s' = count_entry ?pt (?u\<lparr>nd_rx := rx, nd_cw := cw\<rparr>)"
    using l build_witness_sat(1) [OF c] rho lf by (auto simp: local_entry_def Let_def chain_push_def split: if_splits)
  then show "node_ok s'" "nd_k s' = nd_k s" "nd_epoch s' = nd_epoch s" "nd_pulse s' = nd_pulse s"
    using count_entry_ok [OF t] by (simp_all add: count_entry_def chain_push_def)
qed

lemma local_entries_ok:
  "node_ok s \<Longrightarrow> local_entries env n s = Some s' \<Longrightarrow> node_ok s' \<and> nd_k s' = nd_k s \<and> nd_epoch s' = nd_epoch s \<and> nd_pulse s' = nd_pulse s"
proof (induction n arbitrary: s)
  case (Suc n)
  then obtain t where t: "local_entry env s = Some t" "local_entries env n t = Some s'" by (auto split: option.splits)
  then show ?case using Suc.IH [OF _ t(2)] local_entry_ok [OF Suc.prems(1) t(1)] by simp
qed simp

definition at_start :: "Node \<Rightarrow> bool" where
  "at_start s \<longleftrightarrow> node_ok s \<and> nd_epoch s = 0 \<and> nd_pulse s = 0"

lemma genesis_starts: "at_start (node_genesis k com vot)"
  by (simp add: at_start_def node_genesis_ok)

lemma connect_seeds_starts [simp]:
  "at_start (connect_seeds fds s) = at_start s" "nd_k (connect_seeds fds s) = nd_k s"
  unfolding connect_seeds_def
  by (induction fds arbitrary: s) (simp_all add: at_start_def node_ok_def send_all_def)

lemma boot_epoch_ok:
  assumes "boot_epoch env g = Some s" and "at_start g" and "0 < nd_k g"
  shows "node_ok s" and "node_books s" and "nd_epoch s = 1" and "nd_pulse s = 0"
proof -
  obtain t where t: "local_entries env (unat (nd_k g)) g = Some t"
    using assms(1) by (auto simp: boot_epoch_def split: option.splits)
  have T: "node_ok t" "nd_k t = nd_k g" "nd_epoch t = 0" "nd_pulse t = 0"
    using local_entries_ok [OF _ t] assms(2) by (simp_all add: at_start_def)
  have s: "s = next_epoch (open_epoch (gossip_epoch_header (epoch_proof t)
      (t\<lparr>nd_weight := 262144, nd_acc := fold_close (nd_acc t)\<rparr>)))"
    using assms(1) t by (simp add: boot_epoch_def Let_def run_epoch_pouw_weight)
  note d = next_epoch_def open_epoch_def reset_epoch_ceremony_def fold_close_def fold_head_def
  show "node_ok s" using T by (simp add: s d node_ok_def f_head_def)
  show "node_books s" "nd_epoch s = 1" "nd_pulse s = 0" using T assms(3) by (simp_all add: s d node_books_def)
qed

subsection \<open>The pulse comes to rest\<close>

text \<open>
  A pulse repeats the tail of the chain, so the tail stays, and all that changes from one pulse to the
  next is one byte. After 256 of them the payload is one the node has seen.
\<close>

definition pulse_bytes :: "bytes \<Rightarrow> u8 \<Rightarrow> bytes" where
  "pulse_bytes tail b = tail @ [b] @ replicate 31 0"

definition pulse_index :: "Node \<Rightarrow> u8" where
  "pulse_index s = ucast (nd_count s + nd_epoch s * nd_k s)"

definition chain_tail :: "Node \<Rightarrow> bytes" where
  "chain_tail s = fe_to_le_bytes (last (nd_chain s))"

definition at_rest :: "Node \<Rightarrow> bool" where
  "at_rest s \<longleftrightarrow> fnv1a (pulse_payload s) \<in> set (nd_seen s)"

lemma pulse_payload_bytes:
  assumes "node_ok s"
  shows "pulse_payload s = pulse_bytes (chain_tail s) (pulse_index s)"
  using assms
  by (simp add: node_ok_def pulse_payload_def pulse_bytes_def chain_tail_def pulse_index_def fe_to_le_bytes_def limbs_to_bytes_def
      last_map)

lemma pulse_digest:
  assumes "node_ok s"
  shows "fe_from_payload (pulse_payload s) = last (nd_chain s)" and "length (pulse_payload s) = 64"
proof -
  have "is_canonical (last (nd_chain s))" using assms by (simp add: node_ok_def list_all_iff)
  then show "fe_from_payload (pulse_payload s) = last (nd_chain s)"
    by (simp add: pulse_payload_bytes [OF assms] fe_from_payload_def pulse_bytes_def chain_tail_def fe_from_to_bytes)
  show "length (pulse_payload s) = 64"
    by (simp add: pulse_payload_bytes [OF assms] pulse_bytes_def chain_tail_def)
qed

lemma at_rest_stays: "node_ok s \<Longrightarrow> at_rest s \<Longrightarrow> handle_decree env (pulse_payload s) s = Some s"
  by (rule handle_decree_cases [of s "pulse_payload s" env]) (auto simp: at_rest_def)

text \<open>The last \<open>i\<close> fingerprints are those of the last \<open>i\<close> indices on this tail.\<close>

definition pulsed :: "nat \<Rightarrow> Node \<Rightarrow> bool" where
  "pulsed i s \<longleftrightarrow> (\<exists>pre. nd_seen s
     = pre @ map (\<lambda>j. fnv1a (pulse_bytes (chain_tail s) (pulse_index s - of_nat i + of_nat j))) [0..<i])"

lemma pulsed_256:
  assumes "node_ok s" and "pulsed 256 s"
  shows "at_rest s"
proof -
  have z: "(256 :: u8) = 0" by simp
  have w: "pulse_index s - of_nat 256 + of_nat 0 = pulse_index s" unfolding of_nat_numeral z by simp
  have "fnv1a (pulse_bytes (chain_tail s) (pulse_index s))
      \<in> set (map (\<lambda>j. fnv1a (pulse_bytes (chain_tail s) (pulse_index s - of_nat 256 + of_nat j))) [0..<256])"
    unfolding set_map by (rule image_eqI [where x = 0]) (simp_all only: w atLeastLessThan_iff set_upt, simp)
  then show ?thesis using assms by (auto simp: at_rest_def pulse_payload_bytes pulsed_def)
qed

lemma seen_or_add_suffix:
  assumes "fnv1a p \<notin> set seen" and "seen = pre @ xs" and "length xs < 256"
  shows "\<exists>pre'. snd (seen_or_add p seen) = pre' @ xs @ [fnv1a p]"
proof (cases pre)
  case Nil
  then show ?thesis using assms by (auto simp: seen_or_add_def Let_def)
next
  case (Cons h pre')
  then have "snd (seen_or_add p seen) = pre @ xs @ [fnv1a p] \<or> snd (seen_or_add p seen) = pre' @ xs @ [fnv1a p]"
    using assms by (auto simp: seen_or_add_def Let_def)
  then show ?thesis by blast
qed

lemma pulse_index_next:
  assumes "nd_count t + 1 = nd_k t" and "nd_epoch s = nd_epoch t + 1" "nd_count s = 0" "nd_k s = nd_k t"
  shows "pulse_index s = ucast (nd_count t + nd_epoch t * nd_k t + 1)"
  unfolding pulse_index_def assms(2-4) assms(1) [symmetric] by (simp add: algebra_simps)

lemma ucast_suc_u8: "(ucast ((x :: u32) + 1) :: u8) = ucast x + 1"
  by (simp add: word_unat_eq_iff unsigned_ucast_eq unat_word_ariths take_bit_eq_mod mod_mod_cancel mod_simps)

text \<open>One pulse of a node that moves: at rest afterwards, or one index further.\<close>

lemma pulse_moves:
  assumes s: "node_ok s" "node_books s" and i: "pulsed i s" "i < 256"
    and h: "handle_decree env (pulse_payload s) s = Some s'" and m: "\<not> at_rest s"
  shows "at_rest s' \<or> pulsed (Suc i) s'"
proof -
  let ?p = "pulse_payload s"
  have new: "fnv1a ?p \<notin> set (nd_seen s)" using m by (simp add: at_rest_def)
  obtain pre where pre: "snd (seen_or_add ?p (nd_seen s))
      = pre @ map (\<lambda>j. fnv1a (pulse_bytes (chain_tail s) (pulse_index s - of_nat i + of_nat j))) [0..<i] @ [fnv1a ?p]"
    using i seen_or_add_suffix [OF new] unfolding pulsed_def by fastforce
  then have sn: "snd (seen_or_add ?p (nd_seen s))
      = pre @ map (\<lambda>j. fnv1a (pulse_bytes (chain_tail s) (pulse_index s - of_nat i + of_nat j))) [0..<Suc i]"
    by (simp add: pulse_payload_bytes [OF s(1)])
  have step: ?thesis if t: "chain_tail s' = chain_tail s" "nd_seen s' = snd (seen_or_add ?p (nd_seen s))"
    "pulse_index s' = pulse_index s + 1"
    using sn by (auto simp: pulsed_def t intro!: exI [of _ pre])
  show ?thesis
  proof (rule handle_decree_cases [OF s(1), where p = ?p and env = env], goal_cases)
    case (3 t)
    let ?u = "count_entry (entry_pt (entry_terms (nd_epoch s) (nd_seq s))) t"
    have tb: "node_books t" using s(2) 3 by (simp add: node_books_def)
    have tail: "chain_tail t = chain_tail s" using 3 pulse_digest [OF s(1)] by (simp add: chain_tail_def)
    have idx: "pulse_index s = ucast (nd_count t + nd_epoch t * nd_k t)" using 3 by (simp add: pulse_index_def)
    consider "s' = t" | "nd_k ?u \<le> nd_count ?u" "complete_epoch env ?u = Some s'" | "\<not> nd_k ?u \<le> nd_count ?u" "s' = ?u"
      using h unfolding 3(18) Let_def by (cases "chain_consistent t"; cases "nd_k ?u \<le> nd_count ?u") simp_all
    then show ?thesis
    proof cases
      case 1
      then have "pulse_payload s' = ?p"
        using 3 tail idx by (simp add: pulse_payload_bytes [OF s(1)] pulse_payload_bytes pulse_index_def)
      then show ?thesis using 1 3(5) pre by (simp add: at_rest_def)
    next
      case 2
      note c = complete_epoch_fields [OF 2(2)]
      have "pulse_index s' = ucast (nd_count t + nd_epoch t * nd_k t + 1)"
        by (rule pulse_index_next [OF count_entry_books(1) [OF tb 2(1)]]) (use c in \<open>simp_all add: count_entry_def\<close>)
      then show ?thesis using step c tail 3(5) idx ucast_suc_u8 by (simp add: count_entry_def chain_tail_def)
    next
      case c: 3
      have "pulse_index s' = ucast (nd_count t + nd_epoch t * nd_k t + 1)"
        using c by (simp add: pulse_index_def count_entry_def algebra_simps)
      then show ?thesis using step c tail 3(5) idx ucast_suc_u8 by (simp add: count_entry_def chain_tail_def)
    qed
  qed (use new pulse_digest [OF s(1)] in auto)
qed

text \<open>Ticks of a node that nobody talks to.\<close>

fun idle :: "NodeEnv \<Rightarrow> nat \<Rightarrow> Node \<Rightarrow> Node option" where
  "idle env 0 s = Some s"
| "idle env (Suc n) s = (case epoch_pulse env s of None \<Rightarrow> None | Some t \<Rightarrow> idle env n t)"

lemma idle_add: "idle env (m + n) s = (case idle env m s of None \<Rightarrow> None | Some t \<Rightarrow> idle env n t)"
  by (induction m arbitrary: s) (simp_all split: option.split)

lemma idle_waits:
  "unat (nd_pulse s) + n < 60 \<Longrightarrow> idle env n s = Some (s\<lparr>nd_pulse := nd_pulse s + of_nat n\<rparr>)"
proof (induction n arbitrary: s)
  case (Suc n)
  have w: "unat (nd_pulse s + 1) = unat (nd_pulse s) + 1" using Suc.prems by (simp add: unat_word_ariths)
  have "epoch_pulse env s = Some (s\<lparr>nd_pulse := nd_pulse s + 1\<rparr>)"
    using Suc.prems w by (simp add: epoch_pulse_def word_less_nat_alt)
  then show ?case using Suc.IH [of "s\<lparr>nd_pulse := nd_pulse s + 1\<rparr>"] Suc.prems w by (simp add: add.assoc)
qed simp

lemma idle_minute:
  assumes "nd_pulse s = 0" and "node_books s"
  shows "idle env 60 s = handle_decree env (pulse_payload s) s"
proof -
  have u: "idle env 59 s = Some (s\<lparr>nd_pulse := 59\<rparr>)" using idle_waits [of s 59 env] assms(1) by simp
  have z: "s\<lparr>nd_pulse := 0\<rparr> = s" using assms(1) by simp
  have "epoch_pulse env (s\<lparr>nd_pulse := 59\<rparr>) = handle_decree env (pulse_payload s) s"
    using assms by (simp add: epoch_pulse_def node_books_def Let_def) (simp only: z)
  then show ?thesis using idle_add [of env 59 1 s] u by (simp split: option.split)
qed

lemma rest_reached:
  assumes "node_ok s" "node_books s" "nd_pulse s = 0" and "pulsed i s" and "i \<le> 256"
  shows "\<exists>t. idle env (60 * (256 - i)) s = Some t \<and> node_ok t \<and> node_books t \<and> nd_pulse t = 0 \<and> at_rest t"
  using assms
proof (induction "256 - i" arbitrary: i s)
  case 0
  then show ?case using pulsed_256 [of s] by (auto intro!: exI [of _ s])
next
  case (Suc n)
  obtain t where t: "handle_decree env (pulse_payload s) s = Some t" using handle_decree_returns [OF Suc.prems(1)] by blast
  have T: "node_ok t" "node_books t" "nd_pulse t = 0"
    using handle_decree_ok [OF Suc.prems(1) t] handle_decree_books [OF Suc.prems(1,2) t] Suc.prems(3) by simp_all
  have m: "idle env 60 s = Some t" using idle_minute Suc.prems t by simp
  have "256 - i = Suc n" "n = 256 - Suc i" using Suc.hyps(2) by simp_all
  then have d: "60 * (256 - i) = 60 + 60 * n" by simp
  show ?case
  proof (cases "at_rest t")
    case True
    have "idle env (60 * k) t = Some t" for k
      using idle_minute [OF T(3,2)] at_rest_stays [OF T(1) True] by (induction k) (simp_all add: idle_add)
    then show ?thesis using True T m by (simp add: d idle_add)
  next
    case False
    have "\<not> at_rest s" using False at_rest_stays [OF Suc.prems(1)] t by auto
    then have "pulsed (Suc i) t"
      using pulse_moves [OF Suc.prems(1,2,4) _ t] Suc.hyps(2) False by simp
    then show ?thesis using Suc.hyps(1) [of "Suc i" t] \<open>n = 256 - Suc i\<close> T Suc.hyps(2) m by (simp add: d idle_add)
  qed
qed

text \<open>After 256 minutes the pulses change nothing any more, whether or not their entries were counted.\<close>

lemma idle_comes_to_rest:
  assumes "node_ok s" "node_books s" "nd_pulse s = 0"
  shows "\<exists>t. idle env (60 * 256) s = Some t \<and> (\<forall>n. idle env (60 * n) t = Some t)"
proof -
  have "pulsed 0 s" by (simp add: pulsed_def)
  then obtain t where t: "idle env (60 * 256) s = Some t" "node_ok t" "node_books t" "nd_pulse t = 0" "at_rest t"
    using rest_reached [OF assms, of 0 env] by auto
  have "idle env (60 * n) t = Some t" for n
    using idle_minute [OF t(4,3)] at_rest_stays [OF t(2,5)] by (induction n) (simp_all add: idle_add)
  then show ?thesis using t(1) by blast
qed

subsection \<open>The header\<close>

text \<open>A header is 916 bytes, and its fields are where the receiver looks for them.\<close>

lemma length_low_words: "length (low_words v) = 16"
proof -
  have "length (concat (map (\<lambda>l. put_u32 (ucast (l :: u64))) xs)) = 4 * length xs" for xs
    by (induction xs) (simp_all add: put_u32_def)
  then show ?thesis by (simp add: low_words_def)
qed

lemma length_header_head: "length (header_head P s) = 52"
  by (simp add: header_head_def length_low_words put_u32_def put_u64_def)

lemma length_concat_le8: "length (concat (map (le_bytes 8) (xs :: u64 list))) = 8 * length xs"
  by (induction xs) simp_all

lemma length_header_tail:
  assumes "length wb = 32" and "length (rx_z (nd_rx s)) = 16" and "length (rx_E (nd_rx s)) = 8"
  shows "length (header_tail wb s) = 864"
  using assms by (simp add: header_tail_def rho_to_limbs_def length_concat_le8)
end
