(* ===== verification/Node_Order.thy ===== *)
theory Node_Order
  imports Node_Fold
begin

text \<open>
  The encrypted mempool of the node and its ceremony (\<open>src/tools/epoch_node.cpp\<close>): envelopes are
  stored under their hash, ordered under the beacon once the pool is full, locked by signatures of the
  committee and decrypted from shares that arrive alone (type 8) or in batches (type 12). A decrypted
  payload is folded as a decree. The messages are handled as the loop of \<open>main\<close> does.
\<close>

subsection \<open>Decryption\<close>

definition stored_point :: "bytes \<Rightarrow> G2Pt" where
  "stored_point ser =
     G2_from_affine (read_le_limbs 0 ser) (read_le_limbs 48 ser) (read_le_limbs 96 ser) (read_le_limbs 144 ser)"

definition envelope_shares :: "nat \<Rightarrow> Node \<Rightarrow> (u64 \<times> G2Pt) list" where
  "envelope_shares eix s =
     (let c = nd_cer s
      in (if eix < length (ce_dec c) \<and> length (ce_dec c ! eix) \<ge> 192
          then [(ucast (nc_self (nd_com s)), stored_point (ce_dec c ! eix))] else []) @ ce_thr c eix)"

definition pad_payload :: "bytes \<Rightarrow> bytes" where
  "pad_payload pl = pl @ replicate (32 - length pl) 0"

definition mark_decrypted :: "nat \<Rightarrow> bytes \<Rightarrow> Node \<Rightarrow> Node" where
  "mark_decrypted eix pl s =
     s\<lparr>nd_cer := (nd_cer s)\<lparr>ce_pool := (ce_pool (nd_cer s))[eix :=
        (ce_pool (nd_cer s) ! eix)\<lparr>me_decrypted := True, me_payload := pl\<rparr>]\<rparr>\<rparr>"

definition try_decrypt_envelope :: "NodeEnv \<Rightarrow> nat \<Rightarrow> Node \<Rightarrow> (bool \<times> Node) option" where
  "try_decrypt_envelope env eix s =
     (if eix \<ge> length (ce_pool (nd_cer s)) then Some (False, s)
      else let me = ce_pool (nd_cer s) ! eix
        in if me_decrypted me then Some (True, s)
           else let shares = envelope_shares eix s
             in if \<not> distinct (map fst shares) then Some (False, s)
                else if length shares < 2 then Some (False, s)
                else case agg_dec_share G2Pt0 shares of None \<Rightarrow> Some (False, s)
                  | Some D \<Rightarrow>
                      let k = kdf (pt_to_bytes (ne_junk env) D) (pt_to_bytes (ne_junk env) (nc_xe (nd_com s)))
                                (env_hdr (me_env me));
                          (pl, ok) = dem_decrypt k (env_hdr (me_env me)) (env_ct (me_env me)) (env_tag (me_env me))
                      in if \<not> ok then Some (False, s)
                         else map_option (\<lambda>s. (True, s)) (handle_decree env (pad_payload pl) (mark_decrypted eix pl s)))"

text \<open>The loop over the pool; when a decree completes the epoch the pool is empty and the rest does nothing.\<close>

fun decrypt_from :: "NodeEnv \<Rightarrow> nat list \<Rightarrow> Node \<Rightarrow> Node option" where
  "decrypt_from env [] s = Some s"
| "decrypt_from env (i # is) s =
     (case try_decrypt_envelope env i s of None \<Rightarrow> None | Some (ok, s) \<Rightarrow> decrypt_from env is s)"

definition decrypt_pool :: "NodeEnv \<Rightarrow> Node \<Rightarrow> Node option" where
  "decrypt_pool env s = decrypt_from env [0..<length (ce_pool (nd_cer s))] s"

subsection \<open>The batch for late joiners\<close>

text \<open>The member is a 32-bit number written as eight bytes; see \<open>v2_index\<close> for the upper four.\<close>

definition share_record :: "NodeEnv \<Rightarrow> Node \<Rightarrow> nat \<Rightarrow> bytes" where
  "share_record env s sx =
     le_bytes 4 (of_nat sx :: u32) @ v2_index (ne_shr env) (nc_self (nd_com s)) @ take 192 (ce_dec (nd_cer s) ! sx)"

definition sync_payload :: "NodeEnv \<Rightarrow> Node \<Rightarrow> bytes" where
  "sync_payload env s =
     (let cnt = min (length (ce_dec (nd_cer s))) (length (ce_pool (nd_cer s)))
      in le_bytes 4 (of_nat cnt :: u32) @ concat (map (share_record env s) [0..<cnt]))"

definition send_sync_batch :: "NodeEnv \<Rightarrow> int \<Rightarrow> Node \<Rightarrow> Node" where
  "send_sync_batch env fd s = send_all \<lparr>m_type = 0x0C, m_payload = sync_payload env s\<rparr> [fd] s"

subsection \<open>The lock\<close>

definition publish_locked_shares :: "NodeEnv \<Rightarrow> Node \<Rightarrow> Node" where
  "publish_locked_shares env s =
     (if \<not> ol_attested (ce_locks (nd_cer s) (ce_pool_epoch (nd_cer s))) then s
      else foldl (\<lambda>s fd. send_sync_batch env fd s) s (nd_fds s))"

definition put_lock :: "u32 \<Rightarrow> OrderLock \<Rightarrow> Node \<Rightarrow> Node" where
  "put_lock ep L s = s\<lparr>nd_cer := (nd_cer s)\<lparr>ce_locks := (ce_locks (nd_cer s))(ep := L)\<rparr>\<rparr>"

definition order_lock_ingest :: "NodeEnv \<Rightarrow> u32 \<Rightarrow> bytes \<Rightarrow> Pt \<Rightarrow> G2Pt \<Rightarrow> Node \<Rightarrow> Node option" where
  "order_lock_ingest env ep oroot sigma Y s =
     (let L = ce_locks (nd_cer s) ep;
          L = (if av_count (ol_av L) = 0 then L\<lparr>ol_root := oroot\<rparr> else L);
          s = put_lock ep L s
      in if ol_root L \<noteq> oroot then Some s
         else let pre = order_sig_preimage ep oroot
           in case verify_vote_member sigma pre Y of None \<Rightarrow> None
              | Some False \<Rightarrow> Some s
              | Some True \<Rightarrow>
                  let L = L\<lparr>ol_av := agg_accumulate (ol_av L) sigma Y\<rparr>; s = put_lock ep L s
                  in if av_count (ol_av L) < ucast (nc_t (nd_com s)) then Some s
                     else case agg_verify (ol_av L) pre of None \<Rightarrow> None
                       | Some False \<Rightarrow> Some s
                       | Some True \<Rightarrow>
                           let s = put_lock ep (L\<lparr>ol_attested := True\<rparr>) s
                           in Some (if ep = ce_pool_epoch (nd_cer s) \<and> ce_committed (nd_cer s) \<and> oroot = ce_root (nd_cer s)
                                    then publish_locked_shares env s else s))"

definition member_key :: "u64 \<Rightarrow> Node \<Rightarrow> G2Pt option" where
  "member_key m s = map_option snd (find (\<lambda>(j, Y). j = m) (nc_members (nd_com s)))"

definition handle_order_sig :: "NodeEnv \<Rightarrow> Message \<Rightarrow> Node \<Rightarrow> Node option" where
  "handle_order_sig env m s =
     (let d = decode_order_sig m
      in if \<not> do_ok d then Some s
         else case member_key (do_member d) s of None \<Rightarrow> Some s
           | Some Y \<Rightarrow> if G2_PisInf Y then Some s else order_lock_ingest env (do_epoch d) (do_oroot d) (do_sigma d) Y s)"

subsection \<open>Shares of the peers\<close>

text \<open>The first share under an identity is kept; nothing checks the point or the identity.\<close>

definition add_share :: "nat \<Rightarrow> u64 \<times> G2Pt \<Rightarrow> Node \<Rightarrow> Node" where
  "add_share eix mD s =
     (if fst mD \<in> fst ` set (ce_thr (nd_cer s) eix) then s
      else s\<lparr>nd_cer := (nd_cer s)\<lparr>ce_thr := (ce_thr (nd_cer s))(eix := ce_thr (nd_cer s) eix @ [mD])\<rparr>\<rparr>)"

definition handle_dec_share :: "NodeEnv \<Rightarrow> bytes \<Rightarrow> Node \<Rightarrow> Node option" where
  "handle_dec_share env p s =
     (if length p \<noteq> 200 then Some s
      else let eix = unat (le_word (take 4 p) :: u32); mid = ucast (le_word (take 4 (drop 4 p)) :: u32);
               s = add_share eix (mid, stored_point (drop 8 p)) s
        in if ce_committed (nd_cer s) then map_option snd (try_decrypt_envelope env eix s) else Some s)"

definition batch_share :: "bytes \<Rightarrow> nat \<times> u64 \<times> G2Pt" where
  "batch_share q = (unat (le_word (take 4 q) :: u32), le_word (take 8 (drop 4 q)), stored_point (drop 12 q))"

text \<open>The count is trusted: a larger one than the payload holds reads behind it.\<close>

definition handle_sync_batch :: "NodeEnv \<Rightarrow> bytes \<Rightarrow> Node \<Rightarrow> Node option" where
  "handle_sync_batch env p s =
     (if length p < 4 \<or> (length p - 4) mod 204 \<noteq> 0 then Some s
      else let cnt = unat (le_word (take 4 p) :: u32)
        in if cnt > (length p - 4) div 204 then None
           else let s = foldl (\<lambda>s r. let (eix, mD) = batch_share (drop (4 + r * 204) p) in add_share eix mD s) s [0..<cnt]
             in if ce_committed (nd_cer s) then decrypt_pool env s else Some s)"

definition handle_sync_req :: "NodeEnv \<Rightarrow> int \<Rightarrow> Node \<Rightarrow> Node" where
  "handle_sync_req env fd s = send_sync_batch env fd s"

subsection \<open>Envelopes\<close>

definition beacon_committee :: "NodeCommittee \<Rightarrow> Committee option" where
  "beacon_committee c =
     (let ids = map of_nat [1..<unat (min (nc_t c) (nc_dealt c)) + 1]
      in map_option (\<lambda>ss. \<lparr>com_ids = ids, com_shares = ss\<rparr>) (those (map (share_for (nc_poly c)) ids)))"

text \<open>The order under the beacon; equal keys keep their places, which the code leaves open.\<close>

definition pool_root :: "bytes \<Rightarrow> MempoolEntry list \<Rightarrow> bytes" where
  "pool_root beacon pool =
     order_root (map (\<lambda>i. env_cth (me_env (pool ! i)))
       (key_order (map (\<lambda>e. m2_sort_key beacon (env_cth (me_env e))) pool)))"

definition commit_order :: "NodeEnv \<Rightarrow> Node \<Rightarrow> Node option" where
  "commit_order env s =
     (let s = (if ce_pool_epoch (nd_cer s) = 0 then s\<lparr>nd_cer := (nd_cer s)\<lparr>ce_pool_epoch := nd_epoch s\<rparr>\<rparr> else s);
          ep = ce_pool_epoch (nd_cer s)
      in case Option.bind (beacon_committee (nd_com s)) (\<lambda>com. epoch_beacon com (ucast ep) (ce_beacon (nd_cer s))) of
           None \<Rightarrow> None
         | Some b \<Rightarrow>
             let root = pool_root (to_bytes b) (ce_pool (nd_cer s));
                 s = s\<lparr>nd_cer := (nd_cer s)\<lparr>ce_beacon := b, ce_root := root, ce_committed := True\<rparr>\<rparr>
             in case sign_order (nc_own (nd_com s)) (order_sig_preimage ep root) of None \<Rightarrow> None
                | Some sig \<Rightarrow>
                    let self = ucast (nc_self (nd_com s)); s = send_all (encode_order_sig ep root sig self) (nd_fds s) s
                    in case (case member_key self s of None \<Rightarrow> Some s | Some Y \<Rightarrow> order_lock_ingest env ep root sig Y s) of
                         None \<Rightarrow> None
                       | Some s \<Rightarrow> decrypt_pool env s)"

definition decoded_env :: "DecodedEnvelope \<Rightarrow> Envelope" where
  "decoded_env d = \<lparr>env_R = de_R d, env_ct = de_ct d, env_tag = de_tag d, env_cth = de_cth d, env_hdr = de_hdr d\<rparr>"

definition own_share_bytes :: "NodeEnv \<Rightarrow> Node \<Rightarrow> G2Pt \<Rightarrow> bytes option" where
  "own_share_bytes env s R =
     map_option (\<lambda>x. pt_to_bytes (ne_junk env) (dec_share (fr_to_fe6 x) R))
       (share_for (nc_poly (nd_com s)) (ucast (nc_self (nd_com s))))"

definition store_envelope :: "Envelope \<Rightarrow> bytes \<Rightarrow> Node \<Rightarrow> Node" where
  "store_envelope e ser s =
     (let c = nd_cer s;
          c = c\<lparr>ce_index := (ce_index c)(env_cth e \<mapsto> length (ce_pool c)), ce_dec := ce_dec c @ [ser],
                ce_pool := ce_pool c @ [\<lparr>me_env = e, me_decrypted = False, me_payload = []\<rparr>]\<rparr>
      in s\<lparr>nd_cer := (if length (ce_pool c) = 1 then c\<lparr>ce_pool_epoch := nd_epoch s\<rparr> else c)\<rparr>)"

definition handle_envelope :: "NodeEnv \<Rightarrow> Message \<Rightarrow> Node \<Rightarrow> Node option" where
  "handle_envelope env m s =
     (case decode_envelope m of None \<Rightarrow> None
      | Some d \<Rightarrow>
          if \<not> de_ok d \<or> ce_index (nd_cer s) (de_cth d) \<noteq> None then Some s
          else case own_share_bytes env s (de_R d) of None \<Rightarrow> None
            | Some ser \<Rightarrow>
                let s = store_envelope (decoded_env d) ser s
                in if length (ce_pool (nd_cer s)) \<ge> unat (nd_k s) \<and> \<not> ce_committed (nd_cer s)
                   then commit_order env s else Some s)"


subsection \<open>The fold under the ceremony\<close>

definition blocked_by :: "nat \<Rightarrow> Node \<Rightarrow> bool" where
  "blocked_by i s \<longleftrightarrow> \<not> distinct (map fst (envelope_shares i s))"

definition node_inv :: "Node \<Rightarrow> bool" where
  "node_inv s \<longleftrightarrow> node_ok s \<and> node_books s"

lemma node_inv_frame [simp]:
  "node_inv (s\<lparr>nd_cer := c\<rparr>) = node_inv s" "node_inv (s\<lparr>nd_vot := v\<rparr>) = node_inv s" "node_inv (s\<lparr>nd_out := out\<rparr>) = node_inv s"
  "node_inv (s\<lparr>nd_fds := fds\<rparr>) = node_inv s" "node_inv (s\<lparr>nd_work := w\<rparr>) = node_inv s" "node_inv (s\<lparr>nd_audited := a\<rparr>) = node_inv s"
  "node_inv (s\<lparr>nd_receipt := r\<rparr>) = node_inv s" "node_inv (s\<lparr>nd_rotations := n\<rparr>) = node_inv s" "node_inv (s\<lparr>nd_pulse := u\<rparr>) = node_inv s"
  by (simp_all add: node_inv_def node_ok_def node_books_def)

lemma handle_decree_inv: "node_inv s \<Longrightarrow> handle_decree env p s = Some s' \<Longrightarrow> node_inv s'"
  using handle_decree_ok handle_decree_books(1) by (auto simp: node_inv_def)

lemma send_all_inv [simp]: "node_inv (send_all m fds s) = node_inv s"
  by (simp add: send_all_def)

text \<open>An attempt does nothing, or it folds the payload of an envelope that was still sealed.\<close>

lemma try_decrypt_cases:
  assumes "try_decrypt_envelope env i s = Some (ok, s')"
  obtains (nothing) "s' = s"
  | (opened) pl where "i < length (ce_pool (nd_cer s))" "\<not> me_decrypted (ce_pool (nd_cer s) ! i)" "\<not> blocked_by i s" "ok"
      "handle_decree env (pad_payload pl) (mark_decrypted i pl s) = Some s'"
proof (cases "s' = s")
  case False
  obtain k where k: "i < length (ce_pool (nd_cer s))" "\<not> me_decrypted (ce_pool (nd_cer s) ! i)"
    "distinct (map fst (envelope_shares i s))"
    "(let e = me_env (ce_pool (nd_cer s) ! i); (pl, ok) = dem_decrypt k (env_hdr e) (env_ct e) (env_tag e)
      in if \<not> ok then Some (False, s)
         else map_option (\<lambda>s. (True, s)) (handle_decree env (pad_payload pl) (mark_decrypted i pl s))) = Some (ok, s')"
    using assms False unfolding try_decrypt_envelope_def Let_def by (auto split: if_splits option.splits)
  then show ?thesis
    using False opened by (auto simp: Let_def blocked_by_def split: if_splits prod.splits)
qed

lemma try_decrypt_inv:
  assumes "node_inv s" and "try_decrypt_envelope env i s = Some (ok, s')"
  shows "node_inv s'"
  using assms(2) by (cases rule: try_decrypt_cases) (use assms(1) in \<open>auto simp: mark_decrypted_def dest: handle_decree_inv [rotated]\<close>)

lemma decrypt_from_inv: "node_inv s \<Longrightarrow> decrypt_from env is s = Some s' \<Longrightarrow> node_inv s'"
proof (induction "is" arbitrary: s)
  case (Cons i js)
  then obtain ok t where t: "try_decrypt_envelope env i s = Some (ok, t)" "decrypt_from env js t = Some s'"
    by (auto split: option.splits prod.splits)
  show ?case by (rule Cons.IH [OF try_decrypt_inv [OF Cons.prems(1) t(1)] t(2)])
qed simp

lemma decrypt_pool_inv: "node_inv s \<Longrightarrow> decrypt_pool env s = Some s' \<Longrightarrow> node_inv s'"
  unfolding decrypt_pool_def by (rule decrypt_from_inv)

lemma sync_inv [simp]: "node_inv (send_sync_batch env fd s) = node_inv s"
  by (simp add: send_sync_batch_def)

lemma publish_inv [simp]: "node_inv (publish_locked_shares env s) = node_inv s"
proof -
  have "node_inv (foldl (\<lambda>s fd. send_sync_batch env fd s) s fds) = node_inv s" for fds
    by (induction fds arbitrary: s) simp_all
  then show ?thesis by (simp add: publish_locked_shares_def)
qed

lemma put_lock_inv [simp]: "node_inv (put_lock ep L s) = node_inv s"
  by (simp add: put_lock_def)

lemma order_lock_inv: "node_inv s \<Longrightarrow> order_lock_ingest env ep root sig Y s = Some s' \<Longrightarrow> node_inv s'"
  by (auto simp: order_lock_ingest_def Let_def split: if_splits option.splits bool.splits)

lemma handle_order_sig_inv: "node_inv s \<Longrightarrow> handle_order_sig env m s = Some s' \<Longrightarrow> node_inv s'"
  by (auto simp: handle_order_sig_def Let_def split: if_splits option.splits dest: order_lock_inv [rotated])

lemma add_share_inv [simp]: "node_inv (add_share eix mD s) = node_inv s"
  by (simp add: add_share_def)

lemma handle_dec_share_inv: "node_inv s \<Longrightarrow> handle_dec_share env p s = Some s' \<Longrightarrow> node_inv s'"
  by (auto simp: handle_dec_share_def Let_def split: if_splits dest: try_decrypt_inv [rotated])

lemma add_batch_inv [simp]:
  "node_inv (foldl (\<lambda>s r. case batch_share (f r) of (eix, mD) \<Rightarrow> add_share eix mD s) s rs) = node_inv s"
  by (induction rs arbitrary: s) (simp_all add: batch_share_def)

lemma handle_sync_batch_inv: "node_inv s \<Longrightarrow> handle_sync_batch env p s = Some s' \<Longrightarrow> node_inv s'"
  by (auto simp: handle_sync_batch_def Let_def split: if_splits dest: decrypt_pool_inv [rotated])

lemma commit_order_inv: "node_inv s \<Longrightarrow> commit_order env s = Some s' \<Longrightarrow> node_inv s'"
  unfolding commit_order_def Let_def
  by (auto split: if_splits option.splits dest!: decrypt_pool_inv [rotated] order_lock_inv [rotated])

lemma handle_envelope_inv: "node_inv s \<Longrightarrow> handle_envelope env m s = Some s' \<Longrightarrow> node_inv s'"
  by (auto simp: handle_envelope_def store_envelope_def Let_def split: if_splits option.splits dest: commit_order_inv [rotated])

subsection \<open>The pool is the store of the mempool\<close>

definition ce_store :: "Ceremony \<Rightarrow> EnvelopeStore" where
  "ce_store c = \<lparr>es_pool = map me_env (ce_pool c), es_idx = ce_index c\<rparr>"

lemma store_envelope_push:
  "ce_index (nd_cer s) (env_cth e) = None \<Longrightarrow>
    ce_store (nd_cer (store_envelope e ser s)) = snd (es_push (ce_store (nd_cer s)) e)"
  by (simp add: store_envelope_def ce_store_def es_push_def Let_def)

lemma ordered_root_pool:
  "ordered_root (ce_store c) beacon = (if ce_pool c = [] then None else Some (pool_root beacon (ce_pool c)))"
proof -
  let ?ks = "map (\<lambda>e. m2_sort_key beacon (env_cth (me_env e))) (ce_pool c)"
  have e: "map (\<lambda>i. env_cth (map me_env (ce_pool c) ! i)) (key_order ?ks) = map (\<lambda>i. env_cth (me_env (ce_pool c ! i))) (key_order ?ks)"
    by (intro map_cong) (auto simp: key_order_def)
  show ?thesis unfolding ordered_root_def ce_store_def pool_root_def Let_def by (simp add: comp_def e)
qed

subsection \<open>A share under the node's own identity\<close>

text \<open>
  An envelope that waits for its decryption while the peers' shares hold one under the identity of the
  node itself: with the stored share of the node there are two equal identities, and the attempt is refused.
\<close>

definition blocked :: "nat \<Rightarrow> Node \<Rightarrow> bool" where
  "blocked eix s \<longleftrightarrow> (let c = nd_cer s in eix < length (ce_pool c) \<and> \<not> me_decrypted (ce_pool c ! eix)
     \<and> eix < length (ce_dec c) \<and> 192 \<le> length (ce_dec c ! eix)
     \<and> ucast (nc_self (nd_com s)) \<in> fst ` set (ce_thr c eix))"

definition sealed :: "nat \<Rightarrow> Node \<Rightarrow> bool" where
  "sealed eix s \<longleftrightarrow> blocked eix s \<or> ce_pool (nd_cer s) = []"

lemma blocked_refused: "blocked eix s \<Longrightarrow> try_decrypt_envelope env eix s = Some (False, s)"
  by (auto simp: blocked_def Let_def try_decrypt_envelope_def envelope_shares_def image_iff)

lemma sealed_cong:
  "nd_cer s = nd_cer t \<Longrightarrow> nd_com s = nd_com t \<Longrightarrow> sealed eix s = sealed eix t"
  by (simp add: sealed_def blocked_def)

lemma handle_decree_sealed:
  assumes "node_inv s" and "sealed eix s" and "handle_decree env p s = Some s'"
  shows "sealed eix s'"
proof (rule handle_decree_cases [where s = s and p = p and env = env], goal_cases)
  case 1
  then show ?case using assms(1) by (simp add: node_inv_def)
next
  case 2
  then show ?case using assms by simp
next
  case 3
  then show ?case using assms sealed_cong [of s s'] by auto
next
  case (4 t)
  let ?u = "count_entry (entry_pt (entry_terms (nd_epoch s) (nd_seq s))) t"
  have u: "nd_cer ?u = nd_cer s" "nd_com ?u = nd_com s" using 4 by (simp_all add: count_entry_def)
  consider "s' = t" | "complete_epoch env ?u = Some s'" | "s' = ?u"
    using assms(3) unfolding 4(18) Let_def
    by (cases "chain_consistent t"; cases "nd_k ?u \<le> nd_count ?u") simp_all
  then show ?case
  proof cases
    case 1
    then show ?thesis using assms(2) sealed_cong [of s t] 4 by simp
  next
    case 2
    then show ?thesis using complete_epoch_fields(15) [OF 2] by (simp add: sealed_def)
  next
    case 3
    then show ?thesis using assms(2) sealed_cong [of s ?u] u by simp
  qed
qed

lemma mark_sealed: "sealed eix s \<Longrightarrow> i \<noteq> eix \<Longrightarrow> sealed eix (mark_decrypted i pl s)"
  by (auto simp: sealed_def blocked_def mark_decrypted_def Let_def)

lemma blocked_shares: "blocked eix s \<Longrightarrow> blocked_by eix s"
  by (auto simp: blocked_def Let_def blocked_by_def envelope_shares_def image_iff)

lemma try_decrypt_sealed:
  assumes "node_inv s" and "sealed eix s" and "try_decrypt_envelope env i s = Some (ok, s')"
  shows "sealed eix s'"
  using assms(3)
proof (cases rule: try_decrypt_cases)
  case (opened pl)
  then have "i \<noteq> eix" using assms(2) blocked_shares by (auto simp: sealed_def)
  then show ?thesis
    using handle_decree_sealed [OF _ mark_sealed [OF assms(2)] opened(5)] assms(1) by (simp add: mark_decrypted_def)
qed (use assms in simp)

lemma decrypt_from_sealed: "node_inv s \<Longrightarrow> sealed eix s \<Longrightarrow> decrypt_from env is s = Some s' \<Longrightarrow> sealed eix s'"
proof (induction "is" arbitrary: s)
  case (Cons i js)
  then obtain ok t where t: "try_decrypt_envelope env i s = Some (ok, t)" "decrypt_from env js t = Some s'"
    by (auto split: option.splits prod.splits)
  show ?case
    by (rule Cons.IH [OF try_decrypt_inv [OF Cons.prems(1) t(1)] try_decrypt_sealed [OF Cons.prems(1,2) t(1)] t(2)])
qed simp

text \<open>One message is enough to block an envelope, and nothing but the end of the epoch frees it.\<close>

lemma own_share_blocks:
  assumes "eix < length (ce_pool (nd_cer s))" "\<not> me_decrypted (ce_pool (nd_cer s) ! eix)"
    and "eix < length (ce_dec (nd_cer s))" "192 \<le> length (ce_dec (nd_cer s) ! eix)"
    and p: "length p = 200" "unat (le_word (take 4 p) :: u32) = eix" "le_word (take 4 (drop 4 p)) = nc_self (nd_com s)"
  shows "\<exists>s'. handle_dec_share env p s = Some s' \<and> blocked eix s'"
proof -
  let ?s = "add_share eix (ucast (nc_self (nd_com s)), stored_point (drop 8 p)) s"
  have b: "blocked eix ?s" using assms by (auto simp: blocked_def add_share_def Let_def)
  then show ?thesis using p blocked_refused [OF b] by (auto simp: handle_dec_share_def Let_def)
qed

text \<open>Every message of the ceremony keeps a blocked envelope blocked, up to the end of the epoch.\<close>

lemma sealed_frame [simp]:
  "sealed eix (s\<lparr>nd_out := out\<rparr>) = sealed eix s" "sealed eix (s\<lparr>nd_vot := v\<rparr>) = sealed eix s"
  "sealed eix (s\<lparr>nd_fds := fds\<rparr>) = sealed eix s" "sealed eix (s\<lparr>nd_work := w\<rparr>) = sealed eix s"
  "sealed eix (s\<lparr>nd_seen := fps\<rparr>) = sealed eix s" "sealed eix (s\<lparr>nd_pulse := u\<rparr>) = sealed eix s"
  "sealed eix (put_lock ep L s) = sealed eix s"
  "sealed eix (s\<lparr>nd_cer := (nd_cer s)\<lparr>ce_pool_epoch := pep\<rparr>\<rparr>) = sealed eix s"
  "sealed eix (s\<lparr>nd_cer := (nd_cer s)\<lparr>ce_beacon := b, ce_root := r, ce_committed := dn\<rparr>\<rparr>) = sealed eix s"
  by (simp_all add: sealed_def blocked_def put_lock_def Let_def)

lemma send_all_sealed [simp]: "sealed eix (send_all m fds s) = sealed eix s"
  by (simp add: send_all_def)

lemma publish_sealed [simp]: "sealed eix (publish_locked_shares env s) = sealed eix s"
proof -
  have "sealed eix (foldl (\<lambda>s fd. send_sync_batch env fd s) s fds) = sealed eix s" for fds
    by (induction fds arbitrary: s) (simp_all add: send_sync_batch_def)
  then show ?thesis by (simp add: publish_locked_shares_def)
qed

lemma add_share_sealed: "sealed eix s \<Longrightarrow> sealed eix (add_share i mD s)"
  by (auto simp: sealed_def blocked_def add_share_def Let_def)

lemma order_lock_sealed: "sealed eix s \<Longrightarrow> order_lock_ingest env ep root sig Y s = Some s' \<Longrightarrow> sealed eix s'"
  by (auto simp: order_lock_ingest_def Let_def split: if_splits option.splits bool.splits)

lemma handle_order_sig_sealed: "sealed eix s \<Longrightarrow> handle_order_sig env m s = Some s' \<Longrightarrow> sealed eix s'"
  by (auto simp: handle_order_sig_def Let_def split: if_splits option.splits dest: order_lock_sealed [rotated])

lemma handle_dec_share_sealed:
  assumes "node_inv s" and "sealed eix s" and "handle_dec_share env p s = Some s'"
  shows "sealed eix s'"
  using assms try_decrypt_sealed [OF _ add_share_sealed [OF assms(2)]]
  by (auto simp: handle_dec_share_def Let_def add_share_sealed split: if_splits)

lemma batch_sealed:
  "sealed eix s \<Longrightarrow> sealed eix (foldl (\<lambda>s r. case batch_share (f r) of (i, mD) \<Rightarrow> add_share i mD s) s rs)"
  by (induction rs arbitrary: s) (simp_all add: batch_share_def add_share_sealed)

lemma handle_sync_batch_sealed:
  assumes "node_inv s" and "sealed eix s" and "handle_sync_batch env p s = Some s'"
  shows "sealed eix s'"
  using assms decrypt_from_sealed [OF _ batch_sealed [OF assms(2)]]
  by (auto simp: handle_sync_batch_def Let_def batch_sealed decrypt_pool_def split: if_splits)

lemma commit_order_cases:
  assumes "commit_order env s = Some s'"
  obtains (published) b root sig pep t where "decrypt_pool env t = Some s'"
      "t = send_all (encode_order_sig pep root sig (ucast (nc_self (nd_com s)))) (nd_fds s)
             (s\<lparr>nd_cer := (nd_cer s)\<lparr>ce_pool_epoch := pep, ce_beacon := b, ce_root := root, ce_committed := True\<rparr>\<rparr>)"
  | (locked) b root sig pep Y t where "decrypt_pool env t = Some s'"
      "order_lock_ingest env pep root sig Y (send_all (encode_order_sig pep root sig (ucast (nc_self (nd_com s)))) (nd_fds s)
             (s\<lparr>nd_cer := (nd_cer s)\<lparr>ce_pool_epoch := pep, ce_beacon := b, ce_root := root, ce_committed := True\<rparr>\<rparr>)) = Some t"
proof -
  define pep where "pep = (if ce_pool_epoch (nd_cer s) = 0 then nd_epoch s else ce_pool_epoch (nd_cer s))"
  have e: "(if ce_pool_epoch (nd_cer s) = 0 then s\<lparr>nd_cer := (nd_cer s)\<lparr>ce_pool_epoch := nd_epoch s\<rparr>\<rparr> else s)
    = s\<lparr>nd_cer := (nd_cer s)\<lparr>ce_pool_epoch := pep\<rparr>\<rparr>"
    by (simp add: pep_def)
  show ?thesis
    using assms unfolding commit_order_def Let_def e
    by (auto split: option.splits intro: published locked)
qed

lemma commit_frame:
  "node_inv (s\<lparr>nd_cer := (nd_cer s)\<lparr>ce_pool_epoch := pep, ce_beacon := b, ce_root := r, ce_committed := dn\<rparr>\<rparr>) = node_inv s"
  "sealed eix (s\<lparr>nd_cer := (nd_cer s)\<lparr>ce_pool_epoch := pep, ce_beacon := b, ce_root := r, ce_committed := dn\<rparr>\<rparr>) = sealed eix s"
  by (simp_all add: sealed_def blocked_def Let_def)

lemma commit_order_sealed:
  assumes "node_inv s" and "sealed eix s" and "commit_order env s = Some s'"
  shows "sealed eix s'"
proof -
  have d: "sealed eix s'" if "decrypt_pool env t = Some s'" "node_inv t" "sealed eix t" for t
    using that decrypt_from_sealed by (auto simp: decrypt_pool_def)
  show ?thesis
    using assms(3)
  proof (cases rule: commit_order_cases)
    case (published b root sig pep t)
    then show ?thesis using d assms(1,2) by (simp add: commit_frame)
  next
    case (locked b root sig pep Y t)
    then have "node_inv t" "sealed eix t"
      using order_lock_inv [OF _ locked(2)] order_lock_sealed [OF _ locked(2), of eix] assms(1,2) by (simp_all add: commit_frame)
    then show ?thesis using d locked(1) by blast
  qed
qed

lemma store_envelope_blocked: "blocked eix s \<Longrightarrow> blocked eix (store_envelope e ser s)"
  by (auto simp: blocked_def store_envelope_def Let_def nth_append)

lemma handle_envelope_cases:
  assumes "handle_envelope env m s = Some s'"
  obtains (ignored) "s' = s"
  | (stored) e ser where "s' = store_envelope e ser s"
  | (full) e ser where "commit_order env (store_envelope e ser s) = Some s'"
proof -
  obtain d where d: "decode_envelope m = Some d"
    using assms by (cases "decode_envelope m") (simp_all add: handle_envelope_def)
  show ?thesis
  proof (cases "\<not> de_ok d \<or> ce_index (nd_cer s) (de_cth d) \<noteq> None")
    case True
    then show ?thesis using assms ignored by (simp add: handle_envelope_def d)
  next
    case False
    then obtain ser where ser: "own_share_bytes env s (de_R d) = Some ser"
      using assms by (cases "own_share_bytes env s (de_R d)") (simp_all add: handle_envelope_def d)
    let ?u = "store_envelope (decoded_env d) ser s"
    have u: "(if length (ce_pool (nd_cer ?u)) \<ge> unat (nd_k ?u) \<and> \<not> ce_committed (nd_cer ?u) then commit_order env ?u else Some ?u)
        = Some s'"
      using assms unfolding handle_envelope_def d option.case ser Let_def if_not_P [OF False] .
    show ?thesis
    proof (cases "length (ce_pool (nd_cer ?u)) \<ge> unat (nd_k ?u) \<and> \<not> ce_committed (nd_cer ?u)")
      case True
      then show ?thesis using u full unfolding if_P [OF True] by blast
    next
      case False
      then show ?thesis using u stored unfolding if_not_P [OF False] option.inject by blast
    qed
  qed
qed

lemma handle_envelope_sealed:
  assumes "node_inv s" and "blocked eix s" and "handle_envelope env m s = Some s'"
  shows "sealed eix s'"
proof -
  have st: "node_inv (store_envelope e ser s)" "sealed eix (store_envelope e ser s)" for e ser
    using assms(1,2) store_envelope_blocked by (auto simp: store_envelope_def Let_def sealed_def)
  show ?thesis
    using assms(3)
  proof (cases rule: handle_envelope_cases)
    case ignored
    then show ?thesis using assms(2) by (simp add: sealed_def)
  next
    case (stored e ser)
    then show ?thesis using st by simp
  next
    case (full e ser)
    then show ?thesis using commit_order_sealed st by blast
  qed
qed

subsection \<open>The batch on the wire\<close>

text \<open>Where the undefined shifts give zero, the receiver finds the shares under the identity of the sender.\<close>

lemma v2_index_zero:
  assumes "\<And>n. shr j n = 0"
  shows "v2_index shr j = le_bytes 8 (ucast j :: u64)"
proof (rule nth_equalityI)
  fix i assume "i < length (v2_index shr j)"
  then have i: "i < 8" by (simp add: v2_index_def)
  have "(ucast (drop_bit (8 * i) (ucast j :: u64)) :: u8) = (if i < 4 then ucast (drop_bit (8 * i) j) else 0)"
    by (rule bit_word_eqI) (auto simp: bit_ucast_iff bit_drop_bit_eq dest: bit_imp_le_length)
  then show "v2_index shr j ! i = le_bytes 8 (ucast j :: u64) ! i"
    using i assms by (auto simp: v2_index_def nth_le_bytes)
qed (simp add: v2_index_def)

lemma v2_index_masked: "v2_index (\<lambda>j n. ucast (drop_bit (n mod 32) j)) 1 = [1, 0, 0, 0, 1, 0, 0, 0]"
  by (simp add: v2_index_def upt_rec)
end
