(* ===== verification/Net_Guard.thy ===== *)
theory Net_Guard
  imports Params Poseidon
begin

text \<open>
  The load story of the peer layer, \<open>src/include/hsma/peersec.hpp\<close> (rate windows per connection, bans
  per address), and the transport rules of \<open>src/include/hsma/g1net.hpp\<close> (the beacon-seeded draw,
  identities, message classes, peer scores). The monotonic clock is an argument. The limiter for tests
  is the production limiter with its bound as an argument, so both are one definition.
\<close>

subsection \<open>Rate windows\<close>

definition PEER_MSGS_PER_SEC :: u32 where "PEER_MSGS_PER_SEC = 20"
definition PEER_BAN_SECS :: u32 where "PEER_BAN_SECS = 60"

record PeerLimit =
  pl_start :: u64
  pl_count :: u32

definition bucket_allow :: "(int \<rightharpoonup> PeerLimit) \<Rightarrow> int \<Rightarrow> u32 \<Rightarrow> u64 \<Rightarrow> bool \<times> (int \<rightharpoonup> PeerLimit)" where
  "bucket_allow lm fd cap now =
     (case lm fd of
        None \<Rightarrow> (True, lm(fd \<mapsto> \<lparr>pl_start = now, pl_count = 1\<rparr>))
      | Some w \<Rightarrow>
          if now - pl_start w \<ge> 1000 then (True, lm(fd \<mapsto> \<lparr>pl_start = now, pl_count = 1\<rparr>))
          else let w' = w\<lparr>pl_count := pl_count w + 1\<rparr> in (pl_count w' \<le> cap, lm(fd \<mapsto> w')))"

definition peer_allow :: "(int \<rightharpoonup> PeerLimit) \<Rightarrow> int \<Rightarrow> u64 \<Rightarrow> bool \<times> (int \<rightharpoonup> PeerLimit)" where
  "peer_allow lm fd now =
     (case lm fd of
        None \<Rightarrow> (True, lm(fd \<mapsto> \<lparr>pl_start = now, pl_count = 1\<rparr>))
      | Some w \<Rightarrow>
          if now - pl_start w \<ge> 1000 then (True, lm(fd \<mapsto> \<lparr>pl_start = now, pl_count = 1\<rparr>))
          else let w' = w\<lparr>pl_count := pl_count w + 1\<rparr>
               in if pl_count w' > PEER_MSGS_PER_SEC then (False, lm(fd \<mapsto> w')) else (True, lm(fd \<mapsto> w')))"

definition peer_forget :: "(int \<rightharpoonup> PeerLimit) \<Rightarrow> int \<Rightarrow> (int \<rightharpoonup> PeerLimit)" where
  "peer_forget lm fd = lm(fd := None)"

subsection \<open>Bans\<close>

type_synonym ban_map = "u32 \<rightharpoonup> u64"

definition ip_banned :: "ban_map \<Rightarrow> u32 \<Rightarrow> u64 \<Rightarrow> bool \<times> ban_map" where
  "ip_banned bans ip now =
     (case bans ip of None \<Rightarrow> (False, bans)
      | Some t \<Rightarrow> if now \<ge> t then (False, bans(ip := None)) else (True, bans))"

definition ip_ban :: "ban_map \<Rightarrow> u32 \<Rightarrow> u64 \<Rightarrow> ban_map" where
  "ip_ban bans ip now = bans(ip \<mapsto> now + ucast PEER_BAN_SECS * 1000)"

text \<open>\<open>peer_banned\<close> looks into a map of its own that starts empty and that nothing fills.\<close>

definition peer_banned :: "ban_map \<Rightarrow> u32 \<Rightarrow> u64 \<Rightarrow> bool \<times> ban_map" where
  "peer_banned bans ip now =
     (case bans ip of None \<Rightarrow> (False, bans)
      | Some t \<Rightarrow> if now \<ge> t then (False, bans(ip := None)) else (True, bans))"

subsection \<open>g1net.hpp\<close>

definition sampler_seed :: "fe \<Rightarrow> fe \<Rightarrow> fe \<Rightarrow> fe \<Rightarrow> u64 \<Rightarrow> fe" where
  "sampler_seed weight_root beacon cid acct rnd =
     (let d1 = poseidon3 HSM_PEERSEED_v1 weight_root beacon;
          d2 = poseidon3 HSM_PEERSEED_v1 d1 cid;
          d3 = poseidon3 HSM_PEERSEED_v1 d2 acct
      in poseidon3 HSM_PEERSEED_v1 d3 (fe_from_u64 rnd))"

fun draw_walk :: "u64 \<Rightarrow> u64 \<Rightarrow> nat \<Rightarrow> u64 list \<Rightarrow> nat option" where
  "draw_walk sel c i [] = None"
| "draw_walk sel c i (w # ws) = (let c = c + w in if sel < c then Some i else draw_walk sel c (Suc i) ws)"

text \<open>A zero total is a division by zero, and an empty list an index out of range: \<^const>\<open>None\<close>.\<close>

definition weighted_draw :: "fe \<Rightarrow> u64 list \<Rightarrow> u64 \<Rightarrow> u64 \<Rightarrow> nat option" where
  "weighted_draw seed ws tot k =
     (if tot = 0 \<or> ws = [] then None
      else let h = poseidon3 HSM_PEERSEED_v1 seed (fe_from_u64 k);
               sel = limbs (fe_to_canonical h) ! 0 mod tot
           in case draw_walk sel 0 0 ws of Some i \<Rightarrow> Some i | None \<Rightarrow> Some (length ws - 1))"

definition account_id :: "fe \<Rightarrow> fe" where
  "account_id consensus_pk = poseidon3 IV_IDENT consensus_pk fe_zero"

definition may_rebind :: "u64 \<Rightarrow> u64 \<Rightarrow> bool" where
  "may_rebind last_epoch ep \<longleftrightarrow> ep \<ge> last_epoch + 1"

datatype MsgClass = MC_P0 | MC_P1 | MC_P2 | MC_P3
datatype Transport = Push | Gossipsub | AnnouncePull | PullOnly
datatype Auth = CanonicalPreimage | ContentAddressed

record MsgSpec =
  ms_cap :: nat
  ms_t :: Transport
  ms_a :: Auth

fun TAX :: "MsgClass \<Rightarrow> MsgSpec" where
  "TAX MC_P0 = \<lparr>ms_cap = 4 * 1024, ms_t = Push, ms_a = CanonicalPreimage\<rparr>"
| "TAX MC_P1 = \<lparr>ms_cap = 2 * 1024, ms_t = Gossipsub, ms_a = CanonicalPreimage\<rparr>"
| "TAX MC_P2 = \<lparr>ms_cap = 64 * 1024, ms_t = AnnouncePull, ms_a = ContentAddressed\<rparr>"
| "TAX MC_P3 = \<lparr>ms_cap = 128 * 1024, ms_t = PullOnly, ms_a = ContentAddressed\<rparr>"

definition msg_admit :: "MsgClass \<Rightarrow> nat \<Rightarrow> bool \<Rightarrow> bool" where
  "msg_admit c sz pull =
     (let m = TAX c in if sz > ms_cap m then False else if ms_t m = PullOnly \<and> \<not> pull then False else True)"

definition EMA_SCALE :: u64 where "EMA_SCALE = 1000000"
definition EMA_LAM_N :: u64 where "EMA_LAM_N = 971532"
definition EMA_REC_N :: u64 where "EMA_REC_N = 28468"
definition EMA_IMPULSE :: u64 where "EMA_IMPULSE = 25000"
definition TH_CORE :: u64 where "TH_CORE = 800000"
definition TH_GRAY :: u64 where "TH_GRAY = 600000"

definition ema_tick :: "u64 \<Rightarrow> bool \<Rightarrow> u64" where
  "ema_tick s responded =
     (if responded then let s = s + (1000000 - s) * EMA_REC_N div EMA_SCALE in if s > 1000000 then 1000000 else s
      else s * EMA_LAM_N div EMA_SCALE)"

definition classify :: "u64 \<Rightarrow> u32" where
  "classify s = (if s \<ge> TH_CORE then 2 else if s \<ge> TH_GRAY then 1 else 0)"

subsection \<open>The limiter\<close>

lemma peer_allow_bucket: "peer_allow lm fd now = bucket_allow lm fd PEER_MSGS_PER_SEC now"
  by (auto simp: peer_allow_def bucket_allow_def Let_def not_less split: option.split)

lemma peer_allow_other: "fd' \<noteq> fd \<Longrightarrow> snd (peer_allow lm fd now) fd' = lm fd'"
  by (auto simp: peer_allow_def Let_def split: option.split)

text \<open>The answers to a sequence of messages on one connection.\<close>

fun allow_run :: "(int \<rightharpoonup> PeerLimit) \<Rightarrow> int \<Rightarrow> u64 list \<Rightarrow> bool list" where
  "allow_run lm fd [] = []"
| "allow_run lm fd (t # ts) = (let (b, lm') = peer_allow lm fd t in b # allow_run lm' fd ts)"

lemma allow_run_window:
  "lm fd = Some \<lparr>pl_start = t0, pl_count = c\<rparr> \<Longrightarrow> \<forall>t \<in> set ts. t - t0 < 1000 \<Longrightarrow> unat c + length ts < 2 ^ 32
    \<Longrightarrow> allow_run lm fd ts = map (\<lambda>i. unat c + Suc i \<le> 20) [0..<length ts]"
proof (induction ts arbitrary: lm c)
  case (Cons t ts)
  have c: "unat (c + 1) = unat c + 1" using Cons.prems(3) by (simp add: unat_word_ariths)
  let ?lm = "lm(fd \<mapsto> \<lparr>pl_start = t0, pl_count = c + 1\<rparr>)"
  have s: "peer_allow lm fd t = (unat c + 1 \<le> 20, ?lm)"
    using Cons.prems(1,2) c by (auto simp: peer_allow_def PEER_MSGS_PER_SEC_def not_le word_less_nat_alt word_le_nat_alt Let_def)
  have r: "allow_run ?lm fd ts = map (\<lambda>i. unat (c + 1) + Suc i \<le> 20) [0..<length ts]"
    using Cons.prems c by (intro Cons.IH) simp_all
  have "[0..<length (t # ts)] = 0 # map Suc [0..<length ts]" by (simp add: upt_conv_Cons map_Suc_upt del: upt_Suc)
  then show ?case using s r c by simp
qed simp

text \<open>Within one window exactly the first twenty messages pass.\<close>

lemma window_passes_twenty:
  assumes "lm fd = None" "\<forall>t \<in> set ts. t - t0 < 1000" "length ts < 2 ^ 31"
  shows "allow_run lm fd (t0 # ts) = map (\<lambda>i. i < 20) [0..<Suc (length ts)]"
proof -
  have "allow_run (lm(fd \<mapsto> \<lparr>pl_start = t0, pl_count = 1\<rparr>)) fd ts = map (\<lambda>i. unat (1 :: u32) + Suc i \<le> 20) [0..<length ts]"
    using assms(2,3) by (intro allow_run_window) simp_all
  moreover have "[0..<Suc (length ts)] = 0 # map Suc [0..<length ts]" by (simp add: upt_conv_Cons map_Suc_upt del: upt_Suc)
  ultimately show ?thesis using assms(1) by (simp add: peer_allow_def Suc_le_eq del: upt_Suc)
qed

subsection \<open>Bans\<close>

text \<open>A ban holds for sixty seconds and is then removed by the next look.\<close>

lemma ban_window:
  assumes "unat now + 60000 < 2 ^ 64" "now \<le> t"
  shows "ip_banned (ip_ban bans ip now) ip t
    = (if unat t < unat now + 60000 then (True, ip_ban bans ip now) else (False, bans(ip := None)))"
proof -
  have "unat (now + 60000) = unat now + 60000" using assms(1) by (simp add: unat_word_ariths)
  then show ?thesis by (auto simp: ip_banned_def ip_ban_def PEER_BAN_SECS_def word_le_nat_alt)
qed

lemma ban_others: "ip' \<noteq> ip \<Longrightarrow> ip_ban bans ip now ip' = bans ip'" "ip' \<noteq> ip \<Longrightarrow> snd (ip_banned bans ip t) ip' = bans ip'"
  by (auto simp: ip_ban_def ip_banned_def split: option.split)

lemma peer_banned_never: "peer_banned Map.empty ip now = (False, Map.empty)"
  by (simp add: peer_banned_def)

subsection \<open>The weighted draw\<close>

lemma draw_walk_range:
  assumes "draw_walk sel c i ws = Some j" "unat c + (\<Sum>w\<leftarrow>ws. unat w) < 2 ^ 64" "unat c \<le> unat sel"
  shows "i \<le> j \<and> j < i + length ws \<and> unat c + (\<Sum>w\<leftarrow>take (j - i) ws. unat w) \<le> unat sel
    \<and> unat sel < unat c + (\<Sum>w\<leftarrow>take (Suc (j - i)) ws. unat w)"
  using assms
proof (induction ws arbitrary: c i)
  case (Cons w ws)
  have u: "unat (c + w) = unat c + unat w" using Cons.prems(2) by (simp add: unat_word_ariths)
  show ?case
  proof (cases "sel < c + w")
    case True
    then show ?thesis using Cons.prems u by (simp add: word_less_nat_alt)
  next
    case False
    then have le: "unat (c + w) \<le> unat sel" by (simp add: word_less_nat_alt)
    have j: "draw_walk sel (c + w) (Suc i) ws = Some j" using Cons.prems(1) False by (simp add: Let_def)
    note IH = Cons.IH [OF j _ le]
    have "Suc i \<le> j" using IH Cons.prems(2) u by simp
    then have d: "j - i = Suc (j - Suc i)" by simp
    show ?thesis using IH Cons.prems(2) u unfolding d by simp
  qed
qed simp

lemma draw_walk_hits: "unat c + (\<Sum>w\<leftarrow>ws. unat w) < 2 ^ 64 \<Longrightarrow> unat sel < unat c + (\<Sum>w\<leftarrow>ws. unat w)
    \<Longrightarrow> unat c \<le> unat sel \<Longrightarrow> draw_walk sel c i ws \<noteq> None"
proof (induction ws arbitrary: c i)
  case (Cons w ws)
  have u: "unat (c + w) = unat c + unat w" using Cons.prems(1) by (simp add: unat_word_ariths)
  show ?case
    using Cons.IH [of "c + w" "Suc i"] Cons.prems u by (cases "sel < c + w") (simp_all add: Let_def word_less_nat_alt not_less)
qed simp

text \<open>
  With the true total the draw is the row whose interval of cumulative weight contains the selector, so
  a row without weight is never drawn.
\<close>

lemma weighted_draw_row:
  assumes t: "unat tot = (\<Sum>w\<leftarrow>ws. unat w)" and d: "weighted_draw seed ws tot k = Some i"
  shows "i < length ws \<and> 0 < unat (ws ! i)"
proof -
  define sel where "sel = limbs (fe_to_canonical (poseidon3 HSM_PEERSEED_v1 seed (fe_from_u64 k))) ! 0 mod tot"
  have nz: "tot \<noteq> 0" using d by (auto simp: weighted_draw_def)
  then have s: "unat sel < unat tot" by (simp add: sel_def unat_mod unat_gt_0)
  have b: "unat (0 :: u64) + (\<Sum>w\<leftarrow>ws. unat w) < 2 ^ 64" using t unsigned_less [of tot, where ?'a = nat] by simp
  obtain j where j: "draw_walk sel 0 0 ws = Some j" using draw_walk_hits [OF b] s t by fastforce
  then have i: "i = j" using d nz by (auto simp: weighted_draw_def sel_def [symmetric] Let_def split: if_splits)
  have r: "j < length ws" "(\<Sum>w\<leftarrow>take j ws. unat w) \<le> unat sel" "unat sel < (\<Sum>w\<leftarrow>take (Suc j) ws. unat w)"
    using draw_walk_range [OF j b] by simp_all
  then have "(\<Sum>w\<leftarrow>take (Suc j) ws. unat w) = (\<Sum>w\<leftarrow>take j ws. unat w) + unat (ws ! j)" by (simp add: take_Suc_conv_app_nth)
  then show ?thesis using r i by simp
qed

subsection \<open>Scores and classes\<close>

lemma ema_tick_val:
  assumes "s \<le> 1000000"
  shows "unat (ema_tick s True) = unat s + (1000000 - unat s) * 28468 div 1000000"
    and "unat (ema_tick s False) = unat s * 971532 div 1000000"
proof -
  have s: "unat s \<le> 1000000" using assms by (simp add: word_le_nat_alt)
  define m where "m = 1000000 - s"
  have mm: "unat m = 1000000 - unat s" using assms by (simp add: m_def unat_sub)
  have "unat m \<le> 1000000" using mm by linarith
  then have p: "unat (m * 28468) = unat m * 28468" by (simp add: unat_word_ariths)
  have n: "unat (s * 971532) = unat s * 971532" using s by (simp add: unat_word_ariths)
  let ?r = "(1000000 - unat s) * 28468 div 1000000"
  have r: "?r \<le> 1000000 - unat s" using s by linarith
  have d: "unat (m * 28468 div 1000000) = unat m * 28468 div 1000000" unfolding unat_div p by simp
  have q: "unat (s + m * 28468 div 1000000) = unat s + ?r"
    using s r by (simp add: unat_word_ariths d mm)
  then have "\<not> s + m * 28468 div 1000000 > 1000000" using s r by (simp add: word_less_nat_alt)
  then show "unat (ema_tick s True) = unat s + ?r"
    using q by (simp only: ema_tick_def EMA_REC_N_def EMA_SCALE_def m_def [symmetric] Let_def if_True if_False)
  show "unat (ema_tick s False) = unat s * 971532 div 1000000"
    by (simp add: ema_tick_def EMA_LAM_N_def EMA_SCALE_def unat_div n)
qed

text \<open>A score stays in its range, rises on a response and falls on a silence.\<close>

lemma ema_tick_bounds:
  assumes "s \<le> 1000000"
  shows "ema_tick s r \<le> 1000000 \<and> (if r then s \<le> ema_tick s r else ema_tick s r \<le> s)"
proof -
  have s: "unat s \<le> 1000000" using assms by (simp add: word_le_nat_alt)
  then have "(1000000 - unat s) * 28468 div 1000000 \<le> 1000000 - unat s" by linarith
  then show ?thesis using ema_tick_val [OF assms] s by (cases r) (auto simp: word_le_nat_alt)
qed

lemma msg_admit_caps: "msg_admit c sz pull \<Longrightarrow> sz \<le> 128 * 1024"
  by (cases c) (auto simp: msg_admit_def Let_def split: if_splits)

end
