(* ===== verification/Node_Votes.thy ===== *)
theory Node_Votes
  imports Node_Order Net_Guard
begin

text \<open>
  Votes, peers and receipts of the node (\<open>src/tools/epoch_node.cpp\<close>): the roster that filters votes,
  the vote of a tick and the tally, the verification of a vote with its batches and the detection of
  equivocation, and what joining and leaving connections do to the weights.
\<close>

subsection \<open>The roster\<close>

text \<open>Pairs in the order of \<open>std::sort\<close>: by identity, then by weight.\<close>

definition sort_roster :: "(u64 \<times> u64) list \<Rightarrow> (u64 \<times> u64) list" where
  "sort_roster r = sort_key fst (sort_key snd r)"

definition weight_root :: "(u64 \<times> u64) list \<Rightarrow> Digest" where
  "weight_root members =
     (let roster = sort_roster (if members = [] then [(1, 60), (2, 40)] else members)
      in sha256d (ascii ''HSM_WROOT_V1'' @ be_bytes 4 (of_nat (length roster) :: u32)
           @ concat (map (\<lambda>(i, w). be_bytes 8 i @ be_bytes 8 w) roster)))"

subsection \<open>Receiving a vote\<close>

definition loop_of :: "Node \<Rightarrow> NodeState" where
  "loop_of s = vo_loop (nd_vot s)"

definition set_loop :: "NodeState \<Rightarrow> Node \<Rightarrow> Node" where
  "set_loop l s = s\<lparr>nd_vot := (nd_vot s)\<lparr>vo_loop := l\<rparr>\<rparr>"

definition batch_key :: "u64 \<Rightarrow> Digest \<Rightarrow> bytes" where
  "batch_key rnd pref = le_bytes 8 rnd @ to_bytes pref"

definition no_batch :: AggBatch where
  "no_batch = \<lparr>ab_av = av_new, ab_pre = [], ab_count = 0\<rparr>"

text \<open>A signature joins the batch of its round and preference; two of them are verified together.\<close>

definition join_batch :: "bytes \<Rightarrow> bytes \<Rightarrow> Pt \<Rightarrow> G2Pt \<Rightarrow> Node \<Rightarrow> Node option" where
  "join_batch key pre sigma Y s =
     (let v = nd_vot s; b = (case map_of (vo_batches v) key of None \<Rightarrow> no_batch | Some b \<Rightarrow> b);
          b = (if ab_count b = 0 then b\<lparr>ab_pre := pre\<rparr> else b);
          b = b\<lparr>ab_av := agg_accumulate (ab_av b) sigma Y, ab_count := ab_count b + 1\<rparr>
      in if ab_count b < 2 then Some (s\<lparr>nd_vot := v\<lparr>vo_batches := AList.update key b (vo_batches v)\<rparr>\<rparr>)
         else case agg_verify (ab_av b) (ab_pre b) of None \<Rightarrow> None
           | Some ok \<Rightarrow>
               Some (s\<lparr>nd_vot := v\<lparr>vo_batches := AList.delete key (vo_batches v),
                                   vo_receipts := (if ok then vo_receipts v + 1 else vo_receipts v)\<rparr>\<rparr>))"

text \<open>The member of a vote without a claim is found by trying the keys in turn.\<close>

fun scan_members :: "Pt \<Rightarrow> bytes \<Rightarrow> (u64 \<times> G2Pt) list \<Rightarrow> (u64 \<times> G2Pt) option option" where
  "scan_members sigma pre [] = Some None"
| "scan_members sigma pre ((j, Y) # ms) =
     (if G2_PisInf Y then scan_members sigma pre ms
      else case verify_vote sigma pre Y of None \<Rightarrow> None
        | Some True \<Rightarrow> Some (Some (j, Y))
        | Some False \<Rightarrow> scan_members sigma pre ms)"

definition vote_member :: "DecodedVote \<Rightarrow> Node \<Rightarrow> (u64 option \<times> Node) option" where
  "vote_member d s =
     (let pre = vote_preimage (dv_epoch d) (dv_wroot d) (dv_conflict d) (dv_round d) (dv_pref d)
      in if \<not> vote_fresh (dv_epoch d) (dv_round d) (dv_wroot d) (nc_wroot (nd_com s)) (dv_conflict d) (n_conflict (loop_of s))
              (ucast (nd_epoch s)) (ucast (n_rounds (loop_of s)))
         then Some (None, s)
         else if dv_has_member d then
           (case member_key (dv_member d) s of None \<Rightarrow> Some (None, s)
            | Some Y \<Rightarrow>
                if G2_PisInf Y then Some (None, s)
                else map_option (\<lambda>ok. (if ok then Some (dv_member d) else None, s)) (verify_vote_member (dv_sigma d) pre Y))
         else
           (case scan_members (dv_sigma d) pre (nc_members (nd_com s)) of None \<Rightarrow> None
            | Some None \<Rightarrow> Some (None, s)
            | Some (Some (j, Y)) \<Rightarrow>
                map_option (Pair (Some j)) (join_batch (batch_key (dv_round d) (dv_pref d)) pre (dv_sigma d) Y s)))"

text \<open>The peers of an excised member lose their weight, and so does the total.\<close>

definition excise :: "u64 \<Rightarrow> NodeState \<Rightarrow> NodeState" where
  "excise m ns =
     foldl (\<lambda>ns i. let p = peers ns ! i
        in if peer_member p = m \<and> peer_weight p > 0
           then ns\<lparr>total_weight := total_weight ns - peer_weight p, peers := (peers ns)[i := p\<lparr>peer_weight := 0\<rparr>]\<rparr> else ns)
       ns [0..<length (peers ns)]"

definition bind_peer :: "int \<Rightarrow> u64 \<Rightarrow> LoopPeer \<Rightarrow> LoopPeer" where
  "bind_peer fd m p = (if peer_member p = 0 \<and> LoopPeer.peer_port p = of_int fd then p\<lparr>peer_member := m\<rparr> else p)"

definition check_equivocation :: "u64 \<Rightarrow> u64 \<Rightarrow> Digest \<Rightarrow> Voting \<Rightarrow> Voting" where
  "check_equivocation m rnd pref v =
     (let hex = bytes_hex (to_bytes pref)
      in case vo_signed v (m, rnd) of
           None \<Rightarrow> v\<lparr>vo_signed := (vo_signed v)((m, rnd) \<mapsto> hex)\<rparr>
         | Some h \<Rightarrow>
             if h = hex then v
             else v\<lparr>vo_stake := snd (slash_equivocation (vo_stake v) m), vo_adversarial := (vo_adversarial v)(m := True),
                    vo_loop := excise m (vo_loop v)\<rparr>)"

text \<open>The first accepted vote of a member bonds it; the two ticks activate the bond.\<close>

definition seed_stake :: "u64 \<Rightarrow> Voting \<Rightarrow> Voting" where
  "seed_stake m v =
     (if vo_seeded v m then v
      else v\<lparr>vo_stake := tick_epoch (tick_epoch (snd (deposit (vo_stake v) m (min_bond default_params) 0 0)) 10) 11,
             vo_seeded := (vo_seeded v)(m := True)\<rparr>)"

definition accept_vote :: "int \<Rightarrow> u64 \<Rightarrow> DecodedVote \<Rightarrow> Node \<Rightarrow> Node" where
  "accept_vote fd m d s =
     (let v = nd_vot s; l = vo_loop v;
          v = v\<lparr>vo_prefs := AList.update m (dv_pref d) (vo_prefs v), vo_fd_member := (vo_fd_member v)(fd \<mapsto> m),
                vo_loop := l\<lparr>peers := map (bind_peer fd m) (peers l)\<rparr>\<rparr>
      in s\<lparr>nd_vot := seed_stake m (check_equivocation m (dv_round d) (dv_pref d) v)\<rparr>)"

definition handle_vote :: "int \<Rightarrow> Message \<Rightarrow> Node \<Rightarrow> Node option" where
  "handle_vote fd m s =
     (let d = decode_vote m
      in if \<not> dv_ok d then Some s
         else case vote_member d s of None \<Rightarrow> None
           | Some (None, s) \<Rightarrow> Some s
           | Some (Some j, s) \<Rightarrow> Some (accept_vote fd j d s))"

subsection \<open>The tick of the vote\<close>

definition send_vote :: "Node \<Rightarrow> Node option" where
  "send_vote s =
     (let l = loop_of s; r = ucast (n_rounds l);
          pre = vote_preimage (nd_epoch s) (nc_wroot (nd_com s)) (n_conflict l) r (n_preference l)
      in map_option (\<lambda>sig. send_all (encode_vote_v2 (nd_epoch s) (nc_wroot (nd_com s)) (n_conflict l) r (n_preference l) sig
             (ucast (nc_self (nd_com s)))) (nd_fds s) s)
           (sign_vote (nc_own (nd_com s)) pre))"

text \<open>
  The preferences are taken in the order of the members. After a suspension the breaker chooses among
  what was frozen; its beacon is not chained.
\<close>

definition vote_tally :: "LoopConfig \<Rightarrow> Node \<Rightarrow> Node option" where
  "vote_tally cfg s =
     (let pp = sort_key fst (vo_prefs (nd_vot s))
      in if pp = [] then Some s
         else let (rr, l) = loop_tick (loop_of s) cfg pp; s = set_loop l s
           in if n_state l \<noteq> Suspended then Some s
              else let frozen = n_preference l # filter (\<lambda>p. p \<noteq> n_preference l) (map snd pp)
                in case Option.bind (beacon_committee (nd_com s)) (\<lambda>com. epoch_beacon com (ucast (nd_epoch s) + 1) (ce_beacon (nd_cer s))) of
                     None \<Rightarrow> None
                   | Some b \<Rightarrow> Some (set_loop (snd (breaker_tick l cfg b frozen)) s))"

text \<open>More than 128 open batches are forgotten.\<close>

definition vote_tick :: "LoopConfig \<Rightarrow> Node \<Rightarrow> Node option" where
  "vote_tick cfg s =
     (case send_vote s of None \<Rightarrow> None
      | Some s \<Rightarrow>
          vote_tally cfg (if length (vo_batches (nd_vot s)) > 128 then s\<lparr>nd_vot := (nd_vot s)\<lparr>vo_batches := []\<rparr>\<rparr> else s))"

subsection \<open>Connections\<close>

definition JOIN_WEIGHT :: u64 where "JOIN_WEIGHT = 30"

text \<open>A new connection: its stored shares, its default weight, the announcement of the own address.\<close>

definition add_peer :: "LoopPeer \<Rightarrow> Node \<Rightarrow> Node" where
  "add_peer p s = set_loop ((loop_of s)\<lparr>peers := peers (loop_of s) @ [p], total_weight := total_weight (loop_of s) + JOIN_WEIGHT\<rparr>) s"

definition accept_peer :: "NodeEnv \<Rightarrow> u32 \<Rightarrow> u32 \<Rightarrow> int \<Rightarrow> Node \<Rightarrow> Node" where
  "accept_peer env my_ip my_port fd s =
     (let s = s\<lparr>nd_fds := nd_fds s @ [fd]\<rparr>;
          s = (if ce_dec (nd_cer s) \<noteq> [] then send_sync_batch env fd s else s);
          s = add_peer (LoopPeer.make 0 (of_int fd) JOIN_WEIGHT 0) s;
          s = s\<lparr>nd_vot := (nd_vot s)\<lparr>vo_fd_weight := (vo_fd_weight (nd_vot s))(fd \<mapsto> JOIN_WEIGHT)\<rparr>\<rparr>
      in if my_ip = 0 then s
         else send_all \<lparr>m_type = 0x09, m_payload = be_bytes 4 my_ip @ [ucast (my_port AND 255), ucast (drop_bit 8 my_port)]\<rparr> [fd] s)"

text \<open>The reconnection to a seed: its weight is counted but not recorded under the descriptor.\<close>

definition reconnect :: "int \<Rightarrow> u32 \<times> u16 \<Rightarrow> Node \<Rightarrow> Node" where
  "reconnect fd a s = add_peer (LoopPeer.make (fst a) (snd a) JOIN_WEIGHT 0) (s\<lparr>nd_fds := nd_fds s @ [fd]\<rparr>)"

text \<open>The record that leaves the sampling list: the first that carries the identity or the descriptor.\<close>

definition leaving :: "u64 \<Rightarrow> int \<Rightarrow> LoopPeer \<Rightarrow> bool" where
  "leaving m fd p \<longleftrightarrow> (m \<noteq> 0 \<and> peer_member p = m) \<or> (peer_member p = 0 \<and> LoopPeer.peer_port p = of_int fd)"

fun remove_first :: "('a \<Rightarrow> bool) \<Rightarrow> 'a list \<Rightarrow> 'a list" where
  "remove_first P [] = []"
| "remove_first P (x # xs) = (if P x then xs else x # remove_first P xs)"

definition drop_weight :: "int \<Rightarrow> Voting \<Rightarrow> Voting" where
  "drop_weight fd v =
     (case vo_fd_weight v fd of None \<Rightarrow> v
      | Some w \<Rightarrow>
          let l = vo_loop v; t = total_weight l - w
          in v\<lparr>vo_fd_weight := (vo_fd_weight v)(fd := None),
               vo_loop := l\<lparr>total_weight := if t < self_weight l then self_weight l else t\<rparr>\<rparr>)"

definition disconnect :: "int \<Rightarrow> Node \<Rightarrow> Node" where
  "disconnect fd s =
     (let v = drop_weight fd (nd_vot s); lost = (case vo_fd_member v fd of None \<Rightarrow> 0 | Some m \<Rightarrow> m); l = vo_loop v;
          v = v\<lparr>vo_loop := l\<lparr>peers := remove_first (leaving lost fd) (peers l)\<rparr>,
                vo_prefs := (if lost \<noteq> 0 then AList.delete lost (vo_prefs v) else vo_prefs v),
                vo_fd_member := (vo_fd_member v)(fd := None)\<rparr>
      in s\<lparr>nd_vot := v, nd_fds := remove_first ((=) fd) (nd_fds s)\<rparr>)"

subsection \<open>Receipts of uptime and announcements\<close>

record Ledgers =
  lg_uptime :: "u64 \<Rightarrow> u64"
  lg_receipts :: "u64 \<Rightarrow> u64"
  lg_last :: "u64 \<rightharpoonup> u64"

text \<open>The eight bytes of the uptime start at the twenty-fifth of twenty-eight.\<close>

definition credit_uptime :: "u64 \<Rightarrow> u64 \<Rightarrow> Ledgers \<Rightarrow> Ledgers" where
  "credit_uptime mid rd g =
     (if (case lg_last g mid of None \<Rightarrow> False | Some lr \<Rightarrow> rd \<le> lr) then g
      else g\<lparr>lg_uptime := (lg_uptime g)(mid := lg_uptime g mid + 300),
             lg_receipts := (lg_receipts g)(mid := lg_receipts g mid + 1), lg_last := (lg_last g)(mid \<mapsto> rd)\<rparr>)"

definition handle_uptime :: "bytes \<Rightarrow> Ledgers \<Rightarrow> Ledgers option" where
  "handle_uptime p g =
     (if length p \<noteq> 28 then Some g
      else if length p < 24 + 8 then None
      else Some (credit_uptime (le_word (take 8 p)) (le_word (take 8 (drop 16 p))) g))"

text \<open>The address of an announcement, as it is read; \<open>dial\<close> is the descriptor of the connection, if one is made.\<close>

definition announced :: "bytes \<Rightarrow> u32 \<times> u16" where
  "announced p = (le_word (take 4 p), le_word (take 2 (drop 4 p)))"

definition handle_announce :: "bytes \<Rightarrow> (u32 \<times> u16 \<Rightarrow> int option) \<Rightarrow> (u32 \<times> u16) list \<times> Node \<Rightarrow> (u32 \<times> u16) list \<times> Node" where
  "handle_announce p dial ds =
     (let (disc, s) = ds; a = announced p
      in if length p \<noteq> 6 \<or> a \<in> set disc then (disc, s)
         else let s = (if length (nd_fds s) < MAX_PEERS then
                (case dial a of None \<Rightarrow> s
                 | Some fd \<Rightarrow>
                     (add_peer (LoopPeer.make (fst a) (snd a) JOIN_WEIGHT 0)
                       (s\<lparr>nd_fds := nd_fds s @ [fd], nd_vot := (nd_vot s)\<lparr>vo_fd_weight := (vo_fd_weight (nd_vot s))(fd \<mapsto> JOIN_WEIGHT)\<rparr>\<rparr>)))
               else s)
           in (disc @ [a], send_all \<lparr>m_type = 0x09, m_payload = p\<rparr> (filter (\<lambda>fd. fd \<noteq> hd (nd_fds s)) (nd_fds s)) s))"


subsection \<open>The roster does not depend on the order of arrival\<close>

lemma sort_roster_perm:
  assumes "mset r = mset r'"
  shows "sort_roster r = sort_roster r'"
  unfolding sort_roster_def
proof (rule properties_for_sort_key)
  show "mset (sort_key fst (sort_key snd r')) = mset (sort_key snd r)" using assms by simp
  show "sorted (map fst (sort_key fst (sort_key snd r')))" by simp
  fix x
  have "sort_key snd (filter (\<lambda>y. fst x = fst y) r) = sort_key snd (filter (\<lambda>y. fst x = fst y) r')"
    by (rule sort_key_inj_key_eq) (use assms in \<open>auto simp: mset_filter inj_on_def prod_eq_iff\<close>)
  then show "filter (\<lambda>y. fst x = fst y) (sort_key fst (sort_key snd r')) = filter (\<lambda>y. fst x = fst y) (sort_key snd r)"
    using sort_key_stable [of fst "fst x" "sort_key snd r'"] by (simp add: filter_sort eq_commute [of "fst x"])
qed

lemma weight_root_perm: "mset ms = mset ms' \<Longrightarrow> weight_root ms = weight_root ms'"
  using sort_roster_perm [of ms ms'] by (auto simp: weight_root_def Let_def dest: mset_eq_length)

subsection \<open>Equivocation\<close>

lemma excise_fields [simp]: "self_weight (excise m ns) = self_weight ns" "n_preference (excise m ns) = n_preference ns"
proof -
  have "self_weight (foldl (\<lambda>ns i. let p = peers ns ! i
        in if peer_member p = m \<and> peer_weight p > 0
           then ns\<lparr>total_weight := total_weight ns - peer_weight p, peers := (peers ns)[i := p\<lparr>peer_weight := 0\<rparr>]\<rparr> else ns) ns is)
      = self_weight ns \<and> n_preference (foldl (\<lambda>ns i. let p = peers ns ! i
        in if peer_member p = m \<and> peer_weight p > 0
           then ns\<lparr>total_weight := total_weight ns - peer_weight p, peers := (peers ns)[i := p\<lparr>peer_weight := 0\<rparr>]\<rparr> else ns) ns is)
      = n_preference ns" for "is"
    by (induction "is" arbitrary: ns) (simp_all add: Let_def)
  then show "self_weight (excise m ns) = self_weight ns" "n_preference (excise m ns) = n_preference ns"
    by (simp_all add: excise_def)
qed

definition mute :: "u64 \<Rightarrow> LoopPeer \<Rightarrow> LoopPeer" where
  "mute m p = (if peer_member p = m then p\<lparr>peer_weight := 0\<rparr> else p)"

lemma excise_prefix:
  "n \<le> length (peers ns) \<Longrightarrow>
   foldl (\<lambda>ns i. let p = peers ns ! i
        in if peer_member p = m \<and> peer_weight p > 0
           then ns\<lparr>total_weight := total_weight ns - peer_weight p, peers := (peers ns)[i := p\<lparr>peer_weight := 0\<rparr>]\<rparr> else ns)
      ns [0..<n]
    = ns\<lparr>total_weight := total_weight ns - (\<Sum>p\<leftarrow>filter (\<lambda>p. peer_member p = m) (take n (peers ns)). peer_weight p),
         peers := map (mute m) (take n (peers ns)) @ drop n (peers ns)\<rparr>"
proof (induction n)
  case (Suc n)
  then have n: "n < length (peers ns)" by simp
  have w: "peer_weight p > 0 \<longleftrightarrow> peer_weight p \<noteq> 0" for p :: LoopPeer by (simp add: word_neq_0_conv)
  have z: "peer_weight p = 0 \<Longrightarrow> p\<lparr>peer_weight := 0\<rparr> = p" for p :: LoopPeer by (cases p) simp
  show ?case
    using Suc n
    by (auto simp: take_Suc_conv_app_nth Cons_nth_drop_Suc [symmetric] nth_append list_update_append mute_def w z Let_def
        algebra_simps)
qed simp

lemma excise_eq:
  "excise m ns = ns\<lparr>total_weight := total_weight ns - (\<Sum>p\<leftarrow>filter (\<lambda>p. peer_member p = m) (peers ns). peer_weight p),
     peers := map (mute m) (peers ns)\<rparr>"
  using excise_prefix [of "length (peers ns)" ns m] by (simp add: excise_def)

lemma mute_member [simp]: "peer_member (mute m p) = peer_member p"
  by (simp add: mute_def)

lemma find_in: "find P xs = Some q \<Longrightarrow> q \<in> set xs \<and> P q"
  by (induction xs) (auto split: if_splits)

lemma excise_weight: "weight_of (excise m ns) m = 0"
proof (cases "find (\<lambda>p. peer_member p = m) (map (mute m) (peers ns))")
  case (Some q)
  then obtain p where "q = mute m p" "peer_member q = m" using find_in by fastforce
  then have "peer_weight q = 0" using mute_member [of m p] by (simp add: mute_def)
  then show ?thesis using Some by (simp add: weight_of_def excise_eq)
qed (simp add: weight_of_def excise_eq)

lemma excise_others: "j \<noteq> m \<Longrightarrow> weight_of (excise m ns) j = weight_of ns j"
proof -
  assume j: "j \<noteq> m"
  have "find (\<lambda>p. peer_member p = j) (map (mute m) ps) = find (\<lambda>p. peer_member p = j) ps" for ps
    using j by (induction ps) (auto simp: mute_def)
  then show ?thesis by (simp add: weight_of_def excise_eq)
qed

text \<open>A second statement of a member for a round, with another preference, takes its stake and its voice, and no one else's.\<close>

lemma equivocation_excised:
  assumes "vo_signed v (m, rnd) = Some h" and "h \<noteq> bytes_hex (to_bytes pref)"
  shows "vo_adversarial (check_equivocation m rnd pref v) m"
    and "active_weight (vo_stake (check_equivocation m rnd pref v)) m = 0"
    and "weight_of (vo_loop (check_equivocation m rnd pref v)) m = 0"
    and "j \<noteq> m \<Longrightarrow> weight_of (vo_loop (check_equivocation m rnd pref v)) j = weight_of (vo_loop v) j
           \<and> bonds_of (vo_stake (check_equivocation m rnd pref v)) j = bonds_of (vo_stake v) j"
  using assms by (simp_all add: check_equivocation_def Let_def slash_active_weight excise_weight excise_others slash_others)

lemma honest_round_kept: "vo_signed v (m, rnd) = Some (bytes_hex (to_bytes pref)) \<Longrightarrow> check_equivocation m rnd pref v = v"
  by (simp add: check_equivocation_def Let_def)

subsection \<open>Joining and leaving\<close>

lemma send_all_out: "send_all m fds s = s\<lparr>nd_out := nd_out s @ map (\<lambda>fd. (fd, m)) fds\<rparr>"
  by (simp add: send_all_def)

lemma remove_last: "\<forall>x\<in>set xs. \<not> P x \<Longrightarrow> P y \<Longrightarrow> remove_first P (xs @ [y]) = xs"
  by (induction xs) simp_all

lemma remove_none: "\<forall>x\<in>set xs. \<not> P x \<Longrightarrow> remove_first P xs = xs"
  by (induction xs) simp_all

lemma accept_peer_eq:
  "accept_peer env ip port fd s = s\<lparr>nd_fds := nd_fds s @ [fd], nd_out := nd_out (accept_peer env ip port fd s),
     nd_vot := (nd_vot s)\<lparr>vo_loop := (loop_of s)\<lparr>peers := peers (loop_of s) @ [LoopPeer.make 0 (of_int fd) JOIN_WEIGHT 0],
       total_weight := total_weight (loop_of s) + JOIN_WEIGHT\<rparr>, vo_fd_weight := (vo_fd_weight (nd_vot s))(fd \<mapsto> JOIN_WEIGHT)\<rparr>\<rparr>"
  by (cases s) (simp add: accept_peer_def add_peer_def set_loop_def loop_of_def send_sync_batch_def send_all_out Let_def)

text \<open>A connection that carried no vote leaves the node as it was before, up to what was sent.\<close>

definition unknown_fd :: "int \<Rightarrow> Node \<Rightarrow> bool" where
  "unknown_fd fd s \<longleftrightarrow> fd \<notin> set (nd_fds s) \<and> vo_fd_weight (nd_vot s) fd = None \<and> vo_fd_member (nd_vot s) fd = None
     \<and> (\<forall>p\<in>set (peers (loop_of s)). \<not> leaving 0 fd p)"

lemma join_then_leave:
  assumes "unknown_fd fd s" and "self_weight (loop_of s) \<le> total_weight (loop_of s)"
  shows "disconnect fd (accept_peer env ip port fd s) = s\<lparr>nd_out := nd_out (accept_peer env ip port fd s)\<rparr>"
proof -
  obtain out where a: "accept_peer env ip port fd s = s\<lparr>nd_fds := nd_fds s @ [fd], nd_out := out,
     nd_vot := (nd_vot s)\<lparr>vo_loop := (loop_of s)\<lparr>peers := peers (loop_of s) @ [LoopPeer.make 0 (of_int fd) JOIN_WEIGHT 0],
       total_weight := total_weight (loop_of s) + JOIN_WEIGHT\<rparr>, vo_fd_weight := (vo_fd_weight (nd_vot s))(fd \<mapsto> JOIN_WEIGHT)\<rparr>\<rparr>"
    and out: "nd_out (accept_peer env ip port fd s) = out"
    using accept_peer_eq by blast
  have p: "remove_first (leaving 0 fd) (peers (loop_of s) @ [LoopPeer.make 0 (of_int fd) JOIN_WEIGHT 0]) = peers (loop_of s)"
    by (rule remove_last) (use assms in \<open>auto simp: unknown_fd_def leaving_def LoopPeer.make_def\<close>)
  have f: "remove_first ((=) fd) (nd_fds s @ [fd]) = nd_fds s"
    by (rule remove_last) (use assms in \<open>auto simp: unknown_fd_def\<close>)
  have m: "vo_fd_member (nd_vot s) fd = None" and w: "vo_fd_weight (nd_vot s) fd = None"
    using assms by (simp_all add: unknown_fd_def)
  have u: "(vo_fd_member (nd_vot s))(fd := None) = vo_fd_member (nd_vot s)" "(vo_fd_weight (nd_vot s))(fd := None) = vo_fd_weight (nd_vot s)"
    using m w by (simp_all add: fun_upd_idem)
  show ?thesis
    using assms(2) p f m u unfolding out unfolding a disconnect_def drop_weight_def Let_def loop_of_def
    by (simp add: linorder_not_less)
qed

text \<open>A reconnection is not recorded under its descriptor: when it ends, its weight and its record stay.\<close>

lemma reconnect_leaks:
  assumes "unknown_fd fd s" and "snd a \<noteq> of_int fd"
  shows "total_weight (loop_of (disconnect fd (reconnect fd a s))) = total_weight (loop_of s) + JOIN_WEIGHT"
    and "length (peers (loop_of (disconnect fd (reconnect fd a s)))) = length (peers (loop_of s)) + 1"
proof -
  have p: "remove_first (leaving 0 fd) (peers (vo_loop (nd_vot s)) @ [LoopPeer.make (fst a) (snd a) JOIN_WEIGHT 0])
      = peers (vo_loop (nd_vot s)) @ [LoopPeer.make (fst a) (snd a) JOIN_WEIGHT 0]"
    by (rule remove_none) (use assms in \<open>auto simp: unknown_fd_def leaving_def LoopPeer.make_def loop_of_def\<close>)
  show "total_weight (loop_of (disconnect fd (reconnect fd a s))) = total_weight (loop_of s) + JOIN_WEIGHT"
    "length (peers (loop_of (disconnect fd (reconnect fd a s)))) = length (peers (loop_of s)) + 1"
    using assms p
    by (simp_all add: unknown_fd_def disconnect_def drop_weight_def reconnect_def add_peer_def set_loop_def loop_of_def Let_def)
qed

text \<open>The weight of an excised member is taken from the total once more when its connection ends.\<close>

lemma excised_twice:
  assumes "vo_fd_weight v fd = Some w"
  shows "total_weight (vo_loop (drop_weight fd (v\<lparr>vo_loop := excise m (vo_loop v)\<rparr>)))
     = max (self_weight (vo_loop v))
         (total_weight (vo_loop v) - (\<Sum>p\<leftarrow>filter (\<lambda>p. peer_member p = m) (peers (vo_loop v)). peer_weight p) - w)"
  using assms by (simp add: drop_weight_def Let_def excise_eq max_def linorder_not_less [symmetric])

subsection \<open>Accepted votes\<close>

lemma member_key_in: "member_key m s = Some Y \<Longrightarrow> (m, Y) \<in> set (nc_members (nd_com s))"
  unfolding member_key_def by (auto dest: find_in)

lemma scan_members_in:
  "scan_members sigma pre ms = Some (Some (j, Y)) \<Longrightarrow>
     (j, Y) \<in> set ms \<and> \<not> G2_PisInf Y \<and> verify_vote sigma pre Y = Some True"
  by (induction sigma pre ms rule: scan_members.induct) (auto split: if_splits option.splits bool.splits)

lemma join_batch_frame: "join_batch key pre sigma Y s = Some s' \<Longrightarrow> \<exists>v. s' = s\<lparr>nd_vot := v\<rparr>"
  by (auto simp: join_batch_def Let_def split: if_splits option.splits)

text \<open>A vote counts only when it is fresh and a key of the committee verifies it.\<close>

definition vote_signed :: "DecodedVote \<Rightarrow> u64 \<Rightarrow> Node \<Rightarrow> bool" where
  "vote_signed d j s \<longleftrightarrow> (\<exists>Y. (j, Y) \<in> set (nc_members (nd_com s)) \<and> \<not> G2_PisInf Y
     \<and> (let pre = vote_preimage (dv_epoch d) (dv_wroot d) (dv_conflict d) (dv_round d) (dv_pref d)
        in if dv_has_member d then j = dv_member d \<and> verify_vote_member (dv_sigma d) pre Y = Some True
           else verify_vote (dv_sigma d) pre Y = Some True))"

lemma vote_member_cases:
  assumes "vote_member d s = Some (r, s')"
  obtains (refused) "r = None" "s' = s"
  | (counted) j v where "r = Some j" "s' = s\<lparr>nd_vot := v\<rparr>" "vote_signed d j s"
      "vote_fresh (dv_epoch d) (dv_round d) (dv_wroot d) (nc_wroot (nd_com s)) (dv_conflict d) (n_conflict (loop_of s))
          (ucast (nd_epoch s)) (ucast (n_rounds (loop_of s)))"
proof -
  let ?pre = "vote_preimage (dv_epoch d) (dv_wroot d) (dv_conflict d) (dv_round d) (dv_pref d)"
  let ?fr = "vote_fresh (dv_epoch d) (dv_round d) (dv_wroot d) (nc_wroot (nd_com s)) (dv_conflict d) (n_conflict (loop_of s))
          (ucast (nd_epoch s)) (ucast (n_rounds (loop_of s)))"
  consider "r = None" "s' = s"
    | (claimed) Y where "?fr" "dv_has_member d" "member_key (dv_member d) s = Some Y" "\<not> G2_PisInf Y"
        "verify_vote_member (dv_sigma d) ?pre Y = Some True" "r = Some (dv_member d)" "s' = s"
    | (scanned) j Y where "?fr" "\<not> dv_has_member d" "scan_members (dv_sigma d) ?pre (nc_members (nd_com s)) = Some (Some (j, Y))"
        "r = Some j" "join_batch (batch_key (dv_round d) (dv_pref d)) ?pre (dv_sigma d) Y s = Some s'"
    using assms unfolding vote_member_def Let_def by (auto split: if_splits option.splits)
  then show ?thesis
  proof cases
    case 1
    then show ?thesis by (rule refused)
  next
    case claimed
    show ?thesis
      by (rule counted [of "dv_member d" "nd_vot s"]) (use claimed member_key_in [OF claimed(3)] in \<open>auto simp: vote_signed_def Let_def\<close>)
  next
    case scanned
    obtain v where v: "s' = s\<lparr>nd_vot := v\<rparr>" using join_batch_frame [OF scanned(5)] by blast
    show ?thesis
      by (rule counted [of j v]) (use scanned v scan_members_in [OF scanned(3)] in \<open>auto simp: vote_signed_def Let_def\<close>)
  qed
qed

lemma handle_vote_cases:
  assumes "handle_vote fd m s = Some s'"
  obtains (refused) "s' = s"
  | (counted) j v where "vote_signed (decode_vote m) j s"
      "s' = accept_vote fd j (decode_vote m) (s\<lparr>nd_vot := v\<rparr>)"
proof (cases "dv_ok (decode_vote m)")
  case True
  show ?thesis
  proof (cases "vote_member (decode_vote m) s")
    case None
    then show ?thesis using assms True by (simp add: handle_vote_def)
  next
    case (Some rt)
    obtain r t where rt: "rt = (r, t)" by (cases rt)
    have s': "s' = (case r of None \<Rightarrow> t | Some j \<Rightarrow> accept_vote fd j (decode_vote m) t)"
      using assms True Some rt by (cases r) (simp_all add: handle_vote_def)
    show ?thesis
      using Some unfolding rt
    proof (cases rule: vote_member_cases)
      case refused
      then show ?thesis using s' that(1) by simp
    next
      case (counted j v)
      then show ?thesis using s' that(2) [of j v] by simp
    qed
  qed
next
  case False
  then show ?thesis using assms refused by (simp add: handle_vote_def)
qed

lemma same_votes: "\<exists>v. s = s\<lparr>nd_vot := v\<rparr>"
  by (rule exI [of _ "nd_vot s"]) simp

lemma handle_vote_frame:
  assumes "handle_vote fd m s = Some s'"
  shows "\<exists>v. s' = s\<lparr>nd_vot := v\<rparr>"
  using assms
proof (cases rule: handle_vote_cases)
  case refused
  then show ?thesis using same_votes [of s] by simp
qed (auto simp: accept_vote_def Let_def)

lemma vote_tally_frame:
  assumes "vote_tally cfg s = Some s'"
  shows "\<exists>v. s' = s\<lparr>nd_vot := v\<rparr>"
  using assms same_votes [of s] unfolding vote_tally_def Let_def set_loop_def
  by (auto split: if_splits option.splits prod.splits)

lemma vote_tick_frame:
  assumes "vote_tick cfg s = Some s'"
  shows "\<exists>v out. s' = s\<lparr>nd_vot := v, nd_out := out\<rparr>"
proof -
  obtain t where t: "send_vote s = Some t" "vote_tally cfg (if length (vo_batches (nd_vot t)) > 128
      then t\<lparr>nd_vot := (nd_vot t)\<lparr>vo_batches := []\<rparr>\<rparr> else t) = Some s'"
    using assms by (auto simp: vote_tick_def split: option.splits)
  obtain out where o: "t = s\<lparr>nd_out := out\<rparr>"
    using t(1) unfolding send_vote_def Let_def send_all_def by auto
  obtain v where "s' = (if length (vo_batches (nd_vot t)) > 128 then t\<lparr>nd_vot := (nd_vot t)\<lparr>vo_batches := []\<rparr>\<rparr> else t)\<lparr>nd_vot := v\<rparr>"
    using vote_tally_frame [OF t(2)] by blast
  then have "s' = s\<lparr>nd_vot := v, nd_out := out\<rparr>" by (cases s) (simp add: o)
  then show ?thesis by blast
qed

subsection \<open>Receipts and addresses\<close>

text \<open>A receipt of the announced size is read behind its end, so no credit is ever defined.\<close>

lemma uptime_out_of_bounds: "handle_uptime p g = (if length p = 28 then None else Some g)"
  by (simp add: handle_uptime_def)

lemma credit_advances:
  "credit_uptime j rd g = g \<and> (\<exists>lr. lg_last g j = Some lr \<and> rd \<le> lr)
   \<or> lg_last (credit_uptime j rd g) j = Some rd \<and> (\<forall>lr. lg_last g j = Some lr \<longrightarrow> lr < rd)
     \<and> lg_uptime (credit_uptime j rd g) j = lg_uptime g j + 300"
  by (auto simp: credit_uptime_def linorder_not_le split: option.splits)

lemma credit_once: "credit_uptime j rd (credit_uptime j rd g) = credit_uptime j rd g"
  by (simp add: credit_uptime_def split: option.splits)

text \<open>The address of an announcement is written in network order and read from the other end.\<close>

lemma announced_address: "fst (announced (be_bytes 4 ip @ ps)) = le_word (rev (le_bytes 4 ip))"
  by (simp add: announced_def be_bytes_rev)

lemma announced_reversed: "announced (be_bytes 4 (0x01020304 :: u32) @ [0x01, 0x7A]) = (0x04030201, 0x7A01)"
  by code_simp

end
