(* ===== verification/Node.thy ===== *)
theory Node
  imports Node_Votes
begin

text \<open>
  The loop of the node (\<open>src/tools/epoch_node.cpp\<close>): the header of a peer, the dispatch of a message on
  its type, and the events of the loop as one step relation over the state of the three theories
  before. A node that runs is one that its boot reaches by these steps.
\<close>

subsection \<open>The header of a peer\<close>

definition parse_fes :: "nat \<Rightarrow> bytes \<Rightarrow> fe list option" where
  "parse_fes n p =
     those (map (\<lambda>i. let r = fe_from_le_bytes (take 32 (drop (32 * i) p)) in if ffb_ok r then Some (ffb_value r) else None) [0..<n])"

text \<open>The binding of the second form: the blinding is read without a check of its range, the error vector not at all.\<close>

definition header_binding :: "bytes \<Rightarrow> bool" where
  "header_binding p \<longleftrightarrow>
     (case decompress_v (take 32 (drop 52 p)) of None \<Rightarrow> False
      | Some W \<Rightarrow>
          let rho4 = map (\<lambda>k. le_word (take 8 (drop (84 + 8 * k) p))) [0..<4]
          in case parse_fes 16 (drop 116 p) of None \<Rightarrow> False | Some z \<Rightarrow> verify_recommit z rho4 W)"

definition header_passes :: "bytes \<Rightarrow> bool" where
  "header_passes p \<longleftrightarrow> length p \<ge> 52 \<longrightarrow> length p \<ge> 916 \<longrightarrow> header_binding p"

text \<open>What is printed about the weight and the state of the peer.\<close>

definition peer_agrees :: "bytes \<Rightarrow> Node \<Rightarrow> bool" where
  "peer_agrees p s \<longleftrightarrow> length p \<ge> 52 \<and> get_u32 p = nd_epoch s - 1
     \<and> map (\<lambda>k. get_u32 (drop (36 + 4 * k) p)) [0..<4] = nd_hash s
     \<and> verify_peer_epoch_pouw (last (nd_limbs s)) (get_u64 (drop 28 p))"

definition others :: "int \<Rightarrow> Node \<Rightarrow> int list" where
  "others fd s = filter (\<lambda>x. x \<noteq> fd) (nd_fds s)"

definition handle_header :: "int \<Rightarrow> Message \<Rightarrow> Node \<Rightarrow> Node" where
  "handle_header fd m s =
     (let (dup, seen) = seen_or_add (m_payload m) (nd_seen s); s = s\<lparr>nd_seen := seen\<rparr>
      in if dup \<or> \<not> header_passes (m_payload m) then s else send_all m (others fd s) s)"

text \<open>A decree is passed on whether or not it was new.\<close>

definition handle_entry :: "NodeEnv \<Rightarrow> int \<Rightarrow> Message \<Rightarrow> Node \<Rightarrow> Node option" where
  "handle_entry env fd m s =
     map_option (\<lambda>s. send_all m (others fd s) s) (handle_decree env (m_payload m) s)"

subsection \<open>The gate before a message\<close>

text \<open>The limit of a descriptor, then the ban of its address; a descriptor that is closed here fails to receive and is dropped.\<close>

record Guard =
  gd_limits :: "int \<rightharpoonup> PeerLimit"
  gd_bans :: ban_map

definition guard_message :: "u64 \<Rightarrow> int \<Rightarrow> u32 option \<Rightarrow> Guard \<Rightarrow> bool \<times> Guard" where
  "guard_message now fd ip g =
     (let (ok, lm) = peer_allow (gd_limits g) fd now; g = g\<lparr>gd_limits := lm\<rparr>
      in if \<not> ok then (False, case ip of None \<Rightarrow> g | Some a \<Rightarrow> g\<lparr>gd_bans := ip_ban (gd_bans g) a now\<rparr>)
         else case ip of None \<Rightarrow> (True, g)
           | Some a \<Rightarrow> let (banned, bans) = ip_banned (gd_bans g) a now in (\<not> banned, g\<lparr>gd_bans := bans\<rparr>))"

definition guard_accept :: "u64 \<Rightarrow> u32 \<Rightarrow> Guard \<Rightarrow> bool \<times> Guard" where
  "guard_accept now ip g = (let (banned, bans) = ip_banned (gd_bans g) ip now in (\<not> banned, g\<lparr>gd_bans := bans\<rparr>))"

text \<open>An address that exceeds its rate is refused for the sixty seconds that follow.\<close>

lemma flooder_refused:
  assumes "\<not> fst (peer_allow (gd_limits g) fd now)" and "later < now + 60000"
  shows "\<not> fst (guard_message now fd (Some ip) g)"
    and "\<not> fst (guard_accept later ip (snd (guard_message now fd (Some ip) g)))"
  using assms
  by (auto simp: guard_message_def guard_accept_def ip_ban_def ip_banned_def PEER_BAN_SECS_def Let_def split: prod.split)

subsection \<open>The dispatch\<close>

text \<open>The types of the fold, the ceremony and the votes; receipts and announcements have their own state.\<close>

definition on_message :: "NodeEnv \<Rightarrow> int \<Rightarrow> Message \<Rightarrow> Node \<Rightarrow> Node option" where
  "on_message env fd m s =
     (if m_type m = 0x08 then handle_dec_share env (m_payload m) s
      else if m_type m = 0x0B then Some (handle_sync_req env fd s)
      else if m_type m = 0x0C then handle_sync_batch env (m_payload m) s
      else if m_type m = 0x06 then handle_vote fd m s
      else if m_type m = 0x0D then handle_order_sig env m s
      else if m_type m = 0x07 then handle_envelope env m s
      else if m_type m = 0x02 then Some (handle_header fd m s)
      else if m_type m = 0x03 then handle_entry env fd m s
      else if m_type m = 0x04 then Some (send_all \<lparr>m_type = 0x05, m_payload = []\<rparr> [fd] s)
      else Some s)"

text \<open>One second of the loop, in its order: the pulse, the audit, the work queue, the vote.\<close>

definition node_second :: "NodeEnv \<Rightarrow> LoopConfig \<Rightarrow> u64 \<Rightarrow> Node \<Rightarrow> Node option" where
  "node_second env cfg now s =
     Option.bind (Option.bind (Option.bind (epoch_pulse env s) (quorum_audit env)) (node_work_tick env now)) (vote_tick cfg)"

inductive node_step :: "NodeEnv \<Rightarrow> Node \<Rightarrow> Node \<Rightarrow> bool" for env where
  step_message: "on_message env fd m s = Some s' \<Longrightarrow> node_step env s s'"
| step_second: "node_second env cfg now s = Some s' \<Longrightarrow> node_step env s s'"
| step_join: "node_step env s (accept_peer env ip port fd s)"
| step_leave: "node_step env s (disconnect fd s)"
| step_reconnect: "node_step env s (reconnect fd a s)"
| step_announce: "node_step env s (snd (handle_announce p dial (disc, s)))"
| step_submit: "node_step env s (s\<lparr>nd_work := (nd_work s)\<lparr>ws_queue := q\<rparr>\<rparr>)"

text \<open>The states of a running node: the boot, then any steps.\<close>

inductive running :: "NodeEnv \<Rightarrow> u32 \<Rightarrow> NodeCommittee \<Rightarrow> Voting \<Rightarrow> Node \<Rightarrow> bool" for env k com vot where
  run_boot: "boot_epoch env (connect_seeds fds (node_genesis k com vot)) = Some s \<Longrightarrow> running env k com vot s"
| run_step: "running env k com vot s \<Longrightarrow> node_step env s s' \<Longrightarrow> running env k com vot s'"

subsection \<open>Every step keeps the fold\<close>

lemma epoch_pulse_inv: "node_inv s \<Longrightarrow> epoch_pulse env s = Some s' \<Longrightarrow> node_inv s'"
  by (auto simp: epoch_pulse_def Let_def split: if_splits dest: handle_decree_inv [rotated])

lemma quorum_audit_frame:
  assumes "quorum_audit env s = Some s'"
  shows "\<exists>a n r. s' = s\<lparr>nd_audited := a, nd_rotations := n, nd_receipt := r\<rparr>"
proof -
  have "\<exists>a n r. s = s\<lparr>nd_audited := a, nd_rotations := n, nd_receipt := r\<rparr>"
    by (rule exI [of _ "nd_audited s"], rule exI [of _ "nd_rotations s"], rule exI [of _ "nd_receipt s"]) simp
  then show ?thesis using assms by (cases s) (auto simp: quorum_audit_def Let_def split: if_splits option.splits)
qed

lemma quorum_audit_inv: "node_inv s \<Longrightarrow> quorum_audit env s = Some s' \<Longrightarrow> node_inv s'"
  using quorum_audit_frame [of env s s'] by auto

lemma node_work_cases:
  assumes "node_work_tick env now s = Some s'"
  obtains (idle) w where "s' = s\<lparr>nd_work := w\<rparr>"
  | (claim) pl w t where "handle_decree env pl s = Some t" "s' = t\<lparr>nd_work := w\<rparr>"
  using assms unfolding node_work_tick_def by (auto split: option.splits list.splits intro: idle claim)

lemma node_work_inv: "node_inv s \<Longrightarrow> node_work_tick env now s = Some s' \<Longrightarrow> node_inv s'"
  by (erule node_work_cases) (auto dest: handle_decree_inv)

lemma vote_tick_inv: "node_inv s \<Longrightarrow> vote_tick cfg s = Some s' \<Longrightarrow> node_inv s'"
  using vote_tick_frame [of cfg s s'] by auto

lemma node_second_parts:
  assumes "node_second env cfg now s = Some s'"
  obtains a b c where "epoch_pulse env s = Some a" "quorum_audit env a = Some b" "node_work_tick env now b = Some c"
    "vote_tick cfg c = Some s'"
  using assms unfolding node_second_def by (auto simp: bind_eq_Some_conv)

lemma node_second_inv: "node_inv s \<Longrightarrow> node_second env cfg now s = Some s' \<Longrightarrow> node_inv s'"
  by (erule node_second_parts) (rule vote_tick_inv [OF node_work_inv [OF quorum_audit_inv [OF epoch_pulse_inv]]])

lemma handle_header_inv: "node_inv s \<Longrightarrow> node_inv (handle_header fd m s)"
  using seen_or_add_bound [of "nd_seen s" "m_payload m"]
  by (auto simp: handle_header_def Let_def node_inv_def node_ok_def node_books_def send_all_def split: prod.splits)

lemma on_message_cases:
  assumes "on_message env fd m s = Some s'"
  obtains (quiet) out where "s' = s\<lparr>nd_out := out\<rparr>" | (share) "handle_dec_share env (m_payload m) s = Some s'"
  | (batch) "handle_sync_batch env (m_payload m) s = Some s'" | (vote) v where "s' = s\<lparr>nd_vot := v\<rparr>"
  | (lock) "handle_order_sig env m s = Some s'" | (envelope) "handle_envelope env m s = Some s'"
  | (header) "s' = handle_header fd m s" | (entry) t out where "handle_decree env (m_payload m) s = Some t" "s' = t\<lparr>nd_out := out\<rparr>"
proof -
  have "on_message env fd m s \<in> {Some s, handle_dec_share env (m_payload m) s, Some (handle_sync_req env fd s),
      handle_sync_batch env (m_payload m) s, handle_vote fd m s, handle_order_sig env m s, handle_envelope env m s,
      Some (handle_header fd m s), handle_entry env fd m s, Some (send_all \<lparr>m_type = 0x05, m_payload = []\<rparr> [fd] s)}"
    unfolding on_message_def by (simp only: insert_iff split: if_split) blast
  then consider "s' = s" | "handle_dec_share env (m_payload m) s = Some s'" | "s' = handle_sync_req env fd s"
    | "handle_sync_batch env (m_payload m) s = Some s'" | "handle_vote fd m s = Some s'" | "handle_order_sig env m s = Some s'"
    | "handle_envelope env m s = Some s'" | "s' = handle_header fd m s" | "handle_entry env fd m s = Some s'"
    | "s' = send_all \<lparr>m_type = 0x05, m_payload = []\<rparr> [fd] s"
    unfolding assms insert_iff option.inject empty_iff by metis
  then show ?thesis
  proof cases
    case 1
    then show ?thesis using quiet [of "nd_out s"] by simp
  next
    case 2
    then show ?thesis by (rule share)
  next
    case 3
    then show ?thesis using quiet unfolding handle_sync_req_def send_sync_batch_def send_all_out by blast
  next
    case 4
    then show ?thesis by (rule batch)
  next
    case 5
    then show ?thesis using handle_vote_frame vote by blast
  next
    case 6
    then show ?thesis by (rule lock)
  next
    case 7
    then show ?thesis by (rule envelope)
  next
    case 8
    then show ?thesis by (rule header)
  next
    case 9
    then obtain t where "handle_decree env (m_payload m) s = Some t" "s' = send_all m (others fd t) t"
      unfolding handle_entry_def by blast
    then show ?thesis using entry unfolding send_all_out by blast
  next
    case 10
    then show ?thesis using quiet unfolding send_all_out by blast
  qed
qed

lemma on_message_inv:
  assumes "node_inv s" and "on_message env fd m s = Some s'"
  shows "node_inv s'"
  using assms(2)
proof (cases rule: on_message_cases)
  case share
  then show ?thesis by (rule handle_dec_share_inv [OF assms(1)])
next
  case batch
  then show ?thesis by (rule handle_sync_batch_inv [OF assms(1)])
next
  case lock
  then show ?thesis by (rule handle_order_sig_inv [OF assms(1)])
next
  case envelope
  then show ?thesis by (rule handle_envelope_inv [OF assms(1)])
next
  case (entry t out)
  then show ?thesis using handle_decree_inv [OF assms(1) entry(1)] by simp
qed (simp_all add: assms(1) handle_header_inv)

lemma peer_steps_inv [simp]:
  "node_inv (accept_peer env ip port fd s) = node_inv s" "node_inv (disconnect fd s) = node_inv s"
  "node_inv (reconnect fd a s) = node_inv s"
  "node_inv (snd (handle_announce p dial (disc, s))) = node_inv s"
  by (simp_all add: accept_peer_def add_peer_def set_loop_def disconnect_def reconnect_def handle_announce_def Let_def
      split: option.split)

lemma node_step_inv: "node_step env s s' \<Longrightarrow> node_inv s \<Longrightarrow> node_inv s'"
  by (induction rule: node_step.induct) (auto intro: on_message_inv node_second_inv)

lemma running_inv: "running env k com vot s \<Longrightarrow> 0 < k \<Longrightarrow> node_inv s"
proof (induction rule: running.induct)
  case (run_boot fds s)
  then show ?case using boot_epoch_ok [OF run_boot(1)] by (simp add: genesis_starts node_inv_def)
qed (auto intro: node_step_inv)

subsection \<open>A blocked envelope stays blocked\<close>

lemma sealed_kept: "nd_cer s' = nd_cer s \<Longrightarrow> nd_com s' = nd_com s \<Longrightarrow> sealed eix s \<Longrightarrow> sealed eix s'"
  using sealed_cong by blast

lemma handle_header_sealed: "sealed eix (handle_header fd m s) = sealed eix s"
  by (cases "seen_or_add (m_payload m) (nd_seen s)") (simp add: handle_header_def Let_def)

lemma on_message_sealed:
  assumes "node_inv s" and "blocked eix s" and "on_message env fd m s = Some s'"
  shows "sealed eix s'"
proof -
  have b: "sealed eix s" using assms(2) by (simp add: sealed_def)
  show ?thesis
    using assms(3)
  proof (cases rule: on_message_cases)
    case share
    then show ?thesis by (rule handle_dec_share_sealed [OF assms(1) b])
  next
    case batch
    then show ?thesis by (rule handle_sync_batch_sealed [OF assms(1) b])
  next
    case lock
    then show ?thesis by (rule handle_order_sig_sealed [OF b])
  next
    case envelope
    then show ?thesis by (rule handle_envelope_sealed [OF assms(1,2)])
  next
    case (entry t out)
    then show ?thesis using handle_decree_sealed [OF assms(1) b entry(1)] by simp
  qed (simp_all add: b handle_header_sealed)
qed

lemma epoch_pulse_sealed: "node_inv s \<Longrightarrow> sealed eix s \<Longrightarrow> epoch_pulse env s = Some s' \<Longrightarrow> sealed eix s'"
  by (auto simp: epoch_pulse_def Let_def split: if_splits dest: handle_decree_sealed [rotated 2])

lemma node_second_sealed:
  assumes "node_inv s" and "sealed eix s" and "node_second env cfg now s = Some s'"
  shows "sealed eix s'"
  using assms(3)
proof (rule node_second_parts)
  fix a b c
  assume p: "epoch_pulse env s = Some a" "quorum_audit env a = Some b" "node_work_tick env now b = Some c" "vote_tick cfg c = Some s'"
  have a: "node_inv a" "sealed eix a" using assms(1,2) p(1) by (blast intro: epoch_pulse_inv epoch_pulse_sealed)+
  have b: "node_inv b" "sealed eix b"
    using a quorum_audit_frame [OF p(2)] quorum_audit_inv [OF _ p(2)] by (auto simp: sealed_def blocked_def)
  have "sealed eix c"
    using p(3) by (cases rule: node_work_cases) (use b in \<open>auto dest: handle_decree_sealed\<close>)
  then show ?thesis using vote_tick_frame [OF p(4)] by auto
qed

lemma node_step_sealed:
  assumes "node_step env s s'" and "node_inv s" and "blocked eix s"
  shows "sealed eix s'"
  using assms
proof (induction rule: node_step.induct)
  case (step_message fd m s s')
  then show ?case by (blast intro: on_message_sealed)
next
  case (step_second cfg now s s')
  then show ?case using node_second_sealed by (auto simp: sealed_def)
qed (auto simp: sealed_def blocked_def accept_peer_def add_peer_def set_loop_def disconnect_def reconnect_def handle_announce_def
      send_sync_batch_def send_all_def Let_def split: option.split)


lemmas step_inv = running_inv node_step_inv

lemma steps_inv: "(node_step env)\<^sup>*\<^sup>* s s' \<Longrightarrow> node_inv s \<Longrightarrow> node_inv s'"
  by (induction rule: rtranclp_induct) (auto intro: node_step_inv)

text \<open>Any new decree of at least 32 bytes is folded, whatever it has to do with the chain before it.\<close>

lemma decree_appended:
  assumes "node_ok s" and "fnv1a p \<notin> set (nd_seen s)" and "32 \<le> length p"
  shows "\<exists>s'. handle_decree env p s = Some s' \<and> nd_chain s' = nd_chain s @ [fe_from_payload p]"
proof (rule handle_decree_cases [where s = s and p = p and env = env])
  fix t
  assume c: "nd_chain t = nd_chain s @ [fe_from_payload p]"
    and h: "handle_decree env p s = (if \<not> chain_consistent t then Some t
      else let u = count_entry (entry_pt (entry_terms (nd_epoch s) (nd_seq s))) t
        in if nd_count u \<ge> nd_k u then complete_epoch env u else Some u)"
  let ?u = "count_entry (entry_pt (entry_terms (nd_epoch s) (nd_seq s))) t"
  obtain v where v: "complete_epoch env ?u = Some v" using complete_epoch_some by blast
  have "nd_chain ?u = nd_chain s @ [fe_from_payload p]" "nd_chain v = nd_chain s @ [fe_from_payload p]"
    using complete_epoch_fields(5) [OF v] c by (simp_all add: count_entry_def)
  then show ?thesis unfolding h Let_def using c v by (cases "chain_consistent t"; cases "nd_k ?u \<le> nd_count ?u") simp_all
qed (use assms in auto)

subsection \<open>What a header binds\<close>

lemma parse_fes_bytes:
  assumes "list_all is_canonical v"
  shows "parse_fes (length v) (fes_bytes v @ bs) = Some v"
proof -
  have l: "length (fes_bytes v) = 32 * length v" by (induction v) (simp_all add: fes_bytes_def)
  have "fe_from_le_bytes (take 32 (drop (32 * i) (fes_bytes v @ bs))) = \<lparr>ffb_ok = True, ffb_value = v ! i\<rparr>" if "i < length v" for i
    using fes_bytes_at [OF that] fe_from_to_bytes [of "v ! i"] assms that l by (simp add: mult.commute list_all_length)
  then have "parse_fes (length v) (fes_bytes v @ bs) = those (map (\<lambda>i. Some (v ! i)) [0..<length v])"
    unfolding parse_fes_def Let_def by (intro arg_cong [where f = those] map_cong) simp_all
  moreover have "those (map (\<lambda>i. Some (v ! i)) xs) = Some (map ((!) v) xs)" for xs
    by (induction xs) simp_all
  ultimately show ?thesis by (simp add: map_nth)
qed

lemma header_binding_parts:
  assumes "length hd52 = 52" "length wb = 32" "length rho = 4" "length z = 16" "list_all is_canonical z"
  shows "header_binding (hd52 @ wb @ concat (map (le_bytes 8) (rho :: u64 list)) @ fes_bytes z @ rest)
    \<longleftrightarrow> (case decompress_v wb of None \<Rightarrow> False | Some W \<Rightarrow> verify_recommit z rho W)"
proof -
  let ?rb = "concat (map (le_bytes 8) rho)"
  obtain a b c d where r: "rho = [a, b, c, d]" using assms(3) by (auto simp: length_Suc_conv numeral_eq_Suc)
  have lr: "length ?rb = 32" by (simp add: r)
  let ?p = "hd52 @ wb @ ?rb @ fes_bytes z @ rest"
  have a: "map (\<lambda>k. le_word (take 8 (drop (84 + 8 * k) ?p))) [0..<4] = rho"
    using assms(1,2) by (simp add: r upt_rec le_word_le_bytes)
  have b: "parse_fes 16 (drop 116 ?p) = Some z"
    using parse_fes_bytes [OF assms(5), of rest] assms(1,2,4) lr by simp
  have c: "take 32 (drop 52 ?p) = wb" using assms(1,2) by simp
  show ?thesis unfolding header_binding_def c Let_def a b option.case ..
qed

text \<open>
  With the blinding of an unsalted unit vector moved into the base, two witnesses that differ in an
  entry pass under one commitment: the header does not determine the witness.
\<close>

definition unit_witness :: "nat \<Rightarrow> fe list" where
  "unit_witness i = replicate i fe_zero @ fe_one # replicate (15 - i) fe_zero"

lemma unit_headers:
  assumes "length hd52 = 52" "length wb = 32" "i < 16"
  shows "header_binding (hd52 @ wb @ concat (map (le_bytes 8) [0, 0, 0, 0 :: u64]) @ fes_bytes (unit_witness i) @ rest)
    \<longleftrightarrow> header_binding (hd52 @ wb @ concat (map (le_bytes 8) (pedv_scalar i MOD)) @ fes_bytes (replicate 16 fe_zero) @ rest)"
proof -
  have z: "length (unit_witness i) = 16" "list_all is_canonical (unit_witness i)" "list_all is_canonical (replicate 16 fe_zero)"
    using assms(3) by (auto simp: unit_witness_def list_all_iff)
  have four: "length [0, 0, 0, 0 :: u64] = 4" by simp
  show ?thesis
    unfolding header_binding_parts [OF assms(1,2) four z(1,2)]
      header_binding_parts [OF assms(1,2) pedv_scalar_canonical(2) length_replicate z(3)]
    using unit_openings [of i "15 - i" _ 16] by (simp add: unit_witness_def split: option.split)
qed

lemma fes_bytes_inj:
  assumes "fes_bytes v = fes_bytes w" "length v = length w" "list_all is_canonical v" "list_all is_canonical w"
  shows "v = w"
  using parse_fes_bytes [OF assms(3), of "[]"] parse_fes_bytes [OF assms(4), of "[]"] assms(1,2) by simp

lemma unit_witness_bytes:
  assumes "i < 16"
  shows "fes_bytes (unit_witness i) \<noteq> fes_bytes (replicate 16 fe_zero)"
proof
  assume e: "fes_bytes (unit_witness i) = fes_bytes (replicate 16 fe_zero)"
  have "unit_witness i = replicate 16 fe_zero"
    by (rule fes_bytes_inj [OF e]) (use assms in \<open>auto simp: unit_witness_def list_all_iff\<close>)
  then have "unit_witness i ! i = fe_zero" using assms by simp
  then show False by (simp add: unit_witness_def nth_append fe_one_def fe_zero_def R_ONE_def fe_of_limbs_def)
qed

subsection \<open>The size of a header\<close>

lemma length_compress_v:
  assumes "v_on P" and "compress_v P = Some wb"
  shows "length wb = 32"
proof -
  have "fev_canon x" if "v_to_affine P = Some (x, y)" for x y
    using that v_onD(1-3) [OF assms(1)] fev_inv_dec(1) by (auto simp: v_to_affine_def Let_def split: if_splits)
  then have "length (fev_to_canonical x) = 4" if "v_to_affine P = Some (x, y)" for x y
    using that length_fev [OF fev_canon_to_canonical] by blast
  then show ?thesis
    using assms(2)
    by (auto simp: compress_v_def put_parity_def fev_to_le_bytes_def length_limbs_to_bytes split: if_splits option.splits)
qed

lemma gossip_size:
  assumes "node_ok s"
  shows "nd_out (gossip_epoch_header P s) = nd_out s
    \<or> (\<exists>m. m_type m = 2 \<and> length (m_payload m) = 916
        \<and> nd_out (gossip_epoch_header P s) = nd_out s @ map (\<lambda>fd. (fd, m)) (nd_fds s))"
proof (cases "compress_v (lw_W (nd_cw s))")
  case (Some wb)
  have z: "length (rx_z (nd_rx s)) = 16" "length (rx_E (nd_rx s)) = 8" "v_on (lw_W (nd_cw s))"
    using assms by (simp_all add: node_ok_def rx_wf_def live_ok_def)
  let ?m = "\<lparr>m_type = 2, m_payload =
    header_head P s @ header_tail wb (s\<lparr>nd_hash := map ucast (limbs (fe_to_canonical (wp_v P)))\<rparr>)\<rparr>"
  have "length (m_payload ?m) = 916"
    using length_header_tail [of wb "s\<lparr>nd_hash := map ucast (limbs (fe_to_canonical (wp_v P)))\<rparr>"] length_compress_v [OF z(3) Some] z
    by (simp add: length_header_head)
  moreover have "nd_out (gossip_epoch_header P s) = nd_out s @ map (\<lambda>fd. (fd, ?m)) (nd_fds s)"
    using Some by (simp add: gossip_epoch_header_def send_all_out Let_def)
  moreover have "m_type ?m = 2" by simp
  ultimately show ?thesis by blast
qed (simp add: gossip_epoch_header_def Let_def)

end
