(* ===== verification/Poseidon_V.thy ===== *)
theory Poseidon_V
  imports Pasta_Curve
begin

text \<open>
  The Poseidon permutation over the Vesta field, \<open>src/include/hsma/poseidon_v.hpp\<close> with the tables of
  \<open>src/generated/vesta_poseidon_params_gen.hpp\<close>, its sponge, and the absorption of
  \<open>src/include/hsma/cycfold.hpp\<close>. The tables hold canonical values that the code uses as Montgomery
  representations, so the matrix it applies is the Cauchy matrix divided by the radix.
\<close>

subsection \<open>Generated tables\<close>

definition VP3_MDS :: "u64 list list" where
  "VP3_MDS = [
    [8104361637230044775, 12055978305791537265, 11068046444225730969, 1844674407370955161],
    [18421315417038389249, 8207106069498613654, 6148914691236517205, 3843071682022823253],
    [8942410328370128019, 11952327844356609917, 5270498306774157604, 2635249153387078802],
    [18421315417038389249, 8207106069498613654, 6148914691236517205, 3843071682022823253],
    [8942410328370128019, 11952327844356609917, 5270498306774157604, 2635249153387078802],
    [2740311521551712257, 2161100947175201272, 0, 4035225266123964416],
    [8942410328370128019, 11952327844356609917, 5270498306774157604, 2635249153387078802],
    [2740311521551712257, 2161100947175201272, 0, 4035225266123964416],
    [8601699592618814123, 4648127495027570523, 16397105843297379214, 1024819115206086200]]"

text \<open>Of the eighty rows only the first is not zero.\<close>

definition VP3_RC :: "u64 list list" where
  "VP3_RC = [10502765896639051317, 3136381504287448429, 5178018492864330181, 0]
     # replicate 79 [0, 0, 0, 0]"

definition VP3_IV :: "u64 list list" where
  "VP3_IV = [
    [18280858564146882666, 10839346033834035373, 603362893649458934, 2909111888163219599],
    [13965850445134930834, 7554908147265920698, 330102152880281846, 50323055785421526],
    [8447849456641890964, 13957027184099861445, 1092418247794269377, 1816331543675707613],
    [16171854451080893449, 16984128931110312663, 1211365057076848176, 651627056908206278]]"

subsection \<open>The permutation\<close>

record P3StateV =
  vs0 :: fev
  vs1 :: fev
  vs2 :: fev

definition vp3_mds :: "nat \<Rightarrow> nat \<Rightarrow> fev" where
  "vp3_mds i j = VP3_MDS ! (i * 3 + j)"

definition vp3_rc :: "nat \<Rightarrow> fev" where
  "vp3_rc k = VP3_RC ! k"

definition pv3_sbox5 :: "fev \<Rightarrow> fev" where
  "pv3_sbox5 x = (let x2 = fev_mul x x; x4 = fev_mul x2 x2 in fev_mul x x4)"

definition pv3_mix_row :: "nat \<Rightarrow> P3StateV \<Rightarrow> fev" where
  "pv3_mix_row i s =
     fev_add (fev_add (fev_add fev_zero (fev_mul (vp3_mds i 0) (vs0 s))) (fev_mul (vp3_mds i 1) (vs1 s)))
       (fev_mul (vp3_mds i 2) (vs2 s))"

definition pv3_mix :: "P3StateV \<Rightarrow> P3StateV" where
  "pv3_mix s = \<lparr>vs0 = pv3_mix_row 0 s, vs1 = pv3_mix_row 1 s, vs2 = pv3_mix_row 2 s\<rparr>"

definition pv3_full :: "nat \<Rightarrow> P3StateV \<Rightarrow> P3StateV" where
  "pv3_full rc s = pv3_mix
     \<lparr>vs0 = pv3_sbox5 (fev_add (vs0 s) (vp3_rc rc)),
      vs1 = pv3_sbox5 (fev_add (vs1 s) (vp3_rc (rc + 1))),
      vs2 = pv3_sbox5 (fev_add (vs2 s) (vp3_rc (rc + 2)))\<rparr>"

definition pv3_partial :: "nat \<Rightarrow> P3StateV \<Rightarrow> P3StateV" where
  "pv3_partial rc s = pv3_mix (s\<lparr>vs0 := pv3_sbox5 (fev_add (vs0 s) (vp3_rc rc))\<rparr>)"

definition pv3_permute :: "P3StateV \<Rightarrow> P3StateV" where
  "pv3_permute s =
     (let s1 = foldl (\<lambda>s r. pv3_full (3 * r) s) s [0..<4];
          s2 = foldl (\<lambda>s r. pv3_partial (12 + r) s) s1 [0..<56]
      in foldl (\<lambda>s r. pv3_full (68 + 3 * r) s) s2 [0..<4])"

definition vp3_iv :: "nat \<Rightarrow> fev" where
  "vp3_iv idx = VP3_IV ! idx"

definition poseidon3v :: "nat \<Rightarrow> fev \<Rightarrow> fev \<Rightarrow> fev" where
  "poseidon3v d l r = vs0 (pv3_permute \<lparr>vs0 = l, vs1 = r, vs2 = vp3_iv d\<rparr>)"

subsection \<open>The sponge\<close>

record VestaSponge =
  vsp_st :: P3StateV
  vsp_idx :: nat
  vsp_count :: u64

definition vsponge_new :: "nat \<Rightarrow> VestaSponge" where
  "vsponge_new d = \<lparr>vsp_st = \<lparr>vs0 = fev_zero, vs1 = fev_zero, vs2 = vp3_iv d\<rparr>, vsp_idx = 0, vsp_count = 0\<rparr>"

definition vsponge_absorb :: "VestaSponge \<Rightarrow> fev \<Rightarrow> VestaSponge" where
  "vsponge_absorb sp x =
     (let st = (if vsp_idx sp = 0 then (vsp_st sp)\<lparr>vs0 := fev_add (vs0 (vsp_st sp)) x\<rparr>
                else if vsp_idx sp = 1 then (vsp_st sp)\<lparr>vs1 := fev_add (vs1 (vsp_st sp)) x\<rparr>
                else vsp_st sp);
          i = vsp_idx sp + 1
      in if i = 2 then \<lparr>vsp_st = pv3_permute st, vsp_idx = 0, vsp_count = vsp_count sp + 1\<rparr>
         else \<lparr>vsp_st = st, vsp_idx = i, vsp_count = vsp_count sp + 1\<rparr>)"

definition vsponge_squeeze :: "VestaSponge \<Rightarrow> fev \<times> VestaSponge" where
  "vsponge_squeeze sp =
     (let a = vsponge_absorb sp (fev_from_u64 (vsp_count sp));
          b = vsponge_absorb a fev_one;
          c = (if vsp_idx b \<noteq> 0 then b\<lparr>vsp_st := pv3_permute (vsp_st b), vsp_idx := 0\<rparr> else b)
      in (vs0 (vsp_st c), c\<lparr>vsp_count := 0\<rparr>))"

subsection \<open>cycfold.hpp\<close>

definition fev_from_limbs :: "u64 list \<Rightarrow> fev" where
  "fev_from_limbs c = fev_mul c V_RR"

definition cyc_p3 :: "fev \<Rightarrow> fev \<Rightarrow> fev" where
  "cyc_p3 l r = poseidon3v 0 l r"

definition cyc_digest :: "u64 list \<Rightarrow> u64 list \<Rightarrow> fev" where
  "cyc_digest x y =
     (let h0 = cyc_p3 (fev_from_u64 (x ! 0)) (fev_from_u64 (x ! 1));
          h1 = cyc_p3 (fev_from_u64 (x ! 2)) (fev_from_u64 (x ! 3));
          h2 = cyc_p3 (fev_from_u64 (y ! 0)) (fev_from_u64 (y ! 1));
          h3 = cyc_p3 (fev_from_u64 (y ! 2)) (fev_from_u64 (y ! 3))
      in cyc_p3 (cyc_p3 h0 h1) (cyc_p3 h2 h3))"

definition cyc_absorb :: "u64 list \<Rightarrow> u64 list \<Rightarrow> PtV" where
  "cyc_absorb x y = v_Vmul v_generator (fev_to_canonical (cyc_digest x y))"

subsection \<open>Tables\<close>

lemma less_three: "i < 3 \<Longrightarrow> i = 0 \<or> i = 1 \<or> i = (2::nat)"
  by auto

lemma vp3_mds_ok:
  assumes "i < 3" and "j < 3"
  shows "fev_canon (vp3_mds i j)" and "(limbs_val (vp3_mds i j) * (i + j + 5)) mod vesta_q = 1"
  using less_three [OF assms(1)] less_three [OF assms(2)]
  by (elim disjE; simp add: vp3_mds_def VP3_MDS_def fev_canon_def vesta_q_eq)+

lemma vp3_rc_ok: "k < 80 \<Longrightarrow> fev_canon (vp3_rc k)"
  by (cases k) (simp_all add: vp3_rc_def VP3_RC_def fev_canon_def vesta_q_eq)

lemma vp3_iv_ok: "k < 4 \<Longrightarrow> fev_canon (vp3_iv k)"
proof -
  assume "k < 4"
  then have "k = 0 \<or> k = 1 \<or> k = 2 \<or> k = 3" by linarith
  then show ?thesis by (elim disjE) (simp_all add: vp3_iv_def VP3_IV_def fev_canon_def vesta_q_eq)
qed

text \<open>The entry the permutation uses is the Cauchy entry \<open>1 / (i + j + 5)\<close> divided by \<open>2 ^ 256\<close>.\<close>

lemma vp3_mds_scaled:
  assumes "i < 3" and "j < 3"
  shows "of_nat (2 ^ 256) * vk.dec (vp3_mds i j) * of_nat (i + j + 5) = 1"
proof -
  have "(of_nat (limbs_val (vp3_mds i j) * (i + j + 5)) :: vesta) = of_nat 1"
    unfolding of_nat_vesta using vp3_mds_ok(2) [OF assms] by (simp add: vesta_q_eq)
  then show ?thesis by (simp only: vk.dec_R of_nat_mult of_nat_1)
qed

subsection \<open>Canonical states\<close>

definition vcanon_state :: "P3StateV \<Rightarrow> bool" where
  "vcanon_state s \<longleftrightarrow> fev_canon (vs0 s) \<and> fev_canon (vs1 s) \<and> fev_canon (vs2 s)"

lemma pv3_sbox5_dec: "fev_canon x \<Longrightarrow> fev_canon (pv3_sbox5 x) \<and> vk.dec (pv3_sbox5 x) = vk.dec x ^ 5"
  by (simp add: pv3_sbox5_def Let_def fev_dec_ops eval_nat_numeral mult.assoc)

lemma pv3_mix_row_dec:
  assumes "vcanon_state s" and "i < 3"
  shows "fev_canon (pv3_mix_row i s)"
    and "vk.dec (pv3_mix_row i s) = vk.dec (vp3_mds i 0) * vk.dec (vs0 s) + vk.dec (vp3_mds i 1) * vk.dec (vs1 s)
      + vk.dec (vp3_mds i 2) * vk.dec (vs2 s)"
  using assms vp3_mds_ok(1) [OF assms(2)] by (simp_all add: pv3_mix_row_def vcanon_state_def fev_dec_ops)

lemma vcanon_mix: "vcanon_state s \<Longrightarrow> vcanon_state (pv3_mix s)"
  using pv3_mix_row_dec(1) [of s] by (simp add: pv3_mix_def vcanon_state_def)

lemma vcanon_full: "vcanon_state s \<Longrightarrow> k + 2 < 80 \<Longrightarrow> vcanon_state (pv3_full k s)"
  unfolding pv3_full_def by (rule vcanon_mix) (simp add: vcanon_state_def pv3_sbox5_dec vp3_rc_ok)

lemma vcanon_partial: "vcanon_state s \<Longrightarrow> k < 80 \<Longrightarrow> vcanon_state (pv3_partial k s)"
  unfolding pv3_partial_def by (rule vcanon_mix) (simp add: vcanon_state_def pv3_sbox5_dec vp3_rc_ok)

lemma foldl_vcanon: "vcanon_state s \<Longrightarrow> (\<And>r s. r \<in> set rs \<Longrightarrow> vcanon_state s \<Longrightarrow> vcanon_state (f s r)) \<Longrightarrow> vcanon_state (foldl f s rs)"
  by (induction rs arbitrary: s) simp_all

lemma vcanon_permute: "vcanon_state s \<Longrightarrow> vcanon_state (pv3_permute s)"
  unfolding pv3_permute_def Let_def
  by (intro foldl_vcanon) (simp_all add: vcanon_full vcanon_partial)

lemma poseidon3v_canon: "fev_canon l \<Longrightarrow> fev_canon r \<Longrightarrow> d < 4 \<Longrightarrow> fev_canon (poseidon3v d l r)"
  using vcanon_permute [of "\<lparr>vs0 = l, vs1 = r, vs2 = vp3_iv d\<rparr>"] by (simp add: poseidon3v_def vcanon_state_def vp3_iv_ok)

subsection \<open>The textbook permutation with the scaled matrix\<close>

type_synonym v3_ring = "vesta \<times> vesta \<times> vesta"

definition vdec_state :: "P3StateV \<Rightarrow> v3_ring" where
  "vdec_state s = (vk.dec (vs0 s), vk.dec (vs1 s), vk.dec (vs2 s))"

text \<open>The division by the radix of the linear layer, over a state of residues.\<close>

definition v_cauchy :: "nat \<Rightarrow> nat \<Rightarrow> vesta" where
  "v_cauchy i j = of_nat (limbs_val (vp3_mds i j))"

definition v_mix :: "v3_ring \<Rightarrow> v3_ring" where
  "v_mix = (\<lambda>(a, b, c). let row = (\<lambda>i. of_nat V_RINV * (v_cauchy i 0 * a + v_cauchy i 1 * b + v_cauchy i 2 * c))
     in (row 0, row 1, row 2))"

lemma vdec_mix: "vcanon_state s \<Longrightarrow> vdec_state (pv3_mix s) = v_mix (vdec_state s)"
  using pv3_mix_row_dec(2) [of s]
  by (simp add: vdec_state_def pv3_mix_def v_mix_def v_cauchy_def vk.dec_def [of "vp3_mds i j" for i j] distrib_left mult.assoc)

text \<open>The constants after the first are zero, so a later full round is fifth powers and the matrix only.\<close>

lemma vp3_rc_zero: "0 < k \<Longrightarrow> k < 80 \<Longrightarrow> vk.dec (vp3_rc k) = 0"
  using vk.dec_zero by (simp add: vp3_rc_def VP3_RC_def fev_zero_def nth_Cons')

lemma vdec_full:
  assumes "vcanon_state s" and "0 < k" and "k + 2 < 80"
  shows "vdec_state (pv3_full k s) = v_mix (vk.dec (vs0 s) ^ 5, vk.dec (vs1 s) ^ 5, vk.dec (vs2 s) ^ 5)"
proof -
  let ?t = "\<lparr>vs0 = pv3_sbox5 (fev_add (vs0 s) (vp3_rc k)), vs1 = pv3_sbox5 (fev_add (vs1 s) (vp3_rc (k + 1))),
      vs2 = pv3_sbox5 (fev_add (vs2 s) (vp3_rc (k + 2)))\<rparr>"
  have "vcanon_state ?t" using assms by (simp add: vcanon_state_def pv3_sbox5_dec vp3_rc_ok)
  moreover have "vdec_state ?t = (vk.dec (vs0 s) ^ 5, vk.dec (vs1 s) ^ 5, vk.dec (vs2 s) ^ 5)"
    using assms by (simp add: vdec_state_def vcanon_state_def pv3_sbox5_dec vp3_rc_ok fev_dec_ops vp3_rc_zero)
  ultimately show ?thesis by (simp add: pv3_full_def vdec_mix)
qed

subsection \<open>The absorption\<close>

lemma cyc_digest_canon: "fev_canon (cyc_digest x y)"
  by (simp add: cyc_digest_def cyc_p3_def Let_def poseidon3v_canon)

text \<open>The point is on the curve, and the limbs enter the tree without loss.\<close>

lemma cyc_absorb_on: "v_on (cyc_absorb x y)"
  by (simp add: cyc_absorb_def v_Vmul_on v_generator_on)

lemma fev_from_u64_inj: "fev_from_u64 a = fev_from_u64 b \<longleftrightarrow> a = b"
proof
  assume "fev_from_u64 a = fev_from_u64 b"
  then have "vk.dec (fev_from_u64 a) = vk.dec (fev_from_u64 b)" by simp
  then have "(of_nat (unat a) :: vesta) = of_nat (unat b)" by (simp only: fev_dec_from_u64)
  then have "unat a mod vesta_q = unat b mod vesta_q" by (simp only: of_nat_vesta)
  moreover have "unat a < vesta_q" "unat b < vesta_q" using unat_u64_lt [of a] unat_u64_lt [of b] by (simp_all add: vesta_q_eq)
  ultimately show "a = b" by (simp add: word_unat_eq_iff)
qed simp

end
