(* ===== verification/Spec2Isabelle.thy ===== *)
theory Spec2Isabelle
  imports Fold Stake Mssc_Loop Vote Envelope Vss Smt_R1cs Circuits Whir Pouw Softmax_Norm
    Epoch Attention Node Poseidon_V
begin

text \<open>
  HSMA core: the verification library of the C++ headers under \<open>src/include/hsma\<close> and the
  generated tables under \<open>src/generated\<close>.

  The program is the core of a ledger node, and the node itself (\<open>src/tools/epoch_node.cpp\<close>). Accounts live in a sparse Merkle tree whose nodes are
  hashed with Poseidon over the Pallas field and stored in an append-only vault of mapped segments
  (\<open>fe.hpp\<close>, \<open>sha256.hpp\<close>, \<open>poseidon.hpp\<close>, \<open>vault.hpp\<close>, \<open>update.hpp\<close>). The mempool orders and
  executes transactions against that tree (\<open>tx.hpp\<close>, \<open>mempool.hpp\<close>); the fold executes decree
  entries and keeps a constant-size accumulator (\<open>fold.hpp\<close>, \<open>nivc.hpp\<close>, \<open>ccs.hpp\<close>). Nodes agree on
  conflict sets by repeated weighted sampling (\<open>consensus.hpp\<close>, the proven automaton, and
  \<open>msscloop.hpp\<close>, the live loop); weights come from the stake registry (\<open>econ/stake.hpp\<close>) and all
  constants from \<open>params.hpp\<close>.

  A committee holds shares of a secret over BLS12-377 (\<open>threshold/\<close>): its members sign votes and order
  locks (\<open>msscvote.hpp\<close>), and decrypt, after the order of an epoch is committed, the envelopes that the
  senders sealed for it (\<open>m2.hpp\<close>, \<open>m2envelope.hpp\<close>, the envelope store in \<open>mempool.hpp\<close>). All of it
  travels in the frames of \<open>p2p.hpp\<close>.

  A proof layer stands beside it: sum-checks and openings over committed tables (\<open>sumcheck.hpp\<close>,
  \<open>pcs.hpp\<close>, \<open>whir.hpp\<close>), the folding of constraint systems (\<open>nifs.hpp\<close>, \<open>mfold.hpp\<close>), the circuits that emit
  them, and the proofs of useful work over matrix products and lookup tables (\<open>pouw.hpp\<close>, \<open>pouw/\<close>).

  Theories, in the order of the code's layers:
    \<^item> \<open>Hsma_Base\<close>: machine types, byte codecs, shared lemmas on lists and words.
    \<^item> \<open>Limbs\<close>: the loops over arrays of 64-bit limbs; each leaves the value the reference says.
    \<^item> \<open>Field_Spec\<close>, \<open>Field\<close>: \<open>fe.hpp\<close>. Field operations on Montgomery limbs are ring operations
      modulo the Pallas prime; \<open>fe_mul_checked\<close> has the buffer bounds as an option type.
    \<^item> \<open>Sha256\<close>: \<open>sha256.hpp\<close>, equal to the FIPS 180-4 definition.
    \<^item> \<open>Poseidon\<close>: \<open>poseidon.hpp\<close> with its tables; the limb code refines the ring permutation.
      The rejection search of the initial values is a partial function; \<open>iv_of\<close> is its result.
    \<^item> \<open>Vault\<close>, \<open>Account\<close>, \<open>Smt\<close>: the node store, the account codec, the tree, opening proofs.
      A vault is a record of segments; \<^const>\<open>None\<close> is an access outside a mapping.
    \<^item> \<open>Ledger\<close>: \<open>tx.hpp\<close> and the class \<open>Mempool\<close>, over the interface \<open>account_store\<close>, a locale that
      the sparse Merkle tree interprets.
    \<^item> \<open>Fold\<close>: \<open>fold.hpp\<close>, \<open>nivc.hpp\<close>, \<open>ccs.hpp\<close>.
    \<^item> \<open>Params\<close>, \<open>Stake\<close>: constants with their build-time inequalities; the stake registry.
    \<^item> \<open>Digest\<close>, \<open>Consensus\<close>, \<open>Mssc_Loop\<close>: digests, the sampling automaton, the live loop.
    \<^item> \<open>Mont384\<close>, \<open>Mont_Kernel\<close>, \<open>Bls_Fq\<close>, \<open>Bls_Fr\<close>: the 384-bit engine (\<open>mont384.hpp\<close>), its context and
      the scalar field (\<open>scalar_r.hpp\<close>, \<open>interop.hpp\<close>). The locale \<open>mont_kernel\<close> states what a Montgomery
      implementation promises; both fields interpret it and get decoding into the residues.
    \<^item> \<open>Tower_Ring\<close>, \<open>Bls_G1\<close>, \<open>Bls_G2\<close>, \<open>Bls_Pairing\<close>: \<open>g1.hpp\<close>, \<open>fq2.hpp\<close>, \<open>g2.hpp\<close>, \<open>fq12.hpp\<close>,
      \<open>pairing.hpp\<close>. The towers decode into rings of pairs and triples; the chord and tangent formulas
      keep the curve equation as identities of those rings.
    \<^item> \<open>Interpolation\<close>, \<open>Threshold\<close>, \<open>M2\<close>, \<open>Vss\<close>: \<open>poly.hpp\<close>, \<open>dkg.hpp\<close>, \<open>sig.hpp\<close>, \<open>h2g1.hpp\<close>, \<open>beacon.hpp\<close>,
      \<open>m2.hpp\<close>, \<open>m2prod.hpp\<close>, \<open>dkg_vss.hpp\<close>.
    \<^item> \<open>P2p\<close>, \<open>Vote\<close>, \<open>Envelope\<close>: frames and streams, the vote and order-lock codecs, sealing, the envelope
      codec and store. A stream is the list of chunks the socket delivers.

    \<^item> \<open>Fe_Sums\<close>, \<open>Sumcheck\<close>, \<open>Pcs\<close>, \<open>Whir\<close>: \<open>sumcheck.hpp\<close>, \<open>pcs.hpp\<close>, \<open>whir.hpp\<close>. Tables of field
      elements decode into the ring; a round folds the low bit, so provers and verifiers meet at the multilinear
      extension. \<open>Digest_Scalar\<close> is the reduction of a digest to a field element that \<open>whir.hpp\<close> and \<open>mfold.hpp\<close> share.
    \<^item> \<open>Nifs\<close>, \<open>Mfold\<close>: \<open>nifs.hpp\<close>, \<open>mfold.hpp\<close>. A row of a relaxed instance is an equation of the ring; the fold
      identity is proved once there.
    \<^item> \<open>Poseidon_R1cs\<close>, \<open>Smt_R1cs\<close>, \<open>Circuits\<close>: \<open>poseidon_r1cs.hpp\<close>, \<open>smt_r1cs.hpp\<close>, \<open>fexec_circuit.hpp\<close>, \<open>fexec_act.hpp\<close>,
      \<open>gkr.hpp\<close>. Emitters append rows to a constraint system with its witness; the invariant \<open>cs_inv\<close> says that the
      witness satisfies every row so far, and each gadget keeps it and says what its output wire holds.
    \<^item> \<open>Epoch\<close>, \<open>Net_Guard\<close>: \<open>epoch.hpp\<close>, \<open>lightclient.hpp\<close>; \<open>peersec.hpp\<close>, \<open>g1net.hpp\<close>. The epoch composes the
      order of the envelopes with the fold; the limiter takes the clock's reading as an argument.
    \<^item> \<open>Pouw\<close>: \<open>pouw.hpp\<close>, the first two verifiers of matrix products.
    \<^item> \<open>Gemm\<close>, \<open>Shard\<close>, \<open>Attention\<close>: \<open>pouw/gemm_backend.hpp\<close> with the device kernel of \<open>gpu/gemm_pallas.cu\<close>,
      \<open>pouw/block_shard.hpp\<close>, \<open>pouw/attention.hpp\<close>. A launch runs its threads in any order; the limb code of the
      device is shown to be the limb code of the host.
    \<^item> \<open>Claims\<close>, \<open>Explorer\<close>: \<open>verifier.hpp\<close>, the work tick of \<open>tools/epoch_node.cpp\<close>, and \<open>explorer.hpp\<close>. Requests and
      ticks are the steps of one state machine, whose invariant says that every claim the node makes is verified.
    \<^item> \<open>Vesta_Field\<close>, \<open>Pasta_Curve\<close>: \<open>fev.hpp\<close>, \<open>g2v.hpp\<close>, \<open>g1p.hpp\<close>. The Vesta field interprets \<open>mont_kernel\<close> like
      the other two; the chord and tangent steps keep both curve equations.
    \<^item> \<open>Pedersen\<close>, \<open>Pcompress\<close>, \<open>Poseidon_V\<close>: \<open>pedersen.hpp\<close>, \<open>cfold.hpp\<close>, \<open>cfold_live.hpp\<close>; \<open>pcompress.hpp\<close>;
      \<open>poseidon_v.hpp\<close>, \<open>cycfold.hpp\<close>. Commitments are points; what opens them, and what does not bind, is
      stated for the scalars of the bases.
    \<^item> \<open>Logup\<close>, \<open>Softmax_Norm\<close>: \<open>pouw/logup.hpp\<close>, \<open>pouw/model_commit.hpp\<close>, \<open>pouw/softmax.hpp\<close>, \<open>pouw/layernorm.hpp\<close>.

    \<^item> \<open>Node_Fold\<close>, \<open>Node_Order\<close>, \<open>Node_Votes\<close>, \<open>Node\<close>: \<open>tools/epoch_node.cpp\<close>. One record holds what the program keeps
      in its file-scope variables; \<open>handle_decree\<close> and the other handlers are functions on it, \<^const>\<open>None\<close> being an
      access out of bounds. The events of a running node are the relation \<open>node_step\<close>; \<open>node_inv\<close> is its invariant.

  This theory states the properties C1, C2, ... over those definitions, each with a witness at a
  concrete state where it has hypotheses; the numbers follow their importance. Further facts that the
  properties do not need stand among them without a number.

  Bounds. Words have the widths of the code and wrap as it does. The sampling loop of the automaton
  has the code's own bound of 4096 attempts as fuel, hashing to the curve its 1024 counters, the
  non-residue search its 512 candidates and the square root its own guard. The inner loop of the square
  root has no bound in the code and is a partial function. A tree update needs room for 66 entries in
  the last segment (one record, one leaf, 64 inner nodes), which the hypotheses \<open>room v n\<close> state.

  Assumptions. The primality of the two field orders is not proved. Where the code inverts by Fermat's
  little theorem, the property has the equation \<open>x ^ (p - 1) = 1\<close> for the inverted element as a hypothesis
  (\<open>fr_fermat\<close>, \<open>distinct_points\<close>); everything else about the fields holds in the residue rings.
  Associativity of the group laws and bilinearity of the pairing are not proved, so the equations that
  honest signatures and shares satisfy are stated for the scalars only.

  Not modelled: files and memory mapping (the parameter \<open>os\<close> of the vault), sockets, threads and the select loop
  (a message, a connection or a second of the clock is a step), printing, the pages of the explorer and the status
  record it serves, the watchdog, and the tool \<open>bls_derive.cpp\<close>.
\<close>

section \<open>Concrete states used by the witnesses\<close>

definition vault0 :: Vault where
  "vault0 = \<lparr>os = (\<lambda>_. None), segs = [\<lambda>_. zero_entry], tail_slot = 0,
     ctls = \<lparr>n_segments = 1, ctl_tail = 0, ctl_roots = []\<rparr>\<rparr>"

definition alice :: AccountState where
  "alice = \<lparr>bal_mag = 1000, bal_sign = False, nonce = 0, flags = 0\<rparr>"

lemma vault0_room: "n \<le> 2 ^ 18 \<Longrightarrow> room vault0 n"
  by (simp add: room_def vault_ok_def vault0_def SEG_SLOTS_def)

lemma alice_ok: "account_ok alice"
  by (simp add: account_ok_def alice_def word_le_nat_alt word_less_nat_alt)


text \<open>A vault that stores one account, and its root.\<close>

lemma store_alone:
  assumes "is_canonical key"
  obtains v root where "tree v 64 root" and "room v 1000"
    and "\<forall>k. is_canonical k \<longrightarrow> lookup_account v root k = (if k = key then Some alice else None)"
    and "\<forall>j. j \<noteq> index_of key \<longrightarrow> leaf_at v 64 j root = HEMPTY"
proof -
  have rm: "room vault0 (66 + 1000)" by (rule vault0_room) simp
  show thesis
  proof (rule set_account_first [OF rm assms alice_ok])
    fix r v
    assume t: "tree v 64 (new_root r)" "room v 1000"
      and "\<And>k. is_canonical k \<Longrightarrow> lookup_account v (new_root r) k = (if k = key then Some alice else None)"
      and "\<And>j. j \<noteq> index_of key \<Longrightarrow> leaf_at v 64 j (new_root r) = HEMPTY"
    then show thesis using that [OF t] by blast
  qed
qed

lemma demo_state:
  obtains v root where "tree v 64 root" and "room v 1000" and "lookup_account v root fe_one = Some alice"
    and "\<And>k. is_canonical k \<Longrightarrow> k \<noteq> fe_one \<Longrightarrow> lookup_account v root k = None"
    and "\<not> leaf_conflict v root fe_one"
proof -
  obtain v root where r: "tree v 64 root" "room v 1000"
    and lk: "\<forall>k. is_canonical k \<longrightarrow> lookup_account v root k = (if k = fe_one then Some alice else None)"
    using store_alone [OF canonical_one] .
  have one: "lookup_account v root fe_one = Some alice" using lk canonical_one by simp
  have "\<not> leaf_conflict v root fe_one"
  proof
    assume "leaf_conflict v root fe_one"
    from set_account_conflict [OF alice_ok this]
    show False using set_account_repeat [OF r(1) canonical_one one] by (simp add: no_stats_def)
  qed
  moreover have "lookup_account v root k = None" if "is_canonical k" "k \<noteq> fe_one" for k
    using lk that by simp
  ultimately show thesis using that [OF r one] by blast
qed

section \<open>Field, hash and permutation\<close>
text \<open>
  C25. The Montgomery product of two reduced elements always stays inside its limb buffers, is
  reduced, and decodes to the product of the decoded values modulo the Pallas prime.
\<close>

theorem montgomery_product:
  assumes "is_canonical a" and "is_canonical b"
  shows "fe_mul_checked a b = Some (fe_mul a b) \<and> is_canonical (fe_mul a b)
    \<and> fe_dec (fe_mul a b) = fe_dec a * fe_dec b"
  using fe_mul_Some [OF assms] canonical_mul [OF assms] fe_dec_mul [OF assms] by simp_all

lemma montgomery_product_witness:
  "fe_mul_checked fe_one (fe_of_limbs RR) = Some (fe_mul fe_one (fe_of_limbs RR))"
  using montgomery_product [OF canonical_one canonical_RR] by simp

text \<open>
  Serialising a reduced field element to 32 bytes and parsing the bytes gives the element
  back; and any 32 bytes the parser accepts are the serialisation of the element it returns,
  so the encoding is unique.
\<close>

theorem field_bytes_roundtrip:
  assumes "is_canonical x" and "length bs = 32" and "ffb_ok (fe_from_le_bytes bs)"
  shows "fe_from_le_bytes (fe_to_le_bytes x) = \<lparr>ffb_ok = True, ffb_value = x\<rparr>
    \<and> is_canonical (ffb_value (fe_from_le_bytes bs))
    \<and> fe_to_le_bytes (ffb_value (fe_from_le_bytes bs)) = bs"
  using fe_from_to_bytes [OF assms(1)] fe_to_from_bytes [OF assms(2,3)] by simp

lemma field_bytes_roundtrip_witness:
  "fe_from_le_bytes (fe_to_le_bytes fe_one) = \<lparr>ffb_ok = True, ffb_value = fe_one\<rparr>"
proof -
  have "ffb_ok (fe_from_le_bytes (replicate 32 0))"
    by (simp add: fe_from_bytes_ok bytes_to_limbs_def pallas_p_eq le_word_zeros upt_rec)
  from field_bytes_roundtrip [OF canonical_one _ this] show ?thesis by simp
qed


text \<open>
  C39. The Poseidon permutation on Montgomery limbs refines the textbook permutation over the
  residue ring: decoding the output is the ring permutation (round constants, fifth powers,
  Cauchy matrix) of the decoded input, and the output is reduced.
\<close>

theorem permutation_refines_ring:
  assumes "canon_state s"
  shows "dec_state (p3_permute s) = ring_permute (dec_state s) \<and> canon_state (p3_permute s)"
  using dec_permute [OF assms] by simp

lemma permutation_refines_ring_witness:
  "dec_state (p3_permute \<lparr>ps0 = fe_zero, ps1 = fe_one, ps2 = fe_zero\<rparr>)
    = ring_permute (dec_state \<lparr>ps0 = fe_zero, ps1 = fe_one, ps2 = fe_zero\<rparr>)"
  using permutation_refines_ring [of "\<lparr>ps0 = fe_zero, ps1 = fe_one, ps2 = fe_zero\<rparr>"]
  by (simp add: canon_state_def canonical_zero canonical_one)

text \<open>
  The generated table holds one non-zero round constant: the permutation is four identical
  full rounds, fifty-six identical partial rounds and four identical full rounds after a
  single constant is added to the first lane, so no round but the first is separated from the
  others.
\<close>

theorem permutation_without_constants:
  assumes "canon_state s"
  shows "(\<forall>k. 0 < k \<and> k < 80 \<longrightarrow> RC_CANON ! k = [0, 0, 0, 0])
    \<and> p3_permute s = (full_const ^^ 4) ((partial_const ^^ 56) ((full_const ^^ 4)
        (s\<lparr>ps0 := fe_add (ps0 s) (p3_rc 0)\<rparr>)))"
  using p3_permute_const [OF assms] RC_CANON_tail by simp

lemma permutation_without_constants_witness:
  "RC_CANON ! 1 = [0, 0, 0, 0] \<and> RC_CANON ! 79 = [0, 0, 0, 0]"
  using permutation_without_constants [of "\<lparr>ps0 = fe_zero, ps1 = fe_zero, ps2 = fe_zero\<rparr>"]
  by (simp add: canon_state_def canonical_zero)

text \<open>
  An account packs exactly when its magnitude fits 126 bits, its flag one bit and it is not a
  negative zero; the packed payload is a reduced field element and unpacks to the same
  account.
\<close>

theorem payload_roundtrip:
  assumes "account_ok s"
  shows "snd (pack_payload s) \<and> is_canonical (fst (pack_payload s)) \<and> unpack_payload (fst (pack_payload s)) = s"
proof -
  obtain b where b: "encode_payload_bytes s = Some b" using assms by (auto simp: account_ok_iff)
  then show ?thesis
    using canonical_payload [OF b] unpack_payload_bytes [OF b] by (simp add: pack_payload_def)
qed

lemma payload_roundtrip_witness: "unpack_payload (fst (pack_payload alice)) = alice"
  using payload_roundtrip [OF alice_ok] by simp

text \<open>
  Within a segment an allocation succeeds, its handle is not empty and reads the entry back,
  and every handle that was live before reads the entry it read before.
\<close>

theorem alloc_reads_back:
  assumes "room v (Suc n)" and "etag e = tag_val t"
  shows "\<exists>h v'. alloc v e = Some (h, v') \<and> h \<noteq> HEMPTY \<and> entry_at v' h = e \<and> room v' n
    \<and> (\<forall>g. live v g \<longrightarrow> live v' g \<and> entry_at v' g = entry_at v g)"
  using alloc_room [OF assms] by metis

lemma alloc_reads_back_witness:
  "\<exists>h v'. alloc vault0 (mk_mid 0 0 fe_zero) = Some (h, v') \<and> entry_at v' h = mk_mid 0 0 fe_zero"
  using alloc_reads_back [of vault0 0 "mk_mid 0 0 fe_zero" MID] by (auto simp: vault0_room mk_mid_fields)

text \<open>
  When the last segment is full the allocator maps a fresh segment but keeps the old tail
  slot, so the entry is written outside the new mapping (the model's undefined result),
  whatever the entry.
\<close>

theorem alloc_full_segment_overruns:
  assumes "SEG_SLOTS \<le> unat (tail_slot v)" and "os v (length (segs v)) \<noteq> None"
  shows "alloc v e = None"
  using assms by (rule alloc_full_segment)

lemma alloc_full_segment_overruns_witness:
  "alloc (vault0\<lparr>tail_slot := 0x40000, os := \<lambda>_. Some (\<lambda>_. zero_entry)\<rparr>) zero_entry = None"
  by (rule alloc_full_segment_overruns) (simp_all add: SEG_SLOTS_def vault0_def)

text \<open>
  After any sequence of epoch commits the control sector holds the last 48 committed roots,
  oldest first, and the latest root is the last one committed.
\<close>

theorem committed_roots_ring:
  "ctl_roots (ctls (fold (\<lambda>r v. snd (fork_epoch w v r)) rs (v\<lparr>ctls := (ctls v)\<lparr>ctl_roots := []\<rparr>\<rparr>)))
     = drop (length rs - 48) rs
   \<and> latest_root (fold (\<lambda>r v. snd (fork_epoch w v r)) rs (v\<lparr>ctls := (ctls v)\<lparr>ctl_roots := []\<rparr>\<rparr>))
     = (if rs = [] then HEMPTY else last rs)"
proof (induction rs rule: rev_induct)
  case (snoc r rs)
  then show ?case
    by (simp add: fork_epoch_def commit_control_latest commit_control_ring del: length_append)
qed (simp add: latest_root_def)

text \<open>
  C2. An update of the sparse Merkle tree with room in the segment returns and refines a map
  update: a refused update (the leaf holds another key) changes nothing; otherwise, unless it
  stopped at a node whose hash did not change, the new tree reads as the old map with the key
  set to the account, and every earlier tree still reads as before.
\<close>

theorem set_account_refines_map:
  assumes "tree v 64 root" and "room v (66 + m)" and "is_canonical key" and "account_ok s"
  shows "\<exists>r v'. set_account v root key s = Some (r, v') \<and> room v' m \<and> tree v' 64 (new_root r)
    \<and> (\<forall>old k. tree v 64 old \<longrightarrow> lookup_account v' old k = lookup_account v old k)
    \<and> (fault (stats r) \<longleftrightarrow> leaf_conflict v root key) \<and> (fault (stats r) \<longrightarrow> new_root r = root)
    \<and> (\<not> fault (stats r) \<and> \<not> root_unchanged r \<longrightarrow> (\<forall>k. is_canonical k \<longrightarrow>
         lookup_account v' (new_root r) k = (if k = key then Some s else lookup_account v root k)))"
proof (cases "leaf_conflict v root key")
  case True
  then show ?thesis using set_account_conflict [OF assms(4) True] room_less [OF assms(2)] assms(1) by simp
next
  case False
  from set_account_updated [OF assms False] obtain r v' where
    "set_account v root key s = Some (r, v')" and u: "updated v root key s r v'" and "room v' m" .
  moreover have "\<forall>old k. tree v 64 old \<longrightarrow> lookup_account v' old k = lookup_account v old k"
    using u lookup_account_extends unfolding updated_def by blast
  ultimately show ?thesis using False unfolding updated_def by blast
qed

lemma set_account_refines_map_witness:
  "\<exists>r v'. set_account vault0 HEMPTY fe_one alice = Some (r, v') \<and> \<not> leaf_conflict vault0 HEMPTY fe_one"
  using set_account_refines_map [OF tree_empty vault0_room canonical_one alice_ok, where m = 0]
  by (auto simp: leaf_conflict_def)

text \<open>
  An update that reports an unchanged root although the account changed exhibits two different
  inputs with the same hash, among those computed on the key's path, or writes the all-zero
  payload of the zero key.
\<close>

theorem early_stop_is_collision:
  assumes "tree v 64 root" and "room v 66" and "is_canonical key" and "account_ok s"
    and "set_account v root key s = Some (r, v')" and "root_unchanged r"
  shows "(key = fe_zero \<and> payload_of s = fe_zero)
    \<or> (\<exists>k p. (k, p) \<noteq> (key, payload_of s) \<and> (lookup_account v root key = None \<longrightarrow> (k, p) = (fe_zero, fe_zero))
        \<and> (\<forall>t. lookup_account v root key = Some t \<longrightarrow> (k, p) = (key, payload_of t))
        \<and> poseidon3 IV_STATE_LEAF k p = poseidon3 IV_STATE_LEAF key (payload_of s))
    \<or> node_collision
          (path_pairs (index_of key) 0 (sib (prover_open v root key)) (poseidon3 IV_STATE_LEAF key (payload_of s)))
          (path_pairs (index_of key) 0 (sib (prover_open v root key))
             (node_hash v 0 (leaf_at v 64 (index_of key) root)))"
  using assms by (rule set_account_shorted)

lemma early_stop_is_collision_witness:
  "\<exists>v root r v'. set_account v root fe_zero zero_account = Some (r, v') \<and> root_unchanged r
    \<and> tree v 64 root \<and> room v 66"
proof -
  let ?k = "fe_mul (Fe 1 0 0 0) (fe_of_limbs RR)"
  have c: "is_canonical (Fe 1 0 0 0)" by (simp add: is_canonical_iff pallas_p_eq fe_val_def)
  have k: "is_canonical ?k" and ix: "index_of ?k = 1"
    using canonical_mul [OF c canonical_RR] index_of_raw [OF c] by simp_all
  obtain v root where t: "tree v 64 root" "room v 1000"
    and lk: "\<forall>x. is_canonical x \<longrightarrow> lookup_account v root x = (if x = ?k then Some alice else None)"
    and lf: "\<forall>j. j \<noteq> index_of ?k \<longrightarrow> leaf_at v 64 j root = HEMPTY"
    using store_alone [OF k] .
  have rm: "room v 66" using room_less [of v 934 66] t(2) by simp
  have e0: "leaf_at v 64 0 root = HEMPTY" using lf ix by simp
  then have nc: "\<not> leaf_conflict v root fe_zero" by (simp add: leaf_conflict_def index_of_zero)
  have "leaf_at v 64 1 root \<noteq> HEMPTY"
    using lk k lookup_leaf_hash [OF t(1) k] ix by (metis (full_types))
  from zero_key_not_stored [OF t(1) rm nc e0 this] obtain r' v' where
    run: "set_account v root fe_zero zero_account = Some (r', v')" "root_unchanged r'" .
  show ?thesis
    using early_stop_is_collision [OF t(1) rm canonical_zero zero_account_ok run] run t(1) rm by blast
qed

section \<open>Opening proofs\<close>

text \<open>
  The opening the prover builds for a stored account is accepted by the verifier against the
  canonical limbs of the root hash.
\<close>

theorem opening_complete:
  assumes "tree v 64 root" and "is_canonical key" and "lookup_account v root key = Some s"
  shows "verify_opening (limbs (fe_to_canonical (node_hash v 64 root))) key (Some s) (prover_open v root key)"
  using assms by (rule open_complete)

lemma opening_complete_witness:
  "\<exists>v root. verify_opening (limbs (fe_to_canonical (node_hash v 64 root))) fe_one (Some alice)
    (prover_open v root fe_one)"
proof -
  obtain v root where "tree v 64 root" and "lookup_account v root fe_one = Some alice"
    using demo_state by metis
  from opening_complete [OF this(1) canonical_one this(2)] show ?thesis by blast
qed



text \<open>
  Absence is not proved by an opening: every accepted opening of a stored account becomes,
  with its occupied flag cleared, an accepted opening of absence for the same key and root.
\<close>

theorem absence_is_forgeable:
  assumes "verify_opening r key (Some s) pr"
  shows "verify_opening r key None (pr\<lparr>occupied := False\<rparr>)"
  using assms by (rule absence_forgery)

lemma absence_is_forgeable_witness:
  "\<exists>v root. lookup_account v root fe_one = Some alice
    \<and> verify_opening (limbs (fe_to_canonical (node_hash v 64 root))) fe_one None
        ((prover_open v root fe_one)\<lparr>occupied := False\<rparr>)"
proof -
  obtain v root where d: "tree v 64 root" "lookup_account v root fe_one = Some alice"
    using demo_state by metis
  from absence_is_forgeable [OF open_complete [OF d(1) canonical_one d(2)]] d(2) show ?thesis by blast
qed

section \<open>The ledger\<close>

definition bob :: AccountState where
  "bob = \<lparr>bal_mag = 5, bal_sign = True, nonce = 0, flags = 0\<rparr>"

definition pay :: Transaction where
  "pay = \<lparr>sender_key = fe_one, recipient_key = fe_zero, amount = 100, fee = 7, tx_nonce = 1\<rparr>"

lemma pay_keys: "keys_canonical pay"
  by (simp add: keys_canonical_def pay_def canonical_one canonical_zero)

lemma pay_rules:
  "apply_rules pay (rule_input (Some alice) None False) so ro =
    (OK, alice\<lparr>bal_mag := 893, nonce := 1\<rparr>, \<lparr>bal_mag = 100, bal_sign = False, nonce = 0, flags = 0\<rparr>)"
  by (simp add: apply_rules_def rule_input_def pay_def alice_def add_u128_def BAL_MAX_def
      word_less_nat_alt Let_def)

text \<open>
  C5. A transfer that the money rules accept came from an existing, non-negative sender with
  the next nonce whose balance covers amount and fee without overflow; the sender ends with
  exactly that balance less amount and fee and the next nonce, and the recipient of a transfer
  to another key ends with its old magnitude plus the amount, at most 2^126 - 1.
\<close>

theorem accepted_transfer:
  assumes "apply_rules tx inp so ro = (OK, s', r')"
  shows "sender_found inp \<and> \<not> bal_sign (in_sender inp) \<and> tx_nonce tx = nonce (in_sender inp) + 1
    \<and> unat (amount tx) + unat (fee tx) \<le> unat (bal_mag (in_sender inp))
    \<and> nonce s' = nonce (in_sender inp) + 1 \<and> \<not> bal_sign s'
    \<and> unat (bal_mag s') = unat (bal_mag (in_sender inp)) - unat (amount tx) - unat (fee tx)
        + (if self_transfer inp then unat (amount tx) else 0)
    \<and> (\<not> self_transfer inp \<longrightarrow> \<not> bal_sign r' \<and> unat (bal_mag r') < 2 ^ 126
        \<and> unat (bal_mag r') = (if recipient_found inp then unat (bal_mag (in_recipient inp)) else 0)
            + unat (amount tx))"
proof -
  have "unat (bal_mag r') < 2 ^ 126" if "\<not> self_transfer inp"
    using apply_rules_OK_recipient(2) [OF assms that] unat_BAL_MAX by (simp add: word_le_nat_alt)
  then show ?thesis
    using apply_rules_OK [OF assms] apply_rules_OK_recipient [OF assms] by blast
qed

lemma accepted_transfer_witness: "unat (bal_mag (alice\<lparr>bal_mag := 893, nonce := 1\<rparr>)) = 893
    \<and> tx_nonce pay = nonce alice + 1"
  using accepted_transfer [OF pay_rules] by (simp add: rule_input_def)

text \<open>
  The credit step ignores the sign of the recipient: paying an account in debt turns its debt
  into a credit, so the transfer leaves twice the debt more money than it found, less the fee.
\<close>

theorem credit_erases_debt:
  assumes "apply_rules tx (rule_input (Some a) (Some b) False) so ro = (OK, s', r')" and "bal_sign b"
  shows "balance s' + balance r' = balance a + balance b - int (unat (fee tx)) + 2 * int (unat (bal_mag b))"
  using assms by (rule credit_to_debtor)

lemma credit_erases_debt_witness:
  "balance (alice\<lparr>bal_mag := 893, nonce := 1\<rparr>) + balance (bob\<lparr>bal_mag := 105, bal_sign := False\<rparr>) =
    balance alice + balance bob - 7 + 2 * 5"
proof -
  have "apply_rules pay (rule_input (Some alice) (Some bob) False) alice bob =
      (OK, alice\<lparr>bal_mag := 893, nonce := 1\<rparr>, bob\<lparr>bal_mag := 105, bal_sign := False\<rparr>)"
    by (simp add: apply_rules_def rule_input_def pay_def alice_def bob_def add_u128_def BAL_MAX_def
        word_less_nat_alt Let_def)
  from credit_erases_debt [OF this] show ?thesis by (simp add: pay_def bob_def)
qed

text \<open>
  C17. The execution order of a batch does not depend on the order of arrival: every queue
  with the same transactions (over canonical keys) is sorted into the same sequence, which
  holds exactly the queued transactions in ascending order; so any other sorting algorithm
  gives it too.
\<close>

theorem execution_order_determined:
  assumes "\<forall>t\<in>set q. keys_canonical t" and "mset q' = mset q"
  shows "sort_deterministic q' = sort_deterministic q \<and> mset (sort_deterministic q) = mset q
    \<and> sorted_wrt (\<lambda>a b. \<not> tx_less b a) (sort_deterministic q)
    \<and> (\<forall>r. mset r = mset q \<longrightarrow> sorted_wrt (\<lambda>a b. \<not> tx_less b a) r \<longrightarrow> r = sort_deterministic q)"
  using sort_deterministic_perm [of q q'] sort_deterministic_props sort_deterministic_unique assms
  by metis

lemma execution_order_determined_witness:
  "sort_deterministic [pay, pay\<lparr>tx_nonce := 2\<rparr>] = sort_deterministic [pay\<lparr>tx_nonce := 2\<rparr>, pay]"
  using execution_order_determined [of "[pay\<lparr>tx_nonce := 2\<rparr>, pay]" "[pay, pay\<lparr>tx_nonce := 2\<rparr>]"] pay_keys
  by (simp add: keys_canonical_def add_mset_commute)

lemma demo_solvent:
  assumes "n \<le> 10"
  obtains v root where "smt_wf n (v, root)" and "solvent smt_get (v, root)"
    and "lookup_account v root fe_one = Some alice"
proof -
  obtain v root where d: "tree v 64 root" "room v 1000" "lookup_account v root fe_one = Some alice"
    "\<And>k. is_canonical k \<Longrightarrow> k \<noteq> fe_one \<Longrightarrow> lookup_account v root k = None"
    using demo_state by metis
  have "solvent smt_get (v, root)"
    unfolding solvent_def smt_get_def using d(3,4) by (metis alice_def AccountState.select_convs(2) fst_conv
      option.distinct(1) option.inject snd_conv)
  moreover have "smt_wf n (v, root)"
    using d(1) room_less [of v "1000 - 66 * n" "66 * n"] d(2) assms by (simp add: smt_wf_def)
  ultimately show thesis using that d(3) by blast
qed

text \<open>
  C1. Executing a batch on a tree with room, where no account is in debt and no update stops
  early, returns a tree with room where no account is in debt and one status per transaction;
  the money of all accounts falls by at least the executed fees, and by exactly them unless a
  transaction failed halfway with MALFORMED.
\<close>

theorem batch_conserves_money:
  assumes "smt_wf (2 * length q + n) (v, root)" and "\<forall>t\<in>set q. keys_canonical t"
    and "solvent smt_get (v, root)" and "\<not> batch_shorts smt_get smt_put (v, root) (sort_deterministic q)"
  shows "\<exists>s' ex sts. execute_batch v root q = Some (s', ex, sts) \<and> smt_wf n s' \<and> solvent smt_get s'
    \<and> length sts = length q \<and> money smt_get s' \<le> money smt_get (v, root) - (\<Sum>t\<leftarrow>ex. int (unat (fee t)))
    \<and> (MALFORMED \<notin> set sts \<longrightarrow>
        money smt_get s' = money smt_get (v, root) - (\<Sum>t\<leftarrow>ex. int (unat (fee t))))"
proof -
  have m: "mset (sort_deterministic q) = mset q" by (rule sort_deterministic_props)
  have l: "length (sort_deterministic q) = length q" using m by (rule mset_eq_length)
  have k: "\<forall>t\<in>set (sort_deterministic q). keys_canonical t" using assms(2) mset_eq_setD [OF m] by simp
  have "smt_wf (2 * length (sort_deterministic q) + n) (v, root)" using assms(1) l by simp
  from smt.store_batch_money [OF this k assms(3,4)] show ?thesis unfolding execute_batch_def l .
qed

lemma batch_conserves_money_witness:
  "\<exists>v root s'. execute_batch v root [pay\<lparr>tx_nonce := 5\<rparr>] = Some (s', [], [INVALID_NONCE])
    \<and> money smt_get s' = money smt_get (v, root)"
proof -
  obtain v root where d: "smt_wf 2 (v, root)" "solvent smt_get (v, root)"
    "lookup_account v root fe_one = Some alice" using demo_solvent [of 2] by auto
  let ?q = "[pay\<lparr>tx_nonce := 5\<rparr>]"
  have r: "apply_rules (pay\<lparr>tx_nonce := 5\<rparr>) (rule_input (Some alice) x self) zero_account zero_account =
      (INVALID_NONCE, zero_account, zero_account)" for x self
    by (simp add: apply_rules_def rule_input_def pay_def alice_def)
  have g: "smt_get (v, root) (sender_key pay) = Some alice"
    using d(3) by (simp add: smt_get_def pay_def)
  have srt: "sort_deterministic ?q = ?q" by (simp add: sort_deterministic_def)
  have st: "store_tx smt_get smt_put (v, root) (pay\<lparr>tx_nonce := 5\<rparr>) = Some (INVALID_NONCE, (v, root))"
    by (simp add: store_tx_def g r Let_def)
  have sh: "\<not> batch_shorts smt_get smt_put (v, root) (sort_deterministic ?q)"
    by (simp add: srt store_shorts_def g r st Let_def)
  have run: "execute_batch v root ?q = Some ((v, root), [], [INVALID_NONCE])"
    by (simp add: execute_batch_def srt st)
  have k: "\<forall>t\<in>set ?q. keys_canonical t" using pay_keys by (simp add: keys_canonical_def)
  have "smt_wf (2 * length ?q + 0) (v, root)" using d(1) by simp
  from batch_conserves_money [OF this k d(2) sh] run show ?thesis by fastforce
qed

text \<open>A payment to oneself that executes, possibly stopping early.\<close>

definition pay_self :: Transaction where
  "pay_self = pay\<lparr>recipient_key := fe_one\<rparr>"

lemma pay_self_keys: "keys_canonical pay_self"
  by (simp add: keys_canonical_def pay_self_def pay_def canonical_one)

lemma pay_self_runs:
  obtains v root s' where "smt_wf 2 (v, root)" and "lookup_account v root fe_one = Some alice"
    and "store_tx smt_get smt_put (v, root) pay_self = Some (OK, s')"
proof -
  let ?sn = "alice\<lparr>bal_mag := 993, nonce := 1\<rparr>"
  obtain v root where t: "tree v 64 root" "room v 1000" and lk: "lookup_account v root fe_one = Some alice"
    and nc: "\<not> leaf_conflict v root fe_one" using demo_state by metis
  have wf: "smt_wf 2 (v, root)" using t room_less [of v 868 132] by (simp add: smt_wf_def)
  have sn: "account_ok ?sn" by (simp add: account_ok_def alice_def word_le_nat_alt word_less_nat_alt)
  have r: "apply_rules pay_self (rule_input (Some alice) (Some alice) True) zero_account zero_account = (OK, ?sn, zero_account)"
    by (simp add: apply_rules_def rule_input_def pay_self_def pay_def alice_def add_u128_def word_less_nat_alt Let_def)
  have g: "smt_get (v, root) fe_one = Some alice" using lk by (simp add: smt_get_def)
  have "smt_wf (Suc 1) (v, root)" using wf by (simp add: numeral_2_eq_2)
  from this canonical_one sn have "\<exists>out s'. smt_put (v, root) fe_one ?sn = Some (out, s') \<and> out \<noteq> Refused"
  proof (cases rule: smt_put_cases)
    case refused
    then show ?thesis using nc by simp
  next
    case (updated out s' r v')
    then have "out \<noteq> Refused" by simp
    then show ?thesis using updated(2) by blast
  qed
  then obtain out s' where p: "smt_put (v, root) fe_one ?sn = Some (out, s')" "out \<noteq> Refused" by blast
  have k: "sender_key pay_self = fe_one" "recipient_key pay_self = fe_one"
    by (simp_all add: pay_self_def pay_def)
  have "store_tx smt_get smt_put (v, root) pay_self = Some (OK, s')"
    unfolding store_tx_def k g using r p by (simp add: same_key_def Let_def)
  then show thesis using that wf lk by blast
qed

text \<open>
  C3. A transaction that executed is refused when it is submitted again right after, because
  its nonce is used, and the state does not change; the exception is an update that stopped
  early at an unchanged hash.
\<close>

theorem executed_not_replayed:
  assumes "smt_wf (Suc (Suc n)) s" and "keys_canonical tx"
    and "store_tx smt_get smt_put s tx = Some (OK, s')"
  shows "store_tx smt_get smt_put s' tx = Some (INVALID_NONCE, s') \<or> store_shorts smt_get smt_put s tx"
  using smt.store_tx_replay [OF assms] by blast

lemma executed_not_replayed_witness:
  "\<exists>s s'. store_tx smt_get smt_put s pay_self = Some (OK, s')
    \<and> (store_tx smt_get smt_put s' pay_self = Some (INVALID_NONCE, s') \<or> store_shorts smt_get smt_put s pay_self)"
proof -
  obtain v root s' where w: "smt_wf 2 (v, root)"
    and run: "store_tx smt_get smt_put (v, root) pay_self = Some (OK, s')"
    using pay_self_runs by metis
  from w have "smt_wf (Suc (Suc 0)) (v, root)" by (simp only: numeral_2_eq_2)
  from executed_not_replayed [OF this pay_self_keys run] run show ?thesis by blast
qed

section \<open>The fold\<close>

definition decree :: DecreeEntry where
  "decree = \<lparr>e_sender = fe_one, e_recipient = fe_one, pt_hash = pt_hash_of 100 7 1, e_amount = 100, e_fee = 7,
     e_nonce = 1, status = EXEC\<rparr>"

lemma entry_tx_decree: "entry_tx decree = pay_self"
  by (simp add: entry_tx_def decree_def pay_self_def pay_def)

lemma decree_gates: "status decree \<noteq> PAD" "check_binding decree"
  by (simp_all add: decree_def check_binding_iff)

text \<open>
  C16. The fold executes an entry exactly as the mempool executes its transaction: an entry,
  not padding, whose binding hash is the hash of its contents gets the verdict OK_EXEC, with a
  given vault and root, exactly when the ledger step accepts the transaction with that vault
  and root.
\<close>

theorem fold_executes_ledger:
  assumes "status e \<noteq> PAD" and "check_binding e"
  shows "(\<exists>st'. f_exec v st e = Some (OK_EXEC, v', st') \<and> state_root st' = root')
    \<longleftrightarrow> store_tx smt_get smt_put (v, state_root st) (entry_tx e) = Some (OK, (v', root'))"
  using f_exec_store_tx store_tx_f_exec [OF assms(2,1)] by fastforce

lemma fold_executes_ledger_witness:
  "\<exists>v st st' v'. f_exec v st decree = Some (OK_EXEC, v', st')"
proof -
  obtain v root s' where "store_tx smt_get smt_put (v, root) pay_self = Some (OK, s')"
    using pay_self_runs by metis
  then have "store_tx smt_get smt_put (v, state_root \<lparr>state_root = root, digest = fe_one\<rparr>) (entry_tx decree)
      = Some (OK, (fst s', snd s'))" by (simp add: entry_tx_decree)
  with fold_executes_ledger [of decree v "\<lparr>state_root = root, digest = fe_one\<rparr>" "fst s'" "snd s'"] decree_gates
  show ?thesis by blast
qed

text \<open>
  An entry the fold accepts satisfies every constraint of the per-entry constraint system on
  the sender's account before the step; its binding hash is absorbed into the digest, and a
  rejected entry leaves the digest as it was.
\<close>

theorem accepted_satisfies_constraints:
  assumes "f_exec v st e = Some (vd, v', st')"
  shows "(vd = OK_EXEC \<or> vd = OK_SKIP \<longrightarrow>
      (\<exists>s. lookup_account v (state_root st) (e_sender e) = Some s \<and> all_satisfied (evaluate e s))
      \<and> digest st' = poseidon3 HSM_FOLD_v1 (digest st) (pt_hash e))
    \<and> (vd \<noteq> OK_EXEC \<and> vd \<noteq> OK_SKIP \<longrightarrow> digest st' = digest st)"
  using f_exec_constraints [OF assms] f_exec_digest [OF assms] by metis

lemma accepted_satisfies_constraints_witness:
  "\<exists>v root s. lookup_account v root fe_one = Some s \<and> all_satisfied (evaluate decree s)"
proof -
  obtain v root s' where "store_tx smt_get smt_put (v, root) pay_self = Some (OK, s')"
    using pay_self_runs by metis
  then have "store_tx smt_get smt_put (v, state_root \<lparr>state_root = root, digest = fe_one\<rparr>) (entry_tx decree)
      = Some (OK, (fst s', snd s'))" by (simp add: entry_tx_decree)
  from accepted_satisfies_constraints [OF store_tx_f_exec [OF decree_gates(2,1) this]]
  show ?thesis by (auto simp: decree_def)
qed

text \<open>
  The binding hash does not bind the fee: fees that agree modulo 2^64 give the same hash, so
  an entry can be rewritten with another fee and still pass the binding gate.
\<close>

theorem binding_ignores_high_fee:
  "pt_hash_of amt (f + push_bit 64 k) n = pt_hash_of amt f n"
  by (rule pt_hash_fee_truncated)

text \<open>
  Over a run of entries the accumulator's digest absorbs the binding hashes of exactly the
  accepted entries, in order, its counter counts them modulo 2^64, and its program counter is
  unchanged.
\<close>

theorem accumulator_tracks_entries:
  assumes "fold_entries v acc root es = Some (vds, v', acc', root')"
  shows "length vds = length es
    \<and> acc_digest acc' = absorb (acc_digest acc) (map (pt_hash \<circ> fst) (filter (accepted \<circ> snd) (zip es vds)))
    \<and> acc_count acc' = acc_count acc + of_nat (length (filter accepted vds))
    \<and> acc_pc acc' = acc_pc acc"
  using assms by (rule fold_entries_acc)

lemma accumulator_tracks_entries_witness:
  "\<exists>acc'. fold_entries vault0 \<lparr>acc_digest = fe_one, acc_count = 0, acc_pc = 1\<rparr> HEMPTY [decree\<lparr>status := PAD\<rparr>]
      = Some ([PAD_NEUTRAL], vault0, acc', HEMPTY) \<and> acc_count acc' = 0 \<and> acc_digest acc' = fe_one"
proof -
  have run: "fold_entries vault0 \<lparr>acc_digest = fe_one, acc_count = 0, acc_pc = 1\<rparr> HEMPTY [decree\<lparr>status := PAD\<rparr>]
      = Some ([PAD_NEUTRAL], vault0, \<lparr>acc_digest = fe_one, acc_count = 0, acc_pc = 1\<rparr>, HEMPTY)"
    by (simp add: fold_step_def f_exec_def)
  from accumulator_tracks_entries [OF run] run show ?thesis by (auto simp: accepted_def absorb_def)
qed

text \<open>
  From any state but CLOSE, the program-counter matrix admits exactly the runs of execution
  steps that may end with one close, after which nothing follows.
\<close>

theorem program_counter_runs:
  assumes "a \<noteq> CLOSE"
  shows "pc_run a ts \<longleftrightarrow> (\<exists>n. ts = replicate n STEP_EXEC \<or> ts = replicate n STEP_EXEC @ [CLOSE])"
  using assms by (rule pc_run_shape)

lemma program_counter_runs_witness: "pc_run HEAD [STEP_EXEC, STEP_EXEC, CLOSE]"
  using program_counter_runs [of HEAD "[STEP_EXEC, STEP_EXEC, CLOSE]"] by (auto simp: eval_nat_numeral intro: exI [of _ 2])

section \<open>Consensus\<close>

text \<open>
  Members who each hold at least the eligibility floor and together at most the adversary's
  share of the total weight are fewer than the threshold, and the shareholders left without
  them still reach it: the adversary can neither open nor block a threshold operation.
\<close>

theorem committee_out_of_reach:
  assumes "\<forall>w\<in>set ws. W_FLOOR_BP * tw \<le> w * BP_ONE" and "0 < tw" and "sum_list ws * BP_ONE \<le> F_BP * tw"
  shows "int (length ws) < uint T_THRESHOLD \<and> uint T_THRESHOLD \<le> uint N_SHAREHOLDERS - int (length ws)"
  using committee_safe [OF assms] by simp

lemma committee_out_of_reach_witness: "int (length (replicate 100 (2::int))) < uint T_THRESHOLD"
  using committee_out_of_reach [of "replicate 100 2" 1000] by (simp add: param_defs sum_list_replicate)

definition fresh_view :: View where
  "fresh_view = \<lparr>conflict = zero_digest, preference = zero_digest, confidence = 0, stall_counter = 0,
     rounds_evaluated = 0, vstate = Active, frozen_members = []\<rparr>"

text \<open>Ten members, of which only row 1 has weight: every draw of every hash stream is row 1.\<close>

definition solo :: Automaton where
  "solo = automaton_new \<lparr>ids = replicate 10 zero_digest, wts = [0, 1, 0, 0, 0, 0, 0, 0, 0, 0], wtotal = 1,
     wroot = zero_digest, self_row = 0\<rparr> 0 []"

definition solo_vote :: Vote where
  "solo_vote = \<lparr>voter = 1, v_epoch = 0, v_weight_root = zero_digest, v_conflict = zero_digest, v_round = 1,
     v_preference = Dg 1 0 0 0\<rparr>"








text \<open>
  C6. Over any sequence of ticks an active view keeps its confidence and its stall counter
  below their limits and a finalised view has exactly the required confirmations; a view that
  is not active never changes again.
\<close>

theorem view_invariant:
  assumes "view_ok cv"
  shows "view_ok (fold (\<lambda>(beacon, pool) w. snd (tick a w beacon pool)) steps cv)
    \<and> (vstate cv \<noteq> Active \<longrightarrow> fold (\<lambda>(beacon, pool) w. snd (tick a w beacon pool)) steps cv = cv)"
  using assms by (induction steps arbitrary: cv) (simp_all add: case_prod_unfold tick_view_ok tick_terminal)

lemma view_invariant_witness:
  "view_ok (fold (\<lambda>(beacon, pool) w. snd (tick solo w beacon pool))
     [(zero_digest, [solo_vote]), (zero_digest, [])] fresh_view)"
proof -
  have "view_ok fresh_view" by (simp add: view_ok_def fresh_view_def param_defs)
  then show ?thesis by (rule view_invariant [THEN conjunct1])
qed



text \<open>
  The sampling floor scales with the sample: in the committee of 224 members a base sample
  passes with 44643 of a million weight units counted, less than the adversary's share, so the
  floor does not keep a quorum out of the adversary's reach.
\<close>

theorem floor_passes_below_adversary:
  "\<not> floor_missed 44643 224 (sample_size 1) 1000000 \<and> (44643 :: int) * BP_ONE < F_BP * 1000000"
  by (rule floor_below_adversary)

text \<open>
  The stall breaker picks a candidate that no candidate beats, a stagger below 400
  milliseconds, and the same winner whatever the order or repetition of the candidates.
\<close>

theorem breaker_order_free:
  assumes "resolve_breaker frozen beacon confl = Some (stagger, w)" and "set frozen' = set frozen"
  shows "w \<in> set frozen \<and> (\<forall>d\<in>set frozen. \<not> breaks (to_bytes beacon) d w) \<and> unat stagger < 400
    \<and> resolve_breaker frozen' beacon confl = Some (stagger, w)"
  using resolve_breaker_winner [OF assms(1)] resolve_breaker_set [OF assms(2)] assms(1) by simp

lemma breaker_order_free_witness:
  "resolve_breaker [Dg 1 0 0 0, Dg 2 0 0 0] zero_digest zero_digest =
    resolve_breaker [Dg 2 0 0 0, Dg 1 0 0 0, Dg 2 0 0 0] zero_digest zero_digest"
proof -
  obtain g w where r: "resolve_breaker [Dg 1 0 0 0, Dg 2 0 0 0] zero_digest zero_digest = Some (g, w)"
    by (simp add: resolve_breaker_def Let_def)
  have "set [Dg 2 0 0 0, Dg 1 0 0 0, Dg 2 0 0 0] = set [Dg 1 0 0 0, Dg 2 0 0 0]" by auto
  from breaker_order_free [OF r this] r show ?thesis by simp
qed

text \<open>
  C36. A live round over a positive total weight that does not abort at the floor and leaves a
  non-zero confidence was supported by reported weight above the adversary's share of the
  total (under the default thresholds, with the weights summed modulo 2^64).
\<close>

theorem live_round_safe:
  assumes "loop_tick ns default_config prefs = (rr, ns')" and "n_confidence ns' \<noteq> 0"
    and "rr_kind rr \<noteq> FloorAbort" and "0 < total_weight ns"
  shows "F_BP * int (unat (total_weight ns)) < int (unat (agreeing_sum ns prefs)) * BP_ONE"
  using assms by (rule loop_tick_safe)

lemma live_round_safe_witness:
  "F_BP * int (unat (total_weight final_node)) < int (unat (agreeing_sum final_node [(2, Dg 1 0 0 0)])) * BP_ONE"
proof -
  have run: "loop_tick final_node default_config [(2, Dg 1 0 0 0)] =
      (\<lparr>rr_kind = Confirmed, sampled_weight = 100, agreeing_weight = 100, flipped = False\<rparr>,
       final_node\<lparr>n_rounds := 6, n_confidence := 6\<rparr>)"
    by (simp add: loop_tick_def final_node_def default_config_def sampled_sum_def agreeing_sum_def
        under_floor_def alpha_reached_def have_pref_def weight_of_def zero_digest_def word_le_nat_alt Let_def)
  show ?thesis by (rule live_round_safe [OF run]) (simp_all add: final_node_def)
qed

text \<open>
  C21. Agreement finalises: if in each of at least beta consecutive rounds every reported
  preference is the node's own and the reported weight passes the floor, the node ends
  finalised on that preference, for any thresholds up to one hundred percent and any positive
  stall limit.
\<close>

theorem agreement_finalises:
  assumes "have_pref ns" and "\<forall>prefs\<in>set rs. agreeing_reports cfg ns prefs"
    and "alpha_bp cfg \<le> 10000" and "0 < stall_limit cfg" and "rs \<noteq> []"
    and "unat (beta cfg) \<le> unat (n_confidence ns) + length rs" and "unat (n_confidence ns) + length rs < 2 ^ 32"
  shows "n_state (live_rounds cfg rs ns) = Finalized \<and> n_preference (live_rounds cfg rs ns) = n_preference ns"
  using assms by (rule live_rounds_finalise)

lemma agreement_finalises_witness:
  "n_state (live_rounds default_config (replicate 5 [(2, Dg 1 0 0 0)]) (final_node\<lparr>n_confidence := 0, n_state := Active\<rparr>))
    = Finalized"
  using agreement_finalises [of "final_node\<lparr>n_confidence := 0, n_state := Active\<rparr>" "replicate 5 [(2, Dg 1 0 0 0)]" default_config]
  by (simp add: have_pref_def final_node_def agreeing_reports_def under_floor_def sampled_sum_def weight_of_def default_config_def
      zero_digest_def word_less_nat_alt)

text \<open>
  A node whose total weight is still zero skips the floor and counts every empty round as
  agreement: five rounds without a single vote finalise it without a preference.
\<close>

theorem zero_weight_node_finalises: "n_state ((tick_alone ^^ 5) isolated_node) = Finalized"
  by (rule zero_total_finalises)

text \<open>
  Finalisation is not terminal in the live loop: a further round in the finalised state can
  switch the preference while the state stays finalised.
\<close>

theorem finalised_preference_switches:
  "n_state final_node = Finalized \<and> n_preference final_node = Dg 1 0 0 0
    \<and> n_state (snd (loop_tick final_node default_config [(2, Dg 2 0 0 0)])) = Finalized
    \<and> n_preference (snd (loop_tick final_node default_config [(2, Dg 2 0 0 0)])) = Dg 2 0 0 0"
  using finalised_node_switches by (simp add: final_node_def)

section \<open>The stake registry\<close>

text \<open>
  Every operation of the registry moves every bond only along the lifecycle (bonding, active,
  unbonding, withdrawn, or slashed from the first three), keeps its position and keeps its
  amount unless it is slashed, and slashed or withdrawn bonds never change under any sequence
  of operations.
\<close>

theorem bond_lifecycle:
  assumes "i < length (bonds_of r m)"
  shows "bond_step (sp_params r) (bonds_of r m ! i) (bonds_of (stake_op x r) m ! i)
    \<and> (bond_state (bonds_of r m ! i) \<in> {SLASHED, WITHDRAWN} \<longrightarrow>
        bonds_of (stake_run xs r) m ! i = bonds_of r m ! i)"
  using stake_op_lifecycle [OF assms] terminal_run [OF assms] by blast

definition staked :: StakeRegistry where
  "staked = snd (deposit (stake_new default_params) 1 60000 0 7)"

lemma staked_bonds: "bonds_of staked 1 = [\<lparr>member_id = 1, bond_amount = 60000, deposit_epoch = 0,
    unbond_epoch = 0, bond_state = BONDING, cluster = 7\<rparr>]"
  by (simp add: staked_def deposit_def stake_new_def default_params_def word_less_nat_alt
      bonds_of_def put_bonds_def)

lemma bond_lifecycle_witness:
  "bond_step (sp_params staked) (bonds_of staked 1 ! 0) (bonds_of (stake_op (TickEpoch 2) staked) 1 ! 0)"
  using bond_lifecycle [of 0 staked 1 "TickEpoch 2"] staked_bonds by simp

text \<open>
  A bond is not active before its activation epoch: over any sequence of operations whose
  epoch ticks all lie before the deposit epoch plus the activation lag, a bonding bond stays
  bonding or is slashed.
\<close>

theorem activation_delay:
  assumes "i < length (bonds_of r m)" and "bond_state (bonds_of r m ! i) = BONDING"
    and "\<forall>e. TickEpoch e \<in> set xs \<longrightarrow> e < deposit_epoch (bonds_of r m ! i) + activation_lag (sp_params r)"
  shows "bond_state (bonds_of (stake_run xs r) m ! i) \<in> {BONDING, SLASHED}"
  using activation_lag_run [OF assms] by simp

lemma activation_delay_witness:
  "bond_state (bonds_of (stake_run [TickEpoch 1, RequestUnbond 1 1] staked) 1 ! 0) \<in> {BONDING, SLASHED}"
proof -
  have "sp_params staked = default_params"
    by (simp add: staked_def deposit_def stake_new_def default_params_def put_bonds_def)
  then show ?thesis
    by (intro activation_delay) (simp_all add: staked_bonds default_params_def)
qed

text \<open>
  C35. Slashing conserves stake: what the member's bonds lose is exactly what is reported
  burned, no active weight is left, every bond of the member is slashed or withdrawn, and
  nobody else's bonds change.
\<close>

theorem slashing_conserves:
  "(\<Sum>b\<leftarrow>bonds_of r m. bond_amount b) =
      fst (slash_equivocation r m) + (\<Sum>b\<leftarrow>bonds_of (snd (slash_equivocation r m)) m. bond_amount b)
    \<and> active_weight (snd (slash_equivocation r m)) m = 0
    \<and> bond_state ` set (bonds_of (snd (slash_equivocation r m)) m) \<subseteq> {SLASHED, WITHDRAWN}
    \<and> bonds_of (snd (slash_equivocation r m)) m'
        = (if m' = m then map slash (bonds_of r m) else bonds_of r m')"
proof -
  have "bonds_of (snd (slash_equivocation r m)) m' = (if m' = m then map slash (bonds_of r m) else bonds_of r m')"
    by (simp add: slash_equivocation_def bonds_of_put Let_def)
  then show ?thesis
    using slash_conserves slash_active_weight slash_leaves_nothing by blast
qed

text \<open>
  The capped weights of the members of a cluster add up to at most the cap, when the recorded
  cluster total covers their active weights and no product overflows 64 bits: splitting a
  stake over members does not raise it.
\<close>

theorem cluster_weight_capped:
  assumes "\<forall>m\<in>set ms. map_of (clusters r) (cluster_of r m) = Some t
      \<and> unat (active_weight r m) * unat (cluster_cap (sp_params r)) < 2 ^ 64"
    and "(\<Sum>m\<leftarrow>ms. unat (active_weight r m)) \<le> unat t"
  shows "(\<Sum>m\<leftarrow>ms. unat (cluster_capped_weight r m)) \<le> unat (cluster_cap (sp_params r))"
  using assms by (rule cluster_cap_bound)

lemma cluster_weight_capped_witness:
  "(\<Sum>m\<leftarrow>[1]. unat (cluster_capped_weight (set_cluster_total staked 7 200000) m)) \<le> unat (100000 :: u64)"
proof -
  let ?r = "set_cluster_total staked 7 200000"
  have b: "bonds_of ?r 1 = bonds_of staked 1" by (simp add: set_cluster_total_def bonds_of_def)
  have p: "sp_params ?r = default_params"
    by (simp add: set_cluster_total_def staked_def deposit_def stake_new_def default_params_def put_bonds_def)
  have c: "cluster_of ?r 1 = 7" by (simp add: cluster_of_def set_cluster_total_def staked_def deposit_def
        stake_new_def default_params_def put_bonds_def bonds_of_def word_less_nat_alt)
  have w: "active_weight ?r 1 = 0"
    by (simp add: active_weight_def active_sum_def b staked_bonds)
  have "map_of (clusters ?r) 7 = Some 200000"
    by (simp add: set_cluster_total_def AList.update_conv')
  then have "(\<Sum>m\<leftarrow>[1]. unat (cluster_capped_weight ?r m)) \<le> unat (cluster_cap (sp_params ?r))"
    by (intro cluster_weight_capped [where t = 200000]) (simp_all add: c w)
  then show ?thesis by (simp add: p default_params_def)
qed

text \<open>
  The adversarial check is exact while the adversary's weight times 10000 fits 64 bits; beyond
  that the product wraps: an adversary that holds the whole of a total of 0x68DB8BAC710CC
  units is reported safe.
\<close>

theorem adversarial_bound_overflows:
  assumes "unat adv * 10000 < 2 ^ 64" and "0 < tw"
  shows "(adversarial_check r tw adv = SAFE
      \<longleftrightarrow> unat adv * 10000 < unat (max_adversarial_bp (sp_params r)) * unat tw)
    \<and> adversarial_check (stake_new default_params) 0x68DB8BAC710CC 0x68DB8BAC710CC = SAFE"
  using adversarial_check_exact [OF assms] adversarial_check_wraps by simp

lemma adversarial_bound_overflows_witness:
  "adversarial_check (stake_new default_params) 100 19 = SAFE"
  using adversarial_bound_overflows [of 19 100 "stake_new default_params"]
  by (simp add: stake_new_def default_params_def)

section \<open>The pairing-friendly curve\<close>

text \<open>
  The self-checks made when the curve context is built all pass, so the process does not
  abort: the Newton iteration gives the reduction constant, the two pinned Montgomery
  constants are the powers of two the shift-subtract oracle computes; and both pinned
  generators satisfy their curve equations.
\<close>

theorem context_self_checks:
  "ctx_build = Some CX \<and> on_curve_aff Q_GEN_X Q_GEN_Y
    \<and> G2_on_curve_aff G2_GEN_X_C0 G2_GEN_X_C1 G2_GEN_Y_C0 G2_GEN_Y_C1"
  using ctx_build_ok gen_on G2_gen_on g1_on_from_affine [of Q_GEN_X Q_GEN_Y]
    g2_on_from_affine [of G2_GEN_X_C0 G2_GEN_X_C1 G2_GEN_Y_C0 G2_GEN_Y_C1]
  by (simp add: gen_def G2_gen_def G2_gen_coords_canon gen_coords_canon)

text \<open>
  The 384-bit Montgomery engine refines the residues modulo the base prime: on reduced
  operands the product, the sum and the difference are reduced and decode to those of the
  decoded operands, and leaving the Montgomery domain undoes entering it.
\<close>

theorem base_field_refines:
  assumes "q_canon a" and "q_canon b"
  shows "q_canon (mmul QC a b) \<and> fqk.dec (mmul QC a b) = fqk.dec a * fqk.dec b
    \<and> q_canon (madd QC a b) \<and> fqk.dec (madd QC a b) = fqk.dec a + fqk.dec b
    \<and> q_canon (msub QC a b) \<and> fqk.dec (msub QC a b) = fqk.dec a - fqk.dec b
    \<and> mto QC (mfrom QC a) = a"
  using assms by (simp add: q_dec_ops mto_mfrom)

lemma base_field_refines_witness:
  "fqk.dec (mmul QC (fe6_small 7) (fe6_small 9)) = fqk.dec (fe6_small 7) * fqk.dec (fe6_small 9)
    \<and> mto QC (mfrom QC (fe6_small 7)) = fe6_small 7"
  using base_field_refines [OF fe6_small_val(3) [of 7] fe6_small_val(3) [of 9]] by blast

text \<open>
  A 256-bit value is taken as a scalar exactly when it is below the group order; the scalar
  then decodes to the value, leaves the Montgomery domain as the same limbs, and if it is not
  zero its inverse is computed as the power the Fermat ladder denotes.
\<close>

theorem scalar_field_codec:
  assumes "length v = 4"
  shows "case fr_from_limbs v of
      None \<Rightarrow> bls_r \<le> limbs_val v
    | Some x \<Rightarrow> limbs_val v < bls_r \<and> fr_canon x \<and> frk.dec x = of_nat (limbs_val v) \<and> fr_to_fe6 x = v @ [0, 0]
        \<and> (case fr_inv x of None \<Rightarrow> limbs_val v = 0
           | Some y \<Rightarrow> fr_canon y \<and> frk.dec y = of_nat (limbs_val v) ^ (bls_r - 2))"
proof (cases "fr_from_limbs v")
  case None
  then show ?thesis using fr_from_limbs_None [OF assms] by simp
next
  case (Some x)
  note x = fr_from_limbs_Some [OF assms Some]
  have lt: "limbs_val v < bls_r" using Some fr_from_limbs_None [OF assms] by (metis not_less option.distinct(1))
  show ?thesis
  proof (cases "fr_is_zero x")
    case True
    then have "(of_nat (limbs_val v) :: frr) = of_nat 0" using x fr_is_zero_dec [OF x(1)] by simp
    then have "limbs_val v = 0" using lt by (simp only: of_nat_frr mod_less mod_0)
    then show ?thesis using True Some x lt by (simp add: fr_inv_def)
  next
    case False
    then show ?thesis using fr_inv_Some [OF x(1) False] Some x lt by auto
  qed
qed

lemma scalar_field_codec_witness:
  "case fr_from_limbs [5, 0, 0, 0] of None \<Rightarrow> bls_r \<le> limbs_val [5, 0, 0, 0]
    | Some x \<Rightarrow> fr_to_fe6 x = [5, 0, 0, 0, 0, 0]"
  using scalar_field_codec [of "[5, 0, 0, 0]"] by (simp split: option.splits)

text \<open>
  C38. The group operations of both groups keep the representation invariant: on points with
  reduced coordinates that satisfy the projective curve equation, addition, doubling and
  multiplication by any scalar return such points, in every special case of the formulas
  (infinity, equal points, opposite points), over the base field and over its quadratic
  extension.
\<close>

theorem group_operations_typed:
  assumes "g1_on P" and "g1_on Q" and "g2_on S" and "g2_on T"
  shows "g1_on (Padd P Q) \<and> g1_on (Pdbl P) \<and> g1_on (Pmul P k)
    \<and> g2_on (G2_Padd S T) \<and> g2_on (G2_Pdbl S) \<and> g2_on (G2_Pmul S k)"
  using assms by (simp add: Padd_on Pdbl_on Pmul_on G2_Padd_on G2_Pdbl_on G2_Pmul_on)

lemma group_operations_typed_witness: "g1_on (Padd gen gen) \<and> g1_on (Pmul gen Q_RMOD) \<and> g2_on (G2_Padd G2_gen G2_gen)"
  using group_operations_typed [OF gen_on gen_on G2_gen_on G2_gen_on] by blast

text \<open>
  Skipping the leading zero bits of a scalar changes nothing: the clamped multiplication
  returns, coordinate for coordinate, what double-and-add over all 384 bits returns. The
  hypothesis excludes the scalars of exactly 384 bits, for which the code starts one limb past
  the array.
\<close>

theorem scalar_clamp_exact:
  assumes "length k = 6" and "bitlen k < 384"
  shows "Pmul P k = foldl (Pstep P) Pt0 (bits_down k)"
  using assms by (rule Pmul_double_and_add)

lemma scalar_clamp_exact_witness: "Pmul gen [6, 0, 0, 0, 0, 0] = foldl (Pstep gen) Pt0 (bits_down [6, 0, 0, 0, 0, 0])"
proof -
  have "bitlen [6, 0, 0, 0, 0, 0] = 3" by code_simp
  then show ?thesis by (intro scalar_clamp_exact) simp_all
qed

text \<open>
  Whatever the Tonelli-Shanks routine returns for a reduced argument is a reduced square root
  of it, by the loop invariant that the square of the candidate is the argument times the
  residual factor; every other outcome is one of the process exits.
\<close>

theorem square_root_correct:
  assumes "q_canon a"
  shows "case tonelli_q a of None \<Rightarrow> \<not> bn_isz a | Some r \<Rightarrow> q_canon r \<and> limbs_val r ^ 2 mod bls_q = limbs_val a"
  using tonelli_q_root [OF assms] by (auto simp: tonelli_q_def power2_eq_square split: option.splits)

lemma square_root_correct_witness:
  "case tonelli_q (fe6_small 4) of None \<Rightarrow> \<not> bn_isz (fe6_small 4) | Some r \<Rightarrow> limbs_val r ^ 2 mod bls_q = 4"
  using square_root_correct [OF fe6_small_val(3) [of 4]] by (simp add: fe6_small_val split: option.splits)

text \<open>
  Hashing a message to the group never returns anything but a point of the curve other than
  infinity: the quadratic-residue gate, the square root, the even-coordinate rule and the
  cofactor multiplication together keep the curve equation for every message; the only other
  outcome is the abort.
\<close>

theorem hash_lands_on_curve:
  "case hash_to_g1 m of None \<Rightarrow> True | Some P \<Rightarrow> g1_on P \<and> \<not> PisInf P"
  using hash_to_g1_on by (simp split: option.splits)

text \<open>
  Products in the degree-twelve tower decode to products of the tower ring, the left-to-right
  power over a limb array decodes to the power by the number the limbs denote, and the inverse
  through the chain of norms is an inverse whenever the norm of the element down in the base
  field satisfies Fermat's equation.
\<close>

theorem tower_arithmetic:
  assumes "q12_canon a" and "q12_canon b"
    and "fqk.dec (fq2_norm QC (fq6_det (fq12_norm a)) (beta_m g2_ctx)) ^ (bls_q - 1) = 1"
  shows "q12_dec (fq12_mul a b) = q12_dec a * q12_dec b
    \<and> q12_dec (fq12_pow_limbs a e) = q12_dec a ^ limbs_val e
    \<and> q12_dec a * q12_dec (fq12_inv a) = 1"
  using assms fq12_pow_dec [OF assms(1)] fq12_inv_dec [OF assms(1,3)] by (simp add: f12_dec_ops)

lemma tower_arithmetic_witness: "q12_dec fq12_one * q12_dec (fq12_inv fq12_one) = 1"
  using tower_arithmetic [OF f12k.canon_one f12k.canon_one fq12_one_norm] by blast

text \<open>
  The signature check compares two pairings exactly: on reduced coordinates both sides are
  reduced tower elements, the check holds precisely when they are equal as residues, and a
  public key at infinity makes its side one.
\<close>

theorem signature_equation:
  assumes "q_canon sx" "q_canon sy" "q_canon hx" "q_canon hy" and "q2_canon (gx Y)" "q2_canon (gy Y)" "q2_canon (gz Y)"
  shows "(bls_verify_aff sx sy hx hy Y \<longleftrightarrow> q12_dec (pairing sx sy G2_gen) = q12_dec (pairing hx hy Y))
    \<and> q12_canon (pairing hx hy Y) \<and> pairing hx hy G2Pt0 = fq12_one"
  using bls_verify_iff [OF assms] assms pairing_canon [OF assms(3,4)] pairing_canon [OF assms(1,2)] G2_gen_canon
  by (simp add: pairing_def G2_to_affine_inf f12k.dec_eq_iff)

lemma signature_equation_witness:
  "bls_verify_aff Q_GEN_X Q_GEN_Y Q_GEN_X Q_GEN_Y G2_gen
    \<longleftrightarrow> q12_dec (pairing Q_GEN_X Q_GEN_Y G2_gen) = q12_dec (pairing Q_GEN_X Q_GEN_Y G2_gen)"
  using signature_equation [OF gen_coords_canon gen_coords_canon G2_gen_canon] by blast

section \<open>Threshold sharing and decryption\<close>

text \<open>
  C37. The batch kernel, with one field inversion in all, computes bit for bit the
  coefficients of the reference kernel with an inversion per factor, and both refuse exactly
  the point lists with a repetition. The points are distinct with differences that satisfy
  Fermat's equation, or repeat.
\<close>

theorem lagrange_kernels_equal:
  assumes "list_all fr_canon xs" and "distinct xs \<Longrightarrow> distinct_points xs"
  shows "lagrange_zero xs = lagrange_zero_batch xs \<and> (lagrange_zero xs = None \<longleftrightarrow> \<not> distinct xs)"
  using assms lagrange_kernels_agree [of xs] lagrange_duplicates [of xs] by (cases "distinct xs") simp_all

lemma lagrange_kernels_equal_witness:
  "lagrange_zero [the (fr_from_u64 1), the (fr_from_u64 2)] = lagrange_zero_batch [the (fr_from_u64 1), the (fr_from_u64 2)]"
  using lagrange_kernels_equal [of "[the (fr_from_u64 1), the (fr_from_u64 2)]"] two_points
  by (simp add: fr_u64_point)

text \<open>
  C8. Secret sharing works: the shares of a polynomial at as many distinct points as it has
  coefficients, combined with the coefficients of the batch kernel, give back its constant
  term limb for limb.
\<close>

theorem threshold_reconstructs:
  assumes "distinct_points xs" and "xs \<noteq> []" and "list_all fr_canon c" and "c \<noteq> []" and "length c \<le> length xs"
  shows "\<exists>lam. lagrange_zero_batch xs = Some lam \<and>
    foldl (\<lambda>s i. fr_add s (fr_mul (lam ! i) (poly_eval c (xs ! i)))) fr_zero [0..<length xs] = c ! 0"
  using assms by (rule lagrange_reconstructs)

lemma threshold_reconstructs_witness:
  "\<exists>lam. lagrange_zero_batch [the (fr_from_u64 1), the (fr_from_u64 2)] = Some lam \<and>
    foldl (\<lambda>s i. fr_add s (fr_mul (lam ! i) (poly_eval [FR_ONE, R_R2] ([the (fr_from_u64 1), the (fr_from_u64 2)] ! i))))
      fr_zero [0, 1] = FR_ONE"
  using threshold_reconstructs [OF two_points, of "[FR_ONE, R_R2]"] FR_ONE_val(2) R_R2_val(2) by (simp add: upt_rec)

text \<open>
  C15. The checked aggregation returns a point only for at least the threshold of shares from
  pairwise different members of the transcript, each with a proof that verifies against that
  member's public point; the point is then the sum of the shares weighted with the Lagrange
  coefficients of those members.
\<close>

theorem checked_aggregation_sound:
  "case agg_dec_share_checked out shares T R of None \<Rightarrow> True
   | Some D \<Rightarrow> unat (tr_t T) \<le> length shares \<and> distinct (map cs_j shares)
      \<and> list_all (\<lambda>s. cs_j s \<noteq> 0 \<and> cs_j s \<le> tr_n T \<and> dleq_verify (cs_proof s) R (tr_Y T ! unat (cs_j s)) (cs_D s)) shares
      \<and> (\<exists>lam. lagrange_batch_at_zero (map cs_j shares) = Some lam
        \<and> D = agg_terms G2_Padd out (map (\<lambda>i. G2_Pmul (cs_D (shares ! i)) (fr_to_fe6 (lam ! i))) [0..<length shares]))"
  using agg_checked_sound [of out shares T R] by (auto simp: list_all_iff split: option.splits)

text \<open>
  The symmetric layer: decrypting what was encrypted under the same key and header gives the
  plaintext back and is accepted; and another ciphertext is accepted under that tag only if
  its tagged string and the original one have the same hash.
\<close>

theorem dem_authenticates:
  "dem_decrypt k hdr (fst (dem_encrypt k hdr p)) (snd (dem_encrypt k hdr p)) = (p, True)
    \<and> snd (dem_decrypt k hdr ct' (snd (dem_encrypt k hdr p)))
      = (sha256 (ascii ''HSM_DEM_TAG_V1'' @ k @ hdr @ ct') = sha256 (ascii ''HSM_DEM_TAG_V1'' @ k @ hdr @ fst (dem_encrypt k hdr p)))"
  by (simp add: dem_round_trip, simp add: dem_decrypt_def dem_encrypt_def dem_tag_def Let_def)

section \<open>The wire\<close>

text \<open>
  A message within the size limit that is sent over a stream is received whole, whatever the
  chunks the stream delivers it in, and the bytes after it are left for the next receive; the
  receive loops end.
\<close>

theorem message_delivered:
  assumes "length (m_payload m) \<le> unat MAX_PAYLOAD" and "concat cs = serialize m @ r" and "[] \<notin> set cs"
  shows "\<exists>rest. recv_message cs = Some (m, rest) \<and> concat rest = r"
  using assms by (rule recv_serialize)

lemma message_delivered_witness:
  "\<exists>rest. recv_message [[0x48], [0x53, 0x4d, 0x41, 4, 0, 0], [0, 0, 9]] = Some (\<lparr>m_type = 4, m_payload = []\<rparr>, rest)
    \<and> concat rest = [9]"
  by (rule message_delivered) (simp_all add: serialize_def MAGIC_def put_u32_def ascii_def)

text \<open>
  The frame parser is exact: it returns a message precisely for the byte strings that start
  with the serialisation of that message, within the size limit; every short, foreign,
  oversized or truncated buffer is refused.
\<close>

theorem frame_parser_exact:
  "deserialize b = Some m \<longleftrightarrow> length (m_payload m) \<le> unat MAX_PAYLOAD \<and> (\<exists>r. b = serialize m @ r)"
  by (rule deserialize_exact)

text \<open>
  C30. Both versions of the vote wire give back every field: epoch, round, weight root,
  conflict set, preference and, in the second version, the claimed member; the signature comes
  back as the affine form of the same point. A signature at infinity is not taken by the
  decoder.
\<close>

theorem vote_round_trip:
  assumes "pt_canon sigma"
  shows "case to_affine sigma of
      None \<Rightarrow> \<not> dv_ok (decode_vote (encode_vote_v2 ep wr conf rnd pref sigma member))
    | Some (x, y) \<Rightarrow>
        decode_vote (encode_vote ep wr conf rnd pref sigma) =
          \<lparr>dv_epoch = ep, dv_round = rnd, dv_wroot = wr, dv_conflict = conf, dv_pref = pref,
           dv_sigma = from_affine x y, dv_member = 0, dv_has_member = False, dv_ok = True\<rparr>
      \<and> decode_vote (encode_vote_v2 ep wr conf rnd pref sigma member) =
          \<lparr>dv_epoch = ep, dv_round = rnd, dv_wroot = wr, dv_conflict = conf, dv_pref = pref,
           dv_sigma = from_affine x y, dv_member = member, dv_has_member = True, dv_ok = True\<rparr>"
  using decode_vote_v1 [OF assms] decode_vote_v2 [OF assms] decode_vote_infinity [of sigma] to_affine_None [of sigma]
  by (auto split: option.splits)

lemma vote_round_trip_witness:
  "dv_ok (decode_vote (encode_vote_v2 7 zero_digest zero_digest 3 zero_digest gen 5))"
proof -
  obtain x y where "to_affine gen = Some (x, y)" using to_affine_finite [OF gen_finite(1)] by blast
  then show ?thesis
    using vote_round_trip [OF gen_finite(2), of 7 zero_digest zero_digest 3 zero_digest 5] by simp
qed

text \<open>
  The order-lock attestation travels unchanged: epoch, order root, claimed member and the
  point of the signature are read back from the 140 bytes.
\<close>

theorem order_lock_round_trip:
  assumes "pt_canon sigma" and "\<not> PisInf sigma" and "length oroot = 32"
  shows "\<exists>x y. to_affine sigma = Some (x, y) \<and> decode_order_sig (encode_order_sig ep oroot sigma member) =
    \<lparr>do_epoch = ep, do_oroot = oroot, do_member = member, do_sigma = from_affine x y, do_ok = True\<rparr>"
  using to_affine_finite [OF assms(2)] decode_order_sig_encode [OF assms(1) _ assms(3)] by blast

lemma order_lock_round_trip_witness:
  "do_ok (decode_order_sig (encode_order_sig 1 (replicate 32 0) gen 2))"
  using order_lock_round_trip [OF gen_finite(2,1), of "replicate 32 0" 1 2] by auto

text \<open>
  C26. An envelope reaches the committee: what was sealed under an ephemeral scalar, encoded
  and decoded again is accepted by the decoder with the same content hash and ephemeral point,
  and the key of the shared point opens it to the payload with a valid tag.
\<close>

theorem envelope_end_to_end:
  assumes "\<not> G2_PisInf (G2_Pmul G2_gen rk)" and "length payload + 316 < 2 ^ 32"
  shows "\<exists>d. decode_envelope (encode_envelope junk (seal junk payload X_E ep rk)) = Some d \<and> de_ok d
    \<and> (\<exists>xa xb ya yb. G2_to_affine (G2_Pmul G2_gen rk) = Some (xa, xb, ya, yb) \<and> de_R d = G2_from_affine xa xb ya yb)
    \<and> de_cth d = env_cth (seal junk payload X_E ep rk)
    \<and> dem_decrypt (seal_key junk X_E ep rk) (de_hdr d) (de_ct d) (de_tag d) = (payload, True)"
  using assms by (rule seal_wire)

lemma envelope_end_to_end_witness:
  "\<exists>d. decode_envelope (encode_envelope [] (seal [] [1, 2, 3] G2_gen 4 (fe6_small 1))) = Some d \<and> de_ok d"
proof -
  have "\<not> G2_PisInf G2_gen"
    by (simp add: G2_PisInf_def G2_gen_def G2_from_affine_def fq2_is_zero_def bn_isz_def Q_R1_def)
  then show ?thesis using envelope_end_to_end [of "fe6_small 1" "[1, 2, 3]" "[]" G2_gen 4] by (auto simp: G2_Pmul_one)
qed

text \<open>
  The envelope store is addressed by content whatever arrives: after any sequence of
  insertions the content hashes of the pool are pairwise different, the index maps exactly
  those hashes to their places, and the hashes present are those that arrived.
\<close>

theorem store_addressed_by_content:
  "es_inv (es_gossip es) \<and> set (map env_cth (es_pool (es_gossip es))) = set (map env_cth es)"
  using es_gossip_inv es_gossip_cths by simp

text \<open>
  The ordering ceremony does not depend on gossip: two nodes that saw the same envelopes, in
  any order and with any repetitions, commit the same order root for a beacon under which no
  two of the hashes have the same sort key.
\<close>

theorem order_root_agreed:
  assumes "set (map env_cth es) = set (map env_cth es')" and "inj_on (m2_sort_key beacon) (set (map env_cth es))"
  shows "ordered_root (es_gossip es) beacon = ordered_root (es_gossip es') beacon"
  using assms by (rule es_gossip_root)

lemma order_root_agreed_witness:
  "ordered_root (es_gossip [seal [] [1] G2_gen 4 (fe6_small 1), seal [] [1] G2_gen 4 (fe6_small 1)]) (replicate 32 0)
    = ordered_root (es_gossip [seal [] [1] G2_gen 4 (fe6_small 1)]) (replicate 32 0)"
  by (rule order_root_agreed) simp_all

text \<open>
  A late joiner reads from the batch exactly the shares that were packed, with their envelope
  indices cut to 32 bits, and the member that sent them.
\<close>

theorem sync_batch_exact:
  assumes "\<forall>sh\<in>set shares. length (snd sh) = 192" and "shares \<noteq> []" and "length shares < 2 ^ 32"
  shows "sync_batch_decode True (sync_batch_encode member shares)
    = Some (Some (map (\<lambda>sh. (ucast (fst sh), snd sh)) shares, member))"
  using assms by (rule sync_batch_round_trip)

lemma sync_batch_exact_witness:
  "sync_batch_decode True (sync_batch_encode 9 [(1, replicate 192 7)]) = Some (Some ([(1, replicate 192 7)], 9))"
  using sync_batch_exact [of "[(1, replicate 192 7)]" 9] by simp

section \<open>Sum-check and openings\<close>

text \<open>
  C18. Completeness of the product sum-check: for tables of two to the n reduced elements the
  verifier accepts the prover's transcript for the inner product of the tables, and the two
  final values are the multilinear extensions of the tables at the transcript's challenges.
\<close>

theorem sumcheck_complete:
  assumes "list_all is_canonical a" and "length a = 2 ^ n" and "list_all is_canonical b" and "length b = 2 ^ n"
  shows "sc_verify (prove_2 n a b) (inner_total a b) = n
    \<and> sc_fa (prove_2 n a b) = direct_eval a (sc_r (prove_2 n a b))
    \<and> sc_fb (prove_2 n a b) = direct_eval b (sc_r (prove_2 n a b))"
  using prove_2_accepted [OF assms] prove_2_final [OF assms] by blast

lemma sumcheck_complete_witness:
  "sc_verify (prove_2 1 [fe_one, fe_zero] [fe_zero, fe_one]) (inner_total [fe_one, fe_zero] [fe_zero, fe_one]) = 1"
  using sumcheck_complete [of "[fe_one, fe_zero]" 1 "[fe_zero, fe_one]"] by (simp add: canonical_one canonical_zero)

text \<open>
  C34. The folding evaluation of a multilinear extension gives the same element as both
  references: the inner product with the table of the equality polynomial, and the direct sum
  over the cube.
\<close>

theorem folded_evaluation_equal:
  assumes "list_all is_canonical f" and "list_all is_canonical tau" and "length f = 2 ^ length tau"
  shows "ood_eval f tau = inner_total f (eq_table tau) \<and> ood_eval f tau = direct_eval f tau"
  using ood_eval_table [OF assms] ood_eval_direct [OF assms] by blast

lemma folded_evaluation_equal_witness:
  "ood_eval [fe_one, fe_zero] [fe_one] = inner_total [fe_one, fe_zero] (eq_table [fe_one])"
  using folded_evaluation_equal [of "[fe_one, fe_zero]" "[fe_one]"] by (simp add: canonical_one canonical_zero)

text \<open>
  C20. A wrapped opening of a table of two to the n elements survives the wire and is
  accepted: the decoder returns the whole proof from its bytes (the points, which are not
  sent, recomputed), the length is the declared wire size, and the verifier accepts what was
  decoded with every stage passed.
\<close>

theorem wrapped_proof_travels:
  assumes "list_all is_canonical a" and "length a = 2 ^ n" and "n < 32"
  shows "case wire_decode (wire_encode (wrap_open a)) of
      None \<Rightarrow> False
    | Some P \<Rightarrow> P = wrap_open a \<and> wrap_verify P n = (True, 0) \<and> length (wire_encode P) = wire_size P"
  using wrap_wire [OF assms] wrap_accepted [OF assms] wire_size_encode [OF wrap_open_wf(1) [OF assms]] by simp

lemma wrapped_proof_travels_witness:
  "wire_decode (wire_encode (wrap_open [fe_one])) = Some (wrap_open [fe_one])"
  using wrapped_proof_travels [of "[fe_one]" 0] by (simp add: canonical_one split: option.splits)

section \<open>Folding and circuits\<close>

definition step_instance :: Relaxed where
  "step_instance = fresh (unbound_step fe_zero fe_zero fe_zero fe_zero) 8"

lemma step_instance_ok:
  "rx_wf 8 16 step_instance" "sat_relaxed (fx_A no_rows) (fx_B no_rows) (fx_C no_rows) step_instance = 8"
proof -
  show "sat_relaxed (fx_A no_rows) (fx_B no_rows) (fx_C no_rows) step_instance = 8"
    unfolding step_instance_def by (rule unbound_step_satisfied) (simp_all add: canonical_zero)
  show "rx_wf 8 16 step_instance"
    by (simp add: step_instance_def rx_wf_def fresh_def unbound_step_def fx_wires canonical_zero canonical_one
        eval_nat_numeral)
qed

text \<open>
  C11. Folding keeps satisfaction: from a satisfied accumulator and any list of satisfied
  fresh instances of the same system, both folds return (assertions on or off) a well-formed
  accumulator that satisfies every row again.
\<close>

theorem multifold_keeps_satisfaction:
  assumes "system_wf n m A B C" and "rx_wf n m U" and "sat_relaxed A B C U = n"
    and "\<forall>J\<in>set js. fresh_sat n m A B C J"
  shows "(case multifold ndebug A B C U js of None \<Rightarrow> False
      | Some F \<Rightarrow> rx_wf n m (mf_folded F) \<and> sat_relaxed A B C (mf_folded F) = n)
    \<and> (case multifold_v2 shr ndebug A B C U js of None \<Rightarrow> False
      | Some F \<Rightarrow> rx_wf n m (m2_folded F) \<and> sat_relaxed A B C (m2_folded F) = n)"
  using multifold_sat [OF assms] multifold_v2_sat [OF assms] multifold_returns [OF assms(4)]
  by (simp split: option.splits)

lemma case_option_imp:
  assumes "case x of None \<Rightarrow> False | Some y \<Rightarrow> P y" and "\<And>y. P y \<Longrightarrow> Q y"
  shows "case x of None \<Rightarrow> False | Some y \<Rightarrow> Q y"
  using assms by (cases x) simp_all

lemma multifold_keeps_satisfaction_witness:
  "case multifold False (fx_A no_rows) (fx_B no_rows) (fx_C no_rows) step_instance [step_instance, step_instance] of
     None \<Rightarrow> False
   | Some F \<Rightarrow> sat_relaxed (fx_A no_rows) (fx_B no_rows) (fx_C no_rows) (mf_folded F) = 8"
proof -
  have "fresh_sat 8 16 (fx_A no_rows) (fx_B no_rows) (fx_C no_rows) step_instance"
    using step_instance_ok unfolding step_instance_def by (rule fresh_satisfied)
  then have "\<forall>J\<in>set [step_instance, step_instance]. fresh_sat 8 16 (fx_A no_rows) (fx_B no_rows) (fx_C no_rows) J" by simp
  from multifold_keeps_satisfaction [OF fx_system step_instance_ok this, THEN conjunct1, of False]
  show ?thesis by (rule case_option_imp) simp
qed

definition start_rows :: "fe list \<Rightarrow> R1cs" where
  "start_rows w = \<lparr>cs_A = no_rows, cs_B = no_rows, cs_C = no_rows, cs_w = w\<rparr>"

lemma start_rows_ok: "list_all is_canonical w \<Longrightarrow> w \<noteq> [] \<Longrightarrow> w ! 0 = fe_one \<Longrightarrow> cs_inv (start_rows w)"
  by (simp add: cs_inv_def start_rows_def mat_ok_def no_rows_def next_row_def)

lemma start_rows_w: "cs_w (start_rows w) = w"
  by (simp add: start_rows_def)

text \<open>
  C19. The emitted hash circuit computes the hash: with the parameters of the permutation it
  appends 1088 rows that the extended witness satisfies, keeps the earlier witness, and its
  output wire holds the first lane of the Poseidon permutation of the three input wires.
\<close>

theorem hash_circuit_computes:
  assumes "cs_inv s" and "holds3 s (s0, s1, s2) x"
  shows "case r1cs_build s s0 s1 s2 RC_CANON MDS_CANON 4 56 of
    (s', out) \<Rightarrow> cs_inv s' \<and> prefix (cs_w s) (cs_w s') \<and> next_row s' = next_row s + 1088 \<and> holds s' out (ps0 (p3_permute x))"
  using r1cs_build_ok [OF assms, of RC_CANON MDS_CANON 4 56] params_p3
  by (simp add: g_permute_p3 grows_def split: prod.splits)

lemma hash_circuit_computes_witness:
  "case r1cs_build (start_rows [fe_one, fe_zero]) 0 1 1 RC_CANON MDS_CANON 4 56 of
    (s', out) \<Rightarrow> holds s' out (ps0 (p3_permute \<lparr>ps0 = fe_one, ps1 = fe_zero, ps2 = fe_zero\<rparr>))"
  using hash_circuit_computes [of "start_rows [fe_one, fe_zero]" 0 1 1 "\<lparr>ps0 = fe_one, ps1 = fe_zero, ps2 = fe_zero\<rparr>"]
  by (simp add: start_rows_ok canonical_one canonical_zero holds_def start_rows_w split: prod.splits)

text \<open>
  The hash circuit does not bind its round constants: they are witness wires that no row
  mentions alone, so for any other constants the same three matrices are satisfied by a
  witness of the same length whose output wire holds the permutation with those constants.
\<close>

theorem round_constants_unbound:
  assumes "cs_inv s" and "holds3 s (s0, s1, s2) x" and "params_ok rc MDS_CANON 80"
  shows "case (r1cs_build s s0 s1 s2 RC_CANON MDS_CANON 4 56, r1cs_build s s0 s1 s2 rc MDS_CANON 4 56) of
    ((a, out), (b, out')) \<Rightarrow> same_shape a b \<and> out' = out \<and> cs_inv a \<and> cs_inv b
      \<and> holds a out (ps0 (p3_permute x)) \<and> holds b out (ps0 (g_permute rc MDS_CANON 4 56 x))"
proof -
  obtain a out b out' where e: "r1cs_build s s0 s1 s2 RC_CANON MDS_CANON 4 56 = (a, out)"
    "r1cs_build s s0 s1 s2 rc MDS_CANON 4 56 = (b, out')" by fastforce
  have "6 * 4 + 56 = (80::nat)" by simp
  then show ?thesis
    using build_constants_free [OF assms(1,2) _ _ e] assms(3) params_p3 e by (simp add: g_permute_p3)
qed

lemma round_constants_unbound_witness:
  "case (r1cs_build (start_rows [fe_one, fe_zero]) 0 1 1 RC_CANON MDS_CANON 4 56,
      r1cs_build (start_rows [fe_one, fe_zero]) 0 1 1 (replicate 80 [1, 0, 0, 0]) MDS_CANON 4 56) of
    ((a, out), (b, out')) \<Rightarrow> same_shape a b \<and> cs_inv a \<and> cs_inv b"
proof -
  have "params_ok (replicate 80 [1, 0, 0, 0]) MDS_CANON 80"
    using params_p3 by (simp add: params_ok_def const_ok_def pallas_p_eq)
  then show ?thesis
    using round_constants_unbound [of "start_rows [fe_one, fe_zero]" 0 1 1 "\<lparr>ps0 = fe_one, ps1 = fe_zero, ps2 = fe_zero\<rparr>"
        "replicate 80 [1, 0, 0, 0]"]
    by (simp add: start_rows_ok canonical_one canonical_zero holds_def start_rows_w split: prod.splits)
qed



text \<open>
  C27. The matrix product circuit is sound: whatever assignment satisfies the emitted rows
  with one on the constant wire, its output wires are the product of the matrices on its input
  wires, entry by entry, as the reference computes it.
\<close>

theorem product_circuit_sound:
  assumes "rows_ok s" and "build_gemm s rows cols inner = (s', G)"
    and "sat_rows s' (wz z)" and "z ! 0 = fe_one" and "list_all is_canonical z" and "gm_p G \<le> length z"
    and "i < rows" and "j < cols"
  shows "z ! (gm_c G + i * cols + j)
    = gemm_eval (take (rows * inner) (drop (gm_a G) z)) (take (inner * cols) (drop (gm_b G) z)) rows cols inner ! (i * cols + j)"
  using assms by (rule build_gemm_sound)

lemma product_circuit_sound_witness:
  "replicate 5 fe_one ! 3 = gemm_eval [fe_one] [fe_one] 1 1 1 ! 0"
proof -
  obtain s' G where b: "build_gemm (start_rows [fe_one]) 1 1 1 = (s', G)" by fastforce
  have G: "gm_a G = 1" "gm_b G = 2" "gm_c G = 3" "gm_p G = 4"
    using b by (auto simp: build_gemm_def gemm_layout_def start_rows_def Let_def)
  have r: "rows_ok (start_rows [fe_one])" by (simp add: rows_ok_def start_rows_def no_rows_def)
  have "sat_rows s' (wz (replicate 5 fe_one))"
    using b
    by (auto simp: build_gemm_def gemm_layout_def gemm_cells_def gemm_cell_def gemm_product_def start_rows_def Let_def
        sat_rows_def prod_constraint_def lin_constraint_def emit_def new_var_def next_row_def push_def no_rows_def mat_ring_def wz_def
        fe_dec_one less_Suc_eq nth_Cons numeral_eq_Suc split: nat.splits)
  then show ?thesis
    using product_circuit_sound [OF r b, of "replicate 5 fe_one" 0 0] by (simp add: G canonical_one numeral_eq_Suc)
qed

section \<open>Proofs of matrix products\<close>

text \<open>
  C10. An honest proof of a matrix product is accepted: for every product of reduced matrices
  with inner dimension at most 2^31 the verifier accepts the prover's proof (commitments,
  challenges, claim, sum-check, opening and direct evaluations).
\<close>

theorem honest_product_accepted:
  assumes "is_product A B C rows cols inner" and "inner \<le> 2 ^ 31"
  shows "verify_gemm_v2 (prove_gemm_v2 A B C rows cols inner) A B C"
  using assms by (rule honest_gemm_v2)

lemma honest_product_accepted_witness:
  "verify_gemm_v2 (prove_gemm_v2 [fe_one] [fe_one] [fe_one] 1 1 1) [fe_one] [fe_one] [fe_one]"
  by (rule honest_product_accepted) (simp_all add: is_product_def canon_def canonical_one fe_dec_one)

text \<open>
  C9. The verifier of matrix products accepts forgeries: a transcript that declares zero
  rounds makes both inner verifiers return zero, which is also their code for acceptance, so
  any reduced matrix of the right size is accepted as the product of any two matrices.
\<close>

theorem forged_product_accepted:
  assumes "canon C" and "length C = rows * cols"
  shows "verify_gemm_v2 (forged_gemm A B C rows cols inner) A B C"
  using assms by (rule forged_accepted)

lemma forged_product_accepted_witness:
  "verify_gemm_v2 (forged_gemm [fe_zero] [fe_zero] [fe_one] 1 1 1) [fe_zero] [fe_zero] [fe_one]
    \<and> \<not> is_product [fe_zero] [fe_zero] [fe_one] 1 1 1"
  using forged_product_accepted [of "[fe_one]" 1 1 "[fe_zero]" "[fe_zero]" 1]
  by (simp add: canon_def canonical_one is_product_def fe_dec_one fe_dec_zero)

text \<open>
  C33. The loop that finds the number of rounds ends with a result exactly when the dimension
  is at most 2^31 (beyond it the shift leaves the 32-bit word), and the result is the least
  exponent whose power of two covers the dimension.
\<close>

theorem round_count_terminates:
  "kdim_words 0 inner =
    (if unat inner \<le> 2 ^ 31 then Some (LEAST n. unat inner \<le> 2 ^ n) else None)"
proof -
  have "(LEAST n. unat inner \<le> 2 ^ n) = kdim (unat inner)"
  proof (rule Least_equality)
    show "kdim (unat inner) \<le> n" if "unat inner \<le> 2 ^ n" for n
      using kdim_least [of n "unat inner"] that by (meson leD leI)
  qed (rule kdim_bound)
  then show ?thesis by (simp add: kdim_words_result)
qed

text \<open>
  C32. Whatever the scores, and whether the softmax completes or stops at a broken contract,
  the trace of lookups it leaves balances against its own tables on both sides, the
  exponentials and the reciprocals.
\<close>

theorem softmax_trace_certified:
  assumes "seq * seq < 2 ^ 64"
  shows "sb_balanced (snd (softmax_rows S seq T (new_softmax_batch alpha))) (exp_at T) (rcp_at T)"
  using assms by (rule softmax_trace_balances)

definition rcp_tables :: Tables where
  "rcp_tables = \<lparr>tb_gelu = [], tb_sigmoid = [], tb_tanh = [], tb_exp = replicate 256 0, tb_rcp = build_rcp_table,
     tb_rsqrt = [], tb_certified = False\<rparr>"

lemma softmax_trace_certified_witness:
  "sb_balanced (snd (softmax_rows (replicate 4 fe_one) 2 rcp_tables (new_softmax_batch 9))) (exp_at rcp_tables) (rcp_at rcp_tables)"
  by (rule softmax_trace_certified) simp

section \<open>The node\<close>

text \<open>A node of one member with an epoch of one entry, before its start; and the same node with one sealed envelope.\<close>

definition lone_env :: NodeEnv where
  "lone_env = \<lparr>ne_shr = (\<lambda>_ _. 0), ne_ndebug = False, ne_junk = [], ne_dev = None,
     ne_item = \<lparr>wi_id = 0, wi_n = 0, wi_status = QUEUED, wi_submitted_at = 0, wi_completed_at = 0, wi_verified = False,
       wi_has_inputs = False, wi_A_in = [], wi_B_in = [], wi_tag_a = 0, wi_tag_b = 0, wi_has_result = False,
       wi_result_bytes = [], wi_ic = replicate 32 0, wi_model_id = 0, wi_commitment_checked = False\<rparr>\<rparr>"

definition lone_com :: NodeCommittee where
  "lone_com = \<lparr>nc_members = [], nc_poly = [], nc_dealt = 3, nc_t = 2, nc_self = 1, nc_own = [], nc_xe = G2Pt0,
     nc_wroot = zero_digest\<rparr>"

definition lone_votes :: Voting where
  "lone_votes = \<lparr>vo_prefs = [], vo_batches = [], vo_receipts = 0, vo_signed = [(7, 5) \<mapsto> ''00''],
     vo_adversarial = (\<lambda>_. False), vo_seeded = (\<lambda>_. False), vo_stake = stake_new default_params,
     vo_loop = isolated_node, vo_fd_member = (\<lambda>_. None), vo_fd_weight = (\<lambda>_. None)\<rparr>"

definition lone_node :: Node where
  "lone_node = node_genesis 1 lone_com lone_votes"

definition lone_envelope :: Envelope where
  "lone_envelope = \<lparr>env_R = G2Pt0, env_ct = [], env_tag = replicate 32 0, env_cth = replicate 32 0, env_hdr = replicate 56 0\<rparr>"

definition lone_sealed :: Node where
  "lone_sealed = store_envelope lone_envelope (replicate 192 0) lone_node"

lemma lone_node_ok: "node_ok lone_node" "node_books lone_node"
proof -
  show "node_ok lone_node" unfolding lone_node_def by (rule node_genesis_ok)
  show "node_books lone_node" by (simp add: lone_node_def node_books_def node_genesis_def fold_head_def Let_def)
qed

lemma lone_sealed_facts:
  "node_ok lone_sealed" "node_books lone_sealed" "length (ce_pool (nd_cer lone_sealed)) = 1"
  "\<not> me_decrypted (ce_pool (nd_cer lone_sealed) ! 0)" "ce_dec (nd_cer lone_sealed) = [replicate 192 0]"
  "nc_self (nd_com lone_sealed) = 1"
proof -
  show "node_ok lone_sealed" "node_books lone_sealed"
    using lone_node_ok by (simp_all add: lone_sealed_def store_envelope_def node_ok_def node_books_def Let_def)
  have "ce_pool (nd_cer lone_node) = []" "ce_dec (nd_cer lone_node) = []" "nd_com lone_node = lone_com"
    by (simp_all add: lone_node_def node_genesis_def Let_def)
  then show "length (ce_pool (nd_cer lone_sealed)) = 1" "\<not> me_decrypted (ce_pool (nd_cer lone_sealed) ! 0)"
    "ce_dec (nd_cer lone_sealed) = [replicate 192 0]" "nc_self (nd_com lone_sealed) = 1"
    by (simp_all add: lone_sealed_def store_envelope_def lone_com_def Let_def)
qed

text \<open>
  C4. Whatever reaches a node (messages of any type and content, connections coming and going,
  submitted work, the ticks of its clock), its accumulator satisfies the eight constraints of
  the entry circuit, both views of the digest chain agree, fewer entries than an epoch holds
  are counted, as many as the accumulator has absorbed, and no more than 256 fingerprints are
  kept.
\<close>

theorem steps_keep_fold:
  assumes "node_ok s" and "node_books s" and "(node_step env)\<^sup>*\<^sup>* s s'"
  shows "sat_relaxed (fx_A no_rows) (fx_B no_rows) (fx_C no_rows) (nd_rx s') = 8
    \<and> nd_limbs s' = map (\<lambda>v. limbs (fe_to_canonical v)) (nd_chain s')
    \<and> nd_count s' < nd_k s' \<and> acc_count (nd_acc s') = ucast (nd_count s') \<and> length (nd_seen s') \<le> 256"
  using steps_inv [OF assms(3)] assms(1,2) by (simp add: node_inv_def node_ok_def node_books_def)

lemma steps_keep_fold_witness:
  "nd_count (disconnect 3 lone_node) < nd_k (disconnect 3 lone_node)"
  using steps_keep_fold [OF lone_node_ok, of lone_env "disconnect 3 lone_node"] step_leave [of lone_env lone_node 3] by blast

text \<open>
  C12. One message blocks an envelope for its epoch: after a share under the receiver's own
  identity, whatever point it carries, the attempt to decrypt the envelope is refused, and it
  stays refused after any further step, unless that step ends the epoch and empties the pool.
\<close>

theorem share_blocks_envelope:
  assumes "node_ok s" and "node_books s"
    and "eix < length (ce_pool (nd_cer s))" and "\<not> me_decrypted (ce_pool (nd_cer s) ! eix)"
    and "eix < length (ce_dec (nd_cer s))" and "192 \<le> length (ce_dec (nd_cer s) ! eix)"
    and "length p = 200" and "unat (le_word (take 4 p) :: u32) = eix" and "le_word (take 4 (drop 4 p)) = nc_self (nd_com s)"
  shows "\<exists>t. on_message env fd \<lparr>m_type = 0x08, m_payload = p\<rparr> s = Some t
    \<and> try_decrypt_envelope env eix t = Some (False, t)
    \<and> (\<forall>u. node_step env t u \<longrightarrow> ce_pool (nd_cer u) = [] \<or> try_decrypt_envelope env eix u = Some (False, u))"
proof -
  obtain t where t: "handle_dec_share env p s = Some t" "blocked eix t" using own_share_blocks [OF assms(3-9)] by blast
  have "node_inv t" using handle_dec_share_inv [OF _ t(1)] assms(1,2) by (simp add: node_inv_def)
  then have "sealed eix u" if "node_step env t u" for u using node_step_sealed [OF that _ t(2)] by blast
  then show ?thesis using t blocked_refused by (fastforce simp: on_message_def sealed_def)
qed

lemma share_blocks_envelope_witness:
  "\<exists>t. on_message lone_env 3 \<lparr>m_type = 0x08, m_payload = [0, 0, 0, 0, 1, 0, 0, 0] @ replicate 192 0\<rparr> lone_sealed = Some t
    \<and> try_decrypt_envelope lone_env 0 t = Some (False, t)"
proof -
  let ?p = "[0, 0, 0, 0, 1, 0, 0, 0] @ replicate 192 0 :: bytes"
  have "unat (le_word (take 4 ?p) :: u32) = 0" "le_word (take 4 (drop 4 ?p)) = (1 :: u32)" by code_simp+
  then show ?thesis
    using share_blocks_envelope [of lone_sealed 0 ?p lone_env 3] lone_sealed_facts by auto
qed

text \<open>
  C13. Any decree of at least 32 bytes whose fingerprint is new joins the digest chain: the
  handler always returns, and the chain it leaves ends with the element the payload encodes,
  or zero when it encodes none, whether or not that element follows from the chain before.
\<close>

theorem any_decree_joins_chain:
  assumes "node_ok s" and "fnv1a p \<notin> set (nd_seen s)" and "32 \<le> length p"
  shows "\<exists>s'. handle_decree env p s = Some s' \<and> nd_chain s' = nd_chain s @ [fe_from_payload p]"
  using assms by (rule decree_appended)

lemma any_decree_joins_chain_witness:
  "\<exists>s'. handle_decree lone_env (replicate 32 255) lone_node = Some s'
    \<and> nd_chain s' = nd_chain lone_node @ [fe_from_payload (replicate 32 255)]"
  by (rule any_decree_joins_chain [OF lone_node_ok(1)]) (simp_all add: lone_node_def node_genesis_def Let_def)



text \<open>
  C24. The header of an epoch does not bind its witness: with any commitment in it, the header
  that opens to a unit vector with blinding zero passes exactly when the header that opens to
  the zero vector with the scalar of the vector's base as blinding does, though the two carry
  different bytes.
\<close>

theorem headers_share_commitment:
  assumes "length hd52 = 52" and "length wb = 32" and "i < 16"
  shows "(header_binding (hd52 @ wb @ concat (map (le_bytes 8) [0, 0, 0, 0 :: u64]) @ fes_bytes (unit_witness i) @ rest)
      \<longleftrightarrow> header_binding (hd52 @ wb @ concat (map (le_bytes 8) (pedv_scalar i MOD)) @ fes_bytes (replicate 16 fe_zero) @ rest))
    \<and> fes_bytes (unit_witness i) \<noteq> fes_bytes (replicate 16 fe_zero)"
  using unit_headers [OF assms] unit_witness_bytes [OF assms(3)] by blast

lemma headers_share_commitment_witness:
  "header_binding (replicate 52 0 @ replicate 32 0 @ concat (map (le_bytes 8) [0, 0, 0, 0 :: u64]) @ fes_bytes (unit_witness 3) @ [])
    \<longleftrightarrow> header_binding (replicate 52 0 @ replicate 32 0 @ concat (map (le_bytes 8) (pedv_scalar 3 MOD)) @ fes_bytes (replicate 16 fe_zero) @ [])"
  using headers_share_commitment [of "replicate 52 0" "replicate 32 0" 3 "[]"] by simp

text \<open>
  C28. Recomputing the work of an epoch is the comparison with a constant: whatever digest
  ends the chain, the node's own receipt is 262144, and the check of a peer's claim, which
  multiplies two matrices and verifies a proof, accepts exactly that number.
\<close>

theorem epoch_weight_constant:
  "(verify_peer_epoch_pouw chain_end claimed \<longleftrightarrow> claimed = 262144)
    \<and> run_epoch_pouw env s = Some (s\<lparr>nd_weight := 262144\<rparr>)"
  by (simp add: peer_weight run_epoch_pouw_weight)



text \<open>
  C23. A member whose second accepted vote of a round names another preference is marked as
  adversarial and left without stake and without weight in the sampling; every other member
  keeps stake and weight, and a repeated vote with the same preference changes nothing.
\<close>

theorem equivocator_excised:
  assumes "vo_signed v (m, rnd) = Some h" and "h \<noteq> bytes_hex (to_bytes pref)" and "j \<noteq> m"
  shows "vo_adversarial (check_equivocation m rnd pref v) m
    \<and> active_weight (vo_stake (check_equivocation m rnd pref v)) m = 0
    \<and> weight_of (vo_loop (check_equivocation m rnd pref v)) m = 0
    \<and> weight_of (vo_loop (check_equivocation m rnd pref v)) j = weight_of (vo_loop v) j
    \<and> bonds_of (vo_stake (check_equivocation m rnd pref v)) j = bonds_of (vo_stake v) j
    \<and> (h = bytes_hex (to_bytes pref') \<longrightarrow> check_equivocation m rnd pref' v = v)"
  using equivocation_excised [OF assms(1,2)] assms honest_round_kept by auto

lemma equivocator_excised_witness:
  "vo_adversarial (check_equivocation 7 5 zero_digest lone_votes) 7"
proof -
  have len: "length (bytes_hex (to_bytes zero_digest)) = 64" by code_simp
  have "''00'' \<noteq> bytes_hex (to_bytes zero_digest)"
  proof
    assume "''00'' = bytes_hex (to_bytes zero_digest)"
    then have "length ''00'' = (64 :: nat)" using len by (simp only:)
    then show False by simp
  qed
  then show ?thesis using equivocator_excised [of lone_votes 7 5 "''00''" zero_digest 8] by (simp add: lone_votes_def)
qed

end
